(* ===== verification/Prelude.thy ===== *)
theory Prelude
  imports Main "HOL-Library.Word" "HOL-Library.Monad_Syntax" "HOL-Library.Signed_Division"
begin

section \<open>Shared vocabulary of the development\<close>

text \<open>
  What every component theory uses: the names of Rust's machine integers, the casts between them
  (\<open>as i32\<close>, \<open>as u8\<close>, \<dots>), the result type of code that may fail to return, and generic lemmas
  on lists and folds.

  Rust's \<open>i32\<close>/\<open>i64\<close> counters and coordinates are \<open>int\<close>; where the code narrows or shifts them,
  the width is written out with the casts below. Values whose wrap-around is part of the algorithm
  (the generator's 48-bit state, the FNV hash, the \<open>u16\<close> quantities, the splitmix noise, the bit
  patterns of \<open>f64\<close> constants) are words of their width.

  A method that may panic or loop for ever returns an \<open>option\<close>: \<open>None\<close> is "does not return",
  so a theorem that it returns is a theorem that the result is \<open>Some\<close>.
\<close>

named_theorems bt_const "numeric constants of the game, unfolded"
named_theorems bt_def "definitions of small accessors, unfolded by automation"

type_synonym u8 = "8 word"
type_synonym u16 = "16 word"
type_synonym u32 = "32 word"
type_synonym u64 = "64 word"
type_synonym i32 = int
type_synonym i64 = int

subsection \<open>Casts\<close>

definition as_i32 :: "int \<Rightarrow> i32" where
  "as_i32 n = signed_take_bit 31 n"

definition as_i64 :: "int \<Rightarrow> i64" where
  "as_i64 n = signed_take_bit 63 n"

definition as_i16 :: "int \<Rightarrow> int" where
  "as_i16 n = signed_take_bit 15 n"

definition in_i16 :: "int \<Rightarrow> bool" where
  "in_i16 n \<longleftrightarrow> - 32768 \<le> n \<and> n < 32768"

definition in_i32 :: "int \<Rightarrow> bool" where
  "in_i32 n \<longleftrightarrow> - 2147483648 \<le> n \<and> n < 2147483648"

definition in_i64 :: "int \<Rightarrow> bool" where
  "in_i64 n \<longleftrightarrow> - 9223372036854775808 \<le> n \<and> n < 9223372036854775808"

definition of_bool_i :: "bool \<Rightarrow> int" where
  "of_bool_i b = (if b then 1 else 0)"

lemma as_i16_id [simp]: "in_i16 n \<Longrightarrow> as_i16 n = n"
  by (simp add: as_i16_def in_i16_def signed_take_bit_int_eq_self)

lemma as_i32_id [simp]: "in_i32 n \<Longrightarrow> as_i32 n = n"
  by (simp add: as_i32_def in_i32_def signed_take_bit_int_eq_self)

lemma as_i64_id [simp]: "in_i64 n \<Longrightarrow> as_i64 n = n"
  by (simp add: as_i64_def in_i64_def signed_take_bit_int_eq_self)

lemma in_i32_as_i32 [simp]: "in_i32 (as_i32 n)"
proof -
  have "- (2 ^ 31) \<le> signed_take_bit 31 n" "signed_take_bit 31 n < 2 ^ 31"
    by (simp_all del: power_numeral)
  then show ?thesis by (simp add: in_i32_def as_i32_def)
qed

lemma in_i32_in_i64: "in_i32 n \<Longrightarrow> in_i64 n"
  by (simp add: in_i32_def in_i64_def)

lemma of_bool_i_simps [simp]: "of_bool_i True = 1" "of_bool_i False = 0"
  by (simp_all add: of_bool_i_def)

lemma of_bool_i_neq_0 [simp]: "(of_bool_i b \<noteq> 0) = b" "(of_bool_i b = 0) = (\<not> b)"
  by (cases b; simp)+

lemma in_i32_of_bool_i [simp]: "in_i32 (of_bool_i b)"
  by (simp add: in_i32_def of_bool_i_def)

subsection \<open>Lists of consecutive integers\<close>

text \<open>Rust's \<open>for i in a..b\<close> is a fold over \<open>[a..<<b]\<close>, written \<open>range a b\<close>.\<close>

definition range_i :: "int \<Rightarrow> int \<Rightarrow> int list" where
  "range_i a b = [a..b - 1]"

lemma set_range_i [simp]: "set (range_i a b) = {a..<b}"
  by (auto simp: range_i_def)

lemma distinct_range_i [simp]: "distinct (range_i a b)"
  by (simp add: range_i_def)

lemma range_i_Nil [simp]: "b \<le> a \<Longrightarrow> range_i a b = []"
  by (simp add: range_i_def)

lemma range_i_Cons: "a < b \<Longrightarrow> range_i a b = a # range_i (a + 1) b"
  by (simp add: range_i_def upto_rec1)

lemma range_i_snoc: "a < b \<Longrightarrow> range_i a b = range_i a (b - 1) @ [b - 1]"
  by (simp add: range_i_def upto_rec2)

lemma length_range_i [simp]: "length (range_i a b) = nat (b - a)"
  by (simp add: range_i_def)

lemma nth_range_i: "i < nat (b - a) \<Longrightarrow> range_i a b ! i = a + int i"
  by (simp add: range_i_def)

subsection \<open>Folds and lists\<close>

lemma fold_preserves:
  assumes "P s" and "\<And>x s. x \<in> set xs \<Longrightarrow> P s \<Longrightarrow> P (f x s)"
  shows "P (fold f xs s)"
  using assms by (induction xs arbitrary: s) auto

lemma fold_same:
  assumes "\<And>x s. x \<in> set xs \<Longrightarrow> g (f x s) = g s"
  shows "g (fold f xs s) = g s"
  using assms by (induction xs arbitrary: s) auto

text \<open>Nested loops \<open>for y { for x { .. } }\<close> as one fold over positions.\<close>

definition positions :: "int list \<Rightarrow> int list \<Rightarrow> (int \<times> int) list" where
  "positions xs ys = concat (map (\<lambda>y. map (\<lambda>x. (x, y)) xs) ys)"

lemma set_positions [simp]: "set (positions xs ys) = set xs \<times> set ys"
  by (auto simp: positions_def)

lemma distinct_positions [simp]: "distinct xs \<Longrightarrow> distinct ys \<Longrightarrow> distinct (positions xs ys)"
  by (induction ys) (auto simp: positions_def distinct_map inj_on_def)

lemma fold_nested:
  "fold (\<lambda>y s. fold (\<lambda>x s. f x y s) xs s) ys s = fold (\<lambda>p s. f (fst p) (snd p) s) (positions xs ys) s"
  by (induction ys arbitrary: s) (simp_all add: positions_def fold_map comp_def)

lemma nth_list_update_ne: "i \<noteq> j \<Longrightarrow> (xs[i := v]) ! j = xs ! j"
  by simp

lemma find_SomeD: "List.find P xs = Some x \<Longrightarrow> x \<in> set xs \<and> P x"
  by (auto simp: find_Some_iff)

lemma all_less_Suc: "(\<forall>i < Suc n. P i) \<longleftrightarrow> P n \<and> (\<forall>i < n. P i)"
  by (auto simp: less_Suc_eq)

subsection \<open>Code that may not return\<close>

lemma bind_SomeI: "m = Some x \<Longrightarrow> f x = Some y \<Longrightarrow> Option.bind m f = Some y"
  by simp

lemma bind_eq_SomeE:
  assumes "Option.bind m f = Some y"
  obtains x where "m = Some x" "f x = Some y"
  using assms by (cases m) auto

text \<open>\<open>returns P m\<close>: the computation returns, and its result satisfies \<open>P\<close>.\<close>

definition returns :: "('a \<Rightarrow> bool) \<Rightarrow> 'a option \<Rightarrow> bool" where
  "returns P m \<longleftrightarrow> (\<exists>x. m = Some x \<and> P x)"

lemma returns_Some [simp]: "returns P (Some x) = P x"
  by (simp add: returns_def)

lemma returns_None [simp]: "\<not> returns P None"
  by (simp add: returns_def)

lemma returns_bind:
  assumes "returns Q m" and "\<And>x. m = Some x \<Longrightarrow> Q x \<Longrightarrow> returns P (f x)"
  shows "returns P (Option.bind m f)"
  using assms by (auto simp: returns_def)

lemma returns_mono: "returns Q m \<Longrightarrow> (\<And>x. m = Some x \<Longrightarrow> Q x \<Longrightarrow> P x) \<Longrightarrow> returns P m"
  by (auto simp: returns_def)

lemma returnsE:
  assumes "returns P m" obtains x where "m = Some x" "P x"
  using assms by (auto simp: returns_def)

lemma returns_conj: "returns P m \<Longrightarrow> returns Q m \<Longrightarrow> returns (\<lambda>x. P x \<and> Q x) m"
  by (auto simp: returns_def)

text \<open>A left fold whose step may not return.\<close>

fun fold_opt :: "('a \<Rightarrow> 's \<Rightarrow> 's option) \<Rightarrow> 'a list \<Rightarrow> 's \<Rightarrow> 's option" where
  "fold_opt f [] s = Some s"
| "fold_opt f (x # xs) s = do { s' \<leftarrow> f x s; fold_opt f xs s' }"

lemma fold_opt_append:
  "fold_opt f (xs @ ys) s = do { s' \<leftarrow> fold_opt f xs s; fold_opt f ys s' }"
proof (induction xs arbitrary: s)
  case (Cons x xs)
  then show ?case by (cases "f x s") auto
qed simp

lemma returns_fold_opt:
  assumes "P s" and "\<And>x s. x \<in> set xs \<Longrightarrow> P s \<Longrightarrow> returns P (f x s)"
  shows "returns P (fold_opt f xs s)"
  using assms
proof (induction xs arbitrary: s)
  case (Cons x xs)
  have "returns P (f x s)" using Cons.prems by simp
  then show ?case
    by (auto intro!: returns_bind [where Q = P] Cons.IH Cons.prems(2))
qed simp

lemma fold_opt_SomeD:
  assumes "fold_opt f xs s = Some s'" and "P s"
    and "\<And>x s t. x \<in> set xs \<Longrightarrow> P s \<Longrightarrow> f x s = Some t \<Longrightarrow> P t"
  shows "P s'"
  using assms
proof (induction xs arbitrary: s)
  case (Cons x xs)
  then show ?case by (auto elim!: bind_eq_SomeE)
qed simp

end
