(* ===== verification/Constants.thy ===== *)
theory Constants
  imports Prelude
begin

section \<open>The constants of \<open>constants.rs\<close>\<close>

text \<open>
  The game's numbers, as \<open>bt-core/src/constants.rs\<close> lists them, for every constant the engine
  reads. All are in the collection \<open>bt_const\<close>; \<open>simp add: bt_const\<close> turns a goal about them into
  one about numerals. The three \<open>f64\<close> keep probabilities are given by their IEEE 754 bit patterns
  (the literals 0.21, 0.02 and 1.0 rounded to the nearest double).
\<close>

definition BT_INVISIBLE :: int where
  [bt_const]: "BT_INVISIBLE = - 1"

definition BT_IVORY :: int where
  [bt_const]: "BT_IVORY = 1"

definition BT_GREEN :: int where
  [bt_const]: "BT_GREEN = 6"

definition BT_NEUTRAL :: int where
  [bt_const]: "BT_NEUTRAL = 9"

definition BT_STRUCT :: int where
  [bt_const]: "BT_STRUCT = 20"

definition BT_HAPPY :: int where
  [bt_const]: "BT_HAPPY = 21"

definition BT_UNHAPPY :: int where
  [bt_const]: "BT_UNHAPPY = 22"

definition BT_GIMP_ID :: int where
  [bt_const]: "BT_GIMP_ID = 23"

definition BT_DIE_1 :: int where
  [bt_const]: "BT_DIE_1 = 24"

definition BT_HAPPY_VAL :: int where
  [bt_const]: "BT_HAPPY_VAL = 150"

definition BT_BOARD_WTH :: int where
  [bt_const]: "BT_BOARD_WTH = 10"

definition BT_BOARD_HGT :: int where
  [bt_const]: "BT_BOARD_HGT = 28"

definition BT_FAST_DROP_TIME :: int where
  [bt_const]: "BT_FAST_DROP_TIME = 10"

definition BT_DROP_TIME :: int where
  [bt_const]: "BT_DROP_TIME = 512"

definition BT_SLIDE_TIME :: int where
  [bt_const]: "BT_SLIDE_TIME = 150"

definition BT_DEFAULT_X :: int where
  [bt_const]: "BT_DEFAULT_X = 5"

definition BT_DEFAULT_Y :: int where
  [bt_const]: "BT_DEFAULT_Y = 0"

definition BT_PIECE_WIDTH :: int where
  [bt_const]: "BT_PIECE_WIDTH = 8"

definition BT_PIECE_HEIGHT :: int where
  [bt_const]: "BT_PIECE_HEIGHT = 8"

definition BT_EL_PIECE :: int where
  [bt_const]: "BT_EL_PIECE = 1"

definition BT_REL_PIECE :: int where
  [bt_const]: "BT_REL_PIECE = 2"

definition BT_SL_RT_PIECE :: int where
  [bt_const]: "BT_SL_RT_PIECE = 3"

definition BT_SL_LF_PIECE :: int where
  [bt_const]: "BT_SL_LF_PIECE = 4"

definition BT_LONG_PIECE :: int where
  [bt_const]: "BT_LONG_PIECE = 5"

definition BT_PLUG_PIECE :: int where
  [bt_const]: "BT_PLUG_PIECE = 6"

definition BT_BOX_PIECE :: int where
  [bt_const]: "BT_BOX_PIECE = 7"

definition BT_DIE_PIECE :: int where
  [bt_const]: "BT_DIE_PIECE = 8"

definition BT_HAP_PIECE :: int where
  [bt_const]: "BT_HAP_PIECE = 9"

definition BT_WEIRD_OFFS :: int where
  [bt_const]: "BT_WEIRD_OFFS = 9"

definition BT_DOG_PIECE :: int where
  [bt_const]: "BT_DOG_PIECE = 10"

definition BT_RDOG_PIECE :: int where
  [bt_const]: "BT_RDOG_PIECE = 11"

definition BT_CAP_PIECE :: int where
  [bt_const]: "BT_CAP_PIECE = 12"

definition BT_WALL_PIECE :: int where
  [bt_const]: "BT_WALL_PIECE = 13"

definition BT_TOWER_PIECE :: int where
  [bt_const]: "BT_TOWER_PIECE = 14"

definition BT_STAR_PIECE :: int where
  [bt_const]: "BT_STAR_PIECE = 15"

definition BT_WLONG_PIECE :: int where
  [bt_const]: "BT_WLONG_PIECE = 16"

definition BT_4X4_PIECE :: int where
  [bt_const]: "BT_4X4_PIECE = 17"

definition BT_LONG_DONG_PIECE :: int where
  [bt_const]: "BT_LONG_DONG_PIECE = 18"

definition BT_MAX_PIECES :: int where
  [bt_const]: "BT_MAX_PIECES = 18"

definition BT_BROKEN_PROB :: int where
  [bt_const]: "BT_BROKEN_PROB = 10"

definition BT_BAD_MOVE :: int where
  [bt_const]: "BT_BAD_MOVE = 0"

definition BT_NEAR_DEATH :: int where
  [bt_const]: "BT_NEAR_DEATH = 1"

definition BT_MISSED_SMILEY :: int where
  [bt_const]: "BT_MISSED_SMILEY = 2"

definition BT_FALL_OUT_LEDGE :: int where
  [bt_const]: "BT_FALL_OUT_LEDGE = 2"

definition BT_BOTTLE_X :: int where
  [bt_const]: "BT_BOTTLE_X = 3"

definition BT_BOTTLE_Y :: int where
  [bt_const]: "BT_BOTTLE_Y = 4"

definition BT_LINES_TIL_BAZ :: int where
  [bt_const]: "BT_LINES_TIL_BAZ = 20"

definition BT_DEFAULT_KEEP_PROB :: u64 where
  [bt_const]: "BT_DEFAULT_KEEP_PROB = 0x3FCAE147AE147AE1"

definition BT_EXOTIC_KEEP_PROB :: u64 where
  [bt_const]: "BT_EXOTIC_KEEP_PROB = 0x3F947AE147AE147B"

definition BT_DIE_KEEP_PROB :: u64 where
  [bt_const]: "BT_DIE_KEEP_PROB = 0x3FF0000000000000"

definition BT_ARSENAL_SIZE :: nat where
  [bt_const]: "BT_ARSENAL_SIZE = 10"

definition BT_MAX_WEAPONS :: nat where
  [bt_const]: "BT_MAX_WEAPONS = 34"

end
