(* ===== verification/Weapons.thy ===== *)
theory Weapons
  imports Constants
begin

section \<open>Weapon tokens, active flags and the weapon table\<close>

text \<open>
  \<open>bt-core/src/weapons.rs\<close>: the 34 tokens with their wire indices, the per-weapon active flags
  (\<open>BTActive[]\<close>) and the price/duration table of the bazaar. The display strings of the table are
  left out: no rule reads them. \<open>WeaponToken::Gimp\<close> is \<open>GimpW\<close> here, because a cell kind is
  called \<open>Gimp\<close> as well.
\<close>

datatype weapon_token =
    FearedWeird | FourByFour | Hatter | Upbyside | FallOut | Swap | Lawyers
  | RiseUp | FlipOut | Speedy | Missing | PieceIt | Blind | Mondale
  | Keating | Carter | Reagan | Ames | Ace | Condor | NiceDay
  | SoLong | NoDice | Bug | Bottle | NoSlide | Susan | Meadow
  | Mirror | Twilight | Slick | Broken | Force | GimpW

definition ALL_tokens :: "weapon_token list" where
  "ALL_tokens =
    [FearedWeird, FourByFour, Hatter, Upbyside, FallOut, Swap, Lawyers,
     RiseUp, FlipOut, Speedy, Missing, PieceIt, Blind, Mondale,
     Keating, Carter, Reagan, Ames, Ace, Condor, NiceDay,
     SoLong, NoDice, Bug, Bottle, NoSlide, Susan, Meadow,
     Mirror, Twilight, Slick, Broken, Force, GimpW]"

primrec index :: "weapon_token \<Rightarrow> nat" where
  "index FearedWeird = 0"
| "index FourByFour = 1"
| "index Hatter = 2"
| "index Upbyside = 3"
| "index FallOut = 4"
| "index Swap = 5"
| "index Lawyers = 6"
| "index RiseUp = 7"
| "index FlipOut = 8"
| "index Speedy = 9"
| "index Missing = 10"
| "index PieceIt = 11"
| "index Blind = 12"
| "index Mondale = 13"
| "index Keating = 14"
| "index Carter = 15"
| "index Reagan = 16"
| "index Ames = 17"
| "index Ace = 18"
| "index Condor = 19"
| "index NiceDay = 20"
| "index SoLong = 21"
| "index NoDice = 22"
| "index Bug = 23"
| "index Bottle = 24"
| "index NoSlide = 25"
| "index Susan = 26"
| "index Meadow = 27"
| "index Mirror = 28"
| "index Twilight = 29"
| "index Slick = 30"
| "index Broken = 31"
| "index Force = 32"
| "index GimpW = 33"

definition from_index :: "int \<Rightarrow> weapon_token option" where
  "from_index i =
     (if 0 \<le> i \<and> i < int BT_MAX_WEAPONS then Some (ALL_tokens ! nat i) else None)"

subsection \<open>Active flags\<close>

record active_flags =
  counts :: "i32 list"

definition flags_new :: active_flags where
  "flags_new = \<lparr>counts = replicate BT_MAX_WEAPONS 0\<rparr>"

definition is_active :: "active_flags \<Rightarrow> weapon_token \<Rightarrow> bool" where
  "is_active f token \<longleftrightarrow> counts f ! index token \<noteq> 0"

definition flags_count :: "active_flags \<Rightarrow> weapon_token \<Rightarrow> i32" where
  "flags_count f token = counts f ! index token"

definition activate :: "active_flags \<Rightarrow> weapon_token \<Rightarrow> active_flags" where
  "activate f token = f\<lparr>counts := (counts f)[index token := counts f ! index token + 1]\<rparr>"

definition deactivate :: "active_flags \<Rightarrow> weapon_token \<Rightarrow> active_flags" where
  "deactivate f token = f\<lparr>counts := (counts f)[index token := counts f ! index token - 1]\<rparr>"

definition flags_set :: "active_flags \<Rightarrow> weapon_token \<Rightarrow> bool \<Rightarrow> active_flags" where
  "flags_set f token on = f\<lparr>counts := (counts f)[index token := (if on then 1 else 0)]\<rparr>"

definition flags_clear :: "active_flags \<Rightarrow> active_flags" where
  "flags_clear f = f\<lparr>counts := replicate BT_MAX_WEAPONS 0\<rparr>"

definition flags_raw :: "active_flags \<Rightarrow> i32 list" where
  "flags_raw f = counts f"

definition flags_set_raw :: "active_flags \<Rightarrow> i32 list \<Rightarrow> active_flags" where
  "flags_set_raw f cs = f\<lparr>counts := cs\<rparr>"

subsection \<open>The weapon table\<close>

record weapon_info =
  wi_token :: weapon_token
  wi_price :: u16
  wi_duration :: u16

definition weapon_table :: "weapon_info list" where
  "weapon_table =
    [\<lparr>wi_token = FearedWeird, wi_price = 400, wi_duration = 3\<rparr>,
     \<lparr>wi_token = FourByFour, wi_price = 425, wi_duration = 10\<rparr>,
     \<lparr>wi_token = Hatter, wi_price = 375, wi_duration = 5\<rparr>,
     \<lparr>wi_token = Upbyside, wi_price = 125, wi_duration = 10\<rparr>,
     \<lparr>wi_token = FallOut, wi_price = 250, wi_duration = 10\<rparr>,
     \<lparr>wi_token = Swap, wi_price = 1200, wi_duration = 0\<rparr>,
     \<lparr>wi_token = Lawyers, wi_price = 350, wi_duration = 5\<rparr>,
     \<lparr>wi_token = RiseUp, wi_price = 75, wi_duration = 0\<rparr>,
     \<lparr>wi_token = FlipOut, wi_price = 15, wi_duration = 0\<rparr>,
     \<lparr>wi_token = Speedy, wi_price = 275, wi_duration = 10\<rparr>,
     \<lparr>wi_token = Missing, wi_price = 50, wi_duration = 0\<rparr>,
     \<lparr>wi_token = PieceIt, wi_price = 100, wi_duration = 0\<rparr>,
     \<lparr>wi_token = Blind, wi_price = 400, wi_duration = 0\<rparr>,
     \<lparr>wi_token = Mondale, wi_price = 150, wi_duration = 50\<rparr>,
     \<lparr>wi_token = Keating, wi_price = 425, wi_duration = 0\<rparr>,
     \<lparr>wi_token = Carter, wi_price = 250, wi_duration = 20\<rparr>,
     \<lparr>wi_token = Reagan, wi_price = 425, wi_duration = 0\<rparr>,
     \<lparr>wi_token = Ames, wi_price = 50, wi_duration = 20\<rparr>,
     \<lparr>wi_token = Ace, wi_price = 100, wi_duration = 30\<rparr>,
     \<lparr>wi_token = Condor, wi_price = 225, wi_duration = 40\<rparr>,
     \<lparr>wi_token = NiceDay, wi_price = 50, wi_duration = 0\<rparr>,
     \<lparr>wi_token = SoLong, wi_price = 100, wi_duration = 10\<rparr>,
     \<lparr>wi_token = NoDice, wi_price = 600, wi_duration = 35\<rparr>,
     \<lparr>wi_token = Bug, wi_price = 320, wi_duration = 0\<rparr>,
     \<lparr>wi_token = Bottle, wi_price = 150, wi_duration = 10\<rparr>,
     \<lparr>wi_token = NoSlide, wi_price = 125, wi_duration = 10\<rparr>,
     \<lparr>wi_token = Susan, wi_price = 600, wi_duration = 0\<rparr>,
     \<lparr>wi_token = Meadow, wi_price = 475, wi_duration = 10\<rparr>,
     \<lparr>wi_token = Mirror, wi_price = 500, wi_duration = 10\<rparr>,
     \<lparr>wi_token = Twilight, wi_price = 450, wi_duration = 0\<rparr>,
     \<lparr>wi_token = Slick, wi_price = 650, wi_duration = 3\<rparr>,
     \<lparr>wi_token = Broken, wi_price = 325, wi_duration = 5\<rparr>,
     \<lparr>wi_token = Force, wi_price = 325, wi_duration = 5\<rparr>,
     \<lparr>wi_token = GimpW, wi_price = 25, wi_duration = 0\<rparr>]"

definition duration_of :: "weapon_token \<Rightarrow> i32" where
  "duration_of token = uint (wi_duration (weapon_table ! index token))"

definition price_of :: "weapon_token \<Rightarrow> int" where
  "price_of token = uint (wi_price (weapon_table ! index token))"

subsection \<open>Lemmas\<close>

lemma length_ALL_tokens [simp]: "length ALL_tokens = 34"
  by (simp add: ALL_tokens_def)

lemma index_less [simp]: "index t < 34"
  by (cases t) simp_all

lemma ALL_tokens_index [simp]: "ALL_tokens ! index t = t"
  by (cases t) (simp_all add: ALL_tokens_def)

lemma index_inject [simp]: "index s = index t \<longleftrightarrow> s = t"
  by (metis ALL_tokens_index)

lemma index_ALL_tokens: "i < 34 \<Longrightarrow> index (ALL_tokens ! i) = i"
proof -
  have "map index ALL_tokens = [0..<34]"
    by (simp add: ALL_tokens_def upt_rec)
  then show "i < 34 \<Longrightarrow> index (ALL_tokens ! i) = i"
    by (metis length_ALL_tokens nth_map nth_upt add_0)
qed

lemma set_ALL_tokens: "t \<in> set ALL_tokens"
  by (metis ALL_tokens_index index_less length_ALL_tokens nth_mem)

lemma from_index_index [simp]: "from_index (int (index t)) = Some t"
  by (simp add: from_index_def bt_const)

lemma from_index_SomeD: "from_index i = Some t \<Longrightarrow> i = int (index t)"
  by (auto simp: from_index_def bt_const index_ALL_tokens nat_less_iff split: if_splits)

lemma from_index_eq_Some: "from_index i = Some t \<longleftrightarrow> i = int (index t)"
  using from_index_SomeD by auto

lemma from_index_None: "from_index i = None \<longleftrightarrow> i < 0 \<or> 34 \<le> i"
  by (auto simp: from_index_def bt_const)

instantiation weapon_token :: linorder
begin

definition less_eq_weapon_token :: "weapon_token \<Rightarrow> weapon_token \<Rightarrow> bool" where
  "less_eq_weapon_token s t \<longleftrightarrow> index s \<le> index t"

definition less_weapon_token :: "weapon_token \<Rightarrow> weapon_token \<Rightarrow> bool" where
  "less_weapon_token s t \<longleftrightarrow> index s < index t"

instance
  by standard (auto simp: less_eq_weapon_token_def less_weapon_token_def)

end

definition wf_flags :: "active_flags \<Rightarrow> bool" where
  "wf_flags f \<longleftrightarrow> length (counts f) = BT_MAX_WEAPONS"

lemma wf_flags_new [simp]: "wf_flags flags_new"
  by (simp add: wf_flags_def flags_new_def)

lemma wf_flags_set [simp]: "wf_flags (flags_set f t on) = wf_flags f"
  by (simp add: wf_flags_def flags_set_def)

lemma is_active_new [simp]: "\<not> is_active flags_new t"
  by (simp add: is_active_def flags_new_def bt_const)

lemma is_active_set [simp]:
  "wf_flags f \<Longrightarrow> is_active (flags_set f t on) s = (if s = t then on else is_active f s)"
  by (auto simp: wf_flags_def is_active_def flags_set_def bt_const nth_list_update)

lemma flags_set_raw_raw [simp]: "flags_set_raw f (flags_raw g) = \<lparr>counts = counts g\<rparr>"
  by (simp add: flags_set_raw_def flags_raw_def)

lemma length_weapon_table [simp]: "length weapon_table = 34"
  by (simp add: weapon_table_def)

lemma weapon_table_token: "wi_token (weapon_table ! index t) = t"
  by (cases t) (simp_all add: weapon_table_def)

lemma duration_of_nonneg [simp]: "0 \<le> duration_of t"
  by (simp add: duration_of_def)

lemma price_of_bounds: "15 \<le> price_of t \<and> price_of t \<le> 1200"
  by (cases t) (simp_all add: price_of_def weapon_table_def)

end
