(* ===== verification/Cells.thy ===== *)
theory Cells
  imports Constants
begin

section \<open>Board squares\<close>

text \<open>
  \<open>bt-core/src/cell.rs\<close>: what occupies a square of the board (\<open>CellKind\<close>), its funds value, its
  render id, and the four-integer wire form that carries a cell in a board transfer or a keyframe.
\<close>

datatype cell_kind =
    Color i32
  | Die u8
  | Happy bool
  | Structure
  | Gimp i32
  | Invisible i32 i32

record cell =
  c_kind :: cell_kind
  c_hidden :: bool

fun kind_value :: "cell_kind \<Rightarrow> i32" where
  "kind_value (Die v) = uint v"
| "kind_value (Happy landed) = (if landed then 0 else BT_HAPPY_VAL)"
| "kind_value (Gimp v) = v"
| "kind_value (Invisible i v) = v"
| "kind_value (Color c) = 0"
| "kind_value Structure = 0"

fun raw_id :: "cell_kind \<Rightarrow> i32" where
  "raw_id (Color c) = c"
| "raw_id (Die v) = BT_DIE_1 + uint v - 1"
| "raw_id (Happy landed) = (if landed then BT_UNHAPPY else BT_HAPPY)"
| "raw_id Structure = BT_STRUCT"
| "raw_id (Gimp v) = BT_GIMP_ID"
| "raw_id (Invisible i v) = i"

fun kind_removable :: "cell_kind \<Rightarrow> bool" where
  "kind_removable Structure = False"
| "kind_removable k = True"

definition cell_new :: "cell_kind \<Rightarrow> cell" where
  "cell_new k = \<lparr>c_kind = k, c_hidden = False\<rparr>"

definition color_cell :: "i32 \<Rightarrow> cell" where
  "color_cell c = cell_new (Color c)"

definition die_cell :: "u8 \<Rightarrow> cell" where
  "die_cell v = cell_new (Die v)"

definition happy_cell :: cell where
  "happy_cell = cell_new (Happy False)"

definition structure_cell :: cell where
  "structure_cell = cell_new Structure"

definition gimp_cell :: "i32 \<Rightarrow> cell" where
  "gimp_cell v = cell_new (Gimp v)"

definition cell_value :: "cell \<Rightarrow> i32" where
  "cell_value c = kind_value (c_kind c)"

definition cell_id :: "cell \<Rightarrow> i32" where
  "cell_id c = (if c_hidden c then - 1 else raw_id (c_kind c))"

definition is_removable :: "cell \<Rightarrow> bool" where
  "is_removable c = kind_removable (c_kind c)"

definition hide :: "cell \<Rightarrow> cell" where
  "hide c = c\<lparr>c_hidden := True\<rparr>"

definition cell_landed :: "cell \<Rightarrow> cell" where
  "cell_landed c = (case c_kind c of Happy l \<Rightarrow> c\<lparr>c_kind := Happy True\<rparr> | _ \<Rightarrow> c)"

subsection \<open>The wire form\<close>

text \<open>\<open>[i32; 4]\<close> is a list of four integers; \<open>decode\<close> reads its four entries.\<close>

definition encode :: "cell \<Rightarrow> i32 list" where
  "encode c =
     (let h = of_bool_i (c_hidden c) in
      case c_kind c of
        Color k \<Rightarrow> [1, k, 0, h]
      | Die v \<Rightarrow> [2, uint v, 0, h]
      | Happy landed \<Rightarrow> [3, of_bool_i landed, 0, h]
      | Structure \<Rightarrow> [4, 0, 0, h]
      | Gimp v \<Rightarrow> [5, v, 0, h]
      | Invisible i v \<Rightarrow> [6, i, v, h])"

definition decode :: "i32 list \<Rightarrow> cell option" where
  "decode q =
     (let k = (if q ! 0 = 1 then Some (Color (q ! 1))
               else if q ! 0 = 2 then Some (Die (word_of_int (q ! 1)))
               else if q ! 0 = 3 then Some (Happy (q ! 1 \<noteq> 0))
               else if q ! 0 = 4 then Some Structure
               else if q ! 0 = 5 then Some (Gimp (q ! 1))
               else if q ! 0 = 6 then Some (Invisible (q ! 1) (q ! 2))
               else None)
      in map_option (\<lambda>k. \<lparr>c_kind = k, c_hidden = (q ! 3 \<noteq> 0)\<rparr>) k)"

text \<open>An optional square: empty is four zeros (\<open>unwrap_or([0; 4])\<close> at the call sites).\<close>

definition encode_opt :: "cell option \<Rightarrow> i32 list" where
  "encode_opt c = (case c of Some c \<Rightarrow> encode c | None \<Rightarrow> [0, 0, 0, 0])"

subsection \<open>Lemmas\<close>

lemma length_encode [simp]: "length (encode c) = 4"
  by (simp add: encode_def Let_def split: cell_kind.split)

lemma length_encode_opt [simp]: "length (encode_opt c) = 4"
  by (simp add: encode_opt_def split: option.split)

lemma decode_encode [simp]: "decode (encode c) = Some c"
  by (cases c; cases "c_kind c") (auto simp: encode_def decode_def Let_def)

lemma decode_encode_opt [simp]: "decode (encode_opt c) = c"
  by (cases c) (simp_all add: encode_opt_def, simp add: decode_def)

text \<open>A cell whose integers are \<open>i32\<close> values, as the type of the code guarantees.\<close>

definition cell_i32 :: "cell \<Rightarrow> bool" where
  "cell_i32 c = (case c_kind c of Color k \<Rightarrow> in_i32 k | Gimp v \<Rightarrow> in_i32 v
     | Invisible i v \<Rightarrow> in_i32 i \<and> in_i32 v | _ \<Rightarrow> True)"

lemma encode_i32: "cell_i32 c \<Longrightarrow> n \<in> set (encode c) \<Longrightarrow> in_i32 n"
proof -
  have u: "in_i32 (uint v)" for v :: u8
    using uint_lt2p [of v] order_trans [of "- 2147483648" 0 "uint v"] by (simp add: in_i32_def)
  show "cell_i32 c \<Longrightarrow> n \<in> set (encode c) \<Longrightarrow> in_i32 n"
    by (cases "c_kind c") (auto simp: cell_i32_def encode_def Let_def u, auto simp: in_i32_def)
qed

lemma encode_opt_i32:
  "(\<And>d. c = Some d \<Longrightarrow> cell_i32 d) \<Longrightarrow> n \<in> set (encode_opt c) \<Longrightarrow> in_i32 n"
  by (cases c) (auto simp: encode_opt_def encode_i32, simp add: in_i32_def)

lemma cell_value_hide [simp]: "cell_value (hide c) = cell_value c"
  by (simp add: cell_value_def hide_def)

lemma is_removable_hide [simp]: "is_removable (hide c) = is_removable c"
  by (simp add: is_removable_def hide_def)

lemma cell_id_hide [simp]: "cell_id (hide c) = - 1"
  by (simp add: cell_id_def hide_def)

lemma cell_value_gimp [simp]: "cell_value (gimp_cell v) = v"
  by (simp add: cell_value_def gimp_cell_def cell_new_def)

lemma cell_landed_idem [simp]: "cell_landed (cell_landed c) = cell_landed c"
  by (simp add: cell_landed_def split: cell_kind.split)

lemma is_removable_structure [simp]: "\<not> is_removable structure_cell"
  by (simp add: is_removable_def structure_cell_def cell_new_def)

end
