(* ===== verification/Rng.thy ===== *)
theory Rng
  imports Constants
begin

unbundle bit_operations_syntax

section \<open>The deterministic generator\<close>

text \<open>
  \<open>bt-core/src/rng.rs\<close>: the POSIX \<open>drand48\<close> recurrence on a 48-bit state held in a \<open>u64\<close>, and the
  draws the engine takes from it. Every draw is a state transformer returning the value and the
  generator after it. \<open>drand48\<close> divides the state by \<open>2 ^ 48\<close> in \<open>f64\<close>, which is exact; the model
  returns the numerator, and \<open>frac_lt\<close> is the comparison \<open>x / 2^48 < p\<close> with an \<open>f64\<close> given by its
  bit pattern.

  The section on the period proves that the recurrence runs through all \<open>2 ^ 48\<close> states from any of
  them, and that every second state runs through all states of the same parity. This is what makes
  the engine's rejection loops end.
\<close>

record rng =
  rng_state :: u64

definition rng_new :: "u64 \<Rightarrow> rng" where
  "rng_new seed = \<lparr>rng_state = (push_bit 16 (seed AND 0xFFFFFFFF)) OR 0x330E\<rparr>"

definition rng_raw :: "rng \<Rightarrow> u64" where
  "rng_raw r = rng_state r"

definition rng_from_raw :: "u64 \<Rightarrow> rng" where
  "rng_from_raw s = \<lparr>rng_state = s\<rparr>"

definition next_state :: "rng \<Rightarrow> u64 \<times> rng" where
  "next_state r =
     (let s = (0x5DEECE66D * rng_state r + 0xB) AND (push_bit 48 1 - 1) in
      (s, r\<lparr>rng_state := s\<rparr>))"

definition rand :: "rng \<Rightarrow> i32 \<times> rng" where
  "rand r = (let (x, r) = next_state r in (as_i32 (uint (drop_bit 17 x)), r))"

definition rand_below :: "i32 \<Rightarrow> rng \<Rightarrow> i32 \<times> rng" where
  "rand_below n r = (let (x, r) = rand r in (x smod n, r))"

definition drand48 :: "rng \<Rightarrow> u64 \<times> rng" where
  "drand48 r = next_state r"

definition lrand48 :: "rng \<Rightarrow> i64 \<times> rng" where
  "lrand48 r = (let (x, r) = next_state r in (as_i64 (uint (drop_bit 17 x)), r))"

text \<open>\<open>x / 2^48 < p\<close> for the double \<open>p\<close> with bit pattern \<open>b\<close>: sign, exponent and mantissa are read
  off \<open>b\<close>, an infinity is above every fraction, and a NaN compares false.\<close>

definition frac_lt :: "u64 \<Rightarrow> u64 \<Rightarrow> bool" where
  "frac_lt x b =
     (let m = uint (b AND 0xFFFFFFFFFFFFF); e = nat (uint (drop_bit 52 b AND 0x7FF)) in
      if bit b 63 then False
      else if e = 0x7FF then m = 0
      else uint x * 2 ^ 1027 < (if e = 0 then m else 2 ^ 52 + m) * 2 ^ max e 1)"

subsection \<open>The recurrence on integers\<close>

definition lcg :: "int \<Rightarrow> int" where
  "lcg x = (25214903917 * x + 11) mod 2 ^ 48"

definition rng_int :: "rng \<Rightarrow> int" where
  "rng_int r = uint (rng_state r) mod 2 ^ 48"

lemma next_state_uint: "uint (fst (next_state r)) = lcg (uint (rng_state r))"
proof -
  have mask: "push_bit 48 1 - 1 = (mask 48 :: u64)" by (simp add: mask_eq_decr_exp push_bit_eq_mult)
  have "uint (fst (next_state r)) = (uint (0x5DEECE66D * rng_state r + 0xB :: u64)) mod 2 ^ 48"
    unfolding next_state_def Let_def mask
    unfolding fst_conv take_bit_eq_mask [symmetric] unsigned_take_bit_eq by (rule take_bit_eq_mod)
  also have "uint (0x5DEECE66D * rng_state r + 0xB :: u64)
      = (25214903917 * uint (rng_state r) + 11) mod 2 ^ 64"
    by (simp add: uint_word_ariths mod_simps)
  also have "\<dots> mod 2 ^ 48 = lcg (uint (rng_state r))"
    by (simp add: lcg_def mod_mod_cancel)
  finally show ?thesis .
qed

lemma next_state_state [simp]: "rng_state (snd (next_state r)) = fst (next_state r)"
  by (simp add: next_state_def Let_def)

lemma lcg_bounds: "0 \<le> lcg x" "lcg x < 2 ^ 48"
  by (simp_all add: lcg_def)

lemma next_state_less: "uint (fst (next_state r)) < 2 ^ 48"
  by (simp only: next_state_uint lcg_bounds)

subsection \<open>The period\<close>

definition geo :: "nat \<Rightarrow> int" where
  "geo n = (\<Sum>i < n. 25214903917 ^ i)"

lemma geo_0 [simp]: "geo 0 = 0"
  and geo_Suc [simp]: "geo (Suc n) = geo n + 25214903917 ^ n"
  by (simp_all add: geo_def)

lemma geo_power: "25214903917 ^ n - 1 = (25214903916 :: int) * geo n"
  by (induction n) (simp_all add: algebra_simps)

lemma geo_add: "geo (m + n) = geo m + 25214903917 ^ m * geo n"
  by (induction n) (simp_all add: algebra_simps power_add)

lemma geo_double: "geo (2 * m) = geo m * (1 + 25214903917 ^ m)"
  using geo_add [of m m] by (simp add: algebra_simps flip: mult_2)

lemma odd_geo: "odd (geo n) = odd n"
  by (induction n) auto

lemma mod4_power: "(25214903917 :: int) ^ m mod 4 = 1"
proof -
  have "(25214903917 :: int) ^ m mod 4 = (25214903917 mod 4) ^ m mod 4"
    by (rule power_mod [symmetric])
  then show ?thesis by simp
qed

lemma pow2_dvd_double:
  assumes "(b :: int) mod 4 = 1"
  shows "2 ^ Suc k dvd s * (1 + b) \<longleftrightarrow> 2 ^ k dvd s"
proof -
  have "\<exists>q. b = 4 * q + 1" using mod_eqE assms by (metis add.commute mult_div_mod_eq)
  then obtain q where q: "b = 4 * q + 1" by blast
  have split: "s * (1 + b) = 2 * (s * (2 * q + 1))" by (simp add: q algebra_simps)
  have "coprime (2 ^ k) (2 * q + 1)" by (simp add: coprime_left_2_iff_odd)
  then show ?thesis unfolding split by (simp add: coprime_dvd_mult_left_iff)
qed

lemma pow2_dvd_geo: "2 ^ k dvd geo n \<longleftrightarrow> 2 ^ k dvd n"
proof (induction k arbitrary: n)
  case (Suc k)
  show ?case
  proof (cases "even n")
    case True
    then obtain m where m: "n = 2 * m" by auto
    have "2 ^ Suc k dvd geo n \<longleftrightarrow> 2 ^ k dvd geo m"
      unfolding m geo_double by (rule pow2_dvd_double) (rule mod4_power)
    also have "\<dots> \<longleftrightarrow> 2 ^ Suc k dvd n" unfolding m Suc.IH by simp
    finally show ?thesis .
  next
    case False
    then have "\<not> 2 dvd geo n" by (simp add: odd_geo)
    then have "\<not> 2 ^ Suc k dvd geo n" by (metis dvd_mult_left power_Suc)
    moreover have "\<not> 2 ^ Suc k dvd n" using False by (metis dvd_mult_left power_Suc)
    ultimately show ?thesis by blast
  qed
qed simp

lemma mod_affine: "(a * (z mod m) + c) mod m = (a * z + c) mod (m :: int)"
  by (metis mod_add_left_eq mod_mult_right_eq)

lemma lcg_iter_mod: "(lcg ^^ n) x mod 2 ^ 48 = (25214903917 ^ n * x + 11 * geo n) mod 2 ^ 48"
proof (induction n)
  case (Suc n)
  have "(lcg ^^ Suc n) x mod 2 ^ 48 = (25214903917 * ((lcg ^^ n) x mod 2 ^ 48) + 11) mod 2 ^ 48"
    unfolding funpow.simps comp_def lcg_def mod_mod_trivial mod_affine ..
  also have "\<dots> = (25214903917 * (25214903917 ^ n * x + 11 * geo n) + 11) mod 2 ^ 48"
    unfolding Suc.IH mod_affine ..
  also have "25214903917 * (25214903917 ^ n * x + 11 * geo n) + 11
      = 25214903917 ^ Suc n * x + 11 * geo (Suc n)"
    using geo_add [of 1 n] geo_add [of n 1] by (simp add: algebra_simps)
  finally show ?case .
qed simp

lemma lcg_iter_fixed:
  assumes "(lcg ^^ n) x mod 2 ^ 48 = x mod 2 ^ 48"
  shows "(2::nat) ^ 48 dvd n"
proof -
  have "2 ^ 48 dvd (25214903917 ^ n * x + 11 * geo n) - x"
    using assms unfolding lcg_iter_mod by (simp only: mod_eq_dvd_iff)
  also have "(25214903917 ^ n * x + 11 * geo n) - x = geo n * (25214903916 * x + 11)"
    using geo_power [of n] by (simp add: algebra_simps)
  finally have "2 ^ 48 dvd geo n * (25214903916 * x + 11)" .
  moreover have "coprime (2 ^ 48) (25214903916 * x + 11)"
    by (simp only: coprime_power_left_iff coprime_left_2_iff_odd) simp
  ultimately have "2 ^ 48 dvd geo n" by (simp only: coprime_dvd_mult_left_iff)
  then show ?thesis by (simp only: pow2_dvd_geo)
qed

lemma lcg_iter_range: "0 \<le> x \<Longrightarrow> x < 2 ^ 48 \<Longrightarrow> (lcg ^^ n) x \<in> {0 ..< 2 ^ 48}"
  by (cases n) (use lcg_bounds in auto)

lemma lcg_iter_inj:
  assumes "0 \<le> x" "x < 2 ^ 48"
  shows "inj_on (\<lambda>n. (lcg ^^ n) x) {..< 2 ^ 48}"
proof (rule linorder_inj_onI)
  fix m n :: nat
  assume mn: "m < n" "m \<in> {..< 2 ^ 48}" "n \<in> {..< 2 ^ 48}"
  show "(lcg ^^ m) x \<noteq> (lcg ^^ n) x"
  proof
    assume eq: "(lcg ^^ m) x = (lcg ^^ n) x"
    have "(lcg ^^ (n - m)) ((lcg ^^ m) x) = (lcg ^^ n) x"
      using mn(1) by (simp add: funpow_add [symmetric, THEN fun_cong, unfolded comp_def])
    then have "(2::nat) ^ 48 dvd n - m" using lcg_iter_fixed [of "n - m" "(lcg ^^ m) x"] eq by simp
    then show False using mn by (auto dest: dvd_imp_le)
  qed
qed auto

lemma lcg_full_period:
  assumes "0 \<le> x" "x < 2 ^ 48" "0 \<le> y" "y < 2 ^ 48"
  shows "\<exists>n < 2 ^ 48. (lcg ^^ n) x = y"
proof -
  let ?f = "\<lambda>n. (lcg ^^ n) x"
  have sub: "?f ` {..< 2 ^ 48} \<subseteq> {0 ..< 2 ^ 48}"
    using lcg_iter_range [OF assms(1,2)] by auto
  have "card (?f ` {..< 2 ^ 48}) = 2 ^ 48"
    using card_image [OF lcg_iter_inj [OF assms(1,2)]] by simp
  also have "\<dots> = card {0 ..< 2 ^ 48 :: int}" by simp
  finally have "?f ` {..< 2 ^ 48} = {0 ..< 2 ^ 48}"
    by (intro card_subset_eq [OF _ sub]) auto
  then have "y \<in> ?f ` {..< 2 ^ 48}" using assms(3,4) by simp
  then show ?thesis by auto
qed

lemma odd_lcg: "odd (lcg x) = even x"
  by (simp add: lcg_def even_mod_2_iff odd_iff_mod_2_eq_one mod_mod_cancel) presburger

lemma odd_lcg_iter: "odd ((lcg ^^ n) x) = (odd x \<noteq> odd n)"
  by (induction n) (auto simp: odd_lcg)

text \<open>Two draws per attempt: the attempts see every state of the parity they start with.\<close>

lemma lcg_two_step_reaches:
  assumes "0 \<le> x" "x < 2 ^ 48" "0 \<le> y" "y < 2 ^ 48" "odd x = odd y"
  shows "\<exists>k. ((lcg ^^ 2) ^^ k) x = y"
proof -
  obtain n where n: "(lcg ^^ n) x = y" using lcg_full_period [OF assms(1-4)] by blast
  then have "even n" using odd_lcg_iter [of n x] assms(5) by auto
  then obtain k where "n = 2 * k" by auto
  then have "((lcg ^^ 2) ^^ k) x = y" using n by (simp add: funpow_mult)
  then show ?thesis by blast
qed

subsection \<open>What a draw does\<close>

lemma rand_snd [simp]: "snd (rand r) = snd (next_state r)"
  and rand_below_snd [simp]: "snd (rand_below n r) = snd (next_state r)"
  and drand48_snd [simp]: "snd (drand48 r) = snd (next_state r)"
  and lrand48_snd [simp]: "snd (lrand48 r) = snd (next_state r)"
  by (simp_all add: rand_def rand_below_def drand48_def lrand48_def split_beta)

lemma uint_drop_bit: "uint (drop_bit n (w :: u64)) = uint w div 2 ^ n"
  unfolding unsigned_drop_bit_eq
  by (metis drop_bit_eq_div drop_bit_take_bit take_bit_int_eq_self uint_ge_0 uint_lt2p unsigned_take_bit_eq take_bit_length_eq)

lemma high_bits:
  "uint (drop_bit 17 (fst (next_state r))) = lcg (uint (rng_state r)) div 2 ^ 17"
  unfolding uint_drop_bit next_state_uint ..

lemma high_bits_bounds:
  "0 \<le> uint (drop_bit 17 (fst (next_state r)))" "uint (drop_bit 17 (fst (next_state r))) < 2 ^ 31"
  unfolding high_bits using lcg_bounds [of "uint (rng_state r)"] by auto

lemma rand_eq: "fst (rand r) = lcg (uint (rng_state r)) div 2 ^ 17"
  using high_bits_bounds [of r] by (simp add: rand_def split_beta high_bits in_i32_def)

lemma rand_bounds: "0 \<le> fst (rand r)" "fst (rand r) < 2 ^ 31"
  using high_bits_bounds [of r] by (simp_all add: rand_eq high_bits)

lemma lrand48_eq: "fst (lrand48 r) = fst (rand r)"
  using high_bits_bounds [of r]
  by (simp add: lrand48_def rand_eq split_beta high_bits in_i64_def)

lemma rand_below_eq: "0 < n \<Longrightarrow> fst (rand_below n r) = fst (rand r) mod n"
  using rand_bounds [of r]
  by (cases "fst (rand r) = 0") (simp_all add: rand_below_def split_beta smod_int_alt_def)

lemma rand_below_bounds:
  assumes "0 < n" shows "0 \<le> fst (rand_below n r)" "fst (rand_below n r) < n"
  using assms by (simp_all add: rand_below_eq)

lemma rng_eqI: "rng_state r = rng_state r' \<Longrightarrow> r = (r' :: rng)"
  by simp

subsection \<open>Rejection loops\<close>

text \<open>
  \<open>loop { .. if accepted { break x } }\<close> around draws: an attempt either accepts a value or leaves
  only the advanced generator behind. The loop may run for ever (\<open>None\<close>) for an attempt that never
  accepts.
\<close>

partial_function (option) retry :: "(rng \<Rightarrow> 'a option \<times> rng) \<Rightarrow> rng \<Rightarrow> ('a \<times> rng) option" where
  "retry attempt r =
     (case attempt r of
        (Some a, r') \<Rightarrow> Some (a, r')
      | (None, r') \<Rightarrow> retry attempt r')"

lemma retry_accepts: "attempt r = (Some a, r') \<Longrightarrow> retry attempt r = Some (a, r')"
  by (subst retry.simps) simp

lemma retry_rejects: "attempt r = (None, r') \<Longrightarrow> retry attempt r = retry attempt r'"
  by (subst retry.simps) simp

lemma retry_result:
  assumes "retry attempt r = Some (a, r')"
  shows "\<exists>r0. attempt r0 = (Some a, r')"
proof -
  have "\<exists>r0. attempt r0 = (Some (fst res), snd res)" if "retry attempt r = Some res" for res
  proof (rule retry.raw_induct [where P = "\<lambda>at r res. \<exists>r0. at r0 = (Some (fst res), snd res)", OF _ that])
    fix retr and attempt :: "rng \<Rightarrow> 'a option \<times> rng" and r res
    assume "\<And>at r res. retr at r = Some res \<Longrightarrow> \<exists>r0. at r0 = (Some (fst res), snd res)"
      and "(case attempt r of (Some a, r') \<Rightarrow> Some (a, r') | (None, r') \<Rightarrow> retr attempt r') = Some res"
    then show "\<exists>r0. attempt r0 = (Some (fst res), snd res)"
      by (auto split: prod.splits option.splits)
  qed
  from this [OF assms] show ?thesis by simp
qed

lemma retry_iter:
  assumes "fst (attempt (((\<lambda>r. snd (attempt r)) ^^ k) r)) \<noteq> None"
  shows "\<exists>a r'. retry attempt r = Some (a, r')"
  using assms
proof (induction k arbitrary: r)
  case 0
  then obtain a where "attempt r = (Some a, snd (attempt r))" by (cases "attempt r") auto
  from retry_accepts [of attempt, OF this] show ?case by blast
next
  case (Suc k)
  show ?case
  proof (cases "fst (attempt r)")
    case None
    then have "attempt r = (None, snd (attempt r))" by (simp add: prod_eq_iff)
    then have "retry attempt r = retry attempt (snd (attempt r))" by (rule retry_rejects)
    moreover have "\<exists>a r'. retry attempt (snd (attempt r)) = Some (a, r')"
      by (rule Suc.IH) (use Suc.prems in \<open>simp only: funpow_Suc_right comp_def not_False_eq_True\<close>)
    ultimately show ?thesis by (simp only:)
  next
    case (Some a)
    then have "attempt r = (Some a, snd (attempt r))" by (simp add: prod_eq_iff)
    from retry_accepts [of attempt, OF this] show ?thesis by blast
  qed
qed

text \<open>
  The contract of an attempt, which may depend on a parameter \<open>p\<close> (a board, a table of keep
  probabilities): it takes two draws, and for a parameter that is \<open>ok\<close> it accepts from some state
  of each parity. Then the loop returns from every generator.
\<close>

locale rejection =
  fixes ok :: "'p \<Rightarrow> bool"
    and attempt :: "'p \<Rightarrow> rng \<Rightarrow> 'a option \<times> rng"
  assumes two_draws: "snd (attempt p r) = snd (next_state (snd (next_state r)))"
    and accepts: "ok p \<Longrightarrow>
      \<exists>y. 0 \<le> y \<and> y < 2 ^ 48 \<and> odd y = odd_start \<and> fst (attempt p \<lparr>rng_state = word_of_int y\<rparr>) \<noteq> None"
begin

lemma state_iter:
  "uint (rng_state (((\<lambda>r. snd (attempt p r)) ^^ k) r)) = ((lcg ^^ 2) ^^ k) (uint (rng_state r))"
  by (induction k) (simp_all add: two_draws next_state_uint numeral_2_eq_2)

lemma returns_from_48_bits:
  assumes "ok p" "uint (rng_state r) < 2 ^ 48"
  shows "\<exists>a r'. retry (attempt p) r = Some (a, r')"
proof -
  obtain y where y: "0 \<le> y" "y < 2 ^ 48" "odd (uint (rng_state r)) = odd y"
    "fst (attempt p \<lparr>rng_state = word_of_int y\<rparr>) \<noteq> None"
    using accepts [OF assms(1)] by metis
  obtain k where k: "((lcg ^^ 2) ^^ k) (uint (rng_state r)) = y"
    using lcg_two_step_reaches [OF uint_ge_0 assms(2) y(1-3)] by blast
  then have "((\<lambda>r. snd (attempt p r)) ^^ k) r = \<lparr>rng_state = word_of_int y\<rparr>"
    using state_iter [where p = p and k = k and r = r] by (intro rng_eqI) (metis rng.select_convs(1) word_of_int_uint)
  then show ?thesis using y(4) by (intro retry_iter [where k = k]) simp
qed

lemma loop_returns:
  assumes "ok p"
  shows "\<exists>a r'. retry (attempt p) r = Some (a, r') \<and> (\<exists>r0. attempt p r0 = (Some a, r'))"
proof -
  have "uint (rng_state (snd (attempt p r))) < 2 ^ 48"
    by (simp only: two_draws next_state_uint next_state_state lcg_bounds)
  then obtain a r' where *: "retry (attempt p) (snd (attempt p r)) = Some (a, r')"
    using returns_from_48_bits [OF assms] by blast
  have "\<exists>a r'. retry (attempt p) r = Some (a, r')"
  proof (cases "fst (attempt p r)")
    case None
    then show ?thesis using * by (metis prod.collapse retry_rejects)
  next
    case (Some b)
    then show ?thesis by (metis prod.collapse retry_accepts)
  qed
  then show ?thesis using retry_result by metis
qed

end

end
