(* ===== verification/Grids.thy ===== *)
theory Grids
  imports Prelude
begin

section \<open>A rectangular store and loops over it\<close>

text \<open>
  The interface between the board's storage and the routines that rewrite it: reading and writing a
  square. The laws are what the storage promises (a write is read back, does not touch another
  square, is ignored out of bounds, and never changes the size); the lemmas are what the routines
  need, proved once for every loop over squares the code has: loops that rewrite each square on its
  own, the swaps that flips are made of, and the row shifts of line removal and insertion.
\<close>

locale grid =
  fixes ok :: "'g \<Rightarrow> bool"
    and width :: "'g \<Rightarrow> int"
    and height :: "'g \<Rightarrow> int"
    and get :: "'g \<Rightarrow> int \<Rightarrow> int \<Rightarrow> 'c option"
    and set_sq :: "'g \<Rightarrow> int \<Rightarrow> int \<Rightarrow> 'c option \<Rightarrow> 'g"
  assumes ok_set: "ok g \<Longrightarrow> ok (set_sq g x y c)"
    and width_set: "width (set_sq g x y c) = width g"
    and height_set: "height (set_sq g x y c) = height g"
    and get_set: "ok g \<Longrightarrow> get (set_sq g x y c) x' y' =
      (if x' = x \<and> y' = y \<and> 0 \<le> x \<and> x < width g \<and> 0 \<le> y \<and> y < height g then c else get g x' y')"
    and get_out: "\<not> (0 \<le> x \<and> x < width g \<and> 0 \<le> y \<and> y < height g) \<Longrightarrow> get g x y = None"
begin

lemmas laws = ok_set width_set height_set get_set

text \<open>A step that rewrites one square, and a loop of them over distinct squares.\<close>

lemma fold_local:
  assumes step: "\<And>p g. p \<in> set ps \<Longrightarrow> ok g \<Longrightarrow> ok (step p g) \<and> width (step p g) = width g
      \<and> height (step p g) = height g \<and>
      (\<forall>x y. get (step p g) x y = (if (x, y) = p then f x y (get g x y) else get g x y))"
    and "distinct ps" "ok g"
  shows "ok (fold step ps g) \<and> width (fold step ps g) = width g \<and> height (fold step ps g) = height g \<and>
    (\<forall>x y. get (fold step ps g) x y = (if (x, y) \<in> set ps then f x y (get g x y) else get g x y))"
  using assms
proof (induction ps arbitrary: g)
  case (Cons p ps)
  note one = Cons.prems(1) [of p g, OF _ Cons.prems(3)]
  have "ok (fold step ps (step p g)) \<and> width (fold step ps (step p g)) = width (step p g)
    \<and> height (fold step ps (step p g)) = height (step p g) \<and>
    (\<forall>x y. get (fold step ps (step p g)) x y =
      (if (x, y) \<in> set ps then f x y (get (step p g) x y) else get (step p g) x y))"
    by (rule Cons.IH) (use Cons.prems one in auto)
  then show ?case using one Cons.prems(2) by auto
qed simp

text \<open>Exchanging two squares; a loop of exchanges along an involution of the squares.\<close>

lemma swap_sq:
  assumes "ok g" "0 \<le> x1" "x1 < width g" "0 \<le> y1" "y1 < height g"
    "0 \<le> x2" "x2 < width g" "0 \<le> y2" "y2 < height g"
  shows "get (set_sq (set_sq g x1 y1 (get g x2 y2)) x2 y2 (get g x1 y1)) x y =
    (if (x, y) = (x1, y1) then get g x2 y2 else if (x, y) = (x2, y2) then get g x1 y1 else get g x y)"
  using assms by (auto simp: laws)

lemma fold_swaps:
  assumes step: "\<And>p g. p \<in> set ps \<Longrightarrow> ok g \<Longrightarrow> width g = w \<Longrightarrow> height g = h \<Longrightarrow>
      ok (step p g) \<and> width (step p g) = w \<and> height (step p g) = h \<and>
      (\<forall>x y. get (step p g) x y =
        (if (x, y) = p \<or> (x, y) = \<sigma> p then get g (fst (\<sigma> (x, y))) (snd (\<sigma> (x, y))) else get g x y))"
    and inv: "\<And>p. \<sigma> (\<sigma> p) = p" and "distinct ps" and disj: "\<And>p. p \<in> set ps \<Longrightarrow> \<sigma> p \<notin> set ps"
    and "ok g" "width g = w" "height g = h"
  shows "ok (fold step ps g) \<and> width (fold step ps g) = w \<and> height (fold step ps g) = h \<and>
    (\<forall>x y. get (fold step ps g) x y =
      (if (x, y) \<in> set ps \<or> \<sigma> (x, y) \<in> set ps then get g (fst (\<sigma> (x, y))) (snd (\<sigma> (x, y))) else get g x y))"
  using assms(1,3,4,5,6,7)
proof (induction ps arbitrary: g)
  case (Cons p ps)
  note one = Cons.prems(1) [of p g, OF _ Cons.prems(4-6)]
  have rest: "ok (fold step ps (step p g)) \<and> width (fold step ps (step p g)) = w
    \<and> height (fold step ps (step p g)) = h \<and>
    (\<forall>x y. get (fold step ps (step p g)) x y =
      (if (x, y) \<in> set ps \<or> \<sigma> (x, y) \<in> set ps
       then get (step p g) (fst (\<sigma> (x, y))) (snd (\<sigma> (x, y))) else get (step p g) x y))"
    by (rule Cons.IH) (use Cons.prems one in auto)
  have sym: "\<sigma> (x, y) = p \<longleftrightarrow> (x, y) = \<sigma> p" for x y using inv by metis
  have p1: "\<sigma> p \<notin> set ps" "p \<notin> set ps" using Cons.prems(2,3) by auto
  have mid: "get (step p g) (fst (\<sigma> (x, y))) (snd (\<sigma> (x, y))) = get g (fst (\<sigma> (x, y))) (snd (\<sigma> (x, y)))"
    if "(x, y) \<in> set ps \<or> \<sigma> (x, y) \<in> set ps" for x y
  proof -
    have "\<sigma> (x, y) \<noteq> p" "\<sigma> (x, y) \<noteq> \<sigma> p" using that p1 inv by metis+
    then show ?thesis using one by simp
  qed
  show ?case using rest one mid sym p1 by (auto simp: inv)
qed simp

text \<open>
  Shifting rows: step \<open>k\<close> moves row \<open>line - d * (k + 1)\<close> into row \<open>line - d * k\<close> over the columns
  \<open>C\<close> of that row and empties it there (\<open>d = 1\<close> shifts downwards, \<open>d = - 1\<close> upwards).
\<close>

lemma shift_row:
  assumes "ok g" "0 \<le> i" "i < height g" "0 \<le> i'" "i' < height g" "i \<noteq> i'" "0 \<le> x1" "x2 \<le> width g"
  shows "let g' = fold (\<lambda>j g. set_sq (set_sq g j i (get g j i')) j i' None) (range_i x1 x2) g in
    ok g' \<and> width g' = width g \<and> height g' = height g \<and>
    (\<forall>x y. get g' x y = (if x1 \<le> x \<and> x < x2 then
        (if y = i then get g x i' else if y = i' then None else get g x y) else get g x y))"
proof -
  let ?st = "\<lambda>j g. set_sq (set_sq g j i (get g j i')) j i' None"
  have "let g' = fold ?st js g in
    ok g' \<and> width g' = width g \<and> height g' = height g \<and>
    (\<forall>x y. get g' x y = (if x \<in> set js then
        (if y = i then get g x i' else if y = i' then None else get g x y) else get g x y))"
    if "distinct js" "\<forall>j \<in> set js. 0 \<le> j \<and> j < width g" "ok g" "i < height g" "i' < height g"
    for js g using that
  proof (induction js arbitrary: g)
    case (Cons j js)
    have "get (?st j g) x y = (if x = j then
        (if y = i then get g x i' else if y = i' then None else get g x y) else get g x y)" for x y
      using Cons.prems assms(2,4,6) by (auto simp: laws)
    moreover have "ok (?st j g)" "width (?st j g) = width g" "height (?st j g) = height g"
      using Cons.prems by (simp_all add: laws)
    ultimately show ?case using Cons.IH [of "?st j g"] Cons.prems by (auto simp: Let_def)
  qed (simp add: Let_def)
  from this [of "range_i x1 x2" g] show ?thesis using assms by (auto simp: Let_def)
qed

lemma shift_rows:
  assumes step: "\<And>k g. k < n \<Longrightarrow> ok g \<Longrightarrow> width g = w \<Longrightarrow> height g = h \<Longrightarrow>
      ok (step k g) \<and> width (step k g) = w \<and> height (step k g) = h \<and>
      (\<forall>x y. get (step k g) x y =
        (if x \<in> C (line - d * int k) then
          (if y = line - d * int k then get g x (y - d)
           else if y = line - d * int (Suc k) then None else get g x y)
         else get g x y))"
    and d: "d = 1 \<or> d = - 1" and "ok g" "width g = w" "height g = h"
  shows "let g' = fold step [0..<n] g in
    ok g' \<and> width g' = w \<and> height g' = h \<and>
    (\<forall>x y. get g' x y =
      (if 0 \<le> d * (line - y) \<and> d * (line - y) < int n \<and> x \<in> C y then get g x (y - d)
       else if 0 < d * (line - y) \<and> d * (line - y) \<le> int n \<and> x \<in> C (y + d) then None
       else get g x y))"
  using assms(1)
proof (induction n)
  case 0
  then show ?case using assms(3-5) d by (auto simp: Let_def)
next
  case (Suc n)
  define g1 where "g1 = fold step [0..<n] g"
  have IH: "ok g1" "width g1 = w" "height g1 = h"
    "\<And>x y. get g1 x y =
      (if 0 \<le> d * (line - y) \<and> d * (line - y) < int n \<and> x \<in> C y then get g x (y - d)
       else if 0 < d * (line - y) \<and> d * (line - y) \<le> int n \<and> x \<in> C (y + d) then None
       else get g x y)"
    using Suc.IH Suc.prems unfolding g1_def Let_def by auto
  note st = Suc.prems [of n g1, OF _ IH(1-3)]
  have "get (step n g1) x y =
      (if 0 \<le> d * (line - y) \<and> d * (line - y) < int (Suc n) \<and> x \<in> C y then get g x (y - d)
       else if 0 < d * (line - y) \<and> d * (line - y) \<le> int (Suc n) \<and> x \<in> C (y + d) then None
       else get g x y)" for x y
  proof -
    define e where "e = d * (line - y)"
    have row: "y = line - d * m \<longleftrightarrow> e = m" for m using d by (auto simp: e_def)
    have st': "get (step n g1) x y = (if x \<in> C (line - d * int n) then
        (if e = int n then get g1 x (y - d) else if e = int n + 1 then None else get g1 x y)
      else get g1 x y)"
      using st row [of "int n"] row [of "int (Suc n)"] by simp
    have IHy: "get g1 x y = (if 0 \<le> e \<and> e < int n \<and> x \<in> C y then get g x (y - d)
        else if 0 < e \<and> e \<le> int n \<and> x \<in> C (y + d) then None else get g x y)"
      unfolding IH(4) e_def ..
    have "d * (line - (y - d)) = e + 1" using d by (auto simp: e_def)
    then have IHn: "get g1 x (y - d) = (if 0 \<le> e + 1 \<and> e + 1 < int n \<and> x \<in> C (y - d)
        then get g x (y - d - d)
        else if 0 < e + 1 \<and> e + 1 \<le> int n \<and> x \<in> C y then None else get g x (y - d))"
      unfolding IH(4) by simp
    consider "e = int n" "line - d * int n = y" | "e = int n + 1" "line - d * int n = y + d"
      | "e \<noteq> int n" "e \<noteq> int n + 1"
      using row [of "int n"] row [of "int n + 1"] by (auto simp: algebra_simps)
    then show ?thesis
    proof cases
      case 1
      then show ?thesis using st' IHy IHn unfolding e_def [symmetric] by simp
    next
      case 2
      then show ?thesis using st' IHy unfolding e_def [symmetric] by simp
    next
      case 3
      then show ?thesis using st' IHy unfolding e_def [symmetric] by simp
    qed
  qed
  then show ?case using st by (simp add: Let_def g1_def)
qed

end

end
