(* ===== verification/Board.thy ===== *)
theory Board
  imports Weapons Cells Rng Grids
begin

section \<open>The board grid\<close>

text \<open>
  \<open>bt-core/src/board.rs\<close>, first half: the grid of squares, collision (\<open>occupied\<close>), filling, idiot
  detection (\<open>landed\<close>), line removal, insertion and the line check. A board is a record with the
  fields of the Rust struct; the cells are one row-major list. Coordinates are signed and every
  access outside the grid reads empty and writes nothing, as in the code.

  \<open>check_lines\<close> re-examines a row after removing it, so its main pass is a \<open>partial_function\<close>; the
  theory Lines proves that it returns.
\<close>

record line_clear =
  lc_lines :: i32
  lc_value :: i32
  lc_funds :: i32

definition line_clear_default :: line_clear where
  "line_clear_default = \<lparr>lc_lines = 0, lc_value = 0, lc_funds = 0\<rparr>"

record board =
  b_width :: i32
  b_height :: i32
  b_cells :: "cell option list"
  b_active :: active_flags
  b_upside :: bool
  b_computer :: bool
  b_idiot :: bool
  b_reason :: int
  b_new_fill :: "nat list"

definition board_new :: "i32 \<Rightarrow> i32 \<Rightarrow> bool \<Rightarrow> board" where
  "board_new w h computer =
     \<lparr>b_width = w, b_height = h, b_cells = replicate (nat (w * h)) None, b_active = flags_new,
      b_upside = False, b_computer = computer, b_idiot = False, b_reason = 0, b_new_fill = []\<rparr>"

definition board_standard :: "bool \<Rightarrow> board" where
  "board_standard computer = board_new BT_BOARD_WTH BT_BOARD_HGT computer"

definition in_bounds :: "board \<Rightarrow> i32 \<Rightarrow> i32 \<Rightarrow> bool" where
  "in_bounds b x y \<longleftrightarrow> x \<ge> 0 \<and> x < b_width b \<and> y \<ge> 0 \<and> y < b_height b"

definition cell_index :: "board \<Rightarrow> i32 \<Rightarrow> i32 \<Rightarrow> nat" where
  "cell_index b x y = nat (y * b_width b + x)"

definition get :: "board \<Rightarrow> i32 \<Rightarrow> i32 \<Rightarrow> cell option" where
  "get b x y = (if in_bounds b x y then b_cells b ! cell_index b x y else None)"

definition set_cell :: "board \<Rightarrow> i32 \<Rightarrow> i32 \<Rightarrow> cell option \<Rightarrow> board" where
  "set_cell b x y c =
     (if in_bounds b x y then b\<lparr>b_cells := (b_cells b)[cell_index b x y := c]\<rparr> else b)"

definition board_is_active :: "board \<Rightarrow> weapon_token \<Rightarrow> bool" where
  "board_is_active b t = is_active (b_active b) t"

definition occupied :: "board \<Rightarrow> i32 \<Rightarrow> i32 \<Rightarrow> bool" where
  "occupied b x y =
     (if \<not> board_is_active b FallOut then
        (if x < 0 \<or> x \<ge> b_width b \<or> y \<ge> b_height b \<or> y < 0 then True else get b x y \<noteq> None)
      else if x < 0 \<or> x \<ge> b_width b
          \<or> (y \<ge> b_height b \<and> (x < BT_FALL_OUT_LEDGE \<or> x \<ge> b_width b - BT_FALL_OUT_LEDGE))
          \<or> (y < 0 \<and> (x < BT_FALL_OUT_LEDGE \<or> x \<ge> b_width b - BT_FALL_OUT_LEDGE)) then True
      else if y < b_height b \<and> y \<ge> 0 \<and> get b x y \<noteq> None then True
      else if y < 0 - BT_PIECE_HEIGHT \<or> y > b_height b + BT_PIECE_HEIGHT then True
      else False)"

definition fill :: "board \<Rightarrow> i32 \<Rightarrow> i32 \<Rightarrow> cell \<Rightarrow> board" where
  "fill b x y c =
     (if in_bounds b x y then
        (let i = cell_index b x y in
         b\<lparr>b_cells := (b_cells b)[i := Some c], b_new_fill := b_new_fill b @ [i]\<rparr>)
      else b)"

definition set_idiot :: "board \<Rightarrow> int \<Rightarrow> board" where
  "set_idiot b reason = b\<lparr>b_idiot := True, b_reason := reason\<rparr>"

definition flush_idiot :: "board \<Rightarrow> int option \<times> board" where
  "flush_idiot b = ((if b_idiot b then Some (b_reason b) else None), b\<lparr>b_idiot := False\<rparr>)"

definition board_clear :: "board \<Rightarrow> board" where
  "board_clear b = b\<lparr>b_cells := map (\<lambda>c. None) (b_cells b), b_new_fill := []\<rparr>"

definition fill_index :: "board \<Rightarrow> i32 \<Rightarrow> i32 \<Rightarrow> nat option" where
  "fill_index b x y =
     (if in_bounds b x y then
        (let i = cell_index b x y in if b_cells b ! i \<noteq> None then Some i else None)
      else None)"

text \<open>The body of the nested loops of \<open>landed\<close>: is \<open>(cx, cy)\<close> a pocket closed by a new box?\<close>

definition landed_hit :: "board \<Rightarrow> bool \<Rightarrow> i32 \<Rightarrow> i32 \<Rightarrow> bool" where
  "landed_hit b upside cx cy =
     (if occupied b cx cy then False
      else if \<not> occupied b (cx - 1) cy then False
      else let left = fill_index b (cx - 1) cy in
        if \<not> occupied b (cx + 1) cy then False
        else let right = fill_index b (cx + 1) cy; ty = (if \<not> upside then cy - 1 else cy + 1) in
          if \<not> occupied b cx ty then False
          else let top = fill_index b cx ty in
            list_ex (\<lambda>nf. Some nf = left \<or> Some nf = right \<or> Some nf = top) (b_new_fill b))"

definition landed :: "board \<Rightarrow> i32 \<Rightarrow> i32 \<Rightarrow> board" where
  "landed b x y =
     (let upside = board_is_active b Upbyside;
          b = fold (\<lambda>i b. fold (\<lambda>j b.
                if landed_hit b upside (x + i) (y + j)
                then b\<lparr>b_idiot := True, b_reason := BT_BAD_MOVE\<rparr> else b)
              (range_i 0 BT_PIECE_HEIGHT) b) (range_i 0 BT_PIECE_WIDTH) b
      in b\<lparr>b_new_fill := []\<rparr>)"

subsection \<open>Removing and inserting lines\<close>

text \<open>One step of the row loops: move row \<open>i'\<close> into row \<open>i\<close> over the columns \<open>[x1, x2)\<close>.\<close>

definition move_row :: "i32 \<Rightarrow> i32 \<Rightarrow> i32 \<Rightarrow> i32 \<Rightarrow> board \<Rightarrow> board" where
  "move_row i i' x1 x2 b =
     fold (\<lambda>j b. set_cell (set_cell b j i (get b j i')) j i' None) (range_i x1 x2) b"

text \<open>The same loop under Force: only the line itself is emptied.\<close>

definition force_row :: "i32 \<Rightarrow> i32 \<Rightarrow> i32 \<Rightarrow> i32 \<Rightarrow> board \<Rightarrow> board" where
  "force_row line i x1 x2 b =
     fold (\<lambda>j b. if i = line \<and> get b j i \<noteq> None then set_cell b j i None else b) (range_i x1 x2) b"

definition blank_row :: "i32 \<Rightarrow> i32 \<Rightarrow> i32 \<Rightarrow> board \<Rightarrow> board" where
  "blank_row i x1 x2 b = fold (\<lambda>j b. set_cell b j i None) (range_i x1 x2) b"

definition remove_line :: "board \<Rightarrow> i32 \<Rightarrow> i32 \<Rightarrow> i32 \<Rightarrow> board" where
  "remove_line b line x1 x2 =
     (let x2 = (if x2 < 0 then b_width b else x2);
          force = board_is_active b Force;
          bottle = board_is_active b Bottle;
          h = BT_BOARD_HGT in
      if \<not> board_is_active b Upbyside \<or> b_computer b then
        (let (b, x1, x2) = fold (\<lambda>i (b, x1, x2).
               let (x1, x2) = (if bottle \<and> i \<le> h div 2 + BT_BOTTLE_Y \<and> i \<ge> h div 2 - BT_BOTTLE_Y
                               then (BT_BOTTLE_X, b_width b - BT_BOTTLE_X) else (x1, x2))
               in (if force then force_row line i x1 x2 b else move_row i (i - 1) x1 x2 b, x1, x2))
             (rev (range_i 1 (line + 1))) (b, x1, x2)
         in if \<not> force then blank_row 0 x1 x2 b else b)
      else
        (let (b, x1, x2) = fold (\<lambda>i (b, x1, x2).
               let (x1, x2) = (if bottle \<and> i \<le> h div 2 + BT_BOTTLE_Y \<and> i \<ge> h div 2 - BT_BOTTLE_Y - 1
                               then (BT_BOTTLE_X, b_width b - BT_BOTTLE_X) else (x1, x2))
               in (if force then force_row line i x1 x2 b else move_row i (i + 1) x1 x2 b, x1, x2))
             (range_i line (b_height b - 1)) (b, x1, x2)
         in if \<not> force then blank_row (b_height b - 1) x1 x2 b else b))"

definition garbage_row :: "i32 \<Rightarrow> i32 \<Rightarrow> i32 \<Rightarrow> i32 \<Rightarrow> board \<Rightarrow> board" where
  "garbage_row y hole x1 x2 b =
     fold (\<lambda>i b. if i \<noteq> hole then set_cell b i y (Some (color_cell BT_GREEN)) else b) (range_i x1 x2) b"

definition insert_line :: "board \<Rightarrow> rng \<Rightarrow> board \<times> rng" where
  "insert_line b r =
     (let (hole, r) = rand_below (b_width b) r;
          h = BT_BOARD_HGT;
          bottle = board_is_active b Bottle;
          w = b_width b in
      if \<not> board_is_active b Upbyside \<or> b_computer b then
        (let (b, x1, x2) = fold (\<lambda>i (b, _).
               let (x1, x2) = (if bottle \<and> i < h div 2 + BT_BOTTLE_Y
                               then (BT_BOTTLE_X, w - BT_BOTTLE_X) else (0, w))
               in (move_row i (i + 1) x1 x2 b, x1, x2))
             (range_i 0 (b_height b - 1)) (b, 0, w)
         in (garbage_row (b_height b - 1) hole x1 x2 b, r))
      else
        (let (b, x1, x2) = fold (\<lambda>i (b, _).
               let (x1, x2) = (if bottle \<and> i \<ge> h div 2 - BT_BOTTLE_Y
                               then (BT_BOTTLE_X, w - BT_BOTTLE_X) else (0, w))
               in (move_row i (i - 1) x1 x2 b, x1, x2))
             (rev (range_i 1 (b_height b))) (b, 0, w)
         in (garbage_row 0 hole x1 x2 b, r)))"

subsection \<open>The line check\<close>

definition row_has_cell :: "board \<Rightarrow> i32 \<Rightarrow> bool" where
  "row_has_cell b j = list_ex (\<lambda>i. get b i j \<noteq> None) (range_i 0 (b_width b))"

text \<open>The near-death gauge: up from the bottom to the first empty row.\<close>

function scan_min :: "board \<Rightarrow> i32 \<Rightarrow> i32 \<Rightarrow> i32" where
  "scan_min b j mn =
     (if j > 0 then
        (if row_has_cell b j then scan_min b (j - 1) (if j < mn then j else mn) else mn)
      else mn)"
  by pat_completeness auto

termination
  by (relation "measure (\<lambda>(b, j, mn). nat j)") auto

declare scan_min.simps [simp del]

text \<open>Filled squares counted from the left, with the sum of their values.\<close>

fun count_run :: "board \<Rightarrow> i32 \<Rightarrow> i32 list \<Rightarrow> i32 \<Rightarrow> i32 \<Rightarrow> i32 \<times> i32" where
  "count_run b j [] i nvalue = (i, nvalue)"
| "count_run b j (x # xs) i nvalue =
     (case get b x j of
        Some c \<Rightarrow> count_run b j xs (i + 1) (nvalue + cell_value c)
      | None \<Rightarrow> (i, nvalue))"

text \<open>A row that is not a line: a happy face in it turns into a frown.\<close>

definition frown_row :: "board \<Rightarrow> i32 \<Rightarrow> board" where
  "frown_row b j =
     fold (\<lambda>i b. case get b i j of
         Some c \<Rightarrow> (if cell_value c = BT_HAPPY_VAL
           then (set_cell b i j (Some (cell_landed c)))\<lparr>b_idiot := True, b_reason := BT_MISSED_SMILEY\<rparr>
           else b)
       | None \<Rightarrow> b) (range_i 0 (b_width b)) b"

partial_function (option) clear_pass ::
    "bool \<Rightarrow> board \<Rightarrow> i32 \<Rightarrow> i32 \<Rightarrow> i32 \<Rightarrow> (board \<times> i32 \<times> i32) option" where
  "clear_pass force b j value lines =
     (if j \<ge> 0 then
        (let (i, nvalue) = count_run b j (range_i 0 (b_width b)) 0 0 in
         if i = b_width b then
           (let b = remove_line b j 0 (b_width b) in
            clear_pass force b (if \<not> force then j + 1 - 1 else j - 1) (value + nvalue) (lines + 1))
         else clear_pass force (frown_row b j) (j - 1) value lines)
      else Some (b, value, lines))"

definition check_lines :: "board \<Rightarrow> (line_clear \<times> board) option" where
  "check_lines b =
     (let force = board_is_active b Force;
          mn = scan_min b (b_height b - 1) (b_height b - 1) in
      do {
        (b, value, lines) \<leftarrow> clear_pass force b (b_height b - 1) 0 0;
        let b = (if mn < 8 then b\<lparr>b_idiot := True, b_reason := BT_NEAR_DEATH\<rparr> else b);
        (if lines = 0 then Some (line_clear_default, b)
         else (let b = b\<lparr>b_idiot := False\<rparr>; funds = value * lines in
           Some (\<lparr>lc_lines = lines, lc_value = value, lc_funds = funds\<rparr>, b)))
      })"

subsection \<open>The storage laws\<close>

definition wf_board :: "board \<Rightarrow> bool" where
  "wf_board b \<longleftrightarrow> 7 \<le> b_width b \<and> 4 \<le> b_height b \<and>
     length (b_cells b) = nat (b_width b * b_height b) \<and> wf_flags (b_active b)"

lemma wf_board_dims: "wf_board b \<Longrightarrow> 7 \<le> b_width b" "wf_board b \<Longrightarrow> 4 \<le> b_height b"
  by (simp_all add: wf_board_def)

lemma wf_board_standard [simp]: "wf_board (board_standard c)"
  by (simp add: wf_board_def board_standard_def board_new_def bt_const)

lemma cell_index_less:
  assumes "in_bounds b x y" shows "cell_index b x y < nat (b_width b * b_height b)"
proof -
  have "y * b_width b + x < (y + 1) * b_width b" using assms by (simp add: in_bounds_def algebra_simps)
  also have "\<dots> \<le> b_height b * b_width b" using assms by (intro mult_right_mono) (auto simp: in_bounds_def)
  finally show ?thesis using assms by (simp add: cell_index_def in_bounds_def mult.commute)
qed

lemma cell_index_inject:
  assumes "in_bounds b x y" "in_bounds b x' y'"
  shows "cell_index b x y = cell_index b x' y' \<longleftrightarrow> x = x' \<and> y = y'"
proof
  assume eq: "cell_index b x y = cell_index b x' y'"
  have "0 \<le> y * b_width b + x" "0 \<le> y' * b_width b + x'" using assms by (auto simp: in_bounds_def)
  then have *: "y * b_width b + x = y' * b_width b + x'"
    using eq by (simp add: cell_index_def eq_nat_nat_iff)
  have "(y * b_width b + x) div b_width b = y" "(y' * b_width b + x') div b_width b = y'"
    using assms by (simp_all add: in_bounds_def)
  then have "y = y'" using * by simp
  then show "x = x' \<and> y = y'" using * by simp
qed simp

lemma set_cell_fields [simp]:
  "b_width (set_cell b x y c) = b_width b" "b_height (set_cell b x y c) = b_height b"
  "b_active (set_cell b x y c) = b_active b" "b_upside (set_cell b x y c) = b_upside b"
  "b_computer (set_cell b x y c) = b_computer b" "b_idiot (set_cell b x y c) = b_idiot b"
  "b_reason (set_cell b x y c) = b_reason b" "b_new_fill (set_cell b x y c) = b_new_fill b"
  by (simp_all add: set_cell_def)

lemma wf_set_cell [simp]: "wf_board (set_cell b x y c) = wf_board b"
  by (simp add: wf_board_def set_cell_def)

lemma get_out: "\<not> in_bounds b x y \<Longrightarrow> get b x y = None"
  by (simp add: get_def)

lemma in_bounds_set_cell [simp]: "in_bounds (set_cell b x y c) x' y' = in_bounds b x' y'"
  by (simp add: in_bounds_def)

lemma get_set_cell:
  assumes "wf_board b"
  shows "get (set_cell b x y c) x' y' =
    (if x' = x \<and> y' = y \<and> in_bounds b x y then c else get b x' y')"
proof (cases "in_bounds b x y \<and> in_bounds b x' y'")
  case True
  then have "cell_index b x y < length (b_cells b)" using cell_index_less assms by (simp add: wf_board_def)
  moreover have "cell_index (set_cell b x y c) x' y' = cell_index b x' y'"
    by (simp add: cell_index_def)
  ultimately show ?thesis
    using True cell_index_inject [of b x y x' y']
    by (auto simp: get_def, auto simp: set_cell_def)
qed (auto simp: get_def, auto simp: set_cell_def)

interpretation sq: grid wf_board b_width b_height get set_cell
  by unfold_locales (auto simp: get_set_cell in_bounds_def get_out)

lemma get_update [simp]:
  "get (b\<lparr>b_idiot := i\<rparr>) = get b" "get (b\<lparr>b_reason := r\<rparr>) = get b"
  "get (b\<lparr>b_new_fill := n\<rparr>) = get b" "get (b\<lparr>b_active := a\<rparr>) = get b"
  "get (b\<lparr>b_upside := u\<rparr>) = get b" "get (b\<lparr>b_computer := c\<rparr>) = get b"
  by (auto simp: get_def in_bounds_def cell_index_def fun_eq_iff)

lemma wf_update [simp]:
  "wf_board (b\<lparr>b_idiot := i\<rparr>) = wf_board b" "wf_board (b\<lparr>b_reason := r\<rparr>) = wf_board b"
  "wf_board (b\<lparr>b_new_fill := n\<rparr>) = wf_board b" "wf_board (b\<lparr>b_upside := u\<rparr>) = wf_board b"
  "wf_board (b\<lparr>b_computer := c\<rparr>) = wf_board b"
  by (simp_all add: wf_board_def)

text \<open>A cell list is determined by what \<open>get\<close> reads.\<close>

lemma cell_index_surj:
  assumes "wf_board b" "n < length (b_cells b)"
  obtains x y where "in_bounds b x y" "cell_index b x y = n"
proof -
  let ?w = "b_width b"
  have w: "0 < ?w" using assms by (simp add: wf_board_def)
  let ?x = "int n mod ?w" and ?y = "int n div ?w"
  have "int n < ?w * b_height b" using assms by (simp add: wf_board_def)
  moreover have "?y * ?w \<le> int n" by (metis div_mod_decomp_int le_add_same_cancel1 pos_mod_sign w)
  ultimately have "?y * ?w < b_height b * ?w" by (simp add: mult.commute)
  then have "?y < b_height b" using w by simp
  moreover have "0 \<le> ?y" using w by (simp add: pos_imp_zdiv_nonneg_iff)
  ultimately have "in_bounds b ?x ?y" using w by (simp add: in_bounds_def)
  moreover have "cell_index b ?x ?y = n" by (simp add: cell_index_def)
  ultimately show thesis by (rule that)
qed

lemma cells_eqI:
  assumes "wf_board b" "wf_board b'" "b_width b' = b_width b" "b_height b' = b_height b"
    and "\<And>x y. get b x y = get b' x y"
  shows "b_cells b = b_cells b'"
proof (rule nth_equalityI)
  show len: "length (b_cells b) = length (b_cells b')" using assms(1-4) by (simp add: wf_board_def)
  fix n assume n: "n < length (b_cells b)"
  obtain x y where xy: "in_bounds b x y" "cell_index b x y = n"
    using cell_index_surj [OF assms(1) n] .
  then have "in_bounds b' x y" "cell_index b' x y = n"
    using assms(3,4) by (simp_all add: in_bounds_def cell_index_def)
  then show "b_cells b ! n = b_cells b' ! n"
    using xy assms(5) [of x y] by (simp add: get_def)
qed

text \<open>Everything but the squares is the same: the frame of the routines that only rewrite squares.\<close>

definition same_frame :: "board \<Rightarrow> board \<Rightarrow> bool" where
  "same_frame b b' \<longleftrightarrow> b' = b\<lparr>b_cells := b_cells b'\<rparr>"

lemma same_frame_refl [simp]: "same_frame b b"
  by (simp add: same_frame_def)

lemma same_frame_trans [trans]: "same_frame a b \<Longrightarrow> same_frame b c \<Longrightarrow> same_frame a c"
  by (cases a; cases b; cases c) (simp add: same_frame_def)

lemma same_frame_set [simp]: "same_frame b (set_cell b x y c)"
  by (simp add: same_frame_def set_cell_def)

lemma same_frame_set_cell [intro]: "same_frame b b' \<Longrightarrow> same_frame b (set_cell b' x y c)"
  using same_frame_trans same_frame_set by blast

lemma same_frameD:
  assumes "same_frame b b'"
  shows "b_width b' = b_width b" "b_height b' = b_height b" "b_active b' = b_active b"
    "b_upside b' = b_upside b" "b_computer b' = b_computer b" "b_idiot b' = b_idiot b"
    "b_reason b' = b_reason b" "b_new_fill b' = b_new_fill b"
  using assms by (cases b; cases b'; simp add: same_frame_def)+

lemma same_frame_fold:
  assumes "\<And>x b. x \<in> set xs \<Longrightarrow> same_frame b (f x b)"
  shows "same_frame b (fold f xs b)"
  by (rule fold_preserves [where P = "same_frame b"]) (auto intro: same_frame_trans assms)

end
