(* ===== verification/Lines.thy ===== *)
theory Lines
  imports Board
begin

section \<open>What the row loops do\<close>

text \<open>
  The functional behaviour of line removal, insertion and the line check of
  \<open>bt-core/src/board.rs\<close>. First the closed forms of the row loops: which square of the old board
  each square of the new one comes from, also under Bottle, which narrows the columns that move.
  Then the line check: it returns on every board, it clears exactly the full rows of a plain board,
  and the line count and the value are those of the rows cleared.
\<close>

subsection \<open>One row\<close>

lemma same_frame_move_row [simp]: "same_frame b (move_row i i' x1 x2 b)"
  unfolding move_row_def by (rule same_frame_fold) (auto intro: same_frame_set_cell)

lemma move_row_law:
  assumes "wf_board b" "0 \<le> i" "i < b_height b" "0 \<le> i'" "i' < b_height b" "i \<noteq> i'"
    "0 \<le> x1" "x2 \<le> b_width b"
  shows "wf_board (move_row i i' x1 x2 b)"
    and "get (move_row i i' x1 x2 b) x y = (if x1 \<le> x \<and> x < x2 then
        (if y = i then get b x i' else if y = i' then None else get b x y) else get b x y)"
  using sq.shift_row [OF assms] by (simp_all add: move_row_def Let_def)

text \<open>The body of every loop over the squares of one row: squares are rewritten one by one.\<close>

lemma row_fold_law:
  assumes step: "\<And>j b'. 0 \<le> j \<Longrightarrow> j < b_width b' \<Longrightarrow> wf_board b' \<Longrightarrow> b_height b' = b_height b \<Longrightarrow>
      wf_board (st j b') \<and> b_width (st j b') = b_width b' \<and> b_height (st j b') = b_height b'
      \<and> (\<forall>x y. get (st j b') x y = (if (x, y) = (j, i) then f x (get b' x y) else get b' x y))"
    and "wf_board b" "0 \<le> x1" "x2 \<le> b_width b"
  shows "wf_board (fold st (range_i x1 x2) b)"
    and "get (fold st (range_i x1 x2) b) x y
      = (if x1 \<le> x \<and> x < x2 \<and> y = i then f x (get b x y) else get b x y)"
proof -
  have *: "wf_board (fold st js b') \<and>
    (\<forall>x y. get (fold st js b') x y = (if x \<in> set js \<and> y = i then f x (get b' x y) else get b' x y))"
    if "distinct js" "\<forall>j \<in> set js. 0 \<le> j \<and> j < b_width b'" "wf_board b'" "b_height b' = b_height b" for js b'
    using that
  proof (induction js arbitrary: b')
    case (Cons j js)
    note one = step [of j b']
    have "wf_board (st j b')" "b_width (st j b') = b_width b'" "b_height (st j b') = b_height b"
      using one Cons.prems by auto
    with Cons.IH [of "st j b'"] one Cons.prems show ?case by auto
  qed simp
  show "wf_board (fold st (range_i x1 x2) b)"
    using * [of "range_i x1 x2" b] assms by auto
  show "get (fold st (range_i x1 x2) b) x y
      = (if x1 \<le> x \<and> x < x2 \<and> y = i then f x (get b x y) else get b x y)"
    using * [of "range_i x1 x2" b] assms by auto
qed

lemma same_frame_force_row [simp]: "same_frame b (force_row line i x1 x2 b)"
  unfolding force_row_def by (rule same_frame_fold) (auto intro: same_frame_set_cell)

lemma force_row_law:
  assumes "wf_board b" "0 \<le> x1" "x2 \<le> b_width b"
  shows "wf_board (force_row line i x1 x2 b)"
    and "get (force_row line i x1 x2 b) x y =
      (if x1 \<le> x \<and> x < x2 \<and> y = i \<and> i = line then None else get b x y)"
  unfolding force_row_def
  using row_fold_law [where f = "\<lambda>x c. if i = line then None else c" and i = i and b = b
      and st = "\<lambda>j b. if i = line \<and> get b j i \<noteq> None then set_cell b j i None else b"] assms
  by (auto simp: sq.laws get_out in_bounds_def)

lemma same_frame_blank_row [simp]: "same_frame b (blank_row i x1 x2 b)"
  unfolding blank_row_def by (rule same_frame_fold) (auto intro: same_frame_set_cell)

lemma blank_row_law:
  assumes "wf_board b" "0 \<le> x1" "x2 \<le> b_width b"
  shows "wf_board (blank_row i x1 x2 b)"
    and "get (blank_row i x1 x2 b) x y = (if x1 \<le> x \<and> x < x2 \<and> y = i then None else get b x y)"
  unfolding blank_row_def
  using row_fold_law [where f = "\<lambda>x c. None" and i = i and b = b
      and st = "\<lambda>j b. set_cell b j i None"] assms
  by (auto simp: get_set_cell get_out)

lemma same_frame_garbage_row [simp]: "same_frame b (garbage_row y hole x1 x2 b)"
  unfolding garbage_row_def by (rule same_frame_fold) (auto intro: same_frame_set_cell)

lemma garbage_row_law:
  assumes "wf_board b" "0 \<le> x1" "x2 \<le> b_width b" "0 \<le> i" "i < b_height b"
  shows "wf_board (garbage_row i hole x1 x2 b)"
    and "get (garbage_row i hole x1 x2 b) x y =
      (if x1 \<le> x \<and> x < x2 \<and> y = i \<and> x \<noteq> hole then Some (color_cell BT_GREEN) else get b x y)"
  unfolding garbage_row_def
  using row_fold_law [where f = "\<lambda>x c. if x \<noteq> hole then Some (color_cell BT_GREEN) else c"
      and i = i and b = b
      and st = "\<lambda>j b. if j \<noteq> hole then set_cell b j i (Some (color_cell BT_GREEN)) else b"] assms
  by (auto simp: get_set_cell in_bounds_def)

subsection \<open>Line removal, all rows\<close>

text \<open>
  Step \<open>k\<close> works on row \<open>line - d * k\<close>, where \<open>d\<close> is 1 for the loop that runs up the board and
  \<open>- 1\<close> for the one that runs down. \<open>cols b N line d xx n\<close> are the columns in force after \<open>n\<close> steps:
  once a row satisfies \<open>N\<close> (it is in the bottle's neck), they stay narrowed.
\<close>

definition cols :: "board \<Rightarrow> (int \<Rightarrow> bool) \<Rightarrow> int \<Rightarrow> int \<Rightarrow> int \<times> int \<Rightarrow> nat \<Rightarrow> int \<times> int" where
  "cols b N line d xx n =
     (if board_is_active b Bottle \<and> (\<exists>k < n. N (line - d * int k)) then (3, b_width b - 3) else xx)"

lemma cols_0 [simp]: "cols b N line d xx 0 = xx"
  by (simp add: cols_def)

lemma cols_Suc: "cols b N line d xx (Suc n) =
    (if board_is_active b Bottle \<and> N (line - d * int n) then (3, b_width b - 3) else cols b N line d xx n)"
  by (auto simp: cols_def less_Suc_eq)

lemma row_loop:
  assumes frame: "\<And>i x1 x2 b. same_frame b (body i x1 x2 b)"
    and bottle: "bottle = board_is_active b Bottle"
  shows "fold (\<lambda>i (b, x1, x2).
      let (x1, x2) = (if bottle \<and> N i then (3, b_width b - 3) else (x1, x2)) in (body i x1 x2 b, x1, x2))
    (map (\<lambda>k. line - d * int k) [0..<n]) (b, xx)
    = (fold (\<lambda>k b'. body (line - d * int k) (fst (cols b N line d xx (Suc k)))
          (snd (cols b N line d xx (Suc k))) b') [0..<n] b, cols b N line d xx n)"
proof (induction n)
  case (Suc n)
  define B where "B = fold (\<lambda>k b'. body (line - d * int k) (fst (cols b N line d xx (Suc k)))
          (snd (cols b N line d xx (Suc k))) b') [0..<n] b"
  have "same_frame b B" unfolding B_def by (rule same_frame_fold) (rule frame)
  then have w: "b_width B = b_width b" by (rule same_frameD)
  obtain a c where ac: "cols b N line d xx n = (a, c)" by (cases "cols b N line d xx n")
  show ?case
    by (simp only: upt_Suc_append [OF le0] map_append fold_append comp_def Suc.IH B_def [symmetric])
      (auto simp: Let_def w bottle ac cols_Suc)
qed simp

lemma rows_up: "rev (range_i 1 (line + 1)) = map (\<lambda>k. line - 1 * int k) [0..<nat line]"
proof (rule nth_equalityI)
  fix i assume "i < length (rev (range_i 1 (line + 1)))"
  then show "rev (range_i 1 (line + 1)) ! i = map (\<lambda>k. line - 1 * int k) [0..<nat line] ! i"
    by (simp add: rev_nth nth_range_i)
qed simp

lemma rows_down: "range_i line m = map (\<lambda>k. line - (- 1) * int k) [0..<nat (m - line)]"
  by (rule nth_equalityI) (simp_all add: nth_range_i)

definition falls_down :: "board \<Rightarrow> bool" where
  "falls_down b \<longleftrightarrow> \<not> board_is_active b Upbyside \<or> b_computer b"

text \<open>The direction, the number of steps and the neck rows of a removal.\<close>

definition rdir :: "board \<Rightarrow> int" where
  "rdir b = (if falls_down b then 1 else - 1)"

definition rsteps :: "board \<Rightarrow> int \<Rightarrow> nat" where
  "rsteps b line = (if falls_down b then nat line else nat (b_height b - 1 - line))"

definition rneck :: "board \<Rightarrow> int \<Rightarrow> bool" where
  "rneck b i \<longleftrightarrow> i \<le> 18 \<and> (if falls_down b then i \<ge> 10 else i \<ge> 9)"

definition rcols :: "board \<Rightarrow> int \<Rightarrow> int \<times> int \<Rightarrow> nat \<Rightarrow> int \<times> int" where
  "rcols b line xx n = cols b (rneck b) line (rdir b) xx n"

lemma remove_line_folds:
  assumes "0 \<le> x2"
  shows "remove_line b line x1 x2 =
    (let b' = fold (\<lambda>k b'. (if board_is_active b Force then force_row line (line - rdir b * int k)
              else move_row (line - rdir b * int k) (line - rdir b * int k - rdir b))
            (fst (rcols b line (x1, x2) (Suc k))) (snd (rcols b line (x1, x2) (Suc k))) b')
          [0..<rsteps b line] b;
         (x1, x2) = rcols b line (x1, x2) (rsteps b line)
     in if board_is_active b Force then b'
        else blank_row (if falls_down b then 0 else b_height b - 1) x1 x2 b')"
proof (cases "falls_down b")
  case True
  then have dir: "\<not> board_is_active b Upbyside \<or> b_computer b" by (simp add: falls_down_def)
  let ?body = "\<lambda>i x1 x2 b'. if board_is_active b Force then force_row line i x1 x2 b' else move_row i (i - 1) x1 x2 b'"
  have "same_frame b' (?body i y1 y2 b')" for i y1 y2 b' by simp
  note loop = row_loop [where body = ?body and N = "rneck b" and d = 1 and line = line and n = "nat line"
      and xx = "(x1, x2)", OF this, OF refl, of b]
  have neck: "rneck b i = (i \<le> 18 \<and> 10 \<le> i)" for i using True by (simp add: rneck_def)
  have "remove_line b line x1 x2 =
    (let (b', y1, y2) = fold (\<lambda>i (b', x1, x2).
        let (x1, x2) = (if board_is_active b Bottle \<and> rneck b i then (3, b_width b' - 3) else (x1, x2))
        in (?body i x1 x2 b', x1, x2)) (map (\<lambda>k. line - 1 * int k) [0..<nat line]) (b, x1, x2)
     in if \<not> board_is_active b Force then blank_row 0 y1 y2 b' else b')"
    using assms dir unfolding rows_up [symmetric] by (simp add: remove_line_def Let_def bt_const neck cong: if_cong)
  then show ?thesis
    unfolding loop using True
    by (simp add: Let_def split_beta rdir_def rsteps_def rcols_def if_distrib [of "\<lambda>f. f _ _ _"] cong: if_cong)
next
  case False
  then have dir: "\<not> (\<not> board_is_active b Upbyside \<or> b_computer b)" by (simp add: falls_down_def)
  let ?body = "\<lambda>i x1 x2 b'. if board_is_active b Force then force_row line i x1 x2 b' else move_row i (i + 1) x1 x2 b'"
  have "same_frame b' (?body i y1 y2 b')" for i y1 y2 b' by simp
  note loop = row_loop [where body = ?body and N = "rneck b" and d = "- 1" and line = line
      and n = "nat (b_height b - 1 - line)" and xx = "(x1, x2)", OF this, OF refl, of b]
  have neck: "rneck b i = (i \<le> 18 \<and> 9 \<le> i)" for i using False by (simp add: rneck_def)
  have "remove_line b line x1 x2 =
    (let (b', y1, y2) = fold (\<lambda>i (b', x1, x2).
        let (x1, x2) = (if board_is_active b Bottle \<and> rneck b i then (3, b_width b' - 3) else (x1, x2))
        in (?body i x1 x2 b', x1, x2))
          (map (\<lambda>k. line - (- 1) * int k) [0..<nat (b_height b - 1 - line)]) (b, x1, x2)
     in if \<not> board_is_active b Force then blank_row (b_height b' - 1) y1 y2 b' else b')"
    using assms dir unfolding rows_down [symmetric] by (simp add: remove_line_def Let_def bt_const neck cong: if_cong)
  moreover have "b_height (fold (\<lambda>k. move_row (line + int k) (line + int k + 1) (lo k) (hi k)) ks b) = b_height b" for lo hi ks
    by (rule same_frameD [OF same_frame_fold]) simp
  ultimately show ?thesis
    unfolding loop using False
    by (simp add: Let_def split_beta rdir_def rsteps_def rcols_def if_distrib [of "\<lambda>f. f _ _ _"] cong: if_cong)
qed

lemma same_frame_remove_line [simp]: "0 \<le> x2 \<Longrightarrow> same_frame b (remove_line b line x1 x2)"
  by (auto simp: remove_line_folds Let_def split_beta
      intro!: same_frame_trans [OF _ same_frame_blank_row] same_frame_fold)

text \<open>The columns that move into row \<open>y\<close> when \<open>line\<close> is removed.\<close>

definition rcol :: "board \<Rightarrow> int \<Rightarrow> int \<times> int \<Rightarrow> int \<Rightarrow> int set" where
  "rcol b line xx y = (let c = rcols b line xx (Suc (nat (rdir b * (line - y)))) in {fst c..<snd c})"

lemma rcols_bounds:
  assumes "wf_board b" "0 \<le> x1" "x2 \<le> b_width b"
  shows "0 \<le> fst (rcols b line (x1, x2) n)" "snd (rcols b line (x1, x2) n) \<le> b_width b"
  using assms by (auto simp: rcols_def cols_def wf_board_def)

lemma rdir_cases: "rdir b = 1 \<or> rdir b = - 1"
  by (simp add: rdir_def)

definition last_row :: "board \<Rightarrow> int" where
  "last_row b = (if falls_down b then 0 else b_height b - 1)"

lemma last_row_steps:
  "0 \<le> line \<Longrightarrow> line < b_height b \<Longrightarrow> last_row b = line - rdir b * int (rsteps b line)"
  by (simp add: last_row_def rdir_def rsteps_def)

lemma row_in_range:
  assumes "0 \<le> line" "line < b_height b" "k \<le> rsteps b line"
  shows "0 \<le> line - rdir b * int k" "line - rdir b * int k < b_height b"
  using assms by (auto simp: rdir_def rsteps_def nat_le_iff le_nat_iff split: if_splits)

lemma remove_line_law:
  assumes wf: "wf_board b" and line: "0 \<le> line" "line < b_height b"
    and xs: "0 \<le> x1" "0 \<le> x2" "x2 \<le> b_width b" and nf: "\<not> board_is_active b Force"
  shows "wf_board (remove_line b line x1 x2)"
    and "get (remove_line b line x1 x2) x y =
      (let d = rdir b; e = d * (line - y); n = int (rsteps b line); c = rcols b line (x1, x2) (rsteps b line) in
       if 0 \<le> e \<and> e < n \<and> x \<in> rcol b line (x1, x2) y then get b x (y - d)
       else if 0 < e \<and> e \<le> n \<and> x \<in> rcol b line (x1, x2) (y + d) then None
       else if y = last_row b \<and> fst c \<le> x \<and> x < snd c then None
       else get b x y)"
proof -
  let ?d = "rdir b" and ?n = "rsteps b line"
  let ?c = "\<lambda>n. rcols b line (x1, x2) n"
  let ?st = "\<lambda>k b'. move_row (line - ?d * int k) (line - ?d * int k - ?d) (fst (?c (Suc k))) (snd (?c (Suc k))) b'"
  define B where "B = fold ?st [0..<?n] b"
  have rcol: "rcol b line (x1, x2) (line - ?d * int k) = {fst (?c (Suc k))..<snd (?c (Suc k))}" for k
    using rdir_cases [of b] by (auto simp: rcol_def Let_def)
  have step: "wf_board (?st k g) \<and> b_width (?st k g) = b_width b \<and> b_height (?st k g) = b_height b \<and>
      (\<forall>x y. get (?st k g) x y =
        (if x \<in> rcol b line (x1, x2) (line - ?d * int k) then
          (if y = line - ?d * int k then get g x (y - ?d)
           else if y = line - ?d * int (Suc k) then None else get g x y)
         else get g x y))"
    if k: "k < ?n" and g: "wf_board g" "b_width g = b_width b" "b_height g = b_height b" for k g
  proof -
    have r: "0 \<le> line - ?d * int k" "line - ?d * int k < b_height g"
      using row_in_range [OF line, of k] k g by simp_all
    have r': "0 \<le> line - ?d * int k - ?d" "line - ?d * int k - ?d < b_height g"
      using row_in_range [OF line, of "Suc k"] k g by (simp_all add: algebra_simps)
    have "line - ?d * int k \<noteq> line - ?d * int k - ?d" using rdir_cases [of b] by auto
    note law = move_row_law [OF g(1) r r' this rcols_bounds(1) [OF wf xs(1,3)]]
    have x2: "snd (?c (Suc k)) \<le> b_width g" using rcols_bounds(2) [OF wf xs(1,3)] g by simp
    have "get (?st k g) x y = (if x \<in> rcol b line (x1, x2) (line - ?d * int k) then
          (if y = line - ?d * int k then get g x (y - ?d)
           else if y = line - ?d * int (Suc k) then None else get g x y)
         else get g x y)" for x y
      unfolding law(2) [OF x2] rcol
      by (cases "y = line - ?d * int k") (simp_all, simp add: algebra_simps)
    then show ?thesis
      using law(1) [OF x2] g same_frameD(1,2) [OF same_frame_move_row] by simp
  qed
  have shifted: "wf_board B \<and> b_width B = b_width b \<and> b_height B = b_height b \<and>
      (\<forall>x y. get B x y =
      (if 0 \<le> ?d * (line - y) \<and> ?d * (line - y) < int ?n \<and> x \<in> rcol b line (x1, x2) y then get b x (y - ?d)
       else if 0 < ?d * (line - y) \<and> ?d * (line - y) \<le> int ?n \<and> x \<in> rcol b line (x1, x2) (y + ?d) then None
       else get b x y))"
    unfolding B_def
    by (rule sq.shift_rows [where step = ?st and C = "rcol b line (x1, x2)" and n = ?n and line = line,
          unfolded Let_def]) (erule (3) step | rule rdir_cases wf refl)+
  note B = shifted [THEN conjunct1] shifted [THEN conjunct2, THEN conjunct1]
    shifted [THEN conjunct2, THEN conjunct2, THEN conjunct2, rule_format]
  have eq: "remove_line b line x1 x2 = blank_row (last_row b) (fst (?c ?n)) (snd (?c ?n)) B"
    using nf by (simp add: remove_line_folds [OF xs(2)] B_def Let_def split_beta last_row_def)
  note blank = blank_row_law [OF B(1), where i = "last_row b", OF rcols_bounds(1) [OF wf xs(1,3)],
      of "snd (?c ?n)" line ?n]
  have bnd: "snd (?c ?n) \<le> b_width B" using rcols_bounds(2) [OF wf xs(1,3)] B(2) by simp
  show "wf_board (remove_line b line x1 x2)" unfolding eq by (rule blank(1) [OF bnd])
  show "get (remove_line b line x1 x2) x y =
      (let d = rdir b; e = d * (line - y); n = int (rsteps b line); c = rcols b line (x1, x2) (rsteps b line) in
       if 0 \<le> e \<and> e < n \<and> x \<in> rcol b line (x1, x2) y then get b x (y - d)
       else if 0 < e \<and> e \<le> n \<and> x \<in> rcol b line (x1, x2) (y + d) then None
       else if y = last_row b \<and> fst c \<le> x \<and> x < snd c then None
       else get b x y)"
  proof -
    define e where "e = ?d * (line - y)"
    have last: "y = last_row b \<longleftrightarrow> e = int ?n"
      using last_row_steps [OF line] rdir_cases [of b] by (auto simp: e_def)
    show ?thesis
      unfolding eq blank(2) [OF bnd] B(3) Let_def e_def [symmetric] last by (cases "e = int ?n") simp_all
  qed
qed

subsection \<open>Consequences of the closed form\<close>

text \<open>A column that is never narrowed away loses its square in \<open>line\<close> and closes up.\<close>

definition moving_col :: "board \<Rightarrow> int \<Rightarrow> int \<Rightarrow> int \<Rightarrow> bool" where
  "moving_col b x1 x2 x \<longleftrightarrow> x1 \<le> x \<and> x < x2 \<and>
     (board_is_active b Bottle \<longrightarrow> 3 \<le> x \<and> x < b_width b - 3)"

lemma moving_col_rcols: "moving_col b x1 x2 x \<Longrightarrow>
    fst (rcols b line (x1, x2) n) \<le> x \<and> x < snd (rcols b line (x1, x2) n)"
  by (auto simp: moving_col_def rcols_def cols_def)

lemma remove_line_column:
  assumes "wf_board b" "0 \<le> line" "line < b_height b" "0 \<le> x1" "0 \<le> x2" "x2 \<le> b_width b"
    and "\<not> board_is_active b Force" and col: "moving_col b x1 x2 x"
  shows "get (remove_line b line x1 x2) x y =
    (if falls_down b then (if 0 < y \<and> y \<le> line then get b x (y - 1) else if y = 0 then None else get b x y)
     else (if line \<le> y \<and> y < b_height b - 1 then get b x (y + 1)
           else if y = b_height b - 1 then None else get b x y))"
proof -
  have mem: "x \<in> rcol b line (x1, x2) z" for z
    using moving_col_rcols [OF col] by (simp add: rcol_def Let_def)
  note law = remove_line_law(2) [OF assms(1-7), of x y]
  show ?thesis
  proof (cases "falls_down b")
    case True
    then have d: "rdir b = 1" "int (rsteps b line) = line" "last_row b = 0"
      using assms(2) by (simp_all add: rdir_def rsteps_def last_row_def)
    consider "y = 0" | "0 < y" "y \<le> line" | "y < 0" | "line < y" by linarith
    then show ?thesis
      using law mem moving_col_rcols [OF col] True by cases (simp_all add: Let_def d)
  next
    case False
    then have d: "rdir b = - 1" "int (rsteps b line) = b_height b - 1 - line" "last_row b = b_height b - 1"
      using assms(3) by (simp_all add: rdir_def rsteps_def last_row_def)
    consider "y = b_height b - 1" | "line \<le> y" "y < b_height b - 1" | "y < line" | "b_height b \<le> y" by linarith
    then show ?thesis
      using law mem moving_col_rcols [OF col] False assms(3) by cases (simp_all add: Let_def d)
  qed
qed

text \<open>The number of boxes in a column; removing a line with a box in the column takes one away.\<close>

definition col_count :: "board \<Rightarrow> int \<Rightarrow> nat" where
  "col_count b x = card {y. get b x y \<noteq> None}"

lemma finite_col [simp]: "finite {y. get b x y \<noteq> None}"
  by (rule finite_subset [of _ "{0..<b_height b}"]) (auto simp: get_def in_bounds_def split: if_splits)

lemma remove_line_col_count:
  assumes "wf_board b" "0 \<le> line" "line < b_height b" "0 \<le> x1" "0 \<le> x2" "x2 \<le> b_width b"
    and "\<not> board_is_active b Force" "moving_col b x1 x2 x" and box: "get b x line \<noteq> None"
  shows "col_count (remove_line b line x1 x2) x < col_count b x"
proof -
  let ?S = "{y. get b x y \<noteq> None}"
  let ?f = "\<lambda>y. if falls_down b then (if y < line then y + 1 else y) else (if line < y then y - 1 else y)"
  have out: "get b x y = None" if "y < 0 \<or> b_height b \<le> y" for y
    using that by (auto simp: get_def in_bounds_def)
  have "{y. get (remove_line b line x1 x2) x y \<noteq> None} \<subseteq> ?f ` (?S - {line})"
  proof
    fix y assume "y \<in> {y. get (remove_line b line x1 x2) x y \<noteq> None}"
    then have "get (remove_line b line x1 x2) x y \<noteq> None" by simp
    note y = this [unfolded remove_line_column [OF assms(1-8)]]
    define z where "z = (if falls_down b then (if y \<le> line then y - 1 else y)
      else (if line \<le> y then y + 1 else y))"
    have "y = ?f z" "z \<in> ?S - {line}"
      using y out [of y] by (auto simp: z_def split: if_splits)
    then show "y \<in> ?f ` (?S - {line})" by (rule image_eqI)
  qed
  then have "col_count (remove_line b line x1 x2) x \<le> card (?f ` (?S - {line}))"
    unfolding col_count_def by (intro card_mono finite_imageI finite_Diff finite_col)
  also have "\<dots> \<le> card (?S - {line})" by (intro card_image_le finite_Diff finite_col)
  also have "\<dots> < card ?S" using box by (intro card_Diff1_less finite_col) simp
  finally show ?thesis by (simp add: col_count_def)
qed

text \<open>Under Force only the line itself is emptied, and the last row of the loop not even that.\<close>

lemma remove_line_force:
  assumes "wf_board b" "0 \<le> x1" "0 \<le> x2" "x2 \<le> b_width b" and f: "board_is_active b Force"
  shows "wf_board (remove_line b line x1 x2)"
    and "get (remove_line b line x1 x2) x y =
      (if y = line \<and> 0 < rsteps b line \<and> x \<in> rcol b line (x1, x2) line then None else get b x y)"
proof -
  let ?c = "\<lambda>n. rcols b line (x1, x2) n"
  let ?st = "\<lambda>k b'. force_row line (line - rdir b * int k) (fst (?c (Suc k))) (snd (?c (Suc k))) b'"
  have bnd: "0 \<le> fst (?c n)" "snd (?c n) \<le> b_width b" for n using rcols_bounds assms(1,2,4) by auto
  have "wf_board (fold ?st [0..<n] b) \<and> b_width (fold ?st [0..<n] b) = b_width b \<and>
    (\<forall>x y. get (fold ?st [0..<n] b) x y =
      (if y = line \<and> 0 < n \<and> fst (?c 1) \<le> x \<and> x < snd (?c 1) then None else get b x y))" for n
  proof (induction n)
    case (Suc n)
    let ?B = "fold ?st [0..<n] b"
    have "line - rdir b * int n = line \<longleftrightarrow> n = 0" using rdir_cases [of b] by auto
    then show ?case
      using Suc.IH force_row_law [of ?B "fst (?c (Suc n))" "snd (?c (Suc n))" line "line - rdir b * int n"]
        bnd [of "Suc n"] same_frameD(1) [OF same_frame_force_row] by auto
  qed (simp add: assms)
  then show "wf_board (remove_line b line x1 x2)"
    "get (remove_line b line x1 x2) x y =
      (if y = line \<and> 0 < rsteps b line \<and> x \<in> rcol b line (x1, x2) line then None else get b x y)"
    by (simp_all add: remove_line_folds [OF assms(3)] Let_def split_beta f rcol_def)
qed

subsection \<open>The scan of a row\<close>

definition row_full :: "board \<Rightarrow> int \<Rightarrow> bool" where
  "row_full b j \<longleftrightarrow> (\<forall>x. 0 \<le> x \<longrightarrow> x < b_width b \<longrightarrow> get b x j \<noteq> None)"

definition opt_value :: "cell option \<Rightarrow> int" where
  "opt_value c = (case c of Some c \<Rightarrow> cell_value c | None \<Rightarrow> 0)"

definition row_value :: "board \<Rightarrow> int \<Rightarrow> int" where
  "row_value b j = (\<Sum>x \<leftarrow> range_i 0 (b_width b). opt_value (get b x j))"

lemma count_run_fst: "fst (count_run b j xs i nv) = i + int (length (takeWhile (\<lambda>x. get b x j \<noteq> None) xs))"
  by (induction xs arbitrary: i nv) (auto split: option.split)

lemma count_run_snd: "(\<forall>x \<in> set xs. get b x j \<noteq> None) \<Longrightarrow>
    snd (count_run b j xs i nv) = nv + (\<Sum>x \<leftarrow> xs. opt_value (get b x j))"
  by (induction xs arbitrary: i nv) (auto simp: opt_value_def split: option.split)

lemma takeWhile_length_iff: "length (takeWhile P xs) = length xs \<longleftrightarrow> (\<forall>x \<in> set xs. P x)"
  by (metis takeWhile_eq_all_conv takeWhile_eq_take take_all_iff order_refl)

lemma count_run_full:
  assumes "0 \<le> b_width b"
  shows "fst (count_run b j (range_i 0 (b_width b)) 0 0) = b_width b \<longleftrightarrow> row_full b j"
    and "row_full b j \<Longrightarrow> snd (count_run b j (range_i 0 (b_width b)) 0 0) = row_value b j"
proof -
  have "fst (count_run b j (range_i 0 (b_width b)) 0 0) = b_width b \<longleftrightarrow>
      length (takeWhile (\<lambda>x. get b x j \<noteq> None) (range_i 0 (b_width b))) = length (range_i 0 (b_width b))"
    using assms by (simp only: count_run_fst length_range_i) linarith
  then show "fst (count_run b j (range_i 0 (b_width b)) 0 0) = b_width b \<longleftrightarrow> row_full b j"
    unfolding takeWhile_length_iff by (auto simp: row_full_def)
  show "row_full b j \<Longrightarrow> snd (count_run b j (range_i 0 (b_width b)) 0 0) = row_value b j"
    by (simp add: count_run_snd row_full_def row_value_def)
qed

text \<open>Boards that differ at most in the squares and the idiot flag.\<close>

definition same_cfg :: "board \<Rightarrow> board \<Rightarrow> bool" where
  "same_cfg b b' \<longleftrightarrow>
     b' = b\<lparr>b_cells := b_cells b', b_idiot := b_idiot b', b_reason := b_reason b'\<rparr>"

lemma same_cfg_refl [simp]: "same_cfg b b"
  by (simp add: same_cfg_def)

lemma same_cfg_trans [trans]: "same_cfg a b \<Longrightarrow> same_cfg b c \<Longrightarrow> same_cfg a c"
  by (cases a; cases b; cases c) (simp add: same_cfg_def)

lemma same_frame_cfg: "same_frame b b' \<Longrightarrow> same_cfg b b'"
  by (cases b; cases b') (simp add: same_cfg_def same_frame_def)

lemma same_cfgD:
  assumes "same_cfg b b'"
  shows "b_width b' = b_width b" "b_height b' = b_height b" "b_active b' = b_active b"
    "b_upside b' = b_upside b" "b_computer b' = b_computer b" "b_new_fill b' = b_new_fill b"
  using assms by (cases b; cases b'; simp add: same_cfg_def)+

lemma same_cfg_active: "same_cfg b b' \<Longrightarrow> board_is_active b' t = board_is_active b t"
  by (simp add: board_is_active_def same_cfgD)

lemma same_cfg_idiot [simp]:
  "same_cfg b (b'\<lparr>b_idiot := i, b_reason := r\<rparr>) = same_cfg b b'"
  "same_cfg b (b'\<lparr>b_idiot := i\<rparr>) = same_cfg b b'"
  by (cases b; cases b'; simp add: same_cfg_def)+

text \<open>A landed happy face is a frown.\<close>

definition frown :: "cell option \<Rightarrow> cell option" where
  "frown c = map_option (\<lambda>c. if cell_value c = BT_HAPPY_VAL then cell_landed c else c) c"

lemma frown_None [simp]: "frown c = None \<longleftrightarrow> c = None"
  by (simp add: frown_def)

lemma frown_row_cfg [simp]: "same_cfg b (frown_row b j)"
  unfolding frown_row_def
proof (rule fold_preserves [where P = "same_cfg b"])
  fix x b' assume "same_cfg b b'"
  then show "same_cfg b (case get b' x j of None \<Rightarrow> b' | Some c \<Rightarrow>
      if cell_value c = BT_HAPPY_VAL then set_cell b' x j (Some (cell_landed c))\<lparr>b_idiot := True, b_reason := BT_MISSED_SMILEY\<rparr>
      else b')"
    using same_cfg_trans [OF _ same_frame_cfg [OF same_frame_set]] by (auto split: option.split)
qed simp

lemma frown_row_law:
  assumes "wf_board b"
  shows "wf_board (frown_row b j)"
    and "get (frown_row b j) x y = (if y = j then frown (get b x y) else get b x y)"
proof -
  note law = row_fold_law [where b = b and i = j and f = "\<lambda>x. frown" and ?x1.0 = 0 and ?x2.0 = "b_width b"
      and st = "\<lambda>i b. case get b i j of
         Some c \<Rightarrow> (if cell_value c = BT_HAPPY_VAL
           then (set_cell b i j (Some (cell_landed c)))\<lparr>b_idiot := True, b_reason := BT_MISSED_SMILEY\<rparr>
           else b)
       | None \<Rightarrow> b", folded frown_row_def]
  show "wf_board (frown_row b j)"
    by (rule law(1)) (use assms in \<open>auto simp: frown_def get_set_cell get_out split: option.split\<close>)
  have "get (frown_row b j) x y = (if 0 \<le> x \<and> x < b_width b \<and> y = j then frown (get b x y) else get b x y)"
    by (rule law(2)) (use assms in \<open>auto simp: frown_def get_set_cell get_out split: option.split\<close>)
  moreover have "get b x y = None" if "\<not> (0 \<le> x \<and> x < b_width b)"
    using that by (auto simp: get_def in_bounds_def)
  ultimately show "get (frown_row b j) x y = (if y = j then frown (get b x y) else get b x y)"
    by (auto simp: frown_def)
qed

subsection \<open>The main pass returns\<close>

text \<open>A full row that is removed takes a box from column 3, which no bottle covers.\<close>

lemma clear_pass_step:
  assumes "0 \<le> b_width b"
  shows "clear_pass force b j v l =
    (if j < 0 then Some (b, v, l)
     else if row_full b j then
       clear_pass force (remove_line b j 0 (b_width b)) (if force then j - 1 else j) (v + row_value b j) (l + 1)
     else clear_pass force (frown_row b j) (j - 1) v l)"
  by (subst clear_pass.simps) (simp add: split_beta count_run_full [OF assms])

lemma remove_line_wf:
  assumes "wf_board b" "0 \<le> line" "line < b_height b"
  shows "wf_board (remove_line b line 0 (b_width b))"
  using assms remove_line_law(1) [OF assms, of 0 "b_width b"] remove_line_force(1) [OF assms(1), of 0 "b_width b"]
  by (cases "board_is_active b Force") (auto simp: wf_board_def)

lemma clear_pass_ind [consumes 2, case_names over full rest]:
  assumes "wf_board b" "j < b_height b"
    and over: "\<And>b j v l. wf_board b \<Longrightarrow> j < 0 \<Longrightarrow> P b j v l"
    and full: "\<And>b j v l. wf_board b \<Longrightarrow> 0 \<le> j \<Longrightarrow> j < b_height b \<Longrightarrow> row_full b j \<Longrightarrow>
      P (remove_line b j 0 (b_width b)) (if board_is_active b Force then j - 1 else j) (v + row_value b j) (l + 1)
      \<Longrightarrow> P b j v l"
    and rest: "\<And>b j v l. wf_board b \<Longrightarrow> 0 \<le> j \<Longrightarrow> j < b_height b \<Longrightarrow> \<not> row_full b j \<Longrightarrow>
      P (frown_row b j) (j - 1) v l \<Longrightarrow> P b j v l"
  shows "P b j v l"
  using assms(1,2)
proof (induction "(b, j)" arbitrary: b j v l
    rule: wf_induct_rule [OF wf_measures [of "[\<lambda>(b, j). nat (j + 1), \<lambda>(b, j). col_count b 3]"], case_names less])
  case (less b j v l)
  show ?case
  proof (cases "j < 0")
    case False
    then have j: "0 \<le> j" "j < b_height b" using less.prems by auto
    have w: "7 \<le> b_width b" using less.prems(1) by (simp add: wf_board_def)
    show ?thesis
    proof (cases "row_full b j")
      case True
      let ?b = "remove_line b j 0 (b_width b)"
      have dims: "b_height ?b = b_height b" using w by (intro same_frameD same_frame_remove_line) simp
      have "col_count ?b 3 < col_count b 3" if "\<not> board_is_active b Force"
        using that less.prems(1) j w True
        by (intro remove_line_col_count) (auto simp: moving_col_def row_full_def)
      then have "((?b, if board_is_active b Force then j - 1 else j), (b, j))
          \<in> measures [\<lambda>(b, j). nat (j + 1), \<lambda>(b, j). col_count b 3]"
        using j by simp
      from less.hyps [OF this] have "P ?b (if board_is_active b Force then j - 1 else j) v' l'" for v' l'
        using j dims remove_line_wf [OF less.prems(1) j] by simp
      then show ?thesis by (rule full [OF less.prems(1) j True])
    next
      case False
      have "((frown_row b j, j - 1), (b, j)) \<in> measures [\<lambda>(b, j). nat (j + 1), \<lambda>(b, j). col_count b 3]"
        using j by simp
      from less.hyps [OF this] have "P (frown_row b j) (j - 1) v l"
        using j frown_row_law(1) [OF less.prems(1)] same_cfgD(2) [OF frown_row_cfg, of b j] by simp
      then show ?thesis by (rule rest [OF less.prems(1) j False])
    qed
  qed (use over less.prems in blast)
qed

lemma clear_pass_returns:
  assumes "wf_board b" "j < b_height b"
  shows "returns (\<lambda>(b', v', l'). wf_board b' \<and> same_cfg b b' \<and> l \<le> l')
    (clear_pass (board_is_active b Force) b j v l)"
  using assms
proof (induction b j v l rule: clear_pass_ind)
  case (over b j v l)
  then show ?case using clear_pass_step [of b] by (simp add: wf_board_def)
next
  case (full b j v l)
  let ?b = "remove_line b j 0 (b_width b)"
  have w: "0 \<le> b_width b" using full.hyps by (simp add: wf_board_def)
  have cfg: "same_cfg b ?b" using w by (intro same_frame_cfg same_frame_remove_line)
  have "returns (\<lambda>(b', v', l'). wf_board b' \<and> same_cfg ?b b' \<and> l + 1 \<le> l')
    (clear_pass (board_is_active b Force) b j v l)"
    using full.IH full.hyps clear_pass_step [OF w] same_cfg_active [OF cfg] by simp
  then show ?case by (rule returns_mono) (use same_cfg_trans [OF cfg] in auto)
next
  case (rest b j v l)
  have w: "0 \<le> b_width b" using rest.hyps by (simp add: wf_board_def)
  have "returns (\<lambda>(b', v', l'). wf_board b' \<and> same_cfg (frown_row b j) b' \<and> l \<le> l')
    (clear_pass (board_is_active b Force) b j v l)"
    using rest.IH rest.hyps clear_pass_step [OF w] same_cfg_active [OF frown_row_cfg] by simp
  then show ?case by (rule returns_mono) (use same_cfg_trans [OF frown_row_cfg] in auto)
qed

lemma check_lines_returns:
  assumes "wf_board b"
  shows "returns (\<lambda>(lc, b'). wf_board b' \<and> same_cfg b b' \<and> 0 \<le> lc_lines lc
      \<and> lc_funds lc = lc_value lc * lc_lines lc) (check_lines b)"
  unfolding check_lines_def Let_def
  by (rule returns_bind [OF clear_pass_returns]) (use assms in \<open>auto simp: line_clear_default_def\<close>)

subsection \<open>The line check of a plain board\<close>

definition row_cells :: "board \<Rightarrow> int \<Rightarrow> cell option list" where
  "row_cells b y = map (\<lambda>x. get b x y) (range_i 0 (b_width b))"

definition board_rows :: "board \<Rightarrow> cell option list list" where
  "board_rows b = map (row_cells b) (range_i 0 (b_height b))"

definition full_row :: "cell option list \<Rightarrow> bool" where
  "full_row r = list_all (\<lambda>c. c \<noteq> None) r"

definition value_of_row :: "cell option list \<Rightarrow> int" where
  "value_of_row r = (\<Sum>c \<leftarrow> r. opt_value c)"

definition frown_cells :: "cell option list \<Rightarrow> cell option list" where
  "frown_cells r = map frown r"

lemma row_full_cells: "row_full b y = full_row (row_cells b y)"
  by (auto simp: row_full_def full_row_def row_cells_def list_all_iff)

lemma row_value_cells: "row_value b y = value_of_row (row_cells b y)"
  by (simp add: row_value_def value_of_row_def row_cells_def comp_def)

lemma length_board_rows [simp]: "length (board_rows b) = nat (b_height b)"
  by (simp add: board_rows_def)

lemma nth_board_rows: "n < nat (b_height b) \<Longrightarrow> board_rows b ! n = row_cells b (int n)"
  by (simp add: board_rows_def nth_range_i)

lemma frown_idem [simp]: "frown (frown c) = frown c"
proof -
  have "cell_landed (cell_landed d) = cell_landed d" for d by simp
  then show ?thesis by (cases c) (simp_all add: frown_def)
qed

lemma frown_cells_idem [simp]: "frown_cells (frown_cells r) = frown_cells r"
  by (simp add: frown_cells_def)

lemma full_row_frown [simp]: "full_row (frown_cells r) = full_row r"
  by (simp add: full_row_def frown_cells_def list_all_iff del: not_None_eq)

definition empty_row :: "board \<Rightarrow> cell option list" where
  "empty_row b = replicate (nat (b_width b)) None"

lemma empty_row_simps [simp]:
  "frown_cells (empty_row b) = empty_row b"
  "7 \<le> b_width b \<Longrightarrow> \<not> full_row (empty_row b)"
  by (simp_all add: empty_row_def frown_cells_def full_row_def frown_def list_all_iff)

lemma row_cells_cong:
  "b_width b' = b_width b \<Longrightarrow> (\<And>x. 0 \<le> x \<Longrightarrow> x < b_width b \<Longrightarrow> get b' x y' = get b x y) \<Longrightarrow>
    row_cells b' y' = row_cells b y"
  by (simp add: row_cells_def)

lemma row_cells_empty:
  assumes "b_width b' = b_width b" "\<And>x. 0 \<le> x \<Longrightarrow> x < b_width b \<Longrightarrow> get b' x y' = None"
  shows "row_cells b' y' = empty_row b"
proof -
  have "row_cells b' y' = map (\<lambda>x. None) (range_i 0 (b_width b))"
    using assms by (simp add: row_cells_def)
  then show ?thesis by (simp add: empty_row_def map_replicate_const)
qed

lemma nth_drop_line:
  assumes "m < length xs" "n < length xs"
  shows "(e # take m xs @ drop (Suc m) xs) ! n = (if n = 0 then e else if n \<le> m then xs ! (n - 1) else xs ! n)"
    and "(take m xs @ drop (Suc m) xs @ [e]) ! n =
      (if n < m then xs ! n else if n < length xs - 1 then xs ! Suc n else e)"
  using assms by (auto simp: nth_append nth_Cons' min_def)

lemma board_rows_remove:
  assumes wf: "wf_board b" and j: "0 \<le> j" "j < b_height b"
    and plain: "\<not> board_is_active b Force" "\<not> board_is_active b Bottle"
  shows "board_rows (remove_line b j 0 (b_width b)) =
    (if falls_down b then empty_row b # take (nat j) (board_rows b) @ drop (nat (j + 1)) (board_rows b)
     else take (nat j) (board_rows b) @ drop (nat (j + 1)) (board_rows b) @ [empty_row b])"
proof -
  let ?b = "remove_line b j 0 (b_width b)"
  have w: "7 \<le> b_width b" using wf by (simp add: wf_board_def)
  then have dims: "b_width ?b = b_width b" "b_height ?b = b_height b"
    by (intro same_frameD same_frame_remove_line; simp)+
  note law = remove_line_column [OF wf j _ _ _ plain(1)]
  have row: "row_cells ?b y =
    (if falls_down b then (if 0 < y \<and> y \<le> j then row_cells b (y - 1) else if y = 0 then empty_row b else row_cells b y)
     else (if j \<le> y \<and> y < b_height b - 1 then row_cells b (y + 1)
           else if y = b_height b - 1 then empty_row b else row_cells b y))" for y
    using w plain(2) dims(1)
    by (auto intro!: row_cells_cong row_cells_empty simp: law moving_col_def)
  show ?thesis
  proof (rule nth_equalityI)
    show "length (board_rows ?b) = length (if falls_down b
        then empty_row b # take (nat j) (board_rows b) @ drop (nat (j + 1)) (board_rows b)
        else take (nat j) (board_rows b) @ drop (nat (j + 1)) (board_rows b) @ [empty_row b])"
      using j by (auto simp: dims)
    fix n assume "n < length (board_rows ?b)"
    then have n: "n < nat (b_height b)" by (simp add: dims)
    then have "board_rows ?b ! n = row_cells ?b (int n)" by (simp add: nth_board_rows dims)
    also have "\<dots> = (if falls_down b
        then empty_row b # take (nat j) (board_rows b) @ drop (nat (j + 1)) (board_rows b)
        else take (nat j) (board_rows b) @ drop (nat (j + 1)) (board_rows b) @ [empty_row b]) ! n"
    proof -
      have m: "nat j < length (board_rows b)" "n < length (board_rows b)" "nat (j + 1) = Suc (nat j)"
        using j n by auto
      have prev: "0 < n \<Longrightarrow> board_rows b ! (n - 1) = row_cells b (int n - 1)"
        using n by (simp add: nth_board_rows of_nat_diff)
      have succ: "int n < b_height b - 1 \<Longrightarrow> board_rows b ! Suc n = row_cells b (int n + 1)"
        using nth_board_rows [of "Suc n" b] n by (simp add: add.commute)
      show ?thesis
        unfolding row m(3) using nth_drop_line [OF m(1,2)] prev succ n j
        by (cases "falls_down b") (auto simp: nth_board_rows)
    qed
    finally show "board_rows ?b ! n = (if falls_down b
        then empty_row b # take (nat j) (board_rows b) @ drop (nat (j + 1)) (board_rows b)
        else take (nat j) (board_rows b) @ drop (nat (j + 1)) (board_rows b) @ [empty_row b]) ! n" .
  qed
qed

lemma board_rows_frown:
  assumes "wf_board b" "0 \<le> j" "j < b_height b"
  shows "board_rows (frown_row b j) = (board_rows b)[nat j := frown_cells (board_rows b ! nat j)]"
proof (rule nth_equalityI)
  let ?b = "frown_row b j"
  have dims: "b_width ?b = b_width b" "b_height ?b = b_height b"
    using same_cfgD [OF frown_row_cfg] by blast+
  show "length (board_rows ?b) = length ((board_rows b)[nat j := frown_cells (board_rows b ! nat j)])"
    by (simp add: dims)
  fix n assume "n < length (board_rows ?b)"
  then have n: "n < nat (b_height b)" by (simp add: dims)
  have "row_cells ?b y = (if y = j then frown_cells (row_cells b y) else row_cells b y)" for y
    by (auto simp: row_cells_def dims frown_row_law(2) [OF assms(1)] frown_cells_def)
  then show "board_rows ?b ! n = (board_rows b)[nat j := frown_cells (board_rows b ! nat j)] ! n"
    using n assms(2) by (auto simp: nth_board_rows dims nth_list_update)
qed

text \<open>
  What the pass computes on rows: the full rows among the first \<open>n\<close> go, the others get their
  frowns, and as many empty rows come in from the side the rows move away from.
\<close>

definition pass_rows :: "bool \<Rightarrow> cell option list \<Rightarrow> nat \<Rightarrow> cell option list list \<Rightarrow> cell option list list" where
  "pass_rows down e n rs =
     (let keep = map frown_cells (filter (\<lambda>r. \<not> full_row r) (take n rs)) @ drop n rs;
          new = replicate (length (filter full_row (take n rs))) e
      in if down then new @ keep else keep @ new)"

definition pass_value :: "nat \<Rightarrow> cell option list list \<Rightarrow> int" where
  "pass_value n rs = (\<Sum>r \<leftarrow> filter full_row (take n rs). value_of_row r)"

definition pass_lines :: "nat \<Rightarrow> cell option list list \<Rightarrow> int" where
  "pass_lines n rs = int (length (filter full_row (take n rs)))"

text \<open>One full row taken out, one row that stays: the two steps of the pass on lists of rows.\<close>

lemma pass_full:
  assumes m: "m < length rs" and full: "full_row (rs ! m)"
    and e: "\<not> full_row e" "frown_cells e = e"
    and done_: "\<forall>r \<in> set (drop (Suc m) rs). \<not> full_row r \<and> frown_cells r = r"
  shows "pass_rows True e (Suc m) (e # take m rs @ drop (Suc m) rs) = pass_rows True e (Suc m) rs"
    and "pass_rows False e (Suc m) (take m rs @ drop (Suc m) rs @ [e]) = pass_rows False e (Suc m) rs"
    and "ns \<in> {e # take m rs @ drop (Suc m) rs, take m rs @ drop (Suc m) rs @ [e]} \<Longrightarrow>
      rs' = ns \<Longrightarrow> pass_lines (Suc m) rs' + 1 = pass_lines (Suc m) rs
        \<and> pass_value (Suc m) rs' + value_of_row (rs ! m) = pass_value (Suc m) rs"
proof -
  have split: "take (Suc m) rs = take m rs @ [rs ! m]" by (rule take_Suc_conv_app_nth [OF m])
  obtain x t where xt: "drop (Suc m) rs @ [e] = x # t" by (cases "drop (Suc m) rs") auto
  have up: "take (Suc m) (take m rs @ drop (Suc m) rs @ [e]) = take m rs @ [x]"
    "drop (Suc m) (take m rs @ drop (Suc m) rs @ [e]) = t"
    using m unfolding xt by (simp_all add: min_def)
  have "x \<in> set (drop (Suc m) rs @ [e])" unfolding xt by simp
  then have x: "\<not> full_row x" "frown_cells x = x" using e done_ by auto
  have rep: "replicate k e @ e # xs = e # replicate k e @ xs" for k xs
    by (simp add: replicate_app_Cons_same)
  have tail: "x # t @ ys = drop (Suc m) rs @ e # ys" for ys
    using arg_cong [OF xt, of "\<lambda>l. l @ ys"] by simp
  show "pass_rows True e (Suc m) (e # take m rs @ drop (Suc m) rs) = pass_rows True e (Suc m) rs"
    using m e full by (simp add: pass_rows_def Let_def split rep min_def)
  show "pass_rows False e (Suc m) (take m rs @ drop (Suc m) rs @ [e]) = pass_rows False e (Suc m) rs"
    unfolding pass_rows_def Let_def up split using full x by (simp add: tail)
  show "ns \<in> {e # take m rs @ drop (Suc m) rs, take m rs @ drop (Suc m) rs @ [e]} \<Longrightarrow>
      rs' = ns \<Longrightarrow> pass_lines (Suc m) rs' + 1 = pass_lines (Suc m) rs
        \<and> pass_value (Suc m) rs' + value_of_row (rs ! m) = pass_value (Suc m) rs"
    unfolding pass_lines_def pass_value_def split
    by (elim insertE emptyE; hypsubst; (unfold up)?) (use m e full x in \<open>simp_all add: min_def\<close>)
qed

lemma pass_rest:
  assumes m: "m < length rs" and nf: "\<not> full_row (rs ! m)"
  shows "pass_rows d e m (rs[m := frown_cells (rs ! m)]) = pass_rows d e (Suc m) rs"
    and "pass_lines m (rs[m := frown_cells (rs ! m)]) = pass_lines (Suc m) rs"
    and "pass_value m (rs[m := frown_cells (rs ! m)]) = pass_value (Suc m) rs"
proof -
  have split: "take (Suc m) rs = take m rs @ [rs ! m]" by (rule take_Suc_conv_app_nth [OF m])
  have d: "drop m (rs[m := x]) = x # drop (Suc m) rs" for x
    using m by (simp add: drop_update_swap Cons_nth_drop_Suc [symmetric])
  show "pass_rows d e m (rs[m := frown_cells (rs ! m)]) = pass_rows d e (Suc m) rs"
    "pass_lines m (rs[m := frown_cells (rs ! m)]) = pass_lines (Suc m) rs"
    "pass_value m (rs[m := frown_cells (rs ! m)]) = pass_value (Suc m) rs"
    using nf by (simp_all add: pass_rows_def pass_lines_def pass_value_def Let_def split d)
qed

lemma clear_pass_plain:
  assumes "wf_board b" "j < b_height b" "- 1 \<le> j"
    and "\<not> board_is_active b Force" "\<not> board_is_active b Bottle"
    and "\<forall>r \<in> set (drop (nat (j + 1)) (board_rows b)). \<not> full_row r \<and> frown_cells r = r"
  shows "returns (\<lambda>(b', v', l'). board_rows b' = pass_rows (falls_down b) (empty_row b) (nat (j + 1)) (board_rows b)
      \<and> v' = v + pass_value (nat (j + 1)) (board_rows b) \<and> l' = l + pass_lines (nat (j + 1)) (board_rows b))
    (clear_pass False b j v l)"
  using assms
proof (induction b j v l rule: clear_pass_ind)
  case (over b j v l)
  then have "j = - 1" by simp
  then show ?case using clear_pass_step [of b] over.hyps
    by (simp add: wf_board_def pass_rows_def Let_def pass_value_def pass_lines_def)
next
  case (full b j v l)
  let ?b = "remove_line b j 0 (b_width b)" and ?rs = "board_rows b" and ?e = "empty_row b"
  have w: "7 \<le> b_width b" using full.hyps by (simp add: wf_board_def)
  have frame: "same_frame b ?b" using w by (intro same_frame_remove_line) simp
  note cfg = same_frame_cfg [OF frame]
  have same: "falls_down ?b = falls_down b" "empty_row ?b = empty_row b"
    by (simp_all add: falls_down_def empty_row_def same_cfg_active [OF cfg] same_cfgD [OF cfg])
  have m: "nat j < length ?rs" "nat (j + 1) = Suc (nat j)" using full.hyps by auto
  have fullr: "full_row (?rs ! nat j)" "row_value b j = value_of_row (?rs ! nat j)"
    using full.hyps by (simp_all add: nth_board_rows row_full_cells row_value_cells)
  note rows = board_rows_remove [OF full.hyps(1-3) full.prems(2,3)]
  have e: "\<not> full_row ?e" "frown_cells ?e = ?e" using w by simp_all
  have done_: "\<forall>r \<in> set (drop (Suc (nat j)) ?rs). \<not> full_row r \<and> frown_cells r = r"
    using full.prems(4) m(2) by simp
  note pass = pass_full [OF m(1) fullr(1) e done_]
  have drop': "\<forall>r \<in> set (drop (Suc (nat j)) (board_rows ?b)). \<not> full_row r \<and> frown_cells r = r"
  proof (cases "falls_down b")
    case True
    then show ?thesis using done_ m(1) unfolding rows m(2) by (auto simp: min_def)
  next
    case False
    have "set (drop (Suc (nat j)) (board_rows ?b)) \<subseteq> set (drop (Suc (nat j)) ?rs) \<union> {?e}"
      using False m(1) unfolding rows m(2) by (cases "drop (Suc (nat j)) ?rs") (auto simp: min_def)
    then show ?thesis using done_ e by blast
  qed
  have IH: "returns (\<lambda>(b', v', l'). board_rows b' = pass_rows (falls_down b) ?e (Suc (nat j)) (board_rows ?b)
      \<and> v' = v + row_value b j + pass_value (Suc (nat j)) (board_rows ?b)
      \<and> l' = l + 1 + pass_lines (Suc (nat j)) (board_rows ?b)) (clear_pass False b j v l)"
    using full.IH full.hyps full.prems drop' clear_pass_step [of b] w m(2)
    by (simp add: same same_cfg_active [OF cfg] same_cfgD [OF cfg])
  have P: "pass_rows (falls_down b) ?e (Suc (nat j)) (board_rows ?b) = pass_rows (falls_down b) ?e (Suc (nat j)) ?rs"
    using pass(1,2) unfolding rows m(2) by (cases "falls_down b") simp_all
  have L: "pass_lines (Suc (nat j)) (board_rows ?b) + 1 = pass_lines (Suc (nat j)) ?rs
      \<and> pass_value (Suc (nat j)) (board_rows ?b) + value_of_row (?rs ! nat j) = pass_value (Suc (nat j)) ?rs"
    by (rule pass(3) [OF _ refl]) (simp add: rows m(2))
  show ?case unfolding m(2)
    by (rule returns_mono [OF IH]) (use L in \<open>auto simp: P fullr(2)\<close>)
next
  case (rest b j v l)
  let ?b = "frown_row b j" and ?rs = "board_rows b"
  have w: "7 \<le> b_width b" using rest.hyps by (simp add: wf_board_def)
  note cfg = frown_row_cfg [of b j]
  have same: "falls_down ?b = falls_down b" "empty_row ?b = empty_row b"
    by (simp_all add: falls_down_def empty_row_def same_cfg_active [OF cfg] same_cfgD [OF cfg])
  have m: "nat j < length ?rs" "nat (j + 1) = Suc (nat j)" using rest.hyps by auto
  have nf: "\<not> full_row (?rs ! nat j)" using rest.hyps by (simp add: nth_board_rows row_full_cells)
  note rows = board_rows_frown [OF rest.hyps(1-3)]
  have "\<forall>r \<in> set (drop (nat j) (board_rows ?b)). \<not> full_row r \<and> frown_cells r = r"
    using rest.prems(4) m nf unfolding rows by (simp add: drop_update_swap Cons_nth_drop_Suc [symmetric])
  then have "returns (\<lambda>(b', v', l'). board_rows b' = pass_rows (falls_down b) (empty_row b) (nat j) (board_rows ?b)
      \<and> v' = v + pass_value (nat j) (board_rows ?b) \<and> l' = l + pass_lines (nat j) (board_rows ?b))
    (clear_pass False b j v l)"
    using rest.IH rest.hyps rest.prems clear_pass_step [of b] w
    by (simp add: same same_cfg_active [OF cfg] same_cfgD [OF cfg])
  then show ?case unfolding rows m(2) pass_rest [OF m(1) nf] .
qed

text \<open>The reference: full rows vanish, the rest keeps its order and moves together.\<close>

definition drop_full_rows :: "bool \<Rightarrow> cell option list \<Rightarrow> cell option list list \<Rightarrow> cell option list list" where
  "drop_full_rows down e rs =
     (let keep = map frown_cells (filter (\<lambda>r. \<not> full_row r) rs);
          new = replicate (length (filter full_row rs)) e
      in if down then new @ keep else keep @ new)"

lemma check_lines_rows:
  assumes wf: "wf_board b" and plain: "\<not> board_is_active b Force" "\<not> board_is_active b Bottle"
  shows "returns (\<lambda>(lc, b'). board_rows b' = drop_full_rows (falls_down b) (empty_row b) (board_rows b)
      \<and> lc_lines lc = int (length (filter full_row (board_rows b)))
      \<and> lc_value lc = (\<Sum>r \<leftarrow> filter full_row (board_rows b). value_of_row r)
      \<and> lc_funds lc = lc_value lc * lc_lines lc) (check_lines b)"
proof -
  let ?rs = "board_rows b" and ?n = "nat (b_height b - 1 + 1)"
  have h: "4 \<le> b_height b" using wf by (simp add: wf_board_def)
  have all: "take ?n ?rs = ?rs" "drop ?n ?rs = []" by simp_all
  have P: "pass_rows (falls_down b) (empty_row b) ?n ?rs = drop_full_rows (falls_down b) (empty_row b) ?rs"
    by (simp add: pass_rows_def drop_full_rows_def Let_def)
  have V: "pass_value ?n ?rs = (\<Sum>r \<leftarrow> filter full_row ?rs. value_of_row r)"
    and L: "pass_lines ?n ?rs = int (length (filter full_row ?rs))"
    by (simp_all add: pass_value_def pass_lines_def)
  have rows: "board_rows (b'\<lparr>b_idiot := i\<rparr>) = board_rows b'" "board_rows (b'\<lparr>b_idiot := i, b_reason := q\<rparr>) = board_rows b'"
    for b' i q
    by (simp_all add: board_rows_def row_cells_def fun_eq_iff)
  have main: "returns (\<lambda>(b', v', l'). board_rows b' = drop_full_rows (falls_down b) (empty_row b) ?rs
      \<and> v' = (\<Sum>r \<leftarrow> filter full_row ?rs. value_of_row r) \<and> l' = int (length (filter full_row ?rs)))
    (clear_pass False b (b_height b - 1) 0 0)"
    using clear_pass_plain [OF wf _ _ plain, of "b_height b - 1" 0 0] h unfolding P V L by simp
  show ?thesis
    unfolding check_lines_def Let_def using plain(1)
    by (auto intro!: returns_bind [OF main] simp: line_clear_default_def rows)
qed

text \<open>Outside Force a row that was examined stays short of full, also under Bottle on a board that falls down.\<close>

lemma remove_line_below:
  assumes "wf_board b" "0 \<le> line" "line < b_height b" "\<not> board_is_active b Force" "falls_down b" "line < y"
  shows "get (remove_line b line 0 (b_width b)) x y = get b x y"
proof -
  have "rdir b = 1" "last_row b = 0" using assms(5) by (simp_all add: rdir_def last_row_def)
  then show ?thesis
    using remove_line_law(2) [OF assms(1-3), of 0 "b_width b" x y] assms by (simp add: wf_board_def Let_def)
qed

lemma clear_pass_none_full:
  assumes "wf_board b" "j < b_height b"
    and "\<not> board_is_active b Force" "falls_down b" "\<forall>y. j < y \<longrightarrow> \<not> row_full b y" "- 1 \<le> j"
  shows "returns (\<lambda>(b', v', l'). \<forall>y \<ge> 0. \<not> row_full b' y) (clear_pass False b j v l)"
  using assms
proof (induction b j v l rule: clear_pass_ind)
  case (over b j v l)
  then show ?case using clear_pass_step [of b] by (simp add: wf_board_def)
next
  case (full b j v l)
  let ?b = "remove_line b j 0 (b_width b)"
  have w: "0 \<le> b_width b" using full.hyps by (simp add: wf_board_def)
  have frame: "same_frame b ?b" using w by (intro same_frame_remove_line)
  note cfg = same_frame_cfg [OF frame]
  have "falls_down ?b" using full.prems by (simp add: falls_down_def same_cfg_active [OF cfg] same_cfgD [OF cfg])
  moreover have "row_full ?b y = row_full b y" if "j < y" for y
    using that full.hyps full.prems by (simp add: row_full_def same_cfgD [OF cfg] remove_line_below)
  ultimately show ?case
    using full.IH full.hyps full.prems clear_pass_step [OF w] by (simp add: same_cfg_active [OF cfg])
next
  case (rest b j v l)
  let ?b = "frown_row b j"
  have w: "0 \<le> b_width b" using rest.hyps by (simp add: wf_board_def)
  note cfg = frown_row_cfg [of b j]
  have "falls_down ?b" using rest.prems by (simp add: falls_down_def same_cfg_active [OF cfg] same_cfgD [OF cfg])
  moreover have "row_full ?b y = row_full b y" for y
    using frown_row_law(2) [OF rest.hyps(1)] by (auto simp: row_full_def same_cfgD [OF cfg] simp del: not_None_eq)
  moreover have "\<forall>y. j - 1 < y \<longrightarrow> \<not> row_full b y"
    using rest.prems rest.hyps by (metis linorder_neqE_linordered_idom zle_diff1_eq not_less)
  ultimately show ?case
    using rest.IH rest.hyps rest.prems clear_pass_step [OF w] by (simp add: same_cfg_active [OF cfg])
qed

lemma check_lines_none_full:
  assumes wf: "wf_board b" and "\<not> board_is_active b Force" "falls_down b"
  shows "returns (\<lambda>(lc, b'). \<forall>y. 0 \<le> y \<longrightarrow> y < b_height b' \<longrightarrow> \<not> row_full b' y) (check_lines b)"
proof -
  have w: "0 < b_width b" "0 < b_height b" using wf by (simp_all add: wf_board_def)
  have "\<not> row_full b y" if "b_height b \<le> y" for y
    using that w by (auto simp: row_full_def get_def in_bounds_def intro!: exI [of _ 0])
  then have main: "returns (\<lambda>(b', v', l'). \<forall>y \<ge> 0. \<not> row_full b' y)
      (clear_pass False b (b_height b - 1) 0 0)"
    using assms w by (intro clear_pass_none_full) auto
  have rows: "row_full (b'\<lparr>b_idiot := i\<rparr>) y = row_full b' y"
    "row_full (b'\<lparr>b_idiot := i, b_reason := q\<rparr>) y = row_full b' y" for b' i q y
    by (simp_all add: row_full_def)
  show ?thesis
    unfolding check_lines_def Let_def using assms(2)
    by (auto intro!: returns_bind [OF main] simp: rows)
qed

end
