(* ===== verification/BoardWeapons.thy ===== *)
theory BoardWeapons
  imports Lines
begin

section \<open>Weapon effects on the board\<close>

text \<open>
  \<open>bt-core/src/board.rs\<close>, second half: the one-shot mutation of the board when a weapon comes on
  (\<open>apply_weapon\<close>) or goes off (\<open>revert_weapon\<close>), the two flips, and the cell exchange of Swap. The
  match arms of \<open>apply_weapon\<close> with more than a line are definitions of their own. \<open>apply_weapon\<close>
  returns an \<open>option\<close> because Bottle runs the line check and the box throwers run a rejection loop.
\<close>

definition set_active :: "board \<Rightarrow> weapon_token \<Rightarrow> bool \<Rightarrow> board" where
  "set_active b token on = b\<lparr>b_active := flags_set (b_active b) token on\<rparr>"

definition swap_cells :: "board \<Rightarrow> board \<Rightarrow> board \<times> board" where
  "swap_cells b other = (b\<lparr>b_cells := b_cells other\<rparr>, other\<lparr>b_cells := b_cells b\<rparr>)"

definition swap :: "i32 \<Rightarrow> i32 \<Rightarrow> i32 \<Rightarrow> i32 \<Rightarrow> board \<Rightarrow> board" where
  "swap x1 y1 x2 y2 b =
     (let p = get b x1 y1; q = get b x2 y2 in set_cell (set_cell b x1 y1 q) x2 y2 p)"

definition flip_horiz :: "board \<Rightarrow> board" where
  "flip_horiz b =
     fold (\<lambda>i b. fold (\<lambda>j b. swap j i j (b_height b - 1 - i) b) (range_i 0 (b_width b)) b)
       (range_i 0 (b_height b div 2)) b"

definition flip_vert :: "board \<Rightarrow> board" where
  "flip_vert b =
     fold (\<lambda>i b. fold (\<lambda>j b. swap (b_width b - 1 - i) j i j b) (range_i 0 (b_height b)) b)
       (range_i 0 (b_width b div 2)) b"

text \<open>Piece It and Bug: a box at a random empty square of the middle band.\<close>

definition band_has_empty :: "board \<Rightarrow> bool" where
  "band_has_empty b =
     (let q1 = b_height b div 4 in
      list_ex (\<lambda>p. \<not> occupied b (fst p) (snd p))
        (positions (range_i 0 (b_width b)) (range_i q1 (q1 + b_height b div 2))))"

definition band_attempt :: "board \<Rightarrow> rng \<Rightarrow> (i32 \<times> i32) option \<times> rng" where
  "band_attempt b r =
     (let (i, r) = rand_below (b_width b) r;
          (j, r) = rand_below (b_height b div 2) r;
          j = j + b_height b div 4
      in (if \<not> occupied b i j then Some (i, j) else None, r))"

definition throw_box :: "weapon_token \<Rightarrow> board \<Rightarrow> rng \<Rightarrow> (board \<times> rng) option" where
  "throw_box token b r =
     (if band_has_empty b then
        do {
          ((i, j), r) \<leftarrow> retry (band_attempt b) r;
          let (c, r) = (if token = Bug then (color_cell BT_INVISIBLE, r)
                        else let (v, r) = rand_below (BT_NEUTRAL - 1) r in (color_cell (v + 1), r));
          Some (set_cell b i j (Some c), r)
        }
      else Some (b, r))"

text \<open>Missing: the first removable box, scanning from a random origin.\<close>

definition removable_at :: "board \<Rightarrow> i32 \<times> i32 \<Rightarrow> bool" where
  "removable_at b p = (case get b (fst p) (snd p) of Some c \<Rightarrow> is_removable c | None \<Rightarrow> False)"

definition take_missing :: "board \<Rightarrow> rng \<Rightarrow> board \<times> rng" where
  "take_missing b r =
     (let (sx, r) = rand_below (b_width b) r;
          (sy, r) = rand_below (b_height b) r;
          scan = map (\<lambda>p. ((sx + fst p) mod b_width b, (sy + snd p) mod b_height b))
            (positions (range_i 0 (b_width b)) (range_i 0 (b_height b)))
      in (case List.find (removable_at b) scan of
            Some p \<Rightarrow> (set_cell b (fst p) (snd p) None, r)
          | None \<Rightarrow> (b, r)))"

text \<open>Blind: every removable box goes with probability one half.\<close>

definition blind_cell :: "i32 \<Rightarrow> i32 \<Rightarrow> board \<times> rng \<Rightarrow> board \<times> rng" where
  "blind_cell x y s =
     (let (b, r) = s in
      case get b x y of
        Some c \<Rightarrow>
          (if is_removable c then
             (let (v, r) = rand_below 2 r in (if v = 0 then set_cell b x y None else b, r))
           else (b, r))
      | None \<Rightarrow> (b, r))"

definition blind_cells :: "board \<Rightarrow> rng \<Rightarrow> board \<times> rng" where
  "blind_cells b r =
     fold (\<lambda>y s. fold (\<lambda>x s. blind_cell x y s) (range_i 0 (b_width b)) s) (range_i 0 (b_height b)) (b, r)"

definition gimp_cells :: "board \<Rightarrow> board" where
  "gimp_cells b =
     fold (\<lambda>y b. fold (\<lambda>x b. case get b x y of
         Some c \<Rightarrow> (if is_removable c then set_cell b x y (Some (gimp_cell (cell_value c))) else b)
       | None \<Rightarrow> b) (range_i 0 (b_width b)) b) (range_i 0 (b_height b)) b"

definition hide_cells :: "board \<Rightarrow> board" where
  "hide_cells b =
     fold (\<lambda>y b. fold (\<lambda>x b. case get b x y of
         Some c \<Rightarrow> set_cell b x y (Some (hide c))
       | None \<Rightarrow> b) (range_i 0 (b_width b)) b) (range_i 0 (b_height b)) b"

definition fall_out :: "board \<Rightarrow> board" where
  "fall_out b =
     (let from_bottom = \<not> board_is_active b Upbyside \<or> b_computer b in
      fold (\<lambda>_ b. let line = (if from_bottom then b_height b - 1 else 0) in
          remove_line b line BT_FALL_OUT_LEDGE (b_width b - BT_FALL_OUT_LEDGE))
        (range_i 0 (b_height b)) b)"

text \<open>The neck of the bottle: three columns on either side, eight rows.\<close>

definition put_walls :: "cell option \<Rightarrow> board \<Rightarrow> board" where
  "put_walls c b =
     (let h = BT_BOARD_HGT in
      fold (\<lambda>x b. fold (\<lambda>y b. set_cell (set_cell b x y c) (b_width b - x - 1) y c)
          (range_i (h div 2 - BT_BOTTLE_Y) (h div 2 + BT_BOTTLE_Y)) b) (range_i 0 BT_BOTTLE_X) b)"

definition board_apply_weapon :: "weapon_token \<Rightarrow> board \<Rightarrow> rng \<Rightarrow> (line_clear \<times> board \<times> rng) option" where
  "board_apply_weapon token b r =
     (let none = (\<lambda>(b, r). Some (line_clear_default, b, r)) in
      case token of
        Upbyside \<Rightarrow>
          (let b = (if \<not> b_upside b \<and> \<not> b_computer b then flip_horiz b else b) in
           none (b\<lparr>b_upside := True\<rparr>, r))
      | PieceIt \<Rightarrow> Option.bind (throw_box token b r) none
      | Bug \<Rightarrow> Option.bind (throw_box token b r) none
      | Missing \<Rightarrow> none (take_missing b r)
      | Blind \<Rightarrow> none (blind_cells b r)
      | GimpW \<Rightarrow> none (gimp_cells b, r)
      | Twilight \<Rightarrow> none (hide_cells b, r)
      | FlipOut \<Rightarrow> none (flip_vert b, r)
      | FallOut \<Rightarrow> none (fall_out b, r)
      | Bottle \<Rightarrow> do { (clear, b) \<leftarrow> check_lines (put_walls (Some structure_cell) b); Some (clear, b, r) }
      | RiseUp \<Rightarrow> none (insert_line b r)
      | _ \<Rightarrow> none (b, r))"

definition board_revert_weapon :: "weapon_token \<Rightarrow> board \<Rightarrow> board" where
  "board_revert_weapon token b =
     (case token of
        Upbyside \<Rightarrow>
          (let b = b\<lparr>b_upside := False\<rparr> in if \<not> b_computer b then flip_horiz b else b)
      | Bottle \<Rightarrow> put_walls None b
      | _ \<Rightarrow> b)"

subsection \<open>Flips\<close>

lemma same_frame_swap [simp]: "same_frame b (swap x1 y1 x2 y2 b)"
  by (auto simp: swap_def Let_def intro: same_frame_set_cell)

lemma wf_swap [simp]: "wf_board (swap x1 y1 x2 y2 b) = wf_board b"
  by (simp add: swap_def Let_def)

lemma get_swap:
  assumes "wf_board b" "in_bounds b x1 y1" "in_bounds b x2 y2"
  shows "get (swap x1 y1 x2 y2 b) x y =
    (if (x, y) = (x1, y1) then get b x2 y2 else if (x, y) = (x2, y2) then get b x1 y1 else get b x y)"
  using assms by (auto simp: swap_def Let_def get_set_cell)

lemma same_frame_fold2:
  assumes "\<And>x y b. same_frame b (f x y b)"
  shows "same_frame b (fold (\<lambda>y b. fold (\<lambda>x b. f x y b) (xs y b) b) ys b)"
  by (rule same_frame_fold, rule same_frame_fold, rule assms)

lemma fold_nested_frame:
  assumes "\<And>x y b. same_frame b (f x y b)"
    and cong: "\<And>b'. same_frame b b' \<Longrightarrow> xs b' = xs b"
  shows "fold (\<lambda>y b. fold (\<lambda>x b. f x y b) (xs b) b) ys b
    = fold (\<lambda>p b. f (fst p) (snd p) b) (positions (xs b) ys) b"
proof -
  have "fold (\<lambda>y b. fold (\<lambda>x b. f x y b) (xs b) b) ys b' = fold (\<lambda>y b'. fold (\<lambda>x b'. f x y b') (xs b) b') ys b'"
    if "same_frame b b'" for b'
    using that
  proof (induction ys arbitrary: b')
    case (Cons y ys)
    have "same_frame b' (fold (\<lambda>x b'. f x y b') (xs b) b')" by (rule same_frame_fold) (rule assms(1))
    then have "same_frame b (fold (\<lambda>x b'. f x y b') (xs b) b')"
      using Cons.prems same_frame_trans by blast
    then show ?case using Cons.IH by (simp add: cong [OF Cons.prems])
  qed simp
  then show ?thesis using fold_nested [of f "xs b" ys b] by simp
qed

lemma flip_horiz_fold:
  "flip_horiz b = fold (\<lambda>p b. swap (fst p) (snd p) (fst p) (b_height b - 1 - snd p) b)
    (positions (range_i 0 (b_width b)) (range_i 0 (b_height b div 2))) b"
  unfolding flip_horiz_def
  by (rule fold_nested_frame [where f = "\<lambda>j i b. swap j i j (b_height b - 1 - i) b"
      and xs = "\<lambda>b. range_i 0 (b_width b)"]) (simp_all add: same_frameD)

lemma same_frame_flip_horiz [simp]: "same_frame b (flip_horiz b)"
  unfolding flip_horiz_def by (rule same_frame_fold2) simp

lemma get_out_of_rows: "y < 0 \<or> b_height b \<le> y \<Longrightarrow> get b x y = None"
  and get_out_of_cols: "x < 0 \<or> b_width b \<le> x \<Longrightarrow> get b x y = None"
  by (auto simp: get_def in_bounds_def)

lemma flip_horiz_law:
  assumes "wf_board b"
  shows "wf_board (flip_horiz b)" and "get (flip_horiz b) x y = get b x (b_height b - 1 - y)"
proof -
  let ?h = "b_height b" and ?w = "b_width b"
  let ?ps = "positions (range_i 0 ?w) (range_i 0 (?h div 2))"
  let ?\<sigma> = "\<lambda>p :: int \<times> int. (fst p, ?h - 1 - snd p)"
  let ?st = "\<lambda>p b. swap (fst p) (snd p) (fst p) (b_height b - 1 - snd p) b"
  have "wf_board (fold ?st ?ps b) \<and> b_width (fold ?st ?ps b) = ?w \<and> b_height (fold ?st ?ps b) = ?h \<and>
    (\<forall>x y. get (fold ?st ?ps b) x y =
      (if (x, y) \<in> set ?ps \<or> ?\<sigma> (x, y) \<in> set ?ps
       then get b (fst (?\<sigma> (x, y))) (snd (?\<sigma> (x, y))) else get b x y))"
  proof (rule sq.fold_swaps [where \<sigma> = ?\<sigma>])
    fix p g assume p: "p \<in> set ?ps" and g: "wf_board g" "b_width g = ?w" "b_height g = ?h"
    then have "in_bounds g (fst p) (snd p)" "in_bounds g (fst p) (?h - 1 - snd p)"
      by (auto simp: in_bounds_def)
    then show "wf_board (?st p g) \<and> b_width (?st p g) = ?w \<and> b_height (?st p g) = ?h \<and>
      (\<forall>x y. get (?st p g) x y =
        (if (x, y) = p \<or> (x, y) = ?\<sigma> p then get g (fst (?\<sigma> (x, y))) (snd (?\<sigma> (x, y))) else get g x y))"
      using g same_frameD(1,2) [OF same_frame_swap] by (cases p) (auto simp: get_swap)
  qed (use assms in auto)
  note law = this [folded flip_horiz_fold]
  show "wf_board (flip_horiz b)" by (rule law [THEN conjunct1])
  have g: "get (flip_horiz b) x y = (if (x, y) \<in> set ?ps \<or> (x, ?h - 1 - y) \<in> set ?ps
      then get b x (?h - 1 - y) else get b x y)"
    using law [THEN conjunct2, THEN conjunct2, THEN conjunct2, rule_format, of x y] by simp
  show "get (flip_horiz b) x y = get b x (?h - 1 - y)"
  proof (cases "(x, y) \<in> set ?ps \<or> (x, ?h - 1 - y) \<in> set ?ps")
    case False
    then consider "x < 0 \<or> ?w \<le> x" | "y < 0 \<or> ?h \<le> y" | "?h - 1 - y = y" by force
    then have "get b x y = get b x (?h - 1 - y)"
      by cases (auto simp: get_out_of_cols get_out_of_rows)
    with False show ?thesis unfolding g by (simp only: if_False)
  qed (simp only: g if_True)
qed

lemma flip_vert_fold:
  "flip_vert b = fold (\<lambda>p b. swap (b_width b - 1 - fst p) (snd p) (fst p) (snd p) b)
    (map (\<lambda>p. (snd p, fst p)) (positions (range_i 0 (b_height b)) (range_i 0 (b_width b div 2)))) b"
  unfolding flip_vert_def fold_map comp_def
  by (subst fold_nested_frame [where f = "\<lambda>j i b. swap (b_width b - 1 - i) j i j b"
      and xs = "\<lambda>b. range_i 0 (b_height b)"]) (simp_all add: same_frameD)

lemma same_frame_flip_vert [simp]: "same_frame b (flip_vert b)"
  unfolding flip_vert_def by (rule same_frame_fold2) simp

lemma flip_vert_law:
  assumes "wf_board b"
  shows "wf_board (flip_vert b)" and "get (flip_vert b) x y = get b (b_width b - 1 - x) y"
proof -
  let ?h = "b_height b" and ?w = "b_width b"
  let ?ps = "map (\<lambda>p. (snd p, fst p)) (positions (range_i 0 ?h) (range_i 0 (?w div 2)))"
  let ?\<sigma> = "\<lambda>p :: int \<times> int. (?w - 1 - fst p, snd p)"
  let ?st = "\<lambda>p b. swap (b_width b - 1 - fst p) (snd p) (fst p) (snd p) b"
  have mem: "(x, y) \<in> set ?ps \<longleftrightarrow> 0 \<le> x \<and> x < ?w div 2 \<and> 0 \<le> y \<and> y < ?h" for x y
    by (auto simp: image_iff)
  have "wf_board (fold ?st ?ps b) \<and> b_width (fold ?st ?ps b) = ?w \<and> b_height (fold ?st ?ps b) = ?h \<and>
    (\<forall>x y. get (fold ?st ?ps b) x y =
      (if (x, y) \<in> set ?ps \<or> ?\<sigma> (x, y) \<in> set ?ps
       then get b (fst (?\<sigma> (x, y))) (snd (?\<sigma> (x, y))) else get b x y))"
  proof (rule sq.fold_swaps [where \<sigma> = ?\<sigma>])
    fix p g assume p: "p \<in> set ?ps" and g: "wf_board g" "b_width g = ?w" "b_height g = ?h"
    have "0 \<le> fst p \<and> fst p < ?w div 2 \<and> 0 \<le> snd p \<and> snd p < ?h"
      using p mem [of "fst p" "snd p"] by (simp only: prod.collapse)
    then have "in_bounds g (fst p) (snd p)" "in_bounds g (?w - 1 - fst p) (snd p)"
      using g by (auto simp: in_bounds_def)
    then show "wf_board (?st p g) \<and> b_width (?st p g) = ?w \<and> b_height (?st p g) = ?h \<and>
      (\<forall>x y. get (?st p g) x y =
        (if (x, y) = p \<or> (x, y) = ?\<sigma> p then get g (fst (?\<sigma> (x, y))) (snd (?\<sigma> (x, y))) else get g x y))"
      using g same_frameD(1,2) [OF same_frame_swap] by (cases p) (auto simp: get_swap)
  next
    fix p assume "p \<in> set ?ps"
    then have "fst p < ?w div 2" using mem [of "fst p" "snd p"] by (simp add: prod.collapse del: set_map)
    then have "\<not> ?w - 1 - fst p < ?w div 2" by linarith
    then show "?\<sigma> p \<notin> set ?ps" unfolding mem by blast
  next
    show "distinct ?ps" by (simp add: distinct_map inj_on_def prod_eq_iff)
  qed (use assms in auto)
  note law = this [folded flip_vert_fold]
  show "wf_board (flip_vert b)" by (rule law [THEN conjunct1])
  have g: "get (flip_vert b) x y = (if (x, y) \<in> set ?ps \<or> (?w - 1 - x, y) \<in> set ?ps
      then get b (?w - 1 - x) y else get b x y)"
    using law [THEN conjunct2, THEN conjunct2, THEN conjunct2, rule_format, of x y] unfolding fst_conv snd_conv .
  show "get (flip_vert b) x y = get b (?w - 1 - x) y"
  proof (cases "(x, y) \<in> set ?ps \<or> (?w - 1 - x, y) \<in> set ?ps")
    case False
    then have "(y < 0 \<or> ?h \<le> y) \<or> (x < 0 \<or> ?w \<le> x) \<or> ?w - 1 - x = x" unfolding mem by presburger
    then consider "y < 0 \<or> ?h \<le> y" | "x < 0 \<or> ?w \<le> x" | "?w - 1 - x = x" by blast
    then have "get b x y = get b (?w - 1 - x) y"
      by cases (auto simp: get_out_of_cols get_out_of_rows)
    with False show ?thesis unfolding g by (simp only: if_False)
  qed (simp only: g if_True)
qed

text \<open>A board is its frame and its squares.\<close>

lemma board_eqI:
  assumes "wf_board b" "wf_board b'" "same_frame b b'" "\<And>x y. get b' x y = get b x y"
  shows "b' = b"
proof -
  have "b_cells b = b_cells b'" using assms by (intro cells_eqI) (auto simp: same_frameD)
  then show ?thesis using assms(3) by (cases b; cases b') (simp add: same_frame_def)
qed

lemma flip_horiz_twice: "wf_board b \<Longrightarrow> flip_horiz (flip_horiz b) = b"
  by (rule board_eqI)
    (auto simp: flip_horiz_law same_frameD [OF same_frame_flip_horiz] intro: same_frame_trans [OF same_frame_flip_horiz])

lemma flip_vert_twice: "wf_board b \<Longrightarrow> flip_vert (flip_vert b) = b"
  by (rule board_eqI)
    (auto simp: flip_vert_law same_frameD [OF same_frame_flip_vert] intro: same_frame_trans [OF same_frame_flip_vert])

subsection \<open>Loops that rewrite each square on its own\<close>

lemma same_frame_gimp_cells [simp]: "same_frame b (gimp_cells b)"
  unfolding gimp_cells_def by (rule same_frame_fold2) (auto split: option.split)

lemma same_frame_hide_cells [simp]: "same_frame b (hide_cells b)"
  unfolding hide_cells_def by (rule same_frame_fold2) (auto split: option.split)

lemma same_frame_put_walls [simp]: "same_frame b (put_walls c b)"
  unfolding put_walls_def Let_def
  by (rule same_frame_fold, rule same_frame_fold) (auto intro: same_frame_set_cell)

text \<open>A full sweep \<open>for y { for x { .. } }\<close> whose body rewrites square \<open>(x, y)\<close> by \<open>f\<close>.\<close>

lemma sweep_law:
  assumes wf: "wf_board b"
    and frame: "\<And>x y b. same_frame b (st x y b)"
    and step: "\<And>x y b x' y'. wf_board b \<Longrightarrow> wf_board (st x y b) \<and>
      get (st x y b) x' y' = (if x' = x \<and> y' = y then f (get b x' y') else get b x' y')"
    and f: "f None = None"
  shows "wf_board (fold (\<lambda>y b. fold (\<lambda>x b. st x y b) (range_i 0 (b_width b)) b) (range_i 0 (b_height b)) b)"
    and "get (fold (\<lambda>y b. fold (\<lambda>x b. st x y b) (range_i 0 (b_width b)) b) (range_i 0 (b_height b)) b) x y
      = f (get b x y)"
proof -
  let ?ps = "positions (range_i 0 (b_width b)) (range_i 0 (b_height b))"
  let ?st = "\<lambda>p b. st (fst p) (snd p) b"
  have eq: "fold (\<lambda>y b. fold (\<lambda>x b. st x y b) (range_i 0 (b_width b)) b) (range_i 0 (b_height b)) b = fold ?st ?ps b"
    by (rule fold_nested_frame [where xs = "\<lambda>b. range_i 0 (b_width b)"]) (simp_all add: frame same_frameD)
  have loop: "wf_board (fold ?st ?ps b) \<and> b_width (fold ?st ?ps b) = b_width b
    \<and> b_height (fold ?st ?ps b) = b_height b \<and>
    (\<forall>x y. get (fold ?st ?ps b) x y = (if (x, y) \<in> set ?ps then f (get b x y) else get b x y))"
  proof (rule sq.fold_local)
    fix p g assume "wf_board g"
    then show "wf_board (?st p g) \<and> b_width (?st p g) = b_width g \<and> b_height (?st p g) = b_height g \<and>
      (\<forall>x y. get (?st p g) x y = (if (x, y) = p then f (get g x y) else get g x y))"
      using step [of g "fst p" "snd p"] same_frameD(1,2) [OF frame] by (cases p) auto
  qed (simp_all add: wf)
  show "wf_board (fold (\<lambda>y b. fold (\<lambda>x b. st x y b) (range_i 0 (b_width b)) b) (range_i 0 (b_height b)) b)"
    unfolding eq by (rule loop [THEN conjunct1])
  have "get (fold ?st ?ps b) x y = (if in_bounds b x y then f (get b x y) else get b x y)"
    using loop by (simp add: in_bounds_def)
  then show "get (fold (\<lambda>y b. fold (\<lambda>x b. st x y b) (range_i 0 (b_width b)) b) (range_i 0 (b_height b)) b) x y
      = f (get b x y)"
    unfolding eq using f by (simp add: get_out)
qed

definition to_gimp :: "cell \<Rightarrow> cell" where
  "to_gimp c = (if is_removable c then gimp_cell (cell_value c) else c)"

lemma gimp_cells_law:
  assumes "wf_board b"
  shows "wf_board (gimp_cells b)" "get (gimp_cells b) x y = map_option to_gimp (get b x y)"
  unfolding gimp_cells_def
  by (rule sweep_law [where f = "map_option to_gimp", OF assms],
      auto split: option.split simp: get_set_cell to_gimp_def get_out)+

lemma hide_cells_law:
  assumes "wf_board b"
  shows "wf_board (hide_cells b)" "get (hide_cells b) x y = map_option hide (get b x y)"
  unfolding hide_cells_def
  by (rule sweep_law [where f = "map_option hide", OF assms],
      auto split: option.split simp: get_set_cell get_out)+

text \<open>The squares of the bottle's walls.\<close>

definition wall_square :: "board \<Rightarrow> int \<Rightarrow> int \<Rightarrow> bool" where
  "wall_square b x y \<longleftrightarrow> in_bounds b x y \<and> (x < 3 \<or> b_width b - 3 \<le> x) \<and> 10 \<le> y \<and> y < 18"

lemma put_walls_fold:
  "put_walls c b = fold (\<lambda>p b. set_cell (set_cell b (snd p) (fst p) c) (b_width b - snd p - 1) (fst p) c)
     (positions (range_i 10 18) (range_i 0 3)) b"
  unfolding put_walls_def by (simp add: bt_const fold_nested)

lemma put_walls_law:
  assumes "wf_board b"
  shows "wf_board (put_walls c b)"
    and "get (put_walls c b) x y = (if wall_square b x y then c else get b x y)"
proof -
  let ?st = "\<lambda>p b. set_cell (set_cell b (snd p) (fst p) c) (b_width b - snd p - 1) (fst p) c"
  have "wf_board (fold ?st ps b) \<and> same_frame b (fold ?st ps b) \<and>
    (\<forall>x y. get (fold ?st ps b) x y =
      (if in_bounds b x y \<and> (\<exists>p \<in> set ps. y = fst p \<and> (x = snd p \<or> x = b_width b - snd p - 1)) then c
       else get b x y))" for ps
  proof (induction ps rule: rev_induct)
    case (snoc p ps)
    let ?B = "fold ?st ps b"
    have B: "wf_board ?B" "same_frame b ?B" using snoc.IH by blast+
    have ib: "in_bounds ?B x y = in_bounds b x y" for x y using same_frameD(1,2) [OF B(2)] by (simp add: in_bounds_def)
    have "get (?st p ?B) x y = (if in_bounds b x y \<and> y = fst p \<and> (x = snd p \<or> x = b_width b - snd p - 1) then c
        else get ?B x y)" for x y
      using B(1) same_frameD(1) [OF B(2)] by (auto simp: get_set_cell ib)
    moreover have "wf_board (?st p ?B)" "same_frame b (?st p ?B)" using B by auto
    ultimately show ?case using snoc.IH by auto
  qed (use assms in simp)
  note law = this [of "positions (range_i 10 18) (range_i 0 3)", folded put_walls_fold]
  show "wf_board (put_walls c b)" using law by blast
  have "(\<exists>p \<in> set (positions (range_i 10 18) (range_i 0 3)). y = fst p \<and> (x = snd p \<or> x = b_width b - snd p - 1))
      \<longleftrightarrow> 10 \<le> y \<and> y < 18 \<and> (0 \<le> x \<and> x < 3 \<or> b_width b - 3 \<le> x \<and> x < b_width b)"
    by (auto intro: bexI [of _ "b_width b - x - 1"] bexI [of _ x])
  then show "get (put_walls c b) x y = (if wall_square b x y then c else get b x y)"
    using law [THEN conjunct2, THEN conjunct2, rule_format, of x y]
    by (auto simp: wall_square_def in_bounds_def)
qed

subsection \<open>Boxes removed\<close>

lemma same_frame_take_missing [simp]: "same_frame b (fst (take_missing b r))"
  by (simp add: take_missing_def Let_def split_beta split: option.split)

lemma wf_take_missing: "wf_board b \<Longrightarrow> wf_board (fst (take_missing b r))"
  by (simp add: take_missing_def Let_def split_beta split: option.split)

text \<open>Missing takes exactly one removable box, when there is one.\<close>

lemma take_missing_cases:
  assumes "wf_board b"
  obtains (none) "fst (take_missing b r) = b" "\<forall>x y c. get b x y = Some c \<longrightarrow> \<not> is_removable c"
  | (one) x y c where "get b x y = Some c" "is_removable c" "fst (take_missing b r) = set_cell b x y None"
proof -
  define sx where "sx = fst (rand_below (b_width b) r)"
  define sy where "sy = fst (rand_below (b_height b) (snd (rand_below (b_width b) r)))"
  define scan where "scan = map (\<lambda>p. ((sx + fst p) mod b_width b, (sy + snd p) mod b_height b))
      (positions (range_i 0 (b_width b)) (range_i 0 (b_height b)))"
  have eq: "fst (take_missing b r) = (case List.find (removable_at b) scan of
      Some p \<Rightarrow> set_cell b (fst p) (snd p) None | None \<Rightarrow> b)"
    by (simp add: take_missing_def Let_def split_beta scan_def sx_def sy_def split: option.split)
  show thesis
  proof (cases "List.find (removable_at b) scan")
    case (Some p)
    then have "removable_at b p" by (auto dest!: find_SomeD)
    then obtain c where "get b (fst p) (snd p) = Some c" "is_removable c"
      by (auto simp: removable_at_def split: option.splits)
    then show thesis by (rule one) (simp add: eq Some)
  next
    case None
    have "\<not> is_removable c" if c: "get b x y = Some c" for x y c
    proof -
      have ib: "in_bounds b x y" using c by (metis get_out option.simps(3))
      have "(x, y) \<in> set scan"
      proof -
        let ?p = "((x - sx) mod b_width b, (y - sy) mod b_height b)"
        have "(sx + fst ?p) mod b_width b = x" "(sy + snd ?p) mod b_height b = y"
          using ib by (simp_all add: mod_simps in_bounds_def)
        moreover have "?p \<in> set (positions (range_i 0 (b_width b)) (range_i 0 (b_height b)))"
          using ib by (simp add: in_bounds_def)
        ultimately show ?thesis unfolding scan_def set_map by (metis (no_types, lifting) image_eqI)
      qed
      then have "\<not> removable_at b (x, y)" using None by (auto simp: find_None_iff)
      then show ?thesis using c by (simp add: removable_at_def)
    qed
    then show thesis using none by (simp add: eq None)
  qed
qed

lemma blind_cell_law:
  assumes "wf_board b"
  shows "wf_board (fst (blind_cell x y (b, r)))" "same_frame b (fst (blind_cell x y (b, r)))"
    and "get (fst (blind_cell x y (b, r))) x' y' = get b x' y' \<or>
      (\<exists>c. get b x' y' = Some c \<and> is_removable c \<and> get (fst (blind_cell x y (b, r))) x' y' = None)"
  using assms by (auto simp: blind_cell_def Let_def split_beta get_set_cell split: option.split)

text \<open>Blind only takes boxes away, and none that cannot be removed.\<close>

lemma blind_cells_law:
  assumes "wf_board b"
  shows "wf_board (fst (blind_cells b r)) \<and> same_frame b (fst (blind_cells b r)) \<and>
    (\<forall>x y. get (fst (blind_cells b r)) x y = get b x y \<or>
      (\<exists>c. get b x y = Some c \<and> is_removable c \<and> get (fst (blind_cells b r)) x y = None))"
    (is "?P (blind_cells b r)")
  unfolding blind_cells_def
proof (rule fold_preserves [where P = ?P], simp add: assms, rule fold_preserves [where P = ?P], simp)
  fix y s x s' assume P: "?P s'"
  obtain b' r' where s': "s' = (b', r')" by (cases s')
  note law = blind_cell_law [of b' x y r']
  show "?P (blind_cell x y s')"
  proof (intro conjI allI)
    show "wf_board (fst (blind_cell x y s'))" using law(1) P s' by simp
    show "same_frame b (fst (blind_cell x y s'))" using law(2) P s' same_frame_trans by fastforce
    fix u v
    show "get (fst (blind_cell x y s')) u v = get b u v \<or>
      (\<exists>c. get b u v = Some c \<and> is_removable c \<and> get (fst (blind_cell x y s')) u v = None)"
      using law(3) [of u v] P s' by (metis fst_conv option.simps(3))
  qed
qed

subsection \<open>Garbage lines\<close>

definition icols :: "board \<Rightarrow> int \<Rightarrow> int \<times> int" where
  "icols b i = (if board_is_active b Bottle \<and> (if falls_down b then i < 18 else i \<ge> 10)
     then (3, b_width b - 3) else (0, b_width b))"

text \<open>The row the garbage goes into, and the direction the stack is pushed.\<close>

definition garbage_end :: "board \<Rightarrow> int" where
  "garbage_end b = (if falls_down b then b_height b - 1 else 0)"

lemma insert_loop:
  assumes "0 < n"
  shows "fold (\<lambda>i (b, _). let (x1, x2) = f i in (body i x1 x2 b, x1, x2)) (map g [0..<n]) (b, xx)
    = (fold (\<lambda>k b. body (g k) (fst (f (g k))) (snd (f (g k))) b) [0..<n] b, f (g (n - 1)))"
proof -
  have "fold (\<lambda>i (b, _). let (x1, x2) = f i in (body i x1 x2 b, x1, x2)) (map g ks) (b, xx)
    = (fold (\<lambda>k b. body (g k) (fst (f (g k))) (snd (f (g k))) b) ks b, if ks = [] then xx else f (g (last ks)))" for ks
    by (induction ks rule: rev_induct) (auto simp: split_beta Let_def)
  from this [of "[0..<n]"] show ?thesis using assms by (simp add: last_upt)
qed

lemma insert_line_folds:
  assumes "wf_board b"
  shows "insert_line b r =
    (let hole = fst (rand_below (b_width b) r); r' = snd (rand_below (b_width b) r); d = - rdir b;
         (x1, x2) = icols b (garbage_end b + d)
     in (garbage_row (garbage_end b) hole x1 x2
           (fold (\<lambda>k b'. move_row (last_row b - d * int k) (last_row b - d * int k - d)
                  (fst (icols b (last_row b - d * int k))) (snd (icols b (last_row b - d * int k))) b')
             [0..<nat (b_height b - 1)] b), r'))"
proof (cases "falls_down b")
  case True
  then have dir: "\<not> board_is_active b Upbyside \<or> b_computer b" by (simp add: falls_down_def)
  have n: "0 < nat (b_height b - 1 - 0)" "int (nat (b_height b - 1 - 0) - 1) = b_height b - 2"
    using assms by (auto simp: wf_board_def)
  have "insert_line b r = (let (hole, r') = rand_below (b_width b) r;
      (b', x1, x2) = fold (\<lambda>i (b, _). let (x1, x2) = icols b0 i in (move_row i (i + 1) x1 x2 b, x1, x2))
        (map (\<lambda>k. 0 - (- 1) * int k) [0..<nat (b_height b - 1 - 0)]) (b, 0, b_width b)
      in (garbage_row (b_height b' - 1) hole x1 x2 b', r'))" if "b0 = b" for b0
    using dir True that unfolding rows_down [symmetric]
    by (simp add: insert_line_def Let_def icols_def bt_const cong: if_cong)
  note eq = this [OF refl, unfolded insert_loop [OF n(1)]]
  have "b_height (fold (\<lambda>k. move_row (int k) (int k + 1) (fst (icols b (int k))) (snd (icols b (int k)))) ks b)
      = b_height b" for ks
    by (rule same_frameD [OF same_frame_fold]) simp
  then show ?thesis
    using n(2) True by (simp add: eq Let_def split_beta rdir_def last_row_def garbage_end_def)
next
  case False
  then have dir: "\<not> (\<not> board_is_active b Upbyside \<or> b_computer b)" by (simp add: falls_down_def)
  have n: "0 < nat (b_height b - 1)" "int (nat (b_height b - 1) - 1) = b_height b - 2"
    using assms by (auto simp: wf_board_def)
  have "insert_line b r = (let (hole, r') = rand_below (b_width b) r;
      (b', x1, x2) = fold (\<lambda>i (b, _). let (x1, x2) = icols b0 i in (move_row i (i - 1) x1 x2 b, x1, x2))
        (map (\<lambda>k. (b_height b - 1) - 1 * int k) [0..<nat (b_height b - 1)]) (b, 0, b_width b)
      in (garbage_row 0 hole x1 x2 b', r'))" if "b0 = b" for b0
    using dir False that unfolding rows_up [symmetric]
    by (simp add: insert_line_def Let_def icols_def bt_const cong: if_cong)
  note eq = this [OF refl, unfolded insert_loop [OF n(1)]]
  show ?thesis
    using n(2) False by (simp add: eq Let_def split_beta rdir_def last_row_def garbage_end_def)
qed

lemma same_frame_insert_line [simp]: "wf_board b \<Longrightarrow> same_frame b (fst (insert_line b r))"
  by (auto simp: insert_line_folds Let_def split_beta
      intro!: same_frame_trans [OF _ same_frame_garbage_row] same_frame_fold)

lemma insert_line_rng: "wf_board b \<Longrightarrow> snd (insert_line b r) = snd (next_state r)"
  by (simp add: insert_line_folds Let_def split_beta)

lemma insert_line_law:
  assumes wf: "wf_board b"
  shows "wf_board (fst (insert_line b r))"
    and "get (fst (insert_line b r)) x y =
      (let d = - rdir b; e = d * (last_row b - y); n = b_height b - 1; hole = fst (rand_below (b_width b) r);
           c = icols b (garbage_end b + d) in
       if fst c \<le> x \<and> x < snd c \<and> y = garbage_end b \<and> x \<noteq> hole then Some (color_cell BT_GREEN)
       else if 0 \<le> e \<and> e < n \<and> fst (icols b y) \<le> x \<and> x < snd (icols b y) then get b x (y - d)
       else if 0 < e \<and> e \<le> n \<and> fst (icols b (y + d)) \<le> x \<and> x < snd (icols b (y + d)) then None
       else get b x y)"
proof -
  let ?d = "- rdir b" and ?n = "nat (b_height b - 1)" and ?c = "icols b (garbage_end b + - rdir b)"
  let ?hole = "fst (rand_below (b_width b) r)"
  let ?st = "\<lambda>k b'. move_row (last_row b - ?d * int k) (last_row b - ?d * int k - ?d)
      (fst (icols b (last_row b - ?d * int k))) (snd (icols b (last_row b - ?d * int k))) b'"
  let ?C = "\<lambda>y. {fst (icols b y)..<snd (icols b y)}"
  define B where "B = fold ?st [0..<?n] b"
  have h: "4 \<le> b_height b" "7 \<le> b_width b" using wf by (simp_all add: wf_board_def)
  have ic: "0 \<le> fst (icols b y)" "snd (icols b y) \<le> b_width b" for y
    using h by (auto simp: icols_def)
  have d: "?d = 1 \<or> ?d = - 1" using rdir_cases [of b] by auto
  have step: "wf_board (?st k g) \<and> b_width (?st k g) = b_width b \<and> b_height (?st k g) = b_height b \<and>
      (\<forall>x y. get (?st k g) x y =
        (if x \<in> ?C (last_row b - ?d * int k) then
          (if y = last_row b - ?d * int k then get g x (y - ?d)
           else if y = last_row b - ?d * int (Suc k) then None else get g x y)
         else get g x y))"
    if k: "k < ?n" and g: "wf_board g" "b_width g = b_width b" "b_height g = b_height b" for k g
  proof -
    have r: "0 \<le> last_row b - ?d * int k" "last_row b - ?d * int k < b_height g"
      "0 \<le> last_row b - ?d * int k - ?d" "last_row b - ?d * int k - ?d < b_height g"
      using k g h by (auto simp: last_row_def rdir_def)
    have "last_row b - ?d * int k \<noteq> last_row b - ?d * int k - ?d" using d by auto
    note law = move_row_law [OF g(1) r this ic(1), of "snd (icols b (last_row b - ?d * int k))"]
    have x2: "snd (icols b (last_row b - ?d * int k)) \<le> b_width g" using ic(2) g(2) by simp
    have "get (?st k g) x y = (if x \<in> ?C (last_row b - ?d * int k) then
          (if y = last_row b - ?d * int k then get g x (y - ?d)
           else if y = last_row b - ?d * int (Suc k) then None else get g x y)
         else get g x y)" for x y
      unfolding law(2) [OF x2]
      by (cases "y = last_row b - ?d * int k") (simp_all, simp add: algebra_simps)
    then show ?thesis using law(1) [OF x2] g same_frameD(1,2) [OF same_frame_move_row] by simp
  qed
  have shifted: "wf_board B \<and> b_width B = b_width b \<and> b_height B = b_height b \<and>
      (\<forall>x y. get B x y =
      (if 0 \<le> ?d * (last_row b - y) \<and> ?d * (last_row b - y) < int ?n \<and> x \<in> ?C y then get b x (y - ?d)
       else if 0 < ?d * (last_row b - y) \<and> ?d * (last_row b - y) \<le> int ?n \<and> x \<in> ?C (y + ?d) then None
       else get b x y))"
    unfolding B_def
    by (rule sq.shift_rows [where step = ?st and C = ?C and n = ?n and line = "last_row b",
          unfolded Let_def]) (erule (3) step | rule d wf refl)+
  note BL = shifted [THEN conjunct1] shifted [THEN conjunct2, THEN conjunct1]
    shifted [THEN conjunct2, THEN conjunct2, THEN conjunct1]
    shifted [THEN conjunct2, THEN conjunct2, THEN conjunct2, rule_format]
  have eq: "fst (insert_line b r) = garbage_row (garbage_end b) ?hole (fst ?c) (snd ?c) B"
    using wf by (simp add: insert_line_folds B_def Let_def split_beta)
  have ge: "0 \<le> garbage_end b" "garbage_end b < b_height B" using h BL(3) by (simp_all add: garbage_end_def)
  have x2: "snd ?c \<le> b_width B" using ic BL(2) by simp
  note g = garbage_row_law [OF BL(1) ic(1) x2 ge]
  show "wf_board (fst (insert_line b r))" unfolding eq by (rule g(1))
  have n: "int ?n = b_height b - 1" using h by simp
  show "get (fst (insert_line b r)) x y =
      (let d = - rdir b; e = d * (last_row b - y); n = b_height b - 1; hole = fst (rand_below (b_width b) r);
           c = icols b (garbage_end b + d) in
       if fst c \<le> x \<and> x < snd c \<and> y = garbage_end b \<and> x \<noteq> hole then Some (color_cell BT_GREEN)
       else if 0 \<le> e \<and> e < n \<and> fst (icols b y) \<le> x \<and> x < snd (icols b y) then get b x (y - d)
       else if 0 < e \<and> e \<le> n \<and> fst (icols b (y + d)) \<le> x \<and> x < snd (icols b (y + d)) then None
       else get b x y)"
    unfolding eq g(2) BL(4) Let_def n by (simp only: atLeastLessThan_iff)
qed

text \<open>On a plain board the stack moves one row and a solid row with one hole comes in.\<close>

definition garbage_cells :: "board \<Rightarrow> int \<Rightarrow> cell option list" where
  "garbage_cells b hole =
     map (\<lambda>x. if x \<noteq> hole then Some (color_cell BT_GREEN) else None) (range_i 0 (b_width b))"

lemma insert_line_rows:
  assumes wf: "wf_board b" and plain: "\<not> board_is_active b Bottle"
  shows "board_rows (fst (insert_line b r)) =
    (let g = garbage_cells b (fst (rand_below (b_width b) r)) in
     if falls_down b then tl (board_rows b) @ [g] else g # butlast (board_rows b))"
proof -
  let ?b = "fst (insert_line b r)" and ?hole = "fst (rand_below (b_width b) r)" and ?h = "b_height b"
  have h: "4 \<le> ?h" "7 \<le> b_width b" using wf by (simp_all add: wf_board_def)
  have dims: "b_width ?b = b_width b" "b_height ?b = b_height b"
    using same_frameD [OF same_frame_insert_line [OF wf]] by blast+
  have ic: "icols b y = (0, b_width b)" for y using plain by (simp add: icols_def)
  have row: "row_cells ?b y = (if y = garbage_end b then garbage_cells b ?hole else row_cells b (y + rdir b))"
    if y: "0 \<le> y" "y < ?h" for y
    using y h unfolding row_cells_def garbage_cells_def dims insert_line_law(2) [OF wf] Let_def ic
    by (auto simp: rdir_def last_row_def garbage_end_def)
  show ?thesis
  proof (rule nth_equalityI)
    show "length (board_rows ?b) = length (let g = garbage_cells b ?hole in
        if falls_down b then tl (board_rows b) @ [g] else g # butlast (board_rows b))"
      using h by (simp add: dims Let_def)
    fix n assume "n < length (board_rows ?b)"
    then have n: "n < nat ?h" by (simp add: dims)
    have fd: "falls_down b \<Longrightarrow> int n \<noteq> ?h - 1 \<Longrightarrow> tl (board_rows b) ! n = row_cells b (int n + 1)"
      using n nth_board_rows [of "Suc n" b] by (simp add: nth_tl add.commute)
    have bl: "0 < n \<Longrightarrow> butlast (board_rows b) ! (n - 1) = row_cells b (int n - 1)"
      using n by (simp add: nth_butlast nth_board_rows of_nat_diff)
    show "board_rows ?b ! n = (let g = garbage_cells b ?hole in
        if falls_down b then tl (board_rows b) @ [g] else g # butlast (board_rows b)) ! n"
      using n fd bl row [of "int n"] h
      by (auto simp: nth_board_rows dims Let_def nth_append nth_Cons' garbage_end_def rdir_def)
  qed
qed

subsection \<open>Fallen Out\<close>

lemma same_frame_fall_out [simp]: "wf_board b \<Longrightarrow> same_frame b (fall_out b)"
proof -
  assume "wf_board b"
  have "same_frame b (fold (\<lambda>_ b'. remove_line b' (line b') BT_FALL_OUT_LEDGE (b_width b' - BT_FALL_OUT_LEDGE)) ks b)"
    for line and ks :: "int list"
  proof (rule fold_preserves [where P = "same_frame b"])
    fix x b' assume *: "same_frame b b'"
    then have "7 \<le> b_width b'" using \<open>wf_board b\<close> by (simp add: wf_board_def same_frameD)
    then show "same_frame b (remove_line b' (line b') BT_FALL_OUT_LEDGE (b_width b' - BT_FALL_OUT_LEDGE))"
      by (intro same_frame_trans [OF *] same_frame_remove_line) (simp add: bt_const)
  qed simp
  from this [where line = "\<lambda>b'. if falls_down b then b_height b' - 1 else 0"] show ?thesis
    by (simp add: fall_out_def Let_def falls_down_def)
qed

text \<open>The middle columns end up empty, the ledges keep their boxes.\<close>

lemma same_frame_falls: "same_frame b b' \<Longrightarrow> falls_down b' = falls_down b"
  by (simp add: falls_down_def same_frameD same_cfg_active [OF same_frame_cfg])

lemma fold_iterate: "fold (\<lambda>_. f) ks s = (f ^^ length ks) s"
  by (induction ks rule: rev_induct) simp_all

lemma fall_out_law:
  assumes wf: "wf_board b" and plain: "\<not> board_is_active b Force" "\<not> board_is_active b Bottle"
  shows "wf_board (fall_out b)"
    and "get (fall_out b) x y = (if 2 \<le> x \<and> x < b_width b - 2 then None else get b x y)"
proof -
  let ?h = "b_height b" and ?w = "b_width b"
  let ?line = "if falls_down b then ?h - 1 else 0"
  let ?st = "\<lambda>b'. remove_line b' (if falls_down b then b_height b' - 1 else 0) 2 (b_width b' - 2)"
  have h: "4 \<le> ?h" "7 \<le> ?w" using wf by (simp_all add: wf_board_def)
  have fo: "fall_out b = (?st ^^ nat ?h) b"
  proof -
    from fold_iterate [of ?st "range_i 0 ?h" b] show ?thesis
      by (simp add: fall_out_def Let_def bt_const falls_down_def)
  qed
  have inv: "wf_board ((?st ^^ n) b) \<and> same_frame b ((?st ^^ n) b) \<and>
    (\<forall>x y. 0 \<le> y \<longrightarrow> y < ?h \<longrightarrow> get ((?st ^^ n) b) x y =
      (if 2 \<le> x \<and> x < ?w - 2 then
        (if falls_down b then (if y < int n then None else get b x (y - int n))
         else (if y \<ge> ?h - int n then None else get b x (y + int n)))
       else get b x y))" for n
  proof (induction n)
    case 0
    show ?case using wf by (auto simp: get_out_of_rows)
  next
    case (Suc n)
    obtain B where B_eq: "(?st ^^ n) b = B" by blast
    note IH = Suc.IH [unfolded B_eq]
    have B: "wf_board B" "same_frame b B" using IH by blast+
    note dims = same_frameD [OF B(2)]
    note active = same_cfg_active [OF same_frame_cfg [OF B(2)]]
    have fd: "falls_down B = falls_down b" by (rule same_frame_falls [OF B(2)])
    have line: "0 \<le> ?line" "?line < b_height B" using h by (auto simp: dims)
    have x2: "0 \<le> ?w - 2" "?w - 2 \<le> b_width B" using h by (auto simp: dims)
    have nf: "\<not> board_is_active B Force" using plain by (simp add: active)
    have two: "(0 :: int) \<le> 2" by simp
    note law = remove_line_law [OF B(1) line two x2 nf]
    have st: "?st B = remove_line B ?line 2 (?w - 2)" by (simp add: dims)
    have frame: "same_frame b (?st B)"
      using x2 by (intro same_frame_trans [OF B(2)] same_frame_remove_line) (simp add: dims)
    have rc: "rcol B ?line (2, ?w - 2) z = {2..<?w - 2}" "rcols B ?line (2, ?w - 2) k = (2, ?w - 2)" for z k
      using plain by (simp_all add: rcol_def rcols_def cols_def active Let_def)
    have g: "get (?st B) x y = (if 2 \<le> x \<and> x < ?w - 2 then
        (if falls_down b then (if 0 < y \<and> y \<le> ?h - 1 then get B x (y - 1) else if y = 0 then None else get B x y)
         else (if 0 \<le> y \<and> y < ?h - 1 then get B x (y + 1) else if y = ?h - 1 then None else get B x y))
       else get B x y)" for x y
    proof (cases "2 \<le> x \<and> x < ?w - 2")
      case True
      then have "moving_col B 2 (?w - 2) x" using plain by (simp add: moving_col_def active)
      from remove_line_column [OF B(1) line _ x2 nf this] True show ?thesis
        unfolding st fd by (auto simp: dims)
    next
      case False
      then have "x \<notin> {2..<?w - 2}" "\<not> (fst (2, ?w - 2) \<le> x \<and> x < snd (2 :: int, ?w - 2))" by auto
      then show ?thesis
        unfolding st law(2) Let_def rc by (simp only: False simp_thms if_False)
    qed
    have "get (?st B) x y =
      (if 2 \<le> x \<and> x < ?w - 2 then
        (if falls_down b then (if y < int (Suc n) then None else get b x (y - int (Suc n)))
         else (if y \<ge> ?h - int (Suc n) then None else get b x (y + int (Suc n))))
       else get b x y)" if y: "0 \<le> y" "y < ?h" for x y
    proof (cases "2 \<le> x \<and> x < ?w - 2")
      case True
      have gB: "get B x z = (if falls_down b then (if z < int n then None else get b x (z - int n))
          else (if z \<ge> ?h - int n then None else get b x (z + int n)))"
        if "0 \<le> z" "z < ?h" for z
        using IH [THEN conjunct2, THEN conjunct2, rule_format, OF that, of x] True by simp
      consider "y = 0" | "0 < y" "y < ?h - 1" | "y = ?h - 1" using y by linarith
      then show ?thesis unfolding g using True h
        by cases (auto simp: get_out_of_rows gB algebra_simps)
    next
      case False
      then show ?thesis
        using IH [THEN conjunct2, THEN conjunct2, rule_format, OF y, of x] unfolding g by (simp only: if_False)
    qed
    moreover have "wf_board (?st B)" unfolding st using law(1) by simp
    ultimately show ?case
      unfolding funpow.simps comp_def B_eq using frame by blast
  qed
  note final = inv [of "nat ?h", folded fo]
  show "wf_board (fall_out b)" by (rule final [THEN conjunct1])
  show "get (fall_out b) x y = (if 2 \<le> x \<and> x < ?w - 2 then None else get b x y)"
    using final [THEN conjunct2, THEN conjunct2, rule_format, of y x] h
    by (cases "0 \<le> y \<and> y < ?h") (auto simp: get_out_of_rows same_frameD(2) [OF same_frame_fall_out [OF wf]])
qed

subsection \<open>The box throwers return\<close>

text \<open>
  On a 10x28 board the band is rows 7 to 20. For every square of it there is a generator state of
  either parity whose next two draws hit it; the tables list one each, row by row.
\<close>

definition band_even :: "int list" where
  "band_even =
    [254, 270, 250, 266, 156, 262, 152, 278, 258, 274, 400, 34, 50, 30, 46, 408, 42, 404, 530, 38,
      54, 70, 160, 66, 192, 62, 188, 78, 58, 74, 200, 306, 322, 302, 338, 208, 298, 204, 330, 310,
      0, 452, 86, 448, 82, 554, 98, 460, 94, 456, 126, 106, 122, 102, 228, 118, 224, 114, 130,
      110, 362, 252, 378, 358, 374, 354, 370, 260, 366, 256, 36, 16, 32, 12, 28, 8, 24, 4, 40, 20,
      162, 52, 178, 158, 174, 154, 170, 150, 166, 182, 308, 398, 304, 430, 410, 300, 406, 422,
      312, 438, 72, 88, 68, 84, 64, 100, 80, 60, 76, 56, 218, 234, 104, 230, 210, 226, 206, 222,
      202, 328, 454, 470, 360, 466, 356, 462, 352, 478, 2, 364, 18, 124, 14, 140, 10, 26, 6, 22,
      112, 128]"

definition band_odd :: "int list" where
  "band_odd =
    [99, 79, 95, 75, 91, 71, 579, 87, 67, 83, 209, 115, 205, 111, 201, 217, 107, 213, 103, 229,
      371, 351, 477, 367, 1, 363, 379, 359, 249, 355, 9, 25, 5, 21, 37, 17, 33, 13, 139, 29, 281,
      151, 277, 167, 273, 163, 289, 159, 285, 155, 45, 407, 41, 403, 419, 399, 415, 431, 49, 301,
      81, 61, 77, 57, 73, 53, 89, 69, 85, 65, 317, 207, 223, 203, 219, 309, 215, 305, 211, 337,
      353, 97, 459, 93, 455, 471, 451, 577, 467, 447, 117, 7, 113, 3, 129, 109, 125, 105, 11, 101,
      263, 389, 259, 275, 255, 271, 251, 377, 267, 373, 27, 43, 23, 39, 19, 35, 15, 31, 503, 47,
      63, 189, 59, 185, 55, 181, 161, 177, 157, 173, 299, 315, 441, 311, 437, 327, 307, 323, 303,
      319]"

definition hits :: "int \<times> int \<times> int \<Rightarrow> bool" where
  "hits t = (case t of (y, i, j) \<Rightarrow>
     0 \<le> y \<and> y < 2 ^ 48 \<and> lcg y div 2 ^ 17 mod 10 = i \<and> lcg (lcg y) div 2 ^ 17 mod 14 = j)"

lemma band_even_hits: "list_all (\<lambda>t. even (fst t) \<and> hits t) (zip band_even (positions [0..9] [0..13]))"
  by code_simp

lemma band_odd_hits: "list_all (\<lambda>t. odd (fst t) \<and> hits t) (zip band_odd (positions [0..9] [0..13]))"
  by code_simp

lemma band_state:
  assumes "0 \<le> i" "i < 10" "0 \<le> j" "j < 14"
  shows "\<exists>y. odd y = p \<and> hits (y, i, j)"
proof -
  have mem: "(i, j) \<in> set (positions [0..9] [0..13])" using assms by simp
  have len: "length (positions [0..9] [0..13]) = length band_even" "length (positions [0..9] [0..13]) = length band_odd"
    by code_simp+
  show ?thesis
  proof (cases p)
    case True
    obtain y where "(y, i, j) \<in> set (zip band_odd (positions [0..9] [0..13]))"
      using in_set_impl_in_set_zip2 [OF len(2) [symmetric] mem] by blast
    then show ?thesis using band_odd_hits True by (auto simp: list_all_iff)
  next
    case False
    obtain y where "(y, i, j) \<in> set (zip band_even (positions [0..9] [0..13]))"
      using in_set_impl_in_set_zip2 [OF len(1) [symmetric] mem] by blast
    then show ?thesis using band_even_hits False by (auto simp: list_all_iff)
  qed
qed

text \<open>The boards of the game: 10 by 28.\<close>

definition std_board :: "board \<Rightarrow> bool" where
  "std_board b \<longleftrightarrow> b_width b = 10 \<and> b_height b = 28 \<and> length (b_cells b) = 280 \<and> wf_flags (b_active b)"

lemma std_board_wf [simp]: "std_board b \<Longrightarrow> wf_board b"
  by (simp add: std_board_def wf_board_def)

lemma std_board_iff: "std_board b \<longleftrightarrow> wf_board b \<and> b_width b = 10 \<and> b_height b = 28"
  by (auto simp: std_board_def wf_board_def)

lemma std_board_standard [simp]: "std_board (board_standard c)"
  by (simp add: std_board_def board_standard_def board_new_def bt_const)

lemma band_attempt_two_draws: "snd (band_attempt b r) = snd (next_state (snd (next_state r)))"
  by (simp add: band_attempt_def Let_def split_beta)

lemma uint_word_of_int_48: "0 \<le> y \<Longrightarrow> y < 2 ^ 48 \<Longrightarrow> uint (word_of_int y :: u64) = y"
  by (simp add: uint_word_of_int)

lemma band_attempt_hits:
  assumes "b_width b = 10" "b_height b = 28" "hits (y, i, j)" "\<not> occupied b i (j + 7)"
  shows "band_attempt b \<lparr>rng_state = word_of_int y\<rparr> =
    (Some (i, j + 7), snd (next_state (snd (next_state \<lparr>rng_state = word_of_int y\<rparr>))))"
proof -
  let ?r = "\<lparr>rng_state = word_of_int y\<rparr> :: rng"
  have y: "uint (rng_state ?r) = y" using assms(3) by (simp add: hits_def uint_word_of_int_48)
  have "fst (rand_below 10 ?r) = i" "fst (rand_below 14 (snd (next_state ?r))) = j"
    using assms(3) y by (simp_all add: rand_below_eq rand_eq next_state_uint hits_def)
  then show ?thesis using assms(1,2,4) by (simp add: band_attempt_def Let_def split_beta)
qed

interpretation band: rejection "\<lambda>b. b_width b = 10 \<and> b_height b = 28 \<and> band_has_empty b" band_attempt
proof
  show "snd (band_attempt b r) = snd (next_state (snd (next_state r)))" for b r
    by (rule band_attempt_two_draws)
  fix b odd_start assume b: "b_width b = 10 \<and> b_height b = 28 \<and> band_has_empty b"
  then obtain i j where ij: "0 \<le> i" "i < 10" "7 \<le> j" "j < 21" "\<not> occupied b i j"
    by (auto simp: band_has_empty_def Let_def list_ex_iff)
  obtain y where y: "odd y = odd_start" "hits (y, i, j - 7)"
    using band_state [of i "j - 7" odd_start] ij by auto
  have "fst (band_attempt b \<lparr>rng_state = word_of_int y\<rparr>) \<noteq> None"
    using band_attempt_hits [of b y i "j - 7"] b y ij by simp
  then show "\<exists>y. 0 \<le> y \<and> y < 2 ^ 48 \<and> odd y = odd_start \<and>
      fst (band_attempt b \<lparr>rng_state = word_of_int y\<rparr>) \<noteq> None"
    using y by (auto simp: hits_def)
qed

text \<open>A thrown box lands on a square of the band that was not occupied.\<close>

lemma throw_box_returns:
  assumes "std_board b"
  shows "returns (\<lambda>(b', r'). std_board b' \<and> same_frame b b' \<and>
    (if band_has_empty b then
       \<exists>x y c. 0 \<le> x \<and> x < 10 \<and> 7 \<le> y \<and> y < 21 \<and> get b x y = None \<and> is_removable c \<and>
         (token = Bug \<longrightarrow> cell_id c = - 1) \<and> b' = set_cell b x y (Some c)
     else b' = b \<and> r' = r)) (throw_box token b r)"
proof (cases "band_has_empty b")
  case True
  have dims: "b_width b = 10" "b_height b = 28" using assms by (simp_all add: std_board_def)
  obtain a r' r0 where a: "retry (band_attempt b) r = Some (a, r')" "band_attempt b r0 = (Some a, r')"
    using band.loop_returns [of b r] True dims by blast
  obtain i j where ij: "a = (i, j)" by (cases a)
  have occ: "0 \<le> i" "i < 10" "7 \<le> j" "j < 21" "\<not> occupied b i j"
    using a(2) rand_below_bounds [of 10 r0] rand_below_bounds [of 14 "snd (next_state r0)"]
    unfolding band_attempt_def dims Let_def split_beta ij
    by (auto split: if_splits)
  then have free: "get b i j = None" using dims by (auto simp: occupied_def split: if_splits)
  have std: "std_board (set_cell b i j c)" for c
    using assms by (simp add: std_board_iff)
  obtain c r2 where c: "throw_box token b r = Some (set_cell b i j (Some c), r2)"
    "is_removable c" "token = Bug \<longrightarrow> cell_id c = - 1"
    using True a(1) ij
    by (cases "token = Bug") (auto simp: throw_box_def Let_def split_beta bt_const color_cell_def cell_new_def
        is_removable_def cell_id_def)
  then show ?thesis using True occ free std by (auto simp: c(1))
next
  case False
  then show ?thesis using assms by (simp add: throw_box_def)
qed

subsection \<open>The walls of an active bottle\<close>

definition walls :: "board \<Rightarrow> bool" where
  "walls b \<longleftrightarrow> (\<forall>x y. wall_square b x y \<longrightarrow> (\<exists>c. get b x y = Some c \<and> c_kind c = Structure))"

lemma wall_square_std: "std_board b \<Longrightarrow>
    wall_square b x y \<longleftrightarrow> 0 \<le> x \<and> x < 10 \<and> (x < 3 \<or> 7 \<le> x) \<and> 10 \<le> y \<and> y < 18"
  by (auto simp: wall_square_def in_bounds_def std_board_def)

lemma walls_keep:
  assumes "std_board b" "std_board b'" "walls b"
    and "\<And>x y c. wall_square b x y \<Longrightarrow> get b x y = Some c \<Longrightarrow> c_kind c = Structure \<Longrightarrow>
      (\<exists>c'. get b' x y = Some c' \<and> c_kind c' = Structure)"
  shows "walls b'"
  unfolding walls_def
proof (intro allI impI)
  fix x y assume "wall_square b' x y"
  then have "wall_square b x y" using assms(1,2) by (simp add: wall_square_std)
  with assms(3,4) show "\<exists>c. get b' x y = Some c \<and> c_kind c = Structure" unfolding walls_def by blast
qed

lemma wall_rcol:
  assumes b: "std_board b" "board_is_active b Bottle" and xy: "wall_square b x y"
    and e: "0 \<le> rdir b * (line - z)" and z: "z = y \<or> z = y + rdir b"
  shows "x \<notin> rcol b line (x1, x2) z"
proof -
  have w: "x < 3 \<or> 7 \<le> x" "10 \<le> y" "y < 18" using xy b(1) by (simp_all add: wall_square_std)
  let ?k = "nat (rdir b * (line - z))"
  have "line - rdir b * int ?k = z" using e rdir_cases [of b] by auto
  moreover have "rneck b z" using z w by (auto simp: rneck_def rdir_def)
  ultimately have "\<exists>k < Suc ?k. rneck b (line - rdir b * int k)" by (metis lessI)
  then have "rcols b line (x1, x2) (Suc ?k) = (3, b_width b - 3)"
    using b(2) by (simp only: rcols_def cols_def simp_thms if_True)
  then show ?thesis using w b(1) by (auto simp: rcol_def Let_def std_board_def)
qed

lemma remove_line_wall_square:
  assumes b: "std_board b" "board_is_active b Bottle" and xy: "wall_square b x y"
    and line: "0 \<le> line" "line < b_height b" and xs: "0 \<le> x1" "0 \<le> x2" "x2 \<le> b_width b"
  shows "get (remove_line b line x1 x2) x y = get b x y"
proof (cases "board_is_active b Force")
  case True
  have "x \<notin> rcol b line (x1, x2) line" if "y = line"
    by (rule wall_rcol [OF b xy]) (use that in simp_all)
  then show ?thesis using remove_line_force(2) [OF std_board_wf [OF b(1)] xs True, of line x y] by auto
next
  case False
  let ?d = "rdir b"
  have y: "10 \<le> y" "y < 18" using xy b(1) by (simp_all add: wall_square_std)
  then have "y \<noteq> last_row b" using b(1) by (simp add: last_row_def std_board_def)
  moreover have "\<not> (0 \<le> ?d * (line - y) \<and> x \<in> rcol b line (x1, x2) y)"
    using wall_rcol [OF b xy] by blast
  moreover have "\<not> (0 < ?d * (line - y) \<and> x \<in> rcol b line (x1, x2) (y + ?d))"
  proof
    assume *: "0 < ?d * (line - y) \<and> x \<in> rcol b line (x1, x2) (y + ?d)"
    then have "0 \<le> ?d * (line - (y + ?d))" using rdir_cases [of b] by auto
    then show False using wall_rcol [OF b xy] * by blast
  qed
  ultimately show ?thesis
    unfolding remove_line_law(2) [OF std_board_wf [OF b(1)] line xs False] Let_def by (simp only: simp_thms if_False)
      (metis (no_types, lifting))
qed

lemma std_board_frame: "std_board b \<Longrightarrow> wf_board b' \<Longrightarrow> same_frame b b' \<Longrightarrow> std_board b'"
  by (simp add: std_board_iff same_frameD)

lemma std_board_cfg: "std_board b \<Longrightarrow> wf_board b' \<Longrightarrow> same_cfg b b' \<Longrightarrow> std_board b'"
  by (simp add: std_board_iff same_cfgD)

lemma frown_structure: "c_kind c = Structure \<Longrightarrow> frown (Some c) = Some c"
  by (simp add: frown_def cell_value_def bt_const)

lemma clear_pass_walls:
  assumes "wf_board b" "j < b_height b" "std_board b" "board_is_active b Bottle" "walls b"
  shows "returns (\<lambda>(b', v', l'). walls b') (clear_pass (board_is_active b Force) b j v l)"
  using assms
proof (induction b j v l rule: clear_pass_ind)
  case (over b j v l)
  then show ?case using clear_pass_step [of b] by (simp add: wf_board_def)
next
  case (full b j v l)
  let ?b = "remove_line b j 0 (b_width b)"
  have w: "0 \<le> b_width b" using full.hyps by (simp add: wf_board_def)
  have cfg: "same_cfg b ?b" using w by (intro same_frame_cfg same_frame_remove_line)
  have std: "std_board ?b"
    by (rule std_board_cfg [OF full.prems(1) _ cfg]) (rule remove_line_wf [OF full.hyps(1-3)])
  have "walls ?b"
    by (rule walls_keep [OF full.prems(1) std full.prems(3)])
      (use remove_line_wall_square [OF full.prems(1,2) _ full.hyps(2,3)] w in simp)
  then show ?case
    using full.IH full.hyps full.prems std clear_pass_step [OF w] same_cfg_active [OF cfg] by simp
next
  case (rest b j v l)
  have w: "0 \<le> b_width b" using rest.hyps by (simp add: wf_board_def)
  note cfg = frown_row_cfg [of b j]
  have std: "std_board (frown_row b j)"
    by (rule std_board_cfg [OF rest.prems(1) _ cfg]) (rule frown_row_law(1) [OF rest.hyps(1)])
  have "walls (frown_row b j)"
    by (rule walls_keep [OF rest.prems(1) std rest.prems(3)])
      (use frown_row_law(2) [OF rest.hyps(1)] frown_structure in auto)
  then show ?case
    using rest.IH rest.hyps rest.prems std clear_pass_step [OF w] same_cfg_active [OF cfg] by simp
qed

lemma wall_square_idiot [simp]: "wall_square (b\<lparr>b_idiot := i\<rparr>) = wall_square b"
  "wall_square (b\<lparr>b_idiot := i, b_reason := r\<rparr>) = wall_square b"
  by (simp_all add: wall_square_def in_bounds_def fun_eq_iff)

lemma check_lines_walls:
  assumes "std_board b" "board_is_active b Bottle" "walls b"
  shows "returns (\<lambda>(lc, b'). walls b') (check_lines b)"
  unfolding check_lines_def Let_def
  by (rule returns_bind [OF clear_pass_walls])
    (use assms in \<open>auto simp: walls_def\<close>)

lemma fall_out_std:
  assumes "std_board b"
  shows "std_board (fall_out b)"
    and "board_is_active b Bottle \<Longrightarrow> wall_square b x y \<Longrightarrow> get (fall_out b) x y = get b x y"
proof -
  let ?P = "\<lambda>b'. std_board b' \<and> same_frame b b' \<and>
    (board_is_active b Bottle \<longrightarrow> (\<forall>x y. wall_square b x y \<longrightarrow> get b' x y = get b x y))"
  have "?P (fold (\<lambda>_ b'. let line = (if falls_down b then b_height b' - 1 else 0) in
      remove_line b' line BT_FALL_OUT_LEDGE (b_width b' - BT_FALL_OUT_LEDGE)) ks b)" for ks :: "int list"
  proof (rule fold_preserves [where P = ?P])
    fix k b' assume P: "?P b'"
    let ?line = "if falls_down b then b_height b' - 1 else 0"
    have std: "std_board b'" "same_frame b b'" using P by blast+
    have line: "0 \<le> ?line" "?line < b_height b'" and xs: "0 \<le> (2 :: int)" "0 \<le> b_width b' - 2" "b_width b' - 2 \<le> b_width b'"
      using std(1) by (simp_all add: std_board_def)
    note wf = std_board_wf [OF std(1)]
    have wf': "wf_board (remove_line b' ?line 2 (b_width b' - 2))"
      using remove_line_law(1) [OF wf line xs] remove_line_force(1) [OF wf xs] by blast
    have frame: "same_frame b' (remove_line b' ?line 2 (b_width b' - 2))" using xs by simp
    have "get (remove_line b' ?line 2 (b_width b' - 2)) x y = get b x y"
      if "board_is_active b Bottle" "wall_square b x y" for x y
      using remove_line_wall_square [OF std(1) _ _ line xs, of x y] that P
        same_cfg_active [OF same_frame_cfg [OF std(2)]] assms by (simp add: wall_square_std)
    then show "?P (let line = ?line in remove_line b' line BT_FALL_OUT_LEDGE (b_width b' - BT_FALL_OUT_LEDGE))"
      using std_board_frame [OF std(1) wf' frame] same_frame_trans [OF std(2) frame]
      unfolding Let_def BT_FALL_OUT_LEDGE_def by blast
  qed (use assms in simp)
  from this [of "range_i 0 (b_height b)"] show "std_board (fall_out b)"
    "board_is_active b Bottle \<Longrightarrow> wall_square b x y \<Longrightarrow> get (fall_out b) x y = get b x y"
    by (simp_all add: fall_out_def falls_down_def)
qed

lemma insert_line_wall_square:
  assumes "std_board b" "board_is_active b Bottle" "wall_square b x y"
  shows "get (fst (insert_line b r)) x y = get b x y"
proof -
  have w: "0 \<le> x" "x < 10" "x < 3 \<or> 7 \<le> x" "10 \<le> y" "y < 18" and dims: "b_width b = 10" "b_height b = 28"
    using assms by (simp_all add: wall_square_std std_board_def)
  have "icols b z = (3, 7)" if "z = y \<or> z = y + - rdir b" for z
    using that w assms(2) by (auto simp: icols_def rdir_def dims split: if_splits)
  then have ic: "icols b y = (3, 7)" "icols b (y + - rdir b) = (3, 7)" by blast+
  have ge: "y \<noteq> garbage_end b" using w by (simp add: garbage_end_def dims)
  show ?thesis
    unfolding insert_line_law(2) [OF std_board_wf [OF assms(1)]] Let_def ic
    using w(3) ge by (elim disjE) simp_all
qed

text \<open>
  What every weapon keeps when it comes on: the dimensions, the flags, and the walls of an active
  bottle; only Bottle itself can complete lines.
\<close>

definition keeps_board :: "board \<Rightarrow> board \<Rightarrow> bool" where
  "keeps_board b b' \<longleftrightarrow> std_board b' \<and> b_active b' = b_active b \<and> b_computer b' = b_computer b"

lemma keeps_board_frame: "std_board b \<Longrightarrow> wf_board b' \<Longrightarrow> same_frame b b' \<Longrightarrow> keeps_board b b'"
  using std_board_frame [of b b'] by (simp add: keeps_board_def same_frameD)

lemma std_board_upside [simp]: "std_board (b\<lparr>b_upside := u\<rparr>) = std_board b"
  by (simp add: std_board_def)

lemma put_walls_walls:
  assumes "std_board b" shows "std_board (put_walls c b)" "walls (put_walls (Some structure_cell) b)"
proof -
  show std: "std_board (put_walls c b)" for c
    by (rule std_board_frame [OF assms put_walls_law(1) same_frame_put_walls]) (simp add: assms)
  then show "walls (put_walls (Some structure_cell) b)"
    using assms by (simp add: walls_def put_walls_law wall_square_std structure_cell_def cell_new_def)
qed

lemma board_apply_weapon_keeps:
  assumes "std_board b"
  shows "returns (\<lambda>(lc, b', r'). keeps_board b b' \<and> (b_upside b' \<longleftrightarrow> token = Upbyside \<or> b_upside b)
      \<and> (token \<noteq> Bottle \<longrightarrow> lc = line_clear_default)
      \<and> 0 \<le> lc_lines lc \<and> lc_funds lc = lc_value lc * lc_lines lc) (board_apply_weapon token b r)"
proof -
  note wf = std_board_wf [OF assms]
  note keep = keeps_board_frame [OF assms]
  have lc: "0 \<le> lc_lines line_clear_default"
    "lc_funds line_clear_default = lc_value line_clear_default * lc_lines line_clear_default"
    by (simp_all add: line_clear_default_def)
  have upd: "keeps_board b (b'\<lparr>b_upside := u\<rparr>) = keeps_board b b'" for b' u
    by (simp add: keeps_board_def)
  have thrown: "returns (\<lambda>(b', r'). keeps_board b b' \<and> b_upside b' = b_upside b) (throw_box token b r)" for token
    by (rule returns_mono [OF throw_box_returns [OF assms]])
      (auto simp: keeps_board_def same_frameD split: if_splits)
  have bound: "returns (\<lambda>(lc, b', r'). keeps_board b b' \<and> b_upside b' = b_upside b \<and> lc = line_clear_default)
      (Option.bind (throw_box token b r) (\<lambda>(b, r). Some (line_clear_default, b, r)))" for token
    by (rule returns_bind [OF thrown]) auto
  show ?thesis
  proof (cases token)
    case Upbyside
    then show ?thesis using keep [OF flip_horiz_law(1) [OF wf] same_frame_flip_horiz] keep [OF wf] lc
      by (simp add: board_apply_weapon_def Let_def upd)
  next
    case FallOut
    then show ?thesis
      using keep [OF std_board_wf [OF fall_out_std(1) [OF assms]] same_frame_fall_out [OF wf]] lc
      by (simp add: board_apply_weapon_def same_frameD [OF same_frame_fall_out [OF wf]])
  next
    case RiseUp
    then show ?thesis
      using keep [OF insert_line_law(1) [OF wf] same_frame_insert_line [OF wf], of r] lc
      by (simp add: board_apply_weapon_def split_beta same_frameD [OF same_frame_insert_line [OF wf]])
  next
    case FlipOut
    then show ?thesis using keep [OF flip_vert_law(1) [OF wf] same_frame_flip_vert] lc
      by (simp add: board_apply_weapon_def same_frameD [OF same_frame_flip_vert])
  next
    case Missing
    then show ?thesis using keep [OF wf_take_missing [OF wf] same_frame_take_missing, of r] lc
      by (simp add: board_apply_weapon_def split_beta same_frameD [OF same_frame_take_missing])
  next
    case Blind
    then show ?thesis using keep [of "fst (blind_cells b r)"] blind_cells_law [OF wf, of r] lc
      by (simp add: board_apply_weapon_def split_beta same_frameD)
  next
    case GimpW
    then show ?thesis using keep [OF gimp_cells_law(1) [OF wf] same_frame_gimp_cells] lc
      by (simp add: board_apply_weapon_def same_frameD [OF same_frame_gimp_cells])
  next
    case Twilight
    then show ?thesis using keep [OF hide_cells_law(1) [OF wf] same_frame_hide_cells] lc
      by (simp add: board_apply_weapon_def same_frameD [OF same_frame_hide_cells])
  next
    case PieceIt
    show ?thesis using bound [of PieceIt] lc PieceIt
      by (auto simp: board_apply_weapon_def elim!: returns_mono)
  next
    case Bug
    show ?thesis using bound [of Bug] lc Bug
      by (auto simp: board_apply_weapon_def elim!: returns_mono)
  next
    case Bottle
    let ?w = "put_walls (Some structure_cell) b"
    have w: "std_board ?w" "same_frame b ?w" using put_walls_walls [OF assms] by simp_all
    have "returns (\<lambda>(lc, b'). keeps_board b b' \<and> b_upside b' = b_upside b \<and> 0 \<le> lc_lines lc
        \<and> lc_funds lc = lc_value lc * lc_lines lc) (check_lines ?w)"
    proof (rule returns_mono [OF check_lines_returns [OF std_board_wf [OF w(1)]]])
      fix res
      assume "case res of (lc, b') \<Rightarrow> wf_board b' \<and> same_cfg ?w b' \<and> 0 \<le> lc_lines lc
        \<and> lc_funds lc = lc_value lc * lc_lines lc"
      then show "case res of (lc, b') \<Rightarrow> keeps_board b b' \<and> b_upside b' = b_upside b \<and> 0 \<le> lc_lines lc
        \<and> lc_funds lc = lc_value lc * lc_lines lc"
        using std_board_cfg [OF w(1)] same_frameD [OF w(2)]
        by (auto simp: keeps_board_def same_cfgD)
    qed
    then show ?thesis unfolding Bottle board_apply_weapon_def Let_def
      by (auto intro: returns_bind)
  qed (use keep [OF wf] lc in \<open>simp_all add: board_apply_weapon_def\<close>)
qed

lemma walls_same: "std_board b \<Longrightarrow> std_board b' \<Longrightarrow> walls b \<Longrightarrow>
    (\<And>x y. wall_square b x y \<Longrightarrow> get b' x y = get b x y) \<Longrightarrow> walls b'"
  by (rule walls_keep) auto

text \<open>No weapon breaks the walls of an active bottle: they survive until Bottle goes off.\<close>

lemma board_apply_weapon_walls:
  assumes std: "std_board b" and bottle: "board_is_active b Bottle" and walls: "walls b \<or> token = Bottle"
  shows "returns (\<lambda>(lc, b', r'). walls b') (board_apply_weapon token b r)"
proof -
  note wf = std_board_wf [OF std]
  have sym: "wall_square b x y \<Longrightarrow> wall_square b (9 - x) y" "wall_square b x y \<Longrightarrow> wall_square b x (27 - y)" for x y
    using std by (auto simp: wall_square_std)
  have upd: "walls (b'\<lparr>b_upside := u\<rparr>) = walls b'" for b' u
    by (simp add: walls_def wall_square_def in_bounds_def)
  have dims: "b_width b = 10" "b_height b = 28" using std by (simp_all add: std_board_def)
  have hard: "c_kind c = Structure \<Longrightarrow> \<not> is_removable c" for c by (simp add: is_removable_def)
  note keep = walls_keep [OF std]
  note same = walls_same [OF std]
  have thrown: "returns (\<lambda>(lc, b', r'). walls b')
      (Option.bind (throw_box tok b r) (\<lambda>(b, r). Some (line_clear_default, b, r)))" if W: "walls b" for tok
  proof (rule returns_bind [OF throw_box_returns [OF std]])
    fix s assume s: "case s of (b', r') \<Rightarrow> std_board b' \<and> same_frame b b' \<and>
      (if band_has_empty b then
         \<exists>x y c. 0 \<le> x \<and> x < 10 \<and> 7 \<le> y \<and> y < 21 \<and> get b x y = None \<and> is_removable c \<and>
           (tok = Bug \<longrightarrow> cell_id c = - 1) \<and> b' = set_cell b x y (Some c)
       else b' = b \<and> r' = r)"
    obtain b' r' where s': "s = (b', r')" by (cases s)
    have "walls b'"
    proof (rule same [OF _ W])
      show "std_board b'" using s s' by simp
      fix x y assume "wall_square b x y"
      then have "get b x y \<noteq> None" using W by (auto simp: walls_def)
      then show "get b' x y = get b x y" using s s' by (auto simp: get_set_cell [OF wf] split: if_splits)
    qed
    then show "returns (\<lambda>(lc, b', r'). walls b') (case s of (b, r) \<Rightarrow> Some (line_clear_default, b, r))"
      by (simp add: s')
  qed
  have W: "walls b" if "token \<noteq> Bottle" using walls that by blast
  show ?thesis
  proof (cases token)
    case Bottle
    let ?w = "put_walls (Some structure_cell) b"
    have "board_is_active ?w Bottle" using bottle same_cfg_active [OF same_frame_cfg [OF same_frame_put_walls]] by simp
    then have "returns (\<lambda>(lc, b'). walls b') (check_lines ?w)"
      using put_walls_walls [OF std] by (intro check_lines_walls)
    then show ?thesis unfolding Bottle board_apply_weapon_def Let_def by (auto intro: returns_bind)
  next
    case Upbyside
    have "walls (flip_horiz b)"
      by (rule keep [OF std_board_frame [OF std flip_horiz_law(1) [OF wf] same_frame_flip_horiz]])
        (use W Upbyside sym in \<open>simp_all add: flip_horiz_law(2) [OF wf] dims walls_def\<close>)
    then show ?thesis using W Upbyside by (simp add: board_apply_weapon_def Let_def upd)
  next
    case FlipOut
    have "walls (flip_vert b)"
      by (rule keep [OF std_board_frame [OF std flip_vert_law(1) [OF wf] same_frame_flip_vert]])
        (use W FlipOut sym in \<open>simp_all add: flip_vert_law(2) [OF wf] dims walls_def\<close>)
    then show ?thesis using FlipOut by (simp add: board_apply_weapon_def)
  next
    case FallOut
    have "walls (fall_out b)"
      by (rule same [OF fall_out_std(1) [OF std]]) (use W FallOut fall_out_std(2) [OF std bottle] in simp_all)
    then show ?thesis using FallOut by (simp add: board_apply_weapon_def)
  next
    case RiseUp
    have "walls (fst (insert_line b r))"
      by (rule same [OF std_board_frame [OF std insert_line_law(1) [OF wf] same_frame_insert_line [OF wf]]])
        (use W RiseUp insert_line_wall_square [OF std bottle] in simp_all)
    then show ?thesis using RiseUp by (simp add: board_apply_weapon_def split_beta)
  next
    case Missing
    have "walls (fst (take_missing b r))"
    proof (cases rule: take_missing_cases [OF wf, of r, case_names none one])
      case none
      then show ?thesis using W Missing by simp
    next
      case (one x y c)
      show ?thesis
        by (rule keep [OF std_board_frame [OF std wf_take_missing [OF wf] same_frame_take_missing]])
          (use W Missing one hard in \<open>auto simp: get_set_cell [OF wf]\<close>)
    qed
    then show ?thesis using Missing by (simp add: board_apply_weapon_def split_beta)
  next
    case Blind
    note law = blind_cells_law [OF wf, of r]
    have std': "std_board (fst (blind_cells b r))" using law std_board_frame [OF std] by blast
    have "walls (fst (blind_cells b r))"
    proof (rule keep [OF std'])
      show "walls b" using W Blind by simp
      fix x y c assume c: "get b x y = Some c" "c_kind c = Structure"
      then show "\<exists>c'. get (fst (blind_cells b r)) x y = Some c' \<and> c_kind c' = Structure"
        using law [THEN conjunct2, THEN conjunct2, rule_format, of x y] hard [OF c(2)] by auto
    qed
    then show ?thesis using Blind by (simp add: board_apply_weapon_def split_beta)
  next
    case GimpW
    have "walls (gimp_cells b)"
      by (rule keep [OF std_board_frame [OF std gimp_cells_law(1) [OF wf] same_frame_gimp_cells]])
        (use W GimpW hard in \<open>auto simp: gimp_cells_law(2) [OF wf] to_gimp_def\<close>)
    then show ?thesis using GimpW by (simp add: board_apply_weapon_def)
  next
    case Twilight
    have "walls (hide_cells b)"
      by (rule keep [OF std_board_frame [OF std hide_cells_law(1) [OF wf] same_frame_hide_cells]])
        (use W Twilight in \<open>auto simp: hide_cells_law(2) [OF wf] hide_def\<close>)
    then show ?thesis using Twilight by (simp add: board_apply_weapon_def)
  qed (use W thrown in \<open>simp_all add: board_apply_weapon_def\<close>)
qed

subsection \<open>Weapons going off\<close>

lemma board_revert_weapon_keeps:
  assumes "std_board b"
  shows "keeps_board b (board_revert_weapon token b)"
    and "b_upside (board_revert_weapon token b) \<longleftrightarrow> token \<noteq> Upbyside \<and> b_upside b"
proof -
  note keep = keeps_board_frame [OF assms]
  let ?b = "b\<lparr>b_upside := False\<rparr>"
  have "wf_board ?b" using assms by simp
  note law = flip_horiz_law(1) [OF this]
  have flip: "std_board (flip_horiz ?b)"
    using std_board_frame [OF _ law same_frame_flip_horiz] assms by simp
  show "keeps_board b (board_revert_weapon token b)"
    using keep [OF put_walls_law(1) same_frame_put_walls] keep [OF std_board_wf [OF assms]] flip assms
    by (cases token)
      (simp_all add: board_revert_weapon_def Let_def keeps_board_def same_frameD [OF same_frame_flip_horiz])
  show "b_upside (board_revert_weapon token b) \<longleftrightarrow> token \<noteq> Upbyside \<and> b_upside b"
    by (cases token) (simp_all add: board_revert_weapon_def Let_def
        same_frameD [OF same_frame_flip_horiz] same_frameD [OF same_frame_put_walls])
qed

lemma set_cell_upside: "set_cell (d\<lparr>b_upside := u\<rparr>) x y c = (set_cell d x y c)\<lparr>b_upside := u\<rparr>"
  by (cases d) (simp add: set_cell_def in_bounds_def cell_index_def cong: if_cong)

text \<open>Upbyside on and off again leaves the board as it was.\<close>

lemma upbyside_restores:
  assumes "std_board b" "\<not> b_upside b"
  shows "board_apply_weapon Upbyside b r = Some (line_clear_default, b', r') \<Longrightarrow> board_revert_weapon Upbyside b' = b"
proof -
  note wf = std_board_wf [OF assms(1)]
  have comm: "flip_horiz (b\<lparr>b_upside := u\<rparr>) = (flip_horiz b)\<lparr>b_upside := u\<rparr>" for b u
  proof -
    have "flip_horiz (c\<lparr>b_upside := u\<rparr>) = (flip_horiz c)\<lparr>b_upside := u\<rparr>" for c
    proof -
      have sw: "swap x1 y1 x2 y2 (d\<lparr>b_upside := u\<rparr>) = (swap x1 y1 x2 y2 d)\<lparr>b_upside := u\<rparr>" for x1 y1 x2 y2 d
        by (simp add: swap_def Let_def set_cell_upside)
      have "fold (\<lambda>p d. swap (fst p) (snd p) (fst p) (b_height d - 1 - snd p) d) ps (d\<lparr>b_upside := u\<rparr>)
        = (fold (\<lambda>p d. swap (fst p) (snd p) (fst p) (b_height d - 1 - snd p) d) ps d)\<lparr>b_upside := u\<rparr>" for ps d
        by (induction ps arbitrary: d) (simp_all add: sw)
      then show ?thesis by (simp add: flip_horiz_fold)
    qed
    then show ?thesis .
  qed
  have same: "b\<lparr>b_upside := False\<rparr> = b" using assms(2) by (cases b) simp
  show "board_apply_weapon Upbyside b r = Some (line_clear_default, b', r') \<Longrightarrow> board_revert_weapon Upbyside b' = b"
    using assms(2) flip_horiz_twice [OF wf] same
    by (auto simp: board_apply_weapon_def board_revert_weapon_def Let_def comm
        same_frameD [OF same_frame_flip_horiz] split: if_splits)
qed

end
