(* ===== verification/Piece.thy ===== *)
theory Piece
  imports Board
begin

section \<open>Falling pieces\<close>

text \<open>
  \<open>bt-core/src/piece.rs\<close>: the 18 kinds and their shapes, moving, the generic rotation, the three
  hand-built rotations, and locking into the board. A piece carries an 8 by 8 grid, \<open>cells[x][y]\<close>
  being \<open>p_cells p ! x ! y\<close>. \<open>DieP\<close>, \<open>HappyP\<close> and \<open>FourByFourP\<close> are the kinds \<open>Die\<close>, \<open>Happy\<close> and
  \<open>FourByFour\<close>, whose names the cells and the weapons use as well.

  The arms of the hand-built rotations all have one form: test some squares of the board, then move
  cells one by one (\<open>cells[d] = cells[s]; cells[s] = None\<close>). They are given as tables of tests and
  moves per new state and direction, in the order of the code.
\<close>

datatype piece_kind =
    El | RevEl | SlideRight | SlideLeft | Long | Plug | Box | DieP | HappyP
  | Dog | RevDog | Cap | Wall | Tower | Star | WeirdLong | FourByFourP | LongDong

primrec kind_id :: "piece_kind \<Rightarrow> i32" where
  "kind_id El = BT_EL_PIECE"
| "kind_id RevEl = BT_REL_PIECE"
| "kind_id SlideRight = BT_SL_RT_PIECE"
| "kind_id SlideLeft = BT_SL_LF_PIECE"
| "kind_id Long = BT_LONG_PIECE"
| "kind_id Plug = BT_PLUG_PIECE"
| "kind_id Box = BT_BOX_PIECE"
| "kind_id DieP = BT_DIE_PIECE"
| "kind_id HappyP = BT_HAP_PIECE"
| "kind_id Dog = BT_DOG_PIECE"
| "kind_id RevDog = BT_RDOG_PIECE"
| "kind_id Cap = BT_CAP_PIECE"
| "kind_id Wall = BT_WALL_PIECE"
| "kind_id Tower = BT_TOWER_PIECE"
| "kind_id Star = BT_STAR_PIECE"
| "kind_id WeirdLong = BT_WLONG_PIECE"
| "kind_id FourByFourP = BT_4X4_PIECE"
| "kind_id LongDong = BT_LONG_DONG_PIECE"

definition kind_from_id :: "i32 \<Rightarrow> piece_kind option" where
  "kind_from_id i =
     (if i = BT_EL_PIECE then Some El
      else if i = BT_REL_PIECE then Some RevEl
      else if i = BT_SL_RT_PIECE then Some SlideRight
      else if i = BT_SL_LF_PIECE then Some SlideLeft
      else if i = BT_LONG_PIECE then Some Long
      else if i = BT_PLUG_PIECE then Some Plug
      else if i = BT_BOX_PIECE then Some Box
      else if i = BT_DIE_PIECE then Some DieP
      else if i = BT_HAP_PIECE then Some HappyP
      else if i = BT_DOG_PIECE then Some Dog
      else if i = BT_RDOG_PIECE then Some RevDog
      else if i = BT_CAP_PIECE then Some Cap
      else if i = BT_WALL_PIECE then Some Wall
      else if i = BT_TOWER_PIECE then Some Tower
      else if i = BT_STAR_PIECE then Some Star
      else if i = BT_WLONG_PIECE then Some WeirdLong
      else if i = BT_4X4_PIECE then Some FourByFourP
      else if i = BT_LONG_DONG_PIECE then Some LongDong
      else None)"

type_synonym shape = "cell option list list"

record piece =
  p_kind :: piece_kind
  p_x :: i32
  p_y :: i32
  p_color :: i32
  p_rot :: nat
  p_orientation :: i32
  p_orientations :: i32
  p_state :: i32
  p_cells :: shape

definition no_cells :: shape where
  "no_cells = replicate 8 (replicate 8 None)"

text \<open>\<open>cells[i][j] = c\<close>\<close>

definition put :: "nat \<Rightarrow> nat \<Rightarrow> cell option \<Rightarrow> shape \<Rightarrow> shape" where
  "put i j c cs = cs[i := (cs ! i)[j := c]]"

definition construct_data ::
    "piece_kind \<Rightarrow> u8 \<Rightarrow> cell \<times> (nat \<times> nat) list \<times> i32 \<times> nat \<times> i32 \<times> i32" where
  "construct_data kind die_value =
    (case kind of
       El \<Rightarrow> (color_cell 2, [(1, 0), (1, 1), (1, 2), (2, 2)], 2, 3, 4, 0)
     | RevEl \<Rightarrow> (color_cell 3, [(2, 0), (2, 1), (2, 2), (1, 2)], 3, 3, 4, 0)
     | SlideLeft \<Rightarrow> (color_cell 5, [(0, 1), (1, 1), (1, 2), (2, 2)], 5, 3, 4, 0)
     | SlideRight \<Rightarrow> (color_cell 4, [(0, 2), (1, 2), (1, 1), (2, 1)], 4, 3, 4, 0)
     | Long \<Rightarrow> (color_cell 6, [(0, 1), (1, 1), (2, 1), (3, 1)], 6, 4, 4, 0)
     | Plug \<Rightarrow> (color_cell 7, [(0, 2), (1, 2), (1, 1), (2, 2)], 7, 3, 4, 0)
     | Box \<Rightarrow> (color_cell 8, [(1, 1), (1, 2), (2, 1), (2, 2)], 8, 0, 4, 0)
     | DieP \<Rightarrow> (die_cell die_value, [(1, 1)], BT_IVORY, 0, 4, 0)
     | HappyP \<Rightarrow> (happy_cell, [(1, 1)], BT_IVORY, 0, 4, 0)
     | Dog \<Rightarrow> (color_cell 2, [(0, 0), (1, 1), (2, 1), (2, 2)], 2, 3, 4, 0)
     | RevDog \<Rightarrow> (color_cell 3, [(0, 1), (0, 2), (1, 1), (2, 2)], 3, 3, 4, 0)
     | Cap \<Rightarrow> (color_cell 4, [(0, 2), (1, 1), (2, 1), (3, 2)], 4, 4, 4, 0)
     | Wall \<Rightarrow> (color_cell 5, [(0, 1), (0, 2), (3, 1), (3, 2)], 5, 4, 4, 0)
     | Tower \<Rightarrow> (color_cell 6, [(2, 0), (1, 1), (0, 1), (2, 2)], 6, 3, 4, 0)
     | Star \<Rightarrow> (color_cell 7, [(1, 0), (0, 1), (1, 2), (2, 1)], 7, 3, 2, 0)
     | WeirdLong \<Rightarrow> (color_cell 8, [(1, 0), (1, 1), (2, 2), (2, 3)], 8, 4, 6, 0)
     | FourByFourP \<Rightarrow> (color_cell 8, [(0, 0), (1, 0), (2, 0), (3, 0), (0, 3), (1, 3), (2, 3), (3, 3),
           (0, 1), (0, 2), (3, 1), (3, 2)], 8, 0, 4, 0)
     | LongDong \<Rightarrow> (color_cell 6, [(0, 0), (1, 0), (2, 0), (3, 0), (4, 0), (5, 0), (6, 0), (7, 0)], 6, 8, 4, 0))"

definition construct :: "piece_kind \<Rightarrow> i32 \<Rightarrow> i32 \<Rightarrow> u8 \<Rightarrow> piece" where
  "construct kind x y die_value =
     (let (c, squares, color, rot, orientations, state) = construct_data kind die_value in
      \<lparr>p_kind = kind, p_x = x, p_y = y, p_color = color, p_rot = rot, p_orientation = 0,
       p_orientations = orientations, p_state = state,
       p_cells = fold (\<lambda>s cs. put (fst s) (snd s) (Some c) cs) squares no_cells\<rparr>)"

definition is_mapped :: "piece \<Rightarrow> nat \<Rightarrow> nat \<Rightarrow> bool" where
  "is_mapped p x y \<longleftrightarrow> p_cells p ! x ! y \<noteq> None"

subsection \<open>Moving\<close>

text \<open>The index pairs of the loops \<open>for i in 0..n { for j in 0..n { .. } }\<close>.\<close>

definition squares :: "nat \<Rightarrow> (nat \<times> nat) list" where
  "squares n = concat (map (\<lambda>i. map (\<lambda>j. (i, j)) [0..<n]) [0..<n])"

definition can_move_to :: "piece \<Rightarrow> board \<Rightarrow> i32 \<Rightarrow> i32 \<Rightarrow> bool" where
  "can_move_to p b x y =
     (\<not> list_ex (\<lambda>(i, j). p_cells p ! i ! j \<noteq> None \<and> occupied b (x + int i) (y + int j)) (squares 8))"

definition move_to :: "piece \<Rightarrow> board \<Rightarrow> i32 \<Rightarrow> i32 \<Rightarrow> bool \<times> piece" where
  "move_to p b x y =
     (if can_move_to p b x y then (True, p\<lparr>p_x := x, p_y := y\<rparr>) else (False, p))"

subsection \<open>Rotating\<close>

definition can_rotate :: "piece \<Rightarrow> board \<Rightarrow> i32 \<Rightarrow> i32 \<Rightarrow> bool" where
  "can_rotate p b x y =
     (if p_rot p = 0 then False
      else \<not> list_ex (\<lambda>(i, j). p_cells p ! (p_rot p - 1 - j) ! i \<noteq> None
          \<and> occupied b (x + int i) (y + int j)) (squares (p_rot p)))"

definition turn_orientation :: "bool \<Rightarrow> piece \<Rightarrow> piece" where
  "turn_orientation reverse p =
     p\<lparr>p_orientation :=
        (if reverse then (p_orientation p - 1 + p_orientations p) smod p_orientations p
         else (p_orientation p + 1) smod p_orientations p)\<rparr>"

definition rot_src :: "nat \<Rightarrow> bool \<Rightarrow> nat \<Rightarrow> nat \<Rightarrow> nat \<times> nat" where
  "rot_src rot reverse i j = (if reverse then (j, rot - 1 - i) else (rot - 1 - j, i))"

definition rot_map :: "nat \<Rightarrow> bool \<Rightarrow> shape \<Rightarrow> nat \<Rightarrow> nat \<Rightarrow> cell option" where
  "rot_map rot reverse cs i j = (let (u, v) = rot_src rot reverse i j in cs ! u ! v)"

definition rotate_generic :: "piece \<Rightarrow> board \<Rightarrow> bool \<Rightarrow> bool \<times> piece" where
  "rotate_generic p b reverse =
     (if p_rot p = 0 then (False, p)
      else let m = rot_map (p_rot p) reverse (p_cells p) in
        if list_ex (\<lambda>(i, j). m i j \<noteq> None \<and> occupied b (p_x p + int i) (p_y p + int j)) (squares (p_rot p))
        then (False, p)
        else (True, turn_orientation reverse
          (p\<lparr>p_cells := fold (\<lambda>(i, j). put i j (m i j)) (squares (p_rot p)) (p_cells p)\<rparr>)))"

text \<open>\<open>cells[d] = cells[s]; cells[s] = None\<close>\<close>

definition shift_cell :: "(nat \<times> nat) \<times> (nat \<times> nat) \<Rightarrow> shape \<Rightarrow> shape" where
  "shift_cell m cs =
     (let ((di, dj), (si, sj)) = m in put si sj None (put di dj (cs ! si ! sj) cs))"

definition blocked :: "board \<Rightarrow> piece \<Rightarrow> (nat \<times> nat) list \<Rightarrow> bool" where
  "blocked b p tests = list_ex (\<lambda>(i, j). occupied b (p_x p + int i) (p_y p + int j)) tests"

definition next_turn :: "piece \<Rightarrow> bool \<Rightarrow> i32" where
  "next_turn p reverse =
     (if reverse then (p_state p - 1 + p_orientations p) smod p_orientations p
      else (p_state p + 1) smod p_orientations p)"

type_synonym arm = "(nat \<times> nat) list \<times> ((nat \<times> nat) \<times> (nat \<times> nat)) list"

definition wall_arm :: "i32 \<Rightarrow> bool \<Rightarrow> arm" where
  "wall_arm new_state reverse =
    (if new_state = 0 then
     (if \<not> reverse then
       ([(0, 2), (3, 1)],
        [((0, 2), (1, 0)), ((3, 1), (2, 3))])
      else
       ([(0, 1), (3, 2)],
        [((0, 1), (1, 3)), ((3, 2), (2, 0))]))
    else if new_state = 1 then
     (if \<not> reverse then
       ([(1, 3), (2, 0)],
        [((1, 3), (0, 1)), ((2, 0), (3, 2))])
      else
       ([(0, 2), (3, 1)],
        [((0, 2), (2, 3)), ((3, 1), (1, 0))]))
    else if new_state = 2 then
     (if \<not> reverse then
       ([(2, 3), (1, 0)],
        [((2, 3), (0, 2)), ((1, 0), (3, 1))])
      else
       ([(2, 0), (1, 3)],
        [((2, 0), (0, 1)), ((1, 3), (3, 2))]))
    else if new_state = 3 then
     (if \<not> reverse then
       ([(0, 1), (3, 2)],
        [((0, 1), (2, 0)), ((3, 2), (1, 3))])
      else
       ([(1, 0), (2, 3)],
        [((1, 0), (0, 2)), ((2, 3), (3, 1))]))
    else ([], []))"

definition rotate_wall :: "piece \<Rightarrow> board \<Rightarrow> bool \<Rightarrow> bool \<times> piece" where
  "rotate_wall p b reverse =
     (let new_state = next_turn p reverse; (tests, moves) = wall_arm new_state reverse in
      if blocked b p tests then (False, p)
      else (True, turn_orientation reverse
        (p\<lparr>p_cells := fold shift_cell moves (p_cells p), p_state := new_state\<rparr>)))"

definition star_arm :: "i32 \<Rightarrow> arm" where
  "star_arm state =
     (if state = 0 then
       ([(0, 0), (2, 0), (0, 2), (2, 2)],
        [((0, 0), (1, 0)), ((2, 0), (2, 1)), ((0, 2), (0, 1)), ((2, 2), (1, 2))])
      else
       ([(1, 0), (0, 1), (1, 2), (2, 1)],
        [((1, 0), (0, 0)), ((0, 1), (2, 0)), ((1, 2), (0, 2)), ((2, 1), (2, 2))]))"

definition rotate_star :: "piece \<Rightarrow> board \<Rightarrow> bool \<Rightarrow> bool \<times> piece" where
  "rotate_star p b reverse =
     (let (tests, moves) = star_arm (p_state p) in
      if blocked b p tests then (False, p)
      else (True, p\<lparr>p_cells := fold shift_cell moves (p_cells p), p_state := (p_state p + 1) smod 2\<rparr>))"

definition weird_arm :: "i32 \<Rightarrow> bool \<Rightarrow> arm" where
  "weird_arm new_state reverse =
    (if new_state = 0 then
     (if \<not> reverse then
       ([(1, 0), (1, 1), (2, 2), (2, 3)],
        [((1, 0), (2, 0)), ((1, 1), (2, 1)), ((2, 2), (1, 2)), ((2, 3), (1, 3))])
      else
       ([(1, 0), (2, 3)],
        [((1, 0), (0, 0)), ((2, 3), (3, 3))]))
    else if new_state = 1 then
     (if \<not> reverse then
       ([(0, 0), (3, 3)],
        [((0, 0), (1, 0)), ((3, 3), (2, 3))])
      else
       ([(0, 0), (3, 3)],
        [((0, 0), (0, 1)), ((3, 3), (3, 2))]))
    else if new_state = 2 then
     (if \<not> reverse then
       ([(0, 1), (3, 2)],
        [((0, 1), (0, 0)), ((3, 2), (3, 3))])
      else
       ([(0, 1), (1, 1), (2, 2), (3, 2)],
        [((0, 1), (0, 2)), ((1, 1), (1, 2)), ((2, 2), (2, 1)), ((3, 2), (3, 1))]))
    else if new_state = 3 then
     (if \<not> reverse then
       ([(0, 2), (1, 2), (2, 1), (3, 1)],
        [((0, 2), (0, 1)), ((1, 2), (1, 1)), ((2, 1), (2, 2)), ((3, 1), (3, 2))])
      else
       ([(3, 1), (0, 2)],
        [((3, 1), (3, 0)), ((0, 2), (0, 3))]))
    else if new_state = 4 then
     (if \<not> reverse then
       ([(3, 0), (0, 3)],
        [((3, 0), (3, 1)), ((0, 3), (0, 2))])
      else
       ([(3, 0), (0, 3)],
        [((3, 0), (2, 0)), ((0, 3), (1, 3))]))
    else if new_state = 5 then
     (if \<not> reverse then
       ([(2, 0), (1, 3)],
        [((2, 0), (3, 0)), ((1, 3), (0, 3))])
      else
       ([(2, 0), (2, 1), (1, 2), (1, 3)],
        [((2, 0), (1, 0)), ((2, 1), (1, 1)), ((1, 2), (2, 2)), ((1, 3), (2, 3))]))
    else ([], []))"

definition rotate_weirding :: "piece \<Rightarrow> board \<Rightarrow> bool \<Rightarrow> bool \<times> piece" where
  "rotate_weirding p b reverse =
     (let new_state = next_turn p reverse; (tests, moves) = weird_arm new_state reverse in
      if blocked b p tests then (False, p)
      else (True, turn_orientation reverse
        (p\<lparr>p_cells := fold shift_cell moves (p_cells p), p_state := new_state\<rparr>)))"

definition piece_rotate :: "piece \<Rightarrow> board \<Rightarrow> bool \<Rightarrow> bool \<times> piece" where
  "piece_rotate p b reverse =
     (case p_kind p of
        Wall \<Rightarrow> rotate_wall p b reverse
      | Star \<Rightarrow> rotate_star p b reverse
      | WeirdLong \<Rightarrow> rotate_weirding p b reverse
      | _ \<Rightarrow> rotate_generic p b reverse)"

definition piece_reset :: "piece \<Rightarrow> piece" where
  "piece_reset p =
     p\<lparr>p_cells := fold (\<lambda>(i, j). put i j None) (squares 8) (p_cells p), p_orientation := 0, p_state := 0\<rparr>"

subsection \<open>Landing\<close>

definition land :: "piece \<Rightarrow> board \<Rightarrow> board" where
  "land p b =
     (let b = fold (\<lambda>(i, j) b. case p_cells p ! i ! j of
            Some c \<Rightarrow> fill b (p_x p + int i) (p_y p + int j) c
          | None \<Rightarrow> b) (squares 8) b
      in landed b (p_x p) (p_y p))"

subsection \<open>Shapes\<close>

definition wf_shape :: "shape \<Rightarrow> bool" where
  "wf_shape cs \<longleftrightarrow> length cs = 8 \<and> (\<forall>i < 8. length (cs ! i) = 8)"

definition wf_piece :: "piece \<Rightarrow> bool" where
  "wf_piece p \<longleftrightarrow> wf_shape (p_cells p) \<and> p_rot p \<in> {0, 3, 4, 8} \<and>
     0 < p_orientations p \<and> 0 \<le> p_orientation p \<and> p_orientation p < p_orientations p"

lemma wf_no_cells [simp]: "wf_shape no_cells"
  by (simp add: wf_shape_def no_cells_def)

lemma wf_put [simp]: "wf_shape cs \<Longrightarrow> wf_shape (put i j c cs)"
  by (cases "i < 8") (auto simp: wf_shape_def put_def nth_list_update list_update_beyond)

lemma put_nth:
  assumes "wf_shape cs" "i < 8" "j < 8" "u < 8" "v < 8"
  shows "put i j c cs ! u ! v = (if u = i \<and> v = j then c else cs ! u ! v)"
  using assms by (auto simp: wf_shape_def put_def nth_list_update)

lemma set_squares [simp]: "set (squares n) = {..<n} \<times> {..<n}"
  by (auto simp: squares_def)

lemma distinct_squares [simp]: "distinct (squares n)"
proof -
  have "distinct (concat (map (\<lambda>i. map (\<lambda>j. (i, j)) [0..<m]) is))" if "distinct is" for "is" :: "nat list" and m
    using that by (induction "is") (auto simp: distinct_map inj_on_def)
  then show ?thesis by (simp add: squares_def)
qed

lemma fold_put:
  assumes "wf_shape cs" "\<forall>s \<in> set ss. fst s < 8 \<and> snd s < 8"
  shows "wf_shape (fold (\<lambda>(i, j). put i j (m i j)) ss cs)"
    and "u < 8 \<Longrightarrow> v < 8 \<Longrightarrow> fold (\<lambda>(i, j). put i j (m i j)) ss cs ! u ! v
      = (if (u, v) \<in> set ss then m u v else cs ! u ! v)"
proof -
  have "wf_shape (fold (\<lambda>(i, j). put i j (m i j)) ss cs) \<and>
    (\<forall>u < 8. \<forall>v < 8. fold (\<lambda>(i, j). put i j (m i j)) ss cs ! u ! v
      = (if (u, v) \<in> set ss then m u v else cs ! u ! v))"
    using assms
  proof (induction ss arbitrary: cs)
    case (Cons s ss)
    then show ?case by (cases s) (auto simp: put_nth)
  qed simp
  then show "wf_shape (fold (\<lambda>(i, j). put i j (m i j)) ss cs)"
    "u < 8 \<Longrightarrow> v < 8 \<Longrightarrow> fold (\<lambda>(i, j). put i j (m i j)) ss cs ! u ! v
      = (if (u, v) \<in> set ss then m u v else cs ! u ! v)"
    by blast+
qed

lemma shape_eqI:
  assumes "wf_shape cs" "wf_shape ds" "\<And>i j. i < 8 \<Longrightarrow> j < 8 \<Longrightarrow> cs ! i ! j = ds ! i ! j"
  shows "cs = ds"
proof (rule nth_equalityI)
  show "length cs = length ds" using assms(1,2) by (simp add: wf_shape_def)
  fix i assume "i < length cs"
  then have i: "i < 8" using assms(1) by (simp add: wf_shape_def)
  show "cs ! i = ds ! i"
    by (rule nth_equalityI) (use assms i in \<open>auto simp: wf_shape_def\<close>)
qed

lemma kind_from_id_id [simp]: "kind_from_id (kind_id k) = Some k"
  by (cases k) (simp_all add: kind_from_id_def bt_const)

lemma kind_id_range: "1 \<le> kind_id k" "kind_id k \<le> 18"
  by (cases k; simp add: bt_const)+

lemma kind_from_id_eq: "1 \<le> i \<Longrightarrow> i \<le> 18 \<Longrightarrow> \<exists>k. kind_from_id i = Some k"
  by (simp add: kind_from_id_def bt_const) presburger

lemma kind_from_id_SomeD: "kind_from_id i = Some k \<Longrightarrow> i = kind_id k"
  by (auto simp: kind_from_id_def split: if_splits)

subsection \<open>Fitting\<close>

lemma can_move_to_iff:
  "can_move_to p b x y \<longleftrightarrow>
    (\<forall>i < 8. \<forall>j < 8. p_cells p ! i ! j \<noteq> None \<longrightarrow> \<not> occupied b (x + int i) (y + int j))"
proof -
  have "can_move_to p b x y \<longleftrightarrow> (\<forall>s \<in> {..<8} \<times> {..<8}.
      p_cells p ! fst s ! snd s \<noteq> None \<longrightarrow> \<not> occupied b (x + int (fst s)) (y + int (snd s)))"
    unfolding can_move_to_def list_ex_iff set_squares split_beta by blast
  then show ?thesis by (simp only: Ball_def mem_Times_iff lessThan_iff split_paired_All fst_conv snd_conv) metis
qed

lemma move_to_fst: "fst (move_to p b x y) = can_move_to p b x y"
  by (simp add: move_to_def)

lemma move_to_True: "can_move_to p b x y \<Longrightarrow> move_to p b x y = (True, p\<lparr>p_x := x, p_y := y\<rparr>)"
  and move_to_False: "\<not> can_move_to p b x y \<Longrightarrow> move_to p b x y = (False, p)"
  by (simp_all add: move_to_def)

subsection \<open>Rotation\<close>

text \<open>What a rotation may change, and that the new cells are where the board was tested.\<close>

definition same_spot :: "piece \<Rightarrow> piece \<Rightarrow> bool" where
  "same_spot p p' \<longleftrightarrow> p_kind p' = p_kind p \<and> p_x p' = p_x p \<and> p_y p' = p_y p \<and>
     p_color p' = p_color p \<and> p_rot p' = p_rot p \<and> p_orientations p' = p_orientations p"

lemma same_spot_refl [simp]: "same_spot p p"
  by (simp add: same_spot_def)

lemma turn_orientation_fields [simp]:
  "p_cells (turn_orientation r p) = p_cells p" "p_state (turn_orientation r p) = p_state p"
  "same_spot p (turn_orientation r p)"
  by (simp_all add: turn_orientation_def same_spot_def)

lemma smod_range: "0 < n \<Longrightarrow> 0 \<le> k \<Longrightarrow> 0 \<le> k smod n \<and> k smod n < (n :: int)"
  by (cases "k = 0") (auto simp: smod_int_alt_def)

lemma smod_mod: "0 < n \<Longrightarrow> 0 \<le> k \<Longrightarrow> k smod n = k mod (n :: int)"
  by (cases "k = 0") (auto simp: smod_int_alt_def)

lemma wf_turn_orientation: "wf_piece p \<Longrightarrow> wf_piece (turn_orientation r p)"
  using smod_range [of "p_orientations p" "p_orientation p - 1 + p_orientations p"]
    smod_range [of "p_orientations p" "p_orientation p + 1"]
  by (auto simp: wf_piece_def turn_orientation_def)

lemma shift_cell_law:
  assumes "wf_shape cs" "fst d < 8" "snd d < 8" "fst s < 8" "snd s < 8"
  shows "wf_shape (shift_cell (d, s) cs)"
    and "u < 8 \<Longrightarrow> v < 8 \<Longrightarrow> shift_cell (d, s) cs ! u ! v =
      (if (u, v) = s then None else if (u, v) = d then cs ! fst s ! snd s else cs ! u ! v)"
  using assms by (cases d; cases s; auto simp: shift_cell_def put_nth)+

definition arm_ok :: "arm \<Rightarrow> bool" where
  "arm_ok a \<longleftrightarrow> (\<forall>(d, s) \<in> set (snd a). d \<in> set (fst a) \<and> fst d < 8 \<and> snd d < 8 \<and> fst s < 8 \<and> snd s < 8)"

lemma wall_arm_ok: "arm_ok (wall_arm s r)"
  by (simp add: wall_arm_def arm_ok_def)

lemma star_arm_ok: "arm_ok (star_arm s)"
  by (simp add: star_arm_def arm_ok_def)

lemma weird_arm_ok: "arm_ok (weird_arm s r)"
  by (simp add: weird_arm_def arm_ok_def)

lemma fold_shift:
  assumes "wf_shape cs"
    and "\<forall>(d, s) \<in> set ms. d \<in> T \<and> fst d < 8 \<and> snd d < 8 \<and> fst s < 8 \<and> snd s < 8"
  shows "wf_shape (fold shift_cell ms cs)"
    and "u < 8 \<Longrightarrow> v < 8 \<Longrightarrow> fold shift_cell ms cs ! u ! v \<noteq> None \<Longrightarrow> cs ! u ! v \<noteq> None \<or> (u, v) \<in> T"
proof -
  have "wf_shape (fold shift_cell ms cs) \<and>
    (\<forall>u < 8. \<forall>v < 8. fold shift_cell ms cs ! u ! v \<noteq> None \<longrightarrow> cs ! u ! v \<noteq> None \<or> (u, v) \<in> T)"
    using assms
  proof (induction ms arbitrary: cs)
    case (Cons m ms)
    obtain d s where m: "m = (d, s)" by (cases m)
    have ds: "d \<in> T" "fst d < 8" "snd d < 8" "fst s < 8" "snd s < 8"
      and rest: "\<forall>(d, s) \<in> set ms. d \<in> T \<and> fst d < 8 \<and> snd d < 8 \<and> fst s < 8 \<and> snd s < 8"
      using Cons.prems(2) m by auto
    note one = shift_cell_law [OF Cons.prems(1) ds(2-5), folded m]
    have IH: "wf_shape (fold shift_cell ms (shift_cell m cs)) \<and>
      (\<forall>u < 8. \<forall>v < 8. fold shift_cell ms (shift_cell m cs) ! u ! v \<noteq> None \<longrightarrow>
        shift_cell m cs ! u ! v \<noteq> None \<or> (u, v) \<in> T)"
      by (rule Cons.IH [OF one(1) rest])
    have "shift_cell m cs ! u ! v \<noteq> None \<longrightarrow> cs ! u ! v \<noteq> None \<or> (u, v) \<in> T" if "u < 8" "v < 8" for u v
      using one(2) [OF that] ds(1) by auto
    with IH show ?case by (simp del: not_None_eq) blast
  qed simp
  then show "wf_shape (fold shift_cell ms cs)"
    "u < 8 \<Longrightarrow> v < 8 \<Longrightarrow> fold shift_cell ms cs ! u ! v \<noteq> None \<Longrightarrow> cs ! u ! v \<noteq> None \<or> (u, v) \<in> T"
    by blast+
qed

subsection \<open>The generic rotation\<close>

definition turn_shape :: "nat \<Rightarrow> bool \<Rightarrow> shape \<Rightarrow> shape" where
  "turn_shape rot r cs = fold (\<lambda>(i, j). put i j (rot_map rot r cs i j)) (squares rot) cs"

lemma turn_shape_law:
  assumes "wf_shape cs" "rot \<le> 8"
  shows "wf_shape (turn_shape rot r cs)"
    and "i < 8 \<Longrightarrow> j < 8 \<Longrightarrow> turn_shape rot r cs ! i ! j =
      (if i < rot \<and> j < rot then rot_map rot r cs i j else cs ! i ! j)"
proof -
  have "\<forall>s \<in> set (squares rot). fst s < 8 \<and> snd s < 8" using assms(2) by auto
  note law = fold_put [OF assms(1) this, where m = "rot_map rot r cs", folded turn_shape_def]
  show "wf_shape (turn_shape rot r cs)" by (rule law(1))
  show "i < 8 \<Longrightarrow> j < 8 \<Longrightarrow> turn_shape rot r cs ! i ! j =
      (if i < rot \<and> j < rot then rot_map rot r cs i j else cs ! i ! j)"
    using law(2) by (simp add: mem_Times_iff)
qed

lemma turn_shape_inverse:
  assumes "wf_shape cs" "rot \<le> 8"
  shows "turn_shape rot (\<not> r) (turn_shape rot r cs) = cs"
proof (rule shape_eqI)
  note one = turn_shape_law [OF assms]
    and two = turn_shape_law [OF turn_shape_law(1) [OF assms] assms(2)]
  show "wf_shape (turn_shape rot (\<not> r) (turn_shape rot r cs))" by (rule two(1))
  show "wf_shape cs" by (rule assms(1))
  fix i j :: nat assume ij: "i < 8" "j < 8"
  show "turn_shape rot (\<not> r) (turn_shape rot r cs) ! i ! j = cs ! i ! j"
  proof (cases "i < rot \<and> j < rot")
    case True
    then have "rot - 1 - j < 8" "rot - 1 - i < 8" "rot - 1 - j < rot" "rot - 1 - i < rot" using assms(2) by auto
    then show ?thesis using True ij by (cases r) (auto simp: two(2) rot_map_def rot_src_def one(2))
  next
    case False
    then show ?thesis using ij by (auto simp: two(2) one(2))
  qed
qed

lemma turn_shape_four:
  assumes "wf_shape cs" "rot \<le> 8"
  shows "turn_shape rot r (turn_shape rot r (turn_shape rot r (turn_shape rot r cs))) = cs"
proof (rule shape_eqI)
  note w1 = turn_shape_law [OF assms]
  note w2 = turn_shape_law [OF w1(1) assms(2)]
  note w3 = turn_shape_law [OF w2(1) assms(2)]
  note w4 = turn_shape_law [OF w3(1) assms(2)]
  show "wf_shape (turn_shape rot r (turn_shape rot r (turn_shape rot r (turn_shape rot r cs))))" by (rule w4(1))
  show "wf_shape cs" by (rule assms(1))
  fix i j :: nat assume ij: "i < 8" "j < 8"
  show "turn_shape rot r (turn_shape rot r (turn_shape rot r (turn_shape rot r cs))) ! i ! j = cs ! i ! j"
  proof (cases "i < rot \<and> j < rot")
    case True
    then have "rot - 1 - j < 8" "rot - 1 - i < 8" "rot - 1 - j < rot" "rot - 1 - i < rot"
      "rot - 1 - (rot - 1 - i) = i" "rot - 1 - (rot - 1 - j) = j" using assms(2) by auto
    then show ?thesis using True ij by (cases r) (auto simp: w4(2) w3(2) w2(2) w1(2) rot_map_def rot_src_def)
  next
    case False
    then show ?thesis using ij by (auto simp: w4(2) w3(2) w2(2) w1(2))
  qed
qed

lemma rotate_generic_eq:
  "rotate_generic p b r =
    (if p_rot p = 0 \<or> (\<exists>i < p_rot p. \<exists>j < p_rot p. rot_map (p_rot p) r (p_cells p) i j \<noteq> None
        \<and> occupied b (p_x p + int i) (p_y p + int j)) then (False, p)
     else (True, turn_orientation r (p\<lparr>p_cells := turn_shape (p_rot p) r (p_cells p)\<rparr>)))"
proof -
  have "list_ex (\<lambda>(i, j). rot_map (p_rot p) r (p_cells p) i j \<noteq> None \<and> occupied b (p_x p + int i) (p_y p + int j))
      (squares (p_rot p)) \<longleftrightarrow>
    (\<exists>i < p_rot p. \<exists>j < p_rot p. rot_map (p_rot p) r (p_cells p) i j \<noteq> None \<and> occupied b (p_x p + int i) (p_y p + int j))"
    unfolding list_ex_iff set_squares split_beta by force
  then show ?thesis by (simp add: rotate_generic_def Let_def turn_shape_def)
qed

lemma wf_piece_update: "wf_piece p \<Longrightarrow> wf_shape cs \<Longrightarrow> wf_piece (p\<lparr>p_cells := cs\<rparr>)"
  "wf_piece p \<Longrightarrow> wf_shape cs \<Longrightarrow> wf_piece (p\<lparr>p_cells := cs, p_state := s\<rparr>)"
  by (simp_all add: wf_piece_def)

lemma wf_piece_cells: "wf_piece p \<Longrightarrow> wf_shape (p_cells p)" "wf_piece p \<Longrightarrow> p_rot p \<le> 8"
  by (auto simp: wf_piece_def)

subsection \<open>Every rotation\<close>

text \<open>
  One description of the four routines: either nothing changes, or the cells of the new shape are
  cells of the old one or squares that the board was tested at and found free.
\<close>

lemma piece_rotate_cases:
  assumes "wf_piece p"
  obtains (blocked) "piece_rotate p b r = (False, p)"
  | (turned) cs q where "piece_rotate p b r = (True, q)" "wf_piece q" "same_spot p q" "p_cells q = cs"
      "\<And>i j. i < 8 \<Longrightarrow> j < 8 \<Longrightarrow> cs ! i ! j \<noteq> None \<Longrightarrow>
        p_cells p ! i ! j \<noteq> None \<or> \<not> occupied b (p_x p + int i) (p_y p + int j)"
proof -
  note wf = wf_piece_cells [OF assms]
  have arm: thesis
    if q: "piece_rotate p b r = (if blocked b p T then (False, p) else (True, f (p\<lparr>p_cells := fold shift_cell M (p_cells p), p_state := s\<rparr>)))"
      and f: "\<And>q. wf_piece q \<Longrightarrow> wf_piece (f q)" "\<And>q. same_spot q (f q)" "\<And>q. p_cells (f q) = p_cells q"
      and ok: "arm_ok (T, M)" for T M f s
  proof (cases "blocked b p T")
    case True
    then show thesis using q blocked by simp
  next
    case False
    let ?cs = "fold shift_cell M (p_cells p)" and ?q = "f (p\<lparr>p_cells := fold shift_cell M (p_cells p), p_state := s\<rparr>)"
    have ms: "\<forall>(d, s) \<in> set M. d \<in> set T \<and> fst d < 8 \<and> snd d < 8 \<and> fst s < 8 \<and> snd s < 8"
      using ok by (simp add: arm_ok_def)
    note shift = fold_shift [OF wf(1) ms]
    have free: "\<not> occupied b (p_x p + int i) (p_y p + int j)" if "(i, j) \<in> set T" for i j
      using False that by (auto simp: blocked_def list_ex_iff)
    show thesis
    proof (rule turned [of ?q ?cs])
      show "piece_rotate p b r = (True, ?q)" using q False by simp
      show "wf_piece ?q" by (intro f(1) wf_piece_update assms shift(1))
      show "same_spot p ?q" using f(2) [of "p\<lparr>p_cells := ?cs, p_state := s\<rparr>"] by (simp add: same_spot_def)
      show "p_cells ?q = ?cs" by (simp add: f(3))
      show "p_cells p ! i ! j \<noteq> None \<or> \<not> occupied b (p_x p + int i) (p_y p + int j)"
        if "i < 8" "j < 8" "?cs ! i ! j \<noteq> None" for i j
        using shift(2) [OF that] free by blast
    qed
  qed
  have generic: thesis if q: "piece_rotate p b r = rotate_generic p b r"
  proof (cases "fst (rotate_generic p b r)")
    case False
    then show thesis using q blocked by (auto simp: rotate_generic_eq split: if_splits)
  next
    case True
    let ?cs = "turn_shape (p_rot p) r (p_cells p)" and ?q = "turn_orientation r (p\<lparr>p_cells := turn_shape (p_rot p) r (p_cells p)\<rparr>)"
    note turn = turn_shape_law [OF wf, where r = r]
    have nb: "\<not> (p_rot p = 0 \<or> (\<exists>i < p_rot p. \<exists>j < p_rot p. rot_map (p_rot p) r (p_cells p) i j \<noteq> None
        \<and> occupied b (p_x p + int i) (p_y p + int j)))" (is "\<not> ?P")
    proof
      assume ?P
      then show False using True unfolding rotate_generic_eq by (simp only: if_True fst_conv)
    qed
    then have free: "rot_map (p_rot p) r (p_cells p) i j \<noteq> None \<Longrightarrow> \<not> occupied b (p_x p + int i) (p_y p + int j)"
      if "i < p_rot p" "j < p_rot p" for i j
      using that by blast
    show thesis
    proof (rule turned [of ?q ?cs])
      show "piece_rotate p b r = (True, ?q)" unfolding q rotate_generic_eq using nb by (simp only: if_False)
      show "wf_piece ?q" by (intro wf_turn_orientation wf_piece_update assms turn(1))
      show "same_spot p ?q" by (simp add: same_spot_def turn_orientation_def)
      show "p_cells ?q = ?cs" by simp
      show "p_cells p ! i ! j \<noteq> None \<or> \<not> occupied b (p_x p + int i) (p_y p + int j)"
        if "i < 8" "j < 8" "?cs ! i ! j \<noteq> None" for i j
        using that free by (auto simp: turn(2) split: if_splits)
    qed
  qed
  show thesis
  proof (cases "p_kind p")
    case Wall
    then show thesis
      by (intro arm [where T = "fst (wall_arm (next_turn p r) r)" and M = "snd (wall_arm (next_turn p r) r)"
            and f = "turn_orientation r" and s = "next_turn p r"])
        (simp_all add: piece_rotate_def rotate_wall_def Let_def split_beta wf_turn_orientation wall_arm_ok)
  next
    case Star
    then show thesis
      by (intro arm [where T = "fst (star_arm (p_state p))" and M = "snd (star_arm (p_state p))"
            and f = "\<lambda>q. q" and s = "(p_state p + 1) smod 2"])
        (simp_all add: piece_rotate_def rotate_star_def Let_def split_beta star_arm_ok)
  next
    case WeirdLong
    then show thesis
      by (intro arm [where T = "fst (weird_arm (next_turn p r) r)" and M = "snd (weird_arm (next_turn p r) r)"
            and f = "turn_orientation r" and s = "next_turn p r"])
        (simp_all add: piece_rotate_def rotate_weirding_def Let_def split_beta wf_turn_orientation weird_arm_ok)
  qed (use generic in \<open>simp_all add: piece_rotate_def\<close>)
qed

lemma piece_rotate_wf:
  "wf_piece p \<Longrightarrow> wf_piece (snd (piece_rotate p b r)) \<and> same_spot p (snd (piece_rotate p b r))"
  by (cases rule: piece_rotate_cases [of p b r]) auto

lemma piece_rotate_fits:
  assumes "wf_piece p" "can_move_to p b (p_x p) (p_y p)"
  shows "can_move_to (snd (piece_rotate p b r)) b (p_x p) (p_y p)"
  using assms(1)
proof (cases rule: piece_rotate_cases [of p b r])
  case blocked
  then show ?thesis using assms(2) by simp
next
  case (turned cs q)
  then show ?thesis using assms(2) unfolding can_move_to_iff by (metis snd_conv)
qed

subsection \<open>The hand-built cycles\<close>

text \<open>The shapes of the three kinds with arms of their own, per state, from the constructed one.\<close>

fun arm_shape :: "piece_kind \<Rightarrow> nat \<Rightarrow> shape" where
  "arm_shape k 0 = p_cells (construct k 0 0 1)"
| "arm_shape k (Suc n) = fold shift_cell
     (snd (if k = Wall then wall_arm (int (Suc n)) False
           else if k = Star then star_arm (int n)
           else weird_arm (int (Suc n)) False)) (arm_shape k n)"

text \<open>
  Going from state \<open>s\<close> to the next one and back: the arms undo each other, and each arm only tests
  squares that the shape it leads back to fills.
\<close>

definition arm_pair_ok :: "piece_kind \<Rightarrow> nat \<Rightarrow> nat \<Rightarrow> arm \<Rightarrow> arm \<Rightarrow> bool" where
  "arm_pair_ok k s n fwd back \<longleftrightarrow>
     fold shift_cell (snd fwd) (arm_shape k s) = arm_shape k n \<and>
     fold shift_cell (snd back) (arm_shape k n) = arm_shape k s \<and>
     list_all (\<lambda>(i, j). i < 8 \<and> j < 8 \<and> arm_shape k s ! i ! j \<noteq> None) (fst back) \<and>
     list_all (\<lambda>(i, j). i < 8 \<and> j < 8 \<and> arm_shape k n ! i ! j \<noteq> None) (fst fwd)"

lemma wall_cycle:
  "list_all (\<lambda>s. arm_pair_ok Wall s ((s + 1) mod 4)
      (wall_arm (int ((s + 1) mod 4)) False) (wall_arm (int s) True)) [0..<4]"
  by code_simp

lemma star_cycle:
  "list_all (\<lambda>s. arm_pair_ok Star s ((s + 1) mod 2) (star_arm (int s)) (star_arm (int ((s + 1) mod 2)))) [0..<2]"
  by code_simp

lemma weird_cycle:
  "list_all (\<lambda>s. arm_pair_ok WeirdLong s ((s + 1) mod 6)
      (weird_arm (int ((s + 1) mod 6)) False) (weird_arm (int s) True)) [0..<6]"
  by code_simp

text \<open>The pieces in play: what construction and rotation give. Every one has a cell.\<close>

definition arm_count :: "piece_kind \<Rightarrow> int" where
  "arm_count k = (if k = Star then 2 else if k = WeirdLong then 6 else 4)"

definition solid :: "piece \<Rightarrow> bool" where
  "solid p \<longleftrightarrow> (\<exists>i < 8. \<exists>j < 8. p_cells p ! i ! j \<noteq> None)"

definition in_cycle :: "piece \<Rightarrow> bool" where
  "in_cycle p \<longleftrightarrow> wf_piece p \<and> solid p \<and> p_orientations p = arm_count (p_kind p) \<and>
     (p_kind p \<in> {Wall, Star, WeirdLong} \<longrightarrow>
       0 \<le> p_state p \<and> p_state p < p_orientations p \<and> p_cells p = arm_shape (p_kind p) (nat (p_state p))) \<and>
     (p_kind p \<in> {Wall, WeirdLong} \<longrightarrow> p_orientation p = p_state p)"

lemma wf_construct: "wf_piece (construct k x y d)"
proof -
  have "wf_shape (fold (\<lambda>s cs. put (fst s) (snd s) c cs) ss cs)" if "wf_shape cs" for c ss cs
    using that by (induction ss arbitrary: cs) simp_all
  from this [OF wf_no_cells] show ?thesis
    by (cases k) (simp_all add: construct_def construct_data_def wf_piece_def)
qed

lemma fold_put_some:
  assumes "wf_shape cs" "\<forall>s \<in> set ss. fst s < 8 \<and> snd s < 8" "u < 8" "v < 8"
    and "cs ! u ! v \<noteq> None \<or> (u, v) \<in> set ss"
  shows "fold (\<lambda>s cs. put (fst s) (snd s) (Some c) cs) ss cs ! u ! v \<noteq> None"
  using assms
proof (induction ss arbitrary: cs)
  case (Cons s ss)
  show ?case unfolding fold_simps
    by (rule Cons.IH) (use Cons.prems in \<open>auto simp: put_nth\<close>)
qed simp

lemma construct_solid: "solid (construct k x y d)"
proof -
  obtain c ss col rot ori st where data: "construct_data k d = (c, ss, col, rot, ori, st)" by (metis prod_cases6)
  have ss: "\<forall>s \<in> set ss. fst s < 8 \<and> snd s < 8" "ss \<noteq> []"
    using data by (cases k; auto simp: construct_data_def)+
  then have "hd ss \<in> set ss" by simp
  moreover obtain u v where "hd ss = (u, v)" by fastforce
  ultimately have uv: "(u, v) \<in> set ss" "u < 8" "v < 8" using ss(1) by auto
  then have "p_cells (construct k x y d) ! u ! v \<noteq> None"
    using fold_put_some [OF wf_no_cells ss(1) uv(2,3)] by (simp add: construct_def data)
  then show ?thesis unfolding solid_def using uv by blast
qed

lemma arm_shapes_solid:
  "list_all (\<lambda>n. list_ex (\<lambda>(i, j). \<not> Option.is_none (arm_shape Wall n ! i ! j)) (squares 8)) [0..<4]"
  "list_all (\<lambda>n. list_ex (\<lambda>(i, j). \<not> Option.is_none (arm_shape Star n ! i ! j)) (squares 8)) [0..<2]"
  "list_all (\<lambda>n. list_ex (\<lambda>(i, j). \<not> Option.is_none (arm_shape WeirdLong n ! i ! j)) (squares 8)) [0..<6]"
  by code_simp+

lemma arm_shape_solid:
  assumes "k \<in> {Wall, Star, WeirdLong}" "n < nat (arm_count k)" "p_cells p = arm_shape k n"
  shows "solid p"
proof -
  have "list_ex (\<lambda>(i, j). \<not> Option.is_none (arm_shape k n ! i ! j)) (squares 8)"
    using assms(1,2) arm_shapes_solid by (auto simp only: list_all_iff arm_count_def set_upt)
      (simp_all add: atLeastLessThan_iff)
  then show ?thesis
    unfolding solid_def assms(3) list_ex_iff set_squares Option.is_none_def by auto
qed

lemma turn_shape_solid:
  assumes "wf_piece p" "solid p" "p_cells q = turn_shape (p_rot p) r (p_cells p)"
  shows "solid q"
proof -
  have rot: "p_rot p \<le> 8" using assms(1) by (auto simp: wf_piece_def)
  obtain i j where ij: "i < 8" "j < 8" "p_cells p ! i ! j \<noteq> None" using assms(2) by (auto simp: solid_def)
  note law = turn_shape_law(2) [OF wf_piece_cells(1) [OF assms(1)] rot, of _ _ r]
  show ?thesis
  proof (cases "i < p_rot p \<and> j < p_rot p")
    case True
    define u where "u = (if r then p_rot p - 1 - j else j)"
    define v where "v = (if r then i else p_rot p - 1 - i)"
    have uv: "u < p_rot p" "v < p_rot p" "rot_src (p_rot p) r u v = (i, j)"
      using True by (auto simp: u_def v_def rot_src_def)
    then have "p_cells q ! u ! v = p_cells p ! i ! j" using rot by (simp add: assms(3) law rot_map_def)
    then show ?thesis using ij(3) uv rot unfolding solid_def by (metis order_less_le_trans)
  next
    case False
    then have "p_cells q ! i ! j = p_cells p ! i ! j" using law [OF ij(1,2)] by (simp add: assms(3) if_not_P [OF False])
    then have "p_cells q ! i ! j \<noteq> None" using ij(3) by simp
    then show ?thesis unfolding solid_def using ij(1,2) by blast
  qed
qed

lemma construct_in_cycle: "in_cycle (construct k x y d)"
  using wf_construct [of k x y d] construct_solid [of k x y d]
  by (cases k) (simp_all add: in_cycle_def arm_count_def, simp_all add: construct_def construct_data_def)

lemma next_turn_range: "0 < p_orientations p \<Longrightarrow> 0 \<le> p_state p \<Longrightarrow> p_state p < p_orientations p \<Longrightarrow>
    next_turn p False = (p_state p + 1) mod p_orientations p \<and>
    next_turn p True = (p_state p - 1) mod p_orientations p"
  by (simp add: next_turn_def smod_mod)

lemma in_cycle_move: "in_cycle p \<Longrightarrow> in_cycle (p\<lparr>p_x := x, p_y := y\<rparr>)"
  by (auto simp: in_cycle_def wf_piece_def solid_def)

definition moved_on :: "bool \<Rightarrow> piece \<Rightarrow> piece \<Rightarrow> bool" where
  "moved_on r p q \<longleftrightarrow> same_spot p q \<and> in_cycle q \<and> (p_kind p \<in> {Wall, Star, WeirdLong} \<longrightarrow>
       p_state q = (if r then p_state p - 1 else p_state p + 1) mod p_orientations p) \<and>
     (p_kind p \<notin> {Wall, Star, WeirdLong} \<longrightarrow>
       p_state q = p_state p \<and> p_cells q = turn_shape (p_rot p) r (p_cells p)) \<and>
     (p_kind p \<noteq> Star \<longrightarrow> p_orientation q = (if r then p_orientation p - 1 else p_orientation p + 1) mod p_orientations p) \<and>
     (p_kind p = Star \<longrightarrow> p_orientation q = p_orientation p)"

lemma moved_onD:
  assumes "moved_on r p q"
  shows "same_spot p q" "in_cycle q"
    "p_kind p \<in> {Wall, Star, WeirdLong} \<Longrightarrow>
      p_state q = (if r then p_state p - 1 else p_state p + 1) mod p_orientations p"
    "p_kind p \<notin> {Wall, Star, WeirdLong} \<Longrightarrow> p_state q = p_state p"
    "p_kind p \<notin> {Wall, Star, WeirdLong} \<Longrightarrow> p_cells q = turn_shape (p_rot p) r (p_cells p)"
    "p_kind p \<noteq> Star \<Longrightarrow>
      p_orientation q = (if r then p_orientation p - 1 else p_orientation p + 1) mod p_orientations p"
    "p_kind p = Star \<Longrightarrow> p_orientation q = p_orientation p"
  using assms unfolding moved_on_def by blast+

lemma arm_at:
  assumes "list_all P [0..<n]" "0 \<le> s" "s < int n" shows "P (nat s)"
  using assms by (auto simp: list_all_iff nat_less_iff)

text \<open>The successor state of an arm, forwards and backwards, on the tables.\<close>

lemma arm_tables:
  assumes "in_cycle p" "p_kind p \<in> {Wall, Star, WeirdLong}"
  defines "a \<equiv> \<lambda>s r. if p_kind p = Wall then wall_arm s r else if p_kind p = Star then star_arm (1 - s) else weird_arm s r"
  defines "n \<equiv> \<lambda>r. (if r then p_state p - 1 else p_state p + 1) mod p_orientations p"
  shows "fold shift_cell (snd (a (n r) r)) (p_cells p) = arm_shape (p_kind p) (nat (n r))"
    and "(i, j) \<in> set (fst (a (p_state p) (\<not> r))) \<Longrightarrow> i < 8 \<and> j < 8 \<and> p_cells p ! i ! j \<noteq> None"
proof -
  let ?k = "p_kind p" and ?s = "p_state p" and ?m = "p_orientations p"
  have m: "?m = arm_count ?k" "0 \<le> ?s" "?s < ?m" "p_cells p = arm_shape ?k (nat ?s)"
    using assms(1,2) by (auto simp: in_cycle_def)
  have pos: "0 < ?m" using m by (simp add: arm_count_def)
  have bounds: "0 \<le> n r" "n r < ?m" for r using pos by (simp_all add: n_def)
  have pair: "arm_pair_ok ?k (nat s) ((nat s + 1) mod nat ?m) (a (int ((nat s + 1) mod nat ?m)) False) (a s True)"
    if s: "0 \<le> s" "s < ?m" for s
  proof -
    consider "?k = Wall" | "?k = Star" | "?k = WeirdLong" using assms(2) by blast
    then show ?thesis
    proof cases
      case 1
      then show ?thesis using arm_at [OF wall_cycle, of s] s m by (simp add: a_def arm_count_def)
    next
      case 2
      then have "s = 0 \<or> s = 1" using s m by (auto simp: arm_count_def)
      then show ?thesis using 2 arm_at [OF star_cycle, of s] s m by (auto simp: a_def arm_count_def)
    next
      case 3
      then show ?thesis using arm_at [OF weird_cycle, of s] s m by (simp add: a_def arm_count_def)
    qed
  qed
  have nat_next: "int ((nat s + 1) mod nat ?m) = (s + 1) mod ?m" if "0 \<le> s" for s
    using that pos by (simp add: zmod_int add.commute)
  have next_nat: "(nat s + 1) mod nat ?m = nat ((s + 1) mod ?m)" if "0 \<le> s" for s
    using nat_next [OF that] by (metis nat_int)
  have fwd: "arm_pair_ok ?k (nat ?s) (nat (n False)) (a (n False) False) (a ?s True)"
    using pair [OF m(2,3)] nat_next [OF m(2)] next_nat [OF m(2)] by (simp add: n_def)
  have back_next: "(n True + 1) mod ?m = ?s" using m by (simp add: n_def mod_simps)
  have bwd: "arm_pair_ok ?k (nat (n True)) (nat ?s) (a ?s False) (a (n True) True)"
    using pair [OF bounds(1) [of True] bounds(2) [of True]] nat_next [OF bounds(1) [of True]]
      next_nat [OF bounds(1) [of True]] by (simp add: back_next)
  show "fold shift_cell (snd (a (n r) r)) (p_cells p) = arm_shape ?k (nat (n r))"
    using fwd bwd m(4) by (cases r) (simp_all add: arm_pair_ok_def)
  show "(i, j) \<in> set (fst (a ?s (\<not> r))) \<Longrightarrow> i < 8 \<and> j < 8 \<and> p_cells p ! i ! j \<noteq> None"
    using fwd bwd m(4) by (cases r) (auto simp: arm_pair_ok_def list_all_iff)
qed

text \<open>The two generic forms of a successful rotation.\<close>

definition arm_of :: "piece \<Rightarrow> bool \<Rightarrow> arm" where
  "arm_of p r =
     (if p_kind p = Wall then wall_arm (next_turn p r) r
      else if p_kind p = Star then star_arm (p_state p)
      else weird_arm (next_turn p r) r)"

lemma piece_rotate_arm:
  assumes "p_kind p \<in> {Wall, Star, WeirdLong}"
  shows "piece_rotate p b r =
    (if blocked b p (fst (arm_of p r)) then (False, p)
     else (True, (if p_kind p = Star then (\<lambda>q. q) else turn_orientation r)
       (p\<lparr>p_cells := fold shift_cell (snd (arm_of p r)) (p_cells p),
          p_state := (if p_kind p = Star then (p_state p + 1) smod 2 else next_turn p r)\<rparr>)))"
proof -
  consider "p_kind p = Wall" | "p_kind p = Star" | "p_kind p = WeirdLong" using assms by blast
  then show ?thesis
    by cases (simp_all add: piece_rotate_def rotate_wall_def rotate_star_def rotate_weirding_def arm_of_def
        Let_def split_beta)
qed

lemma piece_rotate_generic:
  "p_kind p \<notin> {Wall, Star, WeirdLong} \<Longrightarrow> piece_rotate p b r = rotate_generic p b r"
  by (cases "p_kind p") (simp_all add: piece_rotate_def)

lemma turn_orientation_value:
  "wf_piece p \<Longrightarrow> p_orientation (turn_orientation r p)
    = (if r then p_orientation p - 1 else p_orientation p + 1) mod p_orientations p"
  by (simp add: turn_orientation_def wf_piece_def smod_mod)

lemma in_cycle_next:
  assumes "in_cycle p" "p_kind p \<in> {Wall, Star, WeirdLong}"
  shows "next_turn p r = (if r then p_state p - 1 else p_state p + 1) mod p_orientations p"
    and "p_kind p = Star \<Longrightarrow> (p_state p + 1) smod 2 = (if r then p_state p - 1 else p_state p + 1) mod p_orientations p"
proof -
  have "0 < p_orientations p" "0 \<le> p_state p" "p_state p < p_orientations p"
    using assms by (auto simp: in_cycle_def wf_piece_def)
  then show "next_turn p r = (if r then p_state p - 1 else p_state p + 1) mod p_orientations p"
    using next_turn_range [of p] by (cases r) auto
  show "p_kind p = Star \<Longrightarrow> (p_state p + 1) smod 2 = (if r then p_state p - 1 else p_state p + 1) mod p_orientations p"
    using assms by (auto simp: in_cycle_def arm_count_def smod_mod) presburger+
qed

lemma arm_of_next:
  assumes "in_cycle p" "p_kind p \<in> {Wall, Star, WeirdLong}"
  shows "arm_of p r = (let s = (if r then p_state p - 1 else p_state p + 1) mod p_orientations p in
    if p_kind p = Wall then wall_arm s r else if p_kind p = Star then star_arm (1 - s) else weird_arm s r)"
proof -
  have "p_kind p = Star \<Longrightarrow> 1 - (if r then p_state p - 1 else p_state p + 1) mod p_orientations p = p_state p"
    using assms by (auto simp: in_cycle_def arm_count_def) presburger+
  then show ?thesis using in_cycle_next(1) [OF assms] by (simp add: arm_of_def Let_def)
qed

lemma rotate_moves_on:
  assumes cyc: "in_cycle p" and rot: "piece_rotate p b r = (True, q)"
  shows "moved_on r p q"
proof (cases "p_kind p \<in> {Wall, Star, WeirdLong}")
  case True
  let ?n = "(if r then p_state p - 1 else p_state p + 1) mod p_orientations p"
  have wf: "wf_piece p" "p_orientations p = arm_count (p_kind p)" using cyc by (simp_all add: in_cycle_def)
  have pos: "0 < p_orientations p" using wf by (simp add: wf_piece_def)
  have wq: "wf_piece q" using piece_rotate_wf [OF wf(1), of b r] rot by simp
  have q: "q = (if p_kind p = Star then (\<lambda>q. q) else turn_orientation r)
       (p\<lparr>p_cells := fold shift_cell (snd (arm_of p r)) (p_cells p), p_state := ?n\<rparr>)"
    using rot in_cycle_next [OF cyc True, of r] unfolding piece_rotate_arm [OF True]
    by (auto split: if_splits)
  have cells: "p_cells q = arm_shape (p_kind p) (nat ?n)"
    using arm_tables(1) [OF cyc True, of r] by (simp add: q arm_of_next [OF cyc True] Let_def)
  have kind: "p_kind q = p_kind p" "p_state q = ?n" "p_orientations q = p_orientations p"
    by (simp_all add: q turn_orientation_def)
  have frame: "same_spot p q" using piece_rotate_wf [OF wf(1), of b r] rot by simp
  have ori: "p_kind p \<noteq> Star \<Longrightarrow> p_orientation q = (if r then p_orientation p - 1 else p_orientation p + 1) mod p_orientations p"
    using wf(1) by (simp add: q turn_orientation_def wf_piece_def smod_mod)
  have ostar: "p_kind p = Star \<Longrightarrow> p_orientation q = p_orientation p" by (simp add: q)
  have "nat ?n < nat (arm_count (p_kind p))" using pos by (simp add: wf(2) nat_less_eq_zless)
  from arm_shape_solid [OF True this cells] have "solid q" .
  then have "in_cycle q"
    unfolding in_cycle_def kind using wq wf(2) pos cells ori cyc by (auto simp: in_cycle_def)
  then show ?thesis unfolding moved_on_def using frame kind ori ostar True by blast
next
  case False
  have wf: "wf_piece p" "p_orientations p = arm_count (p_kind p)" using cyc by (simp_all add: in_cycle_def)
  have wq: "wf_piece q" using piece_rotate_wf [OF wf(1), of b r] rot by simp
  have q: "q = turn_orientation r (p\<lparr>p_cells := turn_shape (p_rot p) r (p_cells p)\<rparr>)"
    using rot unfolding piece_rotate_generic [OF False] rotate_generic_eq by (auto split: if_splits)
  have ori: "p_orientation q = (if r then p_orientation p - 1 else p_orientation p + 1) mod p_orientations p"
    using wf(1) by (simp add: q turn_orientation_def wf_piece_def smod_mod)
  have "solid q"
    by (rule turn_shape_solid [OF wf(1), of _ r]) (use cyc in \<open>simp_all add: in_cycle_def q turn_orientation_def\<close>)
  then have "in_cycle q" unfolding in_cycle_def using wq wf(2) False by (simp add: q turn_orientation_def)
  moreover have "p_state q = p_state p" "p_cells q = turn_shape (p_rot p) r (p_cells p)"
    by (simp_all add: q turn_orientation_def)
  moreover have "same_spot p q" using piece_rotate_wf [OF wf(1), of b r] rot by simp
  ultimately show ?thesis unfolding moved_on_def using False ori by blast
qed

text \<open>Rotating back undoes a rotation, and can always be done.\<close>

lemma piece_rotate_in_cycle:
  assumes "in_cycle p"
  shows "in_cycle (snd (piece_rotate p b r))"
proof (cases "fst (piece_rotate p b r)")
  case True
  then show ?thesis using rotate_moves_on [OF assms] moved_onD(2) by (metis prod.collapse)
next
  case False
  have "wf_piece p" using assms by (simp add: in_cycle_def)
  then show ?thesis using assms False by (cases rule: piece_rotate_cases [of p b r]) simp_all
qed

lemma piece_eqI:
  assumes "same_spot p q" "same_spot q p'" "p_cells p' = p_cells p" "p_state p' = p_state p"
    "p_orientation p' = p_orientation p"
  shows "p' = p"
  using assms by (cases p; cases p') (simp add: same_spot_def)

lemma mod_back: "0 \<le> s \<Longrightarrow> s < m \<Longrightarrow>
    (if \<not> r then (if r then s - 1 else s + 1) mod m - 1 else (if r then s - 1 else s + 1) mod m + 1) mod m = (s :: int)"
  by (cases r) (simp_all add: mod_simps)

lemma rotate_back:
  assumes cyc: "in_cycle p" and fits: "can_move_to p b (p_x p) (p_y p)"
    and rot: "piece_rotate p b r = (True, q)"
  shows "piece_rotate q b (\<not> r) = (True, p)"
proof -
  have on: "moved_on r p q" by (rule rotate_moves_on [OF cyc rot])
  then have cq: "in_cycle q" and pos: "p_x q = p_x p" "p_y q = p_y p" "p_kind q = p_kind p" "p_rot q = p_rot p"
    "p_orientations q = p_orientations p"
    by (simp_all add: moved_on_def same_spot_def)
  have wf: "wf_shape (p_cells p)" "p_rot p \<le> 8" using cyc by (auto simp: in_cycle_def wf_piece_def)
  have back_True: "fst (piece_rotate q b (\<not> r))"
  proof (cases "p_kind p \<in> {Wall, Star, WeirdLong}")
    case True
    then have kq: "p_kind q \<in> {Wall, Star, WeirdLong}" by (simp add: pos)
    have s: "0 \<le> p_state p" "p_state p < p_orientations p" using cyc True by (auto simp: in_cycle_def)
    have st: "p_state q = (if r then p_state p - 1 else p_state p + 1) mod p_orientations p"
      using on True unfolding moved_on_def by blast
    have "(if \<not> r then p_state q - 1 else p_state q + 1) mod p_orientations q = p_state p"
      unfolding st pos by (rule mod_back [OF s])
    then have arm: "arm_of q (\<not> r) = (if p_kind p = Wall then wall_arm (p_state p) (\<not> r)
        else if p_kind p = Star then star_arm (1 - p_state p) else weird_arm (p_state p) (\<not> r))"
      unfolding arm_of_next [OF cq kq] Let_def by (simp only: pos)
    have "\<not> blocked b q (fst (arm_of q (\<not> r)))"
      using arm_tables(2) [OF cyc True, where r = r] fits
      by (auto simp: blocked_def list_ex_iff pos can_move_to_iff arm)
    then show ?thesis unfolding piece_rotate_arm [OF kq] by simp
  next
    case False
    then have kq: "p_kind q \<notin> {Wall, Star, WeirdLong}" by (simp add: pos)
    have cells: "p_cells q = turn_shape (p_rot p) r (p_cells p)" using on False by (simp add: moved_on_def)
    have r0: "p_rot p \<noteq> 0"
      using rot unfolding piece_rotate_generic [OF False] rotate_generic_eq by (auto split: if_splits)
    have "rot_map (p_rot p) (\<not> r) (turn_shape (p_rot p) r (p_cells p)) i j = p_cells p ! i ! j"
      if "i < p_rot p" "j < p_rot p" for i j
      using turn_shape_inverse [OF wf, of r] turn_shape_law(2) [OF turn_shape_law(1) [OF wf] wf(2), of i j] that wf(2)
      by (metis order.strict_trans2)
    then show ?thesis
      using fits r0 wf(2) unfolding piece_rotate_generic [OF kq] rotate_generic_eq pos cells can_move_to_iff
      by (auto simp del: not_None_eq)
  qed
  then obtain p' where p': "piece_rotate q b (\<not> r) = (True, p')" by (metis prod.collapse)
  then have on2: "moved_on (\<not> r) q p'" by (rule rotate_moves_on [OF cq])
  have "p' = p"
  proof (rule piece_eqI [of p q])
    show "same_spot p q" "same_spot q p'" using on on2 by (simp_all add: moved_on_def)
    have o: "0 \<le> p_orientation p" "p_orientation p < p_orientations p" using cyc by (auto simp: in_cycle_def wf_piece_def)
    show "p_orientation p' = p_orientation p"
    proof (cases "p_kind p = Star")
      case True
      then show ?thesis using moved_onD(7) [OF on] moved_onD(7) [OF on2] by (simp add: pos)
    next
      case False
      then have "p_orientation p' = (if \<not> r then p_orientation q - 1 else p_orientation q + 1) mod p_orientations p"
        using moved_onD(6) [OF on2] unfolding pos by blast
      then show ?thesis unfolding moved_onD(6) [OF on False] mod_back [OF o] .
    qed
    show state: "p_state p' = p_state p"
    proof (cases "p_kind p \<in> {Wall, Star, WeirdLong}")
      case True
      then have s: "0 \<le> p_state p" "p_state p < p_orientations p" using cyc by (auto simp: in_cycle_def)
      have "p_state p' = (if \<not> r then p_state q - 1 else p_state q + 1) mod p_orientations p"
        using moved_onD(3) [OF on2] True unfolding pos by blast
      then show ?thesis unfolding moved_onD(3) [OF on True] mod_back [OF s] .
    next
      case False
      then show ?thesis using moved_onD(4) [OF on] moved_onD(4) [OF on2] unfolding pos by simp
    qed
    have cp: "in_cycle p'" using on2 by (simp add: moved_on_def)
    have kp: "p_kind p' = p_kind p" using on2 by (simp add: moved_on_def same_spot_def pos)
    show "p_cells p' = p_cells p"
    proof (cases "p_kind p \<in> {Wall, Star, WeirdLong}")
      case True
      then have "p_cells p' = arm_shape (p_kind p) (nat (p_state p))" "p_cells p = arm_shape (p_kind p) (nat (p_state p))"
        using cyc cp unfolding in_cycle_def kp state by blast+
      then show ?thesis by simp
    next
      case False
      then have "p_cells p' = turn_shape (p_rot p) (\<not> r) (p_cells q)" using moved_onD(5) [OF on2] unfolding pos by blast
      then show ?thesis unfolding moved_onD(5) [OF on False] turn_shape_inverse [OF wf] .
    qed
  qed
  then show ?thesis using p' by simp
qed

subsection \<open>Landing puts the shape into the board\<close>

text \<open>The parts of a board that play reads besides the squares.\<close>

definition same_setup :: "board \<Rightarrow> board \<Rightarrow> bool" where
  "same_setup b b' \<longleftrightarrow> b_width b' = b_width b \<and> b_height b' = b_height b \<and> b_active b' = b_active b \<and>
     b_upside b' = b_upside b \<and> b_computer b' = b_computer b"

lemma same_setup_refl [simp]: "same_setup b b"
  by (simp add: same_setup_def)

lemma same_setup_trans [trans]: "same_setup a b \<Longrightarrow> same_setup b c \<Longrightarrow> same_setup a c"
  by (simp add: same_setup_def)

lemma same_cells_get:
  "b_cells b' = b_cells b \<Longrightarrow> b_width b' = b_width b \<Longrightarrow> b_height b' = b_height b \<Longrightarrow> get b' = get b"
  by (simp add: get_def in_bounds_def cell_index_def fun_eq_iff)

lemma landed_keeps:
  "same_setup b (landed b x y) \<and> b_cells (landed b x y) = b_cells b"
proof -
  let ?P = "\<lambda>b'. same_setup b b' \<and> b_cells b' = b_cells b"
  have inner: "?P (fold (\<lambda>j b'. if landed_hit b' u (x + i) (y + j)
      then b'\<lparr>b_idiot := True, b_reason := BT_BAD_MOVE\<rparr> else b') js b')" if "?P b'" for u i js b'
    by (rule fold_preserves [where P = ?P]) (use that in \<open>auto simp: same_setup_def\<close>)
  have "?P (fold (\<lambda>i b'. fold (\<lambda>j b'. if landed_hit b' u (x + i) (y + j)
      then b'\<lparr>b_idiot := True, b_reason := BT_BAD_MOVE\<rparr> else b') js b') is b)" for u js "is"
    by (rule fold_preserves [where P = ?P]) (use inner in auto)
  then show ?thesis by (simp add: landed_def Let_def same_setup_def)
qed

lemma wf_board_setup: "wf_board b \<Longrightarrow> same_setup b b' \<Longrightarrow> length (b_cells b') = length (b_cells b) \<Longrightarrow> wf_board b'"
  by (simp add: wf_board_def same_setup_def)

lemma landed_get [simp]: "get (landed b x y) = get b"
  using landed_keeps [of b x y] by (intro same_cells_get) (auto simp: same_setup_def)

lemma fill_law:
  assumes "wf_board b"
  shows "wf_board (fill b x y c)" "same_setup b (fill b x y c)"
    and "get (fill b x y c) u v = (if (u, v) = (x, y) \<and> in_bounds b x y then Some c else get b u v)"
proof -
  have eq: "fill b x y c = (set_cell b x y (Some c))
      \<lparr>b_new_fill := (if in_bounds b x y then b_new_fill b @ [cell_index b x y] else b_new_fill b)\<rparr>"
    by (simp add: fill_def set_cell_def Let_def)
  show "wf_board (fill b x y c)" "same_setup b (fill b x y c)"
    using assms by (simp_all add: eq same_setup_def)
  show "get (fill b x y c) u v = (if (u, v) = (x, y) \<and> in_bounds b x y then Some c else get b u v)"
    using assms by (simp add: eq get_set_cell)
qed

definition piece_at :: "piece \<Rightarrow> int \<Rightarrow> int \<Rightarrow> cell option" where
  "piece_at p x y =
     (if p_x p \<le> x \<and> x < p_x p + 8 \<and> p_y p \<le> y \<and> y < p_y p + 8
      then p_cells p ! nat (x - p_x p) ! nat (y - p_y p) else None)"

lemma land_law:
  assumes "wf_board b"
  shows "wf_board (land p b)" "same_setup b (land p b)"
    and "get (land p b) x y = (if in_bounds b x y \<and> piece_at p x y \<noteq> None then piece_at p x y else get b x y)"
proof -
  let ?st = "\<lambda>(i, j) b. case p_cells p ! i ! j of
      Some c \<Rightarrow> fill b (p_x p + int i) (p_y p + int j) c | None \<Rightarrow> b"
  have loop: "wf_board (fold ?st ss b) \<and> same_setup b (fold ?st ss b) \<and>
    (\<forall>x y. get (fold ?st ss b) x y =
      (if in_bounds b x y \<and> (\<exists>(i, j) \<in> set ss. x = p_x p + int i \<and> y = p_y p + int j \<and> p_cells p ! i ! j \<noteq> None)
       then p_cells p ! nat (x - p_x p) ! nat (y - p_y p) else get b x y))" for ss
  proof (induction ss rule: rev_induct)
    case (snoc s ss)
    obtain i j where s: "s = (i, j)" by (cases s)
    let ?B = "fold ?st ss b"
    have B: "wf_board ?B" "same_setup b ?B" using snoc.IH by blast+
    have ib: "in_bounds ?B u v = in_bounds b u v" for u v using B(2) by (simp add: in_bounds_def same_setup_def)
    show ?case
    proof (cases "p_cells p ! i ! j")
      case None
      then show ?thesis using snoc.IH s by auto
    next
      case (Some c)
      note law = fill_law [OF B(1), of "p_x p + int i" "p_y p + int j" c]
      have "get (fold ?st (ss @ [s]) b) u v =
        (if u = p_x p + int i \<and> v = p_y p + int j \<and> in_bounds b u v then Some c else get ?B u v)" for u v
        using law(3) Some s ib by auto
      moreover have "p_cells p ! nat (p_x p + int i - p_x p) ! nat (p_y p + int j - p_y p) = Some c"
        using Some by simp
      ultimately show ?thesis using law(1,2) same_setup_trans [OF B(2)] snoc.IH Some s by auto
    qed
  qed (use assms in simp)
  let ?B = "fold ?st (squares 8) b"
  have eq: "land p b = landed ?B (p_x p) (p_y p)" by (simp add: land_def Let_def)
  have B: "wf_board ?B" "same_setup b ?B" using loop [of "squares 8"] by blast+
  show "same_setup b (land p b)" unfolding eq using landed_keeps same_setup_trans [OF B(2)] by blast
  show "wf_board (land p b)"
    unfolding eq using wf_board_setup [OF B(1)] landed_keeps [of ?B "p_x p" "p_y p"] by simp
  have "(\<exists>(i, j) \<in> set (squares 8). x = p_x p + int i \<and> y = p_y p + int j \<and> p_cells p ! i ! j \<noteq> None)
      \<longleftrightarrow> piece_at p x y \<noteq> None"
  proof
    assume "\<exists>(i, j) \<in> set (squares 8). x = p_x p + int i \<and> y = p_y p + int j \<and> p_cells p ! i ! j \<noteq> None"
    then show "piece_at p x y \<noteq> None" by (auto simp: piece_at_def)
  next
    assume *: "piece_at p x y \<noteq> None"
    then have "p_x p \<le> x" "x < p_x p + 8" "p_y p \<le> y" "y < p_y p + 8" by (auto simp: piece_at_def split: if_splits)
    with * show "\<exists>(i, j) \<in> set (squares 8). x = p_x p + int i \<and> y = p_y p + int j \<and> p_cells p ! i ! j \<noteq> None"
      by (intro bexI [of _ "(nat (x - p_x p), nat (y - p_y p))"]) (auto simp: piece_at_def)
  qed
  then have "get (land p b) x y = (if in_bounds b x y \<and> piece_at p x y \<noteq> None
      then p_cells p ! nat (x - p_x p) ! nat (y - p_y p) else get b x y)"
    unfolding eq landed_get loop [of "squares 8", THEN conjunct2, THEN conjunct2, rule_format] by simp
  moreover have "p_cells p ! nat (x - p_x p) ! nat (y - p_y p) = piece_at p x y" if "piece_at p x y \<noteq> None"
    using that by (auto simp: piece_at_def split: if_splits)
  ultimately show "get (land p b) x y = (if in_bounds b x y \<and> piece_at p x y \<noteq> None then piece_at p x y else get b x y)"
    by (cases "in_bounds b x y \<and> piece_at p x y \<noteq> None") (simp_all only: if_True if_False simp_thms)
qed

text \<open>Where a piece fits, landing overwrites nothing.\<close>

lemma fits_free:
  assumes "can_move_to p b (p_x p) (p_y p)" "piece_at p x y \<noteq> None" "in_bounds b x y"
  shows "get b x y = None"
proof -
  have r: "p_x p \<le> x" "x < p_x p + 8" "p_y p \<le> y" "y < p_y p + 8"
    and c: "p_cells p ! nat (x - p_x p) ! nat (y - p_y p) \<noteq> None"
    using assms(2) by (auto simp: piece_at_def split: if_splits)
  have "nat (x - p_x p) < 8" "nat (y - p_y p) < 8" using r by auto
  then have "\<not> occupied b (p_x p + int (nat (x - p_x p))) (p_y p + int (nat (y - p_y p)))"
    using assms(1) c unfolding can_move_to_iff by blast
  then have "\<not> occupied b x y" using r by simp
  then show ?thesis using assms(3) by (auto simp: occupied_def in_bounds_def split: if_splits)
qed

end
