(* ===== verification/PieceManager.thy ===== *)
theory PieceManager
  imports Piece
begin

section \<open>Piece selection\<close>

text \<open>
  \<open>bt-core/src/piece_manager.rs\<close>: the next piece is chosen by rejection sampling against a table of
  keep probabilities, which the weapons that alter the stream rewrite. The table holds the bit
  patterns of the \<open>f64\<close> probabilities. \<open>create\<close> may not return, when the table keeps nothing or an
  invalid id is repeated; the lemmas show that it returns on every table the weapons can make of the
  default one.
\<close>

record piece_manager =
  keep_prob :: "u64 list"
  hap_on :: i32
  broken :: bool
  old_piece :: i32

definition pm_raw :: "piece_manager \<Rightarrow> u64 list \<times> i32 \<times> bool \<times> i32" where
  "pm_raw m = (keep_prob m, hap_on m, broken m, old_piece m)"

definition pm_set_raw :: "u64 list \<Rightarrow> i32 \<Rightarrow> bool \<Rightarrow> i32 \<Rightarrow> piece_manager \<Rightarrow> piece_manager" where
  "pm_set_raw kp hap br old m =
     m\<lparr>keep_prob := kp, hap_on := hap, broken := br, old_piece := old\<rparr>"

definition keep :: "i32 \<Rightarrow> u64 \<Rightarrow> u64 list \<Rightarrow> u64 list" where
  "keep i q kp = kp[nat i := q]"

text \<open>\<open>for i in a..=b { keep_prob[i] = q }\<close>\<close>

definition keep_range :: "i32 \<Rightarrow> i32 \<Rightarrow> u64 \<Rightarrow> u64 list \<Rightarrow> u64 list" where
  "keep_range a b q kp = fold (\<lambda>i kp. keep i q kp) (range_i a (b + 1)) kp"

definition pm_new :: piece_manager where
  "pm_new =
     (let kp = replicate 19 0;
          kp = keep_range BT_EL_PIECE BT_BOX_PIECE BT_DEFAULT_KEEP_PROB kp;
          kp = keep BT_DIE_PIECE BT_DIE_KEEP_PROB kp;
          kp = keep BT_HAP_PIECE BT_EXOTIC_KEEP_PROB kp;
          kp = keep BT_LONG_DONG_PIECE BT_EXOTIC_KEEP_PROB kp
      in \<lparr>keep_prob = kp, hap_on = 0, broken = False, old_piece = 0\<rparr>)"

definition pm_reset :: "piece_manager \<Rightarrow> piece_manager" where
  "pm_reset m =
     (let kp = keep_prob m;
          kp = keep_range BT_EL_PIECE BT_BOX_PIECE BT_DEFAULT_KEEP_PROB kp;
          kp = keep BT_DIE_PIECE BT_DIE_KEEP_PROB kp;
          kp = keep BT_HAP_PIECE BT_EXOTIC_KEEP_PROB kp;
          kp = keep_range (BT_WEIRD_OFFS + 1) BT_MAX_PIECES 0 kp;
          kp = keep BT_LONG_DONG_PIECE BT_EXOTIC_KEEP_PROB kp
      in m\<lparr>keep_prob := kp, broken := False, hap_on := 0\<rparr>)"

text \<open>One turn of the selection loop: an id, then its keep probability.\<close>

definition pick_attempt :: "u64 list \<Rightarrow> rng \<Rightarrow> i32 option \<times> rng" where
  "pick_attempt kp r =
     (let (c, r) = rand_below BT_MAX_PIECES r;
          candidate = c + 1;
          (x, r) = drand48 r
      in (if frac_lt x (kp ! nat candidate) then Some candidate else None, r))"

text \<open>The id of the next piece. The gate of Broken Record is drawn only while broken.\<close>

definition pick :: "piece_manager \<Rightarrow> rng \<Rightarrow> (i32 \<times> piece_manager \<times> rng) option" where
  "pick m r =
     (let (gate, r) = (if hap_on m = 0 \<and> broken m
            then (let (v, r) = lrand48 r in (v smod BT_BROKEN_PROB = 0, r)) else (True, r)) in
      if hap_on m = 0 \<and> (\<not> broken m \<or> gate) then
        do { (i, r) \<leftarrow> retry (pick_attempt (keep_prob m)) r; Some (i, m, r) }
      else if hap_on m = 0 \<and> broken m then
        Some (if old_piece m \<noteq> 0 then old_piece m else BT_EL_PIECE, m, r)
      else Some (BT_HAP_PIECE, m\<lparr>hap_on := hap_on m - 1\<rparr>, r))"

definition create :: "piece_manager \<Rightarrow> rng \<Rightarrow> i32 \<Rightarrow> i32 \<Rightarrow> (piece \<times> piece_manager \<times> rng) option" where
  "create m r x y =
     do {
       (i, m, r) \<leftarrow> pick m r;
       let m = m\<lparr>old_piece := i\<rparr>;
       kind \<leftarrow> kind_from_id i;
       let (die_value, r) = (if kind = DieP
             then (let (v, r) = rand_below 6 r in (word_of_int (v + 1) :: u8, r)) else (1, r));
       Some (construct kind x y die_value, m, r)
     }"

definition pm_weapon_on :: "weapon_token \<Rightarrow> piece_manager \<Rightarrow> piece_manager" where
  "pm_weapon_on w m =
     (case w of
        FearedWeird \<Rightarrow> m\<lparr>keep_prob := keep_range (BT_WEIRD_OFFS + 1) BT_WLONG_PIECE BT_DEFAULT_KEEP_PROB
            (keep_range BT_EL_PIECE BT_BOX_PIECE 0 (keep_prob m))\<rparr>
      | FourByFour \<Rightarrow> m\<lparr>keep_prob := keep BT_4X4_PIECE BT_DEFAULT_KEEP_PROB
            (keep BT_BOX_PIECE 0 (keep_prob m))\<rparr>
      | Broken \<Rightarrow> m\<lparr>broken := True\<rparr>
      | NoDice \<Rightarrow> m\<lparr>keep_prob := keep BT_DIE_PIECE 0 (keep_prob m)\<rparr>
      | SoLong \<Rightarrow> m\<lparr>keep_prob := keep BT_LONG_PIECE 0 (keep_prob m)\<rparr>
      | NiceDay \<Rightarrow> m\<lparr>hap_on := hap_on m + 1\<rparr>
      | _ \<Rightarrow> m)"

definition pm_weapon_off :: "weapon_token \<Rightarrow> piece_manager \<Rightarrow> piece_manager" where
  "pm_weapon_off w m =
     (case w of
        FearedWeird \<Rightarrow> m\<lparr>keep_prob := keep_range (BT_WEIRD_OFFS + 1) BT_WLONG_PIECE 0
            (keep_range BT_EL_PIECE BT_BOX_PIECE BT_DEFAULT_KEEP_PROB (keep_prob m))\<rparr>
      | FourByFour \<Rightarrow> m\<lparr>keep_prob := keep BT_4X4_PIECE 0
            (keep BT_BOX_PIECE BT_DEFAULT_KEEP_PROB (keep_prob m))\<rparr>
      | NoDice \<Rightarrow> m\<lparr>keep_prob := keep BT_DIE_PIECE BT_DIE_KEEP_PROB (keep_prob m)\<rparr>
      | SoLong \<Rightarrow> m\<lparr>keep_prob := keep BT_LONG_PIECE BT_DEFAULT_KEEP_PROB (keep_prob m)\<rparr>
      | Broken \<Rightarrow> m\<lparr>broken := False\<rparr>
      | _ \<Rightarrow> m)"

subsection \<open>Selection returns\<close>

definition pm_ok :: "piece_manager \<Rightarrow> bool" where
  "pm_ok m \<longleftrightarrow> length (keep_prob m) = 19 \<and> keep_prob m ! 9 = BT_EXOTIC_KEEP_PROB \<and>
     0 \<le> hap_on m \<and> 0 \<le> old_piece m \<and> old_piece m \<le> BT_MAX_PIECES"

lemma pick_attempt_two_draws: "snd (pick_attempt kp r) = snd (next_state (snd (next_state r)))"
  by (simp add: pick_attempt_def Let_def split_beta)

lemma pick_attempt_happy:
  assumes kp: "kp ! 9 = BT_EXOTIC_KEEP_PROB" and y: "y = 3126 \<or> y = 197"
  shows "fst (pick_attempt kp \<lparr>rng_state = word_of_int y\<rparr>) = Some 9"
proof -
  let ?r = "\<lparr>rng_state = word_of_int y\<rparr> :: rng"
  have u: "uint (rng_state ?r) = y" using y by (auto simp: uint_word_of_int)
  have c: "fst (rand_below 18 ?r) = 8"
    using y by (auto simp: rand_below_eq rand_eq u lcg_def)
  have "uint (fst (drand48 (snd (next_state ?r)))) = lcg (lcg y)"
    by (simp add: drand48_def next_state_uint uint_word_of_int y) (use y in \<open>auto simp: uint_word_of_int\<close>)
  then have "frac_lt (fst (drand48 (snd (next_state ?r)))) BT_EXOTIC_KEEP_PROB"
    using y by (auto simp: frac_lt_def Let_def lcg_def bt_const max_def)
  then show ?thesis using c kp by (simp add: pick_attempt_def Let_def split_beta bt_const)
qed

interpretation picks: rejection "\<lambda>kp. kp ! 9 = BT_EXOTIC_KEEP_PROB" pick_attempt
proof
  show "snd (pick_attempt kp r) = snd (next_state (snd (next_state r)))" for kp r
    by (rule pick_attempt_two_draws)
  fix kp :: "u64 list" and odd_start
  assume kp: "kp ! 9 = BT_EXOTIC_KEEP_PROB"
  let ?y = "if odd_start then 197 else 3126 :: int"
  have "fst (pick_attempt kp \<lparr>rng_state = word_of_int ?y\<rparr>) \<noteq> None"
    using pick_attempt_happy [OF kp, of ?y] by simp
  then show "\<exists>y. 0 \<le> y \<and> y < 2 ^ 48 \<and> odd y = odd_start \<and>
      fst (pick_attempt kp \<lparr>rng_state = word_of_int y\<rparr>) \<noteq> None"
    by (intro exI [of _ ?y]) auto
qed

lemma pick_attempt_result:
  assumes "pick_attempt kp r0 = (Some i, r')"
  shows "1 \<le> i" "i \<le> 18" "kp ! nat i \<noteq> 0"
proof -
  let ?c = "fst (rand_below 18 r0)"
  have c: "0 \<le> ?c" "?c < 18" by (simp_all add: rand_below_bounds)
  have i: "i = ?c + 1" "frac_lt (fst (drand48 (snd (rand_below 18 r0)))) (kp ! nat (?c + 1))"
    using assms by (auto simp: pick_attempt_def Let_def split_beta bt_const split: if_splits)
  show "1 \<le> i" "i \<le> 18" using i c by simp_all
  have "\<not> frac_lt x 0" for x by (simp add: frac_lt_def Let_def)
  then show "kp ! nat i \<noteq> 0" using i by metis
qed

lemma pick_returns:
  assumes ok: "pm_ok m"
  shows "returns (\<lambda>(i, m', r'). 1 \<le> i \<and> i \<le> 18 \<and> m' = m\<lparr>hap_on := hap_on m'\<rparr> \<and>
      (if hap_on m = 0 then hap_on m' = 0 \<and> (\<not> broken m \<longrightarrow> keep_prob m ! nat i \<noteq> 0)
       else hap_on m' = hap_on m - 1 \<and> i = 9)) (pick m r)"
proof -
  have kp: "keep_prob m ! 9 = BT_EXOTIC_KEEP_PROB" and old: "0 \<le> old_piece m" "old_piece m \<le> 18"
    using ok by (simp_all add: pm_ok_def bt_const)
  have loop: "returns (\<lambda>(i, m', r'). 1 \<le> i \<and> i \<le> 18 \<and> m' = m \<and> keep_prob m ! nat i \<noteq> 0)
      (do { (i, r) \<leftarrow> retry (pick_attempt (keep_prob m)) r; Some (i, m, r) })" for r
  proof -
    obtain i r' r0 where "retry (pick_attempt (keep_prob m)) r = Some (i, r')"
      "pick_attempt (keep_prob m) r0 = (Some i, r')"
      using picks.loop_returns [of "keep_prob m", OF kp, of r] by blast
    then show ?thesis using pick_attempt_result by simp
  qed
  consider "hap_on m \<noteq> 0" | "hap_on m = 0" "\<not> broken m" | "hap_on m = 0" "broken m" by blast
  then show ?thesis
  proof cases
    case 1
    then show ?thesis by (simp add: pick_def Let_def bt_const)
  next
    case 2
    then have "pick m r = (do { (i, r) \<leftarrow> retry (pick_attempt (keep_prob m)) r; Some (i, m, r) })"
      by (simp add: pick_def)
    then show ?thesis using returns_mono [OF loop [of r]] 2 by (auto split: prod.splits)
  next
    case 3
    let ?v = "fst (lrand48 r) smod BT_BROKEN_PROB" and ?r = "snd (next_state r)"
    show ?thesis
    proof (cases "?v = 0")
      case True
      then have "pick m r = (do { (i, r) \<leftarrow> retry (pick_attempt (keep_prob m)) ?r; Some (i, m, r) })"
        using 3 by (simp add: pick_def Let_def split_beta)
      then show ?thesis using returns_mono [OF loop [of ?r]] 3 by (auto split: prod.splits)
    next
      case False
      then show ?thesis using 3 old by (simp add: pick_def Let_def split_beta bt_const)
    qed
  qed
qed

lemma create_returns:
  assumes ok: "pm_ok m"
  shows "returns (\<lambda>(p, m', r'). pm_ok m' \<and> in_cycle p \<and> p_x p = x \<and> p_y p = y \<and>
      m' = m\<lparr>hap_on := hap_on m', old_piece := kind_id (p_kind p)\<rparr> \<and>
      (if hap_on m = 0 then hap_on m' = 0 \<and> (\<not> broken m \<longrightarrow> keep_prob m ! nat (kind_id (p_kind p)) \<noteq> 0)
       else hap_on m' = hap_on m - 1 \<and> p_kind p = HappyP)) (create m r x y)"
proof -
  obtain i m1 r1 where pick: "pick m r = Some (i, m1, r1)" "1 \<le> i" "i \<le> 18" "m1 = m\<lparr>hap_on := hap_on m1\<rparr>"
    and hap: "if hap_on m = 0 then hap_on m1 = 0 \<and> (\<not> broken m \<longrightarrow> keep_prob m ! nat i \<noteq> 0)
       else hap_on m1 = hap_on m - 1 \<and> i = 9"
    using pick_returns [OF ok, of r] by (auto simp: returns_def)
  obtain k where k: "kind_from_id i = Some k" using kind_from_id_eq pick(2,3) by blast
  then have i: "i = kind_id k" by (rule kind_from_id_SomeD)
  have happy: "i = 9 \<Longrightarrow> k = HappyP" using k by (simp add: kind_from_id_def bt_const)
  obtain d r2 where c: "create m r x y = Some (construct k x y d, m1\<lparr>old_piece := i\<rparr>, r2)"
    by (simp add: create_def pick(1) k Let_def split_beta)
  have "p_kind (construct k x y d) = k" "p_x (construct k x y d) = x" "p_y (construct k x y d) = y"
    by (simp_all add: construct_def split_beta)
  moreover have "pm_ok (m1\<lparr>old_piece := i\<rparr>)"
    using ok pick(2-4) hap by (cases m1; cases m) (auto simp: pm_ok_def bt_const split: if_splits)
  moreover have "m1\<lparr>old_piece := i\<rparr> = m\<lparr>hap_on := hap_on m1, old_piece := i\<rparr>"
    by (subst pick(4)) simp
  ultimately show ?thesis
    using hap happy construct_in_cycle [of k x y d] by (auto simp: c i split: if_splits)
qed

subsection \<open>The weapons on the table\<close>

lemma length_keep [simp]: "length (keep i q kp) = length kp"
  by (simp add: keep_def)

lemma length_keep_range [simp]: "length (keep_range a b q kp) = length kp"
  unfolding keep_range_def by (rule fold_preserves [where P = "\<lambda>xs. length xs = length kp"]) simp_all

lemma nth_keep: "0 \<le> i \<Longrightarrow> nat i < length kp \<Longrightarrow> keep i q kp ! n = (if n = nat i then q else kp ! n)"
  by (simp add: keep_def)

lemma nth_keep_range:
  assumes "0 \<le> a" "b < int (length kp)"
  shows "keep_range a b q kp ! n = (if a \<le> int n \<and> int n \<le> b then q else kp ! n)"
proof -
  have "fold (\<lambda>i kp. keep i q kp) is kp ! n = (if int n \<in> set is then q else kp ! n)"
    if "\<forall>i \<in> set is. 0 \<le> i \<and> i < int (length kp)" for "is"
    using that
  proof (induction "is" rule: rev_induct)
    case (snoc i "is")
    have "length (fold (\<lambda>i kp. keep i q kp) is kp) = length kp"
      by (rule fold_preserves [where P = "\<lambda>xs. length xs = length kp"]) simp_all
    then show ?case using snoc by (auto simp: nth_keep)
  qed simp
  from this [of "range_i a (b + 1)"] show ?thesis using assms by (auto simp: keep_range_def)
qed

lemma pm_ok_new [simp]: "pm_ok pm_new"
  by (simp add: pm_ok_def pm_new_def Let_def bt_const nth_keep nth_keep_range)

lemma pm_ok_weapon_on: "pm_ok m \<Longrightarrow> pm_ok (pm_weapon_on w m)"
  by (cases w) (simp_all add: pm_ok_def pm_weapon_on_def bt_const nth_keep nth_keep_range)

lemma pm_ok_weapon_off: "pm_ok m \<Longrightarrow> pm_ok (pm_weapon_off w m)"
  by (cases w) (simp_all add: pm_ok_def pm_weapon_off_def bt_const nth_keep nth_keep_range)

text \<open>Off undoes on, on the default table.\<close>

lemma pm_weapon_off_on:
  assumes "keep_prob m = keep_prob pm_new" "\<not> broken m" "w \<noteq> NiceDay"
  shows "pm_weapon_off w (pm_weapon_on w m) = m"
proof -
  let ?m = "pm_weapon_off w (pm_weapon_on w m)"
  have "keep_prob ?m = keep_prob m"
  proof (rule nth_equalityI)
    show len: "length (keep_prob ?m) = length (keep_prob m)"
      by (cases w) (simp_all add: pm_weapon_on_def pm_weapon_off_def)
    fix n assume "n < length (keep_prob ?m)"
    have l: "length (keep_prob m) = 19" by (simp add: assms(1) pm_new_def Let_def)
    have nth: "keep_prob m ! n = (if 1 \<le> n \<and> n \<le> 7 then BT_DEFAULT_KEEP_PROB else if n = 8 then BT_DIE_KEEP_PROB
        else if n = 9 \<or> n = 18 then BT_EXOTIC_KEEP_PROB else 0)" if "n < 19" for n
      using that by (auto simp: assms(1) pm_new_def Let_def nth_keep nth_keep_range bt_const)
    have "n < 19" using \<open>n < length (keep_prob ?m)\<close> len l by simp
    then show "keep_prob ?m ! n = keep_prob m ! n"
      using nth by (cases w) (auto simp: pm_weapon_on_def pm_weapon_off_def nth_keep nth_keep_range l bt_const)
  qed
  moreover have "hap_on ?m = hap_on m" "broken ?m = broken m" "old_piece ?m = old_piece m"
    using assms(2,3) by (cases w; simp add: pm_weapon_on_def pm_weapon_off_def)+
  ultimately show ?thesis by simp
qed

end
