(* ===== verification/Arsenals.thy ===== *)
theory Arsenals
  imports Weapons
begin

section \<open>The weapon arsenal\<close>

text \<open>
  \<open>bt-core/src/arsenal.rs\<close>: ten slots, each an optional token and a \<open>u16\<close> quantity. The release
  build wraps on overflow, so a quantity is a 16-bit word and \<open>+ 1\<close> on it wraps. The abstract
  content of an arsenal is \<open>stock\<close>, how many copies of each weapon it holds over all slots.
\<close>

record arsenal =
  rep :: "weapon_token option list"
  quantity :: "u16 list"

definition arsenal_new :: arsenal where
  "arsenal_new = \<lparr>rep = replicate BT_ARSENAL_SIZE None, quantity = replicate BT_ARSENAL_SIZE 0\<rparr>"

fun buy_loop :: "nat list \<Rightarrow> weapon_token \<Rightarrow> arsenal \<Rightarrow> bool \<times> arsenal" where
  "buy_loop [] w a = (False, a)"
| "buy_loop (i # is) w a =
     (if rep a ! i = Some w then (True, a\<lparr>quantity := (quantity a)[i := quantity a ! i + 1]\<rparr>)
      else if rep a ! i = None then
        (True, a\<lparr>rep := (rep a)[i := Some w], quantity := (quantity a)[i := quantity a ! i + 1]\<rparr>)
      else buy_loop is w a)"

definition buy :: "arsenal \<Rightarrow> weapon_token \<Rightarrow> bool \<times> arsenal" where
  "buy a w = buy_loop [0..<BT_ARSENAL_SIZE] w a"

definition use_slot :: "arsenal \<Rightarrow> nat \<Rightarrow> arsenal" where
  "use_slot a i =
     (if i \<ge> BT_ARSENAL_SIZE \<or> quantity a ! i = 0 then a
      else let a' = a\<lparr>quantity := (quantity a)[i := quantity a ! i - 1]\<rparr> in
        if quantity a' ! i = 0 then a'\<lparr>rep := (rep a')[i := None]\<rparr> else a')"

fun sell_loop :: "nat list \<Rightarrow> weapon_token \<Rightarrow> arsenal \<Rightarrow> bool \<times> arsenal" where
  "sell_loop [] w a = (False, a)"
| "sell_loop (i # is) w a =
     (if rep a ! i = Some w \<and> quantity a ! i > 0 then (True, use_slot a i)
      else sell_loop is w a)"

definition sell :: "arsenal \<Rightarrow> weapon_token \<Rightarrow> bool \<times> arsenal" where
  "sell a w = sell_loop [0..<BT_ARSENAL_SIZE] w a"

definition set_slot :: "arsenal \<Rightarrow> nat \<Rightarrow> weapon_token option \<Rightarrow> u16 \<Rightarrow> arsenal" where
  "set_slot a i token qty =
     (if i \<ge> BT_ARSENAL_SIZE then a
      else if token = None \<or> qty = 0 then
        a\<lparr>rep := (rep a)[i := None], quantity := (quantity a)[i := 0]\<rparr>
      else a\<lparr>rep := (rep a)[i := token], quantity := (quantity a)[i := qty]\<rparr>)"

definition slot_token :: "arsenal \<Rightarrow> nat \<Rightarrow> weapon_token option" where
  "slot_token a i = (if i < length (rep a) then rep a ! i else None)"

definition slot_quantity :: "arsenal \<Rightarrow> nat \<Rightarrow> u16" where
  "slot_quantity a i = (if i < length (quantity a) then quantity a ! i else 0)"

definition arsenal_clear :: "arsenal \<Rightarrow> arsenal" where
  "arsenal_clear a =
     a\<lparr>rep := replicate BT_ARSENAL_SIZE None, quantity := replicate BT_ARSENAL_SIZE 0\<rparr>"

subsection \<open>Well-formedness and the abstract content\<close>

text \<open>Ten slots, and a slot is empty exactly when its quantity is zero.\<close>

definition wf_arsenal :: "arsenal \<Rightarrow> bool" where
  "wf_arsenal a \<longleftrightarrow> length (rep a) = BT_ARSENAL_SIZE \<and> length (quantity a) = BT_ARSENAL_SIZE \<and>
     (\<forall>i < BT_ARSENAL_SIZE. rep a ! i = None \<longleftrightarrow> quantity a ! i = 0)"

definition stock :: "arsenal \<Rightarrow> weapon_token \<Rightarrow> nat" where
  "stock a w = (\<Sum>i < BT_ARSENAL_SIZE. if rep a ! i = Some w then unat (quantity a ! i) else 0)"

text \<open>No slot holds 65535 copies, so one more cannot wrap.\<close>

definition has_headroom :: "arsenal \<Rightarrow> bool" where
  "has_headroom a \<longleftrightarrow> (\<forall>i < BT_ARSENAL_SIZE. quantity a ! i \<noteq> 65535)"

lemma wf_arsenal_new [simp]: "wf_arsenal arsenal_new"
  by (simp add: wf_arsenal_def arsenal_new_def)

lemma stock_new [simp]: "stock arsenal_new w = 0"
  by (simp add: stock_def arsenal_new_def)

lemma wf_arsenalD:
  "wf_arsenal a \<Longrightarrow> length (rep a) = 10"
  "wf_arsenal a \<Longrightarrow> length (quantity a) = 10"
  "wf_arsenal a \<Longrightarrow> i < 10 \<Longrightarrow> rep a ! i = None \<longleftrightarrow> quantity a ! i = 0"
  by (auto simp: wf_arsenal_def bt_const)

text \<open>Changing one slot changes the stock by that slot's old and new share.\<close>

lemma stock_update_slot:
  assumes "wf_arsenal a" and i: "i < 10"
  shows "stock (a\<lparr>rep := (rep a)[i := r], quantity := (quantity a)[i := q]\<rparr>) w
      + (if rep a ! i = Some w then unat (quantity a ! i) else 0)
    = stock a w + (if r = Some w then unat q else 0)"
proof -
  let ?f = "\<lambda>j. if rep a ! j = Some w then unat (quantity a ! j) else 0"
  let ?g = "\<lambda>j. if (rep a)[i := r] ! j = Some w then unat ((quantity a)[i := q] ! j) else 0"
  note len = wf_arsenalD(1,2) [OF assms(1)]
  have split: "{..<10} = insert i ({..<10} - {i})" using i by auto
  have "sum ?g {..<10} = ?g i + sum ?g ({..<10} - {i})"
    by (subst split, subst sum.insert) auto
  moreover have "sum ?f {..<10} = ?f i + sum ?f ({..<10} - {i})"
    by (subst split, subst sum.insert) auto
  moreover have "sum ?g ({..<10} - {i}) = sum ?f ({..<10} - {i})"
    by (rule sum.cong) auto
  moreover have "stock (a\<lparr>rep := (rep a)[i := r], quantity := (quantity a)[i := q]\<rparr>) w = sum ?g {..<10}"
    by (simp add: stock_def bt_const cong: if_cong)
  moreover have "stock a w = sum ?f {..<10}"
    by (simp add: stock_def bt_const)
  ultimately show ?thesis using i len by simp
qed

lemma update_slot_same_rep:
  "rep a ! i = r \<Longrightarrow> a\<lparr>rep := (rep a)[i := r], quantity := qs\<rparr> = a\<lparr>quantity := qs\<rparr>"
  by (cases a) auto

subsection \<open>Buying\<close>

text \<open>What the loop does: the first slot that matches or is empty takes the copy.\<close>

definition can_take :: "arsenal \<Rightarrow> weapon_token \<Rightarrow> nat \<Rightarrow> bool" where
  "can_take a w i \<longleftrightarrow> rep a ! i = Some w \<or> rep a ! i = None"

lemma buy_loop_find:
  "buy_loop is w a = (case List.find (can_take a w) is of
      None \<Rightarrow> (False, a)
    | Some i \<Rightarrow> (True, a\<lparr>rep := (rep a)[i := Some w], quantity := (quantity a)[i := quantity a ! i + 1]\<rparr>))"
  by (induction "is") (auto simp: can_take_def update_slot_same_rep)

lemma buy_cases:
  obtains (full) "buy a w = (False, a)" "\<forall>i < 10. \<not> can_take a w i"
  | (slot) i where "i < 10" "can_take a w i"
      "buy a w = (True, a\<lparr>rep := (rep a)[i := Some w], quantity := (quantity a)[i := quantity a ! i + 1]\<rparr>)"
proof (cases "List.find (can_take a w) [0..<10]")
  case None
  then have "buy a w = (False, a)" by (simp add: buy_def bt_const buy_loop_find)
  moreover have "\<forall>i < 10. \<not> can_take a w i" using None by (auto simp: find_None_iff)
  ultimately show thesis by (rule full)
next
  case (Some i)
  then have "i < 10" "can_take a w i" by (auto dest!: find_SomeD)
  then show thesis
    by (rule slot) (simp add: buy_def bt_const buy_loop_find Some)
qed

lemma buy_accepts: "fst (buy a w) \<longleftrightarrow> (\<exists>i < 10. rep a ! i = Some w \<or> rep a ! i = None)"
  by (cases rule: buy_cases [of a w]) (auto simp: can_take_def)

lemma word_plus_1_neq_0: "q \<noteq> 65535 \<Longrightarrow> q + 1 \<noteq> (0 :: u16)"
proof
  assume "q \<noteq> 65535" and "q + 1 = 0"
  then have "q = - 1" by (simp add: eq_neg_iff_add_eq_0)
  with \<open>q \<noteq> 65535\<close> show False by simp
qed

lemma unat_plus_1: "q \<noteq> 65535 \<Longrightarrow> unat (q + 1 :: u16) = unat q + 1"
  using word_plus_1_neq_0 [of q] unatSuc [of q] by (simp add: add.commute)

lemma buy_wf: "wf_arsenal a \<Longrightarrow> has_headroom a \<Longrightarrow> wf_arsenal (snd (buy a w))"
proof (cases rule: buy_cases [of a w])
  case (slot i)
  assume "wf_arsenal a" "has_headroom a"
  with slot show ?thesis
    by (auto simp: wf_arsenal_def has_headroom_def bt_const nth_list_update word_plus_1_neq_0)
qed simp

lemma buy_stock:
  assumes "wf_arsenal a" "has_headroom a"
  shows "stock (snd (buy a w)) v = stock a v + (if fst (buy a w) \<and> v = w then 1 else 0)"
proof (cases rule: buy_cases [of a w])
  case (slot i)
  have q: "quantity a ! i \<noteq> 65535" using assms(2) slot(1) by (simp add: has_headroom_def bt_const)
  have "rep a ! i = None \<Longrightarrow> quantity a ! i = 0"
    using assms(1) slot(1) by (simp add: wf_arsenalD(3))
  then show ?thesis
    using stock_update_slot [OF assms(1) slot(1), where r = "Some w" and q = "quantity a ! i + 1" and w = v] slot(2,3)
    by (auto simp: can_take_def unat_plus_1 [OF q] split: if_splits)
qed simp

subsection \<open>Using and selling\<close>

lemma use_slot_wf: "wf_arsenal a \<Longrightarrow> wf_arsenal (use_slot a i)"
  by (auto simp: use_slot_def wf_arsenal_def bt_const Let_def nth_list_update)

lemma unat_minus_1: "q \<noteq> 0 \<Longrightarrow> unat (q - 1 :: u16) = unat q - 1"
  by (simp add: unat_minus_one)

lemma use_slot_eq:
  assumes "wf_arsenal a" "i < 10" "quantity a ! i \<noteq> 0"
  shows "use_slot a i =
    a\<lparr>rep := (rep a)[i := (if quantity a ! i = 1 then None else rep a ! i)],
      quantity := (quantity a)[i := quantity a ! i - 1]\<rparr>"
  using assms by (auto simp: use_slot_def Let_def bt_const wf_arsenalD)

lemma use_slot_stock:
  assumes "wf_arsenal a"
  shows "stock (use_slot a i) w + (if slot_token a i = Some w then 1 else 0) = stock a w"
proof (cases "i < 10 \<and> quantity a ! i \<noteq> 0")
  case True
  then obtain q: "quantity a ! i \<noteq> 0" and i: "i < 10" by blast
  have "0 < unat (quantity a ! i)" using q by (simp add: unat_gt_0)
  moreover have "unat (quantity a ! i) \<noteq> 1 \<or> quantity a ! i = 1"
    by (simp add: word_unat_eq_iff)
  ultimately show ?thesis
    using stock_update_slot [OF assms i,
        where r = "if quantity a ! i = 1 then None else rep a ! i" and q = "quantity a ! i - 1"
          and w = w] i q
    by (auto simp: use_slot_eq [OF assms i q] slot_token_def wf_arsenalD [OF assms] unat_minus_1
        split: if_splits)
next
  case False
  then have "use_slot a i = a" by (auto simp: use_slot_def bt_const)
  moreover have "slot_token a i = None"
    using False wf_arsenalD [OF assms] by (auto simp: slot_token_def)
  ultimately show ?thesis by simp
qed

definition holds_copy :: "arsenal \<Rightarrow> weapon_token \<Rightarrow> nat \<Rightarrow> bool" where
  "holds_copy a w i \<longleftrightarrow> rep a ! i = Some w \<and> quantity a ! i > 0"

lemma sell_loop_find:
  "sell_loop is w a = (case List.find (holds_copy a w) is of
      None \<Rightarrow> (False, a) | Some i \<Rightarrow> (True, use_slot a i))"
  by (induction "is") (auto simp: holds_copy_def)

lemma sell_cases:
  obtains (absent) "sell a w = (False, a)" "\<forall>i < 10. \<not> holds_copy a w i"
  | (slot) i where "i < 10" "holds_copy a w i" "sell a w = (True, use_slot a i)"
proof (cases "List.find (holds_copy a w) [0..<10]")
  case None
  then have "sell a w = (False, a)" by (simp add: sell_def bt_const sell_loop_find)
  moreover have "\<forall>i < 10. \<not> holds_copy a w i" using None by (auto simp: find_None_iff)
  ultimately show thesis by (rule absent)
next
  case (Some i)
  then have "i < 10" "holds_copy a w i" by (auto dest!: find_SomeD)
  then show thesis
    by (rule slot) (simp add: sell_def bt_const sell_loop_find Some)
qed

lemma sell_wf: "wf_arsenal a \<Longrightarrow> wf_arsenal (snd (sell a w))"
  by (cases rule: sell_cases [of a w]) (auto simp: use_slot_wf)

lemma stock_zero_iff:
  assumes "wf_arsenal a"
  shows "stock a w = 0 \<longleftrightarrow> (\<forall>i < 10. \<not> holds_copy a w i)"
proof -
  have "stock a w = 0 \<longleftrightarrow> (\<forall>i \<in> {..<10}. (if rep a ! i = Some w then unat (quantity a ! i) else 0) = 0)"
    by (simp add: stock_def bt_const)
  also have "\<dots> \<longleftrightarrow> (\<forall>i < 10. \<not> holds_copy a w i)"
    by (auto simp: holds_copy_def word_neq_0_conv [symmetric] unat_eq_zero)
  finally show ?thesis .
qed

lemma sell_stock:
  assumes "wf_arsenal a"
  shows "fst (sell a w) = (0 < stock a w)"
    and "stock (snd (sell a w)) v + (if fst (sell a w) \<and> v = w then 1 else 0) = stock a v"
proof -
  show "fst (sell a w) = (0 < stock a w)"
    using stock_zero_iff [OF assms, of w] by (cases rule: sell_cases [of a w]) auto
  show "stock (snd (sell a w)) v + (if fst (sell a w) \<and> v = w then 1 else 0) = stock a v"
  proof (cases rule: sell_cases [of a w])
    case (slot i)
    then have "slot_token a i = Some w"
      using wf_arsenalD [OF assms] by (simp add: slot_token_def holds_copy_def)
    then show ?thesis using use_slot_stock [OF assms, of i v] slot by auto
  qed simp
qed

lemma set_slot_wf: "wf_arsenal a \<Longrightarrow> wf_arsenal (set_slot a i token qty)"
  by (auto simp: set_slot_def wf_arsenal_def bt_const nth_list_update)

end
