(* ===== verification/Spy.thy ===== *)
theory Spy
  imports Weapons
begin

unbundle bit_operations_syntax

section \<open>Spy reveals\<close>

text \<open>
  \<open>bt-core/src/spy.rs\<close>: the share of cells a spy's holder hides, the noise derived from the tick
  with the splitmix64 finalizer (wrapping \<open>u64\<close> arithmetic), and the funds figure a spy reveals.
  The lemmas show that the finalizer is injective, so that different ticks of one side give
  different noise, and bound the perturbation of each spy.
\<close>

definition ACE_TETRIS_WINDOW :: nat where
  [bt_const]: "ACE_TETRIS_WINDOW = 60"

definition hide_pct :: "weapon_token \<Rightarrow> int" where
  "hide_pct token = (case token of Ames \<Rightarrow> 50 | Ace \<Rightarrow> 15 | _ \<Rightarrow> 0)"

definition noise_for :: "u64 \<Rightarrow> u64 \<Rightarrow> u64" where
  "noise_for tick side =
     (let z = tick + side * 0x9E3779B97F4A7C15;
          z = (z XOR drop_bit 30 z) * 0xBF58476D1CE4E5B9;
          z = (z XOR drop_bit 27 z) * 0x94D049BB133111EB
      in z XOR drop_bit 31 z)"

definition adjust_funds :: "i64 \<Rightarrow> weapon_token \<Rightarrow> u64 \<Rightarrow> bool \<Rightarrow> i64" where
  "adjust_funds funds token noise ace_recent_tetris =
     (let sign = (if noise AND push_bit 33 1 \<noteq> 0 then - 1 else 1) in
      case token of
        Condor \<Rightarrow> funds
      | Ace \<Rightarrow> (if ace_recent_tetris then funds + sign * as_i64 (uint noise mod 100) else funds)
      | _ \<Rightarrow> (let base = (if funds = - 1 then - 2 else funds); span = \<bar>base\<bar> + 1 in
            base + sign * as_i64 (uint noise mod span)))"

subsection \<open>The finalizer is injective\<close>

text \<open>A xor with a copy of itself shifted down can be undone from the top bits on.\<close>

lemma xorshift_inj:
  fixes x y :: u64
  assumes eq: "x XOR drop_bit k x = y XOR drop_bit k y" and k: "0 < k"
  shows "x = y"
proof (rule bit_word_eqI)
  have step: "bit x n = bit y n" if "bit x (n + k) = bit y (n + k)" for n
  proof -
    have "bit (x XOR drop_bit k x) n = bit (y XOR drop_bit k y) n" using eq by simp
    then show ?thesis using that by (auto simp: bit_xor_iff bit_drop_bit_eq add.commute)
  qed
  have "bit x n = bit y n" if "64 - n \<le> m" for m n
    using that
  proof (induction m arbitrary: n rule: less_induct)
    case (less m)
    show ?case
    proof (cases "64 \<le> n")
      case True
      then show ?thesis by (auto dest!: bit_imp_le_length)
    next
      case False
      then have "bit x (n + k) = bit y (n + k)" using less k by (intro less.IH [of "m - k"]) auto
      then show ?thesis by (rule step)
    qed
  qed
  then show "bit x n = bit y n" for n by blast
qed

lemma odd_mult_inj:
  fixes a b x y :: "'a :: comm_ring_1"
  assumes "a * x = a * y" and "b * a = 1"
  shows "x = y"
  by (metis assms mult.assoc mult_1)

lemma noise_for_inj:
  assumes "noise_for t side = noise_for t' side"
  shows "t = t'"
proof -
  define z where "z s = s + side * 0x9E3779B97F4A7C15" for s :: u64
  define z1 where "z1 s = (z s XOR drop_bit 30 (z s)) * 0xBF58476D1CE4E5B9" for s :: u64
  define z2 where "z2 s = (z1 s XOR drop_bit 27 (z1 s)) * 0x94D049BB133111EB" for s :: u64
  have "z2 t XOR drop_bit 31 (z2 t) = z2 t' XOR drop_bit 31 (z2 t')"
    using assms by (simp only: noise_for_def Let_def z_def z1_def z2_def)
  then have "z2 t = z2 t'" by (rule xorshift_inj) simp
  then have "z1 t XOR drop_bit 27 (z1 t) = z1 t' XOR drop_bit 27 (z1 t')"
    unfolding z2_def mult.commute [of _ "0x94D049BB133111EB"]
    by (rule odd_mult_inj [where b = "0x319642B2D24D8EC3"]) simp
  then have "z1 t = z1 t'" by (rule xorshift_inj) simp
  then have "z t XOR drop_bit 30 (z t) = z t' XOR drop_bit 30 (z t')"
    unfolding z1_def mult.commute [of _ "0xBF58476D1CE4E5B9"]
    by (rule odd_mult_inj [where b = "0x96DE1B173F119089"]) simp
  then have "z t = z t'" by (rule xorshift_inj) simp
  then show ?thesis by (simp add: z_def)
qed

subsection \<open>Bounds of the reveal\<close>

lemma as_i64_mod: "0 < s \<Longrightarrow> s \<le> 2 ^ 63 \<Longrightarrow> as_i64 (n mod s) = n mod s"
proof (rule as_i64_id)
  assume "0 < s" "s \<le> 2 ^ 63"
  then have "0 \<le> n mod s" "n mod s < s" by simp_all
  then show "in_i64 (n mod s)" using \<open>s \<le> 2 ^ 63\<close> by (simp add: in_i64_def)
qed

lemma adjust_funds_Condor [simp]: "adjust_funds f Condor n r = f"
  by (simp add: adjust_funds_def Let_def)

lemma adjust_funds_Ace: "\<bar>adjust_funds f Ace n r - f\<bar> < 100"
proof -
  have "as_i64 (uint n mod 100) = uint n mod 100" by (rule as_i64_mod) simp_all
  then show ?thesis by (simp add: adjust_funds_def Let_def)
qed

lemma adjust_funds_Ames:
  assumes "\<bar>f\<bar> < 2 ^ 62" "f \<noteq> - 1"
  shows "\<bar>adjust_funds f Ames n r - f\<bar> \<le> \<bar>f\<bar>"
proof -
  have "as_i64 (uint n mod (\<bar>f\<bar> + 1)) = uint n mod (\<bar>f\<bar> + 1)"
    using assms by (intro as_i64_mod) auto
  moreover have "uint n mod (\<bar>f\<bar> + 1) \<le> \<bar>f\<bar>"
    using pos_mod_bound [of "\<bar>f\<bar> + 1" "uint n"] by linarith
  moreover have "0 \<le> uint n mod (\<bar>f\<bar> + 1)" by simp
  ultimately show ?thesis using assms by (simp add: adjust_funds_def Let_def)
qed

lemma adjust_funds_Ames_minus: "\<bar>adjust_funds (- 1) Ames n r - (- 1)\<bar> \<le> 3"
proof -
  obtain m where m: "uint n mod 3 = m" "0 \<le> m" "m \<le> 2" using pos_mod_bound [of 3 "uint n"] by simp
  have "as_i64 (uint n mod 3) = uint n mod 3" by (rule as_i64_mod) simp_all
  then show ?thesis using m(2,3) by (auto simp: adjust_funds_def Let_def m(1) abs_le_iff)
qed

lemma adjust_funds_calm: "adjust_funds f Ace n False = f"
  by (simp add: adjust_funds_def Let_def)

end
