(* ===== verification/EngineProps.thy ===== *)
theory EngineProps
  imports BoardWeapons PieceManager Arsenals Spy
begin

section \<open>What the components of the engine promise\<close>

text \<open>
  The properties of the single components: cells, generator, arsenal, spies, board, board weapons,
  pieces and the piece stream. Each is stated over the translated operations, from the lemmas of
  the component's theory, and applied to a concrete input where it has hypotheses.
\<close>

text \<open>A board whose bottom row is full, and one with a bottle on it, for the examples.\<close>

definition bottom_full :: board where
  "bottom_full = fold (\<lambda>x b. set_cell b x 27 (Some (die_cell 3))) (range_i 0 10) (board_standard False)"

definition bottled :: board where
  "bottled = put_walls (Some structure_cell) (set_active (board_standard False) Bottle True)"

lemma std_board_set_cell [simp]: "std_board b \<Longrightarrow> std_board (set_cell b x y c)"
  by (rule std_board_frame [of b]) simp_all

lemma standard_active [simp]: "b_active (board_standard c) = flags_new" "b_computer (board_standard c) = c"
    "b_upside (board_standard c) = False"
  by (simp_all add: board_standard_def board_new_def)

lemma board_inactive [simp]: "b_active b = flags_new \<Longrightarrow> \<not> board_is_active b t"
  by (simp add: board_is_active_def)

lemma bottom_full_std [simp]: "std_board bottom_full" "wf_board bottom_full"
proof -
  show "std_board bottom_full"
    unfolding bottom_full_def by (rule fold_preserves) simp_all
  then show "wf_board bottom_full" by simp
qed

lemma bottom_full_flags [simp]: "b_active bottom_full = flags_new" "falls_down bottom_full"
proof -
  have "same_frame (board_standard False) bottom_full"
    unfolding bottom_full_def by (rule same_frame_fold) simp
  then show "b_active bottom_full = flags_new" "falls_down bottom_full"
    by (simp_all add: same_frameD falls_down_def board_is_active_def)
qed

lemma bottled_std [simp]: "std_board bottled" "walls bottled" "board_is_active bottled Bottle"
proof -
  have std: "std_board (set_active (board_standard False) Bottle True)"
    using std_board_standard [of False] by (simp add: std_board_def set_active_def)
  show "std_board bottled" "walls bottled"
    unfolding bottled_def using put_walls_walls [OF std] by simp_all
  have "b_active bottled = flags_set flags_new Bottle True"
    using same_frameD(3) [OF same_frame_put_walls [of "set_active (board_standard False) Bottle True" "Some structure_cell"]]
    unfolding bottled_def by (simp add: set_active_def)
  then show "board_is_active bottled Bottle"
    by (simp add: board_is_active_def)
qed

subsection \<open>Lines\<close>

text \<open>
  C22. \<open>check_lines\<close> is, on a board without Force or Bottle, the removal of the full rows: the rows that
  are not full keep their order and move to the floor (to the ceiling on a board turned upside down),
  with the smileys in them turned to frowns, and the number of full rows, their summed value and
  the product of the two are what is returned.
\<close>

theorem check_lines_drops_full_rows:
  assumes "wf_board b" "\<not> board_is_active b Force" "\<not> board_is_active b Bottle"
  shows "\<exists>lc b'. check_lines b = Some (lc, b')
      \<and> board_rows b' = drop_full_rows (falls_down b) (empty_row b) (board_rows b)
      \<and> lc_lines lc = int (length (filter full_row (board_rows b)))
      \<and> lc_value lc = (\<Sum>r \<leftarrow> filter full_row (board_rows b). value_of_row r)
      \<and> lc_funds lc = lc_value lc * lc_lines lc"
  using check_lines_rows [OF assms] by (auto simp: returns_def)

theorem check_lines_drops_full_rows_witness:
  "\<exists>lc b'. check_lines bottom_full = Some (lc, b')
      \<and> board_rows b' = drop_full_rows True (empty_row bottom_full) (board_rows bottom_full)
      \<and> lc_lines lc = int (length (filter full_row (board_rows bottom_full)))
      \<and> lc_value lc = (\<Sum>r \<leftarrow> filter full_row (board_rows bottom_full). value_of_row r)
      \<and> lc_funds lc = lc_value lc * lc_lines lc"
  using check_lines_drops_full_rows [of bottom_full] by simp

text \<open>
  After \<open>check_lines\<close> on a board that falls down, with or without a bottle, no row is full: also
  the rows that the compaction brought down were examined.
\<close>

theorem check_lines_leaves_none_full:
  assumes "wf_board b" "\<not> board_is_active b Force" "falls_down b"
  shows "\<exists>lc b'. check_lines b = Some (lc, b') \<and> (\<forall>y. 0 \<le> y \<and> y < b_height b' \<longrightarrow> \<not> row_full b' y)"
  using check_lines_none_full [OF assms] by (auto simp: returns_def)

theorem check_lines_leaves_none_full_witness:
  "\<exists>lc b'. check_lines bottom_full = Some (lc, b') \<and> (\<forall>y. 0 \<le> y \<and> y < b_height b' \<longrightarrow> \<not> row_full b' y)"
  using check_lines_leaves_none_full [of bottom_full] by simp

text \<open>
  A line inserted on a board without a bottle (Rise Up, Lawyers' Delite) moves the whole stack one
  row, loses the row at the far end and adds one row that is full of worthless green boxes but for
  one hole inside the board.
\<close>

theorem insert_line_raises:
  assumes "wf_board b" "\<not> board_is_active b Bottle"
  shows "\<exists>hole. 0 \<le> hole \<and> hole < b_width b \<and>
    board_rows (fst (insert_line b r)) =
      (if falls_down b then tl (board_rows b) @ [garbage_cells b hole]
       else garbage_cells b hole # butlast (board_rows b))"
proof -
  have "0 < b_width b" using assms(1) by (simp add: wf_board_def)
  then show ?thesis
    using insert_line_rows [OF assms, of r] rand_below_bounds [of "b_width b" r] by (auto simp: Let_def)
qed

theorem insert_line_raises_witness:
  "\<exists>hole. 0 \<le> hole \<and> hole < b_width bottom_full \<and>
    board_rows (fst (insert_line bottom_full (rng_new 7))) =
      (if falls_down bottom_full then tl (board_rows bottom_full) @ [garbage_cells bottom_full hole]
       else garbage_cells bottom_full hole # butlast (board_rows bottom_full))"
  by (rule insert_line_raises) simp_all

subsection \<open>Weapons on the board\<close>

text \<open>
  C30. The rejection loop of Piece It and the Bug ends from every state of the generator: with an empty
  square in the middle two quarters the loop finds one, a removable box is put on it and nothing else
  changes; without one the board and the generator are left as they were.
\<close>

theorem throw_box_ends:
  assumes "std_board b"
  shows "\<exists>b' r'. throw_box token b r = Some (b', r') \<and> std_board b' \<and>
    (if band_has_empty b then
       \<exists>x y c. 0 \<le> x \<and> x < 10 \<and> 7 \<le> y \<and> y < 21 \<and> get b x y = None \<and> is_removable c \<and>
         (token = Bug \<longrightarrow> cell_id c = - 1) \<and> b' = set_cell b x y (Some c)
     else b' = b \<and> r' = r)"
  using throw_box_returns [OF assms, of token r] by (elim returnsE) (auto split del: if_split)

theorem throw_box_ends_witness:
  "\<exists>b' r'. throw_box Bug bottom_full (rng_new 7) = Some (b', r') \<and> std_board b' \<and>
    (if band_has_empty bottom_full then
       \<exists>x y c. 0 \<le> x \<and> x < 10 \<and> 7 \<le> y \<and> y < 21 \<and> get bottom_full x y = None \<and> is_removable c \<and>
         (Bug = Bug \<longrightarrow> cell_id c = - 1) \<and> b' = set_cell bottom_full x y (Some c)
     else b' = bottom_full \<and> r' = rng_new 7)"
  by (rule throw_box_ends) simp

text \<open>
  Fall Out empties exactly the columns between the two ledges, whichever way the board falls, and
  leaves the ledges as they are.
\<close>

theorem fall_out_empties_middle:
  assumes "wf_board b" "\<not> board_is_active b Force" "\<not> board_is_active b Bottle"
  shows "get (fall_out b) x y = (if 2 \<le> x \<and> x < b_width b - 2 then None else get b x y)"
  by (rule fall_out_law(2) [OF assms])

theorem fall_out_empties_middle_witness:
  "get (fall_out bottom_full) 5 27 = (if 2 \<le> (5::int) \<and> 5 < b_width bottom_full - 2 then None else get bottom_full 5 27)"
  by (rule fall_out_empties_middle) simp_all

text \<open>
  The two flips are their own inverse on every board, and Upbyside undoes itself: turning it on and
  then off gives back the board, square by square and flag by flag.
\<close>

theorem flips_undo:
  assumes "std_board b" "\<not> b_upside b"
  shows "flip_horiz (flip_horiz b) = b \<and> flip_vert (flip_vert b) = b
    \<and> (\<exists>b'. board_apply_weapon Upbyside b r = Some (line_clear_default, b', r) \<and> b_upside b' \<and>
      board_revert_weapon Upbyside b' = b)"
proof (intro conjI)
  show "flip_horiz (flip_horiz b) = b" "flip_vert (flip_vert b) = b"
    using assms by (simp_all add: flip_horiz_twice flip_vert_twice)
  obtain b' where *: "board_apply_weapon Upbyside b r = Some (line_clear_default, b', r)" "b_upside b'"
    by (simp add: board_apply_weapon_def Let_def)
  then show "\<exists>b'. board_apply_weapon Upbyside b r = Some (line_clear_default, b', r) \<and> b_upside b' \<and>
      board_revert_weapon Upbyside b' = b"
    using upbyside_restores [OF assms *(1)] by blast
qed

theorem flips_undo_witness:
  "flip_horiz (flip_horiz (board_standard True)) = board_standard True \<and>
   flip_vert (flip_vert (board_standard True)) = board_standard True"
  using flips_undo [of "board_standard True"] by simp

text \<open>
  While Bottle is active the twelve-square walls of its neck survive a line check and every weapon
  that comes on: removal, garbage, fall out, gimps, flips and thrown boxes go around them.
\<close>

theorem bottle_walls_stand:
  assumes "std_board b" "board_is_active b Bottle" "walls b"
  shows "returns (\<lambda>(lc, b'). walls b') (check_lines b) \<and>
    returns (\<lambda>(lc, b', r'). walls b') (board_apply_weapon token b r)"
  using check_lines_walls [OF assms] board_apply_weapon_walls [OF assms(1,2)] assms(3) by simp_all

theorem bottle_walls_stand_witness:
  "returns (\<lambda>(lc, b'). walls b') (check_lines bottled) \<and>
   returns (\<lambda>(lc, b', r'). walls b') (board_apply_weapon FallOut bottled (rng_new 7))"
  using bottle_walls_stand [of bottled] by simp

subsection \<open>Pieces\<close>

text \<open>
  C31. A rotation can be undone: a piece that fits where it is and turns (one of the square rotations or
  a step of the tables of Wall, Star and WeirdLong) turns back to exactly the piece it was.
\<close>

theorem rotation_undone:
  assumes "in_cycle p" "can_move_to p b (p_x p) (p_y p)" "piece_rotate p b r = (True, q)"
  shows "piece_rotate q b (\<not> r) = (True, p)"
  by (rule rotate_back [OF assms])

theorem rotation_undone_witness:
  "piece_rotate (snd (piece_rotate (construct WeirdLong 4 5 1) (board_standard False) False)) (board_standard False) True
    = (True, construct WeirdLong 4 5 1)"
  using rotation_undone [of "construct WeirdLong 4 5 1" "board_standard False" False
      "snd (piece_rotate (construct WeirdLong 4 5 1) (board_standard False) False)"] construct_in_cycle
  by code_simp

text \<open>
  A rotation never drives a piece into the stack or out of its 8 by 8 map: if the piece fits where
  it is, it fits there after a rotation, refused or not, and stays well formed at the same position.
\<close>

theorem rotation_safe:
  assumes "in_cycle p" "can_move_to p b (p_x p) (p_y p)"
  shows "can_move_to (snd (piece_rotate p b r)) b (p_x p) (p_y p) \<and> in_cycle (snd (piece_rotate p b r))
    \<and> p_x (snd (piece_rotate p b r)) = p_x p \<and> p_y (snd (piece_rotate p b r)) = p_y p"
proof -
  have wf: "wf_piece p" using assms(1) by (simp add: in_cycle_def)
  have "can_move_to (snd (piece_rotate p b r)) b (p_x p) (p_y p)"
    by (rule piece_rotate_fits [OF wf assms(2)])
  moreover have "p_x (snd (piece_rotate p b r)) = p_x p \<and> p_y (snd (piece_rotate p b r)) = p_y p"
    using piece_rotate_wf [OF wf, of b r] by (simp add: same_spot_def)
  moreover have "in_cycle (snd (piece_rotate p b r))"
    by (rule piece_rotate_in_cycle [OF assms(1)])
  ultimately show ?thesis by blast
qed

theorem rotation_safe_witness:
  "can_move_to (snd (piece_rotate (construct El 4 5 1) (board_standard False) True)) (board_standard False)
     (p_x (construct El 4 5 1)) (p_y (construct El 4 5 1))"
  using rotation_safe [of "construct El 4 5 1" "board_standard False" True] construct_in_cycle by code_simp

text \<open>
  Landing a piece that fits writes exactly its cells: a square of the board holds the piece's cell
  where the piece has one and what it held before elsewhere, and every square written was empty.
\<close>

theorem land_writes_piece:
  assumes "wf_board b" "can_move_to p b (p_x p) (p_y p)"
  shows "get (land p b) x y = (if in_bounds b x y \<and> piece_at p x y \<noteq> None then piece_at p x y else get b x y)
    \<and> (in_bounds b x y \<and> piece_at p x y \<noteq> None \<longrightarrow> get b x y = None) \<and> wf_board (land p b)"
  using land_law [OF assms(1), of p] fits_free [OF assms(2), of x y] by auto

theorem land_writes_piece_witness:
  "get (land (construct Box 4 5 1) bottom_full) 4 5 =
    (if in_bounds bottom_full 4 5 \<and> piece_at (construct Box 4 5 1) 4 5 \<noteq> None then piece_at (construct Box 4 5 1) 4 5
     else get bottom_full 4 5)"
  by (rule land_writes_piece [THEN conjunct1]) (simp, code_simp)

subsection \<open>The piece stream and the generator\<close>

text \<open>
  The choice of the next piece ends from every state of the generator under every combination of
  piece weapons: the piece stands where asked for, is one of the 18 with a keep probability above
  zero (unless a smiley is owed or Broken Record repeats), and is remembered for Broken Record.
\<close>

theorem create_ends:
  assumes "pm_ok m"
  shows "\<exists>p m' r'. create m r x y = Some (p, m', r') \<and> pm_ok m' \<and> in_cycle p \<and> p_x p = x \<and> p_y p = y \<and>
      m' = m\<lparr>hap_on := hap_on m', old_piece := kind_id (p_kind p)\<rparr> \<and>
      (if hap_on m = 0 then hap_on m' = 0 \<and> (\<not> broken m \<longrightarrow> keep_prob m ! nat (kind_id (p_kind p)) \<noteq> 0)
       else hap_on m' = hap_on m - 1 \<and> p_kind p = HappyP)"
  using create_returns [OF assms, of x y r] by (elim returnsE) (auto split del: if_split)

theorem create_ends_witness:
  "\<exists>p m' r'. create (pm_weapon_on NoDice pm_new) (rng_new 7) 5 0 = Some (p, m', r') \<and> pm_ok m' \<and> in_cycle p \<and>
      p_x p = 5 \<and> p_y p = 0 \<and>
      m' = (pm_weapon_on NoDice pm_new)\<lparr>hap_on := hap_on m', old_piece := kind_id (p_kind p)\<rparr> \<and>
      (if hap_on (pm_weapon_on NoDice pm_new) = 0 then hap_on m' = 0 \<and> (\<not> broken (pm_weapon_on NoDice pm_new) \<longrightarrow>
          keep_prob (pm_weapon_on NoDice pm_new) ! nat (kind_id (p_kind p)) \<noteq> 0)
       else hap_on m' = hap_on (pm_weapon_on NoDice pm_new) - 1 \<and> p_kind p = HappyP)"
  by (rule create_ends) (simp add: pm_ok_weapon_on)

text \<open>
  Every weapon on the piece stream but Have a Nice Day is undone by its expiry: turned on and off
  again, the stream is the fresh one, so no keep probability drifts over a match.
\<close>

theorem stream_weapon_undone:
  assumes "keep_prob m = keep_prob pm_new" "\<not> broken m" "w \<noteq> NiceDay"
  shows "pm_weapon_off w (pm_weapon_on w m) = m"
  by (rule pm_weapon_off_on [OF assms])

theorem stream_weapon_undone_witness:
  "pm_weapon_off FearedWeird (pm_weapon_on FearedWeird pm_new) = pm_new"
  by (rule stream_weapon_undone) (simp_all add: pm_new_def)

text \<open>
  C36. The 48-bit generator has full period: from any state every other state is reached in fewer than
  \<open>2 ^ 48\<close> steps, so each draw takes every value and no seed is caught in a short cycle.
\<close>

theorem generator_full_period:
  assumes "uint (rng_state r) < 2 ^ 48" "uint (rng_state s) < 2 ^ 48"
  shows "\<exists>n < 2 ^ 48. ((\<lambda>r. snd (next_state r)) ^^ n) r = s"
proof -
  have iter: "uint (rng_state (((\<lambda>r. snd (next_state r)) ^^ n) r)) = (lcg ^^ n) (uint (rng_state r))" for n
    by (induction n) (simp_all add: next_state_uint)
  obtain n where n: "n < 2 ^ 48" "(lcg ^^ n) (uint (rng_state r)) = uint (rng_state s)"
    using lcg_full_period [OF uint_ge_0 assms(1) uint_ge_0 assms(2)] by blast
  then have "rng_state (((\<lambda>r. snd (next_state r)) ^^ n) r) = rng_state s"
    by (metis iter word_of_int_uint)
  then show ?thesis using n(1) rng_eqI by blast
qed

theorem generator_full_period_witness:
  "\<exists>n < 2 ^ 48. ((\<lambda>r. snd (next_state r)) ^^ n) (rng_new 7) = rng_new 0"
  by (rule generator_full_period) (simp_all add: rng_new_def)

subsection \<open>Arsenal, spies and the codec of squares\<close>

text \<open>
  The arsenal counts: a purchase adds one copy of its weapon and nothing else, and is refused only
  when all ten slots hold other weapons; a sale succeeds exactly when a copy is there and takes one;
  firing a slot takes one copy of what is in it. All keep a slot empty exactly when its count is 0.
\<close>

theorem arsenal_counts:
  assumes "wf_arsenal a" "has_headroom a"
  shows "stock (snd (buy a w)) v = stock a v + (if fst (buy a w) \<and> v = w then 1 else 0)
    \<and> (fst (buy a w) \<longleftrightarrow> (\<exists>i < 10. rep a ! i = Some w \<or> rep a ! i = None))
    \<and> (fst (sell a w) \<longleftrightarrow> 0 < stock a w)
    \<and> stock (snd (sell a w)) v + (if fst (sell a w) \<and> v = w then 1 else 0) = stock a v
    \<and> stock (use_slot a i) v + (if slot_token a i = Some v then 1 else 0) = stock a v
    \<and> wf_arsenal (snd (buy a w)) \<and> wf_arsenal (snd (sell a w)) \<and> wf_arsenal (use_slot a i)"
  using buy_stock [OF assms] sell_stock [OF assms(1)] use_slot_stock [OF assms(1)] buy_wf [OF assms, of w]
    sell_wf [OF assms(1)] use_slot_wf [OF assms(1)] buy_accepts [of a w] by auto

theorem arsenal_counts_witness:
  "stock (snd (buy arsenal_new Bottle)) Bottle = stock arsenal_new Bottle + (if fst (buy arsenal_new Bottle) \<and> Bottle = Bottle then 1 else 0)"
  by (rule arsenal_counts [THEN conjunct1]) (simp, simp add: has_headroom_def arsenal_new_def bt_const)

text \<open>
  What a spy shows of the funds: Condor the exact figure, Ace never a hundred away, Ames never
  further away than the figure itself; and the noise is a permutation of the time, so two moments
  never share their noise by construction.
\<close>

theorem spy_shows:
  assumes "\<bar>f\<bar> < 2 ^ 62" "f \<noteq> - 1"
  shows "adjust_funds f Condor n r = f \<and> \<bar>adjust_funds f Ace n r - f\<bar> < 100
    \<and> \<bar>adjust_funds f Ames n r - f\<bar> \<le> \<bar>f\<bar> \<and> (noise_for t side = noise_for t' side \<longleftrightarrow> t = t')"
  using adjust_funds_Ace adjust_funds_Ames [OF assms] noise_for_inj by auto

theorem spy_shows_witness:
  "\<bar>adjust_funds 500 Ames (noise_for 12345 0) False - 500\<bar> \<le> \<bar>500\<bar>"
  using spy_shows [of 500 "noise_for 12345 0" False] by simp

text \<open>
  The four integers a square is sent as give back the square, empty squares and hidden
  squares included.
\<close>

theorem square_codec:
  "decode (encode_opt c) = c \<and> length (encode_opt c) = 4"
  by simp

end
