(* ===== verification/Game.thy ===== *)
theory Game
  imports BoardWeapons PieceManager Arsenals
begin

section \<open>The single-player game\<close>

text \<open>
  \<open>bt-core/src/game.rs\<close>: the state machine of one player. A game is a record with the fields of the
  Rust struct (prefix \<open>g_\<close>); every method is a function on it. Methods that reach a draw of the next
  piece, a thrown box or a line check return an \<open>option\<close>, since those loops might not end; the
  theory GameProps proves that they all return on every reachable game.

  The host's virtual clock is the argument of \<open>tick\<close>. Outbound events are appended to \<open>g_events\<close>.
\<close>

record score =
  s_score :: i64
  s_op_score :: i64
  s_lines :: i64
  s_op_lines :: i64
  s_funds :: i64
  s_op_funds :: i64

definition score_default :: score where
  "score_default = \<lparr>s_score = 0, s_op_score = 0, s_lines = 0, s_op_lines = 0, s_funds = 0, s_op_funds = 0\<rparr>"

datatype phase = Falling | Sliding | Over

datatype game_event =
    Locked i32 i32 i32
  | Airslide
  | WeaponLaunched weapon_token
  | Scored i64 i64 i64
  | FundsStolen i64
  | EnterBazaar
  | Idiot int
  | GameOver

record game =
  g_board :: board
  g_pieces :: piece_manager
  g_rng :: rng
  g_score :: score
  g_current :: "piece option"
  g_x :: i32
  g_y :: i32
  g_def_x :: i32
  g_def_y :: i32
  g_delta_y :: i32
  g_left_x :: i32
  g_right_x :: i32
  g_base_drop_time :: i32
  g_fast_drop_time :: i32
  g_drop_time :: i32
  g_slide_time :: i32
  g_dropping :: bool
  g_sliding :: i32
  g_phase :: phase
  g_drop_accum :: i32
  g_slide_accum :: i32
  g_paused :: bool
  g_weapons :: active_flags
  g_remaining :: "i32 list"
  g_arsenal :: arsenal
  g_pending :: "weapon_token list"
  g_pending_board :: "i32 list option"
  g_hatter_accum :: i32
  g_slick_accum :: i32
  g_slick_dir :: i32
  g_in_bazaar :: bool
  g_lines_til_baz :: i32
  g_events :: "game_event list"
  g_lock_seq :: int
  g_lock_hash :: u32

definition game_fresh :: "u64 \<Rightarrow> game" where
  "game_fresh seed =
     \<lparr>g_board = board_standard False, g_pieces = pm_new, g_rng = rng_new seed, g_score = score_default,
      g_current = None, g_x = BT_DEFAULT_X, g_y = BT_DEFAULT_Y, g_def_x = BT_DEFAULT_X,
      g_def_y = BT_DEFAULT_Y, g_delta_y = 1, g_left_x = - 1, g_right_x = 1,
      g_base_drop_time = BT_DROP_TIME, g_fast_drop_time = BT_FAST_DROP_TIME, g_drop_time = BT_DROP_TIME,
      g_slide_time = BT_SLIDE_TIME, g_dropping = False, g_sliding = 0, g_phase = Falling,
      g_drop_accum = 0, g_slide_accum = 0, g_paused = False, g_weapons = flags_new,
      g_remaining = replicate BT_MAX_WEAPONS 0, g_arsenal = arsenal_new, g_pending = [],
      g_pending_board = None, g_hatter_accum = 0, g_slick_accum = 0, g_slick_dir = 0,
      g_in_bazaar = False, g_lines_til_baz = BT_LINES_TIL_BAZ, g_events = [], g_lock_seq = 0,
      g_lock_hash = 0\<rparr>"

definition push_event :: "game_event \<Rightarrow> game \<Rightarrow> game" where
  "push_event e g = g\<lparr>g_events := g_events g @ [e]\<rparr>"

definition push_scored :: "game \<Rightarrow> game" where
  "push_scored g = push_event (Scored (s_score (g_score g)) (s_lines (g_score g)) (s_funds (g_score g))) g"

definition weapon_active :: "game \<Rightarrow> weapon_token \<Rightarrow> bool" where
  "weapon_active g t = is_active (g_weapons g) t"

definition weapon_remaining :: "game \<Rightarrow> weapon_token \<Rightarrow> i32" where
  "weapon_remaining g t = g_remaining g ! index t"

definition take_events :: "game \<Rightarrow> game_event list \<times> game" where
  "take_events g = (g_events g, g\<lparr>g_events := []\<rparr>)"

subsection \<open>Board and arsenal on the wire\<close>

definition export_board :: "game \<Rightarrow> i32 list" where
  "export_board g =
     (let b = g_board g in
      concat (map (\<lambda>y. concat (map (\<lambda>x. encode_opt (get b x y)) (range_i 0 (b_width b))))
        (range_i 0 (b_height b))))"

definition import_board :: "i32 list \<Rightarrow> game \<Rightarrow> game" where
  "import_board data g =
     (let w = b_width (g_board g); h = b_height (g_board g) in
      if length data \<noteq> nat (w * h * 4) then g
      else g\<lparr>g_board := fst (fold (\<lambda>y s. fold (\<lambda>x (b, i).
             (set_cell b x y (decode [data ! i, data ! (i + 1), data ! (i + 2), data ! (i + 3)]), i + 4))
             (range_i 0 w) s) (range_i 0 h) (g_board g, 0))\<rparr>)"

definition token_int :: "weapon_token option \<Rightarrow> i32" where
  "token_int t = (case t of Some t \<Rightarrow> int (index t) | None \<Rightarrow> - 1)"

definition export_arsenal :: "game \<Rightarrow> i32 list" where
  "export_arsenal g =
     concat (map (\<lambda>i. [token_int (slot_token (g_arsenal g) i), uint (slot_quantity (g_arsenal g) i)]) [0..<10])"

definition import_arsenal :: "i32 list \<Rightarrow> game \<Rightarrow> game" where
  "import_arsenal data g =
     (if length data \<noteq> 20 then g
      else g\<lparr>g_arsenal := fold (\<lambda>slot a.
          let token = from_index (data ! (slot * 2));
              qty = (word_of_int (max 0 (min 65535 (data ! (slot * 2 + 1)))) :: u16)
          in set_slot a slot token qty) [0..<10] arsenal_new\<rparr>)"

subsection \<open>The lock hash\<close>

text \<open>\<open>to_le_bytes\<close> of an integer of \<open>n\<close> bytes, and the FNV-1a hash.\<close>

definition le_bytes :: "nat \<Rightarrow> int \<Rightarrow> u8 list" where
  "le_bytes n z = map (\<lambda>k. word_of_int (z div 2 ^ (8 * k))) [0..<n]"

definition fnv_feed :: "u8 list \<Rightarrow> u32 \<Rightarrow> u32" where
  "fnv_feed bytes h = fold (\<lambda>b h. (h XOR ucast b) * 0x01000193) bytes h"

definition lock_hash_of :: "game \<Rightarrow> u32" where
  "lock_hash_of g =
     (let h = 0x811c9dc5;
          h = fold (\<lambda>v. fnv_feed (le_bytes 4 v)) (export_board g) h;
          h = fnv_feed (le_bytes 8 (s_score (g_score g))) h;
          h = fnv_feed (le_bytes 8 (s_lines (g_score g))) h;
          h = fold (\<lambda>v. fnv_feed (le_bytes 4 v)) (export_arsenal g) h;
          h = fold (\<lambda>c. fnv_feed (le_bytes 4 c)) (flags_raw (g_weapons g)) h;
          h = fold (\<lambda>r. fnv_feed (le_bytes 4 r)) (g_remaining g) h;
          h = fold (\<lambda>t. fnv_feed (le_bytes 4 (int (index t)))) (g_pending g) h;
          h = (case g_pending_board g of
                 Some cells \<Rightarrow> fold (\<lambda>v. fnv_feed (le_bytes 4 v)) cells (fnv_feed [1] h)
               | None \<Rightarrow> fnv_feed [0] h)
      in fnv_feed (le_bytes 8 (uint (rng_raw (g_rng g)))) h)"

subsection \<open>Funds, the bazaar and weapons\<close>

text \<open>
  The Mondale tax multiplies by \<open>1.0 - 0.30\<close>, the double \<open>6305039478318694 / 2 ^ 53\<close>, and truncates.
  The product of an \<open>i32\<close> with it is rounded to 53 significant bits, ties to even.
\<close>

function bit_len :: "int \<Rightarrow> nat" where
  "bit_len z = (if z \<le> 0 then 0 else Suc (bit_len (z div 2)))"
  by pat_completeness auto

termination
  by (relation "measure nat") auto

declare bit_len.simps [simp del]

definition round53 :: "int \<Rightarrow> int" where
  "round53 z =
     (let s = bit_len z - 53; u = 2 ^ s; q = z div u; r = z mod u in
      (if 2 * r < u \<or> (2 * r = u \<and> even q) then q else q + 1) * u)"

definition mondale_kept :: "i32 \<Rightarrow> i64" where
  "mondale_kept clear_funds =
     (let k = round53 (\<bar>clear_funds\<bar> * 6305039478318694) div 2 ^ 53 in
      if clear_funds < 0 then - k else k)"

definition add_score_funds :: "i64 \<Rightarrow> game \<Rightarrow> game" where
  "add_score_funds n g = g\<lparr>g_score := (g_score g)\<lparr>s_funds := s_funds (g_score g) + n\<rparr>\<rparr>"

definition credit_clear_funds :: "i32 \<Rightarrow> game \<Rightarrow> game" where
  "credit_clear_funds clear_funds g =
     (if weapon_active g Mondale then
        (let kept = mondale_kept clear_funds; tax = clear_funds - kept;
             g = (if tax \<noteq> 0 then push_event (FundsStolen tax) g else g)
         in add_score_funds kept g)
      else add_score_funds clear_funds g)"

definition add_lines :: "i32 \<Rightarrow> game \<Rightarrow> game" where
  "add_lines n g = g\<lparr>g_score := (g_score g)\<lparr>s_lines := s_lines (g_score g) + n\<rparr>\<rparr>"

definition update_bazaar :: "game \<Rightarrow> game" where
  "update_bazaar g =
     (let combined = s_op_lines (g_score g) + s_lines (g_score g);
          new_til = BT_LINES_TIL_BAZ - combined mod BT_LINES_TIL_BAZ;
          g = (if new_til > g_lines_til_baz g
               then push_event EnterBazaar (g\<lparr>g_in_bazaar := True\<rparr>) else g)
      in g\<lparr>g_lines_til_baz := new_til\<rparr>)"

definition apply_weapon_off :: "weapon_token \<Rightarrow> game \<Rightarrow> game" where
  "apply_weapon_off token g =
     (let g = g\<lparr>g_weapons := flags_set (g_weapons g) token False,
                g_board := set_active (board_revert_weapon token (g_board g)) token False,
                g_pieces := pm_weapon_off token (g_pieces g)\<rparr>
      in case token of
           Upbyside \<Rightarrow> g\<lparr>g_def_x := BT_DEFAULT_X, g_def_y := BT_DEFAULT_Y, g_delta_y := 1,
                         g_left_x := - 1, g_right_x := 1\<rparr>
         | Speedy \<Rightarrow> g\<lparr>g_base_drop_time := as_i32 (g_base_drop_time g * 2)\<rparr>
         | Meadow \<Rightarrow> g\<lparr>g_base_drop_time := g_base_drop_time g div 2,
                       g_fast_drop_time := g_fast_drop_time g div 2\<rparr>
         | _ \<Rightarrow> g)"

definition tick_duration :: "i32 \<Rightarrow> nat \<Rightarrow> game \<Rightarrow> game" where
  "tick_duration lines i g =
     (if g_remaining g ! i = 0 then g
      else let left = max (g_remaining g ! i - lines) 0;
               g = g\<lparr>g_remaining := (g_remaining g)[i := left]\<rparr>
           in if left = 0 then
                (case from_index (int i) of Some tok \<Rightarrow> apply_weapon_off tok g | None \<Rightarrow> g)
              else g)"

definition tick_durations :: "i32 \<Rightarrow> game \<Rightarrow> game" where
  "tick_durations lines g = fold (tick_duration lines) [0..<BT_MAX_WEAPONS] g"

text \<open>The effect of a weapon coming on that lies in the game itself.\<close>

definition weapon_on_self :: "weapon_token \<Rightarrow> bool \<Rightarrow> game \<Rightarrow> game" where
  "weapon_on_self token was_active g =
     (case token of
        Upbyside \<Rightarrow> g\<lparr>g_def_y := BT_BOARD_HGT - 4, g_delta_y := - 1, g_left_x := 1, g_right_x := - 1\<rparr>
      | Speedy \<Rightarrow>
          (if \<not> was_active then
             (let g = g\<lparr>g_base_drop_time := g_base_drop_time g div 2\<rparr> in
              if g_drop_time g \<noteq> g_fast_drop_time g
              then g\<lparr>g_drop_time := max (g_base_drop_time g) 1\<rparr> else g)
           else g)
      | Meadow \<Rightarrow>
          (if \<not> was_active then
             (let g = g\<lparr>g_fast_drop_time := as_i32 (g_fast_drop_time g * 2),
                        g_base_drop_time := as_i32 (g_base_drop_time g * 2)\<rparr> in
              if g_drop_time g \<noteq> g_fast_drop_time g
              then g\<lparr>g_drop_time := g_base_drop_time g\<rparr> else g)
           else g)
      | Keating \<Rightarrow> g\<lparr>g_score := (g_score g)\<lparr>s_funds := 0\<rparr>\<rparr>
      | Reagan \<Rightarrow> g\<lparr>g_score := (g_score g)\<lparr>s_funds := - s_funds (g_score g)\<rparr>\<rparr>
      | _ \<Rightarrow> g)"

definition apply_weapon_on :: "weapon_token \<Rightarrow> game \<Rightarrow> game option" where
  "apply_weapon_on token g =
     (let was_active = weapon_active g token;
          g = g\<lparr>g_weapons := flags_set (g_weapons g) token True,
                g_remaining := (g_remaining g)[index token := g_remaining g ! index token + duration_of token],
                g_board := set_active (g_board g) token True\<rparr>
      in do {
        (clear, b, r) \<leftarrow> board_apply_weapon token (g_board g) (g_rng g);
        let g = g\<lparr>g_board := b, g_rng := r\<rparr>;
        let g = (if lc_lines clear > 0 then
              push_scored (tick_durations (lc_lines clear) (update_bazaar
                (credit_clear_funds (lc_funds clear) (add_lines (lc_lines clear) g))))
            else g);
        Some (weapon_on_self token was_active (g\<lparr>g_pieces := pm_weapon_on token (g_pieces g)\<rparr>))
      })"

definition force_weapon_off :: "weapon_token \<Rightarrow> game \<Rightarrow> game" where
  "force_weapon_off token g =
     (let g = (if weapon_active g token then apply_weapon_off token g else g) in
      g\<lparr>g_remaining := (g_remaining g)[index token := 0]\<rparr>)"

definition flush_pending :: "game \<Rightarrow> game option" where
  "flush_pending g =
     do {
       g \<leftarrow> fold_opt apply_weapon_on (g_pending g) (g\<lparr>g_pending := []\<rparr>);
       Some (case g_pending_board g of
           Some cells \<Rightarrow> force_weapon_off Upbyside (force_weapon_off Bottle
             (import_board cells (g\<lparr>g_pending_board := None\<rparr>)))
         | None \<Rightarrow> g)
     }"

subsection \<open>Spawning, falling and locking\<close>

definition spawn :: "game \<Rightarrow> game option" where
  "spawn g =
     (let g = g\<lparr>g_x := g_def_x g, g_y := g_def_y g\<rparr> in
      do {
        (p, m, r) \<leftarrow> create (g_pieces g) (g_rng g) (g_def_x g) (g_def_y g);
        let g = g\<lparr>g_pieces := m, g_rng := r, g_x := g_def_x g - int (p_rot p) div 2\<rparr>;
        let (ok, p) = move_to p (g_board g) (g_x g) (g_y g);
        Some (if \<not> ok then push_event GameOver (g\<lparr>g_current := None, g_phase := Over\<rparr>)
          else g\<lparr>g_current := Some p, g_dropping := False, g_drop_time := g_base_drop_time g,
                 g_phase := Falling, g_drop_accum := 0\<rparr>)
      })"

definition start_game :: "game \<Rightarrow> game option" where
  "start_game g = spawn (g\<lparr>g_x := g_def_x g, g_y := g_def_y g\<rparr>)"

definition game_new :: "u64 \<Rightarrow> game option" where
  "game_new seed = start_game (game_fresh seed)"

definition start_slide :: "game \<Rightarrow> game" where
  "start_slide g =
     g\<lparr>g_sliding := 1, g_slide_time := BT_SLIDE_TIME * (1 - of_bool_i (weapon_active g NoSlide)),
       g_phase := Sliding, g_slide_accum := 0\<rparr>"

definition drop_step :: "game \<Rightarrow> game" where
  "drop_step g =
     (case g_current g of
        None \<Rightarrow> g
      | Some p \<Rightarrow>
          (let (ok, p) = move_to p (g_board g) (g_x g) (g_y g + g_delta_y g) in
           if \<not> ok then start_slide (g\<lparr>g_current := Some p\<rparr>)
           else g\<lparr>g_y := g_y g + g_delta_y g, g_current := Some p\<rparr>))"

text \<open>\<open>place\<close>, first half: what happens to a piece that locks, up to the flush of the queues.\<close>

definition lock_piece :: "piece \<Rightarrow> game \<Rightarrow> game option" where
  "lock_piece p g =
     (let g = (if g_dropping g \<and> g_sliding g \<le> 1
               \<and> \<not> can_move_to p (g_board g) (g_x g) (g_y g - g_delta_y g)
               then push_event Airslide g else g);
          g = g\<lparr>g_board := land p (g_board g)\<rparr>
      in do {
        (clear, b) \<leftarrow> check_lines (g_board g);
        let g = add_lines (lc_lines clear) (g\<lparr>g_board := b\<rparr>);
        let g = credit_clear_funds (lc_funds clear) g;
        let g = push_event (Locked (lc_lines clear) (lc_value clear) (lc_funds clear)) g;
        let (idiot, b) = flush_idiot (g_board g);
        let g = g\<lparr>g_board := b\<rparr>;
        let g = (case idiot of Some reason \<Rightarrow> push_event (Idiot reason) g | None \<Rightarrow> g);
        let g = (if lc_lines clear > 0 then tick_durations (lc_lines clear) (update_bazaar g) else g);
        Some (push_scored g)
      })"

definition place :: "bool \<Rightarrow> game \<Rightarrow> game option" where
  "place force g =
     (case g_current g of
        None \<Rightarrow> Some g
      | Some p \<Rightarrow>
          (let g = g\<lparr>g_current := None\<rparr>;
               can_down = can_move_to p (g_board g) (g_x g) (g_y g + g_delta_y g) in
           do {
             g \<leftarrow> (if \<not> can_down \<or> force then
                 do {
                   g \<leftarrow> lock_piece p g;
                   g \<leftarrow> flush_pending g;
                   g \<leftarrow> spawn g;
                   let g = g\<lparr>g_lock_seq := g_lock_seq g + 1\<rparr>;
                   Some (g\<lparr>g_lock_hash := lock_hash_of g\<rparr>)
                 }
               else
                 (let g = g\<lparr>g_y := g_y g + g_delta_y g\<rparr> in
                  Some (g\<lparr>g_current := Some (p\<lparr>p_x := g_x g, p_y := g_y g\<rparr>), g_phase := Falling,
                          g_drop_accum := 0\<rparr>)));
             Some (g\<lparr>g_sliding := 0\<rparr>)
           }))"

subsection \<open>Sub-timers\<close>

definition rotate_internal :: "game \<Rightarrow> game" where
  "rotate_internal g =
     (case g_current g of
        None \<Rightarrow> g
      | Some p \<Rightarrow> g\<lparr>g_current := Some (snd (piece_rotate p (g_board g) False))\<rparr>)"

definition slick_step :: "game \<Rightarrow> game" where
  "slick_step g =
     (case g_current g of
        None \<Rightarrow> g
      | Some p \<Rightarrow>
          (let dir = (if g_slick_dir g = 0 then g_left_x g else g_right_x g);
               (ok, p) = move_to p (g_board g) (g_x g + dir) (g_y g) in
           if ok then g\<lparr>g_x := g_x g + dir, g_current := Some p\<rparr>
           else g\<lparr>g_slick_dir := g_slick_dir g XOR 1, g_current := Some p\<rparr>))"

text \<open>\<open>while accum >= 20 { accum -= 20; step }\<close>: each turn takes 20 from the accumulator.\<close>

lemma rotate_internal_accum [simp]: "g_hatter_accum (rotate_internal g) = g_hatter_accum g"
  by (simp add: rotate_internal_def split: option.split)

lemma slick_step_accum [simp]: "g_slick_accum (slick_step g) = g_slick_accum g"
  by (simp add: slick_step_def Let_def split_beta split: option.split)

function hatter_loop :: "game \<Rightarrow> game" where
  "hatter_loop g =
     (if g_hatter_accum g \<ge> 20
      then hatter_loop (rotate_internal (g\<lparr>g_hatter_accum := g_hatter_accum g - 20\<rparr>)) else g)"
  by pat_completeness auto

termination
  by (relation "measure (\<lambda>g. nat (g_hatter_accum g))") auto

function slick_loop :: "game \<Rightarrow> game" where
  "slick_loop g =
     (if g_slick_accum g \<ge> 20
      then slick_loop (slick_step (g\<lparr>g_slick_accum := g_slick_accum g - 20\<rparr>)) else g)"
  by pat_completeness auto

termination
  by (relation "measure (\<lambda>g. nat (g_slick_accum g))") auto

declare hatter_loop.simps [simp del] slick_loop.simps [simp del]

definition tick_weapons :: "i32 \<Rightarrow> game \<Rightarrow> game" where
  "tick_weapons dt g =
     (let g = (if weapon_active g Hatter
               then hatter_loop (g\<lparr>g_hatter_accum := g_hatter_accum g + dt\<rparr>) else g) in
      if weapon_active g Slick \<and> g_phase g = Falling \<and> \<not> g_dropping g
      then slick_loop (g\<lparr>g_slick_accum := g_slick_accum g + dt\<rparr>) else g)"

subsection \<open>The clock\<close>

lemma drop_step_accum [simp]: "g_drop_accum (drop_step g) = g_drop_accum g"
  by (simp add: drop_step_def start_slide_def Let_def split_beta split: option.split)

text \<open>The gravity loop; \<open>step\<close> is at least 1.\<close>

function drop_loop :: "i32 \<Rightarrow> game \<Rightarrow> game" where
  "drop_loop step g =
     (if step \<ge> 1 \<and> g_phase g = Falling \<and> g_drop_accum g \<ge> step
      then drop_loop step (drop_step (g\<lparr>g_drop_accum := g_drop_accum g - step\<rparr>)) else g)"
  by pat_completeness auto

termination
  by (relation "measure (\<lambda>(step, g). nat (g_drop_accum g))") auto

declare drop_loop.simps [simp del]

partial_function (option) slide_loop :: "i32 \<Rightarrow> game \<Rightarrow> game option" where
  "slide_loop step g =
     (if g_phase g \<noteq> Sliding then Some g
      else if step > 0 \<and> g_slide_accum g < step then Some g
      else Option.bind (place False (if step > 0 then g\<lparr>g_slide_accum := g_slide_accum g - step\<rparr> else g))
        (\<lambda>g. if step = 0 then Some g else slide_loop step g))"

definition tick :: "i32 \<Rightarrow> game \<Rightarrow> game option" where
  "tick dt_ms g =
     (if g_paused g \<or> g_in_bazaar g \<or> g_phase g = Over \<or> dt_ms \<le> 0 then Some g
      else let g = tick_weapons dt_ms g in
        case g_phase g of
          Falling \<Rightarrow>
            (let g = g\<lparr>g_drop_accum := g_drop_accum g + dt_ms\<rparr>; step = max (g_drop_time g) 1
             in Some (drop_loop step g))
        | Sliding \<Rightarrow>
            (let g = g\<lparr>g_slide_accum := g_slide_accum g + dt_ms\<rparr>; step = max (g_slide_time g) 0
             in slide_loop step g)
        | Over \<Rightarrow> Some g)"

subsection \<open>Inputs\<close>

definition move_by :: "i32 \<Rightarrow> game \<Rightarrow> game" where
  "move_by dx g =
     (case g_current g of
        None \<Rightarrow> g
      | Some p \<Rightarrow>
          (let (ok, p) = move_to p (g_board g) (g_x g + dx) (g_y g);
               g = (if ok then
                 (let g = (if g_sliding g \<noteq> 0 then g\<lparr>g_sliding := g_sliding g + 1\<rparr> else g)
                  in g\<lparr>g_x := g_x g + dx\<rparr>) else g)
           in g\<lparr>g_current := Some p\<rparr>))"

definition move_left :: "game \<Rightarrow> game" where
  "move_left g = (if g_paused g \<or> g_phase g = Over then g else move_by (g_left_x g) g)"

definition move_right :: "game \<Rightarrow> game" where
  "move_right g = (if g_paused g \<or> g_phase g = Over then g else move_by (g_right_x g) g)"

definition game_rotate :: "game \<Rightarrow> game" where
  "game_rotate g = (if g_paused g \<or> g_phase g = Over then g else rotate_internal g)"

definition engage_fast_drop :: "game \<Rightarrow> bool \<times> game" where
  "engage_fast_drop g =
     (if g_paused g \<or> g_in_bazaar g \<or> g_phase g = Over then (False, g)
      else let g = g\<lparr>g_dropping := True\<rparr> in
        if g_drop_time g = g_fast_drop_time g then (False, g)
        else (True, g\<lparr>g_drop_time := g_fast_drop_time g, g_drop_accum := 0\<rparr>))"

definition add_score :: "i64 \<Rightarrow> game \<Rightarrow> game" where
  "add_score n g = g\<lparr>g_score := (g_score g)\<lparr>s_score := s_score (g_score g) + n\<rparr>\<rparr>"

definition begin_drop :: "game \<Rightarrow> game" where
  "begin_drop g =
     (let (engaged, g) = engage_fast_drop g in
      if engaged then add_score (BT_BOARD_HGT - g_y g) g else g)"

definition ai_begin_drop :: "game \<Rightarrow> game" where
  "ai_begin_drop g =
     (let (engaged, g) = engage_fast_drop g in
      if engaged then add_score (BT_BOARD_HGT div 2) g else g)"

definition soft_drop :: "game \<Rightarrow> game" where
  "soft_drop g =
     (if g_paused g \<or> g_in_bazaar g \<or> g_phase g \<noteq> Falling then g
      else (drop_step g)\<lparr>g_drop_accum := 0\<rparr>)"

definition set_paused :: "bool \<Rightarrow> game \<Rightarrow> game" where
  "set_paused paused g = g\<lparr>g_paused := paused\<rparr>"

subsection \<open>Weapons, the bazaar and the relay\<close>

definition launch_weapon :: "nat \<Rightarrow> game \<Rightarrow> game" where
  "launch_weapon slot g =
     (if g_in_bazaar g \<or> g_phase g = Over then g
      else case slot_token (g_arsenal g) slot of
        Some tok \<Rightarrow> push_event (WeaponLaunched tok) (g\<lparr>g_arsenal := use_slot (g_arsenal g) slot\<rparr>)
      | None \<Rightarrow> g)"

definition receive_weapon :: "weapon_token \<Rightarrow> game \<Rightarrow> game" where
  "receive_weapon token g = g\<lparr>g_pending := g_pending g @ [token]\<rparr>"

definition queue_board_swap :: "i32 list \<Rightarrow> game \<Rightarrow> game" where
  "queue_board_swap cells g = g\<lparr>g_pending_board := Some cells\<rparr>"

definition insert_one :: "game \<Rightarrow> game" where
  "insert_one g = (let (b, r) = insert_line (g_board g) (g_rng g) in g\<lparr>g_board := b, g_rng := r\<rparr>)"

definition receive_op_score :: "i64 \<Rightarrow> i64 \<Rightarrow> i64 \<Rightarrow> game \<Rightarrow> game" where
  "receive_op_score op_score op_lines op_funds g =
     (let old_op_lines = s_op_lines (g_score g);
          g = g\<lparr>g_score := (g_score g)\<lparr>s_op_score := op_score, s_op_funds := op_funds\<rparr>\<rparr>;
          g = (if weapon_active g Lawyers
               then fold (\<lambda>_. insert_one) (range_i 0 (max (op_lines - old_op_lines) 0)) g else g)
      in update_bazaar (g\<lparr>g_score := (g_score g)\<lparr>s_op_lines := op_lines\<rparr>\<rparr>))"

definition add_funds :: "i64 \<Rightarrow> game \<Rightarrow> game" where
  "add_funds amount g = (if amount = 0 then g else push_scored (add_score_funds amount g))"

definition bazaar_price :: "weapon_token \<Rightarrow> game \<Rightarrow> i32" where
  "bazaar_price token g =
     (let p = price_of token in if weapon_active g Carter then p * 2 else p)"

definition buy_weapon :: "weapon_token \<Rightarrow> game \<Rightarrow> bool \<times> game" where
  "buy_weapon token g =
     (if \<not> g_in_bazaar g then (False, g)
      else let price = price_of token;
               price = (if weapon_active g Carter then price * 2 else price) in
        if s_funds (g_score g) < price then (False, g)
        else let (ok, a) = buy (g_arsenal g) token; g = g\<lparr>g_arsenal := a\<rparr> in
          if ok then (True, add_score_funds (- price) g) else (False, g))"

definition sell_weapon :: "weapon_token \<Rightarrow> game \<Rightarrow> bool \<times> game" where
  "sell_weapon token g =
     (if \<not> g_in_bazaar g then (False, g)
      else let (ok, a) = sell (g_arsenal g) token; g = g\<lparr>g_arsenal := a\<rparr> in
        if ok then (True, add_score_funds (bazaar_price token g) g) else (False, g))"

definition leave_bazaar :: "game \<Rightarrow> game" where
  "leave_bazaar g = g\<lparr>g_in_bazaar := False\<rparr>"

definition swap_board_with :: "game \<Rightarrow> game \<Rightarrow> game \<times> game" where
  "swap_board_with g other =
     (let (g, other) = fold (\<lambda>t (g, other). (force_weapon_off t g, force_weapon_off t other))
            [Bottle, Upbyside] (g, other);
          (b, ob) = swap_cells (g_board g) (g_board other)
      in (g\<lparr>g_board := b\<rparr>, other\<lparr>g_board := ob\<rparr>))"

definition swap_arsenal_with :: "game \<Rightarrow> game \<Rightarrow> game \<times> game" where
  "swap_arsenal_with g other =
     (g\<lparr>g_arsenal := g_arsenal other\<rparr>, other\<lparr>g_arsenal := g_arsenal g\<rparr>)"

definition grant_weapon :: "weapon_token \<Rightarrow> game \<Rightarrow> bool \<times> game" where
  "grant_weapon token g = (let (ok, a) = buy (g_arsenal g) token in (ok, g\<lparr>g_arsenal := a\<rparr>))"

definition render_ids :: "game \<Rightarrow> i32 list" where
  "render_ids g =
     (let b = g_board g; w = b_width b; h = b_height b;
          grid = fold (\<lambda>y grid. fold (\<lambda>x grid. case get b x y of
                Some c \<Rightarrow> grid[nat (y * w + x) := cell_id c] | None \<Rightarrow> grid) (range_i 0 w) grid)
              (range_i 0 h) (replicate (nat (w * h)) (- 2))
      in case g_current g of
           None \<Rightarrow> grid
         | Some p \<Rightarrow> fold (\<lambda>(i, j) grid. case p_cells p ! i ! j of
               Some c \<Rightarrow>
                 (let gx = p_x p + int i; gy = p_y p + int j in
                  if gx \<ge> 0 \<and> gx < w \<and> gy \<ge> 0 \<and> gy < h
                  then grid[nat (gy * w + gx) := cell_id c] else grid)
             | None \<Rightarrow> grid) (squares 8) grid)"

end
