(* ===== verification/GameInv.thy ===== *)
theory GameInv
  imports Game
begin

section \<open>The invariant of a game\<close>

text \<open>
  What holds of every game between two calls, and that every method of \<open>game.rs\<close> returns and keeps
  it. The invariant ties together the state that the code holds twice: the active flags of the game
  and of its board, the flags and the remaining durations, the movement frame and the timing that
  Upbyside, Speedy and Meadow shift, the piece's own position and the game's copy of it.
\<close>

subsection \<open>Fields the small steps leave alone\<close>

lemma push_event_fields [simp]:
  "g_board (push_event e g) = g_board g" "g_pieces (push_event e g) = g_pieces g"
  "g_rng (push_event e g) = g_rng g" "g_score (push_event e g) = g_score g"
  "g_current (push_event e g) = g_current g" "g_x (push_event e g) = g_x g" "g_y (push_event e g) = g_y g"
  "g_def_x (push_event e g) = g_def_x g" "g_def_y (push_event e g) = g_def_y g"
  "g_delta_y (push_event e g) = g_delta_y g" "g_left_x (push_event e g) = g_left_x g"
  "g_right_x (push_event e g) = g_right_x g" "g_base_drop_time (push_event e g) = g_base_drop_time g"
  "g_fast_drop_time (push_event e g) = g_fast_drop_time g" "g_drop_time (push_event e g) = g_drop_time g"
  "g_slide_time (push_event e g) = g_slide_time g" "g_dropping (push_event e g) = g_dropping g"
  "g_sliding (push_event e g) = g_sliding g" "g_phase (push_event e g) = g_phase g"
  "g_drop_accum (push_event e g) = g_drop_accum g" "g_slide_accum (push_event e g) = g_slide_accum g"
  "g_paused (push_event e g) = g_paused g" "g_weapons (push_event e g) = g_weapons g"
  "g_remaining (push_event e g) = g_remaining g" "g_arsenal (push_event e g) = g_arsenal g"
  "g_pending (push_event e g) = g_pending g" "g_pending_board (push_event e g) = g_pending_board g"
  "g_in_bazaar (push_event e g) = g_in_bazaar g" "g_lines_til_baz (push_event e g) = g_lines_til_baz g"
  "g_hatter_accum (push_event e g) = g_hatter_accum g" "g_slick_accum (push_event e g) = g_slick_accum g"
  "g_slick_dir (push_event e g) = g_slick_dir g" "g_lock_seq (push_event e g) = g_lock_seq g"
  "g_lock_hash (push_event e g) = g_lock_hash g" "g_events (push_event e g) = g_events g @ [e]"
  by (simp_all add: push_event_def)

text \<open>
  \<open>core\<close> are the fields of the weapons' state, \<open>motion\<close> the ones of the falling piece and its clock,
  \<open>rest\<close> the queues and counters. A step that only does bookkeeping is described by the groups it
  keeps.
\<close>

definition core :: "game \<Rightarrow> board \<times> piece_manager \<times> rng \<times> active_flags \<times> i32 list
    \<times> i32 \<times> i32 \<times> i32 \<times> i32 \<times> i32 \<times> i32 \<times> i32 \<times> i32" where
  "core g = (g_board g, g_pieces g, g_rng g, g_weapons g, g_remaining g, g_def_x g, g_def_y g,
     g_delta_y g, g_left_x g, g_right_x g, g_base_drop_time g, g_fast_drop_time g, g_drop_time g)"

definition motion :: "game \<Rightarrow> piece option \<times> i32 \<times> i32 \<times> phase \<times> i32 \<times> bool \<times> i32 \<times> i32 \<times> i32 \<times> bool" where
  "motion g = (g_current g, g_x g, g_y g, g_phase g, g_slide_time g, g_dropping g, g_sliding g,
     g_drop_accum g, g_slide_accum g, g_paused g)"

definition queues :: "game \<Rightarrow> arsenal \<times> weapon_token list \<times> i32 list option \<times> int \<times> u32" where
  "queues g = (g_arsenal g, g_pending g, g_pending_board g, g_lock_seq g, g_lock_hash g)"

lemma push_event_groups [simp]:
  "core (push_event e g) = core g" "motion (push_event e g) = motion g" "queues (push_event e g) = queues g"
  by (simp_all add: core_def motion_def queues_def)

lemma push_scored_groups [simp]:
  "core (push_scored g) = core g" "motion (push_scored g) = motion g" "queues (push_scored g) = queues g"
  "g_score (push_scored g) = g_score g" "g_in_bazaar (push_scored g) = g_in_bazaar g"
  "g_lines_til_baz (push_scored g) = g_lines_til_baz g"
  by (simp_all add: push_scored_def)

lemma add_score_funds_groups [simp]:
  "core (add_score_funds n g) = core g" "motion (add_score_funds n g) = motion g"
  "queues (add_score_funds n g) = queues g" "g_in_bazaar (add_score_funds n g) = g_in_bazaar g"
  "g_lines_til_baz (add_score_funds n g) = g_lines_til_baz g"
  "s_funds (g_score (add_score_funds n g)) = s_funds (g_score g) + n"
  "s_lines (g_score (add_score_funds n g)) = s_lines (g_score g)"
  "s_op_lines (g_score (add_score_funds n g)) = s_op_lines (g_score g)"
  "s_score (g_score (add_score_funds n g)) = s_score (g_score g)"
  by (simp_all add: core_def motion_def queues_def add_score_funds_def)

lemma credit_clear_funds_groups [simp]:
  "core (credit_clear_funds n g) = core g" "motion (credit_clear_funds n g) = motion g"
  "queues (credit_clear_funds n g) = queues g" "g_in_bazaar (credit_clear_funds n g) = g_in_bazaar g"
  "g_lines_til_baz (credit_clear_funds n g) = g_lines_til_baz g"
  "s_lines (g_score (credit_clear_funds n g)) = s_lines (g_score g)"
  "s_op_lines (g_score (credit_clear_funds n g)) = s_op_lines (g_score g)"
  by (simp_all add: credit_clear_funds_def Let_def)

lemma add_lines_groups [simp]:
  "core (add_lines n g) = core g" "motion (add_lines n g) = motion g" "queues (add_lines n g) = queues g"
  "g_in_bazaar (add_lines n g) = g_in_bazaar g" "g_lines_til_baz (add_lines n g) = g_lines_til_baz g"
  "s_lines (g_score (add_lines n g)) = s_lines (g_score g) + n"
  "s_op_lines (g_score (add_lines n g)) = s_op_lines (g_score g)"
  by (simp_all add: core_def motion_def queues_def add_lines_def)

lemma update_bazaar_groups [simp]:
  "core (update_bazaar g) = core g" "motion (update_bazaar g) = motion g" "queues (update_bazaar g) = queues g"
  "g_score (update_bazaar g) = g_score g"
  by (simp_all add: core_def motion_def queues_def update_bazaar_def Let_def)

lemma core_eqD:
  assumes "core g' = core g"
  shows "g_board g' = g_board g" "g_pieces g' = g_pieces g" "g_rng g' = g_rng g" "g_weapons g' = g_weapons g"
    "g_remaining g' = g_remaining g" "g_def_x g' = g_def_x g" "g_def_y g' = g_def_y g"
    "g_delta_y g' = g_delta_y g" "g_left_x g' = g_left_x g" "g_right_x g' = g_right_x g"
    "g_base_drop_time g' = g_base_drop_time g" "g_fast_drop_time g' = g_fast_drop_time g"
    "g_drop_time g' = g_drop_time g"
  using assms by (simp_all add: core_def)

lemma motion_eqD:
  assumes "motion g' = motion g"
  shows "g_current g' = g_current g" "g_x g' = g_x g" "g_y g' = g_y g" "g_phase g' = g_phase g"
    "g_slide_time g' = g_slide_time g" "g_dropping g' = g_dropping g" "g_sliding g' = g_sliding g"
    "g_drop_accum g' = g_drop_accum g" "g_slide_accum g' = g_slide_accum g" "g_paused g' = g_paused g"
  using assms by (simp_all add: motion_def)

subsection \<open>The invariant\<close>

definition flags_inv :: "game \<Rightarrow> bool" where
  "flags_inv g \<longleftrightarrow> wf_flags (g_weapons g) \<and> b_active (g_board g) = g_weapons g \<and>
     b_upside (g_board g) = weapon_active g Upbyside \<and> broken (g_pieces g) = weapon_active g Broken"

definition remaining_inv :: "active_flags \<Rightarrow> i32 list \<Rightarrow> bool" where
  "remaining_inv w rem \<longleftrightarrow> length rem = 34 \<and>
     (\<forall>t. 0 \<le> rem ! index t \<and>
       (if duration_of t = 0 then rem ! index t = 0 else 0 < rem ! index t \<longleftrightarrow> is_active w t))"

definition orient_inv :: "game \<Rightarrow> bool" where
  "orient_inv g \<longleftrightarrow> (g_def_x g, g_def_y g, g_delta_y g, g_left_x g, g_right_x g) =
     (if weapon_active g Upbyside then (5, 24, - 1, 1, - 1) else (5, 0, 1, - 1, 1))"

definition timing_inv :: "game \<Rightarrow> bool" where
  "timing_inv g \<longleftrightarrow>
     g_base_drop_time g = (if weapon_active g Meadow then 2 else 1) * (if weapon_active g Speedy then 256 else 512) \<and>
     g_fast_drop_time g = (if weapon_active g Meadow then 20 else 10) \<and> 1 \<le> g_drop_time g"

definition bazaar_inv :: "game \<Rightarrow> bool" where
  "bazaar_inv g \<longleftrightarrow> g_lines_til_baz g = 20 - (s_op_lines (g_score g) + s_lines (g_score g)) mod 20"

definition arsenal_len :: "arsenal \<Rightarrow> bool" where
  "arsenal_len a \<longleftrightarrow> length (rep a) = 10 \<and> length (quantity a) = 10"

definition core_ok :: "game \<Rightarrow> bool" where
  "core_ok g \<longleftrightarrow> std_board (g_board g) \<and> pm_ok (g_pieces g) \<and> flags_inv g \<and> orient_inv g \<and> timing_inv g"

definition setup_ok :: "game \<Rightarrow> bool" where
  "setup_ok g \<longleftrightarrow> core_ok g \<and> remaining_inv (g_weapons g) (g_remaining g) \<and> bazaar_inv g \<and> arsenal_len (g_arsenal g)"

text \<open>The piece in play: where it says it is, a shape the rotations know, and none after the end.\<close>

definition piece_ok :: "game \<Rightarrow> bool" where
  "piece_ok g \<longleftrightarrow> (g_current g = None \<longleftrightarrow> g_phase g = Over) \<and>
     (\<forall>p. g_current g = Some p \<longrightarrow> in_cycle p \<and> p_x p = g_x g \<and> p_y p = g_y g) \<and>
     (g_slide_time g = 0 \<or> g_slide_time g = 150)"

text \<open>The piece does not overlap the stack.\<close>

definition piece_fits :: "game \<Rightarrow> bool" where
  "piece_fits g \<longleftrightarrow> (\<forall>p. g_current g = Some p \<longrightarrow> can_move_to p (g_board g) (g_x g) (g_y g))"

definition game_ok :: "game \<Rightarrow> bool" where
  "game_ok g \<longleftrightarrow> setup_ok g \<and> piece_ok g"

lemma core_ok_cong: "core g' = core g \<Longrightarrow> core_ok g' = core_ok g"
  by (simp add: core_ok_def core_def flags_inv_def orient_inv_def timing_inv_def weapon_active_def)

lemma core_rem_cong: "core g' = core g \<Longrightarrow>
    remaining_inv (g_weapons g') (g_remaining g') = remaining_inv (g_weapons g) (g_remaining g)"
  by (simp add: core_def)

lemma piece_ok_cong: "motion g' = motion g \<Longrightarrow> piece_ok g' = piece_ok g"
  by (simp add: piece_ok_def motion_def)

lemma update_bazaar_inv [simp]: "bazaar_inv (update_bazaar g)"
  by (simp add: bazaar_inv_def update_bazaar_def Let_def bt_const)

lemma setup_ok_cong:
  "core g' = core g \<Longrightarrow> bazaar_inv g' = bazaar_inv g \<Longrightarrow> g_arsenal g' = g_arsenal g \<Longrightarrow> setup_ok g' = setup_ok g"
  using core_ok_cong [of g' g] core_rem_cong [of g' g] by (simp add: setup_ok_def)

subsection \<open>Weapons going off\<close>

definition wpn_ok :: "game \<Rightarrow> bool" where
  "wpn_ok g \<longleftrightarrow> core_ok g \<and> remaining_inv (g_weapons g) (g_remaining g)"

lemma wpn_ok_cong: "core g' = core g \<Longrightarrow> wpn_ok g' = wpn_ok g"
  using core_ok_cong [of g' g] core_rem_cong [of g' g] by (simp add: wpn_ok_def)

lemma setup_ok_wpn: "setup_ok g \<longleftrightarrow> wpn_ok g \<and> bazaar_inv g \<and> arsenal_len (g_arsenal g)"
  by (auto simp: setup_ok_def wpn_ok_def)

lemma apply_weapon_off_fields [simp]:
  "motion (apply_weapon_off t g) = motion g" "queues (apply_weapon_off t g) = queues g"
  "g_score (apply_weapon_off t g) = g_score g" "g_in_bazaar (apply_weapon_off t g) = g_in_bazaar g"
  "g_lines_til_baz (apply_weapon_off t g) = g_lines_til_baz g" "g_remaining (apply_weapon_off t g) = g_remaining g"
  "g_weapons (apply_weapon_off t g) = flags_set (g_weapons g) t False"
  "g_pieces (apply_weapon_off t g) = pm_weapon_off t (g_pieces g)" "g_rng (apply_weapon_off t g) = g_rng g"
  "g_board (apply_weapon_off t g) = set_active (board_revert_weapon t (g_board g)) t False"
  "g_drop_time (apply_weapon_off t g) = g_drop_time g" "g_events (apply_weapon_off t g) = g_events g"
  by (cases t; simp add: apply_weapon_off_def motion_def queues_def Let_def)+

lemma set_active_fields [simp]:
  "b_active (set_active b t v) = flags_set (b_active b) t v" "b_upside (set_active b t v) = b_upside b"
  "b_computer (set_active b t v) = b_computer b" "std_board (set_active b t v) = std_board b"
  "get (set_active b t v) = get b"
  by (simp_all add: set_active_def std_board_def fun_eq_iff)

lemma broken_weapon_off [simp]: "broken (pm_weapon_off t m) = (broken m \<and> t \<noteq> Broken)"
  and broken_weapon_on [simp]: "broken (pm_weapon_on t m) = (broken m \<or> t = Broken)"
  by (cases t; simp add: pm_weapon_off_def pm_weapon_on_def)+

lemma apply_weapon_off_core:
  assumes "core_ok g" "weapon_active g t"
  shows "core_ok (apply_weapon_off t g)"
proof -
  have ok: "std_board (g_board g)" "pm_ok (g_pieces g)" "flags_inv g" "orient_inv g" "timing_inv g"
    using assms(1) by (simp_all add: core_ok_def)
  note R = board_revert_weapon_keeps [OF ok(1), of t]
  have wf: "wf_flags (g_weapons g)" using ok(3) by (simp add: flags_inv_def)
  have act: "weapon_active (apply_weapon_off t g) s \<longleftrightarrow> s \<noteq> t \<and> weapon_active g s" for s
    using wf by (simp add: weapon_active_def)
  have "flags_inv (apply_weapon_off t g)"
    using ok(3) R wf by (auto simp: flags_inv_def act keeps_board_def weapon_active_def)
  moreover have "orient_inv (apply_weapon_off t g)"
    unfolding orient_inv_def act using ok(4)
    by (cases t) (simp_all add: apply_weapon_off_def orient_inv_def weapon_active_def bt_const)
  moreover have "timing_inv (apply_weapon_off t g)"
    unfolding timing_inv_def act using ok(5) assms(2)
    by (cases t) (auto simp: apply_weapon_off_def timing_inv_def weapon_active_def in_i32_def)
  moreover have "std_board (g_board (apply_weapon_off t g))" "pm_ok (g_pieces (apply_weapon_off t g))"
    using R(1) pm_ok_weapon_off [OF ok(2)] by (simp_all add: keeps_board_def)
  ultimately show ?thesis by (simp add: core_ok_def)
qed

lemma remaining_invD:
  assumes "remaining_inv w rem"
  shows "0 \<le> rem ! index t" "rem ! index t \<noteq> 0 \<Longrightarrow> is_active w t" "duration_of t = 0 \<Longrightarrow> rem ! index t = 0"
    "duration_of t \<noteq> 0 \<Longrightarrow> 0 < rem ! index t \<longleftrightarrow> is_active w t"
  using assms by (force simp: remaining_inv_def split: if_splits)+

lemma remaining_inv_set:
  assumes "remaining_inv w rem" "wf_flags w" "0 \<le> v" "if duration_of t = 0 then v = 0 else 0 < v \<longleftrightarrow> on"
  shows "remaining_inv (flags_set w t on) (rem[index t := v])"
  using assms by (simp add: remaining_inv_def nth_list_update)

lemma remaining_inv_same:
  assumes "remaining_inv w rem" "0 \<le> v" "if duration_of t = 0 then v = 0 else 0 < v \<longleftrightarrow> is_active w t"
  shows "remaining_inv w (rem[index t := v])"
  using assms by (simp add: remaining_inv_def nth_list_update)

lemma remaining_inv_off:
  "remaining_inv w rem \<Longrightarrow> wf_flags w \<Longrightarrow> remaining_inv (flags_set w t False) (rem[index t := 0])"
  by (rule remaining_inv_set) simp_all

lemma apply_weapon_off_wpn:
  assumes "wpn_ok g" "weapon_active g t"
  shows "wpn_ok (apply_weapon_off t (g\<lparr>g_remaining := (g_remaining g)[index t := 0]\<rparr>))"
proof -
  let ?g = "g\<lparr>g_remaining := (g_remaining g)[index t := 0]\<rparr>"
  have ok: "core_ok g" "remaining_inv (g_weapons g) (g_remaining g)" using assms(1) by (simp_all add: wpn_ok_def)
  then have wf: "wf_flags (g_weapons g)" by (simp add: core_ok_def flags_inv_def)
  have "core_ok ?g" "weapon_active ?g t"
    using ok(1) assms(2) by (simp_all add: core_ok_def flags_inv_def orient_inv_def timing_inv_def weapon_active_def)
  then show ?thesis
    using apply_weapon_off_core [of ?g t] remaining_inv_off [OF ok(2) wf, of t] by (simp add: wpn_ok_def)
qed

lemma wpn_remaining:
  assumes "core_ok g" "remaining_inv (g_weapons g) rem"
  shows "wpn_ok (g\<lparr>g_remaining := rem\<rparr>)"
  using assms by (simp add: wpn_ok_def core_ok_def flags_inv_def orient_inv_def timing_inv_def weapon_active_def)

lemma remaining_groups [simp]:
  "motion (g\<lparr>g_remaining := rem\<rparr>) = motion g" "queues (g\<lparr>g_remaining := rem\<rparr>) = queues g"
  by (simp_all add: motion_def queues_def)

lemma tick_duration_fields [simp]:
  "motion (tick_duration n i g) = motion g" "queues (tick_duration n i g) = queues g"
  "g_score (tick_duration n i g) = g_score g" "g_in_bazaar (tick_duration n i g) = g_in_bazaar g"
  "g_lines_til_baz (tick_duration n i g) = g_lines_til_baz g" "g_events (tick_duration n i g) = g_events g"
  by (simp_all add: tick_duration_def Let_def split: option.split)

lemma tick_duration_wpn:
  assumes ok: "wpn_ok g" and i: "i < 34"
  shows "wpn_ok (tick_duration n i g)"
proof -
  obtain t where t: "i = index t" using index_ALL_tokens [OF i] by metis
  have R: "remaining_inv (g_weapons g) (g_remaining g)" and core: "core_ok g"
    using ok by (simp_all add: wpn_ok_def)
  let ?left = "max (g_remaining g ! i - n) 0"
  consider "g_remaining g ! i = 0" | "g_remaining g ! i \<noteq> 0" "?left = 0" | "g_remaining g ! i \<noteq> 0" "0 < ?left"
    by linarith
  then show ?thesis
  proof cases
    case 1
    then show ?thesis using ok by (simp add: tick_duration_def)
  next
    case 2
    then have "weapon_active g t"
      using remaining_invD [OF R, of t] t by (simp add: weapon_active_def)
    then show ?thesis
      using 2 apply_weapon_off_wpn [OF ok, of t] t by (simp add: tick_duration_def Let_def)
  next
    case 3
    then have "remaining_inv (g_weapons g) ((g_remaining g)[i := ?left])"
      unfolding t using remaining_invD [OF R, of t] t by (intro remaining_inv_same [OF R]) auto
    then have "wpn_ok (g\<lparr>g_remaining := (g_remaining g)[i := ?left]\<rparr>)"
      by (rule wpn_remaining [OF core])
    then show ?thesis using 3 by (auto simp: tick_duration_def Let_def)
  qed
qed

lemma tick_durations_fields [simp]:
  "motion (tick_durations n g) = motion g" "queues (tick_durations n g) = queues g"
  "g_score (tick_durations n g) = g_score g" "g_in_bazaar (tick_durations n g) = g_in_bazaar g"
  "g_lines_til_baz (tick_durations n g) = g_lines_til_baz g" "g_events (tick_durations n g) = g_events g"
  unfolding tick_durations_def
  by (rule fold_same, simp)+

lemma tick_durations_wpn: "wpn_ok g \<Longrightarrow> wpn_ok (tick_durations n g)"
  unfolding tick_durations_def by (rule fold_preserves) (auto intro: tick_duration_wpn simp: bt_const)

lemma force_weapon_off_eq:
  "force_weapon_off t g = (if weapon_active g t
     then apply_weapon_off t (g\<lparr>g_remaining := (g_remaining g)[index t := 0]\<rparr>)
     else g\<lparr>g_remaining := (g_remaining g)[index t := 0]\<rparr>)"
  by (cases t; simp add: force_weapon_off_def apply_weapon_off_def Let_def)

lemma force_weapon_off_fields [simp]:
  "motion (force_weapon_off t g) = motion g" "queues (force_weapon_off t g) = queues g"
  "g_score (force_weapon_off t g) = g_score g" "g_in_bazaar (force_weapon_off t g) = g_in_bazaar g"
  "g_lines_til_baz (force_weapon_off t g) = g_lines_til_baz g" "g_events (force_weapon_off t g) = g_events g"
  "g_rng (force_weapon_off t g) = g_rng g"
  by (simp_all add: force_weapon_off_eq)

lemma force_weapon_off_wpn:
  assumes "wpn_ok g"
  shows "wpn_ok (force_weapon_off t g)"
proof (cases "weapon_active g t")
  case True
  then show ?thesis using apply_weapon_off_wpn [OF assms] by (simp add: force_weapon_off_eq)
next
  case False
  have "remaining_inv (g_weapons g) ((g_remaining g)[index t := 0])"
    using assms False by (intro remaining_inv_same) (auto simp: wpn_ok_def weapon_active_def)
  then show ?thesis using assms False wpn_remaining by (simp add: force_weapon_off_eq wpn_ok_def)
qed

lemma force_weapon_off_inactive:
  assumes "wpn_ok g"
  shows "\<not> weapon_active (force_weapon_off t g) t"
  using assms by (auto simp: force_weapon_off_eq weapon_active_def wpn_ok_def core_ok_def flags_inv_def)

subsection \<open>Weapons coming on\<close>

lemma weapon_on_self_fields [simp]:
  "motion (weapon_on_self t w g) = motion g" "queues (weapon_on_self t w g) = queues g"
  "g_in_bazaar (weapon_on_self t w g) = g_in_bazaar g" "g_lines_til_baz (weapon_on_self t w g) = g_lines_til_baz g"
  "s_lines (g_score (weapon_on_self t w g)) = s_lines (g_score g)"
  "s_op_lines (g_score (weapon_on_self t w g)) = s_op_lines (g_score g)"
  "g_board (weapon_on_self t w g) = g_board g" "g_rng (weapon_on_self t w g) = g_rng g"
  "g_pieces (weapon_on_self t w g) = g_pieces g" "g_weapons (weapon_on_self t w g) = g_weapons g"
  "g_remaining (weapon_on_self t w g) = g_remaining g" "g_events (weapon_on_self t w g) = g_events g"
  by (cases t; simp add: weapon_on_self_def motion_def queues_def Let_def)+

lemma remaining_inv_on:
  assumes "remaining_inv w rem" "wf_flags w"
  shows "remaining_inv (flags_set w t True) (rem[index t := rem ! index t + duration_of t])"
proof (rule remaining_inv_set [OF assms])
  note D = remaining_invD [OF assms(1), of t] duration_of_nonneg [of t]
  show "0 \<le> rem ! index t + duration_of t" using D by simp
  show "if duration_of t = 0 then rem ! index t + duration_of t = 0 else 0 < rem ! index t + duration_of t \<longleftrightarrow> True"
  proof (cases "duration_of t = 0")
    case False
    then have "0 < duration_of t" by (simp add: order_less_le)
    then show ?thesis using D(1) by simp
  qed (use D in simp)
qed

text \<open>
  The middle of \<open>apply_weapon_on\<close>: the flag, the duration and the board are set, the lines that only
  Bottle can complete are credited; the game's own share of the effect follows.
\<close>

definition switched_on :: "weapon_token \<Rightarrow> board \<Rightarrow> rng \<Rightarrow> game \<Rightarrow> game" where
  "switched_on t b r g = g\<lparr>g_weapons := flags_set (g_weapons g) t True,
     g_remaining := (g_remaining g)[index t := g_remaining g ! index t + duration_of t], g_board := b, g_rng := r\<rparr>"

definition credit_weapon_clear :: "line_clear \<Rightarrow> game \<Rightarrow> game" where
  "credit_weapon_clear clear g =
     (if lc_lines clear > 0 then push_scored (tick_durations (lc_lines clear) (update_bazaar
        (credit_clear_funds (lc_funds clear) (add_lines (lc_lines clear) g)))) else g)"

lemma apply_weapon_on_eq:
  "apply_weapon_on t g =
    do {
      (clear, b, r) \<leftarrow> board_apply_weapon t (set_active (g_board g) t True) (g_rng g);
      let g' = credit_weapon_clear clear (switched_on t b r g);
      Some (weapon_on_self t (weapon_active g t) (g'\<lparr>g_pieces := pm_weapon_on t (g_pieces g')\<rparr>))
    }"
  by (cases "board_apply_weapon t (set_active (g_board g) t True) (g_rng g)")
    (simp_all add: apply_weapon_on_def credit_weapon_clear_def switched_on_def Let_def split_beta)

lemma switched_on_fields [simp]:
  "motion (switched_on t b r g) = motion g" "queues (switched_on t b r g) = queues g"
  "g_score (switched_on t b r g) = g_score g" "g_in_bazaar (switched_on t b r g) = g_in_bazaar g"
  "g_lines_til_baz (switched_on t b r g) = g_lines_til_baz g" "g_events (switched_on t b r g) = g_events g"
  "bazaar_inv (switched_on t b r g) = bazaar_inv g"
  by (simp_all add: switched_on_def motion_def queues_def bazaar_inv_def)

lemma credit_weapon_clear_fields [simp]:
  "motion (credit_weapon_clear c g) = motion g" "queues (credit_weapon_clear c g) = queues g"
  by (simp_all add: credit_weapon_clear_def)

lemma credit_weapon_clear_none: "lc_lines c \<le> 0 \<Longrightarrow> credit_weapon_clear c g = g"
  by (simp add: credit_weapon_clear_def)

lemma bazaar_inv_cong:
  "s_lines (g_score g') = s_lines (g_score g) \<Longrightarrow> s_op_lines (g_score g') = s_op_lines (g_score g) \<Longrightarrow>
    g_lines_til_baz g' = g_lines_til_baz g \<Longrightarrow> bazaar_inv g' = bazaar_inv g"
  by (simp add: bazaar_inv_def)

lemma credit_weapon_clear_bazaar: "bazaar_inv g \<Longrightarrow> bazaar_inv (credit_weapon_clear c g)"
proof -
  have "bazaar_inv (push_scored (tick_durations n (update_bazaar h))) = bazaar_inv (update_bazaar h)" for n h
    by (rule bazaar_inv_cong) simp_all
  then show "bazaar_inv g \<Longrightarrow> ?thesis" by (simp add: credit_weapon_clear_def)
qed

lemma credit_weapon_clear_wpn: "wpn_ok g \<Longrightarrow> wpn_ok (credit_weapon_clear c g)"
proof -
  have "wpn_ok (push_scored g') = wpn_ok g'" for g' by (rule wpn_ok_cong) simp
  moreover have "wpn_ok (update_bazaar (credit_clear_funds m (add_lines n g))) = wpn_ok g" for m n
    by (rule wpn_ok_cong) simp
  ultimately show "wpn_ok g \<Longrightarrow> ?thesis"
    by (simp add: credit_weapon_clear_def tick_durations_wpn)
qed

text \<open>What is switched on in the board and the flags, before the game's own share.\<close>

lemma switched_on_flags:
  assumes "core_ok g" "keeps_board (set_active (g_board g) t True) b"
    and "b_upside b \<longleftrightarrow> t = Upbyside \<or> b_upside (g_board g)"
  shows "std_board b" "wf_flags (g_weapons (switched_on t b r g))" "b_active b = g_weapons (switched_on t b r g)"
    "weapon_active (switched_on t b r g) s \<longleftrightarrow> s = t \<or> weapon_active g s"
    "b_upside b \<longleftrightarrow> weapon_active (switched_on t b r g) Upbyside"
  using assms by (auto simp: keeps_board_def core_ok_def flags_inv_def switched_on_def weapon_active_def)

lemma switched_on_remaining:
  assumes "wpn_ok g"
  shows "remaining_inv (g_weapons (switched_on t b r g)) (g_remaining (switched_on t b r g))"
  using assms remaining_inv_on [of "g_weapons g" "g_remaining g" t]
  by (simp add: wpn_ok_def core_ok_def flags_inv_def switched_on_def)

lemma on_self_core:
  fixes r :: rng
  assumes ok: "core_ok g" and b: "keeps_board (set_active (g_board g) t True) b"
    "b_upside b \<longleftrightarrow> t = Upbyside \<or> b_upside (g_board g)"
  defines "h \<equiv> weapon_on_self t (weapon_active g t) ((switched_on t b r g)\<lparr>g_pieces := pm_weapon_on t (g_pieces g)\<rparr>)"
  shows "core_ok h"
proof -
  note F = switched_on_flags(1) [OF ok b] switched_on_flags(2-5) [OF ok b, where r = r]
  have o: "orient_inv g" "timing_inv g" "broken (g_pieces g) = weapon_active g Broken" "pm_ok (g_pieces g)"
    using ok by (simp_all add: core_ok_def flags_inv_def)
  have act: "weapon_active h s \<longleftrightarrow> s = t \<or> weapon_active g s" for s
    using F(4) [of s] by (simp add: h_def weapon_active_def)
  have g: "g_board h = b" "g_weapons h = g_weapons (switched_on t b r g)" "g_pieces h = pm_weapon_on t (g_pieces g)"
    by (simp_all add: h_def switched_on_def)
  have "flags_inv h"
    unfolding flags_inv_def act g using F(2,3,5) F(4) [of Upbyside] o(3) by (auto simp: weapon_active_def)
  moreover have "orient_inv h"
    unfolding orient_inv_def act using o(1)
    by (cases "weapon_active g Upbyside"; cases t;
        simp add: h_def weapon_on_self_def switched_on_def orient_inv_def bt_const Let_def)
  moreover have "timing_inv h"
    unfolding timing_inv_def act using o(2)
    by (cases t) (auto simp: h_def weapon_on_self_def switched_on_def timing_inv_def in_i32_def Let_def)
  ultimately show ?thesis using F(1) g pm_ok_weapon_on [OF o(4)] by (simp add: core_ok_def)
qed

lemma switched_on_wpn:
  assumes ok: "wpn_ok g" and b: "keeps_board (set_active (g_board g) Bottle True) b" "b_upside b = b_upside (g_board g)"
  shows "wpn_ok (switched_on Bottle b r g)"
proof -
  have core: "core_ok g" using ok by (simp add: wpn_ok_def)
  have "core_ok (weapon_on_self Bottle (weapon_active g Bottle)
      ((switched_on Bottle b r g)\<lparr>g_pieces := pm_weapon_on Bottle (g_pieces g)\<rparr>))"
    using on_self_core [OF core b(1)] b(2) by simp
  moreover have "weapon_on_self Bottle w ((switched_on Bottle b r g)\<lparr>g_pieces := pm_weapon_on Bottle (g_pieces g)\<rparr>)
      = switched_on Bottle b r g" for w
    by (simp add: weapon_on_self_def pm_weapon_on_def switched_on_def)
  ultimately show ?thesis using switched_on_remaining [OF ok] by (simp add: wpn_ok_def)
qed

lemma apply_weapon_on_returns:
  assumes ok: "setup_ok g"
  shows "returns (\<lambda>g'. setup_ok g' \<and> motion g' = motion g \<and> queues g' = queues g) (apply_weapon_on t g)"
proof -
  have core: "core_ok g" and w: "wpn_ok g" using ok by (simp_all add: setup_ok_def wpn_ok_def)
  then have std: "std_board (set_active (g_board g) t True)" by (simp add: core_ok_def)
  show ?thesis
    unfolding apply_weapon_on_eq
  proof (rule returns_bind [OF board_apply_weapon_keeps [OF std, of t "g_rng g"]], clarsimp simp del: Let_def, goal_cases)
    case (1 c b r)
    let ?s = "switched_on t b r g"
    let ?g' = "credit_weapon_clear c ?s"
    let ?h = "weapon_on_self t (weapon_active g t) (?g'\<lparr>g_pieces := pm_weapon_on t (g_pieces ?g')\<rparr>)"
    have wpn: "wpn_ok ?h"
    proof (cases "t = Bottle")
      case True
      then have "wpn_ok ?g'"
        using credit_weapon_clear_wpn [OF switched_on_wpn [OF w]] 1 by simp
      moreover have "?h = ?g'" using True by (simp add: weapon_on_self_def pm_weapon_on_def)
      ultimately show ?thesis by simp
    next
      case False
      then have "?g' = ?s" using 1 by (simp add: credit_weapon_clear_none line_clear_default_def)
      moreover have "g_pieces ?s = g_pieces g" by (simp add: switched_on_def)
      ultimately show ?thesis
        using on_self_core [OF core, of t b r] 1 switched_on_remaining [OF w, of t b r] by (simp add: wpn_ok_def)
    qed
    have m: "motion (g\<lparr>g_pieces := m\<rparr>) = motion g" "queues (g\<lparr>g_pieces := m\<rparr>) = queues g" for g m
      by (simp_all add: motion_def queues_def)
    have q: "queues ?h = queues g" and mo: "motion ?h = motion g" by (simp_all add: m)
    have "bazaar_inv ?g'" using ok by (intro credit_weapon_clear_bazaar) (simp add: setup_ok_def)
    then have "bazaar_inv ?h" by (subst bazaar_inv_cong [where g = ?g']) simp_all
    moreover have "g_arsenal ?h = g_arsenal g" using q by (simp add: queues_def)
    ultimately have "setup_ok ?h" using wpn ok by (simp add: setup_ok_wpn)
    then show ?case using q mo by (simp add: Let_def)
  qed
qed

end
