(* ===== verification/GameSteps.thy ===== *)
theory GameSteps
  imports GameInv
begin

section \<open>Every step of a game returns and keeps the invariant\<close>

text \<open>
  The lock of a piece, the flush of the queues, the spawn of the next piece, the clock and the inputs
  of \<open>game.rs\<close>, each shown to return on every game that satisfies the invariant and to keep it; the
  step relation of a game under its public methods, and what holds of every reachable game.
\<close>

subsection \<open>Boards from the wire\<close>

text \<open>The part of the invariant that speaks of the board.\<close>

definition board_like :: "board \<Rightarrow> board \<Rightarrow> bool" where
  "board_like b b' \<longleftrightarrow> std_board b' \<and> b_active b' = b_active b \<and> b_upside b' = b_upside b"

lemma board_like_frame: "std_board b \<Longrightarrow> wf_board b' \<Longrightarrow> same_frame b b' \<Longrightarrow> board_like b b'"
  using std_board_frame [of b b'] by (simp add: board_like_def same_frameD)

lemma wpn_ok_board:
  assumes "wpn_ok g" "board_like (g_board g) b"
  shows "wpn_ok (g\<lparr>g_board := b\<rparr>)"
  using assms
  by (simp add: wpn_ok_def core_ok_def flags_inv_def orient_inv_def timing_inv_def weapon_active_def board_like_def)

lemma wpn_ok_pieces:
  assumes "wpn_ok g" "pm_ok m" "broken m = broken (g_pieces g)"
  shows "wpn_ok (g\<lparr>g_pieces := m, g_rng := r\<rparr>)"
  using assms
  by (simp add: wpn_ok_def core_ok_def flags_inv_def orient_inv_def timing_inv_def weapon_active_def)

lemma wpn_ok_std: "wpn_ok g \<Longrightarrow> std_board (g_board g)"
  by (simp add: wpn_ok_def core_ok_def)

subsection \<open>Boards from the wire\<close>

lemma import_cells_keeps:
  assumes step: "\<And>b x y c. P b \<Longrightarrow> P (set_cell b x y c)" and "P b"
  shows "P (fst (fold (\<lambda>y s. fold (\<lambda>x (b, i). (set_cell b x y (c i), i + 4)) xs s) ys (b, i :: nat)))"
proof (rule fold_preserves [where P = "\<lambda>s. P (fst s)"])
  fix y and s :: "board \<times> nat" assume "P (fst s)"
  then show "P (fst (fold (\<lambda>x (b, i). (set_cell b x y (c i), i + 4)) xs s))"
    by (rule fold_preserves [where P = "\<lambda>s. P (fst s)"]) (simp add: split_beta step)
qed (simp add: assms)

lemma import_board_fields [simp]:
  "motion (import_board d g) = motion g" "queues (import_board d g) = queues g"
  "g_score (import_board d g) = g_score g" "g_lines_til_baz (import_board d g) = g_lines_til_baz g"
  "g_in_bazaar (import_board d g) = g_in_bazaar g" "g_pieces (import_board d g) = g_pieces g"
  "g_rng (import_board d g) = g_rng g" "g_weapons (import_board d g) = g_weapons g"
  "g_remaining (import_board d g) = g_remaining g" "g_events (import_board d g) = g_events g"
  by (simp_all add: import_board_def motion_def queues_def Let_def)

lemma import_board_eq:
  obtains b where "import_board d g = g\<lparr>g_board := b\<rparr>" "wf_board (g_board g) \<Longrightarrow> wf_board b" "same_frame (g_board g) b"
proof (cases "length d = nat (b_width (g_board g) * b_height (g_board g) * 4)")
  case True
  let ?b = "fst (fold (\<lambda>y s. fold (\<lambda>x (b, i).
             (set_cell b x y (decode [d ! i, d ! (i + 1), d ! (i + 2), d ! (i + 3)]), i + 4))
             (range_i 0 (b_width (g_board g))) s) (range_i 0 (b_height (g_board g))) (g_board g, 0))"
  have "import_board d g = g\<lparr>g_board := ?b\<rparr>" using True by (simp add: import_board_def Let_def)
  moreover have "wf_board (g_board g) \<Longrightarrow> wf_board ?b"
    by (rule import_cells_keeps [where P = wf_board]) simp_all
  moreover have "same_frame (g_board g) ?b"
    by (rule import_cells_keeps) (auto intro: same_frame_trans)
  ultimately show ?thesis by (rule that)
next
  case False
  then show ?thesis by (intro that [of "g_board g"]) (simp_all add: import_board_def Let_def)
qed

lemma import_board_wpn: "wpn_ok g \<Longrightarrow> wpn_ok (import_board d g)"
  by (rule import_board_eq [of d g]) (simp add: wpn_ok_board board_like_frame wpn_ok_std)

subsection \<open>The queues\<close>

lemma flush_pending_eq:
  "flush_pending g = do {
     g \<leftarrow> fold_opt apply_weapon_on (g_pending g) (g\<lparr>g_pending := []\<rparr>);
     Some (case g_pending_board g of
         Some cells \<Rightarrow> force_weapon_off Upbyside (force_weapon_off Bottle
           (import_board cells (g\<lparr>g_pending_board := None\<rparr>)))
       | None \<Rightarrow> g)
   }"
  by (simp add: flush_pending_def)

lemma setup_ok_queues:
  "setup_ok (g\<lparr>g_pending := p\<rparr>) = setup_ok g" "setup_ok (g\<lparr>g_pending_board := pb\<rparr>) = setup_ok g"
  by (rule setup_ok_cong; simp add: core_def bazaar_inv_def)+

lemma flush_pending_returns:
  assumes ok: "setup_ok g"
  shows "returns (\<lambda>g'. setup_ok g' \<and> motion g' = motion g \<and> g_arsenal g' = g_arsenal g \<and> g_pending g' = []
      \<and> g_pending_board g' = None \<and> g_lock_seq g' = g_lock_seq g) (flush_pending g)"
proof -
  let ?g = "g\<lparr>g_pending := []\<rparr>"
  let ?P = "\<lambda>g'. setup_ok g' \<and> motion g' = motion g \<and> queues g' = queues ?g"
  have m: "motion ?g = motion g" "motion (h\<lparr>g_pending_board := None\<rparr>) = motion h" for h
    by (simp_all add: motion_def)
  have on: "returns ?P (fold_opt apply_weapon_on (g_pending g) ?g)"
  proof (rule returns_fold_opt)
    show "?P ?g" using ok m by (simp add: setup_ok_queues)
    fix t h assume "?P h"
    then show "returns ?P (apply_weapon_on t h)"
      using apply_weapon_on_returns [of h t] by (auto elim!: returns_mono)
  qed
  show ?thesis
    unfolding flush_pending_eq
  proof (rule returns_bind [OF on])
    fix h assume h: "?P h"
    then have q: "g_arsenal h = g_arsenal g" "g_pending h = []" "g_lock_seq h = g_lock_seq g"
      by (simp_all add: queues_def)
    show "returns (\<lambda>g'. setup_ok g' \<and> motion g' = motion g \<and> g_arsenal g' = g_arsenal g \<and> g_pending g' = []
        \<and> g_pending_board g' = None \<and> g_lock_seq g' = g_lock_seq g)
      (Some (case g_pending_board h of Some cells \<Rightarrow> force_weapon_off Upbyside (force_weapon_off Bottle
           (import_board cells (h\<lparr>g_pending_board := None\<rparr>))) | None \<Rightarrow> h))"
    proof (cases "g_pending_board h")
      case (Some cells)
      let ?h = "h\<lparr>g_pending_board := None\<rparr>"
      let ?k = "force_weapon_off Upbyside (force_weapon_off Bottle (import_board cells ?h))"
      have s: "setup_ok ?h" using h by (simp add: setup_ok_queues)
      then have "wpn_ok ?k" by (simp add: setup_ok_wpn force_weapon_off_wpn import_board_wpn)
      moreover have "queues ?k = queues ?h" "motion ?k = motion ?h" by simp_all
      moreover have "bazaar_inv ?k = bazaar_inv ?h" by (rule bazaar_inv_cong) simp_all
      ultimately have "setup_ok ?k \<and> motion ?k = motion g \<and> queues ?k = queues ?h"
        using s h m by (simp add: setup_ok_wpn queues_def)
      then show ?thesis using q Some by (simp add: queues_def)
    qed (use h q in simp)
  qed
qed

subsection \<open>The lock\<close>

lemma board_like_land: "std_board b \<Longrightarrow> board_like b (land p b)"
  using land_law(1,2) [of b p] by (auto simp: board_like_def std_board_iff same_setup_def)

lemma board_like_cfg: "std_board b \<Longrightarrow> wf_board b' \<Longrightarrow> same_cfg b b' \<Longrightarrow> board_like b b'"
  using std_board_cfg [of b b'] by (simp add: board_like_def same_cfgD)

lemma board_like_trans [trans]: "board_like a b \<Longrightarrow> board_like b c \<Longrightarrow> board_like a c"
  by (simp add: board_like_def)

lemma flush_idiot_like: "std_board b \<Longrightarrow> board_like b (snd (flush_idiot b))"
  by (simp add: board_like_def flush_idiot_def std_board_def Let_def)

text \<open>What a lock leaves alone: the piece's motion, the queues and the hash of the last lock.\<close>

lemma setup_ok_board:
  assumes "setup_ok g" "board_like (g_board g) b"
  shows "setup_ok (g\<lparr>g_board := b\<rparr>)"
  using assms wpn_ok_board [of g b] by (simp add: setup_ok_wpn bazaar_inv_def)

lemma board_groups [simp]:
  "motion (g\<lparr>g_board := b\<rparr>) = motion g" "queues (g\<lparr>g_board := b\<rparr>) = queues g"
  by (simp_all add: motion_def queues_def)

definition after_clear :: "line_clear \<Rightarrow> game \<Rightarrow> game" where
  "after_clear clear g =
     (let g = push_event (Locked (lc_lines clear) (lc_value clear) (lc_funds clear))
                (credit_clear_funds (lc_funds clear) (add_lines (lc_lines clear) g));
          (idiot, b) = flush_idiot (g_board g);
          g = g\<lparr>g_board := b\<rparr>;
          g = (case idiot of Some reason \<Rightarrow> push_event (Idiot reason) g | None \<Rightarrow> g);
          g = (if lc_lines clear > 0 then tick_durations (lc_lines clear) (update_bazaar g) else g)
      in push_scored g)"

definition note_airslide :: "piece \<Rightarrow> game \<Rightarrow> game" where
  "note_airslide p g = (if g_dropping g \<and> g_sliding g \<le> 1
       \<and> \<not> can_move_to p (g_board g) (g_x g) (g_y g - g_delta_y g) then push_event Airslide g else g)"

lemma lock_piece_eq:
  "lock_piece p g = do {
     (clear, b) \<leftarrow> check_lines (land p (g_board g));
     Some (after_clear clear ((note_airslide p g)\<lparr>g_board := b\<rparr>))
   }"
proof -
  have "g_board (note_airslide p g) = g_board g" by (simp add: note_airslide_def)
  then show ?thesis
    by (cases "check_lines (land p (g_board g))")
      (simp_all add: lock_piece_def after_clear_def Let_def split_beta cong: if_cong option.case_cong
        flip: note_airslide_def)
qed

lemma note_airslide_groups [simp]:
  "core (note_airslide p g) = core g" "motion (note_airslide p g) = motion g" "queues (note_airslide p g) = queues g"
  "g_board (note_airslide p g) = g_board g" "g_score (note_airslide p g) = g_score g"
  "g_lines_til_baz (note_airslide p g) = g_lines_til_baz g" "g_in_bazaar (note_airslide p g) = g_in_bazaar g"
  by (simp_all add: note_airslide_def)

lemma note_airslide_setup [simp]: "setup_ok (note_airslide p g) = setup_ok g"
  by (rule setup_ok_cong) (simp_all add: bazaar_inv_def note_airslide_def)

lemma after_clear_keeps:
  assumes ok: "wpn_ok g" and baz: "bazaar_inv g" "arsenal_len (g_arsenal g)" and n: "0 \<le> lc_lines c"
  shows "setup_ok (after_clear c g) \<and> motion (after_clear c g) = motion g \<and> queues (after_clear c g) = queues g"
proof -
  let ?g1 = "push_event (Locked (lc_lines c) (lc_value c) (lc_funds c))
                (credit_clear_funds (lc_funds c) (add_lines (lc_lines c) g))"
  let ?i = "flush_idiot (g_board ?g1)"
  let ?g2 = "?g1\<lparr>g_board := snd ?i\<rparr>"
  let ?g3 = "case fst ?i of Some reason \<Rightarrow> push_event (Idiot reason) ?g2 | None \<Rightarrow> ?g2"
  let ?g4 = "if lc_lines c > 0 then tick_durations (lc_lines c) (update_bazaar ?g3) else ?g3"
  have eq: "after_clear c g = push_scored ?g4" by (simp add: after_clear_def split_beta Let_def)
  have "wpn_ok ?g1" using ok by (subst wpn_ok_cong [where g = g]) simp_all
  then have "wpn_ok ?g2" by (intro wpn_ok_board flush_idiot_like) (simp_all only: wpn_ok_std)
  then have w3: "wpn_ok ?g3" by (subst wpn_ok_cong [where g = ?g2]) (simp_all split: option.split)
  have m3: "motion ?g3 = motion g" "queues ?g3 = queues g" by (simp_all split: option.split)
  have u: "wpn_ok (update_bazaar h) = wpn_ok h" for h by (rule wpn_ok_cong) simp
  have w4: "wpn_ok ?g4" using w3 by (simp add: u tick_durations_wpn)
  have m4: "motion ?g4 = motion g" "queues ?g4 = queues g" using m3 by simp_all
  have b4: "bazaar_inv ?g4"
  proof (cases "lc_lines c > 0")
    case True
    then have "bazaar_inv ?g4 = bazaar_inv (update_bazaar ?g3)" by (intro bazaar_inv_cong) simp_all
    then show ?thesis by simp
  next
    case False
    then have "bazaar_inv ?g4 = bazaar_inv g"
      using n by (intro bazaar_inv_cong) (simp_all split: option.split)
    then show ?thesis using baz by simp
  qed
  obtain h where h: "h = ?g4" by blast
  note facts = w4 [folded h] b4 [folded h] m4 [folded h] eq [folded h]
  have "wpn_ok (push_scored h)" "bazaar_inv (push_scored h)"
    using facts(1,2) wpn_ok_cong [of "push_scored h" h] bazaar_inv_cong [of "push_scored h" h] by simp_all
  moreover have "g_arsenal (push_scored h) = g_arsenal g" using facts(4) by (simp add: push_scored_def queues_def)
  ultimately show ?thesis using facts baz(2) by (simp add: setup_ok_wpn)
qed

lemma lock_piece_returns:
  assumes ok: "setup_ok g"
  shows "returns (\<lambda>g'. setup_ok g' \<and> motion g' = motion g \<and> queues g' = queues g) (lock_piece p g)"
proof -
  have std: "std_board (g_board g)" using ok by (simp add: setup_ok_wpn wpn_ok_std)
  note L = board_like_land [OF std, of p]
  have wf: "wf_board (land p (g_board g))" using L by (simp add: board_like_def)
  show ?thesis
    unfolding lock_piece_eq
  proof (rule returns_bind [OF check_lines_returns [OF wf]], clarify, goal_cases)
    case (1 c b)
    have like: "board_like (g_board g) b"
      using L board_like_cfg [of "land p (g_board g)" b] 1 by (auto simp: board_like_def)
    let ?g = "(note_airslide p g)\<lparr>g_board := b\<rparr>"
    have "setup_ok ?g" using ok like by (intro setup_ok_board) simp_all
    then show ?case using after_clear_keeps [of ?g c] 1 by (simp add: setup_ok_wpn)
  qed
qed

subsection \<open>The spawn\<close>

definition slide_ok :: "game \<Rightarrow> bool" where
  "slide_ok g \<longleftrightarrow> g_slide_time g = 0 \<or> g_slide_time g = 150"

lemma piece_ok_slide: "piece_ok g \<Longrightarrow> slide_ok g"
  by (simp add: piece_ok_def slide_ok_def)

lemma setup_ok_motion:
  "core g' = core g \<Longrightarrow> g_score g' = g_score g \<Longrightarrow> g_lines_til_baz g' = g_lines_til_baz g \<Longrightarrow>
    g_arsenal g' = g_arsenal g \<Longrightarrow> setup_ok g' = setup_ok g"
  by (rule setup_ok_cong) (simp_all add: bazaar_inv_def)

lemma setup_ok_drop_time:
  "core (g'\<lparr>g_drop_time := g_drop_time g\<rparr>) = core g \<Longrightarrow> 1 \<le> g_drop_time g' \<Longrightarrow> g_score g' = g_score g \<Longrightarrow>
    g_lines_til_baz g' = g_lines_til_baz g \<Longrightarrow> g_arsenal g' = g_arsenal g \<Longrightarrow> setup_ok g \<Longrightarrow> setup_ok g'"
  by (simp add: setup_ok_def core_ok_def core_def flags_inv_def orient_inv_def timing_inv_def weapon_active_def bazaar_inv_def)

lemma spawn_returns:
  assumes ok: "setup_ok g" and slide: "slide_ok g"
  shows "returns (\<lambda>g'. game_ok g' \<and> piece_fits g' \<and> g_phase g' \<noteq> Sliding \<and> g_lock_seq g' = g_lock_seq g
      \<and> (g_phase g' = Over \<longrightarrow> g_events g' = g_events g @ [GameOver])) (spawn g)"
proof -
  have pm: "pm_ok (g_pieces g)" and w: "wpn_ok g" using ok by (simp_all add: setup_ok_def core_ok_def wpn_ok_def)
  have base: "1 \<le> g_base_drop_time g" using ok by (simp add: setup_ok_def core_ok_def timing_inv_def)
  show ?thesis
    unfolding spawn_def Let_def
  proof (simp, rule returns_bind [OF create_returns [OF pm]], clarify, goal_cases)
    case (1 p m r)
    let ?x = "g_def_x g - int (p_rot p) div 2"
    let ?g = "g\<lparr>g_y := g_def_y g, g_pieces := m, g_rng := r, g_x := ?x\<rparr>"
    have "broken m = broken (g_pieces g)" using arg_cong [OF 1(6), of broken] by simp
    then have "wpn_ok (g\<lparr>g_pieces := m, g_rng := r\<rparr>)" using wpn_ok_pieces [OF w 1(2)] by simp
    then have s0: "setup_ok (g\<lparr>g_pieces := m, g_rng := r\<rparr>)"
      using ok by (simp add: setup_ok_wpn bazaar_inv_def)
    have s1: "setup_ok ?g"
      using s0 by (subst setup_ok_motion [where g = "g\<lparr>g_pieces := m, g_rng := r\<rparr>"]) (simp_all add: core_def)
    show ?case
    proof (cases "can_move_to p (g_board g) ?x (g_def_y g)")
      case True
      let ?q = "p\<lparr>p_x := ?x, p_y := g_def_y g\<rparr>"
      let ?h = "?g\<lparr>g_current := Some ?q, g_dropping := False, g_drop_time := g_base_drop_time g,
                 g_phase := Falling, g_drop_accum := 0\<rparr>"
      have "setup_ok ?h"
        using s1 base by (intro setup_ok_drop_time [where g = ?g and g' = ?h]) (simp_all add: core_def)
      moreover have "piece_ok ?h" using slide 1(3) by (simp add: piece_ok_def slide_ok_def in_cycle_move)
      moreover have "piece_fits ?h" using True by (simp add: piece_fits_def can_move_to_def)
      ultimately show ?thesis using True by (simp add: move_to_True game_ok_def Let_def)
    next
      case False
      let ?h = "push_event GameOver (?g\<lparr>g_current := None, g_phase := Over\<rparr>)"
      have "setup_ok ?h" using s1 by (subst setup_ok_motion [where g = ?g]) (simp_all add: core_def)
      moreover have "piece_ok ?h" using slide by (simp add: piece_ok_def slide_ok_def)
      moreover have "piece_fits ?h" by (simp add: piece_fits_def)
      ultimately show ?thesis using False by (simp add: move_to_False game_ok_def Let_def)
    qed
  qed
qed

subsection \<open>Placing\<close>

definition can_fall :: "piece \<Rightarrow> game \<Rightarrow> bool" where
  "can_fall p g \<longleftrightarrow> can_move_to p (g_board g) (g_x g) (g_y g + g_delta_y g)"

lemma set_current_groups:
  "core (g\<lparr>g_current := c\<rparr>) = core g" "queues (g\<lparr>g_current := c\<rparr>) = queues g"
  by (simp_all add: core_def queues_def)

text \<open>A lock: the piece joins the stack, the queues are flushed, the next piece spawns.\<close>

definition lock_and_spawn :: "piece \<Rightarrow> game \<Rightarrow> game option" where
  "lock_and_spawn p g = do { g \<leftarrow> lock_piece p g; g \<leftarrow> flush_pending g; spawn g }"

lemma lock_and_spawn_returns:
  assumes "setup_ok g" "slide_ok g"
  shows "returns (\<lambda>g'. game_ok g' \<and> piece_fits g' \<and> g_phase g' \<noteq> Sliding \<and> g_lock_seq g' = g_lock_seq g)
    (lock_and_spawn p g)"
  unfolding lock_and_spawn_def
proof (rule returns_bind [OF lock_piece_returns [OF assms(1)]], rule returns_bind [OF flush_pending_returns], clarify)
  fix g1 g2
  assume 1: "setup_ok g1 \<and> motion g1 = motion g \<and> queues g1 = queues g"
    and 2: "setup_ok g2 \<and> motion g2 = motion g1 \<and> g_arsenal g2 = g_arsenal g1 \<and> g_pending g2 = [] \<and>
      g_pending_board g2 = None \<and> g_lock_seq g2 = g_lock_seq g1"
  then have "slide_ok g2" "g_lock_seq g2 = g_lock_seq g"
    using assms(2) by (simp_all add: slide_ok_def motion_def queues_def)
  then show "returns (\<lambda>g'. game_ok g' \<and> piece_fits g' \<and> g_phase g' \<noteq> Sliding \<and> g_lock_seq g' = g_lock_seq g) (spawn g2)"
    using spawn_returns [of g2] 2 by (auto elim: returns_mono)
qed

lemma place_eq:
  "place force g = (case g_current g of None \<Rightarrow> Some g | Some p \<Rightarrow>
     if \<not> can_fall p g \<or> force then
       do { h \<leftarrow> lock_and_spawn p (g\<lparr>g_current := None\<rparr>);
            let h = h\<lparr>g_lock_seq := g_lock_seq h + 1\<rparr>;
            Some (h\<lparr>g_lock_hash := lock_hash_of h, g_sliding := 0\<rparr>) }
     else Some (g\<lparr>g_y := g_y g + g_delta_y g,
       g_current := Some (p\<lparr>p_x := g_x g, p_y := g_y g + g_delta_y g\<rparr>), g_phase := Falling,
       g_drop_accum := 0, g_sliding := 0\<rparr>))"
  by (simp add: place_def can_fall_def lock_and_spawn_def Let_def bind_assoc cong: if_cong option.case_cong split: option.split)

lemma game_ok_counters:
  "game_ok (h\<lparr>g_lock_seq := n, g_lock_hash := k, g_sliding := s\<rparr>) = game_ok h"
  "piece_fits (h\<lparr>g_lock_seq := n, g_lock_hash := k, g_sliding := s\<rparr>) = piece_fits h"
  by (simp_all add: game_ok_def setup_ok_def core_ok_def flags_inv_def orient_inv_def timing_inv_def weapon_active_def
      bazaar_inv_def piece_ok_def piece_fits_def)

lemma place_returns:
  assumes ok: "game_ok g"
  shows "returns (\<lambda>g'. game_ok g' \<and> (piece_fits g \<or> g_phase g = Sliding \<longrightarrow> piece_fits g')
      \<and> (g_phase g \<noteq> Over \<longrightarrow> g_phase g' \<noteq> Sliding) \<and> g_lock_seq g \<le> g_lock_seq g') (place force g)"
proof (cases "g_current g")
  case None
  then have "g_phase g = Over" using ok by (simp add: game_ok_def piece_ok_def)
  then show ?thesis using ok None by (simp add: place_eq)
next
  case (Some p)
  show ?thesis
  proof (cases "\<not> can_fall p g \<or> force")
    case True
    let ?g = "g\<lparr>g_current := None\<rparr>"
    have "setup_ok ?g" using ok by (subst setup_ok_motion [where g = g]) (simp_all add: core_def game_ok_def)
    moreover have "slide_ok ?g" using ok by (simp add: game_ok_def piece_ok_def slide_ok_def)
    ultimately have L: "returns (\<lambda>g'. game_ok g' \<and> piece_fits g' \<and> g_phase g' \<noteq> Sliding \<and> g_lock_seq g' = g_lock_seq g)
        (lock_and_spawn p ?g)"
      using lock_and_spawn_returns [of ?g p] by simp
    show ?thesis
      unfolding place_eq using Some True
      by (auto intro!: returns_bind [OF L] simp: game_ok_counters Let_def)
  next
    case False
    let ?g = "g\<lparr>g_y := g_y g + g_delta_y g,
       g_current := Some (p\<lparr>p_x := g_x g, p_y := g_y g + g_delta_y g\<rparr>), g_phase := Falling,
       g_drop_accum := 0, g_sliding := 0\<rparr>"
    have "setup_ok ?g" using ok by (subst setup_ok_motion [where g = g]) (simp_all add: core_def game_ok_def)
    moreover have "piece_ok ?g" using ok Some by (auto simp: game_ok_def piece_ok_def in_cycle_move)
    moreover have "piece_fits ?g" using False by (simp add: piece_fits_def can_fall_def can_move_to_def)
    ultimately show ?thesis using Some False by (simp add: place_eq game_ok_def)
  qed
qed

subsection \<open>Falling, turning and sliding\<close>

text \<open>Steps that only move or turn the piece: the frame of the game around the piece.\<close>

definition frame :: "game \<Rightarrow> board \<times> piece_manager \<times> rng \<times> active_flags \<times> i32 list
    \<times> (i32 \<times> i32 \<times> i32 \<times> i32 \<times> i32 \<times> i32 \<times> i32 \<times> i32) \<times> score \<times> arsenal \<times> weapon_token list
    \<times> i32 list option \<times> bool \<times> bool \<times> i32 \<times> int \<times> u32" where
  "frame g = (g_board g, g_pieces g, g_rng g, g_weapons g, g_remaining g,
     (g_def_x g, g_def_y g, g_delta_y g, g_left_x g, g_right_x g, g_base_drop_time g, g_fast_drop_time g, g_drop_time g),
     g_score g, g_arsenal g, g_pending g, g_pending_board g, g_paused g, g_in_bazaar g, g_lines_til_baz g,
     g_lock_seq g, g_lock_hash g)"

lemma frame_setup: "frame g' = frame g \<Longrightarrow> setup_ok g' = setup_ok g"
  by (rule setup_ok_motion) (simp_all add: frame_def core_def)

text \<open>\<open>keeps_piece g g'\<close>: the frame is the same, the piece still fits and is known to the rotations.\<close>

definition keeps_piece :: "game \<Rightarrow> game \<Rightarrow> bool" where
  "keeps_piece g g' \<longleftrightarrow> frame g' = frame g \<and> (piece_ok g \<longrightarrow> piece_ok g') \<and>
     (piece_ok g \<and> piece_fits g \<longrightarrow> piece_fits g')"

lemma keeps_piece_refl [simp]: "keeps_piece g g"
  by (simp add: keeps_piece_def)

lemma keeps_piece_trans [trans]: "keeps_piece g h \<Longrightarrow> keeps_piece h k \<Longrightarrow> keeps_piece g k"
  by (auto simp: keeps_piece_def)

lemma keeps_piece_ok: "keeps_piece g g' \<Longrightarrow> game_ok g \<Longrightarrow> game_ok g'"
  and keeps_piece_fits: "keeps_piece g g' \<Longrightarrow> game_ok g \<Longrightarrow> piece_fits g \<Longrightarrow> piece_fits g'"
  using frame_setup [of g' g] by (auto simp: keeps_piece_def game_ok_def)

lemma keeps_piece_moved:
  assumes "g_current g = Some p" "can_move_to p (g_board g) x y" "frame g' = frame g"
    and "g_current g' = Some (p\<lparr>p_x := x, p_y := y\<rparr>)" "g_x g' = x" "g_y g' = y"
    and "g_phase g' = g_phase g" "g_slide_time g' = g_slide_time g"
  shows "keeps_piece g g'"
  using assms by (auto simp: keeps_piece_def piece_ok_def piece_fits_def in_cycle_move frame_def can_move_to_def)

lemma keeps_piece_same:
  assumes "frame g' = frame g" "g_current g' = g_current g" "g_x g' = g_x g" "g_y g' = g_y g"
    and "piece_ok g \<Longrightarrow> g_phase g' = g_phase g \<or> g_phase g \<noteq> Over \<and> g_phase g' \<noteq> Over"
    and "g_slide_time g' = g_slide_time g \<or> g_slide_time g' = 0 \<or> g_slide_time g' = 150"
  shows "keeps_piece g g'"
proof (cases "piece_ok g")
  case True
  have "g_board g' = g_board g" using assms(1) by (simp add: frame_def)
  moreover have "g_current g' = None \<longleftrightarrow> g_phase g' = Over"
    using True assms(2) assms(5) [OF True] by (auto simp: piece_ok_def)
  ultimately show ?thesis
    using True assms(1-4,6) by (auto simp: keeps_piece_def piece_ok_def piece_fits_def)
qed (use assms(1) in \<open>simp add: keeps_piece_def\<close>)

lemma move_frame [simp]:
  "frame (g\<lparr>g_current := c\<rparr>) = frame g" "frame (g\<lparr>g_x := x\<rparr>) = frame g" "frame (g\<lparr>g_y := y\<rparr>) = frame g"
  "frame (g\<lparr>g_hatter_accum := i\<rparr>) = frame g" "frame (g\<lparr>g_slick_accum := i\<rparr>) = frame g"
  "frame (g\<lparr>g_slick_dir := i\<rparr>) = frame g" "frame (g\<lparr>g_drop_accum := i\<rparr>) = frame g"
  "frame (g\<lparr>g_slide_accum := i\<rparr>) = frame g" "frame (g\<lparr>g_sliding := i\<rparr>) = frame g"
  "frame (g\<lparr>g_phase := ph\<rparr>) = frame g" "frame (g\<lparr>g_slide_time := i\<rparr>) = frame g" "frame (g\<lparr>g_dropping := d\<rparr>) = frame g"
  by (simp add: frame_def)+

lemma drop_step_keeps: "keeps_piece g (drop_step g)"
proof (cases "g_current g")
  case (Some p)
  show ?thesis
  proof (cases "can_fall p g")
    case True
    then show ?thesis
      using Some by (intro keeps_piece_moved) (simp_all add: can_fall_def drop_step_def move_to_True)
  next
    case False
    then have eq: "drop_step g = start_slide (g\<lparr>g_current := Some p\<rparr>)"
      using Some by (simp add: can_fall_def drop_step_def move_to_False)
    show ?thesis
      unfolding eq using Some
      by (intro keeps_piece_same) (auto simp: start_slide_def piece_ok_def of_bool_i_def bt_const)
  qed
qed (simp add: drop_step_def)

lemma in_cycle_wf: "in_cycle p \<Longrightarrow> wf_piece p"
  by (simp add: in_cycle_def)

lemma rotate_internal_keeps: "keeps_piece g (rotate_internal g)"
proof (cases "g_current g")
  case (Some p)
  let ?q = "snd (piece_rotate p (g_board g) False)"
  have "in_cycle ?q \<and> p_x ?q = p_x p \<and> p_y ?q = p_y p \<and>
      (can_move_to p (g_board g) (p_x p) (p_y p) \<longrightarrow> can_move_to ?q (g_board g) (p_x p) (p_y p))" if "in_cycle p"
    using piece_rotate_in_cycle [OF that] piece_rotate_fits [OF in_cycle_wf [OF that], of "g_board g" False]
      piece_rotate_wf [OF in_cycle_wf [OF that], of "g_board g" False]
    by (simp add: same_spot_def)
  then show ?thesis
    using Some by (auto simp: rotate_internal_def keeps_piece_def piece_ok_def piece_fits_def)
qed (simp add: rotate_internal_def)

lemma slick_step_keeps: "keeps_piece g (slick_step g)"
proof (cases "g_current g")
  case (Some p)
  let ?x = "g_x g + (if g_slick_dir g = 0 then g_left_x g else g_right_x g)"
  show ?thesis
  proof (cases "can_move_to p (g_board g) ?x (g_y g)")
    case True
    then show ?thesis
      using Some by (intro keeps_piece_moved [OF Some True]) (simp_all add: slick_step_def move_to_True Let_def)
  next
    case False
    then show ?thesis
      using Some by (intro keeps_piece_same) (simp_all add: slick_step_def move_to_False Let_def)
  qed
qed (simp add: slick_step_def)

lemma keeps_piece_accum [simp]:
  "keeps_piece g (g\<lparr>g_hatter_accum := i\<rparr>)" "keeps_piece g (g\<lparr>g_slick_accum := i\<rparr>)"
  "keeps_piece g (g\<lparr>g_drop_accum := i\<rparr>)" "keeps_piece g (g\<lparr>g_slide_accum := i\<rparr>)"
  "keeps_piece g (g\<lparr>g_dropping := d\<rparr>)" "keeps_piece g (g\<lparr>g_sliding := i\<rparr>)"
  by (intro keeps_piece_same; simp)+

lemma hatter_loop_keeps: "keeps_piece g (hatter_loop g)"
proof (induction g rule: hatter_loop.induct)
  case (1 g)
  show ?case
  proof (cases "g_hatter_accum g \<ge> 20")
    case True
    let ?g = "g\<lparr>g_hatter_accum := g_hatter_accum g - 20\<rparr>"
    have "keeps_piece g (rotate_internal ?g)"
      using keeps_piece_trans [OF keeps_piece_accum(1) rotate_internal_keeps] .
    then show ?thesis
      using 1 [OF True] True by (subst hatter_loop.simps) (auto intro: keeps_piece_trans)
  qed (simp add: hatter_loop.simps)
qed

lemma slick_loop_keeps: "keeps_piece g (slick_loop g)"
proof (induction g rule: slick_loop.induct)
  case (1 g)
  show ?case
  proof (cases "g_slick_accum g \<ge> 20")
    case True
    let ?g = "g\<lparr>g_slick_accum := g_slick_accum g - 20\<rparr>"
    have "keeps_piece g (slick_step ?g)"
      using keeps_piece_trans [OF keeps_piece_accum(2) slick_step_keeps] .
    then show ?thesis
      using 1 [OF True] True by (subst slick_loop.simps) (auto intro: keeps_piece_trans)
  qed (simp add: slick_loop.simps)
qed

lemma tick_weapons_keeps: "keeps_piece g (tick_weapons dt g)"
proof -
  let ?h = "if weapon_active g Hatter then hatter_loop (g\<lparr>g_hatter_accum := g_hatter_accum g + dt\<rparr>) else g"
  have h: "keeps_piece g ?h"
    using keeps_piece_trans [OF keeps_piece_accum(1) hatter_loop_keeps] by simp
  have "keeps_piece ?h (slick_loop (?h\<lparr>g_slick_accum := g_slick_accum ?h + dt\<rparr>))"
    by (rule keeps_piece_trans [OF keeps_piece_accum(2) slick_loop_keeps])
  then show ?thesis using h by (auto simp: tick_weapons_def Let_def intro: keeps_piece_trans)
qed

lemma drop_loop_keeps: "keeps_piece g (drop_loop step g)"
proof (induction step g rule: drop_loop.induct)
  case (1 step g)
  show ?case
  proof (cases "step \<ge> 1 \<and> g_phase g = Falling \<and> g_drop_accum g \<ge> step")
    case True
    let ?g = "g\<lparr>g_drop_accum := g_drop_accum g - step\<rparr>"
    have "keeps_piece g (drop_step ?g)"
      using keeps_piece_trans [OF keeps_piece_accum(3) drop_step_keeps] .
    then show ?thesis
      using 1 [OF True] True by (subst drop_loop.simps) (auto intro: keeps_piece_trans)
  next
    case False
    then show ?thesis by (subst drop_loop.simps) auto
  qed
qed

subsection \<open>The clock\<close>

text \<open>Placing a sliding piece ends the slide, so the slide loop takes at most one turn.\<close>

lemma slide_loop_returns:
  assumes ok: "game_ok g" and step: "0 \<le> step"
  shows "returns (\<lambda>g'. game_ok g' \<and> (piece_fits g \<longrightarrow> piece_fits g') \<and> g_lock_seq g \<le> g_lock_seq g') (slide_loop step g)"
proof (cases "g_phase g \<noteq> Sliding \<or> step > 0 \<and> g_slide_accum g < step")
  case True
  then have "slide_loop step g = Some g" by (subst slide_loop.simps) auto
  then show ?thesis using ok by simp
next
  case False
  let ?g = "if step > 0 then g\<lparr>g_slide_accum := g_slide_accum g - step\<rparr> else g"
  have k: "keeps_piece g ?g" by simp
  have g: "game_ok ?g" "g_phase ?g = Sliding" "g_lock_seq ?g = g_lock_seq g"
    using keeps_piece_ok [OF k ok] False by simp_all
  have stop: "slide_loop step h = Some h" if "g_phase h \<noteq> Sliding" for h
    using that by (subst slide_loop.simps) simp
  have eq: "slide_loop step g = Option.bind (place False ?g) (\<lambda>g. if step = 0 then Some g else slide_loop step g)"
    using False by (subst slide_loop.simps) auto
  show ?thesis
    unfolding eq by (rule returns_bind [OF place_returns [OF g(1)]]) (use g in \<open>auto simp: stop\<close>)
qed

lemma tick_returns:
  assumes ok: "game_ok g"
  shows "returns (\<lambda>g'. game_ok g' \<and> (piece_fits g \<longrightarrow> piece_fits g') \<and> g_lock_seq g \<le> g_lock_seq g') (tick dt g)"
proof (cases "g_paused g \<or> g_in_bazaar g \<or> g_phase g = Over \<or> dt \<le> 0")
  case True
  then show ?thesis using ok by (auto simp: tick_def)
next
  case False
  obtain h where h: "h = tick_weapons dt g" by blast
  have k: "keeps_piece g h" unfolding h by (rule tick_weapons_keeps)
  have seq: "g_lock_seq h = g_lock_seq g" using k by (simp add: keeps_piece_def frame_def)
  have eq: "tick dt g = (case g_phase h of
          Falling \<Rightarrow> Some (drop_loop (max (g_drop_time h) 1) (h\<lparr>g_drop_accum := g_drop_accum h + dt\<rparr>))
        | Sliding \<Rightarrow> slide_loop (max (g_slide_time h) 0) (h\<lparr>g_slide_accum := g_slide_accum h + dt\<rparr>)
        | Over \<Rightarrow> Some h)"
    unfolding tick_def h Let_def using False by (auto split: phase.split)
  show ?thesis
  proof (cases "g_phase h")
    case Falling
    let ?h = "drop_loop (max (g_drop_time h) 1) (h\<lparr>g_drop_accum := g_drop_accum h + dt\<rparr>)"
    have k': "keeps_piece g ?h"
      by (rule keeps_piece_trans [OF k keeps_piece_trans [OF keeps_piece_accum(3) drop_loop_keeps]])
    have "g_lock_seq ?h = g_lock_seq g" using k' by (simp add: keeps_piece_def frame_def)
    then show ?thesis
      using keeps_piece_ok [OF k' ok] keeps_piece_fits [OF k' ok] Falling by (simp add: eq)
  next
    case Sliding
    let ?h = "h\<lparr>g_slide_accum := g_slide_accum h + dt\<rparr>"
    have k': "keeps_piece g ?h" by (rule keeps_piece_trans [OF k keeps_piece_accum(4)])
    then show ?thesis
      using slide_loop_returns [OF keeps_piece_ok [OF k' ok], of "max (g_slide_time h) 0"] Sliding seq
        keeps_piece_fits [OF k' ok]
      unfolding eq by (auto elim!: returns_mono)
  next
    case Over
    then show ?thesis using keeps_piece_ok [OF k ok] keeps_piece_fits [OF k ok] seq by (simp add: eq)
  qed
qed

subsection \<open>Inputs\<close>

lemma move_by_keeps: "keeps_piece g (move_by dx g)"
proof (cases "g_current g")
  case (Some p)
  show ?thesis
  proof (cases "can_move_to p (g_board g) (g_x g + dx) (g_y g)")
    case True
    then show ?thesis
      using Some by (intro keeps_piece_moved [OF Some True]) (simp_all add: move_by_def move_to_True Let_def frame_def)
  next
    case False
    then show ?thesis
      using Some by (intro keeps_piece_same) (simp_all add: move_by_def move_to_False Let_def)
  qed
qed (simp add: move_by_def)

lemma move_keeps: "keeps_piece g (move_left g)" "keeps_piece g (move_right g)" "keeps_piece g (game_rotate g)"
  by (simp_all add: move_left_def move_right_def game_rotate_def move_by_keeps rotate_internal_keeps)

lemma soft_drop_keeps: "keeps_piece g (soft_drop g)"
  using keeps_piece_trans [OF drop_step_keeps keeps_piece_accum(3)] by (simp add: soft_drop_def)

text \<open>The remaining methods leave piece and board alone; each keeps the invariant and the fit.\<close>

definition inv_fits :: "game \<Rightarrow> game \<Rightarrow> bool" where
  "inv_fits g g' \<longleftrightarrow> (game_ok g \<longrightarrow> game_ok g') \<and> (game_ok g \<and> piece_fits g \<longrightarrow> piece_fits g')"

lemma keeps_inv_fits: "keeps_piece g g' \<Longrightarrow> inv_fits g g'"
  by (simp add: inv_fits_def keeps_piece_ok keeps_piece_fits)

lemma inv_fits_refl [simp]: "inv_fits g g"
  and inv_fits_trans [trans]: "inv_fits g h \<Longrightarrow> inv_fits h k \<Longrightarrow> inv_fits g k"
  by (auto simp: inv_fits_def)

lemma inv_fits_rest:
  assumes "core g' = core g" "motion g' = motion g" "bazaar_inv g \<Longrightarrow> bazaar_inv g'"
    "arsenal_len (g_arsenal g) \<Longrightarrow> arsenal_len (g_arsenal g')"
  shows "inv_fits g g'"
  using assms(3,4) wpn_ok_cong [OF assms(1)] piece_ok_cong [OF assms(2)]
  by (auto simp: inv_fits_def game_ok_def setup_ok_wpn piece_fits_def core_eqD [OF assms(1)] motion_eqD [OF assms(2)])

lemma push_event_inv [simp]: "inv_fits g (push_event e g)"
  and push_scored_inv [simp]: "inv_fits g (push_scored g)"
  and add_score_funds_inv [simp]: "inv_fits g (add_score_funds n g)"
  and score_inv [simp]: "inv_fits g (add_score n g)"
  and arsenal_inv: "(arsenal_len (g_arsenal g) \<Longrightarrow> arsenal_len a) \<Longrightarrow> inv_fits g (g\<lparr>g_arsenal := a\<rparr>)"
  and bazaar_flag_inv: "inv_fits g (g\<lparr>g_in_bazaar := v\<rparr>)"
  and pending_inv: "inv_fits g (g\<lparr>g_pending := ts\<rparr>)"
  and pending_board_inv: "inv_fits g (g\<lparr>g_pending_board := cells\<rparr>)"
  and events_inv: "inv_fits g (g\<lparr>g_events := evs\<rparr>)"
  by (rule inv_fits_rest; simp add: core_def motion_def bazaar_inv_def add_score_def add_score_funds_def
      push_event_def push_scored_def)+

lemma engage_fast_drop_inv: "inv_fits g (snd (engage_fast_drop g))"
proof -
  have *: "inv_fits g (g\<lparr>g_dropping := True, g_drop_time := g_fast_drop_time g, g_drop_accum := 0\<rparr>)" (is "inv_fits g ?g")
  proof -
    have "1 \<le> g_fast_drop_time g" if "setup_ok g"
      using that by (auto simp: setup_ok_def core_ok_def timing_inv_def split: if_splits)
    then have "setup_ok g \<Longrightarrow> setup_ok ?g"
      by (intro setup_ok_drop_time [where g = g and g' = ?g]) (simp_all add: core_def)
    then show ?thesis by (auto simp: inv_fits_def game_ok_def piece_ok_def piece_fits_def)
  qed
  have "inv_fits g (g\<lparr>g_dropping := True\<rparr>)" by (simp add: keeps_inv_fits)
  then show ?thesis using * by (simp add: engage_fast_drop_def Let_def)
qed

lemma begin_drop_inv: "inv_fits g (begin_drop g)" "inv_fits g (ai_begin_drop g)"
  using inv_fits_trans [OF engage_fast_drop_inv score_inv, of g] engage_fast_drop_inv [of g]
  by (simp_all add: begin_drop_def ai_begin_drop_def split_beta Let_def)

lemma set_paused_inv: "inv_fits g (set_paused b g)"
  by (auto simp: inv_fits_def set_paused_def game_ok_def setup_ok_def core_ok_def flags_inv_def orient_inv_def
      timing_inv_def weapon_active_def bazaar_inv_def piece_ok_def piece_fits_def)

lemma launch_weapon_inv: "inv_fits g (launch_weapon slot g)"
proof -
  have "inv_fits g (push_event e (g\<lparr>g_arsenal := use_slot (g_arsenal g) slot\<rparr>))" for e
    by (rule inv_fits_trans [OF arsenal_inv push_event_inv]) (simp add: arsenal_len_def use_slot_def Let_def)
  then show ?thesis by (simp add: launch_weapon_def split: option.split)
qed

lemma receive_weapon_inv: "inv_fits g (receive_weapon t g)" "inv_fits g (queue_board_swap cells g)"
    "inv_fits g (leave_bazaar g)" "inv_fits g (snd (take_events g))"
  by (simp_all add: receive_weapon_def queue_board_swap_def leave_bazaar_def take_events_def pending_inv
      pending_board_inv bazaar_flag_inv events_inv)

lemma add_funds_inv: "inv_fits g (add_funds n g)"
  using inv_fits_trans [OF add_score_funds_inv push_scored_inv] by (simp add: add_funds_def)

lemma buy_len: "arsenal_len a \<Longrightarrow> arsenal_len (snd (buy a w))"
  by (cases rule: buy_cases [of a w]) (simp_all add: arsenal_len_def)

lemma sell_len: "arsenal_len a \<Longrightarrow> arsenal_len (snd (sell a w))"
  by (cases rule: sell_cases [of a w]) (simp_all add: arsenal_len_def use_slot_def Let_def)

lemma buy_weapon_inv: "inv_fits g (snd (buy_weapon t g))"
proof -
  have a: "inv_fits g (g\<lparr>g_arsenal := snd (buy (g_arsenal g) t)\<rparr>)" by (rule arsenal_inv) (rule buy_len)
  show ?thesis
    using a inv_fits_trans [OF a add_score_funds_inv] by (simp add: buy_weapon_def Let_def split_beta)
qed

lemma sell_weapon_inv: "inv_fits g (snd (sell_weapon t g))"
proof -
  have a: "inv_fits g (g\<lparr>g_arsenal := snd (sell (g_arsenal g) t)\<rparr>)" by (rule arsenal_inv) (rule sell_len)
  show ?thesis
    using a inv_fits_trans [OF a add_score_funds_inv] by (simp add: sell_weapon_def Let_def split_beta)
qed

lemma grant_weapon_inv: "inv_fits g (snd (grant_weapon t g))"
  using arsenal_inv [of g "snd (buy (g_arsenal g) t)"] by (simp add: grant_weapon_def split_beta buy_len)

text \<open>The opponent's score: Lawyers' Delite inserts lines, which may bury the piece in play.\<close>

lemma insert_one_ok: "game_ok g \<Longrightarrow> game_ok (insert_one g)"
proof -
  assume ok: "game_ok g"
  then have w: "wpn_ok g" by (simp add: game_ok_def setup_ok_wpn)
  then have wf: "wf_board (g_board g)" by (simp add: wpn_ok_std)
  let ?b = "fst (insert_line (g_board g) (g_rng g))" and ?r = "snd (insert_line (g_board g) (g_rng g))"
  have "wpn_ok (g\<lparr>g_board := ?b\<rparr>)"
    by (rule wpn_ok_board [OF w board_like_frame [OF wpn_ok_std [OF w] insert_line_law(1) [OF wf]]]) (simp add: wf)
  then have "wpn_ok (g\<lparr>g_board := ?b, g_pieces := g_pieces g, g_rng := ?r\<rparr>)"
    using wpn_ok_pieces [of "g\<lparr>g_board := ?b\<rparr>" "g_pieces g" ?r] w by (simp add: wpn_ok_def core_ok_def)
  then have "setup_ok (insert_one g)" "piece_ok (insert_one g)"
    using ok by (simp_all add: insert_one_def split_beta game_ok_def setup_ok_wpn bazaar_inv_def piece_ok_def)
  then show ?thesis by (simp add: game_ok_def)
qed

lemma receive_op_score_ok:
  assumes "game_ok g"
  shows "game_ok (receive_op_score s l f g)"
    and "\<not> weapon_active g Lawyers \<Longrightarrow> piece_fits g \<Longrightarrow> piece_fits (receive_op_score s l f g)"
proof -
  let ?g1 = "g\<lparr>g_score := (g_score g)\<lparr>s_op_score := s, s_op_funds := f\<rparr>\<rparr>"
  let ?g2 = "if weapon_active ?g1 Lawyers
     then fold (\<lambda>_. insert_one) (range_i 0 (max (l - s_op_lines (g_score g)) 0)) ?g1 else ?g1"
  let ?g3 = "?g2\<lparr>g_score := (g_score ?g2)\<lparr>s_op_lines := l\<rparr>\<rparr>"
  have eq: "receive_op_score s l f g = update_bazaar ?g3" by (simp add: receive_op_score_def Let_def)
  have "inv_fits g ?g1" by (rule inv_fits_rest) (simp_all add: core_def motion_def bazaar_inv_def)
  then have g1: "game_ok ?g1" "piece_fits g \<Longrightarrow> piece_fits ?g1" using assms by (simp_all add: inv_fits_def)
  have g2: "game_ok ?g2"
    using fold_preserves [of game_ok ?g1 "range_i 0 (max (l - s_op_lines (g_score g)) 0)" "\<lambda>_. insert_one"]
      g1(1) insert_one_ok by simp
  obtain h where h: "h = ?g2" by blast
  have "core (h\<lparr>g_score := sc\<rparr>) = core h" "motion (h\<lparr>g_score := sc\<rparr>) = motion h" for sc
    by (simp_all add: core_def motion_def)
  then have "inv_fits h (update_bazaar (h\<lparr>g_score := (g_score h)\<lparr>s_op_lines := l\<rparr>\<rparr>))"
    by (intro inv_fits_rest) (simp_all, simp add: update_bazaar_def Let_def)
  then have f: "inv_fits ?g2 (receive_op_score s l f g)" unfolding eq h .
  show "game_ok (receive_op_score s l f g)" using f g2 unfolding inv_fits_def by blast
  assume "\<not> weapon_active g Lawyers" "piece_fits g"
  then have "piece_fits ?g2" using g1(2) by (simp add: weapon_active_def)
  then show "piece_fits (receive_op_score s l f g)" using f g2 unfolding inv_fits_def by blast
qed

subsection \<open>Two games that trade\<close>

lemma force_pair_inv:
  assumes "setup_ok g" shows "setup_ok (force_weapon_off t g)"
proof -
  have "bazaar_inv (force_weapon_off t g) = bazaar_inv g" by (rule bazaar_inv_cong) simp_all
  moreover have "g_arsenal (force_weapon_off t g) = g_arsenal g"
    using force_weapon_off_fields(2) [of t g] unfolding queues_def by (simp only: prod.inject)
  ultimately show ?thesis using assms by (simp add: setup_ok_wpn force_weapon_off_wpn)
qed

lemma force_weapon_off_ok: "game_ok g \<Longrightarrow> game_ok (force_weapon_off t g)"
  using piece_ok_cong [of "force_weapon_off t g" g] by (simp add: game_ok_def force_pair_inv)

lemma swap_board_with_eq:
  "swap_board_with g h =
    (let off = (\<lambda>g. force_weapon_off Upbyside (force_weapon_off Bottle g));
         (b, c) = swap_cells (g_board (off g)) (g_board (off h))
     in ((off g)\<lparr>g_board := b\<rparr>, (off h)\<lparr>g_board := c\<rparr>))"
  by (simp add: swap_board_with_def Let_def split_beta)

lemma swap_board_with_ok:
  assumes "game_ok g" "game_ok h"
  shows "game_ok (fst (swap_board_with g h)) \<and> game_ok (snd (swap_board_with g h))"
proof -
  define g' where "g' = force_weapon_off Upbyside (force_weapon_off Bottle g)"
  define h' where "h' = force_weapon_off Upbyside (force_weapon_off Bottle h)"
  have ok: "game_ok g'" "game_ok h'" using assms by (simp_all add: g'_def h'_def force_weapon_off_ok)
  then have "std_board (g_board g')" "std_board (g_board h')" by (simp_all add: game_ok_def setup_ok_wpn wpn_ok_std)
  then have "board_like (g_board g') (fst (swap_cells (g_board g') (g_board h')))"
    "board_like (g_board h') (snd (swap_cells (g_board g') (g_board h')))"
    by (simp_all add: board_like_def swap_cells_def std_board_def)
  then have "setup_ok (g'\<lparr>g_board := fst (swap_cells (g_board g') (g_board h'))\<rparr>)"
    "setup_ok (h'\<lparr>g_board := snd (swap_cells (g_board g') (g_board h'))\<rparr>)"
    using ok by (simp_all add: game_ok_def setup_ok_board)
  then show ?thesis
    using ok by (simp add: swap_board_with_eq Let_def split_beta game_ok_def piece_ok_def flip: g'_def h'_def)
qed

lemma swap_arsenal_with_ok:
  assumes "game_ok g" "game_ok h"
  shows "inv_fits g (fst (swap_arsenal_with g h)) \<and> inv_fits h (snd (swap_arsenal_with g h))"
  using assms by (simp add: swap_arsenal_with_def arsenal_inv game_ok_def setup_ok_def)

subsection \<open>A new game, and every reachable one\<close>

lemma game_fresh_ok: "setup_ok (game_fresh seed)" "slide_ok (game_fresh seed)"
proof -
  have a: "\<not> weapon_active (game_fresh seed) t" for t by (simp add: weapon_active_def game_fresh_def)
  have r: "remaining_inv flags_new (replicate 34 0)" by (auto simp: remaining_inv_def)
  let ?g = "game_fresh seed"
  have f: "g_board ?g = board_standard False" "g_pieces ?g = pm_new" "g_weapons ?g = flags_new"
    "g_remaining ?g = replicate 34 0" "g_arsenal ?g = arsenal_new"
    by (simp_all add: game_fresh_def bt_const)
  have "b_active (board_standard False) = flags_new" "\<not> b_upside (board_standard False)" "\<not> broken pm_new"
    by (simp_all add: board_standard_def board_new_def pm_new_def)
  then have "flags_inv ?g" by (simp add: flags_inv_def f a)
  moreover have "orient_inv ?g" "timing_inv ?g" "bazaar_inv ?g"
    by (simp_all add: orient_inv_def timing_inv_def bazaar_inv_def a)
      (simp_all add: game_fresh_def bt_const score_default_def)
  moreover have "arsenal_len arsenal_new" by (simp add: arsenal_len_def arsenal_new_def bt_const)
  ultimately show "setup_ok ?g" using r by (simp add: setup_ok_def core_ok_def f)
  show "slide_ok (game_fresh seed)" by (simp add: slide_ok_def game_fresh_def bt_const)
qed

lemma game_new_returns: "returns (\<lambda>g. game_ok g \<and> piece_fits g \<and> g_phase g \<noteq> Sliding) (game_new seed)"
proof -
  let ?g = "(game_fresh seed)\<lparr>g_x := g_def_x (game_fresh seed), g_y := g_def_y (game_fresh seed)\<rparr>"
  have "setup_ok ?g" using game_fresh_ok(1) [of seed] by (subst setup_ok_motion [where g = "game_fresh seed"]) (simp_all add: core_def)
  moreover have "slide_ok ?g" using game_fresh_ok(2) [of seed] by (simp add: slide_ok_def)
  ultimately show ?thesis
    using spawn_returns [of ?g] by (auto simp: game_new_def start_game_def elim: returns_mono)
qed

text \<open>
  The games that the public methods can reach from new ones. The methods of two games (the swaps of
  boards and arsenals) take any two reachable games. A keyframe is restored into a reachable game as it was taken of
  one: \<open>r_keyframe\<close> is what \<open>restore\<close> and \<open>restore_bytes\<close> then leave (\<open>Keyframe.restored_reachable\<close>). Left out are
  \<open>restore\<close> on other data, which accepts an \<open>old_piece\<close> that does not exist, and \<open>board_mut\<close>, which hands out the board.
\<close>

definition carried_over :: "i64 \<Rightarrow> game \<Rightarrow> game \<Rightarrow> game" where
  "carried_over op_funds g h =
     g\<lparr>g_score := (g_score g)\<lparr>s_op_funds := op_funds\<rparr>, g_events := [],
       g_board := (g_board g)\<lparr>b_new_fill := b_new_fill (g_board h)\<rparr>\<rparr>"

inductive reachable :: "game \<Rightarrow> bool" where
  r_new: "game_new seed = Some g \<Longrightarrow> reachable g"
| r_tick: "reachable g \<Longrightarrow> tick dt g = Some g' \<Longrightarrow> reachable g'"
| r_left: "reachable g \<Longrightarrow> reachable (move_left g)"
| r_right: "reachable g \<Longrightarrow> reachable (move_right g)"
| r_rotate: "reachable g \<Longrightarrow> reachable (game_rotate g)"
| r_drop: "reachable g \<Longrightarrow> reachable (begin_drop g)"
| r_ai_drop: "reachable g \<Longrightarrow> reachable (ai_begin_drop g)"
| r_soft_drop: "reachable g \<Longrightarrow> reachable (soft_drop g)"
| r_pause: "reachable g \<Longrightarrow> reachable (set_paused b g)"
| r_launch: "reachable g \<Longrightarrow> reachable (launch_weapon slot g)"
| r_receive: "reachable g \<Longrightarrow> reachable (receive_weapon t g)"
| r_queue: "reachable g \<Longrightarrow> reachable (queue_board_swap cells g)"
| r_op_score: "reachable g \<Longrightarrow> reachable (receive_op_score s l f g)"
| r_funds: "reachable g \<Longrightarrow> reachable (add_funds n g)"
| r_buy: "reachable g \<Longrightarrow> reachable (snd (buy_weapon t g))"
| r_sell: "reachable g \<Longrightarrow> reachable (snd (sell_weapon t g))"
| r_leave: "reachable g \<Longrightarrow> reachable (leave_bazaar g)"
| r_grant: "reachable g \<Longrightarrow> reachable (snd (grant_weapon t g))"
| r_force: "reachable g \<Longrightarrow> reachable (force_weapon_off t g)"
| r_events: "reachable g \<Longrightarrow> reachable (snd (take_events g))"
| r_import: "reachable g \<Longrightarrow> reachable (import_board cells g)"
| r_swap: "reachable g \<Longrightarrow> reachable h \<Longrightarrow> reachable (fst (swap_board_with g h))"
| r_swap': "reachable g \<Longrightarrow> reachable h \<Longrightarrow> reachable (snd (swap_board_with g h))"
| r_trade: "reachable g \<Longrightarrow> reachable h \<Longrightarrow> reachable (fst (swap_arsenal_with g h))"
| r_trade': "reachable g \<Longrightarrow> reachable h \<Longrightarrow> reachable (snd (swap_arsenal_with g h))"
| r_arsenal: "reachable g \<Longrightarrow> reachable (import_arsenal slots g)"
| r_keyframe: "reachable g \<Longrightarrow> reachable h \<Longrightarrow> reachable (carried_over n g h)"

lemma import_board_ok: "game_ok g \<Longrightarrow> game_ok (import_board d g)"
proof -
  assume "game_ok g"
  moreover have "bazaar_inv (import_board d g) = bazaar_inv g" by (rule bazaar_inv_cong) simp_all
  moreover have "g_arsenal (import_board d g) = g_arsenal g" by (simp add: import_board_def Let_def)
  ultimately show ?thesis
    using piece_ok_cong [of "import_board d g" g] by (simp add: game_ok_def setup_ok_wpn import_board_wpn)
qed

lemma carried_over_ok: "game_ok g \<Longrightarrow> game_ok (carried_over n g h)"
  by (simp add: game_ok_def setup_ok_def core_ok_def flags_inv_def orient_inv_def timing_inv_def bazaar_inv_def piece_ok_def
      weapon_active_def std_board_def carried_over_def)

lemma import_arsenal_ok: "game_ok g \<Longrightarrow> game_ok (import_arsenal slots g)"
proof -
  assume g: "game_ok g"
  have "arsenal_len (fold (\<lambda>i a. set_slot a i (t i) (q i)) is a) = arsenal_len a" for t q "is" a
    by (induction "is" arbitrary: a) (simp_all add: arsenal_len_def set_slot_def Let_def)
  then have "arsenal_len (g_arsenal (import_arsenal slots g))"
    using g by (simp add: import_arsenal_def Let_def game_ok_def setup_ok_def) (simp add: arsenal_len_def arsenal_new_def bt_const)
  then show ?thesis
    using g by (simp add: game_ok_def setup_ok_def core_ok_def flags_inv_def orient_inv_def timing_inv_def bazaar_inv_def
      piece_ok_def weapon_active_def import_arsenal_def)
qed

lemma inv_fitsD: "inv_fits g g' \<Longrightarrow> game_ok g \<Longrightarrow> game_ok g'"
  by (simp add: inv_fits_def)

lemmas step_inv = move_keeps [THEN keeps_inv_fits] soft_drop_keeps [THEN keeps_inv_fits] begin_drop_inv
  set_paused_inv launch_weapon_inv receive_weapon_inv add_funds_inv buy_weapon_inv sell_weapon_inv grant_weapon_inv

lemmas step_ok = step_inv [THEN inv_fitsD] force_weapon_off_ok import_board_ok receive_op_score_ok(1)
  import_arsenal_ok carried_over_ok
  swap_board_with_ok [THEN conjunct1] swap_board_with_ok [THEN conjunct2]

lemma reachable_ok: "reachable g \<Longrightarrow> game_ok g"
proof (induction rule: reachable.induct)
  case (r_new seed g)
  then show ?case using game_new_returns [of seed] by simp
next
  case (r_tick g dt g')
  then show ?case using tick_returns [of g dt] by simp
next
  case (r_trade g h)
  then show ?case using swap_arsenal_with_ok [of g h] by (simp add: inv_fits_def)
next
  case (r_trade' g h)
  then show ?case using swap_arsenal_with_ok [of g h] by (simp add: inv_fits_def)
qed (simp_all only: step_ok)

end
