(* ===== verification/GameProps.thy ===== *)
theory GameProps
  imports GameSteps EngineProps
begin

section \<open>What a game promises\<close>

text \<open>
  The properties of \<open>game.rs\<close> over whole methods: the clock ends, the state that is held twice never
  disagrees, the falling piece never overlaps the stack, a frozen game does not move, and where funds,
  durations and events go.
\<close>

subsection \<open>The Mondale tax\<close>

lemma bit_len_le: "z < 2 ^ n \<Longrightarrow> bit_len z \<le> n"
proof (induction n arbitrary: z)
  case 0
  then show ?case by (simp add: bit_len.simps)
next
  case (Suc n)
  have "z div 2 < 2 ^ n" using Suc.prems by simp
  then have "bit_len (z div 2) \<le> n" by (rule Suc.IH)
  then show ?case by (subst bit_len.simps) simp
qed

lemma round53_near:
  assumes "z < 2 ^ n"
  shows "2 * \<bar>round53 z - z\<bar> \<le> 2 ^ (n - 53)"
proof -
  let ?u = "2 ^ (bit_len z - 53) :: int"
  have u: "0 < ?u" by simp
  have z: "z = ?u * (z div ?u) + z mod ?u" by simp
  have m: "0 \<le> z mod ?u" "z mod ?u < ?u" by simp_all
  have aux: "x = - k \<or> x = k \<Longrightarrow> 0 \<le> k \<Longrightarrow> 2 * k \<le> u \<Longrightarrow> 2 * \<bar>x\<bar> \<le> u" for x k u :: int by auto
  have "2 * \<bar>round53 z - z\<bar> \<le> ?u"
  proof (cases "2 * (z mod ?u) < ?u \<or> 2 * (z mod ?u) = ?u \<and> even (z div ?u)")
    case True
    then have r: "round53 z = z div ?u * ?u" by (simp add: round53_def Let_def)
    have "round53 z - z = - (z mod ?u)" unfolding r by (simp add: minus_mod_eq_div_mult [symmetric])
    moreover have "2 * (z mod ?u) \<le> ?u" using True by auto
    ultimately show ?thesis using m by (intro aux [where k = "z mod ?u"]) simp_all
  next
    case False
    then have r: "round53 z = (z div ?u + 1) * ?u" by (auto simp: round53_def Let_def)
    have "round53 z - z = ?u - z mod ?u" unfolding r by (simp add: distrib_right minus_mod_eq_div_mult [symmetric])
    moreover have "2 * (?u - z mod ?u) \<le> ?u" using False by (auto simp: right_diff_distrib)
    moreover have "0 \<le> ?u - z mod ?u" using m(2) by linarith
    ultimately show ?thesis by (intro aux [where k = "?u - z mod ?u"] disjI2)
  qed
  also have "?u \<le> 2 ^ (n - 53)" using bit_len_le [OF assms] by simp
  finally show ?thesis .
qed

lemma mondale_kept_bounds:
  assumes "0 \<le> c" "c < 2 ^ 31"
  shows "7 * c div 10 - 1 \<le> mondale_kept c" "mondale_kept c \<le> 7 * c div 10" "0 \<le> mondale_kept c"
    "c mod 10 \<noteq> 0 \<Longrightarrow> mondale_kept c = 7 * c div 10"
proof -
  let ?p = "c * 6305039478318694" and ?r = "round53 (c * 6305039478318694)"
  have "?p < 2 ^ 84" using assms by simp
  from round53_near [OF this] have near: "?r - ?p \<le> 1073741824" "?p - ?r \<le> 1073741824" by simp_all
  have k: "mondale_kept c = ?r div 9007199254740992" using assms by (simp add: mondale_kept_def Let_def)
  define d q t where "d = mondale_kept c" and "q = 7 * c div 10" and "t = 7 * c mod 10"
  have d: "9007199254740992 * d \<le> ?r" "?r < 9007199254740992 * d + 9007199254740992"
    unfolding d_def k by (simp_all add: div_mult_mod_eq [symmetric])
  have q: "7 * c = 10 * q + t" "0 \<le> t" "t \<le> 9" unfolding q_def t_def by simp_all
  have c: "c < 2147483648" using assms by simp
  note facts = near d q assms(1) c
  have lo: "q - 1 \<le> d" and hi: "d \<le> q" and eq: "1 \<le> t \<Longrightarrow> d = q" using facts by linarith+
  have t: "c mod 10 \<noteq> 0 \<Longrightarrow> 1 \<le> t" unfolding t_def by presburger
  show "7 * c div 10 - 1 \<le> mondale_kept c" "mondale_kept c \<le> 7 * c div 10"
    "c mod 10 \<noteq> 0 \<Longrightarrow> mondale_kept c = 7 * c div 10"
    using lo hi eq t by (simp_all add: d_def q_def)
  show "0 \<le> mondale_kept c"
  proof (cases "c = 0")
    case True
    then show ?thesis by (simp add: mondale_kept_def round53_def bit_len.simps)
  next
    case False
    then show ?thesis using lo eq q assms(1) unfolding d_def [symmetric] by linarith
  qed
qed

text \<open>
  The Mondale tax on a clear of \<open>c\<close> dollars: the victim keeps at least \<open>7c/10 - 1\<close> and at most
  \<open>7c/10\<close> (rounded down), the two differing only on multiples of ten, where the double \<open>1.0 - 0.30\<close>
  lies below 7/10; what it loses is exactly what is announced as stolen, and nothing is announced
  when nothing is lost.
\<close>

theorem mondale_tax:
  assumes "weapon_active g Mondale" "0 \<le> c" "c < 2 ^ 31"
  defines "kept \<equiv> s_funds (g_score (credit_clear_funds c g)) - s_funds (g_score g)"
  shows "7 * c div 10 - 1 \<le> kept \<and> kept \<le> 7 * c div 10 \<and> 0 \<le> kept \<and> (c mod 10 \<noteq> 0 \<longrightarrow> kept = 7 * c div 10)
    \<and> g_events (credit_clear_funds c g) = g_events g @ (if kept < c then [FundsStolen (c - kept)] else [])"
proof -
  have k: "kept = mondale_kept c" using assms(1) by (simp add: kept_def credit_clear_funds_def Let_def)
  have "mondale_kept c \<le> c" using mondale_kept_bounds(2) [OF assms(2,3)] assms(2) by linarith
  then have "g_events (credit_clear_funds c g) = g_events g @ (if kept < c then [FundsStolen (c - kept)] else [])"
    using assms(1) by (simp add: k credit_clear_funds_def add_score_funds_def Let_def)
  then show ?thesis using mondale_kept_bounds [OF assms(2,3)] by (simp add: k)
qed

definition mondale_game :: game where
  "mondale_game = (game_fresh 7)\<lparr>g_weapons := flags_set flags_new Mondale True\<rparr>"

theorem mondale_tax_witness:
  "s_funds (g_score (credit_clear_funds 90 mondale_game)) = 62 \<and> 7 * 90 div 10 = (63 :: int)
   \<and> 7 * 90 div 10 - 1 \<le> s_funds (g_score (credit_clear_funds 90 mondale_game)) - s_funds (g_score mondale_game)"
proof -
  have a: "weapon_active mondale_game Mondale" by (simp add: weapon_active_def mondale_game_def)
  have "mondale_kept 90 = 62" by (simp add: mondale_kept_def round53_def bit_len.simps Let_def)
  moreover have "s_funds (g_score mondale_game) = 0" by (simp add: mondale_game_def game_fresh_def score_default_def)
  ultimately show ?thesis
    using a mondale_tax [OF a, of 90] by (simp add: credit_clear_funds_def Let_def)
qed

subsection \<open>Whole games\<close>

text \<open>
  C24. The clock never hangs and never panics: on every game that play can reach (\<open>reachable\<close>: a new game, and what the
  public methods make of it, keyframes of such games included; not a keyframe from elsewhere, whose \<open>old_piece\<close> is
  unchecked, nor a board changed by hand), a tick of any length returns, through any number of drops, locks, weapons,
  thrown boxes and draws of the next piece; and the count of locks never goes down.
\<close>

theorem clock_ends:
  assumes "reachable g"
  shows "\<exists>g'. tick dt g = Some g' \<and> reachable g' \<and> g_lock_seq g \<le> g_lock_seq g'"
  using tick_returns [OF reachable_ok [OF assms], of dt] r_tick [OF assms] by (elim returnsE) auto

lemma reachable_new: obtains g where "game_new seed = Some g" "reachable g"
  using game_new_returns [of seed] r_new by (elim returnsE) blast

theorem clock_ends_witness:
  "\<exists>g g'. game_new 7 = Some g \<and> tick 5000 g = Some g'"
  by (rule reachable_new [of 7]) (use clock_ends [where dt = 5000] in blast)

text \<open>
  C25. The state that the code holds twice never disagrees on a reachable game: the board's flags are
  the game's, it is upside down exactly under Upbyside, the spawn row and the directions are the ones
  of that orientation, gravity is 512 ms halved under Speedy and doubled under Meadow however often
  each was launched, a weapon with a duration is active exactly while its count is above zero, the
  piece in play stands where the game says, and there is one exactly until the game is over.
\<close>

theorem reachable_consistent:
  assumes "reachable g"
  shows "b_active (g_board g) = g_weapons g \<and> b_upside (g_board g) = weapon_active g Upbyside
    \<and> (g_def_x g, g_def_y g, g_delta_y g, g_left_x g, g_right_x g) =
        (if weapon_active g Upbyside then (5, 24, - 1, 1, - 1) else (5, 0, 1, - 1, 1))
    \<and> g_base_drop_time g = (if weapon_active g Meadow then 2 else 1) * (if weapon_active g Speedy then 256 else 512)
    \<and> (\<forall>t. duration_of t \<noteq> 0 \<longrightarrow> (0 < weapon_remaining g t \<longleftrightarrow> weapon_active g t))
    \<and> (\<forall>p. g_current g = Some p \<longrightarrow> p_x p = g_x g \<and> p_y p = g_y g)
    \<and> (g_current g = None \<longleftrightarrow> g_phase g = Over)"
proof -
  have ok: "setup_ok g" "piece_ok g" using reachable_ok [OF assms] by (simp_all add: game_ok_def)
  then have "remaining_inv (g_weapons g) (g_remaining g)" by (simp add: setup_ok_def)
  from remaining_invD(4) [OF this] show ?thesis
    using ok by (simp add: setup_ok_def core_ok_def flags_inv_def orient_inv_def timing_inv_def piece_ok_def
        weapon_remaining_def weapon_active_def)
qed

theorem reachable_consistent_witness:
  "\<exists>g. game_new 7 = Some g \<and> (g_current (receive_weapon Speedy g) = None \<longleftrightarrow> g_phase (receive_weapon Speedy g) = Over)"
  by (rule reachable_new [of 7]) (use reachable_consistent [OF r_receive] in blast)

text \<open>
  C37. The falling piece never overlaps the stack or leaves the board: if it is clear of them before,
  it is after a tick of any length and after every input of the player.
\<close>

theorem piece_stays_clear:
  assumes "reachable g" "piece_fits g"
  shows "(\<forall>g'. tick dt g = Some g' \<longrightarrow> piece_fits g') \<and> piece_fits (move_left g) \<and> piece_fits (move_right g)
    \<and> piece_fits (game_rotate g) \<and> piece_fits (begin_drop g) \<and> piece_fits (soft_drop g)"
proof -
  have ok: "game_ok g" by (rule reachable_ok [OF assms(1)])
  have "\<forall>g'. tick dt g = Some g' \<longrightarrow> piece_fits g'" using tick_returns [OF ok, of dt] assms(2) by auto
  moreover have "inv_fits g g' \<Longrightarrow> piece_fits g'" for g' using ok assms(2) by (simp add: inv_fits_def)
  ultimately show ?thesis using step_inv [of g] by blast
qed

theorem piece_stays_clear_witness:
  "\<exists>g. game_new 7 = Some g \<and> piece_fits (game_rotate g)"
proof -
  obtain g where g: "game_new 7 = Some g" "reachable g" by (rule reachable_new)
  moreover have "piece_fits g" using game_new_returns [of 7] g(1) by simp
  ultimately show ?thesis using piece_stays_clear by blast
qed

text \<open>While paused, shopping or after the end, time does not pass and no drop is taken.\<close>

lemma frozen:
  assumes "g_paused g \<or> g_in_bazaar g \<or> g_phase g = Over"
  shows "tick dt g = Some g" "begin_drop g = g" "ai_begin_drop g = g" "soft_drop g = g"
  using assms by (auto simp: tick_def begin_drop_def ai_begin_drop_def engage_fast_drop_def soft_drop_def)

subsection \<open>The bazaar\<close>

lemma crosses_twenty:
  assumes "0 \<le> n" "n < 20"
  shows "20 - (c + n) mod 20 > 20 - c mod 20 \<longleftrightarrow> c div 20 < (c + n) div (20 :: int)"
proof -
  define q r where "q = c div 20" and "r = c mod 20"
  have c: "c = 20 * q + r" "0 \<le> r" "r < 20" by (simp_all add: q_def r_def)
  show ?thesis
  proof (cases "r + n < 20")
    case True
    then have "(c + n) div 20 = q" "(c + n) mod 20 = r + n"
      using int_div_pos_eq [of "c + n" 20 q "r + n"] int_mod_pos_eq [of "c + n" 20 q "r + n"] c assms by simp_all
    then show ?thesis using assms by (simp flip: q_def r_def)
  next
    case False
    then have "(c + n) div 20 = q + 1" "(c + n) mod 20 = r + n - 20"
      using int_div_pos_eq [of "c + n" 20 "q + 1" "r + n - 20"] int_mod_pos_eq [of "c + n" 20 "q + 1" "r + n - 20"]
        c assms by simp_all
    then show ?thesis using assms by (simp flip: q_def r_def)
  qed
qed

text \<open>
  The bazaar opens exactly when the combined lines of both players pass a multiple of twenty
  within one update (by fewer than twenty lines), and the countdown to it is right afterwards.
\<close>

theorem bazaar_opens:
  assumes "bazaar_inv g" "g' = add_lines n g" "0 \<le> n" "n < 20"
  defines "combined \<equiv> s_op_lines (g_score g) + s_lines (g_score g)"
  shows "bazaar_inv (update_bazaar g')
    \<and> g_in_bazaar (update_bazaar g') = (g_in_bazaar g \<or> combined div 20 < (combined + n) div 20)
    \<and> g_events (update_bazaar g') = g_events g @ (if combined div 20 < (combined + n) div 20 then [EnterBazaar] else [])"
proof -
  let ?new = "20 - (combined + n) mod 20"
  have til: "g_lines_til_baz g' = 20 - combined mod 20" using assms(1,2) by (simp add: bazaar_inv_def combined_def)
  have c: "s_op_lines (g_score g') + s_lines (g_score g') = combined + n" using assms(2) by (simp add: combined_def)
  have "?new > 20 - combined mod 20 \<longleftrightarrow> combined div 20 < (combined + n) div 20"
    by (rule crosses_twenty [OF assms(3,4)])
  moreover have "g_in_bazaar g' = g_in_bazaar g" "g_events g' = g_events g"
    using assms(2) by (simp_all add: add_lines_def)
  ultimately show ?thesis
    using c til by (simp add: update_bazaar_def Let_def bt_const bazaar_inv_def)
qed

theorem bazaar_opens_witness:
  "g_in_bazaar (update_bazaar (add_lines 4 (add_lines 18 (game_fresh 7)\<lparr>g_lines_til_baz := 2\<rparr>)))"
  using bazaar_opens [of "add_lines 18 (game_fresh 7)\<lparr>g_lines_til_baz := 2\<rparr>" _ 4]
  by (simp add: bazaar_inv_def add_lines_def game_fresh_def score_default_def)

text \<open>
  In the bazaar a purchase that is granted takes exactly the price, doubled under Carter, never more
  than the funds, and adds the one copy; selling it back at once restores the funds and the stock to
  what they were. A purchase that is refused changes nothing.
\<close>

theorem bazaar_trade:
  assumes "wf_arsenal (g_arsenal g)" "has_headroom (g_arsenal g)"
  shows "(case buy_weapon t g of
      (True, g1) \<Rightarrow> g_in_bazaar g \<and> bazaar_price t g \<le> s_funds (g_score g)
        \<and> g1 = add_score_funds (- bazaar_price t g) (g\<lparr>g_arsenal := g_arsenal g1\<rparr>)
        \<and> stock (g_arsenal g1) v = stock (g_arsenal g) v + (if v = t then 1 else 0)
        \<and> (\<exists>g2. sell_weapon t g1 = (True, g2) \<and> s_funds (g_score g2) = s_funds (g_score g)
            \<and> (\<forall>w. stock (g_arsenal g2) w = stock (g_arsenal g) w))
    | (False, g1) \<Rightarrow> g1 = g)"
proof (cases "g_in_bazaar g \<and> bazaar_price t g \<le> s_funds (g_score g) \<and> fst (buy (g_arsenal g) t)")
  case True
  let ?a = "snd (buy (g_arsenal g) t)" and ?p = "bazaar_price t g"
  let ?g1 = "add_score_funds (- ?p) (g\<lparr>g_arsenal := ?a\<rparr>)"
  have buy: "buy_weapon t g = (True, ?g1)"
    using True by (simp add: buy_weapon_def bazaar_price_def Let_def split_beta not_less split: if_splits)
  have S: "stock ?a v = stock (g_arsenal g) v + (if v = t then 1 else 0)" for v
    using buy_stock [OF assms, of t v] True by simp
  have wf: "wf_arsenal ?a" by (rule buy_wf [OF assms])
  have sold: "fst (sell ?a t)" "stock (snd (sell ?a t)) v + (if v = t then 1 else 0) = stock ?a v" for v
    using sell_stock(1) [OF wf, of t] sell_stock(2) [OF wf, of t v] S [of t] by simp_all
  have f: "g_arsenal ?g1 = ?a" "g_in_bazaar ?g1" "bazaar_price t (?g1\<lparr>g_arsenal := b\<rparr>) = ?p" for b
    using True by (simp_all add: add_score_funds_def bazaar_price_def weapon_active_def)
  let ?g2 = "add_score_funds ?p (?g1\<lparr>g_arsenal := snd (sell ?a t)\<rparr>)"
  have "sell_weapon t ?g1 = (True, ?g2)"
    using sold(1) f by (simp add: sell_weapon_def Let_def split_beta)
  moreover have "s_funds (g_score ?g2) = s_funds (g_score g)" "g_arsenal ?g2 = snd (sell ?a t)"
    by (simp_all add: add_score_funds_def)
  moreover have "stock (snd (sell ?a t)) w = stock (g_arsenal g) w" for w using sold(2) [of w] S [of w] by simp
  ultimately show ?thesis using True buy S f(1) by (simp add: f(1))
next
  case False
  have full: "\<not> fst (buy (g_arsenal g) t) \<Longrightarrow> snd (buy (g_arsenal g) t) = g_arsenal g"
    by (cases rule: buy_cases [of "g_arsenal g" t]) simp_all
  have "buy_weapon t g = (False, g)"
    using False full by (auto simp: buy_weapon_def bazaar_price_def Let_def split_beta split: if_splits)
  then show ?thesis by simp
qed

definition shop_game :: game where
  "shop_game = add_score_funds 1000 ((game_fresh 7)\<lparr>g_in_bazaar := True\<rparr>)"

theorem bazaar_trade_witness:
  "case buy_weapon Bug shop_game of
      (True, g1) \<Rightarrow> g_in_bazaar shop_game \<and> bazaar_price Bug shop_game \<le> s_funds (g_score shop_game)
        \<and> g1 = add_score_funds (- bazaar_price Bug shop_game) (shop_game\<lparr>g_arsenal := g_arsenal g1\<rparr>)
        \<and> stock (g_arsenal g1) Bug = stock (g_arsenal shop_game) Bug + (if Bug = Bug then 1 else 0)
        \<and> (\<exists>g2. sell_weapon Bug g1 = (True, g2) \<and> s_funds (g_score g2) = s_funds (g_score shop_game)
            \<and> (\<forall>w. stock (g_arsenal g2) w = stock (g_arsenal shop_game) w))
    | (False, g1) \<Rightarrow> g1 = shop_game"
proof (rule bazaar_trade)
  have "g_arsenal shop_game = arsenal_new" by (simp add: shop_game_def add_score_funds_def game_fresh_def)
  then show "wf_arsenal (g_arsenal shop_game)" by simp
  show "has_headroom (g_arsenal shop_game)"
    by (simp add: shop_game_def add_score_funds_def game_fresh_def has_headroom_def arsenal_new_def bt_const)
qed

subsection \<open>A lock against its specification\<close>

text \<open>
  The abstract game: the board is a list of rows; a lock overlays the piece, drops the full rows to the
  floor and pays the summed value of the full rows times their number.
\<close>

type_synonym rows = "cell option list list"

definition overlay :: "piece \<Rightarrow> rows \<Rightarrow> rows" where
  "overlay p rs = map (\<lambda>y. map (\<lambda>x. case piece_at p (int x) (int y) of Some c \<Rightarrow> Some c | None \<Rightarrow> rs ! y ! x)
     [0..<length (rs ! y)]) [0..<length rs]"

definition spec_lock :: "piece \<Rightarrow> rows \<Rightarrow> rows \<times> int \<times> int" where
  "spec_lock p rs =
     (let rs = overlay p rs; full = filter full_row rs; n = int (length full)
      in (drop_full_rows True (replicate 10 None) rs, n, (\<Sum>r \<leftarrow> full. value_of_row r) * n))"

definition grid_of :: "game \<Rightarrow> rows" where
  "grid_of g = board_rows (g_board g)"

lemma overlay_rows:
  assumes "wf_board b"
  shows "overlay p (board_rows b) = board_rows (land p b)"
proof -
  have dims: "b_width (land p b) = b_width b" "b_height (land p b) = b_height b"
    using land_law(2) [OF assms, of p] by (simp_all add: same_setup_def)
  show ?thesis
  proof (rule nth_equalityI)
    show "length (overlay p (board_rows b)) = length (board_rows (land p b))"
      by (simp add: overlay_def dims)
    fix y assume y: "y < length (overlay p (board_rows b))"
    then have y': "y < nat (b_height b)" by (simp add: overlay_def)
    have "overlay p (board_rows b) ! y = map (\<lambda>x. case piece_at p (int x) (int y) of Some c \<Rightarrow> Some c
        | None \<Rightarrow> get b (int x) (int y)) [0..<nat (b_width b)]"
      using y' by (simp add: overlay_def nth_board_rows row_cells_def nth_range_i cong: option.case_cong)
    also have "\<dots> = row_cells (land p b) (int y)"
      using y' land_law(3) [OF assms]
      by (intro nth_equalityI) (auto simp: row_cells_def dims nth_range_i in_bounds_def split: option.split)
    finally show "overlay p (board_rows b) ! y = board_rows (land p b) ! y"
      using y' by (simp add: nth_board_rows dims)
  qed
qed

text \<open>Without an active geometry weapon an expiry leaves the squares alone.\<close>

definition plain :: "game \<Rightarrow> bool" where
  "plain g \<longleftrightarrow> \<not> weapon_active g Upbyside \<and> \<not> weapon_active g Bottle \<and> \<not> weapon_active g Force"

lemma apply_weapon_off_grid:
  "t \<noteq> Upbyside \<Longrightarrow> t \<noteq> Bottle \<Longrightarrow> grid_of (apply_weapon_off t g) = grid_of g"
  by (cases t) (simp_all add: grid_of_def board_revert_weapon_def board_rows_def row_cells_def set_active_def get_def
      in_bounds_def cell_index_def fun_eq_iff)

lemma tick_duration_grid:
  assumes "wpn_ok g" "plain g" "i < 34"
  shows "grid_of (tick_duration n i g) = grid_of g \<and> plain (tick_duration n i g)"
proof -
  obtain t where t: "i = index t" using index_ALL_tokens [OF assms(3)] by metis
  have wf: "wf_flags (g_weapons g)" and rem: "remaining_inv (g_weapons g) (g_remaining g)"
    using assms(1) by (simp_all add: wpn_ok_def core_ok_def flags_inv_def)
  have p: "plain (apply_weapon_off t (g\<lparr>g_remaining := rs\<rparr>))" for rs
    using assms(2) wf by (simp add: plain_def weapon_active_def)
  have g: "grid_of (g\<lparr>g_remaining := rs\<rparr>) = grid_of g" "plain (g\<lparr>g_remaining := rs\<rparr>) = plain g" for rs
    by (simp_all add: grid_of_def plain_def weapon_active_def)
  show ?thesis
  proof (cases "g_remaining g ! i = 0")
    case False
    then have "weapon_active g t" using remaining_invD(2) [OF rem, of t] t by (simp add: weapon_active_def)
    then have "t \<noteq> Upbyside" "t \<noteq> Bottle" using assms(2) by (auto simp: plain_def)
    then show ?thesis
      using False assms(2) p t by (simp add: tick_duration_def Let_def g apply_weapon_off_grid)
  qed (use assms(2) in \<open>simp add: tick_duration_def\<close>)
qed

lemma tick_durations_grid:
  assumes "wpn_ok g" "plain g"
  shows "grid_of (tick_durations n g) = grid_of g"
proof -
  have "wpn_ok (tick_durations n g) \<and> plain (tick_durations n g) \<and> grid_of (tick_durations n g) = grid_of g"
    unfolding tick_durations_def
    by (rule fold_preserves [where P = "\<lambda>h. wpn_ok h \<and> plain h \<and> grid_of h = grid_of g"])
      (use assms tick_duration_wpn tick_duration_grid in \<open>auto simp: bt_const\<close>)
  then show ?thesis by simp
qed

lemma board_rows_idiot [simp]: "board_rows (b\<lparr>b_idiot := v\<rparr>) = board_rows b"
  by (simp add: board_rows_def row_cells_def get_def in_bounds_def cell_index_def fun_eq_iff)

lemma after_clear_grid:
  assumes ok: "wpn_ok g" "bazaar_inv g" and p: "plain g"
  shows "grid_of (after_clear c g) = grid_of g"
    and "s_lines (g_score (after_clear c g)) = s_lines (g_score g) + lc_lines c"
    and "\<not> weapon_active g Mondale \<Longrightarrow> s_funds (g_score (after_clear c g)) = s_funds (g_score g) + lc_funds c"
proof -
  let ?g1 = "push_event (Locked (lc_lines c) (lc_value c) (lc_funds c))
                (credit_clear_funds (lc_funds c) (add_lines (lc_lines c) g))"
  let ?i = "flush_idiot (g_board ?g1)"
  let ?g2 = "?g1\<lparr>g_board := snd ?i\<rparr>"
  let ?g3 = "case fst ?i of Some reason \<Rightarrow> push_event (Idiot reason) ?g2 | None \<Rightarrow> ?g2"
  obtain h where h: "h = ?g3" by blast
  have c1: "core ?g1 = core g" by simp
  have w2: "wpn_ok ?g2"
    using ok(1) wpn_ok_cong [OF c1] by (intro wpn_ok_board flush_idiot_like) (simp_all only: wpn_ok_std)
  have gc: "grid_of a = grid_of b" "plain a = plain b" if "core a = core b" for a b
    using core_eqD [OF that] by (simp_all add: grid_of_def plain_def weapon_active_def)
  have g2: "grid_of ?g2 = grid_of g" "plain ?g2"
    using gc [OF c1] p by (simp_all add: grid_of_def plain_def weapon_active_def flush_idiot_def)
  have c3: "core h = core ?g2" "g_score h = g_score ?g2" unfolding h by (simp_all split: option.split)
  have c4: "core (update_bazaar h) = core ?g2" using c3 by simp
  have H: "wpn_ok (update_bazaar h)" "plain (update_bazaar h)" "grid_of (update_bazaar h) = grid_of g"
    "grid_of h = grid_of g"
    using w2 g2 wpn_ok_cong [OF c4] gc [OF c4] gc [OF c3(1)] by simp_all
  have eq: "after_clear c g = push_scored (if lc_lines c > 0 then tick_durations (lc_lines c) (update_bazaar h) else h)"
    by (simp add: after_clear_def h split_beta Let_def)
  have gp: "grid_of (push_scored a) = grid_of a" for a by (rule gc(1)) simp
  show "grid_of (after_clear c g) = grid_of g"
    unfolding eq gp using H tick_durations_grid [OF H(1,2)] by simp
  show "s_lines (g_score (after_clear c g)) = s_lines (g_score g) + lc_lines c" unfolding eq by (simp add: c3(2))
  assume "\<not> weapon_active g Mondale"
  then show "s_funds (g_score (after_clear c g)) = s_funds (g_score g) + lc_funds c"
    unfolding eq by (simp add: c3(2) credit_clear_funds_def weapon_active_def add_lines_def)
qed

text \<open>
  C23. A lock implements the abstract game: on a plain board (no Upbyside, Bottle or Force) locking a
  piece returns, the rows of the board afterwards are the ones of the specification, the lines are
  credited, and without Mondale so is the payout.
\<close>

theorem lock_refines:
  assumes "reachable g" "plain g"
  shows "\<exists>g'. lock_piece p g = Some g' \<and>
    spec_lock p (grid_of g) = (grid_of g', s_lines (g_score g') - s_lines (g_score g),
      if weapon_active g Mondale then snd (snd (spec_lock p (grid_of g))) else s_funds (g_score g') - s_funds (g_score g))"
proof -
  have ok: "wpn_ok g" "bazaar_inv g" using reachable_ok [OF assms(1)] by (simp_all add: game_ok_def setup_ok_wpn)
  let ?b = "land p (g_board g)"
  have std: "std_board (g_board g)" by (rule wpn_ok_std [OF ok(1)])
  have L: "board_like (g_board g) ?b" by (rule board_like_land [OF std])
  then have wf: "wf_board ?b" by (simp add: board_like_def)
  have act: "b_active ?b = g_weapons g" using L ok(1) by (simp add: board_like_def wpn_ok_def core_ok_def flags_inv_def)
  have in_act: "\<not> board_is_active ?b Force" "\<not> board_is_active ?b Bottle" "falls_down ?b"
    using assms(2) act by (simp_all add: board_is_active_def plain_def weapon_active_def falls_down_def)
  have e: "empty_row ?b = replicate 10 None" using L by (simp add: empty_row_def board_like_def std_board_def)
  obtain lc b where cl: "check_lines ?b = Some (lc, b)" and wfb: "wf_board b" "same_cfg ?b b"
    using check_lines_returns [OF wf] by (elim returnsE) auto
  have R: "board_rows b = drop_full_rows True (replicate 10 None) (board_rows ?b)"
    "lc_lines lc = int (length (filter full_row (board_rows ?b)))"
    "lc_funds lc = (\<Sum>r \<leftarrow> filter full_row (board_rows ?b). value_of_row r) * lc_lines lc"
    using check_lines_rows [OF wf in_act(1,2)] in_act(3) e by (simp_all add: cl)
  let ?g = "(note_airslide p g)\<lparr>g_board := b\<rparr>"
  have like: "board_like (g_board (note_airslide p g)) b"
    using board_like_trans [OF L board_like_cfg [OF _ wfb]] L by (simp add: board_like_def)
  have n: "wpn_ok (note_airslide p g)" using ok(1) by (subst wpn_ok_cong [where g = g]) simp_all
  have G: "wpn_ok ?g" "bazaar_inv ?g" "plain ?g" "weapon_active ?g Mondale = weapon_active g Mondale"
    using wpn_ok_board [OF n like] ok(2) assms(2)
    by (simp_all add: bazaar_inv_def plain_def weapon_active_def note_airslide_def)
  have "lock_piece p g = Some (after_clear lc ?g)" by (simp add: lock_piece_eq cl)
  moreover have "spec_lock p (grid_of g) = (board_rows b, lc_lines lc, lc_funds lc)"
    using overlay_rows [of "g_board g" p] std R by (simp add: spec_lock_def grid_of_def Let_def)
  ultimately show ?thesis
    using after_clear_grid [OF G(1-3), of lc] G(4) by (auto simp: grid_of_def)
qed

lemma spawn_weapons: "spawn g = Some g' \<Longrightarrow> g_weapons g' = g_weapons g"
  by (auto simp: spawn_def Let_def split_beta split: if_splits elim!: bind_eq_SomeE)

theorem lock_refines_witness:
  "\<exists>g g'. game_new 7 = Some g \<and> lock_piece (construct Plug 4 20 1) g = Some g' \<and>
    spec_lock (construct Plug 4 20 1) (grid_of g) = (grid_of g', s_lines (g_score g') - s_lines (g_score g),
      s_funds (g_score g') - s_funds (g_score g))"
proof -
  obtain g where g: "game_new 7 = Some g" "reachable g" by (rule reachable_new)
  have "g_weapons g = flags_new"
    using spawn_weapons g(1) by (fastforce simp: game_new_def start_game_def game_fresh_def)
  then have "plain g" "\<not> weapon_active g Mondale" by (simp_all add: plain_def weapon_active_def)
  then show ?thesis using lock_refines [OF g(2)] g(1) by fastforce
qed

end
