(* ===== verification/Keyframe.thy ===== *)
theory Keyframe
  imports GameSteps
begin

section \<open>The keyframe of a game\<close>

text \<open>
  \<open>Game::snapshot\<close>, \<open>restore\<close> and their byte forms (\<open>bt-core/src/game.rs\<close>): the whole game as a
  list of 64-bit integers, from which a client resumes. \<open>restore\<close> reads with a bounds-checked cursor
  into locals, which are the record \<open>keyframe\<close> here, and commits them only when the stream was well
  formed and consumed to the end. The early returns of the source are the \<open>None\<close> of the readers.
\<close>

subsection \<open>The cursor\<close>

record cur =
  cu_d :: "i64 list"
  cu_i :: nat
  cu_ok :: bool

definition cur_next :: "cur \<Rightarrow> i64 \<times> cur" where
  "cur_next c = (if cu_i c < length (cu_d c) then (cu_d c ! cu_i c, c\<lparr>cu_i := cu_i c + 1\<rparr>)
     else (0, c\<lparr>cu_ok := False\<rparr>))"

text \<open>A run of \<open>n\<close> reads.\<close>

primrec rd_n :: "nat \<Rightarrow> cur \<Rightarrow> i64 list \<times> cur" where
  "rd_n 0 c = ([], c)"
| "rd_n (Suc n) c = (let (v, c) = cur_next c; (vs, c) = rd_n n c in (v # vs, c))"

definition block :: "nat \<Rightarrow> cur \<Rightarrow> (i64 list \<times> cur) option" where
  "block n c = Some (rd_n n c)"

definition read_i :: "cur \<Rightarrow> (i64 \<times> cur) option" where
  "read_i c = Some (cur_next c)"

subsection \<open>Writing\<close>

definition KEYFRAME_VERSION :: i64 where
  "KEYFRAME_VERSION = 2"

definition phase_code :: "phase \<Rightarrow> i64" where
  "phase_code ph = (case ph of Falling \<Rightarrow> 0 | Sliding \<Rightarrow> 1 | Over \<Rightarrow> 2)"

definition put_piece :: "piece option \<Rightarrow> i64 list" where
  "put_piece cur = (case cur of
      Some p \<Rightarrow> [1, kind_id (p_kind p), p_x p, p_y p, p_color p, as_i32 (int (p_rot p)), p_orientation p,
          p_orientations p, p_state p] @
        concat (map (\<lambda>(col, row). encode_opt (p_cells p ! col ! row)) (squares 8))
    | None \<Rightarrow> [0])"

definition put_pending_board :: "i32 list option \<Rightarrow> i64 list" where
  "put_pending_board pb = (case pb of Some cells \<Rightarrow> 1 # cells | None \<Rightarrow> [0])"

definition snapshot :: "game \<Rightarrow> i64 list" where
  "snapshot g =
     [KEYFRAME_VERSION] @
     [g_x g, g_y g, g_def_x g, g_def_y g, g_delta_y g, g_left_x g, g_right_x g, g_base_drop_time g,
      g_fast_drop_time g, g_drop_time g, g_slide_time g, of_bool_i (g_dropping g), g_sliding g,
      phase_code (g_phase g), g_drop_accum g, g_slide_accum g, of_bool_i (g_paused g), g_hatter_accum g,
      g_slick_accum g, g_slick_dir g, of_bool_i (g_in_bazaar g), g_lines_til_baz g] @
     [s_score (g_score g), s_op_score (g_score g), s_lines (g_score g), s_op_lines (g_score g),
      s_funds (g_score g), s_op_funds (g_score g)] @
     [as_i64 (uint (rng_raw (g_rng g)))] @
     map (\<lambda>f. as_i64 (uint f)) (keep_prob (g_pieces g)) @
     [hap_on (g_pieces g), of_bool_i (broken (g_pieces g)), old_piece (g_pieces g)] @
     flags_raw (g_weapons g) @ g_remaining g @ export_arsenal g @
     put_piece (g_current g) @
     [int (length (g_pending g))] @ map (\<lambda>t. int (index t)) (g_pending g) @
     put_pending_board (g_pending_board g) @
     export_board g @
     flags_raw (b_active (g_board g)) @
     [of_bool_i (b_upside (g_board g)), of_bool_i (b_computer (g_board g)), of_bool_i (b_idiot (g_board g)),
      b_reason (g_board g)] @
     [as_i64 (g_lock_seq g), uint (g_lock_hash g)]"

subsection \<open>Reading\<close>

text \<open>The locals of \<open>restore\<close>, as they come off the stream.\<close>

record keyframe =
  kf_head :: "i64 list"
  kf_phase :: phase
  kf_clock :: "i64 list"
  kf_score :: "i64 list"
  kf_rng :: i64
  kf_keep :: "i64 list"
  kf_stream :: "i64 list"
  kf_counts :: "i64 list"
  kf_remaining :: "i64 list"
  kf_arsenal :: "i64 list"
  kf_current :: "piece option"
  kf_pending :: "weapon_token list"
  kf_pending_board :: "i32 list option"
  kf_board :: "i64 list"
  kf_active :: "i64 list"
  kf_flags :: "i64 list"
  kf_lock :: "i64 list"

definition phase_of_code :: "i64 \<Rightarrow> phase option" where
  "phase_of_code v = (if v = 0 then Some Falling else if v = 1 then Some Sliding else if v = 2 then Some Over else None)"

definition piece_cells_of :: "i64 list \<Rightarrow> shape" where
  "piece_cells_of q = map (\<lambda>col. map (\<lambda>row. let k = 4 * (8 * col + row) in
     decode [as_i32 (q ! k), as_i32 (q ! (k + 1)), as_i32 (q ! (k + 2)), as_i32 (q ! (k + 3))]) [0..<8]) [0..<8]"

definition read_piece :: "cur \<Rightarrow> (piece option \<times> cur) option" where
  "read_piece c = do {
     (present, c) \<leftarrow> read_i c;
     if present \<noteq> 0 then do {
       (k, c) \<leftarrow> read_i c;
       case kind_from_id (as_i32 k) of None \<Rightarrow> None | Some kind \<Rightarrow> do {
         (v, c) \<leftarrow> block 7 c;
         let rot = nat (v ! 3 mod 2 ^ 64); orientation = as_i32 (v ! 4); orientations = as_i32 (v ! 5) in
         if rot \<notin> {0, 3, 4, 8} \<or> orientations \<le> 0 \<or> orientation < 0 \<or> orientation \<ge> orientations then None
         else do {
           (q, c) \<leftarrow> block 256 c;
           Some (Some \<lparr>p_kind = kind, p_x = as_i32 (v ! 0), p_y = as_i32 (v ! 1), p_color = as_i32 (v ! 2),
             p_rot = rot, p_orientation = orientation, p_orientations = orientations,
             p_state = as_i32 (v ! 6), p_cells = piece_cells_of q\<rparr>, c)
         }
       }
     } else Some (None, c)
   }"

primrec read_tokens :: "nat \<Rightarrow> cur \<Rightarrow> (weapon_token list \<times> cur) option" where
  "read_tokens 0 c = Some ([], c)"
| "read_tokens (Suc n) c = do {
     (v, c) \<leftarrow> read_i c;
     case from_index (as_i32 v) of None \<Rightarrow> None | Some t \<Rightarrow> do {
       (ts, c) \<leftarrow> read_tokens n c;
       Some (t # ts, c)
     }
   }"

definition read_pending :: "cur \<Rightarrow> (weapon_token list \<times> cur) option" where
  "read_pending c = do {
     (n, c) \<leftarrow> read_i c;
     if n < 0 \<or> 1024 < n then None else read_tokens (nat n) c
   }"

definition read_pending_board :: "nat \<Rightarrow> cur \<Rightarrow> (i32 list option \<times> cur) option" where
  "read_pending_board n c = do {
     (v, c) \<leftarrow> read_i c;
     if v = 0 then Some (None, c)
     else if v = 1 then do { (cells, c) \<leftarrow> block n c; Some (Some (map as_i32 cells), c) }
     else None
   }"

definition read_keyframe :: "nat \<Rightarrow> cur \<Rightarrow> (keyframe \<times> cur) option" where
  "read_keyframe board_len c = do {
     (version, c) \<leftarrow> read_i c;
     if version \<noteq> KEYFRAME_VERSION then None
     else do {
       (head, c) \<leftarrow> block 13 c;
       (code, c) \<leftarrow> read_i c;
       case phase_of_code code of None \<Rightarrow> None | Some ph \<Rightarrow> do {
         (clock, c) \<leftarrow> block 8 c;
         (sc, c) \<leftarrow> block 6 c;
         (rng_state, c) \<leftarrow> read_i c;
         (kp, c) \<leftarrow> block 19 c;
         (stream, c) \<leftarrow> block 3 c;
         (counts, c) \<leftarrow> block BT_MAX_WEAPONS c;
         (remaining, c) \<leftarrow> block BT_MAX_WEAPONS c;
         (arsenal_flat, c) \<leftarrow> block 20 c;
         (current, c) \<leftarrow> read_piece c;
         (pending, c) \<leftarrow> read_pending c;
         (pending_board, c) \<leftarrow> read_pending_board board_len c;
         (board_flat, c) \<leftarrow> block board_len c;
         (board_active, c) \<leftarrow> block BT_MAX_WEAPONS c;
         (flags, c) \<leftarrow> block 4 c;
         (lock, c) \<leftarrow> block 2 c;
         Some (\<lparr>kf_head = head, kf_phase = ph, kf_clock = clock, kf_score = sc, kf_rng = rng_state,
           kf_keep = kp, kf_stream = stream, kf_counts = counts, kf_remaining = remaining,
           kf_arsenal = arsenal_flat, kf_current = current, kf_pending = pending,
           kf_pending_board = pending_board, kf_board = board_flat, kf_active = board_active,
           kf_flags = flags, kf_lock = lock\<rparr>, c)
       }
     }
   }"

definition commit :: "keyframe \<Rightarrow> game \<Rightarrow> game" where
  "commit kf g =
     (let h = kf_head kf; t = kf_clock kf; sc = kf_score kf; st = kf_stream kf; fl = kf_flags kf; lk = kf_lock kf;
          g = g\<lparr>g_x := as_i32 (h ! 0), g_y := as_i32 (h ! 1), g_def_x := as_i32 (h ! 2), g_def_y := as_i32 (h ! 3),
            g_delta_y := as_i32 (h ! 4), g_left_x := as_i32 (h ! 5), g_right_x := as_i32 (h ! 6),
            g_base_drop_time := as_i32 (h ! 7), g_fast_drop_time := as_i32 (h ! 8), g_drop_time := as_i32 (h ! 9),
            g_slide_time := as_i32 (h ! 10), g_dropping := (h ! 11 \<noteq> 0), g_sliding := as_i32 (h ! 12),
            g_phase := kf_phase kf, g_drop_accum := as_i32 (t ! 0), g_slide_accum := as_i32 (t ! 1),
            g_paused := (t ! 2 \<noteq> 0), g_hatter_accum := as_i32 (t ! 3), g_slick_accum := as_i32 (t ! 4),
            g_slick_dir := as_i32 (t ! 5), g_in_bazaar := (t ! 6 \<noteq> 0), g_lines_til_baz := as_i32 (t ! 7),
            g_score := \<lparr>s_score = sc ! 0, s_op_score = sc ! 1, s_lines = sc ! 2, s_op_lines = sc ! 3,
              s_funds = sc ! 4, s_op_funds = sc ! 5\<rparr>,
            g_rng := rng_from_raw (word_of_int (kf_rng kf)),
            g_pieces := pm_set_raw (map word_of_int (kf_keep kf)) (as_i32 (st ! 0)) (st ! 1 \<noteq> 0) (as_i32 (st ! 2)) (g_pieces g),
            g_weapons := flags_set_raw (g_weapons g) (map as_i32 (kf_counts kf)),
            g_remaining := map as_i32 (kf_remaining kf)\<rparr>;
          g = import_arsenal (map as_i32 (kf_arsenal kf)) g;
          g = import_board (map as_i32 (kf_board kf)) g
      in g\<lparr>g_board := (g_board g)\<lparr>b_active := flags_set_raw (b_active (g_board g)) (map as_i32 (kf_active kf)),
             b_upside := (fl ! 0 \<noteq> 0), b_computer := (fl ! 1 \<noteq> 0), b_idiot := (fl ! 2 \<noteq> 0),
             b_reason := as_i16 (fl ! 3)\<rparr>,
           g_current := kf_current kf, g_pending := kf_pending kf, g_pending_board := kf_pending_board kf,
           g_lock_seq := lk ! 0 mod 2 ^ 64, g_lock_hash := word_of_int (lk ! 1), g_events := []\<rparr>)"

definition restore :: "i64 list \<Rightarrow> game \<Rightarrow> bool \<times> game" where
  "restore data g =
     (case read_keyframe (nat (b_width (g_board g) * b_height (g_board g) * 4)) \<lparr>cu_d = data, cu_i = 0, cu_ok = True\<rparr> of
        None \<Rightarrow> (False, g)
      | Some (kf, c) \<Rightarrow>
          if \<not> cu_ok c \<or> cu_i c \<noteq> length data then (False, g) else (True, commit kf g))"

subsection \<open>Bytes\<close>

definition snapshot_bytes :: "game \<Rightarrow> u8 list" where
  "snapshot_bytes g = concat (map (le_bytes 8) (snapshot g))"

definition client_keyframe_bytes :: "game \<Rightarrow> u8 list" where
  "client_keyframe_bytes g = snapshot_bytes (g\<lparr>g_score := (g_score g)\<lparr>s_op_funds := 0\<rparr>\<rparr>)"

definition i64_of_le :: "u8 list \<Rightarrow> i64" where
  "i64_of_le bs = as_i64 (\<Sum>k < 8. uint (bs ! k) * 2 ^ (8 * k))"

definition chunks8 :: "u8 list \<Rightarrow> u8 list list" where
  "chunks8 bs = map (\<lambda>i. take 8 (drop (8 * i) bs)) [0..<length bs div 8]"

definition restore_bytes :: "u8 list \<Rightarrow> game \<Rightarrow> bool \<times> game" where
  "restore_bytes bs g =
     (if length bs mod 8 \<noteq> 0 then (False, g) else restore (map i64_of_le (chunks8 bs)) g)"

subsection \<open>One law for every reader\<close>

text \<open>
  A reader undoes its writer and leaves the cursor right after what it read; and it never looks past
  what it read, so more data behind changes nothing.
\<close>

definition at_cur :: "i64 list \<Rightarrow> i64 list \<Rightarrow> cur" where
  "at_cur pre rest = \<lparr>cu_d = pre @ rest, cu_i = length pre, cu_ok = True\<rparr>"

definition extend :: "i64 list \<Rightarrow> cur \<Rightarrow> cur" where
  "extend e c = c\<lparr>cu_d := cu_d c @ e\<rparr>"

definition stable :: "(cur \<Rightarrow> ('a \<times> cur) option) \<Rightarrow> bool" where
  "stable r \<longleftrightarrow> (\<forall>c x c'. r c = Some (x, c') \<longrightarrow> cu_ok c' \<longrightarrow>
     cu_ok c \<and> cu_d c' = cu_d c \<and> cu_i c \<le> cu_i c' \<and> (\<forall>e. r (extend e c) = Some (x, extend e c')))"

locale codec =
  fixes put :: "'a \<Rightarrow> i64 list"
    and read :: "cur \<Rightarrow> ('a \<times> cur) option"
    and ok :: "'a \<Rightarrow> bool"
  assumes peel: "ok x \<Longrightarrow> read (at_cur pre (put x @ rest)) = Some (x, at_cur (pre @ put x) rest)"
    and sound: "stable read"
begin

text \<open>A stream that was cut short is not read to its end, and neither is one with something appended.\<close>

lemma whole: "ok x \<Longrightarrow> read \<lparr>cu_d = put x, cu_i = 0, cu_ok = True\<rparr>
    = Some (x, \<lparr>cu_d = put x, cu_i = length (put x), cu_ok = True\<rparr>)"
  using peel [of x "[]" "[]"] by (simp add: at_cur_def)

lemma cut_short:
  assumes "ok x" "d @ e = put x" "e \<noteq> []" "read \<lparr>cu_d = d, cu_i = 0, cu_ok = True\<rparr> = Some (y, c)" "cu_ok c"
  shows "cu_i c \<noteq> length d"
proof
  assume i: "cu_i c = length d"
  let ?c = "\<lparr>cu_d = d, cu_i = 0, cu_ok = True\<rparr>"
  have "read (extend e ?c) = Some (y, extend e c)" using sound assms(4,5) unfolding stable_def by blast
  then have "read \<lparr>cu_d = put x, cu_i = 0, cu_ok = True\<rparr> = Some (y, extend e c)"
    by (simp add: extend_def assms(2))
  then have eq: "\<lparr>cu_d = put x, cu_i = length (put x), cu_ok = True\<rparr> = extend e c" using whole [OF assms(1)] by auto
  have "length (put x) = cu_i c" using arg_cong [OF eq, of cu_i] by (simp add: extend_def)
  moreover have "length (put x) = length d + length e" using arg_cong [OF assms(2), of length] by simp
  ultimately show False using i assms(3) by simp
qed

lemma run_over:
  assumes "ok x" "e \<noteq> []" "read \<lparr>cu_d = put x @ e, cu_i = 0, cu_ok = True\<rparr> = Some (y, c)"
  shows "cu_i c \<noteq> length (put x @ e)"
  using peel [OF assms(1), of "[]" e] assms(2,3) by (auto simp: at_cur_def)

end

subsection \<open>The readers are stable\<close>

lemma stable_Some: "stable (\<lambda>c. Some (x, c))"
  and stable_None: "stable (\<lambda>c. None)"
  by (simp_all add: stable_def)

lemma stable_bind:
  assumes r: "stable r" and f: "\<And>x. stable (f x)"
  shows "stable (\<lambda>c. Option.bind (r c) (\<lambda>(x, c). f x c))"
  unfolding stable_def
proof (intro allI impI, elim bind_eq_SomeE, clarify)
  fix c y c'' x c'
  assume *: "r c = Some (x, c')" "f x c' = Some (y, c'')" "cu_ok c''"
  have F: "cu_ok c'" "cu_d c'' = cu_d c'" "cu_i c' \<le> cu_i c''" "\<forall>e. f x (extend e c') = Some (y, extend e c'')"
    using f [of x] *(2,3) by (auto simp: stable_def)
  have "cu_ok c" "cu_d c' = cu_d c" "cu_i c \<le> cu_i c'" "\<forall>e. r (extend e c) = Some (x, extend e c')"
    using r *(1) F(1) by (auto simp: stable_def)
  then show "cu_ok c \<and> cu_d c'' = cu_d c \<and> cu_i c \<le> cu_i c'' \<and>
      (\<forall>e. Option.bind (r (extend e c)) (\<lambda>(x, c). f x c) = Some (y, extend e c''))"
    using F by auto
qed

lemma stable_if: "stable f \<Longrightarrow> stable g \<Longrightarrow> stable (\<lambda>c. if b then f c else g c)"
  by (cases b) simp_all

lemma stable_case: "(\<And>x. stable (f x)) \<Longrightarrow> stable (\<lambda>c. case m of None \<Rightarrow> None | Some x \<Rightarrow> f x c)"
  by (cases m) (simp_all add: stable_None)

lemma cur_next_stable:
  assumes "cur_next c = (v, c')" "cu_ok c'"
  shows "cu_ok c" "cu_d c' = cu_d c" "cu_i c \<le> cu_i c'" "cur_next (extend e c) = (v, extend e c')"
  using assms by (auto simp: cur_next_def extend_def nth_append split: if_splits)

lemma stable_read_i: "stable read_i"
  using cur_next_stable unfolding stable_def read_i_def by (metis (no_types, lifting) option.inject)

lemma rd_n_stable:
  "rd_n n c = (vs, c') \<Longrightarrow> cu_ok c' \<Longrightarrow>
    cu_ok c \<and> cu_d c' = cu_d c \<and> cu_i c \<le> cu_i c' \<and> rd_n n (extend e c) = (vs, extend e c')"
proof (induction n arbitrary: c vs)
  case (Suc n)
  obtain v c1 where 1: "cur_next c = (v, c1)" by (cases "cur_next c")
  obtain ws c2 where 2: "rd_n n c1 = (ws, c2)" by (cases "rd_n n c1")
  have eq: "vs = v # ws" "c' = c2" using Suc.prems(1) 1 2 by simp_all
  note IH = Suc.IH [OF 2 [folded eq(2)] Suc.prems(2)]
  show ?case using IH cur_next_stable(1-3) [OF 1] cur_next_stable(4) [OF 1, of e] 1 eq by auto
qed simp

lemma stable_block: "stable (block n)"
  using rd_n_stable unfolding stable_def block_def by (metis (no_types, lifting) option.inject)

lemmas stable_intros = stable_bind stable_if stable_case stable_Some stable_None stable_read_i stable_block

lemma stable_read_piece: "stable read_piece"
  unfolding read_piece_def Let_def by (intro stable_intros)

lemma stable_read_tokens: "stable (read_tokens n)"
proof (induction n)
  case (Suc n)
  have "stable (\<lambda>c. read_tokens (Suc n) c)"
    unfolding read_tokens.simps by (intro stable_intros Suc.IH)
  then show ?case by simp
qed (simp add: stable_def)

lemma stable_read_pending: "stable read_pending"
  unfolding read_pending_def by (intro stable_intros stable_read_tokens)

lemma stable_read_pending_board: "stable (read_pending_board n)"
  unfolding read_pending_board_def by (intro stable_intros)

lemma stable_read_keyframe: "stable (read_keyframe n)"
  unfolding read_keyframe_def
  by (intro stable_intros stable_read_piece stable_read_pending stable_read_pending_board)

subsection \<open>The readers undo the writers\<close>

lemma cur_next_at [simp]: "cur_next (at_cur pre (v # rest)) = (v, at_cur (pre @ [v]) rest)"
  by (simp add: cur_next_def at_cur_def nth_append)

lemma rd_n_at: "rd_n (length xs) (at_cur pre (xs @ rest)) = (xs, at_cur (pre @ xs) rest)"
proof (induction xs arbitrary: pre)
  case (Cons x xs)
  then show ?case using Cons.IH [of "pre @ [x]"] by (simp add: Let_def)
qed simp

lemma block_at [simp]: "length xs = n \<Longrightarrow> block n (at_cur pre (xs @ rest)) = Some (xs, at_cur (pre @ xs) rest)"
  using rd_n_at [of xs] by (auto simp: block_def)

lemma read_i_at [simp]: "read_i (at_cur pre (v # rest)) = Some (v, at_cur (pre @ [v]) rest)"
  by (simp add: read_i_def)

interpretation int_codec: codec "\<lambda>v. [v]" read_i "\<lambda>v. True"
  by unfold_locales (simp_all add: stable_read_i)

interpretation block_codec: codec "\<lambda>xs. xs" "block n" "\<lambda>xs. length xs = n" for n
  by unfold_locales (simp_all add: stable_block)

lemma read_tokens_at:
  "read_tokens (length ts) (at_cur pre (map (\<lambda>t. int (index t)) ts @ rest))
    = Some (ts, at_cur (pre @ map (\<lambda>t. int (index t)) ts) rest)"
proof (induction ts arbitrary: pre)
  case (Cons t ts)
  have "in_i32 (int (index t))" using index_less [of t] unfolding in_i32_def by linarith
  then show ?case using Cons.IH [of "pre @ [int (index t)]"] by simp
qed simp

definition put_pending :: "weapon_token list \<Rightarrow> i64 list" where
  "put_pending ts = int (length ts) # map (\<lambda>t. int (index t)) ts"

interpretation pending_codec: codec put_pending read_pending "\<lambda>ts. length ts \<le> 1024"
  by unfold_locales (simp_all add: stable_read_pending read_pending_def put_pending_def read_tokens_at)

definition i32_list :: "int list \<Rightarrow> bool" where
  "i32_list xs \<longleftrightarrow> (\<forall>x \<in> set xs. in_i32 x)"

lemma map_as_i32 [simp]: "i32_list xs \<Longrightarrow> map as_i32 xs = xs"
  by (simp add: i32_list_def map_idI)

interpretation pending_board_codec: codec put_pending_board "read_pending_board n"
    "\<lambda>pb. \<forall>cells. pb = Some cells \<longrightarrow> length cells = n \<and> i32_list cells" for n
  by unfold_locales (auto simp: stable_read_pending_board read_pending_board_def put_pending_board_def
      split: option.split)

subsection \<open>Squares on the stream\<close>

lemma nth_concat_blocks:
  assumes "\<And>x. x \<in> set xs \<Longrightarrow> length (f x) = m" "i < length xs" "j < m"
  shows "concat (map f xs) ! (m * i + j) = f (xs ! i) ! j"
  using assms
proof (induction xs arbitrary: i)
  case (Cons x xs)
  then show ?case by (cases i) (simp_all add: nth_append algebra_simps)
qed simp

lemma length_concat_blocks: "(\<And>x. x \<in> set xs \<Longrightarrow> length (f x) = m) \<Longrightarrow> length (concat (map f xs)) = m * length xs"
  by (induction xs) simp_all

lemma four_nth: "length xs = 4 \<Longrightarrow> [xs ! 0, xs ! 1, xs ! 2, xs ! 3] = xs"
  by (auto simp: length_Suc_conv eval_nat_numeral)

text \<open>Four consecutive entries of a stream of squares are one square.\<close>

lemma decode_block:
  assumes "i < length cs"
  shows "decode [concat (map encode_opt cs) ! (4 * i), concat (map encode_opt cs) ! (4 * i + 1),
    concat (map encode_opt cs) ! (4 * i + 2), concat (map encode_opt cs) ! (4 * i + 3)] = cs ! i"
proof -
  have b: "concat (map encode_opt cs) ! (4 * i + j) = encode_opt (cs ! i) ! j" if "j < 4" for j
    by (rule nth_concat_blocks) (use assms that in simp_all)
  have "[concat (map encode_opt cs) ! (4 * i), concat (map encode_opt cs) ! (4 * i + 1),
    concat (map encode_opt cs) ! (4 * i + 2), concat (map encode_opt cs) ! (4 * i + 3)] = encode_opt (cs ! i)"
    using b [of 0] b [of 1] b [of 2] b [of 3] four_nth [of "encode_opt (cs ! i)"] by simp
  then show ?thesis by simp
qed

definition cells_i32 :: "cell option list \<Rightarrow> bool" where
  "cells_i32 cs \<longleftrightarrow> (\<forall>c. Some c \<in> set cs \<longrightarrow> cell_i32 c)"

lemma i32_squares: "cells_i32 cs \<Longrightarrow> i32_list (concat (map encode_opt cs))"
proof (unfold i32_list_def, clarsimp)
  fix c n assume "cells_i32 cs" "c \<in> set cs" "n \<in> set (encode_opt c)"
  then show "in_i32 n" by (intro encode_opt_i32 [of c n]) (auto simp: cells_i32_def)
qed

lemma nth_squares: "i < 8 \<Longrightarrow> j < 8 \<Longrightarrow> squares 8 ! (8 * i + j) = (i, j)"
  unfolding squares_def by (subst nth_concat_blocks) simp_all

lemma length_squares: "length (squares 8) = 64"
  unfolding squares_def by (subst length_concat_blocks) simp_all

text \<open>The pieces that a keyframe carries.\<close>

definition piece_kf :: "piece \<Rightarrow> bool" where
  "piece_kf p \<longleftrightarrow> wf_piece p \<and> in_i32 (p_x p) \<and> in_i32 (p_y p) \<and> in_i32 (p_color p) \<and> in_i32 (p_orientation p)
     \<and> in_i32 (p_orientations p) \<and> in_i32 (p_state p)
     \<and> cells_i32 (map (\<lambda>(i, j). p_cells p ! i ! j) (squares 8))"

lemma put_piece_cells:
  "concat (map (\<lambda>(col, row). encode_opt (p_cells p ! col ! row)) (squares 8))
    = concat (map encode_opt (map (\<lambda>(i, j). p_cells p ! i ! j) (squares 8)))"
  by (simp add: comp_def case_prod_unfold)

lemma piece_cells_of_put:
  assumes "wf_shape cs" "cells_i32 (map (\<lambda>(i, j). cs ! i ! j) (squares 8))"
  shows "piece_cells_of (concat (map encode_opt (map (\<lambda>(i, j). cs ! i ! j) (squares 8)))) = cs"
proof (rule shape_eqI [OF _ assms(1)])
  let ?l = "map (\<lambda>(i, j). cs ! i ! j) (squares 8)"
  let ?q = "concat (map encode_opt ?l)"
  show "wf_shape (piece_cells_of ?q)" by (simp add: wf_shape_def piece_cells_of_def)
  have q: "as_i32 (?q ! k) = ?q ! k" if "k < 256" for k
  proof -
    have "length ?q = 256" by (subst length_concat_blocks [where m = 4]) (simp_all add: length_squares)
    then have "?q ! k \<in> set ?q" using that by (intro nth_mem) (simp only:)
    then show ?thesis using i32_squares [OF assms(2)] unfolding i32_list_def by (intro as_i32_id) blast
  qed
  fix i j :: nat assume ij: "i < 8" "j < 8"
  let ?k = "4 * (8 * i + j)"
  have k: "?k < 256" "?k + 1 < 256" "?k + 2 < 256" "?k + 3 < 256" using ij by simp_all
  have "piece_cells_of ?q ! i ! j = decode [?q ! (4 * (8 * i + j)), ?q ! (4 * (8 * i + j) + 1),
      ?q ! (4 * (8 * i + j) + 2), ?q ! (4 * (8 * i + j) + 3)]"
    using ij by (simp only: piece_cells_of_def Let_def nth_map_upt length_upt nth_map nth_upt add_0 diff_zero k [THEN q])
  also have "\<dots> = ?l ! (8 * i + j)"
    by (rule decode_block) (use ij in \<open>simp add: length_squares\<close>)
  also have "\<dots> = cs ! i ! j" using ij by (simp add: length_squares nth_squares)
  finally show "piece_cells_of ?q ! i ! j = cs ! i ! j" .
qed

interpretation piece_codec: codec put_piece read_piece "\<lambda>cur. \<forall>p. cur = Some p \<longrightarrow> piece_kf p"
proof
  fix cur pre rest assume ok: "\<forall>p. cur = Some p \<longrightarrow> piece_kf p"
  show "read_piece (at_cur pre (put_piece cur @ rest)) = Some (cur, at_cur (pre @ put_piece cur) rest)"
  proof (cases cur)
    case None
    then show ?thesis by (simp add: put_piece_def read_piece_def)
  next
    case (Some p)
    then have p: "piece_kf p" using ok by simp
    let ?l = "map (\<lambda>(i, j). p_cells p ! i ! j) (squares 8)"
    let ?v = "[p_x p, p_y p, p_color p, as_i32 (int (p_rot p)), p_orientation p, p_orientations p, p_state p]"
    let ?q = "concat (map encode_opt ?l)"
    have lq: "length ?q = 256" by (subst length_concat_blocks [where m = 4]) (simp_all add: length_squares)
    have cells: "piece_cells_of ?q = p_cells p"
      using p by (intro piece_cells_of_put) (simp_all add: piece_kf_def wf_piece_def)
    have rot: "p_rot p \<in> {0, 3, 4, 8}" "0 < p_orientations p" "0 \<le> p_orientation p" "p_orientation p < p_orientations p"
      using p by (simp_all add: piece_kf_def wf_piece_def)
    have r: "as_i32 (int (p_rot p)) = int (p_rot p)" "int (p_rot p) mod 18446744073709551616 = int (p_rot p)"
      using rot(1) by (auto simp: in_i32_def)
    have k: "in_i32 (kind_id (p_kind p))" using kind_id_range [of "p_kind p"] by (simp add: in_i32_def)
    obtain v q where vq: "v = ?v" "q = ?q" by blast
    have put: "put_piece cur = 1 # kind_id (p_kind p) # v @ q"
      by (simp add: put_piece_def Some put_piece_cells vq)
    have len: "length v = 7" "length q = 256" using lq by (simp_all add: vq)
    have nth: "v ! 0 = p_x p" "v ! Suc 0 = p_y p" "v ! 2 = p_color p" "v ! 3 mod 18446744073709551616 = int (p_rot p)"
      "v ! 4 = p_orientation p" "v ! 5 = p_orientations p" "v ! 6 = p_state p"
      using r by (simp_all add: vq)
    have i32: "in_i32 (p_x p)" "in_i32 (p_y p)" "in_i32 (p_color p)" "in_i32 (p_orientation p)"
      "in_i32 (p_orientations p)" "in_i32 (p_state p)" using p by (simp_all add: piece_kf_def)
    show ?thesis
      using rot k i32 len cells [folded vq(2)] unfolding put read_piece_def
      by (simp add: nth Let_def Some)
  qed
qed (rule stable_read_piece)

subsection \<open>The whole keyframe\<close>

definition put_keyframe :: "keyframe \<Rightarrow> i64 list" where
  "put_keyframe kf =
     KEYFRAME_VERSION # kf_head kf @ phase_code (kf_phase kf) # kf_clock kf @ kf_score kf @ kf_rng kf # kf_keep kf @
     kf_stream kf @ kf_counts kf @ kf_remaining kf @ kf_arsenal kf @ put_piece (kf_current kf) @
     put_pending (kf_pending kf) @ put_pending_board (kf_pending_board kf) @ kf_board kf @ kf_active kf @
     kf_flags kf @ kf_lock kf"

definition kf_wf :: "nat \<Rightarrow> keyframe \<Rightarrow> bool" where
  "kf_wf n kf \<longleftrightarrow> length (kf_head kf) = 13 \<and> length (kf_clock kf) = 8 \<and> length (kf_score kf) = 6 \<and>
     length (kf_keep kf) = 19 \<and> length (kf_stream kf) = 3 \<and> length (kf_counts kf) = 34 \<and>
     length (kf_remaining kf) = 34 \<and> length (kf_arsenal kf) = 20 \<and>
     (\<forall>p. kf_current kf = Some p \<longrightarrow> piece_kf p) \<and> length (kf_pending kf) \<le> 1024 \<and>
     (\<forall>cells. kf_pending_board kf = Some cells \<longrightarrow> length cells = n \<and> i32_list cells) \<and>
     length (kf_board kf) = n \<and> length (kf_active kf) = 34 \<and> length (kf_flags kf) = 4 \<and> length (kf_lock kf) = 2"

lemma phase_code_inverse [simp]: "phase_of_code (phase_code ph) = Some ph"
  by (cases ph) (simp_all add: phase_of_code_def phase_code_def)

interpretation kf_codec: codec put_keyframe "read_keyframe n" "kf_wf n" for n
proof
  fix kf pre rest assume "kf_wf n kf"
  then show "read_keyframe n (at_cur pre (put_keyframe kf @ rest)) = Some (kf, at_cur (pre @ put_keyframe kf) rest)"
    by (simp add: kf_wf_def put_keyframe_def read_keyframe_def BT_MAX_WEAPONS_def piece_codec.peel
        pending_codec.peel pending_board_codec.peel)
qed (rule stable_read_keyframe)

text \<open>What \<open>snapshot\<close> writes is the keyframe of these locals.\<close>

definition locals_of :: "game \<Rightarrow> keyframe" where
  "locals_of g = \<lparr>
     kf_head = [g_x g, g_y g, g_def_x g, g_def_y g, g_delta_y g, g_left_x g, g_right_x g, g_base_drop_time g,
      g_fast_drop_time g, g_drop_time g, g_slide_time g, of_bool_i (g_dropping g), g_sliding g],
     kf_phase = g_phase g,
     kf_clock = [g_drop_accum g, g_slide_accum g, of_bool_i (g_paused g), g_hatter_accum g,
      g_slick_accum g, g_slick_dir g, of_bool_i (g_in_bazaar g), g_lines_til_baz g],
     kf_score = [s_score (g_score g), s_op_score (g_score g), s_lines (g_score g), s_op_lines (g_score g),
      s_funds (g_score g), s_op_funds (g_score g)],
     kf_rng = as_i64 (uint (rng_raw (g_rng g))),
     kf_keep = map (\<lambda>f. as_i64 (uint f)) (keep_prob (g_pieces g)),
     kf_stream = [hap_on (g_pieces g), of_bool_i (broken (g_pieces g)), old_piece (g_pieces g)],
     kf_counts = flags_raw (g_weapons g), kf_remaining = g_remaining g, kf_arsenal = export_arsenal g,
     kf_current = g_current g, kf_pending = g_pending g, kf_pending_board = g_pending_board g,
     kf_board = export_board g, kf_active = flags_raw (b_active (g_board g)),
     kf_flags = [of_bool_i (b_upside (g_board g)), of_bool_i (b_computer (g_board g)), of_bool_i (b_idiot (g_board g)),
      b_reason (g_board g)],
     kf_lock = [as_i64 (g_lock_seq g), uint (g_lock_hash g)]\<rparr>"

lemma snapshot_locals: "snapshot g = put_keyframe (locals_of g)"
  by (simp add: snapshot_def put_keyframe_def locals_of_def put_pending_def)

subsection \<open>Board and arsenal come back\<close>

lemma concat_positions: "concat (map f (positions xs ys)) = concat (map (\<lambda>y. concat (map (\<lambda>x. f (x, y)) xs)) ys)"
  by (induction ys) (simp_all add: positions_def comp_def)

lemma export_board_squares:
  "export_board g = concat (map encode_opt (map (\<lambda>p. get (g_board g) (fst p) (snd p))
     (positions (range_i 0 (b_width (g_board g))) (range_i 0 (b_height (g_board g))))))"
  by (simp add: export_board_def concat_positions Let_def comp_def)

lemma length_positions: "length (positions xs ys) = length xs * length ys"
  by (simp add: positions_def length_concat comp_def sum_list_triv)

lemma import_fold:
  assumes "distinct ps" "wf_board b" "\<And>p. p \<in> set ps \<Longrightarrow> in_bounds b (fst p) (snd p)"
    and "\<And>k. k < length ps \<Longrightarrow> c (i + 4 * k) = v (ps ! k)"
  shows "wf_board (fst (fold (\<lambda>p (b, i). (set_cell b (fst p) (snd p) (c i), i + 4)) ps (b, i)))
    \<and> same_frame b (fst (fold (\<lambda>p (b, i). (set_cell b (fst p) (snd p) (c i), i + 4)) ps (b, i :: nat)))
    \<and> (\<forall>x y. get (fst (fold (\<lambda>p (b, i). (set_cell b (fst p) (snd p) (c i), i + 4)) ps (b, i))) x y =
        (if (x, y) \<in> set ps then v (x, y) else get b x y))"
  using assms
proof (induction ps arbitrary: b i)
  case (Cons p ps)
  let ?b = "set_cell b (fst p) (snd p) (c i)"
  have c0: "c i = v p" using Cons.prems(4) [of 0] by simp
  have tl: "c (i + 4 + 4 * k) = v (ps ! k)" if "k < length ps" for k
    using Cons.prems(4) [of "Suc k"] that by (simp add: algebra_simps)
  have IH: "wf_board (fst (fold (\<lambda>p (b, i). (set_cell b (fst p) (snd p) (c i), i + 4)) ps (?b, i + 4)))
    \<and> same_frame ?b (fst (fold (\<lambda>p (b, i). (set_cell b (fst p) (snd p) (c i), i + 4)) ps (?b, i + 4)))
    \<and> (\<forall>x y. get (fst (fold (\<lambda>p (b, i). (set_cell b (fst p) (snd p) (c i), i + 4)) ps (?b, i + 4))) x y =
        (if (x, y) \<in> set ps then v (x, y) else get ?b x y))"
    by (rule Cons.IH) (use Cons.prems tl in simp_all)
  have g: "get ?b x y = (if (x, y) = p then v p else get b x y)" for x y
    using get_set_cell [OF Cons.prems(2), of "fst p" "snd p" "c i" x y] Cons.prems(3) [of p] c0
    by (cases p) auto
  have f: "same_frame b d" if "same_frame ?b d" for d using same_frame_trans [OF same_frame_set that] .
  show ?case using IH f g Cons.prems(1) by (auto simp: g)
qed simp

lemma import_export_board:
  assumes b: "std_board (g_board g)" and h: "std_board (g_board h)"
  shows "\<exists>d. import_board (export_board g) h = h\<lparr>g_board := d\<rparr> \<and> b_cells d = b_cells (g_board g)
    \<and> same_frame (g_board h) d"
proof -
  let ?ps = "positions (range_i 0 10) (range_i 0 28)"
  let ?cs = "map (\<lambda>p. get (g_board g) (fst p) (snd p)) ?ps"
  obtain data where data: "data = export_board g" by blast
  have D: "data = concat (map encode_opt ?cs)"
    unfolding data export_board_squares using b by (simp add: std_board_def)
  have ps: "length ?ps = 280" by (simp add: length_positions)
  then have len: "length data = 1120" unfolding D by (subst length_concat_blocks [where m = 4]) simp_all
  let ?c = "\<lambda>i. decode [data ! i, data ! (i + 1), data ! (i + 2), data ! (i + 3)]"
  let ?d = "fst (fold (\<lambda>p (b, i). (set_cell b (fst p) (snd p) (?c i), i + 4)) ?ps (g_board h, 0))"
  have c: "?c (0 + 4 * k) = (\<lambda>p. get (g_board g) (fst p) (snd p)) (?ps ! k)" if "k < length ?ps" for k
    using decode_block [of k ?cs] that unfolding D by simp
  have F: "wf_board ?d \<and> same_frame (g_board h) ?d \<and> (\<forall>x y. get ?d x y =
      (if (x, y) \<in> set ?ps then (\<lambda>p. get (g_board g) (fst p) (snd p)) (x, y) else get (g_board h) x y))"
    by (rule import_fold) (use h c in \<open>auto simp: in_bounds_def std_board_def\<close>)
  have "get ?d x y = get (g_board g) x y" for x y
  proof (cases "(x, y) \<in> set ?ps")
    case True
    then show ?thesis using F by simp
  next
    case False
    then have "\<not> in_bounds (g_board h) x y" "\<not> in_bounds (g_board g) x y"
      using b h by (auto simp: in_bounds_def std_board_def)
    then show ?thesis using F False by (simp add: get_out)
  qed
  then have cells: "b_cells ?d = b_cells (g_board g)"
    using F b h by (intro cells_eqI) (auto simp: same_frameD std_board_iff)
  have "import_board data h = h\<lparr>g_board := ?d\<rparr>"
    using h len by (simp add: import_board_def Let_def std_board_def fold_nested case_prod_unfold)
  then show ?thesis using cells F data by blast
qed

lemma update_next:
  "n < length xs \<Longrightarrow> n < length ys \<Longrightarrow> (take n xs @ drop n ys)[n := xs ! n] = take (Suc n) xs @ drop (Suc n) ys"
  by (simp add: list_update_append take_Suc_conv_app_nth min_def flip: Cons_nth_drop_Suc)

lemma fold_set_slot:
  assumes "n \<le> 10" "length (rep a) = 10" "length (quantity a) = 10"
    and "\<And>i. i < n \<Longrightarrow> T i = r ! i \<and> Q i = q ! i \<and> (r ! i = None \<longleftrightarrow> q ! i = 0)"
    and "length r = 10" "length q = 10"
  shows "fold (\<lambda>i a. set_slot a i (T i) (Q i)) [0..<n] a
    = \<lparr>rep = take n r @ drop n (rep a), quantity = take n q @ drop n (quantity a)\<rparr>"
  using assms(1,4)
proof (induction n)
  case (Suc n)
  let ?a = "\<lparr>rep = take n r @ drop n (rep a), quantity = take n q @ drop n (quantity a)\<rparr>"
  have n: "T n = r ! n" "Q n = q ! n" "r ! n = None \<longleftrightarrow> q ! n = 0" using Suc.prems(2) [of n] by simp_all
  have "fold (\<lambda>i a. set_slot a i (T i) (Q i)) [0..<Suc n] a = set_slot ?a n (r ! n) (q ! n)"
    using Suc by (simp add: n)
  also have "\<dots> = ?a\<lparr>rep := (rep ?a)[n := r ! n], quantity := (quantity ?a)[n := q ! n]\<rparr>"
    using Suc.prems(1) n(3) by (auto simp: set_slot_def bt_const)
  also have "\<dots> = \<lparr>rep = take (Suc n) r @ drop (Suc n) (rep a), quantity = take (Suc n) q @ drop (Suc n) (quantity a)\<rparr>"
    using assms Suc.prems(1) by (simp add: update_next)
  finally show ?case .
qed (cases a, simp)

lemma import_export_arsenal:
  assumes "wf_arsenal (g_arsenal g)"
  shows "import_arsenal (export_arsenal g) h = h\<lparr>g_arsenal := g_arsenal g\<rparr>"
    and "length (export_arsenal g) = 20" and "i32_list (export_arsenal g)"
proof -
  let ?a = "g_arsenal g"
  let ?f = "\<lambda>i. [token_int (slot_token ?a i), uint (slot_quantity ?a i)]"
  have a: "length (rep ?a) = 10" "length (quantity ?a) = 10" "i < 10 \<Longrightarrow> rep ?a ! i = None \<longleftrightarrow> quantity ?a ! i = 0" for i
    using wf_arsenalD [OF assms] by simp_all
  have q: "0 \<le> uint w \<and> uint w \<le> 65535" for w :: u16 using uint_lt2p [of w] by simp
  show len: "length (export_arsenal g) = 20"
    unfolding export_arsenal_def by (subst length_concat_blocks [where m = 2]) simp_all
  have nth: "export_arsenal g ! (i * 2) = token_int (rep ?a ! i)" "export_arsenal g ! (i * 2 + 1) = uint (quantity ?a ! i)"
    if "i < 10" for i
    using nth_concat_blocks [of "[0..<10]" ?f 2 i 0] nth_concat_blocks [of "[0..<10]" ?f 2 i 1] that a
    by (simp_all add: export_arsenal_def slot_token_def slot_quantity_def mult.commute)
  have tok: "from_index (token_int t) = t" for t
    by (cases t) (simp_all add: token_int_def from_index_None)
  let ?T = "\<lambda>i. from_index (export_arsenal g ! (i * 2))"
  let ?Q = "\<lambda>i. word_of_int (max 0 (min 65535 (export_arsenal g ! (i * 2 + 1)))) :: u16"
  have "fold (\<lambda>i a. set_slot a i (?T i) (?Q i)) [0..<10] arsenal_new
      = \<lparr>rep = take 10 (rep ?a) @ drop 10 (rep arsenal_new), quantity = take 10 (quantity ?a) @ drop 10 (quantity arsenal_new)\<rparr>"
    by (rule fold_set_slot) (use a nth tok q in \<open>auto simp: arsenal_new_def bt_const\<close>)
  also have "\<dots> = ?a" using a by (simp add: arsenal_new_def bt_const)
  finally show "import_arsenal (export_arsenal g) h = h\<lparr>g_arsenal := ?a\<rparr>"
    using len by (simp add: import_arsenal_def Let_def)
  have "in_i32 (token_int t)" for t
  proof (cases t)
    case (Some w)
    then show ?thesis by (simp add: token_int_def in_i32_def less_trans [OF index_less])
  qed (simp add: token_int_def in_i32_def)
  moreover have "in_i32 (uint w)" for w :: u16 using q [of w] unfolding in_i32_def by linarith
  ultimately show "i32_list (export_arsenal g)" by (auto simp: i32_list_def export_arsenal_def)
qed

subsection \<open>Restoring a snapshot\<close>

text \<open>
  The games a keyframe carries faithfully: the machine integers are in range (in Rust, by their type),
  the arrays have their length, the arsenal counts, at most 1024 weapons wait, and a waiting board is
  a whole board.
\<close>

definition kf_game :: "game \<Rightarrow> bool" where
  "kf_game g \<longleftrightarrow> std_board (g_board g) \<and> wf_arsenal (g_arsenal g) \<and> wf_flags (g_weapons g) \<and>
     length (g_remaining g) = 34 \<and> length (keep_prob (g_pieces g)) = 19 \<and>
     i32_list [g_x g, g_y g, g_def_x g, g_def_y g, g_delta_y g, g_left_x g, g_right_x g, g_base_drop_time g,
       g_fast_drop_time g, g_drop_time g, g_slide_time g, g_sliding g, g_drop_accum g, g_slide_accum g,
       g_hatter_accum g, g_slick_accum g, g_slick_dir g, g_lines_til_baz g, hap_on (g_pieces g), old_piece (g_pieces g)] \<and>
     i32_list (counts (g_weapons g)) \<and> i32_list (g_remaining g) \<and> i32_list (counts (b_active (g_board g))) \<and>
     cells_i32 (map (\<lambda>p. get (g_board g) (fst p) (snd p)) (positions (range_i 0 10) (range_i 0 28))) \<and>
     in_i16 (b_reason (g_board g)) \<and> (\<forall>p. g_current g = Some p \<longrightarrow> piece_kf p) \<and> length (g_pending g) \<le> 1024 \<and>
     (\<forall>cells. g_pending_board g = Some cells \<longrightarrow> length cells = 1120 \<and> i32_list cells) \<and>
     0 \<le> g_lock_seq g \<and> g_lock_seq g < 2 ^ 64"

lemma export_board_length:
  assumes "kf_game g" shows "length (export_board g) = 1120" "i32_list (export_board g)"
proof -
  let ?cs = "map (\<lambda>p. get (g_board g) (fst p) (snd p)) (positions (range_i 0 10) (range_i 0 28))"
  have E: "export_board g = concat (map encode_opt ?cs)"
    using assms unfolding export_board_squares by (simp add: kf_game_def std_board_def)
  show "length (export_board g) = 1120"
    unfolding E by (subst length_concat_blocks [where m = 4]) (simp_all add: length_positions)
  show "i32_list (export_board g)" unfolding E by (rule i32_squares) (use assms in \<open>simp add: kf_game_def\<close>)
qed

lemma locals_of_wf:
  assumes "kf_game g" shows "kf_wf 1120 (locals_of g)"
  using assms export_board_length [OF assms] import_export_arsenal(2) [of g]
  by (simp add: kf_wf_def locals_of_def kf_game_def flags_raw_def wf_flags_def std_board_def bt_const)

lemma u64_back: "word_of_int (as_i64 (uint w)) = (w :: u64)"
proof -
  have "take_bit 64 (as_i64 (uint w)) = take_bit 64 (uint w)"
    unfolding as_i64_def by (rule take_bit_signed_take_bit) simp
  then have "(word_of_int (as_i64 (uint w)) :: u64) = word_of_int (uint w)"
    unfolding word_of_int_eq_iff by simp
  then show ?thesis by simp
qed

lemma u64_seq_back: "0 \<le> n \<Longrightarrow> n < 2 ^ 64 \<Longrightarrow> as_i64 n mod 2 ^ 64 = n"
proof -
  assume n: "0 \<le> n" "n < 2 ^ 64"
  have "take_bit 64 (as_i64 n) = take_bit 64 n" unfolding as_i64_def by (rule take_bit_signed_take_bit) simp
  then show ?thesis using n by (simp add: take_bit_eq_mod)
qed

lemma score_eta: "\<lparr>s_score = s_score s, s_op_score = s_op_score s, s_lines = s_lines s, s_op_lines = s_op_lines s,
    s_funds = s_funds s, s_op_funds = s_op_funds s\<rparr> = s"
  by (cases s) simp

lemma rng_eta: "\<lparr>rng_state = rng_state r\<rparr> = r"
  by (cases r) simp

lemma flags_eta: "f'\<lparr>counts := counts f\<rparr> = (f :: active_flags)"
  by (cases f, cases f') simp

lemma commit_locals:
  assumes g: "kf_game g" and h: "std_board (g_board h)"
  shows "commit (locals_of g) h = g\<lparr>g_events := [], g_board := (g_board g)\<lparr>b_new_fill := b_new_fill (g_board h)\<rparr>\<rparr>"
proof -
  have std: "std_board (g_board g)" and ars: "wf_arsenal (g_arsenal g)" using g by (simp_all add: kf_game_def)
  note A = import_export_arsenal [OF ars]
  note B = export_board_length [OF g]
  have ints: "in_i32 v" if "v \<in> set [g_x g, g_y g, g_def_x g, g_def_y g, g_delta_y g, g_left_x g, g_right_x g, g_base_drop_time g,
       g_fast_drop_time g, g_drop_time g, g_slide_time g, g_sliding g, g_drop_accum g, g_slide_accum g,
       g_hatter_accum g, g_slick_accum g, g_slick_dir g, g_lines_til_baz g, hap_on (g_pieces g), old_piece (g_pieces g)]" for v
    using g that unfolding kf_game_def i32_list_def by blast
  let ?h1 = "h\<lparr>g_x := g_x g, g_y := g_y g, g_def_x := g_def_x g, g_def_y := g_def_y g, g_delta_y := g_delta_y g,
      g_left_x := g_left_x g, g_right_x := g_right_x g, g_base_drop_time := g_base_drop_time g,
      g_fast_drop_time := g_fast_drop_time g, g_drop_time := g_drop_time g, g_slide_time := g_slide_time g,
      g_dropping := g_dropping g, g_sliding := g_sliding g, g_phase := g_phase g, g_drop_accum := g_drop_accum g,
      g_slide_accum := g_slide_accum g, g_paused := g_paused g, g_hatter_accum := g_hatter_accum g,
      g_slick_accum := g_slick_accum g, g_slick_dir := g_slick_dir g, g_in_bazaar := g_in_bazaar g,
      g_lines_til_baz := g_lines_til_baz g, g_score := g_score g, g_rng := g_rng g, g_pieces := g_pieces g,
      g_weapons := g_weapons g, g_remaining := g_remaining g\<rparr>"
  obtain d where d: "import_board (export_board g) (?h1\<lparr>g_arsenal := g_arsenal g\<rparr>)
      = ?h1\<lparr>g_arsenal := g_arsenal g, g_board := d\<rparr>" "b_cells d = b_cells (g_board g)" "same_frame (g_board h) d"
    using import_export_board [OF std, of "?h1\<lparr>g_arsenal := g_arsenal g\<rparr>"] h by auto
  have dims: "b_width d = b_width (g_board g)" "b_height d = b_height (g_board g)" "b_new_fill d = b_new_fill (g_board h)"
    using same_frameD [OF d(3)] h std by (simp_all add: std_board_def)
  have pm: "pm_set_raw (keep_prob (g_pieces g)) (hap_on (g_pieces g)) (broken (g_pieces g)) (old_piece (g_pieces g)) m = g_pieces g" for m
    by (simp add: pm_set_raw_def)
  have ws: "word_of_int (uint w) = w" for w :: u32 by simp
  have stage: "commit (locals_of g) h =
    (let k = import_board (export_board g) (import_arsenal (export_arsenal g) ?h1) in
     k\<lparr>g_board := (g_board k)\<lparr>b_active := b_active (g_board g), b_upside := b_upside (g_board g),
         b_computer := b_computer (g_board g), b_idiot := b_idiot (g_board g), b_reason := b_reason (g_board g)\<rparr>,
       g_current := g_current g, g_pending := g_pending g, g_pending_board := g_pending_board g,
       g_lock_seq := g_lock_seq g, g_lock_hash := g_lock_hash g, g_events := []\<rparr>)"
    unfolding commit_def Let_def
    using g A(3) B(2)
    by (simp add: locals_of_def ints pm u64_back u64_seq_back kf_game_def rng_raw_def rng_from_raw_def comp_def
        flags_set_raw_def flags_raw_def score_eta rng_eta flags_eta del: power_numeral)
  show ?thesis
    unfolding stage Let_def A(1) d(1)
    by (rule game.equality) (simp_all add: board.equality d(2) dims)
qed

subsection \<open>Bytes come back\<close>

lemma le_sum:
  "(\<Sum>k < n. (z div 2 ^ (8 * k)) mod 256 * 2 ^ (8 * k)) = z mod 2 ^ (8 * n)" for z :: int
proof (induction n)
  case (Suc n)
  have "z mod (2 ^ (8 * n) * 256) = 2 ^ (8 * n) * (z div 2 ^ (8 * n) mod 256) + z mod 2 ^ (8 * n)"
    by (rule zmod_zmult2_eq) simp
  then show ?case using Suc by (simp add: mult.commute power_add)
qed simp

lemma i64_of_le_bytes: "in_i64 v \<Longrightarrow> i64_of_le (le_bytes 8 v) = v"
proof -
  assume v: "in_i64 v"
  have "(\<Sum>k < 8. uint (le_bytes 8 v ! k) * 2 ^ (8 * k)) = (\<Sum>k < 8. (v div 2 ^ (8 * k)) mod 256 * 2 ^ (8 * k))"
    by (rule sum.cong) (simp_all add: le_bytes_def uint_word_of_int)
  also have "\<dots> = v mod 2 ^ 64" using le_sum [of v 8] by simp
  also have "\<dots> = take_bit 64 v" by (simp add: take_bit_int_def)
  finally have "i64_of_le (le_bytes 8 v) = as_i64 (take_bit 64 v)" unfolding i64_of_le_def by simp
  also have "\<dots> = as_i64 v" unfolding as_i64_def by (simp add: signed_take_bit_take_bit)
  finally show ?thesis using v by simp
qed

lemma block_of_concat:
  assumes "\<And>x. length (f x) = m" "i < length xs"
  shows "take m (drop (m * i) (concat (map f xs))) = f (xs ! i)"
  using assms(2)
proof (induction xs arbitrary: i)
  case (Cons x xs)
  then show ?case by (cases i) (simp_all add: assms(1))
qed simp

lemma chunks8_concat: "(\<And>x. length (f x) = 8) \<Longrightarrow> chunks8 (concat (map f xs)) = map f xs"
  by (rule nth_equalityI) (simp_all add: chunks8_def length_concat_blocks [where m = 8] block_of_concat)

lemma restore_bytes_concat:
  assumes "\<forall>v \<in> set vs. in_i64 v"
  shows "restore_bytes (concat (map (le_bytes 8) vs)) g = restore vs g"
proof -
  have l: "length (le_bytes 8 v) = 8" for v by (simp add: le_bytes_def)
  have "map (i64_of_le \<circ> le_bytes 8) vs = vs" using assms i64_of_le_bytes by (intro map_idI) simp
  then show ?thesis
    unfolding restore_bytes_def chunks8_concat [of "le_bytes 8", OF l]
    by (simp add: l length_concat_blocks [where m = 8])
qed

definition i64_list :: "int list \<Rightarrow> bool" where
  "i64_list xs \<longleftrightarrow> (\<forall>x \<in> set xs. in_i64 x)"

lemma i64_list_simps [simp]:
  "i64_list []" "i64_list (x # xs) \<longleftrightarrow> in_i64 x \<and> i64_list xs" "i64_list (xs @ ys) \<longleftrightarrow> i64_list xs \<and> i64_list ys"
  by (auto simp: i64_list_def)

lemma i32_list_simps:
  "i32_list []" "i32_list (x # xs) \<longleftrightarrow> in_i32 x \<and> i32_list xs" "i32_list (xs @ ys) \<longleftrightarrow> i32_list xs \<and> i32_list ys"
  by (auto simp: i32_list_def)

lemma i32_i64_list: "i32_list xs \<Longrightarrow> i64_list xs"
  by (auto simp: i32_list_def i64_list_def in_i32_in_i64)

lemma in_i64_as_i64 [simp]: "in_i64 (as_i64 n)"
proof -
  have "- (2 ^ 63) \<le> signed_take_bit 63 n" "signed_take_bit 63 n < 2 ^ 63" by (simp_all del: power_numeral)
  then show ?thesis by (simp add: in_i64_def as_i64_def)
qed

lemma in_i64_uint32 [simp]: "in_i64 (uint (w :: u32))"
  using uint_lt2p [of w] by (simp add: in_i64_def order_trans [OF _ uint_ge_0] less_trans)

definition score_i64 :: "score \<Rightarrow> bool" where
  "score_i64 s \<longleftrightarrow> i64_list [s_score s, s_op_score s, s_lines s, s_op_lines s, s_funds s, s_op_funds s]"

lemma piece_i64:
  assumes "\<forall>p. cur = Some p \<longrightarrow> piece_kf p" shows "i64_list (put_piece cur)"
proof (cases cur)
  case (Some p)
  then have p: "piece_kf p" using assms by simp
  have "i32_list (put_piece (Some p))"
    using p i32_squares kind_id_range [of "p_kind p"]
    unfolding put_piece_def piece_kf_def option.case put_piece_cells
    by (simp add: i32_list_simps in_i32_def [of 1] in_i32_def [of "kind_id (p_kind p)"] del: map_map)
  then show ?thesis by (simp add: Some i32_i64_list)
qed (simp add: put_piece_def in_i64_def)

lemma tokens_i64: "i64_list (map (\<lambda>t. int (index t)) ts)"
  by (auto simp: i64_list_def in_i64_def intro: less_trans [OF index_less])

lemma snapshot_i64:
  assumes g: "kf_game g" and s: "score_i64 (g_score g)"
  shows "i64_list (snapshot g)"
proof -
  have ints: "in_i64 v" if "v \<in> set [g_x g, g_y g, g_def_x g, g_def_y g, g_delta_y g, g_left_x g, g_right_x g, g_base_drop_time g,
       g_fast_drop_time g, g_drop_time g, g_slide_time g, g_sliding g, g_drop_accum g, g_slide_accum g,
       g_hatter_accum g, g_slick_accum g, g_slick_dir g, g_lines_til_baz g, hap_on (g_pieces g), old_piece (g_pieces g)]" for v
    using g that in_i32_in_i64 unfolding kf_game_def i32_list_def by blast
  have l: "i64_list (g_remaining g)" "i64_list (counts (g_weapons g))" "i64_list (counts (b_active (g_board g)))"
    "i64_list (export_board g)" "i64_list (export_arsenal g)"
    using g export_board_length [OF g] import_export_arsenal(3) [of g] by (simp_all add: kf_game_def i32_i64_list)
  have b: "in_i64 (of_bool_i v)" for v by (rule in_i32_in_i64) simp
  have r: "in_i64 (b_reason (g_board g))" using g by (simp add: kf_game_def in_i16_def in_i64_def)
  have pb: "i64_list (put_pending_board (g_pending_board g))"
    using g i32_i64_list by (auto simp: kf_game_def put_pending_board_def in_i64_def split: option.split)
  have pl: "in_i64 (int (length (g_pending g)))" using g by (simp add: kf_game_def in_i64_def)
  have k: "i64_list (map (\<lambda>f. as_i64 (uint f)) (keep_prob (g_pieces g)))" by (simp add: i64_list_def)
  have pc: "in_i64 (phase_code ph)" for ph by (cases ph) (simp_all add: phase_code_def in_i64_def)
  have cp: "i64_list (put_piece (g_current g))" using g by (intro piece_i64) (simp add: kf_game_def)
  show ?thesis
    using s unfolding snapshot_def
    by (simp add: ints l b r pb pl k pc cp tokens_i64 flags_raw_def score_i64_def KEYFRAME_VERSION_def in_i64_def [of 2])
qed

subsection \<open>What a keyframe promises\<close>

lemma restore_well_formed:
  assumes "std_board (g_board h)"
  shows "restore data h = (case read_keyframe 1120 \<lparr>cu_d = data, cu_i = 0, cu_ok = True\<rparr> of
        None \<Rightarrow> (False, h)
      | Some (kf, c) \<Rightarrow> if \<not> cu_ok c \<or> cu_i c \<noteq> length data then (False, h) else (True, commit kf h))"
  using assms by (simp add: restore_def std_board_def)

lemma restore_snapshot:
  assumes "kf_game g" "std_board (g_board h)"
  shows "restore (snapshot g) h
    = (True, g\<lparr>g_events := [], g_board := (g_board g)\<lparr>b_new_fill := b_new_fill (g_board h)\<rparr>\<rparr>)"
  unfolding restore_well_formed [OF assms(2)] snapshot_locals
  by (simp add: kf_codec.whole [OF locals_of_wf [OF assms(1)]] commit_locals [OF assms])

text \<open>The ranges that the Rust types of a game's fields guarantee.\<close>

definition int_typed :: "game \<Rightarrow> bool" where
  "int_typed g \<longleftrightarrow>
     i32_list [g_x g, g_y g, g_def_x g, g_def_y g, g_delta_y g, g_left_x g, g_right_x g, g_base_drop_time g,
       g_fast_drop_time g, g_drop_time g, g_slide_time g, g_sliding g, g_drop_accum g, g_slide_accum g,
       g_hatter_accum g, g_slick_accum g, g_slick_dir g, g_lines_til_baz g, hap_on (g_pieces g), old_piece (g_pieces g)] \<and>
     i32_list (counts (g_weapons g)) \<and> i32_list (g_remaining g) \<and> in_i16 (b_reason (g_board g)) \<and>
     cells_i32 (map (\<lambda>p. get (g_board g) (fst p) (snd p)) (positions (range_i 0 10) (range_i 0 28))) \<and>
     (\<forall>p. g_current g = Some p \<longrightarrow> in_i32 (p_x p) \<and> in_i32 (p_y p) \<and> in_i32 (p_color p) \<and> in_i32 (p_orientation p) \<and>
        in_i32 (p_orientations p) \<and> in_i32 (p_state p) \<and> cells_i32 (map (\<lambda>(i, j). p_cells p ! i ! j) (squares 8))) \<and>
     0 \<le> g_lock_seq g \<and> g_lock_seq g < 2 ^ 64"

lemma kf_gameI:
  assumes "game_ok g" "int_typed g" "wf_arsenal (g_arsenal g)" "length (g_pending g) \<le> 1024"
    "\<forall>cells. g_pending_board g = Some cells \<longrightarrow> length cells = 1120 \<and> i32_list cells"
  shows "kf_game g"
proof -
  have "std_board (g_board g)" "wf_flags (g_weapons g)" "length (g_remaining g) = 34" "length (keep_prob (g_pieces g)) = 19"
    "b_active (g_board g) = g_weapons g"
    using assms(1) by (simp_all add: game_ok_def setup_ok_def core_ok_def flags_inv_def remaining_inv_def pm_ok_def)
  moreover have "wf_piece p" if "g_current g = Some p" for p
    using assms(1) that by (simp add: game_ok_def piece_ok_def in_cycle_def)
  ultimately show ?thesis using assms(2-5) by (simp add: kf_game_def int_typed_def piece_kf_def)
qed

text \<open>
  C15. A keyframe carries the whole game. Take a game that keeps the engine's invariant, as every reachable game does
  (\<open>reachable_ok\<close>), with its integers in the ranges of their Rust types, no arsenal count wrapped round to zero, at most 1024
  weapons waiting (\<open>restore\<close> refuses more) and a waiting board, if any, of full size. Restoring its snapshot into any
  other game that keeps the invariant succeeds and leaves exactly the game that was captured, with no event
  waiting; only the fill a fresh line takes stays the restoring game's own.
\<close>

theorem keyframe_roundtrip:
  assumes "game_ok g" "game_ok h" "int_typed g" "wf_arsenal (g_arsenal g)" "length (g_pending g) \<le> 1024"
    "\<forall>cells. g_pending_board g = Some cells \<longrightarrow> length cells = 1120 \<and> i32_list cells"
  shows "restore (snapshot g) h
    = (True, g\<lparr>g_events := [], g_board := (g_board g)\<lparr>b_new_fill := b_new_fill (g_board h)\<rparr>\<rparr>)"
  using restore_snapshot [OF kf_gameI [OF assms(1,3-6)]] assms(2) by (simp add: game_ok_def setup_ok_def core_ok_def)

text \<open>A game to capture, and one to restore it into.\<close>

definition captured :: game where
  "captured = (game_fresh 7)\<lparr>g_score := \<lparr>s_score = 120, s_op_score = 90, s_lines = 4, s_op_lines = 3, s_funds = - 20,
     s_op_funds = 55\<rparr>, g_paused := True, g_pending := [Bug, Swap], g_lock_seq := 9, g_events := [EnterBazaar]\<rparr>"

lemma captured_ok [simp]: "kf_game captured" "score_i64 (g_score captured)"
proof -
  have f: "i32_list (replicate 34 0)" by (simp add: i32_list_def in_i32_def)
  have "get (board_standard False) x y = None" for x y
    using cell_index_less [of "board_standard False" x y]
    by (simp add: get_def board_standard_def board_new_def bt_const)
  then have c: "cells_i32 (map (\<lambda>p. get (board_standard False) (fst p) (snd p)) (positions (range_i 0 10) (range_i 0 28)))"
    by (auto simp: cells_i32_def)
  have r: "b_reason (board_standard False) = 0" "b_active (board_standard False) = flags_new"
    by (simp_all add: board_standard_def board_new_def)
  show "kf_game captured"
    unfolding kf_game_def captured_def game_fresh_def
    using f c r by (simp add: bt_const i32_list_simps in_i32_def flags_new_def in_i16_def pm_new_def wf_flags_def)
  show "score_i64 (g_score captured)" by (simp add: captured_def score_i64_def in_i64_def)
qed

lemma captured_fields [simp]:
  "g_board captured = board_standard False" "g_events captured = [EnterBazaar]" "g_lock_seq captured = 9"
  "s_op_funds (g_score captured) = 55" "g_board (game_fresh 9) = board_standard False" "g_lock_seq (game_fresh 9) = 0"
  by (simp_all add: captured_def game_fresh_def)

lemma same_board [simp]: "captured\<lparr>g_score := s, g_events := [], g_board := board_standard False\<rparr> = captured\<lparr>g_score := s, g_events := []\<rparr>"
    "captured\<lparr>g_events := [], g_board := board_standard False\<rparr> = captured\<lparr>g_events := []\<rparr>"
  by (simp_all add: game.equality)

text \<open>A captured game that is over, in a match of seven lines, and so keeps the invariant without a piece.\<close>

definition ended :: game where
  "ended = captured\<lparr>g_phase := Over, g_lines_til_baz := 13\<rparr>"

lemma ended_ok: "game_ok ended" "int_typed ended" "game_ok ((game_fresh 9)\<lparr>g_phase := Over\<rparr>)"
proof -
  have f: "setup_ok (game_fresh 7)" "g_current (game_fresh 7) = None" "g_slide_time (game_fresh 7) = 150"
    "setup_ok (game_fresh 9)" "g_current (game_fresh 9) = None" "g_slide_time (game_fresh 9) = 150"
    using game_fresh_ok(1) by (simp_all add: game_fresh_def bt_const)
  have c: "kf_game captured" by simp
  show "game_ok ended" "game_ok ((game_fresh 9)\<lparr>g_phase := Over\<rparr>)"
    using f unfolding ended_def captured_def
    by (simp_all add: game_ok_def setup_ok_def core_ok_def flags_inv_def orient_inv_def timing_inv_def bazaar_inv_def piece_ok_def
        weapon_active_def)
  show "int_typed ended" using c by (simp add: ended_def kf_game_def int_typed_def i32_list_def in_i32_def piece_kf_def)
qed

theorem keyframe_roundtrip_witness:
  "restore (snapshot ended) ((game_fresh 9)\<lparr>g_phase := Over\<rparr>) = (True, ended\<lparr>g_events := []\<rparr>)
   \<and> g_events ended \<noteq> [] \<and> g_lock_seq ended \<noteq> g_lock_seq (game_fresh 9)"
proof -
  have w: "wf_arsenal (g_arsenal ended)" "length (g_pending ended) \<le> 1024" "g_pending_board ended = None"
    "g_board ended = board_standard False" "g_events ended = [EnterBazaar]" "g_lock_seq ended = 9"
    by (simp_all add: ended_def captured_def game_fresh_def)
  have e: "ended\<lparr>g_events := [], g_board := board_standard False\<rparr> = ended\<lparr>g_events := []\<rparr>"
    using w(4) by (simp add: game.equality)
  show ?thesis using keyframe_roundtrip [OF ended_ok(1,3,2) w(1,2)] w(3-6) e by simp
qed

text \<open>
  C16. A damaged keyframe is refused whole: the snapshot cut short anywhere, or with anything appended,
  makes \<open>restore\<close> report failure and leave the restoring game exactly as it was, no field half-written.
\<close>

theorem keyframe_rejects:
  assumes "kf_game g" "std_board (g_board h)" "d @ e = snapshot g" "e \<noteq> []"
  shows "restore d h = (False, h) \<and> restore (snapshot g @ e) h = (False, h)"
proof -
  note wf = locals_of_wf [OF assms(1)]
  have "cu_i c \<noteq> length d" if "read_keyframe 1120 \<lparr>cu_d = d, cu_i = 0, cu_ok = True\<rparr> = Some (kf, c)" "cu_ok c" for kf c
    using kf_codec.cut_short [OF wf assms(3) [unfolded snapshot_locals] assms(4) that] .
  moreover have "cu_i c \<noteq> length (snapshot g @ e)"
    if "read_keyframe 1120 \<lparr>cu_d = snapshot g @ e, cu_i = 0, cu_ok = True\<rparr> = Some (kf, c)" for kf c
    using kf_codec.run_over [OF wf assms(4) that [unfolded snapshot_locals]] by (simp add: snapshot_locals)
  ultimately show ?thesis
    unfolding restore_well_formed [OF assms(2)] by (auto split: option.split)
qed

theorem keyframe_rejects_witness:
  "restore [KEYFRAME_VERSION] (game_fresh 9) = (False, game_fresh 9)
   \<and> restore (snapshot captured @ tl (snapshot captured)) (game_fresh 9) = (False, game_fresh 9)"
proof -
  have split: "[KEYFRAME_VERSION] @ tl (snapshot captured) = snapshot captured" "tl (snapshot captured) \<noteq> []"
    by (simp_all add: snapshot_def)
  show ?thesis by (rule keyframe_rejects [OF captured_ok(1) _ split]) simp
qed

lemma client_keyframe_back:
  assumes "kf_game g" "score_i64 (g_score g)" "std_board (g_board h)"
  shows "restore_bytes (client_keyframe_bytes g) h
      = (True, g\<lparr>g_score := (g_score g)\<lparr>s_op_funds := 0\<rparr>, g_events := [],
           g_board := (g_board g)\<lparr>b_new_fill := b_new_fill (g_board h)\<rparr>\<rparr>)"
proof -
  let ?c = "g\<lparr>g_score := (g_score g)\<lparr>s_op_funds := 0\<rparr>\<rparr>"
  have c: "kf_game ?c" "score_i64 (g_score ?c)"
    using assms(1,2) by (simp_all add: kf_game_def score_i64_def in_i64_def)
  have "restore_bytes (client_keyframe_bytes g) h = restore (snapshot ?c) h"
    unfolding client_keyframe_bytes_def snapshot_bytes_def
    by (rule restore_bytes_concat) (use snapshot_i64 [OF c] in \<open>simp add: i64_list_def\<close>)
  moreover have "restore (snapshot ?c) h = (True, ?c\<lparr>g_events := [], g_board := (g_board g)\<lparr>b_new_fill := b_new_fill (g_board h)\<rparr>\<rparr>)"
    using commit_locals [OF c(1) assms(3)] unfolding restore_well_formed [OF assms(3)] snapshot_locals
    by (simp add: kf_codec.whole [OF locals_of_wf [OF c(1)]])
  ultimately show ?thesis by simp
qed

text \<open>What restoring a keyframe of a reachable game leaves is reachable.\<close>

lemma restored_reachable:
  assumes "reachable g" "reachable h" "kf_game g"
  shows "reachable (snd (restore (snapshot g) h))"
    "score_i64 (g_score g) \<Longrightarrow> reachable (snd (restore_bytes (client_keyframe_bytes g) h))"
proof -
  have h: "std_board (g_board h)" using reachable_ok [OF assms(2)] by (simp add: game_ok_def setup_ok_def core_ok_def)
  have "snd (restore (snapshot g) h) = carried_over (s_op_funds (g_score g)) g h"
    using restore_snapshot [OF assms(3) h] by (simp add: carried_over_def)
  then show "reachable (snd (restore (snapshot g) h))" using r_keyframe [OF assms(1,2)] by simp
  show "reachable (snd (restore_bytes (client_keyframe_bytes g) h))" if "score_i64 (g_score g)"
    using client_keyframe_back [OF assms(3) that h] r_keyframe [OF assms(1,2), of 0] by (simp add: carried_over_def)
qed

text \<open>
  What a client is sent hides the opponent's funds and nothing else: the client keyframe does not
  depend on them, and restoring its bytes gives the captured game with the opponent's funds zero.
\<close>

theorem client_keyframe_hides:
  assumes "kf_game g" "score_i64 (g_score g)" "std_board (g_board h)"
  shows "client_keyframe_bytes (g\<lparr>g_score := (g_score g)\<lparr>s_op_funds := n\<rparr>\<rparr>) = client_keyframe_bytes g \<and>
    restore_bytes (client_keyframe_bytes g) h
      = (True, g\<lparr>g_score := (g_score g)\<lparr>s_op_funds := 0\<rparr>, g_events := [],
           g_board := (g_board g)\<lparr>b_new_fill := b_new_fill (g_board h)\<rparr>\<rparr>)"
  using client_keyframe_back [OF assms] by (simp add: client_keyframe_bytes_def)

theorem client_keyframe_hides_witness:
  "client_keyframe_bytes (captured\<lparr>g_score := (g_score captured)\<lparr>s_op_funds := 1000\<rparr>\<rparr>) = client_keyframe_bytes captured
   \<and> snd (restore_bytes (client_keyframe_bytes captured) (game_fresh 9))
     = captured\<lparr>g_score := (g_score captured)\<lparr>s_op_funds := 0\<rparr>, g_events := []\<rparr>
   \<and> s_op_funds (g_score captured) = 55"
  using client_keyframe_hides [of captured "game_fresh 9" 1000] by simp

end
