(* ===== verification/Display.thy ===== *)
theory Display
  imports GameProps
begin

section \<open>What a game only displays\<close>

text \<open>
  Two fields mirror the opponent for the display (the opponent's score and funds), and the event queue
  is only ever appended to. \<open>dress\<close> changes exactly these: it overwrites the two mirrors and puts
  older events in front. Every operation of the game commutes with it, so nothing that the rules
  compute depends on the mirrors, or on which events the host has drained.
\<close>

type_synonym dress = "i64 \<times> i64 \<times> game_event list"

definition dress :: "dress \<Rightarrow> game \<Rightarrow> game" where
  "dress d g = g\<lparr>g_score := (g_score g)\<lparr>s_op_score := fst d, s_op_funds := fst (snd d)\<rparr>,
     g_events := snd (snd d) @ g_events g\<rparr>"

lemma dress_reads [simp]:
  "g_board (dress d g) = g_board g" "g_pieces (dress d g) = g_pieces g" "g_rng (dress d g) = g_rng g"
  "g_current (dress d g) = g_current g" "g_x (dress d g) = g_x g" "g_y (dress d g) = g_y g"
  "g_def_x (dress d g) = g_def_x g" "g_def_y (dress d g) = g_def_y g" "g_delta_y (dress d g) = g_delta_y g"
  "g_left_x (dress d g) = g_left_x g" "g_right_x (dress d g) = g_right_x g" "g_base_drop_time (dress d g) = g_base_drop_time g"
  "g_fast_drop_time (dress d g) = g_fast_drop_time g" "g_drop_time (dress d g) = g_drop_time g" "g_slide_time (dress d g) = g_slide_time g"
  "g_dropping (dress d g) = g_dropping g" "g_sliding (dress d g) = g_sliding g" "g_phase (dress d g) = g_phase g"
  "g_drop_accum (dress d g) = g_drop_accum g" "g_slide_accum (dress d g) = g_slide_accum g" "g_paused (dress d g) = g_paused g"
  "g_weapons (dress d g) = g_weapons g" "g_remaining (dress d g) = g_remaining g" "g_arsenal (dress d g) = g_arsenal g"
  "g_pending (dress d g) = g_pending g" "g_pending_board (dress d g) = g_pending_board g" "g_hatter_accum (dress d g) = g_hatter_accum g"
  "g_slick_accum (dress d g) = g_slick_accum g" "g_slick_dir (dress d g) = g_slick_dir g" "g_in_bazaar (dress d g) = g_in_bazaar g"
  "g_lines_til_baz (dress d g) = g_lines_til_baz g" "g_lock_seq (dress d g) = g_lock_seq g" "g_lock_hash (dress d g) = g_lock_hash g"
  "g_events (dress d g) = snd (snd d) @ g_events g"
  by (simp_all add: dress_def)

lemma dress_score_reads [simp]:
  "s_score (g_score (dress d g)) = s_score (g_score g)" "s_lines (g_score (dress d g)) = s_lines (g_score g)"
  "s_op_lines (g_score (dress d g)) = s_op_lines (g_score g)" "s_funds (g_score (dress d g)) = s_funds (g_score g)"
  by (simp_all add: dress_def)

lemma dress_updates [simp]:
  "(dress d g)\<lparr>g_board := v0\<rparr> = dress d (g\<lparr>g_board := v0\<rparr>)"
  "(dress d g)\<lparr>g_pieces := v1\<rparr> = dress d (g\<lparr>g_pieces := v1\<rparr>)"
  "(dress d g)\<lparr>g_rng := v2\<rparr> = dress d (g\<lparr>g_rng := v2\<rparr>)"
  "(dress d g)\<lparr>g_current := v3\<rparr> = dress d (g\<lparr>g_current := v3\<rparr>)"
  "(dress d g)\<lparr>g_x := v4\<rparr> = dress d (g\<lparr>g_x := v4\<rparr>)"
  "(dress d g)\<lparr>g_y := v5\<rparr> = dress d (g\<lparr>g_y := v5\<rparr>)"
  "(dress d g)\<lparr>g_def_x := v6\<rparr> = dress d (g\<lparr>g_def_x := v6\<rparr>)"
  "(dress d g)\<lparr>g_def_y := v7\<rparr> = dress d (g\<lparr>g_def_y := v7\<rparr>)"
  "(dress d g)\<lparr>g_delta_y := v8\<rparr> = dress d (g\<lparr>g_delta_y := v8\<rparr>)"
  "(dress d g)\<lparr>g_left_x := v9\<rparr> = dress d (g\<lparr>g_left_x := v9\<rparr>)"
  "(dress d g)\<lparr>g_right_x := v10\<rparr> = dress d (g\<lparr>g_right_x := v10\<rparr>)"
  "(dress d g)\<lparr>g_base_drop_time := v11\<rparr> = dress d (g\<lparr>g_base_drop_time := v11\<rparr>)"
  "(dress d g)\<lparr>g_fast_drop_time := v12\<rparr> = dress d (g\<lparr>g_fast_drop_time := v12\<rparr>)"
  "(dress d g)\<lparr>g_drop_time := v13\<rparr> = dress d (g\<lparr>g_drop_time := v13\<rparr>)"
  "(dress d g)\<lparr>g_slide_time := v14\<rparr> = dress d (g\<lparr>g_slide_time := v14\<rparr>)"
  "(dress d g)\<lparr>g_dropping := v15\<rparr> = dress d (g\<lparr>g_dropping := v15\<rparr>)"
  "(dress d g)\<lparr>g_sliding := v16\<rparr> = dress d (g\<lparr>g_sliding := v16\<rparr>)"
  "(dress d g)\<lparr>g_phase := v17\<rparr> = dress d (g\<lparr>g_phase := v17\<rparr>)"
  "(dress d g)\<lparr>g_drop_accum := v18\<rparr> = dress d (g\<lparr>g_drop_accum := v18\<rparr>)"
  "(dress d g)\<lparr>g_slide_accum := v19\<rparr> = dress d (g\<lparr>g_slide_accum := v19\<rparr>)"
  "(dress d g)\<lparr>g_paused := v20\<rparr> = dress d (g\<lparr>g_paused := v20\<rparr>)"
  "(dress d g)\<lparr>g_weapons := v21\<rparr> = dress d (g\<lparr>g_weapons := v21\<rparr>)"
  "(dress d g)\<lparr>g_remaining := v22\<rparr> = dress d (g\<lparr>g_remaining := v22\<rparr>)"
  "(dress d g)\<lparr>g_arsenal := v23\<rparr> = dress d (g\<lparr>g_arsenal := v23\<rparr>)"
  "(dress d g)\<lparr>g_pending := v24\<rparr> = dress d (g\<lparr>g_pending := v24\<rparr>)"
  "(dress d g)\<lparr>g_pending_board := v25\<rparr> = dress d (g\<lparr>g_pending_board := v25\<rparr>)"
  "(dress d g)\<lparr>g_hatter_accum := v26\<rparr> = dress d (g\<lparr>g_hatter_accum := v26\<rparr>)"
  "(dress d g)\<lparr>g_slick_accum := v27\<rparr> = dress d (g\<lparr>g_slick_accum := v27\<rparr>)"
  "(dress d g)\<lparr>g_slick_dir := v28\<rparr> = dress d (g\<lparr>g_slick_dir := v28\<rparr>)"
  "(dress d g)\<lparr>g_in_bazaar := v29\<rparr> = dress d (g\<lparr>g_in_bazaar := v29\<rparr>)"
  "(dress d g)\<lparr>g_lines_til_baz := v30\<rparr> = dress d (g\<lparr>g_lines_til_baz := v30\<rparr>)"
  "(dress d g)\<lparr>g_lock_seq := v31\<rparr> = dress d (g\<lparr>g_lock_seq := v31\<rparr>)"
  "(dress d g)\<lparr>g_lock_hash := v32\<rparr> = dress d (g\<lparr>g_lock_hash := v32\<rparr>)"
  by (simp_all add: dress_def)

lemma dress_score_updates:
  "(dress d g)\<lparr>g_score := (g_score (dress d g))\<lparr>s_score := n\<rparr>\<rparr> = dress d (g\<lparr>g_score := (g_score g)\<lparr>s_score := n\<rparr>\<rparr>)"
  "(dress d g)\<lparr>g_score := (g_score (dress d g))\<lparr>s_lines := n\<rparr>\<rparr> = dress d (g\<lparr>g_score := (g_score g)\<lparr>s_lines := n\<rparr>\<rparr>)"
  "(dress d g)\<lparr>g_score := (g_score (dress d g))\<lparr>s_op_lines := n\<rparr>\<rparr> = dress d (g\<lparr>g_score := (g_score g)\<lparr>s_op_lines := n\<rparr>\<rparr>)"
  "(dress d g)\<lparr>g_score := (g_score (dress d g))\<lparr>s_funds := n\<rparr>\<rparr> = dress d (g\<lparr>g_score := (g_score g)\<lparr>s_funds := n\<rparr>\<rparr>)"
  by (simp_all add: dress_def)

lemma dress_flags [simp]:
  "weapon_active (dress d g) t = weapon_active g t" "export_board (dress d g) = export_board g"
  "export_arsenal (dress d g) = export_arsenal g" "weapon_remaining (dress d g) t = weapon_remaining g t"
  by (simp_all add: weapon_active_def export_board_def export_arsenal_def weapon_remaining_def)

lemma dress_branches [simp]:
  "(if c then dress d g else dress d h) = dress d (if c then g else h)"
  "(case m of None \<Rightarrow> dress d g | Some y \<Rightarrow> dress d (f y)) = dress d (case m of None \<Rightarrow> g | Some y \<Rightarrow> f y)"
  "(case m of None \<Rightarrow> Some (dress d g) | Some y \<Rightarrow> map_option (dress d) (F y))
    = map_option (dress d) (case m of None \<Rightarrow> Some g | Some y \<Rightarrow> F y)"
  "(case ph of Falling \<Rightarrow> map_option (dress d) m1 | Sliding \<Rightarrow> map_option (dress d) m2 | Over \<Rightarrow> map_option (dress d) m3)
    = map_option (dress d) (case ph of Falling \<Rightarrow> m1 | Sliding \<Rightarrow> m2 | Over \<Rightarrow> m3)"
  by (auto split: option.split phase.split)

subsection \<open>Score, funds and events\<close>

lemma dress_push [simp]:
  "push_event e (dress d g) = dress d (push_event e g)"
  by (simp add: push_event_def dress_def)

lemma dress_money [simp]:
  "push_scored (dress d g) = dress d (push_scored g)"
  "add_score_funds n (dress d g) = dress d (add_score_funds n g)"
  "add_score n (dress d g) = dress d (add_score n g)"
  "add_lines n (dress d g) = dress d (add_lines n g)"
  by (simp_all add: push_scored_def add_score_funds_def add_score_def add_lines_def dress_score_updates)

lemma dress_credit [simp]:
  "credit_clear_funds n (dress d g) = dress d (credit_clear_funds n g)"
  "update_bazaar (dress d g) = dress d (update_bazaar g)"
  by (simp_all add: credit_clear_funds_def update_bazaar_def Let_def)

subsection \<open>Weapons\<close>

lemma dress_weapon_off [simp]: "apply_weapon_off t (dress d g) = dress d (apply_weapon_off t g)"
  by (cases t) (simp_all add: apply_weapon_off_def Let_def)

lemma dress_tick_duration [simp]: "tick_duration n i (dress d g) = dress d (tick_duration n i g)"
  by (simp add: tick_duration_def Let_def split: option.split)

lemma dress_fold: "(\<And>x g. f x (dress d g) = dress d (f x g)) \<Longrightarrow> fold f xs (dress d g) = dress d (fold f xs g)"
  by (induction xs arbitrary: g) simp_all

lemma dress_tick_durations [simp]: "tick_durations n (dress d g) = dress d (tick_durations n g)"
  by (simp add: tick_durations_def dress_fold)

lemma dress_on_self [simp]: "weapon_on_self t a (dress d g) = dress d (weapon_on_self t a g)"
  by (cases t) (simp_all add: weapon_on_self_def Let_def dress_score_updates)

lemma bind_dress: "Option.bind (map_option (dress d) m) f = Option.bind m (\<lambda>g. f (dress d g))"
  by (cases m) simp_all

lemma map_option_bind_pairs: "map_option h (Option.bind m (\<lambda>(x, y). f x y)) = Option.bind m (\<lambda>(x, y). map_option h (f x y))"
  by (cases m) (simp_all add: split_beta)

lemma dress_weapon_on [simp]: "apply_weapon_on t (dress d g) = map_option (dress d) (apply_weapon_on t g)"
  unfolding apply_weapon_on_def Let_def map_option_bind_pairs
  by (simp add: split_beta cong: if_cong bind_option_cong)

lemma dress_force_off [simp]: "force_weapon_off t (dress d g) = dress d (force_weapon_off t g)"
  by (simp add: force_weapon_off_def Let_def)

lemma dress_import [simp]: "import_board cells (dress d g) = dress d (import_board cells g)"
  by (simp add: import_board_def Let_def)

lemma dress_fold_opt:
  "(\<And>x g. f x (dress d g) = map_option (dress d) (f x g)) \<Longrightarrow>
    fold_opt f xs (dress d g) = map_option (dress d) (fold_opt f xs g)"
  by (induction xs arbitrary: g) (simp_all add: bind_dress map_option_bind comp_def)

lemma dress_flush [simp]: "flush_pending (dress d g) = map_option (dress d) (flush_pending g)"
  by (simp add: flush_pending_def dress_fold_opt bind_dress map_option_bind comp_def
      cong: if_cong option.case_cong bind_option_cong)

subsection \<open>Locking and falling\<close>

lemma dress_spawn [simp]: "spawn (dress d g) = map_option (dress d) (spawn g)"
  by (simp add: spawn_def Let_def split_beta map_option_bind comp_def cong: if_cong bind_option_cong)

lemma dress_lock_piece [simp]: "lock_piece p (dress d g) = map_option (dress d) (lock_piece p g)"
  by (simp add: lock_piece_def Let_def split_beta map_option_bind comp_def
      cong: if_cong option.case_cong bind_option_cong)

lemma dress_lock_hash [simp]: "lock_hash_of (dress d g) = lock_hash_of g"
  by (simp add: lock_hash_of_def Let_def)

lemma dress_place [simp]: "place f (dress d g) = map_option (dress d) (place f g)"
proof (cases "g_current g")
  case (Some p)
  show ?thesis
    by (cases "\<not> can_move_to p (g_board g) (g_x g) (g_y g + g_delta_y g) \<or> f")
      (simp_all add: place_def Some Let_def map_option_bind bind_dress comp_def cong: bind_option_cong)
qed (simp add: place_def)

lemma dress_drop_step [simp]: "drop_step (dress d g) = dress d (drop_step g)"
  by (simp add: drop_step_def start_slide_def Let_def split_beta cong: if_cong option.case_cong)

lemma dress_turn [simp]: "rotate_internal (dress d g) = dress d (rotate_internal g)"
  "slick_step (dress d g) = dress d (slick_step g)"
  by (simp_all add: rotate_internal_def slick_step_def Let_def split_beta cong: if_cong option.case_cong)

lemma dress_hatter_loop [simp]: "hatter_loop (dress d g) = dress d (hatter_loop g)"
proof (induction g rule: hatter_loop.induct)
  case (1 g)
  then show ?case by (subst (1 2) hatter_loop.simps) simp
qed

lemma dress_slick_loop [simp]: "slick_loop (dress d g) = dress d (slick_loop g)"
proof (induction g rule: slick_loop.induct)
  case (1 g)
  then show ?case by (subst (1 2) slick_loop.simps) simp
qed

lemma dress_tick_weapons [simp]: "tick_weapons dt (dress d g) = dress d (tick_weapons dt g)"
  by (simp add: tick_weapons_def Let_def cong: if_cong)

lemma dress_drop_loop [simp]: "drop_loop step (dress d g) = dress d (drop_loop step g)"
proof (induction step g rule: drop_loop.induct)
  case (1 step g)
  then show ?case by (subst (1 2) drop_loop.simps) simp
qed

lemma dress_slide_loop: "slide_loop step g = Some h \<Longrightarrow> slide_loop step (dress d g) = Some (dress d h)"
proof (erule slide_loop.raw_induct [rotated, where P = "\<lambda>step g h. slide_loop step (dress d g) = Some (dress d h)"], goal_cases)
  case (1 loop step g h)
  show ?case
  proof (cases "g_phase g \<noteq> Sliding \<or> step > 0 \<and> g_slide_accum g < step")
    case True
    then show ?thesis using 1(2) by (subst slide_loop.simps) (auto split: if_splits)
  next
    case False
    let ?g = "if step > 0 then g\<lparr>g_slide_accum := g_slide_accum g - step\<rparr> else g"
    obtain k where k: "place False ?g = Some k" "(if step = 0 then Some k else loop step k) = Some h"
      using 1(2) False by (auto elim!: bind_eq_SomeE split: if_splits)
    have "place False (dress d ?g) = Some (dress d k)" using k(1) by simp
    moreover have "(if step = 0 then Some (dress d k) else slide_loop step (dress d k)) = Some (dress d h)"
      using k(2) 1(1) by (auto split: if_splits)
    ultimately show ?thesis using False by (subst slide_loop.simps) (auto split: if_splits)
  qed
qed

lemma dress_tick: "tick dt g = Some h \<Longrightarrow> tick dt (dress d g) = Some (dress d h)"
  using dress_slide_loop
  by (auto simp: tick_def Let_def split: if_splits phase.splits)

subsection \<open>Inputs\<close>

lemma dress_move_by [simp]: "move_by dx (dress d g) = dress d (move_by dx g)"
  by (simp add: move_by_def Let_def split_beta cong: if_cong option.case_cong)

lemma dress_engage: "engage_fast_drop (dress d g) = map_prod id (dress d) (engage_fast_drop g)"
  by (simp add: engage_fast_drop_def Let_def)

lemma dress_inputs [simp]:
  "move_left (dress d g) = dress d (move_left g)" "move_right (dress d g) = dress d (move_right g)"
  "game_rotate (dress d g) = dress d (game_rotate g)" "begin_drop (dress d g) = dress d (begin_drop g)"
  "ai_begin_drop (dress d g) = dress d (ai_begin_drop g)" "soft_drop (dress d g) = dress d (soft_drop g)"
  "set_paused b (dress d g) = dress d (set_paused b g)" "launch_weapon i (dress d g) = dress d (launch_weapon i g)"
  "receive_weapon t (dress d g) = dress d (receive_weapon t g)" "add_funds n (dress d g) = dress d (add_funds n g)"
  "queue_board_swap cells (dress d g) = dress d (queue_board_swap cells g)" "leave_bazaar (dress d g) = dress d (leave_bazaar g)"
  by (simp_all add: move_left_def move_right_def game_rotate_def begin_drop_def ai_begin_drop_def dress_engage split_beta
      soft_drop_def set_paused_def launch_weapon_def receive_weapon_def add_funds_def queue_board_swap_def
      leave_bazaar_def Let_def cong: if_cong option.case_cong)

lemma dress_shop [simp]:
  "buy_weapon t (dress d g) = map_prod id (dress d) (buy_weapon t g)"
  "sell_weapon t (dress d g) = map_prod id (dress d) (sell_weapon t g)"
  "grant_weapon t (dress d g) = map_prod id (dress d) (grant_weapon t g)"
  by (simp_all add: buy_weapon_def sell_weapon_def grant_weapon_def bazaar_price_def Let_def split_beta)

subsection \<open>The opponent's score arriving\<close>

lemma dress_dress [simp]: "dress d (dress e g) = dress (fst d, fst (snd d), snd (snd d) @ snd (snd e)) g"
  by (simp add: dress_def)

lemma dress_insert_one [simp]: "insert_one (dress d g) = dress d (insert_one g)"
  by (simp add: insert_one_def split_beta)

text \<open>Both mirrors are overwritten first, so what they were does not matter, nor what they become.\<close>

definition op_lines_arrive :: "i64 \<Rightarrow> game \<Rightarrow> game" where
  "op_lines_arrive l g =
     (let old = s_op_lines (g_score g);
          g = (if weapon_active g Lawyers then fold (\<lambda>_. insert_one) (range_i 0 (max (l - old) 0)) g else g)
      in update_bazaar (g\<lparr>g_score := (g_score g)\<lparr>s_op_lines := l\<rparr>\<rparr>))"

lemma dress_op_lines [simp]: "op_lines_arrive l (dress d g) = dress d (op_lines_arrive l g)"
  by (simp add: op_lines_arrive_def Let_def dress_fold dress_score_updates cong: if_cong)

text \<open>News that is no news changes nothing.\<close>

lemma op_lines_arrive_same: "bazaar_inv g \<Longrightarrow> op_lines_arrive (s_op_lines (g_score g)) g = g"
  by (simp add: op_lines_arrive_def bazaar_inv_def update_bazaar_def Let_def bt_const)

lemma receive_op_score_dress: "receive_op_score s l f g = dress (s, f, []) (op_lines_arrive l g)"
proof -
  have eq: "g\<lparr>g_score := (g_score g)\<lparr>s_op_score := s, s_op_funds := f\<rparr>\<rparr> = dress (s, f, []) g" by (simp add: dress_def)
  have "receive_op_score s l f g = op_lines_arrive l (dress (s, f, []) g)"
    unfolding receive_op_score_def op_lines_arrive_def Let_def eq by simp
  then show ?thesis by simp
qed

text \<open>
  The mirrors of the opponent's score and funds are for the display only, and it does not matter
  when the host drains the events: the clock and every input give the same game, apart from what these
  three hold themselves, whatever they held before.
\<close>

theorem display_only:
  "(tick dt g = Some h \<longrightarrow> tick dt (dress d g) = Some (dress d h)) \<and>
   move_left (dress d g) = dress d (move_left g) \<and> move_right (dress d g) = dress d (move_right g) \<and>
   game_rotate (dress d g) = dress d (game_rotate g) \<and> begin_drop (dress d g) = dress d (begin_drop g) \<and>
   ai_begin_drop (dress d g) = dress d (ai_begin_drop g) \<and> soft_drop (dress d g) = dress d (soft_drop g) \<and>
   launch_weapon i (dress d g) = dress d (launch_weapon i g) \<and> receive_weapon t (dress d g) = dress d (receive_weapon t g) \<and>
   buy_weapon t (dress d g) = map_prod id (dress d) (buy_weapon t g) \<and>
   sell_weapon t (dress d g) = map_prod id (dress d) (sell_weapon t g) \<and>
   add_funds n (dress d g) = dress d (add_funds n g) \<and>
   receive_op_score s l f (dress d g) = dress (s, f, snd (snd d)) (receive_op_score s l f' g)"
  by (simp add: dress_tick receive_op_score_dress)

theorem display_only_witness:
  "\<exists>g h. game_new 7 = Some g \<and> tick 5000 (dress (1, 2, [Airslide]) g) = Some (dress (1, 2, [Airslide]) h)"
proof -
  obtain g where g: "game_new 7 = Some g" "reachable g" by (rule reachable_new)
  moreover obtain h where "tick 5000 g = Some h" using tick_returns [OF reachable_ok [OF g(2)], of 5000] by (auto elim: returnsE)
  ultimately have "game_new 7 = Some g" "tick 5000 g = Some h" by simp_all
  then show ?thesis using display_only [of 5000 g h "(1, 2, [Airslide])"] by blast
qed

end
