(* ===== verification/Reports.thy ===== *)
theory Reports
  imports Display
begin

section \<open>What the events of a game tell\<close>

text \<open>
  The other side of a match sees a game only through its events. \<open>hear\<close> is what a listener makes of
  them: how many lines the game has, and whether it has ended. A game \<open>informs\<close> a listener when, after
  hearing all waiting events, the listener has it right. Every operation keeps this.
\<close>

type_synonym news = "i64 \<times> bool"

definition hear :: "game_event \<Rightarrow> news \<Rightarrow> news" where
  "hear e k = (case e of Scored _ l _ \<Rightarrow> (l, snd k) | GameOver \<Rightarrow> (fst k, True) | _ \<Rightarrow> k)"

definition told :: "news \<Rightarrow> game \<Rightarrow> news" where
  "told k g = fold hear (g_events g) k"

definition truth :: "game \<Rightarrow> news" where
  "truth g = (s_lines (g_score g), g_phase g = Over)"

definition informs :: "news \<Rightarrow> game \<Rightarrow> bool" where
  "informs k g \<longleftrightarrow> told k g = truth g"

text \<open>In the middle of an operation only the end of the game is told right, not yet the lines.\<close>

definition over_told :: "news \<Rightarrow> game \<Rightarrow> bool" where
  "over_told k g \<longleftrightarrow> snd (told k g) = (g_phase g = Over)"

lemma hear_simps [simp]:
  "hear (Locked a b c) k = k" "hear Airslide k = k" "hear (WeaponLaunched t) k = k" "hear (Scored s l f) k = (l, snd k)"
  "hear (FundsStolen n) k = k" "hear EnterBazaar k = k" "hear (Idiot r) k = k" "hear GameOver k = (fst k, True)"
  by (simp_all add: hear_def)

lemma told_push [simp]: "told k (push_event e g) = hear e (told k g)"
  by (simp add: told_def push_event_def)

lemma truth_push [simp]: "truth (push_event e g) = truth g"
  by (simp add: truth_def)

lemma informs_over: "informs k g \<Longrightarrow> over_told k g"
  by (simp add: informs_def over_told_def truth_def)

lemma informs_same:
  "g_events g' = g_events g \<Longrightarrow> truth g' = truth g \<Longrightarrow> informs k g' = informs k g"
  by (simp add: informs_def told_def)

lemma over_told_same:
  "g_events g' = g_events g \<Longrightarrow> g_phase g' = g_phase g \<Longrightarrow> over_told k g' = over_told k g"
  by (simp add: over_told_def told_def)

lemma over_told_push [simp]:
  "e \<noteq> GameOver \<Longrightarrow> over_told k (push_event e g) = over_told k g"
  by (cases e) (simp_all add: over_told_def)

lemma push_scored_informs: "over_told k g \<Longrightarrow> informs k (push_scored g)"
  by (simp add: informs_def over_told_def push_scored_def truth_def)

lemma informs_push [simp]:
  "hear e (told k g) = told k g \<Longrightarrow> informs k (push_event e g) = informs k g"
  by (simp add: informs_def)

subsection \<open>The bookkeeping of a lock\<close>

lemma over_told_money [simp]:
  "over_told k (add_score_funds n g) = over_told k g" "over_told k (add_lines n g) = over_told k g"
  "over_told k (credit_clear_funds n g) = over_told k g" "over_told k (update_bazaar g) = over_told k g"
  "over_told k (tick_durations n g) = over_told k g" "over_told k (push_scored g) = over_told k g"
  "over_told k (g\<lparr>g_board := b\<rparr>) = over_told k g"
proof -
  show m: "over_told k (add_score_funds n g) = over_told k g" for n g
    by (rule over_told_same) (simp_all add: add_score_funds_def)
  show "over_told k (add_lines n g) = over_told k g" by (rule over_told_same) (simp_all add: add_lines_def)
  show "over_told k (credit_clear_funds n g) = over_told k g" by (simp add: credit_clear_funds_def Let_def m)
  have til: "over_told k (g\<lparr>g_lines_til_baz := n\<rparr>) = over_told k g" "over_told k (g\<lparr>g_in_bazaar := b\<rparr>) = over_told k g" for n b g
    by (rule over_told_same; simp)+
  show "over_told k (update_bazaar g) = over_told k g" by (simp add: update_bazaar_def Let_def til)
  show "over_told k (tick_durations n g) = over_told k g"
    by (rule over_told_same) (simp_all add: motion_eqD(4) [OF tick_durations_fields(1)])
  show "over_told k (push_scored g) = over_told k g" by (simp add: push_scored_def)
  show "over_told k (g\<lparr>g_board := b\<rparr>) = over_told k g" by (rule over_told_same) simp_all
qed

lemma after_clear_informs: "over_told k g \<Longrightarrow> informs k (after_clear clear g)"
  unfolding after_clear_def Let_def split_beta
  by (rule push_scored_informs) (auto split: option.split)

lemma lock_piece_informs: "over_told k g \<Longrightarrow> lock_piece p g = Some g' \<Longrightarrow> informs k g'"
  unfolding lock_piece_eq
  by (auto elim!: bind_eq_SomeE intro!: after_clear_informs simp: note_airslide_def)

lemma informs_update_bazaar [simp]: "informs k (update_bazaar g) = informs k g"
proof -
  have "told k (update_bazaar g) = told k g"
    by (simp add: update_bazaar_def Let_def told_def push_event_def)
  moreover have "truth (update_bazaar g) = truth g"
    by (simp add: truth_def motion_eqD(4) [OF update_bazaar_groups(2)])
  ultimately show ?thesis by (simp add: informs_def)
qed

lemma apply_weapon_on_informs:
  assumes "apply_weapon_on t g = Some g'" "informs k g" shows "informs k g'"
proof -
  obtain clear b r where g': "g' = (let h = credit_weapon_clear clear (switched_on t b r g) in
      weapon_on_self t (weapon_active g t) (h\<lparr>g_pieces := pm_weapon_on t (g_pieces h)\<rparr>))"
    using assms(1) unfolding apply_weapon_on_eq by (auto elim!: bind_eq_SomeE simp: Let_def)
  have on: "informs k (switched_on t b r g)"
    using assms(2) by (subst informs_same [of _ g]) (simp_all add: truth_def motion_eqD(4) [OF switched_on_fields(1)])
  have "informs k (credit_weapon_clear clear (switched_on t b r g))"
    using on by (simp add: credit_weapon_clear_def push_scored_informs informs_over)
  moreover have "informs k (weapon_on_self t w (h\<lparr>g_pieces := m\<rparr>)) = informs k h" for w h m
    by (rule informs_same) (simp_all add: truth_def motion_eqD(4) [OF weapon_on_self_fields(1)])
  ultimately show ?thesis by (simp add: g' Let_def)
qed

lemma fold_opt_keeps:
  assumes "fold_opt f xs s = Some s'" "P s" "\<And>x s s'. f x s = Some s' \<Longrightarrow> P s \<Longrightarrow> P s'"
  shows "P s'"
  using assms(1,2) by (induction xs arbitrary: s) (auto elim!: bind_eq_SomeE dest: assms(3))

lemma flush_pending_informs:
  assumes "flush_pending g = Some g'" "informs k g" shows "informs k g'"
proof -
  obtain h where h: "fold_opt apply_weapon_on (g_pending g) (g\<lparr>g_pending := []\<rparr>) = Some h"
    and g': "g' = (case g_pending_board h of
           Some cells \<Rightarrow> force_weapon_off Upbyside (force_weapon_off Bottle (import_board cells (h\<lparr>g_pending_board := None\<rparr>)))
         | None \<Rightarrow> h)"
    using assms(1) unfolding flush_pending_def by (auto elim!: bind_eq_SomeE)
  have "informs k (g\<lparr>g_pending := []\<rparr>)" using assms(2) by (subst informs_same [of _ g]) (simp_all add: truth_def)
  then have "informs k h" by (rule fold_opt_keeps [OF h]) (rule apply_weapon_on_informs)
  moreover have "informs k (force_weapon_off Upbyside (force_weapon_off Bottle (import_board cells (h\<lparr>g_pending_board := None\<rparr>))))
      = informs k h" for cells
    by (rule informs_same) (simp_all add: truth_def motion_eqD(4) [OF force_weapon_off_fields(1)]
        motion_eqD(4) [OF import_board_fields(1)])
  ultimately show ?thesis by (simp add: g' split: option.split)
qed

lemma lock_piece_phase: "lock_piece p g = Some g' \<Longrightarrow> g_phase g' = g_phase g"
  by (auto simp: lock_piece_eq after_clear_def note_airslide_def Let_def split_beta motion_eqD(4) [OF tick_durations_fields(1)]
      motion_eqD(4) [OF push_scored_groups(2)] motion_eqD(4) [OF update_bazaar_groups(2)]
      motion_eqD(4) [OF credit_clear_funds_groups(2)] motion_eqD(4) [OF add_lines_groups(2)]
      elim!: bind_eq_SomeE split: option.split)

lemma apply_weapon_on_phase: "apply_weapon_on t g = Some g' \<Longrightarrow> g_phase g' = g_phase g"
  by (auto simp: apply_weapon_on_eq Let_def motion_eqD(4) [OF weapon_on_self_fields(1)] motion_eqD(4) [OF switched_on_fields(1)]
      motion_eqD(4) [OF credit_weapon_clear_fields(1)] elim!: bind_eq_SomeE)

lemma flush_pending_phase:
  assumes "flush_pending g = Some g'" shows "g_phase g' = g_phase g"
proof -
  obtain h where h: "fold_opt apply_weapon_on (g_pending g) (g\<lparr>g_pending := []\<rparr>) = Some h"
    and g': "g' = (case g_pending_board h of
           Some cells \<Rightarrow> force_weapon_off Upbyside (force_weapon_off Bottle (import_board cells (h\<lparr>g_pending_board := None\<rparr>)))
         | None \<Rightarrow> h)"
    using assms unfolding flush_pending_def by (auto elim!: bind_eq_SomeE)
  have "g_phase h = g_phase g"
    by (rule fold_opt_keeps [OF h, where P = "\<lambda>h. g_phase h = g_phase g"]) (simp_all add: apply_weapon_on_phase)
  then show ?thesis
    by (simp add: g' motion_eqD(4) [OF force_weapon_off_fields(1)] motion_eqD(4) [OF import_board_fields(1)] split: option.split)
qed

subsection \<open>Operations\<close>

text \<open>A game that is not over goes on or ends; the end is told.\<close>

lemma spawn_informs:
  assumes "spawn g = Some g'" "informs (l, b) g" "g_phase g \<noteq> Over" shows "informs (l, b) g'"
proof -
  have t: "fst (told (l, b) g) = s_lines (g_score g)" "\<not> snd (told (l, b) g)"
    using assms(2,3) by (simp_all add: informs_def truth_def)
  show ?thesis
    using assms(1) t unfolding spawn_def Let_def
    by (auto elim!: bind_eq_SomeE split: if_splits prod.splits simp: informs_def truth_def told_def prod_eq_iff)
qed

lemma place_informs:
  assumes "place f g = Some g'" "informs k g" "g_phase g \<noteq> Over" "g_current g \<noteq> None" shows "informs k g'"
proof -
  obtain l b where k: "k = (l, b)" by (cases k)
  obtain p where p: "g_current g = Some p" using assms(4) by blast
  let ?g = "g\<lparr>g_current := None\<rparr>"
  show ?thesis
  proof (cases "\<not> can_fall p g \<or> f")
    case True
    obtain h where h: "lock_and_spawn p ?g = Some h"
      and g': "g' = h\<lparr>g_lock_seq := g_lock_seq h + 1, g_lock_hash := lock_hash_of (h\<lparr>g_lock_seq := g_lock_seq h + 1\<rparr>), g_sliding := 0\<rparr>"
      using assms(1) True p by (auto simp: place_eq Let_def elim!: bind_eq_SomeE)
    obtain g1 g2 where s: "lock_piece p ?g = Some g1" "flush_pending g1 = Some g2" "spawn g2 = Some h"
      using h by (auto simp: lock_and_spawn_def elim!: bind_eq_SomeE)
    have "over_told k ?g" using assms(2) informs_over by (subst over_told_same [of _ g]) simp_all
    then have i2: "informs k g2" using lock_piece_informs [OF _ s(1)] flush_pending_informs [OF s(2)] by blast
    have "g_phase g1 = g_phase g" using lock_piece_phase [OF s(1)] by simp
    then have "g_phase g2 \<noteq> Over" using flush_pending_phase [OF s(2)] assms(3) by simp
    then have "informs k h" using spawn_informs [OF s(3)] i2 by (simp add: k)
    then show ?thesis by (simp add: g' informs_def told_def truth_def)
  next
    case False
    then have "g_events g' = g_events g" "g_score g' = g_score g" "g_phase g' \<noteq> Over"
      using assms(1) p by (auto simp: place_eq Let_def)
    then show ?thesis using assms(2,3) by (subst informs_same [of _ g]) (simp_all add: truth_def)
  qed
qed

text \<open>Moving, turning and falling say nothing.\<close>

definition silent :: "game \<Rightarrow> game \<Rightarrow> bool" where
  "silent g g' \<longleftrightarrow> g_events g' = g_events g \<and> g_score g' = g_score g \<and> (g_phase g' = Over) = (g_phase g = Over)
     \<and> (g_current g' = None) = (g_current g = None)"

lemma silent_refl [simp]: "silent g g"
  and silent_trans [trans]: "silent g h \<Longrightarrow> silent h k \<Longrightarrow> silent g k"
  by (simp_all add: silent_def)

lemma silent_informs: "silent g g' \<Longrightarrow> informs k g' = informs k g"
  by (rule informs_same) (simp_all add: silent_def truth_def)

lemma silent_update [simp]:
  "silent g (g\<lparr>g_hatter_accum := i\<rparr>)" "silent g (g\<lparr>g_slick_accum := i\<rparr>)" "silent g (g\<lparr>g_drop_accum := i\<rparr>)"
  "silent g (g\<lparr>g_slide_accum := i\<rparr>)" "silent g (g\<lparr>g_paused := b\<rparr>)" "silent g (g\<lparr>g_in_bazaar := b\<rparr>)"
  "silent g (g\<lparr>g_arsenal := a\<rparr>)" "silent g (g\<lparr>g_pending := ts\<rparr>)" "silent g (g\<lparr>g_pending_board := cells\<rparr>)"
  "silent g (g\<lparr>g_board := bd\<rparr>)" "silent g (g\<lparr>g_dropping := b, g_drop_time := i, g_drop_accum := j\<rparr>)"
  "silent g (g\<lparr>g_dropping := b\<rparr>)"
  by (simp add: silent_def)+

lemma silent_moves:
  "silent g (rotate_internal g)" "silent g (slick_step g)" "g_phase g = Falling \<Longrightarrow> silent g (drop_step g)"
  "silent g (move_by dx g)"
  by (simp_all add: silent_def rotate_internal_def slick_step_def drop_step_def start_slide_def move_by_def Let_def
      split_beta split: option.split)

lemma silent_hatter_loop: "silent g (hatter_loop g)"
proof (induction g rule: hatter_loop.induct)
  case (1 g)
  then show ?case
    by (subst hatter_loop.simps) (auto intro: silent_trans [OF silent_trans [OF silent_update(1) silent_moves(1)]])
qed

lemma silent_slick_loop: "silent g (slick_loop g)"
proof (induction g rule: slick_loop.induct)
  case (1 g)
  then show ?case
    by (subst slick_loop.simps) (auto intro: silent_trans [OF silent_trans [OF silent_update(2) silent_moves(2)]])
qed

lemma silent_drop_loop: "silent g (drop_loop step g)"
proof (induction step g rule: drop_loop.induct)
  case (1 step g)
  then show ?case
    by (subst drop_loop.simps) (auto intro: silent_trans [OF silent_trans [OF silent_update(3) silent_moves(3)]])
qed

lemma silent_tick_weapons: "silent g (tick_weapons dt g)"
proof -
  obtain h where h: "h = (if weapon_active g Hatter then hatter_loop (g\<lparr>g_hatter_accum := g_hatter_accum g + dt\<rparr>) else g)" by blast
  have "silent g h" unfolding h using silent_trans [OF silent_update(1) silent_hatter_loop] by simp
  moreover have "silent h (slick_loop (h\<lparr>g_slick_accum := g_slick_accum h + dt\<rparr>))"
    by (rule silent_trans [OF silent_update(2) silent_slick_loop])
  ultimately have "silent g (slick_loop (h\<lparr>g_slick_accum := g_slick_accum h + dt\<rparr>))" "silent g h"
    by (blast intro: silent_trans)+
  then show ?thesis unfolding tick_weapons_def Let_def h [symmetric] by simp
qed

lemma slide_loop_informs:
  assumes ok: "game_ok g" and s: "slide_loop step g = Some g'" and i: "informs k g" and step: "0 \<le> step"
  shows "informs k g'"
proof (cases "g_phase g \<noteq> Sliding \<or> step > 0 \<and> g_slide_accum g < step")
  case True
  then have "slide_loop step g = Some g" by (subst slide_loop.simps) auto
  then show ?thesis using s i by simp
next
  case False
  let ?g = "if step > 0 then g\<lparr>g_slide_accum := g_slide_accum g - step\<rparr> else g"
  have sl: "silent g ?g" by simp
  have ok': "game_ok ?g" using keeps_piece_ok [OF keeps_piece_accum(4) ok] ok by simp
  have g: "g_phase ?g = Sliding" "g_current ?g \<noteq> None"
    using ok False by (auto simp: game_ok_def piece_ok_def)
  have eq: "slide_loop step g = Option.bind (place False ?g) (\<lambda>g. if step = 0 then Some g else slide_loop step g)"
    using False by (subst slide_loop.simps) auto
  obtain h where h: "place False ?g = Some h" "(if step = 0 then Some h else slide_loop step h) = Some g'"
    using bind_eq_SomeE [OF s [unfolded eq]] by blast
  have "g_phase h \<noteq> Sliding" using place_returns [OF ok', of False] h(1) g by simp
  then have "g' = h" using h(2) by (subst (asm) slide_loop.simps) (auto split: if_splits)
  moreover have "informs k h" using place_informs [OF h(1)] silent_informs [OF sl] i g by simp
  ultimately show ?thesis by simp
qed

lemma tick_informs:
  assumes ok: "game_ok g" and t: "tick dt g = Some g'" and i: "informs k g"
  shows "informs k g'"
proof (cases "g_paused g \<or> g_in_bazaar g \<or> g_phase g = Over \<or> dt \<le> 0")
  case True
  then show ?thesis using t i by (auto simp: tick_def)
next
  case False
  obtain h where h: "h = tick_weapons dt g" by blast
  have ih: "informs k h" using i silent_informs [OF silent_tick_weapons] by (simp add: h)
  have okh: "game_ok h" unfolding h by (rule keeps_piece_ok [OF tick_weapons_keeps ok])
  have eq: "tick dt g = (case g_phase h of
          Falling \<Rightarrow> Some (drop_loop (max (g_drop_time h) 1) (h\<lparr>g_drop_accum := g_drop_accum h + dt\<rparr>))
        | Sliding \<Rightarrow> slide_loop (max (g_slide_time h) 0) (h\<lparr>g_slide_accum := g_slide_accum h + dt\<rparr>)
        | Over \<Rightarrow> Some h)"
    unfolding tick_def h Let_def using False by (auto split: phase.split)
  have "informs k (h\<lparr>g_slide_accum := j\<rparr>)" "game_ok (h\<lparr>g_slide_accum := j\<rparr>)" for j
    using ih silent_informs [OF silent_update(4)] keeps_piece_ok [OF keeps_piece_accum(4) okh] by simp_all
  then have "slide_loop (max (g_slide_time h) 0) (h\<lparr>g_slide_accum := j\<rparr>) = Some g' \<Longrightarrow> informs k g'" for j
    using slide_loop_informs by (metis max.cobounded2)
  moreover have "informs k (drop_loop step (h\<lparr>g_drop_accum := j\<rparr>))" for step j
    using ih silent_informs [OF silent_trans [OF silent_update(3) silent_drop_loop]] by metis
  ultimately show ?thesis using t ih unfolding eq by (cases "g_phase h") auto
qed

lemma silent_soft_drop: "silent g (soft_drop g)"
  using silent_trans [OF silent_moves(3) silent_update(3), of g] by (simp add: soft_drop_def)

lemma add_score_informs [simp]: "informs k (add_score n g) = informs k g"
  by (rule informs_same) (simp_all add: add_score_def truth_def)

lemma add_score_funds_informs [simp]: "informs k (add_score_funds n g) = informs k g"
  by (rule informs_same) (simp_all add: add_score_funds_def truth_def)

lemma engage_informs: "informs k (snd (engage_fast_drop g)) = informs k g"
  by (rule silent_informs) (simp add: engage_fast_drop_def Let_def)

lemma silent_inputs:
  "silent g (move_left g)" "silent g (move_right g)" "silent g (game_rotate g)" "silent g (set_paused b g)"
  "silent g (leave_bazaar g)" "silent g (receive_weapon t g)" "silent g (queue_board_swap cells g)"
  "silent g (snd (grant_weapon t g))"
  by (simp_all add: move_left_def move_right_def game_rotate_def set_paused_def leave_bazaar_def receive_weapon_def
      queue_board_swap_def grant_weapon_def silent_moves split_beta)

lemma silent_rows: "silent g (if weapon_active g Lawyers then fold (\<lambda>_. insert_one) xs g else g)" for xs :: "int list"
proof -
  have one: "silent g (insert_one g)" for g by (simp add: insert_one_def split_beta silent_def)
  have "silent g (fold (\<lambda>_. insert_one) xs g)" for g by (induction xs arbitrary: g) (auto intro: silent_trans one)
  then show ?thesis by simp
qed

lemma op_lines_informs: "informs k (op_lines_arrive l g) = informs k g"
proof -
  have "informs k (h\<lparr>g_score := (g_score h)\<lparr>s_op_lines := l\<rparr>\<rparr>) = informs k h" for h
    by (rule informs_same) (simp_all add: truth_def)
  then show ?thesis by (simp only: op_lines_arrive_def Let_def informs_update_bazaar silent_informs [OF silent_rows])
qed

lemma op_lines_arrive_truth: "truth (op_lines_arrive l g) = truth g"
proof -
  have "truth (if weapon_active g Lawyers then fold (\<lambda>_. insert_one) xs g else g) = truth g" for xs :: "int list"
    using silent_rows [of g xs] by (simp add: silent_def truth_def)
  moreover have "truth (update_bazaar (h\<lparr>g_score := (g_score h)\<lparr>s_op_lines := l\<rparr>\<rparr>)) = truth h" for h
    by (simp add: truth_def motion_eqD(4) [OF update_bazaar_groups(2)])
  ultimately show ?thesis by (simp only: op_lines_arrive_def Let_def)
qed

lemma op_lines_arrive_over: "(g_phase (op_lines_arrive l g) = Over) = (g_phase g = Over)"
  using arg_cong [OF op_lines_arrive_truth, of snd l g] by (simp add: truth_def)

lemma receive_op_score_informs: "informs k (receive_op_score s l f g) = informs k g"
proof -
  have "informs k (dress (s, f, []) h) = informs k h" for h by (rule informs_same) (simp_all add: truth_def)
  then show ?thesis by (simp add: receive_op_score_dress op_lines_informs)
qed

lemma informs_arsenal: "informs k (g\<lparr>g_arsenal := a\<rparr>) = informs k g"
  by (rule silent_informs) simp

lemma inputs_inform:
  "informs k (begin_drop g) = informs k g" "informs k (ai_begin_drop g) = informs k g"
  "informs k (launch_weapon i g) = informs k g"
  "informs k (snd (buy_weapon t g)) = informs k g" "informs k (snd (sell_weapon t g)) = informs k g"
  using engage_informs [of k g] informs_arsenal [where k = k and g = g]
  by (auto simp: begin_drop_def ai_begin_drop_def split_beta launch_weapon_def buy_weapon_def sell_weapon_def Let_def
      split: option.split)

lemma add_funds_informs: "informs k g \<Longrightarrow> informs k (add_funds n g)"
  by (simp add: add_funds_def push_scored_informs informs_over)

lemma game_new_informs:
  assumes "game_new seed = Some g" shows "informs (0, False) g"
proof -
  let ?g = "(game_fresh seed)\<lparr>g_x := g_def_x (game_fresh seed), g_y := g_def_y (game_fresh seed)\<rparr>"
  have "informs (0, False) ?g" "g_phase ?g \<noteq> Over" "spawn ?g = Some g"
    using assms by (simp_all add: game_new_def start_game_def informs_def told_def truth_def game_fresh_def score_default_def)
  then show ?thesis using spawn_informs by blast
qed

subsection \<open>The mirror of the opponent's lines\<close>

text \<open>Only an arriving score changes it.\<close>

definition op_lines :: "game \<Rightarrow> i64" where
  "op_lines g = s_op_lines (g_score g)"

lemma silent_op_lines: "silent g g' \<Longrightarrow> op_lines g' = op_lines g"
  by (simp add: silent_def op_lines_def)

lemma lock_piece_op_lines: "lock_piece p g = Some g' \<Longrightarrow> op_lines g' = op_lines g"
  by (auto simp: lock_piece_eq after_clear_def note_airslide_def op_lines_def Let_def split_beta
      elim!: bind_eq_SomeE split: option.split)

lemma apply_weapon_on_op_lines: "apply_weapon_on t g = Some g' \<Longrightarrow> op_lines g' = op_lines g"
  by (auto simp: apply_weapon_on_eq credit_weapon_clear_def op_lines_def Let_def elim!: bind_eq_SomeE)

lemma flush_pending_op_lines:
  assumes "flush_pending g = Some g'" shows "op_lines g' = op_lines g"
proof -
  obtain h where h: "fold_opt apply_weapon_on (g_pending g) (g\<lparr>g_pending := []\<rparr>) = Some h"
    and g': "g' = (case g_pending_board h of
           Some cells \<Rightarrow> force_weapon_off Upbyside (force_weapon_off Bottle (import_board cells (h\<lparr>g_pending_board := None\<rparr>)))
         | None \<Rightarrow> h)"
    using assms unfolding flush_pending_def by (auto elim!: bind_eq_SomeE)
  have "op_lines h = op_lines g"
    by (rule fold_opt_keeps [OF h, where P = "\<lambda>h. op_lines h = op_lines g"])
      (simp_all add: apply_weapon_on_op_lines, simp add: op_lines_def)
  then show ?thesis by (simp add: g' op_lines_def split: option.split)
qed

lemma spawn_op_lines: "spawn g = Some g' \<Longrightarrow> op_lines g' = op_lines g"
  by (auto simp: spawn_def Let_def op_lines_def elim!: bind_eq_SomeE split: prod.splits if_splits)

lemma place_op_lines: "place f g = Some g' \<Longrightarrow> op_lines g' = op_lines g"
proof -
  have "op_lines (g\<lparr>g_current := None\<rparr>) = op_lines g" by (simp add: op_lines_def)
  moreover have "op_lines (h\<lparr>g_lock_seq := n, g_lock_hash := w, g_sliding := i\<rparr>) = op_lines h" for h n w i
    by (simp add: op_lines_def)
  moreover have "op_lines (g\<lparr>g_y := y, g_current := c, g_phase := ph, g_drop_accum := i, g_sliding := j\<rparr>) = op_lines g"
    for y c ph i j by (simp add: op_lines_def)
  ultimately show "place f g = Some g' \<Longrightarrow> op_lines g' = op_lines g"
    by (auto simp: place_eq lock_and_spawn_def Let_def
        dest!: lock_piece_op_lines flush_pending_op_lines spawn_op_lines elim!: bind_eq_SomeE split: option.splits if_splits)
qed

lemma slide_loop_op_lines: "slide_loop step g = Some h \<Longrightarrow> op_lines h = op_lines g"
proof (erule slide_loop.raw_induct [rotated, where P = "\<lambda>step g h. op_lines h = op_lines g"], goal_cases)
  case (1 loop step g h)
  have "op_lines (g\<lparr>g_slide_accum := i\<rparr>) = op_lines g" for i by (simp add: op_lines_def)
  then show ?case using 1(2) by (auto dest!: place_op_lines 1(1) elim!: bind_eq_SomeE split: if_splits)
qed

lemma tick_op_lines:
  assumes "tick dt g = Some g'" shows "op_lines g' = op_lines g"
proof -
  have "silent g (drop_loop step ((tick_weapons dt g)\<lparr>g_drop_accum := i\<rparr>))" for step i
    by (rule silent_trans [OF silent_tick_weapons silent_trans [OF silent_update(3) silent_drop_loop]])
  moreover have "silent g ((tick_weapons dt g)\<lparr>g_slide_accum := i\<rparr>)" for i
    by (rule silent_trans [OF silent_tick_weapons silent_update(4)])
  ultimately show ?thesis
    using assms silent_op_lines [OF silent_tick_weapons, of dt g]
    by (auto simp: tick_def Let_def silent_op_lines dest!: slide_loop_op_lines split: if_splits phase.splits)
qed

lemma game_new_op_lines: "game_new seed = Some g \<Longrightarrow> op_lines g = 0"
  by (auto simp: game_new_def start_game_def op_lines_def game_fresh_def score_default_def dest: spawn_op_lines)

end
