(* ===== verification/Inputs.thy ===== *)
theory Inputs
  imports Reports
begin

section \<open>Inputs\<close>

text \<open>
  \<open>bt-replay/src/lib.rs\<close>: every action that a host can apply to a game, as it is recorded and sent, and
  the one place that decodes it. A token index that is no weapon is ignored.
\<close>

datatype input =
    MoveLeft
  | MoveRight
  | Rotate
  | BeginDrop
  | AiDrop
  | SoftDrop
  | LaunchWeapon u32
  | BuyWeapon i32
  | SellWeapon i32
  | LeaveBazaar
  | SetPaused bool
  | ReceiveWeapon i32
  | ReceiveOpScore i64 i64 i64
  | AddFunds i64
  | GrantWeapon i32

definition with_token :: "i32 \<Rightarrow> (weapon_token \<Rightarrow> game \<Rightarrow> game) \<Rightarrow> game \<Rightarrow> game" where
  "with_token t f g = (case from_index t of Some tok \<Rightarrow> f tok g | None \<Rightarrow> g)"

definition apply_to_game :: "input \<Rightarrow> game \<Rightarrow> game" where
  "apply_to_game i g = (case i of
       MoveLeft \<Rightarrow> move_left g
     | MoveRight \<Rightarrow> move_right g
     | Rotate \<Rightarrow> game_rotate g
     | BeginDrop \<Rightarrow> begin_drop g
     | AiDrop \<Rightarrow> ai_begin_drop g
     | SoftDrop \<Rightarrow> soft_drop g
     | LaunchWeapon slot \<Rightarrow> launch_weapon (unat slot) g
     | BuyWeapon t \<Rightarrow> with_token t (\<lambda>tok g. snd (buy_weapon tok g)) g
     | SellWeapon t \<Rightarrow> with_token t (\<lambda>tok g. snd (sell_weapon tok g)) g
     | LeaveBazaar \<Rightarrow> leave_bazaar g
     | SetPaused p \<Rightarrow> set_paused p g
     | ReceiveWeapon t \<Rightarrow> with_token t receive_weapon g
     | ReceiveOpScore sc ln fn \<Rightarrow> receive_op_score sc ln fn g
     | AddFunds amount \<Rightarrow> add_funds amount g
     | GrantWeapon t \<Rightarrow> with_token t (\<lambda>tok g. snd (grant_weapon tok g)) g)"

subsection \<open>What an input keeps\<close>

lemma with_token_cases: "(\<And>t. P (f t g)) \<Longrightarrow> P g \<Longrightarrow> P (with_token n f g)"
  by (simp add: with_token_def split: option.split)

lemma apply_reachable: "reachable g \<Longrightarrow> reachable (apply_to_game i g)"
  by (cases i; simp add: apply_to_game_def; (rule with_token_cases)?;
      auto intro: r_left r_right r_rotate r_drop r_ai_drop r_soft_drop r_launch r_buy r_sell r_leave r_pause r_receive
        r_op_score r_funds r_grant)

lemma apply_informs: "informs k g \<Longrightarrow> informs k (apply_to_game i g)"
  by (cases i; simp add: apply_to_game_def; (rule with_token_cases)?;
      simp add: inputs_inform receive_op_score_informs add_funds_informs silent_informs [OF silent_soft_drop]
        silent_informs [OF silent_inputs(1)] silent_informs [OF silent_inputs(2)] silent_informs [OF silent_inputs(3)]
        silent_informs [OF silent_inputs(4)] silent_informs [OF silent_inputs(5)] silent_informs [OF silent_inputs(6)]
        silent_informs [OF silent_inputs(8)])

text \<open>The mirror of the opponent's lines changes under one input only, and an input never ends a game or reopens it.\<close>

lemma op_lines_inputs:
  "op_lines (begin_drop g) = op_lines g" "op_lines (ai_begin_drop g) = op_lines g" "op_lines (launch_weapon n g) = op_lines g"
  "op_lines (snd (buy_weapon t g)) = op_lines g" "op_lines (snd (sell_weapon t g)) = op_lines g"
  "op_lines (add_funds m g) = op_lines g"
  by (auto simp: op_lines_def begin_drop_def ai_begin_drop_def engage_fast_drop_def add_score_def launch_weapon_def
      buy_weapon_def sell_weapon_def add_funds_def push_scored_def Let_def split_beta split: option.split)

lemma apply_op_lines:
  assumes "\<forall>s l f. i \<noteq> ReceiveOpScore s l f"
  shows "op_lines (apply_to_game i g) = op_lines g"
  using assms
  by (cases i;
      simp add: apply_to_game_def with_token_def op_lines_inputs silent_op_lines [OF silent_soft_drop] silent_op_lines [OF silent_inputs(1)]
        silent_op_lines [OF silent_inputs(2)] silent_op_lines [OF silent_inputs(3)] silent_op_lines [OF silent_inputs(4)]
        silent_op_lines [OF silent_inputs(5)] silent_op_lines [OF silent_inputs(6)] silent_op_lines [OF silent_inputs(8)]
        split: option.split)

lemma over_inputs:
  "g_phase (begin_drop g) = g_phase g" "g_phase (ai_begin_drop g) = g_phase g" "g_phase (launch_weapon n g) = g_phase g"
  "g_phase (snd (buy_weapon t g)) = g_phase g" "g_phase (snd (sell_weapon t g)) = g_phase g"
  "g_phase (add_funds m g) = g_phase g"
  by (auto simp: begin_drop_def ai_begin_drop_def engage_fast_drop_def add_score_def launch_weapon_def
      buy_weapon_def sell_weapon_def add_funds_def push_scored_def add_score_funds_def Let_def split_beta split: option.split)

lemma silent_over: "silent g g' \<Longrightarrow> (g_phase g' = Over) = (g_phase g = Over)"
  by (simp add: silent_def)

lemma receive_op_score_over: "(g_phase (receive_op_score s l f g) = Over) = (g_phase g = Over)"
  by (simp add: receive_op_score_dress op_lines_arrive_over)

lemma apply_over: "(g_phase (apply_to_game i g) = Over) = (g_phase g = Over)"
  by (cases i;
      simp add: apply_to_game_def with_token_def over_inputs silent_over [OF silent_soft_drop] silent_over [OF silent_inputs(1)]
        silent_over [OF silent_inputs(2)] silent_over [OF silent_inputs(3)] silent_over [OF silent_inputs(4)]
        silent_over [OF silent_inputs(5)] silent_over [OF silent_inputs(6)] silent_over [OF silent_inputs(8)]
        receive_op_score_over split: option.split)

subsection \<open>Inputs and what is only displayed\<close>

definition redress :: "input \<Rightarrow> dress \<Rightarrow> dress" where
  "redress i d = (case i of ReceiveOpScore s l f \<Rightarrow> (s, f, snd (snd d)) | _ \<Rightarrow> d)"

lemma dress_token: "(\<And>t. f t (dress d g) = dress d (f t g)) \<Longrightarrow> with_token n f (dress d g) = dress d (with_token n f g)"
  by (simp add: with_token_def split: option.split)

lemma dress_apply: "apply_to_game i (dress d g) = dress (redress i d) (apply_to_game i g)"
  by (cases i) (simp_all add: apply_to_game_def redress_def dress_token receive_op_score_dress)

end
