(* ===== verification/Versus.thy ===== *)
theory Versus
  imports Inputs
begin

section \<open>The match\<close>

text \<open>
  \<open>bt-core/src/versus.rs\<close>: two games, ticked in lockstep, and the relay that carries weapons, scores
  and funds from one to the other. The two arrays per side are functions of the side. The source
  writes the relay out once for A and once for B; here it is one definition of the side.
\<close>

datatype side = Side_A | Side_B

definition other_side :: "side \<Rightarrow> side" where
  "other_side s = (case s of Side_A \<Rightarrow> Side_B | Side_B \<Rightarrow> Side_A)"

definition is_spy :: "weapon_token \<Rightarrow> bool" where
  "is_spy t \<longleftrightarrow> t \<in> {Ames, Ace, Condor}"

definition mirror_nullifies :: "weapon_token \<Rightarrow> bool" where
  "mirror_nullifies t \<longleftrightarrow> t \<in> {Swap, Mondale, Keating, Ames, Ace, Condor, NiceDay, Susan, Mirror}"

record delivery =
  queued_on_victim :: "weapon_token option"
  queued_on_attacker :: "weapon_token option"
  attacker_credit :: "i64 option"
  needs_keyframe :: bool

definition delivery_default :: delivery where
  "delivery_default = \<lparr>queued_on_victim = None, queued_on_attacker = None, attacker_credit = None,
     needs_keyframe = False\<rparr>"

datatype relay_event =
    Relay_weapon weapon_token
  | Relay_op_score i64 i64
  | Relay_funds i64

datatype recipient = Attacker | Victim

text \<open>The two games come back as the pair (attacker, victim).\<close>

definition apply_weapon :: "game \<Rightarrow> game \<Rightarrow> weapon_token \<Rightarrow> recipient \<Rightarrow> delivery \<times> game \<times> game" where
  "apply_weapon attacker victim token to =
     (case token of
        Swap \<Rightarrow>
          (let a_cells = export_board attacker; v_cells = export_board victim in
           (delivery_default\<lparr>needs_keyframe := True\<rparr>, queue_board_swap v_cells attacker, queue_board_swap a_cells victim))
      | Susan \<Rightarrow> (delivery_default\<lparr>needs_keyframe := True\<rparr>, swap_arsenal_with attacker victim)
      | Keating \<Rightarrow>
          (let credit = s_funds (g_score victim) in
           (delivery_default\<lparr>queued_on_victim := Some token, attacker_credit := Some credit\<rparr>,
            add_funds credit attacker, receive_weapon token victim))
      | _ \<Rightarrow>
          (case to of
             Attacker \<Rightarrow> (delivery_default\<lparr>queued_on_attacker := Some token\<rparr>, receive_weapon token attacker, victim)
           | Victim \<Rightarrow> (delivery_default\<lparr>queued_on_victim := Some token\<rparr>, attacker, receive_weapon token victim)))"

definition deliver_weapon :: "game \<Rightarrow> game \<Rightarrow> weapon_token \<Rightarrow> delivery \<times> game \<times> game" where
  "deliver_weapon attacker victim token =
     (if weapon_active attacker Mirror then
        if mirror_nullifies token then (delivery_default, attacker, victim)
        else apply_weapon attacker victim token Attacker
      else apply_weapon attacker victim token Victim)"

record versus =
  v_a :: game
  v_b :: game
  v_result :: i32
  v_dirty :: bool
  v_spy :: "side \<Rightarrow> weapon_token list"
  v_outbox :: "side \<Rightarrow> relay_event list"

definition versus_new :: "u64 \<Rightarrow> u64 \<Rightarrow> versus option" where
  "versus_new seed_a seed_b = do {
     a \<leftarrow> game_new seed_a;
     b \<leftarrow> game_new seed_b;
     Some \<lparr>v_a = a, v_b = b, v_result = 0, v_dirty = False, v_spy = (\<lambda>_. []), v_outbox = (\<lambda>_. [])\<rparr>
   }"

definition v_game :: "side \<Rightarrow> versus \<Rightarrow> game" where
  "v_game s v = (case s of Side_A \<Rightarrow> v_a v | Side_B \<Rightarrow> v_b v)"

text \<open>\<open>game_mut\<close>: an update of one side's game.\<close>

definition upd_game :: "side \<Rightarrow> (game \<Rightarrow> game) \<Rightarrow> versus \<Rightarrow> versus" where
  "upd_game s f v = (case s of Side_A \<Rightarrow> v\<lparr>v_a := f (v_a v)\<rparr> | Side_B \<Rightarrow> v\<lparr>v_b := f (v_b v)\<rparr>)"

definition take_outbox :: "side \<Rightarrow> versus \<Rightarrow> relay_event list \<times> versus" where
  "take_outbox s v = (v_outbox v s, v\<lparr>v_outbox := (v_outbox v)(s := [])\<rparr>)"

definition take_dirty :: "versus \<Rightarrow> bool \<times> versus" where
  "take_dirty v = (v_dirty v, v\<lparr>v_dirty := False\<rparr>)"

definition take_spy_launches :: "side \<Rightarrow> versus \<Rightarrow> weapon_token list \<times> versus" where
  "take_spy_launches s v = (v_spy v s, v\<lparr>v_spy := (v_spy v)(s := [])\<rparr>)"

definition is_over :: "versus \<Rightarrow> bool" where
  "is_over v \<longleftrightarrow> v_result v \<noteq> 0"

definition push_out :: "side \<Rightarrow> relay_event \<Rightarrow> versus \<Rightarrow> versus" where
  "push_out s e v = v\<lparr>v_outbox := (v_outbox v)(s := v_outbox v s @ [e])\<rparr>"

definition record_delivery :: "delivery \<Rightarrow> side \<Rightarrow> side \<Rightarrow> versus \<Rightarrow> versus" where
  "record_delivery d attacker victim v =
     (let v = (case queued_on_victim d of Some t \<Rightarrow> push_out victim (Relay_weapon t) v | None \<Rightarrow> v);
          v = (case queued_on_attacker d of Some t \<Rightarrow> push_out attacker (Relay_weapon t) v | None \<Rightarrow> v)
      in case attacker_credit d of Some n \<Rightarrow> push_out attacker (Relay_funds n) v | None \<Rightarrow> v)"

text \<open>One event of the game of side \<open>s\<close>.\<close>

definition relay_launch :: "side \<Rightarrow> weapon_token \<Rightarrow> versus \<Rightarrow> versus" where
  "relay_launch s t v =
     (if is_spy t then
        (if \<not> weapon_active (v_game s v) Mirror then v\<lparr>v_spy := (v_spy v)(s := v_spy v s @ [t])\<rparr> else v)
      else
        (let (d, attacker, victim) = deliver_weapon (v_game s v) (v_game (other_side s) v) t;
             v = upd_game s (\<lambda>_. attacker) (upd_game (other_side s) (\<lambda>_. victim) v);
             v = record_delivery d s (other_side s) v
         in if needs_keyframe d then v\<lparr>v_dirty := True\<rparr> else v))"

definition relay_step :: "side \<Rightarrow> game_event \<Rightarrow> versus \<Rightarrow> versus" where
  "relay_step s e v =
     (case e of
        WeaponLaunched t \<Rightarrow> relay_launch s t v
      | Scored sc ln fn \<Rightarrow>
          push_out (other_side s) (Relay_op_score sc ln) (upd_game (other_side s) (receive_op_score sc ln fn) v)
      | FundsStolen n \<Rightarrow> push_out (other_side s) (Relay_funds n) (upd_game (other_side s) (add_funds n) v)
      | EnterBazaar \<Rightarrow> v\<lparr>v_dirty := True\<rparr>
      | GameOver \<Rightarrow> if v_result v = 0 then v\<lparr>v_result := (case s of Side_A \<Rightarrow> 2 | Side_B \<Rightarrow> 1)\<rparr> else v
      | _ \<Rightarrow> v)"

definition relay_half :: "side \<Rightarrow> versus \<Rightarrow> versus" where
  "relay_half s v = fold (relay_step s) (g_events (v_game s v)) (upd_game s (\<lambda>g. snd (take_events g)) v)"

definition relay :: "versus \<Rightarrow> versus" where
  "relay v = relay_half Side_B (relay_half Side_A v)"

definition versus_tick :: "i32 \<Rightarrow> versus \<Rightarrow> versus option" where
  "versus_tick dt v =
     (if v_result v \<noteq> 0 then Some v
      else if g_in_bazaar (v_a v) \<or> g_in_bazaar (v_b v) then Some (relay v)
      else do {
        a \<leftarrow> tick dt (v_a v);
        b \<leftarrow> tick dt (v_b v);
        Some (relay (v\<lparr>v_a := a, v_b := b\<rparr>))
      })"

text \<open>How a host sends a relayed effect to the client of the affected side; the opponent's funds are withheld.\<close>

definition from_relay :: "relay_event \<Rightarrow> input" where
  "from_relay e = (case e of
       Relay_weapon t \<Rightarrow> ReceiveWeapon (int (index t))
     | Relay_op_score score lines \<Rightarrow> ReceiveOpScore score lines 0
     | Relay_funds amount \<Rightarrow> AddFunds amount)"

subsection \<open>Sides\<close>

lemma other_side_simps [simp]: "other_side Side_A = Side_B" "other_side Side_B = Side_A" "other_side (other_side s) = s"
    "other_side s \<noteq> s" "s \<noteq> other_side s"
  by (cases s; simp add: other_side_def)+

lemma side_cases: "t = s \<or> t = other_side s"
  by (cases s; cases t) simp_all

lemma v_game_upd [simp]:
  "v_game s (upd_game s f v) = f (v_game s v)" "v_game (other_side s) (upd_game s f v) = v_game (other_side s) v"
  "v_game s (upd_game (other_side s) f v) = v_game s v"
  by (cases s; simp add: v_game_def upd_game_def)+

lemma upd_game_fields [simp]:
  "v_result (upd_game s f v) = v_result v" "v_dirty (upd_game s f v) = v_dirty v"
  "v_spy (upd_game s f v) = v_spy v" "v_outbox (upd_game s f v) = v_outbox v"
  by (cases s; simp add: upd_game_def)+

lemma v_game_outputs [simp]:
  "v_game s (v\<lparr>v_result := r\<rparr>) = v_game s v" "v_game s (v\<lparr>v_dirty := d\<rparr>) = v_game s v"
  "v_game s (v\<lparr>v_spy := p\<rparr>) = v_game s v" "v_game s (v\<lparr>v_outbox := q\<rparr>) = v_game s v"
  by (cases s; simp add: v_game_def)+

lemma push_out_fields [simp]:
  "v_game s (push_out t e v) = v_game s v" "v_result (push_out t e v) = v_result v" "v_dirty (push_out t e v) = v_dirty v"
  "v_spy (push_out t e v) = v_spy v" "v_outbox (push_out t e v) s = v_outbox v s @ (if s = t then [e] else [])"
  by (simp_all add: push_out_def)

lemma record_delivery_fields [simp]:
  "v_game s (record_delivery d x y v) = v_game s v" "v_result (record_delivery d x y v) = v_result v"
  "v_dirty (record_delivery d x y v) = v_dirty v" "v_spy (record_delivery d x y v) = v_spy v"
  by (simp_all add: record_delivery_def Let_def split: option.split)

subsection \<open>A delivery\<close>

text \<open>What a delivery can be: a fizzle, one weapon queued on one side, Keating's credit, or an exchange.\<close>

lemma deliver_cases:
  obtains (fizzle) "deliver_weapon a v t = (delivery_default, a, v)"
    | (backfire) "deliver_weapon a v t = (delivery_default\<lparr>queued_on_attacker := Some t\<rparr>, receive_weapon t a, v)"
    | (hit) "deliver_weapon a v t = (delivery_default\<lparr>queued_on_victim := Some t\<rparr>, a, receive_weapon t v)"
    | (rob) "deliver_weapon a v t = (delivery_default\<lparr>queued_on_victim := Some t, attacker_credit := Some (s_funds (g_score v))\<rparr>,
        add_funds (s_funds (g_score v)) a, receive_weapon t v)"
    | (boards) "deliver_weapon a v t = (delivery_default\<lparr>needs_keyframe := True\<rparr>, queue_board_swap (export_board v) a,
        queue_board_swap (export_board a) v)"
    | (arsenals) "deliver_weapon a v t = (delivery_default\<lparr>needs_keyframe := True\<rparr>, swap_arsenal_with a v)"
proof (cases "weapon_active a Mirror")
  case True
  then show ?thesis
    using that(1,2) by (cases t) (simp_all add: deliver_weapon_def mirror_nullifies_def apply_weapon_def)
next
  case False
  then show ?thesis
    using that(3-6) by (cases t) (simp_all add: deliver_weapon_def apply_weapon_def Let_def)
qed

text \<open>A delivery keeps what each side's events tell, and its games stay ones that play can reach.\<close>

lemma truth_simps [simp]:
  "truth (receive_weapon t g) = truth g" "truth (add_funds n g) = truth g" "truth (queue_board_swap c g) = truth g"
  "truth (g\<lparr>g_arsenal := r\<rparr>) = truth g" "truth (receive_op_score s l f g) = truth g" "truth (dress d g) = truth g"
proof -
  show dr: "truth (dress d g) = truth g" for d g by (simp add: truth_def)
  show "truth (receive_weapon t g) = truth g" "truth (queue_board_swap c g) = truth g" "truth (g\<lparr>g_arsenal := r\<rparr>) = truth g"
    by (simp_all add: truth_def receive_weapon_def queue_board_swap_def)
  show "truth (add_funds n g) = truth g"
    by (simp add: add_funds_def push_scored_def, simp add: add_score_funds_def truth_def)
  show "truth (receive_op_score s l f g) = truth g"
    by (simp add: receive_op_score_dress dr op_lines_arrive_truth)
qed

lemma op_lines_simps [simp]:
  "op_lines (receive_weapon t g) = op_lines g" "op_lines (add_funds n g) = op_lines g"
  "op_lines (queue_board_swap c g) = op_lines g" "op_lines (g\<lparr>g_arsenal := r\<rparr>) = op_lines g"
  "op_lines (receive_op_score s l f g) = l" "op_lines (snd (take_events g)) = op_lines g" "op_lines (dress d g) = op_lines g"
  by (simp_all add: op_lines_def receive_weapon_def add_funds_def queue_board_swap_def receive_op_score_def Let_def
      take_events_def push_scored_def)

text \<open>Events that tell a listener who knows \<open>l\<close> lines nothing.\<close>

definition stale :: "i64 \<Rightarrow> game_event \<Rightarrow> bool" where
  "stale l e \<longleftrightarrow> (case e of EnterBazaar \<Rightarrow> True | Scored _ l' _ \<Rightarrow> l' = l | _ \<Rightarrow> False)"

lemma stale_simps [simp]: "stale l EnterBazaar" "stale l (Scored a b c) = (b = l)"
  by (simp_all add: stale_def)

definition newsless :: "game \<Rightarrow> bool" where
  "newsless g \<longleftrightarrow> (\<forall>e \<in> set (g_events g). stale (s_lines (g_score g)) e)"

lemma newsless_ops:
  "newsless (receive_weapon t g) = newsless g" "newsless g \<Longrightarrow> newsless (add_funds n g)"
  "newsless (queue_board_swap c g) = newsless g" "newsless (g\<lparr>g_arsenal := r\<rparr>) = newsless g"
  "newsless g \<Longrightarrow> newsless (receive_op_score s l f g)"
proof -
  show "newsless (receive_weapon t g) = newsless g" "newsless (queue_board_swap c g) = newsless g"
    "newsless (g\<lparr>g_arsenal := r\<rparr>) = newsless g"
    by (simp_all add: newsless_def receive_weapon_def queue_board_swap_def)
  show "newsless g \<Longrightarrow> newsless (add_funds n g)"
    by (simp add: newsless_def add_funds_def push_scored_def)
      (simp add: add_score_funds_def)
  have sil: "newsless h' = newsless h" if "silent h h'" for h h' using that by (simp add: newsless_def silent_def)
  have upd: "newsless h \<Longrightarrow> newsless (update_bazaar (h\<lparr>g_score := (g_score h)\<lparr>s_op_lines := l\<rparr>\<rparr>))" for h
    by (simp add: newsless_def update_bazaar_def Let_def)
  have "newsless (dress (s, f, []) h) = newsless h" for h by (simp add: newsless_def)
  then show "newsless g \<Longrightarrow> newsless (receive_op_score s l f g)"
    unfolding receive_op_score_dress op_lines_arrive_def Let_def using sil [OF silent_rows] upd by simp
qed

definition keeps_news :: "game \<Rightarrow> game \<Rightarrow> bool" where
  "keeps_news g g' \<longleftrightarrow> truth g' = truth g \<and> (\<forall>k. informs k g \<longrightarrow> informs k g') \<and> (reachable g \<longrightarrow> reachable g') \<and>
     motion g' = motion g \<and> g_lock_seq g' = g_lock_seq g \<and> (newsless g \<longrightarrow> newsless g')"

lemma keeps_news_refl [simp]: "keeps_news g g"
  and keeps_news_trans [trans]: "keeps_news g h \<Longrightarrow> keeps_news h k \<Longrightarrow> keeps_news g k"
  by (simp_all add: keeps_news_def)

lemma keeps_newsD:
  assumes "keeps_news g g'"
  shows "truth g' = truth g" "informs k g \<Longrightarrow> informs k g'" "reachable g \<Longrightarrow> reachable g'"
    "motion g' = motion g" "g_lock_seq g' = g_lock_seq g" "newsless g \<Longrightarrow> newsless g'"
  using assms unfolding keeps_news_def by blast+

lemma relay_motion:
  "motion (receive_weapon t g) = motion g" "motion (add_funds n g) = motion g" "motion (queue_board_swap c g) = motion g"
  "motion (g\<lparr>g_arsenal := r\<rparr>) = motion g" "motion (receive_op_score s l f g) = motion g"
  "g_lock_seq (receive_weapon t g) = g_lock_seq g" "g_lock_seq (add_funds n g) = g_lock_seq g"
  "g_lock_seq (queue_board_swap c g) = g_lock_seq g" "g_lock_seq (receive_op_score s l f g) = g_lock_seq g"
proof -
  have one: "motion (insert_one h) = motion h \<and> g_lock_seq (insert_one h) = g_lock_seq h" for h
    by (simp add: insert_one_def split_beta motion_def)
  have rows: "motion (fold (\<lambda>_. insert_one) xs h) = motion h \<and> g_lock_seq (fold (\<lambda>_. insert_one) xs h) = g_lock_seq h"
    for xs :: "int list" and h by (induction xs arbitrary: h) (simp_all add: one)
  have dr: "motion (dress d h) = motion h \<and> g_lock_seq (dress d h) = g_lock_seq h" for d h by (simp add: motion_def)
  have up: "motion (h\<lparr>g_score := sc\<rparr>) = motion h" "g_lock_seq (update_bazaar h) = g_lock_seq h" for h sc
    by (simp_all add: motion_def update_bazaar_def Let_def)
  show "motion (receive_op_score s l f g) = motion g" "g_lock_seq (receive_op_score s l f g) = g_lock_seq g"
    by (simp_all add: receive_op_score_dress op_lines_arrive_def dr Let_def up rows)
  show "motion (receive_weapon t g) = motion g" "motion (add_funds n g) = motion g" "motion (queue_board_swap c g) = motion g"
    "motion (g\<lparr>g_arsenal := r\<rparr>) = motion g" "g_lock_seq (receive_weapon t g) = g_lock_seq g" "g_lock_seq (add_funds n g) = g_lock_seq g"
    "g_lock_seq (queue_board_swap c g) = g_lock_seq g"
    by (simp_all add: receive_weapon_def add_funds_def queue_board_swap_def push_scored_def add_score_funds_def motion_def)
qed

lemma keeps_news_ops [simp]:
  "keeps_news g (receive_weapon t g)" "keeps_news g (add_funds n g)" "keeps_news g (queue_board_swap c g)"
  "keeps_news g (receive_op_score s l f g)"
  using silent_informs [OF silent_inputs(6)] silent_informs [OF silent_inputs(7)]
  by (simp_all add: keeps_news_def add_funds_informs receive_op_score_informs r_receive r_funds r_queue r_op_score relay_motion newsless_ops)

lemma deliver_keeps:
  assumes "deliver_weapon a v t = (d, a', v')" "reachable a" "reachable v"
  shows "keeps_news a a'" "keeps_news v v'" "op_lines a' = op_lines a" "op_lines v' = op_lines v"
proof -
  have tr: "keeps_news a (a\<lparr>g_arsenal := g_arsenal v\<rparr>)" "keeps_news v (v\<lparr>g_arsenal := g_arsenal a\<rparr>)"
    using r_trade [OF assms(2,3)] r_trade [OF assms(3,2)]
    by (simp_all add: keeps_news_def informs_arsenal swap_arsenal_with_def relay_motion newsless_ops)
  have "keeps_news a a' \<and> keeps_news v v' \<and> op_lines a' = op_lines a \<and> op_lines v' = op_lines v"
    by (rule deliver_cases [where a = a and v = v and t = t]) (use assms(1) tr in \<open>auto simp: swap_arsenal_with_def\<close>)
  then show "keeps_news a a'" "keeps_news v v'" "op_lines a' = op_lines a" "op_lines v' = op_lines v" by simp_all
qed

subsection \<open>The relay\<close>

lemma relay_launch_spy:
  assumes "is_spy w"
  shows "v_game t (relay_launch s w v) = v_game t v" "v_result (relay_launch s w v) = v_result v"
    "v_dirty (relay_launch s w v) = v_dirty v" "v_outbox (relay_launch s w v) = v_outbox v"
  using assms by (simp_all add: relay_launch_def)

lemma relay_launch_weapon:
  assumes "\<not> is_spy w" "deliver_weapon (v_game s v) (v_game (other_side s) v) w = (d, a, b)"
  shows "v_game s (relay_launch s w v) = a" "v_game (other_side s) (relay_launch s w v) = b"
    "v_result (relay_launch s w v) = v_result v" "v_dirty (relay_launch s w v) = (v_dirty v \<or> needs_keyframe d)"
    "v_outbox (relay_launch s w v) t = v_outbox v t @
      (if t = s then (case queued_on_attacker d of Some w \<Rightarrow> [Relay_weapon w] | None \<Rightarrow> []) @
         (case attacker_credit d of Some n \<Rightarrow> [Relay_funds n] | None \<Rightarrow> [])
       else (case queued_on_victim d of Some w \<Rightarrow> [Relay_weapon w] | None \<Rightarrow> []))"
  using assms side_cases [of t s]
  by (auto simp: relay_launch_def Let_def record_delivery_def split: option.split)

lemma relay_launch_keeps:
  assumes "reachable (v_game s v)" "reachable (v_game (other_side s) v)"
  shows "keeps_news (v_game t v) (v_game t (relay_launch s w v))"
    and "op_lines (v_game t (relay_launch s w v)) = op_lines (v_game t v)"
    and "v_result (relay_launch s w v) = v_result v"
proof -
  obtain d a b where D: "deliver_weapon (v_game s v) (v_game (other_side s) v) w = (d, a, b)"
    by (cases "deliver_weapon (v_game s v) (v_game (other_side s) v) w")
  note K = deliver_keeps [OF D assms] and W = relay_launch_weapon [OF _ D] and S = relay_launch_spy [of w]
  have t: "t = s \<or> t = other_side s" by (rule side_cases)
  show "keeps_news (v_game t v) (v_game t (relay_launch s w v))"
    using t K(1,2) W(1,2) S(1) by (cases "is_spy w") auto
  show "op_lines (v_game t (relay_launch s w v)) = op_lines (v_game t v)"
    using t K(3,4) W(1,2) S(1) by (cases "is_spy w") auto
  show "v_result (relay_launch s w v) = v_result v" using W(3) S(2) by (cases "is_spy w") auto
qed

text \<open>One event: the listener's count and the result follow \<open>hear\<close>, everything else is kept.\<close>

definition loss :: "side \<Rightarrow> i32" where
  "loss s = (case s of Side_A \<Rightarrow> 2 | Side_B \<Rightarrow> 1)"

definition safe :: "versus \<Rightarrow> bool" where
  "safe v \<longleftrightarrow> reachable (v_a v) \<and> reachable (v_b v)"

lemma safeD: "safe v \<Longrightarrow> reachable (v_game s v)"
  by (cases s) (simp_all add: safe_def v_game_def)

lemma safeI: "(\<And>s. reachable (v_game s v)) \<Longrightarrow> safe v"
  by (metis safe_def side.simps(3,4) v_game_def)

lemma relay_step_keeps:
  assumes "safe v"
  shows "keeps_news (v_game t v) (v_game t (relay_step s e v))"
    and "op_lines (v_game s (relay_step s e v)) = op_lines (v_game s v)"
    and "op_lines (v_game (other_side s) (relay_step s e v)) = fst (hear e (op_lines (v_game (other_side s) v), b))"
    and "v_result (relay_step s e v) = (if v_result v = 0 \<and> e = GameOver then loss s else v_result v)"
proof -
  note L = relay_launch_keeps [OF safeD [OF assms] safeD [OF assms]]
  show "keeps_news (v_game t v) (v_game t (relay_step s e v))"
    using side_cases [of t s] L by (cases e) (auto simp: relay_step_def)
  show "op_lines (v_game s (relay_step s e v)) = op_lines (v_game s v)"
    "op_lines (v_game (other_side s) (relay_step s e v)) = fst (hear e (op_lines (v_game (other_side s) v), b))"
    "v_result (relay_step s e v) = (if v_result v = 0 \<and> e = GameOver then loss s else v_result v)"
    using L by (cases e; simp add: relay_step_def loss_def)+
qed

lemma relay_step_safe: "safe v \<Longrightarrow> safe (relay_step s e v)"
  using relay_step_keeps(1) [of v] by (intro safeI) (auto simp: keeps_news_def safeD)

lemma relay_fold:
  assumes "safe v"
  shows "safe (fold (relay_step s) es v) \<and> keeps_news (v_game t v) (v_game t (fold (relay_step s) es v)) \<and>
    op_lines (v_game s (fold (relay_step s) es v)) = op_lines (v_game s v) \<and>
    op_lines (v_game (other_side s) (fold (relay_step s) es v)) = fst (fold hear es (op_lines (v_game (other_side s) v), b)) \<and>
    v_result (fold (relay_step s) es v) = (if v_result v = 0 \<and> GameOver \<in> set es then loss s else v_result v)"
  using assms
proof (induction es arbitrary: v b)
  case (Cons e es)
  let ?v = "relay_step s e v"
  note K = relay_step_keeps [OF Cons.prems]
  have "hear e (op_lines (v_game (other_side s) v), b) = (op_lines (v_game (other_side s) ?v), snd (hear e (op_lines (v_game (other_side s) v), b)))"
    using K(3) [of s e b] by (simp add: prod_eq_iff)
  moreover have "loss s \<noteq> 0" by (cases s) (simp_all add: loss_def)
  ultimately show ?case
    using Cons.IH [OF relay_step_safe [OF Cons.prems], of s e "snd (hear e (op_lines (v_game (other_side s) v), b))"]
      K(1) [of t s e] K(2) [of s e] K(4) [of s e]
    by (auto intro: keeps_news_trans)
qed simp

lemma snd_fold_hear: "snd (fold hear es k) = (snd k \<or> GameOver \<in> set es)"
proof (induction es arbitrary: k)
  case (Cons e es)
  then show ?case by (cases e) auto
qed simp

text \<open>One half of the relay: the other side now knows what this game is, and the result with it.\<close>

lemma relay_half_law:
  assumes v: "safe v" and i: "informs (op_lines (v_game (other_side s) v), b) (v_game s v)"
  shows "safe (relay_half s v)" "truth (v_game t (relay_half s v)) = truth (v_game t v)"
    "op_lines (v_game s (relay_half s v)) = op_lines (v_game s v)"
    "op_lines (v_game (other_side s) (relay_half s v)) = fst (truth (v_game s v))"
    "informs (truth (v_game s v)) (v_game s (relay_half s v))"
    "informs k (v_game (other_side s) v) \<Longrightarrow> informs k (v_game (other_side s) (relay_half s v))"
    "\<not> b \<Longrightarrow> v_result (relay_half s v) = (if v_result v = 0 \<and> snd (truth (v_game s v)) then loss s else v_result v)"
proof -
  let ?v = "upd_game s (\<lambda>g. snd (take_events g)) v"
  let ?es = "g_events (v_game s v)"
  have same: "truth (v_game t ?v) = truth (v_game t v)" "op_lines (v_game t ?v) = op_lines (v_game t v)" for t
    using side_cases [of t s] by (auto simp: take_events_def truth_def op_lines_def)
  have "reachable (v_game t ?v)" for t
    using side_cases [of t s] safeD [OF v] r_events [OF safeD [OF v]] by auto
  then have sv: "safe ?v" by (rule safeI)
  note F = relay_fold [OF sv, where s = s and es = ?es and b = b]
  show "safe (relay_half s v)" using F by (simp add: relay_half_def)
  show "truth (v_game t (relay_half s v)) = truth (v_game t v)" for t
    using F [of t] same by (simp add: relay_half_def keeps_news_def)
  show "op_lines (v_game s (relay_half s v)) = op_lines (v_game s v)" using F same by (simp add: relay_half_def)
  have heard: "fold hear ?es (op_lines (v_game (other_side s) v), b) = truth (v_game s v)"
    using i by (simp add: informs_def told_def)
  show "op_lines (v_game (other_side s) (relay_half s v)) = fst (truth (v_game s v))"
    using F same heard by (simp add: relay_half_def)
  have "informs (truth (v_game s v)) (v_game s ?v)"
    by (simp add: informs_def told_def take_events_def truth_def)
  then show "informs (truth (v_game s v)) (v_game s (relay_half s v))"
    unfolding relay_half_def using F [of s] keeps_newsD(2) by blast
  show "informs k (v_game (other_side s) v) \<Longrightarrow> informs k (v_game (other_side s) (relay_half s v))"
    unfolding relay_half_def using F [of "other_side s"] keeps_newsD(2) [of "v_game (other_side s) v"] by simp
  show "\<not> b \<Longrightarrow> v_result (relay_half s v) = (if v_result v = 0 \<and> snd (truth (v_game s v)) then loss s else v_result v)"
    using F heard snd_fold_hear [of ?es "(op_lines (v_game (other_side s) v), b)"] by (simp add: relay_half_def)
qed

subsection \<open>The whole relay and the tick\<close>

text \<open>
  What holds between the ticks of a match: both games are reachable; once hearing what still waits in its
  queue, each side knows the other's lines and, while the match is open, that it goes on.
\<close>

definition match_inv :: "versus \<Rightarrow> bool" where
  "match_inv v \<longleftrightarrow> safe v \<and> (\<forall>s. v_result v = 0 \<longrightarrow> informs (op_lines (v_game (other_side s) v), False) (v_game s v)) \<and>
     (v_result v = 0 \<or> v_result v = 2 \<and> g_phase (v_a v) = Over \<or> v_result v = 1 \<and> g_phase (v_b v) = Over)"

lemma truth_over: "snd (truth g) = (g_phase g = Over)"
  by (simp add: truth_def)

lemma relay_law:
  assumes v: "safe v" and i: "\<And>s. informs (op_lines (v_game (other_side s) v), False) (v_game s v)" and r: "v_result v = 0"
  shows "match_inv (relay v)" "truth (v_game s (relay v)) = truth (v_game s v)"
    "op_lines (v_game (other_side s) (relay v)) = fst (truth (v_game s v))"
    "v_result (relay v) = (if g_phase (v_a v) = Over then 2 else if g_phase (v_b v) = Over then 1 else 0)"
proof -
  let ?u = "relay_half Side_A v"
  note A = relay_half_law [OF v, of Side_A False, simplified, OF i [of Side_A, simplified]]
  have iB: "informs (op_lines (v_game Side_A ?u), False) (v_game Side_B ?u)"
    using A(6) [OF i [of Side_B, simplified]] A(3) by simp
  note B = relay_half_law [OF A(1), of Side_B False, simplified, OF iB]
  have rel: "relay v = relay_half Side_B ?u" by (simp add: relay_def)
  have res: "v_result (relay v) = (if g_phase (v_a v) = Over then 2 else if g_phase (v_b v) = Over then 1 else 0)"
    using A(2) [of Side_B] A(7) B(7) r by (simp add: rel loss_def truth_def v_game_def)
  have tr: "truth (v_game s (relay v)) = truth (v_game s v)" for s
    using A(2) [of s] B(2) [of s] by (simp add: rel)
  have op: "op_lines (v_game (other_side s) (relay v)) = fst (truth (v_game s v))" for s
    using A(2) [of Side_B] A(4) B(3,4) by (cases s) (simp_all add: rel)
  have know: "informs (truth (v_game s v)) (v_game s (relay v))" for s
    using A(5) A(2) [of Side_B] B(5) B(6) [of "truth (v_game Side_A v)"] by (cases s) (simp_all add: rel)
  have over: "g_phase (v_game s (relay v)) = Over \<longleftrightarrow> g_phase (v_game s v) = Over" for s
    using arg_cong [OF tr [of s], of snd] by (simp add: truth_over)
  have "informs (op_lines (v_game (other_side s) (relay v)), False) (v_game s (relay v))" if "v_result (relay v) = 0" for s
  proof -
    have "\<not> snd (truth (v_game s v))" using that res by (cases s) (auto simp: truth_def v_game_def split: if_splits)
    then have "truth (v_game s v) = (op_lines (v_game (other_side s) (relay v)), False)" by (simp add: op prod_eq_iff)
    then show ?thesis using know [of s] by simp
  qed
  moreover have "v_result (relay v) = 0 \<or> v_result (relay v) = 2 \<and> g_phase (v_a (relay v)) = Over
      \<or> v_result (relay v) = 1 \<and> g_phase (v_b (relay v)) = Over"
    using res over [of Side_A] over [of Side_B] by (simp add: v_game_def)
  ultimately show "match_inv (relay v)" using B(1) by (simp add: match_inv_def rel)
  show "truth (v_game s (relay v)) = truth (v_game s v)"
    "op_lines (v_game (other_side s) (relay v)) = fst (truth (v_game s v))"
    "v_result (relay v) = (if g_phase (v_a v) = Over then 2 else if g_phase (v_b v) = Over then 1 else 0)"
    by (fact tr op res)+
qed

text \<open>The relay moves no piece and locks none.\<close>

lemma relay_half_motion:
  assumes "safe v"
  shows "motion (v_game t (relay_half s v)) = motion (v_game t v)" "g_lock_seq (v_game t (relay_half s v)) = g_lock_seq (v_game t v)"
    "safe (relay_half s v)"
proof -
  let ?v = "upd_game s (\<lambda>g. snd (take_events g)) v"
  have "reachable (v_game t ?v)" for t
    using side_cases [of t s] safeD [OF assms] r_events [OF safeD [OF assms]] by auto
  then have sv: "safe ?v" by (rule safeI)
  have "motion (v_game t ?v) = motion (v_game t v)" "g_lock_seq (v_game t ?v) = g_lock_seq (v_game t v)"
    using side_cases [of t s] by (auto simp: take_events_def motion_def)
  then show "motion (v_game t (relay_half s v)) = motion (v_game t v)" "g_lock_seq (v_game t (relay_half s v)) = g_lock_seq (v_game t v)"
    "safe (relay_half s v)"
    using relay_fold [OF sv, where s = s and t = t] keeps_newsD(4,5) unfolding relay_half_def by metis+
qed

lemma relay_motion_kept:
  assumes "safe v"
  shows "motion (v_game t (relay v)) = motion (v_game t v)" "g_lock_seq (v_game t (relay v)) = g_lock_seq (v_game t v)"
  using relay_half_motion [OF assms] relay_half_motion [OF relay_half_motion(3) [OF assms]] by (simp_all add: relay_def)

lemma match_inv_new: "versus_new a b = Some v \<Longrightarrow> match_inv v"
  by (auto simp: versus_new_def match_inv_def safe_def v_game_def game_new_op_lines intro: r_new
      elim!: bind_eq_SomeE dest: game_new_informs split: side.split)

lemma tick_reached:
  assumes "reachable g" "informs k g"
  obtains h where "tick dt g = Some h" "reachable h" "informs k h" "op_lines h = op_lines g"
proof -
  obtain h where h: "tick dt g = Some h" using tick_returns [OF reachable_ok [OF assms(1)], of dt] by (auto elim: returnsE)
  show ?thesis
    by (rule that [OF h]) (use assms h in \<open>auto intro: r_tick tick_informs tick_op_lines reachable_ok\<close>)
qed

lemma versus_tick_law:
  assumes m: "match_inv v" and r: "v_result v = 0" and shut: "\<not> g_in_bazaar (v_a v)" "\<not> g_in_bazaar (v_b v)"
  obtains a b where "tick dt (v_a v) = Some a" "tick dt (v_b v) = Some b"
    "versus_tick dt v = Some (relay (v\<lparr>v_a := a, v_b := b\<rparr>))" "safe (v\<lparr>v_a := a, v_b := b\<rparr>)"
    "\<And>s. informs (op_lines (v_game (other_side s) (v\<lparr>v_a := a, v_b := b\<rparr>)), False) (v_game s (v\<lparr>v_a := a, v_b := b\<rparr>))"
proof -
  have i: "reachable (v_a v)" "informs (op_lines (v_b v), False) (v_a v)" "reachable (v_b v)" "informs (op_lines (v_a v), False) (v_b v)"
    using m r unfolding match_inv_def safe_def v_game_def by (auto dest: spec [of _ Side_A] spec [of _ Side_B])
  obtain a where a: "tick dt (v_a v) = Some a" "reachable a" "informs (op_lines (v_b v), False) a" "op_lines a = op_lines (v_a v)"
    using tick_reached [OF i(1,2)] by metis
  obtain b where b: "tick dt (v_b v) = Some b" "reachable b" "informs (op_lines (v_a v), False) b" "op_lines b = op_lines (v_b v)"
    using tick_reached [OF i(3,4)] by metis
  show ?thesis
    by (rule that [OF a(1) b(1)])
      (use a b r shut in \<open>auto simp: versus_tick_def safe_def v_game_def split: side.split\<close>)
qed

lemma match_tick:
  assumes "match_inv v" shows "returns match_inv (versus_tick dt v)"
proof -
  consider (over) "v_result v \<noteq> 0" | (shop) "v_result v = 0" "g_in_bazaar (v_a v) \<or> g_in_bazaar (v_b v)"
    | (play) "v_result v = 0" "\<not> g_in_bazaar (v_a v)" "\<not> g_in_bazaar (v_b v)" by blast
  then show ?thesis
  proof cases
    case shop
    then have "match_inv (relay v)" using assms by (intro relay_law(1)) (simp_all add: match_inv_def)
    then show ?thesis using shop by (simp add: versus_tick_def)
  next
    case play
    obtain a b where t: "versus_tick dt v = Some (relay (v\<lparr>v_a := a, v_b := b\<rparr>))" "safe (v\<lparr>v_a := a, v_b := b\<rparr>)"
      "\<And>s. informs (op_lines (v_game (other_side s) (v\<lparr>v_a := a, v_b := b\<rparr>)), False) (v_game s (v\<lparr>v_a := a, v_b := b\<rparr>))"
      using versus_tick_law [OF assms play] by metis
    then show ?thesis using relay_law(1) [OF t(2,3)] play by simp
  qed (use assms in \<open>simp add: versus_tick_def\<close>)
qed

lemma match_inv_outputs:
  "v_a v' = v_a v \<Longrightarrow> v_b v' = v_b v \<Longrightarrow> v_result v' = v_result v \<Longrightarrow> match_inv v' = match_inv v"
  by (simp add: match_inv_def safe_def v_game_def cong: side.case_cong)

lemma match_input:
  assumes m: "match_inv v" and i: "\<forall>a b c. i \<noteq> ReceiveOpScore a b c"
  shows "match_inv (upd_game s (apply_to_game i) v)"
proof -
  let ?v = "upd_game s (apply_to_game i) v"
  have g: "v_game t ?v = (if t = s then apply_to_game i (v_game t v) else v_game t v)" for t
    using side_cases [of t s] by auto
  have "safe ?v" by (rule safeI) (use m in \<open>simp add: g match_inv_def safeD apply_reachable\<close>)
  moreover have "informs (op_lines (v_game (other_side t) ?v), False) (v_game t ?v)" if "v_result v = 0" for t
    using m that apply_informs apply_op_lines [OF i] unfolding match_inv_def g by auto
  moreover have "(g_phase (v_game t ?v) = Over) = (g_phase (v_game t v) = Over)" for t by (simp add: g apply_over)
  from this [of Side_A] this [of Side_B]
  have "(g_phase (v_a ?v) = Over) = (g_phase (v_a v) = Over)" "(g_phase (v_b ?v) = Over) = (g_phase (v_b v) = Over)"
    by (simp_all add: v_game_def)
  ultimately show ?thesis using m by (simp add: match_inv_def)
qed

text \<open>The matches that a host can reach: any inputs, grants and credits on either side between the ticks.\<close>

inductive played :: "versus \<Rightarrow> bool" where
  p_new: "versus_new seed_a seed_b = Some v \<Longrightarrow> played v"
| p_tick: "played v \<Longrightarrow> versus_tick dt v = Some v' \<Longrightarrow> played v'"
| p_input: "played v \<Longrightarrow> (\<forall>a b c. i \<noteq> ReceiveOpScore a b c) \<Longrightarrow> played (upd_game s (apply_to_game i) v)"
| p_outbox: "played v \<Longrightarrow> played (snd (take_outbox s v))"
| p_spies: "played v \<Longrightarrow> played (snd (take_spy_launches s v))"
| p_dirty: "played v \<Longrightarrow> played (snd (take_dirty v))"

lemma played_inv: "played v \<Longrightarrow> match_inv v"
proof (induction rule: played.induct)
  case (p_tick v dt v')
  then show ?case using match_tick [of v dt] by simp
next
  case (p_input v i s)
  then show ?case using match_input by blast
next
  case (p_outbox v s)
  then show ?case by (subst match_inv_outputs [of _ v]) (simp_all add: take_outbox_def)
next
  case (p_spies v s)
  then show ?case by (subst match_inv_outputs [of _ v]) (simp_all add: take_spy_launches_def)
next
  case (p_dirty v)
  then show ?case by (subst match_inv_outputs [of _ v]) (simp_all add: take_dirty_def)
qed (rule match_inv_new)

end
