(* ===== verification/Channel.thy ===== *)
theory Channel
  imports Versus Keyframe
begin

section \<open>The event channel and the promises of the match\<close>

text \<open>
  A client runs its own copy of its side's game and never sees the other side. What the relay does to
  its side reaches it as the events of the outbox. \<open>client_view\<close> forgets the two things a client does
  not share with the host: the mirror of the opponent's funds, which is withheld, and the queue of
  events, which each drains for itself.
\<close>

definition client_view :: "game \<Rightarrow> game" where
  "client_view g = g\<lparr>g_score := (g_score g)\<lparr>s_op_funds := 0\<rparr>, g_events := []\<rparr>"

lemma view_of_dress: "client_view (dress (p, q, L) g) = client_view (dress (p, q', L') g)"
  by (simp add: client_view_def dress_def)

lemma client_view_idem [simp]: "client_view (client_view g) = client_view g"
  by (simp add: client_view_def)

text \<open>Two games with the same view differ only in how one game is dressed.\<close>

lemma same_view:
  assumes "client_view g = client_view h"
  obtains k p q L q' L' where "g = dress (p, q, L) k" "h = dress (p, q', L') k" "k = client_view g"
proof -
  have s: "s_op_score (g_score g) = s_op_score (g_score h)"
    using arg_cong [OF assms, of "\<lambda>g. s_op_score (g_score g)"] by (simp add: client_view_def)
  have d: "x = dress (s_op_score (g_score x), s_op_funds (g_score x), g_events x) (client_view x)" for x
    by (simp add: client_view_def dress_def)
  show ?thesis using that [OF d [of g]] d [of h] s assms by simp
qed

lemma client_view_apply:
  assumes "client_view g = client_view h" shows "client_view (apply_to_game i g) = client_view (apply_to_game i h)"
proof -
  obtain k p q L q' L' where k: "g = dress (p, q, L) k" "h = dress (p, q', L') k" using same_view [OF assms] .
  obtain r s M s' M' where r: "redress i (p, q, L) = (r, s, M)" "redress i (p, q', L') = (r, s', M')"
    by (cases i) (auto simp: redress_def)
  show ?thesis unfolding k dress_apply r by (rule view_of_dress)
qed

lemma client_view_fold:
  "client_view g = client_view h \<Longrightarrow> client_view (fold apply_to_game is g) = client_view (fold apply_to_game is h)"
proof (induction "is" arbitrary: g h)
  case (Cons i "is")
  show ?case unfolding fold.simps comp_def by (rule Cons.IH) (rule client_view_apply [OF Cons.prems])
qed simp

lemma game_ok_view: "game_ok g \<Longrightarrow> game_ok (client_view g)"
  by (simp add: game_ok_def setup_ok_def core_ok_def flags_inv_def orient_inv_def timing_inv_def weapon_active_def
      bazaar_inv_def piece_ok_def client_view_def)

lemma client_view_tick:
  assumes "client_view g = client_view h" "tick dt g = Some g'" "game_ok g"
  obtains h' where "tick dt h = Some h'" "client_view h' = client_view g'"
proof -
  obtain k p q L q' L' where k: "g = dress (p, q, L) k" "h = dress (p, q', L') k" "k = client_view g"
    using same_view [OF assms(1)] .
  obtain k' where "tick dt k = Some k'"
    using tick_returns [OF game_ok_view [OF assms(3)], of dt] k(3) by (auto elim: returnsE)
  then have t: "tick dt (dress d k) = Some (dress d k')" for d by (rule dress_tick)
  have g': "g' = dress (p, q, L) k'" using t [of "(p, q, L)"] assms(2) k(1) by simp
  show ?thesis
    by (rule that [of "dress (p, q', L') k'"]) (simp add: k(2) t, unfold g', rule view_of_dress)
qed

lemma from_relay_view:
  "client_view (receive_op_score s l f g) = client_view (apply_to_game (from_relay (Relay_op_score s l)) g)"
  "receive_weapon t g = apply_to_game (from_relay (Relay_weapon t)) g"
  "add_funds n g = apply_to_game (from_relay (Relay_funds n)) g"
  using view_of_dress [of s f "[]" _ 0 "[]"]
  by (simp_all add: from_relay_def apply_to_game_def receive_op_score_dress with_token_def)

subsection \<open>The outbox tells all\<close>

text \<open>
  \<open>follows v v'\<close>: unless a keyframe is due, what happened to each side's game is what the new events in its
  outbox say, in their order.
\<close>

definition follows :: "versus \<Rightarrow> versus \<Rightarrow> bool" where
  "follows v v' \<longleftrightarrow> (v_dirty v \<longrightarrow> v_dirty v') \<and> (\<not> v_dirty v' \<longrightarrow> (\<forall>t. \<exists>new. v_outbox v' t = v_outbox v t @ new \<and>
     client_view (v_game t v') = client_view (fold apply_to_game (map from_relay new) (v_game t v))))"

lemma follows_refl [simp]: "follows v v"
  by (auto simp: follows_def intro: exI [of _ "[]"])

lemma follows_trans [trans]:
  assumes "follows u v" "follows v w" shows "follows u w"
  unfolding follows_def
proof (intro conjI impI allI)
  show "v_dirty u \<Longrightarrow> v_dirty w" using assms by (simp add: follows_def)
  fix t assume d: "\<not> v_dirty w"
  then have "\<not> v_dirty v" using assms(2) by (auto simp: follows_def)
  then obtain n where n: "v_outbox v t = v_outbox u t @ n"
    "client_view (v_game t v) = client_view (fold apply_to_game (map from_relay n) (v_game t u))"
    using assms(1) by (auto simp: follows_def)
  obtain m where m: "v_outbox w t = v_outbox v t @ m"
    "client_view (v_game t w) = client_view (fold apply_to_game (map from_relay m) (v_game t v))"
    using assms(2) d by (auto simp: follows_def)
  have "client_view (v_game t w) = client_view (fold apply_to_game (map from_relay (n @ m)) (v_game t u))"
    unfolding m(2) using client_view_fold [OF n(2), of "map from_relay m"] by simp
  then show "\<exists>new. v_outbox w t = v_outbox u t @ new \<and>
      client_view (v_game t w) = client_view (fold apply_to_game (map from_relay new) (v_game t u))"
    using n(1) m(1) by (intro exI [of _ "n @ m"]) simp
qed

text \<open>One side's game changes and one event says so.\<close>

lemma follows_one:
  assumes "client_view g = client_view (apply_to_game (from_relay e) (v_game s v))"
  shows "follows v (push_out s e (upd_game s (\<lambda>_. g) v))"
  unfolding follows_def
proof (intro conjI impI allI)
  fix t
  show "\<exists>new. v_outbox (push_out s e (upd_game s (\<lambda>_. g) v)) t = v_outbox v t @ new \<and>
      client_view (v_game t (push_out s e (upd_game s (\<lambda>_. g) v)))
        = client_view (fold apply_to_game (map from_relay new) (v_game t v))"
    using side_cases [of t s] assms by (intro exI [of _ "if t = s then [e] else []"]) auto
qed simp

lemma upd_game_cong: "upd_game s f v = upd_game s (\<lambda>_. f (v_game s v)) v"
  by (cases s) (simp_all add: upd_game_def v_game_def)

lemma follows_launch: "follows v (relay_launch s w v)"
proof (cases "is_spy w")
  case True
  then show ?thesis by (auto simp: follows_def relay_launch_spy intro: exI [of _ "[]"])
next
  case False
  obtain d a b where D: "deliver_weapon (v_game s v) (v_game (other_side s) v) w = (d, a, b)"
    by (cases "deliver_weapon (v_game s v) (v_game (other_side s) v) w")
  note W = relay_launch_weapon [OF False D]
  define n where "n t = (if t = s then (case queued_on_attacker d of Some w \<Rightarrow> [Relay_weapon w] | None \<Rightarrow> []) @
         (case attacker_credit d of Some n \<Rightarrow> [Relay_funds n] | None \<Rightarrow> [])
       else (case queued_on_victim d of Some w \<Rightarrow> [Relay_weapon w] | None \<Rightarrow> []))" for t
  have "needs_keyframe d \<or> (a = fold apply_to_game (map from_relay (n s)) (v_game s v) \<and>
      b = fold apply_to_game (map from_relay (n (other_side s))) (v_game (other_side s) v))"
    by (rule deliver_cases [where a = "v_game s v" and v = "v_game (other_side s) v" and t = w])
      (use D in \<open>auto simp: n_def delivery_default_def from_relay_view(2,3)\<close>)
  then show ?thesis
    unfolding follows_def using W(4)
  proof (intro conjI impI allI, goal_cases)
    case (2 t)
    then show ?case using W(1,2) W(5) [of t] side_cases [of t s] by (intro exI [of _ "n t"]) (auto simp: n_def)
  qed simp
qed

lemma follows_step: "follows v (relay_step s e v)"
proof (cases e)
  case (WeaponLaunched w)
  then show ?thesis by (simp add: relay_step_def follows_launch)
next
  case (Scored a b c)
  have "follows v (push_out (other_side s) (Relay_op_score a b) (upd_game (other_side s) (receive_op_score a b c) v))"
    by (subst upd_game_cong, rule follows_one) (rule from_relay_view)
  then show ?thesis by (simp add: Scored relay_step_def)
next
  case (FundsStolen n)
  have "follows v (push_out (other_side s) (Relay_funds n) (upd_game (other_side s) (add_funds n) v))"
    by (subst upd_game_cong, rule follows_one) (simp add: from_relay_view)
  then show ?thesis by (simp add: FundsStolen relay_step_def)
qed (auto simp: relay_step_def follows_def intro: exI [of _ "[]"])

lemma follows_fold: "follows v (fold (relay_step s) es v)"
  by (induction es arbitrary: v) (auto intro: follows_trans follows_step)

lemma follows_relay: "follows v (relay v)"
proof -
  have "follows v (upd_game s (\<lambda>g. snd (take_events g)) v)" for s v
  proof -
    have "client_view (v_game t (upd_game s (\<lambda>g. snd (take_events g)) v)) = client_view (v_game t v)" for t
      using side_cases [of t s] by (auto simp: take_events_def client_view_def)
    then show ?thesis by (auto simp: follows_def intro: exI [of _ "[]"])
  qed
  then have "follows v (relay_half s v)" for s v
    unfolding relay_half_def by (rule follows_trans [OF _ follows_fold])
  then show ?thesis unfolding relay_def by (rule follows_trans) (rule \<open>\<And>v s. follows v (relay_half s v)\<close>)
qed

subsection \<open>The match\<close>

text \<open>
  C26. A match never stops its host: however its two games got where they are, a tick of any length
  returns. A decided match stays exactly as it is; while either side is in the bazaar the tick moves no
  piece and locks none on either board.
\<close>

theorem match_ticks:
  assumes "played v"
  shows "\<exists>v'. versus_tick dt v = Some v' \<and> played v' \<and> (v_result v \<noteq> 0 \<longrightarrow> v' = v) \<and> v_result v' \<in> {0, 1, 2} \<and>
    (g_in_bazaar (v_a v) \<or> g_in_bazaar (v_b v) \<longrightarrow>
       (\<forall>s. motion (v_game s v') = motion (v_game s v) \<and> g_lock_seq (v_game s v') = g_lock_seq (v_game s v)))"
proof -
  note m = played_inv [OF assms]
  obtain v' where v': "versus_tick dt v = Some v'" "match_inv v'" using match_tick [OF m] by (rule returnsE)
  have "safe v" using m by (simp add: match_inv_def)
  then have "g_in_bazaar (v_a v) \<or> g_in_bazaar (v_b v) \<Longrightarrow>
      motion (v_game s v') = motion (v_game s v) \<and> g_lock_seq (v_game s v') = g_lock_seq (v_game s v)" for s
    using v'(1) relay_motion_kept by (auto simp: versus_tick_def split: if_splits)
  moreover have "v_result v \<noteq> 0 \<Longrightarrow> v' = v" using v'(1) by (simp add: versus_tick_def)
  ultimately show ?thesis
    using v' p_tick [OF assms v'(1)] by (intro exI [of _ v']) (auto simp: match_inv_def)
qed

lemma played_new: obtains v where "versus_new a b = Some v" "played v" "v_result v = 0"
proof -
  obtain g h where gh: "game_new a = Some g" "game_new b = Some h" by (metis reachable_new)
  let ?v = "\<lparr>v_a = g, v_b = h, v_result = 0, v_dirty = False, v_spy = (\<lambda>_. []), v_outbox = (\<lambda>_. [])\<rparr>"
  have "versus_new a b = Some ?v" by (simp add: versus_new_def gh)
  then show ?thesis by (intro that [of ?v] p_new) simp_all
qed

lemma game_new_fields:
  assumes "game_new seed = Some g"
  shows "\<not> g_in_bazaar g" "\<not> g_paused g" "g_arsenal g = arsenal_new" "set (g_events g) \<subseteq> {GameOver}"
    "g_score g = score_default"
  using assms
  by (auto simp: game_new_def start_game_def spawn_def game_fresh_def Let_def elim!: bind_eq_SomeE
      split: prod.splits if_splits)

lemma versus_new_fields:
  assumes "versus_new x y = Some v"
  shows "\<not> g_in_bazaar (v_a v)" "\<not> g_in_bazaar (v_b v)" "v_outbox v s = []" "\<not> v_dirty v"
    "set (g_events (v_game s v)) \<subseteq> {GameOver}" "g_score (v_game s v) = score_default"
proof -
  obtain a b where g: "game_new x = Some a" "game_new y = Some b"
    and v: "v = \<lparr>v_a = a, v_b = b, v_result = 0, v_dirty = False, v_spy = (\<lambda>_. []), v_outbox = (\<lambda>_. [])\<rparr>"
    using assms by (auto simp: versus_new_def elim!: bind_eq_SomeE)
  note A = game_new_fields [OF g(1)] and B = game_new_fields [OF g(2)]
  show "\<not> g_in_bazaar (v_a v)" "\<not> g_in_bazaar (v_b v)" "v_outbox v s = []" "\<not> v_dirty v"
    "set (g_events (v_game s v)) \<subseteq> {GameOver}" "g_score (v_game s v) = score_default"
    using A B by (cases s; simp add: v v_game_def)+
qed

lemma only_over: "set E \<subseteq> {GameOver} \<Longrightarrow> \<exists>r. fold (relay_step s) E v = v\<lparr>v_result := r\<rparr>"
proof (induction E arbitrary: v)
  case Nil
  show ?case by (intro exI [of _ "v_result v"]) simp
next
  case (Cons e E)
  obtain q where q: "relay_step s e v = v\<lparr>v_result := q\<rparr>"
    using Cons.prems by (cases "v_result v = 0") (auto simp: relay_step_def intro: that [of "v_result v"])
  then show ?case using Cons.IH [of "v\<lparr>v_result := q\<rparr>"] Cons.prems by auto
qed

theorem match_ticks_witness:
  "\<exists>v v'. versus_new 1 2 = Some v \<and> versus_tick 16 (upd_game Side_A (apply_to_game (ReceiveWeapon 3)) v) = Some v'"
proof -
  obtain v where "versus_new 1 2 = Some v" "played v" by (rule played_new)
  then show ?thesis using match_ticks [OF p_input, of v "ReceiveWeapon 3" 16 Side_A] by auto
qed

text \<open>
  The result is the boards' doing and nothing else: after a tick of an open match the result is set
  exactly when a board has topped out in it, against that board's side, and against side A when both
  have; and each side then has the other's exact number of cleared lines.
\<close>

theorem match_decided:
  assumes "played v" "v_result v = 0" "\<not> g_in_bazaar (v_a v)" "\<not> g_in_bazaar (v_b v)"
    and "tick dt (v_a v) = Some a" "tick dt (v_b v) = Some b" "versus_tick dt v = Some v'"
  shows "v_result v' = (if g_phase a = Over then 2 else if g_phase b = Over then 1 else 0) \<and>
    s_op_lines (g_score (v_a v')) = s_lines (g_score (v_b v')) \<and> s_op_lines (g_score (v_b v')) = s_lines (g_score (v_a v'))"
proof -
  let ?u = "v\<lparr>v_a := a, v_b := b\<rparr>"
  have t: "v' = relay ?u" "safe ?u" "\<And>s. informs (op_lines (v_game (other_side s) ?u), False) (v_game s ?u)"
    using versus_tick_law [OF played_inv [OF assms(1)] assms(2-4), of dt] assms(5-7) by auto
  note R = relay_law [OF t(2,3)]
  have "op_lines (v_game (other_side s) v') = s_lines (g_score (v_game s v'))" for s
    using R(2,3) [of s] assms(2) arg_cong [OF R(2), of fst s] by (simp add: t(1) truth_def)
  from this [of Side_A] this [of Side_B] show ?thesis
    using R(4) assms(2) by (simp add: t(1) op_lines_def v_game_def)
qed

theorem match_decided_witness:
  "\<exists>v v'. versus_new 1 2 = Some v \<and> versus_tick 0 v = Some v' \<and>
     v_result v' = (if g_phase (v_a v) = Over then 2 else if g_phase (v_b v) = Over then 1 else 0)"
proof -
  obtain v where v: "versus_new 1 2 = Some v" "played v" "v_result v = 0" by (rule played_new)
  obtain v' where v': "versus_tick 0 v = Some v'" using match_tick [OF played_inv [OF v(2)]] by (rule returnsE)
  have "tick 0 g = Some g" for g by (simp add: tick_def)
  then show ?thesis
    using match_decided [OF v(2,3) versus_new_fields(1,2) [OF v(1)], of 0 "v_a v" "v_b v" v'] v(1) v' by auto
qed

text \<open>
  C11. The event channel keeps a client in lockstep without a keyframe. Let a client's game agree with its side of the
  match, with nothing left in its outbox. If the host's tick asks for no keyframe, then a client that ticks as the host
  does - not at all at a barrier, when either side shops, or once the match is decided - and applies the events of its
  outbox agrees again, up to the opponent's funds and the drained events; the hash that both compare is then the
  same. (A client whose clock runs on at a barrier is ahead until the keyframe that ends it.)
\<close>

theorem event_channel:
  assumes "played v" "v_outbox v s = []" "versus_tick dt v = Some v'" "\<not> v_dirty v'" "client_view c = client_view (v_game s v)"
  shows "\<exists>c'. (if v_result v = 0 \<and> \<not> g_in_bazaar (v_a v) \<and> \<not> g_in_bazaar (v_b v) then tick dt c = Some c' else c' = c) \<and>
    client_view (fold apply_to_game (map from_relay (v_outbox v' s)) c') = client_view (v_game s v') \<and>
    lock_hash_of (fold apply_to_game (map from_relay (v_outbox v' s)) c') = lock_hash_of (v_game s v')"
proof -
  have hash: "lock_hash_of (client_view g) = lock_hash_of g" for g
    by (simp add: lock_hash_of_def client_view_def Let_def export_board_def export_arsenal_def)
  have caught_up: "client_view (fold apply_to_game (map from_relay (v_outbox v' s)) c') = client_view (v_game s v') \<and>
      lock_hash_of (fold apply_to_game (map from_relay (v_outbox v' s)) c') = lock_hash_of (v_game s v')"
    if prem: "follows u v'" "v_outbox u s = []" "client_view c' = client_view (v_game s u)" for u c'
  proof -
    have "client_view (fold apply_to_game (map from_relay (v_outbox v' s)) c') = client_view (v_game s v')"
    proof -
      obtain new where "v_outbox v' s = v_outbox u s @ new"
        "client_view (v_game s v') = client_view (fold apply_to_game (map from_relay new) (v_game s u))"
        using prem(1) assms(4) unfolding follows_def by blast
      then show ?thesis using prem(2) client_view_fold [OF prem(3), of "map from_relay new"] by simp
    qed
    then show ?thesis using hash by metis
  qed
  consider "v_result v \<noteq> 0" "v' = v"
    | "v_result v = 0" "g_in_bazaar (v_a v) \<or> g_in_bazaar (v_b v)" "v' = relay v"
    | "v_result v = 0" "\<not> g_in_bazaar (v_a v)" "\<not> g_in_bazaar (v_b v)"
    using assms(3) by (auto simp: versus_tick_def split: if_splits)
  then show ?thesis
  proof cases
    case 1
    have "client_view c = client_view (v_game s v') \<and> lock_hash_of c = lock_hash_of (v_game s v')"
      using assms(5) 1(2) hash by metis
    then show ?thesis using 1 assms(2) by simp
  next
    case 2
    have "follows v v'" unfolding 2(3) by (rule follows_relay)
    then show ?thesis using caught_up [OF _ assms(2,5)] 2(2) by auto
  next
    case 3
    obtain a b where t: "tick dt (v_a v) = Some a" "tick dt (v_b v) = Some b" "v' = relay (v\<lparr>v_a := a, v_b := b\<rparr>)"
      by (rule versus_tick_law [OF played_inv [OF assms(1)] 3, of dt]) (use assms(3) in auto)
    let ?u = "v\<lparr>v_a := a, v_b := b\<rparr>"
    have ok: "game_ok (v_game s v)" using played_inv [OF assms(1)] by (simp add: match_inv_def safeD reachable_ok)
    have g: "tick dt (v_game s v) = Some (v_game s ?u)" using t(1,2) by (cases s) (simp_all add: v_game_def)
    obtain c' where c': "tick dt c = Some c'" "client_view c' = client_view (v_game s ?u)"
      using client_view_tick [OF assms(5) [symmetric] g ok] .
    have "follows ?u v'" "v_outbox ?u s = []" unfolding t(3) using follows_relay assms(2) by simp_all
    then show ?thesis using caught_up [of ?u c'] c' 3 by auto
  qed
qed

theorem event_channel_witness:
  "\<exists>v v' c'. versus_new 1 2 = Some v \<and> versus_tick 0 (upd_game Side_A (apply_to_game (AddFunds 5)) v) = Some v' \<and>
     v_outbox v' Side_B = [Relay_op_score 0 0] \<and>
     tick 0 (v_game Side_B v) = Some c' \<and> lock_hash_of (receive_op_score 0 0 0 c') = lock_hash_of (v_game Side_B v')"
proof -
  obtain v where v: "versus_new 1 2 = Some v" "played v" "v_result v = 0" by (rule played_new)
  let ?v = "upd_game Side_A (apply_to_game (AddFunds 5)) v"
  note F = versus_new_fields [OF v(1)]
  have p: "played ?v" by (rule p_input [OF v(2)]) simp
  obtain v' where v': "versus_tick 0 ?v = Some v'" using match_tick [OF played_inv [OF p]] by (rule returnsE)
  have a: "v_a ?v = add_funds 5 (v_a v)" "v_b ?v = v_b v" by (simp_all add: upd_game_def apply_to_game_def)
  have baz: "\<not> g_in_bazaar (v_a ?v)" "\<not> g_in_bazaar (v_b ?v)" using F(1,2) by (simp_all add: a add_funds_def)
  have "v' = relay ?v" using v' v(3) baz by (simp add: versus_tick_def tick_def)
  obtain E where E: "g_events (v_a ?v) = E @ [Scored 0 0 5]" "set E \<subseteq> {GameOver}"
    using F(5) [of Side_A] F(6) [of Side_A]
    by (simp add: a add_funds_def push_scored_def add_score_funds_def v_game_def score_default_def)
  have inv: "bazaar_inv (v_b v)" "op_lines (v_b v) = 0"
    using played_inv [OF v(2)] F(6) [of Side_B]
    by (auto simp: match_inv_def safe_def v_game_def op_lines_def score_default_def game_ok_def setup_ok_def dest: reachable_ok)
  have "g_events (receive_op_score 0 0 5 (v_b v)) = g_events (v_b v)"
    using op_lines_arrive_same [OF inv(1)] inv(2) by (simp add: receive_op_score_dress op_lines_def)
  then have b: "set (g_events (receive_op_score 0 0 5 (v_b v))) \<subseteq> {GameOver}" using F(5) [of Side_B] by (simp add: v_game_def)
  obtain r where r: "fold (relay_step Side_A) E (upd_game Side_A (\<lambda>g. snd (take_events g)) ?v)
      = (upd_game Side_A (\<lambda>g. snd (take_events g)) ?v)\<lparr>v_result := r\<rparr>" using only_over [OF E(2)] by blast
  let ?w = "relay_half Side_A ?v"
  have w: "v_b ?w = receive_op_score 0 0 5 (v_b v)" "v_outbox ?w Side_B = [Relay_op_score 0 0]" "\<not> v_dirty ?w"
    using E(1) r F(3) [of Side_B] F(4)
    by (simp_all add: relay_half_def v_game_def relay_step_def upd_game_def push_out_def)
  obtain q where "fold (relay_step Side_B) (g_events (v_b ?w)) (upd_game Side_B (\<lambda>g. snd (take_events g)) ?w)
      = (upd_game Side_B (\<lambda>g. snd (take_events g)) ?w)\<lparr>v_result := q\<rparr>" using only_over [OF b] by (auto simp: w(1))
  then have "\<not> v_dirty (relay ?v) \<and> v_outbox (relay ?v) Side_B = [Relay_op_score 0 0]"
    using w by (simp add: relay_def relay_half_def [of Side_B] v_game_def)
  then have out: "\<not> v_dirty v'" "v_outbox v' Side_B = [Relay_op_score 0 0]" using \<open>v' = relay ?v\<close> by simp_all
  have "v_result ?v = 0" "v_outbox ?v Side_B = []" "v_game Side_B ?v = v_game Side_B v"
    using v(3) F(3) [of Side_B] by (simp_all add: v_game_def a(2))
  then obtain c' where "tick 0 (v_game Side_B v) = Some c'"
    "lock_hash_of (fold apply_to_game (map from_relay (v_outbox v' Side_B)) c') = lock_hash_of (v_game Side_B v')"
    using event_channel [OF p _ v' out(1) refl] baz by fastforce
  then show ?thesis
    using v(1) v' out(2) by (auto simp: from_relay_def apply_to_game_def)
qed

text \<open>
  Swap exchanges the boards as they were at the launch: what each side has waiting is the other's
  board, and when it next flushes its queue, with nothing else waiting and neither Bottle nor Upbyside
  on, its squares become exactly those of the other's board at the launch, whatever happened in between.
\<close>

theorem swap_exchanges:
  assumes "std_board (g_board a)" "std_board (g_board b)" "\<not> weapon_active a Mirror"
    and "deliver_weapon a b Swap = (d, a', b')"
    and "g_pending_board h = g_pending_board b'" "g_pending_board k = g_pending_board a'"
    and "g_pending h = []" "std_board (g_board h)" "\<not> weapon_active h Bottle" "\<not> weapon_active h Upbyside"
    and "g_pending k = []" "std_board (g_board k)" "\<not> weapon_active k Bottle" "\<not> weapon_active k Upbyside"
  shows "\<exists>h' k'. flush_pending h = Some h' \<and> b_cells (g_board h') = b_cells (g_board a) \<and>
    flush_pending k = Some k' \<and> b_cells (g_board k') = b_cells (g_board b)"
proof -
  have pb: "g_pending_board h = Some (export_board a)" "g_pending_board k = Some (export_board b)"
    using assms(3-6) by (auto simp: deliver_weapon_def apply_weapon_def queue_board_swap_def Let_def)
  have flush: "\<exists>g'. flush_pending g = Some g' \<and> b_cells (g_board g') = b_cells (g_board x)"
    if g: "std_board (g_board x)" "g_pending_board g = Some (export_board x)" "g_pending g = []" "std_board (g_board g)"
      "\<not> weapon_active g Bottle" "\<not> weapon_active g Upbyside" for g x
  proof -
    let ?g = "g\<lparr>g_pending := [], g_pending_board := None\<rparr>"
    obtain d where d: "import_board (export_board x) ?g = ?g\<lparr>g_board := d\<rparr>" "b_cells d = b_cells (g_board x)"
      using import_export_board [OF g(1), of ?g] g(4) by auto
    show ?thesis
      using g(2,3,5,6) d by (simp add: flush_pending_def force_weapon_off_eq weapon_active_def)
  qed
  show ?thesis using flush [OF assms(1) pb(1)] flush [OF assms(2) pb(2)] assms(7-14) by blast
qed

text \<open>A board with one die on it, for the exchange.\<close>

definition die_game :: game where
  "die_game = (game_fresh 7)\<lparr>g_board := set_cell (board_standard False) 3 27 (Some (die_cell 4))\<rparr>"

theorem swap_exchanges_witness:
  "\<exists>h k. flush_pending (queue_board_swap (export_board die_game) (game_fresh 9)) = Some h \<and>
     flush_pending (queue_board_swap (export_board (game_fresh 9)) die_game) = Some k \<and>
     b_cells (g_board h) = b_cells (g_board die_game) \<and> b_cells (g_board k) = b_cells (g_board (game_fresh 9))"
proof -
  have off: "\<not> weapon_active die_game t" "\<not> weapon_active (game_fresh 9) t" for t
    by (simp_all add: die_game_def weapon_active_def game_fresh_def)
  have std: "std_board (g_board die_game)" "std_board (g_board (game_fresh 9))"
    by (simp_all add: die_game_def game_fresh_def)
  have q: "g_pending_board (queue_board_swap c g) = Some c" "g_pending (queue_board_swap c g) = g_pending g"
    "g_board (queue_board_swap c g) = g_board g" "weapon_active (queue_board_swap c g) t = weapon_active g t" for c g t
    by (simp_all add: queue_board_swap_def weapon_active_def)
  have "g_pending die_game = []" "g_pending (game_fresh 9) = []" by (simp_all add: die_game_def game_fresh_def)
  moreover have "deliver_weapon die_game (game_fresh 9) Swap = (delivery_default\<lparr>needs_keyframe := True\<rparr>,
      queue_board_swap (export_board (game_fresh 9)) die_game, queue_board_swap (export_board die_game) (game_fresh 9))"
    using off by (simp add: deliver_weapon_def apply_weapon_def Let_def)
  ultimately show ?thesis
    using swap_exchanges [OF std off(1), of _ _ _ "queue_board_swap (export_board die_game) (game_fresh 9)"
        "queue_board_swap (export_board (game_fresh 9)) die_game"] std off by (auto simp: q)
qed

end
