(* ===== verification/Replay.thy ===== *)
theory Replay
  imports Versus
begin

section \<open>Recordings and their playback\<close>

text \<open>
  \<open>bt-replay/src/lib.rs\<close>: the recorder of one player's inputs, the player of such a recording, and the
  player of a recorded match. Strings stand for themselves; JSON is left to serde. The engine of a
  recording against the computer is \<open>bt-ai\<close>'s \<open>VsComputer\<close>; its operations are the parameter \<open>vs_ops\<close>.
\<close>

subsection \<open>Recorder\<close>

definition REPLAY_VERSION :: u32 where
  "REPLAY_VERSION = 1"

datatype mode = Practice | Vs_Computer | Vs_Player

record frame =
  fr_tick :: u32
  fr_input :: input

record replay =
  re_version :: u32
  re_seed :: u32
  re_mode :: mode
  re_ai_level :: "u32 option"
  re_dt_ms :: i32
  re_engine_sha :: string
  re_tick_count :: u32
  re_frames :: "frame list"
  re_title :: "string option"

record recorder =
  rc_seed :: u32
  rc_mode :: mode
  rc_ai_level :: "u32 option"
  rc_dt_ms :: i32
  rc_engine_sha :: string
  rc_tick :: u32
  rc_frames :: "frame list"
  rc_title :: "string option"

definition recorder_new :: "u32 \<Rightarrow> mode \<Rightarrow> u32 option \<Rightarrow> i32 \<Rightarrow> string \<Rightarrow> recorder" where
  "recorder_new seed m ai_level dt_ms engine_sha =
     \<lparr>rc_seed = seed, rc_mode = m, rc_ai_level = ai_level, rc_dt_ms = dt_ms, rc_engine_sha = engine_sha,
      rc_tick = 0, rc_frames = [], rc_title = None\<rparr>"

definition set_title :: "string \<Rightarrow> recorder \<Rightarrow> recorder" where
  "set_title title r = r\<lparr>rc_title := Some title\<rparr>"

definition record_input :: "input \<Rightarrow> recorder \<Rightarrow> recorder" where
  "record_input i r = r\<lparr>rc_frames := rc_frames r @ [\<lparr>fr_tick = rc_tick r, fr_input = i\<rparr>]\<rparr>"

definition saturating_add_u32 :: "u32 \<Rightarrow> u32 \<Rightarrow> u32" where
  "saturating_add_u32 a b = (if uint a + uint b < 2 ^ 32 then a + b else - 1)"

definition on_tick :: "recorder \<Rightarrow> recorder" where
  "on_tick r = r\<lparr>rc_tick := saturating_add_u32 (rc_tick r) 1\<rparr>"

definition to_replay :: "recorder \<Rightarrow> replay" where
  "to_replay r =
     \<lparr>re_version = REPLAY_VERSION, re_seed = rc_seed r, re_mode = rc_mode r, re_ai_level = rc_ai_level r,
      re_dt_ms = rc_dt_ms r, re_engine_sha = rc_engine_sha r, re_tick_count = rc_tick r,
      re_frames = rc_frames r, re_title = rc_title r\<rparr>"

subsection \<open>Playing one board\<close>

record 'vs vs_ops =
  vs_new :: "u64 \<Rightarrow> nat \<Rightarrow> 'vs option"
  vs_tick :: "i32 \<Rightarrow> 'vs \<Rightarrow> 'vs option"
  vs_input :: "input \<Rightarrow> 'vs \<Rightarrow> 'vs"
  vs_drain :: "'vs \<Rightarrow> 'vs"

datatype 'vs engine = Single game | Vs 'vs

record 'vs replay_player =
  rp_engine :: "'vs engine"
  rp_replay :: replay
  rp_executed :: u32
  rp_cursor :: nat

definition rp_new :: "'vs vs_ops \<Rightarrow> replay \<Rightarrow> 'vs replay_player option" where
  "rp_new vs r =
     (let seed = ucast (re_seed r) :: u64 in
      do {
        e \<leftarrow> (case re_mode r of
             Vs_Computer \<Rightarrow> map_option Vs (vs_new vs seed (case re_ai_level r of Some l \<Rightarrow> unat l | None \<Rightarrow> 0))
           | _ \<Rightarrow> map_option Single (game_new seed));
        Some \<lparr>rp_engine = e, rp_replay = r, rp_executed = 0, rp_cursor = 0\<rparr>
      })"

definition rp_apply :: "'vs vs_ops \<Rightarrow> input \<Rightarrow> 'vs engine \<Rightarrow> 'vs engine" where
  "rp_apply vs i e = (case e of Single g \<Rightarrow> Single (apply_to_game i g) | Vs v \<Rightarrow> Vs (vs_input vs i v))"

text \<open>The inner loop: the frames from the cursor on that are stamped with the current tick.\<close>

fun rp_due :: "'vs vs_ops \<Rightarrow> u32 \<Rightarrow> frame list \<Rightarrow> 'vs engine \<times> nat \<Rightarrow> 'vs engine \<times> nat" where
  "rp_due vs now [] s = s"
| "rp_due vs now (f # fs) s =
     (if fr_tick f = now then rp_due vs now fs (rp_apply vs (fr_input f) (fst s), snd s + 1) else s)"

definition rp_tick :: "'vs vs_ops \<Rightarrow> i32 \<Rightarrow> 'vs engine \<Rightarrow> 'vs engine option" where
  "rp_tick vs dt e = (case e of
       Single g \<Rightarrow> map_option (\<lambda>g. Single (snd (take_events g))) (tick dt g)
     | Vs v \<Rightarrow> map_option (\<lambda>v. Vs (vs_drain vs v)) (vs_tick vs dt v))"

definition rp_step :: "'vs vs_ops \<Rightarrow> 'vs replay_player \<Rightarrow> (bool \<times> 'vs replay_player) option" where
  "rp_step vs p =
     (if rp_executed p \<ge> re_tick_count (rp_replay p) then Some (False, p)
      else
        (let (e, c) = rp_due vs (rp_executed p) (drop (rp_cursor p) (re_frames (rp_replay p))) (rp_engine p, rp_cursor p) in
         do {
           e \<leftarrow> rp_tick vs (re_dt_ms (rp_replay p)) e;
           Some (True, p\<lparr>rp_engine := e, rp_executed := rp_executed p + 1, rp_cursor := c\<rparr>)
         }))"

partial_function (option) rp_run_to_end :: "'vs vs_ops \<Rightarrow> 'vs replay_player \<Rightarrow> 'vs replay_player option" where
  "rp_run_to_end vs p = Option.bind (rp_step vs p) (\<lambda>(more, p). if more then rp_run_to_end vs p else Some p)"

partial_function (option) rp_seek_loop :: "'vs vs_ops \<Rightarrow> u32 \<Rightarrow> 'vs replay_player \<Rightarrow> 'vs replay_player option" where
  "rp_seek_loop vs target p =
     (if rp_executed p < target
      then Option.bind (rp_step vs p) (\<lambda>(more, p). if more then rp_seek_loop vs target p else Some p) else Some p)"

definition rp_seek :: "'vs vs_ops \<Rightarrow> u32 \<Rightarrow> 'vs replay_player \<Rightarrow> 'vs replay_player option" where
  "rp_seek vs target p =
     (let target = min target (re_tick_count (rp_replay p)) in
      Option.bind (if target < rp_executed p then rp_new vs (rp_replay p) else Some p) (rp_seek_loop vs target))"

subsection \<open>Playing a match\<close>

record versus_frame =
  vf_tick :: u32
  vf_side :: u8
  vf_input :: input

record versus_replay =
  vr_version :: u32
  vr_seed_a :: u32
  vr_seed_b :: u32
  vr_dt_ms :: i32
  vr_engine_sha :: string
  vr_tick_count :: u32
  vr_frames :: "versus_frame list"
  vr_title :: "string option"

record versus_player =
  vp_versus :: versus
  vp_replay :: versus_replay
  vp_executed :: u32
  vp_cursor :: nat

definition vp_new :: "versus_replay \<Rightarrow> versus_player option" where
  "vp_new r = do {
     v \<leftarrow> versus_new (ucast (vr_seed_a r)) (ucast (vr_seed_b r));
     Some \<lparr>vp_versus = v, vp_replay = r, vp_executed = 0, vp_cursor = 0\<rparr>
   }"

definition vf_apply :: "versus_frame \<Rightarrow> versus \<Rightarrow> versus" where
  "vf_apply f v = (let s = (if vf_side f = 0 then Side_A else Side_B) in upd_game s (apply_to_game (vf_input f)) v)"

fun vp_due :: "u32 \<Rightarrow> versus_frame list \<Rightarrow> versus \<times> nat \<Rightarrow> versus \<times> nat" where
  "vp_due now [] s = s"
| "vp_due now (f # fs) s = (if vf_tick f = now then vp_due now fs (vf_apply f (fst s), snd s + 1) else s)"

text \<open>The tick of a playback drains both sides' events.\<close>

definition vp_tick :: "i32 \<Rightarrow> versus \<Rightarrow> versus option" where
  "vp_tick dt v = map_option (\<lambda>v. upd_game Side_B (\<lambda>g. snd (take_events g)) (upd_game Side_A (\<lambda>g. snd (take_events g)) v))
     (versus_tick dt v)"

definition vp_step :: "versus_player \<Rightarrow> (bool \<times> versus_player) option" where
  "vp_step p =
     (if vp_executed p \<ge> vr_tick_count (vp_replay p) then Some (False, p)
      else
        (let (v, c) = vp_due (vp_executed p) (drop (vp_cursor p) (vr_frames (vp_replay p))) (vp_versus p, vp_cursor p) in
         do {
           v \<leftarrow> vp_tick (vr_dt_ms (vp_replay p)) v;
           Some (True, p\<lparr>vp_versus := v, vp_executed := vp_executed p + 1, vp_cursor := c\<rparr>)
         }))"

partial_function (option) vp_run_to_end :: "versus_player \<Rightarrow> versus_player option" where
  "vp_run_to_end p = Option.bind (vp_step p) (\<lambda>(more, p). if more then vp_run_to_end p else Some p)"

partial_function (option) vp_seek_loop :: "u32 \<Rightarrow> versus_player \<Rightarrow> versus_player option" where
  "vp_seek_loop target p =
     (if vp_executed p < target
      then Option.bind (vp_step p) (\<lambda>(more, p). if more then vp_seek_loop target p else Some p) else Some p)"

definition vp_seek :: "u32 \<Rightarrow> versus_player \<Rightarrow> versus_player option" where
  "vp_seek target p =
     (let target = min target (vr_tick_count (vp_replay p)) in
      Option.bind (if target < vp_executed p then vp_new (vp_replay p) else Some p) (vp_seek_loop target))"

end
