(* ===== verification/Playback.thy ===== *)
theory Playback
  imports Replay Channel
begin

section \<open>What a playback promises\<close>

subsection \<open>The timeline of a recording\<close>

text \<open>
  The specification of both players: the engine after \<open>n\<close> ticks, where the inputs stamped \<open>k\<close> are
  applied, in their order, just before tick number \<open>k\<close>.
\<close>

fun timeline :: "('f \<Rightarrow> u32) \<Rightarrow> ('f \<Rightarrow> 'e \<Rightarrow> 'e) \<Rightarrow> ('e \<Rightarrow> 'e option) \<Rightarrow> 'f list \<Rightarrow> 'e \<Rightarrow> nat \<Rightarrow> 'e option" where
  "timeline stamp app adv fs e 0 = Some e"
| "timeline stamp app adv fs e (Suc n) =
     do { e \<leftarrow> timeline stamp app adv fs e n; adv (fold app (filter (\<lambda>f. unat (stamp f) = n) fs) e) }"

primrec steps :: "('p \<Rightarrow> (bool \<times> 'p) option) \<Rightarrow> nat \<Rightarrow> 'p \<Rightarrow> 'p option" where
  "steps s 0 p = Some p"
| "steps s (Suc n) p = do { p \<leftarrow> steps s n p; map_option snd (s p) }"

lemma steps_add: "steps s (m + n) p = do { p \<leftarrow> steps s m p; steps s n p }"
proof (induction n)
  case (Suc n)
  have "steps s (m + Suc n) p = do { p \<leftarrow> do { p \<leftarrow> steps s m p; steps s n p }; map_option snd (s p) }"
    by (simp add: Suc [symmetric])
  then show ?case by (cases "steps s m p") simp_all
qed (cases "steps s m p", simp_all)

lemma steps_first: "steps s (Suc n) p = do { p \<leftarrow> map_option snd (s p); steps s n p }"
  using steps_add [of s "Suc 0" n p] by simp

lemma stamped_next:
  fixes s :: "'f \<Rightarrow> nat"
  assumes "sorted (map s fs)"
  shows "takeWhile (\<lambda>f. s f = n) (drop (length (filter (\<lambda>f. s f < n) fs)) fs) = filter (\<lambda>f. s f = n) fs"
  using assms
proof (induction fs)
  case (Cons f fs)
  then have le: "\<And>g. g \<in> set fs \<Longrightarrow> s f \<le> s g" and IH: "takeWhile (\<lambda>f. s f = n) (drop (length (filter (\<lambda>f. s f < n) fs)) fs) = filter (\<lambda>f. s f = n) fs"
    by simp_all
  have none: "n \<le> s f \<Longrightarrow> filter (\<lambda>f. s f < n) fs = []" using le by (force simp: filter_empty_conv)
  have "n < s f \<Longrightarrow> filter (\<lambda>f. s f = n) fs = []" using le by (force simp: filter_empty_conv)
  then show ?case using IH none by (cases "s f" n rule: linorder_cases) simp_all
qed simp

lemma length_less_Suc:
  fixes s :: "'f \<Rightarrow> nat"
  shows "length (filter (\<lambda>f. s f < Suc n) fs) = length (filter (\<lambda>f. s f < n) fs) + length (filter (\<lambda>f. s f = n) fs)"
  by (induction fs) (auto simp: less_Suc_eq)

lemma unat_suc_less:
  fixes a b :: u32
  assumes "a < b" shows "unat (a + 1) = Suc (unat a)"
proof -
  have "unat b < 2 ^ 32" by (rule order.strict_trans2 [OF unsigned_less]) simp
  then have "unat a + 1 < 2 ^ 32" using assms by (simp add: word_less_nat_alt)
  then show ?thesis by (simp add: unat_word_ariths)
qed

subsection \<open>One law for both players\<close>

text \<open>
  The interface of a player of recordings: its position and cursor in the recording it holds, one step,
  and the loops the source builds from it.
\<close>

locale playback =
  fixes step :: "'p \<Rightarrow> (bool \<times> 'p) option"
    and run :: "'p \<Rightarrow> 'p option"
    and seek_loop :: "u32 \<Rightarrow> 'p \<Rightarrow> 'p option"
    and seek :: "u32 \<Rightarrow> 'p \<Rightarrow> 'p option"
    and start :: "'r \<Rightarrow> 'p option"
    and held :: "'p \<Rightarrow> 'r"
    and executed :: "'p \<Rightarrow> u32"
    and cursor :: "'p \<Rightarrow> nat"
    and engine :: "'p \<Rightarrow> 'e"
    and put :: "'p \<Rightarrow> nat \<Rightarrow> 'e \<Rightarrow> 'p"
    and count :: "'r \<Rightarrow> u32"
    and frames :: "'r \<Rightarrow> 'f list"
    and stamp :: "'f \<Rightarrow> u32"
    and app :: "'f \<Rightarrow> 'e \<Rightarrow> 'e"
    and adv :: "'r \<Rightarrow> 'e \<Rightarrow> 'e option"
  assumes step_eq: "step p =
      (if count (held p) \<le> executed p then Some (False, p)
       else let due = takeWhile (\<lambda>f. stamp f = executed p) (drop (cursor p) (frames (held p)))
            in map_option (\<lambda>e. (True, put p (length due) e)) (adv (held p) (fold app due (engine p))))"
    and put_held: "held (put p k e) = held p"
    and put_executed: "executed (put p k e) = executed p + 1"
    and put_cursor: "cursor (put p k e) = cursor p + k"
    and put_engine: "engine (put p k e) = e"
    and start_at: "start r = Some p \<Longrightarrow> held p = r \<and> executed p = 0 \<and> cursor p = 0"
    and run_eq: "run p = Option.bind (step p) (\<lambda>(more, p). if more then run p else Some p)"
    and seek_loop_eq: "seek_loop t p =
      (if executed p < t then Option.bind (step p) (\<lambda>(more, p). if more then seek_loop t p else Some p) else Some p)"
    and seek_eq: "seek t p = (let t = min t (count (held p)) in
      Option.bind (if t < executed p then start (held p) else Some p) (seek_loop t))"
begin

lemma step_end: "count (held p) \<le> executed p \<Longrightarrow> step p = Some (False, p)"
  by (simp add: step_eq)

lemma step_more:
  assumes "executed p < count (held p)"
  obtains "step p = None" | q where "step p = Some (True, q)" "held q = held p" "unat (executed q) = Suc (unat (executed p))"
proof -
  have n: "unat (executed p + 1) = Suc (unat (executed p))"
    using assms by (rule unat_suc_less)
  have s: "step p = (let due = takeWhile (\<lambda>f. stamp f = executed p) (drop (cursor p) (frames (held p)))
            in map_option (\<lambda>e. (True, put p (length due) e)) (adv (held p) (fold app due (engine p))))"
    using assms unfolding step_eq [of p] by (simp only: not_le [symmetric] if_False)
  show ?thesis
  proof (cases "step p")
    case (Some r)
    then show ?thesis using that(2) n by (auto simp: s Let_def put_held put_executed)
  qed (use that(1) in simp)
qed

text \<open>Both loops are the iteration of the step.\<close>

lemma loop_steps:
  assumes "t \<le> count (held p)" "executed p \<le> t"
  shows "seek_loop t p = steps step (unat t - unat (executed p)) p"
  using assms
proof (induction "unat t - unat (executed p)" arbitrary: p)
  case 0
  then have "executed p = t" by (simp add: word_le_nat_alt word_unat_eq_iff)
  then show ?case by (subst seek_loop_eq) simp
next
  case (Suc n)
  have lt: "executed p < t" using Suc.hyps(2) by (simp add: word_less_nat_alt)
  then have "executed p < count (held p)" using Suc.prems(1) by simp
  then show ?case
  proof (cases rule: step_more)
    case 1
    then show ?thesis unfolding Suc.hyps(2) [symmetric] steps_first using lt by (subst seek_loop_eq) simp
  next
    case (2 q)
    have "n = unat t - unat (executed q)" "executed q \<le> t"
      using Suc.hyps(2) lt by (simp_all add: 2(3) word_le_nat_alt word_less_nat_alt)
    then have "seek_loop t q = steps step n q" using Suc.hyps(1) [of q] Suc.prems(1) by (simp add: 2(2))
    then show ?thesis unfolding Suc.hyps(2) [symmetric] steps_first using lt 2(1) by (subst seek_loop_eq) simp
  qed
qed

lemma run_steps:
  assumes "executed p \<le> count (held p)"
  shows "run p = steps step (unat (count (held p)) - unat (executed p)) p"
  using assms
proof (induction "unat (count (held p)) - unat (executed p)" arbitrary: p)
  case 0
  then have "step p = Some (False, p)" by (simp add: step_end word_le_nat_alt)
  then show ?case using 0 by (subst run_eq) simp
next
  case (Suc n)
  have "executed p < count (held p)" using Suc.hyps(2) by (simp add: word_less_nat_alt)
  then show ?case
  proof (cases rule: step_more)
    case 1
    then show ?thesis unfolding Suc.hyps(2) [symmetric] steps_first by (subst run_eq) simp
  next
    case (2 q)
    have "n = unat (count (held q)) - unat (executed q)" "executed q \<le> count (held q)"
      using Suc.hyps(2) Suc.prems by (simp_all add: 2(2,3) word_le_nat_alt)
    then have "run q = steps step n q" using Suc.hyps(1) [of q] by simp
    then show ?thesis unfolding Suc.hyps(2) [symmetric] steps_first using 2(1) by (subst run_eq) simp
  qed
qed

lemma steps_pos:
  assumes "steps step n p = Some q" "unat (executed p) + n \<le> unat (count (held p))"
  shows "held q = held p \<and> unat (executed q) = unat (executed p) + n"
  using assms
proof (induction n arbitrary: q)
  case (Suc n)
  obtain r where r: "steps step n p = Some r" "map_option snd (step r) = Some q"
    using Suc.prems(1) by (auto elim!: bind_eq_SomeE)
  have pos: "held r = held p" "unat (executed r) = unat (executed p) + n" using Suc.IH [OF r(1)] Suc.prems(2) by simp_all
  have "executed r < count (held r)" using pos Suc.prems(2) by (simp add: word_less_nat_alt)
  then show ?case by (cases rule: step_more) (use r(2) pos in auto)
qed simp

text \<open>Wherever the playback stands, seeking leaves it where a straight run would.\<close>

lemma seek_steps:
  assumes "start r = Some p0" "steps step n p0 = Some p" "n \<le> unat (count r)"
  shows "seek t p = steps step (unat (min t (count r))) p0"
proof -
  let ?t = "min t (count r)"
  have s: "held p0 = r" "executed p0 = 0" using start_at [OF assms(1)] by simp_all
  have p: "held p = r" "unat (executed p) = n" using steps_pos [OF assms(2)] assms(3) s by simp_all
  show ?thesis
  proof (cases "?t < executed p")
    case True
    have "seek_loop ?t p0 = steps step (unat ?t) p0" using loop_steps [of ?t p0] s by simp
    then show ?thesis using True p assms(1) by (simp add: seek_eq Let_def)
  next
    case False
    then have le: "executed p \<le> ?t" "n \<le> unat ?t" using p(2) by (simp_all add: word_le_nat_alt linorder_not_less)
    then have "seek_loop ?t p = steps step (unat ?t - n) p" using loop_steps [of ?t p] p by simp
    also have "\<dots> = steps step (unat ?t) p0"
      using steps_add [of step n "unat ?t - n" p0] assms(2) le(2) by simp
    finally show ?thesis using False p by (simp add: seek_eq Let_def)
  qed
qed

text \<open>On a recording in tick order the engine follows the timeline.\<close>

lemma steps_timeline:
  assumes "start r = Some p0" "sorted (map (\<lambda>f. unat (stamp f)) (frames r))" "n \<le> unat (count r)"
  shows "map_option engine (steps step n p0) = timeline stamp app (adv r) (frames r) (engine p0) n \<and>
    (\<forall>q. steps step n p0 = Some q \<longrightarrow> cursor q = length (filter (\<lambda>f. unat (stamp f) < n) (frames r)))"
  using assms(3)
proof (induction n)
  case 0
  then show ?case using start_at [OF assms(1)] by simp
next
  case (Suc n)
  have s: "held p0 = r" "executed p0 = 0" using start_at [OF assms(1)] by simp_all
  show ?case
  proof (cases "steps step n p0")
    case None
    then show ?thesis using Suc by (auto simp: option.map_sel)
  next
    case (Some q)
    have q: "held q = r" "unat (executed q) = n" using steps_pos [OF Some] Suc.prems s by simp_all
    have cur: "cursor q = length (filter (\<lambda>f. unat (stamp f) < n) (frames r))" using Suc Some by simp
    have eng: "timeline stamp app (adv r) (frames r) (engine p0) n = Some (engine q)" using Suc Some by simp
    have "(\<lambda>f. stamp f = executed q) = (\<lambda>f. unat (stamp f) = n)" using q(2) by (auto simp: word_unat_eq_iff)
    then have due: "takeWhile (\<lambda>f. stamp f = executed q) (drop (cursor q) (frames r)) = filter (\<lambda>f. unat (stamp f) = n) (frames r)"
      using stamped_next [OF assms(2)] by (simp add: cur)
    have lt: "\<not> count (held q) \<le> executed q" using q Suc.prems by (simp add: word_le_nat_alt)
    have "step q = map_option (\<lambda>e. (True, put q (length (filter (\<lambda>f. unat (stamp f) = n) (frames r))) e))
        (adv r (fold app (filter (\<lambda>f. unat (stamp f) = n) (frames r)) (engine q)))"
      unfolding step_eq using lt by (simp add: due q(1) Let_def)
    then show ?thesis
      using Some eng length_less_Suc [of "\<lambda>f. unat (stamp f)" n "frames r"]
      by (cases "adv r (fold app (filter (\<lambda>f. unat (stamp f) = n) (frames r)) (engine q))")
        (simp_all add: put_engine put_cursor cur)
  qed
qed

end

subsection \<open>The two players\<close>

definition rp_put :: "'vs replay_player \<Rightarrow> nat \<Rightarrow> 'vs engine \<Rightarrow> 'vs replay_player" where
  "rp_put p k e = p\<lparr>rp_engine := e, rp_executed := rp_executed p + 1, rp_cursor := rp_cursor p + k\<rparr>"

lemma rp_due_fold:
  "rp_due vs now fs (e, c) = (fold (\<lambda>f. rp_apply vs (fr_input f)) (takeWhile (\<lambda>f. fr_tick f = now) fs) e,
     c + length (takeWhile (\<lambda>f. fr_tick f = now) fs))"
  by (induction fs arbitrary: e c) simp_all

interpretation rp: playback "rp_step vs" "rp_run_to_end vs" "rp_seek_loop vs" "rp_seek vs" "rp_new vs" rp_replay rp_executed
    rp_cursor rp_engine rp_put re_tick_count re_frames fr_tick "\<lambda>f. rp_apply vs (fr_input f)" "\<lambda>r. rp_tick vs (re_dt_ms r)"
  for vs
proof (unfold_locales, goal_cases)
  case (1 p)
  show ?case
    by (cases "re_tick_count (rp_replay p) \<le> rp_executed p";
        cases "rp_tick vs (re_dt_ms (rp_replay p)) (fst (rp_due vs (rp_executed p) (drop (rp_cursor p) (re_frames (rp_replay p)))
          (rp_engine p, rp_cursor p)))")
      (simp_all add: rp_step_def rp_due_fold rp_put_def Let_def)
next
  case (7 p)
  show ?case by (subst rp_run_to_end.simps) simp
next
  case (8 t p)
  show ?case by (subst rp_seek_loop.simps) simp
next
  case (9 t p)
  show ?case by (simp add: rp_seek_def)
qed (auto simp: rp_put_def rp_new_def Let_def elim!: bind_eq_SomeE)

definition vp_put :: "versus_player \<Rightarrow> nat \<Rightarrow> versus \<Rightarrow> versus_player" where
  "vp_put p k v = p\<lparr>vp_versus := v, vp_executed := vp_executed p + 1, vp_cursor := vp_cursor p + k\<rparr>"

lemma vp_due_fold:
  "vp_due now fs (v, c) = (fold vf_apply (takeWhile (\<lambda>f. vf_tick f = now) fs) v,
     c + length (takeWhile (\<lambda>f. vf_tick f = now) fs))"
  by (induction fs arbitrary: v c) simp_all

interpretation vp: playback vp_step vp_run_to_end vp_seek_loop vp_seek vp_new vp_replay vp_executed
    vp_cursor vp_versus vp_put vr_tick_count vr_frames vf_tick vf_apply "\<lambda>r. vp_tick (vr_dt_ms r)"
proof (unfold_locales, goal_cases)
  case (1 p)
  show ?case
    by (cases "vr_tick_count (vp_replay p) \<le> vp_executed p";
        cases "vp_tick (vr_dt_ms (vp_replay p)) (fst (vp_due (vp_executed p) (drop (vp_cursor p) (vr_frames (vp_replay p)))
          (vp_versus p, vp_cursor p)))")
      (simp_all add: vp_step_def vp_due_fold vp_put_def Let_def)
next
  case (7 p)
  show ?case by (subst vp_run_to_end.simps) simp
next
  case (8 t p)
  show ?case by (subst vp_seek_loop.simps) simp
next
  case (9 t p)
  show ?case by (simp add: vp_seek_def)
qed (auto simp: vp_put_def vp_new_def elim!: bind_eq_SomeE)

subsection \<open>A playback that follows something live\<close>

text \<open>
  Something live, \<open>'l\<close>, takes inputs and ticks while they are recorded; \<open>R\<close> relates it to the engine of a
  playback. If inputs and ticks keep \<open>R\<close>, the timeline of the recording ends in what the live one is.
\<close>

definition tracked :: "('f \<Rightarrow> u32) \<Rightarrow> ('f \<Rightarrow> 'e \<Rightarrow> 'e) \<Rightarrow> ('e \<Rightarrow> 'e option) \<Rightarrow> ('l \<Rightarrow> 'e \<Rightarrow> bool) \<Rightarrow> 'e \<Rightarrow> 'f list \<Rightarrow> nat \<Rightarrow> 'l \<Rightarrow> bool" where
  "tracked stamp app adv R e fs n l \<longleftrightarrow> sorted (map (\<lambda>f. unat (stamp f)) fs) \<and> (\<forall>f \<in> set fs. unat (stamp f) \<le> n) \<and>
     (\<exists>x. timeline stamp app adv fs e n = Some x \<and> R l (fold app (filter (\<lambda>f. unat (stamp f) = n) fs) x))"

locale tracking =
  fixes stamp :: "'f \<Rightarrow> u32"
    and app :: "'f \<Rightarrow> 'e \<Rightarrow> 'e"
    and adv :: "'e \<Rightarrow> 'e option"
    and live_app :: "'f \<Rightarrow> 'l \<Rightarrow> 'l"
    and live_adv :: "'l \<Rightarrow> 'l option"
    and good :: "'f \<Rightarrow> bool"
    and R :: "'l \<Rightarrow> 'e \<Rightarrow> bool"
  assumes R_app: "R l e \<Longrightarrow> good f \<Longrightarrow> R (live_app f l) (app f e)"
    and R_adv: "R l e \<Longrightarrow> live_adv l = Some l' \<Longrightarrow> \<exists>e'. adv e = Some e' \<and> R l' e'"
begin

lemma timeline_later:
  "(\<And>f. f \<in> set fs' \<Longrightarrow> n \<le> unat (stamp f)) \<Longrightarrow> timeline stamp app adv (fs @ fs') e n = timeline stamp app adv fs e n"
proof (induction n)
  case (Suc n)
  have none: "filter (\<lambda>f. unat (stamp f) = n) fs' = []" using Suc.prems by (force simp: filter_empty_conv)
  have "timeline stamp app adv (fs @ fs') e n = timeline stamp app adv fs e n"
    by (rule Suc.IH) (use Suc.prems Suc_leD in blast)
  then show ?case using none by simp
qed simp

lemma tracked_start: "R l e \<Longrightarrow> tracked stamp app adv R e [] 0 l"
  by (simp add: tracked_def)

lemma tracked_app:
  assumes "tracked stamp app adv R e fs n l" "unat (stamp f) = n" "good f"
  shows "tracked stamp app adv R e (fs @ [f]) n (live_app f l)"
proof -
  obtain x where x: "timeline stamp app adv fs e n = Some x" "R l (fold app (filter (\<lambda>f. unat (stamp f) = n) fs) x)"
    using assms(1) by (auto simp: tracked_def)
  have "timeline stamp app adv (fs @ [f]) e n = Some x" using timeline_later [of "[f]" n fs e] assms(2) x(1) by simp
  then show ?thesis
    using assms R_app [OF x(2) assms(3)] by (auto simp: tracked_def sorted_append)
qed

lemma tracked_adv:
  assumes "tracked stamp app adv R e fs n l" "live_adv l = Some l'"
  shows "tracked stamp app adv R e fs (Suc n) l'"
proof -
  obtain x where x: "timeline stamp app adv fs e n = Some x" "R l (fold app (filter (\<lambda>f. unat (stamp f) = n) fs) x)"
    using assms(1) by (auto simp: tracked_def)
  have none: "filter (\<lambda>f. unat (stamp f) = Suc n) fs = []" using assms(1) by (force simp: filter_empty_conv tracked_def)
  show ?thesis using R_adv [OF x(2) assms(2)] x(1) assms(1) by (auto simp: tracked_def none le_SucI)
qed

text \<open>Once every recorded input lies behind, the playback has caught up.\<close>

lemma tracked_end:
  assumes "tracked stamp app adv R e fs n l" "\<And>f. f \<in> set fs \<Longrightarrow> unat (stamp f) < n"
  obtains x where "timeline stamp app adv fs e n = Some x" "R l x"
proof -
  have "filter (\<lambda>f. unat (stamp f) = n) fs = []" using assms(2) by (force simp: filter_empty_conv)
  then show ?thesis using assms(1) that by (auto simp: tracked_def)
qed

end

subsection \<open>A recorded session on one board\<close>

definition drained :: "game \<Rightarrow> game" where
  "drained g = g\<lparr>g_events := []\<rparr>"

lemma game_ok_dress [simp]: "game_ok (dress d g) = game_ok g"
  by (simp add: game_ok_def setup_ok_def core_ok_def flags_inv_def orient_inv_def timing_inv_def weapon_active_def
      bazaar_inv_def piece_ok_def)

lemma drained_dress: "g = dress (s_op_score (g_score g), s_op_funds (g_score g), g_events g) (drained g)"
  by (simp add: drained_def dress_def)

lemma same_drained:
  assumes "drained g = drained h"
  obtains k p q where "g = dress (p, q, g_events g) k" "h = dress (p, q, g_events h) k" "k = drained g"
proof -
  have "g_score g = g_score h" using arg_cong [OF assms, of g_score] by (simp add: drained_def)
  then show ?thesis using that drained_dress [of g] drained_dress [of h] assms by metis
qed

lemma drained_of_dress: "drained (dress (p, q, L) g) = drained (dress (p, q, L') g)"
  by (simp add: drained_def dress_def)

lemma drained_apply:
  assumes "drained g = drained h" shows "drained (apply_to_game i g) = drained (apply_to_game i h)"
proof -
  obtain k p q where k: "g = dress (p, q, g_events g) k" "h = dress (p, q, g_events h) k" using same_drained [OF assms] .
  obtain r s where r: "redress i (p, q, L) = (r, s, L)" for L by (cases i) (auto simp: redress_def)
  have "drained (apply_to_game i (dress (p, q, L) k)) = drained (apply_to_game i (dress (p, q, L') k))" for L L'
    unfolding dress_apply r by (rule drained_of_dress)
  then show ?thesis using k by metis
qed

lemma drained_tick:
  assumes "drained g = drained h" "tick dt g = Some g'" "game_ok g"
  obtains h' where "tick dt h = Some h'" "drained h' = drained g'"
proof -
  obtain k p q where k: "g = dress (p, q, g_events g) k" "h = dress (p, q, g_events h) k" using same_drained [OF assms(1)] .
  have "game_ok k" using assms(3) k(1) game_ok_dress by metis
  then obtain k' where "tick dt k = Some k'" using tick_returns [of k dt] by (auto elim: returnsE)
  then have t: "tick dt (dress d k) = Some (dress d k')" for d by (rule dress_tick)
  have "g' = dress (p, q, g_events g) k'" using t [of "(p, q, g_events g)"] assms(2) k(1) by simp
  then show ?thesis
    using that [of "dress (p, q, g_events h) k'"] t [of "(p, q, g_events h)"] k(2) drained_of_dress by metis
qed

text \<open>What a host does on one board: inputs, ticks, and draining the events when it likes.\<close>

datatype live_op = Do input | Pass | Drain

fun session :: "i32 \<Rightarrow> live_op list \<Rightarrow> game \<times> recorder \<Rightarrow> (game \<times> recorder) option" where
  "session dt [] s = Some s"
| "session dt (Do i # ops) (g, r) = session dt ops (apply_to_game i g, record_input i r)"
| "session dt (Pass # ops) (g, r) = do { g \<leftarrow> tick dt g; session dt ops (g, on_tick r) }"
| "session dt (Drain # ops) (g, r) = session dt ops (snd (take_events g), r)"

definition single_like :: "game \<Rightarrow> 'vs engine \<Rightarrow> bool" where
  "single_like g e \<longleftrightarrow> reachable g \<and> (\<exists>h. e = Single h \<and> drained h = drained g)"

interpretation single: tracking fr_tick "\<lambda>f. rp_apply vs (fr_input f)" "rp_tick vs dt" "\<lambda>f. apply_to_game (fr_input f)"
    "tick dt" "\<lambda>_. True" single_like for vs dt
proof (unfold_locales, goal_cases)
  case (1 l e f)
  then obtain h where h: "reachable l" "e = Single h" "drained h = drained l" by (auto simp: single_like_def)
  show ?case
    using apply_reachable [OF h(1)] drained_apply [OF h(3), of "fr_input f"] by (simp add: single_like_def rp_apply_def h(2))
next
  case (2 l e l')
  then obtain h where h: "reachable l" "e = Single h" "drained l = drained h" by (auto simp: single_like_def)
  obtain h' where "tick dt h = Some h'" "drained h' = drained l'"
    using drained_tick [OF h(3) 2(2) reachable_ok [OF h(1)]] .
  then show ?case
    using h r_tick [OF h(1) 2(2)] by (auto simp: single_like_def rp_tick_def take_events_def drained_def)
qed

text \<open>The recorder and the game of a session: its recording, played to the recorder's tick, tracks the game.\<close>

definition recorded :: "'vs vs_ops \<Rightarrow> i32 \<Rightarrow> game \<Rightarrow> game \<times> recorder \<Rightarrow> bool" where
  "recorded vs dt g0 s \<longleftrightarrow> tracked fr_tick (\<lambda>f. rp_apply vs (fr_input f)) (rp_tick vs dt) single_like (Single g0)
     (rc_frames (snd s)) (unat (rc_tick (snd s))) (fst s)"

lemma unat_on_tick: "unat (rc_tick r) + 1 < 2 ^ 32 \<Longrightarrow> unat (rc_tick (on_tick r)) = Suc (unat (rc_tick r))"
proof -
  assume u: "unat (rc_tick r) + 1 < 2 ^ 32"
  have "uint (rc_tick r) = int (unat (rc_tick r))" by simp
  moreover have "unat (rc_tick r) + 1 < 4294967296" using u by simp
  ultimately have "uint (rc_tick r) + 1 < 4294967296" by linarith
  then have "uint (rc_tick r) + uint (1 :: u32) < 2 ^ 32" by simp
  moreover have "unat (rc_tick r + 1) = Suc (unat (rc_tick r))" using u by (simp add: unat_word_ariths)
  ultimately show ?thesis by (simp add: on_tick_def saturating_add_u32_def)
qed

lemma recorded_input:
  assumes "recorded vs dt g0 (g, r)" shows "recorded vs dt g0 (apply_to_game i g, record_input i r)"
  using single.tracked_app [OF assms [unfolded recorded_def], of "\<lparr>fr_tick = rc_tick r, fr_input = i\<rparr>"]
  by (simp add: recorded_def record_input_def)

lemma recorded_tick:
  assumes "recorded vs dt g0 (g, r)" "tick dt g = Some g'" "unat (rc_tick r) + 1 < 2 ^ 32"
  shows "recorded vs dt g0 (g', on_tick r)"
proof -
  have fr: "rc_frames (on_tick r) = rc_frames r" by (simp add: on_tick_def)
  show ?thesis
    using single.tracked_adv [OF assms(1) [unfolded recorded_def]] assms(2)
    by (simp add: recorded_def fr unat_on_tick [OF assms(3)])
qed

lemma single_like_drain: "single_like (snd (take_events g)) e = single_like g e" if "reachable g"
  using r_events [OF that] that by (simp add: single_like_def take_events_def drained_def)

lemma recorded_drain: "recorded vs dt g0 (g, r) \<Longrightarrow> recorded vs dt g0 (snd (take_events g), r)"
  unfolding recorded_def tracked_def fst_conv snd_conv
  by (metis single_like_def single_like_drain)

text \<open>What a recorder was started with stays.\<close>

definition rc_setup :: "recorder \<Rightarrow> u32 \<times> mode \<times> u32 option \<times> i32 \<times> string" where
  "rc_setup r = (rc_seed r, rc_mode r, rc_ai_level r, rc_dt_ms r, rc_engine_sha r)"

definition ticks :: "live_op list \<Rightarrow> nat" where
  "ticks ops = length (filter (\<lambda>x. x = Pass) ops)"

lemma session_recorded:
  assumes "session dt ops (g, r) = Some (g', r')" "recorded vs dt g0 (g, r)" "unat (rc_tick r) + ticks ops < 2 ^ 32"
  shows "recorded vs dt g0 (g', r') \<and> unat (rc_tick r') = unat (rc_tick r) + ticks ops \<and> rc_setup r' = rc_setup r"
  using assms
proof (induction ops arbitrary: g r)
  case (Cons op ops)
  show ?case
  proof (cases op)
    case (Do i)
    have k: "rc_tick (record_input i r) = rc_tick r" "rc_setup (record_input i r) = rc_setup r"
      by (simp_all add: record_input_def rc_setup_def)
    show ?thesis
      using Cons.IH [of "apply_to_game i g" "record_input i r", OF _ recorded_input [OF Cons.prems(2)]] Cons.prems(1,3) Do
      by (simp add: ticks_def k)
  next
    case Pass
    then obtain h where h: "tick dt g = Some h" "session dt ops (h, on_tick r) = Some (g', r')"
      using Cons.prems(1) by (auto elim!: bind_eq_SomeE)
    have u: "unat (rc_tick r) + 1 < 2 ^ 32" using Cons.prems(3) Pass by (simp add: ticks_def)
    have "rc_setup (on_tick r) = rc_setup r" by (simp add: rc_setup_def on_tick_def)
    then show ?thesis
      using Cons.IH [OF h(2) recorded_tick [OF Cons.prems(2) h(1) u]] unat_on_tick [OF u] Cons.prems(3) Pass
      by (simp add: ticks_def)
  next
    case Drain
    then show ?thesis
      using Cons.IH [of "snd (take_events g)" r, OF _ recorded_drain [OF Cons.prems(2)]] Cons.prems(1,3) by (simp add: ticks_def)
  qed
qed (simp add: ticks_def)

lemma session_append: "session dt (ops @ ops') s = do { s \<leftarrow> session dt ops s; session dt ops' s }"
proof (induction ops arbitrary: s)
  case (Cons op ops)
  obtain g r where s: "s = (g, r)" by (cases s)
  show ?case
    by (cases op; cases "tick dt g") (simp_all add: s Cons.IH)
qed simp

text \<open>A recording runs to its end, and its playback ends where its timeline does.\<close>

lemma recording_runs:
  assumes "rp_new vs (to_replay r) = Some p"
    and "timeline fr_tick (\<lambda>f. rp_apply vs (fr_input f)) (rp_tick vs (rc_dt_ms r)) (rc_frames r) (rp_engine p) (unat (rc_tick r)) = Some x"
    and "sorted (map (\<lambda>f. unat (fr_tick f)) (rc_frames r))"
  shows "\<exists>q. rp_run_to_end vs p = Some q \<and> rp_engine q = x \<and> rp_executed q = rc_tick r"
proof -
  have fields: "re_frames (to_replay r) = rc_frames r" "re_tick_count (to_replay r) = rc_tick r" "re_dt_ms (to_replay r) = rc_dt_ms r"
    by (simp_all add: to_replay_def)
  have p: "rp_replay p = to_replay r" "rp_executed p = 0" using assms(1) by (auto simp: rp_new_def Let_def elim!: bind_eq_SomeE)
  have "sorted (map (\<lambda>f. unat (fr_tick f)) (re_frames (to_replay r)))" using assms(3) by (simp add: fields)
  from rp.steps_timeline [OF assms(1) this, of "unat (rc_tick r)"]
  obtain q where q: "steps (rp_step vs) (unat (rc_tick r)) p = Some q" "rp_engine q = x"
    using assms(2) by (auto simp: fields)
  have "rp_run_to_end vs p = Some q" using rp.run_steps [of p vs] q(1) by (simp add: fields p)
  moreover have "rp_executed q = rc_tick r"
    using rp.steps_pos [OF q(1)] by (simp add: fields p word_unat_eq_iff)
  ultimately show ?thesis using q(2) by blast
qed

text \<open>
  C14. A recording plays back bit for bit: a game played from its seed with any inputs and ticks, its
  events drained whenever the host likes, recorded by the recorder, comes out of the playback exactly as
  the live game ended, every field but the event queue; provided the session ends with a tick and has
  fewer than \<open>2 ^ 32\<close> of them.
\<close>

theorem recording_replays:
  assumes "m \<noteq> Vs_Computer" "game_new (ucast seed) = Some g0"
    and "session dt (ops @ [Pass]) (g0, recorder_new seed m level dt sha) = Some (g, r)" "ticks ops + 1 < 2 ^ 32"
  shows "\<exists>p q h. rp_new vs (to_replay r) = Some p \<and> rp_run_to_end vs p = Some q \<and> rp_engine q = Single h \<and>
    drained h = drained g \<and> rp_executed q = rc_tick r"
proof -
  let ?r0 = "recorder_new seed m level dt sha"
  obtain g1 r1 where s: "session dt ops (g0, ?r0) = Some (g1, r1)" "session dt [Pass] (g1, r1) = Some (g, r)"
    using assms(3) unfolding session_append by (auto elim!: bind_eq_SomeE)
  have t: "tick dt g1 = Some g" "r = on_tick r1" using s(2) by (auto elim!: bind_eq_SomeE)
  have "recorded vs dt g0 (g0, ?r0)"
    using single.tracked_start [of g0 "Single g0 :: 'a engine"] r_new [OF assms(2)]
    by (simp add: recorded_def recorder_new_def single_like_def)
  note S = session_recorded [OF s(1) this]
  have S': "recorded vs dt g0 (g1, r1)" "unat (rc_tick r1) = ticks ops" "rc_setup r1 = rc_setup ?r0"
    using S assms(4) by (simp_all add: recorder_new_def)
  have u: "unat (rc_tick r1) + 1 < 2 ^ 32" using S'(2) assms(4) by simp
  have T: "recorded vs dt g0 (g, r)" "unat (rc_tick r) = Suc (unat (rc_tick r1))" "rc_setup r = rc_setup ?r0"
    using recorded_tick [OF S'(1) t(1) u] unat_on_tick [OF u] S'(3) by (simp_all add: t(2) rc_setup_def on_tick_def)
  have ini: "rc_seed r = seed" "rc_mode r = m" "rc_dt_ms r = dt" using T(3) by (simp_all add: rc_setup_def recorder_new_def)
  have past: "unat (fr_tick f) < unat (rc_tick r)" if "f \<in> set (rc_frames r)" for f
    using S'(1) that T(2) by (auto simp: recorded_def tracked_def t(2) on_tick_def le_imp_less_Suc)
  obtain x where x: "timeline fr_tick (\<lambda>f. rp_apply vs (fr_input f)) (rp_tick vs dt) (rc_frames r) (Single g0) (unat (rc_tick r)) = Some x"
    "single_like g x"
    using single.tracked_end [OF T(1) [unfolded recorded_def fst_conv snd_conv] past] by auto
  let ?p = "\<lparr>rp_engine = Single g0, rp_replay = to_replay r, rp_executed = 0, rp_cursor = 0\<rparr>"
  have new: "rp_new vs (to_replay r) = Some ?p"
    using assms(1,2) by (cases m) (simp_all add: rp_new_def to_replay_def ini)
  have "sorted (map (\<lambda>f. unat (fr_tick f)) (rc_frames r))"
    using T(1) by (simp add: recorded_def tracked_def)
  from recording_runs [OF new _ this, of x] x new show ?thesis by (auto simp: ini single_like_def)
qed

theorem recording_replays_witness:
  "\<exists>g r p q h. session 16 ([Do MoveLeft] @ [Pass]) (the (game_new 7), recorder_new 7 Practice None 16 ''dev'') = Some (g, r) \<and>
     rp_new (\<lparr>vs_new = \<lambda>_ _. None, vs_tick = \<lambda>_. Some, vs_input = \<lambda>_ v. v, vs_drain = \<lambda>v. v\<rparr> :: unit vs_ops) (to_replay r) = Some p \<and>
     rp_run_to_end \<lparr>vs_new = \<lambda>_ _. None, vs_tick = \<lambda>_. Some, vs_input = \<lambda>_ v. v, vs_drain = \<lambda>v. v\<rparr> p = Some q \<and>
     rp_engine q = Single h \<and> drained h = drained g"
proof -
  obtain g0 where g0: "game_new 7 = Some g0" "reachable g0" by (rule reachable_new)
  obtain g where g: "tick 16 (move_left g0) = Some g"
    using tick_returns [OF reachable_ok [OF r_left [OF g0(2)]], of 16] by (auto elim: returnsE)
  let ?r = "recorder_new 7 Practice None 16 ''dev''"
  have s: "session 16 ([Do MoveLeft] @ [Pass]) (g0, ?r) = Some (g, on_tick (record_input MoveLeft ?r))"
    using g by (simp add: apply_to_game_def)
  have n: "game_new (ucast (7 :: u32)) = Some g0" using g0(1) by simp
  have "ticks [Do MoveLeft] + 1 < 2 ^ 32" by (simp add: ticks_def)
  from recording_replays [OF _ n s this, of "\<lparr>vs_new = \<lambda>_ _. None, vs_tick = \<lambda>_. Some, vs_input = \<lambda>_ v. v, vs_drain = \<lambda>v. v\<rparr> :: unit vs_ops"]
  show ?thesis using s g0(1) by auto
qed

subsection \<open>Seeking\<close>

lemma versus_tick_safe: "safe v \<Longrightarrow> returns safe (versus_tick dt v)"
proof -
  assume v: "safe v"
  have "safe (relay u)" if "safe u" for u using relay_half_motion(3) that by (simp add: relay_def)
  moreover obtain a b where "tick dt (v_a v) = Some a" "tick dt (v_b v) = Some b" "reachable a" "reachable b"
    using tick_returns [OF reachable_ok] r_tick v unfolding safe_def by (metis returnsE)
  ultimately show ?thesis using v by (simp add: versus_tick_def safe_def)
qed

lemma vf_apply_safe: "safe v \<Longrightarrow> safe (vf_apply f v)"
  using apply_reachable by (simp add: safe_def vf_apply_def Let_def upd_game_def split: side.split)

lemma vp_tick_safe: "safe v \<Longrightarrow> returns safe (vp_tick dt v)"
  using versus_tick_safe [of v dt] r_events by (auto simp: vp_tick_def safe_def upd_game_def elim!: returnsE)

lemma vp_steps_return:
  assumes "safe (vp_versus p)" shows "returns (\<lambda>q. safe (vp_versus q)) (steps vp_step n p)"
proof (induction n)
  case (Suc n)
  have "returns (\<lambda>q. safe (vp_versus q)) (map_option snd (vp_step q))" if q: "safe (vp_versus q)" for q
  proof -
    have "safe (fst (vp_due now fs (vp_versus q, c)))" for now fs c
      unfolding vp_due_fold fst_conv by (rule fold_preserves) (use q vf_apply_safe in auto)
    then obtain v where "vp_tick (vr_dt_ms (vp_replay q)) (fst (vp_due (vp_executed q)
        (drop (vp_cursor q) (vr_frames (vp_replay q))) (vp_versus q, vp_cursor q))) = Some v" "safe v"
      using vp_tick_safe by (blast elim: returnsE)
    then show ?thesis using q by (simp add: vp_step_def Let_def split_beta)
  qed
  then show ?case unfolding steps.simps by (rule returns_bind [OF Suc])
qed (use assms in simp)

text \<open>
  C35. Scrubbing a recorded match shows what playing it straight shows: wherever the playback stands, a
  seek forwards or backwards returns, at the asked tick or at the end of the recording, in the state of a
  fresh player stepped that often.
\<close>

theorem seek_lands:
  assumes "vp_new r = Some p0" "steps vp_step n p0 = Some p" "n \<le> unat (vr_tick_count r)"
  shows "\<exists>q. vp_seek t p = Some q \<and> steps vp_step (unat (min t (vr_tick_count r))) p0 = Some q \<and>
    vp_executed q = min t (vr_tick_count r)"
proof -
  have "safe (vp_versus p0)"
    using assms(1) match_inv_new by (auto simp: vp_new_def match_inv_def elim!: bind_eq_SomeE)
  then obtain q where q: "steps vp_step (unat (min t (vr_tick_count r))) p0 = Some q"
    using vp_steps_return by (blast elim: returnsE)
  have p0: "vp_replay p0 = r" "vp_executed p0 = 0" using vp.start_at [OF assms(1)] by simp_all
  have "unat (min t (vr_tick_count r)) \<le> unat (vr_tick_count r)" by (simp add: min_def word_le_nat_alt)
  then have "unat (vp_executed q) = unat (min t (vr_tick_count r))" using vp.steps_pos [OF q] p0 by simp
  then show ?thesis using vp.seek_steps [OF assms] q by (simp add: word_unat_eq_iff)
qed

text \<open>A short recorded match.\<close>

definition short_match :: versus_replay where
  "short_match = \<lparr>vr_version = REPLAY_VERSION, vr_seed_a = 1, vr_seed_b = 2, vr_dt_ms = 16, vr_engine_sha = ''dev'',
     vr_tick_count = 5, vr_frames = [\<lparr>vf_tick = 1, vf_side = 0, vf_input = MoveLeft\<rparr>, \<lparr>vf_tick = 3, vf_side = 1, vf_input = Rotate\<rparr>],
     vr_title = None\<rparr>"

theorem seek_lands_witness:
  "\<exists>p0 q. vp_new short_match = Some p0 \<and> vp_seek 4 p0 = Some q \<and> vp_executed q = 4"
proof -
  obtain v where "versus_new 1 2 = Some v" by (rule played_new)
  then obtain p0 where p0: "vp_new short_match = Some p0" by (simp add: vp_new_def short_match_def)
  then show ?thesis using seek_lands [OF p0, of 0 p0 4] by (auto simp: short_match_def)
qed

end
