(* ===== verification/Bout.thy ===== *)
theory Bout
  imports Playback Spy
begin

section \<open>The host of a match\<close>

text \<open>
  \<open>bt-server/src/bout.rs\<close>: the server's match. It owns a \<open>versus\<close>, lets in only legal and fresh inputs,
  keeps the recording, the acknowledgements and the running spies, and builds what a client is sent.
\<close>

definition TICK_MS :: i32 where
  "TICK_MS = 16"

definition is_legal_client_input :: "input \<Rightarrow> bool" where
  "is_legal_client_input i = (case i of
       MoveLeft \<Rightarrow> True | MoveRight \<Rightarrow> True | Rotate \<Rightarrow> True | SoftDrop \<Rightarrow> True | BeginDrop \<Rightarrow> True
     | LaunchWeapon _ \<Rightarrow> True | BuyWeapon _ \<Rightarrow> True | SellWeapon _ \<Rightarrow> True | LeaveBazaar \<Rightarrow> True | _ \<Rightarrow> False)"

definition is_bazaar_input :: "input \<Rightarrow> bool" where
  "is_bazaar_input i = (case i of BuyWeapon _ \<Rightarrow> True | SellWeapon _ \<Rightarrow> True | LeaveBazaar \<Rightarrow> True | _ \<Rightarrow> False)"

record self_status =
  ss_funds :: i64
  ss_in_bazaar :: bool
  ss_lines_til_bazaar :: i32

record opp_view =
  ov_score :: i64
  ov_lines :: i64
  ov_game_over :: bool
  ov_in_bazaar :: bool

record snapshot_msg =
  sn_tick :: u64
  sn_ack :: u64
  sn_result :: i32
  sn_you :: self_status
  sn_opp :: opp_view
  sn_spying :: bool
  sn_spy_board :: "i32 list option"
  sn_spy_hide :: "int option"
  sn_spy_funds :: "i64 option"
  sn_keyframe :: "u8 list option"
  sn_lock_seq :: int
  sn_lock_hash :: u32

text \<open>The arrays per side are functions of the side.\<close>

record bout =
  bo_versus :: versus
  bo_tick :: u64
  bo_seed_a :: u64
  bo_seed_b :: u64
  bo_frames :: "versus_frame list"
  bo_ack :: "side \<Rightarrow> u64"
  bo_spy :: "side \<Rightarrow> (weapon_token \<times> i32) option"
  bo_opp_lines_seen :: "side \<Rightarrow> i64"
  bo_last_opp_tetris_tick :: "side \<Rightarrow> u64"

definition side_idx :: "side \<Rightarrow> u8" where
  "side_idx s = (case s of Side_A \<Rightarrow> 0 | Side_B \<Rightarrow> 1)"

definition bout_new :: "u64 \<Rightarrow> u64 \<Rightarrow> bout option" where
  "bout_new seed_a seed_b = do {
     v \<leftarrow> versus_new seed_a seed_b;
     Some \<lparr>bo_versus = v, bo_tick = 0, bo_seed_a = seed_a, bo_seed_b = seed_b, bo_frames = [], bo_ack = (\<lambda>_. 0),
       bo_spy = (\<lambda>_. None), bo_opp_lines_seen = (\<lambda>_. 0), bo_last_opp_tetris_tick = (\<lambda>_. 0)\<rparr>
   }"

definition bout_to_replay :: "i32 \<Rightarrow> string \<Rightarrow> bout \<Rightarrow> versus_replay" where
  "bout_to_replay dt_ms engine_sha b =
     \<lparr>vr_version = REPLAY_VERSION, vr_seed_a = ucast (bo_seed_a b), vr_seed_b = ucast (bo_seed_b b), vr_dt_ms = dt_ms,
      vr_engine_sha = engine_sha, vr_tick_count = ucast (bo_tick b), vr_frames = bo_frames b, vr_title = None\<rparr>"

definition barrier :: "side \<Rightarrow> bout \<Rightarrow> bool" where
  "barrier s b \<longleftrightarrow> g_in_bazaar (v_game s (bo_versus b)) \<or> g_in_bazaar (v_game (other_side s) (bo_versus b))"

definition push_frame :: "side \<Rightarrow> input \<Rightarrow> bout \<Rightarrow> bout" where
  "push_frame s i b = b\<lparr>bo_frames := bo_frames b @ [\<lparr>vf_tick = ucast (bo_tick b), vf_side = side_idx s, vf_input = i\<rparr>]\<rparr>"

definition bout_input :: "side \<Rightarrow> input \<Rightarrow> u64 \<Rightarrow> bout \<Rightarrow> bool \<times> bout" where
  "bout_input s i seq b =
     (if \<not> is_legal_client_input i \<or> seq \<le> bo_ack b s then (False, b)
      else let b = b\<lparr>bo_ack := (bo_ack b)(s := seq)\<rparr> in
        if barrier s b \<and> \<not> is_bazaar_input i
        then (False, b)
        else (True, push_frame s i (b\<lparr>bo_versus := upd_game s (apply_to_game i) (bo_versus b)\<rparr>)))"

definition debug_grant :: "side \<Rightarrow> weapon_token option \<Rightarrow> i64 option \<Rightarrow> bout \<Rightarrow> (bool \<times> bool) \<times> bout" where
  "debug_grant s weapon funds b =
     (let (granted, g) = (case weapon of Some tok \<Rightarrow> grant_weapon tok (v_game s (bo_versus b)) | None \<Rightarrow> (False, v_game s (bo_versus b)));
          (applied, g) = (case funds of Some amount \<Rightarrow> (if amount \<noteq> 0 then (True, add_funds amount g) else (False, g)) | None \<Rightarrow> (False, g));
          b = b\<lparr>bo_versus := upd_game s (\<lambda>_. g) (bo_versus b)\<rparr>;
          b = (if granted then (case weapon of Some tok \<Rightarrow> push_frame s (GrantWeapon (int (index tok))) b | None \<Rightarrow> b) else b);
          b = (if applied then (case funds of Some amount \<Rightarrow> push_frame s (AddFunds amount) b | None \<Rightarrow> b) else b)
      in ((granted, applied), b))"

definition reset_ack :: "side \<Rightarrow> bout \<Rightarrow> bout" where
  "reset_ack s b = b\<lparr>bo_ack := (bo_ack b)(s := 0)\<rparr>"

text \<open>The spies of one side, after a tick.\<close>

definition charge_spy :: "i32 \<Rightarrow> (weapon_token \<times> i32) option \<Rightarrow> (weapon_token \<times> i32) option" where
  "charge_spy delta spy = (case spy of
       Some (tok, rem) \<Rightarrow> (let left = rem - delta in if left > 0 then Some (tok, left) else None)
     | None \<Rightarrow> None)"

definition add_spy :: "weapon_token \<Rightarrow> (weapon_token \<times> i32) option \<Rightarrow> (weapon_token \<times> i32) option" where
  "add_spy tok spy =
     (let cur = (case spy of Some (_, r) \<Rightarrow> r | None \<Rightarrow> 0) in Some (tok, cur + duration_of tok))"

definition tick_spies :: "side \<Rightarrow> bout \<Rightarrow> bout" where
  "tick_spies s b =
     (let opp_lines = s_lines (g_score (v_game (other_side s) (bo_versus b)));
          delta = as_i32 (max (opp_lines - bo_opp_lines_seen b s) 0);
          b = (if delta \<ge> 4 then b\<lparr>bo_last_opp_tetris_tick := (bo_last_opp_tetris_tick b)(s := bo_tick b)\<rparr> else b);
          b = b\<lparr>bo_spy := (bo_spy b)(s := charge_spy delta (bo_spy b s)),
                bo_opp_lines_seen := (bo_opp_lines_seen b)(s := opp_lines)\<rparr>;
          (launches, v) = take_spy_launches s (bo_versus b)
      in b\<lparr>bo_versus := v, bo_spy := (bo_spy b)(s := fold add_spy launches (bo_spy b s))\<rparr>)"

definition bout_tick :: "i32 \<Rightarrow> bout \<Rightarrow> bout option" where
  "bout_tick dt_ms b = do {
     v \<leftarrow> versus_tick dt_ms (bo_versus b);
     let b = b\<lparr>bo_versus := v, bo_tick := bo_tick b + 1\<rparr>;
     Some (tick_spies Side_B (tick_spies Side_A b))
   }"

definition bout_take_dirty :: "bout \<Rightarrow> bool \<times> bout" where
  "bout_take_dirty b = (let (d, v) = take_dirty (bo_versus b) in (d, b\<lparr>bo_versus := v\<rparr>))"

definition take_events_for :: "side \<Rightarrow> bout \<Rightarrow> input list \<times> bout" where
  "take_events_for s b = (let (es, v) = take_outbox s (bo_versus b) in (map from_relay es, b\<lparr>bo_versus := v\<rparr>))"

definition bout_lines :: "side \<Rightarrow> bout \<Rightarrow> u32" where
  "bout_lines s b = word_of_int (max (s_lines (g_score (v_game s (bo_versus b)))) 0)"

definition build_snapshot :: "side \<Rightarrow> bool \<Rightarrow> bool \<Rightarrow> bout \<Rightarrow> snapshot_msg" where
  "build_snapshot s include_keyframe include_spy b =
     (let me = v_game s (bo_versus b);
          them = v_game (other_side s) (bo_versus b);
          spy = bo_spy b s;
          spy_board = (case (spy, include_spy) of (Some (tok, _), True) \<Rightarrow> Some (render_ids them) | _ \<Rightarrow> None);
          spy_hide = (case (spy, include_spy) of (Some (tok, _), True) \<Rightarrow> Some (hide_pct tok) | _ \<Rightarrow> None);
          spy_funds = (case (spy, include_spy) of
              (Some (tok, _), True) \<Rightarrow>
                (let noise = noise_for (bo_tick b) (ucast (side_idx s));
                     last = bo_last_opp_tetris_tick b s;
                     recent = last \<noteq> 0 \<and>
                       unat (if last \<le> bo_tick b then bo_tick b - last else 0) < ACE_TETRIS_WINDOW
                 in Some (adjust_funds (s_funds (g_score them)) tok noise recent))
            | _ \<Rightarrow> None);
          result = (if v_result (bo_versus b) = 0 then 0
                    else if v_result (bo_versus b) = 1 \<and> s = Side_A \<or> v_result (bo_versus b) = 2 \<and> s = Side_B then 1 else 2)
      in \<lparr>sn_tick = bo_tick b, sn_ack = bo_ack b s, sn_result = result,
          sn_you = \<lparr>ss_funds = s_funds (g_score me), ss_in_bazaar = g_in_bazaar me, ss_lines_til_bazaar = g_lines_til_baz me\<rparr>,
          sn_opp = \<lparr>ov_score = s_score (g_score them), ov_lines = s_lines (g_score them), ov_game_over = (g_phase them = Over),
            ov_in_bazaar = g_in_bazaar them\<rparr>,
          sn_spying = (spy \<noteq> None), sn_spy_board = spy_board, sn_spy_hide = spy_hide, sn_spy_funds = spy_funds,
          sn_keyframe = (if include_keyframe then Some (client_keyframe_bytes me) else None),
          sn_lock_seq = g_lock_seq me, sn_lock_hash = g_lock_hash me\<rparr>)"

subsection \<open>Spectators\<close>

text \<open>The message a spectator is sent; JSON is left to serde, the record is its content.\<close>

record spectator_side =
  sd_board :: "i32 list"
  sd_score :: i64
  sd_lines :: i64
  sd_funds :: i64
  sd_lines_til :: i32
  sd_in_bazaar :: bool
  sd_game_over :: bool
  sd_arsenal :: "i32 list"
  sd_effects :: "i32 list"

record spectator =
  sp_tick :: u64
  sp_result :: i32
  sp_name_a :: string
  sp_name_b :: string
  sp_w :: i32
  sp_h :: i32
  sp_a :: spectator_side
  sp_b :: spectator_side

definition spectate_side :: "game \<Rightarrow> spectator_side" where
  "spectate_side g =
     \<lparr>sd_board = render_ids g, sd_score = s_score (g_score g), sd_lines = s_lines (g_score g), sd_funds = s_funds (g_score g),
      sd_lines_til = g_lines_til_baz g, sd_in_bazaar = g_in_bazaar g, sd_game_over = (g_phase g = Over),
      sd_arsenal = concat (map (\<lambda>i. [token_int (slot_token (g_arsenal g) i), uint (slot_quantity (g_arsenal g) i)]) [0..<10]),
      sd_effects = concat (map (\<lambda>t. [int (index t), weapon_remaining g t]) (filter (weapon_active g) ALL_tokens))\<rparr>"

definition spectate :: "string \<Rightarrow> string \<Rightarrow> bout \<Rightarrow> spectator" where
  "spectate name_a name_b b =
     (let g = v_game Side_A (bo_versus b); h = v_game Side_B (bo_versus b)
      in \<lparr>sp_tick = bo_tick b, sp_result = v_result (bo_versus b), sp_name_a = name_a, sp_name_b = name_b,
          sp_w = b_width (g_board g), sp_h = b_height (g_board g), sp_a = spectate_side g, sp_b = spectate_side h\<rparr>)"

end
