(* ===== verification/MatchReplay.thy ===== *)
theory MatchReplay
  imports Bout
begin

section \<open>A hosted match and its recording\<close>

text \<open>
  The live match of a host and the playback of its recording are kept in step by \<open>twins\<close>: the same match,
  except that the live games may have events waiting, which the playback has thrown away, and that the
  mirrors of the opponent's score and funds may differ.
\<close>

definition twin :: "game_event list \<Rightarrow> game \<Rightarrow> game \<Rightarrow> bool" where
  "twin L g h \<longleftrightarrow> (\<exists>p q p' q' k. g = dress (p, q, L) k \<and> h = dress (p', q', []) k)"

definition twins :: "(side \<Rightarrow> game_event list) \<Rightarrow> versus \<Rightarrow> versus \<Rightarrow> bool" where
  "twins L v w \<longleftrightarrow> v_result v = v_result w \<and> (\<forall>s. twin (L s) (v_game s v) (v_game s w))"

lemma twinE:
  assumes "twin L g h"
  obtains p q p' q' k where "g = dress (p, q, L) k" "h = dress (p', q', []) k"
  using assms by (auto simp: twin_def)

lemma twinI [intro]: "twin L (dress (p, q, L) k) (dress (p', q', []) k)"
  unfolding twin_def by blast

lemma twin_reads:
  assumes "twin L g h"
  shows "g_events g = L @ g_events h" "g_in_bazaar g = g_in_bazaar h" "weapon_active g t = weapon_active h t" "g_phase g = g_phase h"
    "s_funds (g_score g) = s_funds (g_score h)" "export_board g = export_board h" "g_arsenal g = g_arsenal h"
  using assms by (auto elim!: twinE simp: weapon_active_def export_board_def)

lemma twin_apply: "twin L g h \<Longrightarrow> twin L (apply_to_game i g) (apply_to_game i h)"
  by (erule twinE) (cases i; simp add: dress_apply redress_def twinI)

lemma twin_ops:
  assumes "twin L g h"
  shows "twin L (receive_weapon t g) (receive_weapon t h)" "twin L (add_funds n g) (add_funds n h)"
    "twin L (queue_board_swap c g) (queue_board_swap c h)" "twin L (receive_op_score a b f g) (receive_op_score a b f h)"
    "twin L (g\<lparr>g_arsenal := r\<rparr>) (h\<lparr>g_arsenal := r\<rparr>)"
  using assms by (auto elim!: twinE simp: receive_op_score_dress)

lemma twin_drain: "twin L g h \<Longrightarrow> twin [] (snd (take_events g)) (snd (take_events h))"
proof (erule twinE)
  fix p q p' q' k assume k: "g = dress (p, q, L) k" "h = dress (p', q', []) k"
  have "snd (take_events (dress (a, b, M) k)) = dress (a, b, []) (k\<lparr>g_events := []\<rparr>)" for a b M
    by (simp add: take_events_def dress_def)
  then show ?thesis using twinI [where L = "[]" and p = p and q = q and p' = p' and q' = q' and k = "k\<lparr>g_events := []\<rparr>"] k by simp
qed

lemma twin_tick:
  assumes "twin L g h" "tick dt g = Some g'" "game_ok g"
  obtains h' where "tick dt h = Some h'" "twin L g' h'"
  using assms(1)
proof (rule twinE)
  fix p q p' q' k assume k: "g = dress (p, q, L) k" "h = dress (p', q', []) k"
  obtain k' where "tick dt k = Some k'" using tick_returns [of k dt] assms(3) k(1) by (auto elim: returnsE)
  then have t: "tick dt (dress d k) = Some (dress d k')" for d by (rule dress_tick)
  then have "g' = dress (p, q, L) k'" using assms(2) k(1) by (metis option.inject)
  then show ?thesis using that [of "dress (p', q', []) k'"] t k(2) by auto
qed

lemma twin_deliver:
  assumes "twin L a a'" "twin M b b'" "deliver_weapon a b t = (d, c, e)"
  obtains c' e' where "deliver_weapon a' b' t = (d, c', e')" "twin L c c'" "twin M e e'"
proof -
  note R = twin_reads [OF assms(1)] twin_reads [OF assms(2)]
  have "\<exists>c' e'. deliver_weapon a' b' t = (d, c', e') \<and> twin L c c' \<and> twin M e e'"
  proof (cases "weapon_active a Mirror")
    case True
    then show ?thesis
      using assms twin_ops [OF assms(1)]
      by (cases t) (auto simp: deliver_weapon_def mirror_nullifies_def apply_weapon_def R)
  next
    case False
    then show ?thesis
      using assms(3) twin_ops [OF assms(1)] twin_ops [OF assms(2)] assms(1,2)
      by (cases t) (auto simp: deliver_weapon_def apply_weapon_def swap_arsenal_with_def Let_def R)
  qed
  then show ?thesis using that by blast
qed

lemma twins_game: "twins L v w \<Longrightarrow> twin (L s) (v_game s v) (v_game s w)"
  and twins_result: "twins L v w \<Longrightarrow> v_result v = v_result w"
  by (simp_all add: twins_def)

text \<open>One side of a match changes.\<close>

lemma twins_upd:
  assumes "twins L v w" "twin M g h"
  shows "twins (L(s := M)) (upd_game s (\<lambda>_. g) v) (upd_game s (\<lambda>_. h) w)"
  unfolding twins_def
proof (intro conjI allI)
  show "twin ((L(s := M)) t) (v_game t (upd_game s (\<lambda>_. g) v)) (v_game t (upd_game s (\<lambda>_. h) w))" for t
    using side_cases [of t s] assms twins_game [OF assms(1)] by auto
qed (use twins_result [OF assms(1)] in simp)

lemma twins_upd_same:
  "twins L v w \<Longrightarrow> twin (L s) (f (v_game s v)) (h (v_game s w)) \<Longrightarrow> twins L (upd_game s f v) (upd_game s h w)"
  by (subst (1 2) upd_game_cong) (metis fun_upd_triv twins_upd)

lemma twins_outputs:
  assumes "twins L v w" "\<And>s. v_game s v' = v_game s v" "\<And>s. v_game s w' = v_game s w" "v_result v' = v_result v" "v_result w' = v_result w"
  shows "twins L v' w'"
  using assms by (simp add: twins_def)

subsection \<open>The relay of twins\<close>

lemma twins_launch:
  assumes "twins L v w" shows "twins L (relay_launch s t v) (relay_launch s t w)"
proof (cases "is_spy t")
  case True
  then show ?thesis by (intro twins_outputs [OF assms]) (simp_all add: relay_launch_spy)
next
  case False
  obtain d a b where D: "deliver_weapon (v_game s v) (v_game (other_side s) v) t = (d, a, b)"
    by (cases "deliver_weapon (v_game s v) (v_game (other_side s) v) t")
  obtain a' b' where D': "deliver_weapon (v_game s w) (v_game (other_side s) w) t = (d, a', b')"
    and tw: "twin (L s) a a'" "twin (L (other_side s)) b b'"
    using twin_deliver [OF twins_game [OF assms] twins_game [OF assms] D] by metis
  show ?thesis
    unfolding twins_def
  proof (intro conjI allI)
    show "twin (L u) (v_game u (relay_launch s t v)) (v_game u (relay_launch s t w))" for u
      using side_cases [of u s] tw relay_launch_weapon(1,2) [OF False D] relay_launch_weapon(1,2) [OF False D'] by auto
  qed (use twins_result [OF assms] relay_launch_weapon(3) [OF False D] relay_launch_weapon(3) [OF False D'] in simp)
qed

lemma twins_push: "twins L v w \<Longrightarrow> twins L (push_out s e v) (push_out s' e' w)"
  by (erule twins_outputs) simp_all

lemma twins_step:
  assumes "twins L v w" shows "twins L (relay_step s e v) (relay_step s e w)"
proof (cases e)
  case (WeaponLaunched t)
  then show ?thesis using twins_launch [OF assms] by (simp add: relay_step_def)
next
  case (Scored a b c)
  then show ?thesis
    using twin_ops(4) [OF twins_game [OF assms]] by (simp add: relay_step_def twins_push twins_upd_same [OF assms])
next
  case (FundsStolen n)
  then show ?thesis
    using twin_ops(2) [OF twins_game [OF assms]] by (simp add: relay_step_def twins_push twins_upd_same [OF assms])
next
  case GameOver
  then show ?thesis
    using assms twins_result [OF assms] by (auto simp: relay_step_def twins_def)
qed (use assms in \<open>auto intro: twins_outputs [OF assms] simp: relay_step_def\<close>)

lemma twins_fold: "twins L v w \<Longrightarrow> twins L (fold (relay_step s) es v) (fold (relay_step s) es w)"
  by (induction es arbitrary: v w) (simp_all add: twins_step)

text \<open>Events that are no news to the other side change nothing but its display.\<close>

lemma twin_dress: "twin L g h \<Longrightarrow> twin L (dress (a, b, []) g) h"
  by (erule twinE) (simp add: twinI)

lemma stale_step:
  assumes "twins L v w" "safe v" "stale (op_lines (v_game (other_side s) v)) e"
  shows "twins L (relay_step s e v) w"
proof (cases e)
  case (Scored a b c)
  let ?g = "v_game (other_side s) v"
  have "bazaar_inv ?g" using reachable_ok [OF safeD [OF assms(2)]] by (simp add: game_ok_def setup_ok_def)
  then have "receive_op_score a b c ?g = dress (a, c, []) ?g"
    using assms(3) op_lines_arrive_same [of ?g] by (simp add: Scored receive_op_score_dress op_lines_def)
  then have "twin (L (other_side s)) (receive_op_score a b c ?g) (v_game (other_side s) w)"
    using twin_dress [OF twins_game [OF assms(1)]] by simp
  then have "twins L (upd_game (other_side s) (receive_op_score a b c) v) (upd_game (other_side s) (\<lambda>g. g) w)"
    by (intro twins_upd_same [OF assms(1)])
  moreover have "upd_game (other_side s) (\<lambda>g. g) w = w" by (cases s) (simp_all add: upd_game_def)
  ultimately show ?thesis using twins_push [where s' = s] by (auto simp: Scored relay_step_def intro: twins_outputs)
qed (use assms(1,3) in \<open>auto simp: stale_def relay_step_def intro: twins_outputs\<close>)

lemma stale_fold:
  assumes "twins L v w" "safe v" "\<forall>e \<in> set es. stale (op_lines (v_game (other_side s) v)) e"
  shows "twins L (fold (relay_step s) es v) w"
  using assms
proof (induction es arbitrary: v)
  case (Cons e es)
  have l: "op_lines (v_game (other_side s) (relay_step s e v)) = op_lines (v_game (other_side s) v)"
    using relay_step_keeps(3) [OF Cons.prems(2), of s e False] Cons.prems(3) by (cases e) (simp_all add: stale_def)
  show ?case
    unfolding fold.simps comp_def
    by (rule Cons.IH [OF stale_step [OF Cons.prems(1,2)] relay_step_safe [OF Cons.prems(2)]]) (use Cons.prems(3) l in auto)
qed simp

lemma twins_half:
  assumes "twins L v w" "safe v" "\<forall>e \<in> set (L s). stale (op_lines (v_game (other_side s) v)) e"
  shows "twins (L(s := [])) (relay_half s v) (relay_half s w)"
proof -
  let ?d = "\<lambda>v. upd_game s (\<lambda>g. snd (take_events g)) v"
  have "twins (L(s := [])) (?d v) (?d w)"
    by (subst (1 2) upd_game_cong) (rule twins_upd [OF assms(1)], rule twin_drain [OF twins_game [OF assms(1)]])
  moreover have "safe (?d v)"
    using r_events assms(2) by (cases s) (simp_all add: safe_def upd_game_def)
  ultimately have "twins (L(s := [])) (fold (relay_step s) (L s) (?d v)) (?d w)"
    by (rule stale_fold) (use assms(3) in simp)
  then have "twins (L(s := [])) (fold (relay_step s) (g_events (v_game s w)) (fold (relay_step s) (L s) (?d v))) (relay_half s w)"
    unfolding relay_half_def by (rule twins_fold)
  then show ?thesis using twin_reads(1) [OF twins_game [OF assms(1)], of s] by (simp add: relay_half_def)
qed

text \<open>What is left waiting after the relay is no news.\<close>

lemma half_newsless:
  assumes "safe v"
  shows "newsless (v_game s (relay_half s v))" "newsless (v_game t v) \<Longrightarrow> newsless (v_game t (relay_half s v))"
proof -
  let ?v = "upd_game s (\<lambda>g. snd (take_events g)) v"
  have "safe ?v" using r_events assms by (cases s) (simp_all add: safe_def upd_game_def)
  note F = relay_fold [OF this, where s = s]
  have s: "newsless (v_game s ?v)" by (simp add: newsless_def take_events_def)
  show *: "newsless (v_game s (relay_half s v))" unfolding relay_half_def using F [where t = s] keeps_newsD(6) [OF _ s] by blast
  show "newsless (v_game t (relay_half s v))" if "newsless (v_game t v)"
    using side_cases [of t s]
  proof
    assume "t = other_side s"
    then have "newsless (v_game t ?v)" using that by simp
    then show ?thesis unfolding relay_half_def using F [where t = t] keeps_newsD(6) by blast
  qed (use * in simp)
qed

lemma relay_newsless: "safe v \<Longrightarrow> newsless (v_game s (relay v))"
proof -
  assume v: "safe v"
  note A = half_newsless(1) [OF v, of Side_A] and safe = relay_half_motion(3) [OF v, of Side_A]
  show ?thesis
    using half_newsless(2) [OF safe, where s = Side_B, OF A] half_newsless(1) [OF safe, where s = Side_B]
    by (cases s) (simp_all add: relay_def)
qed

subsection \<open>The playback follows the live match\<close>

definition unheard :: "(side \<Rightarrow> game_event list) \<Rightarrow> versus \<Rightarrow> bool" where
  "unheard L v \<longleftrightarrow> (\<forall>s. \<forall>e \<in> set (L s). stale (op_lines (v_game (other_side s) v)) e)"

definition live_like :: "versus \<Rightarrow> versus \<Rightarrow> bool" where
  "live_like v w \<longleftrightarrow> match_inv v \<and> (\<exists>L. twins L v w \<and> (v_result v = 0 \<longrightarrow> unheard L v))"

definition drain_both :: "versus \<Rightarrow> versus" where
  "drain_both w = upd_game Side_B (\<lambda>g. snd (take_events g)) (upd_game Side_A (\<lambda>g. snd (take_events g)) w)"

lemma drain_both_fields [simp]:
  "v_game s (drain_both w) = snd (take_events (v_game s w))" "v_result (drain_both w) = v_result w"
  by (cases s; simp add: drain_both_def upd_game_def v_game_def)+

lemma twin_cut: "twin L g h \<Longrightarrow> twin (g_events g) g (snd (take_events h))"
proof (erule twinE)
  fix p q p' q' k assume k: "g = dress (p, q, L) k" "h = dress (p', q', []) k"
  have "g = dress (p, q, g_events g) (k\<lparr>g_events := []\<rparr>)" "snd (take_events h) = dress (p', q', []) (k\<lparr>g_events := []\<rparr>)"
    by (simp_all add: k take_events_def dress_def)
  then show ?thesis using twinI by metis
qed

lemma twins_cut: "twins L v w \<Longrightarrow> twins (\<lambda>s. g_events (v_game s v)) v (drain_both w)"
  using twin_cut by (auto simp: twins_def)

lemma relay_like:
  assumes v: "safe v" and i: "\<And>s. informs (op_lines (v_game (other_side s) v), False) (v_game s v)" and r: "v_result v = 0"
    and t: "twins L v w" and u: "unheard L v"
  shows "live_like (relay v) (drain_both (relay w))"
proof -
  note A = relay_half_law [OF v, of Side_A False, simplified, OF i [of Side_A, simplified]]
  have sa: "\<forall>e \<in> set (L Side_A). stale (op_lines (v_game (other_side Side_A) v)) e" using u unfolding unheard_def by blast
  have "\<forall>e \<in> set (L Side_B). stale (op_lines (v_game (other_side Side_B) v)) e" using u unfolding unheard_def by blast
  then have sb: "\<forall>e \<in> set ((L(Side_A := [])) Side_B). stale (op_lines (v_game (other_side Side_B) (relay_half Side_A v))) e"
    using A(3) by simp
  obtain M where "twins M (relay v) (relay w)"
    using twins_half [OF twins_half [OF t v sa] A(1) sb] by (auto simp: relay_def)
  then have tw: "twins (\<lambda>s. g_events (v_game s (relay v))) (relay v) (drain_both (relay w))" by (rule twins_cut)
  note R = relay_law [OF v i r]
  have "s_lines (g_score (v_game s (relay v))) = op_lines (v_game (other_side s) (relay v))" for s
    using R(3) [of s] arg_cong [OF R(2) [of s], of fst] by (simp add: truth_def)
  then have "unheard (\<lambda>s. g_events (v_game s (relay v))) (relay v)"
    using relay_newsless [OF v] by (simp add: unheard_def newsless_def)
  then show ?thesis using tw R(1) by (auto simp: live_like_def)
qed

lemma live_like_input:
  assumes "live_like v w" "\<forall>a b c. i \<noteq> ReceiveOpScore a b c"
  shows "live_like (upd_game s (apply_to_game i) v) (upd_game s (apply_to_game i) w)"
proof -
  obtain L where L: "match_inv v" "twins L v w" "v_result v = 0 \<longrightarrow> unheard L v" using assms(1) by (auto simp: live_like_def)
  have "op_lines (v_game t (upd_game s (apply_to_game i) v)) = op_lines (v_game t v)" for t
    using side_cases [of t s] apply_op_lines [OF assms(2)] by auto
  then have "unheard L (upd_game s (apply_to_game i) v) = unheard L v" by (simp add: unheard_def)
  moreover have "twins L (upd_game s (apply_to_game i) v) (upd_game s (apply_to_game i) w)"
    by (rule twins_upd_same [OF L(2)]) (rule twin_apply [OF twins_game [OF L(2)]])
  ultimately show ?thesis using match_input [OF L(1) assms(2)] L(3) by (auto simp: live_like_def)
qed

lemma live_like_tick:
  assumes "live_like v w" "versus_tick dt v = Some v'"
  shows "\<exists>w'. vp_tick dt w = Some w' \<and> live_like v' w'"
proof -
  obtain L where L: "match_inv v" "twins L v w" "v_result v = 0 \<Longrightarrow> unheard L v" using assms(1) by (auto simp: live_like_def)
  have vp: "vp_tick dt w = map_option drain_both (versus_tick dt w)" by (simp add: vp_tick_def drain_both_def [abs_def])
  note res = twins_result [OF L(2)]
  have baz: "g_in_bazaar (v_a w) = g_in_bazaar (v_a v)" "g_in_bazaar (v_b w) = g_in_bazaar (v_b v)"
    using twin_reads(2) [OF twins_game [OF L(2)], of Side_A] twin_reads(2) [OF twins_game [OF L(2)], of Side_B] by (simp_all add: v_game_def)
  consider (over) "v_result v \<noteq> 0" | (shop) "v_result v = 0" "g_in_bazaar (v_a v) \<or> g_in_bazaar (v_b v)"
    | (play) "v_result v = 0" "\<not> g_in_bazaar (v_a v)" "\<not> g_in_bazaar (v_b v)" by blast
  then show ?thesis
  proof cases
    case over
    then have "v' = v" "versus_tick dt w = Some w" using assms(2) res by (simp_all add: versus_tick_def)
    then show ?thesis using twins_cut [OF L(2)] L(1) over by (auto simp: vp live_like_def)
  next
    case shop
    then have "v' = relay v" "versus_tick dt w = Some (relay w)" using assms(2) res baz by (simp_all add: versus_tick_def)
    moreover have "live_like (relay v) (drain_both (relay w))"
      by (rule relay_like [OF _ _ shop(1) L(2,3)]) (use L(1) shop(1) in \<open>simp_all add: match_inv_def\<close>)
    ultimately show ?thesis by (simp add: vp)
  next
    case play
    obtain a b where t: "tick dt (v_a v) = Some a" "tick dt (v_b v) = Some b" "versus_tick dt v = Some (relay (v\<lparr>v_a := a, v_b := b\<rparr>))"
      "safe (v\<lparr>v_a := a, v_b := b\<rparr>)"
      "\<And>s. informs (op_lines (v_game (other_side s) (v\<lparr>v_a := a, v_b := b\<rparr>)), False) (v_game s (v\<lparr>v_a := a, v_b := b\<rparr>))"
      using versus_tick_law [OF L(1) play] by metis
    have ok: "game_ok (v_a v)" "game_ok (v_b v)" using L(1) reachable_ok by (simp_all add: match_inv_def safe_def)
    obtain a' where a': "tick dt (v_a w) = Some a'" "twin (L Side_A) a a'"
      using twin_tick [OF twins_game [OF L(2), of Side_A, unfolded v_game_def, simplified] t(1) ok(1)] .
    obtain b' where b': "tick dt (v_b w) = Some b'" "twin (L Side_B) b b'"
      using twin_tick [OF twins_game [OF L(2), of Side_B, unfolded v_game_def, simplified] t(2) ok(2)] .
    have tw: "twins L (v\<lparr>v_a := a, v_b := b\<rparr>) (w\<lparr>v_a := a', v_b := b'\<rparr>)"
      using a'(2) b'(2) res by (simp add: twins_def v_game_def split: side.split)
    have "op_lines a = op_lines (v_a v)" "op_lines b = op_lines (v_b v)" using tick_op_lines t(1,2) ok by blast+
    then have "op_lines (v_game s (v\<lparr>v_a := a, v_b := b\<rparr>)) = op_lines (v_game s v)" for s by (cases s) (simp_all add: v_game_def)
    then have "unheard L (v\<lparr>v_a := a, v_b := b\<rparr>)" using L(3) [OF play(1)] by (simp add: unheard_def)
    then have "live_like (relay (v\<lparr>v_a := a, v_b := b\<rparr>)) (drain_both (relay (w\<lparr>v_a := a', v_b := b'\<rparr>)))"
      by (intro relay_like [OF t(4,5) _ tw]) (simp_all add: play)
    moreover have "versus_tick dt w = Some (relay (w\<lparr>v_a := a', v_b := b'\<rparr>))"
      using a'(1) b'(1) play res baz by (simp add: versus_tick_def)
    ultimately show ?thesis using assms(2) t(3) by (simp add: vp)
  qed
qed

subsection \<open>The host records what it does\<close>

text \<open>The bouts a server can reach that ticks its match by \<open>dt\<close>, as long as the tick counter fits the recording's.\<close>

inductive hosted :: "i32 \<Rightarrow> bout \<Rightarrow> bool" for dt where
  h_new: "bout_new seed_a seed_b = Some b \<Longrightarrow> hosted dt b"
| h_input: "hosted dt b \<Longrightarrow> hosted dt (snd (bout_input s i seq b))"
| h_grant: "hosted dt b \<Longrightarrow> hosted dt (snd (debug_grant s weapon funds b))"
| h_ack: "hosted dt b \<Longrightarrow> hosted dt (reset_ack s b)"
| h_tick: "hosted dt b \<Longrightarrow> unat (bo_tick b) + 1 < 2 ^ 32 \<Longrightarrow> bout_tick dt b = Some b' \<Longrightarrow> hosted dt b'"
| h_dirty: "hosted dt b \<Longrightarrow> hosted dt (snd (bout_take_dirty b))"
| h_events: "hosted dt b \<Longrightarrow> hosted dt (snd (take_events_for s b))"

definition relayed :: "versus_frame \<Rightarrow> bool" where
  "relayed f \<longleftrightarrow> (\<forall>a b c. vf_input f \<noteq> ReceiveOpScore a b c)"

interpretation bouts: tracking vf_tick vf_apply "vp_tick dt" vf_apply "versus_tick dt" relayed live_like for dt
proof (unfold_locales, goal_cases)
  case (1 l e f)
  then show ?case using live_like_input by (simp add: vf_apply_def Let_def relayed_def)
next
  case (2 l e l')
  then show ?case by (rule live_like_tick)
qed

definition on_record :: "i32 \<Rightarrow> bout \<Rightarrow> bool" where
  "on_record dt b \<longleftrightarrow> unat (bo_tick b) < 2 ^ 32 \<and> (\<exists>v. versus_new (bo_seed_a b) (bo_seed_b b) = Some v \<and>
     tracked vf_tick vf_apply (vp_tick dt) live_like v (bo_frames b) (unat (bo_tick b)) (bo_versus b))"

lemma live_like_outputs:
  assumes "v_a v' = v_a v" "v_b v' = v_b v" "v_result v' = v_result v"
  shows "live_like v' w = live_like v w"
proof -
  have g: "v_game s v' = v_game s v" for s using assms by (cases s) (simp_all add: v_game_def)
  show ?thesis using match_inv_outputs [OF assms] assms(3) by (simp add: live_like_def twins_def unheard_def g)
qed

lemma on_record_outputs:
  assumes "on_record dt b" "bo_tick b' = bo_tick b" "bo_seed_a b' = bo_seed_a b" "bo_seed_b b' = bo_seed_b b" "bo_frames b' = bo_frames b"
    "v_a (bo_versus b') = v_a (bo_versus b)" "v_b (bo_versus b') = v_b (bo_versus b)" "v_result (bo_versus b') = v_result (bo_versus b)"
  shows "on_record dt b'"
  using assms(1) live_like_outputs [OF assms(6-8)] by (simp add: on_record_def tracked_def assms(2-5))

lemma unat_stamp: "unat (t :: u64) < 2 ^ 32 \<Longrightarrow> unat (ucast t :: u32) = unat t"
  by (simp add: unsigned_ucast_eq take_bit_nat_eq_self)

lemma on_record_frame:
  assumes "on_record dt b" "\<forall>a b c. i \<noteq> ReceiveOpScore a b c" "bo_versus b' = upd_game s (apply_to_game i) (bo_versus b)"
    "bo_tick b' = bo_tick b" "bo_seed_a b' = bo_seed_a b" "bo_seed_b b' = bo_seed_b b" "bo_frames b' = bo_frames b"
  shows "on_record dt (push_frame s i b')"
proof -
  let ?f = "\<lparr>vf_tick = ucast (bo_tick b), vf_side = side_idx s, vf_input = i\<rparr>"
  have f: "vf_apply ?f v = upd_game s (apply_to_game i) v" for v
    by (cases s) (simp_all add: vf_apply_def side_idx_def)
  obtain v where v: "versus_new (bo_seed_a b) (bo_seed_b b) = Some v" "unat (bo_tick b) < 2 ^ 32"
    and t: "tracked vf_tick vf_apply (vp_tick dt) live_like v (bo_frames b) (unat (bo_tick b)) (bo_versus b)"
    using assms(1) by (auto simp: on_record_def)
  have "unat (vf_tick ?f) = unat (bo_tick b)" "relayed ?f" using unat_stamp [OF v(2)] assms(2) by (simp_all add: relayed_def)
  from bouts.tracked_app [OF t this] show ?thesis
    using v by (simp add: on_record_def push_frame_def f assms(3-))
qed

lemma on_record_tick:
  assumes "on_record dt b" "versus_tick dt (bo_versus b) = Some v'" "unat (bo_tick b) + 1 < 2 ^ 32"
  shows "on_record dt (b\<lparr>bo_versus := v', bo_tick := bo_tick b + 1\<rparr>)"
proof -
  obtain v where v: "versus_new (bo_seed_a b) (bo_seed_b b) = Some v" "unat (bo_tick b) < 2 ^ 32"
    and t: "tracked vf_tick vf_apply (vp_tick dt) live_like v (bo_frames b) (unat (bo_tick b)) (bo_versus b)"
    using assms(1) by (auto simp: on_record_def)
  have "unat (bo_tick b + 1) = Suc (unat (bo_tick b))" using assms(3) by (simp add: unat_word_ariths)
  then show ?thesis
    using bouts.tracked_adv [OF t assms(2)] v assms(3) by (simp add: on_record_def)
qed

lemma tick_spies_fields [simp]:
  "bo_tick (tick_spies s b) = bo_tick b" "bo_seed_a (tick_spies s b) = bo_seed_a b" "bo_seed_b (tick_spies s b) = bo_seed_b b"
  "bo_frames (tick_spies s b) = bo_frames b" "v_a (bo_versus (tick_spies s b)) = v_a (bo_versus b)"
  "v_b (bo_versus (tick_spies s b)) = v_b (bo_versus b)" "v_result (bo_versus (tick_spies s b)) = v_result (bo_versus b)"
  by (simp_all add: tick_spies_def Let_def take_spy_launches_def)

lemma bout_input_cases:
  obtains (refused) "bout_input s i seq b = (False, b)"
    | (frozen) "bout_input s i seq b = (False, b\<lparr>bo_ack := (bo_ack b)(s := seq)\<rparr>)" "is_legal_client_input i" "bo_ack b s < seq"
        "barrier s b" "\<not> is_bazaar_input i"
    | (taken) "bout_input s i seq b
        = (True, push_frame s i (b\<lparr>bo_ack := (bo_ack b)(s := seq), bo_versus := upd_game s (apply_to_game i) (bo_versus b)\<rparr>))"
        "is_legal_client_input i" "bo_ack b s < seq" "barrier s b \<Longrightarrow> is_bazaar_input i"
proof -
  have bar: "barrier s (b\<lparr>bo_ack := a\<rparr>) = barrier s b" for a by (simp add: barrier_def)
  consider (no) "\<not> is_legal_client_input i \<or> seq \<le> bo_ack b s"
    | (shut) "is_legal_client_input i" "\<not> seq \<le> bo_ack b s" "barrier s b" "\<not> is_bazaar_input i"
    | (open_) "is_legal_client_input i" "\<not> seq \<le> bo_ack b s" "barrier s b \<Longrightarrow> is_bazaar_input i" by blast
  then show ?thesis
  proof cases
    case no
    then show ?thesis by (intro that(1)) (simp add: bout_input_def)
  next
    case shut
    then show ?thesis by (intro that(2)) (simp_all add: bout_input_def Let_def bar)
  next
    case open_
    then have "\<not> (barrier s b \<and> \<not> is_bazaar_input i)" by blast
    then show ?thesis using open_ by (intro that(3)) (simp_all add: bout_input_def Let_def bar)
  qed
qed

lemma legal_relayed: "is_legal_client_input i \<Longrightarrow> \<forall>a b c. i \<noteq> ReceiveOpScore a b c"
  by (auto simp: is_legal_client_input_def)

lemma on_record_input: "on_record dt b \<Longrightarrow> on_record dt (snd (bout_input s i seq b))"
proof (cases rule: bout_input_cases [of s i seq b])
  case frozen
  then show "on_record dt b \<Longrightarrow> ?thesis" by (auto elim: on_record_outputs)
next
  case taken
  then show "on_record dt b \<Longrightarrow> ?thesis"
    using on_record_frame [OF _ legal_relayed [OF taken(2)]] by simp
qed simp

text \<open>A grant is a grant input, a credit a credit input.\<close>

definition grant_step :: "side \<Rightarrow> weapon_token option \<Rightarrow> bout \<Rightarrow> bout" where
  "grant_step s weapon b = (case weapon of
       Some tok \<Rightarrow> if fst (grant_weapon tok (v_game s (bo_versus b)))
         then push_frame s (GrantWeapon (int (index tok))) (b\<lparr>bo_versus := upd_game s (apply_to_game (GrantWeapon (int (index tok)))) (bo_versus b)\<rparr>)
         else b
     | None \<Rightarrow> b)"

definition funds_step :: "side \<Rightarrow> i64 option \<Rightarrow> bout \<Rightarrow> bout" where
  "funds_step s funds b = (case funds of
       Some n \<Rightarrow> if n \<noteq> 0 then push_frame s (AddFunds n) (b\<lparr>bo_versus := upd_game s (apply_to_game (AddFunds n)) (bo_versus b)\<rparr>) else b
     | None \<Rightarrow> b)"

lemma buy_refused: "\<not> fst (buy a t) \<Longrightarrow> snd (buy a t) = a"
proof -
  have "\<not> fst (buy_loop is t a) \<Longrightarrow> snd (buy_loop is t a) = a" for "is"
    by (induction "is") (auto simp: Let_def split: if_splits)
  then show "\<not> fst (buy a t) \<Longrightarrow> snd (buy a t) = a" by (simp add: buy_def)
qed

lemma upd_game_same: "upd_game s (\<lambda>_. v_game s v) v = v"
  by (cases s) (simp_all add: upd_game_def v_game_def)

lemma upd_game_twice: "upd_game s f (upd_game s h v) = upd_game s (\<lambda>g. f (h g)) v"
  by (cases s) (simp_all add: upd_game_def)

lemma upd_credit:
  "upd_game s (apply_to_game (GrantWeapon (int (index t)))) v = upd_game s (\<lambda>_. snd (grant_weapon t (v_game s v))) v"
  "upd_game s (apply_to_game (AddFunds n)) v = upd_game s (\<lambda>_. add_funds n (v_game s v)) v"
  by (simp_all add: upd_game_cong [of s "apply_to_game _"] apply_to_game_def with_token_def)

lemma debug_grant_steps: "snd (debug_grant s weapon funds b) = funds_step s funds (grant_step s weapon b)"
proof -
  have g: "\<not> fst (grant_weapon t g) \<Longrightarrow> snd (grant_weapon t g) = g" for t g
    using buy_refused [of "g_arsenal g" t] by (auto simp: grant_weapon_def split_beta)
  have same: "b\<lparr>bo_versus := bo_versus b\<rparr> = b" by simp
  show ?thesis
    by (cases weapon; cases funds)
      (simp_all add: debug_grant_def grant_step_def funds_step_def split_beta Let_def push_frame_def upd_credit
        upd_game_same upd_game_twice g)
qed

lemma on_record_steps:
  assumes "on_record dt b" shows "on_record dt (grant_step s w b)" "on_record dt (funds_step s n b)"
  using assms
  by (auto simp: grant_step_def funds_step_def split: option.split intro!: on_record_frame [where b = b])

lemma bout_tick_record:
  assumes "on_record dt b" "unat (bo_tick b) + 1 < 2 ^ 32" "bout_tick dt b = Some b'"
  shows "on_record dt b' \<and> bo_tick b' = bo_tick b + 1 \<and> bo_frames b' = bo_frames b \<and> bo_seed_a b' = bo_seed_a b \<and> bo_seed_b b' = bo_seed_b b"
proof -
  obtain v' where v': "versus_tick dt (bo_versus b) = Some v'"
    and b': "b' = tick_spies Side_B (tick_spies Side_A (b\<lparr>bo_versus := v', bo_tick := bo_tick b + 1\<rparr>))"
    using assms(3) by (auto simp: bout_tick_def elim!: bind_eq_SomeE)
  show ?thesis
    using on_record_outputs [OF on_record_tick [OF assms(1) v' assms(2)], of b'] by (simp add: b')
qed

lemma hosted_on_record: "hosted dt b \<Longrightarrow> on_record dt b"
proof (induction rule: hosted.induct)
  case (h_new seed_a seed_b b)
  then obtain v where v: "versus_new seed_a seed_b = Some v" by (auto simp: bout_new_def elim!: bind_eq_SomeE)
  have "twins (\<lambda>s. []) v v"
  proof -
    have "g = dress (s_op_score (g_score g), s_op_funds (g_score g), []) g" for g by (simp add: dress_def)
    then have "twin [] g g" for g using twinI by metis
    then show ?thesis by (simp add: twins_def)
  qed
  then have "live_like v v" using match_inv_new [OF v] by (auto simp: live_like_def unheard_def)
  then show ?case
    using h_new v bouts.tracked_start by (auto simp: on_record_def bout_new_def)
next
  case (h_input b s i seq)
  then show ?case by (intro on_record_input)
next
  case (h_grant b s weapon funds)
  then show ?case unfolding debug_grant_steps by (intro on_record_steps)
next
  case (h_tick b b')
  then show ?case using bout_tick_record by blast
qed (auto elim!: on_record_outputs simp: reset_ack_def bout_take_dirty_def take_dirty_def take_events_for_def take_outbox_def)

text \<open>Everything of a game but the two mirrors and the event queue.\<close>

definition undressed :: "game \<Rightarrow> game" where
  "undressed g = g\<lparr>g_score := (g_score g)\<lparr>s_op_score := 0, s_op_funds := 0\<rparr>, g_events := []\<rparr>"

lemma twin_undressed: "twin L g h \<Longrightarrow> undressed g = undressed h"
  by (erule twinE) (simp add: undressed_def dress_def)

text \<open>
  The recording a host exports is the match: after any tick of a bout, whatever the clients sent and
  the admin granted and however they were drained or reconnected, playing the exported recording returns
  and ends at the same tick with the same result and, on both sides, the same game in every field but the
  event queue and the mirrors of the opponent's score and funds; for 32-bit seeds and fewer than
  \<open>2 ^ 32\<close> ticks.
\<close>

theorem bout_replays:
  assumes "hosted dt b" "bout_tick dt b = Some b'" "unat (bo_tick b) + 1 < 2 ^ 32"
    "unat (bo_seed_a b) < 2 ^ 32" "unat (bo_seed_b b) < 2 ^ 32"
  shows "\<exists>p q. vp_new (bout_to_replay dt sha b') = Some p \<and> vp_run_to_end p = Some q \<and>
    unat (vp_executed q) = unat (bo_tick b') \<and> v_result (vp_versus q) = v_result (bo_versus b') \<and>
    (\<forall>s. undressed (v_game s (vp_versus q)) = undressed (v_game s (bo_versus b')))"
proof -
  note T = bout_tick_record [OF hosted_on_record [OF assms(1)] assms(3,2)]
  have t': "unat (bo_tick b') = Suc (unat (bo_tick b))" using T assms(3) by (simp add: unat_word_ariths)
  obtain v where v: "versus_new (bo_seed_a b') (bo_seed_b b') = Some v" "unat (bo_tick b') < 2 ^ 32"
    and tr: "tracked vf_tick vf_apply (vp_tick dt) live_like v (bo_frames b') (unat (bo_tick b')) (bo_versus b')"
    using T by (auto simp: on_record_def)
  have past: "unat (vf_tick f) < unat (bo_tick b')" if "f \<in> set (bo_frames b')" for f
    using hosted_on_record [OF assms(1)] T that t' by (auto simp: on_record_def tracked_def le_imp_less_Suc)
  obtain x where x: "timeline vf_tick vf_apply (vp_tick dt) (bo_frames b') v (unat (bo_tick b')) = Some x" "live_like (bo_versus b') x"
    using bouts.tracked_end [OF tr past] .
  let ?r = "bout_to_replay dt sha b'" and ?p = "\<lparr>vp_versus = v, vp_replay = bout_to_replay dt sha b', vp_executed = 0, vp_cursor = 0\<rparr>"
  have seed: "(ucast (ucast n :: u32) :: u64) = n" if "unat n < 2 ^ 32" for n :: u64
    using unat_stamp [OF that] by (simp add: word_unat_eq_iff unsigned_ucast_eq unsigned_take_bit_eq take_bit_nat_eq_self)
  have new: "vp_new ?r = Some ?p"
    using v(1) T seed [OF assms(4)] seed [OF assms(5)] by (simp add: vp_new_def bout_to_replay_def)
  have cnt: "unat (vr_tick_count ?r) = unat (bo_tick b')" using unat_stamp [OF v(2)] by (simp add: bout_to_replay_def)
  have fields: "vr_frames ?r = bo_frames b'" "vr_dt_ms ?r = dt" by (simp_all add: bout_to_replay_def)
  have "sorted (map (\<lambda>f. unat (vf_tick f)) (vr_frames ?r))" using tr by (simp add: tracked_def fields)
  from vp.steps_timeline [OF new this, of "unat (bo_tick b')"]
  obtain q where q: "steps vp_step (unat (bo_tick b')) ?p = Some q" "vp_versus q = x"
    using x(1) cnt by (auto simp: fields)
  have "vp_run_to_end ?p = Some q" using vp.run_steps [of ?p] q(1) cnt by simp
  moreover have "unat (vp_executed q) = unat (bo_tick b')" using vp.steps_pos [OF q(1)] cnt by simp
  moreover obtain L where "twins L (bo_versus b') x" using x(2) by (auto simp: live_like_def)
  then have "v_result x = v_result (bo_versus b')" "undressed (v_game s x) = undressed (v_game s (bo_versus b'))" for s
    using twins_result twins_game twin_undressed by metis+
  ultimately show ?thesis using new q(2) by blast
qed

theorem bout_replays_witness:
  "\<exists>b b' p q. bout_new 7 8 = Some b \<and>
     bout_tick TICK_MS (snd (bout_input Side_A MoveLeft 1 (snd (debug_grant Side_B (Some Bug) (Some 500) b)))) = Some b' \<and>
     vp_new (bout_to_replay TICK_MS ''dev'' b') = Some p \<and> vp_run_to_end p = Some q \<and>
     (\<forall>s. undressed (v_game s (vp_versus q)) = undressed (v_game s (bo_versus b')))"
proof -
  obtain v where v: "versus_new 7 8 = Some v" "played v" by (rule played_new)
  then obtain b where b: "bout_new 7 8 = Some b" by (simp add: bout_new_def)
  let ?b = "snd (bout_input Side_A MoveLeft 1 (snd (debug_grant Side_B (Some Bug) (Some 500) b)))"
  have h: "hosted TICK_MS ?b" by (intro h_input h_grant h_new [OF b])
  have b0: "bo_tick b = 0" "bo_seed_a b = 7" "bo_seed_b b = 8" using b by (auto simp: bout_new_def elim!: bind_eq_SomeE)
  have f: "bo_tick (snd (bout_input s i n c)) = bo_tick c" "bo_seed_a (snd (bout_input s i n c)) = bo_seed_a c"
    "bo_seed_b (snd (bout_input s i n c)) = bo_seed_b c" for s i n c
    by (cases rule: bout_input_cases [of s i n c]; simp add: push_frame_def)+
  have g: "bo_tick (snd (debug_grant s w m c)) = bo_tick c" "bo_seed_a (snd (debug_grant s w m c)) = bo_seed_a c"
    "bo_seed_b (snd (debug_grant s w m c)) = bo_seed_b c" for s w m c
    by (simp_all add: debug_grant_steps grant_step_def funds_step_def push_frame_def split: option.split)
  have "live_like (bo_versus ?b) x \<Longrightarrow> match_inv (bo_versus ?b)" for x by (simp add: live_like_def)
  then have "match_inv (bo_versus ?b)" using hosted_on_record [OF h] by (auto simp: on_record_def tracked_def)
  then obtain b' where b': "bout_tick TICK_MS ?b = Some b'"
    using match_tick [of "bo_versus ?b" TICK_MS] by (auto simp: bout_tick_def elim: returnsE)
  show ?thesis using bout_replays [OF h b', of "''dev''"] b b' by (auto simp: f g b0)
qed

end
