(* ===== verification/Host.thy ===== *)
theory Host
  imports MatchReplay
begin

section \<open>What a client can do to a match\<close>

text \<open>
  The promises of the host's input gate and of the snapshots: a client can only play, and sees of the
  opponent only what its spy shows.
\<close>

subsection \<open>The worth of an arsenal\<close>

definition share :: "(weapon_token \<Rightarrow> int) \<Rightarrow> weapon_token option \<Rightarrow> u16 \<Rightarrow> int" where
  "share price r q = (case r of Some w \<Rightarrow> price w * int (unat q) | None \<Rightarrow> 0)"

definition worth :: "(weapon_token \<Rightarrow> int) \<Rightarrow> arsenal \<Rightarrow> int" where
  "worth price a = (\<Sum>i < 10. share price (rep a ! i) (quantity a ! i))"

text \<open>Funds, and what the arsenal would sell for at the prices of the moment.\<close>

definition wealth :: "game \<Rightarrow> int" where
  "wealth g = s_funds (g_score g) + worth (\<lambda>t. bazaar_price t g) (g_arsenal g)"

text \<open>Free slots are empty.\<close>

definition tidy :: "arsenal \<Rightarrow> bool" where
  "tidy a \<longleftrightarrow> length (rep a) = 10 \<and> length (quantity a) = 10 \<and> (\<forall>i < 10. rep a ! i = None \<longrightarrow> quantity a ! i = 0)"

lemma wf_arsenal_tidy: "wf_arsenal a \<Longrightarrow> tidy a"
  by (simp add: wf_arsenal_def tidy_def bt_const)

lemma share_simps [simp]: "share p None q = 0" "share p (Some w) q = p w * int (unat q)"
  by (simp_all add: share_def)

lemma worth_update:
  assumes "tidy a" "i < 10"
  shows "worth p (a\<lparr>rep := (rep a)[i := r], quantity := (quantity a)[i := q]\<rparr>)
    = worth p a - share p (rep a ! i) (quantity a ! i) + share p r q"
proof -
  let ?b = "a\<lparr>rep := (rep a)[i := r], quantity := (quantity a)[i := q]\<rparr>"
  have split: "worth p c = share p (rep c ! i) (quantity c ! i) + (\<Sum>j \<in> {..<10} - {i}. share p (rep c ! j) (quantity c ! j))" for c
    unfolding worth_def using assms(2) by (intro sum.remove) auto
  have "(\<Sum>j \<in> {..<10} - {i}. share p (rep ?b ! j) (quantity ?b ! j)) = (\<Sum>j \<in> {..<10} - {i}. share p (rep a ! j) (quantity a ! j))"
    by (rule sum.cong) auto
  then show ?thesis using assms split [of a] split [of ?b] by (simp add: tidy_def)
qed

lemma buy_worth:
  assumes "tidy a" "\<And>w. 0 \<le> p w"
  shows "tidy (snd (buy a w))" "worth p (snd (buy a w)) \<le> worth p a + (if fst (buy a w) then p w else 0)"
proof -
  have le: "p w * int (unat (q + 1)) \<le> p w * int (unat q) + p w" for q :: u16
  proof -
    have "unat (q + 1) \<le> unat q + 1" by (simp add: unat_word_ariths)
    then have "int (unat (q + 1)) \<le> int (unat q) + 1" by linarith
    then show ?thesis using mult_left_mono [OF _ assms(2)] by (fastforce simp: algebra_simps)
  qed
  show "worth p (snd (buy a w)) \<le> worth p a + (if fst (buy a w) then p w else 0)"
  proof (cases rule: buy_cases [of a w])
    case (slot i)
    then show ?thesis
      using worth_update [OF assms(1) slot(1), where p = p and r = "Some w" and q = "quantity a ! i + 1"] le [of "quantity a ! i"] assms(1)
      by (auto simp: can_take_def tidy_def)
  qed simp
  show "tidy (snd (buy a w))"
    by (cases rule: buy_cases [of a w]) (use assms(1) in \<open>auto simp: tidy_def nth_list_update\<close>)
qed

lemma use_slot_update:
  assumes "tidy a" "i < 10" "quantity a ! i \<noteq> 0"
  shows "use_slot a i = a\<lparr>rep := (rep a)[i := (if quantity a ! i = 1 then None else rep a ! i)],
    quantity := (quantity a)[i := quantity a ! i - 1]\<rparr>"
  using assms by (simp add: use_slot_def Let_def bt_const tidy_def)

lemma use_slot_idle: "\<not> (i < 10 \<and> quantity a ! i \<noteq> 0) \<Longrightarrow> use_slot a i = a"
  by (auto simp: use_slot_def bt_const)

lemma use_slot_tidy:
  assumes "tidy a" shows "tidy (use_slot a i)"
proof (cases "i < 10 \<and> quantity a ! i \<noteq> 0")
  case True
  then show ?thesis
    using use_slot_update [OF assms] assms by (auto simp: tidy_def nth_list_update)
qed (use use_slot_idle assms in simp)

lemma share_less_one: "q \<noteq> 0 \<Longrightarrow> share p (if q = 1 then None else Some w) (q - 1) = share p (Some w) q - p w"
proof -
  assume "q \<noteq> 0"
  then have "int (unat (q - 1)) = int (unat q) - 1" by (simp add: unat_minus_1 of_nat_diff Suc_leI unat_gt_0)
  then have "p w * int (unat (q - 1)) = p w * int (unat q) - p w" by (simp only: right_diff_distrib mult_1_right)
  then show ?thesis by (simp only: share_def split: if_splits option.split) (auto simp: share_def)
qed

lemma use_slot_worth_one:
  assumes "tidy a" "i < 10" "rep a ! i = Some w" "quantity a ! i \<noteq> 0"
  shows "worth p (use_slot a i) = worth p a - p w"
  unfolding use_slot_update [OF assms(1,2,4)] worth_update [OF assms(1,2)] assms(3)
  using share_less_one [OF assms(4), of p w] by simp

lemma use_slot_worth:
  assumes "tidy a" "\<And>w. 0 \<le> p w"
  shows "worth p (use_slot a i) \<le> worth p a"
proof (cases "i < 10 \<and> quantity a ! i \<noteq> 0")
  case True
  then obtain w where "rep a ! i = Some w" using assms(1) by (cases "rep a ! i") (auto simp: tidy_def)
  then show ?thesis using True use_slot_worth_one [OF assms(1), of i w p] assms(2) [of w] by simp
qed (use use_slot_idle in simp)

lemma sell_worth:
  assumes "tidy a"
  shows "tidy (snd (sell a w))" "worth p (snd (sell a w)) = worth p a - (if fst (sell a w) then p w else 0)"
  by (cases rule: sell_cases [of a w]; use use_slot_worth_one [OF assms] use_slot_tidy [OF assms] assms in \<open>auto simp: holds_copy_def\<close>)+

subsection \<open>What a legal input cannot touch\<close>

definition settled :: "game \<Rightarrow> _" where
  "settled g = (g_board g, g_pieces g, g_rng g, (s_lines (g_score g), s_op_lines (g_score g), s_op_score (g_score g), s_op_funds (g_score g)),
     g_weapons g, g_remaining g, g_pending g, g_pending_board g, g_lines_til_baz g, g_lock_seq g, g_lock_hash g)"

lemma settled_keeps:
  "settled (g\<lparr>g_current := c\<rparr>) = settled g" "settled (g\<lparr>g_x := x\<rparr>) = settled g" "settled (g\<lparr>g_y := x\<rparr>) = settled g"
  "settled (g\<lparr>g_sliding := x\<rparr>) = settled g" "settled (g\<lparr>g_phase := ph\<rparr>) = settled g" "settled (g\<lparr>g_slide_accum := x\<rparr>) = settled g"
  "settled (g\<lparr>g_drop_accum := x\<rparr>) = settled g" "settled (g\<lparr>g_dropping := b\<rparr>) = settled g" "settled (g\<lparr>g_drop_time := x\<rparr>) = settled g" "settled (g\<lparr>g_slide_time := x\<rparr>) = settled g"
  "settled (g\<lparr>g_arsenal := a\<rparr>) = settled g" "settled (g\<lparr>g_in_bazaar := b\<rparr>) = settled g"
  "settled (push_event e g) = settled g" "settled (add_score_funds n g) = settled g" "settled (add_score n g) = settled g"
  by (simp_all add: settled_def push_event_def add_score_funds_def add_score_def)

lemma legal_settled: "is_legal_client_input i \<Longrightarrow> settled (apply_to_game i g) = settled g"
  by (cases i) (auto simp: is_legal_client_input_def apply_to_game_def with_token_def move_left_def move_right_def move_by_def
      game_rotate_def rotate_internal_def soft_drop_def drop_step_def start_slide_def begin_drop_def engage_fast_drop_def
      launch_weapon_def buy_weapon_def sell_weapon_def leave_bazaar_def settled_keeps Let_def split_beta split: option.split)

text \<open>No legal input raises the wealth; it trades it, and firing a weapon spends it.\<close>

definition purse :: "game \<Rightarrow> i64 \<times> arsenal" where
  "purse g = (s_funds (g_score g), g_arsenal g)"

lemma wealth_purse: "purse h = purse g \<Longrightarrow> settled h = settled g \<Longrightarrow> wealth h = wealth g"
  by (simp add: wealth_def purse_def settled_def bazaar_price_def weapon_active_def)

lemma bazaar_price_nonneg: "0 \<le> bazaar_price t g"
  using price_of_bounds [of t] by (simp add: bazaar_price_def Let_def)

lemma purse_keeps:
  "purse (g\<lparr>g_current := c\<rparr>) = purse g" "purse (g\<lparr>g_x := x\<rparr>) = purse g" "purse (g\<lparr>g_y := x\<rparr>) = purse g"
  "purse (g\<lparr>g_sliding := x\<rparr>) = purse g" "purse (g\<lparr>g_phase := ph\<rparr>) = purse g" "purse (g\<lparr>g_slide_accum := x\<rparr>) = purse g"
  "purse (g\<lparr>g_drop_accum := x\<rparr>) = purse g" "purse (g\<lparr>g_dropping := b\<rparr>) = purse g" "purse (g\<lparr>g_drop_time := x\<rparr>) = purse g"
  "purse (g\<lparr>g_slide_time := x\<rparr>) = purse g" "purse (g\<lparr>g_in_bazaar := b\<rparr>) = purse g" "purse (add_score n g) = purse g"
  by (simp_all add: purse_def add_score_def)

lemma move_purse:
  "purse (move_left g) = purse g" "purse (move_right g) = purse g" "purse (game_rotate g) = purse g" "purse (soft_drop g) = purse g"
  "purse (begin_drop g) = purse g" "purse (leave_bazaar g) = purse g"
  by (simp_all add: move_left_def move_right_def move_by_def game_rotate_def rotate_internal_def soft_drop_def drop_step_def
      start_slide_def begin_drop_def engage_fast_drop_def leave_bazaar_def purse_keeps Let_def split_beta split: option.split)

lemma launch_wealth:
  assumes "tidy (g_arsenal g)"
  shows "tidy (g_arsenal (launch_weapon n g)) \<and> wealth (launch_weapon n g) \<le> wealth g"
  using use_slot_worth [OF assms, of "\<lambda>t. bazaar_price t g" n, OF bazaar_price_nonneg] use_slot_tidy [OF assms] assms
  by (auto simp: launch_weapon_def push_event_def wealth_def bazaar_price_nonneg bazaar_price_def weapon_active_def split: option.split)

lemma buy_wealth:
  assumes "tidy (g_arsenal g)"
  shows "tidy (g_arsenal (snd (buy_weapon t g))) \<and> wealth (snd (buy_weapon t g)) \<le> wealth g"
proof -
  obtain ok a where b: "buy (g_arsenal g) t = (ok, a)" by (cases "buy (g_arsenal g) t")
  have "tidy a" "worth (\<lambda>t. bazaar_price t g) a \<le> worth (\<lambda>t. bazaar_price t g) (g_arsenal g) + (if ok then bazaar_price t g else 0)"
    using buy_worth [OF assms, of "\<lambda>t. bazaar_price t g" t] by (simp_all add: b bazaar_price_nonneg)
  then show ?thesis
    using assms by (auto simp: buy_weapon_def b Let_def wealth_def add_score_funds_def bazaar_price_def weapon_active_def)
qed

lemma sell_wealth:
  assumes "tidy (g_arsenal g)"
  shows "tidy (g_arsenal (snd (sell_weapon t g))) \<and> wealth (snd (sell_weapon t g)) \<le> wealth g"
proof -
  obtain ok a where b: "sell (g_arsenal g) t = (ok, a)" by (cases "sell (g_arsenal g) t")
  have "tidy a" "worth (\<lambda>t. bazaar_price t g) a = worth (\<lambda>t. bazaar_price t g) (g_arsenal g) - (if ok then bazaar_price t g else 0)"
    using sell_worth [OF assms, where w = t] by (simp_all add: b)
  then show ?thesis
    using assms by (auto simp: sell_weapon_def b Let_def wealth_def add_score_funds_def bazaar_price_def weapon_active_def)
qed

lemma legal_wealth:
  assumes "is_legal_client_input i" "tidy (g_arsenal g)"
  shows "tidy (g_arsenal (apply_to_game i g)) \<and> wealth (apply_to_game i g) \<le> wealth g"
proof -
  have still: "tidy (g_arsenal h) \<and> wealth h \<le> wealth g" if "h = apply_to_game i g" "purse h = purse g" for h
    using that wealth_purse [of h g] legal_settled [OF assms(1)] assms(2) by (simp add: purse_def)
  show ?thesis
    by (cases i; (rule still [OF refl], simp add: apply_to_game_def move_purse; fail)?;
        use assms launch_wealth buy_wealth sell_wealth in \<open>simp add: apply_to_game_def move_purse is_legal_client_input_def with_token_def split: option.split\<close>)
qed

text \<open>No legal input opens a bazaar.\<close>

lemma legal_bazaar: "is_legal_client_input i \<Longrightarrow> g_in_bazaar (apply_to_game i g) \<Longrightarrow> g_in_bazaar g"
  by (cases i) (auto simp: is_legal_client_input_def apply_to_game_def with_token_def move_left_def move_right_def move_by_def
      game_rotate_def rotate_internal_def soft_drop_def drop_step_def start_slide_def begin_drop_def engage_fast_drop_def
      launch_weapon_def buy_weapon_def sell_weapon_def leave_bazaar_def Let_def split_beta add_score_def add_score_funds_def push_event_def
      split: option.splits if_splits)

subsection \<open>A stream of client inputs\<close>

text \<open>What arrives between two ticks: the host takes it in order; the accepted ones are listed.\<close>

type_synonym message = "side \<times> input \<times> u64"

fun clients :: "message list \<Rightarrow> bout \<Rightarrow> message list \<times> bout" where
  "clients [] b = ([], b)"
| "clients ((s, i, n) # ms) b =
     (let (ok, b) = bout_input s i n b; (acc, b) = clients ms b in ((if ok then [(s, i, n)] else []) @ acc, b))"

definition seqs :: "side \<Rightarrow> message list \<Rightarrow> u64 list" where
  "seqs s ms = map (\<lambda>(_, _, n). n) (filter (\<lambda>(t, _, _). t = s) ms)"

definition inputs_of :: "side \<Rightarrow> message list \<Rightarrow> input list" where
  "inputs_of s ms = map (\<lambda>(_, i, _). i) (filter (\<lambda>(t, _, _). t = s) ms)"

lemma seqs_append: "seqs s (xs @ ys) = seqs s xs @ seqs s ys"
  by (simp add: seqs_def)

text \<open>The host as the messages leave it: only the accepted ones have been applied, acknowledgements only grow.\<close>

definition host_moved :: "bout \<Rightarrow> message list \<Rightarrow> bout \<Rightarrow> bool" where
  "host_moved b acc b' \<longleftrightarrow>
     bo_frames b' = bo_frames b @ map (\<lambda>(s, i, _). \<lparr>vf_tick = ucast (bo_tick b), vf_side = side_idx s, vf_input = i\<rparr>) acc \<and>
     bo_tick b' = bo_tick b \<and> v_result (bo_versus b') = v_result (bo_versus b) \<and>
     (\<forall>s. bo_ack b s \<le> bo_ack b' s \<and> sorted_wrt (<) (bo_ack b s # seqs s acc) \<and> (\<forall>n \<in> set (seqs s acc). n \<le> bo_ack b' s) \<and>
        v_game s (bo_versus b') = fold apply_to_game (inputs_of s acc) (v_game s (bo_versus b)))"

lemma host_moved_refl: "bo_ack b' = (bo_ack b)(s := n) \<Longrightarrow> bo_ack b s \<le> n \<Longrightarrow> bo_frames b' = bo_frames b \<Longrightarrow> bo_tick b' = bo_tick b \<Longrightarrow>
    bo_versus b' = bo_versus b \<Longrightarrow> host_moved b [] b'"
  by (simp add: host_moved_def seqs_def inputs_of_def)

lemma host_moved_trans:
  assumes "host_moved b xs c" "host_moved c ys d"
  shows "host_moved b (xs @ ys) d"
proof -
  have "bo_ack b s \<le> bo_ack d s \<and> sorted_wrt (<) (bo_ack b s # seqs s (xs @ ys)) \<and> (\<forall>n \<in> set (seqs s (xs @ ys)). n \<le> bo_ack d s)" for s
  proof -
    have 1: "bo_ack b s \<le> bo_ack c s" "sorted_wrt (<) (bo_ack b s # seqs s xs)" "\<forall>n \<in> set (seqs s xs). n \<le> bo_ack c s"
      and 2: "bo_ack c s \<le> bo_ack d s" "sorted_wrt (<) (bo_ack c s # seqs s ys)" "\<forall>n \<in> set (seqs s ys). n \<le> bo_ack d s"
      using assms by (simp_all add: host_moved_def)
    have "n < m" if "n \<in> set (bo_ack b s # seqs s xs)" "m \<in> set (seqs s ys)" for n m
      using 1(1,3) 2(2) that by (auto intro: le_less_trans)
    then show ?thesis using 1 2 by (auto simp: seqs_append sorted_wrt_append intro: order_trans)
  qed
  then show ?thesis using assms by (simp add: host_moved_def inputs_of_def)
qed

lemma bout_input_moved: "host_moved b (if fst (bout_input s i n b) then [(s, i, n)] else []) (snd (bout_input s i n b))"
proof (cases rule: bout_input_cases [of s i n b])
  case refused
  then show ?thesis using host_moved_refl [of b b s "bo_ack b s"] by simp
next
  case frozen
  then show ?thesis using host_moved_refl [of _ b s n] by simp
next
  case taken
  have "v_game t (upd_game s (apply_to_game i) (bo_versus b)) = fold apply_to_game (inputs_of t [(s, i, n)]) (v_game t (bo_versus b))" for t
    using side_cases [of t s] by (auto simp: inputs_of_def)
  then show ?thesis using taken(3) by (auto simp: taken(1) host_moved_def push_frame_def seqs_def)
qed

lemma clients_moved: "clients ms b = (acc, b') \<Longrightarrow> host_moved b acc b'"
proof (induction ms arbitrary: b acc)
  case Nil
  then show ?case using host_moved_refl [of b b Side_A "bo_ack b Side_A"] by simp
next
  case (Cons m ms)
  obtain s i n where m: "m = (s, i, n)" by (cases m)
  obtain ok c where c: "bout_input s i n b = (ok, c)" by (cases "bout_input s i n b")
  obtain acc' where "clients ms c = (acc', b')" "acc = (if ok then [(s, i, n)] else []) @ acc'"
    using Cons.prems by (cases "clients ms c") (auto simp: m c)
  then show ?case using host_moved_trans [OF bout_input_moved [of b s i n]] Cons.IH by (simp add: c)
qed

text \<open>Only legal inputs are accepted, and none but shopping while the barrier holds to the end.\<close>

lemma clientsE:
  assumes "clients ((t, j, k) # ms) b = (acc, b')"
  obtains acc' where "clients ms (snd (bout_input t j k b)) = (acc', b')"
    "acc = (if fst (bout_input t j k b) then [(t, j, k)] else []) @ acc'"
  using assms by (cases "bout_input t j k b"; cases "clients ms (snd (bout_input t j k b))") auto

lemma barrier_falls: "barrier u (snd (bout_input t j k b)) \<Longrightarrow> barrier u b"
proof (cases rule: bout_input_cases [of t j k b])
  case frozen
  then show "barrier u (snd (bout_input t j k b)) \<Longrightarrow> ?thesis" by (simp add: barrier_def)
next
  case taken
  have "g_in_bazaar (v_game w (upd_game t (apply_to_game j) (bo_versus b))) \<Longrightarrow> g_in_bazaar (v_game w (bo_versus b))" for w
    using side_cases [of w t] legal_bazaar [OF taken(2)] by auto
  then show "barrier u (snd (bout_input t j k b)) \<Longrightarrow> ?thesis"
    unfolding taken(1) by (auto simp: barrier_def push_frame_def)
qed simp

lemma clients_barrier: "clients ms b = (acc, b') \<Longrightarrow> barrier u b' \<Longrightarrow> barrier u b"
proof (induction ms arbitrary: b acc)
  case (Cons m ms)
  obtain t j k where m: "m = (t, j, k)" by (cases m)
  from Cons.prems(1) [unfolded m] show ?case
    by (rule clientsE) (use Cons.IH Cons.prems(2) barrier_falls in blast)
qed simp

lemma clients_legal:
  assumes "clients ms b = (acc, b')" "(s, i, n) \<in> set acc"
  shows "is_legal_client_input i \<and> (barrier s b' \<longrightarrow> is_bazaar_input i)"
  using assms
proof (induction ms arbitrary: b acc)
  case (Cons m ms)
  obtain t j k where m: "m = (t, j, k)" by (cases m)
  obtain acc' where acc': "clients ms (snd (bout_input t j k b)) = (acc', b')"
    "acc = (if fst (bout_input t j k b) then [(t, j, k)] else []) @ acc'"
    using Cons.prems(1) [unfolded m] by (rule clientsE)
  show ?case
  proof (cases "(s, i, n) \<in> set acc'")
    case True
    then show ?thesis using Cons.IH [OF acc'(1)] by simp
  next
    case False
    then have "fst (bout_input t j k b)" "(s, i, n) = (t, j, k)" using Cons.prems(2) acc'(2) by (auto split: if_splits)
    moreover have "is_legal_client_input j" "barrier t b \<Longrightarrow> is_bazaar_input j" if "fst (bout_input t j k b)"
      using that by (cases rule: bout_input_cases [of t j k b]; simp)+
    ultimately show ?thesis using clients_barrier [OF Cons.prems(1)] by simp
  qed
qed simp

text \<open>
  C18. A client can only play. Whatever the two clients send, in any order, with any sequence numbers,
  illegal or replayed or while the bazaar is open: the games move by the accepted inputs alone, which are
  what the recording gains; on each side the accepted sequence numbers strictly increase from the
  acknowledged one, so none counts twice, and the acknowledgement never falls; no accepted input is other
  than shopping while the barrier stands. Nothing they do changes a board, the weapons active, running
  or waiting, the lines or the generator of either side - a soft drop included, which moves the piece or lets it slide but
  never locks it - and neither side's funds plus what its arsenal would sell for ever grow. (The arsenals hold no
  count that has wrapped round to zero.)
\<close>

theorem clients_only_play:
  assumes "clients ms b = (acc, b')" "\<And>s. wf_arsenal (g_arsenal (v_game s (bo_versus b)))"
  shows "host_moved b acc b' \<and> (\<forall>(s, i, n) \<in> set acc. is_legal_client_input i \<and> (barrier s b' \<longrightarrow> is_bazaar_input i)) \<and>
    settled (v_game s (bo_versus b')) = settled (v_game s (bo_versus b)) \<and>
    wealth (v_game s (bo_versus b')) \<le> wealth (v_game s (bo_versus b)) \<and> (seqs s acc = [] \<longrightarrow> v_game s (bo_versus b') = v_game s (bo_versus b))"
proof -
  have legal: "\<forall>(s, i, n) \<in> set acc. is_legal_client_input i \<and> (barrier s b' \<longrightarrow> is_bazaar_input i)"
    using clients_legal [OF assms(1)] by blast
  have run: "settled (fold apply_to_game is g) = settled g \<and> tidy (g_arsenal (fold apply_to_game is g)) \<and> wealth (fold apply_to_game is g) \<le> wealth g"
    if "\<forall>i \<in> set is. is_legal_client_input i" "tidy (g_arsenal g)" for "is" g
    using that
  proof (induction "is" arbitrary: g)
    case (Cons i "is")
    then show ?case using legal_settled [of i g] legal_wealth [of i g] Cons.IH [of "apply_to_game i g"] by (auto intro: order_trans)
  qed simp
  note moved = clients_moved [OF assms(1)]
  have "\<forall>i \<in> set (inputs_of s acc). is_legal_client_input i" using legal by (auto simp: inputs_of_def)
  note R = run [OF this wf_arsenal_tidy [OF assms(2) [of s]]]
  have "v_game s (bo_versus b') = fold apply_to_game (inputs_of s acc) (v_game s (bo_versus b))" using moved by (simp add: host_moved_def)
  moreover have "seqs s acc = [] \<Longrightarrow> inputs_of s acc = []" by (simp add: seqs_def inputs_of_def)
  ultimately show ?thesis using moved legal R by simp
qed

theorem clients_only_play_witness:
  "\<exists>b. bout_new 7 8 = Some b \<and>
     (let (acc, b') = clients [(Side_A, AddFunds 1000, 1), (Side_A, MoveLeft, 3), (Side_A, Rotate, 3), (Side_B, BuyWeapon 2, 9)] b
      in wealth (v_game Side_A (bo_versus b')) \<le> wealth (v_game Side_A (bo_versus b)))"
proof -
  obtain v where v: "versus_new 7 8 = Some v" "played v" by (rule played_new)
  then obtain b where b: "bout_new 7 8 = Some b" "bo_versus b = v" by (simp add: bout_new_def)
  obtain g h where "game_new 7 = Some g" "game_new 8 = Some h" "v_a v = g" "v_b v = h"
    using v(1) by (auto simp: versus_new_def elim!: bind_eq_SomeE)
  then have wf: "wf_arsenal (g_arsenal (v_game s (bo_versus b)))" for s
    using game_new_fields(3) b(2) by (cases s) (simp_all add: v_game_def)
  have "let (acc, b') = clients ms b in wealth (v_game Side_A (bo_versus b')) \<le> wealth (v_game Side_A (bo_versus b))" for ms
    using clients_only_play [OF surjective_pairing wf, of ms Side_A] by (simp add: split_beta Let_def)
  then show ?thesis using b(1) by blast
qed

subsection \<open>What a snapshot shows\<close>

text \<open>Whether the opponent cleared four lines within Ace's window.\<close>

definition four_lines_lately :: "side \<Rightarrow> bout \<Rightarrow> bool" where
  "four_lines_lately s b \<longleftrightarrow> (let last = bo_last_opp_tetris_tick b s in
     last \<noteq> 0 \<and> unat (if last \<le> bo_tick b then bo_tick b - last else 0) < ACE_TETRIS_WINDOW)"

text \<open>
  C19. A snapshot tells a client nothing of its opponent but the score, the lines, whether the game is over
  and whether it shops, unless a spy of its own is running: without one (or off the spy's cadence) any
  opponent that agrees in these four gives the same snapshot, keyframe included, whatever its board, piece,
  funds and arsenal, and whatever the own game mirrors of the opponent's funds. A running spy adds the board, with
  the share of it that the client is to hide (half under Ames, 15 percent under Ace, none under Condor), and the funds:
  the exact ones under Condor; under Ace off by less than 100, and exact unless the opponent has just cleared four lines;
  under Ames off by no more than they amount to (by at most 3 if they are -1), for amounts below 2 to the 62.
\<close>

theorem snapshot_hides:
  assumes "s_score (g_score h) = s_score (g_score them)" "s_lines (g_score h) = s_lines (g_score them)"
    "(g_phase h = Over) = (g_phase them = Over)" "g_in_bazaar h = g_in_bazaar them" "them = v_game (other_side s) (bo_versus b)"
    and "b' = b\<lparr>bo_versus := upd_game (other_side s) (\<lambda>_. h) (upd_game s (\<lambda>g. g\<lparr>g_score := (g_score g)\<lparr>s_op_funds := n\<rparr>\<rparr>) (bo_versus b))\<rparr>"
  defines "funds \<equiv> s_funds (g_score them)"
  shows "(bo_spy b s = None \<or> \<not> spies \<longrightarrow> build_snapshot s kf spies b' = build_snapshot s kf spies b) \<and>
    (bo_spy b s = Some (t, r) \<and> spies \<longrightarrow> sn_spy_board (build_snapshot s kf spies b) = Some (render_ids them) \<and>
       sn_spy_hide (build_snapshot s kf spies b) = Some (if t = Ames then 50 else if t = Ace then 15 else 0) \<and>
       (\<exists>f. sn_spy_funds (build_snapshot s kf spies b) = Some f \<and>
          (t = Condor \<longrightarrow> f = funds) \<and>
          (t = Ace \<longrightarrow> \<bar>f - funds\<bar> < 100 \<and> (\<not> four_lines_lately s b \<longrightarrow> f = funds)) \<and>
          (t = Ames \<and> \<bar>funds\<bar> < 2 ^ 62 \<longrightarrow> \<bar>f - funds\<bar> \<le> (if funds = - 1 then 3 else \<bar>funds\<bar>))))"
proof -
  let ?me = "v_game s (bo_versus b)"
  have g: "v_game s (bo_versus b') = ?me\<lparr>g_score := (g_score ?me)\<lparr>s_op_funds := n\<rparr>\<rparr>" "v_game (other_side s) (bo_versus b') = h"
    "v_result (bo_versus b') = v_result (bo_versus b)"
    using v_game_upd(2) [of "other_side s"] by (simp_all add: assms(6))
  have f: "bo_tick b' = bo_tick b" "bo_ack b' = bo_ack b" "bo_spy b' = bo_spy b" by (simp_all add: assms(6))
  have k: "client_keyframe_bytes (g\<lparr>g_score := (g_score g)\<lparr>s_op_funds := n\<rparr>\<rparr>) = client_keyframe_bytes g" for g
    by (simp add: client_keyframe_bytes_def)
  have none: "build_snapshot s kf spies b' = build_snapshot s kf spies b" if "bo_spy b s = None \<or> \<not> spies"
    using that assms(1-4)
    by (auto simp: build_snapshot_def Let_def g f k assms(5) split: option.split)
  have shown: "sn_spy_board (build_snapshot s kf spies b) = Some (render_ids them) \<and>
      sn_spy_hide (build_snapshot s kf spies b) = Some (hide_pct t) \<and>
      sn_spy_funds (build_snapshot s kf spies b) =
        Some (adjust_funds funds t (noise_for (bo_tick b) (ucast (side_idx s))) (four_lines_lately s b))"
    if "bo_spy b s = Some (t, r)" "spies"
    using that by (simp add: build_snapshot_def Let_def assms(5) funds_def four_lines_lately_def)
  have hide: "hide_pct t = (if t = Ames then 50 else if t = Ace then 15 else 0)" by (cases t) (simp_all add: hide_pct_def)
  have blur: "(t = Condor \<longrightarrow> f = funds) \<and> (t = Ace \<longrightarrow> \<bar>f - funds\<bar> < 100 \<and> (\<not> four_lines_lately s b \<longrightarrow> f = funds)) \<and>
      (t = Ames \<and> \<bar>funds\<bar> < 2 ^ 62 \<longrightarrow> \<bar>f - funds\<bar> \<le> (if funds = - 1 then 3 else \<bar>funds\<bar>))"
    if "f = adjust_funds funds t z (four_lines_lately s b)" for f z
    using that adjust_funds_Ace adjust_funds_Ames adjust_funds_Ames_minus adjust_funds_calm by (auto simp del: of_int_power)
  show ?thesis using none shown hide blur by auto
qed

theorem snapshot_hides_witness:
  "\<exists>b. bout_new 7 8 = Some b \<and>
     build_snapshot Side_A True True (b\<lparr>bo_versus := upd_game Side_B (add_score_funds 900) (bo_versus b)\<rparr>) = build_snapshot Side_A True True b"
proof -
  obtain v where v: "versus_new 7 8 = Some v" "played v" by (rule played_new)
  then obtain b where b: "bout_new 7 8 = Some b" "bo_spy b = (\<lambda>_. None)" by (simp add: bout_new_def)
  let ?h = "add_score_funds 900 (v_game Side_B (bo_versus b))" and ?n = "s_op_funds (g_score (v_game Side_A (bo_versus b)))"
  have "upd_game Side_A (\<lambda>g. g\<lparr>g_score := (g_score g)\<lparr>s_op_funds := ?n\<rparr>\<rparr>) (bo_versus b) = bo_versus b"
    by (simp add: upd_game_def v_game_def)
  then have "b\<lparr>bo_versus := upd_game Side_B (add_score_funds 900) (bo_versus b)\<rparr>
      = b\<lparr>bo_versus := upd_game (other_side Side_A) (\<lambda>_. ?h) (upd_game Side_A (\<lambda>g. g\<lparr>g_score := (g_score g)\<lparr>s_op_funds := ?n\<rparr>\<rparr>) (bo_versus b))\<rparr>"
    using upd_game_cong [of Side_B "add_score_funds 900"] by simp
  from snapshot_hides [OF _ _ _ _ refl this] show ?thesis
    using b by (auto simp: add_score_funds_def)
qed

end
