(* ===== verification/Netcode.thy ===== *)
theory Netcode
  imports Bout
begin

section \<open>The client's prediction\<close>

text \<open>
  \<open>bt-netcode/src/lib.rs\<close>: the local copy of a client's own game, the inputs it has sent that are not
  acknowledged yet, and the ring of its last locks, against which the host's hashes are judged. The
  lock counter is the unbounded counter of the game; JSON is left to serde.
\<close>

definition LOCK_HISTORY :: nat where
  "LOCK_HISTORY = 8"

record predictor =
  pr_game :: game
  pr_input_seq :: u64
  pr_unacked :: "(u64 \<times> input) list"
  pr_you_bazaar :: bool
  pr_opp_bazaar :: bool
  pr_lock_history :: "(int \<times> u32) list"
  pr_mismatches :: u32
  pr_last_judged :: "int option"
  pr_last_seen_lock_seq :: int

definition pr_new :: "u64 \<Rightarrow> predictor option" where
  "pr_new seed = do {
     g \<leftarrow> game_new seed;
     Some \<lparr>pr_game = g, pr_input_seq = 0, pr_unacked = [], pr_you_bazaar = False, pr_opp_bazaar = False,
       pr_lock_history = [], pr_mismatches = 0, pr_last_judged = None, pr_last_seen_lock_seq = 0\<rparr>
   }"

definition note_lock :: "predictor \<Rightarrow> predictor" where
  "note_lock p =
     (let seq = g_lock_seq (pr_game p) in
      if seq \<noteq> pr_last_seen_lock_seq p then
        let ring = (if length (pr_lock_history p) = LOCK_HISTORY then tl (pr_lock_history p) else pr_lock_history p)
        in p\<lparr>pr_lock_history := ring @ [(seq, g_lock_hash (pr_game p))], pr_last_seen_lock_seq := seq\<rparr>
      else p)"

definition pr_tick :: "i32 \<Rightarrow> predictor \<Rightarrow> predictor option" where
  "pr_tick dt_ms p = do {
     g \<leftarrow> tick dt_ms (pr_game p);
     Some (note_lock (p\<lparr>pr_game := g\<rparr>))
   }"

definition pr_barrier :: "predictor \<Rightarrow> bool" where
  "pr_barrier p \<longleftrightarrow> pr_you_bazaar p \<or> pr_opp_bazaar p"

definition is_shopping :: "input \<Rightarrow> bool" where
  "is_shopping i = (case i of BuyWeapon _ \<Rightarrow> True | SellWeapon _ \<Rightarrow> True | _ \<Rightarrow> False)"

definition apply_shop :: "input \<Rightarrow> game \<Rightarrow> bool \<times> game" where
  "apply_shop i g = (case i of
       BuyWeapon t \<Rightarrow> (case from_index t of Some tok \<Rightarrow> buy_weapon tok g | None \<Rightarrow> (False, g))
     | SellWeapon t \<Rightarrow> (case from_index t of Some tok \<Rightarrow> sell_weapon tok g | None \<Rightarrow> (False, g))
     | _ \<Rightarrow> (False, g))"

definition replay_input :: "input \<Rightarrow> game \<Rightarrow> game" where
  "replay_input i g =
     (if g_in_bazaar g \<and> \<not> is_shopping i then g
      else case i of LeaveBazaar \<Rightarrow> g | _ \<Rightarrow> apply_to_game i g)"

text \<open>What \<open>predict\<close> does to the local game: None when the input is suppressed, with the game as it is left.\<close>

definition predict :: "input \<Rightarrow> predictor \<Rightarrow> (u64 \<times> input) option \<times> predictor" where
  "predict i p =
     (if pr_barrier p \<and> \<not> is_shopping i \<and> i \<noteq> LeaveBazaar then (None, p)
      else
        let (ok, g) = (case i of
              LeaveBazaar \<Rightarrow> (True, pr_game p)
            | BuyWeapon _ \<Rightarrow> apply_shop i (pr_game p)
            | SellWeapon _ \<Rightarrow> apply_shop i (pr_game p)
            | _ \<Rightarrow> (True, apply_to_game i (pr_game p)));
            p = p\<lparr>pr_game := g\<rparr>
        in if \<not> ok then (None, p)
           else
             let seq = pr_input_seq p + 1;
                 p = note_lock (p\<lparr>pr_input_seq := seq, pr_unacked := pr_unacked p @ [(seq, i)]\<rparr>)
             in (Some (seq, i), p))"

definition on_snapshot :: "u64 \<Rightarrow> bool \<Rightarrow> bool \<Rightarrow> u8 list option \<Rightarrow> predictor \<Rightarrow> predictor" where
  "on_snapshot ack you_bazaar opp_bazaar keyframe p =
     (let leaving_bazaar = pr_you_bazaar p \<and> \<not> you_bazaar;
          p = p\<lparr>pr_you_bazaar := you_bazaar, pr_opp_bazaar := opp_bazaar\<rparr>;
          p = p\<lparr>pr_unacked := filter (\<lambda>(seq, _). ack < seq) (pr_unacked p)\<rparr>;
          p = (case keyframe of
                Some bytes \<Rightarrow>
                  let g = fold (\<lambda>(_, i). replay_input i) (pr_unacked p) (snd (restore_bytes bytes (pr_game p)))
                  in p\<lparr>pr_game := g, pr_lock_history := [], pr_mismatches := 0, pr_last_judged := None,
                       pr_last_seen_lock_seq := g_lock_seq g\<rparr>
              | None \<Rightarrow>
                  if leaving_bazaar \<and> g_in_bazaar (pr_game p) then p\<lparr>pr_game := leave_bazaar (pr_game p)\<rparr> else p)
      in note_lock p)"

definition apply_event :: "input \<Rightarrow> predictor \<Rightarrow> predictor" where
  "apply_event i p = note_lock (p\<lparr>pr_game := apply_to_game i (pr_game p)\<rparr>)"

definition on_lock_hash :: "int \<Rightarrow> u32 \<Rightarrow> predictor \<Rightarrow> bool \<times> predictor" where
  "on_lock_hash lock_seq lock_hash p =
     (if pr_last_judged p = Some lock_seq then (False, p)
      else case find (\<lambda>(seq, _). seq = lock_seq) (pr_lock_history p) of
        None \<Rightarrow> (False, p)
      | Some (_, local_hash) \<Rightarrow>
          let p = p\<lparr>pr_last_judged := Some lock_seq\<rparr> in
          if local_hash = lock_hash then (False, p\<lparr>pr_mismatches := 0\<rparr>)
          else
            let p = p\<lparr>pr_mismatches := pr_mismatches p + 1\<rparr> in
            if pr_mismatches p \<ge> 2 then (True, p\<lparr>pr_mismatches := 0\<rparr>) else (False, p))"

end
