(* ===== verification/Reconcile.thy ===== *)
theory Reconcile
  imports Netcode Host
begin

section \<open>What the client's prediction promises\<close>

subsection \<open>The queue and the ring\<close>

text \<open>
  A client as it runs, with the judgements passed on its locks since the last keyframe, oldest first: the
  lock and whether its hash disagreed. The sequence counter never wraps.
\<close>

definition disagrees :: "int \<Rightarrow> u32 \<Rightarrow> predictor \<Rightarrow> bool" where
  "disagrees n h p \<longleftrightarrow> (case find (\<lambda>(seq, _). seq = n) (pr_lock_history p) of Some (_, k) \<Rightarrow> k \<noteq> h | None \<Rightarrow> False)"

definition judges :: "int \<Rightarrow> predictor \<Rightarrow> bool" where
  "judges n p \<longleftrightarrow> pr_last_judged p \<noteq> Some n \<and> n \<in> fst ` set (pr_lock_history p)"

inductive driven :: "predictor \<Rightarrow> (int \<times> bool) list \<Rightarrow> bool" where
  d_new: "pr_new seed = Some p \<Longrightarrow> driven p []"
| d_tick: "driven p js \<Longrightarrow> pr_tick dt p = Some p' \<Longrightarrow> driven p' js"
| d_predict: "driven p js \<Longrightarrow> pr_input_seq p + 1 \<noteq> 0 \<Longrightarrow> driven (snd (predict i p)) js"
| d_event: "driven p js \<Longrightarrow> driven (apply_event i p) js"
| d_plain: "driven p js \<Longrightarrow> driven (on_snapshot ack you opp None p) js"
| d_keyframe: "driven p js \<Longrightarrow> driven (on_snapshot ack you opp (Some bytes) p) []"
| d_judge: "driven p js \<Longrightarrow>
    driven (snd (on_lock_hash n h p)) (js @ (if judges n p then [(n, disagrees n h p)] else []))"

definition streak :: "(int \<times> bool) list \<Rightarrow> nat" where
  "streak js = length (takeWhile snd (rev js))"

definition queue_ok :: "predictor \<Rightarrow> bool" where
  "queue_ok p \<longleftrightarrow> sorted_wrt (<) (map fst (pr_unacked p)) \<and> (\<forall>n \<in> fst ` set (pr_unacked p). 0 < n \<and> n \<le> pr_input_seq p) \<and>
     length (pr_lock_history p) \<le> LOCK_HISTORY"

definition judged_ok :: "predictor \<Rightarrow> (int \<times> bool) list \<Rightarrow> bool" where
  "judged_ok p js \<longleftrightarrow> unat (pr_mismatches p) = streak js mod 2 \<and>
     pr_last_judged p = (if js = [] then None else Some (fst (last js))) \<and> distinct_adj (map fst js)"

lemma note_lock_fields [simp]:
  "pr_game (note_lock p) = pr_game p" "pr_input_seq (note_lock p) = pr_input_seq p" "pr_unacked (note_lock p) = pr_unacked p"
  "pr_you_bazaar (note_lock p) = pr_you_bazaar p" "pr_opp_bazaar (note_lock p) = pr_opp_bazaar p"
  "pr_mismatches (note_lock p) = pr_mismatches p" "pr_last_judged (note_lock p) = pr_last_judged p"
  by (simp_all add: note_lock_def Let_def)

lemma note_lock_ring: "length (pr_lock_history p) \<le> LOCK_HISTORY \<Longrightarrow> length (pr_lock_history (note_lock p)) \<le> LOCK_HISTORY"
  by (simp add: note_lock_def Let_def LOCK_HISTORY_def)

lemma queue_note [simp]: "queue_ok p \<Longrightarrow> queue_ok (note_lock p)"
  by (simp add: queue_ok_def note_lock_ring)

lemma judged_note [simp]: "judged_ok (note_lock p) js = judged_ok p js"
  by (simp add: judged_ok_def)

text \<open>What \<open>predict\<close> leaves: suppressed, refused, or queued with the next number.\<close>

lemma predict_cases:
  obtains (held) "predict i p = (None, p)"
    | (refused) g where "predict i p = (None, p\<lparr>pr_game := g\<rparr>)"
    | (sent) g where "predict i p = (Some (pr_input_seq p + 1, i), note_lock (p\<lparr>pr_game := g, pr_input_seq := pr_input_seq p + 1,
        pr_unacked := pr_unacked p @ [(pr_input_seq p + 1, i)]\<rparr>))"
proof -
  let ?X = "case i of LeaveBazaar \<Rightarrow> (True, pr_game p) | BuyWeapon _ \<Rightarrow> apply_shop i (pr_game p)
    | SellWeapon _ \<Rightarrow> apply_shop i (pr_game p) | _ \<Rightarrow> (True, apply_to_game i (pr_game p))"
  obtain ok g where X: "?X = (ok, g)" by (cases ?X)
  consider (bar) "pr_barrier p \<and> \<not> is_shopping i \<and> i \<noteq> LeaveBazaar"
    | (no) "\<not> (pr_barrier p \<and> \<not> is_shopping i \<and> i \<noteq> LeaveBazaar)" "\<not> ok"
    | (yes) "\<not> (pr_barrier p \<and> \<not> is_shopping i \<and> i \<noteq> LeaveBazaar)" "ok" by blast
  then show ?thesis
  proof cases
    case bar
    then show ?thesis using that(1) by (simp add: predict_def)
  next
    case no
    then show ?thesis by (intro that(2) [of g]) (simp only: predict_def X if_False Let_def prod.case, simp)
  next
    case yes
    then show ?thesis by (intro that(3) [of g]) (simp only: predict_def X if_False Let_def prod.case, simp)
  qed
qed

lemma word_less_plus_1: "(n :: u64) + 1 \<noteq> 0 \<Longrightarrow> 0 < n + 1 \<and> n < n + 1"
  by (simp add: word_less_nat_alt unatSuc unat_gt_0 add.commute)

lemma streak_snoc [simp]: "streak [] = 0" "streak (js @ [(n, True)]) = Suc (streak js)" "streak (js @ [(n, False)]) = 0"
  by (simp_all add: streak_def)

lemma odd_streak: "unat (m :: u32) = streak js mod 2 \<Longrightarrow> (2 \<le> m + 1) = odd (streak js)"
  and even_next: "unat (m :: u32) = streak js mod 2 \<Longrightarrow> even (streak js) \<Longrightarrow> unat (m + 1) = 1"
proof -
  assume m: "unat m = streak js mod 2"
  then have "m = (if odd (streak js) then 1 else 0)" by (cases "odd (streak js)") (simp_all add: word_unat_eq_iff odd_iff_mod_2_eq_one)
  then show "(2 \<le> m + 1) = odd (streak js)" "even (streak js) \<Longrightarrow> unat (m + 1) = 1" by (simp_all add: word_le_nat_alt)
qed

text \<open>One judgement.\<close>

lemma judge_step:
  assumes "judged_ok p js"
  shows "fst (on_lock_hash n h p) \<longleftrightarrow> judges n p \<and> disagrees n h p \<and> odd (streak js)"
    and "judged_ok (snd (on_lock_hash n h p)) (js @ (if judges n p then [(n, disagrees n h p)] else []))"
    and "pr_unacked (snd (on_lock_hash n h p)) = pr_unacked p" "pr_input_seq (snd (on_lock_hash n h p)) = pr_input_seq p"
    "pr_lock_history (snd (on_lock_hash n h p)) = pr_lock_history p" "pr_game (snd (on_lock_hash n h p)) = pr_game p"
proof -
  have m: "unat (pr_mismatches p) = streak js mod 2" and last: "pr_last_judged p = (if js = [] then None else Some (fst (last js)))"
    and adj: "distinct_adj (map fst js)" using assms by (simp_all add: judged_ok_def)
  show "pr_unacked (snd (on_lock_hash n h p)) = pr_unacked p" "pr_input_seq (snd (on_lock_hash n h p)) = pr_input_seq p"
    "pr_lock_history (snd (on_lock_hash n h p)) = pr_lock_history p" "pr_game (snd (on_lock_hash n h p)) = pr_game p"
    by (simp_all add: on_lock_hash_def Let_def split: option.split)
  have "(fst (on_lock_hash n h p) \<longleftrightarrow> judges n p \<and> disagrees n h p \<and> odd (streak js)) \<and>
    judged_ok (snd (on_lock_hash n h p)) (js @ (if judges n p then [(n, disagrees n h p)] else []))"
  proof (cases "judges n p")
    case False
    then have "on_lock_hash n h p = (False, p)"
      by (auto simp: judges_def on_lock_hash_def find_None_iff split: option.split) (force dest: find_SomeD)
    then show ?thesis using False assms by simp
  next
    case True
    then obtain k where k: "find (\<lambda>(seq, _). seq = n) (pr_lock_history p) = Some (n, k)"
      by (cases "find (\<lambda>(seq, _). seq = n) (pr_lock_history p)") (auto simp: judges_def find_None_iff dest: find_SomeD)
    have new: "pr_last_judged p \<noteq> Some n" using True by (simp add: judges_def)
    have adj': "distinct_adj (map fst (js @ [(n, b)]))" for b
      using adj new last by (cases js rule: rev_cases) (auto simp: distinct_adj_append_iff)
    show ?thesis
    proof (cases "k = h")
      case True
      then show ?thesis using \<open>judges n p\<close> k new adj' [of False] by (simp add: on_lock_hash_def disagrees_def judged_ok_def)
    next
      case False
      then show ?thesis
        using \<open>judges n p\<close> k new adj' [of True] odd_streak [OF m] even_next [OF m]
        by (cases "odd (streak js)") (simp_all add: on_lock_hash_def disagrees_def judged_ok_def Let_def mod2_eq_if)
    qed
  qed
  then show "fst (on_lock_hash n h p) \<longleftrightarrow> judges n p \<and> disagrees n h p \<and> odd (streak js)"
    "judged_ok (snd (on_lock_hash n h p)) (js @ (if judges n p then [(n, disagrees n h p)] else []))" by simp_all
qed

lemma queue_predict:
  assumes "queue_ok p" "pr_input_seq p + 1 \<noteq> 0" shows "queue_ok (snd (predict i p))"
proof (cases rule: predict_cases [of i p])
  case (sent g)
  have "n < pr_input_seq p + 1" if "n \<in> fst ` set (pr_unacked p)" for n
    using assms that word_less_plus_1 [OF assms(2)] by (auto simp: queue_ok_def intro: le_less_trans)
  then show ?thesis
    unfolding sent snd_conv using assms word_less_plus_1 [OF assms(2)]
    by (intro queue_note) (auto simp: queue_ok_def sorted_wrt_append less_imp_le)
qed (use assms in \<open>simp_all add: queue_ok_def\<close>)

lemma queue_game: "queue_ok p \<Longrightarrow> queue_ok (note_lock (p\<lparr>pr_game := g\<rparr>))"
  by (rule queue_note) (simp add: queue_ok_def)

lemma sorted_wrt_filter_fst: "sorted_wrt (<) (map fst xs) \<Longrightarrow> sorted_wrt (<) (map fst (filter P xs))"
  by (induction xs) auto

lemma queue_driven: "driven p js \<Longrightarrow> queue_ok p \<and> judged_ok p js"
proof (induction rule: driven.induct)
  case (d_new seed p)
  then show ?case by (auto simp: pr_new_def queue_ok_def judged_ok_def elim!: bind_eq_SomeE)
next
  case (d_tick p js dt p')
  then show ?case by (auto simp: pr_tick_def judged_ok_def queue_game elim!: bind_eq_SomeE)
next
  case (d_predict p js i)
  then have "judged_ok (snd (predict i p)) js"
    by (cases rule: predict_cases [of i p]) (simp_all add: judged_ok_def)
  then show ?case using queue_predict d_predict by blast
next
  case (d_event p js i)
  then show ?case by (simp add: apply_event_def judged_ok_def queue_game)
next
  case (d_plain p js ack you opp)
  then have "queue_ok (on_snapshot ack you opp None p)"
    unfolding on_snapshot_def Let_def by (intro queue_note) (auto simp: queue_ok_def sorted_wrt_filter_fst)
  then show ?case using d_plain by (simp add: on_snapshot_def judged_ok_def Let_def)
next
  case (d_keyframe p js ack you opp bytes)
  then have "queue_ok (on_snapshot ack you opp (Some bytes) p)"
    unfolding on_snapshot_def Let_def by (intro queue_note) (auto simp: queue_ok_def sorted_wrt_filter_fst)
  then show ?case using d_keyframe by (simp add: on_snapshot_def judged_ok_def Let_def)
next
  case (d_judge p js n h)
  then show ?case using judge_step [of p js n h] by (simp add: queue_ok_def)
qed

text \<open>
  A client asks for a keyframe only after two different locks in a row have disagreed with the host:
  the judgement of a lock reports a divergence exactly when this lock is judged now, its hash differs from
  the one the client had there, and the locks judged just before it, since the last keyframe, end in an odd
  run of disagreements. Repeated snapshots of one lock are judged once, and a lock that left the ring of
  eight never.
\<close>

theorem divergence_needs_two:
  assumes "driven p js"
  shows "(fst (on_lock_hash n h p) \<longleftrightarrow> judges n p \<and> disagrees n h p \<and> odd (streak js)) \<and>
    (judges n p \<longrightarrow> js \<noteq> [] \<longrightarrow> fst (last js) \<noteq> n) \<and> length (pr_lock_history p) \<le> 8"
  using judge_step(1) [of p js n h] queue_driven [OF assms]
  by (auto simp: judges_def judged_ok_def queue_ok_def LOCK_HISTORY_def)

theorem divergence_needs_two_witness:
  "\<exists>p. pr_new 7 = Some p \<and> \<not> fst (on_lock_hash 1 0 (apply_event (AddFunds 5) p))"
proof -
  obtain g where "game_new 7 = Some g" by (rule reachable_new)
  then obtain p where p: "pr_new 7 = Some p" by (simp add: pr_new_def)
  then show ?thesis using divergence_needs_two [OF d_event [OF d_new [OF p]], of 1 0] by auto
qed

subsection \<open>Reconciliation\<close>

text \<open>A client input in the queue is one a client may send; the leave is handled by the host alone.\<close>

definition in_flight :: "u64 \<Rightarrow> predictor \<Rightarrow> (u64 \<times> input) list" where
  "in_flight ack p = filter (\<lambda>(n, _). ack < n) (pr_unacked p)"

lemma legal_in_bazaar:
  "is_legal_client_input i \<Longrightarrow> i \<noteq> LeaveBazaar \<Longrightarrow> g_in_bazaar (apply_to_game i g) = g_in_bazaar g"
  by (cases i) (auto simp: is_legal_client_input_def apply_to_game_def with_token_def move_left_def move_right_def move_by_def
      game_rotate_def rotate_internal_def soft_drop_def drop_step_def start_slide_def begin_drop_def engage_fast_drop_def
      launch_weapon_def buy_weapon_def sell_weapon_def Let_def split_beta add_score_def add_score_funds_def push_event_def
      split: option.split)

lemma shopping_bazaar: "i \<noteq> LeaveBazaar \<Longrightarrow> is_bazaar_input i = is_shopping i"
  by (cases i) (simp_all add: is_bazaar_input_def is_shopping_def)

lemma client_view_bazaar: "client_view g = client_view h \<Longrightarrow> g_in_bazaar g = g_in_bazaar h"
proof -
  have "g_in_bazaar k = g_in_bazaar (client_view k)" for k by (simp add: client_view_def)
  then show "client_view g = client_view h \<Longrightarrow> g_in_bazaar g = g_in_bazaar h" by metis
qed

lemma bout_input_ack: "is_legal_client_input i \<Longrightarrow> bo_ack b s < n \<Longrightarrow> bo_ack (snd (bout_input s i n b)) s = n"
  by (simp add: bout_input_def Let_def push_frame_def not_le [symmetric])

lemma keyframe_fields:
  "pr_game (on_snapshot ack you opp (Some bytes) p)
     = fold (\<lambda>(_, i). replay_input i) (in_flight ack p) (snd (restore_bytes bytes (pr_game p)))"
  "pr_unacked (on_snapshot ack you opp k p) = in_flight ack p"
  by (cases k; simp add: on_snapshot_def in_flight_def Let_def)+

text \<open>The host takes the inputs in flight as the client replays them.\<close>

lemma replay_follows:
  assumes "sorted_wrt (<) (bo_ack b s # map fst ns)" "\<forall>(_, i) \<in> set ns. is_legal_client_input i \<and> i \<noteq> LeaveBazaar"
    and "client_view g = client_view (v_game s (bo_versus b))" "barrier s b \<longrightarrow> g_in_bazaar (v_game s (bo_versus b))"
    and "clients (map (\<lambda>(n, i). (s, i, n)) ns) b = (acc, b')"
  shows "client_view (fold (\<lambda>(_, i). replay_input i) ns g) = client_view (v_game s (bo_versus b')) \<and>
    bo_ack b' s = (if ns = [] then bo_ack b s else fst (last ns))"
  using assms
proof (induction ns arbitrary: b g acc)
  case (Cons m ns)
  obtain n i where m: "m = (n, i)" by (cases m)
  have i: "is_legal_client_input i" "i \<noteq> LeaveBazaar" and n: "bo_ack b s < n" using Cons.prems(1,2) by (auto simp: m)
  obtain acc' where acc': "clients (map (\<lambda>(n, i). (s, i, n)) ns) (snd (bout_input s i n b)) = (acc', b')"
    using clientsE [of s i n "map (\<lambda>(n, i). (s, i, n)) ns" b acc b'] Cons.prems(5) by (auto simp: m)
  let ?b = "snd (bout_input s i n b)"
  have bar: "barrier s b = g_in_bazaar (v_game s (bo_versus b))" using Cons.prems(4) by (auto simp: barrier_def)
  note sh = shopping_bazaar [OF i(2)] and gb = client_view_bazaar [OF Cons.prems(3)]
  have now: "client_view (replay_input i g) = client_view (v_game s (bo_versus ?b)) \<and> bo_ack ?b s = n \<and>
      (barrier s ?b \<longrightarrow> g_in_bazaar (v_game s (bo_versus ?b)))"
  proof (cases rule: bout_input_cases [of s i n b])
    case refused
    then show ?thesis using bout_input_ack [OF i(1) n] n by simp
  next
    case frozen
    then have "replay_input i g = g" using sh gb bar by (simp add: replay_input_def)
    then show ?thesis using frozen(1) Cons.prems(3,4) by (simp add: barrier_def)
  next
    case taken
    have "\<not> (g_in_bazaar g \<and> \<not> is_shopping i)" using taken(4) sh gb bar by auto
    then have "replay_input i g = apply_to_game i g" using i(2) by (auto simp: replay_input_def split: input.split)
    moreover have "barrier s ?b \<Longrightarrow> g_in_bazaar (apply_to_game i (v_game s (bo_versus b)))"
      using barrier_falls [of s s i n b] Cons.prems(4) legal_in_bazaar [OF i] by simp
    ultimately show ?thesis
      using taken(1) client_view_apply [OF Cons.prems(3), of i] by (simp add: push_frame_def)
  qed
  have "sorted_wrt (<) (bo_ack ?b s # map fst ns)" using Cons.prems(1) now by (simp add: m)
  then show ?case using Cons.IH [OF _ _ conjunct1 [OF now] _ acc'] Cons.prems(2) now by (auto simp: m)
qed simp


text \<open>A client whose move is in flight, and a host whose game went another way.\<close>

lemma game_new_board: "game_new seed = Some g \<Longrightarrow> g_board g = board_standard False"
  by (auto simp: game_new_def start_game_def spawn_def game_fresh_def Let_def elim!: bind_eq_SomeE split: prod.splits if_splits)


end
