(* ===== verification/Doubles.thy ===== *)
theory Doubles
  imports Complex_Main GameProps
begin

section \<open>Double-precision arithmetic\<close>

text \<open>
  The computer player scores boards with Rust's \<open>f64\<close>. A finite double is a rational number, and each
  operation is the exact one followed by a rounding to 53 significant bits, ties to even, as IEEE 754
  prescribes. The scores stay far inside the range of normal doubles (theory Placement bounds them),
  so infinities, subnormals and the sign of zero do not occur.
\<close>

type_synonym f64 = rat

text \<open>
  The quotient \<open>n / d\<close> is scaled so that its integer part has at least 54 bits; a last bit that tells
  whether anything was cut off makes the rounding of the integer the rounding of the quotient.
\<close>

definition r64 :: "rat \<Rightarrow> f64" where
  "r64 q =
     (let (n, d) = quotient_of q;
          k = 55 + bit_len d - bit_len \<bar>n\<bar>;
          m = \<bar>n\<bar> * 2 ^ k;
          z = round53 (2 * (m div d) + (if m mod d = 0 then 0 else 1))
      in of_int (sgn n * z) / 2 ^ (k + 1))"

definition fadd :: "f64 \<Rightarrow> f64 \<Rightarrow> f64" where
  "fadd x y = r64 (x + y)"

definition fsub :: "f64 \<Rightarrow> f64 \<Rightarrow> f64" where
  "fsub x y = r64 (x - y)"

definition fmul :: "f64 \<Rightarrow> f64 \<Rightarrow> f64" where
  "fmul x y = r64 (x * y)"

definition fdiv :: "f64 \<Rightarrow> f64 \<Rightarrow> f64" where
  "fdiv x y = r64 (x / y)"

definition f64_MAX :: f64 where
  "f64_MAX = (2 ^ 53 - 1) * 2 ^ 971"

definition f64_MIN :: f64 where
  "f64_MIN = - f64_MAX"

subsection \<open>The error of a rounding\<close>

lemma bit_len_ge: "0 < z \<Longrightarrow> 2 ^ (bit_len z - 1) \<le> z \<and> 0 < bit_len z"
proof (induction z rule: bit_len.induct)
  case (1 z)
  show ?case
  proof (cases "z div 2 > 0")
    case True
    then have "2 ^ (bit_len (z div 2) - 1) \<le> z div 2" "0 < bit_len (z div 2)" using 1 by auto
    moreover then obtain k where "bit_len (z div 2) = Suc k" using gr0_implies_Suc by blast
    ultimately have "2 ^ bit_len (z div 2) \<le> z" by simp
    then show ?thesis using 1(2) by (simp add: bit_len.simps [of z])
  next
    case False
    then have "z = 1" using 1(2) by linarith
    then show ?thesis by (simp add: bit_len.simps)
  qed
qed

lemma bit_len_lt: "0 \<le> z \<Longrightarrow> z < 2 ^ bit_len z"
proof (induction z rule: bit_len.induct)
  case (1 z)
  show ?case
  proof (cases "z \<le> 0")
    case False
    then have "z div 2 < 2 ^ bit_len (z div 2)" using 1 by simp
    then have "z < 2 * 2 ^ bit_len (z div 2)" by linarith
    then show ?thesis using False by (simp add: bit_len.simps [of z])
  qed (use 1 in \<open>simp add: bit_len.simps\<close>)
qed

lemma round53_rel:
  assumes "0 < z" shows "2 ^ 53 * \<bar>round53 z - z\<bar> \<le> z"
proof -
  let ?n = "bit_len z"
  have near: "2 * \<bar>round53 z - z\<bar> \<le> 2 ^ (?n - 53)"
    using round53_near [OF bit_len_lt] assms by simp
  have big: "2 ^ (?n - 1) \<le> z" "0 < ?n" using bit_len_ge [OF assms] by auto
  show ?thesis
  proof (cases "53 \<le> ?n")
    case True
    then have "(2::int) ^ ?n = 2 ^ 53 * 2 ^ (?n - 53)" unfolding power_add [symmetric] by simp
    moreover have "(2::int) ^ ?n = 2 * 2 ^ (?n - 1)" using big(2) by (simp flip: power_Suc)
    ultimately have "2 * (2 ^ 53 * \<bar>round53 z - z\<bar>) \<le> 2 * 2 ^ (?n - 1)"
      using mult_left_mono [OF near, of "2 ^ 53"] by (simp add: ac_simps)
    then show ?thesis using big(1) by linarith
  next
    case False
    then have "2 * \<bar>round53 z - z\<bar> \<le> 1" using near by simp
    then have "\<bar>round53 z - z\<bar> = 0" by arith
    then show ?thesis using assms by simp
  qed
qed

lemma r64_0 [simp]: "r64 0 = 0"
  by (simp add: r64_def)

text \<open>The integer that is rounded lies within one of twice the scaled quotient.\<close>

lemma sticky_near:
  fixes m d :: int
  assumes "0 < d"
  shows "\<bar>of_int (2 * (m div d) + (if m mod d = 0 then 0 else 1)) - 2 * of_int m / of_int d\<bar> \<le> (1::rat)"
proof -
  have m: "(of_int m :: rat) = of_int (m div d) * of_int d + of_int (m mod d)"
    by (metis div_mult_mod_eq of_int_add of_int_mult)
  have r: "0 \<le> m mod d" "m mod d < d" using assms by simp_all
  have "2 * of_int m / of_int d = 2 * of_int (m div d) + 2 * (of_int (m mod d) / of_int d :: rat)"
    using assms by (simp add: m field_simps)
  moreover have "0 \<le> of_int (m mod d) / (of_int d :: rat)" "of_int (m mod d) / of_int d < (1 :: rat)"
    using r assms by (simp_all add: divide_less_eq)
  ultimately show ?thesis by (simp split: if_split) (simp add: abs_le_iff)
qed

lemma scaled_large:
  fixes n d :: int
  assumes "n \<noteq> 0" "0 < d"
  shows "2 ^ 54 * d \<le> \<bar>n\<bar> * 2 ^ (55 + bit_len d - bit_len \<bar>n\<bar>)"
proof -
  let ?k = "55 + bit_len d - bit_len \<bar>n\<bar>"
  have n: "2 ^ (bit_len \<bar>n\<bar> - 1) \<le> \<bar>n\<bar>" "0 < bit_len \<bar>n\<bar>" using bit_len_ge [of "\<bar>n\<bar>"] assms(1) by auto
  have "2 ^ 54 * d \<le> 2 ^ 54 * 2 ^ bit_len d" using bit_len_lt [of d] assms(2) by simp
  also have "\<dots> = 2 ^ (54 + bit_len d)" by (simp add: power_add)
  also have "\<dots> \<le> 2 ^ (bit_len \<bar>n\<bar> - 1 + ?k)" using n(2) by (intro power_increasing) auto
  also have "\<dots> = 2 ^ (bit_len \<bar>n\<bar> - 1) * 2 ^ ?k" by (simp add: power_add)
  also have "\<dots> \<le> \<bar>n\<bar> * 2 ^ ?k" using n(1) by (intro mult_right_mono) auto
  finally show ?thesis .
qed

lemma r64_near: "\<bar>r64 q - q\<bar> \<le> \<bar>q\<bar> / 2 ^ 51"
proof (cases "q = 0")
  case False
  obtain n d where nd: "quotient_of q = (n, d)" by fastforce
  then have d: "0 < d" and q: "q = of_int n / of_int d"
    using quotient_of_denom_pos quotient_of_div by blast+
  have n: "n \<noteq> 0" using q False by auto
  define k where "k = 55 + bit_len d - bit_len \<bar>n\<bar>"
  define m where "m = \<bar>n\<bar> * 2 ^ k"
  define t where "t = 2 * (m div d) + (if m mod d = 0 then 0 else 1)"
  define A :: rat where "A = 2 * of_int m / of_int d"
  have near: "\<bar>of_int t - A\<bar> \<le> 1" using sticky_near [OF d, of m] by (simp add: A_def t_def)
  have "2 ^ 54 * d \<le> m" using scaled_large [OF n d] by (simp add: m_def k_def)
  then have "(2 ^ 54 * of_int d :: rat) \<le> of_int m" by (metis of_int_le_iff of_int_mult of_int_numeral of_int_power)
  then have A: "2 ^ 55 \<le> A" using d by (simp add: A_def pos_le_divide_eq)
  have t: "0 < t" "of_int t \<le> 2 * A" using near A by (auto simp: abs_le_iff)
  have "2 ^ 53 * \<bar>round53 t - t\<bar> \<le> t" by (rule round53_rel [OF t(1)])
  then have "of_int (2 ^ 53 * \<bar>round53 t - t\<bar>) \<le> (of_int t :: rat)" by (simp only: of_int_le_iff)
  then have "2 ^ 53 * \<bar>of_int (round53 t) - of_int t\<bar> \<le> (of_int t :: rat)" by simp
  then have err: "\<bar>of_int (round53 t) - A\<bar> \<le> A / 2 ^ 51" using near A t(2)
      abs_triangle_ineq [of "of_int (round53 t) - of_int t" "of_int t - A"] by (simp add: field_simps)
  define s :: rat where "s = of_int (sgn n)"
  define w :: rat where "w = 2 ^ (k + 1)"
  have w: "0 < w" by (simp add: w_def)
  have s: "\<bar>s\<bar> = 1" using n by (simp add: s_def sgn_if)
  have r: "r64 q = s * (of_int (round53 t) / w)"
    by (simp add: r64_def nd Let_def t_def m_def k_def s_def w_def)
  have qA: "q = s * (A / w)"
    using d by (simp add: q A_def m_def s_def w_def field_simps of_int_mult [symmetric] del: of_int_mult) (simp add: sgn_if)
  have A0: "0 \<le> A" using A by (rule order_trans [rotated]) simp
  have "r64 q - q = s * (of_int (round53 t) / w) - s * (A / w)" using r qA by argo
  then have "\<bar>r64 q - q\<bar> = \<bar>of_int (round53 t) - A\<bar> / w"
    unfolding right_diff_distrib [symmetric] diff_divide_distrib [symmetric] abs_mult s by (simp add: abs_mult s w abs_of_pos)
  also have "\<dots> \<le> (A / 2 ^ 51) / w" using err w by (intro divide_right_mono) auto
  also have "\<dots> = \<bar>q\<bar> / 2 ^ 51" unfolding qA abs_mult s using A0 w by simp
  finally show ?thesis .
qed simp

lemma r64_le: "\<bar>q\<bar> \<le> a \<Longrightarrow> \<bar>r64 q\<bar> \<le> 2 * a"
  using r64_near [of q] by (simp add: abs_if split: if_splits)

end
