(* ===== verification/Placement.thy ===== *)
theory Placement
  imports Doubles
begin

section \<open>The placement search of the computer player\<close>

text \<open>
  \<open>bt-ai/src/lib.rs\<close>: the board heuristics, the search over every orientation and column, and the
  driver that steers a piece to the placement found. The scores are doubles (theory Doubles). The
  closure that \<open>for_each_landing\<close> calls on each landing is a function on the state it captures.

  The theorems show that the search returns (its drop loop ends because a piece in play has a cell) and
  that it picks the first of the legal landings with the least score.
\<close>

subsection \<open>Penalty weights\<close>

definition OPEN_HOLE_PENALTY :: f64 where "OPEN_HOLE_PENALTY = 7000"

definition CLOSED_HOLE_PENALTY :: f64 where "CLOSED_HOLE_PENALTY = 10000"

definition COVERED_HOLE_PENALTY :: f64 where "COVERED_HOLE_PENALTY = 3000"

definition HEIGHT_PENALTY :: f64 where "HEIGHT_PENALTY = 30000"

definition LINE_BONUS :: f64 where "LINE_BONUS = 5000"

definition VARIANCE_PENALTY :: f64 where "VARIANCE_PENALTY = 50"

definition HOLE_DECAY :: f64 where "HOLE_DECAY = 1 / 2"

definition MIDLINE :: i32 where "MIDLINE = 14"

lemmas penalty_consts = OPEN_HOLE_PENALTY_def CLOSED_HOLE_PENALTY_def COVERED_HOLE_PENALTY_def
  HEIGHT_PENALTY_def LINE_BONUS_def VARIANCE_PENALTY_def HOLE_DECAY_def

record penalties =
  pen_vp :: f64
  pen_hp :: f64
  pen_chp :: f64
  pen_ohp :: f64
  pen_cvhp :: f64
  pen_lb :: f64

definition penalties_default :: penalties where
  "penalties_default =
     \<lparr>pen_vp = VARIANCE_PENALTY, pen_hp = HEIGHT_PENALTY, pen_chp = CLOSED_HOLE_PENALTY,
      pen_ohp = OPEN_HOLE_PENALTY, pen_cvhp = COVERED_HOLE_PENALTY, pen_lb = LINE_BONUS\<rparr>"

definition for_active_weapons :: "game \<Rightarrow> penalties" where
  "for_active_weapons g =
     (let p = penalties_default;
          p = (if weapon_active g Force then
                 p\<lparr>pen_vp := fmul (pen_vp p) 2, pen_hp := fmul (pen_hp p) 4, pen_lb := fmul (pen_lb p) 4\<rparr>
               else p);
          p = (if weapon_active g FourByFour then
                 p\<lparr>pen_hp := fmul (pen_hp p) 2, pen_vp := fmul (pen_vp p) 2\<rparr>
               else p);
          p = (if weapon_active g Bottle then
                 p\<lparr>pen_ohp := fdiv (pen_ohp p) 10, pen_chp := fdiv (pen_chp p) 10, pen_hp := fmul (pen_hp p) 2\<rparr>
               else p);
          p = (if weapon_active g NoDice then p\<lparr>pen_vp := fmul (pen_vp p) 4\<rparr> else p);
          p = (if weapon_active g FallOut then
                 p\<lparr>pen_lb := fmul (pen_lb p) 2, pen_hp := fmul (pen_hp p) 2\<rparr>
               else p)
      in p)"

subsection \<open>The board heuristics\<close>

text \<open>The first occupied row of a column from the top, or the height.\<close>

definition column_top :: "board \<Rightarrow> i32 \<Rightarrow> i32" where
  "column_top b x =
     (case find (\<lambda>y. occupied b x y) (range_i 0 (b_height b)) of Some y \<Rightarrow> y | None \<Rightarrow> b_height b)"

definition column_tops :: "board \<Rightarrow> i32 list" where
  "column_tops b = map (column_top b) (range_i 0 (b_width b))"

definition global_top :: "board \<Rightarrow> i32 list \<Rightarrow> i32" where
  "global_top b tops = (case tops of [] \<Rightarrow> b_height b | t # ts \<Rightarrow> fold min ts t)"

definition variance_raw :: "i32 list \<Rightarrow> f64" where
  "variance_raw tops =
     (let (temp, last_sq, prev) =
        fold (\<lambda>col_top (temp, last_sq, prev).
            let h = of_int col_top; diff = \<bar>fsub h prev\<bar>; sq = fmul diff diff
            in (fadd temp sq, sq, h))
          tops (0, 0, of_int (tops ! 1))
      in fadd temp last_sq)"

function scan_left :: "board \<Rightarrow> i32 list \<Rightarrow> i32 \<Rightarrow> i32 \<Rightarrow> bool" where
  "scan_left b tops y lx =
     (if lx < 0 then False
      else if occupied b lx y then False
      else if lx = 0 then True
      else if tops ! nat lx > y then True
      else scan_left b tops y (lx - 1))"
  by pat_completeness auto

termination
  by (relation "measure (\<lambda>(b, tops, y, lx). nat (lx + 1))") auto

function scan_right :: "board \<Rightarrow> i32 list \<Rightarrow> i32 \<Rightarrow> i32 \<Rightarrow> bool" where
  "scan_right b tops y rx =
     (if rx \<ge> b_width b then False
      else if occupied b rx y then False
      else if rx = b_width b - 1 then True
      else if tops ! nat rx > y then True
      else scan_right b tops y (rx + 1))"
  by pat_completeness auto

termination
  by (relation "measure (\<lambda>(b, tops, y, rx). nat (b_width b - rx))") auto

declare scan_left.simps [simp del] scan_right.simps [simp del]

record holes =
  h_open :: i32
  h_closed :: i32
  h_cov :: f64

definition hole_step :: "board \<Rightarrow> i32 list \<Rightarrow> i32 \<Rightarrow> i32 \<Rightarrow> holes \<Rightarrow> holes" where
  "hole_step b tops x y s =
     (if occupied b x y then s
      else let col_top = tops ! nat x;
               depth = y - col_top - 1;
               blocks_above = of_int (y - col_top);
               decay = HOLE_DECAY ^ nat depth;
               s = s\<lparr>h_cov := fadd (h_cov s) (fmul decay blocks_above)\<rparr>;
               is_open = (scan_left b tops y (x - 1) \<or> scan_right b tops y (x + 1))
        in if is_open then s\<lparr>h_open := h_open s + 1\<rparr> else s\<lparr>h_closed := h_closed s + 1\<rparr>)"

definition count_holes :: "board \<Rightarrow> i32 list \<Rightarrow> holes" where
  "count_holes b tops =
     fold (\<lambda>x s.
         let col_top = tops ! nat x in
         if col_top \<ge> b_height b then s
         else fold (\<lambda>y s. hole_step b tops x y s) (range_i (col_top + 1) (b_height b)) s)
       (range_i 0 (b_width b)) \<lparr>h_open = 0, h_closed = 0, h_cov = 0\<rparr>"

definition full_rows :: "board \<Rightarrow> i32" where
  "full_rows b =
     fold (\<lambda>y n. if list_all (\<lambda>x. occupied b x y) (range_i 0 (b_width b)) then n + 1 else n)
       (range_i 0 (b_height b)) 0"

definition eval_board_with :: "board \<Rightarrow> penalties \<Rightarrow> f64" where
  "eval_board_with b pen =
     (let tops = column_tops b;
          top = global_top b tops;
          fraction_top = fdiv (of_int top) (of_int (b_height b));
          variance = fmul (fmul (fmul (fmul (variance_raw tops) (pen_vp pen))
              (fsub 1 fraction_top)) (fsub 1 fraction_top)) (fsub 1 fraction_top);
          hs = count_holes b tops;
          hole_pen = fadd (fmul (of_int (h_closed hs)) (pen_chp pen)) (fmul (of_int (h_open hs)) (pen_ohp pen));
          cov_hole_pen = fmul (h_cov hs) (pen_cvhp pen);
          fraction_height = fsub 1 (fdiv (of_int top) (of_int (b_height b)));
          height_pen = fmul (fmul fraction_height fraction_height) (pen_hp pen);
          lines_cleared = full_rows b;
          line_bonus =
            (if lines_cleared > 0 then
               (if top < MIDLINE
                then fmul (fmul (pen_lb pen) (of_int lines_cleared)) (fsub 1 fraction_top)
                else fmul (fmul (pen_lb pen) (fadd (- 4) (of_int lines_cleared))) fraction_top)
             else 0)
      in fsub (fadd (fadd (fadd variance cov_hole_pen) hole_pen) height_pen) line_bonus)"

definition eval_board :: "board \<Rightarrow> f64" where
  "eval_board b = eval_board_with b penalties_default"

definition eval_board_strong :: "board \<Rightarrow> i32 \<Rightarrow> f64" where
  "eval_board_strong b lines_cleared =
     (let w = b_width b; h = b_height b;
          (heights, holes) = fold (\<lambda>x (heights, holes).
              let top = column_top b x;
                  holes = (if top < h then
                      fold (\<lambda>y n. if \<not> occupied b x y then n + 1 else n) (range_i (top + 1) h) holes
                    else holes)
              in (heights[nat x := h - top], holes))
            (range_i 0 w) (replicate (nat w) 0, 0 :: i32);
          agg = sum_list heights;
          bump = fold (\<lambda>x n. n + \<bar>heights ! x - heights ! (x + 1)\<bar>) [0..<nat w - 1] 0
      in fsub (fsub (fadd (fmul (- r64 (510066 / 1000000)) (of_int agg))
                          (fmul (r64 (760666 / 1000000)) (of_int lines_cleared)))
                    (fmul (r64 (356630 / 1000000)) (of_int holes)))
              (fmul (r64 (184483 / 1000000)) (of_int bump)))"

subsection \<open>The search\<close>

record placement =
  pl_x :: i32
  pl_orientation :: i32

text \<open>
  The candidate columns, from the centre outwards, right before left at each distance. The loop
  stops when both neighbours at the distance are out of range.
\<close>

definition added_columns :: "i32 \<Rightarrow> i32 \<Rightarrow> i32 \<Rightarrow> i32 \<Rightarrow> i32 list" where
  "added_columns centre search_min search_max d =
     filter (\<lambda>x. x \<ge> search_min \<and> x < search_max) [centre - d, centre + d]"

function candidate_loop :: "i32 \<Rightarrow> i32 \<Rightarrow> i32 \<Rightarrow> i32 \<Rightarrow> i32 list \<Rightarrow> i32 list" where
  "candidate_loop centre search_min search_max d candidates =
     (let added = added_columns centre search_min search_max d in
      if added = [] then candidates
      else let candidates = candidates @ filter (\<lambda>x. x \<ge> search_min \<and> x < search_max) (rev added);
               d = d + 1
        in if centre - d < search_min \<and> centre + d \<ge> search_max then candidates
           else candidate_loop centre search_min search_max d candidates)"
  by pat_completeness auto

termination
  by (relation "measure (\<lambda>(c, lo, hi, d, xs). nat (max (c - lo) (hi - c) + 1 - d))")
    (auto simp: added_columns_def split: if_splits)

declare candidate_loop.simps [simp del]

definition candidates :: "board \<Rightarrow> i32 list" where
  "candidates b =
     (let centre = b_width b div 2;
          search_min = - (BT_PIECE_WIDTH - 1);
          search_max = b_width b
      in candidate_loop centre search_min search_max 1 [centre])"

text \<open>\<open>for _ in 0..o { if !p.rotate(..) { break; } }\<close>\<close>

fun turn_times :: "nat \<Rightarrow> board \<Rightarrow> piece \<Rightarrow> piece" where
  "turn_times 0 scratch p = p"
| "turn_times (Suc n) scratch p =
     (let (ok, p) = piece_rotate p scratch False in if ok then turn_times n scratch p else p)"

definition rotated_piece :: "board \<Rightarrow> piece \<Rightarrow> i32 \<Rightarrow> piece" where
  "rotated_piece b p ori =
     (let scratch = board_new (b_width b + 20) (b_height b + 20) True;
          (_, p) = move_to p scratch 10 10
      in turn_times (nat ori) scratch p)"

text \<open>The hard drop: \<open>while p.can_move_to(b, x, y + 1) { y += 1 }\<close>.\<close>

partial_function (option) descend :: "piece \<Rightarrow> board \<Rightarrow> i32 \<Rightarrow> i32 \<Rightarrow> i32 option" where
  "descend p b x y = (if can_move_to p b x (y + 1) then descend p b x (y + 1) else Some y)"

definition visit_column ::
    "(placement \<Rightarrow> board \<Rightarrow> i32 \<Rightarrow> 's \<Rightarrow> 's) \<Rightarrow> i32 \<Rightarrow> piece \<Rightarrow> board \<Rightarrow> i32 \<Rightarrow> 's \<Rightarrow> 's option" where
  "visit_column visit ori rotated b candidate_x s =
     (let (ok, p) = move_to rotated b candidate_x 0 in
      if \<not> ok then Some s
      else do {
        landed_y \<leftarrow> descend p b candidate_x 0;
        let (ok, p) = move_to p b candidate_x landed_y;
        if \<not> ok then Some s
        else do {
          let b = land p b;
          let lines = full_rows b;
          (_, b) \<leftarrow> check_lines b;
          Some (visit \<lparr>pl_x = candidate_x, pl_orientation = ori\<rparr> b lines s)
        }
      })"

definition for_each_landing ::
    "board \<Rightarrow> piece \<Rightarrow> (placement \<Rightarrow> board \<Rightarrow> i32 \<Rightarrow> 's \<Rightarrow> 's) \<Rightarrow> 's \<Rightarrow> 's option" where
  "for_each_landing b p visit =
     fold_opt (\<lambda>ori. fold_opt (visit_column visit ori (rotated_piece b p ori) b) (candidates b))
       (range_i 0 (p_orientations p))"

definition spawn_placement :: "piece \<Rightarrow> placement" where
  "spawn_placement p = \<lparr>pl_x = p_x p, pl_orientation = 0\<rparr>"

definition best_placement_tuned :: "board \<Rightarrow> piece \<Rightarrow> penalties \<Rightarrow> placement option" where
  "best_placement_tuned b p pen =
     map_option snd (for_each_landing b p
       (\<lambda>pl b _ (best_score, best).
          let score = eval_board_with b pen in
          if score < best_score then (score, pl) else (best_score, best))
       (f64_MAX, spawn_placement p))"

definition best_placement :: "board \<Rightarrow> piece \<Rightarrow> placement option" where
  "best_placement b p =
     map_option snd (for_each_landing b p
       (\<lambda>pl b _ (best_score, best).
          let score = eval_board b in
          if score < best_score then (score, pl) else (best_score, best))
       (f64_MAX, spawn_placement p))"

definition best_placement_strong :: "board \<Rightarrow> piece \<Rightarrow> placement option" where
  "best_placement_strong b p =
     map_option snd (for_each_landing b p
       (\<lambda>pl b lines (best_score, best).
          let score = eval_board_strong b lines in
          if score > best_score then (score, pl) else (best_score, best))
       (f64_MIN, spawn_placement p))"

subsection \<open>The search of a rating-matched bot\<close>

definition SKILL_NOISE_SCALE :: f64 where "SKILL_NOISE_SCALE = 8"

definition xorshift01 :: "u64 \<Rightarrow> f64 \<times> u64" where
  "xorshift01 state =
     (let x = state;
          x = x XOR push_bit 13 x;
          x = x XOR drop_bit 7 x;
          x = x XOR push_bit 17 x
      in (fdiv (of_int (uint (drop_bit 11 x))) (2 ^ 53), x))"

definition best_placement_skill :: "board \<Rightarrow> piece \<Rightarrow> f64 \<Rightarrow> u64 \<Rightarrow> (placement \<times> u64) option" where
  "best_placement_skill b p skill rng =
     (let skill = (if skill < 0 then 0 else if skill > 1 then 1 else skill) in
      if skill \<ge> r64 (999 / 1000) then map_option (\<lambda>pl. (pl, rng)) (best_placement_strong b p)
      else let noise_amp = fmul (fsub 1 skill) SKILL_NOISE_SCALE in
        map_option (\<lambda>(_, best, rng). (best, rng)) (for_each_landing b p
          (\<lambda>pl b lines (best_score, best, rng).
             let (u, rng) = xorshift01 rng;
                 n = fmul (fmul (fsub u (1 / 2)) 2) noise_amp;
                 score = fadd (eval_board_strong b lines) n
             in if score > best_score then (score, pl, rng) else (best_score, best, rng))
          (f64_MIN, spawn_placement p, rng)))"

subsection \<open>The size of the scores\<close>

text \<open>\<open>sized k x\<close>: \<open>x\<close> is at most \<open>2 ^ k\<close> in absolute value. A rounding at most doubles that.\<close>

definition sized :: "nat \<Rightarrow> rat \<Rightarrow> bool" where
  "sized k x \<longleftrightarrow> \<bar>x\<bar> \<le> 2 ^ k"

lemma sized_mono: "sized k x \<Longrightarrow> k \<le> l \<Longrightarrow> sized l x"
  unfolding sized_def by (rule order_trans [OF _ power_increasing]) auto

lemma sized_r64: "sized k x \<Longrightarrow> sized (Suc k) (r64 x)"
  unfolding sized_def using r64_le [of x "2 ^ k"] by simp

lemma sized_add: "sized k x \<Longrightarrow> sized k y \<Longrightarrow> sized (Suc k) (x + y)"
  unfolding sized_def using abs_triangle_ineq [of x y] by simp

lemma sized_mul: "sized k x \<Longrightarrow> sized l y \<Longrightarrow> sized (k + l) (x * y)"
  unfolding sized_def abs_mult power_add by (intro mult_mono) auto

lemma sized_neg: "sized k (- x) = sized k x"
  by (simp add: sized_def)

lemma sized_fadd: "sized k x \<Longrightarrow> sized l y \<Longrightarrow> sized (max k l + 2) (fadd x y)"
  using sized_r64 [OF sized_add [OF sized_mono sized_mono], of k x "max k l" l y] by (simp add: fadd_def)

lemma sized_fsub: "sized k x \<Longrightarrow> sized l y \<Longrightarrow> sized (max k l + 2) (fsub x y)"
  using sized_fadd [of k x l "- y"] by (simp add: sized_neg fadd_def fsub_def)

lemma sized_fmul: "sized k x \<Longrightarrow> sized l y \<Longrightarrow> sized (k + l + 1) (fmul x y)"
  using sized_r64 [OF sized_mul] by (simp add: fmul_def)

lemmas sized_ops = sized_fadd sized_fsub sized_fmul

lemma sized_max: "sized k x \<Longrightarrow> k \<le> 1023 \<Longrightarrow> x < f64_MAX \<and> f64_MIN < x"
proof -
  assume "sized k x" "k \<le> 1023"
  then have "\<bar>x\<bar> \<le> 2 ^ 1023" using sized_mono unfolding sized_def by blast
  moreover have "(2 :: rat) ^ 1023 < f64_MAX" by (simp add: f64_MAX_def)
  ultimately show "x < f64_MAX \<and> f64_MIN < x" by (simp add: f64_MIN_def abs_le_iff)
qed

text \<open>A fold whose step may double a bound.\<close>

lemma fold_grows:
  assumes "\<And>x s a. x \<in> set xs \<Longrightarrow> P a s \<Longrightarrow> P (a + m) (f x s)" "P a s"
  shows "P (a + m * length xs) (fold f xs s)"
  using assms
proof (induction xs arbitrary: s a)
  case (Cons x xs)
  have "P ((a + m) + m * length xs) (fold f xs (f x s))"
    by (rule Cons.IH) (use Cons.prems in auto)
  then show ?case by (simp add: add.assoc)
qed simp

lemma column_top_range: "0 \<le> b_height b \<Longrightarrow> 0 \<le> column_top b x \<and> column_top b x \<le> b_height b"
  unfolding column_top_def by (auto split: option.split dest: find_SomeD)

lemma fold_min_in: "fold min ts t \<in> insert t (set ts)" for t :: int
  by (induction ts arbitrary: t) (auto simp: min_def)

lemma tops_range:
  assumes "0 \<le> b_height b" "t \<in> set (column_tops b)" shows "0 \<le> t" "t \<le> b_height b"
  using assms column_top_range [OF assms(1)] by (auto simp: column_tops_def)

lemma nth_tops: "0 \<le> x \<Longrightarrow> x < b_width b \<Longrightarrow> column_tops b ! nat x = column_top b x"
  by (simp add: column_tops_def nth_range_i)

lemma global_top_range:
  assumes "0 \<le> b_height b" shows "0 \<le> global_top b (column_tops b) \<and> global_top b (column_tops b) \<le> b_height b"
proof (cases "column_tops b")
  case Nil
  then show ?thesis using assms by (simp add: global_top_def)
next
  case (Cons t ts)
  then have "global_top b (column_tops b) \<in> set (column_tops b)"
    using fold_min_in [of ts t] by (simp add: global_top_def)
  then show ?thesis using tops_range [OF assms] by blast
qed

lemma sized_int: "\<bar>n\<bar> \<le> 2 ^ k \<Longrightarrow> sized k (of_int n)"
  unfolding sized_def by (metis of_int_abs of_int_le_iff of_int_numeral of_int_power)

lemma fold_state:
  assumes "P n s" "\<And>x s n. x \<in> set xs \<Longrightarrow> P n s \<Longrightarrow> P (Suc n) (f x s)"
  shows "P (n + length xs) (fold f xs s)"
  using fold_grows [of xs P 1 f n s] assms by simp

lemma variance_sized:
  assumes "\<And>t. t \<in> set tops \<Longrightarrow> 0 \<le> t \<and> t \<le> 28" "1 < length tops"
  shows "sized (2 * length tops + 20) (variance_raw tops)"
proof -
  define P :: "nat \<Rightarrow> f64 \<times> f64 \<times> f64 \<Rightarrow> bool"
    where "P = (\<lambda>n (t, l, p). sized (17 + 2 * n) t \<and> sized 17 l \<and> sized 5 p)"
  let ?f = "\<lambda>col_top (temp, last_sq, prev).
            let h = of_int col_top; diff = \<bar>fsub h prev\<bar>; sq = fmul diff diff
            in (fadd temp sq, sq, h)"
  have "P (0 + length tops) (fold ?f tops (0, 0, of_int (tops ! 1)))"
  proof (rule fold_state)
    show "P 0 (0, 0, of_int (tops ! 1))"
      using assms(1) [OF nth_mem [OF assms(2)]] by (auto simp: P_def sized_def intro: sized_int [unfolded sized_def])
  next
    fix x s n assume x: "x \<in> set tops" and P: "P n s"
    obtain t l p where s: "s = (t, l, p)" by (cases s)
    have h: "sized 5 (of_int x)" using assms(1) [OF x] by (intro sized_int) auto
    have d: "sized 7 \<bar>fsub (of_int x) p\<bar>"
      using sized_fsub [OF h, of 5 p] P by (simp add: P_def s sized_def)
    have q: "sized 15 (fmul \<bar>fsub (of_int x) p\<bar> \<bar>fsub (of_int x) p\<bar>)"
      using sized_fmul [OF d d] by simp
    have "sized (17 + 2 * Suc n) (fadd t (fmul \<bar>fsub (of_int x) p\<bar> \<bar>fsub (of_int x) p\<bar>))"
      by (rule sized_mono [OF sized_fadd [OF _ q]]) (use P in \<open>auto simp: P_def s\<close>)
    then show "P (Suc n) (?f x s)" using h sized_mono [OF q] by (simp add: P_def s Let_def)
  qed
  then obtain t l p where f: "fold ?f tops (0, 0, of_int (tops ! 1)) = (t, l, p)"
    and "sized (17 + 2 * length tops) t" "sized 17 l"
    by (auto simp: P_def split: prod.splits)
  then show ?thesis
    unfolding variance_raw_def f using sized_mono [OF sized_fadd [of "17 + 2 * length tops" t 17 l]] by simp
qed

definition holes_sized :: "nat \<Rightarrow> holes \<Rightarrow> bool" where
  "holes_sized k s \<longleftrightarrow> sized (6 + 2 * k) (h_cov s) \<and> sized k (of_int (h_open s)) \<and> sized k (of_int (h_closed s))"

lemma sized_count: "sized k (of_int n) \<Longrightarrow> sized (Suc k) (of_int (n + 1))"
  using sized_add [of k "of_int n" 1] by (simp add: sized_def)

lemma holes_step_sized:
  assumes "holes_sized k s" "\<bar>y - tops ! nat x\<bar> \<le> 28"
  shows "holes_sized (Suc k) (hole_step b tops x y s)"
proof -
  have sub: "sized (Suc k) (of_int (h_open s))" "sized (Suc k) (of_int (h_closed s))"
    "sized (6 + 2 * Suc k) (h_cov s)"
    using assms(1) sized_mono unfolding holes_sized_def by force+
  have "sized 0 (HOLE_DECAY ^ n)" for n
    by (simp add: sized_def HOLE_DECAY_def power_abs power_le_one)
  moreover have "sized 5 (of_int (y - tops ! nat x))" using assms(2) by (intro sized_int) simp
  ultimately have "sized 6 (fmul (HOLE_DECAY ^ nat (y - tops ! nat x - 1)) (of_int (y - tops ! nat x)))"
    using sized_fmul by fastforce
  then have "sized (6 + 2 * Suc k) (fadd (h_cov s)
      (fmul (HOLE_DECAY ^ nat (y - tops ! nat x - 1)) (of_int (y - tops ! nat x))))"
    using assms(1) by (intro sized_mono [OF sized_fadd [of "6 + 2 * k" _ 6]]) (auto simp: holes_sized_def)
  then show ?thesis
    using sub sized_count assms(1) unfolding hole_step_def holes_sized_def by (simp add: Let_def)
qed

lemma count_holes_sized:
  assumes "b_width b = 10" "b_height b = 28"
  shows "holes_sized 280 (count_holes b (column_tops b))"
proof -
  let ?tops = "column_tops b"
  let ?f = "\<lambda>x s. let col_top = ?tops ! nat x in
         if col_top \<ge> b_height b then s
         else fold (\<lambda>y s. hole_step b ?tops x y s) (range_i (col_top + 1) (b_height b)) s"
  have "holes_sized (0 + 28 * length (range_i 0 (b_width b)))
      (fold ?f (range_i 0 (b_width b)) \<lparr>h_open = 0, h_closed = 0, h_cov = 0\<rparr>)"
  proof (rule fold_grows)
    show "holes_sized 0 \<lparr>h_open = 0, h_closed = 0, h_cov = 0\<rparr>" by (simp add: holes_sized_def sized_def)
    fix x s k assume x: "x \<in> set (range_i 0 (b_width b))" and s: "holes_sized k s"
    have top: "0 \<le> ?tops ! nat x" "?tops ! nat x \<le> 28"
      using x column_top_range [of b x] assms by (simp_all add: nth_tops)
    have mono: "holes_sized l s' \<Longrightarrow> l \<le> m \<Longrightarrow> holes_sized m s'" for l m s'
      unfolding holes_sized_def using sized_mono by (meson add_left_mono mult_le_mono2)
    let ?ys = "range_i (?tops ! nat x + 1) (b_height b)"
    have "holes_sized (k + 1 * length ?ys) (fold (\<lambda>y s. hole_step b ?tops x y s) ?ys s)"
    proof (rule fold_grows)
      show "holes_sized k s" by (rule s)
    next
      fix y s a assume "y \<in> set ?ys" and a: "holes_sized a s"
      then have "\<bar>y - ?tops ! nat x\<bar> \<le> 28" using top assms by auto
      from holes_step_sized [OF a this] show "holes_sized (a + 1) (hole_step b ?tops x y s)" by simp
    qed
    moreover have "length ?ys \<le> 28" using top assms by simp
    ultimately have "holes_sized (k + 28) (fold (\<lambda>y s. hole_step b ?tops x y s) ?ys s)"
      by (rule_tac mono) auto
    then show "holes_sized (k + 28) (?f x s)" using mono [OF s] by (simp add: Let_def)
  qed
  then show ?thesis by (simp add: count_holes_def assms)
qed

lemma full_rows_range:
  assumes "b_height b = 28" shows "0 \<le> full_rows b \<and> full_rows b \<le> 28"
proof -
  let ?f = "\<lambda>y n. if list_all (\<lambda>x. occupied b x y) (range_i 0 (b_width b)) then n + 1 else (n :: int)"
  have "0 \<le> fold ?f (range_i 0 28) 0 \<and> fold ?f (range_i 0 28) 0 \<le> int (0 + length (range_i 0 28))"
    by (rule fold_state [where P = "\<lambda>k n. 0 \<le> n \<and> n \<le> int k"]) auto
  then show ?thesis unfolding full_rows_def assms by simp
qed

definition pen_sized :: "nat \<Rightarrow> penalties \<Rightarrow> bool" where
  "pen_sized k p \<longleftrightarrow> sized k (pen_vp p) \<and> sized k (pen_hp p) \<and> sized k (pen_chp p) \<and>
     sized k (pen_ohp p) \<and> sized k (pen_cvhp p) \<and> sized k (pen_lb p)"

lemma pen_sized_step:
  assumes "pen_sized k p" "c \<longrightarrow> pen_sized (k + 3) q"
  shows "pen_sized (k + 3) (if c then q else p)"
  using assms sized_mono [of k _ "k + 3"] by (auto simp: pen_sized_def)

lemma sized_scale:
  assumes "sized k x"
  shows "sized (k + 3) (fmul x 2)" "sized (k + 3) (fmul x 4)" "sized (k + 3) (fdiv x 10)" "sized (k + 3) x"
proof -
  show "sized (k + 3) (fmul x 2)" "sized (k + 3) (fmul x 4)"
    using sized_mono [OF sized_fmul [OF assms, of 2]] by (simp_all add: sized_def)
  have "sized k (x / 10)" using assms unfolding sized_def by simp
  then show "sized (k + 3) (fdiv x 10)" unfolding fdiv_def by (rule sized_mono [OF sized_r64]) simp
  show "sized (k + 3) x" by (rule sized_mono [OF assms]) simp
qed

lemma pen_retuned:
  assumes "pen_sized k p"
  shows "pen_sized (k + 3) (p\<lparr>pen_vp := fmul (pen_vp p) 2, pen_hp := fmul (pen_hp p) 4, pen_lb := fmul (pen_lb p) 4\<rparr>)"
    "pen_sized (k + 3) (p\<lparr>pen_hp := fmul (pen_hp p) 2, pen_vp := fmul (pen_vp p) 2\<rparr>)"
    "pen_sized (k + 3) (p\<lparr>pen_ohp := fdiv (pen_ohp p) 10, pen_chp := fdiv (pen_chp p) 10, pen_hp := fmul (pen_hp p) 2\<rparr>)"
    "pen_sized (k + 3) (p\<lparr>pen_vp := fmul (pen_vp p) 4\<rparr>)"
    "pen_sized (k + 3) (p\<lparr>pen_lb := fmul (pen_lb p) 2, pen_hp := fmul (pen_hp p) 2\<rparr>)"
  using assms by (simp_all add: pen_sized_def sized_scale)

lemma for_active_weapons_sized: "pen_sized 30 (for_active_weapons g)"
proof -
  define on where "on = weapon_active g"
  define p0 where "p0 = penalties_default"
  define p1 where "p1 = (if on Force then
      p0\<lparr>pen_vp := fmul (pen_vp p0) 2, pen_hp := fmul (pen_hp p0) 4, pen_lb := fmul (pen_lb p0) 4\<rparr> else p0)"
  define p2 where "p2 = (if on FourByFour then p1\<lparr>pen_hp := fmul (pen_hp p1) 2, pen_vp := fmul (pen_vp p1) 2\<rparr> else p1)"
  define p3 where "p3 = (if on Bottle then
      p2\<lparr>pen_ohp := fdiv (pen_ohp p2) 10, pen_chp := fdiv (pen_chp p2) 10, pen_hp := fmul (pen_hp p2) 2\<rparr> else p2)"
  define p4 where "p4 = (if on NoDice then p3\<lparr>pen_vp := fmul (pen_vp p3) 4\<rparr> else p3)"
  define p5 where "p5 = (if on FallOut then p4\<lparr>pen_lb := fmul (pen_lb p4) 2, pen_hp := fmul (pen_hp p4) 2\<rparr> else p4)"
  have "for_active_weapons g = p5"
    unfolding for_active_weapons_def Let_def p5_def p4_def p3_def p2_def p1_def p0_def on_def ..
  moreover have d: "pen_sized 15 p0"
    by (simp add: p0_def pen_sized_def penalties_default_def penalty_consts sized_def)
  moreover have "pen_sized (15 + 3) p1" unfolding p1_def by (intro pen_sized_step d impI pen_retuned)
  moreover from this have "pen_sized (15 + 3 + 3) p2" unfolding p2_def by (intro pen_sized_step impI pen_retuned)
  moreover from this have "pen_sized (15 + 3 + 3 + 3) p3" unfolding p3_def by (intro pen_sized_step impI pen_retuned)
  moreover from this have "pen_sized (15 + 3 + 3 + 3 + 3) p4" unfolding p4_def by (intro pen_sized_step impI pen_retuned)
  moreover from this have "pen_sized (15 + 3 + 3 + 3 + 3 + 3) p5" unfolding p5_def by (intro pen_sized_step impI pen_retuned)
  ultimately show ?thesis by simp
qed

lemma eval_board_sized:
  assumes wh: "b_width b = 10" "b_height b = 28" and pen: "pen_sized 30 p"
  shows "sized 1023 (eval_board_with b p)"
proof -
  define tops where "tops = column_tops b"
  define top where "top = global_top b tops"
  define hs where "hs = count_holes b tops"
  define f where "f = fdiv (of_int top) (of_int (b_height b))"
  have "length tops = 10" by (simp add: tops_def column_tops_def wh)
  moreover have "\<And>t. t \<in> set tops \<Longrightarrow> 0 \<le> t \<and> t \<le> 28" using tops_range [of b] by (auto simp: tops_def wh)
  ultimately have V: "sized 40 (variance_raw tops)" using variance_sized [of tops] by simp
  have H: "sized 566 (h_cov hs)" "sized 280 (of_int (h_open hs))" "sized 280 (of_int (h_closed hs))"
    using count_holes_sized [OF wh] by (simp_all add: holes_sized_def hs_def tops_def)
  have "0 \<le> top" "top \<le> 28" using global_top_range [of b] by (simp_all add: top_def tops_def wh)
  then have "sized 0 (of_int top / of_int (b_height b))" by (simp add: sized_def wh)
  then have F: "sized 1 f" unfolding f_def fdiv_def using sized_r64 by fastforce
  have one: "sized 0 1" "sized 2 (- 4)" by (simp_all add: sized_def)
  have F': "sized 3 (fsub 1 f)" using sized_fsub [OF one(1) F] by (simp add: eval_nat_numeral)
  have L: "sized 5 (of_int (full_rows b))" using full_rows_range [OF wh(2)] by (intro sized_int) auto
  have P: "sized 30 (pen_vp p)" "sized 30 (pen_hp p)" "sized 30 (pen_chp p)" "sized 30 (pen_ohp p)"
    "sized 30 (pen_cvhp p)" "sized 30 (pen_lb p)" using pen by (simp_all add: pen_sized_def)
  define variance where "variance = fmul (fmul (fmul (fmul (variance_raw tops) (pen_vp p)) (fsub 1 f)) (fsub 1 f)) (fsub 1 f)"
  define hole_pen where "hole_pen = fadd (fmul (of_int (h_closed hs)) (pen_chp p)) (fmul (of_int (h_open hs)) (pen_ohp p))"
  define height_pen where "height_pen = fmul (fmul (fsub 1 f) (fsub 1 f)) (pen_hp p)"
  define bonus where "bonus = (if full_rows b > 0 then
               (if top < MIDLINE
                then fmul (fmul (pen_lb p) (of_int (full_rows b))) (fsub 1 f)
                else fmul (fmul (pen_lb p) (fadd (- 4) (of_int (full_rows b)))) f)
             else 0)"
  have v: "sized 83 variance"
    unfolding variance_def by (rule sized_mono, (rule sized_ops F' V P)+) simp
  have c: "sized 597 (fmul (h_cov hs) (pen_cvhp p))" by (rule sized_mono, (rule sized_ops H P)+) simp
  have h: "sized 313 hole_pen" unfolding hole_pen_def by (rule sized_mono, (rule sized_ops H P)+) simp
  have g: "sized 40 height_pen" unfolding height_pen_def by (rule sized_mono, (rule sized_ops F' P)+) simp
  have "sized 50 (fmul (fmul (pen_lb p) (of_int (full_rows b))) (fsub 1 f))"
    by (rule sized_mono, (rule sized_ops F' L P)+) simp
  moreover have "sized 50 (fmul (fmul (pen_lb p) (fadd (- 4) (of_int (full_rows b)))) f)"
    by (rule sized_mono, (rule sized_ops F L P one)+) simp
  ultimately have l: "sized 50 bonus" by (simp add: bonus_def sized_def)
  have "sized 1023 (fsub (fadd (fadd (fadd variance (fmul (h_cov hs) (pen_cvhp p))) hole_pen) height_pen) bonus)"
    by (rule sized_mono, (rule sized_ops v c h g l)+) simp
  then show ?thesis
    unfolding eval_board_with_def Let_def variance_def hole_pen_def height_pen_def bonus_def hs_def f_def top_def tops_def .
qed

subsection \<open>The landings\<close>

text \<open>The hard drop ends: a cell of the piece meets the floor, or the limit below a board that has fallen out.\<close>

lemma occupied_deep: "y > b_height b + BT_PIECE_HEIGHT \<Longrightarrow> 0 \<le> b_height b \<Longrightarrow> occupied b x y"
  by (simp add: occupied_def bt_const)

lemma descend_returns:
  assumes "solid p" "0 \<le> b_height b"
  shows "\<exists>y'. descend p b x y = Some y' \<and> y \<le> y' \<and> (\<forall>z. y < z \<and> z \<le> y' \<longrightarrow> can_move_to p b x z) \<and>
    \<not> can_move_to p b x (y' + 1)"
proof (induction "nat (b_height b + 9 - y)" arbitrary: y rule: less_induct)
  case less
  show ?case
  proof (cases "can_move_to p b x (y + 1)")
    case True
    obtain i j where ij: "i < 8" "j < 8" "p_cells p ! i ! j \<noteq> None" using assms(1) by (auto simp: solid_def)
    then have "\<not> occupied b (x + int i) (y + 1 + int j)" using True can_move_to_iff by blast
    then have "y + 1 + int j \<le> b_height b + BT_PIECE_HEIGHT" using occupied_deep assms(2) by force
    then have "nat (b_height b + 9 - (y + 1)) < nat (b_height b + 9 - y)" by (simp add: bt_const)
    from less [OF this] obtain y' where y': "descend p b x (y + 1) = Some y'" "y + 1 \<le> y'"
      "\<forall>z. y + 1 < z \<and> z \<le> y' \<longrightarrow> can_move_to p b x z" "\<not> can_move_to p b x (y' + 1)" by blast
    have "descend p b x y = Some y'" using True y'(1) by (simp add: descend.simps [of p b x y])
    moreover have "can_move_to p b x z" if "y < z" "z \<le> y'" for z
      using y'(3) True that by (cases "z = y + 1") auto
    ultimately show ?thesis using y'(2,4) by auto
  next
    case False
    then show ?thesis by (auto simp: descend.simps [of p b x y])
  qed
qed

lemma can_move_to_pos [simp]: "can_move_to (p\<lparr>p_x := u, p_y := v\<rparr>) b x y = can_move_to p b x y"
  by (simp add: can_move_to_def)

lemma solid_pos [simp]: "solid (p\<lparr>p_x := u, p_y := v\<rparr>) = solid p"
  by (simp add: solid_def)

lemma turn_times_in_cycle: "in_cycle p \<Longrightarrow> in_cycle (turn_times n scratch p)"
proof (induction n arbitrary: p)
  case (Suc n)
  then show ?case using piece_rotate_in_cycle [OF Suc.prems, of scratch False]
    by (simp add: split_beta)
qed simp

lemma move_to_in_cycle: "in_cycle p \<Longrightarrow> in_cycle (snd (move_to p b x y))"
  by (simp add: move_to_def in_cycle_move)

lemma rotated_in_cycle: "in_cycle p \<Longrightarrow> in_cycle (rotated_piece b p ori)"
  using turn_times_in_cycle [OF move_to_in_cycle] by (simp add: rotated_piece_def Let_def split_beta)

lemma in_cycle_solid: "in_cycle p \<Longrightarrow> solid p"
  by (simp add: in_cycle_def)

text \<open>What the search does in one column, as a value: the placement, the board after it and its lines.\<close>

definition landing_at :: "board \<Rightarrow> piece \<Rightarrow> i32 \<times> i32 \<Rightarrow> (placement \<times> board \<times> i32) option" where
  "landing_at b p c =
     (let r = rotated_piece b p (fst c) in
      if can_move_to r b (snd c) 0 then
        (let y = the (descend (r\<lparr>p_x := snd c, p_y := 0\<rparr>) b (snd c) 0);
             a = land (r\<lparr>p_x := snd c, p_y := y\<rparr>) b
         in Some (\<lparr>pl_x = snd c, pl_orientation = fst c\<rparr>, snd (the (check_lines a)), full_rows a))
      else None)"

definition landings :: "board \<Rightarrow> piece \<Rightarrow> (placement \<times> board \<times> i32) list" where
  "landings b p = List.map_filter (landing_at b p) (List.product (range_i 0 (p_orientations p)) (candidates b))"

text \<open>A landing the rules allow: the turned piece enters at the top and falls straight until it rests.\<close>

definition legal_landing :: "board \<Rightarrow> piece \<Rightarrow> placement \<Rightarrow> board \<Rightarrow> i32 \<Rightarrow> bool" where
  "legal_landing b p pl b' n \<longleftrightarrow>
     0 \<le> pl_orientation pl \<and> pl_orientation pl < p_orientations p \<and> - 7 \<le> pl_x pl \<and> pl_x pl < b_width b \<and>
     (\<exists>y \<ge> 0. let q = (rotated_piece b p (pl_orientation pl))\<lparr>p_x := pl_x pl, p_y := y\<rparr> in
        (\<forall>z. 0 \<le> z \<and> z \<le> y \<longrightarrow> can_move_to q b (pl_x pl) z) \<and> \<not> can_move_to q b (pl_x pl) (y + 1) \<and>
        n = full_rows (land q b) \<and> (\<exists>c. check_lines (land q b) = Some (c, b')))"

lemma landing_cases:
  assumes std: "std_board b" and cyc: "in_cycle p" and can: "can_move_to (rotated_piece b p ori) b x 0"
  obtains y a c b' where "descend ((rotated_piece b p ori)\<lparr>p_x := x, p_y := 0\<rparr>) b x 0 = Some y" "0 \<le> y"
    "a = land ((rotated_piece b p ori)\<lparr>p_x := x, p_y := y\<rparr>) b" "check_lines a = Some (c, b')" "std_board b'"
    "\<forall>z. 0 \<le> z \<and> z \<le> y \<longrightarrow> can_move_to (rotated_piece b p ori) b x z"
    "\<not> can_move_to (rotated_piece b p ori) b x (y + 1)"
    "landing_at b p (ori, x) = Some (\<lparr>pl_x = x, pl_orientation = ori\<rparr>, b', full_rows a)"
proof -
  let ?r = "rotated_piece b p ori"
  have solid: "solid (?r\<lparr>p_x := x, p_y := 0\<rparr>)" using in_cycle_solid [OF rotated_in_cycle [OF cyc]] by simp
  obtain y where y: "descend (?r\<lparr>p_x := x, p_y := 0\<rparr>) b x 0 = Some y" "0 \<le> y"
    "\<forall>z. 0 < z \<and> z \<le> y \<longrightarrow> can_move_to ?r b x z" "\<not> can_move_to ?r b x (y + 1)"
    using descend_returns [OF solid, of b x 0] std by (auto simp: std_board_def)
  obtain a where a: "a = land (?r\<lparr>p_x := x, p_y := y\<rparr>) b" by blast
  have like: "board_like b a" unfolding a by (rule board_like_land [OF std])
  then have wf: "wf_board a" by (simp add: board_like_def)
  obtain c b' where cb: "check_lines a = Some (c, b')" "wf_board b'" "same_cfg a b'"
    using check_lines_returns [OF wf] by (auto simp: returns_def)
  have "std_board b'" using board_like_cfg [OF _ cb(2,3)] like by (simp add: board_like_def)
  moreover have "can_move_to ?r b x z" if "0 \<le> z" "z \<le> y" for z
    using y(3) can that by (cases "z = 0") auto
  moreover have "landing_at b p (ori, x) = Some (\<lparr>pl_x = x, pl_orientation = ori\<rparr>, b', full_rows a)"
    using can by (simp add: landing_at_def Let_def y(1) a [symmetric] cb(1))
  ultimately show thesis using that [OF y(1,2) a cb(1)] y(4) by blast
qed

lemma visit_column_eq:
  assumes "std_board b" "in_cycle p"
  shows "visit_column visit ori (rotated_piece b p ori) b x s =
    Some (case landing_at b p (ori, x) of None \<Rightarrow> s | Some (pl, b', n) \<Rightarrow> visit pl b' n s)"
proof (cases "can_move_to (rotated_piece b p ori) b x 0")
  case True
  obtain y a c b' where L: "descend ((rotated_piece b p ori)\<lparr>p_x := x, p_y := 0\<rparr>) b x 0 = Some y" "0 \<le> y"
    "a = land ((rotated_piece b p ori)\<lparr>p_x := x, p_y := y\<rparr>) b" "check_lines a = Some (c, b')"
    "\<forall>z. 0 \<le> z \<and> z \<le> y \<longrightarrow> can_move_to (rotated_piece b p ori) b x z"
    "landing_at b p (ori, x) = Some (\<lparr>pl_x = x, pl_orientation = ori\<rparr>, b', full_rows a)"
    by (rule landing_cases [OF assms True])
  have "can_move_to (rotated_piece b p ori) b x y" using L(2,5) by blast
  then show ?thesis
    unfolding visit_column_def using True L(1,4,6)
    by (simp add: move_to_True L(3) [symmetric])
next
  case False
  then show ?thesis by (simp add: visit_column_def move_to_False landing_at_def Let_def)
qed

lemma fold_opt_map_filter:
  assumes "\<And>x s. x \<in> set xs \<Longrightarrow> f x s = Some (case g x of None \<Rightarrow> s | Some l \<Rightarrow> h l s)"
  shows "fold_opt f xs s = Some (fold h (List.map_filter g xs) s)"
  using assms by (induction xs arbitrary: s) (auto simp: List.map_filter_def split: option.splits)

lemma fold_opt_map: "fold_opt f (map g xs) s = fold_opt (\<lambda>x. f (g x)) xs s"
  by (induction xs arbitrary: s) (auto intro!: arg_cong [where f = "Option.bind _"])

lemma fold_opt_product:
  "fold_opt (\<lambda>x. fold_opt (f x) ys) xs s = fold_opt (\<lambda>(x, y). f x y) (List.product xs ys) s"
  by (induction xs arbitrary: s) (auto simp: fold_opt_append fold_opt_map intro!: arg_cong [where f = "Option.bind _"])

lemma for_each_landing_eq:
  assumes "std_board b" "in_cycle p"
  shows "for_each_landing b p visit s = Some (fold (\<lambda>(pl, b', n). visit pl b' n) (landings b p) s)"
  unfolding for_each_landing_def fold_opt_product landings_def
  by (rule fold_opt_map_filter) (auto simp: visit_column_eq [OF assms] split: option.split)

lemma candidates_std: "b_width b = 10 \<Longrightarrow> candidates b = [5, 6, 4, 7, 3, 8, 2, 9, 1, 0, -1, -2, -3, -4, -5, -6, -7]"
proof -
  have "candidate_loop (10 div 2) (- (8 - 1)) 10 1 [10 div 2] = [5, 6, 4, 7, 3, 8, 2, 9, 1, 0, -1, -2, -3, -4, -5, -6, -7]"
    by code_simp
  then show "b_width b = 10 \<Longrightarrow> ?thesis" by (simp add: candidates_def bt_const)
qed

lemma in_map_filter: "l \<in> set (List.map_filter f xs) \<longleftrightarrow> (\<exists>x \<in> set xs. f x = Some l)"
  by (induction xs) (auto simp: List.map_filter_def)

lemma landings_legal:
  assumes std: "std_board b" and cyc: "in_cycle p"
  shows "(pl, b', n) \<in> set (landings b p) \<longleftrightarrow> legal_landing b p pl b' n"
proof -
  have cand: "set (candidates b) = {-7..<10}" and w: "b_width b = 10"
    using std candidates_std [of b] by (auto simp: std_board_def) presburger
  define rng where "rng \<longleftrightarrow> 0 \<le> pl_orientation pl \<and> pl_orientation pl < p_orientations p \<and> - 7 \<le> pl_x pl \<and> pl_x pl < 10"
  have "(pl, b', n) \<in> set (landings b p) \<longleftrightarrow> rng \<and> landing_at b p (pl_orientation pl, pl_x pl) = Some (pl, b', n)"
    unfolding rng_def landings_def in_map_filter set_product cand set_range_i
    by (force simp: landing_at_def Let_def split: if_splits)
  also have "\<dots> \<longleftrightarrow> legal_landing b p pl b' n"
  proof (cases "can_move_to (rotated_piece b p (pl_orientation pl)) b (pl_x pl) 0")
    case True
    let ?r = "rotated_piece b p (pl_orientation pl)" and ?x = "pl_x pl"
    obtain y a c d where L: "0 \<le> y" "a = land (?r\<lparr>p_x := ?x, p_y := y\<rparr>) b" "check_lines a = Some (c, d)"
      "\<forall>z. 0 \<le> z \<and> z \<le> y \<longrightarrow> can_move_to ?r b ?x z" "\<not> can_move_to ?r b ?x (y + 1)"
      "landing_at b p (pl_orientation pl, ?x) = Some (\<lparr>pl_x = ?x, pl_orientation = pl_orientation pl\<rparr>, d, full_rows a)"
      by (rule landing_cases [OF std cyc True])
    have only: "u = y" if "0 \<le> u" "\<forall>z. 0 \<le> z \<and> z \<le> u \<longrightarrow> can_move_to ?r b ?x z" "\<not> can_move_to ?r b ?x (u + 1)" for u
    proof (rule antisym; rule ccontr)
      assume "\<not> u \<le> y"
      then show False using that(2) L(1,5) by (simp add: not_le)
    next
      assume "\<not> y \<le> u"
      then show False using that(1,3) L(4) by (simp add: not_le)
    qed
    have "legal_landing b p pl b' n \<longleftrightarrow> rng \<and> n = full_rows a \<and> b' = d"
    proof -
      define Q where "Q u \<longleftrightarrow> (\<forall>z. 0 \<le> z \<and> z \<le> u \<longrightarrow> can_move_to ?r b ?x z) \<and> \<not> can_move_to ?r b ?x (u + 1)" for u
      define R where "R u \<longleftrightarrow> n = full_rows (land (?r\<lparr>p_x := ?x, p_y := u\<rparr>) b) \<and>
          (\<exists>c. check_lines (land (?r\<lparr>p_x := ?x, p_y := u\<rparr>) b) = Some (c, b'))" for u
      have Q: "Q u \<and> 0 \<le> u \<longleftrightarrow> u = y" for u using only L(1,4,5) unfolding Q_def by blast
      have "legal_landing b p pl b' n \<longleftrightarrow> rng \<and> (\<exists>u \<ge> 0. Q u \<and> R u)"
        unfolding legal_landing_def w Let_def can_move_to_pos Q_def R_def rng_def by simp
      moreover have "(\<exists>u \<ge> 0. Q u \<and> R u) \<longleftrightarrow> R y" by (metis Q)
      moreover have "R y \<longleftrightarrow> n = full_rows a \<and> b' = d"
        unfolding R_def L(2) [symmetric] L(3) by auto
      ultimately show ?thesis by argo
    qed
    then show ?thesis using L(6) by auto
  next
    case False
    then have "landing_at b p (pl_orientation pl, pl_x pl) = None" by (simp add: landing_at_def Let_def)
    moreover have "\<not> legal_landing b p pl b' n"
      using False unfolding legal_landing_def Let_def can_move_to_pos by force
    ultimately show ?thesis by simp
  qed
  finally show ?thesis .
qed

subsection \<open>The choice\<close>

text \<open>\<open>pl\<close> is the placement of the first landing with the least score, or the default when there is none.\<close>

definition first_least :: "(board \<Rightarrow> i32 \<Rightarrow> f64) \<Rightarrow> (placement \<times> board \<times> i32) list \<Rightarrow> placement \<Rightarrow> placement \<Rightarrow> bool" where
  "first_least score ls fallback pl \<longleftrightarrow>
     (if ls = [] then pl = fallback
      else \<exists>k < length ls. pl = fst (ls ! k) \<and>
        (\<forall>j < length ls. score (fst (snd (ls ! k))) (snd (snd (ls ! k))) \<le> score (fst (snd (ls ! j))) (snd (snd (ls ! j)))) \<and>
        (\<forall>j < k. score (fst (snd (ls ! k))) (snd (snd (ls ! k))) < score (fst (snd (ls ! j))) (snd (snd (ls ! j)))))"

lemma least_fold:
  fixes f :: "'a \<Rightarrow> 'b :: linorder"
  assumes "\<And>l. l \<in> set ls \<Longrightarrow> f l < v0" "ls \<noteq> []"
  shows "\<exists>k < length ls. fold (\<lambda>l (v, best). if f l < v then (f l, g l) else (v, best)) ls (v0, d) = (f (ls ! k), g (ls ! k)) \<and>
    (\<forall>j < length ls. f (ls ! k) \<le> f (ls ! j)) \<and> (\<forall>j < k. f (ls ! k) < f (ls ! j))"
  using assms
proof (induction ls rule: rev_induct)
  case (snoc x xs)
  show ?case
  proof (cases "xs = []")
    case True
    then show ?thesis using snoc.prems by auto
  next
    case False
    then obtain k where k: "k < length xs"
      "fold (\<lambda>l (v, best). if f l < v then (f l, g l) else (v, best)) xs (v0, d) = (f (xs ! k), g (xs ! k))"
      "\<forall>j < length xs. f (xs ! k) \<le> f (xs ! j)" "\<forall>j < k. f (xs ! k) < f (xs ! j)"
      using snoc by auto
    show ?thesis
    proof (cases "f x < f (xs ! k)")
      case True
      have "\<forall>j < length xs. f x < f (xs ! j)" using True k(3) by (meson order_less_le_trans)
      then show ?thesis
        using True k(2) by (intro exI [of _ "length xs"]) (auto simp: nth_append less_Suc_eq order_less_imp_le)
    next
      case False
      then show ?thesis using k by (intro exI [of _ k]) (auto simp: nth_append less_Suc_eq)
    qed
  qed
qed simp

lemma search_first_least:
  assumes std: "std_board b" and cyc: "in_cycle p"
    and top: "\<And>pl b' n. legal_landing b p pl b' n \<Longrightarrow> score b' n < v0"
  shows "\<exists>v pl. for_each_landing b p
      (\<lambda>pl b n (best_score, best). if score b n < best_score then (score b n, pl) else (best_score, best)) (v0, d) = Some (v, pl) \<and>
    first_least score (landings b p) d pl"
proof -
  let ?ls = "landings b p" and ?f = "\<lambda>l :: placement \<times> board \<times> i32. score (fst (snd l)) (snd (snd l))"
  have "(\<lambda>(pl, b', n) (best_score, best). if score b' n < best_score then (score b' n, pl) else (best_score, best))
      = (\<lambda>l (v, best). if ?f l < v then (?f l, fst l) else (v, best))"
    by (auto simp: fun_eq_iff)
  then have eq: "for_each_landing b p
      (\<lambda>pl b n (best_score, best). if score b n < best_score then (score b n, pl) else (best_score, best)) (v0, d)
      = Some (fold (\<lambda>l (v, best). if ?f l < v then (?f l, fst l) else (v, best)) ?ls (v0, d))"
    by (simp add: for_each_landing_eq [OF std cyc] split_def)
  show ?thesis
  proof (cases "?ls = []")
    case True
    then show ?thesis unfolding eq by (simp add: first_least_def)
  next
    case False
    have less: "\<And>l. l \<in> set ?ls \<Longrightarrow> ?f l < v0"
    proof -
      fix l assume "l \<in> set ?ls"
      then show "?f l < v0"
        using top landings_legal [OF std cyc, of "fst l" "fst (snd l)" "snd (snd l)"] by simp
    qed
    from least_fold [where f = ?f, OF less False, where g = fst and d = d] show ?thesis
      unfolding eq first_least_def using False by auto
  qed
qed

lemma legal_std:
  assumes "std_board b" "in_cycle p" "legal_landing b p pl b' n" shows "std_board b'"
proof -
  from assms(3) have can: "can_move_to (rotated_piece b p (pl_orientation pl)) b (pl_x pl) 0"
    unfolding legal_landing_def Let_def can_move_to_pos by force
  have "(pl, b', n) \<in> set (landings b p)" using assms landings_legal by blast
  then have at: "landing_at b p (pl_orientation pl, pl_x pl) = Some (pl, b', n)"
    by (auto simp: landings_def in_map_filter landing_at_def Let_def split: if_splits)
  show ?thesis by (rule landing_cases [OF assms(1,2) can]) (use at in simp)
qed

text \<open>
  C38. The search of the computer player returns, and it chooses the best move: its placement belongs to
  the first landing, in the visiting order from the centre outwards, whose board has the least score
  under the weights retuned for the active weapons (the spawn column when nothing fits). The landings
  visited are exactly the legal ones: every turned shape that can enter a column from the top and
  falls straight to where it rests.
\<close>

theorem placement_first_best:
  assumes "std_board b" "in_cycle p"
  shows "\<exists>pl. best_placement_tuned b p (for_active_weapons g) = Some pl \<and>
      first_least (\<lambda>b' _. eval_board_with b' (for_active_weapons g)) (landings b p) (spawn_placement p) pl \<and>
      (\<forall>pl b' n. (pl, b', n) \<in> set (landings b p) \<longleftrightarrow> legal_landing b p pl b' n)"
proof -
  let ?pen = "for_active_weapons g"
  have less: "\<And>pl b' n. legal_landing b p pl b' n \<Longrightarrow> eval_board_with b' ?pen < f64_MAX"
    using legal_std [OF assms] sized_max [OF eval_board_sized [OF _ _ for_active_weapons_sized]]
    by (auto simp: std_board_def)
  have "\<exists>v pl. for_each_landing b p (\<lambda>pl b' n (best_score, best).
        if eval_board_with b' ?pen < best_score then (eval_board_with b' ?pen, pl) else (best_score, best))
        (f64_MAX, spawn_placement p) = Some (v, pl) \<and>
      first_least (\<lambda>b' _. eval_board_with b' ?pen) (landings b p) (spawn_placement p) pl"
    by (rule search_first_least [OF assms]) (rule less)
  then obtain v pl where "best_placement_tuned b p ?pen = Some pl"
    "first_least (\<lambda>b' _. eval_board_with b' ?pen) (landings b p) (spawn_placement p) pl"
    unfolding best_placement_tuned_def Let_def by auto
  then show ?thesis using landings_legal [OF assms] by blast
qed

theorem placement_first_best_witness:
  "\<exists>pl. best_placement_tuned (board_standard True) (construct Plug 4 0 1) (for_active_weapons (game_fresh 7)) = Some pl \<and>
      first_least (\<lambda>b' _. eval_board_with b' (for_active_weapons (game_fresh 7)))
        (landings (board_standard True) (construct Plug 4 0 1)) (spawn_placement (construct Plug 4 0 1)) pl \<and>
      (\<forall>pl b' n. (pl, b', n) \<in> set (landings (board_standard True) (construct Plug 4 0 1))
        \<longleftrightarrow> legal_landing (board_standard True) (construct Plug 4 0 1) pl b' n)"
proof (rule placement_first_best)
  show "std_board (board_standard True)" by code_simp
  show "in_cycle (construct Plug 4 0 1)" by (rule construct_in_cycle)
qed

end
