(* ===== verification/Commando.thy ===== *)
theory Commando
  imports GameProps
begin

section \<open>The computer player's weapon orders\<close>

text \<open>
  \<open>bt-ai/src/ernie.rs\<close>: which weapons the computer opponent buys in the bazaar and when it launches
  them. A queue of orders, each with up to three triggers (\<open>- 1\<close> is none); purchases wait in the queue
  as members of a combo until the combo has cost enough.

  The loop that buys while a weapon is chosen ends because every purchase takes at least the cheapest
  price from the funds; the loop over the orders ends although a launched Reagan appends three orders,
  because those are not launches.
\<close>

definition BT_SWAPLINE :: i32 where "BT_SWAPLINE = 5"

definition BT_MIN_COMBO_COST :: i64 where "BT_MIN_COMBO_COST = 750"

definition BT_MAX_COMBO_COST :: i64 where "BT_MAX_COMBO_COST = 1250"

datatype order_kind = Launch | Combo | CanPurchase

record order =
  or_kind :: order_kind
  or_weapon :: i32
  or_line_no :: i32
  or_bazaar_no :: i32
  or_my_line_no :: i32

record strategy =
  st_commando :: "order list"
  st_can_purchase :: "bool list"
  st_can_launch :: "bool list"
  st_next_weapon :: "nat option"
  st_combo_cost :: i64
  st_bazaar_no :: i32
  st_next_launch :: i32
  st_weapons_bought :: u64
  st_rng :: rng

text \<open>The topmost occupied row over all columns, or the height.\<close>

definition board_top :: "board \<Rightarrow> i32" where
  "board_top b =
     (let h = b_height b in
      fold (\<lambda>x top. case find (\<lambda>y. occupied b x y) (range_i 0 h) of
          Some y \<Rightarrow> if y < top then y else top
        | None \<Rightarrow> top) (range_i 0 (b_width b)) h)"

definition strategy_new :: "u64 \<Rightarrow> strategy" where
  "strategy_new seed =
     \<lparr>st_commando = [\<lparr>or_kind = CanPurchase, or_weapon = int (index Susan), or_line_no = 50,
                      or_bazaar_no = - 1, or_my_line_no = - 1\<rparr>],
      st_can_purchase = fold (\<lambda>t c. c[index t := False]) [Ace, Condor, Ames, Meadow, Susan, Reagan]
        (replicate BT_MAX_WEAPONS True),
      st_can_launch = replicate BT_MAX_WEAPONS True, st_next_weapon = None, st_combo_cost = - 1,
      st_bazaar_no = 0, st_next_launch = 0, st_weapons_bought = 0, st_rng = rng_new seed\<rparr>"

definition price_weapon :: "nat \<Rightarrow> bool \<Rightarrow> i64" where
  "price_weapon w carter =
     (let p = uint (wi_price (weapon_table ! w)) in if carter then p * 2 else p)"

definition purchase_approved :: "strategy \<Rightarrow> nat \<Rightarrow> bool" where
  "purchase_approved s weapon =
     (if \<not> st_can_purchase s ! weapon then False
      else \<not> list_ex (\<lambda>ord. nat (or_weapon ord) = weapon
          \<and> (case from_index (or_weapon ord) of Some t \<Rightarrow> t \<in> {Carter, Susan, Swap} | None \<Rightarrow> False))
        (st_commando s))"

subsection \<open>Shopping\<close>

text \<open>The draws of a weapon to start a combo with; the first argument counts the tries left.\<close>

fun pick_weapon :: "nat \<Rightarrow> strategy \<Rightarrow> strategy" where
  "pick_weapon 0 s = s"
| "pick_weapon (Suc k) s =
     (let (n, r) = rand_below (int BT_MAX_WEAPONS) (st_rng s); s = s\<lparr>st_rng := r\<rparr> in
      if purchase_approved s (nat n) then s\<lparr>st_next_weapon := Some (nat n)\<rparr> else pick_weapon k s)"

text \<open>The bookkeeping of one purchase: the order, the combo's cost and the chain of the next weapon.\<close>

definition queue_purchase :: "nat \<Rightarrow> weapon_token \<Rightarrow> i64 \<Rightarrow> strategy \<Rightarrow> strategy" where
  "queue_purchase w tok price s =
     (let s = s\<lparr>st_weapons_bought := st_weapons_bought s + 1,
                st_combo_cost := (if st_combo_cost s < 0 then price else st_combo_cost s + price)\<rparr>;
          kind = (if tok \<in> {SoLong, Mondale, Carter} then Launch else Combo);
          s = (if tok = Reagan then s\<lparr>st_can_launch := (st_can_launch s)[index NiceDay := True]\<rparr> else s);
          s = s\<lparr>st_commando := st_commando s @
                  [\<lparr>or_kind = kind, or_weapon = int w, or_line_no = st_next_launch s,
                    or_bazaar_no = - 1, or_my_line_no = - 1\<rparr>],
                st_next_weapon := None\<rparr>;
          s = (case tok of
                 NiceDay \<Rightarrow>
                   (let s = s\<lparr>st_can_launch := (st_can_launch s)[index NiceDay := False],
                              st_can_purchase := ((st_can_purchase s)[index NiceDay := False])[index Reagan := True],
                              st_next_weapon := Some (index Reagan),
                              st_next_launch := st_next_launch s + 1\<rparr>
                    in if st_combo_cost s \<ge> BT_MAX_COMBO_COST
                       then s\<lparr>st_combo_cost := BT_MAX_COMBO_COST - 1\<rparr> else s)
               | Speedy \<Rightarrow>
                   if st_combo_cost s < BT_MAX_COMBO_COST then s\<lparr>st_next_weapon := Some (index Speedy)\<rparr> else s
               | Reagan \<Rightarrow> s\<lparr>st_can_purchase := (st_can_purchase s)[index Reagan := False]\<rparr>
               | _ \<Rightarrow> s)
      in if st_combo_cost s \<ge> BT_MIN_COMBO_COST \<and> st_next_weapon s = None \<or> w = index Susan
         then s\<lparr>st_combo_cost := 0\<rparr> else s)"

lemma buy_weapon_bought:
  assumes "buy_weapon t g = (True, g')"
  shows "s_funds (g_score g') = s_funds (g_score g) - bazaar_price t g"
    "bazaar_price t g \<le> s_funds (g_score g)" "15 \<le> bazaar_price t g"
    "g_in_bazaar g" "g_weapons g' = g_weapons g"
  using assms price_of_bounds [of t]
  by (auto simp: buy_weapon_def bazaar_price_def add_score_funds_def Let_def split_beta split: if_splits)

function buy_pass :: "bool \<Rightarrow> strategy \<Rightarrow> game \<Rightarrow> strategy \<times> game" where
  "buy_pass carter s g =
     (case st_next_weapon s of
        None \<Rightarrow> (s, g)
      | Some w \<Rightarrow>
          (let price = price_weapon w carter in
           if price > s_funds (g_score g) then (s, g)
           else case from_index (int w) of
               None \<Rightarrow> (s, g)
             | Some tok \<Rightarrow>
                 (case buy_weapon tok g of
                    (False, g') \<Rightarrow> (s, g')
                  | (True, g') \<Rightarrow> buy_pass carter (queue_purchase w tok price s) g')))"
  by pat_completeness auto

termination
proof (relation "measure (\<lambda>(carter, s, g). nat (s_funds (g_score g)))", goal_cases)
  case (2 carter s g w price tok ok g')
  then show ?case using buy_weapon_bought(1-3) [of tok g g'] by simp
qed simp

declare buy_pass.simps [simp del]

text \<open>The outer loop; the first argument counts the passes left.\<close>

fun shop_passes :: "nat \<Rightarrow> bool \<Rightarrow> strategy \<Rightarrow> game \<Rightarrow> strategy \<times> game" where
  "shop_passes 0 carter s g = (s, g)"
| "shop_passes (Suc n) carter s g =
     (let old_bought = st_weapons_bought s;
          s = (if st_next_weapon s = None then pick_weapon 256 s else s)
      in if st_next_weapon s = None then (s, g)
         else let (s, g) = buy_pass carter s g in
           if st_weapons_bought s = old_bought \<or> st_combo_cost s = 0 then (s, g)
           else shop_passes n carter s g)"

definition promote :: "strategy \<Rightarrow> strategy" where
  "promote s =
     (if st_combo_cost s = 0 then
        s\<lparr>st_commando := map (\<lambda>ord. if or_kind ord = Combo \<and> st_can_launch s ! nat (or_weapon ord)
            then ord\<lparr>or_kind := Launch\<rparr> else ord) (st_commando s)\<rparr>
      else s)"

definition go_shopping :: "strategy \<Rightarrow> game \<Rightarrow> strategy \<times> game" where
  "go_shopping s g =
     (let s = s\<lparr>st_bazaar_no := st_bazaar_no s + 1,
                st_can_purchase := (st_can_purchase s)[index Swap := (board_top (g_board g) \<le> BT_SWAPLINE)]\<rparr>;
          carter = weapon_active g Carter;
          (s, g) = shop_passes 256 carter s g
      in (promote s, g))"

subsection \<open>Launching\<close>

fun launch_slot :: "nat list \<Rightarrow> nat \<Rightarrow> game \<Rightarrow> bool \<times> game" where
  "launch_slot [] weapon g = (False, g)"
| "launch_slot (slot # slots) weapon g =
     (if token_int (slot_token (g_arsenal g) slot) = int weapon \<and> slot_quantity (g_arsenal g) slot > 0
      then (True, Game.launch_weapon slot g) else launch_slot slots weapon g)"

definition ernie_launch_weapon :: "nat \<Rightarrow> strategy \<Rightarrow> game \<Rightarrow> strategy \<times> game" where
  "ernie_launch_weapon weapon s g =
     (case from_index (int weapon) of
        None \<Rightarrow> (s, g)
      | Some tok \<Rightarrow>
          (if tok \<in> {Hatter, FlipOut, Speedy} then (s, g)
           else let (launched, g) = launch_slot [0..<10] weapon g in
             if launched \<and> tok = Reagan then
               (let resume = as_i32 (s_op_lines (g_score g) + 50);
                    s = s\<lparr>st_can_purchase := fold (\<lambda>t c. c[index t := False]) [Reagan, Keating, NiceDay] (st_can_purchase s),
                          st_can_launch := (st_can_launch s)[index NiceDay := False]\<rparr>
                in (s\<lparr>st_commando := st_commando s @ map (\<lambda>t.
                        \<lparr>or_kind = CanPurchase, or_weapon = int (index t), or_line_no = resume,
                         or_bazaar_no = - 1, or_my_line_no = - 1\<rparr>) [Reagan, Keating, NiceDay]\<rparr>, g))
             else (s, g)))"

definition rescheduled :: "i64 \<Rightarrow> i64 \<Rightarrow> order \<Rightarrow> order" where
  "rescheduled op_lines prev_line ord =
     (if prev_line > - 1 \<and> or_line_no ord > - 1 \<and> or_line_no ord > prev_line
      then ord\<lparr>or_line_no := as_i32 (or_line_no ord - prev_line + op_lines)\<rparr> else ord)"

definition order_fires :: "i64 \<Rightarrow> i64 \<Rightarrow> i32 \<Rightarrow> order \<Rightarrow> bool" where
  "order_fires op_lines top_row bazaar_no ord \<longleftrightarrow>
     (or_line_no ord > - 1 \<and> or_line_no ord \<le> op_lines) \<or>
     (or_bazaar_no ord > - 1 \<and> or_bazaar_no ord \<le> bazaar_no) \<or>
     (or_my_line_no ord > - 1 \<and> or_my_line_no ord \<ge> top_row)"

text \<open>\<open>commando.remove(i)\<close>\<close>

definition remove_order :: "nat \<Rightarrow> strategy \<Rightarrow> strategy" where
  "remove_order i s = s\<lparr>st_commando := take i (st_commando s) @ drop (Suc i) (st_commando s)\<rparr>"

text \<open>What is left for the loop over the orders to do.\<close>

definition order_weight :: "order \<Rightarrow> nat" where
  "order_weight ord = (if or_kind ord = Launch then 5 else 1)"

definition work_left :: "nat \<Rightarrow> strategy \<Rightarrow> nat" where
  "work_left i s = sum_list (map order_weight (drop i (st_commando s)))"

lemma order_weight_rescheduled [simp]: "order_weight (rescheduled a b ord) = order_weight ord"
  "or_kind (rescheduled a b ord) = or_kind ord" "or_weapon (rescheduled a b ord) = or_weapon ord"
  by (simp_all add: rescheduled_def order_weight_def)

lemma work_left_removed:
  assumes "i < length (st_commando s)"
  shows "work_left i (remove_order i s) + order_weight (st_commando s ! i) = work_left i s"
  using assms by (simp add: work_left_def remove_order_def Cons_nth_drop_Suc [symmetric] del: drop_Suc)

lemma work_left_launch: "i \<le> length (st_commando s) \<Longrightarrow> work_left i (fst (ernie_launch_weapon w s g)) \<le> work_left i s + 3"
  by (auto simp: ernie_launch_weapon_def work_left_def order_weight_def Let_def split_beta split: option.splits)

lemma work_left_next:
  assumes "i < length (st_commando s)"
  shows "work_left (Suc i) s < work_left i s"
  using assms by (simp add: work_left_def Cons_nth_drop_Suc [symmetric] order_weight_def del: drop_Suc)

lemma work_left_update: "i < length (st_commando s) \<Longrightarrow> order_weight ord = order_weight (st_commando s ! i) \<Longrightarrow>
    work_left i (s\<lparr>st_commando := (st_commando s)[i := ord]\<rparr>) = work_left i s"
  by (simp add: work_left_def Cons_nth_drop_Suc [symmetric] drop_update_cancel)

lemma work_left_remove_less:
  assumes "i < length (st_commando s)"
  shows "work_left i (remove_order i s) < work_left i s"
  using work_left_removed [OF assms] by (simp add: order_weight_def split: if_splits)

lemma work_left_launched:
  assumes "i < length (st_commando s)" "or_kind (st_commando s ! i) = Launch"
    "ernie_launch_weapon w (remove_order i s) g = (s', g')"
  shows "work_left i s' < work_left i s"
proof -
  have "i \<le> length (st_commando (remove_order i s))" using assms(1) by (simp add: remove_order_def)
  from work_left_launch [OF this, of w g] show ?thesis
    using work_left_removed [OF assms(1)] assms(2,3) by (simp add: order_weight_def)
qed

function commando_loop ::
    "i64 \<Rightarrow> i64 \<Rightarrow> bool \<Rightarrow> i64 \<Rightarrow> nat \<Rightarrow> strategy \<Rightarrow> game \<Rightarrow> strategy \<times> game" where
  "commando_loop op_lines top_row mirror prev_line i s g =
     (if i < length (st_commando s) then
        let ord = rescheduled op_lines prev_line (st_commando s ! i);
            s = s\<lparr>st_commando := (st_commando s)[i := ord]\<rparr>
        in if order_fires op_lines top_row (st_bazaar_no s) ord then
             (case or_kind ord of
                Launch \<Rightarrow>
                  if \<not> mirror then
                    (case ernie_launch_weapon (nat (or_weapon ord)) (remove_order i s) g of
                       (s, g) \<Rightarrow> commando_loop op_lines top_row mirror
                         (if prev_line = - 1 \<and> or_line_no ord > - 1 then or_line_no ord else prev_line) i s g)
                  else commando_loop op_lines top_row mirror prev_line (i + 1) s g
              | CanPurchase \<Rightarrow>
                  commando_loop op_lines top_row mirror prev_line i
                    (remove_order i (s\<lparr>st_can_purchase := (st_can_purchase s)[nat (or_weapon ord) := True]\<rparr>)) g
              | Combo \<Rightarrow> commando_loop op_lines top_row mirror prev_line (i + 1) s g)
           else commando_loop op_lines top_row mirror prev_line (i + 1) s g
      else (s, g))"
  by pat_completeness auto

termination
proof (relation "measure (\<lambda>(op, t, m, pl, i, s, g). work_left i s)", goal_cases)
  case (2 op t m pl i s g ord s1 s2 g2)
  then show ?case
    using work_left_launched [of i s1] work_left_update [of i s ord] by (simp split: prod.split)
next
  case (3 op t m pl i s g ord s1)
  then show ?case
    using work_left_next [of i s1] work_left_update [of i s ord] by simp
next
  case (4 op t m pl i s g ord s1)
  then show ?case
    using work_left_next [of i s1] work_left_update [of i s ord] by simp
next
  case (5 op t m pl i s g ord s1)
  let ?s = "s1\<lparr>st_can_purchase := (st_can_purchase s1)[nat (or_weapon ord) := True]\<rparr>"
  have "work_left i ?s = work_left i s1" by (simp add: work_left_def)
  then show ?case
    using 5 work_left_remove_less [of i ?s] work_left_update [of i s ord] by simp
next
  case (6 op t m pl i s g ord s1)
  then show ?case
    using work_left_next [of i s1] work_left_update [of i s ord] by simp
qed simp

declare commando_loop.simps [simp del]

definition activate_commando :: "strategy \<Rightarrow> game \<Rightarrow> strategy \<times> game" where
  "activate_commando s g =
     commando_loop (s_op_lines (g_score g)) (board_top (g_board g)) (weapon_active g Mirror) (- 1) 0 s g"

subsection \<open>The invariant of a strategy\<close>

text \<open>
  Every weapon that an order names is one that the computer may buy: the spies and Meadow are never
  purchasable, and no order ever unlocks them.
\<close>

definition shunned :: "weapon_token set" where
  "shunned = {Ace, Condor, Ames, Meadow}"

definition barred :: "weapon_token set" where
  "barred = {Hatter, FlipOut, Speedy}"

definition fair_weapon :: "int \<Rightarrow> bool" where
  "fair_weapon i \<longleftrightarrow> (\<exists>t. i = int (index t) \<and> t \<notin> shunned)"

definition strategy_ok :: "strategy \<Rightarrow> bool" where
  "strategy_ok s \<longleftrightarrow> length (st_can_purchase s) = 34 \<and> length (st_can_launch s) = 34 \<and>
     (\<forall>t \<in> shunned. \<not> st_can_purchase s ! index t) \<and>
     (\<forall>ord \<in> set (st_commando s). fair_weapon (or_weapon ord)) \<and>
     (\<forall>w. st_next_weapon s = Some w \<longrightarrow> fair_weapon (int w))"

lemma fair_index [simp]: "fair_weapon (int (index t)) = (t \<notin> shunned)"
  by (auto simp: fair_weapon_def)

lemma index_less_34 [simp]: "index t < 34"
  using index_less [of t] by (simp add: bt_const)

lemma strategy_new_ok: "strategy_ok (strategy_new seed)"
  by (simp add: strategy_ok_def strategy_new_def shunned_def bt_const fair_weapon_def)
    (auto simp: index_def intro: exI [of _ Susan])

lemma approved_fair:
  assumes "strategy_ok s" "purchase_approved s n" "n < 34"
  shows "fair_weapon (int n)"
proof -
  obtain t where t: "from_index (int n) = Some t" using assms(3) from_index_None [of "int n"] by fastforce
  then have "int n = int (index t)" by (rule from_index_SomeD)
  moreover have "t \<notin> shunned"
    using assms(1,2) calculation by (auto simp: purchase_approved_def strategy_ok_def split: if_splits)
  ultimately show ?thesis unfolding fair_weapon_def by blast
qed

lemma pick_weapon_ok: "strategy_ok s \<Longrightarrow> strategy_ok (pick_weapon k s) \<and> st_commando (pick_weapon k s) = st_commando s"
proof (induction k arbitrary: s)
  case (Suc k)
  obtain n r where nr: "rand_below 34 (st_rng s) = (n, r)" by fastforce
  have n: "0 \<le> n" "n < 34" using rand_below_bounds [of 34 "st_rng s"] nr by simp_all
  have ok: "strategy_ok (s\<lparr>st_rng := r\<rparr>)" using Suc.prems by (simp add: strategy_ok_def)
  show ?case
  proof (cases "purchase_approved (s\<lparr>st_rng := r\<rparr>) (nat n)")
    case True
    then have "fair_weapon (int (nat n))" using approved_fair [OF ok True] n by simp
    then show ?thesis using ok True by (simp add: nr bt_const strategy_ok_def)
  next
    case False
    then show ?thesis using Suc.IH [OF ok] by (simp add: nr bt_const)
  qed
qed simp

lemma chain_case:
  "(case tok of NiceDay \<Rightarrow> a | Speedy \<Rightarrow> b | Reagan \<Rightarrow> c | _ \<Rightarrow> d) =
    (if tok = NiceDay then a else if tok = Speedy then b else if tok = Reagan then c else d)"
  by (cases tok) simp_all

lemma queue_purchase_fields:
  "map or_weapon (st_commando (queue_purchase w tok price s)) = map or_weapon (st_commando s) @ [int w]"
  "st_can_purchase (queue_purchase w tok price s) =
     (if tok = NiceDay then ((st_can_purchase s)[index NiceDay := False])[index Reagan := True]
      else if tok = Reagan then (st_can_purchase s)[index Reagan := False] else st_can_purchase s)"
  "length (st_can_launch (queue_purchase w tok price s)) = length (st_can_launch s)"
  "st_next_weapon (queue_purchase w tok price s) \<in> {None, Some (index Reagan), Some (index Speedy)}"
  unfolding queue_purchase_def Let_def chain_case by simp_all

lemma queue_purchase_ok:
  assumes ok: "strategy_ok s" and fair: "tok \<notin> shunned"
  shows "strategy_ok (queue_purchase (index tok) tok price s)"
proof -
  have names: "NiceDay \<notin> shunned" "Reagan \<notin> shunned" "Speedy \<notin> shunned" by (simp_all add: shunned_def)
  have "\<forall>t \<in> shunned. index t \<noteq> index NiceDay \<and> index t \<noteq> index Reagan"
    by (simp add: shunned_def)
  then have "\<forall>t \<in> shunned. \<not> st_can_purchase (queue_purchase (index tok) tok price s) ! index t"
    using ok unfolding queue_purchase_fields(2) strategy_ok_def by (simp add: nth_list_update)
  moreover have "fair_weapon (or_weapon ord)" if "ord \<in> set (st_commando (queue_purchase (index tok) tok price s))" for ord
  proof -
    have "or_weapon ord \<in> set (map or_weapon (st_commando s) @ [int (index tok)])"
      using that by (simp flip: queue_purchase_fields(1) [of "index tok" tok price s])
    then show ?thesis using ok fair by (auto simp: strategy_ok_def)
  qed
  moreover have "fair_weapon (int w)" if "st_next_weapon (queue_purchase (index tok) tok price s) = Some w" for w
    using that queue_purchase_fields(4) [of "index tok" tok price s] names
    by (auto simp del: index.simps)
  ultimately show ?thesis
    using ok queue_purchase_fields(3) [of "index tok" tok price s] unfolding strategy_ok_def
    by (simp add: queue_purchase_fields(2))
qed

text \<open>A sequence of purchases, every one of which succeeds.\<close>

fun buys :: "weapon_token list \<Rightarrow> game \<Rightarrow> game option" where
  "buys [] g = Some g"
| "buys (t # ts) g = (case buy_weapon t g of (True, g') \<Rightarrow> buys ts g' | (False, _) \<Rightarrow> None)"

lemma buy_weapon_fails: "buy_weapon t g = (False, g') \<Longrightarrow> g' = g"
  by (cases rule: buy_cases [of "g_arsenal g" t])
    (auto simp: buy_weapon_def Let_def split_beta split: if_splits)

lemma buys_append: "buys (ts @ us) g = Option.bind (buys ts g) (buys us)"
  by (induction ts arbitrary: g) (auto split: prod.split bool.split)

lemma buys_funds:
  "buys ts g = Some g' \<Longrightarrow>
    s_funds (g_score g') + sum_list (map (\<lambda>t. bazaar_price t g) ts) = s_funds (g_score g) \<and>
    (ts \<noteq> [] \<longrightarrow> 0 \<le> s_funds (g_score g') \<and> g_in_bazaar g) \<and> (reachable g \<longrightarrow> reachable g')"
proof (induction ts arbitrary: g)
  case (Cons t ts)
  obtain h where h: "buy_weapon t g = (True, h)" "buys ts h = Some g'"
    using Cons.prems by (auto split: prod.splits bool.splits)
  note b = buy_weapon_bought [OF h(1)]
  have "bazaar_price u h = bazaar_price u g" for u using b(5) by (simp add: bazaar_price_def weapon_active_def)
  moreover have "reachable g \<longrightarrow> reachable h" using r_buy [of g t] h(1) by simp
  moreover have "ts = [] \<longrightarrow> g' = h" using h(2) by auto
  ultimately show ?case using Cons.IH [OF h(2)] b(1,2,4) by auto
qed simp

lemma buy_pass_spec:
  assumes "strategy_ok s" "buy_pass carter s g = (s', g')"
  shows "strategy_ok s' \<and> (\<exists>ts. buys ts g = Some g' \<and> set ts \<inter> shunned = {} \<and>
    map or_weapon (st_commando s') = map or_weapon (st_commando s) @ map (\<lambda>t. int (index t)) ts)"
  using assms
proof (induction carter s g arbitrary: s' g' rule: buy_pass.induct)
  case (1 carter s g)
  have stop: ?case if "s' = s" "g' = g"
    using that 1(2) by (auto intro: exI [of _ "[]"])
  show ?case
  proof (cases "st_next_weapon s")
    case None
    then show ?thesis using 1(3) stop by (simp add: buy_pass.simps [of carter s g])
  next
    case (Some w)
    show ?thesis
    proof (cases "price_weapon w carter > s_funds (g_score g) \<or> from_index (int w) = None")
      case True
      then show ?thesis using 1(3) stop by (auto simp: buy_pass.simps [of carter s g] Some Let_def split: if_splits)
    next
      case False
      then obtain t where t: "from_index (int w) = Some t" by auto
      then have w: "w = index t" using from_index_SomeD by fastforce
      have fair: "t \<notin> shunned" using 1(2) Some w by (auto simp: strategy_ok_def)
      obtain b h where h: "buy_weapon t g = (b, h)" by fastforce
      show ?thesis
      proof (cases b)
        case True
        let ?s = "queue_purchase w t (price_weapon w carter) s"
        have hT: "(True, h) = buy_weapon t g" using h True by simp
        have rec: "buy_pass carter ?s h = (s', g')"
          using 1(3) False t h True by (simp add: buy_pass.simps [of carter s g] Some Let_def)
        have "strategy_ok ?s" unfolding w by (rule queue_purchase_ok [OF 1(2) fair])
        from 1(1) [OF Some refl _ t hT refl this rec] False obtain ts where
          "strategy_ok s'" "buys ts h = Some g'" "set ts \<inter> shunned = {}"
          "map or_weapon (st_commando s') = map or_weapon (st_commando ?s) @ map (\<lambda>t. int (index t)) ts"
          by auto
        then show ?thesis using h True fair w
          by (intro conjI exI [of _ "t # ts"]) (simp_all add: queue_purchase_fields)
      next
        case nb: False
        then have "g' = h" "s' = s" using 1(3) False t h by (simp_all add: buy_pass.simps [of carter s g] Some Let_def)
        moreover have "h = g" using buy_weapon_fails [of t g h] h nb by simp
        ultimately show ?thesis using stop by simp
      qed
    qed
  qed
qed

lemma shop_passes_spec:
  assumes "strategy_ok s" "shop_passes n carter s g = (s', g')"
  shows "strategy_ok s' \<and> (\<exists>ts. buys ts g = Some g' \<and> set ts \<inter> shunned = {} \<and>
    map or_weapon (st_commando s') = map or_weapon (st_commando s) @ map (\<lambda>t. int (index t)) ts)"
  using assms
proof (induction n arbitrary: s g)
  case 0
  then show ?case by (auto intro: exI [of _ "[]"])
next
  case (Suc n)
  define s1 where "s1 = (if st_next_weapon s = None then pick_weapon 256 s else s)"
  have s1: "strategy_ok s1" "st_commando s1 = st_commando s"
    using pick_weapon_ok [OF Suc.prems(1)] Suc.prems(1) by (simp_all add: s1_def)
  show ?case
  proof (cases "st_next_weapon s1 = None")
    case True
    then have "s' = s1" "g' = g" using Suc.prems(2) by (simp_all add: s1_def [symmetric] Let_def)
    then show ?thesis using s1 by (auto intro: exI [of _ "[]"])
  next
    case False
    obtain s2 h where p: "buy_pass carter s1 g = (s2, h)" by fastforce
    obtain ts where ts: "strategy_ok s2" "buys ts g = Some h" "set ts \<inter> shunned = {}"
      "map or_weapon (st_commando s2) = map or_weapon (st_commando s) @ map (\<lambda>t. int (index t)) ts"
      using buy_pass_spec [OF s1(1) p] s1(2) by auto
    show ?thesis
    proof (cases "st_weapons_bought s2 = st_weapons_bought s \<or> st_combo_cost s2 = 0")
      case True
      then have "s' = s2" "g' = h" using Suc.prems(2) False p by (simp_all add: s1_def [symmetric] Let_def)
      then show ?thesis using ts by auto
    next
      case more: False
      then have "shop_passes n carter s2 h = (s', g')"
        using Suc.prems(2) False p by (simp add: s1_def [symmetric] Let_def)
      from Suc.IH [OF ts(1) this] obtain us where "strategy_ok s'" "buys us h = Some g'" "set us \<inter> shunned = {}"
        "map or_weapon (st_commando s') = map or_weapon (st_commando s2) @ map (\<lambda>t. int (index t)) us" by blast
      then show ?thesis using ts by (intro conjI exI [of _ "ts @ us"]) (auto simp: buys_append)
    qed
  qed
qed

lemma promote_spec: "strategy_ok s \<Longrightarrow> strategy_ok (promote s) \<and>
    map or_weapon (st_commando (promote s)) = map or_weapon (st_commando s)"
  by (auto simp: promote_def strategy_ok_def)

lemma go_shopping_spec:
  assumes "strategy_ok s" "go_shopping s g = (s', g')"
  shows "strategy_ok s' \<and> (\<exists>ts. buys ts g = Some g' \<and> set ts \<inter> shunned = {} \<and>
    map or_weapon (st_commando s') = map or_weapon (st_commando s) @ map (\<lambda>t. int (index t)) ts)"
proof -
  define s1 where "s1 = s\<lparr>st_bazaar_no := st_bazaar_no s + 1,
      st_can_purchase := (st_can_purchase s)[index Swap := (board_top (g_board g) \<le> BT_SWAPLINE)]\<rparr>"
  have "\<forall>t \<in> shunned. index t \<noteq> index Swap" by (simp add: shunned_def)
  then have "strategy_ok s1"
    using assms(1) unfolding strategy_ok_def s1_def by (simp add: nth_list_update)
  moreover obtain s2 h where p: "shop_passes 256 (weapon_active g Carter) s1 g = (s2, h)" by fastforce
  moreover have "s' = promote s2" "g' = h"
    using assms(2) p by (simp_all add: go_shopping_def Let_def s1_def)
  moreover have "st_commando s1 = st_commando s" by (simp add: s1_def)
  ultimately show ?thesis using shop_passes_spec [of s1] promote_spec [of s2] by force
qed

subsection \<open>What the computer launches\<close>

text \<open>A sequence of launches, each of an occupied slot that holds a weapon the computer may fire.\<close>

fun launches :: "nat list \<Rightarrow> game \<Rightarrow> game option" where
  "launches [] g = Some g"
| "launches (i # is) g =
     (case slot_token (g_arsenal g) i of
        Some t \<Rightarrow> if t \<notin> barred then launches is (Game.launch_weapon i g) else None
      | None \<Rightarrow> None)"

lemma launches_append: "launches (is @ js) g = Option.bind (launches is g) (launches js)"
  by (induction "is" arbitrary: g) (auto split: option.split)

lemma launches_reachable: "launches is g = Some g' \<Longrightarrow> reachable g \<Longrightarrow> reachable g'"
  by (induction "is" arbitrary: g) (auto intro: r_launch split: option.splits if_splits)

lemma token_int_eq: "token_int t = int (index u) \<longleftrightarrow> t = Some u"
  by (cases t) (auto simp: token_int_def)

lemma launch_slot_spec:
  assumes "tok \<notin> barred"
  shows "\<exists>is. launches is g = Some (snd (launch_slot slots (index tok) g))"
proof (induction slots)
  case (Cons i slots)
  show ?case
  proof (cases "slot_token (g_arsenal g) i = Some tok \<and> slot_quantity (g_arsenal g) i > 0")
    case True
    then have "launches [i] g = Some (snd (launch_slot (i # slots) (index tok) g))"
      using assms by (simp add: token_int_eq)
    then show ?thesis by blast
  next
    case False
    then show ?thesis using Cons.IH by (auto simp: token_int_eq)
  qed
qed (auto intro: exI [of _ "[]"])

lemma ernie_launch_spec:
  assumes "ernie_launch_weapon w s g = (s', g')"
  shows "\<exists>is. launches is g = Some g'"
proof (cases "from_index (int w)")
  case None
  then show ?thesis using assms by (auto simp: ernie_launch_weapon_def intro: exI [of _ "[]"])
next
  case (Some t)
  then have w: "w = index t" using from_index_SomeD by fastforce
  show ?thesis
  proof (cases "t \<in> barred")
    case True
    then show ?thesis using assms Some
      by (auto simp: ernie_launch_weapon_def barred_def intro: exI [of _ "[]"])
  next
    case False
    then have "g' = snd (launch_slot [0..<10] w g)"
      using assms Some by (auto simp: ernie_launch_weapon_def barred_def Let_def split_beta split: if_splits)
    then show ?thesis using launch_slot_spec [OF False] w by simp
  qed
qed

lemma ernie_launch_ok:
  assumes "strategy_ok s"
  shows "strategy_ok (fst (ernie_launch_weapon w s g))"
proof -
  have new: "\<forall>t \<in> shunned. t \<notin> {Reagan, Keating, NiceDay}" by (simp add: shunned_def)
  have idx: "\<forall>t \<in> shunned. index t \<noteq> index Reagan \<and> index t \<noteq> index Keating \<and> index t \<noteq> index NiceDay"
    by (simp add: shunned_def)
  have names: "Reagan \<notin> shunned" "Keating \<notin> shunned" "NiceDay \<notin> shunned" by (simp_all add: shunned_def)
  show ?thesis
    unfolding ernie_launch_weapon_def Let_def split_beta
    using assms idx names by (auto simp: strategy_ok_def nth_list_update simp del: index.simps split: option.splits)
qed

lemma remove_order_ok: "strategy_ok s \<Longrightarrow> strategy_ok (remove_order i s)"
  by (auto simp: strategy_ok_def remove_order_def dest: in_set_takeD in_set_dropD)

text \<open>An order that the loop acts on: an unlock whose trigger is met, or a launch that Mirror does not hold.\<close>

definition order_due :: "i64 \<Rightarrow> i64 \<Rightarrow> bool \<Rightarrow> i32 \<Rightarrow> order \<Rightarrow> bool" where
  "order_due op_lines top_row mirror bazaar_no ord \<longleftrightarrow> order_fires op_lines top_row bazaar_no ord \<and>
     (or_kind ord = CanPurchase \<or> or_kind ord = Launch \<and> \<not> mirror)"

lemma ernie_launch_fields:
  obtains new where "st_commando (fst (ernie_launch_weapon w s g)) = st_commando s @ new"
    "st_bazaar_no (fst (ernie_launch_weapon w s g)) = st_bazaar_no s"
proof -
  have "\<exists>new. st_commando (fst (ernie_launch_weapon w s g)) = st_commando s @ new"
    by (auto simp: ernie_launch_weapon_def Let_def split_beta split: option.split)
  moreover have "st_bazaar_no (fst (ernie_launch_weapon w s g)) = st_bazaar_no s"
    by (auto simp: ernie_launch_weapon_def Let_def split_beta split: option.split)
  ultimately show thesis using that by blast
qed

lemma commando_step_ok:
  assumes "strategy_ok s" "i < length (st_commando s)"
  shows "strategy_ok (s\<lparr>st_commando := (st_commando s)[i := rescheduled a b (st_commando s ! i)]\<rparr>)"
  using assms by (auto simp: strategy_ok_def dest!: set_update_subset_insert [THEN subsetD])

lemma commando_loop_over: "length (st_commando s) \<le> i \<Longrightarrow> commando_loop op top_row mirror pl i s g = (s, g)"
  by (simp add: commando_loop.simps)

lemma commando_loop_step:
  assumes "i < length (st_commando s)"
    and "ord = rescheduled op pl (st_commando s ! i)" and "s1 = s\<lparr>st_commando := (st_commando s)[i := ord]\<rparr>"
  shows "commando_loop op top_row mirror pl i s g =
    (if \<not> order_due op top_row mirror (st_bazaar_no s) ord then commando_loop op top_row mirror pl (Suc i) s1 g
     else if or_kind ord = CanPurchase then commando_loop op top_row mirror pl i
       (remove_order i (s1\<lparr>st_can_purchase := (st_can_purchase s1)[nat (or_weapon ord) := True]\<rparr>)) g
     else (case ernie_launch_weapon (nat (or_weapon ord)) (remove_order i s1) g of
         (s2, h) \<Rightarrow> commando_loop op top_row mirror
           (if pl = - 1 \<and> or_line_no ord > - 1 then or_line_no ord else pl) i s2 h))"
  unfolding commando_loop.simps [of op top_row mirror pl i s g] Let_def assms(2,3) [symmetric]
  using assms(1) by (cases "or_kind ord") (simp_all add: order_due_def assms(3))

lemma unlock_ok:
  assumes "strategy_ok s" "fair_weapon n"
  shows "strategy_ok (s\<lparr>st_can_purchase := (st_can_purchase s)[nat n := True]\<rparr>)"
proof -
  have "nat n \<noteq> index t" if "t \<in> shunned" for t using assms(2) that by (auto simp: fair_weapon_def index_inject)
  then have "\<forall>t \<in> shunned. (st_can_purchase s)[nat n := True] ! index t = st_can_purchase s ! index t" by simp
  then show ?thesis using assms(1) by (simp add: strategy_ok_def)
qed

lemma commando_loop_spec:
  assumes "commando_loop op top_row mirror pl i s g = (s', g')" "i \<le> length (st_commando s)" "strategy_ok s"
    and "\<forall>ord \<in> set (take i (st_commando s)). \<not> order_due op top_row mirror (st_bazaar_no s) ord"
  shows "strategy_ok s' \<and> (\<exists>is. launches is g = Some g' \<and> (mirror \<longrightarrow> is = [])) \<and> st_bazaar_no s' = st_bazaar_no s \<and>
    (\<forall>ord \<in> set (st_commando s'). \<not> order_due op top_row mirror (st_bazaar_no s) ord)"
  using assms
proof (induction "work_left i s" arbitrary: pl i s g rule: less_induct)
  case less
  show ?case
  proof (cases "i < length (st_commando s)")
    case False
    then show ?thesis using less.prems by (auto simp: commando_loop_over intro: exI [of _ "[]"])
  next
    case i: True
    define ord where "ord = rescheduled op pl (st_commando s ! i)"
    define s1 where "s1 = s\<lparr>st_commando := (st_commando s)[i := ord]\<rparr>"
    have len: "i < length (st_commando s1)" "st_commando s1 ! i = ord" "take i (st_commando s1) = take i (st_commando s)"
      "st_bazaar_no s1 = st_bazaar_no s" "work_left i s1 = work_left i s"
      using i by (simp_all add: s1_def work_left_update ord_def)
    have ok1: "strategy_ok s1" unfolding s1_def ord_def by (rule commando_step_ok [OF less.prems(3) i])
    have fair: "fair_weapon (or_weapon ord)" using ok1 nth_mem [OF len(1)] len(2) by (auto simp: strategy_ok_def)
    note step = commando_loop_step [OF i ord_def s1_def, of top_row mirror g]
    consider (pass) "\<not> order_due op top_row mirror (st_bazaar_no s) ord"
      | (unlock) "order_due op top_row mirror (st_bazaar_no s) ord" "or_kind ord = CanPurchase"
      | (fire) "order_due op top_row mirror (st_bazaar_no s) ord" "or_kind ord = Launch" "\<not> mirror"
      by (auto simp: order_due_def)
    then show ?thesis
    proof cases
      case pass
      have "\<forall>ord \<in> set (take (Suc i) (st_commando s1)). \<not> order_due op top_row mirror (st_bazaar_no s1) ord"
        using len pass less.prems(4) by (auto simp: take_Suc_conv_app_nth)
      moreover have "commando_loop op top_row mirror pl (Suc i) s1 g = (s', g')"
        using step pass less.prems(1) by simp
      ultimately show ?thesis
        using less.hyps [of "Suc i" s1 pl g] work_left_next [OF len(1)] len ok1 by simp
    next
      case unlock
      define s2 where "s2 = remove_order i (s1\<lparr>st_can_purchase := (st_can_purchase s1)[nat (or_weapon ord) := True]\<rparr>)"
      have s2: "strategy_ok s2" "i \<le> length (st_commando s2)" "take i (st_commando s2) = take i (st_commando s)"
        "st_bazaar_no s2 = st_bazaar_no s"
        using remove_order_ok [OF unlock_ok [OF ok1 fair], of i] len i by (simp_all add: s2_def remove_order_def)
      have "work_left i s2 = work_left i (remove_order i s1)" by (simp add: s2_def work_left_def remove_order_def)
      then have "work_left i s2 < work_left i s" using work_left_remove_less [OF len(1)] len(5) by simp
      moreover have "commando_loop op top_row mirror pl i s2 g = (s', g')"
        using step unlock less.prems(1) by (simp add: s2_def)
      ultimately show ?thesis using less.hyps [of i s2 pl g] s2 less.prems(4) by simp
    next
      case fire
      obtain s2 h where L: "ernie_launch_weapon (nat (or_weapon ord)) (remove_order i s1) g = (s2, h)" by fastforce
      obtain new where new: "st_commando s2 = st_commando (remove_order i s1) @ new"
        "st_bazaar_no s2 = st_bazaar_no (remove_order i s1)"
        using ernie_launch_fields [of "nat (or_weapon ord)" "remove_order i s1" g] L by auto
      have s2: "strategy_ok s2" "i \<le> length (st_commando s2)" "take i (st_commando s2) = take i (st_commando s)"
        "st_bazaar_no s2 = st_bazaar_no s"
        using ernie_launch_ok [OF remove_order_ok [OF ok1, of i], of "nat (or_weapon ord)" g] L new len i
        by (simp_all add: remove_order_def)
      have "work_left i s2 < work_left i s"
        using work_left_launched [OF len(1) _ L] len(2,5) fire(2) by simp
      moreover have "commando_loop op top_row mirror (if pl = - 1 \<and> or_line_no ord > - 1 then or_line_no ord else pl) i s2 h = (s', g')"
        using step fire less.prems(1) L by simp
      ultimately have rest: "strategy_ok s'" "\<exists>is. launches is h = Some g'" "st_bazaar_no s' = st_bazaar_no s"
        "\<forall>ord \<in> set (st_commando s'). \<not> order_due op top_row mirror (st_bazaar_no s) ord"
        using less.hyps [of i s2 _ h] s2 less.prems(4) by (simp, metis+)
      obtain ks js where "launches ks g = Some h" "launches js h = Some g'"
        using ernie_launch_spec [OF L] rest(2) by blast
      then have "launches (ks @ js) g = Some g'" by (simp add: launches_append)
      then show ?thesis using rest fire(3) by blast
    qed
  qed
qed

lemma activate_commando_spec:
  assumes "strategy_ok s" "activate_commando s g = (s', g')"
  shows "strategy_ok s' \<and> (\<exists>is. launches is g = Some g' \<and> (weapon_active g Mirror \<longrightarrow> is = [])) \<and>
    (\<forall>ord \<in> set (st_commando s').
      \<not> order_due (s_op_lines (g_score g)) (board_top (g_board g)) (weapon_active g Mirror) (st_bazaar_no s') ord)"
  using commando_loop_spec [OF assms(2) [unfolded activate_commando_def] _ assms(1)] by simp

text \<open>The strategies of a match: from a new one, by shopping and by acting on the orders in any game.\<close>

inductive ernie :: "strategy \<Rightarrow> bool" where
  ernie_new: "ernie (strategy_new seed)"
| ernie_shops: "ernie s \<Longrightarrow> ernie (fst (go_shopping s g))"
| ernie_acts: "ernie s \<Longrightarrow> ernie (fst (activate_commando s g))"

lemma ernie_ok: "ernie s \<Longrightarrow> strategy_ok s"
proof (induction rule: ernie.induct)
  case (ernie_shops s g)
  then show ?case using go_shopping_spec [of s g] by (metis prod.collapse)
next
  case (ernie_acts s g)
  then show ?case using activate_commando_spec [of s g] by (metis prod.collapse)
qed (rule strategy_new_ok)

text \<open>
  C39. What the computer buys. In every match, whatever the game, shopping comes down to a list of
  purchases that all succeed: it pays for each at the bazaar's price, never goes below zero, buys only
  while the bazaar is open, never buys a spy or Meadow, and queues exactly one order for each weapon
  bought, in the order bought.
\<close>

theorem ernie_shopping:
  assumes "ernie s"
  shows "case go_shopping s g of (s', g') \<Rightarrow> \<exists>ts. buys ts g = Some g' \<and>
      s_funds (g_score g') + sum_list (map (\<lambda>t. bazaar_price t g) ts) = s_funds (g_score g) \<and>
      (ts \<noteq> [] \<longrightarrow> 0 \<le> s_funds (g_score g') \<and> g_in_bazaar g) \<and>
      set ts \<inter> {Ace, Condor, Ames, Meadow} = {} \<and>
      map or_weapon (st_commando s') = map or_weapon (st_commando s) @ map (\<lambda>t. int (index t)) ts"
  using go_shopping_spec [OF ernie_ok [OF assms], of g] buys_funds
  by (cases "go_shopping s g") (auto simp: shunned_def)

theorem ernie_shopping_witness:
  "case go_shopping (strategy_new 3) shop_game of (s', g') \<Rightarrow> \<exists>ts. buys ts shop_game = Some g' \<and>
      s_funds (g_score g') + sum_list (map (\<lambda>t. bazaar_price t shop_game) ts) = s_funds (g_score shop_game) \<and>
      (ts \<noteq> [] \<longrightarrow> 0 \<le> s_funds (g_score g') \<and> g_in_bazaar shop_game) \<and>
      set ts \<inter> {Ace, Condor, Ames, Meadow} = {} \<and>
      map or_weapon (st_commando s') = map or_weapon (st_commando (strategy_new 3)) @ map (\<lambda>t. int (index t)) ts"
  by (rule ernie_shopping [OF ernie_new])

text \<open>
  What the computer launches. Acting on the orders always ends, and comes down to a list of
  launches of occupied slots, none of them Hatter, FlipOut or Speedy, and none at all while Mirror is
  on. When it is done no order is left whose trigger is met, except combos still waiting and launches
  that Mirror holds back.
\<close>

theorem ernie_launching:
  assumes "ernie s"
  shows "case activate_commando s g of (s', g') \<Rightarrow> (\<exists>is. launches is g = Some g' \<and> (weapon_active g Mirror \<longrightarrow> is = [])) \<and>
      (\<forall>ord \<in> set (st_commando s').
        order_fires (s_op_lines (g_score g)) (board_top (g_board g)) (st_bazaar_no s') ord \<longrightarrow>
          or_kind ord = Combo \<or> or_kind ord = Launch \<and> weapon_active g Mirror)"
  using activate_commando_spec [OF ernie_ok [OF assms], of g]
  by (cases "activate_commando s g") (auto simp: order_due_def, (metis order_kind.exhaust)+)

theorem ernie_launching_witness:
  "case activate_commando (strategy_new 3) shop_game of (s', g') \<Rightarrow>
      (\<exists>is. launches is shop_game = Some g' \<and> (weapon_active shop_game Mirror \<longrightarrow> is = [])) \<and>
      (\<forall>ord \<in> set (st_commando s').
        order_fires (s_op_lines (g_score shop_game)) (board_top (g_board shop_game)) (st_bazaar_no s') ord \<longrightarrow>
          or_kind ord = Combo \<or> or_kind ord = Launch \<and> weapon_active shop_game Mirror)"
  by (rule ernie_launching [OF ernie_new])

end
