(* ===== verification/Computer.thy ===== *)
theory Computer
  imports Placement Commando
begin

section \<open>The computer player\<close>

text \<open>
  The driver in \<open>bt-ai/src/lib.rs\<close>: one turn fires the orders that are due, searches a placement and
  steers the piece to it with the player's own inputs.
\<close>

record computer =
  co_strategy :: strategy

definition computer_new :: "u64 \<Rightarrow> computer" where
  "computer_new seed = \<lparr>co_strategy = strategy_new seed\<rparr>"

definition computer_shop :: "computer \<Rightarrow> game \<Rightarrow> computer \<times> game" where
  "computer_shop c g = (let (s, g) = go_shopping (co_strategy c) g in (c\<lparr>co_strategy := s\<rparr>, g))"

text \<open>The capped steering loops; False means that the piece is gone and the turn returns early.\<close>

fun rotate_to :: "nat \<Rightarrow> i32 \<Rightarrow> game \<Rightarrow> bool \<times> game" where
  "rotate_to 0 orientation g = (True, g)"
| "rotate_to (Suc n) orientation g =
     (case g_current g of
        None \<Rightarrow> (False, g)
      | Some p \<Rightarrow> if p_orientation p = orientation then (True, g) else rotate_to n orientation (game_rotate g))"

fun slide_to :: "nat \<Rightarrow> i32 \<Rightarrow> game \<Rightarrow> bool \<times> game" where
  "slide_to 0 x g = (True, g)"
| "slide_to (Suc n) x g =
     (case g_current g of
        None \<Rightarrow> (False, g)
      | Some p \<Rightarrow>
          (if p_x p = x then (True, g)
           else slide_to n x (if p_x p < x then move_right g else move_left g)))"

definition steer :: "piece \<Rightarrow> placement \<Rightarrow> game \<Rightarrow> game" where
  "steer piece pl g =
     (let (here, g) = rotate_to (nat (max (p_orientations piece) 1)) (pl_orientation pl) g in
      if \<not> here then g
      else let (here, g) = slide_to (nat (b_width (g_board g) * 2)) (pl_x pl) g in
        if \<not> here then g else ai_begin_drop g)"

definition take_turn :: "computer \<Rightarrow> game \<Rightarrow> (computer \<times> game) option" where
  "take_turn c g =
     (if g_phase g = Over then Some (c, g)
      else let (s, g) = activate_commando (co_strategy c) g; c = c\<lparr>co_strategy := s\<rparr> in
        case g_current g of
          None \<Rightarrow> Some (c, g)
        | Some piece \<Rightarrow> do {
            pl \<leftarrow> best_placement_tuned (g_board g) piece (for_active_weapons g);
            Some (c, steer piece pl g)
          })"

subsection \<open>A turn\<close>

lemma rotate_to_reachable: "reachable g \<Longrightarrow> reachable (snd (rotate_to n ori g))"
  by (induction n arbitrary: g) (auto intro: r_rotate split: option.split)

lemma slide_to_reachable: "reachable g \<Longrightarrow> reachable (snd (slide_to n x g))"
  by (induction n arbitrary: g) (auto intro: r_left r_right split: option.split)

lemma steer_reachable:
  assumes "reachable g" shows "reachable (steer piece pl g)"
  using rotate_to_reachable [OF assms] slide_to_reachable r_ai_drop
  by (simp add: steer_def Let_def split_beta)

lemma search_returns:
  assumes "reachable g" "g_current g = Some p"
  shows "\<exists>pl. best_placement_tuned (g_board g) p (for_active_weapons h) = Some pl"
proof -
  have ok: "game_ok g" by (rule reachable_ok [OF assms(1)])
  then have std: "std_board (g_board g)" by (simp add: game_ok_def setup_ok_def core_ok_def)
  have cyc: "in_cycle p" using ok assms(2) by (simp add: game_ok_def piece_ok_def)
  show ?thesis
    unfolding best_placement_tuned_def for_each_landing_eq [OF std cyc] by simp
qed

lemma take_turn_returns:
  assumes "reachable g" "ernie (co_strategy c)"
  shows "returns (\<lambda>(c', g'). reachable g' \<and> ernie (co_strategy c')) (take_turn c g)"
proof (cases "g_phase g = Over")
  case True
  then show ?thesis using assms by (simp add: take_turn_def)
next
  case False
  obtain s h where act: "activate_commando (co_strategy c) g = (s, h)" by fastforce
  have s: "ernie s" using ernie_acts [OF assms(2), of g] act by simp
  have h: "reachable h"
    using activate_commando_spec [OF ernie_ok [OF assms(2)] act] launches_reachable assms(1) by blast
  show ?thesis
  proof (cases "g_current h")
    case None
    then show ?thesis using False s h by (simp add: take_turn_def act)
  next
    case (Some p)
    obtain pl where pl: "best_placement_tuned (g_board h) p (for_active_weapons h) = Some pl"
      using search_returns [OF h Some] by blast
    show ?thesis using False s steer_reachable [OF h] by (simp add: take_turn_def act Some pl)
  qed
qed

lemma computer_shop_ok:
  assumes "reachable g" "ernie (co_strategy c)"
  shows "reachable (snd (computer_shop c g)) \<and> ernie (co_strategy (fst (computer_shop c g)))"
proof -
  obtain s h where shop: "go_shopping (co_strategy c) g = (s, h)" by fastforce
  have "ernie s" using ernie_shops [OF assms(2), of g] shop by simp
  moreover obtain ts where "buys ts g = Some h"
    using go_shopping_spec [OF ernie_ok [OF assms(2)] shop] by blast
  ultimately show ?thesis using buys_funds [of ts g h] assms(1) by (simp add: computer_shop_def shop)
qed

end
