(* ===== verification/VsComputer.thy ===== *)
theory VsComputer
  imports Computer Playback
begin

section \<open>The match against the computer\<close>

text \<open>
  \<open>bt-ai/src/vs.rs\<close>: the human's game and the computer's, the relay between them, the bazaar barrier and
  the throttle of the computer's moves. \<open>duel\<close> are the matches that a host can reach. The theory proves
  that every tick returns and what it decides, and that the match fills the place of the engine that a
  recording against the computer is played with, so that such a recording replays exactly.
\<close>

definition AI_LEVELS :: "i32 list" where
  "AI_LEVELS = [4000, 3000, 2000, 1500, 1250, 1000, 750, 550, 400, 350, 300, 225, 100, 10, 0]"

datatype vs_side = VS_Player | VS_Ai

record vs_computer =
  vc_player :: game
  vc_ai :: game
  vc_computer :: computer
  vc_place_period :: i32
  vc_place_accum :: i32
  vc_ai_committed :: bool
  vc_result :: i32
  vc_events :: "game_event list"

definition vc_new :: "u64 \<Rightarrow> nat \<Rightarrow> vs_computer option" where
  "vc_new seed level =
     (let idx = min level (length AI_LEVELS - 1) in
      do {
        p \<leftarrow> game_new seed;
        a \<leftarrow> game_new (seed XOR 0x9E3779B97F4A7C15);
        Some \<lparr>vc_player = p, vc_ai = a, vc_computer = computer_new seed, vc_place_period = AI_LEVELS ! idx,
              vc_place_accum = 0, vc_ai_committed = False, vc_result = 0, vc_events = []\<rparr>
      })"

definition vc_deliver :: "weapon_token \<Rightarrow> vs_side \<Rightarrow> vs_computer \<Rightarrow> vs_computer" where
  "vc_deliver token attacker v =
     (case attacker of
        VS_Player \<Rightarrow> (let (_, p, a) = deliver_weapon (vc_player v) (vc_ai v) token in v\<lparr>vc_player := p, vc_ai := a\<rparr>)
      | VS_Ai \<Rightarrow> (let (_, a, p) = deliver_weapon (vc_ai v) (vc_player v) token in v\<lparr>vc_player := p, vc_ai := a\<rparr>))"

text \<open>The two loops of the relay, one event each.\<close>

definition vc_player_event :: "game_event \<Rightarrow> vs_computer \<Rightarrow> vs_computer" where
  "vc_player_event e v =
     (let v = (case e of
           WeaponLaunched t \<Rightarrow> vc_deliver t VS_Player v
         | Scored score lines funds \<Rightarrow> v\<lparr>vc_ai := receive_op_score score lines funds (vc_ai v)\<rparr>
         | FundsStolen amount \<Rightarrow> v\<lparr>vc_ai := add_funds amount (vc_ai v)\<rparr>
         | GameOver \<Rightarrow> v\<lparr>vc_result := 2\<rparr>
         | _ \<Rightarrow> v)
      in v\<lparr>vc_events := vc_events v @ [e]\<rparr>)"

definition vc_ai_event :: "game_event \<Rightarrow> vs_computer \<Rightarrow> vs_computer" where
  "vc_ai_event e v =
     (case e of
        WeaponLaunched t \<Rightarrow> vc_deliver t VS_Ai v
      | Scored score lines funds \<Rightarrow> v\<lparr>vc_player := receive_op_score score lines funds (vc_player v)\<rparr>
      | FundsStolen amount \<Rightarrow> v\<lparr>vc_player := add_funds amount (vc_player v)\<rparr>
      | Locked _ _ _ \<Rightarrow> v\<lparr>vc_ai_committed := False, vc_place_accum := 0\<rparr>
      | GameOver \<Rightarrow> v\<lparr>vc_result := 1\<rparr>
      | _ \<Rightarrow> v)"

definition vc_relay :: "vs_computer \<Rightarrow> vs_computer" where
  "vc_relay v =
     (let (es, p) = take_events (vc_player v);
          v = fold vc_player_event es (v\<lparr>vc_player := p\<rparr>);
          (es, a) = take_events (vc_ai v)
      in fold vc_ai_event es (v\<lparr>vc_ai := a\<rparr>))"

definition vc_ai_logic :: "i32 \<Rightarrow> vs_computer \<Rightarrow> vs_computer option" where
  "vc_ai_logic dt v =
     do {
       a \<leftarrow> tick dt (vc_ai v);
       let v = v\<lparr>vc_ai := a, vc_place_accum := vc_place_accum v + dt\<rparr>;
       if \<not> vc_ai_committed v \<and> vc_place_accum v \<ge> vc_place_period v then
         (let v = v\<lparr>vc_place_accum := 0\<rparr> in
          if g_phase (vc_ai v) \<noteq> Over \<and> g_current (vc_ai v) \<noteq> None then
            map_option (\<lambda>(c, a). v\<lparr>vc_computer := c, vc_ai := a, vc_ai_committed := True\<rparr>)
              (take_turn (vc_computer v) (vc_ai v))
          else Some v)
       else Some v
     }"

definition vc_tick :: "i32 \<Rightarrow> vs_computer \<Rightarrow> vs_computer option" where
  "vc_tick dt v =
     (if vc_result v \<noteq> 0 then Some v
      else if g_in_bazaar (vc_player v) \<or> g_in_bazaar (vc_ai v) then
        (let v = (if g_in_bazaar (vc_ai v) then
               (let (c, a) = computer_shop (vc_computer v) (vc_ai v)
                in v\<lparr>vc_computer := c, vc_ai := leave_bazaar a\<rparr>)
             else v)
         in Some (vc_relay v))
      else do {
        p \<leftarrow> tick dt (vc_player v);
        v \<leftarrow> vc_ai_logic dt (v\<lparr>vc_player := p\<rparr>);
        Some (vc_relay v)
      })"

definition vc_drain :: "vs_computer \<Rightarrow> game_event list \<times> vs_computer" where
  "vc_drain v = (vc_events v, v\<lparr>vc_events := []\<rparr>)"

text \<open>An input of the human, through \<open>player_mut\<close>.\<close>

definition vc_input :: "input \<Rightarrow> vs_computer \<Rightarrow> vs_computer" where
  "vc_input i v = v\<lparr>vc_player := apply_to_game i (vc_player v)\<rparr>"

subsection \<open>One event between two games\<close>

text \<open>The effect of an event of the first game on the pair of them, the same for either side.\<close>

definition cross :: "game_event \<Rightarrow> game \<times> game \<Rightarrow> game \<times> game" where
  "cross e s =
     (case e of
        WeaponLaunched t \<Rightarrow> snd (deliver_weapon (fst s) (snd s) t)
      | Scored score lines funds \<Rightarrow> (fst s, receive_op_score score lines funds (snd s))
      | FundsStolen amount \<Rightarrow> (fst s, add_funds amount (snd s))
      | _ \<Rightarrow> s)"

lemma player_event_games: "(vc_player (vc_player_event e v), vc_ai (vc_player_event e v)) = cross e (vc_player v, vc_ai v)"
  by (cases e) (simp_all add: vc_player_event_def cross_def vc_deliver_def Let_def split_beta)

lemma ai_event_games: "(vc_ai (vc_ai_event e v), vc_player (vc_ai_event e v)) = cross e (vc_ai v, vc_player v)"
  by (cases e) (simp_all add: vc_ai_event_def cross_def vc_deliver_def Let_def split_beta)

lemma player_fold_games:
  "(vc_player (fold vc_player_event es v), vc_ai (fold vc_player_event es v)) = fold cross es (vc_player v, vc_ai v)"
  by (induction es arbitrary: v) (simp_all flip: player_event_games)

lemma ai_fold_games:
  "(vc_ai (fold vc_ai_event es v), vc_player (fold vc_ai_event es v)) = fold cross es (vc_ai v, vc_player v)"
  by (induction es arbitrary: v) (simp_all flip: ai_event_games)

lemma player_event_rest:
  "vc_computer (vc_player_event e v) = vc_computer v"
  "vc_result (vc_player_event e v) = (if e = GameOver then 2 else vc_result v)"
  by (cases e; simp add: vc_player_event_def vc_deliver_def Let_def split_beta)+

lemma ai_event_rest:
  "vc_computer (vc_ai_event e v) = vc_computer v"
  "vc_result (vc_ai_event e v) = (if e = GameOver then 1 else vc_result v)"
  by (cases e; simp add: vc_ai_event_def vc_deliver_def Let_def split_beta)+

lemma player_fold_rest:
  "vc_computer (fold vc_player_event es v) = vc_computer v"
  "vc_result (fold vc_player_event es v) = (if GameOver \<in> set es then 2 else vc_result v)"
  by (induction es arbitrary: v) (simp_all add: player_event_rest)

lemma ai_fold_rest:
  "vc_computer (fold vc_ai_event es v) = vc_computer v"
  "vc_result (fold vc_ai_event es v) = (if GameOver \<in> set es then 1 else vc_result v)"
  by (induction es arbitrary: v) (simp_all add: ai_event_rest)

lemma cross_keeps:
  assumes "reachable a" "reachable v" "cross e (a, v) = (a', v')"
  shows "keeps_news a a' \<and> keeps_news v v' \<and> op_lines a' = op_lines a \<and> op_lines v' = fst (hear e (op_lines v, b))"
proof (cases e)
  case (WeaponLaunched t)
  obtain d where "deliver_weapon a v t = (d, a', v')"
    using assms(3) WeaponLaunched by (cases "deliver_weapon a v t") (simp add: cross_def)
  from deliver_keeps [OF this assms(1,2)] show ?thesis using WeaponLaunched by simp
qed (use assms(3) in \<open>auto simp: cross_def\<close>)

lemma cross_fold:
  assumes "reachable a" "reachable v" "fold cross es (a, v) = (a', v')"
  shows "keeps_news a a' \<and> keeps_news v v' \<and> op_lines a' = op_lines a \<and> op_lines v' = fst (fold hear es (op_lines v, b))"
  using assms
proof (induction es arbitrary: a v b)
  case (Cons e es)
  obtain c w where s: "cross e (a, v) = (c, w)" by fastforce
  note K = cross_keeps [OF Cons.prems(1,2) s, of b]
  have "reachable c" "reachable w" using K Cons.prems(1,2) by (auto simp: keeps_news_def)
  moreover have "fold cross es (c, w) = (a', v')" using Cons.prems(3) s by simp
  moreover have "hear e (op_lines v, b) = (op_lines w, snd (hear e (op_lines v, b)))" using K by (simp add: prod_eq_iff)
  ultimately show ?case
    using Cons.IH [of c w "snd (hear e (op_lines v, b))"] K keeps_news_trans by auto
qed simp

subsection \<open>The computer's turn tells the other side\<close>

text \<open>What a turn keeps: the knowledge in the queue, the mirror of the other's lines, and that the game goes on.\<close>

definition same_news :: "game \<Rightarrow> game \<Rightarrow> bool" where
  "same_news g g' \<longleftrightarrow> (\<forall>k. informs k g \<longrightarrow> informs k g') \<and> op_lines g' = op_lines g \<and> (reachable g \<longrightarrow> reachable g')"

lemma same_news_refl [simp]: "same_news g g"
  and same_news_trans [trans]: "same_news g h \<Longrightarrow> same_news h k \<Longrightarrow> same_news g k"
  by (simp_all add: same_news_def)

lemma same_news_input: "\<forall>a b c. i \<noteq> ReceiveOpScore a b c \<Longrightarrow> same_news g (apply_to_game i g)"
  by (simp add: same_news_def apply_informs apply_op_lines apply_reachable)

lemma same_news_inputs:
  "same_news g (move_left g)" "same_news g (move_right g)" "same_news g (game_rotate g)" "same_news g (ai_begin_drop g)"
  "same_news g (leave_bazaar g)" "same_news g (snd (buy_weapon t g))"
  using same_news_input [of MoveLeft g] same_news_input [of MoveRight g] same_news_input [of Rotate g]
    same_news_input [of AiDrop g] same_news_input [of LeaveBazaar g] same_news_input [of "BuyWeapon (int (index t))" g]
  by (simp_all add: apply_to_game_def with_token_def)

lemma same_news_launch: "same_news g (Game.launch_weapon i g)"
  by (simp add: same_news_def inputs_inform op_lines_inputs r_launch)

lemma same_news_launches: "launches is g = Some g' \<Longrightarrow> same_news g g'"
proof (induction "is" arbitrary: g)
  case (Cons i "is")
  then show ?case using same_news_trans [OF same_news_launch [of g i]] by (auto split: option.splits if_splits)
qed simp

lemma same_news_buys: "buys ts g = Some g' \<Longrightarrow> same_news g g'"
proof (induction ts arbitrary: g)
  case (Cons t ts)
  then show ?case using same_news_trans [OF same_news_inputs(6) [of g t]] by (auto split: prod.splits bool.splits)
qed simp

lemma same_news_rotate_to: "same_news g (snd (rotate_to n ori g))"
  by (induction n arbitrary: g) (auto intro: same_news_trans [OF same_news_inputs(3)] split: option.split)

lemma same_news_slide_to: "same_news g (snd (slide_to n x g))"
proof (induction n arbitrary: g)
  case (Suc n)
  show ?case
    using same_news_trans [OF same_news_inputs(1) Suc.IH] same_news_trans [OF same_news_inputs(2) Suc.IH]
    by (simp split: option.split)
qed simp

lemma same_news_steer: "same_news g (steer piece pl g)"
proof -
  define h where "h = snd (rotate_to (nat (max (p_orientations piece) 1)) (pl_orientation pl) g)"
  define k where "k = snd (slide_to (nat (b_width (g_board h) * 2)) (pl_x pl) h)"
  have h: "same_news g h" unfolding h_def by (rule same_news_rotate_to)
  then have k: "same_news g k" unfolding k_def using same_news_trans same_news_slide_to by blast
  then have "same_news g (ai_begin_drop k)" using same_news_trans same_news_inputs(4) by blast
  then show ?thesis using h k by (auto simp: steer_def Let_def split_beta h_def k_def)
qed

lemma same_news_turn:
  assumes "take_turn c g = Some (c', g')" "ernie (co_strategy c)"
  shows "same_news g g'"
proof (cases "g_phase g = Over")
  case True
  then show ?thesis using assms(1) by (simp add: take_turn_def)
next
  case False
  obtain s h where act: "activate_commando (co_strategy c) g = (s, h)" by fastforce
  have h: "same_news g h"
    using activate_commando_spec [OF ernie_ok [OF assms(2)] act] same_news_launches by blast
  then show ?thesis
    using assms(1) False same_news_trans [OF h same_news_steer]
    by (auto simp: take_turn_def act Let_def split: option.splits elim!: bind_eq_SomeE)
qed

lemma same_news_shop:
  assumes "computer_shop c g = (c', g')" "ernie (co_strategy c)"
  shows "same_news g (leave_bazaar g')"
proof -
  obtain s h where shop: "go_shopping (co_strategy c) g = (s, h)" by fastforce
  then obtain ts where "buys ts g = Some h" using go_shopping_spec [OF ernie_ok [OF assms(2)] shop] by blast
  then have "same_news g h" by (rule same_news_buys)
  moreover have "h = g'" using assms(1) shop by (simp add: computer_shop_def)
  ultimately show ?thesis using same_news_trans same_news_inputs(5) by blast
qed

subsection \<open>The invariant of a match\<close>

definition vc_safe :: "vs_computer \<Rightarrow> bool" where
  "vc_safe v \<longleftrightarrow> reachable (vc_player v) \<and> reachable (vc_ai v) \<and> ernie (co_strategy (vc_computer v))"

definition vc_knows :: "vs_computer \<Rightarrow> bool" where
  "vc_knows v \<longleftrightarrow> informs (op_lines (vc_ai v), False) (vc_player v) \<and> informs (op_lines (vc_player v), False) (vc_ai v)"

definition vc_decided :: "vs_computer \<Rightarrow> i32" where
  "vc_decided v = (if g_phase (vc_ai v) = Over then 1 else if g_phase (vc_player v) = Over then 2 else 0)"

definition vc_inv :: "vs_computer \<Rightarrow> bool" where
  "vc_inv v \<longleftrightarrow> vc_safe v \<and> (vc_result v = 0 \<longrightarrow> vc_knows v)"

lemma informs_over_event:
  assumes "informs (l, False) g" shows "GameOver \<in> set (g_events g) \<longleftrightarrow> g_phase g = Over"
  using assms snd_fold_hear [of "g_events g" "(l, False)"] unfolding informs_def told_def truth_def
  by (metis snd_conv)

lemma vc_relay_law:
  assumes v: "vc_safe v" and k: "vc_knows v" and r: "vc_result v = 0"
  shows "vc_inv (vc_relay v) \<and> vc_result (vc_relay v) = vc_decided (vc_relay v) \<and>
    motion (vc_player (vc_relay v)) = motion (vc_player v) \<and> motion (vc_ai (vc_relay v)) = motion (vc_ai v)"
proof -
  obtain p a where pa: "p = vc_player v" "a = vc_ai v" by blast
  define p0 where "p0 = snd (take_events p)"
  obtain p1 a1 where one: "fold cross (g_events p) (p0, a) = (p1, a1)" by fastforce
  define a2 where "a2 = snd (take_events a1)"
  obtain a3 p3 where two: "fold cross (g_events a1) (a2, p1) = (a3, p3)" by fastforce
  define v1 where "v1 = fold vc_player_event (g_events p) (v\<lparr>vc_player := p0\<rparr>)"
  have v1: "vc_player v1 = p1" "vc_ai v1 = a1" "vc_computer v1 = vc_computer v"
    "vc_result v1 = (if GameOver \<in> set (g_events p) then 2 else 0)"
    using player_fold_games [of "g_events p" "v\<lparr>vc_player := p0\<rparr>"] one r
    by (simp_all add: v1_def pa player_fold_rest)
  have rel: "vc_relay v = fold vc_ai_event (g_events a1) (v1\<lparr>vc_ai := a2\<rparr>)"
    unfolding vc_relay_def Let_def split_beta
    by (simp add: take_events_def pa [symmetric] p0_def [unfolded take_events_def, simplified, symmetric]
        v1_def [symmetric] v1(2) a2_def)
  have v3: "vc_player (vc_relay v) = p3" "vc_ai (vc_relay v) = a3" "vc_computer (vc_relay v) = vc_computer v"
    "vc_result (vc_relay v) = (if GameOver \<in> set (g_events a1) then 1 else vc_result v1)"
    using ai_fold_games [of "g_events a1" "v1\<lparr>vc_ai := a2\<rparr>"] two v1
    by (simp_all add: rel ai_fold_rest)
  have R: "reachable p" "reachable p0" "reachable a" "ernie (co_strategy (vc_computer v))"
    using v r_events by (auto simp: vc_safe_def pa p0_def)
  have ik: "informs (op_lines a, False) p" "informs (op_lines p, False) a" using k by (simp_all add: vc_knows_def pa)
  have emptied: "truth (snd (take_events g)) = truth g" "motion (snd (take_events g)) = motion g"
    "op_lines (snd (take_events g)) = op_lines g" "informs (truth g) (snd (take_events g))" for g
    by (simp_all add: take_events_def truth_def motion_def op_lines_def informs_def told_def)
  note A = cross_fold [OF R(2,3) one, of False]
  have heard: "fold hear (g_events p) (op_lines a, False) = truth p" using ik(1) by (simp add: informs_def told_def)
  note KA = keeps_newsD [of p0 p1] keeps_newsD [of a a1]
  have R1: "reachable p1" "reachable a1" using A KA(3,9) R by auto
  have R2: "reachable a2" using r_events [OF R1(2)] by (simp add: a2_def)
  note B = cross_fold [OF R2 R1(1) two, of False]
  note KB = keeps_newsD [of a2 a3] keeps_newsD [of p1 p3]
  have opp: "op_lines p1 = op_lines p" using A emptied(3) by (simp add: p0_def)
  have i1: "informs (op_lines p, False) a1" using A KA(8) ik(2) by blast
  then have heard2: "fold hear (g_events a1) (op_lines p1, False) = truth a1" by (simp add: informs_def told_def opp)
  have tr: "truth p3 = truth p" "truth a3 = truth a" "truth a1 = truth a"
    using A B KA(1,7) KB(1,7) emptied(1) by (simp_all add: p0_def a2_def)
  have ph: "(g_phase p3 = Over) = (g_phase p = Over)" "(g_phase a3 = Over) = (g_phase a = Over)"
    "(g_phase a1 = Over) = (g_phase a = Over)"
    using arg_cong [OF tr(1), of snd] arg_cong [OF tr(2), of snd] arg_cong [OF tr(3), of snd] by (simp_all add: truth_over)
  have res: "vc_result (vc_relay v) = vc_decided (vc_relay v)"
    using v3 v1(4) informs_over_event [OF ik(1)] informs_over_event [OF i1] ph by (simp add: vc_decided_def)
  have mo: "motion p3 = motion p" "motion a3 = motion a"
    using A B KA(4,10) KB(4,10) emptied(2) by (simp_all add: p0_def a2_def)
  have "vc_safe (vc_relay v)" using B KB(3,9) R1 R2 R(4) by (simp add: vc_safe_def v3)
  moreover have "vc_knows (vc_relay v)" if "vc_result (vc_relay v) = 0"
  proof -
    have go: "g_phase p \<noteq> Over" "g_phase a \<noteq> Over" using that res ph v3 by (auto simp: vc_decided_def split: if_splits)
    have "informs (truth p) p3"
      using A B KA(2) KB(8) emptied(4) [of p] by (simp add: p0_def)
    moreover have "op_lines a3 = fst (truth p)" "op_lines p3 = fst (truth a)"
      using A B heard heard2 emptied(3) tr(3) by (simp_all add: a2_def)
    moreover have "informs (truth a) a3"
      using B KB(2) emptied(4) [of a1] tr(3) by (simp add: a2_def)
    ultimately show ?thesis using go by (simp add: vc_knows_def v3 truth_def)
  qed
  ultimately show ?thesis using res mo by (simp add: vc_inv_def v3 pa)
qed

lemma vc_new_inv:
  assumes "vc_new seed level = Some v" shows "vc_inv v \<and> vc_result v = 0"
proof -
  obtain p a where pa: "game_new seed = Some p" "game_new (seed XOR 0x9E3779B97F4A7C15) = Some a"
    "vc_player v = p" "vc_ai v = a" "vc_result v = 0" "co_strategy (vc_computer v) = strategy_new seed"
    using assms by (auto simp: vc_new_def Let_def computer_new_def elim!: bind_eq_SomeE)
  then show ?thesis
    by (simp add: vc_inv_def vc_safe_def vc_knows_def r_new ernie_new game_new_informs game_new_op_lines)
qed

lemma vc_ai_logic_returns:
  assumes "vc_safe v" "vc_knows v" "vc_result v = 0"
  shows "returns (\<lambda>v'. vc_safe v' \<and> vc_knows v' \<and> vc_result v' = 0) (vc_ai_logic dt v)"
proof -
  have v: "reachable (vc_ai v)" "informs (op_lines (vc_player v), False) (vc_ai v)" using assms by (simp_all add: vc_safe_def vc_knows_def)
  obtain a where a: "tick dt (vc_ai v) = Some a" "reachable a" "informs (op_lines (vc_player v), False) a" "op_lines a = op_lines (vc_ai v)"
    using tick_reached [OF v] by metis
  let ?v = "v\<lparr>vc_ai := a, vc_place_accum := vc_place_accum v + dt\<rparr>"
  have ok: "vc_safe (w\<lparr>vc_place_accum := n\<rparr>) = vc_safe w" "vc_knows (w\<lparr>vc_place_accum := n\<rparr>) = vc_knows w" for w n
    by (simp_all add: vc_safe_def vc_knows_def)
  have sv: "vc_safe ?v" "vc_knows ?v" using assms(1,2) a by (simp_all add: vc_safe_def vc_knows_def)
  have co: "ernie (co_strategy (vc_computer v))" using assms(1) by (simp add: vc_safe_def)
  obtain c b where turn: "take_turn (vc_computer v) a = Some (c, b)" "reachable b" "ernie (co_strategy c)"
    using take_turn_returns [OF a(2) co] by (auto simp: returns_def)
  have news: "same_news a b" by (rule same_news_turn [OF turn(1) co])
  have "vc_safe (v\<lparr>vc_computer := c, vc_ai := b, vc_ai_committed := True, vc_place_accum := 0\<rparr>)"
    "vc_knows (v\<lparr>vc_computer := c, vc_ai := b, vc_ai_committed := True, vc_place_accum := 0\<rparr>)"
    using assms(1,2) turn(2,3) news a by (simp_all add: vc_safe_def vc_knows_def same_news_def)
  then show ?thesis
    using sv assms turn(1) by (auto simp: vc_ai_logic_def a(1) Let_def ok vc_safe_def vc_knows_def)
qed

lemma vc_tick_returns:
  assumes "vc_inv v" "vc_result v = 0"
  shows "returns (\<lambda>v'. vc_inv v' \<and> vc_result v' = vc_decided v' \<and>
    (g_in_bazaar (vc_player v) \<or> g_in_bazaar (vc_ai v) \<longrightarrow> motion (vc_player v') = motion (vc_player v))) (vc_tick dt v)"
proof -
  have v: "vc_safe v" "vc_knows v" using assms by (simp_all add: vc_inv_def)
  show ?thesis
  proof (cases "g_in_bazaar (vc_player v) \<or> g_in_bazaar (vc_ai v)")
    case True
    obtain c a where shop: "computer_shop (vc_computer v) (vc_ai v) = (c, a)" by fastforce
    have co: "ernie (co_strategy (vc_computer v))" "reachable (vc_ai v)" using v by (simp_all add: vc_safe_def)
    have news: "same_news (vc_ai v) (leave_bazaar a)" by (rule same_news_shop [OF shop co(1)])
    have "ernie (co_strategy c)" using computer_shop_ok [OF co(2,1)] shop by simp
    then have w: "vc_safe (v\<lparr>vc_computer := c, vc_ai := leave_bazaar a\<rparr>)" "vc_knows (v\<lparr>vc_computer := c, vc_ai := leave_bazaar a\<rparr>)"
      using v news by (simp_all add: vc_safe_def vc_knows_def same_news_def)
    show ?thesis
      using vc_relay_law [OF v assms(2)] vc_relay_law [OF w] assms(2) True
      by (auto simp: vc_tick_def Let_def shop)
  next
    case False
    have p: "reachable (vc_player v)" "informs (op_lines (vc_ai v), False) (vc_player v)"
      using v by (simp_all add: vc_safe_def vc_knows_def)
    obtain q where q: "tick dt (vc_player v) = Some q" "reachable q" "informs (op_lines (vc_ai v), False) q"
      "op_lines q = op_lines (vc_player v)" using tick_reached [OF p] by metis
    have "vc_safe (v\<lparr>vc_player := q\<rparr>)" "vc_knows (v\<lparr>vc_player := q\<rparr>)" "vc_result (v\<lparr>vc_player := q\<rparr>) = 0"
      using v q assms(2) by (simp_all add: vc_safe_def vc_knows_def)
    from vc_ai_logic_returns [OF this, of dt] obtain w where
      "vc_ai_logic dt (v\<lparr>vc_player := q\<rparr>) = Some w" "vc_safe w" "vc_knows w" "vc_result w = 0"
      by (auto simp: returns_def)
    then show ?thesis using vc_relay_law [of w] assms(2) False q(1) by (simp add: vc_tick_def)
  qed
qed

text \<open>The matches that a host can reach: inputs of the human, ticks, and draining the events.\<close>

inductive duel :: "vs_computer \<Rightarrow> bool" where
  d_new: "vc_new seed level = Some v \<Longrightarrow> duel v"
| d_tick: "duel v \<Longrightarrow> vc_tick dt v = Some v' \<Longrightarrow> duel v'"
| d_input: "duel v \<Longrightarrow> (\<forall>a b c. i \<noteq> ReceiveOpScore a b c) \<Longrightarrow> duel (vc_input i v)"
| d_drain: "duel v \<Longrightarrow> duel (snd (vc_drain v))"

lemma vc_input_inv:
  assumes "vc_inv v" "\<forall>a b c. i \<noteq> ReceiveOpScore a b c" shows "vc_inv (vc_input i v)"
  using assms apply_informs apply_op_lines [OF assms(2)] apply_reachable
  by (simp add: vc_inv_def vc_input_def vc_safe_def vc_knows_def)

lemma duel_inv: "duel v \<Longrightarrow> vc_inv v"
proof (induction rule: duel.induct)
  case (d_tick v dt v')
  then show ?case using vc_tick_returns [of v dt] by (cases "vc_result v = 0") (auto simp: vc_tick_def)
next
  case (d_drain v)
  then show ?case by (simp add: vc_drain_def vc_inv_def vc_safe_def vc_knows_def)
qed (use vc_new_inv vc_input_inv in auto)

text \<open>
  C27. Every tick of a match against the computer returns, whatever the computer's search, shopping and
  launches come to. A match with a result does not move. Otherwise the tick decides it: the human has
  won (1) if the computer's board is over, has lost (2) if only the human's is, and a tick in which both
  end counts as a win of the human. While either side shops, the human's piece does not move.
\<close>

theorem duel_ticks:
  assumes "duel v"
  shows "\<exists>v'. vc_tick dt v = Some v' \<and> duel v' \<and> (vc_result v \<noteq> 0 \<longrightarrow> v' = v) \<and>
    (vc_result v = 0 \<longrightarrow> vc_result v' =
      (if g_phase (vc_ai v') = Over then 1 else if g_phase (vc_player v') = Over then 2 else 0)) \<and>
    (g_in_bazaar (vc_player v) \<or> g_in_bazaar (vc_ai v) \<longrightarrow> motion (vc_player v') = motion (vc_player v))"
proof (cases "vc_result v = 0")
  case True
  obtain v' where "vc_tick dt v = Some v'" "vc_result v' = vc_decided v'"
    "g_in_bazaar (vc_player v) \<or> g_in_bazaar (vc_ai v) \<longrightarrow> motion (vc_player v') = motion (vc_player v)"
    using vc_tick_returns [OF duel_inv [OF assms] True, of dt] by (auto simp: returns_def)
  then show ?thesis using d_tick [OF assms] True by (auto simp: vc_decided_def)
next
  case False
  then have "vc_tick dt v = Some v" by (simp add: vc_tick_def)
  then show ?thesis using assms False by simp
qed

lemma duel_new: obtains v where "vc_new seed level = Some v" "duel v"
proof -
  obtain p a where "game_new seed = Some p" "game_new (seed XOR 0x9E3779B97F4A7C15) = Some a" by (metis reachable_new)
  then obtain v where "vc_new seed level = Some v" by (auto simp: vc_new_def Let_def)
  then show thesis using that d_new by blast
qed

theorem duel_ticks_witness:
  "\<exists>v v'. vc_new 7 3 = Some v \<and> vc_tick 16 v = Some v' \<and> (vc_result v = 0 \<longrightarrow> vc_result v' =
      (if g_phase (vc_ai v') = Over then 1 else if g_phase (vc_player v') = Over then 2 else 0))"
proof -
  obtain v where v: "vc_new 7 3 = Some v" "duel v" by (rule duel_new)
  then show ?thesis using duel_ticks [OF v(2), of 16] by blast
qed

subsection \<open>The queue of the host\<close>

text \<open>A match apart from the events that wait for the host; nothing but the host reads them.\<close>

definition quiet :: "vs_computer \<Rightarrow> vs_computer" where
  "quiet v = v\<lparr>vc_events := []\<rparr>"

lemma quiet_queue [simp]: "quiet (v\<lparr>vc_events := L\<rparr>) = quiet v"
  by (simp add: quiet_def)

lemma same_quiet: "quiet v = quiet w \<Longrightarrow> w = v\<lparr>vc_events := vc_events w\<rparr>"
  by (cases v; cases w) (simp add: quiet_def)

lemma queue_out:
  "v\<lparr>vc_events := L, vc_player := p\<rparr> = v\<lparr>vc_player := p, vc_events := L\<rparr>"
  "v\<lparr>vc_events := L, vc_computer := c, vc_ai := a\<rparr> = v\<lparr>vc_computer := c, vc_ai := a, vc_events := L\<rparr>"
  "v\<lparr>vc_events := L, vc_ai := a\<rparr> = v\<lparr>vc_ai := a, vc_events := L\<rparr>"
  by (cases v; simp)+

lemma queue_player_event: "\<exists>M. vc_player_event e (v\<lparr>vc_events := L\<rparr>) = (vc_player_event e v)\<lparr>vc_events := M\<rparr>"
  by (cases e) (auto simp: vc_player_event_def vc_deliver_def Let_def split_beta)

lemma queue_ai_event: "vc_ai_event e (v\<lparr>vc_events := L\<rparr>) = (vc_ai_event e v)\<lparr>vc_events := L\<rparr>"
  by (cases e) (simp_all add: vc_ai_event_def vc_deliver_def Let_def split_beta)

lemma queue_player_fold: "\<exists>M. fold vc_player_event es (v\<lparr>vc_events := L\<rparr>) = (fold vc_player_event es v)\<lparr>vc_events := M\<rparr>"
proof (induction es arbitrary: v L)
  case Nil
  show ?case by auto
next
  case (Cons e es)
  then show ?case using queue_player_event [where e = e and v = v and L = L] by (metis fold_simps(2))
qed

lemma queue_ai_fold: "fold vc_ai_event es (v\<lparr>vc_events := L\<rparr>) = (fold vc_ai_event es v)\<lparr>vc_events := L\<rparr>"
  by (induction es arbitrary: v) (simp_all add: queue_ai_event)

lemma queue_relay: "\<exists>M. vc_relay (v\<lparr>vc_events := L\<rparr>) = (vc_relay v)\<lparr>vc_events := M\<rparr>"
proof -
  obtain es p where t: "take_events (vc_player v) = (es, p)" by fastforce
  have "\<exists>M. fold vc_player_event es ((v\<lparr>vc_player := p\<rparr>)\<lparr>vc_events := L\<rparr>)
      = (fold vc_player_event es (v\<lparr>vc_player := p\<rparr>))\<lparr>vc_events := M\<rparr>" by (rule queue_player_fold)
  then obtain M where M: "fold vc_player_event es (v\<lparr>vc_events := L, vc_player := p\<rparr>)
      = (fold vc_player_event es (v\<lparr>vc_player := p\<rparr>))\<lparr>vc_events := M\<rparr>" unfolding queue_out by blast
  obtain u where u: "u = fold vc_player_event es (v\<lparr>vc_player := p\<rparr>)" by blast
  obtain fs a where s: "take_events (vc_ai u) = (fs, a)" by fastforce
  have "vc_relay v = fold vc_ai_event fs (u\<lparr>vc_ai := a\<rparr>)"
    by (simp add: vc_relay_def t u [symmetric] s)
  moreover have "vc_relay (v\<lparr>vc_events := L\<rparr>) = fold vc_ai_event fs ((u\<lparr>vc_ai := a\<rparr>)\<lparr>vc_events := M\<rparr>)"
    using M by (simp add: vc_relay_def t u [symmetric] s queue_out)
  ultimately show ?thesis unfolding queue_ai_fold by auto
qed

lemma queue_ai_logic: "vc_ai_logic dt (v\<lparr>vc_events := L\<rparr>) = map_option (\<lambda>w. w\<lparr>vc_events := L\<rparr>) (vc_ai_logic dt v)"
proof (cases "tick dt (vc_ai v)")
  case (Some a)
  then show ?thesis by (cases "take_turn (vc_computer v) a") (auto simp: vc_ai_logic_def Let_def)
qed (simp add: vc_ai_logic_def)

lemma quiet_tick:
  assumes "quiet v = quiet w" "vc_tick dt v = Some v'"
  obtains w' where "vc_tick dt w = Some w'" "quiet w' = quiet v'"
proof -
  obtain L where w: "w = v\<lparr>vc_events := L\<rparr>" using assms(1) same_quiet by blast
  have "\<exists>M. vc_tick dt w = Some (v'\<lparr>vc_events := M\<rparr>)"
  proof (cases "vc_result v \<noteq> 0")
    case True
    then show ?thesis using assms(2) w by (auto simp: vc_tick_def)
  next
    case open_match: False
    show ?thesis
    proof (cases "g_in_bazaar (vc_player v) \<or> g_in_bazaar (vc_ai v)")
      case True
      obtain c a where shop: "computer_shop (vc_computer v) (vc_ai v) = (c, a)" by fastforce
      obtain u where u: "u = (if g_in_bazaar (vc_ai v) then v\<lparr>vc_computer := c, vc_ai := leave_bazaar a\<rparr> else v)" by blast
      have "vc_tick dt v = Some (vc_relay u)" "vc_tick dt w = Some (vc_relay (u\<lparr>vc_events := L\<rparr>))"
        using open_match True by (auto simp: vc_tick_def w shop u queue_out)
      then show ?thesis using assms(2) queue_relay [where v = u and L = L] by auto
    next
      case False
      obtain p where p: "tick dt (vc_player v) = Some p"
        using assms(2) open_match False by (auto simp: vc_tick_def elim!: bind_eq_SomeE)
      obtain u where u: "vc_ai_logic dt (v\<lparr>vc_player := p\<rparr>) = Some u" "v' = vc_relay u"
        using assms(2) open_match False p by (auto simp: vc_tick_def elim!: bind_eq_SomeE)
      have "vc_ai_logic dt (v\<lparr>vc_events := L, vc_player := p\<rparr>) = Some (u\<lparr>vc_events := L\<rparr>)"
        unfolding queue_out using queue_ai_logic [where v = "v\<lparr>vc_player := p\<rparr>"] u(1) by simp
      then have "vc_tick dt w = Some (vc_relay (u\<lparr>vc_events := L\<rparr>))"
        using open_match False p by (simp add: vc_tick_def w)
      then show ?thesis using u(2) queue_relay [where v = u and L = L] by auto
    qed
  qed
  then show thesis using that by auto
qed

subsection \<open>The match as the engine of a recording\<close>

text \<open>The operations that the player of recordings calls, on the modelled match.\<close>

definition computer_ops :: "vs_computer vs_ops" where
  "computer_ops = \<lparr>vs_new = vc_new, vs_tick = vc_tick, vs_input = vc_input, vs_drain = (\<lambda>v. snd (vc_drain v))\<rparr>"

definition duel_like :: "vs_computer \<Rightarrow> vs_computer engine \<Rightarrow> bool" where
  "duel_like v e \<longleftrightarrow> (\<exists>w. e = Vs w \<and> quiet v = quiet w)"

lemma quiet_input:
  assumes "quiet v = quiet w" shows "quiet (vc_input i v) = quiet (vc_input i w)"
proof -
  obtain L where w: "w = v\<lparr>vc_events := L\<rparr>" using same_quiet [OF assms] by blast
  have "vc_input i w = (vc_input i v)\<lparr>vc_events := L\<rparr>" unfolding vc_input_def w by (simp add: queue_out)
  then show ?thesis by simp
qed

interpretation duels: tracking fr_tick "\<lambda>f. rp_apply computer_ops (fr_input f)" "rp_tick computer_ops dt"
    "\<lambda>f. vc_input (fr_input f)" "vc_tick dt" "\<lambda>_. True" duel_like for dt
proof (unfold_locales, goal_cases)
  case (1 l e f)
  then obtain w where w: "e = Vs w" "quiet l = quiet w" by (auto simp: duel_like_def)
  then show ?case using quiet_input [OF w(2)] unfolding duel_like_def by (simp add: rp_apply_def computer_ops_def)
next
  case (2 l e l')
  then obtain w where w: "e = Vs w" "quiet l = quiet w" by (auto simp: duel_like_def)
  obtain w' where "vc_tick dt w = Some w'" "quiet w' = quiet l'" using quiet_tick [OF w(2) 2(2)] .
  then show ?case by (auto simp: w(1) duel_like_def rp_tick_def computer_ops_def vc_drain_def)
qed

end
