(* ===== verification/Browser.thy ===== *)
theory Browser
  imports VsComputer Netcode
begin

section \<open>The browser's bindings\<close>

text \<open>
  \<open>bt-wasm/src/lib.rs\<close>: the classes that the page calls. A local game and a match against the computer
  are paired with a recorder, and every method that plays records the input that it applies; the
  online client wraps the predictor, and the playback of a match adds the log of its launches.

  The build's \<open>ENGINE_SHA\<close> is the argument \<open>sha\<close> of the constructors. Plain reads for the display and
  the JSON forms are left out. The main theorem: the recording that the page exports after a match
  against the computer replays that match.
\<close>

definition EMPTY :: i32 where "EMPTY = - 2"

definition FIXED_DT_MS :: i32 where "FIXED_DT_MS = 16"

definition spy_hide_pct :: "i32 \<Rightarrow> int" where
  "spy_hide_pct token = (case from_index token of Some t \<Rightarrow> hide_pct t | None \<Rightarrow> 0)"

text \<open>The cast from a double to an unsigned integer saturates.\<close>

definition f64_as_u64 :: "f64 \<Rightarrow> u64" where
  "f64_as_u64 x = word_of_int (max 0 (min (2 ^ 64 - 1) \<lfloor>x\<rfloor>))"

definition spy_revealed_funds :: "i32 \<Rightarrow> i32 \<Rightarrow> f64 \<Rightarrow> bool \<Rightarrow> i32" where
  "spy_revealed_funds funds token at_tick ace_recent_tetris =
     (case from_index token of
        Some tok \<Rightarrow> as_i32 (adjust_funds funds tok (noise_for (f64_as_u64 at_tick) 0) ace_recent_tetris)
      | None \<Rightarrow> funds)"

definition max_weapons :: i32 where "max_weapons = int BT_MAX_WEAPONS"

definition weapon_price :: "i32 \<Rightarrow> i32" where
  "weapon_price token = (case from_index token of Some t \<Rightarrow> uint (wi_price (weapon_table ! index t)) | None \<Rightarrow> 0)"

definition weapon_duration :: "i32 \<Rightarrow> i32" where
  "weapon_duration token = (case from_index token of Some t \<Rightarrow> uint (wi_duration (weapon_table ! index t)) | None \<Rightarrow> 0)"

text \<open>The events as quads of a tag and three numbers.\<close>

definition event_quad :: "game_event \<Rightarrow> i32 list" where
  "event_quad e = (case e of
       Locked lines value funds \<Rightarrow> [0, lines, value, funds]
     | WeaponLaunched t \<Rightarrow> [1, int (index t), 0, 0]
     | Scored score lines funds \<Rightarrow> [2, as_i32 score, as_i32 lines, as_i32 funds]
     | EnterBazaar \<Rightarrow> [3, 0, 0, 0]
     | Idiot reason \<Rightarrow> [6, as_i32 reason, 0, 0]
     | Airslide \<Rightarrow> [4, 0, 0, 0]
     | GameOver \<Rightarrow> [5, 0, 0, 0]
     | FundsStolen amount \<Rightarrow> [7, as_i32 amount, 0, 0])"

definition render_grid_of :: "game \<Rightarrow> i32 list" where
  "render_grid_of g =
     (let b = g_board g; w = b_width b; h = b_height b;
          grid = fold (\<lambda>y grid. fold (\<lambda>x grid. case get b x y of
                Some c \<Rightarrow> grid[nat (y * w + x) := cell_id c] | None \<Rightarrow> grid) (range_i 0 w) grid)
              (range_i 0 h) (replicate (nat (w * h)) EMPTY)
      in case g_current g of
           Some p \<Rightarrow> fold (\<lambda>(i, j) grid. case p_cells p ! i ! j of
               Some c \<Rightarrow>
                 (let gx = p_x p + int i; gy = p_y p + int j in
                  if gx \<ge> 0 \<and> gx < w \<and> gy \<ge> 0 \<and> gy < h
                  then grid[nat (gy * w + gx) := cell_id c] else grid)
             | None \<Rightarrow> grid) (squares 8) grid
         | None \<Rightarrow> grid)"

subsection \<open>A local game\<close>

record wasm_game =
  wg_inner :: game
  wg_rec :: recorder

definition wg_new :: "string \<Rightarrow> u32 \<Rightarrow> wasm_game option" where
  "wg_new sha seed =
     map_option (\<lambda>g. \<lparr>wg_inner = g, wg_rec = recorder_new seed Practice None FIXED_DT_MS sha\<rparr>) (game_new (ucast seed))"

definition wg_tick :: "i32 \<Rightarrow> wasm_game \<Rightarrow> wasm_game option" where
  "wg_tick dt_ms w = map_option (\<lambda>g. w\<lparr>wg_inner := g, wg_rec := on_tick (wg_rec w)\<rparr>) (tick dt_ms (wg_inner w))"

text \<open>Apply to the engine, then record.\<close>

definition wg_act :: "(game \<Rightarrow> game) \<Rightarrow> input \<Rightarrow> wasm_game \<Rightarrow> wasm_game" where
  "wg_act f i w = w\<lparr>wg_inner := f (wg_inner w), wg_rec := record_input i (wg_rec w)\<rparr>"

definition wg_move_left :: "wasm_game \<Rightarrow> wasm_game" where
  "wg_move_left = wg_act move_left MoveLeft"

definition wg_move_right :: "wasm_game \<Rightarrow> wasm_game" where
  "wg_move_right = wg_act move_right MoveRight"

definition wg_rotate :: "wasm_game \<Rightarrow> wasm_game" where
  "wg_rotate = wg_act game_rotate Rotate"

definition wg_begin_drop :: "wasm_game \<Rightarrow> wasm_game" where
  "wg_begin_drop = wg_act begin_drop BeginDrop"

definition wg_soft_drop :: "wasm_game \<Rightarrow> wasm_game" where
  "wg_soft_drop = wg_act soft_drop SoftDrop"

definition wg_set_paused :: "bool \<Rightarrow> wasm_game \<Rightarrow> wasm_game" where
  "wg_set_paused paused = wg_act (set_paused paused) (SetPaused paused)"

definition wg_launch_weapon :: "u32 \<Rightarrow> wasm_game \<Rightarrow> wasm_game" where
  "wg_launch_weapon slot = wg_act (Game.launch_weapon (unat slot)) (LaunchWeapon slot)"

definition wg_receive_weapon :: "i32 \<Rightarrow> wasm_game \<Rightarrow> wasm_game" where
  "wg_receive_weapon token w =
     (case from_index token of Some t \<Rightarrow> wg_act (receive_weapon t) (ReceiveWeapon token) w | None \<Rightarrow> w)"

definition wg_receive_op_score :: "i32 \<Rightarrow> i32 \<Rightarrow> i32 \<Rightarrow> wasm_game \<Rightarrow> wasm_game" where
  "wg_receive_op_score score lines funds = wg_act (receive_op_score score lines funds) (ReceiveOpScore score lines funds)"

definition wg_add_funds :: "i32 \<Rightarrow> wasm_game \<Rightarrow> wasm_game" where
  "wg_add_funds amount = wg_act (add_funds amount) (AddFunds amount)"

definition wg_restore_keyframe :: "u8 list \<Rightarrow> wasm_game \<Rightarrow> bool \<times> wasm_game" where
  "wg_restore_keyframe bytes w = (let (ok, g) = restore_bytes bytes (wg_inner w) in (ok, w\<lparr>wg_inner := g\<rparr>))"

definition wg_snapshot_keyframe :: "wasm_game \<Rightarrow> u8 list" where
  "wg_snapshot_keyframe w = snapshot_bytes (wg_inner w)"

definition wg_force_weapon_off :: "i32 \<Rightarrow> wasm_game \<Rightarrow> wasm_game" where
  "wg_force_weapon_off token w =
     (case from_index token of Some t \<Rightarrow> w\<lparr>wg_inner := force_weapon_off t (wg_inner w)\<rparr> | None \<Rightarrow> w)"

definition wg_import_board :: "i32 list \<Rightarrow> wasm_game \<Rightarrow> wasm_game" where
  "wg_import_board data w = w\<lparr>wg_inner := import_board data (wg_inner w)\<rparr>"

definition wg_import_arsenal :: "i32 list \<Rightarrow> wasm_game \<Rightarrow> wasm_game" where
  "wg_import_arsenal data w = w\<lparr>wg_inner := import_arsenal data (wg_inner w)\<rparr>"

definition wg_buy_weapon :: "i32 \<Rightarrow> wasm_game \<Rightarrow> bool \<times> wasm_game" where
  "wg_buy_weapon token w =
     (case from_index token of
        Some t \<Rightarrow> (fst (buy_weapon t (wg_inner w)), wg_act (\<lambda>g. snd (buy_weapon t g)) (BuyWeapon token) w)
      | None \<Rightarrow> (False, w))"

definition wg_sell_weapon :: "i32 \<Rightarrow> wasm_game \<Rightarrow> bool \<times> wasm_game" where
  "wg_sell_weapon token w =
     (case from_index token of
        Some t \<Rightarrow> (fst (sell_weapon t (wg_inner w)), wg_act (\<lambda>g. snd (sell_weapon t g)) (SellWeapon token) w)
      | None \<Rightarrow> (False, w))"

definition wg_leave_bazaar :: "wasm_game \<Rightarrow> wasm_game" where
  "wg_leave_bazaar = wg_act leave_bazaar LeaveBazaar"

definition wg_drain_events :: "wasm_game \<Rightarrow> i32 list \<times> wasm_game" where
  "wg_drain_events w =
     (let (es, g) = take_events (wg_inner w) in (concat (map event_quad es), w\<lparr>wg_inner := g\<rparr>))"

definition wg_render_grid :: "wasm_game \<Rightarrow> i32 list" where
  "wg_render_grid w = render_grid_of (wg_inner w)"

definition wg_bazaar_price :: "i32 \<Rightarrow> wasm_game \<Rightarrow> i32" where
  "wg_bazaar_price token w = (case from_index token of Some t \<Rightarrow> bazaar_price t (wg_inner w) | None \<Rightarrow> 0)"

subsection \<open>A match against the computer\<close>

record wasm_vs =
  wv_inner :: vs_computer
  wv_rec :: recorder

definition wv_new :: "string \<Rightarrow> u32 \<Rightarrow> u32 \<Rightarrow> wasm_vs option" where
  "wv_new sha seed level =
     map_option (\<lambda>v. \<lparr>wv_inner = v, wv_rec = recorder_new seed Vs_Computer (Some level) FIXED_DT_MS sha\<rparr>)
       (vc_new (ucast seed) (unat level))"

definition wv_tick :: "i32 \<Rightarrow> wasm_vs \<Rightarrow> wasm_vs option" where
  "wv_tick dt_ms w = map_option (\<lambda>v. w\<lparr>wv_inner := v, wv_rec := on_tick (wv_rec w)\<rparr>) (vc_tick dt_ms (wv_inner w))"

definition wv_player :: "(game \<Rightarrow> game) \<Rightarrow> wasm_vs \<Rightarrow> wasm_vs" where
  "wv_player f w = w\<lparr>wv_inner := (wv_inner w)\<lparr>vc_player := f (vc_player (wv_inner w))\<rparr>\<rparr>"

definition wv_act :: "(game \<Rightarrow> game) \<Rightarrow> input \<Rightarrow> wasm_vs \<Rightarrow> wasm_vs" where
  "wv_act f i w = (wv_player f w)\<lparr>wv_rec := record_input i (wv_rec w)\<rparr>"

definition wv_move_left :: "wasm_vs \<Rightarrow> wasm_vs" where
  "wv_move_left = wv_act move_left MoveLeft"

definition wv_move_right :: "wasm_vs \<Rightarrow> wasm_vs" where
  "wv_move_right = wv_act move_right MoveRight"

definition wv_rotate :: "wasm_vs \<Rightarrow> wasm_vs" where
  "wv_rotate = wv_act game_rotate Rotate"

definition wv_begin_drop :: "wasm_vs \<Rightarrow> wasm_vs" where
  "wv_begin_drop = wv_act begin_drop BeginDrop"

definition wv_soft_drop :: "wasm_vs \<Rightarrow> wasm_vs" where
  "wv_soft_drop = wv_act soft_drop SoftDrop"

definition wv_set_paused :: "bool \<Rightarrow> wasm_vs \<Rightarrow> wasm_vs" where
  "wv_set_paused paused = wv_act (set_paused paused) (SetPaused paused)"

definition wv_is_game_over :: "wasm_vs \<Rightarrow> bool" where
  "wv_is_game_over w \<longleftrightarrow> g_phase (vc_player (wv_inner w)) = Over \<or> vc_result (wv_inner w) \<noteq> 0"

definition wv_launch_weapon :: "u32 \<Rightarrow> wasm_vs \<Rightarrow> wasm_vs" where
  "wv_launch_weapon slot = wv_act (Game.launch_weapon (unat slot)) (LaunchWeapon slot)"

text \<open>The test and debug methods are not recorded.\<close>

definition wv_add_funds :: "i32 \<Rightarrow> wasm_vs \<Rightarrow> wasm_vs" where
  "wv_add_funds amount = wv_player (add_funds amount)"

definition wv_grant_weapon :: "i32 \<Rightarrow> wasm_vs \<Rightarrow> bool \<times> wasm_vs" where
  "wv_grant_weapon token w =
     (case from_index token of
        Some t \<Rightarrow> (fst (grant_weapon t (vc_player (wv_inner w))), wv_player (\<lambda>g. snd (grant_weapon t g)) w)
      | None \<Rightarrow> (False, w))"

definition wv_import_arsenal :: "i32 list \<Rightarrow> wasm_vs \<Rightarrow> wasm_vs" where
  "wv_import_arsenal data = wv_player (import_arsenal data)"

definition wv_buy_weapon :: "i32 \<Rightarrow> wasm_vs \<Rightarrow> bool \<times> wasm_vs" where
  "wv_buy_weapon token w =
     (case from_index token of
        Some t \<Rightarrow> (fst (buy_weapon t (vc_player (wv_inner w))), wv_act (\<lambda>g. snd (buy_weapon t g)) (BuyWeapon token) w)
      | None \<Rightarrow> (False, w))"

definition wv_sell_weapon :: "i32 \<Rightarrow> wasm_vs \<Rightarrow> bool \<times> wasm_vs" where
  "wv_sell_weapon token w =
     (case from_index token of
        Some t \<Rightarrow> (fst (sell_weapon t (vc_player (wv_inner w))), wv_act (\<lambda>g. snd (sell_weapon t g)) (SellWeapon token) w)
      | None \<Rightarrow> (False, w))"

definition wv_leave_bazaar :: "wasm_vs \<Rightarrow> wasm_vs" where
  "wv_leave_bazaar = wv_act leave_bazaar LeaveBazaar"

definition wv_drain_events :: "wasm_vs \<Rightarrow> i32 list \<times> wasm_vs" where
  "wv_drain_events w =
     (let (es, v) = vc_drain (wv_inner w) in (concat (map event_quad es), w\<lparr>wv_inner := v\<rparr>))"

subsection \<open>The online client\<close>

record wasm_client =
  wc_inner :: predictor

definition wc_new :: "u32 \<Rightarrow> wasm_client option" where
  "wc_new seed = map_option (\<lambda>p. \<lparr>wc_inner = p\<rparr>) (pr_new (ucast seed))"

definition wc_tick :: "i32 \<Rightarrow> wasm_client \<Rightarrow> wasm_client option" where
  "wc_tick dt_ms c = map_option (\<lambda>p. c\<lparr>wc_inner := p\<rparr>) (pr_tick dt_ms (wc_inner c))"

text \<open>The frame to send is the numbered input, or None where the code returns the empty string.\<close>

definition wc_send :: "input \<Rightarrow> wasm_client \<Rightarrow> (u64 \<times> input) option \<times> wasm_client" where
  "wc_send i c = (let (frame, p) = predict i (wc_inner c) in (frame, c\<lparr>wc_inner := p\<rparr>))"

definition wc_move_left :: "wasm_client \<Rightarrow> (u64 \<times> input) option \<times> wasm_client" where
  "wc_move_left = wc_send MoveLeft"

definition wc_move_right :: "wasm_client \<Rightarrow> (u64 \<times> input) option \<times> wasm_client" where
  "wc_move_right = wc_send MoveRight"

definition wc_rotate :: "wasm_client \<Rightarrow> (u64 \<times> input) option \<times> wasm_client" where
  "wc_rotate = wc_send Rotate"

definition wc_begin_drop :: "wasm_client \<Rightarrow> (u64 \<times> input) option \<times> wasm_client" where
  "wc_begin_drop = wc_send BeginDrop"

definition wc_soft_drop :: "wasm_client \<Rightarrow> (u64 \<times> input) option \<times> wasm_client" where
  "wc_soft_drop = wc_send SoftDrop"

definition wc_launch :: "u32 \<Rightarrow> wasm_client \<Rightarrow> (u64 \<times> input) option \<times> wasm_client" where
  "wc_launch slot = wc_send (LaunchWeapon slot)"

definition wc_buy :: "i32 \<Rightarrow> wasm_client \<Rightarrow> (u64 \<times> input) option \<times> wasm_client" where
  "wc_buy token = wc_send (BuyWeapon token)"

definition wc_sell :: "i32 \<Rightarrow> wasm_client \<Rightarrow> (u64 \<times> input) option \<times> wasm_client" where
  "wc_sell token = wc_send (SellWeapon token)"

definition wc_leave_bazaar :: "wasm_client \<Rightarrow> (u64 \<times> input) option \<times> wasm_client" where
  "wc_leave_bazaar = wc_send LeaveBazaar"

text \<open>The parsed input, or None where the frame does not parse.\<close>

definition wc_apply_event :: "input option \<Rightarrow> wasm_client \<Rightarrow> wasm_client" where
  "wc_apply_event inp c =
     (case inp of Some i \<Rightarrow> c\<lparr>wc_inner := apply_event i (wc_inner c)\<rparr> | None \<Rightarrow> c)"

definition wc_on_snapshot :: "u32 \<Rightarrow> bool \<Rightarrow> bool \<Rightarrow> u8 list \<Rightarrow> wasm_client \<Rightarrow> wasm_client" where
  "wc_on_snapshot ack you_bazaar opp_bazaar keyframe c =
     (let kf = (if keyframe = [] then None else Some keyframe)
      in c\<lparr>wc_inner := on_snapshot (ucast ack) you_bazaar opp_bazaar kf (wc_inner c)\<rparr>)"

definition wc_on_lock_hash :: "u32 \<Rightarrow> u32 \<Rightarrow> wasm_client \<Rightarrow> bool \<times> wasm_client" where
  "wc_on_lock_hash lock_seq lock_hash c =
     (let (diverged, p) = on_lock_hash (uint lock_seq) lock_hash (wc_inner c) in (diverged, c\<lparr>wc_inner := p\<rparr>))"

definition wc_drain_events :: "wasm_client \<Rightarrow> i32 list \<times> wasm_client" where
  "wc_drain_events c =
     (let (es, g) = take_events (pr_game (wc_inner c))
      in (concat (map event_quad es), c\<lparr>wc_inner := (wc_inner c)\<lparr>pr_game := g\<rparr>\<rparr>))"

subsection \<open>The playback of a recording\<close>

record wasm_replay_player =
  wr_inner :: "vs_computer replay_player"

definition wr_new :: "replay \<Rightarrow> wasm_replay_player option" where
  "wr_new r = map_option (\<lambda>p. \<lparr>wr_inner = p\<rparr>) (rp_new computer_ops r)"

definition wr_step :: "wasm_replay_player \<Rightarrow> (bool \<times> wasm_replay_player) option" where
  "wr_step w = map_option (\<lambda>(more, p). (more, w\<lparr>wr_inner := p\<rparr>)) (rp_step computer_ops (wr_inner w))"

definition wr_seek :: "u32 \<Rightarrow> wasm_replay_player \<Rightarrow> wasm_replay_player option" where
  "wr_seek target w = map_option (\<lambda>p. w\<lparr>wr_inner := p\<rparr>) (rp_seek computer_ops target (wr_inner w))"

subsection \<open>The playback of a match\<close>

record wasm_versus_player =
  wp_inner :: versus_player
  wp_launches :: "(u8 \<times> i32) list"

definition wp_new :: "versus_replay \<Rightarrow> wasm_versus_player option" where
  "wp_new r = map_option (\<lambda>p. \<lparr>wp_inner = p, wp_launches = []\<rparr>) (vp_new r)"

definition wp_step :: "wasm_versus_player \<Rightarrow> (bool \<times> wasm_versus_player) option" where
  "wp_step w =
     (let now = vp_executed (wp_inner w);
          slots = List.map_filter (\<lambda>f. if vf_tick f = now then
              (case vf_input f of LaunchWeapon slot \<Rightarrow> Some (vf_side f, unat slot) | _ \<Rightarrow> None) else None)
            (vr_frames (vp_replay (wp_inner w)));
          launches = List.map_filter (\<lambda>(s, slot).
              let g = (if s = 0 then v_a (vp_versus (wp_inner w)) else v_b (vp_versus (wp_inner w)));
                  token = token_int (slot_token (g_arsenal g) slot)
              in if token \<ge> 0 then Some (s, token) else None) slots
      in map_option (\<lambda>(more, p). (more, w\<lparr>wp_inner := p, wp_launches := launches\<rparr>)) (vp_step (wp_inner w)))"

definition wp_seek :: "u32 \<Rightarrow> wasm_versus_player \<Rightarrow> wasm_versus_player option" where
  "wp_seek target w = map_option (\<lambda>p. w\<lparr>wp_inner := p\<rparr>) (vp_seek target (wp_inner w))"

definition recent_launches :: "wasm_versus_player \<Rightarrow> i32 list" where
  "recent_launches w = concat (map (\<lambda>(s, token). [uint s, token]) (wp_launches w))"

definition arsenal_pairs :: "game \<Rightarrow> i32 list" where
  "arsenal_pairs g =
     concat (map (\<lambda>i. [token_int (slot_token (g_arsenal g) i), uint (slot_quantity (g_arsenal g) i)]) [0..<10])"

definition active_effects :: "game \<Rightarrow> i32 list" where
  "active_effects g =
     concat (map (\<lambda>t. if weapon_active g t then [int (index t), weapon_remaining g t] else []) ALL_tokens)"

lemma render_grid_ids: "render_grid_of g = render_ids g"
  by (simp add: render_grid_of_def render_ids_def EMPTY_def Let_def split: option.split)

subsection \<open>The exported recording of a match against the computer\<close>

text \<open>What the page calls during a match, the methods for tests and debugging apart.\<close>

datatype page_call = P_tick | P_left | P_right | P_rotate | P_drop | P_soft | P_pause bool | P_launch u32
  | P_buy i32 | P_sell i32 | P_leave | P_drain

fun page_do :: "page_call \<Rightarrow> wasm_vs \<Rightarrow> wasm_vs option" where
  "page_do P_tick w = wv_tick FIXED_DT_MS w"
| "page_do P_left w = Some (wv_move_left w)"
| "page_do P_right w = Some (wv_move_right w)"
| "page_do P_rotate w = Some (wv_rotate w)"
| "page_do P_drop w = Some (wv_begin_drop w)"
| "page_do P_soft w = Some (wv_soft_drop w)"
| "page_do (P_pause p) w = Some (wv_set_paused p w)"
| "page_do (P_launch slot) w = Some (wv_launch_weapon slot w)"
| "page_do (P_buy token) w = Some (snd (wv_buy_weapon token w))"
| "page_do (P_sell token) w = Some (snd (wv_sell_weapon token w))"
| "page_do P_leave w = Some (wv_leave_bazaar w)"
| "page_do P_drain w = Some (snd (wv_drain_events w))"

text \<open>Every call is a tick, a recorded input, a drained queue, or nothing (an unknown weapon).\<close>

definition recorded_as :: "input \<Rightarrow> wasm_vs \<Rightarrow> wasm_vs" where
  "recorded_as i w = w\<lparr>wv_inner := vc_input i (wv_inner w), wv_rec := record_input i (wv_rec w)\<rparr>"

lemma wv_act_recorded: "f = apply_to_game i \<Longrightarrow> wv_act f i w = recorded_as i w"
  by (simp add: wv_act_def wv_player_def vc_input_def recorded_as_def)

lemma wv_inputs_recorded:
  "wv_move_left w = recorded_as MoveLeft w" "wv_move_right w = recorded_as MoveRight w"
  "wv_rotate w = recorded_as Rotate w" "wv_begin_drop w = recorded_as BeginDrop w"
  "wv_soft_drop w = recorded_as SoftDrop w" "wv_set_paused p w = recorded_as (SetPaused p) w"
  "wv_launch_weapon slot w = recorded_as (LaunchWeapon slot) w" "wv_leave_bazaar w = recorded_as LeaveBazaar w"
  by (simp_all add: wv_move_left_def wv_move_right_def wv_rotate_def wv_begin_drop_def wv_soft_drop_def wv_set_paused_def
      wv_launch_weapon_def wv_leave_bazaar_def wv_act_recorded fun_eq_iff apply_to_game_def)

lemma page_do_cases:
  assumes "page_do c w = Some w'" "c \<noteq> P_tick"
  obtains i where "w' = recorded_as i w" | "w' = snd (wv_drain_events w)" | "w' = w"
proof -
  have "(\<exists>i. w' = recorded_as i w) \<or> w' = snd (wv_drain_events w) \<or> w' = w"
  proof (cases c)
    case (P_buy token)
    then show ?thesis
      using assms(1) wv_act_recorded [of "\<lambda>g. snd (buy_weapon t g)" "BuyWeapon token" w for t]
      by (auto simp: wv_buy_weapon_def apply_to_game_def with_token_def fun_eq_iff split: option.splits)
  next
    case (P_sell token)
    then show ?thesis
      using assms(1) wv_act_recorded [of "\<lambda>g. snd (sell_weapon t g)" "SellWeapon token" w for t]
      by (auto simp: wv_sell_weapon_def apply_to_game_def with_token_def fun_eq_iff split: option.splits)
  qed (use assms in \<open>auto simp: wv_inputs_recorded\<close>)
  then show thesis using that by blast
qed

text \<open>The recorder's frames, played on a fresh match up to the recorder's tick, track the match on the page.\<close>

definition page_tracked :: "vs_computer \<Rightarrow> wasm_vs \<Rightarrow> bool" where
  "page_tracked v0 w \<longleftrightarrow> tracked fr_tick (\<lambda>f. rp_apply computer_ops (fr_input f)) (rp_tick computer_ops FIXED_DT_MS)
     duel_like (Vs v0) (rc_frames (wv_rec w)) (unat (rc_tick (wv_rec w))) (wv_inner w)"

definition page_ticks :: "page_call list \<Rightarrow> nat" where
  "page_ticks cs = length (filter (\<lambda>c. c = P_tick) cs)"

lemma page_tracked_input: "page_tracked v0 w \<Longrightarrow> page_tracked v0 (recorded_as i w)"
  using duels.tracked_app [of FIXED_DT_MS "Vs v0" "rc_frames (wv_rec w)" "unat (rc_tick (wv_rec w))" "wv_inner w"
      "\<lparr>fr_tick = rc_tick (wv_rec w), fr_input = i\<rparr>"]
  by (simp add: page_tracked_def record_input_def recorded_as_def)

lemma page_tracked_drain: "page_tracked v0 w \<Longrightarrow> page_tracked v0 (snd (wv_drain_events w))"
  by (auto simp: page_tracked_def wv_drain_events_def vc_drain_def tracked_def duel_like_def)

lemma page_tracked_tick:
  assumes "page_tracked v0 w" "wv_tick FIXED_DT_MS w = Some w'" "unat (rc_tick (wv_rec w)) + 1 < 2 ^ 32"
  shows "page_tracked v0 w' \<and> unat (rc_tick (wv_rec w')) = Suc (unat (rc_tick (wv_rec w)))"
proof -
  obtain v where v: "vc_tick FIXED_DT_MS (wv_inner w) = Some v" "w' = w\<lparr>wv_inner := v, wv_rec := on_tick (wv_rec w)\<rparr>"
    using assms(2) by (auto simp: wv_tick_def)
  have "rc_frames (on_tick (wv_rec w)) = rc_frames (wv_rec w)" by (simp add: on_tick_def)
  then show ?thesis
    using duels.tracked_adv [OF assms(1) [unfolded page_tracked_def] v(1)] unat_on_tick [OF assms(3)] v(2)
    by (simp add: page_tracked_def)
qed

lemma pages_tracked:
  assumes "fold_opt page_do cs w = Some w'" "page_tracked v0 w" "unat (rc_tick (wv_rec w)) + page_ticks cs < 2 ^ 32"
  shows "page_tracked v0 w' \<and> unat (rc_tick (wv_rec w')) = unat (rc_tick (wv_rec w)) + page_ticks cs \<and>
    rc_setup (wv_rec w') = rc_setup (wv_rec w)"
  using assms
proof (induction cs arbitrary: w)
  case (Cons c cs)
  obtain u where u: "page_do c w = Some u" "fold_opt page_do cs u = Some w'"
    using Cons.prems(1) by (auto elim!: bind_eq_SomeE)
  show ?case
  proof (cases "c = P_tick")
    case True
    have n: "unat (rc_tick (wv_rec w)) + 1 < 2 ^ 32" using Cons.prems(3) True by (simp add: page_ticks_def)
    have "rc_setup (wv_rec u) = rc_setup (wv_rec w)" using u(1) True by (auto simp: wv_tick_def rc_setup_def on_tick_def)
    then show ?thesis
      using page_tracked_tick [OF Cons.prems(2) _ n, of u] Cons.IH [OF u(2)] Cons.prems(3) u(1) True
      by (simp add: page_ticks_def)
  next
    case False
    have "page_tracked v0 u \<and> rc_tick (wv_rec u) = rc_tick (wv_rec w) \<and> rc_setup (wv_rec u) = rc_setup (wv_rec w)"
      using page_do_cases [OF u(1) False] page_tracked_input [OF Cons.prems(2)] page_tracked_drain [OF Cons.prems(2)]
        Cons.prems(2) by cases (auto simp: recorded_as_def record_input_def rc_setup_def wv_drain_events_def vc_drain_def)
    then show ?thesis using Cons.IH [OF u(2)] Cons.prems(3) False by (simp add: page_ticks_def)
  qed
qed (simp add: page_ticks_def)

lemma duel_tick_total: "duel v \<Longrightarrow> \<exists>u. vc_tick dt v = Some u"
  using vc_tick_returns [OF duel_inv, of v dt] by (cases "vc_result v = 0") (auto simp: returns_def vc_tick_def)

text \<open>
  C10. The recording that the page exports after a match against the computer replays that match: any
  sequence of inputs, ticks and drained events that ends with a tick, recorded in fewer than \<open>2 ^ 32\<close>
  ticks, comes out of the playback with both boards, the computer's mind, its pace and the result
  exactly as they ended on the page, although only the human's inputs are recorded.
\<close>

theorem computer_match_replays:
  assumes "wv_new sha seed level = Some w0" "fold_opt page_do (cs @ [P_tick]) w0 = Some w" "page_ticks cs + 1 < 2 ^ 32"
  shows "\<exists>p q v. rp_new computer_ops (to_replay (wv_rec w)) = Some p \<and> rp_run_to_end computer_ops p = Some q \<and>
    rp_engine q = Vs v \<and> v\<lparr>vc_events := []\<rparr> = (wv_inner w)\<lparr>vc_events := []\<rparr> \<and> rp_executed q = rc_tick (wv_rec w)"
proof -
  obtain v0 where v0: "vc_new (ucast seed) (unat level) = Some v0"
    "w0 = \<lparr>wv_inner = v0, wv_rec = recorder_new seed Vs_Computer (Some level) FIXED_DT_MS sha\<rparr>"
    using assms(1) by (auto simp: wv_new_def)
  obtain w1 where w1: "fold_opt page_do cs w0 = Some w1" "wv_tick FIXED_DT_MS w1 = Some w"
    using assms(2) unfolding fold_opt_append by (auto elim!: bind_eq_SomeE)
  have "page_tracked v0 w0"
    using duels.tracked_start [of v0 "Vs v0"] by (simp add: page_tracked_def v0(2) recorder_new_def duel_like_def)
  from pages_tracked [OF w1(1) this]
  have S: "page_tracked v0 w1" "unat (rc_tick (wv_rec w1)) = page_ticks cs" "rc_setup (wv_rec w1) = rc_setup (wv_rec w0)"
    using assms(3) by (simp_all add: v0(2) recorder_new_def)
  have n: "unat (rc_tick (wv_rec w1)) + 1 < 2 ^ 32" using S(2) assms(3) by simp
  have rec: "wv_rec w = on_tick (wv_rec w1)" using w1(2) by (auto simp: wv_tick_def)
  have T: "page_tracked v0 w" "unat (rc_tick (wv_rec w)) = Suc (unat (rc_tick (wv_rec w1)))"
    "rc_setup (wv_rec w) = rc_setup (wv_rec w0)"
    using page_tracked_tick [OF S(1) w1(2) n] S(3) by (simp_all add: rec rc_setup_def on_tick_def)
  have ini: "rc_seed (wv_rec w) = seed" "rc_mode (wv_rec w) = Vs_Computer" "rc_ai_level (wv_rec w) = Some level"
    "rc_dt_ms (wv_rec w) = FIXED_DT_MS" using T(3) by (simp_all add: rc_setup_def recorder_new_def v0(2))
  have past: "unat (fr_tick f) < unat (rc_tick (wv_rec w))" if "f \<in> set (rc_frames (wv_rec w))" for f
    using S(1) that T(2) by (auto simp: page_tracked_def tracked_def rec on_tick_def le_imp_less_Suc)
  obtain x where x: "timeline fr_tick (\<lambda>f. rp_apply computer_ops (fr_input f)) (rp_tick computer_ops FIXED_DT_MS)
      (rc_frames (wv_rec w)) (Vs v0) (unat (rc_tick (wv_rec w))) = Some x" "duel_like (wv_inner w) x"
    using duels.tracked_end [OF T(1) [unfolded page_tracked_def] past] by auto
  let ?p = "\<lparr>rp_engine = Vs v0, rp_replay = to_replay (wv_rec w), rp_executed = 0, rp_cursor = 0\<rparr>"
  have new: "rp_new computer_ops (to_replay (wv_rec w)) = Some ?p"
    using v0(1) by (simp add: rp_new_def to_replay_def ini computer_ops_def)
  have "sorted (map (\<lambda>f. unat (fr_tick f)) (rc_frames (wv_rec w)))" using T(1) by (simp add: page_tracked_def tracked_def)
  from recording_runs [OF new _ this, of x] x new show ?thesis by (auto simp: ini duel_like_def quiet_def)
qed

theorem computer_match_replays_witness:
  "\<exists>w0 w p q v. wv_new ''dev'' 7 3 = Some w0 \<and> fold_opt page_do ([P_left, P_drop, P_drain] @ [P_tick]) w0 = Some w \<and>
    rp_new computer_ops (to_replay (wv_rec w)) = Some p \<and> rp_run_to_end computer_ops p = Some q \<and> rp_engine q = Vs v \<and>
    v\<lparr>vc_events := []\<rparr> = (wv_inner w)\<lparr>vc_events := []\<rparr>"
proof -
  obtain v where v: "vc_new 7 3 = Some v" "duel v" by (rule duel_new)
  let ?start = "\<lparr>wv_inner = v, wv_rec = recorder_new 7 Vs_Computer (Some 3) FIXED_DT_MS ''dev''\<rparr>"
  let ?w = "snd (wv_drain_events (wv_begin_drop (wv_move_left ?start)))"
  have w0: "wv_new ''dev'' 7 3 = Some ?start" using v(1) by (simp add: wv_new_def)
  have "wv_inner ?w = snd (vc_drain (vc_input BeginDrop (vc_input MoveLeft v)))"
    by (simp add: wv_inputs_recorded recorded_as_def wv_drain_events_def split_beta)
  moreover have "duel (vc_input BeginDrop (vc_input MoveLeft v))" by (intro d_input v(2)) simp_all
  ultimately have "duel (wv_inner ?w)" by (metis d_drain)
  then obtain u where "vc_tick FIXED_DT_MS (wv_inner ?w) = Some u" by (metis duel_tick_total)
  then obtain w where w: "fold_opt page_do ([P_left, P_drop, P_drain] @ [P_tick]) ?start = Some w" by (auto simp: wv_tick_def)
  from computer_match_replays [OF w0 w] show ?thesis using w0 w by (auto simp: page_ticks_def)
qed

end
