(* ===== verification/BotWeapons.thy ===== *)
theory BotWeapons
  imports Commando
begin

section \<open>The weapons of the networked bots\<close>

text \<open>
  \<open>bt-ai/src/weapons.rs\<close>: what a bot buys in the bazaar and which slot of its arsenal it launches. An
  arsenal is the list of the ten protocol indices, with -1 for an empty slot. A plan stays within the
  funds and the free slots, and the engine accepts every purchase of it.
\<close>

definition token_from_index :: "i32 \<Rightarrow> weapon_token option" where
  "token_from_index idx =
     (if idx < 0 then None else if nat idx < length ALL_tokens then Some (ALL_tokens ! nat idx) else None)"

datatype wclass = Garbage | Harass | Economy | SpyClass | Skip

fun wclass_of :: "weapon_token \<Rightarrow> wclass" where
  "wclass_of RiseUp = Garbage"
| "wclass_of Lawyers = Garbage"
| "wclass_of Bottle = Garbage"
| "wclass_of Blind = Garbage"
| "wclass_of PieceIt = Garbage"
| "wclass_of Bug = Garbage"
| "wclass_of FallOut = Garbage"
| "wclass_of FourByFour = Garbage"
| "wclass_of Twilight = Garbage"
| "wclass_of FearedWeird = Harass"
| "wclass_of Hatter = Harass"
| "wclass_of Speedy = Harass"
| "wclass_of SoLong = Harass"
| "wclass_of NoDice = Harass"
| "wclass_of Slick = Harass"
| "wclass_of Broken = Harass"
| "wclass_of Force = Harass"
| "wclass_of NoSlide = Harass"
| "wclass_of Upbyside = Harass"
| "wclass_of FlipOut = Harass"
| "wclass_of Mondale = Economy"
| "wclass_of Keating = Economy"
| "wclass_of Reagan = Economy"
| "wclass_of Carter = Economy"
| "wclass_of Ames = SpyClass"
| "wclass_of Ace = SpyClass"
| "wclass_of Condor = SpyClass"
| "wclass_of Swap = Skip"
| "wclass_of Susan = Skip"
| "wclass_of Mirror = Skip"
| "wclass_of Meadow = Skip"
| "wclass_of NiceDay = Skip"
| "wclass_of Missing = Skip"
| "wclass_of GimpW = Skip"

definition BUY_PRIORITY :: "weapon_token list" where
  "BUY_PRIORITY = [RiseUp, Upbyside, Bottle, Mondale, PieceIt, SoLong, Speedy, Broken, Force, Bug, Lawyers,
     Hatter, Blind, FearedWeird, FourByFour, Keating, Twilight, Slick, NoDice]"

definition bot_price :: "bool \<Rightarrow> weapon_token \<Rightarrow> i64" where
  "bot_price carter t = (let p = uint (wi_price (weapon_table ! index t)) in if carter then p * 2 else p)"

definition arsenal_has_spy :: "i32 list \<Rightarrow> bool" where
  "arsenal_has_spy arsenal = list_ex (\<lambda>t. wclass_of t = SpyClass) (List.map_filter token_from_index arsenal)"

text \<open>The plan so far: the budget and the slots left, and the purchases.\<close>

type_synonym plan = "i64 \<times> i32 \<times> weapon_token list"

definition can_buy :: "bool \<Rightarrow> weapon_token \<Rightarrow> plan \<Rightarrow> bool" where
  "can_buy carter t pl = (case pl of (budget, slots, _) \<Rightarrow> slots > 0 \<and> budget \<ge> bot_price carter t)"

definition put_in_plan :: "bool \<Rightarrow> weapon_token \<Rightarrow> plan \<Rightarrow> plan" where
  "put_in_plan carter t pl = (case pl of (budget, slots, plan) \<Rightarrow> (budget - bot_price carter t, slots - 1, plan @ [t]))"

text \<open>The spy: the first of the three that is affordable.\<close>

definition buy_spy :: "bool \<Rightarrow> i32 list \<Rightarrow> plan \<Rightarrow> plan" where
  "buy_spy carter arsenal pl =
     (if arsenal_has_spy arsenal then pl
      else case find (\<lambda>spy. can_buy carter spy pl) [Ace, Ames, Condor] of
        Some spy \<Rightarrow> put_in_plan carter spy pl | None \<Rightarrow> pl)"

text \<open>One pass over the priority list, with the flag that something was bought.\<close>

fun priority_pass :: "bool \<Rightarrow> weapon_token list \<Rightarrow> plan \<Rightarrow> bool \<times> plan" where
  "priority_pass carter [] pl = (False, pl)"
| "priority_pass carter (t # ts) pl =
     (if fst (snd pl) \<le> 0 then (False, pl)
      else if can_buy carter t pl then (True, snd (priority_pass carter ts (put_in_plan carter t pl)))
      else priority_pass carter ts pl)"

lemma pass_slots:
  "fst (snd (snd (priority_pass carter ts pl))) \<le> fst (snd pl) \<and>
   (fst (priority_pass carter ts pl) \<longrightarrow> fst (snd (snd (priority_pass carter ts pl))) < fst (snd pl) \<and> 0 < fst (snd pl))"
proof (induction ts arbitrary: pl)
  case (Cons t ts)
  have "fst (snd (put_in_plan carter t pl)) = fst (snd pl) - 1" by (simp add: put_in_plan_def split: prod.split)
  then show ?case using Cons.IH [of "put_in_plan carter t pl"] Cons.IH [of pl] by auto
qed simp

function buy_rounds :: "bool \<Rightarrow> plan \<Rightarrow> plan" where
  "buy_rounds carter pl =
     (case priority_pass carter BUY_PRIORITY pl of
        (bought_any, pl') \<Rightarrow> if \<not> bought_any \<or> fst (snd pl') \<le> 0 then pl' else buy_rounds carter pl')"
  by auto

termination
proof (relation "measure (\<lambda>(_, pl). nat (fst (snd pl)))", goal_cases)
  case (2 carter pl x pl')
  then have "priority_pass carter BUY_PRIORITY pl = (x, pl')" "x" by simp_all
  then show ?case using pass_slots [of carter BUY_PRIORITY pl] by simp
qed simp

declare buy_rounds.simps [simp del]

definition free_slots :: "i32 list \<Rightarrow> i32" where
  "free_slots arsenal = int (length (filter (\<lambda>t. t < 0) arsenal))"

definition buy_plan :: "i64 \<Rightarrow> i32 list \<Rightarrow> bool \<Rightarrow> weapon_token list" where
  "buy_plan funds arsenal carter = snd (snd (buy_rounds carter (buy_spy carter arsenal (funds, free_slots arsenal, []))))"

definition find_class :: "i32 list \<Rightarrow> wclass \<Rightarrow> nat option" where
  "find_class arsenal want = find (\<lambda>i. map_option wclass_of (token_from_index (arsenal ! i)) = Some want) [0..<length arsenal]"

fun first_of :: "'a option list \<Rightarrow> 'a option" where
  "first_of [] = None"
| "first_of (x # xs) = (case x of Some s \<Rightarrow> Some s | None \<Rightarrow> first_of xs)"

definition launch_choice :: "i32 list \<Rightarrow> bool \<Rightarrow> bool \<Rightarrow> nat option" where
  "launch_choice arsenal spy_active opp_high =
     (case (if \<not> spy_active then find_class arsenal SpyClass else None) of
        Some s \<Rightarrow> Some s
      | None \<Rightarrow>
          (case (if opp_high then find_class arsenal Garbage else None) of
             Some s \<Rightarrow> Some s
           | None \<Rightarrow> first_of (map (find_class arsenal) [Harass, Economy, Garbage])))"

lemma token_from_index_eq: "token_from_index idx = from_index idx"
  by (simp add: token_from_index_def from_index_def bt_const nat_less_iff not_less)

lemma bot_price_bazaar: "bot_price (weapon_active g Carter) t = bazaar_price t g"
  by (simp add: bot_price_def bazaar_price_def price_of_def)

lemma bot_price_pos: "0 < bot_price carter t"
  using price_of_bounds [of t] by (simp add: bot_price_def price_of_def Let_def)

subsection \<open>A plan is paid for\<close>

definition total :: "bool \<Rightarrow> weapon_token list \<Rightarrow> i64" where
  "total carter ts = sum_list (map (bot_price carter) ts)"

text \<open>The plan \<open>pl'\<close> is \<open>pl\<close> with the purchases \<open>ts\<close>, which its budget and its slots cover.\<close>

definition extends :: "bool \<Rightarrow> weapon_token list \<Rightarrow> plan \<Rightarrow> plan \<Rightarrow> bool" where
  "extends carter ts pl pl' \<longleftrightarrow>
     pl' = (fst pl - total carter ts, fst (snd pl) - int (length ts), snd (snd pl) @ ts) \<and>
     (ts \<noteq> [] \<longrightarrow> 0 \<le> fst pl' \<and> 0 \<le> fst (snd pl'))"

lemma extends_nil [simp]: "extends carter [] pl pl"
  by (simp add: extends_def total_def)

lemma extends_one: "can_buy carter t pl \<Longrightarrow> extends carter [t] pl (put_in_plan carter t pl)"
  by (auto simp: extends_def can_buy_def put_in_plan_def total_def split: prod.splits)

lemma extends_trans:
  assumes "extends carter ts pl p1" "extends carter us p1 p2" shows "extends carter (ts @ us) pl p2"
proof -
  have p1: "p1 = (fst pl - total carter ts, fst (snd pl) - int (length ts), snd (snd pl) @ ts)"
    using assms(1) by (simp add: extends_def)
  show ?thesis
  proof (cases "us = []")
    case True
    then have "p2 = p1" using assms(2) by (simp add: extends_def total_def)
    then show ?thesis using True assms(1) by simp
  next
    case False
    then show ?thesis using assms(2) p1 by (auto simp: extends_def total_def)
  qed
qed

definition all_too_dear :: "bool \<Rightarrow> weapon_token list \<Rightarrow> plan \<Rightarrow> bool" where
  "all_too_dear carter ts pl \<longleftrightarrow> fst (snd pl) \<le> 0 \<or> (\<forall>t \<in> set ts. fst pl < bot_price carter t)"

lemma pass_extends:
  "\<exists>us. set us \<subseteq> set ts \<and> extends carter us pl (snd (priority_pass carter ts pl)) \<and>
     (fst (priority_pass carter ts pl) \<longleftrightarrow> us \<noteq> []) \<and> (us = [] \<longrightarrow> all_too_dear carter ts pl)"
proof (induction ts arbitrary: pl)
  case Nil
  then show ?case by (simp add: all_too_dear_def)
next
  case (Cons t ts)
  consider (full) "fst (snd pl) \<le> 0" | (buy) "\<not> fst (snd pl) \<le> 0" "can_buy carter t pl"
    | (dear) "\<not> fst (snd pl) \<le> 0" "\<not> can_buy carter t pl" by blast
  then show ?case
  proof cases
    case full
    then show ?thesis by (auto simp: all_too_dear_def)
  next
    case buy
    obtain us where us: "set us \<subseteq> set ts"
      "extends carter us (put_in_plan carter t pl) (snd (priority_pass carter ts (put_in_plan carter t pl)))"
      using Cons.IH [of "put_in_plan carter t pl"] by blast
    have "extends carter (t # us) pl (snd (priority_pass carter (t # ts) pl))"
      using extends_trans [OF extends_one [OF buy(2)] us(2)] buy by simp
    then show ?thesis using us(1) buy by (intro exI [of _ "t # us"]) auto
  next
    case dear
    then obtain us where us: "set us \<subseteq> set ts" "extends carter us pl (snd (priority_pass carter (t # ts) pl))"
      "fst (priority_pass carter (t # ts) pl) \<longleftrightarrow> us \<noteq> []" "us = [] \<longrightarrow> all_too_dear carter ts pl"
      using Cons.IH [of pl] by auto
    moreover have "fst pl < bot_price carter t" using dear by (auto simp: can_buy_def split: prod.splits)
    ultimately show ?thesis by (intro exI [of _ us]) (auto simp: all_too_dear_def)
  qed
qed

lemma rounds_extend:
  "\<exists>us. set us \<subseteq> set BUY_PRIORITY \<and> extends carter us pl (buy_rounds carter pl) \<and> all_too_dear carter BUY_PRIORITY (buy_rounds carter pl)"
proof (induction carter pl rule: buy_rounds.induct)
  case (1 carter pl)
  obtain b pl' where p: "priority_pass carter BUY_PRIORITY pl = (b, pl')" by (rule prod.exhaust)
  obtain us where us: "set us \<subseteq> set BUY_PRIORITY" "extends carter us pl pl'" "b \<longleftrightarrow> us \<noteq> []"
    "us = [] \<longrightarrow> all_too_dear carter BUY_PRIORITY pl" using pass_extends [of BUY_PRIORITY carter pl] p by auto
  show ?case
  proof (cases "\<not> b \<or> fst (snd pl') \<le> 0")
    case True
    moreover have "all_too_dear carter BUY_PRIORITY pl'"
      using True us by (cases "us = []") (auto simp: all_too_dear_def extends_def total_def)
    ultimately show ?thesis using us by (auto simp: buy_rounds.simps [of carter pl] p)
  next
    case False
    then obtain vs where "set vs \<subseteq> set BUY_PRIORITY" "extends carter vs pl' (buy_rounds carter pl')"
      "all_too_dear carter BUY_PRIORITY (buy_rounds carter pl')" using "1.IH" [OF p [symmetric]] by auto
    then show ?thesis
      using False us extends_trans [OF us(2)] by (intro exI [of _ "us @ vs"]) (auto simp: buy_rounds.simps [of carter pl] p)
  qed
qed

definition spies :: "weapon_token list" where
  "spies = [Ace, Ames, Condor]"

lemma spy_extends:
  "\<exists>us. extends carter us pl (buy_spy carter arsenal pl) \<and> set us \<subseteq> set spies \<and> length us \<le> 1 \<and>
    (us \<noteq> [] \<longleftrightarrow> \<not> arsenal_has_spy arsenal \<and> 0 < fst (snd pl) \<and> (\<exists>t \<in> set spies. bot_price carter t \<le> fst pl))"
proof (cases "arsenal_has_spy arsenal")
  case True
  then show ?thesis by (intro exI [of _ "[]"]) (simp add: buy_spy_def)
next
  case no_spy: False
  have can: "can_buy carter t pl \<longleftrightarrow> 0 < fst (snd pl) \<and> bot_price carter t \<le> fst pl" for t
    by (simp add: can_buy_def split: prod.split)
  show ?thesis
  proof (cases "find (\<lambda>t. can_buy carter t pl) spies")
    case None
    then have "\<not> (0 < fst (snd pl) \<and> (\<exists>t \<in> set spies. bot_price carter t \<le> fst pl))"
      unfolding find_None_iff can by blast
    then show ?thesis using None no_spy by (intro exI [of _ "[]"]) (simp add: buy_spy_def spies_def)
  next
    case (Some t)
    then have t: "can_buy carter t pl" "t \<in> set spies" by (auto simp: find_Some_iff)
    have "buy_spy carter arsenal pl = put_in_plan carter t pl" using Some no_spy by (simp add: buy_spy_def spies_def)
    moreover have "0 < fst (snd pl) \<and> (\<exists>t \<in> set spies. bot_price carter t \<le> fst pl)" using t can by blast
    ultimately show ?thesis using no_spy extends_one [OF t(1)] t(2) by (intro exI [of _ "[t]"]) simp
  qed
qed

text \<open>The purchases of a plan: at most one spy, then weapons of the priority list.\<close>

lemma buy_plan_parts:
  obtains us vs where "buy_plan funds arsenal carter = us @ vs" "set us \<subseteq> set spies" "length us \<le> 1" "set vs \<subseteq> set BUY_PRIORITY"
    "us \<noteq> [] \<longleftrightarrow> \<not> arsenal_has_spy arsenal \<and> 0 < free_slots arsenal \<and> (\<exists>t \<in> set spies. bot_price carter t \<le> funds)"
    "us @ vs \<noteq> [] \<longrightarrow> total carter (us @ vs) \<le> funds \<and> int (length (us @ vs)) \<le> free_slots arsenal"
    "free_slots arsenal \<le> int (length (us @ vs)) \<or> (\<forall>t \<in> set BUY_PRIORITY. funds - total carter (us @ vs) < bot_price carter t)"
proof -
  let ?pl = "(funds, free_slots arsenal, []) :: plan"
  obtain us where us: "extends carter us ?pl (buy_spy carter arsenal ?pl)" "set us \<subseteq> set spies" "length us \<le> 1"
    "us \<noteq> [] \<longleftrightarrow> \<not> arsenal_has_spy arsenal \<and> 0 < free_slots arsenal \<and> (\<exists>t \<in> set spies. bot_price carter t \<le> funds)"
    using spy_extends [of carter ?pl arsenal] by auto
  obtain vs where vs: "set vs \<subseteq> set BUY_PRIORITY"
    "extends carter vs (buy_spy carter arsenal ?pl) (buy_rounds carter (buy_spy carter arsenal ?pl))"
    "all_too_dear carter BUY_PRIORITY (buy_rounds carter (buy_spy carter arsenal ?pl))" using rounds_extend by blast
  have e: "extends carter (us @ vs) ?pl (buy_rounds carter (buy_spy carter arsenal ?pl))"
    by (rule extends_trans [OF us(1) vs(2)])
  then have r: "buy_rounds carter (buy_spy carter arsenal ?pl)
      = (funds - total carter (us @ vs), free_slots arsenal - int (length (us @ vs)), us @ vs)"
    by (simp add: extends_def)
  show thesis
  proof (rule that [OF _ us(2,3) vs(1) us(4)])
    show "buy_plan funds arsenal carter = us @ vs" by (simp add: buy_plan_def r)
    show "us @ vs \<noteq> [] \<longrightarrow> total carter (us @ vs) \<le> funds \<and> int (length (us @ vs)) \<le> free_slots arsenal"
      using e unfolding extends_def r by simp
    show "free_slots arsenal \<le> int (length (us @ vs)) \<or> (\<forall>t \<in> set BUY_PRIORITY. funds - total carter (us @ vs) < bot_price carter t)"
      using vs(3) unfolding all_too_dear_def r by simp
  qed
qed

lemma priority_classes: "t \<in> set BUY_PRIORITY \<Longrightarrow> wclass_of t \<in> {Garbage, Harass, Economy}"
  by (auto simp: BUY_PRIORITY_def)

lemma spy_classes: "t \<in> set spies \<Longrightarrow> wclass_of t = SpyClass"
  by (auto simp: spies_def)

text \<open>
  C40. What a bot plans to buy, whatever its funds and arsenal. A plan costs no more than the funds, at doubled prices under
  Carter, and has no more weapons than there are free slots; none of them helps the victim. A spy comes first, and only
  one, and it is there exactly when the bot holds none, has a free slot and can afford one of the three. The plan is
  greedy: it ends, and is empty, only with every slot used or with nothing on the priority list affordable.
\<close>

theorem bot_plan_within_means:
  defines "spent \<equiv> \<lambda>carter ts. sum_list (map (bot_price carter) ts)"
  assumes "ts = buy_plan funds arsenal carter"
  shows "(ts = [] \<or> spent carter ts \<le> funds) \<and> int (length ts) \<le> free_slots arsenal \<and>
    (\<forall>t \<in> set ts. wclass_of t \<noteq> Skip) \<and> (\<forall>t \<in> set (tl ts). wclass_of t \<noteq> SpyClass) \<and>
    ((\<exists>t \<in> set ts. wclass_of t = SpyClass) \<longleftrightarrow>
       \<not> arsenal_has_spy arsenal \<and> 0 < free_slots arsenal \<and> (\<exists>t \<in> {Ace, Ames, Condor}. bot_price carter t \<le> funds)) \<and>
    (int (length ts) = free_slots arsenal \<or> (\<forall>t \<in> set BUY_PRIORITY. funds - spent carter ts < bot_price carter t))"
proof -
  obtain us vs where q: "buy_plan funds arsenal carter = us @ vs" "set us \<subseteq> set spies" "length us \<le> 1" "set vs \<subseteq> set BUY_PRIORITY"
    "us \<noteq> [] \<longleftrightarrow> \<not> arsenal_has_spy arsenal \<and> 0 < free_slots arsenal \<and> (\<exists>t \<in> set spies. bot_price carter t \<le> funds)"
    "us @ vs \<noteq> [] \<longrightarrow> total carter (us @ vs) \<le> funds \<and> int (length (us @ vs)) \<le> free_slots arsenal"
    "free_slots arsenal \<le> int (length (us @ vs)) \<or> (\<forall>t \<in> set BUY_PRIORITY. funds - total carter (us @ vs) < bot_price carter t)"
    by (rule buy_plan_parts)
  have ts: "us @ vs = ts" using q(1) assms(2) by simp
  have us: "us = [] \<or> (\<exists>t. us = [t] \<and> wclass_of t = SpyClass)"
    using q(2,3) spy_classes by (cases us) auto
  have vs: "wclass_of t \<noteq> Skip" "wclass_of t \<noteq> SpyClass" if "t \<in> set vs" for t using priority_classes [of t] q(4) that by auto
  have "(\<exists>t \<in> set ts. wclass_of t = SpyClass) \<longleftrightarrow> us \<noteq> []" "\<forall>t \<in> set ts. wclass_of t \<noteq> Skip" "\<forall>t \<in> set (tl ts). wclass_of t \<noteq> SpyClass"
    using us vs by (cases vs; auto simp: ts [symmetric])+
  moreover have "(\<exists>t \<in> set spies. bot_price carter t \<le> funds) = (\<exists>t \<in> {Ace, Ames, Condor}. bot_price carter t \<le> funds)"
    by (simp add: spies_def)
  moreover have "0 \<le> free_slots arsenal" by (simp add: free_slots_def)
  ultimately show ?thesis using q(5-7) by (cases "ts = []") (auto simp: total_def spent_def ts)
qed

theorem bot_plan_within_means_witness:
  "\<exists>ts. ts = buy_plan 400 (replicate 10 (- 1)) False \<and> (\<exists>t \<in> set ts. wclass_of t = SpyClass) \<and>
     sum_list (map (bot_price False) ts) \<le> 400 \<and> buy_plan 400 (replicate 10 3) False = []"
proof -
  have s: "\<not> arsenal_has_spy (replicate 10 (- 1)) \<and> bot_price False Ames \<le> 400 \<and> free_slots (replicate 10 (- 1)) = 10 \<and>
      free_slots (replicate 10 3) = 0"
    by code_simp
  then show ?thesis
    using bot_plan_within_means [OF refl, of 400 "replicate 10 (- 1)" False] bot_plan_within_means [OF refl, of 400 "replicate 10 3" False]
    by auto
qed

subsection \<open>What is launched\<close>

lemma find_class_slot:
  "find_class arsenal c = Some i \<Longrightarrow> i < length arsenal \<and> map_option wclass_of (token_from_index (arsenal ! i)) = Some c"
  by (auto simp: find_class_def find_Some_iff)

lemma first_of_mem: "first_of xs = Some s \<Longrightarrow> Some s \<in> set xs"
  by (induction xs) (auto split: option.splits)

text \<open>A launch is of a weapon in the arsenal that does not help the victim, and a spy only while none is active.\<close>

lemma launch_choice_slot:
  assumes "launch_choice arsenal spy_active opp_high = Some i"
  shows "i < length arsenal \<and> (\<exists>t. token_from_index (arsenal ! i) = Some t \<and> wclass_of t \<noteq> Skip \<and> (spy_active \<longrightarrow> wclass_of t \<noteq> SpyClass))"
proof -
  obtain c where "find_class arsenal c = Some i" "c \<noteq> Skip" "spy_active \<longrightarrow> c \<noteq> SpyClass"
    using assms by (auto simp: launch_choice_def split: option.splits if_splits dest!: first_of_mem)
  then show ?thesis using find_class_slot by fastforce
qed

end
