(* ===== verification/Ratings.thy ===== *)
theory Ratings
  imports Doubles
begin

section \<open>Ratings\<close>

text \<open>
  \<open>bt-trueskill/src\<close>: \<open>math.rs\<close> (the normal distribution), \<open>lib.rs\<close> (the classic two-player update) and
  \<open>ts2.rs\<close> (the update the server settles a match with). Every operation is rounded to double precision
  as the code has it. The square root of IEEE 754 is the exactly rounded one; the precision of Rust's
  \<open>exp\<close> and \<open>ln\<close> is not specified, so the two are the record \<open>libm\<close>, an argument.
\<close>

record libm =
  lm_exp :: "f64 \<Rightarrow> f64"
  lm_ln :: "f64 \<Rightarrow> f64"

subsection \<open>Square root and rounding to an integer\<close>

fun isqrt :: "int \<Rightarrow> int" where
  "isqrt n = (if n \<le> 0 then 0 else
     let r = 2 * isqrt (n div 4) in if (r + 1) * (r + 1) \<le> n then r + 1 else r)"

declare isqrt.simps [simp del]

definition fsqrt :: "f64 \<Rightarrow> f64" where
  "fsqrt q =
     (if q \<le> 0 then 0
      else let (n, d) = quotient_of q;
               k = 60 + bit_len d;
               m = n * 4 ^ k div d;
               s = isqrt m;
               exact = (n * 4 ^ k mod d = 0 \<and> s * s = m)
           in of_int (round53 (2 * s + (if exact then 0 else 1))) / 2 ^ (k + 1))"

text \<open>\<open>f64::round\<close>: half away from zero.\<close>

definition round_away :: "f64 \<Rightarrow> int" where
  "round_away x = (if 0 \<le> x then \<lfloor>x + 1 / 2\<rfloor> else - \<lfloor>- x + 1 / 2\<rfloor>)"

lemma isqrt_bounds: "0 \<le> n \<Longrightarrow> 0 \<le> isqrt n \<and> isqrt n * isqrt n \<le> n \<and> n < (isqrt n + 1) * (isqrt n + 1)"
proof (induction n rule: isqrt.induct)
  case (1 n)
  show ?case
  proof (cases "n \<le> 0")
    case True
    then show ?thesis using 1(2) by (simp add: isqrt.simps)
  next
    case False
    define s where "s = isqrt (n div 4)"
    have s: "0 \<le> s" "s * s \<le> n div 4" "n div 4 < (s + 1) * (s + 1)"
      using 1(1) [OF False] 1(2) by (simp_all add: s_def)
    have "n div 4 + 1 \<le> (s + 1) * (s + 1)" using s(3) by linarith
    then have "n < 4 * ((s + 1) * (s + 1))" "4 * (s * s) \<le> n" using s(2) by linarith+
    then have "n < (2 * s + 2) * (2 * s + 2)" "2 * s * (2 * s) \<le> n" by (simp_all add: algebra_simps)
    moreover have "isqrt n = (if (2 * s + 1) * (2 * s + 1) \<le> n then 2 * s + 1 else 2 * s)"
      using False by (subst isqrt.simps) (simp add: s_def Let_def)
    ultimately show ?thesis using s(1) by (simp add: add.assoc)
  qed
qed

lemma round53_pos: "0 < z \<Longrightarrow> 0 < round53 z"
  using round53_rel [of z] by (cases "0 < round53 z") auto

lemma fsqrt_pos:
  assumes "0 < q" shows "0 < fsqrt q"
proof -
  obtain n d where nd: "quotient_of q = (n, d)" by fastforce
  then have d: "0 < d" and q: "q = of_int n / of_int d"
    using quotient_of_denom_pos quotient_of_div by blast+
  have n: "0 < n" using assms d by (simp add: q zero_less_divide_iff)
  let ?k = "60 + bit_len d"
  have "d < 2 ^ bit_len d" using bit_len_lt [of d] d by simp
  also have "\<dots> \<le> 4 ^ ?k" by (rule order_trans [OF power_increasing [of _ ?k]]) (auto intro: power_mono)
  also have "\<dots> \<le> n * 4 ^ ?k" using n by simp
  finally have "d \<le> n * 4 ^ ?k" by simp
  then have "d div d \<le> n * 4 ^ ?k div d" using d by (rule zdiv_mono1)
  then have m: "1 \<le> n * 4 ^ ?k div d" using d by simp
  have "0 < isqrt (n * 4 ^ ?k div d)"
  proof (rule ccontr)
    assume "\<not> 0 < isqrt (n * 4 ^ ?k div d)"
    then have "isqrt (n * 4 ^ ?k div d) = 0" using isqrt_bounds [of "n * 4 ^ ?k div d"] m by linarith
    then show False using isqrt_bounds [of "n * 4 ^ ?k div d"] m by simp
  qed
  then have "0 < round53 (2 * isqrt (n * 4 ^ ?k div d) + e)" if "0 \<le> e" for e
    using that by (intro round53_pos) linarith
  then show ?thesis using assms nd by (simp add: fsqrt_def Let_def)
qed

subsection \<open>The normal distribution\<close>

definition PI64 :: f64 where "PI64 = 884279719003555 / 281474976710656"
definition SQRT2_64 :: f64 where "SQRT2_64 = 6369051672525773 / 4503599627370496"

definition pdf :: "libm \<Rightarrow> f64 \<Rightarrow> f64" where
  "pdf M x = fdiv (lm_exp M (fdiv (- fmul x x) 2)) (fsqrt (fmul 2 PI64))"

text \<open>Nested polynomials, from the inside and from the outside.\<close>

fun horner_in :: "f64 \<Rightarrow> f64 list \<Rightarrow> f64" where
  "horner_in t [] = 0"
| "horner_in t [c] = c"
| "horner_in t (c # cs) = fadd c (fmul t (horner_in t cs))"

definition horner_out :: "f64 \<Rightarrow> f64 \<Rightarrow> f64 list \<Rightarrow> f64" where
  "horner_out q c cs = foldl (\<lambda>acc c. fadd (fmul acc q) c) c cs"

definition ERFC_C :: "f64 list" where
  "ERFC_C = map (\<lambda>n. r64 (of_int n / 10 ^ 8))
     [100002368, 37409196, 9678418, -18628806, 27886807, -113520398, 148851587, -82215223, 17087277]"

definition erfc :: "libm \<Rightarrow> f64 \<Rightarrow> f64" where
  "erfc M x =
     (let z = \<bar>x\<bar>;
          t = fdiv 1 (fadd 1 (fmul (1 / 2) z));
          ans = fmul t (lm_exp M (fadd (fsub (fmul (- z) z) (r64 (126551223 / 10 ^ 8))) (fmul t (horner_in t ERFC_C))))
      in if x \<ge> 0 then ans else fsub 2 ans)"

definition cdf :: "libm \<Rightarrow> f64 \<Rightarrow> f64" where
  "cdf M x = fmul (1 / 2) (erfc M (fdiv (- x) SQRT2_64))"

definition PROBIT_A :: "f64 list" where
  "PROBIT_A = map r64 [-(3969683028665376 / 10 ^ 14), 2209460984245205 / 10 ^ 13, -(2759285104469687 / 10 ^ 13),
     138357751867269 / 10 ^ 12, -(3066479806614716 / 10 ^ 14), 2506628277459239 / 10 ^ 15]"

definition PROBIT_B :: "f64 list" where
  "PROBIT_B = map r64 [-(5447609879822406 / 10 ^ 14), 1615858368580409 / 10 ^ 13, -(1556989798598866 / 10 ^ 13),
     6680131188771972 / 10 ^ 14, -(1328068155288572 / 10 ^ 14)]"

definition PROBIT_C :: "f64 list" where
  "PROBIT_C = map r64 [-(7784894002430293 / 10 ^ 18), -(3223964580411365 / 10 ^ 16), -(2400758277161838 / 10 ^ 15),
     -(2549732539343734 / 10 ^ 15), 4374664141464968 / 10 ^ 15, 2938163982698783 / 10 ^ 15]"

definition PROBIT_D :: "f64 list" where
  "PROBIT_D = map r64 [7784695709041462 / 10 ^ 18, 3224671290700398 / 10 ^ 16, 2445134137142996 / 10 ^ 15,
     3754408661907416 / 10 ^ 15]"

definition P_LOW :: f64 where "P_LOW = r64 (2425 / 100000)"
definition P_HIGH :: f64 where "P_HIGH = fsub 1 P_LOW"

text \<open>
  The inverse of the distribution function for \<open>0 < p < 1\<close>. Outside it the code returns an infinity, which no
  caller reaches: the draw probability is always the default.
\<close>

definition inv_cdf :: "libm \<Rightarrow> f64 \<Rightarrow> f64" where
  "inv_cdf M p =
     (if p < P_LOW then
        (let q = fsqrt (fmul (- 2) (lm_ln M p))
         in fdiv (horner_out q (hd PROBIT_C) (tl PROBIT_C)) (horner_out q (hd PROBIT_D) (tl PROBIT_D @ [1])))
      else if p \<le> P_HIGH then
        (let q = fsub p (1 / 2); r = fmul q q
         in fdiv (fmul (horner_out r (hd PROBIT_A) (tl PROBIT_A)) q) (horner_out r (hd PROBIT_B) (tl PROBIT_B @ [1])))
      else
        (let q = fsqrt (fmul (- 2) (lm_ln M (fsub 1 p)))
         in fdiv (- horner_out q (hd PROBIT_C) (tl PROBIT_C)) (horner_out q (hd PROBIT_D) (tl PROBIT_D @ [1]))))"

definition TINY :: f64 where "TINY = r64 (1 / 10 ^ 300)"

definition clamp01 :: "f64 \<Rightarrow> f64" where
  "clamp01 w = (if w < 0 then 0 else if w > 1 then 1 else w)"

definition v_win :: "libm \<Rightarrow> f64 \<Rightarrow> f64 \<Rightarrow> f64" where
  "v_win M t e =
     (let x = fsub t e; denom = cdf M x in if denom < TINY then - x else fdiv (pdf M x) denom)"

definition w_win :: "libm \<Rightarrow> f64 \<Rightarrow> f64 \<Rightarrow> f64" where
  "w_win M t e = (let x = fsub t e; v = v_win M t e in clamp01 (fmul v (fadd v x)))"

definition v_draw :: "libm \<Rightarrow> f64 \<Rightarrow> f64 \<Rightarrow> f64" where
  "v_draw M t e =
     (let denom = fsub (cdf M (fsub e t)) (cdf M (fsub (- e) t));
          numer = fsub (pdf M (fsub (- e) t)) (pdf M (fsub e t))
      in if denom < TINY then (if t < 0 then fsub (- t) e else fadd (- t) e) else fdiv numer denom)"

definition w_draw :: "libm \<Rightarrow> f64 \<Rightarrow> f64 \<Rightarrow> f64" where
  "w_draw M t e =
     (let denom = fsub (cdf M (fsub e t)) (cdf M (fsub (- e) t));
          v = v_draw M t e
      in if denom < TINY then 1
         else clamp01 (fadd (fmul v v)
                (fdiv (fsub (fmul (fsub e t) (pdf M (fsub e t))) (fmul (fsub (- e) t) (pdf M (fsub (- e) t)))) denom)))"

subsection \<open>Ratings and the classic update\<close>

record rating =
  rt_mu :: f64
  rt_sigma :: f64

definition variance :: "rating \<Rightarrow> f64" where
  "variance r = fmul (rt_sigma r) (rt_sigma r)"

definition conservative :: "f64 \<Rightarrow> rating \<Rightarrow> f64" where
  "conservative k r = fsub (rt_mu r) (fmul k (rt_sigma r))"

record ts_params =
  tp_mu0 :: f64
  tp_sigma0 :: f64
  tp_beta :: f64
  tp_tau :: f64
  tp_draw_probability :: f64

definition ts_params_default :: ts_params where
  "ts_params_default =
     (let sigma0 = fdiv 25 3
      in \<lparr>tp_mu0 = 25, tp_sigma0 = sigma0, tp_beta = fdiv sigma0 2, tp_tau = fdiv sigma0 100, tp_draw_probability = r64 (1 / 10)\<rparr>)"

definition new_rating :: "ts_params \<Rightarrow> rating" where
  "new_rating p = \<lparr>rt_mu = tp_mu0 p, rt_sigma = tp_sigma0 p\<rparr>"

definition draw_margin :: "libm \<Rightarrow> ts_params \<Rightarrow> f64" where
  "draw_margin M p = fmul (fmul (inv_cdf M (fdiv (fadd (tp_draw_probability p) 1) 2)) SQRT2_64) (tp_beta p)"

definition VAR_FLOOR :: f64 where "VAR_FLOOR = r64 (1 / 10 ^ 9)"

definition update_rating :: "f64 \<Rightarrow> f64 \<Rightarrow> f64 \<Rightarrow> f64 \<Rightarrow> f64 \<Rightarrow> f64 \<Rightarrow> rating" where
  "update_rating mu var c v w sgn64 =
     (let mean_mult = fdiv var c;
          var_mult = fdiv var (fmul c c);
          new_mu = fadd mu (fmul (fmul sgn64 mean_mult) v);
          new_var = fmul var (fsub 1 (fmul var_mult w));
          new_var = (if new_var < VAR_FLOOR then VAR_FLOOR else new_var)
      in \<lparr>rt_mu = new_mu, rt_sigma = fsqrt new_var\<rparr>)"

definition two_beta2 :: "ts_params \<Rightarrow> f64" where
  "two_beta2 p = fmul (fmul 2 (tp_beta p)) (tp_beta p)"

definition rate_1v1 :: "libm \<Rightarrow> rating \<Rightarrow> rating \<Rightarrow> ts_params \<Rightarrow> rating \<times> rating" where
  "rate_1v1 M winner loser p =
     (let sw2 = fadd (variance winner) (fmul (tp_tau p) (tp_tau p));
          sl2 = fadd (variance loser) (fmul (tp_tau p) (tp_tau p));
          c = fsqrt (fadd (fadd (two_beta2 p) sw2) sl2);
          eps = draw_margin M p;
          t = fdiv (fsub (rt_mu winner) (rt_mu loser)) c;
          e = fdiv eps c;
          v = v_win M t e; w = w_win M t e
      in (update_rating (rt_mu winner) sw2 c v w 1, update_rating (rt_mu loser) sl2 c v w (- 1)))"

definition rate_1v1_draw :: "libm \<Rightarrow> rating \<Rightarrow> rating \<Rightarrow> ts_params \<Rightarrow> rating \<times> rating" where
  "rate_1v1_draw M a b p =
     (let sa2 = fadd (variance a) (fmul (tp_tau p) (tp_tau p));
          sb2 = fadd (variance b) (fmul (tp_tau p) (tp_tau p));
          c = fsqrt (fadd (fadd (two_beta2 p) sa2) sb2);
          eps = draw_margin M p;
          t = fdiv (fsub (rt_mu a) (rt_mu b)) c;
          e = fdiv eps c;
          v = v_draw M t e; w = w_draw M t e
      in (update_rating (rt_mu a) sa2 c v w 1, update_rating (rt_mu b) sb2 c v w (- 1)))"

definition quality_1v1 :: "libm \<Rightarrow> rating \<Rightarrow> rating \<Rightarrow> ts_params \<Rightarrow> f64" where
  "quality_1v1 M a b p =
     (let denom = fadd (fadd (two_beta2 p) (variance a)) (variance b);
          dmu = fsub (rt_mu a) (rt_mu b)
      in fmul (fsqrt (fdiv (two_beta2 p) denom)) (lm_exp M (fdiv (- fmul dmu dmu) (fmul 2 denom))))"

subsection \<open>The update of a settled match\<close>

datatype winner = Won_A | Won_B | Draw

record match_outcome =
  mo_winner :: winner
  mo_a_lines :: u32
  mo_b_lines :: u32
  mo_a_quit :: bool
  mo_b_quit :: bool

record player_state =
  ps_rating :: rating
  ps_experience :: u32

definition player_state_new :: "rating \<Rightarrow> player_state" where
  "player_state_new r = \<lparr>ps_rating = r, ps_experience = 0\<rparr>"

record ts2_params =
  t2_base :: ts_params
  t2_perf_lambda :: f64
  t2_lines_obs_var :: f64
  t2_experience_bump :: f64
  t2_experience_k :: f64
  t2_quit_penalty :: f64

definition ts2_params_default :: ts2_params where
  "ts2_params_default =
     \<lparr>t2_base = ts_params_default, t2_perf_lambda = 1 / 2, t2_lines_obs_var = 256, t2_experience_bump = r64 (3 / 10),
      t2_experience_k = 30, t2_quit_penalty = r64 (2 / 10)\<rparr>"

definition experience_offset :: "libm \<Rightarrow> ts2_params \<Rightarrow> u32 \<Rightarrow> f64" where
  "experience_offset M p experience =
     (if t2_experience_k p \<le> 0 then 0
      else fmul (t2_experience_bump p) (lm_exp M (fdiv (- of_int (uint experience)) (t2_experience_k p))))"

definition effective_winner :: "match_outcome \<Rightarrow> winner" where
  "effective_winner o1 =
     (case (mo_a_quit o1, mo_b_quit o1) of
        (True, True) \<Rightarrow> Draw | (True, False) \<Rightarrow> Won_B | (False, True) \<Rightarrow> Won_A | (False, False) \<Rightarrow> mo_winner o1)"

definition rate_decisive :: "libm \<Rightarrow> rating \<Rightarrow> rating \<Rightarrow> f64 \<Rightarrow> ts2_params \<Rightarrow> rating \<times> rating" where
  "rate_decisive M winner loser z p =
     (let base = t2_base p;
          tau2 = fmul (tp_tau base) (tp_tau base);
          sw2 = fadd (variance winner) tau2;
          sl2 = fadd (variance loser) tau2;
          cc = fadd (fadd sw2 sl2) (two_beta2 base);
          mu_d = fsub (rt_mu winner) (rt_mu loser);
          eps = draw_margin M base;
          kw = sw2; kl = - sl2;
          lambda = t2_perf_lambda p;
          r = max (t2_lines_obs_var p) VAR_FLOOR;
          d_den = fadd (fmul (fmul lambda lambda) cc) r;
          g = fdiv (fmul lambda (fsub z (fmul lambda mu_d))) d_den;
          mu_z = fadd mu_d (fmul cc g);
          mw_z = fadd (rt_mu winner) (fmul kw g);
          ml_z = fadd (rt_mu loser) (fmul kl g);
          cc_z = fdiv (fmul cc r) d_den;
          sw_z = fsub sw2 (fdiv (fmul (fmul (fmul kw kw) lambda) lambda) d_den);
          sl_z = fsub sl2 (fdiv (fmul (fmul (fmul kl kl) lambda) lambda) d_den);
          kw_z = fdiv (fmul kw r) d_den;
          kl_z = fdiv (fmul kl r) d_den;
          sc = fsqrt cc_z;
          t = fdiv mu_z sc;
          e = fdiv eps sc;
          v = v_win M t e; w = w_win M t e;
          mw_new = fadd mw_z (fmul (fdiv kw_z sc) v);
          ml_new = fadd ml_z (fmul (fdiv kl_z sc) v);
          sw_new = max (fsub sw_z (fmul (fdiv (fmul kw_z kw_z) cc_z) w)) VAR_FLOOR;
          sl_new = max (fsub sl_z (fmul (fdiv (fmul kl_z kl_z) cc_z) w)) VAR_FLOOR
      in (\<lparr>rt_mu = mw_new, rt_sigma = fsqrt sw_new\<rparr>, \<lparr>rt_mu = ml_new, rt_sigma = fsqrt sl_new\<rparr>))"

definition line_margin :: "u32 \<Rightarrow> u32 \<Rightarrow> f64" where
  "line_margin mine theirs = fsub (of_int (uint mine)) (of_int (uint theirs))"

definition quit_nudge :: "ts2_params \<Rightarrow> bool \<Rightarrow> rating \<Rightarrow> rating" where
  "quit_nudge p quits r = (if quits then r\<lparr>rt_mu := fsub (rt_mu r) (fmul (t2_quit_penalty p) (rt_sigma r))\<rparr> else r)"

definition after_match :: "libm \<Rightarrow> ts2_params \<Rightarrow> player_state \<Rightarrow> rating \<Rightarrow> player_state" where
  "after_match M p s r =
     \<lparr>ps_rating = r\<lparr>rt_mu := fadd (rt_mu r) (experience_offset M p (ps_experience s))\<rparr>, ps_experience = ps_experience s + 1\<rparr>"

definition rate_match ::
    "libm \<Rightarrow> player_state \<Rightarrow> player_state \<Rightarrow> match_outcome \<Rightarrow> ts2_params \<Rightarrow> player_state \<times> player_state" where
  "rate_match M a b o1 p =
     (let (ra, rb) = (case effective_winner o1 of
            Won_A \<Rightarrow> rate_decisive M (ps_rating a) (ps_rating b) (line_margin (mo_a_lines o1) (mo_b_lines o1)) p
          | Won_B \<Rightarrow>
              (let (w, l) = rate_decisive M (ps_rating b) (ps_rating a) (line_margin (mo_b_lines o1) (mo_a_lines o1)) p
               in (l, w))
          | Draw \<Rightarrow> rate_1v1_draw M (ps_rating a) (ps_rating b) (t2_base p))
      in (after_match M p a (quit_nudge p (mo_a_quit o1) ra), after_match M p b (quit_nudge p (mo_b_quit o1) rb)))"

definition match_quality :: "libm \<Rightarrow> player_state \<Rightarrow> player_state \<Rightarrow> ts2_params \<Rightarrow> f64" where
  "match_quality M a b p = quality_1v1 M (ps_rating a) (ps_rating b) (t2_base p)"

subsection \<open>What a settlement does\<close>

text \<open>A match seen from the other seat.\<close>

definition mirror_outcome :: "match_outcome \<Rightarrow> match_outcome" where
  "mirror_outcome o1 =
     \<lparr>mo_winner = (case mo_winner o1 of Won_A \<Rightarrow> Won_B | Won_B \<Rightarrow> Won_A | Draw \<Rightarrow> Draw), mo_a_lines = mo_b_lines o1,
      mo_b_lines = mo_a_lines o1, mo_a_quit = mo_b_quit o1, mo_b_quit = mo_a_quit o1\<rparr>"

lemma effective_winner_mirror:
  "effective_winner (mirror_outcome o1) = (case effective_winner o1 of Won_A \<Rightarrow> Won_B | Won_B \<Rightarrow> Won_A | Draw \<Rightarrow> Draw)"
  by (auto simp: effective_winner_def mirror_outcome_def split: bool.split)

lemma VAR_FLOOR_pos [simp]: "0 < VAR_FLOOR"
  by code_simp

lemma rate_decisive_sigma:
  "0 < rt_sigma (fst (rate_decisive M w l z p))" "0 < rt_sigma (snd (rate_decisive M w l z p))"
  by (simp_all add: rate_decisive_def Let_def fsqrt_pos less_max_iff_disj)

lemma update_rating_sigma: "0 < rt_sigma (update_rating mu var c v w sgn64)"
proof -
  have "0 < (if x < VAR_FLOOR then VAR_FLOOR else x)" for x :: f64
    by (auto simp: not_less intro: less_le_trans [OF VAR_FLOOR_pos])
  then show ?thesis by (simp add: update_rating_def Let_def fsqrt_pos del: if_split)
qed

lemma rate_1v1_draw_sigma:
  "0 < rt_sigma (fst (rate_1v1_draw M a b p))" "0 < rt_sigma (snd (rate_1v1_draw M a b p))"
  by (simp_all add: rate_1v1_draw_def Let_def update_rating_sigma)

lemma after_match_simps [simp]:
  "rt_sigma (ps_rating (after_match M p s r)) = rt_sigma r" "ps_experience (after_match M p s r) = ps_experience s + 1"
  "rt_sigma (quit_nudge p q r) = rt_sigma r"
  by (simp_all add: after_match_def quit_nudge_def)

subsection \<open>How far rounding can raise an uncertainty\<close>

lemma r64_up: "0 \<le> q \<Longrightarrow> r64 q \<le> q * (1 + 1 / 2 ^ 51)"
  using r64_near [of q] by (simp add: abs_if algebra_simps split: if_splits)

lemma r64_pos: "0 < q \<Longrightarrow> 0 < r64 q"
proof -
  assume q: "0 < q"
  then have "q - q / 2 ^ 51 \<le> r64 q" using r64_near [of q] by (auto simp: abs_if split: if_splits)
  moreover have "0 < q - q / 2 ^ 51" using q by simp
  ultimately show ?thesis by linarith
qed

lemma r64_neg: "q < 0 \<Longrightarrow> r64 q < 0"
proof -
  assume q: "q < 0"
  then have "r64 q \<le> q - q / 2 ^ 51" using r64_near [of q] by (auto simp: abs_if split: if_splits)
  moreover have "q - q / 2 ^ 51 < 0" using q by simp
  ultimately show ?thesis by linarith
qed

lemma r64_nonneg [simp]: "0 \<le> r64 q \<longleftrightarrow> 0 \<le> q"
  using r64_pos [of q] r64_neg [of q] by (cases "0 < q"; cases "q < 0"; force)

text \<open>Rounding up by at most one part in 2 to the 51, and never away from a negative value.\<close>

lemma fsub_up: "0 \<le> y \<Longrightarrow> fsub x y \<le> max 0 x * (1 + 1 / 2 ^ 51)"
proof (cases "0 \<le> x - y")
  case True
  assume y: "0 \<le> y"
  have "r64 (x - y) \<le> (x - y) * (1 + 1 / 2 ^ 51)" by (rule r64_up [OF True])
  also have "\<dots> \<le> max 0 x * (1 + 1 / 2 ^ 51)" using y by (intro mult_right_mono) auto
  finally show ?thesis by (simp add: fsub_def)
next
  case False
  then have "r64 (x - y) < 0" by (intro r64_neg) simp
  moreover have "0 \<le> max 0 x * (1 + 1 / 2 ^ 51)" by simp
  ultimately show ?thesis unfolding fsub_def by linarith
qed

lemma fsqrt_up: "0 \<le> q \<Longrightarrow> fsqrt q * fsqrt q \<le> q * (1 + 1 / 2 ^ 48)"
proof (cases "q = 0")
  case False
  assume "0 \<le> q"
  then have pos: "0 < q" using False by simp
  obtain n d where nd: "quotient_of q = (n, d)" by fastforce
  then have d: "0 < d" and q: "q = of_int n / of_int d"
    using quotient_of_denom_pos quotient_of_div by blast+
  have n: "0 < n" using pos d by (simp add: q zero_less_divide_iff)
  define k where "k = 60 + bit_len d"
  define m where "m = n * 4 ^ k div d"
  define s where "s = isqrt m"
  define z where "z = 2 * s + (if n * 4 ^ k mod d = 0 \<and> s * s = m then 0 else 1)"
  have "d < 2 ^ bit_len d" using bit_len_lt [of d] d by simp
  then have "2 ^ 120 * d \<le> 2 ^ 120 * 2 ^ bit_len d" by simp
  also have "\<dots> \<le> 2 ^ 120 * 4 ^ bit_len d" by (intro mult_left_mono power_mono) auto
  also have "\<dots> = (4 :: int) ^ k" by (simp add: k_def power_add)
  also have "\<dots> \<le> n * 4 ^ k" using n by simp
  finally have "2 ^ 120 * d div d \<le> m" unfolding m_def by (rule zdiv_mono1) (rule d)
  then have m: "2 ^ 120 \<le> m" using d by simp
  then have s: "0 \<le> s" "s * s \<le> m" "m < (s + 1) * (s + 1)" using isqrt_bounds [of m] by (simp_all add: s_def)
  have big: "2 ^ 59 \<le> s"
  proof (rule ccontr)
    assume "\<not> 2 ^ 59 \<le> s"
    then have "(s + 1) * (s + 1) \<le> 2 ^ 59 * 2 ^ 59" using s(1) by (intro mult_mono) auto
    then show False using s(3) m by simp
  qed
  have z: "0 < z" "z \<le> 2 * s + 1" using big by (auto simp: z_def)
  have "2 ^ 53 * \<bar>round53 z - z\<bar> \<le> z" by (rule round53_rel [OF z(1)])
  then have "2 ^ 53 * round53 z \<le> (2 ^ 53 + 1) * z" by (auto simp: abs_if split: if_splits)
  also have "\<dots> \<le> (2 ^ 53 + 1) * (2 * s + 1)" using z(2) by simp
  also have "\<dots> \<le> (2 ^ 53 + 4) * (2 * s)" using big by simp
  finally have r: "2 ^ 53 * round53 z \<le> (2 ^ 53 + 4) * (2 * s)" .
  define R :: rat where "R = of_int (round53 z)"
  define S :: rat where "S = of_int s"
  have "of_int (2 ^ 53 * round53 z) \<le> (of_int ((2 ^ 53 + 4) * (2 * s)) :: rat)" using r by (simp only: of_int_le_iff)
  then have R: "R \<le> (1 + 1 / 2 ^ 51) * (2 * S)" by (simp add: R_def S_def field_simps)
  have R0: "0 \<le> R" using round53_pos [OF z(1)] by (simp add: R_def)
  have "S * S \<le> of_int m" unfolding S_def using s(2) by (metis of_int_le_iff of_int_mult)
  also have "of_int m \<le> (of_int (n * 4 ^ k) / of_int d :: rat)"
    proof -
    have "m * d \<le> n * 4 ^ k" unfolding m_def using d by (metis div_mult_mod_eq le_add_same_cancel1 pos_mod_sign)
    then have "of_int (m * d) \<le> (of_int (n * 4 ^ k) :: rat)" by (simp only: of_int_le_iff)
    then show ?thesis using d by (simp add: pos_le_divide_eq)
  qed
  also have "\<dots> = q * 4 ^ k" by (simp add: q)
  finally have S: "S * S \<le> q * 4 ^ k" .
  have "R * R \<le> ((1 + 1 / 2 ^ 51) * (2 * S)) * ((1 + 1 / 2 ^ 51) * (2 * S))"
    using R R0 by (intro mult_mono) auto
  also have "\<dots> = ((1 + 1 / 2 ^ 51) * (1 + 1 / 2 ^ 51) * 4) * (S * S)" by (simp add: ac_simps)
  also have "\<dots> \<le> ((1 + 1 / 2 ^ 51) * (1 + 1 / 2 ^ 51) * 4) * (q * 4 ^ k)" using S by (intro mult_left_mono) auto
  finally have RR: "R * R / 4 ^ (k + 1) \<le> ((1 + 1 / 2 ^ 51) * (1 + 1 / 2 ^ 51)) * q" by (simp add: field_simps)
  have "fsqrt q = R / 2 ^ (k + 1)"
    using pos nd by (simp add: fsqrt_def Let_def R_def z_def s_def m_def k_def power_add)
  then have "fsqrt q * fsqrt q = R / 2 ^ (k + 1) * (R / 2 ^ (k + 1))" by (simp only:)
  also have "\<dots> = R * R / (2 ^ (k + 1) * 2 ^ (k + 1))" by (rule times_divide_times_eq)
  also have "2 ^ (k + 1) * 2 ^ (k + 1) = (4 :: rat) ^ (k + 1)" unfolding power_mult_distrib [symmetric] by simp
  also note RR
  also have "((1 + 1 / 2 ^ 51) * (1 + 1 / 2 ^ 51)) * q \<le> (1 + 1 / 2 ^ 48) * q"
    using pos by (intro mult_right_mono) auto
  finally show ?thesis by (simp only: mult.commute)
qed (simp add: fsqrt_def)

lemma fops_nonneg:
  "0 \<le> x \<Longrightarrow> 0 \<le> y \<Longrightarrow> 0 \<le> fadd x y" "0 \<le> x \<Longrightarrow> 0 \<le> y \<Longrightarrow> 0 \<le> fmul x y" "0 \<le> x \<Longrightarrow> 0 \<le> y \<Longrightarrow> 0 \<le> fdiv x y"
  "0 \<le> fmul x x"
  by (simp_all add: fadd_def fmul_def fdiv_def)

lemma square_up: "fmul x x \<le> x * x * (1 + 1 / 2 ^ 51)"
  unfolding fmul_def by (rule r64_up) simp

lemma sum_up:
  assumes "0 \<le> x" "0 \<le> y" "x \<le> a * (1 + 1 / 2 ^ 51)" "y \<le> b * (1 + 1 / 2 ^ 51)"
  shows "fadd x y \<le> (a + b) * (1 + 1 / 2 ^ 51) * (1 + 1 / 2 ^ 51)"
proof -
  have "fadd x y \<le> (x + y) * (1 + 1 / 2 ^ 51)" unfolding fadd_def using assms(1,2) by (intro r64_up) simp
  also have "\<dots> \<le> ((a + b) * (1 + 1 / 2 ^ 51)) * (1 + 1 / 2 ^ 51)"
    using assms(3,4) by (intro mult_right_mono) (simp_all add: algebra_simps)
  finally show ?thesis .
qed

lemma clamp01_nonneg [simp]: "0 \<le> clamp01 w"
  by (simp add: clamp01_def)

lemma spread_up:
  assumes "x = fadd (fmul s s) (fmul t t)" "0 \<le> y" "0 \<le> z" "n = max (fsub (fsub x y) z) VAR_FLOOR"
  shows "fsqrt n * fsqrt n \<le> max (s * s + t * t) (1 / 10 ^ 9) * (1 + 1 / 2 ^ 47)"
proof -
  let ?e = "1 + 1 / 2 ^ 51 :: rat" and ?v = "s * s + t * t"
  have x: "0 \<le> x" "x \<le> ?v * ?e * ?e" unfolding assms(1)
    by (rule fops_nonneg(1) [OF fops_nonneg(4) fops_nonneg(4)], rule sum_up [OF fops_nonneg(4) fops_nonneg(4) square_up square_up])
  have v: "0 \<le> ?v" by simp
  have "fsub x y \<le> x * ?e" using fsub_up [OF assms(2), of x] x(1) by (simp add: max_absorb2)
  also have "\<dots> \<le> ?v * ?e * ?e * ?e" using x(2) by (intro mult_right_mono) auto
  finally have "fsub x y \<le> ?v * ?e * ?e * ?e" .
  moreover have "0 \<le> ?v * ?e * ?e * ?e" using v by (intro mult_nonneg_nonneg) auto
  ultimately have y: "max 0 (fsub x y) \<le> ?v * ?e * ?e * ?e" by (rule max.boundedI [rotated])
  have "fsub (fsub x y) z \<le> max 0 (fsub x y) * ?e" by (rule fsub_up [OF assms(3)])
  also have "\<dots> \<le> ?v * ?e * ?e * ?e * ?e" using y by (intro mult_right_mono) auto
  also have "\<dots> = ?v * (?e * ?e * ?e * ?e)" by (simp only: mult.assoc)
  also have "\<dots> \<le> max ?v (1 / 10 ^ 9) * (?e * ?e * ?e * ?e)" by (intro mult_right_mono) auto
  finally have a: "fsub (fsub x y) z \<le> max ?v (1 / 10 ^ 9) * (?e * ?e * ?e * ?e)" .
  have "VAR_FLOOR \<le> 1 / 10 ^ 9 * ?e" unfolding VAR_FLOOR_def by (rule r64_up) simp
  also have "\<dots> \<le> max ?v (1 / 10 ^ 9) * (?e * ?e * ?e * ?e)" by (intro mult_mono) auto
  finally have n: "n \<le> max ?v (1 / 10 ^ 9) * (?e * ?e * ?e * ?e)" using a assms(4) by simp
  have "0 < VAR_FLOOR" unfolding VAR_FLOOR_def by (rule r64_pos) simp
  then have "0 \<le> n" unfolding assms(4) by (simp add: le_max_iff_disj less_imp_le)
  then have "fsqrt n * fsqrt n \<le> n * (1 + 1 / 2 ^ 48)" by (rule fsqrt_up)
  also have "\<dots> \<le> (max ?v (1 / 10 ^ 9) * (?e * ?e * ?e * ?e)) * (1 + 1 / 2 ^ 48)" using n by (intro mult_right_mono) auto
  also have "\<dots> = max ?v (1 / 10 ^ 9) * ((?e * ?e * ?e * ?e) * (1 + 1 / 2 ^ 48))" by (simp only: mult.assoc)
  also have "\<dots> \<le> max ?v (1 / 10 ^ 9) * (1 + 1 / 2 ^ 47)" by (intro mult_left_mono) auto
  finally show ?thesis .
qed

lemma twice_nonneg: "0 \<le> c \<Longrightarrow> 0 \<le> fmul (fmul c l) l"
proof (cases "0 \<le> l")
  case False
  assume "0 \<le> c"
  then have "c * l \<le> 0" using False by (intro mult_nonneg_nonpos) auto
  then have "r64 (c * l) \<le> 0" using r64_neg [of "c * l"] by (cases "c * l = 0") auto
  then show ?thesis using False by (simp add: fmul_def mult_nonpos_nonpos)
qed (simp add: fmul_def)

lemma rate_decisive_up:
  fixes p
  defines "drift \<equiv> tp_tau (t2_base p) * tp_tau (t2_base p)"
  shows "rt_sigma (fst (rate_decisive M winner loser z p)) * rt_sigma (fst (rate_decisive M winner loser z p))
      \<le> max (rt_sigma winner * rt_sigma winner + drift) (1 / 10 ^ 9) * (1 + 1 / 2 ^ 47)"
    "rt_sigma (snd (rate_decisive M winner loser z p)) * rt_sigma (snd (rate_decisive M winner loser z p))
      \<le> max (rt_sigma loser * rt_sigma loser + drift) (1 / 10 ^ 9) * (1 + 1 / 2 ^ 47)"
proof -
  have f: "0 \<le> max a VAR_FLOOR" for a by (simp add: VAR_FLOOR_def le_max_iff_disj)
  have b: "0 \<le> two_beta2 q" for q using twice_nonneg [of 2 "tp_beta q"] by (simp add: two_beta2_def)
  have sq: "0 \<le> fmul x x" for x by (rule fops_nonneg)
  have cc: "0 \<le> fadd (fadd (fadd (fmul x x) (fmul t t)) (fadd (fmul y y) (fmul t t))) (two_beta2 q)" for x y t q
    by (intro fops_nonneg b)
  have den: "0 \<le> fadd (fmul (fmul l l) (fadd (fadd (fadd (fmul x x) (fmul t t)) (fadd (fmul y y) (fmul t t))) (two_beta2 q))) (max a VAR_FLOOR)"
    for l x y t q a by (intro fops_nonneg(1,2) sq cc f)
  show "rt_sigma (fst (rate_decisive M winner loser z p)) * rt_sigma (fst (rate_decisive M winner loser z p))
      \<le> max (rt_sigma winner * rt_sigma winner + drift) (1 / 10 ^ 9) * (1 + 1 / 2 ^ 47)"
    unfolding drift_def rate_decisive_def Let_def fst_conv rating.select_convs variance_def
    by (rule spread_up [OF refl _ _ refl]) (intro fops_nonneg(2,3) twice_nonneg sq cc den f clamp01_nonneg; simp add: w_win_def Let_def)+
  show "rt_sigma (snd (rate_decisive M winner loser z p)) * rt_sigma (snd (rate_decisive M winner loser z p))
      \<le> max (rt_sigma loser * rt_sigma loser + drift) (1 / 10 ^ 9) * (1 + 1 / 2 ^ 47)"
    unfolding drift_def rate_decisive_def Let_def snd_conv rating.select_convs variance_def
    by (rule spread_up [OF refl _ _ refl]) (intro fops_nonneg(2,3) twice_nonneg sq cc den f clamp01_nonneg; simp add: w_win_def Let_def)+
qed

text \<open>
  The ratings for which the model of a double is faithful to a settlement: up to here no operation of the update overflows
  before the platform's \<open>exp\<close> enters, and behind it the \<open>max\<close> of Rust, which discards a NaN, stands between the result
  and the new uncertainty. Beyond, the square of an uncertainty can overflow, and a draw then leaves a NaN.
\<close>

definition sane :: "player_state \<Rightarrow> bool" where
  "sane s \<longleftrightarrow> 0 < rt_sigma (ps_rating s) \<and> rt_sigma (ps_rating s) \<le> 2 ^ 20 \<and> \<bar>rt_mu (ps_rating s)\<bar> \<le> 2 ^ 20"

definition settled_from :: "ts2_params \<Rightarrow> player_state \<Rightarrow> player_state \<Rightarrow> bool" where
  "settled_from p s s' \<longleftrightarrow> 0 < rt_sigma (ps_rating s') \<and>
     rt_sigma (ps_rating s') * rt_sigma (ps_rating s') \<le>
       max (rt_sigma (ps_rating s) * rt_sigma (ps_rating s) + tp_tau (t2_base p) * tp_tau (t2_base p)) (1 / 10 ^ 9) * (1 + 1 / 2 ^ 47) \<and>
     ps_experience s' = ps_experience s + 1"

text \<open>
  C32. A decided match leaves a rating usable, with the parameters of the server and two ratings in the range \<open>sane\<close> (means
  and uncertainties up to 2 to the 20). Whatever the line counts, the quits and the platform's \<open>exp\<close>, each player's
  uncertainty afterwards is positive, and its square is at most the square before plus the drift of one match (or the
  floor of the code), up to rounding: no result makes the server less certain of a player than the passing of a match
  does; and the match counts as one more game. (The server settles decided matches only.)
\<close>

theorem settled_rating_valid:
  assumes "effective_winner o1 \<noteq> Draw" "sane a" "sane b"
  shows "settled_from ts2_params_default a (fst (rate_match M a b o1 ts2_params_default)) \<and>
    settled_from ts2_params_default b (snd (rate_match M a b o1 ts2_params_default))"
  using assms(1) rate_decisive_sigma rate_decisive_up
  by (cases "effective_winner o1") (simp_all add: rate_match_def settled_from_def split_beta Let_def)

text \<open>
  C33. The seats do not matter: a decided match rated from the other seat (players, result, lines and quits exchanged)
  gives the same two ratings, exchanged; the order in which the server pairs two players decides nothing.
\<close>

theorem rating_ignores_seats:
  assumes "effective_winner o1 \<noteq> Draw"
  shows "rate_match M b a (mirror_outcome o1) p = prod.swap (rate_match M a b o1 p)"
proof -
  have m: "mo_a_lines (mirror_outcome o1) = mo_b_lines o1" "mo_b_lines (mirror_outcome o1) = mo_a_lines o1"
    "mo_a_quit (mirror_outcome o1) = mo_b_quit o1" "mo_b_quit (mirror_outcome o1) = mo_a_quit o1"
    by (simp_all add: mirror_outcome_def)
  show ?thesis
    using assms by (cases "effective_winner o1") (simp_all add: rate_match_def m effective_winner_mirror split_beta Let_def)
qed

definition sample_match :: match_outcome where
  "sample_match = \<lparr>mo_winner = Won_A, mo_a_lines = 12, mo_b_lines = 30, mo_a_quit = True, mo_b_quit = False\<rparr>"

theorem settled_rating_valid_witness:
  "\<exists>s'. s' = fst (rate_match \<lparr>lm_exp = (\<lambda>x. x), lm_ln = (\<lambda>x. x)\<rparr> (player_state_new (new_rating ts_params_default))
      (player_state_new (new_rating ts_params_default)) sample_match ts2_params_default) \<and>
    settled_from ts2_params_default (player_state_new (new_rating ts_params_default)) s' \<and> ps_experience s' = 1"
proof -
  have "0 < r64 (25 / 3)" "r64 (25 / 3) \<le> 2 ^ 20" "\<bar>25 :: f64\<bar> \<le> 2 ^ 20"
    using r64_pos [of "25 / 3"] r64_up [of "25 / 3"] by simp_all
  then have s: "sane (player_state_new (new_rating ts_params_default))"
    by (simp add: sane_def player_state_new_def new_rating_def ts_params_default_def Let_def fdiv_def)
  have "effective_winner sample_match \<noteq> Draw" by (simp add: sample_match_def effective_winner_def)
  from settled_rating_valid [OF this s s] show ?thesis by (simp add: settled_from_def player_state_new_def)
qed

theorem rating_ignores_seats_witness:
  "rate_match \<lparr>lm_exp = (\<lambda>x. x), lm_ln = (\<lambda>x. x)\<rparr> (player_state_new (new_rating ts_params_default))
      (player_state_new (new_rating ts_params_default)) (mirror_outcome sample_match) ts2_params_default
    = prod.swap (rate_match \<lparr>lm_exp = (\<lambda>x. x), lm_ln = (\<lambda>x. x)\<rparr> (player_state_new (new_rating ts_params_default))
      (player_state_new (new_rating ts_params_default)) sample_match ts2_params_default) \<and>
   effective_winner sample_match = Won_B"
  by (intro conjI rating_ignores_seats) (simp_all add: sample_match_def effective_winner_def)

end
