(* ===== verification/Bot.thy ===== *)
theory Bot
  imports BotWeapons Computer Reconcile Ratings
begin

section \<open>The networked bot\<close>

text \<open>
  \<open>bt-bot/src/sync.rs\<close> and \<open>bt-bot/src/main.rs\<close>: a player that predicts its own game with the client's
  predictor, decides once per tick from what the server has confirmed, and sends its inputs as numbered
  frames; and the roaming challenger's book-keeping.

  JSON is left to serde: a frame from the server is the record of its fields, absent or ill-typed ones
  None, and \<open>out_msg\<close> are the frames sent. Time is in milliseconds, and the clock, the environment
  variables and the iteration order of the hash map are arguments. The socket, the tasks and the log
  lines are left out.
\<close>

subsection \<open>What to do in a tick\<close>

record sync_state =
  sy_done :: bool
  sy_idle_timed_out :: bool
  sy_acked :: u64
  sy_last_sent :: u64
  sy_auth_baz :: bool
  sy_opp_baz :: bool
  sy_local_baz :: bool
  sy_bought :: bool

datatype bot_action = End | WaitAck | WaitBazaar | Shop | Play

definition decide :: "sync_state \<Rightarrow> bot_action" where
  "decide s =
     (if sy_done s \<or> sy_idle_timed_out s then End
      else if sy_acked s < sy_last_sent s then WaitAck
      else if sy_auth_baz s \<and> sy_local_baz s \<and> \<not> sy_bought s then Shop
      else if sy_auth_baz s \<or> sy_opp_baz s \<or> sy_local_baz s then WaitBazaar
      else Play)"

definition RESYNC_INTERVAL :: nat where "RESYNC_INTERVAL = 2000"

definition resync_due :: "nat option \<Rightarrow> nat \<Rightarrow> bool \<times> nat option" where
  "resync_due last_sent now =
     (let due = (case last_sent of None \<Rightarrow> True | Some t \<Rightarrow> now - t \<ge> RESYNC_INTERVAL)
      in (due, if due then Some now else last_sent))"

subsection \<open>Tuning and personas\<close>

definition BOT_TICK_MS :: i32 where "BOT_TICK_MS = 16"
definition PLACE_INTERVAL_TICKS :: i32 where "PLACE_INTERVAL_TICKS = 26"
definition STALE_TICKS :: u32 where "STALE_TICKS = 875"
definition LAUNCH_INTERVAL_TICKS :: i32 where "LAUNCH_INTERVAL_TICKS = 120"
definition LAUNCH_RETRY_TICKS :: i32 where "LAUNCH_RETRY_TICKS = 30"
definition SPY_FRESH_TICKS :: u32 where "SPY_FRESH_TICKS = 300"
definition OPP_HIGH_FRAC :: f64 where "OPP_HIGH_FRAC = r64 (6 / 10)"
definition ROAM_CADENCE :: nat where "ROAM_CADENCE = 10000"
definition ROAM_BASE_BACKOFF :: nat where "ROAM_BASE_BACKOFF = 60000"
definition ROAM_MAX_BACKOFF :: nat where "ROAM_MAX_BACKOFF = 30 * 60000"
definition ROAM_PENDING_WAIT :: nat where "ROAM_PENDING_WAIT = 35000"
definition ROAM_POST_MATCH :: nat where "ROAM_POST_MATCH = 90000"
definition ROAM_PLACE_SLOW :: i32 where "ROAM_PLACE_SLOW = 50"
definition ROAM_PLACE_FAST :: i32 where "ROAM_PLACE_FAST = 22"
definition ROAM_WEAPON_SKILL :: f64 where "ROAM_WEAPON_SKILL = r64 (4 / 10)"

definition elo_to_skill :: "i64 \<Rightarrow> f64" where
  "elo_to_skill elo = max 0 (min 1 (fdiv (fsub (r64 (of_int elo)) 700) 1000))"

definition roam_place_ticks :: "f64 \<Rightarrow> i32" where
  "roam_place_ticks skill =
     round_away (fsub (of_int ROAM_PLACE_SLOW) (fmul skill (of_int (ROAM_PLACE_SLOW - ROAM_PLACE_FAST))))"

record persona =
  pe_suffix :: string
  pe_strong :: bool
  pe_place_ticks :: i32
  pe_weapons :: bool
  pe_roam :: bool

text \<open>The persona of a name, already in lower case.\<close>

definition persona_named :: "string \<Rightarrow> persona" where
  "persona_named which =
     (if which \<in> {''count'', ''roam''} then
        \<lparr>pe_suffix = ''The Count'', pe_strong = True, pe_place_ticks = PLACE_INTERVAL_TICKS, pe_weapons = True, pe_roam = True\<rparr>
      else if which \<in> {''bert'', ''strong'', ''hard''} then
        \<lparr>pe_suffix = ''Bert'', pe_strong = True, pe_place_ticks = PLACE_INTERVAL_TICKS, pe_weapons = True, pe_roam = False\<rparr>
      else \<lparr>pe_suffix = ''Ernie'', pe_strong = False, pe_place_ticks = 44, pe_weapons = False, pe_roam = False\<rparr>)"

subsection \<open>A match\<close>

record bot_match =
  bm_predictor :: predictor
  bm_persona :: persona
  bm_skill :: f64
  bm_place_interval :: i32
  bm_weapons_on :: bool
  bm_rng :: u64
  bm_launched :: u32
  bm_live_ticks :: u32
  bm_cooldown :: i32
  bm_in_bazaar :: bool
  bm_opp_in_bazaar :: bool
  bm_bazaar_bought :: bool
  bm_launch_cooldown :: i32
  bm_spy_fresh :: u32
  bm_opp_high :: bool
  bm_done :: bool
  bm_idle_ticks :: u32
  bm_resync_last_sent :: "nat option"
  bm_acked :: u64

definition bot_match_new :: "u64 \<Rightarrow> persona \<Rightarrow> i64 \<Rightarrow> bot_match option" where
  "bot_match_new seed persona opp_elo =
     (let skill = (if pe_roam persona then elo_to_skill opp_elo else if pe_strong persona then 1 else 0);
          place_interval = (if pe_roam persona then roam_place_ticks skill else pe_place_ticks persona);
          weapons_on = (if pe_roam persona then skill \<ge> ROAM_WEAPON_SKILL else pe_weapons persona)
      in map_option (\<lambda>p. \<lparr>bm_predictor = p, bm_persona = persona, bm_skill = skill, bm_place_interval = place_interval,
           bm_weapons_on = weapons_on, bm_rng = (seed XOR 0x9E3779B97F4A7C15) OR 1, bm_launched = 0, bm_live_ticks = 0,
           bm_cooldown = place_interval, bm_in_bazaar = False, bm_opp_in_bazaar = False, bm_bazaar_bought = False,
           bm_launch_cooldown = LAUNCH_INTERVAL_TICKS, bm_spy_fresh = 0, bm_opp_high = False, bm_done = False,
           bm_idle_ticks = 0, bm_resync_last_sent = None, bm_acked = 0\<rparr>) (pr_new seed))"

datatype out_msg = Out_input u64 input | Out_resync | Out_accept string | Out_challenge string | Out_available

text \<open>The predictor and the frames sent so far.\<close>

type_synonym wire = "predictor \<times> out_msg list"

definition send_input :: "input \<Rightarrow> wire \<Rightarrow> wire" where
  "send_input i w =
     (case predict i (fst w) of
        (Some (seq, inp), p) \<Rightarrow> (p, snd w @ [Out_input seq inp])
      | (None, p) \<Rightarrow> (p, snd w))"

definition arsenal_of :: "game \<Rightarrow> i32 list" where
  "arsenal_of g = map (\<lambda>i. token_int (slot_token (g_arsenal g) i)) [0..<10]"

fun turn_to :: "nat \<Rightarrow> i32 \<Rightarrow> wire \<Rightarrow> wire" where
  "turn_to 0 target_or w = w"
| "turn_to (Suc n) target_or w =
     (case g_current (pr_game (fst w)) of
        Some p \<Rightarrow> (if p_orientation p \<noteq> target_or then turn_to n target_or (send_input Rotate w) else w)
      | None \<Rightarrow> w)"

fun step_to :: "nat \<Rightarrow> i32 \<Rightarrow> wire \<Rightarrow> wire" where
  "step_to 0 target_x w = w"
| "step_to (Suc n) target_x w =
     (case g_current (pr_game (fst w)) of
        Some p \<Rightarrow>
          (if p_x p < target_x then step_to n target_x (send_input MoveRight w)
           else if p_x p > target_x then step_to n target_x (send_input MoveLeft w)
           else w)
      | None \<Rightarrow> w)"

definition play_piece :: "placement \<Rightarrow> wire \<Rightarrow> wire" where
  "play_piece pl w =
     (case g_current (pr_game (fst w)) of
        None \<Rightarrow> w
      | Some p \<Rightarrow>
          (let w = turn_to (nat (max (p_orientations p) 1)) (pl_orientation pl) w;
               w = step_to (nat (b_width (g_board (pr_game (fst w))) * 2)) (pl_x pl) w
           in send_input BeginDrop w))"

definition shop_bazaar :: "bot_match \<Rightarrow> out_msg list \<Rightarrow> bot_match \<times> out_msg list" where
  "shop_bazaar st out =
     (let g = pr_game (bm_predictor st);
          plan = (if g_in_bazaar g \<and> bm_weapons_on st
                  then buy_plan (s_funds (g_score g)) (arsenal_of g) (weapon_active g Carter) else []);
          w = fold (\<lambda>tok. send_input (BuyWeapon (int (index tok)))) plan (bm_predictor st, out);
          (p, out) = send_input LeaveBazaar w
      in (st\<lparr>bm_predictor := p\<rparr>, out))"

definition bot_launch :: "bot_match \<Rightarrow> out_msg list \<Rightarrow> bot_match \<times> out_msg list" where
  "bot_launch st out =
     (if \<not> bm_weapons_on st then (st, out)
      else let st = st\<lparr>bm_launch_cooldown := bm_launch_cooldown st - 1\<rparr> in
        if bm_launch_cooldown st > 0 then (st, out)
        else case launch_choice (arsenal_of (pr_game (bm_predictor st))) (bm_spy_fresh st > 0) (bm_opp_high st) of
          Some slot \<Rightarrow>
            (let (p, out) = send_input (LaunchWeapon (of_nat slot)) (bm_predictor st, out)
             in (st\<lparr>bm_predictor := p, bm_launched := bm_launched st + 1, bm_launch_cooldown := LAUNCH_INTERVAL_TICKS\<rparr>, out))
        | None \<Rightarrow> (st\<lparr>bm_launch_cooldown := LAUNCH_RETRY_TICKS\<rparr>, out))"

definition bot_place :: "bot_match \<Rightarrow> out_msg list \<Rightarrow> (bot_match \<times> out_msg list) option" where
  "bot_place st out =
     (let g = pr_game (bm_predictor st) in
      do {
        (st, out) \<leftarrow> (case g_current g of
            Some p \<Rightarrow>
              map_option (\<lambda>(pl, rng). let (q, out) = play_piece pl (bm_predictor st, out)
                  in (st\<lparr>bm_rng := rng, bm_predictor := q\<rparr>, out))
                (if pe_roam (bm_persona st) then best_placement_skill (g_board g) p (bm_skill st) (bm_rng st)
                 else if pe_strong (bm_persona st) then map_option (\<lambda>pl. (pl, bm_rng st)) (best_placement_strong (g_board g) p)
                 else map_option (\<lambda>pl. (pl, bm_rng st)) (best_placement (g_board g) p))
          | None \<Rightarrow> Some (st, out));
        Some (st\<lparr>bm_cooldown := bm_place_interval st\<rparr>, out)
      })"

definition bot_play :: "bot_match \<Rightarrow> out_msg list \<Rightarrow> (bot_match \<times> out_msg list) option" where
  "bot_play st out =
     do {
       p \<leftarrow> pr_tick BOT_TICK_MS (bm_predictor st);
       let st = st\<lparr>bm_predictor := p\<rparr>;
       if g_phase (pr_game p) = Over then Some (st, out)
       else let (st, out) = bot_launch st out in
         if bm_cooldown st > 0 then Some (st\<lparr>bm_cooldown := bm_cooldown st - 1\<rparr>, out)
         else bot_place st out
     }"

text \<open>The book-keeping of a tick and what \<open>decide\<close> then reads.\<close>

definition age :: "bot_match \<Rightarrow> bot_match" where
  "age st =
     (let st = st\<lparr>bm_idle_ticks := bm_idle_ticks st + 1, bm_live_ticks := bm_live_ticks st + 1\<rparr> in
      if bm_spy_fresh st > 0 then
        (let fresh = bm_spy_fresh st - 1
         in st\<lparr>bm_spy_fresh := fresh, bm_opp_high := (bm_opp_high st \<and> fresh \<noteq> 0)\<rparr>)
      else st)"

definition sync_of :: "bot_match \<Rightarrow> sync_state" where
  "sync_of st = \<lparr>sy_done = bm_done st, sy_idle_timed_out = (bm_idle_ticks st > STALE_TICKS), sy_acked = bm_acked st,
     sy_last_sent = pr_input_seq (bm_predictor st), sy_auth_baz = bm_in_bazaar st, sy_opp_baz = bm_opp_in_bazaar st,
     sy_local_baz = g_in_bazaar (pr_game (bm_predictor st)), sy_bought = bm_bazaar_bought st\<rparr>"

definition drive_tick :: "bot_match \<Rightarrow> (bot_match \<times> out_msg list) option" where
  "drive_tick st =
     (if bm_done st then Some (st, [])
      else let st = age st in
        case decide (sync_of st) of
          End \<Rightarrow> Some (if bm_idle_ticks st > STALE_TICKS then st\<lparr>bm_done := True\<rparr> else st, [])
        | WaitAck \<Rightarrow> Some (st, [])
        | WaitBazaar \<Rightarrow>
            Some (if bm_in_bazaar st \<and> bm_bazaar_bought st then
                    (let (p, out) = send_input LeaveBazaar (bm_predictor st, []) in (st\<lparr>bm_predictor := p\<rparr>, out))
                  else (st, []))
        | Shop \<Rightarrow> Some (let (st, out) = shop_bazaar st [] in (st\<lparr>bm_bazaar_bought := True\<rparr>, out))
        | Play \<Rightarrow> bot_play st [])"

subsection \<open>Frames from the server\<close>

record snapshot_in =
  si_ack :: "u64 option"
  si_result :: "i64 option"
  si_you_bazaar :: "bool option"
  si_opp_bazaar :: "bool option"
  si_keyframe :: "u64 list option"
  si_lock_seq :: "u64 option"
  si_lock_hash :: "u64 option"
  si_spy_board :: "i64 list option"

definition or_else :: "'a option \<Rightarrow> 'a \<Rightarrow> 'a" where
  "or_else x d = (case x of Some v \<Rightarrow> v | None \<Rightarrow> d)"

definition opponent_is_high :: "i32 list \<Rightarrow> i32 \<Rightarrow> i32 \<Rightarrow> bool" where
  "opponent_is_high cells w h =
     (if w \<le> 0 \<or> h \<le> 0 \<or> length cells < nat (w * h) then False
      else let min_top = fold (\<lambda>x min_top. case find (\<lambda>y. cells ! nat (y * w + x) \<ge> 0) (range_i 0 h) of
                 Some y \<Rightarrow> (if y < min_top then y else min_top) | None \<Rightarrow> min_top) (range_i 0 w) h
        in of_int (h - min_top) \<ge> fmul OPP_HIGH_FRAC (of_int h))"

text \<open>A throttled request for a keyframe.\<close>

definition ask_resync :: "nat \<Rightarrow> bool \<Rightarrow> bot_match \<times> out_msg list \<Rightarrow> bot_match \<times> out_msg list" where
  "ask_resync now wanted s =
     (if \<not> wanted then s
      else case s of (st, out) \<Rightarrow>
        (let (due, last) = resync_due (bm_resync_last_sent st) now
         in (st\<lparr>bm_resync_last_sent := last\<rparr>, if due then out @ [Out_resync] else out)))"

text \<open>The authoritative part of a snapshot, then the judgement of the locks, the phantom end, and the spy.\<close>

definition take_snapshot :: "snapshot_in \<Rightarrow> bot_match \<Rightarrow> bot_match" where
  "take_snapshot v st =
     (let ack = or_else (si_ack v) (bm_acked st);
          you_bazaar = or_else (si_you_bazaar v) False;
          opp_bazaar = or_else (si_opp_bazaar v) False;
          st = st\<lparr>bm_idle_ticks := 0, bm_acked := ack\<rparr>;
          st = (if or_else (si_result v) 0 \<noteq> 0 then st\<lparr>bm_done := True\<rparr> else st);
          st = st\<lparr>bm_in_bazaar := you_bazaar\<rparr>;
          st = (if \<not> you_bazaar then st\<lparr>bm_bazaar_bought := False\<rparr> else st);
          st = st\<lparr>bm_opp_in_bazaar := opp_bazaar\<rparr>
      in st\<lparr>bm_predictor := on_snapshot ack you_bazaar opp_bazaar (map_option (map ucast) (si_keyframe v)) (bm_predictor st)\<rparr>)"

definition judge_lock :: "nat \<Rightarrow> snapshot_in \<Rightarrow> bot_match \<times> out_msg list \<Rightarrow> bot_match \<times> out_msg list" where
  "judge_lock now v s =
     (case (si_lock_seq v, si_lock_hash v) of
        (Some lock_seq, Some lock_hash) \<Rightarrow>
          (let (diverged, p) = on_lock_hash (uint lock_seq) (ucast lock_hash) (bm_predictor (fst s))
           in ask_resync now diverged ((fst s)\<lparr>bm_predictor := p\<rparr>, snd s))
      | _ \<Rightarrow> s)"

definition read_spy :: "snapshot_in \<Rightarrow> bot_match \<Rightarrow> bot_match" where
  "read_spy v st =
     (case si_spy_board v of
        Some arr \<Rightarrow>
          (let b = g_board (pr_game (bm_predictor st))
           in st\<lparr>bm_opp_high := opponent_is_high (map as_i32 arr) (b_width b) (b_height b), bm_spy_fresh := SPY_FRESH_TICKS\<rparr>)
      | None \<Rightarrow> st)"

definition handle_snapshot :: "nat \<Rightarrow> snapshot_in \<Rightarrow> bot_match \<Rightarrow> bot_match \<times> out_msg list" where
  "handle_snapshot now v st =
     (let s = judge_lock now v (take_snapshot v st, []);
          phantom = (or_else (si_result v) 0 = 0 \<and> g_phase (pr_game (bm_predictor (fst s))) = Over);
          (st, out) = ask_resync now phantom s
      in (read_spy v st, out))"

subsection \<open>The roaming challenger\<close>

record target =
  ta_is_bot :: bool
  ta_available :: bool
  ta_next_eligible :: nat
  ta_declines :: u32

record roam =
  ro_me :: string
  ro_targets :: "string \<rightharpoonup> target"
  ro_pending :: "(string \<times> nat) option"
  ro_next_attempt :: nat

definition roam_new :: "nat \<Rightarrow> string \<Rightarrow> roam" where
  "roam_new now me = \<lparr>ro_me = me, ro_targets = Map.empty, ro_pending = None, ro_next_attempt = now\<rparr>"

record roster_entry =
  ros_name :: "string option"
  ros_status :: "string option"
  ros_bot :: "bool option"

definition roster_step :: "nat \<Rightarrow> roster_entry \<Rightarrow> roam \<Rightarrow> roam" where
  "roster_step now p r =
     (case ros_name p of
        Some n \<Rightarrow>
          (if n = ro_me r then r
           else let available = (ros_status p = Some ''available'');
                    is_bot = or_else (ros_bot p) False;
                    t = or_else (ro_targets r n)
                      \<lparr>ta_is_bot = is_bot, ta_available = False, ta_next_eligible = now, ta_declines = 0\<rparr>
                in r\<lparr>ro_targets := (ro_targets r)(n \<mapsto> t\<lparr>ta_is_bot := is_bot, ta_available := available\<rparr>)\<rparr>)
      | None \<Rightarrow> r)"

definition update_roster :: "nat \<Rightarrow> roster_entry list \<Rightarrow> roam \<Rightarrow> roam" where
  "update_roster now players r =
     fold (roster_step now) players (r\<lparr>ro_targets := map_option (\<lambda>t. t\<lparr>ta_available := False\<rparr>) \<circ> ro_targets r\<rparr>)"

definition backoff_ms :: "u32 \<Rightarrow> nat" where
  "backoff_ms declines = (let shift = min (unat (declines - 1)) 20 in min (ROAM_BASE_BACKOFF * 2 ^ shift) ROAM_MAX_BACKOFF)"

definition on_declined :: "nat \<Rightarrow> string \<Rightarrow> roam \<Rightarrow> roam" where
  "on_declined now who r =
     (let r = r\<lparr>ro_pending := None\<rparr>;
          r = (case ro_targets r who of
                 Some t \<Rightarrow>
                   (let t = t\<lparr>ta_declines := ta_declines t + 1\<rparr>
                    in r\<lparr>ro_targets := (ro_targets r)(who \<mapsto> t\<lparr>ta_next_eligible := now + backoff_ms (ta_declines t)\<rparr>)\<rparr>)
               | None \<Rightarrow> r)
      in r\<lparr>ro_next_attempt := now + 2000\<rparr>)"

definition on_matched :: "nat \<Rightarrow> string \<Rightarrow> roam \<Rightarrow> roam" where
  "on_matched now opp r =
     (let r = r\<lparr>ro_pending := None\<rparr>
      in case ro_targets r opp of
           Some t \<Rightarrow> r\<lparr>ro_targets := (ro_targets r)(opp \<mapsto> t\<lparr>ta_declines := 0, ta_next_eligible := now + ROAM_POST_MATCH\<rparr>)\<rparr>
         | None \<Rightarrow> r)"

definition on_match_end :: "nat \<Rightarrow> roam \<Rightarrow> roam" where
  "on_match_end now r = r\<lparr>ro_next_attempt := now + 3000\<rparr>"

text \<open>The choice, with the names in the order in which the hash map is iterated.\<close>

definition roam_pick :: "string list \<Rightarrow> nat \<Rightarrow> roam \<Rightarrow> string option" where
  "roam_pick order now r =
     (let (bot, human) = fold (\<lambda>name (bot, human). case ro_targets r name of
            Some t \<Rightarrow>
              (if \<not> ta_available t \<or> ta_next_eligible t > now then (bot, human)
               else if ta_is_bot t then (if bot = None then Some name else bot, human)
               else (bot, if human = None then Some name else human))
          | None \<Rightarrow> (bot, human)) order (None, None)
      in if human \<noteq> None then human else bot)"

definition roam_step :: "string list \<Rightarrow> nat \<Rightarrow> roam \<Rightarrow> string option \<times> roam" where
  "roam_step order now r =
     (let waiting = (case ro_pending r of Some (_, sent) \<Rightarrow> \<not> now - sent > ROAM_PENDING_WAIT | None \<Rightarrow> False);
          r = (if waiting then r else r\<lparr>ro_pending := None\<rparr>)
      in if waiting \<or> now < ro_next_attempt r then (None, r)
         else let r = r\<lparr>ro_next_attempt := now + ROAM_CADENCE\<rparr> in
           case roam_pick order now r of
             None \<Rightarrow> (None, r)
           | Some target \<Rightarrow>
               (let r = (case ro_targets r target of
                      Some t \<Rightarrow> r\<lparr>ro_targets := (ro_targets r)(target \<mapsto> t\<lparr>ta_next_eligible := now + ROAM_PENDING_WAIT\<rparr>)\<rparr>
                    | None \<Rightarrow> r)
                in (Some target, r\<lparr>ro_pending := Some (target, now)\<rparr>)))"

subsection \<open>A session\<close>

datatype server_frame =
    Challenged "string option"
  | MatchStart "u64 option" "string option" "i64 option"
  | Players "roster_entry list option"
  | ChallengeDeclined "string option"
  | SnapshotFrame snapshot_in
  | EventFrame "input option"
  | OtherFrame

record bot_session =
  se_match :: "bot_match option"
  se_roam :: "roam option"

definition session_new :: "nat \<Rightarrow> string \<Rightarrow> persona \<Rightarrow> bot_session" where
  "session_new now name persona = \<lparr>se_match = None, se_roam = (if pe_roam persona then Some (roam_new now name) else None)\<rparr>"

definition handle_text :: "nat \<Rightarrow> persona \<Rightarrow> server_frame \<Rightarrow> bot_session \<Rightarrow> (bot_session \<times> out_msg list) option" where
  "handle_text now persona f se =
     (case f of
        Challenged from \<Rightarrow> Some (se, [Out_accept (or_else from '''')])
      | MatchStart seed opp opp_elo \<Rightarrow>
          map_option (\<lambda>st. (se\<lparr>se_match := Some st, se_roam := map_option (on_matched now (or_else opp ''?'')) (se_roam se)\<rparr>, []))
            (bot_match_new (or_else seed 0) persona (or_else opp_elo 1000))
      | Players arr \<Rightarrow>
          Some (case arr of Some ps \<Rightarrow> (se\<lparr>se_roam := map_option (update_roster now ps) (se_roam se)\<rparr>, []) | None \<Rightarrow> (se, []))
      | ChallengeDeclined by_ \<Rightarrow> Some (se\<lparr>se_roam := map_option (on_declined now (or_else by_ '''')) (se_roam se)\<rparr>, [])
      | SnapshotFrame v \<Rightarrow>
          Some (case se_match se of
             Some st \<Rightarrow> (let (st, out) = handle_snapshot now v st in (se\<lparr>se_match := Some st\<rparr>, out))
           | None \<Rightarrow> (se, []))
      | EventFrame inp \<Rightarrow>
          Some (case (se_match se, inp) of
             (Some st, Some i) \<Rightarrow> (se\<lparr>se_match := Some (st\<lparr>bm_predictor := apply_event i (bm_predictor st)\<rparr>)\<rparr>, [])
           | _ \<Rightarrow> (se, []))
      | OtherFrame \<Rightarrow> Some (se, []))"

definition session_tick :: "string list \<Rightarrow> nat \<Rightarrow> bot_session \<Rightarrow> (bot_session \<times> out_msg list) option" where
  "session_tick order now se =
     (case se_match se of
        Some st \<Rightarrow>
          map_option (\<lambda>(st, out).
            if bm_done st
            then (se\<lparr>se_match := None, se_roam := map_option (on_match_end now) (se_roam se)\<rparr>, out @ [Out_available])
            else (se\<lparr>se_match := Some st\<rparr>, out)) (drive_tick st)
      | None \<Rightarrow>
          Some (case se_roam se of
             Some r \<Rightarrow> (let (t, r) = roam_step order now r in
                (se\<lparr>se_roam := Some r\<rparr>, case t of Some target \<Rightarrow> [Out_challenge target] | None \<Rightarrow> []))
           | None \<Rightarrow> (se, [])))"

end
