(* ===== verification/BotProps.thy ===== *)
theory BotProps
  imports Bot
begin

section \<open>What the networked bot promises\<close>

text \<open>
  Every tick of a bot returns, sends only what the server has been asked to expect, and a visit to the
  bazaar that the server confirms ends with the server's side out of it. A roaming bot leaves whoever
  declined alone for the backoff.
\<close>

subsection \<open>A game as a client sees it\<close>

text \<open>The game is a reachable one, apart from what the client's view hides; so is one restored from the host's keyframe.\<close>

definition seen :: "game \<Rightarrow> bool" where
  "seen g \<longleftrightarrow> (\<exists>h. reachable h \<and> client_view h = client_view g)"

lemma seen_reachable: "reachable g \<Longrightarrow> seen g"
  by (auto simp: seen_def)

lemma seen_apply: "seen g \<Longrightarrow> seen (apply_to_game i g)"
  unfolding seen_def using apply_reachable client_view_apply by blast

lemma seen_tick:
  assumes "seen g" shows "\<exists>g'. tick dt g = Some g' \<and> seen g'"
proof -
  obtain h where h: "reachable h" "client_view h = client_view g" using assms by (auto simp: seen_def)
  obtain h' where h': "tick dt h = Some h'" using tick_returns [OF reachable_ok [OF h(1)], of dt] by (auto elim: returnsE)
  obtain g' where "tick dt g = Some g'" "client_view g' = client_view h'"
    using client_view_tick [OF h(2) h' reachable_ok [OF h(1)]] .
  then show ?thesis using r_tick [OF h(1) h'] by (auto simp: seen_def)
qed

lemma seen_leave: "seen g \<Longrightarrow> seen (leave_bazaar g)"
  using seen_apply [of g LeaveBazaar] by (simp add: apply_to_game_def)

lemma seen_board: "seen g \<Longrightarrow> std_board (g_board g) \<and> (\<forall>p. g_current g = Some p \<longrightarrow> in_cycle p) \<and> length (rep (g_arsenal g)) = 10"
proof -
  assume "seen g"
  then obtain h where h: "reachable h" "client_view h = client_view g" by (auto simp: seen_def)
  have "game_ok h" by (rule reachable_ok [OF h(1)])
  then have "std_board (g_board h) \<and> (\<forall>p. g_current h = Some p \<longrightarrow> in_cycle p) \<and> length (rep (g_arsenal h)) = 10"
    by (simp add: game_ok_def setup_ok_def core_ok_def piece_ok_def arsenal_len_def)
  moreover have "g_board x = g_board (client_view x)" "g_current x = g_current (client_view x)" "g_arsenal x = g_arsenal (client_view x)" for x
    by (simp_all add: client_view_def)
  ultimately show ?thesis using h(2) by metis
qed

subsection \<open>Sending\<close>

text \<open>Inputs as frames with consecutive numbers.\<close>

fun numbered :: "u64 \<Rightarrow> input list \<Rightarrow> out_msg list" where
  "numbered n [] = []"
| "numbered n (i # is) = Out_input (n + 1) i # numbered (n + 1) is"

lemma numbered_append: "numbered n (is @ js) = numbered n is @ numbered (n + of_nat (length is)) js"
  by (induction "is" arbitrary: n) (simp_all add: add.assoc add.commute)

definition sends :: "input set \<Rightarrow> wire \<Rightarrow> wire \<Rightarrow> bool" where
  "sends P w w' \<longleftrightarrow> (\<exists>is. set is \<subseteq> P \<and> snd w' = snd w @ numbered (pr_input_seq (fst w)) is \<and>
     pr_input_seq (fst w') = pr_input_seq (fst w) + of_nat (length is) \<and> (seen (pr_game (fst w)) \<longrightarrow> seen (pr_game (fst w'))))"

lemma sends_refl [simp]: "sends P w w"
  unfolding sends_def by (intro exI [of _ "[]"]) simp

lemma sends_trans:
  assumes "sends P w u" "sends P u v" shows "sends P w v"
proof -
  obtain "is" js where "set is \<subseteq> P" "snd u = snd w @ numbered (pr_input_seq (fst w)) is"
    "pr_input_seq (fst u) = pr_input_seq (fst w) + of_nat (length is)" "seen (pr_game (fst w)) \<longrightarrow> seen (pr_game (fst u))"
    "set js \<subseteq> P" "snd v = snd u @ numbered (pr_input_seq (fst u)) js"
    "pr_input_seq (fst v) = pr_input_seq (fst u) + of_nat (length js)" "seen (pr_game (fst u)) \<longrightarrow> seen (pr_game (fst v))"
    using assms by (auto simp: sends_def)
  then show ?thesis unfolding sends_def by (intro exI [of _ "is @ js"]) (simp add: numbered_append)
qed

lemma sends_mono: "sends P w u \<Longrightarrow> P \<subseteq> Q \<Longrightarrow> sends Q w u"
  unfolding sends_def by blast

lemma apply_shop_game: "snd (apply_shop i g) = g \<or> snd (apply_shop i g) = apply_to_game i g"
  by (cases i) (auto simp: apply_shop_def apply_to_game_def with_token_def split: option.split)

lemma predict_seen: "seen (pr_game p) \<Longrightarrow> seen (pr_game (snd (predict i p)))"
proof -
  assume s: "seen (pr_game p)"
  have "seen (snd (apply_shop i (pr_game p)))" using apply_shop_game [of i "pr_game p"] s seen_apply by metis
  then show ?thesis using s seen_apply [OF s, of i]
    by (cases i) (auto simp: predict_def Let_def split_beta)
qed

lemma send_sends: "i \<in> P \<Longrightarrow> sends P w (send_input i w)"
proof (cases rule: predict_cases [of i "fst w"])
  case held
  then show ?thesis by (cases w) (simp add: send_input_def)
next
  case (refused g)
  then show ?thesis
    using predict_seen [of "fst w" i] unfolding sends_def by (intro exI [of _ "[]"]) (simp add: send_input_def)
next
  case (sent g)
  then show "i \<in> P \<Longrightarrow> ?thesis"
    using predict_seen [of "fst w" i] unfolding sends_def by (intro exI [of _ "[i]"]) (simp add: send_input_def)
qed

lemma turn_sends: "Rotate \<in> P \<Longrightarrow> sends P w (turn_to n ori w)"
proof (induction n arbitrary: w)
  case (Suc n)
  then show ?case using sends_trans [OF send_sends [OF Suc.prems, of w] Suc.IH [OF Suc.prems]] by (simp split: option.split)
qed simp

lemma step_sends: "MoveLeft \<in> P \<Longrightarrow> MoveRight \<in> P \<Longrightarrow> sends P w (step_to n x w)"
proof (induction n arbitrary: w)
  case (Suc n)
  show ?case
    using sends_trans [OF send_sends [OF Suc.prems(1), of w] Suc.IH [OF Suc.prems]]
      sends_trans [OF send_sends [OF Suc.prems(2), of w] Suc.IH [OF Suc.prems]] by (simp split: option.split)
qed simp

definition moves :: "input set" where
  "moves = {Rotate, MoveLeft, MoveRight, BeginDrop} \<union> range LaunchWeapon"

definition errands :: "input set" where
  "errands = {LeaveBazaar} \<union> range BuyWeapon"

lemma play_piece_sends: "sends moves w (play_piece pl w)"
proof -
  have m: "Rotate \<in> moves" "MoveLeft \<in> moves" "MoveRight \<in> moves" "BeginDrop \<in> moves" by (simp_all add: moves_def)
  have "sends moves w (send_input BeginDrop (step_to k x (turn_to n ori w)))" for k x n ori
    using sends_trans [OF sends_trans [OF turn_sends [OF m(1)] step_sends [OF m(2,3)]] send_sends [OF m(4)]] .
  then show ?thesis by (simp add: play_piece_def Let_def split: option.split)
qed

lemma fold_sends:
  "(\<And>x. x \<in> set xs \<Longrightarrow> f x \<in> P) \<Longrightarrow> sends P w (fold (\<lambda>x. send_input (f x)) xs w)"
proof (induction xs arbitrary: w)
  case (Cons x xs)
  have "f x \<in> P" "\<And>y. y \<in> set xs \<Longrightarrow> f y \<in> P" using Cons.prems by auto
  then show ?case using sends_trans [OF send_sends Cons.IH] by (simp add: comp_def)
qed simp

subsection \<open>A tick of the bot\<close>

text \<open>The state and the frames, as a step of the wire.\<close>

definition bot_wire :: "bot_match \<times> out_msg list \<Rightarrow> wire" where
  "bot_wire s = (bm_predictor (fst s), snd s)"

lemma shop_sends: "sends errands (bm_predictor st, out) (bot_wire (shop_bazaar st out))"
proof -
  let ?g = "pr_game (bm_predictor st)"
  obtain plan where plan: "plan = (if g_in_bazaar ?g \<and> bm_weapons_on st
      then buy_plan (s_funds (g_score ?g)) (arsenal_of ?g) (weapon_active ?g Carter) else [])" by blast
  obtain w where w: "w = fold (\<lambda>tok. send_input (BuyWeapon (int (index tok)))) plan (bm_predictor st, out)" by blast
  have "sends errands (bm_predictor st, out) w" unfolding w by (rule fold_sends) (simp add: errands_def)
  moreover have "sends errands w (send_input LeaveBazaar w)" by (rule send_sends) (simp add: errands_def)
  moreover have "bot_wire (shop_bazaar st out) = send_input LeaveBazaar w"
    by (simp add: shop_bazaar_def bot_wire_def plan [symmetric] w [symmetric] Let_def split_beta)
  ultimately show ?thesis using sends_trans by metis
qed

lemma launch_sends: "sends moves (bm_predictor st, out) (bot_wire (bot_launch st out))"
proof -
  have "sends moves (bm_predictor st, out) (send_input (LaunchWeapon n) (bm_predictor st, out))" for n
    by (rule send_sends) (simp add: moves_def)
  then show ?thesis by (simp add: bot_launch_def bot_wire_def Let_def split_beta split: option.split)
qed

lemma search_total:
  assumes "std_board b" "in_cycle p"
  shows "\<exists>pl. best_placement b p = Some pl" "\<exists>pl. best_placement_strong b p = Some pl"
    "\<exists>r. best_placement_skill b p skill rng = Some r"
  unfolding best_placement_def best_placement_strong_def best_placement_skill_def
  by (simp_all add: for_each_landing_eq [OF assms] Let_def)

lemma place_sends:
  assumes "seen (pr_game (bm_predictor st))"
  shows "\<exists>s. bot_place st out = Some s \<and> sends moves (bm_predictor st, out) (bot_wire s) \<and> bm_done (fst s) = bm_done st"
proof (cases "g_current (pr_game (bm_predictor st))")
  case None
  then show ?thesis by (simp add: bot_place_def bot_wire_def)
next
  case (Some p)
  let ?g = "pr_game (bm_predictor st)"
  have total: "\<exists>pl. best_placement (g_board ?g) p = Some pl" "\<exists>pl. best_placement_strong (g_board ?g) p = Some pl"
    "\<exists>r. best_placement_skill (g_board ?g) p (bm_skill st) (bm_rng st) = Some r"
    using search_total seen_board [OF assms] Some by blast+
  obtain pl rng where "(if pe_roam (bm_persona st) then best_placement_skill (g_board ?g) p (bm_skill st) (bm_rng st)
      else if pe_strong (bm_persona st) then map_option (\<lambda>pl. (pl, bm_rng st)) (best_placement_strong (g_board ?g) p)
      else map_option (\<lambda>pl. (pl, bm_rng st)) (best_placement (g_board ?g) p)) = Some (pl, rng)"
    using total by fastforce
  then show ?thesis
    using play_piece_sends [of "(bm_predictor st, out)" pl] by (simp add: bot_place_def Some bot_wire_def split_beta)
qed

lemma launch_rest: "bm_done (fst (bot_launch st out)) = bm_done st"
  by (simp add: bot_launch_def Let_def split_beta split: option.split)

lemma play_sends:
  assumes "seen (pr_game (bm_predictor st))"
  shows "\<exists>s. bot_play st out = Some s \<and> sends moves (bm_predictor st, out) (bot_wire s) \<and> bm_done (fst s) = bm_done st"
proof -
  obtain g where g: "tick BOT_TICK_MS (pr_game (bm_predictor st)) = Some g" "seen g" using seen_tick [OF assms] by blast
  obtain p where p: "pr_tick BOT_TICK_MS (bm_predictor st) = Some p" "pr_game p = g" "pr_input_seq p = pr_input_seq (bm_predictor st)"
    using g(1) by (simp add: pr_tick_def)
  obtain t where t: "t = st\<lparr>bm_predictor := p\<rparr>" by blast
  have start: "sends moves (bm_predictor st, out) (bm_predictor t, out)"
    unfolding sends_def by (intro exI [of _ "[]"]) (simp add: t p g(2))
  have td: "bm_done t = bm_done st" by (simp add: t)
  obtain u ou where u: "bot_launch t out = (u, ou)" by fastforce
  have us: "sends moves (bm_predictor st, out) (bm_predictor u, ou)" "bm_done u = bm_done st"
    using sends_trans [OF start launch_sends [of t out]] launch_rest [of t out] td by (simp_all add: u bot_wire_def)
  then have "seen (pr_game (bm_predictor u))" using assms by (auto simp: sends_def)
  from place_sends [OF this, of ou] obtain s where s: "bot_place u ou = Some s" "sends moves (bm_predictor u, ou) (bot_wire s)"
    "bm_done (fst s) = bm_done u" by blast
  have play: "bot_play st out = (if g_phase g = Over then Some (t, out)
      else if bm_cooldown u > 0 then Some (u\<lparr>bm_cooldown := bm_cooldown u - 1\<rparr>, ou) else bot_place u ou)"
    by (simp add: bot_play_def p t [symmetric] u)
  show ?thesis
    using start us s sends_trans [OF us(1) s(2)] td by (cases s) (simp add: play bot_wire_def)
qed

lemma age_rest [simp]: "bm_predictor (age st) = bm_predictor st" "bm_done (age st) = bm_done st" "bm_acked (age st) = bm_acked st"
  "bm_in_bazaar (age st) = bm_in_bazaar st" "bm_opp_in_bazaar (age st) = bm_opp_in_bazaar st"
  "bm_bazaar_bought (age st) = bm_bazaar_bought st" "bm_idle_ticks (age st) = bm_idle_ticks st + 1"
  "bm_weapons_on (age st) = bm_weapons_on st"
  by (simp_all add: age_def Let_def)

lemma decide_cases:
  obtains (End) "decide (sync_of st) = End"
    | (WaitAck) "decide (sync_of st) = WaitAck"
    | (WaitBazaar) "decide (sync_of st) = WaitBazaar" "pr_input_seq (bm_predictor st) \<le> bm_acked st"
    | (Shop) "decide (sync_of st) = Shop" "pr_input_seq (bm_predictor st) \<le> bm_acked st" "bm_in_bazaar st"
        "g_in_bazaar (pr_game (bm_predictor st))" "\<not> bm_bazaar_bought st"
    | (Play) "decide (sync_of st) = Play" "pr_input_seq (bm_predictor st) \<le> bm_acked st" "\<not> bm_in_bazaar st" "\<not> bm_opp_in_bazaar st"
        "\<not> g_in_bazaar (pr_game (bm_predictor st))"
  by (cases "decide (sync_of st)") (auto simp: decide_def sync_of_def split: if_splits)

text \<open>A tick sends nothing, or its errands in the bazaar, or its moves in the open.\<close>

definition allowed :: "bot_match \<Rightarrow> input set \<Rightarrow> bool" where
  "allowed st P \<longleftrightarrow> \<not> bm_done st \<and> pr_input_seq (bm_predictor st) \<le> bm_acked st \<and>
     ((P = errands \<and> bm_in_bazaar st) \<or> (P = moves \<and> \<not> bm_in_bazaar st \<and> \<not> bm_opp_in_bazaar st))"

lemma drive_tick_sends:
  assumes "seen (pr_game (bm_predictor st))"
  shows "\<exists>s P. drive_tick st = Some s \<and> sends P (bm_predictor st, []) (bot_wire s) \<and> (P = {} \<or> allowed st P)"
proof (cases "bm_done st")
  case True
  then show ?thesis by (auto simp: drive_tick_def bot_wire_def intro!: exI [of _ "{}"])
next
  case False
  obtain a where a: "a = age st" by blast
  have keep: "bm_predictor a = bm_predictor st" "bm_in_bazaar a = bm_in_bazaar st" "bm_opp_in_bazaar a = bm_opp_in_bazaar st"
    "bm_acked a = bm_acked st" by (simp_all add: a)
  have drive: "drive_tick st = (case decide (sync_of a) of
          End \<Rightarrow> Some (if bm_idle_ticks a > STALE_TICKS then a\<lparr>bm_done := True\<rparr> else a, [])
        | WaitAck \<Rightarrow> Some (a, [])
        | WaitBazaar \<Rightarrow> Some (if bm_in_bazaar a \<and> bm_bazaar_bought a then
              (let (p, out) = send_input LeaveBazaar (bm_predictor a, []) in (a\<lparr>bm_predictor := p\<rparr>, out)) else (a, []))
        | Shop \<Rightarrow> Some (let (st, out) = shop_bazaar a [] in (st\<lparr>bm_bazaar_bought := True\<rparr>, out))
        | Play \<Rightarrow> bot_play a [])" using False by (simp add: drive_tick_def a [symmetric])
  show ?thesis
  proof (cases rule: decide_cases [of a])
    case End
    then show ?thesis using keep by (auto simp: drive bot_wire_def intro!: exI [of _ "{}"])
  next
    case WaitAck
    then show ?thesis using keep by (auto simp: drive bot_wire_def intro!: exI [of _ "{}"])
  next
    case WaitBazaar
    have "sends errands (bm_predictor st, []) (send_input LeaveBazaar (bm_predictor st, []))"
      by (rule send_sends) (simp add: errands_def)
    then show ?thesis
      using WaitBazaar keep False by (cases "bm_in_bazaar a \<and> bm_bazaar_bought a")
        (auto simp: drive bot_wire_def allowed_def split_beta intro: exI [of _ "{}"])
  next
    case Shop
    then show ?thesis
      using shop_sends [of a "[]"] keep False by (auto simp: drive bot_wire_def allowed_def split_beta)
  next
    case Play
    then show ?thesis
      using play_sends [of a "[]"] assms keep False by (auto simp: drive allowed_def)
  qed
qed

text \<open>
  C4. A tick of the bot returns, and it keeps to the server's pace: it sends something only when every
  input it has sent is acknowledged, its frames carry the next numbers in order without a gap, it shops or
  leaves only while the server says that it is in the bazaar, and it plays a move or launches only when
  neither side is known to shop. So a leave goes out only on the word of the server itself.
\<close>

theorem bot_keeps_pace:
  assumes "seen (pr_game (bm_predictor st))"
  shows "\<exists>st' is. drive_tick st = Some (st', numbered (pr_input_seq (bm_predictor st)) is) \<and> seen (pr_game (bm_predictor st')) \<and>
    pr_input_seq (bm_predictor st') = pr_input_seq (bm_predictor st) + of_nat (length is) \<and>
    (is \<noteq> [] \<longrightarrow> \<not> bm_done st \<and> pr_input_seq (bm_predictor st) \<le> bm_acked st) \<and>
    (\<forall>i \<in> set is. if i = LeaveBazaar \<or> (\<exists>t. i = BuyWeapon t) then bm_in_bazaar st
       else (i \<in> {Rotate, MoveLeft, MoveRight, BeginDrop} \<or> (\<exists>n. i = LaunchWeapon n)) \<and> \<not> bm_in_bazaar st \<and> \<not> bm_opp_in_bazaar st)"
proof -
  obtain s P where s: "drive_tick st = Some s" "sends P (bm_predictor st, []) (bot_wire s)" "P = {} \<or> allowed st P"
    using drive_tick_sends [OF assms] by blast
  obtain "is" where i: "set is \<subseteq> P" "snd s = numbered (pr_input_seq (bm_predictor st)) is"
    "pr_input_seq (bm_predictor (fst s)) = pr_input_seq (bm_predictor st) + of_nat (length is)" "seen (pr_game (bm_predictor (fst s)))"
    using s(2) assms by (auto simp: sends_def bot_wire_def)
  have "\<forall>i \<in> set is. if i = LeaveBazaar \<or> (\<exists>t. i = BuyWeapon t) then bm_in_bazaar st
     else (i \<in> {Rotate, MoveLeft, MoveRight, BeginDrop} \<or> (\<exists>n. i = LaunchWeapon n)) \<and> \<not> bm_in_bazaar st \<and> \<not> bm_opp_in_bazaar st"
    using i(1) s(3) by (auto simp: allowed_def errands_def moves_def)
  moreover have "is \<noteq> [] \<longrightarrow> \<not> bm_done st \<and> pr_input_seq (bm_predictor st) \<le> bm_acked st"
    using i(1) s(3) by (auto simp: allowed_def)
  ultimately show ?thesis
    using s(1) i(2-4) by (intro exI [of _ "fst s"] exI [of _ "is"]) (simp add: prod_eq_iff)
qed

theorem bot_keeps_pace_witness:
  "\<exists>st st' is. bot_match_new 7 (persona_named ''bert'') 1000 = Some st \<and>
    drive_tick st = Some (st', numbered (pr_input_seq (bm_predictor st)) is) \<and> seen (pr_game (bm_predictor st'))"
proof -
  obtain g where g: "game_new 7 = Some g" "reachable g" by (rule reachable_new)
  then obtain p where p: "pr_new 7 = Some p" "pr_game p = g" by (simp add: pr_new_def)
  then obtain st where st: "bot_match_new 7 (persona_named ''bert'') 1000 = Some st" "bm_predictor st = p"
    by (simp add: bot_match_new_def Let_def)
  then have "seen (pr_game (bm_predictor st))" using p(2) seen_reachable [OF g(2)] by simp
  from bot_keeps_pace [OF this] show ?thesis using st(1) by blast
qed

subsection \<open>A visit to the bazaar\<close>

definition empties :: "arsenal \<Rightarrow> nat" where
  "empties a = length (filter (\<lambda>i. rep a ! i = None) [0..<10])"

lemma free_slots_of:
  assumes "length (rep (g_arsenal g)) = 10" shows "free_slots (arsenal_of g) = int (empties (g_arsenal g))"
proof -
  have "token_int x < 0 \<longleftrightarrow> x = None" for x by (cases x) (simp_all add: token_int_def)
  then have "filter (\<lambda>i. token_int (slot_token (g_arsenal g) i) < 0) [0..<10] = filter (\<lambda>i. rep (g_arsenal g) ! i = None) [0..<10]"
    using assms by (intro filter_cong) (simp_all add: slot_token_def)
  then show ?thesis by (simp add: free_slots_def arsenal_of_def filter_map comp_def empties_def)
qed

lemma empties_buy:
  assumes "length (rep a) = 10" "0 < empties a"
  shows "fst (buy a t)" "empties a \<le> empties (snd (buy a t)) + 1" "length (rep (snd (buy a t))) = 10"
proof -
  obtain i where i: "i < 10" "rep a ! i = None" using assms(2) by (auto simp: empties_def filter_empty_conv)
  then show "fst (buy a t)" by (auto simp: buy_accepts)
  have card: "empties c = card {i. i < 10 \<and> rep c ! i = None}" for c
    by (simp add: empties_def distinct_card [symmetric] del: upt.simps)
  show "empties a \<le> empties (snd (buy a t)) + 1"
  proof (cases rule: buy_cases [of a t])
    case (slot j)
    then have "{i. i < 10 \<and> rep a ! i = None} \<subseteq> insert j {i. i < 10 \<and> rep (snd (buy a t)) ! i = None}"
      using assms(1) by (auto simp: nth_list_update)
    from card_mono [OF _ this] show ?thesis unfolding card
      using card_insert_le_m1 [of "card {i. i < 10 \<and> rep (snd (buy a t)) ! i = None} + 1"] by (simp add: card_insert_if split: if_splits)
  qed simp
  show "length (rep (snd (buy a t))) = 10"
    by (cases rule: buy_cases [of a t]) (use assms(1) in simp_all)
qed

text \<open>Purchases that the funds and the free slots cover are all accepted.\<close>

lemma buys_covered:
  assumes "g_in_bazaar g" "length (rep (g_arsenal g)) = 10" "length ts \<le> empties (g_arsenal g)"
    and "ts \<noteq> [] \<longrightarrow> sum_list (map (\<lambda>t. bazaar_price t g) ts) \<le> s_funds (g_score g)"
  shows "\<exists>g'. buys ts g = Some g'"
  using assms
proof (induction ts arbitrary: g)
  case (Cons t ts)
  let ?h = "add_score_funds (- bazaar_price t g) (g\<lparr>g_arsenal := snd (buy (g_arsenal g) t)\<rparr>)"
  have e: "0 < empties (g_arsenal g)" using Cons.prems(3) by simp
  note B = empties_buy [OF Cons.prems(2) e, of t]
  have "0 \<le> sum_list (map (\<lambda>t. bazaar_price t g) ts)"
    by (rule sum_list_nonneg) (auto simp: bazaar_price_nonneg)
  then have rest: "bazaar_price t g \<le> s_funds (g_score g)"
    "sum_list (map (\<lambda>t. bazaar_price t g) ts) \<le> s_funds (g_score g) - bazaar_price t g" using Cons.prems(4) by simp_all
  have "buy_weapon t g = (True, ?h)"
    using Cons.prems(1) rest(1) B(1) by (simp add: buy_weapon_def bazaar_price_def Let_def split_beta)
  moreover have h: "g_in_bazaar ?h" "length (rep (g_arsenal ?h)) = 10" "length ts \<le> empties (g_arsenal ?h)"
    "s_funds (g_score ?h) = s_funds (g_score g) - bazaar_price t g"
    using Cons.prems(1,3) B by (simp_all add: add_score_funds_def)
  have price: "bazaar_price u ?h = bazaar_price u g" for u by (simp add: bazaar_price_def weapon_active_def add_score_funds_def)
  have "\<exists>g'. buys ts ?h = Some g'" by (rule Cons.IH [OF h(1-3)]) (use rest(2) h(4) price in simp)
  ultimately show ?case by simp
qed simp

lemma plan_accepted:
  assumes "g_in_bazaar g" "length (rep (g_arsenal g)) = 10"
  shows "\<exists>g'. buys (buy_plan (s_funds (g_score g)) (arsenal_of g) (weapon_active g Carter)) g = Some g'"
proof -
  obtain ts where ts: "ts = buy_plan (s_funds (g_score g)) (arsenal_of g) (weapon_active g Carter)" by blast
  have "ts \<noteq> [] \<longrightarrow> total (weapon_active g Carter) ts \<le> s_funds (g_score g) \<and> int (length ts) \<le> free_slots (arsenal_of g)"
    unfolding ts by (rule buy_plan_parts [of "s_funds (g_score g)" "arsenal_of g" "weapon_active g Carter"]) simp
  moreover have "map (bot_price (weapon_active g Carter)) ts = map (\<lambda>t. bazaar_price t g) ts" by (simp add: bot_price_bazaar)
  ultimately have "ts \<noteq> [] \<longrightarrow> sum_list (map (\<lambda>t. bazaar_price t g) ts) \<le> s_funds (g_score g)"
    "length ts \<le> empties (g_arsenal g)" using free_slots_of [OF assms(2)] by (auto simp: total_def)
  from buys_covered [OF assms this(2,1)] show ?thesis by (simp add: ts)
qed

definition buy_input :: "weapon_token \<Rightarrow> input" where
  "buy_input t = BuyWeapon (int (index t))"

lemma buy_input_applies: "apply_to_game (buy_input t) g = snd (buy_weapon t g)"
  by (simp add: buy_input_def apply_to_game_def with_token_def)

lemma send_buys:
  assumes "buys ts (pr_game p) = Some g'"
  shows "\<exists>q. fold (\<lambda>t. send_input (buy_input t)) ts (p, out) = (q, out @ numbered (pr_input_seq p) (map buy_input ts)) \<and>
    pr_game q = g' \<and> g' = fold apply_to_game (map buy_input ts) (pr_game p) \<and>
    pr_input_seq q = pr_input_seq p + of_nat (length ts) \<and> pr_you_bazaar q = pr_you_bazaar p"
  using assms
proof (induction ts arbitrary: p out)
  case (Cons t ts)
  obtain h where h: "buy_weapon t (pr_game p) = (True, h)" "buys ts h = Some g'"
    using Cons.prems by (auto split: prod.splits bool.splits)
  have shop: "apply_shop (buy_input t) (pr_game p) = (True, h)" by (simp add: buy_input_def apply_shop_def h(1))
  obtain q where q: "predict (buy_input t) p = (Some (pr_input_seq p + 1, buy_input t), q)" "pr_game q = h"
    "pr_input_seq q = pr_input_seq p + 1" "pr_you_bazaar q = pr_you_bazaar p"
    using shop by (simp add: predict_def buy_input_def is_shopping_def Let_def)
  have "send_input (buy_input t) (p, out) = (q, out @ [Out_input (pr_input_seq p + 1) (buy_input t)])"
    by (simp add: send_input_def q(1))
  moreover have "buys ts (pr_game q) = Some g'" using h(2) q(2) by simp
  ultimately show ?case
    using Cons.IH [of q "out @ [Out_input (pr_input_seq p + 1) (buy_input t)]"] q h(1)
    by (auto simp: add.assoc buy_input_applies)
qed simp

lemma send_leave:
  "\<exists>q. send_input LeaveBazaar (p, out) = (q, out @ [Out_input (pr_input_seq p + 1) LeaveBazaar]) \<and> pr_game q = pr_game p \<and>
    pr_input_seq q = pr_input_seq p + 1 \<and> pr_you_bazaar q = pr_you_bazaar p"
  by (simp add: send_input_def predict_def Let_def)

text \<open>The frames as the messages that reach the host.\<close>

fun delivered :: "side \<Rightarrow> out_msg list \<Rightarrow> message list" where
  "delivered s [] = []"
| "delivered s (m # ms) = (case m of Out_input n i \<Rightarrow> (s, i, n) # delivered s ms | _ \<Rightarrow> delivered s ms)"

lemma host_takes:
  assumes "\<forall>i \<in> set is. is_legal_client_input i \<and> is_bazaar_input i" "bo_ack b s = n" "unat n + length is < 2 ^ 64"
  shows "\<exists>b'. clients (delivered s (numbered n is)) b = (delivered s (numbered n is), b') \<and>
    v_game s (bo_versus b') = fold apply_to_game is (v_game s (bo_versus b)) \<and> bo_ack b' s = n + of_nat (length is)"
  using assms
proof (induction "is" arbitrary: b n)
  case (Cons i "is")
  have "unat n + 1 < 2 ^ 64" using Cons.prems(3) by simp
  then have n: "unat (n + 1) = unat n + 1" by (simp add: unat_word_ariths)
  then have "\<not> n + 1 \<le> n" by (simp add: word_le_nat_alt)
  then obtain c where c: "bout_input s i (n + 1) b = (True, c)" "v_game s (bo_versus c) = apply_to_game i (v_game s (bo_versus b))"
    "bo_ack c s = n + 1"
    using Cons.prems(1,2) by (simp add: bout_input_def Let_def push_frame_def)
  have "\<forall>i \<in> set is. is_legal_client_input i \<and> is_bazaar_input i" "unat (n + 1) + length is < 2 ^ 64"
    using Cons.prems(1,3) n by simp_all
  from Cons.IH [OF this(1) c(3) this(2)] show ?case by (auto simp: c add.assoc)
qed simp

lemma buys_map: "fold (\<lambda>tok. send_input (BuyWeapon (int (index tok)))) ts w = fold (\<lambda>t. send_input (buy_input t)) ts w"
  by (simp add: buy_input_def)

lemma shop_bazaar_out:
  assumes "g_in_bazaar (pr_game (bm_predictor st))" "length (rep (g_arsenal (pr_game (bm_predictor st)))) = 10"
  shows "\<exists>is st'. shop_bazaar st [] = (st', numbered (pr_input_seq (bm_predictor st)) (is @ [LeaveBazaar])) \<and>
    (\<forall>i \<in> set is. is_legal_client_input i \<and> is_bazaar_input i \<and> i \<noteq> LeaveBazaar) \<and> int (length is) \<le> 10 \<and>
    pr_game (bm_predictor st') = fold apply_to_game is (pr_game (bm_predictor st)) \<and>
    pr_input_seq (bm_predictor st') = pr_input_seq (bm_predictor st) + of_nat (length is) + 1 \<and>
    pr_you_bazaar (bm_predictor st') = pr_you_bazaar (bm_predictor st)"
proof -
  let ?p = "bm_predictor st" and ?g = "pr_game (bm_predictor st)"
  define ts where "ts = (if g_in_bazaar ?g \<and> bm_weapons_on st
      then buy_plan (s_funds (g_score ?g)) (arsenal_of ?g) (weapon_active ?g Carter) else [])"
  obtain g' where "buys ts ?g = Some g'" using plan_accepted [OF assms] assms(1) by (cases "bm_weapons_on st") (auto simp: ts_def)
  from send_buys [OF this, of "[]"] obtain q where q: "fold (\<lambda>t. send_input (buy_input t)) ts (?p, [])
      = (q, numbered (pr_input_seq ?p) (map buy_input ts))" "pr_game q = fold apply_to_game (map buy_input ts) ?g"
    "pr_input_seq q = pr_input_seq ?p + of_nat (length ts)" "pr_you_bazaar q = pr_you_bazaar ?p" by auto
  obtain r where r: "send_input LeaveBazaar (q, numbered (pr_input_seq ?p) (map buy_input ts))
      = (r, numbered (pr_input_seq ?p) (map buy_input ts) @ [Out_input (pr_input_seq q + 1) LeaveBazaar])"
    "pr_game r = pr_game q" "pr_input_seq r = pr_input_seq q + 1" "pr_you_bazaar r = pr_you_bazaar q"
    using send_leave by blast
  have "shop_bazaar st [] = (st\<lparr>bm_predictor := r\<rparr>, numbered (pr_input_seq ?p) (map buy_input ts @ [LeaveBazaar]))"
    by (simp add: shop_bazaar_def ts_def [symmetric] Let_def buys_map q(1) r(1) numbered_append q(3))
  moreover have "is_legal_client_input i \<and> is_bazaar_input i \<and> i \<noteq> LeaveBazaar" if "i \<in> set (map buy_input ts)" for i
    using that by (auto simp: buy_input_def is_legal_client_input_def is_bazaar_input_def)
  moreover have "int (length ts) \<le> 10"
  proof -
    have "ts \<noteq> [] \<longrightarrow> int (length ts) \<le> free_slots (arsenal_of ?g)"
      by (rule buy_plan_parts [of "s_funds (g_score ?g)" "arsenal_of ?g" "weapon_active ?g Carter"]) (simp add: ts_def)
    moreover have "free_slots (arsenal_of ?g) \<le> 10"
      using length_filter_le [of "\<lambda>t. t < 0" "arsenal_of ?g"] by (simp add: free_slots_def arsenal_of_def)
    ultimately show ?thesis by (cases "ts = []") auto
  qed
  ultimately show ?thesis
    using q r by (intro exI [of _ "map buy_input ts"] exI [of _ "st\<lparr>bm_predictor := r\<rparr>"]) simp
qed

text \<open>
  C5. No frozen match: a bot that the server confirms to be in the bazaar, in step with it and with
  nothing in flight, buys and leaves in its next tick; the host takes every one of these frames, is out of
  the bazaar after them with exactly the purchases the bot made, and has acknowledged all; and the next
  snapshot, even without a keyframe, brings the bot's own game back in step, so that it can play on.
\<close>

theorem bot_clears_bazaar:
  assumes "reachable (v_game s (bo_versus b))" "g_in_bazaar (v_game s (bo_versus b))"
    and "client_view (pr_game (bm_predictor st)) = client_view (v_game s (bo_versus b))"
    and "bm_in_bazaar st" "pr_you_bazaar (bm_predictor st)" "\<not> bm_bazaar_bought st" "\<not> bm_done st" "bm_idle_ticks st < STALE_TICKS"
    and "bm_acked st = bo_ack b s" "pr_input_seq (bm_predictor st) = bo_ack b s" "unat (bo_ack b s) + 11 < 2 ^ 64"
  shows "\<exists>st' out b'. drive_tick st = Some (st', out) \<and> clients (delivered s out) b = (delivered s out, b') \<and>
    \<not> g_in_bazaar (v_game s (bo_versus b')) \<and> bo_ack b' s = pr_input_seq (bm_predictor st') \<and>
    v_game s (bo_versus b') = fold apply_to_game (map (\<lambda>(_, i, _). i) (delivered s out)) (v_game s (bo_versus b)) \<and>
    client_view (pr_game (on_snapshot (bo_ack b' s) False opp None (bm_predictor st'))) = client_view (v_game s (bo_versus b'))"
proof -
  let ?h = "v_game s (bo_versus b)"
  obtain a where a: "a = age st" by blast
  have ap: "bm_predictor a = bm_predictor st" by (simp add: a)
  have here: "g_in_bazaar (pr_game (bm_predictor st))" using client_view_bazaar [OF assms(3)] assms(2) by simp
  have "seen (pr_game (bm_predictor st))" using assms(1,3) by (auto simp: seen_def)
  then have len: "length (rep (g_arsenal (pr_game (bm_predictor st)))) = 10" using seen_board by blast
  have "\<not> STALE_TICKS < bm_idle_ticks st + 1"
    using assms(8) inc_le [of "bm_idle_ticks st" STALE_TICKS] by (simp add: not_less)
  then have "decide (sync_of a) = Shop" using assms here by (simp add: decide_def sync_of_def a)
  obtain "is" st1 where sh: "shop_bazaar a [] = (st1, numbered (bo_ack b s) (is @ [LeaveBazaar]))"
    "\<forall>i \<in> set is. is_legal_client_input i \<and> is_bazaar_input i \<and> i \<noteq> LeaveBazaar" "int (length is) \<le> 10"
    "pr_game (bm_predictor st1) = fold apply_to_game is (pr_game (bm_predictor st))"
    "pr_input_seq (bm_predictor st1) = bo_ack b s + of_nat (length is) + 1" "pr_you_bazaar (bm_predictor st1)"
    using shop_bazaar_out [of a] here len assms(5,10) unfolding ap by auto
  let ?out = "numbered (bo_ack b s) (is @ [LeaveBazaar])" and ?st' = "st1\<lparr>bm_bazaar_bought := True\<rparr>"
  have drive: "drive_tick st = Some (?st', ?out)"
    using assms(7) \<open>decide (sync_of a) = Shop\<close> by (simp add: drive_tick_def a [symmetric] sh(1))
  have "\<forall>i \<in> set (is @ [LeaveBazaar]). is_legal_client_input i \<and> is_bazaar_input i"
    using sh(2) by (auto simp: is_legal_client_input_def is_bazaar_input_def)
  from host_takes [OF this refl, of b s] obtain b' where b': "clients (delivered s ?out) b = (delivered s ?out, b')"
    "v_game s (bo_versus b') = leave_bazaar (fold apply_to_game is ?h)" "bo_ack b' s = bo_ack b s + of_nat (length is) + 1"
    using assms(11) sh(3) by (auto simp: apply_to_game_def add.commute add.left_commute)
  have view: "client_view (fold apply_to_game is (pr_game (bm_predictor st))) = client_view (fold apply_to_game is ?h)"
    by (rule client_view_fold [OF assms(3)])
  have keeps: "\<forall>i \<in> set is. is_legal_client_input i \<and> i \<noteq> LeaveBazaar \<Longrightarrow> g_in_bazaar (fold apply_to_game is g) = g_in_bazaar g" for g
    by (induction "is" arbitrary: g) (simp_all add: legal_in_bazaar)
  have out: "pr_game (on_snapshot (bo_ack b' s) False opp None (bm_predictor ?st')) = leave_bazaar (pr_game (bm_predictor st1))"
    using sh(2,4,6) keeps here by (simp add: on_snapshot_def)
  have "client_view (leave_bazaar (fold apply_to_game is (pr_game (bm_predictor st)))) = client_view (leave_bazaar (fold apply_to_game is ?h))"
    using client_view_apply [OF view, of LeaveBazaar] by (simp add: apply_to_game_def)
  then have "client_view (pr_game (on_snapshot (bo_ack b' s) False opp None (bm_predictor ?st'))) = client_view (v_game s (bo_versus b'))"
    by (simp only: out sh(4) b'(2))
  moreover have "map (\<lambda>(_, i, _). i) (delivered s (numbered n js)) = js" for n js by (induction js arbitrary: n) simp_all
  ultimately show ?thesis
    using drive b' sh(5) by (intro exI [of _ ?st'] exI [of _ ?out] exI [of _ b']) (simp add: leave_bazaar_def apply_to_game_def)
qed

text \<open>The twentieth line of the opponent opens the bazaar of a new game.\<close>

definition to_bazaar :: "game \<Rightarrow> game" where
  "to_bazaar g = apply_to_game (ReceiveOpScore 0 20 0) (apply_to_game (ReceiveOpScore 0 19 0) g)"

lemma insert_lines_score:
  "g_score (fold (\<lambda>_. insert_one) xs g) = g_score g" "g_lines_til_baz (fold (\<lambda>_. insert_one) xs g) = g_lines_til_baz g"
  by (induction xs arbitrary: g) (simp_all add: insert_one_def split_beta)

lemma to_bazaar_opens:
  assumes "s_lines (g_score g) = 0" shows "g_in_bazaar (to_bazaar g)"
proof -
  let ?h = "apply_to_game (ReceiveOpScore 0 19 0) g"
  have h: "s_lines (g_score ?h) = 0" "g_lines_til_baz ?h = 1"
    using assms by (simp_all add: apply_to_game_def receive_op_score_def update_bazaar_def Let_def bt_const insert_lines_score push_event_def)
  then show ?thesis
    by (simp add: to_bazaar_def apply_to_game_def receive_op_score_def update_bazaar_def Let_def bt_const insert_lines_score push_event_def)
qed

theorem bot_clears_bazaar_witness:
  "\<exists>b st st' out b'. bout_new 7 8 = Some b \<and> bot_match_new 7 (persona_named ''bert'') 1000 = Some st \<and>
     (let c = b\<lparr>bo_versus := upd_game Side_A to_bazaar (bo_versus b)\<rparr>;
          p = (bm_predictor st)\<lparr>pr_game := to_bazaar (pr_game (bm_predictor st)), pr_you_bazaar := True\<rparr>
      in drive_tick (st\<lparr>bm_predictor := p, bm_in_bazaar := True\<rparr>) = Some (st', out) \<and>
         clients (delivered Side_A out) c = (delivered Side_A out, b') \<and> \<not> g_in_bazaar (v_game Side_A (bo_versus b')))"
proof -
  obtain v where v: "versus_new 7 8 = Some v" by (rule played_new)
  then obtain g w where gw: "game_new 7 = Some g" "v = \<lparr>v_a = g, v_b = w, v_result = 0, v_dirty = False, v_spy = (\<lambda>_. []), v_outbox = (\<lambda>_. [])\<rparr>"
    by (auto simp: versus_new_def elim!: bind_eq_SomeE)
  obtain b where b: "bout_new 7 8 = Some b" "bo_versus b = v" "bo_ack b = (\<lambda>_. 0)" using v by (simp add: bout_new_def)
  obtain p where p: "pr_new 7 = Some p" "pr_game p = g" "pr_input_seq p = 0" using gw(1) by (simp add: pr_new_def)
  obtain st where st: "bot_match_new 7 (persona_named ''bert'') 1000 = Some st" "bm_predictor st = p" "bm_acked st = 0"
    "\<not> bm_done st" "\<not> bm_bazaar_bought st" "bm_idle_ticks st = 0" using p(1) by (simp add: bot_match_new_def Let_def)
  obtain c where c: "c = b\<lparr>bo_versus := upd_game Side_A to_bazaar (bo_versus b)\<rparr>" by blast
  obtain q where q: "q = p\<lparr>pr_game := to_bazaar (pr_game p), pr_you_bazaar := True\<rparr>" by blast
  obtain t where t: "t = st\<lparr>bm_predictor := q, bm_in_bazaar := True\<rparr>" by blast
  have "g_score (v_game Side_A v) = score_default" by (rule versus_new_fields(6) [OF v])
  then have "s_lines (g_score g) = 0" by (simp add: gw(2) v_game_def score_default_def)
  then have open_: "g_in_bazaar (to_bazaar g)" by (rule to_bazaar_opens)
  have reach: "reachable (to_bazaar g)" using apply_reachable r_new [OF gw(1)] by (simp add: to_bazaar_def)
  have host: "v_game Side_A (bo_versus c) = to_bazaar g" "bo_ack c Side_A = 0"
    by (simp_all add: c b(2,3) gw(2) v_game_def upd_game_def)
  have fields: "pr_game (bm_predictor t) = to_bazaar g" "pr_you_bazaar (bm_predictor t)" "bm_in_bazaar t" "\<not> bm_bazaar_bought t"
    "\<not> bm_done t" "bm_idle_ticks t < STALE_TICKS" "bm_acked t = 0" "pr_input_seq (bm_predictor t) = 0"
    using st p by (simp_all add: t q STALE_TICKS_def)
  obtain t' out c' where "drive_tick t = Some (t', out)" "clients (delivered Side_A out) c = (delivered Side_A out, c')"
    "\<not> g_in_bazaar (v_game Side_A (bo_versus c'))"
    using bot_clears_bazaar [where s = Side_A and b = c and st = t and opp = False] reach open_ by (auto simp: host fields)
  then show ?thesis
    unfolding Let_def using b(1) st(1) st(2) t q c by metis
qed

subsection \<open>The roaming challenger\<close>

definition eligible :: "nat \<Rightarrow> roam \<Rightarrow> string \<Rightarrow> bool" where
  "eligible now r name \<longleftrightarrow> (case ro_targets r name of Some t \<Rightarrow> ta_available t \<and> ta_next_eligible t \<le> now | None \<Rightarrow> False)"

definition bot_target :: "roam \<Rightarrow> string \<Rightarrow> bool" where
  "bot_target r name \<longleftrightarrow> (case ro_targets r name of Some t \<Rightarrow> ta_is_bot t | None \<Rightarrow> False)"

definition pick_loop :: "nat \<Rightarrow> roam \<Rightarrow> string \<Rightarrow> string option \<times> string option \<Rightarrow> string option \<times> string option" where
  "pick_loop now r name s =
     (if \<not> eligible now r name then s
      else if bot_target r name then (if fst s = None then Some name else fst s, snd s)
      else (fst s, if snd s = None then Some name else snd s))"

lemma pick_fold: "roam_pick order now r =
    (let (bot, human) = fold (pick_loop now r) order (None, None) in if human \<noteq> None then human else bot)"
proof -
  have "(\<lambda>name (bot, human). case ro_targets r name of
            Some t \<Rightarrow>
              (if \<not> ta_available t \<or> ta_next_eligible t > now then (bot, human)
               else if ta_is_bot t then (if bot = None then Some name else bot, human)
               else (bot, if human = None then Some name else human))
          | None \<Rightarrow> (bot, human)) = pick_loop now r"
    by (auto simp: fun_eq_iff pick_loop_def eligible_def bot_target_def split: option.split)
  then show ?thesis unfolding roam_pick_def by (rule arg_cong)
qed

text \<open>The first eligible human and the first eligible bot, in the order of the iteration.\<close>

lemma pick_first:
  "fold (pick_loop now r) order s =
     (if fst s \<noteq> None then fst s else find (\<lambda>n. eligible now r n \<and> bot_target r n) order,
      if snd s \<noteq> None then snd s else find (\<lambda>n. eligible now r n \<and> \<not> bot_target r n) order)"
proof (induction order arbitrary: s)
  case (Cons n ns)
  show ?case unfolding fold.simps comp_def Cons.IH by (auto simp: pick_loop_def)
qed (cases s; auto)

lemma pick_spec:
  "roam_pick order now r = (case find (\<lambda>n. eligible now r n \<and> \<not> bot_target r n) order of Some n \<Rightarrow> Some n
     | None \<Rightarrow> find (\<lambda>n. eligible now r n \<and> bot_target r n) order)"
  by (simp add: pick_fold pick_first split: option.split)

lemma pick_eligible: "roam_pick order now r = Some n \<Longrightarrow> eligible now r n"
  by (auto simp: pick_spec find_Some_iff split: option.splits)

text \<open>A challenge goes out only to an eligible player, at most one is outstanding, and a human comes first.\<close>

lemma roam_step_challenge:
  assumes "roam_step order now r = (Some who, r')"
  shows "eligible now r who \<and> (bot_target r who \<longrightarrow> (\<forall>n \<in> set order. eligible now r n \<longrightarrow> bot_target r n)) \<and>
    (\<forall>n sent. ro_pending r = Some (n, sent) \<longrightarrow> sent + ROAM_PENDING_WAIT < now) \<and> ro_next_attempt r \<le> now \<and>
    ro_pending r' = Some (who, now) \<and> ro_next_attempt r' = now + ROAM_CADENCE"
proof -
  have same: "eligible now (r\<lparr>ro_pending := x, ro_next_attempt := y\<rparr>) = eligible now r"
    "bot_target (r\<lparr>ro_pending := x, ro_next_attempt := y\<rparr>) = bot_target r" for x y
    by (simp_all add: fun_eq_iff eligible_def bot_target_def)
  have pk: "roam_pick order now (r\<lparr>ro_pending := None, ro_next_attempt := now + ROAM_CADENCE\<rparr>) = Some who"
    using assms by (auto simp: roam_step_def Let_def split: option.splits if_splits)
  have "ro_pending r' = Some (who, now) \<and> ro_next_attempt r' = now + ROAM_CADENCE \<and> ro_next_attempt r \<le> now \<and>
    (\<forall>n sent. ro_pending r = Some (n, sent) \<longrightarrow> sent + ROAM_PENDING_WAIT < now)"
    using assms by (auto simp: roam_step_def Let_def split: option.splits if_splits)
  moreover have "eligible now r who" using pick_eligible [OF pk] by (simp add: same)
  moreover have "bot_target r n" if "bot_target r who" "n \<in> set order" "eligible now r n" for n
    using pk that by (auto simp: pick_spec same find_Some_iff find_None_iff split: option.splits)
  ultimately show ?thesis by blast
qed

datatype roam_op = RO_roster nat "roster_entry list" | RO_step "string list" nat | RO_declined nat string
  | RO_matched nat string | RO_end nat

text \<open>What a roaming bot goes through, with the challenges it sends and their times.\<close>

fun roam_run :: "roam_op list \<Rightarrow> roam \<Rightarrow> (nat \<times> string) list" where
  "roam_run [] r = []"
| "roam_run (RO_roster now ps # ops) r = roam_run ops (update_roster now ps r)"
| "roam_run (RO_step order now # ops) r =
     (case roam_step order now r of
        (Some who, r') \<Rightarrow> (now, who) # roam_run ops r'
      | (None, r') \<Rightarrow> roam_run ops r')"
| "roam_run (RO_declined now who # ops) r = roam_run ops (on_declined now who r)"
| "roam_run (RO_matched now opp # ops) r = roam_run ops (on_matched now opp r)"
| "roam_run (RO_end now # ops) r = roam_run ops (on_match_end now r)"

definition answers :: "string \<Rightarrow> roam_op \<Rightarrow> bool" where
  "answers who op = (case op of RO_declined _ w \<Rightarrow> w = who | RO_matched _ w \<Rightarrow> w = who | _ \<Rightarrow> False)"

text \<open>A known player who may not be challenged before \<open>T\<close>.\<close>

definition held :: "string \<Rightarrow> nat \<Rightarrow> roam \<Rightarrow> bool" where
  "held who T r \<longleftrightarrow> (\<exists>t. ro_targets r who = Some t \<and> T \<le> ta_next_eligible t)"

lemma held_roster: "held who T r \<Longrightarrow> held who T (update_roster now ps r)"
proof -
  have step: "held who T s \<Longrightarrow> held who T (roster_step now p s)" for p s
    by (auto simp: held_def roster_step_def or_else_def Let_def split: option.split)
  have "held who T s \<Longrightarrow> held who T (fold (roster_step now) ps s)" for s
    by (induction ps arbitrary: s) (auto simp: step)
  then show "held who T r \<Longrightarrow> held who T (update_roster now ps r)"
    unfolding update_roster_def by (auto simp: held_def)
qed

lemma held_step:
  assumes "held who T r" "roam_step order now r = (c, r')"
  shows "held who T r' \<and> (c = Some who \<longrightarrow> T \<le> now)"
proof -
  have hold: "held who T (r\<lparr>ro_pending := x\<rparr>)" "held who T (r\<lparr>ro_next_attempt := y\<rparr>)"
    "held who T (r\<lparr>ro_pending := x, ro_next_attempt := y\<rparr>)" for x y using assms(1) by (simp_all add: held_def)
  show ?thesis
  proof (cases c)
    case None
    then show ?thesis using assms hold by (auto simp: roam_step_def Let_def split: option.splits if_splits)
  next
    case (Some n)
    have e: "eligible now r n" using roam_step_challenge assms(2) Some by blast
    then have T: "n = who \<Longrightarrow> T \<le> now" using assms(1) by (auto simp: held_def eligible_def)
    have "ro_targets r' = (ro_targets r)(n \<mapsto> (the (ro_targets r n))\<lparr>ta_next_eligible := now + ROAM_PENDING_WAIT\<rparr>)"
      using assms(2) Some e by (auto simp: roam_step_def eligible_def Let_def split: option.splits if_splits)
    then have "held who T r'" using assms(1) T by (auto simp: held_def)
    then show ?thesis using T Some by auto
  qed
qed

lemma held_run: "held who T r \<Longrightarrow> \<forall>op \<in> set ops. \<not> answers who op \<Longrightarrow> (time, who) \<in> set (roam_run ops r) \<Longrightarrow> T \<le> time"
proof (induction ops arbitrary: r)
  case (Cons op ops)
  show ?case
  proof (cases op)
    case (RO_roster now ps)
    then show ?thesis using Cons.IH [OF held_roster [OF Cons.prems(1)]] Cons.prems(2,3) by simp
  next
    case (RO_step order now)
    obtain c r' where c: "roam_step order now r = (c, r')" by fastforce
    show ?thesis
      using Cons.IH [of r'] Cons.prems(2,3) held_step [OF Cons.prems(1) c] RO_step c by (auto split: option.splits)
  next
    case (RO_declined now w)
    then have "held who T (on_declined now w r)"
      using Cons.prems(1,2) by (auto simp: held_def on_declined_def answers_def Let_def split: option.split)
    then show ?thesis using Cons.IH Cons.prems(2,3) RO_declined by simp
  next
    case (RO_matched now w)
    then have "held who T (on_matched now w r)"
      using Cons.prems(1,2) by (auto simp: held_def on_matched_def answers_def Let_def split: option.split)
    then show ?thesis using Cons.IH Cons.prems(2,3) RO_matched by simp
  next
    case (RO_end now)
    have "held who T (on_match_end now r)" using Cons.prems(1) by (simp add: held_def on_match_end_def)
    then show ?thesis using Cons.IH Cons.prems(2,3) RO_end by simp
  qed
qed simp

text \<open>
  The roaming bot leaves a player who declined alone: until that player answers again, whatever
  rosters, matches and other answers come in between, it sends them no challenge for a minute, doubled
  with each decline in a row and half an hour at most.
\<close>

theorem declined_left_alone:
  assumes "ro_targets r who = Some t" "\<forall>op \<in> set ops. \<not> answers who op"
    and "(time, who) \<in> set (roam_run ops (on_declined now who r))"
  shows "now + min (60000 * 2 ^ unat (ta_declines t)) 1800000 \<le> time"
proof -
  have "min (60000 * 2 ^ min n 20) 1800000 = min (60000 * 2 ^ n) (1800000 :: nat)" for n
  proof (cases "n \<le> 20")
    case True
    then have "min n 20 = n" by (rule min_absorb1)
    then show ?thesis by (simp only:)
  next
    case False
    then have "min n 20 = 20" by (intro min_absorb2) simp
    moreover have "(2 :: nat) ^ 20 \<le> 2 ^ n" using False by (intro power_increasing) simp_all
    then have "1800000 \<le> 60000 * (2 :: nat) ^ n" by simp
    moreover have "1800000 \<le> 60000 * (2 :: nat) ^ 20" by simp
    ultimately show ?thesis by (simp only: min_absorb2)
  qed
  then have "backoff_ms (ta_declines t + 1) = min (60000 * 2 ^ unat (ta_declines t)) 1800000"
    by (simp add: backoff_ms_def ROAM_BASE_BACKOFF_def ROAM_MAX_BACKOFF_def Let_def)
  then have "held who (now + min (60000 * 2 ^ unat (ta_declines t)) 1800000) (on_declined now who r)"
    using assms(1) by (simp add: held_def on_declined_def Let_def)
  then show ?thesis using held_run assms(2,3) by blast
qed

theorem declined_left_alone_witness:
  "let p = \<lparr>ros_name = Some ''ada'', ros_status = Some ''available'', ros_bot = None\<rparr>;
       r = update_roster 0 [p] (roam_new 0 ''count'')
   in (60000, ''ada'') \<in> set (roam_run [RO_step [''ada''] 30000, RO_step [''ada''] 60000] (on_declined 0 ''ada'' r)) \<and>
     (\<exists>t. ro_targets r ''ada'' = Some t \<and> 0 + min (60000 * 2 ^ unat (ta_declines t)) 1800000 \<le> (60000 :: nat))"
proof -
  let ?p = "\<lparr>ros_name = Some ''ada'', ros_status = Some ''available'', ros_bot = None\<rparr>"
  let ?r = "update_roster 0 [?p] (roam_new 0 ''count'')" and ?ops = "[RO_step [''ada''] 30000, RO_step [''ada''] 60000]"
  have t: "ro_targets ?r ''ada'' = Some \<lparr>ta_is_bot = False, ta_available = True, ta_next_eligible = 0, ta_declines = 0\<rparr>"
    by (simp add: update_roster_def roster_step_def roam_new_def or_else_def)
  obtain d where d: "d = on_declined 0 ''ada'' ?r" by blast
  have known: "ro_targets d ''ada'' = Some \<lparr>ta_is_bot = False, ta_available = True, ta_next_eligible = 60000, ta_declines = 1\<rparr>"
    "ro_pending d = None" "ro_next_attempt d = 2000"
    by (simp_all add: d on_declined_def t backoff_ms_def ROAM_BASE_BACKOFF_def ROAM_MAX_BACKOFF_def)
  have one: "roam_step [''ada''] 30000 d = (None, d\<lparr>ro_next_attempt := 40000\<rparr>)"
    using known by (simp add: roam_step_def roam_pick_def Let_def ROAM_CADENCE_def)
  have "fst (roam_step [''ada''] 60000 (d\<lparr>ro_next_attempt := 40000\<rparr>)) = Some ''ada''"
    using known by (simp add: roam_step_def roam_pick_def Let_def)
  then obtain e where two: "roam_step [''ada''] 60000 (d\<lparr>ro_next_attempt := 40000\<rparr>) = (Some ''ada'', e)"
    by (metis prod.collapse)
  have run: "(60000, ''ada'') \<in> set (roam_run ?ops (on_declined 0 ''ada'' ?r))"
    unfolding d [symmetric] by (simp add: one two)
  have ops: "\<forall>op \<in> set ?ops. \<not> answers ''ada'' op" by (simp add: answers_def)
  show ?thesis using declined_left_alone [OF t ops run] t run by (auto simp: Let_def)
qed

end
