(* ===== verification/Standings.thy ===== *)
theory Standings
  imports Ratings "HOL-Library.AList"
begin

section \<open>Standings\<close>

text \<open>
  The player table and the leaderboard of \<open>bt-server/src/main.rs\<close>: one row per name, folded at every settled
  match, and the ranking by conservative rating. A table is the list of its rows keyed by name; the statements
  of the database are taken to succeed, as the code takes a failed one for no effect.
\<close>

type_synonym rating_row = "f64 \<times> f64 \<times> u32"

subsection \<open>The ladder\<close>

definition elo_styled :: "f64 \<Rightarrow> i64" where
  "elo_styled conserv = max (round_away (fadd 1000 (fmul conserv 30))) 100"

definition conservative_of :: "rating_row \<Rightarrow> f64" where
  "conservative_of row = (case row of (mu, sigma, _) \<Rightarrow> fsub mu (fmul 3 sigma))"

record ladder_row =
  lr_name :: string
  lr_elo :: i64
  lr_mu :: f64
  lr_sigma :: f64
  lr_games :: u32

definition ladder_row_of :: "string \<times> rating_row \<Rightarrow> ladder_row" where
  "ladder_row_of r =
     (case r of (name, mu, sigma, games) \<Rightarrow>
        \<lparr>lr_name = name, lr_elo = elo_styled (conservative_of (mu, sigma, games)), lr_mu = mu, lr_sigma = sigma, lr_games = games\<rparr>)"

text \<open>A stable sort, descending.\<close>

definition rank_players :: "(string \<times> rating_row) list \<Rightarrow> ladder_row list" where
  "rank_players ratings = map ladder_row_of (take 200 (sort_key (\<lambda>r. - conservative_of (snd r)) ratings))"

subsection \<open>The row of a player\<close>

record player_stats =
  pl_name :: string
  pl_mu :: f64
  pl_sigma :: f64
  pl_games :: i64
  pl_wins :: i64
  pl_losses :: i64
  pl_streak :: i64
  pl_streak_type :: "string option"
  pl_high_score :: "i64 option"
  pl_high_lines :: "i64 option"
  pl_high_funds :: "i64 option"
  pl_fastest_kill :: "i64 option"
  pl_quickest_death :: "i64 option"
  pl_longest_game :: "i64 option"

definition player_fresh :: "string \<Rightarrow> player_stats" where
  "player_fresh name =
     (let base = new_rating (t2_base ts2_params_default)
      in \<lparr>pl_name = name, pl_mu = rt_mu base, pl_sigma = rt_sigma base, pl_games = 0, pl_wins = 0, pl_losses = 0,
          pl_streak = 0, pl_streak_type = None, pl_high_score = None, pl_high_lines = None, pl_high_funds = None,
          pl_fastest_kill = None, pl_quickest_death = None, pl_longest_game = None\<rparr>)"

record match_stats =
  ms_won :: bool
  ms_score :: i64
  ms_lines :: i64
  ms_funds :: i64
  ms_ticks :: i64
  ms_natural :: bool

definition opt_max :: "i64 option \<Rightarrow> i64 \<Rightarrow> i64 option" where
  "opt_max existing v = Some (case existing of None \<Rightarrow> v | Some e \<Rightarrow> max e v)"

definition opt_min :: "i64 option \<Rightarrow> i64 \<Rightarrow> i64 option" where
  "opt_min existing v = Some (case existing of None \<Rightarrow> v | Some e \<Rightarrow> min e v)"

type_synonym players = "(string \<times> player_stats) list"

definition db_get_player :: "players \<Rightarrow> string \<Rightarrow> player_stats option" where
  "db_get_player d name = map_of d name"

definition db_put_player :: "player_stats \<Rightarrow> players \<Rightarrow> players" where
  "db_put_player p d = AList.update (pl_name p) p d"

text \<open>One settled match, folded into a row.\<close>

definition streak_step :: "bool \<Rightarrow> player_stats \<Rightarrow> player_stats" where
  "streak_step won p =
     (let this_type = (if won then ''wins'' else ''losses'')
      in if pl_streak_type p = Some this_type then p\<lparr>pl_streak := pl_streak p + 1\<rparr>
         else p\<lparr>pl_streak := 1, pl_streak_type := Some this_type\<rparr>)"

definition record_match :: "f64 \<Rightarrow> f64 \<Rightarrow> match_stats \<Rightarrow> player_stats \<Rightarrow> player_stats" where
  "record_match mu sigma m p =
     (let p = p\<lparr>pl_mu := mu, pl_sigma := sigma, pl_games := pl_games p + 1\<rparr>;
          p = (if ms_won m then p\<lparr>pl_wins := pl_wins p + 1\<rparr> else p\<lparr>pl_losses := pl_losses p + 1\<rparr>);
          p = streak_step (ms_won m) p;
          p = p\<lparr>pl_high_score := opt_max (pl_high_score p) (ms_score m), pl_high_lines := opt_max (pl_high_lines p) (ms_lines m),
                pl_high_funds := opt_max (pl_high_funds p) (ms_funds m), pl_longest_game := opt_max (pl_longest_game p) (ms_ticks m)\<rparr>
      in if ms_natural m
         then (if ms_won m then p\<lparr>pl_fastest_kill := opt_min (pl_fastest_kill p) (ms_ticks m)\<rparr>
               else p\<lparr>pl_quickest_death := opt_min (pl_quickest_death p) (ms_ticks m)\<rparr>)
         else p)"

definition db_record_player_stats :: "string \<Rightarrow> f64 \<Rightarrow> f64 \<Rightarrow> match_stats \<Rightarrow> players \<Rightarrow> players" where
  "db_record_player_stats name mu sigma m d =
     (let p = (case db_get_player d name of Some p \<Rightarrow> p | None \<Rightarrow> player_fresh name)
      in db_put_player (record_match mu sigma m p) d)"

definition migrate_ratings_into_players :: "(string \<times> rating_row) list \<Rightarrow> players \<Rightarrow> players" where
  "migrate_ratings_into_players ratings d =
     (if d \<noteq> [] \<or> ratings = [] then d
      else fold (\<lambda>(name, mu, sigma, exp) d.
             db_put_player ((player_fresh name)\<lparr>pl_mu := mu, pl_sigma := sigma, pl_games := uint exp\<rparr>) d) ratings d)"

definition player_profile :: "players \<Rightarrow> string \<Rightarrow> i64 \<times> player_stats" where
  "player_profile d name =
     (let p = (case db_get_player d name of Some p \<Rightarrow> p | None \<Rightarrow> player_fresh name)
      in (elo_styled (fsub (pl_mu p) (fmul 3 (pl_sigma p))), p))"

subsection \<open>What a row says of the matches\<close>

definition run_length :: "bool list \<Rightarrow> nat" where
  "run_length ws = (case rev ws of [] \<Rightarrow> 0 | w # _ \<Rightarrow> length (takeWhile (\<lambda>v. v = w) (rev ws)))"

definition opt_Max :: "i64 list \<Rightarrow> i64 option" where
  "opt_Max xs = (if xs = [] then None else Some (Max (set xs)))"

definition opt_Min :: "i64 list \<Rightarrow> i64 option" where
  "opt_Min xs = (if xs = [] then None else Some (Min (set xs)))"

lemma opt_max_snoc [simp]: "opt_max (opt_Max xs) v = opt_Max (xs @ [v])"
  by (auto simp: opt_max_def opt_Max_def max.commute)

lemma opt_min_snoc [simp]: "opt_min (opt_Min xs) v = opt_Min (xs @ [v])"
  by (auto simp: opt_min_def opt_Min_def min.commute)

definition tells :: "match_stats list \<Rightarrow> player_stats \<Rightarrow> bool" where
  "tells ms p \<longleftrightarrow>
     pl_games p = int (length ms) \<and> pl_wins p = int (length (filter ms_won ms)) \<and>
     pl_losses p = int (length (filter (\<lambda>m. \<not> ms_won m) ms)) \<and>
     pl_streak p = int (run_length (map ms_won ms)) \<and>
     pl_streak_type p = (if ms = [] then None else Some (if ms_won (last ms) then ''wins'' else ''losses'')) \<and>
     pl_high_score p = opt_Max (map ms_score ms) \<and> pl_high_lines p = opt_Max (map ms_lines ms) \<and>
     pl_high_funds p = opt_Max (map ms_funds ms) \<and> pl_longest_game p = opt_Max (map ms_ticks ms) \<and>
     pl_fastest_kill p = opt_Min (map ms_ticks (filter (\<lambda>m. ms_natural m \<and> ms_won m) ms)) \<and>
     pl_quickest_death p = opt_Min (map ms_ticks (filter (\<lambda>m. ms_natural m \<and> \<not> ms_won m) ms))"

lemma run_length_snoc:
  "run_length (ws @ [w]) = (if ws \<noteq> [] \<and> last ws = w then run_length ws + 1 else 1)"
  by (cases ws rule: rev_cases) (auto simp: run_length_def)

lemma tells_fresh: "tells [] (player_fresh name)"
  by (simp add: tells_def player_fresh_def Let_def run_length_def opt_Max_def opt_Min_def)

lemma tells_step: "tells ms p \<Longrightarrow> tells (ms @ [m]) (record_match mu sigma m p)"
  by (auto simp: tells_def record_match_def streak_step_def Let_def run_length_snoc last_map)

lemma pl_name_record [simp]: "pl_name (record_match mu sigma m p) = pl_name p"
  by (simp add: record_match_def streak_step_def Let_def)

text \<open>The row of a name, when it has one, has that name and tells its history.\<close>

definition play :: "string \<times> f64 \<times> f64 \<times> match_stats \<Rightarrow> players \<Rightarrow> players" where
  "play e d = (case e of (name, mu, sigma, m) \<Rightarrow> db_record_player_stats name mu sigma m d)"

definition history :: "string \<Rightarrow> (string \<times> f64 \<times> f64 \<times> match_stats) list \<Rightarrow> match_stats list" where
  "history name es = map (\<lambda>(_, _, _, m). m) (filter (\<lambda>e. fst e = name) es)"

definition keeps_books :: "(string \<times> f64 \<times> f64 \<times> match_stats) list \<Rightarrow> players \<Rightarrow> string \<Rightarrow> bool" where
  "keeps_books es d name \<longleftrightarrow> (case db_get_player d name of
      None \<Rightarrow> history name es = []
    | Some p \<Rightarrow> pl_name p = name \<and> tells (history name es) p)"

lemma pl_name_fresh [simp]: "pl_name (player_fresh name) = name"
  by (simp add: player_fresh_def Let_def)

lemma history_snoc [simp]:
  "history name (es @ [(n, mu, sigma, m)]) = (if n = name then history name es @ [m] else history name es)"
  by (simp add: history_def)

lemma db_get_put [simp]: "db_get_player (db_put_player p d) name = (if name = pl_name p then Some p else db_get_player d name)"
  by (simp add: db_get_player_def db_put_player_def update_conv')

lemma keeps_books_step:
  assumes "\<And>name. keeps_books es d name" shows "keeps_books (es @ [e]) (play e d) name"
proof -
  obtain n mu sigma m where e: "e = (n, mu, sigma, m)" by (cases e)
  define p where "p = (case db_get_player d n of Some p \<Rightarrow> p | None \<Rightarrow> player_fresh n)"
  have p: "pl_name p = n" "tells (history n es) p"
    using assms [of n] tells_fresh [of n] by (auto simp: keeps_books_def p_def split: option.splits)
  have "db_get_player (play e d) name = (if name = n then Some (record_match mu sigma m p) else db_get_player d name)"
    using p(1) by (simp add: play_def e db_record_player_stats_def flip: p_def)
  then show ?thesis
    using assms [of name] p tells_step [OF p(2), of m mu sigma]
    by (cases "name = n") (auto simp: keeps_books_def e split: option.splits)
qed

lemma keeps_books_run: "(\<And>name. keeps_books es0 d name) \<Longrightarrow> keeps_books (es0 @ es) (fold play es d) name"
proof (induction es arbitrary: es0 d)
  case (Cons e es)
  show ?case using Cons.IH [of "es0 @ [e]" "play e d"] keeps_books_step [OF Cons.prems] by simp
qed simp

text \<open>
  C34. After any sequence of settled matches that starts with an empty table, a name without a row has played
  no match, and the row of any other tells its history: the numbers of games, wins and losses, the length and kind of the
  current run of results, the best score, lines and funds, the longest match, and the shortest natural win and natural loss;
  a match that was forfeited counts for none of the last two.
\<close>

theorem record_tells_history:
  "case db_get_player (fold (\<lambda>(name, mu, sigma, m). db_record_player_stats name mu sigma m) es []) name of
     None \<Rightarrow> history name es = []
   | Some p \<Rightarrow> pl_name p = name \<and> tells (history name es) p"
proof -
  have "keeps_books [] [] n" for n by (simp add: keeps_books_def history_def db_get_player_def)
  from keeps_books_run [OF this, of es name] show ?thesis
    by (simp add: keeps_books_def play_def [abs_def] case_prod_beta')
qed

end
