(* ===== verification/Identity.thy ===== *)
theory Identity
  imports Prelude "HOL-Library.Sublist"
begin

section \<open>Names and signed tokens\<close>

text \<open>
  \<open>bt-identity/src/lib.rs\<close>: the cleaning of a requested name, and the token that binds a name to the
  server's secret. Text is a list of characters, a token the list of its bytes. The hash, the text
  encoding of bytes and the JSON forms come from other crates: they are the record \<open>crypto\<close>, an argument.
\<close>

subsection \<open>Names\<close>

definition MAX_NAME_LEN :: nat where "MAX_NAME_LEN = 32"

text \<open>The white space of \<open>str::trim\<close>, as far as the type of characters goes (code points below 256).\<close>

definition is_white :: "char \<Rightarrow> bool" where
  "is_white c = ((of_char c :: nat) \<in> {9, 10, 11, 12, 13, 32, 133, 160})"

definition trim_start :: "string \<Rightarrow> string" where
  "trim_start s = dropWhile is_white s"

definition trim_end :: "string \<Rightarrow> string" where
  "trim_end s = rev (dropWhile is_white (rev s))"

definition trim :: "string \<Rightarrow> string" where
  "trim s = trim_end (trim_start s)"

definition sanitize_name :: "string \<Rightarrow> string option" where
  "sanitize_name raw =
     (let capped = trim (take MAX_NAME_LEN (trim raw)) in if capped = [] then None else Some capped)"

subsection \<open>Tokens\<close>

record crypto =
  cy_mac :: "u8 list \<Rightarrow> string \<Rightarrow> u8 list"
  cy_encode :: "u8 list \<Rightarrow> string"
  cy_decode :: "string \<Rightarrow> u8 list option"
  cy_header :: "u8 list"
  cy_payload :: "string \<Rightarrow> i64 \<Rightarrow> u8 list"
  cy_alg_typ :: "u8 list \<Rightarrow> (string option \<times> string option) option"
  cy_name :: "u8 list \<Rightarrow> string option"

definition issue_token_with :: "crypto \<Rightarrow> u8 list \<Rightarrow> string \<Rightarrow> i64 \<Rightarrow> string" where
  "issue_token_with K secret name iat =
     (let signing_input = cy_encode K (cy_header K) @ ''.'' @ cy_encode K (cy_payload K name iat)
      in signing_input @ ''.'' @ cy_encode K (cy_mac K secret signing_input))"

text \<open>\<open>splitn\<close> at a dot: the part before the first dot and what follows it.\<close>

definition split_dot :: "string \<Rightarrow> (string \<times> string) option" where
  "split_dot s =
     (case dropWhile (\<lambda>c. c \<noteq> CHR ''.'') s of [] \<Rightarrow> None | _ # rest \<Rightarrow> Some (takeWhile (\<lambda>c. c \<noteq> CHR ''.'') s, rest))"

definition verify_token_with :: "crypto \<Rightarrow> u8 list \<Rightarrow> string \<Rightarrow> string option" where
  "verify_token_with K secret token = do {
     (header, rest) \<leftarrow> split_dot token;
     (payload, sig_b64) \<leftarrow> split_dot rest;
     sg \<leftarrow> cy_decode K sig_b64;
     if sg \<noteq> cy_mac K secret (header @ ''.'' @ payload) then None
     else do {
       header_bytes \<leftarrow> cy_decode K header;
       (alg, typ) \<leftarrow> cy_alg_typ K header_bytes;
       if alg \<noteq> Some ''HS256'' \<or> typ \<noteq> Some ''JWT'' then None
       else do {
         claims \<leftarrow> cy_decode K payload;
         name \<leftarrow> cy_name K claims;
         sanitize_name name
       }
     }
   }"

subsection \<open>Cleaning a name\<close>

lemma dropWhile_hd: "dropWhile P xs = [] \<or> \<not> P (hd (dropWhile P xs))"
  by (metis hd_dropWhile)

lemma hd_dropWhile_suffix: "s = [] \<or> \<not> is_white (last s) \<Longrightarrow> dropWhile is_white s = [] \<or> \<not> is_white (last (dropWhile is_white s))"
  by (induction s) (auto split: if_splits)

definition trimmed :: "string \<Rightarrow> bool" where
  "trimmed s \<longleftrightarrow> s = [] \<or> \<not> is_white (hd s) \<and> \<not> is_white (last s)"

lemma trimmed_trim: "trimmed (trim s)"
proof -
  let ?a = "dropWhile is_white s"
  let ?b = "dropWhile is_white (rev ?a)"
  have b: "?b = [] \<or> \<not> is_white (hd ?b)" by (rule dropWhile_hd)
  have "rev ?a = [] \<or> \<not> is_white (last (rev ?a))" using dropWhile_hd [of is_white s] by (simp add: last_rev)
  then have "?b = [] \<or> \<not> is_white (last ?b)" by (rule hd_dropWhile_suffix)
  then show ?thesis using b by (auto simp: trimmed_def trim_def trim_end_def trim_start_def hd_rev last_rev)
qed

lemma dropWhile_id: "s = [] \<or> \<not> P (hd s) \<Longrightarrow> dropWhile P s = s"
  by (cases s) auto

lemma trim_trimmed: "trimmed s \<Longrightarrow> trim s = s"
  by (auto simp: trimmed_def trim_def trim_end_def trim_start_def dropWhile_id hd_rev)

lemma length_trim: "length (trim s) \<le> length s"
  using length_dropWhile_le [of is_white s] length_dropWhile_le [of is_white "rev (dropWhile is_white s)"]
  by (simp add: trim_def trim_end_def trim_start_def)

lemma sanitized:
  assumes "sanitize_name raw = Some n"
  shows "n \<noteq> []" "length n \<le> MAX_NAME_LEN" "trimmed n"
  using assms length_trim [of "take MAX_NAME_LEN (trim raw)"] trimmed_trim
  by (auto simp: sanitize_name_def Let_def split: if_splits)

lemma sanitize_clean: "n \<noteq> [] \<Longrightarrow> length n \<le> MAX_NAME_LEN \<Longrightarrow> trimmed n \<Longrightarrow> sanitize_name n = Some n"
  by (simp add: sanitize_name_def trim_trimmed)

lemma sanitize_idempotent: "sanitize_name raw = Some n \<Longrightarrow> sanitize_name n = Some n"
  using sanitized sanitize_clean by blast

subsection \<open>Splitting a token\<close>

lemma split_dot_Some: "split_dot s = Some (h, r) \<longleftrightarrow> s = h @ ''.'' @ r \<and> CHR ''.'' \<notin> set h"
proof
  assume "split_dot s = Some (h, r)"
  then obtain c where c: "dropWhile (\<lambda>c. c \<noteq> CHR ''.'') s = c # r" and h: "h = takeWhile (\<lambda>c. c \<noteq> CHR ''.'') s"
    by (auto simp: split_dot_def split: list.splits)
  have "c = CHR ''.''" using c dropWhile_hd [of "\<lambda>c. c \<noteq> CHR ''.''" s] by simp
  moreover have "s = h @ (c # r)" using c h by (metis takeWhile_dropWhile_id)
  ultimately show "s = h @ ''.'' @ r \<and> CHR ''.'' \<notin> set h" using h by (auto dest: set_takeWhileD)
next
  assume "s = h @ ''.'' @ r \<and> CHR ''.'' \<notin> set h"
  then have "dropWhile (\<lambda>c. c \<noteq> CHR ''.'') s = CHR ''.'' # r" "takeWhile (\<lambda>c. c \<noteq> CHR ''.'') s = h"
    by (auto simp: dropWhile_append takeWhile_append)
  then show "split_dot s = Some (h, r)" by (simp add: split_dot_def)
qed

subsection \<open>The promises\<close>

text \<open>
  A token that verifies is one that whoever holds the secret signed: its last part decodes to the
  hash, under the secret, of everything before the last dot, its header names the one algorithm, and
  the name it yields is the clean form of the name it carries.
\<close>

theorem token_authentic:
  assumes "verify_token_with K secret token = Some name"
  shows "\<exists>header payload sg claims raw.
      token = header @ ''.'' @ payload @ ''.'' @ sg \<and> CHR ''.'' \<notin> set header \<and> CHR ''.'' \<notin> set payload \<and>
      cy_decode K sg = Some (cy_mac K secret (header @ ''.'' @ payload)) \<and>
      (\<exists>h. cy_decode K header = Some h \<and> cy_alg_typ K h = Some (Some ''HS256'', Some ''JWT'')) \<and>
      cy_decode K payload = Some claims \<and> cy_name K claims = Some raw \<and> sanitize_name raw = Some name \<and>
      name \<noteq> [] \<and> length name \<le> MAX_NAME_LEN"
  using assms sanitized(1,2)
  by (auto simp: verify_token_with_def split_dot_Some elim!: bind_eq_SomeE split: if_splits prod.splits) blast

text \<open>
  A token issued for a name verifies, under the same secret, to the clean form of that name, provided that the
  encoding of bytes decodes back and has no dot, and that the header and the claims parse to what was written.
\<close>

theorem token_roundtrip:
  assumes "\<And>bs. cy_decode K (cy_encode K bs) = Some bs" "\<And>bs. CHR ''.'' \<notin> set (cy_encode K bs)"
    and "cy_alg_typ K (cy_header K) = Some (Some ''HS256'', Some ''JWT'')" "cy_name K (cy_payload K name iat) = Some name"
  shows "verify_token_with K secret (issue_token_with K secret name iat) = sanitize_name name"
proof -
  let ?h = "cy_encode K (cy_header K)" and ?p = "cy_encode K (cy_payload K name iat)"
  have "split_dot (issue_token_with K secret name iat) = Some (?h, ?p @ ''.'' @ cy_encode K (cy_mac K secret (?h @ ''.'' @ ?p)))"
    using assms(2) by (simp add: split_dot_Some issue_token_with_def Let_def)
  moreover have "split_dot (?p @ ''.'' @ sg) = Some (?p, sg)" for sg using assms(2) by (simp add: split_dot_Some)
  ultimately show ?thesis using assms(1,3,4) by (simp add: verify_token_with_def)
qed

text \<open>Bytes written as two letters each, and a hash that only sums, for a concrete run.\<close>

definition letter :: "nat \<Rightarrow> char" where "letter n = char_of (65 + n)"
definition unletter :: "char \<Rightarrow> nat" where "unletter c = of_char c - 65"

lemma unletter [simp]: "n < 16 \<Longrightarrow> unletter (letter n) = n"
  by (simp add: letter_def unletter_def)

definition two_letters :: "u8 list \<Rightarrow> string" where
  "two_letters bs = concat (map (\<lambda>b. [letter (unat b div 16), letter (unat b mod 16)]) bs)"

fun from_letters :: "string \<Rightarrow> u8 list option" where
  "from_letters [] = Some []"
| "from_letters [_] = None"
| "from_letters (a # b # s) = map_option (\<lambda>bs. of_nat (16 * unletter a + unletter b) # bs) (from_letters s)"

lemma from_two_letters: "from_letters (two_letters bs) = Some bs"
proof (induction bs)
  case (Cons b bs)
  have "unat b div 16 < 16" using unsigned_less [of b, where 'a = nat] by simp
  then show ?case using Cons by (simp add: two_letters_def)
qed (simp add: two_letters_def)

lemma letter_code: "n < 16 \<Longrightarrow> (of_char (letter n) :: nat) = 65 + n"
  by (simp add: letter_def)

lemma letter_no_dot: "n < 16 \<Longrightarrow> letter n \<noteq> CHR ''.''"
  using letter_code [of n] by auto

lemma two_letters_no_dot: "CHR ''.'' \<notin> set (two_letters bs)"
proof (induction bs)
  case (Cons b bs)
  have "unat b div 16 < 16" using unsigned_less [of b, where 'a = nat] by simp
  then have "letter (unat b div 16) \<noteq> CHR ''.''" "letter (unat b mod 16) \<noteq> CHR ''.''" by (simp_all add: letter_no_dot)
  then show ?case using Cons by (auto simp: two_letters_def)
qed (simp add: two_letters_def)

definition letter_crypto :: crypto where
  "letter_crypto =
     \<lparr>cy_mac = (\<lambda>key s. [sum_list key + sum_list (map of_char s)]), cy_encode = two_letters, cy_decode = from_letters,
      cy_header = [7], cy_payload = (\<lambda>name _. map (\<lambda>c. of_nat (of_char c)) name),
      cy_alg_typ = (\<lambda>h. if h = [7] then Some (Some ''HS256'', Some ''JWT'') else None),
      cy_name = (\<lambda>c. Some (map (\<lambda>w. char_of (unat w)) c))\<rparr>"

lemma byte_char: "char_of (unat (of_nat (of_char c :: nat) :: u8)) = c"
  by (simp add: unsigned_of_nat char_of_take_bit_eq)

lemma letter_laws:
  "cy_decode letter_crypto (cy_encode letter_crypto bs) = Some bs" "CHR ''.'' \<notin> set (cy_encode letter_crypto bs)"
  "cy_alg_typ letter_crypto (cy_header letter_crypto) = Some (Some ''HS256'', Some ''JWT'')"
  "cy_name letter_crypto (cy_payload letter_crypto name iat) = Some name"
  by (simp_all add: letter_crypto_def from_two_letters two_letters_no_dot comp_def byte_char del: of_nat_of_char)

theorem token_roundtrip_witness:
  "verify_token_with letter_crypto [1, 2, 3] (issue_token_with letter_crypto [1, 2, 3] '' Ada '' 0) = Some ''Ada''"
proof -
  have "verify_token_with letter_crypto [1, 2, 3] (issue_token_with letter_crypto [1, 2, 3] '' Ada '' 0) = sanitize_name '' Ada ''"
    by (rule token_roundtrip) (rule letter_laws)+
  also have "\<dots> = Some ''Ada''" by code_simp
  finally show ?thesis .
qed

lemma letter_token: "verify_token_with letter_crypto [5] (issue_token_with letter_crypto [5] ''Bob'' 9) = Some ''Bob''"
  by code_simp

theorem token_authentic_witness:
  "\<exists>header payload sg claims raw.
      issue_token_with letter_crypto [5] ''Bob'' 9 = header @ ''.'' @ payload @ ''.'' @ sg \<and>
      cy_decode letter_crypto sg = Some (cy_mac letter_crypto [5] (header @ ''.'' @ payload)) \<and>
      cy_decode letter_crypto payload = Some claims \<and> cy_name letter_crypto claims = Some raw"
  using token_authentic [OF letter_token] by blast

end
