(* ===== verification/Archive.thy ===== *)
theory Archive
  imports VsComputer Bout "HOL-Library.AList" "HOL-Library.Sublist" "HOL-Library.List_Lexorder" "HOL-Library.Char_ord" "HOL-Library.Product_Lexorder"
begin

unbundle bit_operations_syntax

section \<open>The archive of recordings\<close>

text \<open>
  The recordings of \<open>bt-server/src/main.rs\<close>: the table of rows, the retention of matches between bots, the store of
  blobs and the endpoints that read and write them. The table is the list of its rows in the order of
  insertion, the bucket a map from paths to texts; a put that may fail takes its outcome as an argument, and so does the
  insertion of an upload. Other calls of the database, whose failure the code logs or skips, are taken to succeed. The
  content hash, the JSON of a recording and its parser come from the standard library's unspecified hasher and from
  serde, and are arguments as well.
\<close>

subsection \<open>Rows\<close>

record replay_row =
  rr_id :: string
  rr_mode :: string
  rr_seed :: i64
  rr_ai_level :: "i64 option"
  rr_tick_count :: i64
  rr_inputs :: i64
  rr_engine_sha :: string
  rr_created_at :: i64
  rr_json :: "string option"
  rr_title :: "string option"
  rr_name_a :: "string option"
  rr_name_b :: "string option"
  rr_lines :: "i64 option"

definition insert_or_ignore :: "replay_row \<Rightarrow> replay_row list \<Rightarrow> nat \<times> replay_row list" where
  "insert_or_ignore row rows = (if rr_id row \<in> set (map rr_id rows) then (0, rows) else (1, rows @ [row]))"

definition mode_name :: "mode \<Rightarrow> string" where
  "mode_name m = (case m of Practice \<Rightarrow> ''Practice'' | Vs_Computer \<Rightarrow> ''VsComputer'' | Vs_Player \<Rightarrow> ''VsPlayer'')"

definition hex_digit :: "u64 \<Rightarrow> char" where
  "hex_digit n = ''0123456789abcdef'' ! unat (n AND 15)"

definition replay_id :: "(string \<Rightarrow> u64) \<Rightarrow> string \<Rightarrow> string" where
  "replay_id hash json = map (\<lambda>i. hex_digit (drop_bit (60 - 4 * i) (hash json))) [0..<16]"

definition is_ascii_hexdigit :: "char \<Rightarrow> bool" where
  "is_ascii_hexdigit c = (c \<in> set ''0123456789abcdefABCDEF'')"

definition valid_replay_id :: "string \<Rightarrow> bool" where
  "valid_replay_id s \<longleftrightarrow> s \<noteq> [] \<and> length s \<le> 64 \<and> list_all is_ascii_hexdigit s"

subsection \<open>Lines of a recording\<close>

definition single_replay_lines :: "replay \<Rightarrow> i64 option" where
  "single_replay_lines r = do {
     p \<leftarrow> rp_new computer_ops r;
     q \<leftarrow> rp_run_to_end computer_ops p;
     Some (case rp_engine q of
         Single g \<Rightarrow> s_lines (g_score g)
       | Vs v \<Rightarrow> s_lines (g_score (vc_player v)) + s_lines (g_score (vc_ai v)))
   }"

definition versus_replay_lines :: "versus_replay \<Rightarrow> i64 option" where
  "versus_replay_lines r = do {
     p \<leftarrow> vp_new r;
     q \<leftarrow> vp_run_to_end p;
     Some (s_lines (g_score (v_game Side_A (vp_versus q))) + s_lines (g_score (v_game Side_B (vp_versus q))))
   }"

text \<open>The two parsers, and the rows they can fill.\<close>

record parsers =
  pa_single :: "string \<Rightarrow> replay option"
  pa_versus :: "string \<Rightarrow> versus_replay option"

definition backfill_row :: "parsers \<Rightarrow> replay_row \<Rightarrow> replay_row option" where
  "backfill_row P row =
     (case (rr_lines row, rr_json row) of
        (None, Some json) \<Rightarrow>
          (case pa_versus P json of
             Some vr \<Rightarrow> map_option (\<lambda>n. row\<lparr>rr_lines := Some n\<rparr>) (versus_replay_lines vr)
           | None \<Rightarrow>
               (case pa_single P json of
                  Some r \<Rightarrow> map_option (\<lambda>n. row\<lparr>rr_lines := Some n\<rparr>) (single_replay_lines r)
                | None \<Rightarrow> Some row))
      | _ \<Rightarrow> Some row)"

fun backfill_lines :: "parsers \<Rightarrow> replay_row list \<Rightarrow> replay_row list option" where
  "backfill_lines P [] = Some []"
| "backfill_lines P (row # rows) = do {
     row' \<leftarrow> backfill_row P row;
     rows' \<leftarrow> backfill_lines P rows;
     Some (row' # rows')
   }"

definition db_insert :: "string \<Rightarrow> replay \<Rightarrow> string \<Rightarrow> i64 \<Rightarrow> replay_row list \<Rightarrow> (nat \<times> replay_row list) option" where
  "db_insert key r json created_at rows = do {
     n \<leftarrow> single_replay_lines r;
     Some (insert_or_ignore
       \<lparr>rr_id = key, rr_mode = mode_name (re_mode r), rr_seed = uint (re_seed r), rr_ai_level = map_option uint (re_ai_level r),
        rr_tick_count = uint (re_tick_count r), rr_inputs = int (length (re_frames r)), rr_engine_sha = re_engine_sha r,
        rr_created_at = created_at, rr_json = Some json, rr_title = re_title r, rr_name_a = None, rr_name_b = None,
        rr_lines = Some n\<rparr> rows)
   }"

definition db_insert_versus ::
    "string \<Rightarrow> versus_replay \<Rightarrow> string option \<Rightarrow> i64 \<Rightarrow> string \<Rightarrow> string \<Rightarrow> i64 \<Rightarrow> replay_row list \<Rightarrow> nat \<times> replay_row list" where
  "db_insert_versus key r json created_at name_a name_b n rows =
     insert_or_ignore
       \<lparr>rr_id = key, rr_mode = ''Online'', rr_seed = uint (vr_seed_a r), rr_ai_level = None,
        rr_tick_count = uint (vr_tick_count r), rr_inputs = int (length (vr_frames r)), rr_engine_sha = vr_engine_sha r,
        rr_created_at = created_at, rr_json = json, rr_title = vr_title r, rr_name_a = Some name_a, rr_name_b = Some name_b,
        rr_lines = Some n\<rparr> rows"

text \<open>The files of a directory: its text if it is a readable JSON file, and its date if it has one.\<close>

definition import_file ::
    "(string \<Rightarrow> u64) \<Rightarrow> parsers \<Rightarrow> i64 \<Rightarrow> string option \<times> i64 option \<Rightarrow> nat \<times> replay_row list \<Rightarrow> (nat \<times> replay_row list) option" where
  "import_file hash P now file st =
     (case fst file of
        None \<Rightarrow> Some st
      | Some txt \<Rightarrow>
          (case pa_single P txt of
             None \<Rightarrow> Some st
           | Some r \<Rightarrow>
               map_option (\<lambda>(n, rows). (fst st + n, rows))
                 (db_insert (replay_id hash txt) r txt (case snd file of Some t \<Rightarrow> t | None \<Rightarrow> now) (snd st))))"

definition import_dir ::
    "(string \<Rightarrow> u64) \<Rightarrow> parsers \<Rightarrow> i64 \<Rightarrow> (string option \<times> i64 option) list \<Rightarrow> replay_row list \<Rightarrow> (nat \<times> replay_row list) option" where
  "import_dir hash P now files rows = fold_opt (import_file hash P now) files (0, rows)"

definition db_list :: "nat \<Rightarrow> replay_row list \<Rightarrow> replay_row list" where
  "db_list limit rows = take limit (rev (sort_key (\<lambda>r. (rr_created_at r, rr_id r)) rows))"

subsection \<open>Retention of matches between bots\<close>

definition is_bot_name :: "string \<Rightarrow> bool" where
  "is_bot_name name \<longleftrightarrow> name = ''The Count'' \<or> suffix ''-Bert'' name \<or> suffix ''-Ernie'' name"

definition fnv_step :: "u64 \<Rightarrow> char \<Rightarrow> u64" where
  "fnv_step h c = (h XOR of_char c) * 0x100000001b3"

definition replay_retained :: "string \<Rightarrow> bool" where
  "replay_retained key \<longleftrightarrow> foldl fnv_step 0xcbf29ce484222325 key mod 20 = 0"

definition bot_filler_replay :: "string \<Rightarrow> string \<Rightarrow> string option \<Rightarrow> bool" where
  "bot_filler_replay name_a name_b title \<longleftrightarrow> title = None \<and> is_bot_name name_a \<and> is_bot_name name_b"

text \<open>\<open>LIKE\<close> of SQLite ignores the case of ASCII letters.\<close>

definition ascii_lower :: "char \<Rightarrow> char" where
  "ascii_lower c = (let n = of_char c :: nat in if 65 \<le> n \<and> n \<le> 90 then char_of (n + 32) else c)"

definition like_suffix :: "string \<Rightarrow> string \<Rightarrow> bool" where
  "like_suffix pat s \<longleftrightarrow> suffix (map ascii_lower pat) (map ascii_lower s)"

definition sql_bot_name :: "string option \<Rightarrow> bool" where
  "sql_bot_name name = (case name of None \<Rightarrow> False
     | Some s \<Rightarrow> s = ''The Count'' \<or> like_suffix ''-Bert'' s \<or> like_suffix ''-Ernie'' s)"

definition prunable :: "replay_row \<Rightarrow> bool" where
  "prunable row \<longleftrightarrow> rr_title row = None \<and> sql_bot_name (rr_name_a row) \<and> sql_bot_name (rr_name_b row)"

definition db_prune_bot_replays :: "replay_row list \<Rightarrow> nat \<times> replay_row list" where
  "db_prune_bot_replays rows =
     (let to_delete = filter (\<lambda>i. \<not> replay_retained i) (map rr_id (filter prunable rows))
      in (length to_delete, filter (\<lambda>r. rr_id r \<notin> set to_delete) rows))"

subsection \<open>Blobs\<close>

datatype replay_store = Sqlite | Bucket "string \<rightharpoonup> string"

definition replay_blob_path :: "string \<Rightarrow> string" where
  "replay_blob_path key = ''replays/'' @ key @ ''.json''"

datatype config_result = Config_panic string | Use_sqlite | Use_bucket

definition replay_store_config :: "(string \<Rightarrow> string option) \<Rightarrow> config_result" where
  "replay_store_config env_var =
     (if env_var ''BUCKET_NAME'' = None then Use_sqlite
      else case List.find (\<lambda>v. env_var v = None) [''AWS_ACCESS_KEY_ID'', ''AWS_SECRET_ACCESS_KEY'', ''AWS_REGION''] of
        Some v \<Rightarrow> Config_panic v
      | None \<Rightarrow> Use_bucket)"

datatype replay_write = Skip_row | Row string versus_replay "string option" i64

definition prepare_replay_write ::
    "(string \<Rightarrow> u64) \<Rightarrow> (versus_replay \<Rightarrow> string) \<Rightarrow> string \<Rightarrow> bool \<Rightarrow> replay_store \<Rightarrow> bout \<Rightarrow> string \<Rightarrow> string \<Rightarrow> string \<Rightarrow>
     replay_write \<times> replay_store" where
  "prepare_replay_write hash to_json sha put_ok store b match_id name_a name_b =
     (let r = bout_to_replay TICK_MS sha b;
          json = to_json r;
          key = replay_id hash json;
          n = uint (bout_lines Side_A b) + uint (bout_lines Side_B b)
      in if bot_filler_replay name_a name_b None \<and> \<not> replay_retained match_id then (Skip_row, store)
         else case store of
           Sqlite \<Rightarrow> (Row key r (Some json) n, store)
         | Bucket os \<Rightarrow>
             (if put_ok then (Row key r None n, Bucket (os(replay_blob_path key \<mapsto> json))) else (Skip_row, store)))"

datatype resolve_error = No_bucket | No_blob

definition resolve_replay_json :: "replay_store \<Rightarrow> string \<Rightarrow> string option \<Rightarrow> resolve_error + string" where
  "resolve_replay_json store key json_col =
     (case json_col of
        Some json \<Rightarrow> Inr json
      | None \<Rightarrow>
          (case store of
             Bucket os \<Rightarrow> (case os (replay_blob_path key) of Some json \<Rightarrow> Inr json | None \<Rightarrow> Inl No_blob)
           | Sqlite \<Rightarrow> Inl No_bucket))"

definition find_row :: "string \<Rightarrow> replay_row list \<Rightarrow> replay_row option" where
  "find_row key rows = List.find (\<lambda>r. rr_id r = key) rows"

definition null_json :: "string \<Rightarrow> replay_row list \<Rightarrow> replay_row list" where
  "null_json key rows = map (\<lambda>r. if rr_id r = key then r\<lparr>rr_json := None\<rparr> else r) rows"

text \<open>The batch of a migration; it stops at the first put that fails.\<close>

type_synonym migration = "(string \<rightharpoonup> string) \<times> replay_row list \<times> nat"

fun migrate_batch :: "(string \<Rightarrow> bool) \<Rightarrow> (string \<times> string) list \<Rightarrow> migration \<Rightarrow> bool \<times> migration" where
  "migrate_batch put_ok [] st = (True, st)"
| "migrate_batch put_ok ((key, json) # rest) (os, rows, n) =
     (if put_ok key then migrate_batch put_ok rest (os(replay_blob_path key \<mapsto> json), null_json key rows, n + 1)
      else (False, os, rows, n))"

definition pending_rows :: "replay_row list \<Rightarrow> (string \<times> string) list" where
  "pending_rows rows = map (\<lambda>r. (rr_id r, the (rr_json r))) (filter (\<lambda>r. rr_json r \<noteq> None) rows)"

definition BATCH :: nat where "BATCH = 500"

lemma pending_null: "length (pending_rows (null_json key rows)) \<le> length (pending_rows rows)"
  by (induction rows) (auto simp: pending_rows_def null_json_def)

lemma pending_null_less: "key \<in> fst ` set (pending_rows rows) \<Longrightarrow> length (pending_rows (null_json key rows)) < length (pending_rows rows)"
proof (induction rows)
  case (Cons r rows)
  then show ?case using pending_null [of key rows] by (auto simp: pending_rows_def null_json_def split: if_splits)
qed (simp add: pending_rows_def)

lemma migrate_batch_pending:
  "length (pending_rows (fst (snd (snd (migrate_batch put_ok batch (os, rows, n)))))) \<le> length (pending_rows rows)"
proof (induction batch arbitrary: os rows n)
  case (Cons b batch)
  show ?case using Cons.IH pending_null [of "fst b" rows] by (cases b) (auto intro: order_trans)
qed simp

lemma migrate_batch_less:
  assumes "migrate_batch put_ok (take k (pending_rows rows)) (os, rows, n) = (True, st')" "take k (pending_rows rows) \<noteq> []"
  shows "length (pending_rows (fst (snd st'))) < length (pending_rows rows)"
proof -
  obtain key json rest where b: "take k (pending_rows rows) = (key, json) # rest"
    using assms(2) by (cases "take k (pending_rows rows)") auto
  then have "(key, json) \<in> set (pending_rows rows)" by (metis in_set_takeD list.set_intros(1))
  then have "key \<in> fst ` set (pending_rows rows)" by force
  moreover have "st' = snd (migrate_batch put_ok rest (os(replay_blob_path key \<mapsto> json), null_json key rows, n + 1))"
    using assms(1) by (simp add: b split: if_splits)
  ultimately show ?thesis
    using pending_null_less [of key rows]
      migrate_batch_pending [of put_ok rest "os(replay_blob_path key \<mapsto> json)" "null_json key rows" "n + 1"]
    by (auto intro: le_less_trans)
qed

function migrate_replay_blobs :: "(string \<Rightarrow> bool) \<Rightarrow> migration \<Rightarrow> bool \<times> migration" where
  "migrate_replay_blobs put_ok st =
     (let batch = take BATCH (pending_rows (fst (snd st)))
      in if batch = [] then (True, st)
         else case migrate_batch put_ok batch st of
           (False, st') \<Rightarrow> (False, st')
         | (True, st') \<Rightarrow> migrate_replay_blobs put_ok st')"
  by pat_completeness auto

termination
  by (relation "measure (\<lambda>(_, _, rows, _). length (pending_rows rows))")
    (auto dest!: migrate_batch_less [OF sym] simp: split_beta)

declare migrate_replay_blobs.simps [simp del]

subsection \<open>Endpoints\<close>

datatype 'a reply = Bad_request string | Not_found | Internal_error | Ok_reply 'a

definition MAX_REPLAY_TICKS :: u32 where "MAX_REPLAY_TICKS = 1000000"

text \<open>The insertion may fail for the database; then the answer is an error and the table is as it was.\<close>

definition post_replay ::
    "(string \<Rightarrow> u64) \<Rightarrow> parsers \<Rightarrow> bool \<Rightarrow> i64 \<Rightarrow> string \<Rightarrow> replay_row list \<Rightarrow> (string reply \<times> replay_row list) option" where
  "post_replay hash P db_ok now body rows =
     (case pa_single P body of
        None \<Rightarrow> Some (Bad_request ''invalid replay'', rows)
      | Some r \<Rightarrow>
          if re_tick_count r > MAX_REPLAY_TICKS then Some (Bad_request ''replay too long'', rows)
          else map_option (\<lambda>(_, rows'). if db_ok then (Ok_reply (replay_id hash body), rows') else (Internal_error, rows))
                 (db_insert (replay_id hash body) r body now rows))"

text \<open>\<open>with_names\<close> inserts the players into the JSON object.\<close>

definition get_replay ::
    "(string \<Rightarrow> string option \<Rightarrow> string option \<Rightarrow> string) \<Rightarrow> replay_store \<Rightarrow> string \<Rightarrow> replay_row list \<Rightarrow> string reply" where
  "get_replay with_names store key rows =
     (if \<not> valid_replay_id key then Bad_request ''bad id''
      else case find_row key rows of
        None \<Rightarrow> Not_found
      | Some row \<Rightarrow>
          (case resolve_replay_json store key (rr_json row) of
             Inl _ \<Rightarrow> Internal_error
           | Inr txt \<Rightarrow>
               Ok_reply (if rr_name_a row = None \<and> rr_name_b row = None then txt
                         else with_names txt (rr_name_a row) (rr_name_b row))))"

definition list_replays :: "replay_row list \<Rightarrow> replay_row list" where
  "list_replays rows = db_list 200 rows"

end
