(* ===== verification/Lobby.thy ===== *)
theory Lobby
  imports Standings Identity Archive BotWeapons
begin

section \<open>The lobby\<close>

text \<open>
  The shared state of \<open>bt-server/src/main.rs\<close> and everything that happens to it under its lock: the frames of
  the clients, connecting and leaving, pairing, challenges and the roster. One message is one step, as the
  handlers hold the lock while they work.

  A hash map is the association list of its entries in its iteration order, which the theorems leave
  open. The writer of a connection is the connection's id, and what is sent is appended to a log. The two
  channels of a match are the lists of what is in them; a sender is the id of its match. Time is in
  milliseconds. The clock, a fresh match id, the hash of the standard library and the check of a token are
  the record \<open>world\<close>, an argument; a frame is the record of its fields, absent or ill-typed ones None.
\<close>

subsection \<open>Association lists\<close>

definition alter :: "'k \<Rightarrow> ('v \<Rightarrow> 'v) \<Rightarrow> ('k \<times> 'v) list \<Rightarrow> ('k \<times> 'v) list" where
  "alter k f xs = map (\<lambda>(j, v). (j, if j = k then f v else v)) xs"

lemma map_of_alter [simp]: "map_of (alter k f xs) j = (if j = k then map_option f (map_of xs j) else map_of xs j)"
  by (induction xs) (auto simp: alter_def)

lemma keys_alter [simp]: "map fst (alter k f xs) = map fst xs"
  by (induction xs) (auto simp: alter_def)

subsection \<open>State\<close>

type_synonym conn = string

datatype status = Available | Searching | InGame

definition status_rank :: "status \<Rightarrow> u8" where
  "status_rank s = (case s of Available \<Rightarrow> 0 | Searching \<Rightarrow> 1 | InGame \<Rightarrow> 2)"

record client =
  cl_name :: string
  cl_peer :: "conn option"
  cl_state :: player_state
  cl_bout :: "(string \<times> side) option"
  cl_match_id :: "string option"
  cl_status :: "status option"
  cl_geo :: "string option"
  cl_is_bot :: bool
  cl_prev_status :: "status option"
  cl_ping_sent_at :: "nat option"
  cl_ping_ms :: "u32 option"

definition post_bout_status :: "status option \<Rightarrow> status option" where
  "post_bout_status prev = map_option (\<lambda>_. Available) prev"

type_synonym roster_entry = "string \<times> status \<times> u32 option \<times> bool"

datatype server_msg =
    Match_start side u64 string "i64 option" "f64 option" string
  | Draining_msg | Resumed_msg
  | Stats nat i64
  | Players "roster_entry list"
  | Challenged string | Challenge_declined string
  | Opponent_left | Opponent_reconnecting nat | Opponent_resumed | Heartbeat
  | Rejoin_failed | Spectate_failed
  | Rating_msg f64 f64 f64 bool
  | Match_replay string
  | Snapshot_msg snapshot_msg
  | Event_msg input
  | Spectator_msg spectator

datatype bout_control =
    Reattach side conn
  | Forfeit side
  | Add_spectator conn
  | Debug_grant side "weapon_token option" "i64 option"
  | Resync side

record bout_handle =
  bh_name_a :: string
  bh_name_b :: string

record db =
  db_hits_row :: "i64 option"
  db_players :: players
  db_replays :: "replay_row list"

record app =
  ap_clients :: "(conn \<times> client) list"
  ap_waiting :: "conn list"
  ap_last_active :: "(conn \<times> nat) list"
  ap_last_broadcast_players :: nat
  ap_ratings :: "(string \<times> rating_row) list"
  ap_settled :: "string list"
  ap_params :: ts2_params
  ap_db :: db
  ap_store :: replay_store
  ap_challenges :: "(conn \<times> conn \<times> nat) list"
  ap_last_players :: "roster_entry list"
  ap_bouts :: "(string \<times> bout_handle) list"
  ap_draining :: bool
  ap_sent :: "(conn \<times> server_msg) list"
  ap_inputs :: "string \<Rightarrow> (side \<times> input \<times> u64) list"
  ap_controls :: "string \<Rightarrow> bout_control list"
  ap_open :: "string list"
  ap_timers :: "(conn \<times> conn \<times> nat \<times> string) list"

definition app_new :: "db \<Rightarrow> replay_store \<Rightarrow> (string \<times> rating_row) list \<Rightarrow> app" where
  "app_new d store ratings =
     \<lparr>ap_clients = [], ap_waiting = [], ap_last_active = [], ap_last_broadcast_players = 0, ap_ratings = ratings,
      ap_settled = [], ap_params = ts2_params_default,
      ap_db = d\<lparr>db_players := migrate_ratings_into_players ratings (db_players d)\<rparr>, ap_store = store, ap_challenges = [],
      ap_last_players = [], ap_bouts = [], ap_draining = False, ap_sent = [], ap_inputs = (\<lambda>_. []), ap_controls = (\<lambda>_. []),
      ap_open = [], ap_timers = []\<rparr>"

record world =
  wd_now :: nat
  wd_match_id :: string
  wd_hash :: "string \<Rightarrow> u64"
  wd_libm :: libm
  wd_verify :: "string \<Rightarrow> string option"

definition client_of :: "app \<Rightarrow> conn \<Rightarrow> client option" where
  "client_of a k = map_of (ap_clients a) k"

definition upd_client :: "conn \<Rightarrow> (client \<Rightarrow> client) \<Rightarrow> app \<Rightarrow> app" where
  "upd_client k f a = a\<lparr>ap_clients := alter k f (ap_clients a)\<rparr>"

text \<open>Some fact of a client, if it is connected.\<close>

definition client_is :: "(client \<Rightarrow> bool) \<Rightarrow> app \<Rightarrow> conn \<Rightarrow> bool" where
  "client_is P a k = (case client_of a k of Some c \<Rightarrow> P c | None \<Rightarrow> False)"

definition name_of :: "app \<Rightarrow> conn \<Rightarrow> string" where
  "name_of a k = (case client_of a k of Some c \<Rightarrow> cl_name c | None \<Rightarrow> [])"

definition rating_for :: "app \<Rightarrow> string \<Rightarrow> player_state" where
  "rating_for a name =
     (case map_of (ap_ratings a) name of
        Some (mu, sigma, experience) \<Rightarrow> \<lparr>ps_rating = \<lparr>rt_mu = mu, rt_sigma = sigma\<rparr>, ps_experience = experience\<rparr>
      | None \<Rightarrow> player_state_new (new_rating (t2_base (ap_params a))))"

definition store_rating :: "string \<Rightarrow> player_state \<Rightarrow> app \<Rightarrow> app" where
  "store_rating name s a =
     a\<lparr>ap_ratings := AList.update name (rt_mu (ps_rating s), rt_sigma (ps_rating s), ps_experience s) (ap_ratings a)\<rparr>"

subsection \<open>Sending\<close>

definition send :: "conn \<Rightarrow> server_msg \<Rightarrow> app \<Rightarrow> app" where
  "send k msg a = (if client_of a k = None then a else a\<lparr>ap_sent := ap_sent a @ [(k, msg)]\<rparr>)"

definition broadcast :: "server_msg \<Rightarrow> app \<Rightarrow> app" where
  "broadcast msg a = a\<lparr>ap_sent := ap_sent a @ map (\<lambda>(k, _). (k, msg)) (ap_clients a)\<rparr>"

definition ACTIVE_WINDOW :: nat where "ACTIVE_WINDOW = 30000"

definition active_count :: "app \<Rightarrow> nat \<Rightarrow> nat" where
  "active_count a now = length (filter (\<lambda>(_, t). now - t < ACTIVE_WINDOW) (ap_last_active a))"

definition db_hits :: "db \<Rightarrow> i64" where
  "db_hits d = (case db_hits_row d of Some n \<Rightarrow> n | None \<Rightarrow> 0)"

definition db_bump_hits :: "db \<Rightarrow> db" where
  "db_bump_hits d = d\<lparr>db_hits_row := Some (case db_hits_row d of Some n \<Rightarrow> n + 1 | None \<Rightarrow> 1)\<rparr>"

definition maybe_broadcast_stats :: "nat \<Rightarrow> app \<Rightarrow> app" where
  "maybe_broadcast_stats now a =
     (let players = active_count a now
      in if players \<noteq> ap_last_broadcast_players a
         then broadcast (Stats players (db_hits (ap_db a))) (a\<lparr>ap_last_broadcast_players := players\<rparr>) else a)"

definition ping_bucket :: "u32 option \<Rightarrow> u32 option" where
  "ping_bucket p = map_option (\<lambda>ms. (ms + 5) div 10 * 10) p"

type_synonym by_name = "(string \<times> status \<times> u32 option \<times> bool) list"

definition list_client :: "conn \<times> client \<Rightarrow> by_name \<Rightarrow> by_name" where
  "list_client kc by_name =
     (let c = snd kc in
      case cl_status c of
        Some status \<Rightarrow>
          (if cl_name c = [] then by_name
           else case map_of by_name (cl_name c) of
             Some cur \<Rightarrow>
               (if status_rank status > status_rank (fst cur)
                then AList.update (cl_name c) (status, ping_bucket (cl_ping_ms c), cl_is_bot c) by_name else by_name)
           | None \<Rightarrow> AList.update (cl_name c) (status, ping_bucket (cl_ping_ms c), cl_is_bot c) by_name)
      | None \<Rightarrow> by_name)"

definition roster :: "app \<Rightarrow> roster_entry list" where
  "roster a = sort_key fst (fold list_client (ap_clients a) [])"

definition maybe_broadcast_players :: "app \<Rightarrow> app" where
  "maybe_broadcast_players a =
     (let next_roster = roster a
      in if next_roster \<noteq> ap_last_players a then broadcast (Players next_roster) (a\<lparr>ap_last_players := next_roster\<rparr>) else a)"

subsection \<open>Channels of a match\<close>

definition BOUT_INPUT_CAP :: nat where "BOUT_INPUT_CAP = 256"
definition BOUT_CONTROL_CAP :: nat where "BOUT_CONTROL_CAP = 4"

definition try_control :: "string \<Rightarrow> bout_control \<Rightarrow> app \<Rightarrow> bool \<times> app" where
  "try_control m ctrl a =
     (if m \<in> set (ap_open a) \<and> length (ap_controls a m) < BOUT_CONTROL_CAP
      then (True, a\<lparr>ap_controls := (ap_controls a)(m := ap_controls a m @ [ctrl])\<rparr>) else (False, a))"

definition try_input :: "string \<Rightarrow> side \<times> input \<times> u64 \<Rightarrow> app \<Rightarrow> app" where
  "try_input m msg a =
     (if m \<in> set (ap_open a) \<and> length (ap_inputs a m) < BOUT_INPUT_CAP
      then a\<lparr>ap_inputs := (ap_inputs a)(m := ap_inputs a m @ [msg])\<rparr> else a)"

subsection \<open>Pairing\<close>

record pending_bout =
  pb_match_id :: string
  pb_id :: "side \<Rightarrow> conn"
  pb_seed :: "side \<Rightarrow> u64"
  pb_name :: "side \<Rightarrow> string"
  pb_state :: "side \<Rightarrow> player_state"
  pb_human :: "side \<Rightarrow> bool"

definition derive_seed :: "world \<Rightarrow> string \<Rightarrow> u64" where
  "derive_seed w k = wd_hash w k AND 0xFFFFFFFF"

definition CHALLENGE_TIMEOUT :: nat where "CHALLENGE_TIMEOUT = 30000"

definition find_named_available :: "app \<Rightarrow> string \<Rightarrow> conn option" where
  "find_named_available a name =
     map_option fst (List.find (\<lambda>(_, c). cl_name c = name \<and> cl_status c = Some Available) (ap_clients a))"

definition clear_challenge :: "conn \<Rightarrow> app \<Rightarrow> app" where
  "clear_challenge challenger a = a\<lparr>ap_challenges := AList.delete challenger (ap_challenges a)\<rparr>"

definition is_match_candidate :: "app \<Rightarrow> conn \<Rightarrow> conn \<Rightarrow> bool" where
  "is_match_candidate a k cid =
     (if cid = k then False
      else if client_is cl_is_bot a k \<or> client_is cl_is_bot a cid then False
      else case client_of a cid of
        Some c \<Rightarrow> cl_bout c = None \<and> (cid \<in> set (ap_waiting a) \<or> cl_status c \<in> {Some Available, Some Searching})
      | None \<Rightarrow> False)"

definition by_side :: "'a \<Rightarrow> 'a \<Rightarrow> side \<Rightarrow> 'a" where
  "by_side x y s = (case s of Side_A \<Rightarrow> x | Side_B \<Rightarrow> y)"

definition enter_bout :: "string \<Rightarrow> side \<Rightarrow> client \<Rightarrow> client" where
  "enter_bout m s c =
     c\<lparr>cl_bout := Some (m, s), cl_match_id := Some m, cl_prev_status := cl_status c, cl_status := Some InGame\<rparr>"

definition start_bout :: "world \<Rightarrow> conn \<Rightarrow> conn \<Rightarrow> f64 option \<Rightarrow> app \<Rightarrow> app \<times> pending_bout option" where
  "start_bout w x y quality a =
     (if ap_draining a then (a, None)
      else
        let a = a\<lparr>ap_waiting := filter (\<lambda>k. k \<noteq> x \<and> k \<noteq> y) (ap_waiting a),
                  ap_challenges := filter (\<lambda>(cid, tid, _). cid \<noteq> x \<and> cid \<noteq> y \<and> tid \<noteq> x \<and> tid \<noteq> y) (ap_challenges a)\<rparr>;
            a = upd_client x (\<lambda>c. c\<lparr>cl_peer := Some y\<rparr>) a;
            a = upd_client y (\<lambda>c. c\<lparr>cl_peer := Some x\<rparr>) a
        in case (client_of a x, client_of a y) of
          (Some cx, Some cy) \<Rightarrow>
            (let x_state = rating_for a (cl_name cx); y_state = rating_for a (cl_name cy);
                 m = wd_match_id w;
                 human = by_side (\<not> cl_is_bot cx) (\<not> cl_is_bot cy);
                 seed = by_side (derive_seed w x) (derive_seed w y);
                 a = upd_client x (enter_bout m Side_A) a;
                 a = upd_client y (enter_bout m Side_B) a;
                 a = a\<lparr>ap_bouts := AList.update m \<lparr>bh_name_a = cl_name cx, bh_name_b = cl_name cy\<rparr> (ap_bouts a),
                       ap_open := m # ap_open a, ap_inputs := (ap_inputs a)(m := []), ap_controls := (ap_controls a)(m := [])\<rparr>;
                 x_elo = elo_styled (conservative 3 (ps_rating x_state));
                 y_elo = elo_styled (conservative 3 (ps_rating y_state));
                 a = send x (Match_start Side_A (seed Side_A) (cl_name cy) (Some y_elo) quality m) a;
                 a = send y (Match_start Side_B (seed Side_B) (cl_name cx) (Some x_elo) quality m) a;
                 a = maybe_broadcast_players a
             in (a, Some \<lparr>pb_match_id = m, pb_id = by_side x y, pb_seed = seed, pb_name = by_side (cl_name cx) (cl_name cy),
                   pb_state = by_side x_state y_state, pb_human = human\<rparr>))
        | _ \<Rightarrow> (a, None))"

text \<open>The scan for the best opponent; the first of equals stays.\<close>

definition better :: "world \<Rightarrow> app \<Rightarrow> rating \<Rightarrow> (conn \<times> f64) option \<Rightarrow> conn \<Rightarrow> (conn \<times> f64) option" where
  "better w a mine best cid =
     (case client_of a cid of
        Some c \<Rightarrow>
          (let q = quality_1v1 (wd_libm w) mine (ps_rating (cl_state c)) (t2_base (ap_params a))
           in if (case best of Some (_, bq) \<Rightarrow> q > bq | None \<Rightarrow> True) then Some (cid, q) else best)
      | None \<Rightarrow> best)"

definition best_opponent :: "world \<Rightarrow> conn \<Rightarrow> rating \<Rightarrow> app \<Rightarrow> (conn \<times> f64) option" where
  "best_opponent w k mine a = foldl (better w a mine) None (filter (is_match_candidate a k) (map fst (ap_clients a)))"

definition try_match :: "world \<Rightarrow> conn \<Rightarrow> app \<Rightarrow> app \<times> pending_bout option" where
  "try_match w k a =
     (case client_of a k of
        None \<Rightarrow> (a, None)
      | Some me \<Rightarrow>
          if cl_bout me \<noteq> None then (a, None)
          else case best_opponent w k (ps_rating (cl_state me)) a of
            None \<Rightarrow> (if k \<in> set (ap_waiting a) then a else a\<lparr>ap_waiting := ap_waiting a @ [k]\<rparr>, None)
          | Some (opp, quality) \<Rightarrow> start_bout w opp k (Some quality) a)"

subsection \<open>The frames of a client\<close>

record client_frame =
  cf_type :: "string option"
  cf_token :: "string option"
  cf_name :: "string option"
  cf_value :: "bool option"
  cf_geo :: "string option"
  cf_bot :: "bool option"
  cf_target :: "string option"
  cf_from :: "string option"
  cf_seq :: "u64 option"
  cf_input :: "input option"
  cf_match_id :: "string option"

definition or_default :: "'a \<Rightarrow> 'a option \<Rightarrow> 'a" where
  "or_default d x = (case x of Some v \<Rightarrow> v | None \<Rightarrow> d)"

definition bare_name :: "app \<Rightarrow> client_frame \<Rightarrow> string \<Rightarrow> string" where
  "bare_name a f prior =
     (case Option.bind (cf_name f) sanitize_name of
        Some clean \<Rightarrow> if map_of (ap_ratings a) clean = None \<or> clean = prior then clean else prior
      | None \<Rightarrow> prior)"

definition resolve_name :: "world \<Rightarrow> app \<Rightarrow> client_frame \<Rightarrow> string \<Rightarrow> string" where
  "resolve_name w a f prior =
     (case Option.bind (cf_token f) (wd_verify w) of Some signed_name \<Rightarrow> signed_name | None \<Rightarrow> bare_name a f prior)"

definition reject_if_draining :: "conn \<Rightarrow> app \<Rightarrow> bool \<times> app" where
  "reject_if_draining k a = (if ap_draining a then (True, send k Draining_msg a) else (False, a))"

definition on_watch :: "world \<Rightarrow> conn \<Rightarrow> app \<Rightarrow> app" where
  "on_watch w k a =
     (let a = a\<lparr>ap_db := db_bump_hits (ap_db a)\<rparr>;
          players = active_count a (wd_now w);
          a = broadcast (Stats players (db_hits (ap_db a))) (a\<lparr>ap_last_broadcast_players := players\<rparr>)
      in send k (Players (roster a)) a)"

definition on_active :: "world \<Rightarrow> conn \<Rightarrow> app \<Rightarrow> app" where
  "on_active w k a =
     maybe_broadcast_stats (wd_now w) (a\<lparr>ap_last_active := AList.update k (wd_now w) (ap_last_active a)\<rparr>)"

definition on_queue :: "world \<Rightarrow> conn \<Rightarrow> client_frame \<Rightarrow> app \<Rightarrow> app \<times> pending_bout option" where
  "on_queue w k f a =
     (if client_is (\<lambda>c. cl_bout c \<noteq> None) a k then (a, None)
      else
        let name = resolve_name w a f (name_of a k);
            name = (if name = [] then ''anon'' else name);
            st = rating_for a name;
            a = upd_client k (\<lambda>c. c\<lparr>cl_name := name, cl_state := st, cl_status := Some Searching\<rparr>) a;
            (a, pb) = try_match w k a
        in (maybe_broadcast_players a, pb))"

definition on_available :: "world \<Rightarrow> conn \<Rightarrow> client_frame \<Rightarrow> app \<Rightarrow> app \<times> pending_bout option" where
  "on_available w k f a =
     (if client_is (\<lambda>c. cl_bout c \<noteq> None) a k then (a, None)
      else
        let name = resolve_name w a f (name_of a k);
            go_available = (or_default True (cf_value f) \<and> name \<noteq> []);
            st = rating_for a name;
            geo = map_option (take 24) (cf_geo f);
            is_bot = or_default False (cf_bot f);
            a = (if go_available then a else a\<lparr>ap_waiting := filter (\<lambda>x. x \<noteq> k) (ap_waiting a)\<rparr>);
            a = upd_client k (\<lambda>c. c\<lparr>cl_name := name, cl_state := st,
                  cl_status := (if go_available then Some Available else None),
                  cl_geo := (if geo \<noteq> None then geo else cl_geo c), cl_is_bot := is_bot\<rparr>) a;
            (a, pb) = (if go_available then try_match w k a else (a, None))
        in (maybe_broadcast_players a, pb))"

definition on_challenge :: "world \<Rightarrow> conn \<Rightarrow> client_frame \<Rightarrow> app \<Rightarrow> app" where
  "on_challenge w k f a =
     (let sender = resolve_name w a f (name_of a k);
          a = upd_client k (\<lambda>c. c\<lparr>cl_name := sender\<rparr>) a;
          target_name = or_default [] (cf_target f)
      in case find_named_available a target_name of
           Some tid \<Rightarrow>
             (if tid \<noteq> k then
                (let deadline = wd_now w + CHALLENGE_TIMEOUT;
                     a = a\<lparr>ap_challenges := AList.update k (tid, deadline) (ap_challenges a)\<rparr>;
                     a = send tid (Challenged sender) a
                 in a\<lparr>ap_timers := ap_timers a @ [(k, tid, deadline, target_name)]\<rparr>)
              else send k (Challenge_declined target_name) a)
         | None \<Rightarrow> send k (Challenge_declined target_name) a)"

text \<open>The task that a challenge leaves behind, when its time has come.\<close>

definition challenge_timeout :: "conn \<times> conn \<times> nat \<times> string \<Rightarrow> app \<Rightarrow> app" where
  "challenge_timeout timer a =
     (case timer of (k, tid, deadline, target_name) \<Rightarrow>
        if map_of (ap_challenges a) k = Some (tid, deadline) then
          (let a = clear_challenge k a;
               by = (case client_of a tid of Some c \<Rightarrow> cl_name c | None \<Rightarrow> target_name)
           in send k (Challenge_declined by) a)
        else a)"

definition challenger_named :: "conn \<Rightarrow> string \<Rightarrow> app \<Rightarrow> conn option" where
  "challenger_named k sender a =
     map_option fst (List.find (\<lambda>(cid, tid, _). tid = k \<and> client_is (\<lambda>c. cl_name c = sender) a cid) (ap_challenges a))"

definition on_challenge_accept :: "world \<Rightarrow> conn \<Rightarrow> client_frame \<Rightarrow> app \<Rightarrow> app \<times> pending_bout option" where
  "on_challenge_accept w k f a =
     (case challenger_named k (or_default [] (cf_from f)) a of
        Some cid \<Rightarrow>
          (if client_is (\<lambda>c. cl_bout c = None) a cid \<and> client_is (\<lambda>c. cl_bout c = None) a k
           then start_bout w cid k None (clear_challenge cid a) else (a, None))
      | None \<Rightarrow> (a, None))"

definition on_challenge_decline :: "conn \<Rightarrow> client_frame \<Rightarrow> app \<Rightarrow> app" where
  "on_challenge_decline k f a =
     (case challenger_named k (or_default [] (cf_from f)) a of
        Some cid \<Rightarrow> send cid (Challenge_declined (name_of a k)) (clear_challenge cid a)
      | None \<Rightarrow> a)"

definition on_input :: "conn \<Rightarrow> client_frame \<Rightarrow> app \<Rightarrow> app" where
  "on_input k f a =
     (case cf_input f of
        Some inp \<Rightarrow>
          (case Option.bind (client_of a k) cl_bout of
             Some (m, s) \<Rightarrow> try_input m (s, inp, or_default 0 (cf_seq f)) a
           | None \<Rightarrow> a)
      | None \<Rightarrow> a)"

text \<open>The match and side a client is bound to, and a control message to that match if it is live.\<close>

definition own_bout :: "app \<Rightarrow> conn \<Rightarrow> (string \<times> side) option" where
  "own_bout a k =
     (case client_of a k of
        Some c \<Rightarrow> (case (cl_match_id c, cl_bout c) of (Some m, Some (_, s)) \<Rightarrow> Some (m, s) | _ \<Rightarrow> None)
      | None \<Rightarrow> None)"

definition tell_own_bout :: "(side \<Rightarrow> bout_control) \<Rightarrow> conn \<Rightarrow> app \<Rightarrow> app" where
  "tell_own_bout ctrl k a =
     (case own_bout a k of
        Some (m, s) \<Rightarrow> (case map_of (ap_bouts a) m of Some _ \<Rightarrow> snd (try_control m (ctrl s) a) | None \<Rightarrow> a)
      | None \<Rightarrow> a)"

definition on_resync :: "conn \<Rightarrow> app \<Rightarrow> app" where
  "on_resync k a = tell_own_bout Resync k a"

definition on_leave_match :: "conn \<Rightarrow> app \<Rightarrow> app" where
  "on_leave_match k a = tell_own_bout Forfeit k a"

definition side_of_name :: "string \<Rightarrow> bout_handle \<Rightarrow> side option" where
  "side_of_name name h =
     (if name \<noteq> [] \<and> bh_name_a h = name then Some Side_A
      else if name \<noteq> [] \<and> bh_name_b h = name then Some Side_B else None)"

definition on_rejoin :: "world \<Rightarrow> conn \<Rightarrow> client_frame \<Rightarrow> app \<Rightarrow> app" where
  "on_rejoin w k f a =
     (let name = resolve_name w a f (name_of a k);
          found = do {
            m \<leftarrow> cf_match_id f;
            h \<leftarrow> map_of (ap_bouts a) m;
            s \<leftarrow> side_of_name name h;
            Some (m, s)
          }
      in case found of
           Some (m, s) \<Rightarrow>
             (let (sent, a) = (if client_of a k = None then (False, a) else try_control m (Reattach s k) a)
              in if sent then
                   (let st = rating_for a name
                    in maybe_broadcast_players
                         (upd_client k (\<lambda>c. c\<lparr>cl_name := name, cl_state := st, cl_prev_status := cl_status c,
                            cl_status := Some InGame, cl_bout := Some (m, s), cl_match_id := Some m\<rparr>) a))
                 else send k Rejoin_failed a)
         | None \<Rightarrow> send k Rejoin_failed a)"

definition on_spectate :: "conn \<Rightarrow> client_frame \<Rightarrow> app \<Rightarrow> app" where
  "on_spectate k f a =
     (let (sent, a) =
            (case (cf_match_id f, client_of a k) of
               (Some m, Some _) \<Rightarrow> (if map_of (ap_bouts a) m = None then (False, a) else try_control m (Add_spectator k) a)
             | _ \<Rightarrow> (False, a))
      in if sent then a else send k Spectate_failed a)"

definition handle_message :: "world \<Rightarrow> conn \<Rightarrow> client_frame \<Rightarrow> app \<Rightarrow> app \<times> pending_bout option" where
  "handle_message w k f a =
     (if cf_type f = Some ''watch'' then (on_watch w k a, None)
      else if cf_type f = Some ''active'' then (on_active w k a, None)
      else if cf_type f = Some ''queue'' then
        (case reject_if_draining k a of (True, a) \<Rightarrow> (a, None) | (False, a) \<Rightarrow> on_queue w k f a)
      else if cf_type f = Some ''available'' then
        (case reject_if_draining k a of (True, a) \<Rightarrow> (a, None) | (False, a) \<Rightarrow> on_available w k f a)
      else if cf_type f = Some ''challenge'' then
        (case reject_if_draining k a of (True, a) \<Rightarrow> (a, None) | (False, a) \<Rightarrow> (on_challenge w k f a, None))
      else if cf_type f = Some ''challengeAccept'' then on_challenge_accept w k f a
      else if cf_type f = Some ''challengeDecline'' then (on_challenge_decline k f a, None)
      else if cf_type f = Some ''input'' then (on_input k f a, None)
      else if cf_type f = Some ''resync'' then (on_resync k a, None)
      else if cf_type f = Some ''rejoin'' then (on_rejoin w k f a, None)
      else if cf_type f = Some ''leaveMatch'' then (on_leave_match k a, None)
      else if cf_type f = Some ''spectate'' then (on_spectate k f a, None)
      else (a, None))"

subsection \<open>Connections\<close>

definition client_new :: "player_state \<Rightarrow> client" where
  "client_new st =
     \<lparr>cl_name = [], cl_peer = None, cl_state = st, cl_bout = None, cl_match_id = None, cl_status = None, cl_geo = None,
      cl_is_bot = False, cl_prev_status = None, cl_ping_sent_at = None, cl_ping_ms = None\<rparr>"

definition connect :: "conn \<Rightarrow> app \<Rightarrow> app" where
  "connect k a = a\<lparr>ap_clients := AList.update k (client_new (rating_for a [])) (ap_clients a)\<rparr>"

definition ping_sent :: "conn \<Rightarrow> nat \<Rightarrow> app \<Rightarrow> app" where
  "ping_sent k now a = upd_client k (\<lambda>c. c\<lparr>cl_ping_sent_at := Some now\<rparr>) a"

definition on_pong :: "conn \<Rightarrow> nat \<Rightarrow> app \<Rightarrow> app" where
  "on_pong k now a =
     maybe_broadcast_players (upd_client k (\<lambda>c. case cl_ping_sent_at c of
         Some sent \<Rightarrow> c\<lparr>cl_ping_sent_at := None, cl_ping_ms := Some (of_nat (now - sent))\<rparr>
       | None \<Rightarrow> c) a)"

definition decline_for :: "string \<Rightarrow> conn \<Rightarrow> app \<Rightarrow> app" where
  "decline_for by cid a = send cid (Challenge_declined by) (clear_challenge cid a)"

definition drop_client :: "conn \<Rightarrow> nat \<Rightarrow> app \<Rightarrow> app" where
  "drop_client k now a =
     (let was_listed = client_is (\<lambda>c. cl_status c \<noteq> None) a k;
          a = a\<lparr>ap_clients := AList.delete k (ap_clients a)\<rparr>;
          a = (if was_listed then maybe_broadcast_players a else a);
          was_active = (map_of (ap_last_active a) k \<noteq> None);
          a = a\<lparr>ap_last_active := AList.delete k (ap_last_active a)\<rparr>
      in if was_active then maybe_broadcast_stats now a else a)"

definition disconnect :: "conn \<Rightarrow> nat \<Rightarrow> app \<Rightarrow> app" where
  "disconnect k now a =
     (let a = clear_challenge k (a\<lparr>ap_waiting := filter (\<lambda>x. x \<noteq> k) (ap_waiting a)\<rparr>);
          aimed_here = map fst (filter (\<lambda>(_, tid, _). tid = k) (ap_challenges a));
          a = fold (decline_for (name_of a k)) aimed_here a;
          peer = Option.bind (client_of a k) cl_peer;
          in_bout = client_is (\<lambda>c. cl_bout c \<noteq> None) a k;
          a = (case peer of
                 Some p \<Rightarrow> if in_bout then a else upd_client p (\<lambda>c. c\<lparr>cl_peer := None\<rparr>) (send p Opponent_left a)
               | None \<Rightarrow> a)
      in drop_client k now a)"

subsection \<open>Administration\<close>

definition ct_eq :: "u8 list \<Rightarrow> u8 list \<Rightarrow> bool" where
  "ct_eq xs ys =
     (if length xs \<noteq> length ys then False else foldl (\<lambda>diff (x, y). diff OR (x XOR y)) 0 (zip xs ys) = 0)"

definition admin_authed :: "u8 list option \<Rightarrow> u8 list option \<Rightarrow> bool" where
  "admin_authed configured presented =
     (case (if configured = Some [] then None else configured, presented) of
        (Some want, Some got) \<Rightarrow> ct_eq want got
      | _ \<Rightarrow> False)"

definition notify_lobby :: "server_msg \<Rightarrow> app \<Rightarrow> app" where
  "notify_lobby msg a =
     a\<lparr>ap_sent := ap_sent a @ map (\<lambda>(k, _). (k, msg)) (filter (\<lambda>(_, c). cl_bout c = None) (ap_clients a))\<rparr>"

text \<open>Each answers None when the caller is not the administrator.\<close>

definition admin_drain :: "bool \<Rightarrow> app \<Rightarrow> nat option \<times> app" where
  "admin_drain authed a =
     (if \<not> authed then (None, a) else (Some (length (ap_bouts a)), notify_lobby Draining_msg (a\<lparr>ap_draining := True\<rparr>)))"

definition admin_resume :: "bool \<Rightarrow> app \<Rightarrow> unit option \<times> app" where
  "admin_resume authed a = (if \<not> authed then (None, a) else (Some (), notify_lobby Resumed_msg (a\<lparr>ap_draining := False\<rparr>)))"

text \<open>A field of the body: absent or null, an integer, or something else.\<close>

datatype int_field = Absent | Integer i64 | Ill_typed

record grant_body =
  gb_match_id :: "string option"
  gb_side :: "string option"
  gb_weapon :: int_field
  gb_funds :: int_field

datatype grant_reply = Forbidden | Bad string | No_match | Busy | Granted string side "i32 option" "i64 option"

definition grant_weapon_field :: "int_field \<Rightarrow> weapon_token option option" where
  "grant_weapon_field f = (case f of
       Absent \<Rightarrow> Some None
     | Integer i \<Rightarrow> (if in_i32 i then map_option Some (token_from_index i) else None)
     | Ill_typed \<Rightarrow> None)"

definition grant_funds_field :: "int_field \<Rightarrow> i64 option option" where
  "grant_funds_field f = (case f of Absent \<Rightarrow> Some None | Integer i \<Rightarrow> Some (Some i) | Ill_typed \<Rightarrow> None)"

definition admin_grant :: "bool \<Rightarrow> grant_body option \<Rightarrow> app \<Rightarrow> grant_reply \<times> app" where
  "admin_grant authed body a =
     (if \<not> authed then (Forbidden, a)
      else case body of
        None \<Rightarrow> (Bad ''malformed JSON body'', a)
      | Some v \<Rightarrow>
          (case gb_match_id v of
             None \<Rightarrow> (Bad ''match_id (non-empty string) required'', a)
           | Some m \<Rightarrow>
               if m = [] then (Bad ''match_id (non-empty string) required'', a)
               else if gb_side v \<notin> {Some ''A'', Some ''B''} then (Bad ''side must be \"A\" or \"B\"'', a)
               else
                 let s = (if gb_side v = Some ''A'' then Side_A else Side_B) in
                 case grant_weapon_field (gb_weapon v) of
                   None \<Rightarrow> (Bad ''weapon must be an integer in 0..=33'', a)
                 | Some weapon \<Rightarrow>
                     (case grant_funds_field (gb_funds v) of
                        None \<Rightarrow> (Bad ''funds must be an integer (i64)'', a)
                      | Some funds \<Rightarrow>
                          if weapon = None \<and> funds = None then (Bad ''at least one of weapon/funds must be present'', a)
                          else case map_of (ap_bouts a) m of
                            None \<Rightarrow> (No_match, a)
                          | Some _ \<Rightarrow>
                              (case try_control m (Debug_grant s weapon funds) a of
                                 (False, a) \<Rightarrow> (Busy, a)
                               | (True, a) \<Rightarrow> (Granted m s (map_option (\<lambda>t. int (index t)) weapon) funds, a)))))"

definition debug_matches :: "app \<Rightarrow> (string \<times> string \<times> string) list" where
  "debug_matches a = map (\<lambda>(m, h). (m, bh_name_a h, bh_name_b h)) (ap_bouts a)"

definition leaderboard :: "app \<Rightarrow> ladder_row list" where
  "leaderboard a = rank_players (ap_ratings a)"

definition post_identity :: "(string \<Rightarrow> string) \<Rightarrow> string option \<Rightarrow> string reply" where
  "post_identity issue_token name =
     (case Option.bind name sanitize_name of None \<Rightarrow> Bad_request ''name required'' | Some n \<Rightarrow> Ok_reply (issue_token n))"

definition is_static_path :: "string \<Rightarrow> bool" where
  "is_static_path path \<longleftrightarrow> path = ''/'' \<or> prefix ''/www'' path \<or> prefix ''/pkg'' path \<or> prefix ''/assets'' path"

end
