(* ===== verification/MatchLoop.thy ===== *)
theory MatchLoop
  imports Lobby
begin

section \<open>The loop of a match\<close>

text \<open>
  \<open>run_bout\<close> of \<open>bt-server/src/main.rs\<close>: the task that owns a match. \<open>loop_tick\<close> is one turn of its loop, with
  what was in the two channels; \<open>end_bout\<close> is what it does to the shared state after the loop, under the
  lock. Whether a socket still takes messages is the argument \<open>alive\<close>, constant within a turn, and the clock
  is read once per turn.
\<close>

definition REJOIN_GRACE :: nat where "REJOIN_GRACE = 12000"

record match_loop =
  ml_match_id :: string
  ml_id :: "side \<Rightarrow> conn"
  ml_seed :: "side \<Rightarrow> u64"
  ml_name :: "side \<Rightarrow> string"
  ml_state :: "side \<Rightarrow> player_state"
  ml_human :: "side \<Rightarrow> bool"
  ml_bout :: bout
  ml_frame :: u64
  ml_want :: "side \<Rightarrow> bool"
  ml_connected :: "side \<Rightarrow> bool"
  ml_spectators :: "conn list"
  ml_grace :: "nat option"
  ml_resync :: "side \<Rightarrow> nat option"

definition loop_new :: "pending_bout \<Rightarrow> match_loop option" where
  "loop_new pb =
     map_option (\<lambda>b. \<lparr>ml_match_id = pb_match_id pb, ml_id = pb_id pb, ml_seed = pb_seed pb, ml_name = pb_name pb,
         ml_state = pb_state pb, ml_human = pb_human pb, ml_bout = b, ml_frame = 0, ml_want = (\<lambda>_. True),
         ml_connected = (\<lambda>_. True), ml_spectators = [], ml_grace = None, ml_resync = (\<lambda>_. None)\<rparr>)
       (bout_new (pb_seed pb Side_A) (pb_seed pb Side_B))"

definition resync_grant_allowed :: "nat option \<Rightarrow> nat \<Rightarrow> bool \<times> nat option" where
  "resync_grant_allowed last_grant now =
     (let allowed = (case last_grant of None \<Rightarrow> True | Some t \<Rightarrow> now - t \<ge> 1000)
      in (allowed, if allowed then Some now else last_grant))"

type_synonym outbox = "(conn \<times> server_msg) list"

text \<open>Sending to a writer succeeds iff its socket lives.\<close>

definition push :: "(conn \<Rightarrow> bool) \<Rightarrow> conn \<Rightarrow> server_msg \<Rightarrow> outbox \<Rightarrow> outbox" where
  "push alive k msg out = (if alive k then out @ [(k, msg)] else out)"

definition both_connected :: "match_loop \<Rightarrow> bool" where
  "both_connected ml \<longleftrightarrow> ml_connected ml Side_A \<and> ml_connected ml Side_B"

definition push_snapshot :: "(conn \<Rightarrow> bool) \<Rightarrow> side \<Rightarrow> bool \<Rightarrow> bool \<Rightarrow> match_loop \<Rightarrow> outbox \<Rightarrow> outbox" where
  "push_snapshot alive s kf spy ml out = push alive (ml_id ml s) (Snapshot_msg (build_snapshot s kf spy (ml_bout ml))) out"

definition resume_both :: "(conn \<Rightarrow> bool) \<Rightarrow> match_loop \<times> outbox \<Rightarrow> match_loop \<times> outbox" where
  "resume_both alive st =
     (let (ml, out) = st in
      if both_connected ml then
        (let ml = ml\<lparr>ml_grace := None\<rparr>;
             out = push_snapshot alive Side_A True True ml out;
             out = push alive (ml_id ml Side_A) Opponent_resumed out;
             out = push_snapshot alive Side_B True True ml out;
             out = push alive (ml_id ml Side_B) Opponent_resumed out
         in (ml\<lparr>ml_want := (\<lambda>_. True)\<rparr>, out))
      else (ml, out))"

definition reattach :: "(conn \<Rightarrow> bool) \<Rightarrow> side \<Rightarrow> conn \<Rightarrow> match_loop \<times> outbox \<Rightarrow> match_loop \<times> outbox" where
  "reattach alive s k st =
     (let (ml, out) = st;
          ml = ml\<lparr>ml_id := (ml_id ml)(s := k), ml_connected := (ml_connected ml)(s := True), ml_bout := reset_ack s (ml_bout ml)\<rparr>;
          out = push alive k (Match_start s (ml_seed ml s) (ml_name ml (other_side s)) None None (ml_match_id ml)) out;
          out = push_snapshot alive s True True ml out
      in resume_both alive (ml, out))"

fun control_step :: "nat \<Rightarrow> (conn \<Rightarrow> bool) \<Rightarrow> bout_control \<Rightarrow> match_loop \<times> outbox \<times> side option \<Rightarrow> match_loop \<times> outbox \<times> side option" where
  "control_step now alive (Reattach s k) (ml, out, forfeit_by) =
     (let (ml, out) = reattach alive s k (ml, out) in (ml, out, forfeit_by))"
| "control_step now alive (Forfeit s) (ml, out, forfeit_by) = (ml, out, Some s)"
| "control_step now alive (Add_spectator k) (ml, out, forfeit_by) =
     (if alive k
      then (ml\<lparr>ml_spectators := ml_spectators ml @ [k]\<rparr>,
            push alive k (Spectator_msg (spectate (ml_name ml Side_A) (ml_name ml Side_B) (ml_bout ml))) out, forfeit_by)
      else (ml, out, forfeit_by))"
| "control_step now alive (Debug_grant s weapon funds) (ml, out, forfeit_by) =
     (ml\<lparr>ml_bout := snd (debug_grant s weapon funds (ml_bout ml)), ml_want := (\<lambda>_. True)\<rparr>, out, forfeit_by)"
| "control_step now alive (Resync s) (ml, out, forfeit_by) =
     (let (allowed, last_grant) = resync_grant_allowed (ml_resync ml s) now;
          ml = ml\<lparr>ml_resync := (ml_resync ml)(s := last_grant)\<rparr>
      in (if allowed then ml\<lparr>ml_want := (ml_want ml)(s := True)\<rparr> else ml, out, forfeit_by))"

text \<open>A turn goes on, or ends the match: side A has won or lost, or nobody is left to rate.\<close>

datatype verdict = Continue | Break "bool option"

definition probe :: "(conn \<Rightarrow> bool) \<Rightarrow> side \<Rightarrow> match_loop \<times> outbox \<Rightarrow> match_loop \<times> outbox" where
  "probe alive s st =
     (let (ml, out) = st in
      if ml_connected ml s
      then (ml\<lparr>ml_connected := (ml_connected ml)(s := alive (ml_id ml s))\<rparr>, push alive (ml_id ml s) Heartbeat out)
      else (ml, out))"

definition frozen_tick :: "nat \<Rightarrow> (conn \<Rightarrow> bool) \<Rightarrow> match_loop \<times> outbox \<Rightarrow> match_loop \<times> outbox \<times> verdict" where
  "frozen_tick now alive st =
     (let (ml, out) = st in
      if (case ml_grace ml of Some d \<Rightarrow> now \<ge> d | None \<Rightarrow> False)
      then (ml, out, Break (case (ml_connected ml Side_A, ml_connected ml Side_B) of
             (True, False) \<Rightarrow> Some True | (False, True) \<Rightarrow> Some False | _ \<Rightarrow> None))
      else
        let (ml, out) = (if ml_frame ml mod 32 = 0 then probe alive Side_B (probe alive Side_A (ml, out)) else (ml, out))
        in (ml\<lparr>ml_frame := ml_frame ml + 1\<rparr>, out, Continue))"

definition forward_events :: "(conn \<Rightarrow> bool) \<Rightarrow> side \<Rightarrow> match_loop \<times> outbox \<Rightarrow> match_loop \<times> outbox" where
  "forward_events alive s st =
     (let (ml, out) = st in
      if ml_connected ml s then
        (let (es, b) = take_events_for s (ml_bout ml)
         in (ml\<lparr>ml_bout := b\<rparr>, fold (\<lambda>e. push alive (ml_id ml s) (Event_msg e)) es out))
      else (ml, out))"

text \<open>The snapshots of an even turn, and what a failed one means: a verdict, or the freeze.\<close>

definition send_snapshots :: "nat \<Rightarrow> (conn \<Rightarrow> bool) \<Rightarrow> match_loop \<times> outbox \<Rightarrow> match_loop \<times> outbox \<times> verdict" where
  "send_snapshots now alive st =
     (let (ml, out) = st;
          kf = ml_want ml;
          ml = ml\<lparr>ml_want := (\<lambda>_. False)\<rparr>;
          spy = (ml_frame ml mod 8 = 0);
          out = push_snapshot alive Side_A (kf Side_A) spy ml out;
          out = push_snapshot alive Side_B (kf Side_B) spy ml out;
          a_ok = alive (ml_id ml Side_A);
          b_ok = alive (ml_id ml Side_B);
          ml = ml\<lparr>ml_connected := by_side a_ok b_ok\<rparr>
      in if a_ok \<and> b_ok then (ml, out, Continue)
         else if \<not> (\<not> a_ok \<and> ml_human ml Side_A \<or> \<not> b_ok \<and> ml_human ml Side_B) then (ml, out, Break (Some a_ok))
         else
           let ml = (if ml_grace ml = None then ml\<lparr>ml_grace := Some (now + REJOIN_GRACE)\<rparr> else ml);
               out = push alive (ml_id ml Side_A) (Opponent_reconnecting 12) out;
               out = push alive (ml_id ml Side_B) (Opponent_reconnecting 12) out
           in (ml, out, Continue))"

definition stream_spectators :: "(conn \<Rightarrow> bool) \<Rightarrow> match_loop \<times> outbox \<Rightarrow> match_loop \<times> outbox" where
  "stream_spectators alive st =
     (let (ml, out) = st in
      if ml_frame ml mod 4 = 0 \<and> ml_spectators ml \<noteq> [] then
        (let msg = Spectator_msg (spectate (ml_name ml Side_A) (ml_name ml Side_B) (ml_bout ml))
         in (ml\<lparr>ml_spectators := filter alive (ml_spectators ml)\<rparr>, fold (\<lambda>k. push alive k msg) (ml_spectators ml) out))
      else (ml, out))"

definition apply_inputs :: "(side \<times> input \<times> u64) list \<Rightarrow> bout \<Rightarrow> bout" where
  "apply_inputs msgs b = fold (\<lambda>(s, i, q) b. snd (bout_input s i q b)) msgs b"

definition bout_over :: "bout \<Rightarrow> bool" where
  "bout_over b = is_over (bo_versus b)"

definition play_tick ::
    "nat \<Rightarrow> (conn \<Rightarrow> bool) \<Rightarrow> (side \<times> input \<times> u64) list \<Rightarrow> match_loop \<times> outbox \<Rightarrow> (match_loop \<times> outbox \<times> verdict) option" where
  "play_tick now alive msgs st =
     (let (ml, out) = st in
      do {
        b \<leftarrow> bout_tick TICK_MS (apply_inputs msgs (ml_bout ml));
        let (dirty, b) = bout_take_dirty b;
        let ml = ml\<lparr>ml_bout := b\<rparr>;
        let ml = (if dirty then ml\<lparr>ml_want := (\<lambda>_. True)\<rparr> else ml);
        let (ml, out) = forward_events alive Side_B (forward_events alive Side_A (ml, out));
        if bout_over (ml_bout ml) then
          (let out = push_snapshot alive Side_A True True ml out;
               out = push_snapshot alive Side_B True True ml out
           in Some (ml, out, Break (Some (v_result (bo_versus (ml_bout ml)) = 1))))
        else
          (let (ml, out, verdict) = (if ml_frame ml mod 2 = 0 then send_snapshots now alive (ml, out) else (ml, out, Continue))
           in if verdict \<noteq> Continue then Some (ml, out, verdict)
              else let (ml, out) = stream_spectators alive (ml, out)
                   in Some (ml\<lparr>ml_frame := ml_frame ml + 1\<rparr>, out, Continue))
      })"

text \<open>A turn: its result tells too whether the inputs were taken from their channel.\<close>

definition loop_tick ::
    "nat \<Rightarrow> (conn \<Rightarrow> bool) \<Rightarrow> bout_control list \<Rightarrow> (side \<times> input \<times> u64) list \<Rightarrow> match_loop \<Rightarrow>
     (match_loop \<times> outbox \<times> verdict \<times> bool) option" where
  "loop_tick now alive ctrls msgs ml =
     (let (ml, out, forfeit_by) = fold (control_step now alive) ctrls (ml, [], None) in
      case forfeit_by of
        Some s \<Rightarrow> Some (ml, out, Break (Some (s = Side_B)), False)
      | None \<Rightarrow>
          if \<not> both_connected ml then
            (let (ml, out, verdict) = frozen_tick now alive (ml, out) in Some (ml, out, verdict, False))
          else map_option (\<lambda>(ml, out, verdict). (ml, out, verdict, True)) (play_tick now alive msgs (ml, out)))"

subsection \<open>After the loop\<close>

definition rating_msg :: "player_state \<Rightarrow> bool \<Rightarrow> server_msg" where
  "rating_msg s won =
     Rating_msg (rt_mu (ps_rating s)) (rt_sigma (ps_rating s)) (conservative 3 (ps_rating s)) won"

definition settle_bout :: "world \<Rightarrow> match_loop \<Rightarrow> bool \<Rightarrow> app \<Rightarrow> app" where
  "settle_bout w ml a_won a =
     (if ml_match_id ml \<in> set (ap_settled a) then a
      else
        let a = a\<lparr>ap_settled := ml_match_id ml # ap_settled a\<rparr>;
            outcome = \<lparr>mo_winner = (if a_won then Won_A else Won_B), mo_a_lines = bout_lines Side_A (ml_bout ml),
                       mo_b_lines = bout_lines Side_B (ml_bout ml), mo_a_quit = False, mo_b_quit = False\<rparr>;
            (na, nb) = rate_match (wd_libm w) (ml_state ml Side_A) (ml_state ml Side_B) outcome (ap_params a);
            a = store_rating (ml_name ml Side_A) na a;
            a = store_rating (ml_name ml Side_B) nb a;
            a = upd_client (ml_id ml Side_A) (\<lambda>c. c\<lparr>cl_state := na\<rparr>) a;
            a = upd_client (ml_id ml Side_B) (\<lambda>c. c\<lparr>cl_state := nb\<rparr>) a;
            a = send (ml_id ml Side_A) (rating_msg na a_won) a
        in send (ml_id ml Side_B) (rating_msg nb (\<not> a_won)) a)"

definition final_stats :: "side \<Rightarrow> bool \<Rightarrow> bout \<Rightarrow> match_stats" where
  "final_stats s won b =
     (let sc = g_score (v_game s (bo_versus b))
      in \<lparr>ms_won = won, ms_score = s_score sc, ms_lines = uint (bout_lines s b), ms_funds = s_funds sc,
          ms_ticks = as_i64 (uint (bo_tick b)), ms_natural = bout_over b\<rparr>)"

definition record_side :: "match_loop \<Rightarrow> bool \<Rightarrow> side \<Rightarrow> app \<Rightarrow> app" where
  "record_side ml a_won s a =
     (let base = new_rating (t2_base (ap_params a));
          (mu, sigma) = (case map_of (ap_ratings a) (ml_name ml s) of
              Some (mu, sigma, _) \<Rightarrow> (mu, sigma) | None \<Rightarrow> (rt_mu base, rt_sigma base))
      in a\<lparr>ap_db := (ap_db a)\<lparr>db_players :=
            db_record_player_stats (ml_name ml s) mu sigma (final_stats s (a_won = (s = Side_A)) (ml_bout ml)) (db_players (ap_db a))\<rparr>\<rparr>)"

definition record_bout_player_stats :: "match_loop \<Rightarrow> bool \<Rightarrow> app \<Rightarrow> app" where
  "record_bout_player_stats ml a_won a = record_side ml a_won Side_B (record_side ml a_won Side_A a)"

definition leave_bout :: "client \<Rightarrow> client" where
  "leave_bout c =
     c\<lparr>cl_bout := None, cl_match_id := None, cl_peer := None,
       cl_status := (if cl_name c = [] then cl_status c else post_bout_status (cl_prev_status c)), cl_prev_status := None\<rparr>"

text \<open>What the write of the recording depends on.\<close>

record archive_env =
  ae_json :: "versus_replay \<Rightarrow> string"
  ae_sha :: string
  ae_put_ok :: bool
  ae_now_secs :: i64

definition write_of :: "world \<Rightarrow> archive_env \<Rightarrow> match_loop \<Rightarrow> bool option \<Rightarrow> app \<Rightarrow> replay_write option \<times> app" where
  "write_of w env ml outcome a =
     (if outcome \<noteq> None \<and> bout_over (ml_bout ml) then
        (let (rw, store) = prepare_replay_write (wd_hash w) (ae_json env) (ae_sha env) (ae_put_ok env) (ap_store a)
               (ml_bout ml) (ml_match_id ml) (ml_name ml Side_A) (ml_name ml Side_B)
         in (Some rw, a\<lparr>ap_store := store\<rparr>))
      else (None, a))"

definition log_out :: "outbox \<Rightarrow> app \<Rightarrow> app" where
  "log_out out a = a\<lparr>ap_sent := ap_sent a @ out\<rparr>"

definition push_both :: "(conn \<Rightarrow> bool) \<Rightarrow> match_loop \<Rightarrow> server_msg \<Rightarrow> app \<Rightarrow> app" where
  "push_both alive ml msg a = log_out (push alive (ml_id ml Side_B) msg (push alive (ml_id ml Side_A) msg [])) a"

definition store_write :: "archive_env \<Rightarrow> (conn \<Rightarrow> bool) \<Rightarrow> match_loop \<Rightarrow> replay_write option \<Rightarrow> app \<Rightarrow> app" where
  "store_write env alive ml rw a =
     (case rw of
        Some (Row key r json_col n) \<Rightarrow>
          push_both alive ml (Match_replay key)
            (a\<lparr>ap_db := (ap_db a)\<lparr>db_replays := snd (db_insert_versus key r json_col (ae_now_secs env)
                 (ml_name ml Side_A) (ml_name ml Side_B) n (db_replays (ap_db a)))\<rparr>\<rparr>)
      | _ \<Rightarrow> a)"

definition end_bout :: "world \<Rightarrow> archive_env \<Rightarrow> (conn \<Rightarrow> bool) \<Rightarrow> match_loop \<Rightarrow> bool option \<Rightarrow> app \<Rightarrow> app" where
  "end_bout w env alive ml outcome a =
     (let (rw, a) = write_of w env ml outcome a;
          a = a\<lparr>ap_bouts := AList.delete (ml_match_id ml) (ap_bouts a)\<rparr>;
          a = upd_client (ml_id ml Side_B) leave_bout (upd_client (ml_id ml Side_A) leave_bout a);
          a = (case outcome of
                 Some a_won \<Rightarrow>
                   (let a = (if bout_over (ml_bout ml) then a else push_both alive ml Opponent_left a);
                        a = settle_bout w ml a_won a;
                        a = record_bout_player_stats ml a_won a
                    in store_write env alive ml rw a)
               | None \<Rightarrow> a);
          a = maybe_broadcast_players a
      in a\<lparr>ap_open := removeAll (ml_match_id ml) (ap_open a)\<rparr>)"

end
