(* ===== verification/ArchiveProps.thy ===== *)
theory ArchiveProps
  imports Archive
begin

section \<open>What the archive promises\<close>

text \<open>
  Every upload that parses is counted, stored and served; the recording of a finished match is served from
  wherever it was written; the retention policy removes what it says and nothing twice; the migration of the
  blobs never loses a recording, however far it gets.
\<close>

subsection \<open>Counting the lines of an upload ends\<close>

lemma vc_player_event_safe:
  assumes "vc_safe v" shows "vc_safe (vc_player_event e v)"
proof -
  have "reachable (vc_player v)" "reachable (vc_ai v)" using assms by (simp_all add: vc_safe_def)
  note K = cross_keeps [OF this player_event_games [of e v, symmetric], of False]
  then show ?thesis using assms by (simp add: vc_safe_def keeps_news_def player_event_rest)
qed

lemma vc_ai_event_safe:
  assumes "vc_safe v" shows "vc_safe (vc_ai_event e v)"
proof -
  have "reachable (vc_ai v)" "reachable (vc_player v)" using assms by (simp_all add: vc_safe_def)
  note K = cross_keeps [OF this ai_event_games [of e v, symmetric], of False]
  then show ?thesis using assms by (simp add: vc_safe_def keeps_news_def ai_event_rest)
qed

lemma vc_relay_safe:
  assumes "vc_safe v" shows "vc_safe (vc_relay v)"
proof -
  have p: "vc_safe (v\<lparr>vc_player := snd (take_events (vc_player v))\<rparr>)"
    using assms r_events by (simp add: vc_safe_def)
  define w where "w = fold vc_player_event (fst (take_events (vc_player v))) (v\<lparr>vc_player := snd (take_events (vc_player v))\<rparr>)"
  have w: "vc_safe w" unfolding w_def by (rule fold_preserves [where P = vc_safe, OF p]) (rule vc_player_event_safe)
  then have "vc_safe (w\<lparr>vc_ai := snd (take_events (vc_ai w))\<rparr>)" using r_events by (simp add: vc_safe_def)
  then have "vc_safe (fold vc_ai_event (fst (take_events (vc_ai w))) (w\<lparr>vc_ai := snd (take_events (vc_ai w))\<rparr>))"
    by (rule fold_preserves [where P = vc_safe]) (rule vc_ai_event_safe)
  then show ?thesis by (simp add: vc_relay_def split_beta Let_def w_def)
qed

lemma vc_tick_safe:
  assumes "vc_safe v" shows "returns vc_safe (vc_tick dt v)"
proof -
  have v: "reachable (vc_player v)" "reachable (vc_ai v)" "ernie (co_strategy (vc_computer v))" using assms by (simp_all add: vc_safe_def)
  obtain p where p: "tick dt (vc_player v) = Some p" "reachable p"
    using tick_returns [OF reachable_ok [OF v(1)], of dt] r_tick [OF v(1)] by (auto elim!: returnsE)
  obtain a where a: "tick dt (vc_ai v) = Some a" "reachable a"
    using tick_returns [OF reachable_ok [OF v(2)], of dt] r_tick [OF v(2)] by (auto elim!: returnsE)
  obtain c b where turn: "take_turn (vc_computer v) a = Some (c, b)" "reachable b" "ernie (co_strategy c)"
    using take_turn_returns [OF a(2) v(3)] by (auto simp: returns_def)
  obtain s h where shop: "computer_shop (vc_computer v) (vc_ai v) = (s, h)" by fastforce
  have bought: "reachable h \<and> ernie (co_strategy s)" using computer_shop_ok [OF v(2,3)] shop by simp
  have "vc_safe (v\<lparr>vc_computer := s, vc_ai := leave_bazaar h\<rparr>)" using bought v r_leave by (simp add: vc_safe_def)
  moreover have "\<exists>w. vc_ai_logic dt (v\<lparr>vc_player := p\<rparr>) = Some w \<and> vc_safe w"
    using p a turn v by (auto simp: vc_ai_logic_def Let_def vc_safe_def)
  ultimately show ?thesis
    using assms p(1) vc_relay_safe by (auto simp: vc_tick_def Let_def shop)
qed

definition engine_safe :: "vs_computer engine \<Rightarrow> bool" where
  "engine_safe e \<longleftrightarrow> (case e of Single g \<Rightarrow> reachable g | Vs v \<Rightarrow> vc_safe v)"

lemma rp_apply_safe: "engine_safe e \<Longrightarrow> engine_safe (rp_apply computer_ops i e)"
  using apply_reachable
  by (auto simp: engine_safe_def rp_apply_def computer_ops_def vc_input_def vc_safe_def split: engine.splits)

lemma rp_tick_safe: "engine_safe e \<Longrightarrow> returns engine_safe (rp_tick computer_ops dt e)"
proof (cases e)
  case (Single g)
  assume "engine_safe e"
  then have g: "reachable g" by (simp add: engine_safe_def Single)
  obtain g' where "tick dt g = Some g'" "reachable g'"
    using tick_returns [OF reachable_ok [OF g], of dt] r_tick [OF g] by (auto elim!: returnsE)
  then show ?thesis using r_events by (simp add: rp_tick_def Single engine_safe_def)
next
  case (Vs v)
  assume "engine_safe e"
  then obtain w where "vc_tick dt v = Some w" "vc_safe w" using vc_tick_safe [of v dt] by (auto simp: engine_safe_def Vs elim: returnsE)
  then show ?thesis by (simp add: rp_tick_def Vs engine_safe_def computer_ops_def vc_drain_def vc_safe_def)
qed

lemma rp_steps_return:
  assumes "engine_safe (rp_engine p)" shows "returns (\<lambda>q. engine_safe (rp_engine q)) (steps (rp_step computer_ops) n p)"
proof (induction n)
  case (Suc n)
  have "returns (\<lambda>q. engine_safe (rp_engine q)) (map_option snd (rp_step computer_ops q))" if q: "engine_safe (rp_engine q)" for q
  proof -
    have "engine_safe (fst (rp_due computer_ops now fs (rp_engine q, c)))" for now fs c
      unfolding rp_due_fold fst_conv by (rule fold_preserves) (use q rp_apply_safe in auto)
    then obtain e where "rp_tick computer_ops (re_dt_ms (rp_replay q)) (fst (rp_due computer_ops (rp_executed q)
        (drop (rp_cursor q) (re_frames (rp_replay q))) (rp_engine q, rp_cursor q))) = Some e" "engine_safe e"
      using rp_tick_safe by (blast elim: returnsE)
    then show ?thesis using q by (simp add: rp_step_def Let_def split_beta)
  qed
  then show ?case unfolding steps.simps by (rule returns_bind [OF Suc])
qed (use assms in simp)

lemma single_replay_lines_returns: obtains n where "single_replay_lines r = Some n"
proof -
  obtain g where g: "game_new (ucast (re_seed r)) = Some g" "reachable g" by (rule reachable_new)
  obtain v where v: "vc_new (ucast (re_seed r)) (case re_ai_level r of Some l \<Rightarrow> unat l | None \<Rightarrow> 0) = Some v" "duel v"
    by (rule duel_new)
  have vs: "vc_safe v" using duel_inv [OF v(2)] by (simp add: vc_inv_def)
  obtain p where p: "rp_new computer_ops r = Some p" "engine_safe (rp_engine p)"
    using g v(1) vs by (cases "re_mode r") (auto simp: rp_new_def computer_ops_def engine_safe_def Let_def)
  then have "rp_executed p = 0" "rp_replay p = r" using rp.start_at [OF p(1)] by simp_all
  then have "rp_run_to_end computer_ops p = steps (rp_step computer_ops) (unat (re_tick_count r)) p"
    using rp.run_steps [of p computer_ops] by simp
  then show thesis using p rp_steps_return [OF p(2), of "unat (re_tick_count r)"] that
    by (auto simp: single_replay_lines_def elim!: returnsE)
qed

subsection \<open>Uploads\<close>

lemma hex_digit_ok: "is_ascii_hexdigit (hex_digit n)"
proof -
  have "unat (n AND 15) \<le> 15" using word_and_le1 [of n 15] by (simp add: word_le_nat_alt)
  then have "hex_digit n \<in> set ''0123456789abcdef''" unfolding hex_digit_def by (intro nth_mem) simp
  then show ?thesis by (auto simp: is_ascii_hexdigit_def)
qed

lemma replay_id_valid: "valid_replay_id (replay_id hash json)"
  using hex_digit_ok by (simp add: valid_replay_id_def replay_id_def list_all_iff)

lemma find_inserted:
  "rr_id row \<notin> set (map rr_id rows) \<Longrightarrow> find_row (rr_id row) (snd (insert_or_ignore row rows)) = Some row"
  by (induction rows) (auto simp: insert_or_ignore_def find_row_def)

lemma find_kept: "find_row key rows = Some r \<Longrightarrow> find_row key (snd (insert_or_ignore row rows)) = Some r"
  by (induction rows) (auto simp: insert_or_ignore_def find_row_def)

text \<open>
  C20. An upload always ends in an answer, whatever recording it carries. A text that does not parse and a
  recording of more than a million ticks are refused; if the database fails, the answer is an error; in these cases the table
  stays as it was. Any other recording is replayed to its end and answered with its content id. If the id is new, one row is
  added behind the others, and the text is served under the id, byte for byte. If the id is taken - by the same text, or by
  another with the same hash - nothing changes, and what was stored first goes on being served.
\<close>

theorem upload_served:
  "\<exists>answer rows'. post_replay hash P db_ok now body rows = Some (answer, rows') \<and>
     (case pa_single P body of
        None \<Rightarrow> answer = Bad_request ''invalid replay'' \<and> rows' = rows
      | Some r \<Rightarrow>
          if 1000000 < re_tick_count r then answer = Bad_request ''replay too long'' \<and> rows' = rows
          else if \<not> db_ok then answer = Internal_error \<and> rows' = rows
          else answer = Ok_reply (replay_id hash body) \<and>
            (case find_row (replay_id hash body) rows of
               Some _ \<Rightarrow> rows' = rows
             | None \<Rightarrow> get_replay with_names store (replay_id hash body) rows' = Ok_reply body \<and>
                 (\<exists>row. rows' = rows @ [row] \<and> rr_id row = replay_id hash body)))"
proof (cases "pa_single P body")
  case (Some r)
  obtain n where n: "single_replay_lines r = Some n" by (rule single_replay_lines_returns)
  define row where "row = \<lparr>rr_id = replay_id hash body, rr_mode = mode_name (re_mode r), rr_seed = uint (re_seed r),
    rr_ai_level = map_option uint (re_ai_level r), rr_tick_count = uint (re_tick_count r), rr_inputs = int (length (re_frames r)),
    rr_engine_sha = re_engine_sha r, rr_created_at = now, rr_json = Some body, rr_title = re_title r, rr_name_a = None,
    rr_name_b = None, rr_lines = Some n\<rparr>"
  have ins: "db_insert (replay_id hash body) r body now rows = Some (insert_or_ignore row rows)"
    by (simp add: db_insert_def n row_def)
  have row: "rr_id row = replay_id hash body" by (simp add: row_def)
  have taken: "find_row (replay_id hash body) rows = None \<longleftrightarrow> replay_id hash body \<notin> set (map rr_id rows)"
    by (induction rows) (auto simp: find_row_def)
  show ?thesis
  proof (cases "find_row (replay_id hash body) rows")
    case None
    then have new: "rr_id row \<notin> set (map rr_id rows)" using taken row by simp
    have "get_replay with_names store (replay_id hash body) (rows @ [row]) = Ok_reply body"
      using find_inserted [OF new] new
      by (simp add: get_replay_def replay_id_valid row_def resolve_replay_json_def insert_or_ignore_def)
    then show ?thesis using Some new row None by (auto simp: post_replay_def ins MAX_REPLAY_TICKS_def insert_or_ignore_def)
  next
    case (Some old)
    then have "rr_id row \<in> set (map rr_id rows)" using taken row by simp
    then show ?thesis using \<open>pa_single P body = Some r\<close> Some by (auto simp: post_replay_def ins MAX_REPLAY_TICKS_def insert_or_ignore_def)
  qed
qed (simp add: post_replay_def)

text \<open>A text that stands for a recording of five ticks.\<close>

definition short_recording :: replay where
  "short_recording = \<lparr>re_version = 1, re_seed = 7, re_mode = Practice, re_ai_level = None, re_dt_ms = 16, re_engine_sha = ''dev'',
     re_tick_count = 5, re_frames = [], re_title = None\<rparr>"

definition sample_parsers :: parsers where
  "sample_parsers = \<lparr>pa_single = (\<lambda>s. if s = ''five'' then Some short_recording else None), pa_versus = (\<lambda>_. None)\<rparr>"

theorem upload_served_witness:
  "\<exists>rows'. post_replay (\<lambda>_. 7) sample_parsers True 0 ''five'' [] = Some (Ok_reply (replay_id (\<lambda>_. 7) ''five''), rows') \<and>
     get_replay (\<lambda>s _ _. s) Sqlite (replay_id (\<lambda>_. 7) ''five'') rows' = Ok_reply ''five''"
  using upload_served [of "\<lambda>_. 7" sample_parsers True 0 "''five''" "[]" "\<lambda>s _ _. s" Sqlite]
  by (auto simp: sample_parsers_def short_recording_def find_row_def)

text \<open>
  The recording of a finished match is served to whoever asks for it, in either mode of storage: if the write was
  prepared (not sampled out, not a failed upload) and its id is new, the endpoint then answers with exactly the JSON of
  the match, labelled with the two names.
\<close>

theorem match_replay_served:
  assumes "prepare_replay_write hash to_json sha put_ok store b match_id name_a name_b = (Row key r json_col n, store')"
    and "key \<notin> set (map rr_id rows)"
  shows "get_replay with_names store' key (snd (db_insert_versus key r json_col now name_a name_b n rows))
    = Ok_reply (with_names (to_json (bout_to_replay TICK_MS sha b)) (Some name_a) (Some name_b)) \<and>
    r = bout_to_replay TICK_MS sha b \<and> n = uint (bout_lines Side_A b) + uint (bout_lines Side_B b)"
proof -
  define row where "row = \<lparr>rr_id = key, rr_mode = ''Online'', rr_seed = uint (vr_seed_a r), rr_ai_level = None,
        rr_tick_count = uint (vr_tick_count r), rr_inputs = int (length (vr_frames r)), rr_engine_sha = vr_engine_sha r,
        rr_created_at = now, rr_json = json_col, rr_title = vr_title r, rr_name_a = Some name_a, rr_name_b = Some name_b,
        rr_lines = Some n\<rparr>"
  have key: "key = replay_id hash (to_json (bout_to_replay TICK_MS sha b))"
    and rest: "r = bout_to_replay TICK_MS sha b" "n = uint (bout_lines Side_A b) + uint (bout_lines Side_B b)"
    and res: "resolve_replay_json store' key json_col = Inr (to_json (bout_to_replay TICK_MS sha b))"
    using assms(1)
    by (auto simp: prepare_replay_write_def Let_def resolve_replay_json_def split: if_splits replay_store.splits)
  have "find_row key (snd (db_insert_versus key r json_col now name_a name_b n rows)) = Some row"
    using find_inserted [of row rows] assms(2) by (simp add: db_insert_versus_def row_def)
  moreover have "valid_replay_id key" by (simp add: key replay_id_valid)
  ultimately show ?thesis using rest res by (simp add: get_replay_def row_def)
qed

subsection \<open>The migration of blobs\<close>

text \<open>What a reader gets for a row.\<close>

definition body_of :: "(string \<rightharpoonup> string) \<Rightarrow> replay_row \<Rightarrow> resolve_error + string" where
  "body_of os r = resolve_replay_json (Bucket os) (rr_id r) (rr_json r)"

definition bodies :: "(string \<rightharpoonup> string) \<Rightarrow> replay_row list \<Rightarrow> (string \<times> (resolve_error + string)) list" where
  "bodies os rows = map (\<lambda>r. (rr_id r, body_of os r)) rows"

lemma path_inj [simp]: "replay_blob_path a = replay_blob_path b \<longleftrightarrow> a = b"
  by (simp add: replay_blob_path_def)

lemma bodies_put:
  assumes "distinct (map rr_id rows)" "r \<in> set rows" "rr_json r = Some json"
  shows "bodies (os(replay_blob_path (rr_id r) \<mapsto> json)) (null_json (rr_id r) rows) = bodies os rows"
proof -
  have "body_of (os(replay_blob_path (rr_id r) \<mapsto> json)) (if rr_id s = rr_id r then s\<lparr>rr_json := None\<rparr> else s) = body_of os s"
    if "s \<in> set rows" for s
  proof (cases "rr_id s = rr_id r")
    case True
    then have "s = r" using assms(1,2) that by (auto simp: distinct_map inj_on_def)
    then show ?thesis using assms(3) by (simp add: body_of_def resolve_replay_json_def)
  qed (simp add: body_of_def resolve_replay_json_def split: option.split)
  then show ?thesis by (simp add: bodies_def null_json_def)
qed

lemma null_json_ids [simp]: "map rr_id (null_json key rows) = map rr_id rows"
  by (simp add: null_json_def)

lemma null_json_pending:
  "(k, j) \<in> set (pending_rows rows) \<Longrightarrow> k \<noteq> key \<Longrightarrow> (k, j) \<in> set (pending_rows (null_json key rows))"
  by (force simp: pending_rows_def null_json_def)

lemma pending_row: "(k, j) \<in> set (pending_rows rows) \<Longrightarrow> \<exists>r \<in> set rows. rr_id r = k \<and> rr_json r = Some j"
  by (auto simp: pending_rows_def)

lemma migrate_batch_bodies:
  assumes "distinct (map rr_id rows)" "set batch \<subseteq> set (pending_rows rows)" "distinct (map fst batch)"
    and "migrate_batch put_ok batch (os, rows, n) = (done', os', rows', n')"
  shows "bodies os' rows' = bodies os rows \<and> map rr_id rows' = map rr_id rows"
  using assms
proof (induction batch arbitrary: os rows n)
  case (Cons b batch)
  obtain key json where b: "b = (key, json)" by (cases b)
  then obtain r where r: "r \<in> set rows" "rr_id r = key" "rr_json r = Some json"
    using Cons.prems(2) pending_row by fastforce
  show ?case
  proof (cases "put_ok key")
    case True
    let ?os = "os(replay_blob_path key \<mapsto> json)" and ?rows = "null_json key rows"
    have "set batch \<subseteq> set (pending_rows ?rows)"
    proof
      fix x assume x: "x \<in> set batch"
      obtain k j where kj: "x = (k, j)" by (cases x)
      have "k \<in> set (map fst batch)" using x kj by force
      then have "k \<noteq> key" using Cons.prems(3) by (auto simp: b)
      moreover have "(k, j) \<in> set (pending_rows rows)" using Cons.prems(2) x kj by auto
      ultimately show "x \<in> set (pending_rows ?rows)" unfolding kj by (rule null_json_pending [rotated])
    qed
    moreover have "migrate_batch put_ok batch (?os, ?rows, n + 1) = (done', os', rows', n')" using Cons.prems(4) True by (simp add: b)
    moreover have "distinct (map rr_id ?rows)" "distinct (map fst batch)" using Cons.prems(1,3) by simp_all
    ultimately have "bodies os' rows' = bodies ?os ?rows \<and> map rr_id rows' = map rr_id ?rows" using Cons.IH by blast
    then show ?thesis using bodies_put [OF Cons.prems(1) r(1,3), of os] by (simp add: r(2))
  qed (use Cons.prems(4) in \<open>simp add: b\<close>)
qed simp

lemma pending_distinct: "distinct (map rr_id rows) \<Longrightarrow> distinct (map fst (pending_rows rows))"
  by (simp add: pending_rows_def comp_def distinct_map_filter)

text \<open>
  C21. The migration to the bucket ends, wherever an upload fails, and never changes what a reader gets: every recording,
  still in its row or already moved, resolves to what it resolved to before. If it succeeds, no row keeps
  its text inline.
\<close>

theorem migration_safe:
  assumes "distinct (map rr_id rows)"
    and "migrate_replay_blobs put_ok (os, rows, n) = (finished, os', rows', n')"
  shows "bodies os' rows' = bodies os rows \<and> (finished \<longrightarrow> (\<forall>r \<in> set rows'. rr_json r = None))"
  using assms
proof (induction put_ok "(os, rows, n)" arbitrary: os rows n rule: migrate_replay_blobs.induct)
  case (1 put_ok os rows n)
  let ?batch = "take BATCH (pending_rows rows)"
  show ?case
  proof (cases "?batch = []")
    case True
    then have "pending_rows rows = []" by (simp add: BATCH_def)
    then have "\<forall>r \<in> set rows. rr_json r = None" by (auto simp: pending_rows_def filter_empty_conv)
    then show ?thesis using 1(3) True by (simp add: migrate_replay_blobs.simps [of put_ok "(os, rows, n)"])
  next
    case False
    obtain ok os1 rows1 n1 where b: "migrate_batch put_ok ?batch (os, rows, n) = (ok, os1, rows1, n1)" by (metis prod_cases4)
    have "distinct (map fst ?batch)" using pending_distinct [OF 1(2)] by (simp flip: take_map)
    then have same: "bodies os1 rows1 = bodies os rows" "map rr_id rows1 = map rr_id rows"
      using migrate_batch_bodies [OF 1(2) set_take_subset _ b] by blast+
    show ?thesis
    proof (cases ok)
      case True
      then have run: "migrate_replay_blobs put_ok (os1, rows1, n1) = (finished, os', rows', n')"
        using 1(3) False b by (simp add: migrate_replay_blobs.simps [of put_ok "(os, rows, n)"])
      have "distinct (map rr_id rows1)" using 1(2) same(2) by simp
      from 1(1) [of ?batch, OF _ _ _ _ this run] show ?thesis using False b True same by simp
    next
      case ok: False
      then show ?thesis using 1(3) False b same by (simp add: migrate_replay_blobs.simps [of put_ok "(os, rows, n)"])
    qed
  qed
qed

definition inline_row :: "string \<Rightarrow> replay_row" where
  "inline_row key = \<lparr>rr_id = key, rr_mode = ''Online'', rr_seed = 7, rr_ai_level = None, rr_tick_count = 5, rr_inputs = 0,
     rr_engine_sha = ''dev'', rr_created_at = 0, rr_json = Some (key @ '' text''), rr_title = None, rr_name_a = None, rr_name_b = None,
     rr_lines = None\<rparr>"

text \<open>The second of two uploads fails, and nothing is lost.\<close>

theorem migration_safe_witness:
  "\<exists>finished os rows n. migrate_replay_blobs (\<lambda>k. k = ''a'') (Map.empty, [inline_row ''a'', inline_row ''b''], 0) = (finished, os, rows, n) \<and>
     bodies os rows = [(''a'', Inr ''a text''), (''b'', Inr ''b text'')]"
proof -
  obtain finished os rows n where m: "migrate_replay_blobs (\<lambda>k. k = ''a'') (Map.empty, [inline_row ''a'', inline_row ''b''], 0) = (finished, os, rows, n)"
    by (metis prod_cases4)
  have "distinct (map rr_id [inline_row ''a'', inline_row ''b''])" by (simp add: inline_row_def)
  from migration_safe [OF this m] show ?thesis using m
    by (simp add: bodies_def body_of_def inline_row_def resolve_replay_json_def)
qed

subsection \<open>Retention\<close>

text \<open>
  The boot prune removes exactly the untitled matches between two bot names that the sampler does not keep, and
  nothing else; run again, at any later boot, it removes nothing.
\<close>

theorem prune_policy:
  assumes "distinct (map rr_id rows)"
  shows "snd (db_prune_bot_replays rows) = filter (\<lambda>r. \<not> (prunable r \<and> \<not> replay_retained (rr_id r))) rows \<and>
    db_prune_bot_replays (snd (db_prune_bot_replays rows)) = (0, snd (db_prune_bot_replays rows))"
proof -
  have one: "r = s" if "r \<in> set rows" "s \<in> set rows" "rr_id r = rr_id s" for r s
    using assms that by (auto simp: distinct_map inj_on_def)
  have keep: "snd (db_prune_bot_replays rows) = filter (\<lambda>r. \<not> (prunable r \<and> \<not> replay_retained (rr_id r))) rows"
    by (auto simp: db_prune_bot_replays_def Let_def intro!: filter_cong dest: one)
  have "filter (\<lambda>i. \<not> replay_retained i) (map rr_id (filter prunable (snd (db_prune_bot_replays rows)))) = []"
    by (auto simp: keep filter_empty_conv)
  then show ?thesis using keep by (simp add: db_prune_bot_replays_def)
qed

text \<open>The names of the two policies agree on every name the first accepts, but the query ignores case.\<close>

lemma suffix_like: "suffix pat s \<Longrightarrow> like_suffix pat s"
  by (auto simp: like_suffix_def suffix_def)

lemma filler_prunable:
  "bot_filler_replay name_a name_b (rr_title row) \<Longrightarrow> rr_name_a row = Some name_a \<Longrightarrow> rr_name_b row = Some name_b \<Longrightarrow> prunable row"
  using suffix_like by (auto simp: bot_filler_replay_def prunable_def sql_bot_name_def is_bot_name_def)

lemma prune_ignores_case:
  "sql_bot_name (Some ''Al-bert'')" "\<not> is_bot_name ''Al-bert''" "\<not> bot_filler_replay ''Al-bert'' ''The Count'' None"
  by code_simp+

end
