(* ===== verification/LobbyInv.thy ===== *)
theory LobbyInv
  imports Lobby
begin

section \<open>The lobby's invariant and its pairings\<close>

text \<open>
  What each operation of the lobby leaves alone; the invariant of the shared state, kept by every event; and what
  is true of every match that an event opens.
\<close>

subsection \<open>What an operation leaves alone\<close>

lemma send_same [simp]:
  "ap_clients (send k msg a) = ap_clients a" "ap_waiting (send k msg a) = ap_waiting a"
  "ap_last_active (send k msg a) = ap_last_active a" "ap_ratings (send k msg a) = ap_ratings a"
  "ap_settled (send k msg a) = ap_settled a" "ap_params (send k msg a) = ap_params a" "ap_db (send k msg a) = ap_db a"
  "ap_store (send k msg a) = ap_store a" "ap_challenges (send k msg a) = ap_challenges a"
  "ap_bouts (send k msg a) = ap_bouts a" "ap_draining (send k msg a) = ap_draining a"
  "ap_inputs (send k msg a) = ap_inputs a" "ap_controls (send k msg a) = ap_controls a"
  "ap_open (send k msg a) = ap_open a" "ap_timers (send k msg a) = ap_timers a"
  by (simp_all add: send_def)

lemma broadcast_same [simp]:
  "ap_clients (broadcast msg a) = ap_clients a" "ap_waiting (broadcast msg a) = ap_waiting a"
  "ap_last_active (broadcast msg a) = ap_last_active a" "ap_ratings (broadcast msg a) = ap_ratings a"
  "ap_settled (broadcast msg a) = ap_settled a" "ap_params (broadcast msg a) = ap_params a"
  "ap_db (broadcast msg a) = ap_db a" "ap_store (broadcast msg a) = ap_store a"
  "ap_challenges (broadcast msg a) = ap_challenges a" "ap_bouts (broadcast msg a) = ap_bouts a"
  "ap_draining (broadcast msg a) = ap_draining a" "ap_inputs (broadcast msg a) = ap_inputs a"
  "ap_controls (broadcast msg a) = ap_controls a" "ap_open (broadcast msg a) = ap_open a"
  "ap_timers (broadcast msg a) = ap_timers a"
  by (simp_all add: broadcast_def)

lemma notify_same [simp]:
  "ap_clients (notify_lobby msg a) = ap_clients a" "ap_waiting (notify_lobby msg a) = ap_waiting a"
  "ap_last_active (notify_lobby msg a) = ap_last_active a" "ap_ratings (notify_lobby msg a) = ap_ratings a"
  "ap_settled (notify_lobby msg a) = ap_settled a" "ap_params (notify_lobby msg a) = ap_params a"
  "ap_db (notify_lobby msg a) = ap_db a" "ap_store (notify_lobby msg a) = ap_store a"
  "ap_challenges (notify_lobby msg a) = ap_challenges a" "ap_bouts (notify_lobby msg a) = ap_bouts a"
  "ap_draining (notify_lobby msg a) = ap_draining a" "ap_inputs (notify_lobby msg a) = ap_inputs a"
  "ap_controls (notify_lobby msg a) = ap_controls a" "ap_open (notify_lobby msg a) = ap_open a"
  "ap_timers (notify_lobby msg a) = ap_timers a"
  by (simp_all add: notify_lobby_def)

lemma stats_same [simp]:
  "ap_clients (maybe_broadcast_stats now a) = ap_clients a" "ap_waiting (maybe_broadcast_stats now a) = ap_waiting a"
  "ap_last_active (maybe_broadcast_stats now a) = ap_last_active a"
  "ap_ratings (maybe_broadcast_stats now a) = ap_ratings a" "ap_settled (maybe_broadcast_stats now a) = ap_settled a"
  "ap_params (maybe_broadcast_stats now a) = ap_params a" "ap_db (maybe_broadcast_stats now a) = ap_db a"
  "ap_store (maybe_broadcast_stats now a) = ap_store a"
  "ap_challenges (maybe_broadcast_stats now a) = ap_challenges a"
  "ap_bouts (maybe_broadcast_stats now a) = ap_bouts a" "ap_draining (maybe_broadcast_stats now a) = ap_draining a"
  "ap_inputs (maybe_broadcast_stats now a) = ap_inputs a" "ap_controls (maybe_broadcast_stats now a) = ap_controls a"
  "ap_open (maybe_broadcast_stats now a) = ap_open a" "ap_timers (maybe_broadcast_stats now a) = ap_timers a"
  by (simp_all add: maybe_broadcast_stats_def Let_def)

lemma players_same [simp]:
  "ap_clients (maybe_broadcast_players a) = ap_clients a" "ap_waiting (maybe_broadcast_players a) = ap_waiting a"
  "ap_last_active (maybe_broadcast_players a) = ap_last_active a"
  "ap_ratings (maybe_broadcast_players a) = ap_ratings a" "ap_settled (maybe_broadcast_players a) = ap_settled a"
  "ap_params (maybe_broadcast_players a) = ap_params a" "ap_db (maybe_broadcast_players a) = ap_db a"
  "ap_store (maybe_broadcast_players a) = ap_store a" "ap_challenges (maybe_broadcast_players a) = ap_challenges a"
  "ap_bouts (maybe_broadcast_players a) = ap_bouts a" "ap_draining (maybe_broadcast_players a) = ap_draining a"
  "ap_inputs (maybe_broadcast_players a) = ap_inputs a" "ap_controls (maybe_broadcast_players a) = ap_controls a"
  "ap_open (maybe_broadcast_players a) = ap_open a" "ap_timers (maybe_broadcast_players a) = ap_timers a"
  by (simp_all add: maybe_broadcast_players_def Let_def)

lemma upd_client_same [simp]:
  "ap_waiting (upd_client k f a) = ap_waiting a" "ap_last_active (upd_client k f a) = ap_last_active a"
  "ap_ratings (upd_client k f a) = ap_ratings a" "ap_settled (upd_client k f a) = ap_settled a"
  "ap_params (upd_client k f a) = ap_params a" "ap_db (upd_client k f a) = ap_db a"
  "ap_store (upd_client k f a) = ap_store a" "ap_challenges (upd_client k f a) = ap_challenges a"
  "ap_bouts (upd_client k f a) = ap_bouts a" "ap_draining (upd_client k f a) = ap_draining a"
  "ap_inputs (upd_client k f a) = ap_inputs a" "ap_controls (upd_client k f a) = ap_controls a"
  "ap_open (upd_client k f a) = ap_open a" "ap_timers (upd_client k f a) = ap_timers a"
  by (simp_all add: upd_client_def)

lemma clear_same [simp]:
  "ap_clients (clear_challenge k a) = ap_clients a" "ap_waiting (clear_challenge k a) = ap_waiting a"
  "ap_last_active (clear_challenge k a) = ap_last_active a" "ap_ratings (clear_challenge k a) = ap_ratings a"
  "ap_settled (clear_challenge k a) = ap_settled a" "ap_params (clear_challenge k a) = ap_params a"
  "ap_db (clear_challenge k a) = ap_db a" "ap_store (clear_challenge k a) = ap_store a"
  "ap_bouts (clear_challenge k a) = ap_bouts a" "ap_draining (clear_challenge k a) = ap_draining a"
  "ap_inputs (clear_challenge k a) = ap_inputs a" "ap_controls (clear_challenge k a) = ap_controls a"
  "ap_open (clear_challenge k a) = ap_open a" "ap_timers (clear_challenge k a) = ap_timers a"
  by (simp_all add: clear_challenge_def)

lemma control_same [simp]:
  "ap_clients (snd (try_control m ctrl a)) = ap_clients a" "ap_waiting (snd (try_control m ctrl a)) = ap_waiting a"
  "ap_last_active (snd (try_control m ctrl a)) = ap_last_active a"
  "ap_ratings (snd (try_control m ctrl a)) = ap_ratings a" "ap_settled (snd (try_control m ctrl a)) = ap_settled a"
  "ap_params (snd (try_control m ctrl a)) = ap_params a" "ap_db (snd (try_control m ctrl a)) = ap_db a"
  "ap_store (snd (try_control m ctrl a)) = ap_store a" "ap_challenges (snd (try_control m ctrl a)) = ap_challenges a"
  "ap_bouts (snd (try_control m ctrl a)) = ap_bouts a" "ap_draining (snd (try_control m ctrl a)) = ap_draining a"
  "ap_inputs (snd (try_control m ctrl a)) = ap_inputs a" "ap_open (snd (try_control m ctrl a)) = ap_open a"
  "ap_timers (snd (try_control m ctrl a)) = ap_timers a"
  by (simp_all add: try_control_def)

lemma input_same [simp]:
  "ap_clients (try_input m msg a) = ap_clients a" "ap_waiting (try_input m msg a) = ap_waiting a"
  "ap_last_active (try_input m msg a) = ap_last_active a" "ap_ratings (try_input m msg a) = ap_ratings a"
  "ap_settled (try_input m msg a) = ap_settled a" "ap_params (try_input m msg a) = ap_params a"
  "ap_db (try_input m msg a) = ap_db a" "ap_store (try_input m msg a) = ap_store a"
  "ap_challenges (try_input m msg a) = ap_challenges a" "ap_bouts (try_input m msg a) = ap_bouts a"
  "ap_draining (try_input m msg a) = ap_draining a" "ap_controls (try_input m msg a) = ap_controls a"
  "ap_open (try_input m msg a) = ap_open a" "ap_timers (try_input m msg a) = ap_timers a"
  by (simp_all add: try_input_def)

lemma client_of_upd [simp]:
  "client_of (a\<lparr>ap_waiting := x0\<rparr>) k = client_of a k"
  "client_of (a\<lparr>ap_last_active := x1\<rparr>) k = client_of a k"
  "client_of (a\<lparr>ap_settled := x2\<rparr>) k = client_of a k"
  "client_of (a\<lparr>ap_db := x3\<rparr>) k = client_of a k"
  "client_of (a\<lparr>ap_store := x4\<rparr>) k = client_of a k"
  "client_of (a\<lparr>ap_challenges := x5\<rparr>) k = client_of a k"
  "client_of (a\<lparr>ap_bouts := x6\<rparr>) k = client_of a k"
  "client_of (a\<lparr>ap_draining := x7\<rparr>) k = client_of a k"
  "client_of (a\<lparr>ap_sent := x8\<rparr>) k = client_of a k"
  "client_of (a\<lparr>ap_inputs := x9\<rparr>) k = client_of a k"
  "client_of (a\<lparr>ap_controls := x10\<rparr>) k = client_of a k"
  "client_of (a\<lparr>ap_open := x11\<rparr>) k = client_of a k"
  "client_of (a\<lparr>ap_timers := x12\<rparr>) k = client_of a k"
  "client_of (a\<lparr>ap_last_players := x13\<rparr>) k = client_of a k"
  "client_of (a\<lparr>ap_last_broadcast_players := x14\<rparr>) k = client_of a k"
  by (simp_all add: client_of_def)

lemma ap_clients_upd [simp]: "ap_clients (upd_client k f a) = alter k f (ap_clients a)"
  by (simp add: upd_client_def)

lemma client_of_upd_client [simp]:
  "client_of (upd_client k f a) j = (if j = k then map_option f (client_of a j) else client_of a j)"
  by (simp add: client_of_def)

lemma client_of_same [simp]:
  "client_of (send k' msg a) k = client_of a k" "client_of (broadcast msg a) k = client_of a k"
  "client_of (notify_lobby msg a) k = client_of a k" "client_of (maybe_broadcast_stats now a) k = client_of a k"
  "client_of (maybe_broadcast_players a) k = client_of a k" "client_of (clear_challenge k' a) k = client_of a k"
  "client_of (snd (try_control m ctrl a)) k = client_of a k" "client_of (try_input m msg' a) k = client_of a k"
  by (simp_all add: client_of_def)

lemma rating_for_cong: "ap_ratings a' = ap_ratings a \<Longrightarrow> ap_params a' = ap_params a \<Longrightarrow> rating_for a' name = rating_for a name"
  by (simp add: rating_for_def split: option.split)

lemma client_in_keys: "client_of a k = Some c \<Longrightarrow> k \<in> set (map fst (ap_clients a))"
  unfolding client_of_def by (metis domI dom_map_of_conv_image_fst image_set)

lemma key_client: "k \<in> set (map fst (ap_clients a)) \<Longrightarrow> \<exists>c. client_of a k = Some c"
  unfolding client_of_def by (metis domD dom_map_of_conv_image_fst image_set)

subsection \<open>Events of the lobby\<close>

text \<open>
  \<open>Late_queue\<close>, \<open>Late_available\<close> and \<open>Late_challenge\<close> are these frames when the drain begins between the check for it, which
  takes the lock for itself, and the rest of the handler.
\<close>

datatype lobby_event =
    Connect conn | Frame conn client_frame
  | Late_queue conn client_frame | Late_available conn client_frame | Late_challenge conn client_frame
  | Timer "conn \<times> conn \<times> nat \<times> string" | Ping_out conn | Pong conn | Leave conn
  | Drain bool | Resume_matches bool | Grant bool "grant_body option" | Decay

fun lobby_step :: "world \<Rightarrow> lobby_event \<Rightarrow> app \<Rightarrow> app \<times> pending_bout option" where
  "lobby_step w (Connect k) a = (connect k a, None)"
| "lobby_step w (Frame k f) a = handle_message w k f a"
| "lobby_step w (Late_queue k f) a = on_queue w k f a"
| "lobby_step w (Late_available k f) a = on_available w k f a"
| "lobby_step w (Late_challenge k f) a = (on_challenge w k f a, None)"
| "lobby_step w (Timer t) a = (challenge_timeout t (a\<lparr>ap_timers := remove1 t (ap_timers a)\<rparr>), None)"
| "lobby_step w (Ping_out k) a = (ping_sent k (wd_now w) a, None)"
| "lobby_step w (Pong k) a = (on_pong k (wd_now w) a, None)"
| "lobby_step w (Leave k) a = (disconnect k (wd_now w) a, None)"
| "lobby_step w (Drain authed) a = (snd (admin_drain authed a), None)"
| "lobby_step w (Resume_matches authed) a = (snd (admin_resume authed a), None)"
| "lobby_step w (Grant authed body) a = (snd (admin_grant authed body a), None)"
| "lobby_step w Decay a = (maybe_broadcast_stats (wd_now w) a, None)"

text \<open>A connection's id is new, its frames arrive while it is registered, a timer runs out once.\<close>

fun enabled :: "lobby_event \<Rightarrow> app \<Rightarrow> bool" where
  "enabled (Connect k) a = (client_of a k = None)"
| "enabled (Frame k f) a = (client_of a k \<noteq> None)"
| "enabled (Late_queue k f) a = (client_of a k \<noteq> None)"
| "enabled (Late_available k f) a = (client_of a k \<noteq> None)"
| "enabled (Late_challenge k f) a = (client_of a k \<noteq> None)"
| "enabled (Timer t) a = (t \<in> set (ap_timers a))"
| "enabled (Pong k) a = (client_of a k \<noteq> None)"
| "enabled (Leave k) a = (client_of a k \<noteq> None)"
| "enabled _ a = True"

subsection \<open>The invariant\<close>

definition client_ok :: "client \<Rightarrow> bool" where
  "client_ok c \<longleftrightarrow> (cl_peer c \<noteq> None \<longrightarrow> cl_bout c \<noteq> None) \<and> cl_match_id c = map_option fst (cl_bout c) \<and>
     (cl_bout c \<noteq> None \<longrightarrow> cl_status c = Some InGame)"

definition lobby_ok :: "app \<Rightarrow> bool" where
  "lobby_ok a \<longleftrightarrow>
     distinct (map fst (ap_clients a)) \<and> (\<forall>k c. client_of a k = Some c \<longrightarrow> client_ok c) \<and>
     distinct (ap_waiting a) \<and> (\<forall>k \<in> set (ap_waiting a). client_of a k \<noteq> None) \<and>
     distinct (map fst (ap_challenges a)) \<and>
     (\<forall>(cid, tid, t) \<in> set (ap_challenges a). client_of a cid \<noteq> None \<and> client_of a tid \<noteq> None \<and> cid \<noteq> tid)"

lemma lobby_okI:
  assumes "distinct (map fst (ap_clients a))" "\<And>k c. client_of a k = Some c \<Longrightarrow> client_ok c"
    and "distinct (ap_waiting a)" "\<And>k. k \<in> set (ap_waiting a) \<Longrightarrow> client_of a k \<noteq> None"
    and "distinct (map fst (ap_challenges a))"
    and "\<And>cid tid t. (cid, tid, t) \<in> set (ap_challenges a) \<Longrightarrow> client_of a cid \<noteq> None \<and> client_of a tid \<noteq> None \<and> cid \<noteq> tid"
  shows "lobby_ok a"
  using assms unfolding lobby_ok_def by fast

lemma lobby_okD:
  assumes "lobby_ok a"
  shows "distinct (map fst (ap_clients a))" "client_of a k = Some c \<Longrightarrow> client_ok c"
    and "distinct (ap_waiting a)" "k \<in> set (ap_waiting a) \<Longrightarrow> client_of a k \<noteq> None"
    and "distinct (map fst (ap_challenges a))"
    and "(cid, tid, t) \<in> set (ap_challenges a) \<Longrightarrow> client_of a cid \<noteq> None \<and> client_of a tid \<noteq> None \<and> cid \<noteq> tid"
  using assms unfolding lobby_ok_def by fast+

text \<open>The invariant reads the clients, the queue and the challenges only.\<close>

lemma lobby_ok_cong:
  "ap_clients a' = ap_clients a \<Longrightarrow> ap_waiting a' = ap_waiting a \<Longrightarrow> ap_challenges a' = ap_challenges a \<Longrightarrow> lobby_ok a' = lobby_ok a"
  by (simp add: lobby_ok_def client_of_def)

lemma lobby_ok_same [simp]:
  "lobby_ok (send k msg a) = lobby_ok a" "lobby_ok (broadcast msg a) = lobby_ok a" "lobby_ok (notify_lobby msg a) = lobby_ok a"
  "lobby_ok (maybe_broadcast_stats now a) = lobby_ok a" "lobby_ok (maybe_broadcast_players a) = lobby_ok a"
  "lobby_ok (snd (try_control m ctrl a)) = lobby_ok a" "lobby_ok (try_input m msg' a) = lobby_ok a"
  "lobby_ok (a\<lparr>ap_db := x1\<rparr>) = lobby_ok a" "lobby_ok (a\<lparr>ap_last_active := x2\<rparr>) = lobby_ok a"
  "lobby_ok (a\<lparr>ap_timers := x3\<rparr>) = lobby_ok a" "lobby_ok (a\<lparr>ap_draining := x4\<rparr>) = lobby_ok a"
  "lobby_ok (a\<lparr>ap_last_broadcast_players := x5\<rparr>) = lobby_ok a" "lobby_ok (a\<lparr>ap_store := x6\<rparr>) = lobby_ok a"
  "lobby_ok (a\<lparr>ap_settled := x7\<rparr>) = lobby_ok a" "lobby_ok (a\<lparr>ap_bouts := x8\<rparr>) = lobby_ok a"
  "lobby_ok (a\<lparr>ap_open := x9\<rparr>) = lobby_ok a" "lobby_ok (a\<lparr>ap_sent := x10\<rparr>) = lobby_ok a"
  "lobby_ok (a\<lparr>ap_inputs := x11\<rparr>) = lobby_ok a" "lobby_ok (a\<lparr>ap_controls := x12\<rparr>) = lobby_ok a"
  by (rule lobby_ok_cong; simp)+

lemma upd_client_ok:
  assumes "lobby_ok a" "\<And>c. client_of a k = Some c \<Longrightarrow> client_ok c \<Longrightarrow> client_ok (f c)"
  shows "lobby_ok (upd_client k f a)"
  by (rule lobby_okI) (use lobby_okD [OF assms(1)] assms(2) in \<open>auto split: if_splits\<close>)

lemma waiting_filter_ok: "lobby_ok a \<Longrightarrow> lobby_ok (a\<lparr>ap_waiting := filter P (ap_waiting a)\<rparr>)"
  by (rule lobby_okI) (auto dest: lobby_okD)

lemma challenges_filter_ok: "lobby_ok a \<Longrightarrow> lobby_ok (a\<lparr>ap_challenges := filter P (ap_challenges a)\<rparr>)"
  by (rule lobby_okI) (auto dest: lobby_okD intro: distinct_map_filter)

lemma clear_challenge_ok: "lobby_ok a \<Longrightarrow> lobby_ok (clear_challenge k a)"
  using challenges_filter_ok [of a "\<lambda>(j, _). k \<noteq> j"]
  by (simp add: clear_challenge_def AList.delete_eq case_prod_beta')

subsection \<open>Opening a match\<close>

lemma start_bout_drained: "ap_draining a \<Longrightarrow> start_bout w x y q a = (a, None)"
  by (simp add: start_bout_def)

text \<open>The state in which \<open>start_bout\<close> leaves the lobby, apart from what it sends.\<close>

definition paired :: "string \<Rightarrow> conn \<Rightarrow> conn \<Rightarrow> client \<Rightarrow> client \<Rightarrow> app \<Rightarrow> app \<Rightarrow> bool" where
  "paired m x y cx cy a a' \<longleftrightarrow>
     (\<forall>k. client_of a' k =
        (if k = x then Some (enter_bout m Side_A (cx\<lparr>cl_peer := Some y\<rparr>))
         else if k = y then Some (enter_bout m Side_B (cy\<lparr>cl_peer := Some x\<rparr>)) else client_of a k)) \<and>
     map fst (ap_clients a') = map fst (ap_clients a) \<and>
     ap_waiting a' = filter (\<lambda>k. k \<noteq> x \<and> k \<noteq> y) (ap_waiting a) \<and>
     ap_challenges a' = filter (\<lambda>(cid, tid, _). cid \<noteq> x \<and> cid \<noteq> y \<and> tid \<noteq> x \<and> tid \<noteq> y) (ap_challenges a) \<and>
     ap_bouts a' = AList.update m \<lparr>bh_name_a = cl_name cx, bh_name_b = cl_name cy\<rparr> (ap_bouts a) \<and>
     ap_open a' = m # ap_open a \<and> ap_settled a' = ap_settled a \<and> ap_draining a' = ap_draining a \<and>
     ap_ratings a' = ap_ratings a \<and> ap_params a' = ap_params a \<and> ap_db a' = ap_db a \<and> ap_store a' = ap_store a"

lemma start_bout_pairs:
  assumes "\<not> ap_draining a" "client_of a x = Some cx" "client_of a y = Some cy" "x \<noteq> y"
  obtains a' pb where "start_bout w x y q a = (a', Some pb)" "paired (wd_match_id w) x y cx cy a a'"
    "pb_match_id pb = wd_match_id w" "pb_id pb = by_side x y" "pb_name pb = by_side (cl_name cx) (cl_name cy)"
    "pb_state pb = by_side (rating_for a (cl_name cx)) (rating_for a (cl_name cy))"
    "pb_human pb = by_side (\<not> cl_is_bot cx) (\<not> cl_is_bot cy)"
    "pb_seed pb = by_side (derive_seed w x) (derive_seed w y)"
proof -
  obtain a' pb where s: "start_bout w x y q a = (a', pb)" by fastforce
  show thesis
    using assms s
    by (intro that [of a' "the pb"])
      (auto simp: start_bout_def Let_def paired_def intro!: rating_for_cong arg_cong2 [where f = by_side])
qed

lemma paired_ok:
  assumes ok: "lobby_ok a" and p: "paired m x y cx cy a a'" "client_of a x = Some cx" "client_of a y = Some cy"
  shows "lobby_ok a'"
proof (rule lobby_okI)
  have c: "client_of a' k = (if k = x then Some (enter_bout m Side_A (cx\<lparr>cl_peer := Some y\<rparr>))
         else if k = y then Some (enter_bout m Side_B (cy\<lparr>cl_peer := Some x\<rparr>)) else client_of a k)" for k
    using p(1) by (simp add: paired_def)
  have some: "client_of a' k \<noteq> None \<longleftrightarrow> client_of a k \<noteq> None" for k using p(2,3) by (simp add: c)
  have F: "map fst (ap_clients a') = map fst (ap_clients a)"
    "ap_waiting a' = filter (\<lambda>k. k \<noteq> x \<and> k \<noteq> y) (ap_waiting a)"
    "ap_challenges a' = filter (\<lambda>(cid, tid, _). cid \<noteq> x \<and> cid \<noteq> y \<and> tid \<noteq> x \<and> tid \<noteq> y) (ap_challenges a)"
    using p(1) by (simp_all add: paired_def)
  show "distinct (map fst (ap_clients a'))" using lobby_okD(1) [OF ok] F by simp
  show "client_ok d" if "client_of a' k = Some d" for k d
    using that lobby_okD(2) [OF ok, of k d] by (auto simp: c client_ok_def enter_bout_def split: if_splits)
  show "distinct (ap_waiting a')" using lobby_okD(3) [OF ok] F by simp
  show "client_of a' k \<noteq> None" if "k \<in> set (ap_waiting a')" for k
    unfolding some using that lobby_okD(4) [OF ok] F by simp
  show "distinct (map fst (ap_challenges a'))" using lobby_okD(5) [OF ok] F by (simp add: distinct_map_filter)
  show "client_of a' cid \<noteq> None \<and> client_of a' tid \<noteq> None \<and> cid \<noteq> tid" if "(cid, tid, t) \<in> set (ap_challenges a')" for cid tid t
    unfolding some using that lobby_okD(6) [OF ok] F by auto
qed

subsection \<open>Calm events and events that open a match\<close>

text \<open>An event is calm if it binds no client to a match, frees none, and leaves the registry of matches alone.\<close>

definition same_registry :: "app \<Rightarrow> app \<Rightarrow> bool" where
  "same_registry a a' \<longleftrightarrow> ap_bouts a' = ap_bouts a \<and> ap_open a' = ap_open a \<and> ap_settled a' = ap_settled a"

definition calm :: "app \<Rightarrow> app \<Rightarrow> bool" where
  "calm a a' \<longleftrightarrow> same_registry a a' \<and> ap_draining a' = ap_draining a \<and> ap_ratings a' = ap_ratings a \<and>
     ap_params a' = ap_params a \<and> (\<forall>k. map_option cl_bout (client_of a' k) = map_option cl_bout (client_of a k))"

lemma calm_refl [simp]: "calm a a"
  by (simp add: calm_def same_registry_def)

lemma calm_trans [trans]: "calm a b \<Longrightarrow> calm b c \<Longrightarrow> calm a c"
  by (simp add: calm_def same_registry_def)

lemma calm_same [simp]:
  "calm a (send k msg b) = calm a b" "calm a (broadcast msg b) = calm a b" "calm a (maybe_broadcast_stats now b) = calm a b"
  "calm a (maybe_broadcast_players b) = calm a b" "calm a (clear_challenge k b) = calm a b"
  "calm a (snd (try_control m ctrl b)) = calm a b" "calm a (try_input m msg' b) = calm a b"
  "calm a (b\<lparr>ap_db := x1\<rparr>) = calm a b" "calm a (b\<lparr>ap_last_active := x2\<rparr>) = calm a b"
  "calm a (b\<lparr>ap_timers := x3\<rparr>) = calm a b" "calm a (b\<lparr>ap_waiting := x4\<rparr>) = calm a b"
  "calm a (b\<lparr>ap_last_broadcast_players := x5\<rparr>) = calm a b" "calm a (b\<lparr>ap_challenges := x6\<rparr>) = calm a b"
  by (simp_all add: calm_def same_registry_def)

lemma calm_upd_client: "calm a b \<Longrightarrow> (\<And>c. cl_bout (f c) = cl_bout c) \<Longrightarrow> calm a (upd_client k f b)"
  by (simp add: calm_def same_registry_def option.map_comp comp_def)

text \<open>How a player of side \<open>s\<close> enters a match that is opened.\<close>

definition seated :: "app \<Rightarrow> app \<Rightarrow> pending_bout \<Rightarrow> side \<Rightarrow> bool" where
  "seated a a' pb s \<longleftrightarrow> (\<exists>c c'.
     client_of a (pb_id pb s) = Some c \<and> cl_bout c = None \<and> client_of a' (pb_id pb s) = Some c' \<and>
     cl_bout c' = Some (pb_match_id pb, s) \<and> cl_peer c' = Some (pb_id pb (other_side s)) \<and> cl_status c' = Some InGame \<and>
     cl_name c' = pb_name pb s \<and> pb_human pb s = (\<not> cl_is_bot c') \<and> pb_state pb s = rating_for a (pb_name pb s) \<and>
     pb_id pb s \<notin> set (ap_waiting a') \<and>
     (\<forall>(cid, tid, t) \<in> set (ap_challenges a'). cid \<noteq> pb_id pb s \<and> tid \<noteq> pb_id pb s))"

definition opens :: "world \<Rightarrow> app \<Rightarrow> app \<Rightarrow> pending_bout \<Rightarrow> bool" where
  "opens w a a' pb \<longleftrightarrow>
     \<not> ap_draining a \<and> pb_match_id pb = wd_match_id w \<and> pb_id pb Side_A \<noteq> pb_id pb Side_B \<and> (\<forall>s. seated a a' pb s) \<and>
     (\<forall>k. k \<noteq> pb_id pb Side_A \<and> k \<noteq> pb_id pb Side_B \<longrightarrow> map_option cl_bout (client_of a' k) = map_option cl_bout (client_of a k)) \<and>
     ap_bouts a' = AList.update (pb_match_id pb) \<lparr>bh_name_a = pb_name pb Side_A, bh_name_b = pb_name pb Side_B\<rparr> (ap_bouts a) \<and>
     ap_open a' = pb_match_id pb # ap_open a \<and> ap_settled a' = ap_settled a \<and> ap_draining a' = ap_draining a \<and>
     ap_ratings a' = ap_ratings a \<and> ap_params a' = ap_params a"

lemma opens_broadcast [simp]: "opens w a (maybe_broadcast_players b) pb = opens w a b pb"
  by (simp add: opens_def seated_def)

lemma opens_pre:
  assumes "calm a b" "opens w b c pb" shows "opens w a c pb"
proof -
  have q: "ap_bouts b = ap_bouts a" "ap_open b = ap_open a" "ap_settled b = ap_settled a" "ap_draining b = ap_draining a"
    "ap_ratings b = ap_ratings a" "ap_params b = ap_params a"
    and r: "rating_for b = rating_for a"
    and c: "map_option cl_bout (client_of b k) = map_option cl_bout (client_of a k)" for k
    using assms(1) by (auto simp: calm_def same_registry_def intro!: ext rating_for_cong)
  have seat: "seated a c pb s" if sb: "seated b c pb s" for s
  proof -
    obtain d where d: "client_of b (pb_id pb s) = Some d" "cl_bout d = None" using sb unfolding seated_def by blast
    then obtain e where "client_of a (pb_id pb s) = Some e" "cl_bout e = None"
      using c [of "pb_id pb s"] by (cases "client_of a (pb_id pb s)") auto
    then show ?thesis using sb unfolding seated_def r by blast
  qed
  have "\<forall>s. seated a c pb s" using assms(2) seat unfolding opens_def by blast
  then show ?thesis using assms(2) c unfolding opens_def q by simp
qed

lemma start_bout_opens:
  assumes ok: "lobby_ok a" and "client_of a x = Some cx" "client_of a y = Some cy" "x \<noteq> y" "cl_bout cx = None" "cl_bout cy = None"
    and s: "start_bout w x y q a = (a', pbo)"
  shows "lobby_ok a' \<and> (case pbo of None \<Rightarrow> calm a a' | Some pb \<Rightarrow> opens w a a' pb \<and> pb_id pb = by_side x y \<and>
    pb_human pb = by_side (\<not> cl_is_bot cx) (\<not> cl_is_bot cy))"
proof (cases "ap_draining a")
  case True
  then show ?thesis using ok s by (auto simp: start_bout_drained)
next
  case False
  obtain b pb where b: "start_bout w x y q a = (b, Some pb)" "paired (wd_match_id w) x y cx cy a b"
    "pb_match_id pb = wd_match_id w" "pb_id pb = by_side x y" "pb_name pb = by_side (cl_name cx) (cl_name cy)"
    "pb_state pb = by_side (rating_for a (cl_name cx)) (rating_for a (cl_name cy))"
    "pb_human pb = by_side (\<not> cl_is_bot cx) (\<not> cl_is_bot cy)"
    using start_bout_pairs [OF False assms(2-4)] by metis
  have "opens w a b pb"
    using assms(2-6) False b(2) unfolding opens_def seated_def paired_def b(3-7)
    by (auto simp: by_side_def enter_bout_def other_side_def split: side.split)
  moreover have "a' = b" "pbo = Some pb" using s b(1) by simp_all
  ultimately show ?thesis using paired_ok [OF ok b(2) assms(2,3)] b(4,7) by simp
qed

subsection \<open>The search for an opponent\<close>

lemma is_match_candidateD:
  assumes "is_match_candidate a k cid"
  obtains c where "client_of a cid = Some c" "cl_bout c = None" "cid \<noteq> k" "\<not> cl_is_bot c" "\<not> client_is cl_is_bot a k"
  using assms by (auto simp: is_match_candidate_def client_is_def split: if_splits option.splits)

definition quality_with :: "world \<Rightarrow> app \<Rightarrow> rating \<Rightarrow> conn \<Rightarrow> f64" where
  "quality_with w a mine cid =
     (case client_of a cid of Some c \<Rightarrow> quality_1v1 (wd_libm w) mine (ps_rating (cl_state c)) (t2_base (ap_params a)) | None \<Rightarrow> 0)"

lemma better_fold:
  assumes "\<And>cid. cid \<in> set cids \<Longrightarrow> client_of a cid \<noteq> None"
    and "case best of None \<Rightarrow> True | Some (o1, q) \<Rightarrow> q = quality_with w a mine o1"
  shows "case foldl (better w a mine) best cids of
      None \<Rightarrow> best = None \<and> cids = []
    | Some (o1, q) \<Rightarrow> q = quality_with w a mine o1 \<and> (o1 \<in> set cids \<or> best = Some (o1, q)) \<and>
        (\<forall>cid \<in> set cids. quality_with w a mine cid \<le> q) \<and> (\<forall>o2 q2. best = Some (o2, q2) \<longrightarrow> q2 \<le> q)"
  using assms
proof (induction cids arbitrary: best)
  case Nil
  then show ?case by (cases best) auto
next
  case (Cons cid cids)
  let ?q = "quality_with w a mine cid"
  let ?b = "better w a mine best cid"
  obtain c where "client_of a cid = Some c" using Cons.prems(1) by fastforce
  then have b: "?b = (if (case best of Some (_, bq) \<Rightarrow> ?q > bq | None \<Rightarrow> True) then Some (cid, ?q) else best)"
    by (simp add: better_def quality_with_def Let_def cong: option.case_cong)
  have inv: "case ?b of None \<Rightarrow> True | Some (o1, q) \<Rightarrow> q = quality_with w a mine o1"
    using Cons.prems(2) by (auto simp: b split: option.splits)
  have "\<exists>o2 q2. ?b = Some (o2, q2) \<and> ?q \<le> q2 \<and> (o2 = cid \<and> q2 = ?q \<or> best = Some (o2, q2)) \<and> (\<forall>o3 q3. best = Some (o3, q3) \<longrightarrow> q3 \<le> q2)"
    by (auto simp: b not_less split: option.splits)
  then obtain o2 q2 where o2: "?b = Some (o2, q2)" "?q \<le> q2" "o2 = cid \<and> q2 = ?q \<or> best = Some (o2, q2)"
    "\<And>o3 q3. best = Some (o3, q3) \<Longrightarrow> q3 \<le> q2" by blast
  have IH: "case foldl (better w a mine) ?b cids of
      None \<Rightarrow> ?b = None \<and> cids = []
    | Some (o1, q) \<Rightarrow> q = quality_with w a mine o1 \<and> (o1 \<in> set cids \<or> ?b = Some (o1, q)) \<and>
        (\<forall>cid \<in> set cids. quality_with w a mine cid \<le> q) \<and> (\<forall>o2 q2. ?b = Some (o2, q2) \<longrightarrow> q2 \<le> q)"
    using Cons.IH [OF _ inv] Cons.prems(1) by simp
  show ?case
  proof (cases "foldl (better w a mine) ?b cids")
    case None
    then show ?thesis using IH o2(1) by simp
  next
    case (Some r)
    obtain o1 q where r: "r = (o1, q)" by fastforce
    have "q = quality_with w a mine o1" "o1 \<in> set cids \<or> (o2, q2) = (o1, q)" "\<forall>cid \<in> set cids. quality_with w a mine cid \<le> q" "q2 \<le> q"
      using IH Some o2(1) by (auto simp: r)
    note q = this
    have "o1 \<in> set (cid # cids) \<or> best = Some (o1, q)" using q(2) o2(3) by auto
    moreover have "\<forall>c \<in> set (cid # cids). quality_with w a mine c \<le> q" using q(3,4) o2(2) by auto
    moreover have "\<forall>o3 q3. best = Some (o3, q3) \<longrightarrow> q3 \<le> q"
    proof (intro allI impI)
      fix o3 q3 assume "best = Some (o3, q3)"
      then show "q3 \<le> q" using o2(4) [of o3 q3] q(4) by linarith
    qed
    ultimately show ?thesis using q(1) Some by (simp add: r)
  qed
qed

lemma candidate_key: "is_match_candidate a k cid \<Longrightarrow> cid \<in> set (map fst (ap_clients a))"
  by (erule is_match_candidateD) (rule client_in_keys)

lemma best_opponent_cases:
  "case best_opponent w k mine a of
     None \<Rightarrow> \<forall>cid. \<not> is_match_candidate a k cid
   | Some (opp, q) \<Rightarrow> is_match_candidate a k opp \<and> q = quality_with w a mine opp \<and>
       (\<forall>cid. is_match_candidate a k cid \<longrightarrow> quality_with w a mine cid \<le> q)"
proof -
  define cids where "cids = filter (is_match_candidate a k) (map fst (ap_clients a))"
  have "client_of a cid \<noteq> None" if "cid \<in> set cids" for cid
    using key_client [of cid a] that by (auto simp: cids_def)
  note fold = better_fold [where cids = cids and best = None and w = w and mine = mine, OF this, simplified]
  have "cid \<in> set cids \<longleftrightarrow> is_match_candidate a k cid" for cid
    using candidate_key [of a k cid] by (auto simp: cids_def)
  then show ?thesis using fold unfolding best_opponent_def cids_def [symmetric] by (auto split: option.splits)
qed

lemma try_match_effect:
  assumes ok: "lobby_ok a" and k: "client_of a k = Some me" and t: "try_match w k a = (a', pbo)"
  shows "lobby_ok a' \<and> (case pbo of None \<Rightarrow> calm a a' | Some pb \<Rightarrow> opens w a a' pb \<and> pb_human pb = (\<lambda>_. True))"
proof (cases "cl_bout me \<noteq> None \<or> best_opponent w k (ps_rating (cl_state me)) a = None")
  case True
  have "lobby_ok (a\<lparr>ap_waiting := ap_waiting a @ [k]\<rparr>)" if "k \<notin> set (ap_waiting a)"
    by (rule lobby_okI) (use lobby_okD [OF ok] that k in auto)
  then show ?thesis using True ok t k by (auto simp: try_match_def split: if_splits)
next
  case False
  then obtain opp q where b: "best_opponent w k (ps_rating (cl_state me)) a = Some (opp, q)" by auto
  have t: "start_bout w opp k (Some q) a = (a', pbo)" using t b k False by (simp add: try_match_def)
  have cand: "is_match_candidate a k opp" using best_opponent_cases [where w = w and k = k and mine = "ps_rating (cl_state me)" and a = a] by (simp add: b)
  then obtain c where c: "client_of a opp = Some c" "cl_bout c = None" "opp \<noteq> k" "\<not> cl_is_bot c" "\<not> client_is cl_is_bot a k"
    by (rule is_match_candidateD)
  have free: "cl_bout me = None" using False by (cases "cl_bout me") auto
  have human: "\<not> cl_is_bot me" using c(5) k by (simp add: client_is_def)
  have "by_side True True = (\<lambda>_. True)" by (auto simp: by_side_def split: side.split)
  then show ?thesis
    using start_bout_opens [OF ok c(1) k c(3,2) free t] c(4) human by (auto split: option.splits)
qed

end
