(* ===== verification/LobbySteps.thy ===== *)
theory LobbySteps
  imports LobbyInv
begin

section \<open>Every event of the lobby\<close>

text \<open>
  Each handler keeps the lobby's invariant, and either opens one match as \<open>opens\<close> says or leaves the registry of
  matches alone; only \<open>rejoin\<close>, and leaving, change to which match a client belongs.
\<close>

definition effect :: "world \<Rightarrow> app \<Rightarrow> app \<times> pending_bout option \<Rightarrow> bool" where
  "effect w a r \<longleftrightarrow> lobby_ok (fst r) \<and> (case snd r of None \<Rightarrow> calm a (fst r) | Some pb \<Rightarrow> opens w a (fst r) pb)"

lemma effect_none [simp]: "effect w a (b, None) = (lobby_ok b \<and> calm a b)"
  by (simp add: effect_def)

lemma effect_pre: "calm a b \<Longrightarrow> effect w b r \<Longrightarrow> effect w a r"
  by (auto simp: effect_def intro: calm_trans opens_pre split: option.splits)

lemma effect_broadcast [simp]: "effect w a (maybe_broadcast_players b, pb) = effect w a (b, pb)"
  by (simp add: effect_def split: option.split)

lemma try_match_result: "lobby_ok a \<Longrightarrow> client_of a k \<noteq> None \<Longrightarrow> effect w a (try_match w k a)"
  using try_match_effect [of a k _ w "fst (try_match w k a)" "snd (try_match w k a)"]
  by (auto simp: effect_def split: option.splits)

subsection \<open>Handlers\<close>

lemma free_client: "\<not> client_is (\<lambda>c. cl_bout c \<noteq> None) a k \<Longrightarrow> client_of a k = Some c \<Longrightarrow> cl_bout c = None"
  by (simp add: client_is_def del: not_None_eq)

lemma reject_effect: "lobby_ok a \<Longrightarrow> lobby_ok (snd (reject_if_draining k a)) \<and> calm a (snd (reject_if_draining k a))"
  by (simp add: reject_if_draining_def)

lemma reject_open: "reject_if_draining k a = (False, b) \<Longrightarrow> b = a \<and> \<not> ap_draining a"
  by (auto simp: reject_if_draining_def split: if_splits)

lemma on_watch_effect: "lobby_ok a \<Longrightarrow> effect w a (on_watch w k a, None)"
  by (simp add: on_watch_def Let_def)

lemma on_active_effect: "lobby_ok a \<Longrightarrow> effect w a (on_active w k a, None)"
  by (simp add: on_active_def)

lemma on_queue_effect:
  assumes ok: "lobby_ok a" and k: "client_of a k \<noteq> None" shows "effect w a (on_queue w k f a)"
proof (cases "client_is (\<lambda>c. cl_bout c \<noteq> None) a k")
  case False
  define name where "name = (let n = resolve_name w a f (name_of a k) in if n = [] then ''anon'' else n)"
  define b where "b = upd_client k (\<lambda>c. c\<lparr>cl_name := name, cl_state := rating_for a name, cl_status := Some Searching\<rparr>) a"
  have q: "on_queue w k f a = (maybe_broadcast_players (fst (try_match w k b)), snd (try_match w k b))"
    using False by (simp add: on_queue_def b_def name_def Let_def split_beta)
  have free: "cl_bout c = None" if "client_of a k = Some c" for c using False that by (rule free_client)
  have "calm a b" unfolding b_def by (rule calm_upd_client) simp_all
  moreover have "lobby_ok b" unfolding b_def by (rule upd_client_ok [OF ok]) (use free in \<open>simp add: client_ok_def\<close>)
  moreover have "client_of b k \<noteq> None" using k by (simp add: b_def)
  ultimately show ?thesis using try_match_result effect_pre unfolding q effect_broadcast by (metis prod.collapse)
qed (use ok in \<open>simp add: on_queue_def\<close>)

lemma on_available_effect:
  assumes ok: "lobby_ok a" and k: "client_of a k \<noteq> None" shows "effect w a (on_available w k f a)"
proof (cases "client_is (\<lambda>c. cl_bout c \<noteq> None) a k")
  case False
  define name where "name = resolve_name w a f (name_of a k)"
  define go where "go = (or_default True (cf_value f) \<and> name \<noteq> [])"
  define b where "b = (if go then a else a\<lparr>ap_waiting := filter (\<lambda>x. x \<noteq> k) (ap_waiting a)\<rparr>)"
  define c where "c = upd_client k (\<lambda>c. c\<lparr>cl_name := name, cl_state := rating_for a name,
                  cl_status := (if go then Some Available else None),
                  cl_geo := (if map_option (take 24) (cf_geo f) \<noteq> None then map_option (take 24) (cf_geo f) else cl_geo c),
                  cl_is_bot := or_default False (cf_bot f)\<rparr>) b"
  define r where "r = (if go then try_match w k c else (c, None))"
  have q: "on_available w k f a = (maybe_broadcast_players (fst r), snd r)"
    using False by (simp add: on_available_def r_def c_def b_def go_def name_def Let_def split_beta)
  have b: "calm a b" "lobby_ok b" "client_of b = client_of a"
    using ok waiting_filter_ok by (auto simp: b_def)
  have free: "cl_bout c = None" if "client_of b k = Some c" for c using free_client [OF False] that b(3) by simp
  have "calm b c" unfolding c_def by (rule calm_upd_client) simp_all
  then have "calm a c" using b(1) calm_trans by blast
  moreover have "lobby_ok c" unfolding c_def by (rule upd_client_ok [OF b(2)]) (use free in \<open>simp add: client_ok_def\<close>)
  moreover have "client_of c k \<noteq> None" using k b(3) by (simp add: c_def)
  ultimately have "effect w a r" using try_match_result effect_pre by (auto simp: r_def)
  then show ?thesis unfolding q effect_broadcast by simp
qed (use ok in \<open>simp add: on_available_def\<close>)

lemma find_named_connected:
  assumes "find_named_available a name = Some tid" shows "client_of a tid \<noteq> None"
proof -
  obtain c where "(tid, c) \<in> set (ap_clients a)"
    using assms find_SomeD by (fastforce simp: find_named_available_def)
  then show ?thesis using key_client [of tid a] by force
qed

lemma on_challenge_effect:
  assumes ok: "lobby_ok a" and k: "client_of a k \<noteq> None" shows "effect w a (on_challenge w k f a, None)"
proof -
  define b where "b = upd_client k (\<lambda>c. c\<lparr>cl_name := resolve_name w a f (name_of a k)\<rparr>) a"
  have b: "calm a b" "lobby_ok b" "client_of b k \<noteq> None"
    unfolding b_def using ok k by (auto intro!: calm_upd_client upd_client_ok simp: client_ok_def)
  have put: "lobby_ok (b\<lparr>ap_challenges := AList.update k (tid, d) (ap_challenges b)\<rparr>)"
    if "client_of b tid \<noteq> None" "tid \<noteq> k" for tid d
  proof (rule lobby_okI)
    let ?b = "b\<lparr>ap_challenges := AList.update k (tid, d) (ap_challenges b)\<rparr>"
    show "distinct (map fst (ap_challenges ?b))" using lobby_okD(5) [OF b(2)] by (simp add: AList.distinct_update)
    show "client_of ?b cid \<noteq> None \<and> client_of ?b t2 \<noteq> None \<and> cid \<noteq> t2" if t: "(cid, t2, d2) \<in> set (ap_challenges ?b)" for cid t2 d2
    proof -
      have "distinct (map fst (ap_challenges ?b))" using lobby_okD(5) [OF b(2)] by (simp add: AList.distinct_update)
      then have "map_of (ap_challenges ?b) cid = Some (t2, d2)" using t by (simp add: map_of_is_SomeI)
      then have "cid = k \<and> t2 = tid \<or> map_of (ap_challenges b) cid = Some (t2, d2)" by (auto simp: update_conv' split: if_splits)
      then show ?thesis
        using lobby_okD(6) [OF b(2)] that b(3) \<open>client_of b tid \<noteq> None\<close> \<open>tid \<noteq> k\<close> by (auto dest!: map_of_SomeD)
    qed
  qed (use lobby_okD [OF b(2)] in auto)
  show ?thesis
    using b(1,2) put find_named_connected
    by (auto simp: on_challenge_def Let_def b_def [symmetric] split: option.split)
qed

lemma challenger_named_open:
  assumes "challenger_named k sender a = Some cid" obtains t where "(cid, k, t) \<in> set (ap_challenges a)"
  using assms find_SomeD by (fastforce simp: challenger_named_def)

lemma on_challenge_accept_effect:
  assumes ok: "lobby_ok a" shows "effect w a (on_challenge_accept w k f a)"
proof (cases "challenger_named k (or_default [] (cf_from f)) a")
  case (Some cid)
  show ?thesis
  proof (cases "client_is (\<lambda>c. cl_bout c = None) a cid \<and> client_is (\<lambda>c. cl_bout c = None) a k")
    case True
    obtain t where "(cid, k, t) \<in> set (ap_challenges a)" using challenger_named_open [OF Some] .
    then have ne: "cid \<noteq> k" using lobby_okD(6) [OF ok] by blast
    let ?a = "clear_challenge cid a"
    obtain cx cy where c: "client_of ?a cid = Some cx" "client_of ?a k = Some cy" "cl_bout cx = None" "cl_bout cy = None"
      using True by (auto simp: client_is_def split: option.splits)
    obtain a' pb where s: "start_bout w cid k None ?a = (a', pb)" by fastforce
    have "effect w ?a (a', pb)"
      using start_bout_opens [OF clear_challenge_ok [OF ok] c(1,2) ne c(3,4) s] by (auto simp: effect_def split: option.splits)
    then have "effect w a (a', pb)" by (rule effect_pre [rotated]) simp
    then show ?thesis using Some True s by (simp add: on_challenge_accept_def)
  next
    case False
    then have "on_challenge_accept w k f a = (a, None)" using Some by (auto simp: on_challenge_accept_def)
    then show ?thesis using ok by simp
  qed
qed (use ok in \<open>simp add: on_challenge_accept_def\<close>)

lemma on_challenge_decline_effect: "lobby_ok a \<Longrightarrow> effect w a (on_challenge_decline k f a, None)"
  using clear_challenge_ok by (simp add: on_challenge_decline_def split: option.split)

lemma on_input_effect: "lobby_ok a \<Longrightarrow> effect w a (on_input k f a, None)"
  by (simp add: on_input_def split: option.split)

lemma tell_own_bout_effect: "lobby_ok a \<Longrightarrow> effect w a (tell_own_bout ctrl k a, None)"
  by (simp add: tell_own_bout_def split: option.split)

lemma on_spectate_effect:
  assumes "lobby_ok a" shows "effect w a (on_spectate k f a, None)"
proof -
  have "lobby_ok b \<and> calm a b" if "try_control m (Add_spectator k) a = (sent, b)" for m sent b
    using assms that lobby_ok_same(6) [of m "Add_spectator k" a] calm_same(6) [of a m "Add_spectator k" a] by simp
  then show ?thesis using assms by (auto simp: on_spectate_def split: option.split prod.splits)
qed

lemma same_registry_same [simp]:
  "same_registry a (send k msg b) = same_registry a b" "same_registry a (maybe_broadcast_players b) = same_registry a b"
  "same_registry a (upd_client k f b) = same_registry a b" "same_registry a (snd (try_control m ctrl b)) = same_registry a b"
  by (simp_all add: same_registry_def)

lemma on_rejoin_effect:
  assumes "lobby_ok a" shows "lobby_ok (on_rejoin w k f a) \<and> same_registry a (on_rejoin w k f a)"
proof -
  have refl: "same_registry a a" by (simp add: same_registry_def)
  have "lobby_ok b \<and> same_registry a b" if "try_control m (Reattach s k) a = (sent, b)" for m s sent b
    using assms that refl lobby_ok_same(6) [of m "Reattach s k" a] same_registry_same(4) [of a m "Reattach s k" a] by simp
  then show ?thesis
    using assms refl
    by (auto simp: on_rejoin_def Let_def client_ok_def intro!: upd_client_ok split: option.split prod.splits)
qed

lemma handle_message_effect:
  assumes ok: "lobby_ok a" and k: "client_of a k \<noteq> None" and "cf_type f \<noteq> Some ''rejoin''"
  shows "effect w a (handle_message w k f a)"
proof -
  note handlers = on_watch_effect [OF ok] on_active_effect [OF ok] on_queue_effect [OF ok k] on_available_effect [OF ok k]
    on_challenge_effect [OF ok k] on_challenge_accept_effect [OF ok] on_challenge_decline_effect [OF ok] on_input_effect [OF ok]
    tell_own_bout_effect [OF ok] on_spectate_effect [OF ok]
  have gate: "effect w a (case reject_if_draining k a of (True, b) \<Rightarrow> (b, None) | (False, b) \<Rightarrow> g b)" if "effect w a (g a)" for g
    using that reject_effect [OF ok, of k] reject_open [of k a]
    by (cases "reject_if_draining k a"; cases "fst (reject_if_draining k a)") auto
  show ?thesis
    using assms(3) ok handlers gate [where g = "on_queue w k f", OF on_queue_effect [OF ok k]]
      gate [where g = "on_available w k f", OF on_available_effect [OF ok k]]
      gate [where g = "\<lambda>b. (on_challenge w k f b, None)", OF on_challenge_effect [OF ok k]]
    unfolding handle_message_def on_resync_def on_leave_match_def by (simp split del: option.split prod.split)
qed

subsection \<open>Connections\<close>

lemma connect_effect:
  assumes ok: "lobby_ok a" and "client_of a k = None" shows "lobby_ok (connect k a) \<and> same_registry a (connect k a)"
proof
  have c: "client_of (connect k a) j = (if j = k then Some (client_new (rating_for a [])) else client_of a j)" for j
    by (simp add: connect_def client_of_def update_conv')
  have F: "ap_waiting (connect k a) = ap_waiting a" "ap_challenges (connect k a) = ap_challenges a" by (simp_all add: connect_def)
  show "lobby_ok (connect k a)"
  proof (rule lobby_okI)
    show "distinct (map fst (ap_clients (connect k a)))" using lobby_okD(1) [OF ok] by (simp add: connect_def AList.distinct_update)
    show "client_ok d" if "client_of (connect k a) j = Some d" for j d
      using that lobby_okD(2) [OF ok] by (auto simp: c client_ok_def client_new_def split: if_splits)
    show "client_of (connect k a) cid \<noteq> None \<and> client_of (connect k a) tid \<noteq> None \<and> cid \<noteq> tid"
      if "(cid, tid, t) \<in> set (ap_challenges (connect k a))" for cid tid t
      using that lobby_okD(6) [OF ok] by (auto simp: c F)
  qed (use lobby_okD(3-5) [OF ok] in \<open>auto simp: c F\<close>)
qed (simp add: connect_def same_registry_def)

lemma fold_decline:
  "ap_challenges (fold (decline_for by) cids a) = filter (\<lambda>(cid, _). cid \<notin> set cids) (ap_challenges a)"
  "ap_clients (fold (decline_for by) cids a) = ap_clients a" "ap_waiting (fold (decline_for by) cids a) = ap_waiting a"
  "same_registry a (fold (decline_for by) cids a)" "ap_draining (fold (decline_for by) cids a) = ap_draining a"
  "ap_last_active (fold (decline_for by) cids a) = ap_last_active a"
proof (induction cids arbitrary: a)
  case (Cons cid cids)
  case 1
  have "filter (\<lambda>(c, _). c \<notin> set cids) (AList.delete cid (ap_challenges a)) =
      filter (\<lambda>(c, _). c \<notin> set (cid # cids)) (ap_challenges a)"
    by (auto simp: AList.delete_eq case_prod_beta' intro!: filter_cong)
  then show ?case using Cons(1) [of "decline_for by cid a"] by (simp add: decline_for_def clear_challenge_def)
qed (simp_all add: decline_for_def same_registry_def)

text \<open>A client with a peer is in a match, so the branch that would tell the peer is never taken.\<close>

lemma disconnect_steps:
  assumes ok: "lobby_ok a"
  obtains b where "lobby_ok b" "ap_clients b = ap_clients a" "same_registry a b" "ap_draining b = ap_draining a"
    "k \<notin> set (ap_waiting b)" "\<forall>(cid, tid, t) \<in> set (ap_challenges b). cid \<noteq> k \<and> tid \<noteq> k"
    "disconnect k now a = drop_client k now b"
proof -
  define a0 where "a0 = clear_challenge k (a\<lparr>ap_waiting := filter (\<lambda>x. x \<noteq> k) (ap_waiting a)\<rparr>)"
  define b where "b = fold (decline_for (name_of a0 k)) (map fst (filter (\<lambda>(_, tid, _). tid = k) (ap_challenges a0))) a0"
  have a0: "lobby_ok a0" unfolding a0_def using ok waiting_filter_ok clear_challenge_ok by blast
  have F: "ap_clients a0 = ap_clients a" "same_registry a a0" "ap_draining a0 = ap_draining a"
    by (simp_all add: a0_def same_registry_def)
  have B: "ap_clients b = ap_clients a0" "ap_waiting b = ap_waiting a0"
    "ap_challenges b = filter (\<lambda>(cid, _). cid \<notin> set (map fst (filter (\<lambda>(_, tid, _). tid = k) (ap_challenges a0)))) (ap_challenges a0)"
    "same_registry a0 b" "ap_draining b = ap_draining a0"
    by (simp_all only: b_def fold_decline)
  have "lobby_ok (a0\<lparr>ap_challenges := ap_challenges b\<rparr>)" unfolding B(3) by (rule challenges_filter_ok [OF a0])
  then have ok': "lobby_ok b" by (rule lobby_ok_cong [THEN iffD1, rotated 3]) (simp_all add: B(1,2))
  have "\<forall>(cid, tid, t) \<in> set (ap_challenges a0). cid \<noteq> k"
    by (auto simp: a0_def clear_challenge_def AList.delete_eq)
  then have ch: "\<forall>(cid, tid, t) \<in> set (ap_challenges b). cid \<noteq> k \<and> tid \<noteq> k" unfolding B(3) by force
  have w: "k \<notin> set (ap_waiting b)" by (simp add: B(2) a0_def)
  have reg: "same_registry a b" using F(2) B(4) by (simp add: same_registry_def)
  have "Option.bind (client_of b k) cl_peer = None \<or> client_is (\<lambda>c. cl_bout c \<noteq> None) b k"
    using lobby_okD(2) [OF ok', of k] by (cases "client_of b k") (auto simp: client_is_def client_ok_def)
  then have "disconnect k now a = drop_client k now b"
    unfolding disconnect_def Let_def a0_def [symmetric] b_def [symmetric] by (auto split: option.split)
  then show thesis using that [OF ok' _ reg _ w ch] F B by simp
qed

lemma drop_client_ok:
  assumes ok: "lobby_ok b" and w: "k \<notin> set (ap_waiting b)" and ch: "\<forall>(cid, tid, t) \<in> set (ap_challenges b). cid \<noteq> k \<and> tid \<noteq> k"
    and c: "c = b\<lparr>ap_clients := AList.delete k (ap_clients b)\<rparr>"
  shows "lobby_ok c"
proof (rule lobby_okI)
  have cl: "client_of c j = (if j = k then None else client_of b j)" for j
    by (simp add: c client_of_def AList.delete_conv')
  have F: "ap_waiting c = ap_waiting b" "ap_challenges c = ap_challenges b" by (simp_all add: c)
  show "distinct (map fst (ap_clients c))" using lobby_okD(1) [OF ok] by (simp add: c AList.distinct_delete)
  show "client_ok e" if "client_of c j = Some e" for j e using that lobby_okD(2) [OF ok] by (simp add: cl split: if_splits)
  show "client_of c cid \<noteq> None \<and> client_of c tid \<noteq> None \<and> cid \<noteq> tid" if t: "(cid, tid, t) \<in> set (ap_challenges c)" for cid tid t
  proof -
    have "(cid, tid, t) \<in> set (ap_challenges b)" using t by (simp add: F)
    then have "cid \<noteq> k" "tid \<noteq> k" "client_of b cid \<noteq> None \<and> client_of b tid \<noteq> None \<and> cid \<noteq> tid"
      using ch lobby_okD(6) [OF ok] by blast+
    then show ?thesis by (simp add: cl)
  qed
  show "client_of c j \<noteq> None" if "j \<in> set (ap_waiting c)" for j
    using that w lobby_okD(4) [OF ok, of j] by (auto simp: cl F)
  show "distinct (ap_waiting c)" "distinct (map fst (ap_challenges c))" using lobby_okD(3,5) [OF ok] by (simp_all add: F)
qed

lemma disconnect_effect:
  assumes ok: "lobby_ok a"
  shows "lobby_ok (disconnect k now a) \<and> same_registry a (disconnect k now a) \<and> ap_draining (disconnect k now a) = ap_draining a \<and>
    (\<forall>j. client_of (disconnect k now a) j = (if j = k then None else client_of a j))"
proof -
  obtain b where b: "lobby_ok b" "ap_clients b = ap_clients a" "same_registry a b" "ap_draining b = ap_draining a"
    "k \<notin> set (ap_waiting b)" "\<forall>(cid, tid, t) \<in> set (ap_challenges b). cid \<noteq> k \<and> tid \<noteq> k"
    "disconnect k now a = drop_client k now b"
    using disconnect_steps [OF ok] by blast
  define c where "c = b\<lparr>ap_clients := AList.delete k (ap_clients b)\<rparr>"
  have cl: "client_of c j = (if j = k then None else client_of a j)" for j
    by (simp add: c_def client_of_def AList.delete_conv' b(2))
  have "lobby_ok c" by (rule drop_client_ok [OF b(1,5,6) c_def])
  moreover have "same_registry a c" "ap_draining c = ap_draining a" using b(3,4) by (simp_all add: c_def same_registry_def)
  ultimately show ?thesis
    using cl unfolding b(7) drop_client_def Let_def c_def [symmetric] by (simp add: same_registry_def)
qed

subsection \<open>All events\<close>

definition rejoins :: "lobby_event \<Rightarrow> conn \<Rightarrow> bool" where
  "rejoins e k \<longleftrightarrow> (\<exists>f. e = Frame k f \<and> cf_type f = Some ''rejoin'')"

lemma lobby_step_effect:
  assumes ok: "lobby_ok a" and en: "enabled e a" and s: "lobby_step w e a = (a', pbo)"
  shows "lobby_ok a' \<and> (case pbo of None \<Rightarrow> same_registry a a' | Some pb \<Rightarrow> opens w a a' pb)"
proof -
  have eff: ?thesis if "effect w a (a', pbo)" using that by (auto simp: effect_def calm_def split: option.splits)
  have refl: "same_registry a a" by (simp add: same_registry_def)
  show ?thesis
  proof (cases e)
    case (Frame k f)
    show ?thesis
    proof (cases "cf_type f = Some ''rejoin''")
      case True
      then have "a' = on_rejoin w k f a" "pbo = None" using s by (simp_all add: Frame handle_message_def)
      then show ?thesis using on_rejoin_effect [OF ok] by simp
    next
      case False
      have "client_of a k \<noteq> None" using en by (simp add: Frame)
      from handle_message_effect [OF ok this False, of w] show ?thesis using s by (intro eff) (simp add: Frame)
    qed
  next
    case (Late_queue k f)
    then have "client_of a k \<noteq> None" using en by simp
    from on_queue_effect [OF ok this, of w f] show ?thesis using s Late_queue by (intro eff) simp
  next
    case (Late_available k f)
    then have "client_of a k \<noteq> None" using en by simp
    from on_available_effect [OF ok this, of w f] show ?thesis using s Late_available by (intro eff) simp
  next
    case (Late_challenge k f)
    then have "client_of a k \<noteq> None" using en by simp
    from on_challenge_effect [OF ok this, of w f] show ?thesis using s Late_challenge by (intro eff) simp
  next
    case (Timer t)
    have "effect w a (challenge_timeout t (a\<lparr>ap_timers := remove1 t (ap_timers a)\<rparr>), None)"
      using ok clear_challenge_ok [of "a\<lparr>ap_timers := remove1 t (ap_timers a)\<rparr>"]
      by (cases t) (simp add: challenge_timeout_def Let_def)
    then show ?thesis using Timer s by (intro eff) simp
  next
    case (Grant authed body)
    have "same_registry a b \<and> lobby_ok b" if "try_control m ctrl a = (sent, b)" for m ctrl sent b
      using ok that refl lobby_ok_same(6) [of m ctrl a] same_registry_same(4) [of a m ctrl a] by simp
    then have "same_registry a (snd (admin_grant authed body a)) \<and> lobby_ok (snd (admin_grant authed body a))"
      using ok refl by (auto simp: admin_grant_def Let_def split: option.split prod.split bool.split)
    then show ?thesis using Grant s by auto
  next
    case (Connect k)
    then show ?thesis using connect_effect [OF ok] en s by auto
  next
    case (Leave k)
    then show ?thesis using disconnect_effect [OF ok] s by auto
  next
    case (Ping_out k)
    then show ?thesis using s ok refl
      by (auto simp: ping_sent_def client_ok_def intro!: upd_client_ok)
  next
    case (Pong k)
    then show ?thesis using s ok refl
      by (auto simp: on_pong_def client_ok_def intro!: upd_client_ok split: option.split)
  next
    case (Drain authed)
    then show ?thesis using s ok refl by (auto simp: admin_drain_def same_registry_def)
  next
    case (Resume_matches authed)
    then show ?thesis using s ok refl by (auto simp: admin_resume_def same_registry_def)
  next
    case Decay
    then show ?thesis using s ok refl by (auto simp: same_registry_def)
  qed
qed

text \<open>To which match a client belongs changes only by its own \<open>rejoin\<close>, by its own leaving, or by a match that opens.\<close>

definition moves :: "lobby_event \<Rightarrow> conn \<Rightarrow> bool" where
  "moves e k \<longleftrightarrow> e = Connect k \<or> e = Leave k \<or> rejoins e k"

lemma on_rejoin_others:
  assumes "j \<noteq> k" shows "client_of (on_rejoin w k f a) j = client_of a j"
proof -
  have "client_of b j = client_of a j" if "try_control m ctrl a = (sent, b)" for m ctrl sent b
    using client_of_same(7) [of m ctrl a j] that by simp
  then show ?thesis using assms by (auto simp: on_rejoin_def Let_def split: option.split prod.splits)
qed

lemma calm_bound: "calm a b \<Longrightarrow> map_option cl_bout (client_of b k) = map_option cl_bout (client_of a k)"
  by (simp add: calm_def)

lemma lobby_step_bindings:
  assumes ok: "lobby_ok a" and en: "enabled e a" and s: "lobby_step w e a = (a', None)" and m: "\<not> moves e k"
  shows "map_option cl_bout (client_of a' k) = map_option cl_bout (client_of a k)"
proof -
  have eff: ?thesis if "effect w a (a', None)" using that calm_bound by simp
  show ?thesis
  proof (cases e)
    case (Frame j f)
    show ?thesis
    proof (cases "cf_type f = Some ''rejoin''")
      case True
      then have "a' = on_rejoin w j f a" using s by (simp add: Frame handle_message_def)
      moreover have "k \<noteq> j" using m True by (auto simp: moves_def rejoins_def Frame)
      ultimately show ?thesis using on_rejoin_others by simp
    next
      case False
      have "client_of a j \<noteq> None" using en by (simp add: Frame)
      from handle_message_effect [OF ok this False, of w] show ?thesis using s by (intro eff) (simp add: Frame)
    qed
  next
    case (Late_queue j f)
    then have "client_of a j \<noteq> None" using en by simp
    from on_queue_effect [OF ok this, of w f] show ?thesis using s Late_queue by (intro eff) simp
  next
    case (Late_available j f)
    then have "client_of a j \<noteq> None" using en by simp
    from on_available_effect [OF ok this, of w f] show ?thesis using s Late_available by (intro eff) simp
  next
    case (Late_challenge j f)
    then have "client_of a j \<noteq> None" using en by simp
    from on_challenge_effect [OF ok this, of w f] show ?thesis using s Late_challenge by (intro eff) simp
  next
    case (Timer t)
    have "client_of (challenge_timeout t (a\<lparr>ap_timers := remove1 t (ap_timers a)\<rparr>)) k = client_of a k"
      by (cases t) (simp add: challenge_timeout_def Let_def)
    then show ?thesis using Timer s by auto
  next
    case (Grant authed body)
    have "client_of b k = client_of a k" if "try_control m ctrl a = (sent, b)" for m ctrl sent b
      using client_of_same(7) [of m ctrl a k] that by simp
    then have "client_of (snd (admin_grant authed body a)) k = client_of a k"
      by (auto simp: admin_grant_def Let_def split: option.split prod.split bool.split)
    then show ?thesis using Grant s by auto
  next
    case (Connect j)
    then have "k \<noteq> j" using m by (auto simp: moves_def)
    then show ?thesis using Connect s by (auto simp: connect_def client_of_def update_conv')
  next
    case (Leave j)
    then have "k \<noteq> j" using m by (auto simp: moves_def)
    then show ?thesis using disconnect_effect [OF ok, of j "wd_now w"] Leave s by auto
  next
    case (Ping_out j)
    then show ?thesis using s by (auto simp: ping_sent_def option.map_comp comp_def)
  next
    case (Pong j)
    then have "calm a a'" using s by (auto simp: on_pong_def intro!: calm_upd_client split: option.split)
    then show ?thesis by (rule calm_bound)
  next
    case (Drain authed)
    then show ?thesis using s by (auto simp: admin_drain_def)
  next
    case (Resume_matches authed)
    then show ?thesis using s by (auto simp: admin_resume_def)
  next
    case Decay
    then show ?thesis using s by auto
  qed
qed

lemma binding_kept:
  assumes "lobby_ok a" "enabled e a" "lobby_step w e a = (a', pbo)" "client_of a k = Some c" "cl_bout c = Some b" "\<not> moves e k"
  shows "\<exists>c'. client_of a' k = Some c' \<and> cl_bout c' = Some b"
proof -
  have "map_option cl_bout (client_of a' k) = map_option cl_bout (client_of a k)"
  proof (cases pbo)
    case None
    then show ?thesis using lobby_step_bindings [OF assms(1,2) _ assms(6)] assms(3) by simp
  next
    case (Some pb)
    have o1: "opens w a a' pb" using lobby_step_effect [OF assms(1-3)] by (simp add: Some)
    have "k \<noteq> pb_id pb s" for s using o1 assms(4,5) unfolding opens_def seated_def by fastforce
    then show ?thesis using o1 unfolding opens_def by blast
  qed
  then show ?thesis using assms(4,5) by (cases "client_of a' k") auto
qed

end
