(* ===== verification/LobbyProps.thy ===== *)
theory LobbyProps
  imports LobbySteps
begin

section \<open>What the lobby promises\<close>

text \<open>
  Pairing opens a match for two free clients and only then; the search takes the most even opponent; a client in a
  match is left alone; names that have a rating are not taken without a token; the roster lists every named
  client once, with its busiest connection; and the administrator's gate opens to the secret only.
\<close>

text \<open>
  C6. A match opens only on a machine that is not draining, between two different connected clients that are in no match
  at that moment, whatever the event. Both then belong to the new match, one to each side, as each other's peers and shown as
  in a game; neither is left in the queue or in a challenge; each is rated from the stored rating of its name; the match is
  registered under their names; and nobody else's match changes.
\<close>

theorem pairing_opens:
  assumes "lobby_ok a" "enabled e a" "lobby_step w e a = (a', Some pb)"
  shows "\<not> ap_draining a \<and> pb_match_id pb = wd_match_id w \<and> pb_id pb Side_A \<noteq> pb_id pb Side_B \<and>
    (\<forall>s. \<exists>c c'. client_of a (pb_id pb s) = Some c \<and> cl_bout c = None \<and>
       client_of a' (pb_id pb s) = Some c' \<and> cl_bout c' = Some (pb_match_id pb, s) \<and>
       cl_peer c' = Some (pb_id pb (other_side s)) \<and> cl_status c' = Some InGame \<and> cl_name c' = pb_name pb s \<and>
       pb_state pb s = rating_for a (pb_name pb s) \<and> pb_id pb s \<notin> set (ap_waiting a') \<and>
       (\<forall>(cid, tid, t) \<in> set (ap_challenges a'). cid \<noteq> pb_id pb s \<and> tid \<noteq> pb_id pb s)) \<and>
    map_of (ap_bouts a') (pb_match_id pb) = Some \<lparr>bh_name_a = pb_name pb Side_A, bh_name_b = pb_name pb Side_B\<rparr> \<and>
    (\<forall>k. k \<noteq> pb_id pb Side_A \<and> k \<noteq> pb_id pb Side_B \<longrightarrow> map_option cl_bout (client_of a' k) = map_option cl_bout (client_of a k))"
proof -
  have o1: "opens w a a' pb" using lobby_step_effect [OF assms] by simp
  then have seats: "seated a a' pb s" for s by (simp add: opens_def)
  have "map_of (ap_bouts a') (pb_match_id pb) = Some \<lparr>bh_name_a = pb_name pb Side_A, bh_name_b = pb_name pb Side_B\<rparr>"
    using o1 by (simp add: opens_def update_conv')
  then show ?thesis using o1 seats unfolding opens_def seated_def by blast
qed

text \<open>Ann, free, who has been challenged by Bob; and Cy, who is in a match.\<close>

definition plain_rating :: player_state where
  "plain_rating = player_state_new (new_rating ts_params_default)"

definition named_client :: "string \<Rightarrow> client" where
  "named_client name = (client_new plain_rating)\<lparr>cl_name := name, cl_status := Some Available\<rparr>"

definition empty_db :: db where
  "empty_db = \<lparr>db_hits_row = None, db_players = [], db_replays = []\<rparr>"

definition small_lobby :: app where
  "small_lobby = (app_new empty_db Sqlite [])\<lparr>
     ap_clients := [(''c1'', named_client ''Ann''), (''c2'', named_client ''Bob''),
       (''c3'', enter_bout ''m0'' Side_B (named_client ''Cy''))],
     ap_waiting := [''c1''], ap_challenges := [(''c2'', ''c1'', 30000)],
     ap_bouts := [(''m0'', \<lparr>bh_name_a = ''Di'', bh_name_b = ''Cy''\<rparr>)]\<rparr>"

definition small_world :: world where
  "small_world = \<lparr>wd_now = 5000, wd_match_id = ''m1'', wd_hash = (\<lambda>s. of_nat (length s)), wd_libm = \<lparr>lm_exp = (\<lambda>_. 1), lm_ln = (\<lambda>_. 0)\<rparr>,
     wd_verify = (\<lambda>_. None)\<rparr>"

definition blank_frame :: client_frame where
  "blank_frame = \<lparr>cf_type = None, cf_token = None, cf_name = None, cf_value = None, cf_geo = None, cf_bot = None,
     cf_target = None, cf_from = None, cf_seq = None, cf_input = None, cf_match_id = None\<rparr>"

definition accept_frame :: client_frame where
  "accept_frame = blank_frame\<lparr>cf_type := Some ''challengeAccept'', cf_from := Some ''Bob''\<rparr>"

lemma small_lobby_sel [simp]:
  "ap_draining small_lobby = False" "ap_waiting small_lobby = [''c1'']" "ap_challenges small_lobby = [(''c2'', ''c1'', 30000)]"
  "ap_params small_lobby = ts2_params_default" "ap_ratings small_lobby = []"
  by (simp_all add: small_lobby_def app_new_def)

lemma small_lobby_client:
  "client_of small_lobby k =
     (if k = ''c1'' then Some (named_client ''Ann'') else if k = ''c2'' then Some (named_client ''Bob'')
      else if k = ''c3'' then Some (enter_bout ''m0'' Side_B (named_client ''Cy'')) else None)"
  by (simp add: small_lobby_def app_new_def client_of_def)

lemma named_client_sel [simp]:
  "cl_bout (named_client n) = None" "cl_name (named_client n) = n" "cl_status (named_client n) = Some Available"
  "cl_is_bot (named_client n) = False" "cl_peer (named_client n) = None" "cl_match_id (named_client n) = None"
  by (simp_all add: named_client_def client_new_def)

lemma enter_bout_sel [simp]:
  "cl_bout (enter_bout m s c) = Some (m, s)" "cl_name (enter_bout m s c) = cl_name c" "cl_status (enter_bout m s c) = Some InGame"
  "cl_is_bot (enter_bout m s c) = cl_is_bot c" "cl_peer (enter_bout m s c) = cl_peer c" "cl_match_id (enter_bout m s c) = Some m"
  by (simp_all add: enter_bout_def)

lemma small_lobby_ok: "lobby_ok small_lobby"
proof (rule lobby_okI)
  show "client_ok c" if "client_of small_lobby k = Some c" for k c
    using that by (auto simp: small_lobby_client client_ok_def split: if_splits)
  show "distinct (map fst (ap_clients small_lobby))" by (simp add: small_lobby_def app_new_def)
qed (auto simp: small_lobby_client)

lemma accept_opens: "\<exists>a' pb. lobby_step small_world (Frame ''c1'' accept_frame) small_lobby = (a', Some pb)"
proof -
  have "challenger_named ''c1'' ''Bob'' small_lobby = Some ''c2''"
    by (simp add: challenger_named_def client_is_def small_lobby_client)
  then have "lobby_step small_world (Frame ''c1'' accept_frame) small_lobby =
      start_bout small_world ''c2'' ''c1'' None (clear_challenge ''c2'' small_lobby)"
    by (simp add: handle_message_def accept_frame_def blank_frame_def on_challenge_accept_def or_default_def client_is_def small_lobby_client)
  then show ?thesis
    using start_bout_pairs [of "clear_challenge ''c2'' small_lobby" "''c2''" "named_client ''Bob''" "''c1''" "named_client ''Ann''"]
    by (simp add: small_lobby_client) metis
qed

theorem pairing_opens_witness:
  "\<exists>a' pb. lobby_step small_world (Frame ''c1'' accept_frame) small_lobby = (a', Some pb) \<and>
     pb_match_id pb = ''m1'' \<and> pb_id pb Side_A \<noteq> pb_id pb Side_B"
proof -
  obtain a' pb where s: "lobby_step small_world (Frame ''c1'' accept_frame) small_lobby = (a', Some pb)" using accept_opens by blast
  have "enabled (Frame ''c1'' accept_frame) small_lobby" by (simp add: small_lobby_client)
  from pairing_opens [OF small_lobby_ok this s] show ?thesis using s by (simp add: small_world_def)
qed

subsection \<open>The search\<close>

text \<open>
  C17. A free client that searches while the server is not draining plays the most even opponent there is. For a human a match
  opens iff another human client is free and waits in the queue or is listed as available or searching; the opponent is
  such a client, none of the others gives a higher match quality, and the searcher sits on side B. If there is none, or if
  the searcher is a bot, no match opens and the searcher is in the queue.
\<close>

theorem search_is_best:
  fixes w :: world
  assumes "lobby_ok a" "client_of a k = Some me" "cl_bout me = None" "\<not> ap_draining a"
  defines "open_to \<equiv> \<lambda>cid. \<exists>c. client_of a cid = Some c \<and> cid \<noteq> k \<and> cl_bout c = None \<and> \<not> cl_is_bot c \<and> \<not> cl_is_bot me \<and>
    (cid \<in> set (ap_waiting a) \<or> cl_status c = Some Available \<or> cl_status c = Some Searching)"
    and "evenness \<equiv> \<lambda>cid. case client_of a cid of
      Some c \<Rightarrow> quality_1v1 (wd_libm w) (ps_rating (cl_state me)) (ps_rating (cl_state c)) (t2_base (ap_params a)) | None \<Rightarrow> 0"
  shows "case snd (try_match w k a) of
      None \<Rightarrow> (\<forall>cid. \<not> open_to cid) \<and> k \<in> set (ap_waiting (fst (try_match w k a)))
    | Some pb \<Rightarrow> pb_id pb Side_B = k \<and> open_to (pb_id pb Side_A) \<and> pb_human pb = (\<lambda>_. True) \<and>
        (\<forall>cid. open_to cid \<longrightarrow> evenness cid \<le> evenness (pb_id pb Side_A))"
proof -
  have cand: "is_match_candidate a k cid \<longleftrightarrow> open_to cid" for cid
    using assms(2) by (auto simp: is_match_candidate_def open_to_def client_is_def split: option.split)
  have even: "quality_with w a (ps_rating (cl_state me)) cid = evenness cid" if "open_to cid" for cid
    using that by (auto simp: quality_with_def evenness_def open_to_def)
  show ?thesis
  proof (cases "best_opponent w k (ps_rating (cl_state me)) a")
    case None
    then show ?thesis
      using best_opponent_cases [where w = w and k = k and mine = "ps_rating (cl_state me)" and a = a] assms(2,3) cand
      by (simp add: try_match_def)
  next
    case (Some r)
    obtain opp q where r: "r = (opp, q)" by fastforce
    have b: "open_to opp" "\<forall>cid. open_to cid \<longrightarrow> evenness cid \<le> evenness opp"
      using best_opponent_cases [where w = w and k = k and mine = "ps_rating (cl_state me)" and a = a] even
      unfolding Some r cand by auto
    then obtain c where "client_of a opp = Some c" "opp \<noteq> k" by (auto simp: open_to_def)
    then obtain a' pb where p: "start_bout w opp k (Some q) a = (a', Some pb)" "pb_id pb = by_side opp k"
      using start_bout_pairs [OF assms(4) _ assms(2)] by metis
    then have t: "try_match w k a = (a', Some pb)" using assms(2,3) by (simp add: try_match_def Some r)
    then show ?thesis using b p(2) try_match_effect [OF assms(1,2) t] by (simp add: by_side_def)
  qed
qed

theorem search_is_best_witness:
  "\<exists>a' pb. try_match small_world ''c2'' small_lobby = (a', Some pb) \<and> pb_id pb Side_A = ''c1'' \<and> pb_id pb Side_B = ''c2''"
proof -
  have c: "client_of small_lobby ''c2'' = Some (named_client ''Bob'')" by (simp add: small_lobby_client)
  have f: "cl_bout (named_client ''Bob'') = None" "\<not> ap_draining small_lobby" by simp_all
  have cand: "(\<exists>c. client_of small_lobby cid = Some c \<and> cid \<noteq> ''c2'' \<and> cl_bout c = None \<and> \<not> cl_is_bot c \<and> \<not> cl_is_bot (named_client ''Bob'') \<and>
    (cid \<in> set (ap_waiting small_lobby) \<or> cl_status c = Some Available \<or> cl_status c = Some Searching)) \<longleftrightarrow> cid = ''c1''" for cid
    by (auto simp: small_lobby_client)
  show ?thesis using search_is_best [OF small_lobby_ok c f, where w = small_world] unfolding cand
    by (cases "try_match small_world ''c2'' small_lobby") (auto split: option.splits)
qed

subsection \<open>A match is not left by accident\<close>

text \<open>
  C13. A client that is in a match stays in it, on its side, through every event of the lobby except its own leaving and its
  own \<open>rejoin\<close>: it is not paired a second time, challenged out of it, or freed by what others do.
\<close>

theorem match_is_kept:
  assumes "lobby_ok a" "enabled e a" "client_of a k = Some c" "cl_bout c = Some b" "e \<noteq> Leave k" "\<not> rejoins e k"
  shows "\<exists>c'. client_of (fst (lobby_step w e a)) k = Some c' \<and> cl_bout c' = Some b \<and> cl_status c' = Some InGame"
proof -
  have "e \<noteq> Connect k" using assms(2,3) by auto
  then have "\<not> moves e k" using assms(5,6) by (simp add: moves_def)
  then obtain c' where "client_of (fst (lobby_step w e a)) k = Some c'" "cl_bout c' = Some b"
    using binding_kept [OF assms(1,2) _ assms(3,4)] by (metis prod.collapse)
  moreover have "lobby_ok (fst (lobby_step w e a))" using lobby_step_effect [OF assms(1,2)] by (metis prod.collapse)
  ultimately show ?thesis using lobby_okD(2) unfolding client_ok_def by fastforce
qed

theorem match_is_kept_witness:
  "\<exists>c'. client_of (fst (lobby_step small_world (Frame ''c1'' accept_frame) small_lobby)) ''c3'' = Some c' \<and> cl_bout c' = Some (''m0'', Side_B)"
proof -
  have "enabled (Frame ''c1'' accept_frame) small_lobby" "client_of small_lobby ''c3'' = Some (enter_bout ''m0'' Side_B (named_client ''Cy''))"
    "\<not> rejoins (Frame ''c1'' accept_frame) ''c3''"
    by (simp_all add: small_lobby_client rejoins_def)
  then show ?thesis using match_is_kept [OF small_lobby_ok, where w = small_world and b = "(''m0'', Side_B)"] by fastforce
qed

subsection \<open>The roster\<close>

definition roster_ok :: "(conn \<times> client) list \<Rightarrow> by_name \<Rightarrow> bool" where
  "roster_ok cs bn \<longleftrightarrow> distinct (map fst bn) \<and>
     (\<forall>n st p b. map_of bn n = Some (st, p, b) \<longrightarrow> n \<noteq> [] \<and>
        (\<exists>(k, c) \<in> set cs. cl_name c = n \<and> cl_status c = Some st \<and> p = ping_bucket (cl_ping_ms c) \<and> b = cl_is_bot c)) \<and>
     (\<forall>(k, c) \<in> set cs. \<forall>st. cl_name c \<noteq> [] \<and> cl_status c = Some st \<longrightarrow>
        (\<exists>st' p b. map_of bn (cl_name c) = Some (st', p, b) \<and> status_rank st \<le> status_rank st'))"

lemma roster_ok_same:
  assumes "roster_ok cs bn" "cl_name c = [] \<or> cl_status c = None \<or>
    (\<exists>st st' p b. cl_status c = Some st \<and> map_of bn (cl_name c) = Some (st', p, b) \<and> status_rank st \<le> status_rank st')"
  shows "roster_ok (cs @ [(k, c)]) bn"
proof -
  have "\<exists>(k, c') \<in> set (cs @ [(k, c)]). cl_name c' = n \<and> cl_status c' = Some st \<and> p = ping_bucket (cl_ping_ms c') \<and> b = cl_is_bot c'"
    if "map_of bn n = Some (st, p, b)" for n st p b
    using assms(1) that unfolding roster_ok_def by fastforce
  moreover have "n \<noteq> []" if "map_of bn n = Some (st, p, b)" for n st p b
    using assms(1) that unfolding roster_ok_def by blast
  moreover have "\<exists>st' p b. map_of bn (cl_name c') = Some (st', p, b) \<and> status_rank st \<le> status_rank st'"
    if "(k', c') \<in> set (cs @ [(k, c)])" "cl_name c' \<noteq> []" "cl_status c' = Some st" for k' c' st
    using assms that unfolding roster_ok_def by fastforce
  ultimately show ?thesis using assms(1) unfolding roster_ok_def by blast
qed

lemma roster_ok_put:
  assumes ok: "roster_ok cs bn" and c: "cl_name c \<noteq> []" "cl_status c = Some st"
    and busier: "\<And>st' p b. map_of bn (cl_name c) = Some (st', p, b) \<Longrightarrow> status_rank st' \<le> status_rank st"
  shows "roster_ok (cs @ [(k, c)]) (AList.update (cl_name c) (st, ping_bucket (cl_ping_ms c), cl_is_bot c) bn)"
    (is "roster_ok _ ?bn")
proof -
  have m: "map_of ?bn n = (if n = cl_name c then Some (st, ping_bucket (cl_ping_ms c), cl_is_bot c) else map_of bn n)" for n
    by (simp add: update_conv')
  have "distinct (map fst ?bn)" using ok by (simp add: roster_ok_def AList.distinct_update)
  moreover have "n \<noteq> [] \<and> (\<exists>(k, c') \<in> set (cs @ [(k, c)]). cl_name c' = n \<and> cl_status c' = Some st' \<and>
      p = ping_bucket (cl_ping_ms c') \<and> b = cl_is_bot c')" if "map_of ?bn n = Some (st', p, b)" for n st' p b
  proof (cases "n = cl_name c")
    case True
    then show ?thesis using that c by (auto simp: m)
  next
    case False
    then have "map_of bn n = Some (st', p, b)" using that by (simp add: m)
    then show ?thesis using ok unfolding roster_ok_def by fastforce
  qed
  moreover have "\<exists>st2 p b. map_of ?bn (cl_name c') = Some (st2, p, b) \<and> status_rank st' \<le> status_rank st2"
    if prem: "(k', c') \<in> set (cs @ [(k, c)])" "cl_name c' \<noteq> []" "cl_status c' = Some st'" for k' c' st'
  proof (cases "(k', c') \<in> set cs")
    case True
    then obtain st2 p b where "map_of bn (cl_name c') = Some (st2, p, b)" "status_rank st' \<le> status_rank st2"
      using ok prem(2,3) unfolding roster_ok_def by blast
    then show ?thesis using busier [of st2 p b] by (auto simp: m intro: order_trans)
  qed (use prem c in \<open>auto simp: update_conv'\<close>)
  ultimately show ?thesis unfolding roster_ok_def by blast
qed

lemma list_client_ok: "roster_ok cs bn \<Longrightarrow> roster_ok (cs @ [kc]) (list_client kc bn)"
proof (cases kc)
  case (Pair k c)
  assume ok: "roster_ok cs bn"
  show ?thesis
  proof (cases "cl_name c = [] \<or> cl_status c = None")
    case True
    then have "list_client kc bn = bn" by (auto simp: list_client_def Let_def Pair split: option.split)
    then show ?thesis using roster_ok_same [OF ok, of c k] True by (auto simp: Pair)
  next
    case False
    then obtain st where st: "cl_name c \<noteq> []" "cl_status c = Some st" by auto
    show ?thesis
    proof (cases "\<exists>st' p b. map_of bn (cl_name c) = Some (st', p, b) \<and> status_rank st \<le> status_rank st'")
      case True
      then have "list_client kc bn = bn" using st by (auto simp: list_client_def Let_def Pair not_less)
      then show ?thesis using roster_ok_same [OF ok, of c k] True st by (auto simp: Pair)
    next
      case new: False
      then have "list_client kc bn = AList.update (cl_name c) (st, ping_bucket (cl_ping_ms c), cl_is_bot c) bn"
        using st by (auto simp: list_client_def Let_def Pair not_le split: option.split)
      then show ?thesis using roster_ok_put [OF ok st, of k] new by (auto simp: Pair not_le intro: less_imp_le)
    qed
  qed
qed

lemma fold_list_client_ok: "roster_ok cs (fold list_client cs [])"
proof (induction cs rule: rev_induct)
  case (snoc kc cs)
  then show ?case using list_client_ok by simp
qed (simp add: roster_ok_def)

lemma roster_perm: "set (roster a) = set (fold list_client (ap_clients a) [])" "distinct (map fst (roster a))" "sorted (map fst (roster a))"
proof -
  let ?f = "fold list_client (ap_clients a) []"
  show "set (roster a) = set ?f" by (simp add: roster_def)
  show "sorted (map fst (roster a))" by (simp add: roster_def)
  have "distinct (map fst ?f)" using fold_list_client_ok [of "ap_clients a"] by (simp add: roster_ok_def)
  then have "distinct ?f" "inj_on fst (set ?f)" by (simp_all add: distinct_map)
  then show "distinct (map fst (roster a))" by (simp add: roster_def distinct_map)
qed

text \<open>
  C29. The roster that the lobby publishes is sorted by name, lists no name twice, and only names of listed clients, each
  with the status, the latency to the nearest ten and the kind of one of its connections; every named client that wants to
  be listed is there, and a name with several connections shows its busiest one.
\<close>

theorem roster_is_faithful:
  "sorted (map fst (roster a)) \<and> distinct (map fst (roster a)) \<and>
   (\<forall>(n, st, p, b) \<in> set (roster a). n \<noteq> [] \<and> (\<exists>(k, c) \<in> set (ap_clients a).
      cl_name c = n \<and> cl_status c = Some st \<and> p = ping_bucket (cl_ping_ms c) \<and> b = cl_is_bot c)) \<and>
   (\<forall>(k, c) \<in> set (ap_clients a). \<forall>st. cl_name c \<noteq> [] \<and> cl_status c = Some st \<longrightarrow>
      (\<exists>st' p b. (cl_name c, st', p, b) \<in> set (roster a) \<and> status_rank st \<le> status_rank st'))"
proof -
  let ?f = "fold list_client (ap_clients a) []"
  have ok: "roster_ok (ap_clients a) ?f" by (rule fold_list_client_ok)
  then have "distinct (map fst ?f)" by (simp add: roster_ok_def)
  then have m: "(n, st, p, b) \<in> set (roster a) \<longleftrightarrow> map_of ?f n = Some (st, p, b)" for n st p b
    unfolding roster_perm(1) by (rule map_of_eq_Some_iff [symmetric])
  have "\<forall>(n, st, p, b) \<in> set (roster a). n \<noteq> [] \<and> (\<exists>(k, c) \<in> set (ap_clients a).
      cl_name c = n \<and> cl_status c = Some st \<and> p = ping_bucket (cl_ping_ms c) \<and> b = cl_is_bot c)"
  proof (clarify)
    fix n st p b assume "(n, st, p, b) \<in> set (roster a)"
    then have "map_of ?f n = Some (st, p, b)" by (simp only: m)
    then show "n \<noteq> [] \<and> (\<exists>(k, c) \<in> set (ap_clients a). cl_name c = n \<and> cl_status c = Some st \<and>
        p = ping_bucket (cl_ping_ms c) \<and> b = cl_is_bot c)" using ok unfolding roster_ok_def by blast
  qed
  moreover have "\<forall>(k, c) \<in> set (ap_clients a). \<forall>st. cl_name c \<noteq> [] \<and> cl_status c = Some st \<longrightarrow>
      (\<exists>st' p b. (cl_name c, st', p, b) \<in> set (roster a) \<and> status_rank st \<le> status_rank st')"
    unfolding m using ok unfolding roster_ok_def by blast
  ultimately show ?thesis using roster_perm(2,3) by blast
qed

theorem roster_is_faithful_witness:
  "\<exists>st p b. (''Cy'', st, p, b) \<in> set (roster small_lobby) \<and> status_rank InGame \<le> status_rank st"
proof -
  have "(''c3'', enter_bout ''m0'' Side_B (named_client ''Cy'')) \<in> set (ap_clients small_lobby)" by (simp add: small_lobby_def)
  then show ?thesis using roster_is_faithful [of small_lobby] by fastforce
qed

subsection \<open>Names and the administrator\<close>

text \<open>What an event does to the names of the clients.\<close>

definition named :: "app \<Rightarrow> conn \<Rightarrow> string option" where
  "named a k = map_option cl_name (client_of a k)"

lemma named_cong: "client_of b = client_of a \<Longrightarrow> named b = named a"
  by (simp add: named_def fun_eq_iff)

lemma named_same [simp]:
  "named (send k' msg a) = named a" "named (broadcast msg a) = named a"
  "named (notify_lobby msg a) = named a" "named (maybe_broadcast_stats now a) = named a"
  "named (maybe_broadcast_players a) = named a" "named (clear_challenge k' a) = named a"
  "named (snd (try_control m ctrl a)) = named a" "named (try_input m msg' a) = named a"
  "named (a\<lparr>ap_db := x1\<rparr>) = named a" "named (a\<lparr>ap_last_active := x2\<rparr>) = named a"
  "named (a\<lparr>ap_timers := x3\<rparr>) = named a" "named (a\<lparr>ap_waiting := x4\<rparr>) = named a"
  "named (a\<lparr>ap_last_broadcast_players := x5\<rparr>) = named a" "named (a\<lparr>ap_challenges := x6\<rparr>) = named a"
  "named (a\<lparr>ap_draining := x7\<rparr>) = named a"
  by (rule named_cong; simp add: fun_eq_iff)+

lemma named_keeps: "(\<And>c. cl_name (f c) = cl_name c) \<Longrightarrow> named (upd_client k f a) = named a"
  by (auto simp: named_def fun_eq_iff option.map_comp comp_def)

lemma named_upd: "named (upd_client k f a) j = (if j = k then map_option (\<lambda>c. cl_name (f c)) (client_of a k) else named a j)"
  by (simp add: named_def option.map_comp comp_def)

lemma named_start [simp]: "named (fst (start_bout w x y q a)) = named a"
  by (auto simp: start_bout_def Let_def named_def fun_eq_iff enter_bout_def split: option.split)

lemma named_try_match [simp]: "named (fst (try_match w k a)) = named a"
  by (auto simp: try_match_def split: option.split)

lemma named_control: "try_control m ctrl a = (sent, b) \<Longrightarrow> named b = named a"
  by (metis named_same(7) snd_conv)

lemma named_queue: "named (fst (on_queue w k f a)) j = named a j \<or> j = k \<and> 
   named (fst (on_queue w k f a)) k = Some (let n = resolve_name w a f (name_of a k) in if n = [] then ''anon'' else n)"
  by (auto simp: on_queue_def Let_def split_beta named_upd) (auto simp: named_def)

lemma named_available: "named (fst (on_available w k f a)) j = named a j \<or> j = k \<and> 
   named (fst (on_available w k f a)) k = Some (resolve_name w a f (name_of a k))"
  by (auto simp: on_available_def Let_def split_beta named_upd) (auto simp: named_def)

lemma named_challenge: "named (on_challenge w k f a) j = named a j \<or> j = k \<and> 
   named (on_challenge w k f a) k = Some (resolve_name w a f (name_of a k))"
  by (auto simp: on_challenge_def Let_def split_beta named_upd split: option.split) (auto simp: named_def)

lemma named_rejoin: "named (on_rejoin w k f a) j = named a j \<or> j = k \<and>
   named (on_rejoin w k f a) k = Some (resolve_name w a f (name_of a k))"
proof (cases "j = k")
  case True
  have same: "named b k = named a k" "client_of b k = client_of a k" if "try_control m ctrl a = (sent, b)" for m ctrl sent b
    using client_of_same(7) [of m ctrl a k] that by (simp_all add: named_def)
  show ?thesis
    unfolding on_rejoin_def Let_def
    by (auto simp: True named_upd split: option.split prod.split dest: same)
qed (simp add: on_rejoin_others named_def)

lemma named_quiet [simp]:
  "named (on_watch w k a) = named a" "named (on_active w k a) = named a" "named (on_challenge_decline k f a) = named a"
  "named (on_input k f a) = named a" "named (on_resync k a) = named a" "named (on_leave_match k a) = named a"
  "named (challenge_timeout t a) = named a" "named (ping_sent k now a) = named a"
  "named (on_pong k now a) = named a" "named (snd (admin_drain b a)) = named a" "named (snd (admin_resume b a)) = named a"
  "named (fst (on_challenge_accept w k f a)) = named a" "named (snd (reject_if_draining k a)) = named a"
  by (auto simp: on_watch_def on_active_def on_challenge_decline_def on_input_def on_resync_def tell_own_bout_def on_leave_match_def
      challenge_timeout_def ping_sent_def on_pong_def admin_drain_def admin_resume_def on_challenge_accept_def reject_if_draining_def
      Let_def named_keeps split: option.split prod.split)

lemma named_spectate [simp]: "named (on_spectate k f a) = named a"
  by (auto simp: on_spectate_def split: option.split prod.split dest: named_control)

lemma named_grant [simp]: "named (snd (admin_grant b body a)) = named a"
  by (auto simp: admin_grant_def Let_def split: option.split prod.split bool.split dest: named_control)

text \<open>The frame that an event brings, and who sends it.\<close>

fun brings :: "lobby_event \<Rightarrow> conn \<Rightarrow> client_frame \<Rightarrow> bool" where
  "brings (Frame k f) j g = (k = j \<and> f = g)"
| "brings (Late_queue k f) j g = (k = j \<and> f = g)"
| "brings (Late_available k f) j g = (k = j \<and> f = g)"
| "brings (Late_challenge k f) j g = (k = j \<and> f = g)"
| "brings _ _ _ = False"

definition renames :: "world \<Rightarrow> app \<Rightarrow> conn \<Rightarrow> client_frame \<Rightarrow> app \<Rightarrow> conn \<Rightarrow> bool" where
  "renames w a k f a' j \<longleftrightarrow> named a' j = named a j \<or> j = k \<and>
     (named a' k = Some (resolve_name w a f (name_of a k)) \<or> resolve_name w a f (name_of a k) = [] \<and> named a' k = Some ''anon'')"

lemma handler_renames:
  "renames w a k f (fst (on_queue w k f a)) j" "renames w a k f (fst (on_available w k f a)) j"
  "renames w a k f (on_challenge w k f a) j" "renames w a k f (on_rejoin w k f a) j"
  using named_queue [of w k f a j] named_available [of w k f a j] named_challenge [of w k f a j] named_rejoin [of w k f a j]
  by (auto simp: renames_def Let_def split: if_splits)

lemma message_renames: "renames w a k f (fst (handle_message w k f a)) j"
proof -
  have same: "renames w a k f b j" if "named b = named a" for b using that by (simp add: renames_def)
  obtain d b where r: "reject_if_draining k a = (d, b)" by fastforce
  have b: "named b = named a" using named_quiet(13) [of k a] by (simp add: r)
  have gate: "renames w a k f (fst (case reject_if_draining k a of (True, a) \<Rightarrow> (a, None) | (False, a) \<Rightarrow> g a)) j"
    if "renames w a k f (fst (g a)) j" for g :: "app \<Rightarrow> app \<times> pending_bout option"
    using reject_open [of k a b] same [OF b] that by (cases d) (simp_all add: r)
  have "renames w a k f (fst (case reject_if_draining k a of (True, a) \<Rightarrow> (a, None) | (False, a) \<Rightarrow> (on_challenge w k f a, None :: pending_bout option))) j"
    using gate [of "\<lambda>a. (on_challenge w k f a, None)"] handler_renames(3) [of w a k f j] by simp
  then show ?thesis
    unfolding handle_message_def by (auto intro: handler_renames same gate)
qed

lemma event_renames:
  assumes "lobby_ok a" "enabled e a" "named a j = Some n" "named (fst (lobby_step w e a)) j = Some n'" "n' \<noteq> n"
  obtains f where "brings e j f" "renames w a j f (fst (lobby_step w e a)) j"
proof -
  note found = that
  have other: thesis if prem: "named (fst (lobby_step w e a)) j = named a j" using prem assms(3-5) by simp
  have here: thesis if prem: "brings e k f" "renames w a k f (fst (lobby_step w e a)) j" for k f
    using prem assms(3-5) by (intro found [of f]) (auto simp: renames_def)
  show thesis
  proof (cases e)
    case (Connect k)
    then have "j \<noteq> k" using assms(2,3) by (auto simp: named_def)
    then show thesis by (intro other) (simp add: Connect connect_def named_def client_of_def update_conv')
  next
    case (Leave k)
    then show thesis using disconnect_effect [OF assms(1), of k "wd_now w"] assms(4)
      by (intro other) (auto simp: named_def split: if_splits)
  next
    case (Timer t)
    then show thesis by (cases t) (intro other, simp)
  qed (use handler_renames message_renames other in \<open>auto intro!: here\<close>)
qed

text \<open>A token that the server's secret signs and whose claims carry the name.\<close>

definition signed_for :: "crypto \<Rightarrow> u8 list \<Rightarrow> string \<Rightarrow> string \<Rightarrow> bool" where
  "signed_for K secret token n \<longleftrightarrow> (\<exists>header payload sg claims raw.
     token = header @ ''.'' @ payload @ ''.'' @ sg \<and> cy_decode K sg = Some (cy_mac K secret (header @ ''.'' @ payload)) \<and>
     cy_decode K payload = Some claims \<and> cy_name K claims = Some raw \<and> sanitize_name raw = Some n)"

lemma resolved:
  assumes "wd_verify w = verify_token_with K secret" "n = resolve_name w a f prior" "n \<noteq> prior"
  shows "n \<noteq> [] \<and> length n \<le> MAX_NAME_LEN \<and>
    (map_of (ap_ratings a) n = None \<and> Option.bind (cf_name f) sanitize_name = Some n \<or>
     (\<exists>token. cf_token f = Some token \<and> signed_for K secret token n))"
proof (cases "Option.bind (cf_token f) (wd_verify w)")
  case None
  then have "Option.bind (cf_name f) sanitize_name = Some n" "map_of (ap_ratings a) n = None"
    using assms(2,3) by (auto simp: resolve_name_def bare_name_def split: option.splits if_splits)
  then show ?thesis using sanitized by (auto elim!: bind_eq_SomeE)
next
  case (Some signed_name)
  then have "signed_name = n" using assms(2) by (simp add: resolve_name_def)
  then obtain t where t: "cf_token f = Some t" "verify_token_with K secret t = Some n"
    using Some assms(1) by (auto elim!: bind_eq_SomeE)
  show ?thesis using token_authentic [OF t(2)] t(1) unfolding signed_for_def by blast
qed

text \<open>
  C28. Nobody takes a name that has a rating without its token, but for \<open>anon\<close>. If a client's name changes in any event of the lobby, the
  event is a frame of its own, and the new name is not empty, is at most 32 characters long, and either is the clean form
  of the name that the frame asks for, under which nobody is rated; or is the clean form of the name in the
  claims of a token in the frame that carries the signature the server's secret gives; or, for a client that
  had no name, is \<open>anon\<close>, the name the queue gives to whoever brings none.
\<close>

theorem rated_name_needs_token:
  assumes "wd_verify w = verify_token_with K secret" "lobby_ok a" "enabled e a"
    and "client_of a k = Some c" "client_of (fst (lobby_step w e a)) k = Some c'" "cl_name c' \<noteq> cl_name c"
  shows "\<exists>f. brings e k f \<and> cl_name c' \<noteq> [] \<and> length (cl_name c') \<le> MAX_NAME_LEN \<and>
    (map_of (ap_ratings a) (cl_name c') = None \<and> Option.bind (cf_name f) sanitize_name = Some (cl_name c') \<or>
     (\<exists>token. cf_token f = Some token \<and> signed_for K secret token (cl_name c')) \<or>
     cl_name c = [] \<and> cl_name c' = ''anon'')"
proof -
  have n: "named a k = Some (cl_name c)" "named (fst (lobby_step w e a)) k = Some (cl_name c')" "name_of a k = cl_name c"
    using assms(4,5) by (simp_all add: named_def name_of_def)
  obtain f where f: "brings e k f" "renames w a k f (fst (lobby_step w e a)) k"
    by (rule event_renames [OF assms(2,3) n(1,2) assms(6)])
  show ?thesis
  proof (cases "cl_name c' = resolve_name w a f (cl_name c)")
    case True
    then show ?thesis using resolved [OF assms(1) True assms(6)] f(1) by blast
  next
    case False
    then have r: "resolve_name w a f (cl_name c) = []" "cl_name c' = ''anon''" using f(2) n assms(6) by (auto simp: renames_def)
    then have "cl_name c = []" using resolved [OF assms(1) refl, of a f "cl_name c"] by (cases "cl_name c = []") auto
    then show ?thesis using f(1) r(2) by (auto simp: MAX_NAME_LEN_def)
  qed
qed

text \<open>The connection that was Ann presents a token that the server signed for Bob.\<close>

definition signed_world :: world where
  "signed_world = small_world\<lparr>wd_verify := verify_token_with letter_crypto [5]\<rparr>"

definition bob_token :: string where
  "bob_token = issue_token_with letter_crypto [5] ''Bob'' 9"

definition bob_frame :: client_frame where
  "bob_frame = blank_frame\<lparr>cf_type := Some ''challenge'', cf_token := Some bob_token\<rparr>"

theorem rated_name_needs_token_witness:
  "\<exists>c'. client_of (fst (lobby_step signed_world (Frame ''c1'' bob_frame) small_lobby)) ''c1'' = Some c' \<and> cl_name c' = ''Bob'' \<and>
     signed_for letter_crypto [5] bob_token ''Bob''"
proof -
  have v: "wd_verify signed_world = verify_token_with letter_crypto [5]" by (simp add: signed_world_def)
  have c: "client_of small_lobby ''c1'' = Some (named_client ''Ann'')" by (simp add: small_lobby_client)
  have r: "resolve_name signed_world small_lobby bob_frame ''Ann'' = ''Bob''"
    using letter_token by (simp add: resolve_name_def v bob_frame_def blank_frame_def bob_token_def)
  have f: "cf_type bob_frame = Some ''challenge''" "cf_name bob_frame = None" "cf_token bob_frame = Some bob_token"
    by (simp_all add: bob_frame_def blank_frame_def)
  have "named (fst (lobby_step signed_world (Frame ''c1'' bob_frame) small_lobby)) ''c1'' = Some ''Bob''"
    using c r by (simp add: handle_message_def f reject_if_draining_def on_challenge_def Let_def named_upd name_of_def split: option.split)
  then obtain c' where c': "client_of (fst (lobby_step signed_world (Frame ''c1'' bob_frame) small_lobby)) ''c1'' = Some c'" "cl_name c' = ''Bob''"
    by (auto simp: named_def)
  have "enabled (Frame ''c1'' bob_frame) small_lobby" "cl_name c' \<noteq> cl_name (named_client ''Ann'')" using c c'(2) by simp_all
  from rated_name_needs_token [OF v small_lobby_ok this(1) c c'(1) this(2)] show ?thesis using c' f by auto
qed

lemma xor_zero_iff: "x XOR y = 0 \<longleftrightarrow> x = (y :: u8)"
  by (metis xor.assoc xor.left_neutral xor_self_eq)

lemma ct_fold: "foldl (\<lambda>diff (x, y). diff OR (x XOR y)) d zs = (0 :: u8) \<longleftrightarrow> d = 0 \<and> (\<forall>(x, y) \<in> set zs. x = y)"
  by (induction zs arbitrary: d) (auto simp: or_eq_0_iff xor_zero_iff)

lemma ct_eq_iff: "ct_eq xs ys \<longleftrightarrow> xs = ys"
  by (auto simp: ct_eq_def ct_fold list_eq_iff_zip_eq)

text \<open>
  The administrator's routes answer, and change something, only for a caller that presents the configured token, byte for
  byte; with no token configured, or an empty one, nobody is let in.
\<close>

theorem admin_gate:
  "(admin_authed configured presented \<longleftrightarrow> (\<exists>t. configured = Some t \<and> presented = Some t \<and> t \<noteq> [])) \<and>
   (\<not> admin_authed configured presented \<longrightarrow>
      admin_drain (admin_authed configured presented) a = (None, a) \<and>
      admin_resume (admin_authed configured presented) a = (None, a) \<and>
      admin_grant (admin_authed configured presented) body a = (Forbidden, a))"
  by (cases configured; cases presented) (auto simp: admin_authed_def ct_eq_iff admin_drain_def admin_resume_def admin_grant_def)

theorem admin_gate_witness:
  "admin_authed (Some [1, 2]) (Some [1, 2]) \<and> admin_drain (admin_authed (Some [1, 2]) (Some [1, 3])) small_lobby = (None, small_lobby)"
  using admin_gate [of "Some [1, 2]" "Some [1, 2]"] admin_gate [of "Some [1, 2]" "Some [1, 3]" small_lobby] by auto

end
