(* ===== verification/LoopProps.thy ===== *)
theory LoopProps
  imports MatchLoop MatchReplay ArchiveProps LobbyProps
begin

section \<open>What the loop of a match promises\<close>

text \<open>
  A match runs from its pairing to a verdict, whatever its clients, its sockets and the administrator do in
  between: it never stops its host; it is frozen exactly while a side is away, and then for the grace period at
  most; and what it stores of a match that was played out plays back to the same result.
\<close>

subsection \<open>Runs\<close>

text \<open>What a turn meets: the time, the sockets that take messages, and the contents of the two channels.\<close>

record turn =
  tn_now :: nat
  tn_alive :: "conn \<Rightarrow> bool"
  tn_controls :: "bout_control list"
  tn_msgs :: "(side \<times> input \<times> u64) list"

definition turn :: "turn \<Rightarrow> match_loop \<Rightarrow> (match_loop \<times> outbox \<times> verdict \<times> bool) option" where
  "turn t ml = loop_tick (tn_now t) (tn_alive t) (tn_controls t) (tn_msgs t) ml"

fun play_turns :: "turn list \<Rightarrow> match_loop \<Rightarrow> (match_loop \<times> verdict) option" where
  "play_turns [] ml = Some (ml, Continue)"
| "play_turns (t # ts) ml =
     (case turn t ml of
        None \<Rightarrow> None
      | Some (ml', out, v, taken) \<Rightarrow> if v = Continue then play_turns ts ml' else Some (ml', v))"

lemma play_turns_append:
  "play_turns (ts @ us) ml =
     (case play_turns ts ml of None \<Rightarrow> None | Some (ml', v) \<Rightarrow> if v = Continue then play_turns us ml' else Some (ml', v))"
  by (induction ts ml rule: play_turns.induct) (auto split: option.splits)

subsection \<open>Pieces of a turn\<close>

lemma bout_input_tick: "bo_tick (snd (bout_input s i q b)) = bo_tick b" "bo_seed_a (snd (bout_input s i q b)) = bo_seed_a b"
  "bo_seed_b (snd (bout_input s i q b)) = bo_seed_b b" "bout_over (snd (bout_input s i q b)) = bout_over b"
  by (cases rule: bout_input_cases [of s i q b]; simp add: push_frame_def bout_over_def is_over_def upd_game_def; cases s; simp)+

lemma debug_grant_tick: "bo_tick (snd (debug_grant s w n b)) = bo_tick b" "bo_seed_a (snd (debug_grant s w n b)) = bo_seed_a b"
  "bo_seed_b (snd (debug_grant s w n b)) = bo_seed_b b" "bout_over (snd (debug_grant s w n b)) = bout_over b"
  by (cases s; simp add: debug_grant_steps grant_step_def funds_step_def push_frame_def bout_over_def is_over_def upd_game_def
      split: option.split)+

text \<open>A bout that only took inputs, grants, resets and drains: the clock, the seeds and the result stand.\<close>

definition onward :: "bout \<Rightarrow> bout \<Rightarrow> bool" where
  "onward b b' \<longleftrightarrow> (hosted TICK_MS b \<longrightarrow> hosted TICK_MS b') \<and> bo_tick b' = bo_tick b \<and> bo_seed_a b' = bo_seed_a b \<and>
     bo_seed_b b' = bo_seed_b b \<and> bout_over b' = bout_over b"

lemma onward_refl [simp]: "onward b b"
  by (simp add: onward_def)

lemma onward_trans [trans]: "onward b c \<Longrightarrow> onward c d \<Longrightarrow> onward b d"
  by (simp add: onward_def)

lemma onward_steps:
  "onward b (snd (bout_input s i q b))" "onward b (snd (debug_grant s w n b))" "onward b (reset_ack s b)"
  "onward b (snd (bout_take_dirty b))" "onward b (snd (take_events_for s b))"
  by (auto simp: onward_def bout_input_tick debug_grant_tick intro: hosted.intros)
    (simp_all add: reset_ack_def bout_over_def is_over_def bout_take_dirty_def take_dirty_def take_events_for_def take_outbox_def)

lemma apply_inputs_onward: "onward b (apply_inputs msgs b)"
proof (induction msgs arbitrary: b)
  case (Cons m msgs)
  obtain s i q where "m = (s, i, q)" by (cases m)
  then show ?case using onward_trans [OF onward_steps(1) Cons] by (simp add: apply_inputs_def)
qed (simp add: apply_inputs_def)

lemma resume_same [simp]:
  "ml_bout (fst (resume_both alive st)) = ml_bout (fst st)" "both_connected (fst (resume_both alive st)) = both_connected (fst st)"
  "ml_frame (fst (resume_both alive st)) = ml_frame (fst st)" "ml_match_id (fst (resume_both alive st)) = ml_match_id (fst st)"
  "ml_name (fst (resume_both alive st)) = ml_name (fst st)" "ml_human (fst (resume_both alive st)) = ml_human (fst st)"
  "ml_state (fst (resume_both alive st)) = ml_state (fst st)" "ml_id (fst (resume_both alive st)) = ml_id (fst st)"
  "ml_connected (fst (resume_both alive st)) = ml_connected (fst st)"
  by (auto simp: resume_both_def Let_def both_connected_def split: prod.split)

lemma resume_grace:
  "ml_grace (fst (resume_both alive st)) = (if both_connected (fst st) then None else ml_grace (fst st))"
  by (auto simp: resume_both_def Let_def split: prod.split)

text \<open>What a match is rated and recorded under never changes.\<close>

definition same_match :: "match_loop \<Rightarrow> match_loop \<Rightarrow> bool" where
  "same_match ml ml' \<longleftrightarrow> ml_match_id ml' = ml_match_id ml \<and> ml_name ml' = ml_name ml \<and> ml_state ml' = ml_state ml \<and>
     ml_human ml' = ml_human ml \<and> ml_seed ml' = ml_seed ml"

lemma same_match_refl [simp]: "same_match ml ml"
  by (simp add: same_match_def)

lemma same_match_trans [trans]: "same_match a b \<Longrightarrow> same_match b c \<Longrightarrow> same_match a c"
  by (simp add: same_match_def)

lemma resume_match [simp]: "same_match ml (fst (resume_both alive (ml, out)))"
  by (simp add: same_match_def resume_both_def Let_def)

text \<open>A side is away exactly while a deadline runs.\<close>

definition loop_ok :: "match_loop \<Rightarrow> bool" where
  "loop_ok ml \<longleftrightarrow> (both_connected ml \<longleftrightarrow> ml_grace ml = None) \<and> \<not> bout_over (ml_bout ml) \<and> hosted TICK_MS (ml_bout ml)"

lemma reattach_step:
  assumes "loop_ok ml" "reattach alive s k (ml, out) = (ml', out')"
  shows "loop_ok ml' \<and> onward (ml_bout ml) (ml_bout ml') \<and> same_match ml ml' \<and> ml_id ml' = (ml_id ml)(s := k) \<and>
    ml_connected ml' = (ml_connected ml)(s := True)"
proof -
  define mid where "mid = ml\<lparr>ml_id := (ml_id ml)(s := k), ml_connected := (ml_connected ml)(s := True), ml_bout := reset_ack s (ml_bout ml)\<rparr>"
  obtain out1 where "reattach alive s k (ml, out) = resume_both alive (mid, out1)"
    by (simp add: reattach_def Let_def mid_def)
  then have ml': "ml' = fst (resume_both alive (mid, out1))" using assms(2) by (metis fst_conv)
  have "onward (ml_bout ml) (ml_bout mid)" using onward_steps(3) by (simp add: mid_def)
  moreover have "ml_grace mid = ml_grace ml" "both_connected ml \<Longrightarrow> both_connected mid" "same_match ml mid"
    by (auto simp: mid_def both_connected_def same_match_def)
  ultimately show ?thesis
    using assms(1) same_match_trans [of ml mid ml'] unfolding loop_ok_def onward_def ml'
    by (auto simp: resume_grace mid_def)
qed

lemma control_steps:
  assumes "loop_ok ml" "fold (control_step now alive) cs (ml, out, fb) = (ml', out', fb')"
  shows "loop_ok ml' \<and> onward (ml_bout ml) (ml_bout ml') \<and> same_match ml ml' \<and> ml_frame ml' = ml_frame ml"
  using assms
proof (induction cs arbitrary: ml out fb)
  case (Cons c cs)
  obtain mid o1 f1 where c: "control_step now alive c (ml, out, fb) = (mid, o1, f1)" by (metis prod_cases3)
  have step: "loop_ok mid \<and> onward (ml_bout ml) (ml_bout mid) \<and> same_match ml mid \<and> ml_frame mid = ml_frame ml"
  proof (cases c)
    case (Reattach s k)
    obtain m2 o2 where r: "reattach alive s k (ml, out) = (m2, o2)" by fastforce
    have "ml_frame m2 = ml_frame ml"
    proof -
      have "ml_frame (fst (reattach alive s k (ml, out))) = ml_frame ml" by (simp add: reattach_def Let_def)
      then show ?thesis by (simp add: r)
    qed
    then show ?thesis using reattach_step [OF Cons.prems(1) r] c by (simp add: Reattach r)
  next
    case (Debug_grant s w n)
    have "onward (ml_bout ml) (snd (debug_grant s w n (ml_bout ml)))" by (rule onward_steps)
    then show ?thesis
      using c Cons.prems(1) by (auto simp: Debug_grant loop_ok_def both_connected_def onward_def same_match_def)
  qed (use c Cons.prems(1) in \<open>auto simp: loop_ok_def both_connected_def same_match_def Let_def split: prod.splits if_splits\<close>)
  show ?case using Cons.IH [of mid o1 f1] Cons.prems(2) step by (simp add: c) (metis onward_trans same_match_trans)
qed simp

subsection \<open>A frozen turn\<close>

lemma probe_same [simp]:
  "ml_bout (fst (probe alive s st)) = ml_bout (fst st)" "ml_grace (fst (probe alive s st)) = ml_grace (fst st)"
  "ml_frame (fst (probe alive s st)) = ml_frame (fst st)" "same_match ml (fst (probe alive s st)) = same_match ml (fst st)"
  "ml_id (fst (probe alive s st)) = ml_id (fst st)"
  by (auto simp: probe_def same_match_def split: prod.split)

lemma probe_connected: "ml_connected (fst (probe alive s st)) u \<Longrightarrow> ml_connected (fst st) u"
  by (auto simp: probe_def split: prod.splits if_splits)

definition past_deadline :: "nat \<Rightarrow> match_loop \<Rightarrow> bool" where
  "past_deadline now ml \<longleftrightarrow> (\<exists>d. ml_grace ml = Some d \<and> d \<le> now)"

definition present :: "match_loop \<Rightarrow> bool option" where
  "present ml = (case (ml_connected ml Side_A, ml_connected ml Side_B) of
     (True, False) \<Rightarrow> Some True | (False, True) \<Rightarrow> Some False | _ \<Rightarrow> None)"

lemma frozen_step:
  assumes "\<not> both_connected ml" "frozen_tick now alive (ml, out) = (ml', out', v)"
  shows "ml_bout ml' = ml_bout ml \<and> ml_grace ml' = ml_grace ml \<and> \<not> both_connected ml' \<and> same_match ml ml' \<and>
    (\<forall>s. ml_connected ml' s \<longrightarrow> ml_connected ml s) \<and> (past_deadline now ml \<longrightarrow> ml' = ml) \<and>
    v = (if past_deadline now ml then Break (present ml) else Continue)"
proof -
  have one: "\<exists>m o'. frozen_tick now alive (ml, out) = (m, o', v) \<and> ml_bout m = ml_bout ml \<and> ml_grace m = ml_grace ml \<and>
      same_match ml m \<and> (\<forall>s. ml_connected m s \<longrightarrow> ml_connected ml s) \<and> (past_deadline now ml \<longrightarrow> m = ml) \<and> v = (if past_deadline now ml then Break (present ml) else Continue)"
  proof (cases "past_deadline now ml")
    case True
    then show ?thesis using assms(2)
      by (auto simp: frozen_tick_def past_deadline_def present_def split: option.splits prod.splits bool.splits)
  next
    case False
    then have late: "\<not> (case ml_grace ml of Some d \<Rightarrow> now \<ge> d | None \<Rightarrow> False)"
      by (auto simp: past_deadline_def split: option.splits)
    obtain m o1 where m: "(if ml_frame ml mod 32 = 0 then probe alive Side_B (probe alive Side_A (ml, out)) else (ml, out)) = (m, o1)"
      by fastforce
    have f: "m = fst (if ml_frame ml mod 32 = 0 then probe alive Side_B (probe alive Side_A (ml, out)) else (ml, out))" by (simp add: m)
    have M: "ml_bout m = ml_bout ml \<and> ml_grace m = ml_grace ml \<and> same_match ml m \<and> (\<forall>s. ml_connected m s \<longrightarrow> ml_connected ml s)"
    proof (cases "ml_frame ml mod 32 = 0")
      case True
      have "ml_connected m s \<Longrightarrow> ml_connected ml s" for s
        using probe_connected [of alive Side_B "probe alive Side_A (ml, out)" s] probe_connected [of alive Side_A "(ml, out)" s]
        by (simp add: f True)
      then show ?thesis by (simp add: f True)
    qed (simp add: f)
    have "frozen_tick now alive (ml, out) = (m\<lparr>ml_frame := ml_frame m + 1\<rparr>, o1, Continue)"
      using m late by (simp add: frozen_tick_def)
    then show ?thesis using assms(2) False M by (simp add: same_match_def)
  qed
  then show ?thesis using assms by (auto simp: both_connected_def)
qed

subsection \<open>A playing turn\<close>

lemma forward_step:
  assumes "forward_events alive s (ml, out) = (ml', out')"
  shows "onward (ml_bout ml) (ml_bout ml') \<and> same_match ml ml' \<and> ml_grace ml' = ml_grace ml \<and> ml_connected ml' = ml_connected ml \<and>
    ml_id ml' = ml_id ml \<and> ml_frame ml' = ml_frame ml \<and> v_result (bo_versus (ml_bout ml')) = v_result (bo_versus (ml_bout ml)) \<and>
    (\<forall>u. v_game u (bo_versus (ml_bout ml')) = v_game u (bo_versus (ml_bout ml))) \<and> bo_frames (ml_bout ml') = bo_frames (ml_bout ml)"
proof (cases "ml_connected ml s")
  case True
  obtain es b where e: "take_events_for s (ml_bout ml) = (es, b)" by fastforce
  have "onward (ml_bout ml) b" using onward_steps(5) [of "ml_bout ml" s] by (simp add: e)
  moreover have "v_game u (bo_versus b) = v_game u (bo_versus (ml_bout ml))" for u
    using e by (cases u) (auto simp: take_events_for_def take_outbox_def v_game_def)
  ultimately show ?thesis using assms e True
    by (auto simp: forward_events_def same_match_def take_events_for_def take_outbox_def)
qed (use assms in \<open>auto simp: forward_events_def\<close>)

lemma by_side_simps [simp]: "by_side x y Side_A = x" "by_side x y Side_B = y"
  by (simp_all add: by_side_def)

lemma by_side_eq: "by_side x y = f \<longleftrightarrow> x = f Side_A \<and> y = f Side_B"
  by (metis by_side_simps ext side.exhaust)

lemma snapshots_step:
  assumes "send_snapshots now alive (ml, out) = (ml', out', v)" "both_connected ml" "ml_grace ml = None"
  shows "ml_bout ml' = ml_bout ml \<and> same_match ml ml' \<and> ml_id ml' = ml_id ml \<and>
    ml_connected ml' = (\<lambda>s. alive (ml_id ml s)) \<and>
    (if both_connected ml' then v = Continue \<and> ml_grace ml' = None
     else if \<exists>s. \<not> alive (ml_id ml s) \<and> ml_human ml s then v = Continue \<and> ml_grace ml' = Some (now + REJOIN_GRACE)
     else v = Break (Some (alive (ml_id ml Side_A))))"
proof -
  have all: "(\<exists>s. P s) \<longleftrightarrow> P Side_A \<or> P Side_B" for P :: "side \<Rightarrow> bool" by (metis side.exhaust)
  have st: "(ml', out', v) = send_snapshots now alive (ml, out)" by (simp add: assms(1))
  show ?thesis
    using st assms(3) unfolding all
    by (cases "alive (ml_id ml Side_A)"; cases "alive (ml_id ml Side_B)"; cases "ml_human ml Side_A"; cases "ml_human ml Side_B")
      (simp_all add: send_snapshots_def Let_def same_match_def both_connected_def by_side_eq)
qed

lemma stream_step:
  assumes "stream_spectators alive (ml, out) = (ml', out')"
  shows "ml_bout ml' = ml_bout ml \<and> same_match ml ml' \<and> ml_grace ml' = ml_grace ml \<and> ml_connected ml' = ml_connected ml"
  using assms by (auto simp: stream_spectators_def Let_def same_match_def split: if_splits)

lemma hosted_tick_returns:
  assumes "hosted dt b" obtains b' where "bout_tick dt b = Some b'"
proof -
  have "match_inv (bo_versus b)" using hosted_on_record [OF assms] by (auto simp: on_record_def tracked_def live_like_def)
  then obtain v where "versus_tick dt (bo_versus b) = Some v" using match_tick by (blast elim: returnsE)
  then show thesis using that by (simp add: bout_tick_def)
qed

text \<open>The same position and the same recording.\<close>

definition same_play :: "bout \<Rightarrow> bout \<Rightarrow> bool" where
  "same_play b b' \<longleftrightarrow> (\<forall>s. v_game s (bo_versus b') = v_game s (bo_versus b)) \<and> v_result (bo_versus b') = v_result (bo_versus b) \<and>
     bo_frames b' = bo_frames b \<and> bo_tick b' = bo_tick b \<and> bo_seed_a b' = bo_seed_a b \<and> bo_seed_b b' = bo_seed_b b"

lemma same_play_trans: "same_play b c \<Longrightarrow> same_play c d \<Longrightarrow> same_play b d"
  by (simp add: same_play_def)

lemma dirty_same_play: "bout_take_dirty b = (d, b') \<Longrightarrow> same_play b b' \<and> onward b b'"
proof
  assume d: "bout_take_dirty b = (d, b')"
  have "v_game s (bo_versus b') = v_game s (bo_versus b)" for s
    using d by (cases s) (auto simp: bout_take_dirty_def take_dirty_def v_game_def)
  then show "same_play b b'" using d by (auto simp: same_play_def bout_take_dirty_def take_dirty_def)
  show "onward b b'" using onward_steps(4) [of b] d by simp
qed

lemma forward_same_play: "forward_events alive s (ml, out) = (ml', out') \<Longrightarrow> same_play (ml_bout ml) (ml_bout ml')"
  using forward_step by (simp add: same_play_def onward_def)

lemma both_connected_all: "both_connected ml \<longleftrightarrow> (\<forall>s. ml_connected ml s)"
  by (metis (full_types) both_connected_def side.exhaust)

definition bots_only_lost :: "(conn \<Rightarrow> bool) \<Rightarrow> match_loop \<Rightarrow> bool" where
  "bots_only_lost alive ml \<longleftrightarrow> (\<exists>s. \<not> alive (ml_id ml s)) \<and> (\<forall>s. \<not> alive (ml_id ml s) \<longrightarrow> \<not> ml_human ml s)"

lemma play_step:
  assumes ok: "loop_ok ml" and con: "both_connected ml" and t: "unat (bo_tick (ml_bout ml)) + 1 < 2 ^ 32"
  obtains ml' out' v b where "play_tick now alive msgs (ml, out) = Some (ml', out', v)"
    "bout_tick TICK_MS (apply_inputs msgs (ml_bout ml)) = Some b" "same_play b (ml_bout ml')" "hosted TICK_MS (ml_bout ml')"
    "bo_tick b = bo_tick (ml_bout ml) + 1" "bo_seed_a b = bo_seed_a (ml_bout ml)" "bo_seed_b b = bo_seed_b (ml_bout ml)"
    "same_match ml ml'" "bout_over b \<Longrightarrow> v = Break (Some (v_result (bo_versus b) = 1))"
    "\<not> bout_over b \<Longrightarrow> v = Continue \<and> loop_ok ml' \<and> (\<forall>d. ml_grace ml' = Some d \<longrightarrow> d = now + REJOIN_GRACE) \<and>
       (ml_frame ml mod 2 = 0 \<longrightarrow> (\<forall>s. ml_connected ml' s = alive (ml_id ml s))) \<or>
       v = Break (Some (alive (ml_id ml Side_A))) \<and> bots_only_lost alive ml"
proof -
  let ?i = "apply_inputs msgs (ml_bout ml)"
  have i: "onward (ml_bout ml) ?i" by (rule apply_inputs_onward)
  have hi: "hosted TICK_MS ?i" and ti: "unat (bo_tick ?i) + 1 < 2 ^ 32" using ok t i by (simp_all add: loop_ok_def onward_def)
  obtain b where b: "bout_tick TICK_MS ?i = Some b" using hosted_tick_returns [OF hi] .
  have hb: "hosted TICK_MS b" using h_tick [OF hi ti b] .
  have tb: "bo_tick b = bo_tick (ml_bout ml) + 1" "bo_seed_a b = bo_seed_a (ml_bout ml)" "bo_seed_b b = bo_seed_b (ml_bout ml)"
    using bout_tick_record [OF hosted_on_record [OF hi] ti b] i by (simp_all add: onward_def)
  obtain dirty c where c: "bout_take_dirty b = (dirty, c)" by fastforce
  define m0 where "m0 = (let ml = ml\<lparr>ml_bout := c\<rparr> in if dirty then ml\<lparr>ml_want := (\<lambda>_. True)\<rparr> else ml)"
  obtain m1 o1 where m1: "forward_events alive Side_A (m0, out) = (m1, o1)" by fastforce
  obtain m2 o2 where m2: "forward_events alive Side_B (m1, o1) = (m2, o2)" by fastforce
  have m0: "ml_bout m0 = c" "same_match ml m0" "ml_grace m0 = None" "ml_id m0 = ml_id ml" "ml_connected m0 = ml_connected ml"
    "ml_frame m0 = ml_frame ml"
    using ok con by (simp_all add: m0_def same_match_def Let_def loop_ok_def)
  note f1 = forward_step [OF m1] and f2 = forward_step [OF m2]
  have play: "same_play b (ml_bout m2)"
    using dirty_same_play [OF c] forward_same_play [OF m1] forward_same_play [OF m2] m0(1) by (metis same_play_trans)
  have on: "onward b (ml_bout m2)" using dirty_same_play [OF c] f1 f2 m0(1) by (metis onward_trans)
  have M: "same_match ml m2" "ml_grace m2 = None" "ml_id m2 = ml_id ml" "both_connected m2" "ml_frame m2 = ml_frame ml"
    using f1 f2 m0 con by (simp_all add: both_connected_def same_match_def)
  have over: "bout_over (ml_bout m2) = bout_over b" using on by (simp add: onward_def)
  have h2: "hosted TICK_MS (ml_bout m2)" using on hb by (simp add: onward_def)
  have run: "play_tick now alive msgs (ml, out) = (if bout_over b then
        Some (m2, push_snapshot alive Side_B True True m2 (push_snapshot alive Side_A True True m2 o2),
          Break (Some (v_result (bo_versus (ml_bout m2)) = 1)))
      else (let (ml, out, verdict) = (if ml_frame m2 mod 2 = 0 then send_snapshots now alive (m2, o2) else (m2, o2, Continue))
           in if verdict \<noteq> Continue then Some (ml, out, verdict)
              else let (ml, out) = stream_spectators alive (ml, out)
                   in Some (ml\<lparr>ml_frame := ml_frame ml + 1\<rparr>, out, Continue)))"
    using over by (simp add: play_tick_def b c m0_def [unfolded Let_def, symmetric] m1 m2 Let_def)
  show thesis
  proof (cases "bout_over b")
    case True
    show thesis
      by (rule that [OF _ b play h2 tb M(1)]) (use True run play in \<open>auto simp: same_play_def\<close>)
  next
    case False
    obtain m3 o3 v where m3: "(if ml_frame m2 mod 2 = 0 then send_snapshots now alive (m2, o2) else (m2, o2, Continue)) = (m3, o3, v)"
      by (metis prod_cases3)
    have S: "ml_bout m3 = ml_bout m2 \<and> same_match m2 m3 \<and>
      (v = Continue \<and> (both_connected m3 \<longleftrightarrow> ml_grace m3 = None) \<and> (\<forall>d. ml_grace m3 = Some d \<longrightarrow> d = now + REJOIN_GRACE) \<and>
         (ml_frame ml mod 2 = 0 \<longrightarrow> (\<forall>s. ml_connected m3 s = alive (ml_id ml s))) \<or>
       v = Break (Some (alive (ml_id ml Side_A))) \<and> bots_only_lost alive ml)"
    proof (cases "ml_frame m2 mod 2 = 0")
      case True
      then have s: "send_snapshots now alive (m2, o2) = (m3, o3, v)" using m3 by simp
      note F = snapshots_step [OF s M(4,2)]
      have human: "ml_human m2 = ml_human ml" using M(1) by (simp add: same_match_def)
      have "bots_only_lost alive ml" if "\<not> both_connected m3" "\<not> (\<exists>s. \<not> alive (ml_id m2 s) \<and> ml_human m2 s)"
        using that F M(3) human by (auto simp: bots_only_lost_def both_connected_all)
      then show ?thesis using F M(3) by (auto split: if_splits)
    next
      case False
      then show ?thesis using m3 M(2,4,5) by auto
    qed
    show thesis
    proof (cases "v = Continue")
      case True
      obtain m4 o4 where m4: "stream_spectators alive (m3, o3) = (m4, o4)" by fastforce
      note G = stream_step [OF m4]
      have r: "play_tick now alive msgs (ml, out) = Some (m4\<lparr>ml_frame := ml_frame m4 + 1\<rparr>, o4, Continue)"
        using run False m3 True m4 by simp
      have "loop_ok (m4\<lparr>ml_frame := ml_frame m4 + 1\<rparr>)"
        using G S True h2 over False by (auto simp: loop_ok_def both_connected_def)
      moreover have "same_match ml (m4\<lparr>ml_frame := ml_frame m4 + 1\<rparr>)" using M(1) S G by (simp add: same_match_def)
      ultimately show thesis
        using that [OF r b _ _ tb] play h2 S G True False by simp
    next
      case brk: False
      have r: "play_tick now alive msgs (ml, out) = Some (m3, o3, v)" using run False m3 brk by simp
      show thesis
        by (rule that [OF r b _ _ tb]) (use play h2 S brk False M(1) same_match_trans in auto)
    qed
  qed
qed

subsection \<open>A turn\<close>

definition newest_forfeit :: "bout_control list \<Rightarrow> side option" where
  "newest_forfeit cs = fold (\<lambda>c f. case c of Forfeit s \<Rightarrow> Some s | _ \<Rightarrow> f) cs None"

lemma control_forfeit:
  "snd (snd (fold (control_step now alive) cs (ml, out, fb))) = fold (\<lambda>c f. case c of Forfeit s \<Rightarrow> Some s | _ \<Rightarrow> f) cs fb"
proof (induction cs arbitrary: ml out fb)
  case (Cons c cs)
  obtain m o1 f1 where c: "control_step now alive c (ml, out, fb) = (m, o1, f1)" by (metis prod_cases3)
  moreover have "f1 = (case c of Forfeit s \<Rightarrow> Some s | _ \<Rightarrow> fb)"
    using c by (cases c) (auto simp: Let_def split: prod.splits if_splits)
  ultimately show ?case using Cons by simp
qed simp

lemma control_grace:
  assumes "fold (control_step now alive) cs (ml, out, fb) = (ml', out', fb')" "ml_grace ml' = Some d"
  shows "ml_grace ml = Some d"
  using assms
proof (induction cs arbitrary: ml out fb)
  case (Cons c cs)
  obtain m o1 f1 where c: "control_step now alive c (ml, out, fb) = (m, o1, f1)" by (metis prod_cases3)
  then have m: "m = fst (control_step now alive c (ml, out, fb))" by simp
  have "ml_grace m = Some d" using Cons c by simp
  moreover have "ml_grace x = Some d \<Longrightarrow> ml_grace ml = Some d" if "reattach alive s k (ml, out) = (x, y)" for s k x y
  proof -
    have "x = fst (reattach alive s k (ml, out))" by (simp add: that)
    then show "ml_grace x = Some d \<Longrightarrow> ml_grace ml = Some d" by (simp add: reattach_def Let_def resume_grace split: if_splits)
  qed
  ultimately show ?case unfolding m
    by (cases c) (auto simp: Let_def split: prod.splits if_splits)
qed simp

text \<open>What a turn comes to, from the state \<open>mid\<close> in which its control messages leave the match.\<close>

definition frozen_turn :: "turn \<Rightarrow> match_loop \<Rightarrow> match_loop \<Rightarrow> verdict \<Rightarrow> bool" where
  "frozen_turn t mid m v \<longleftrightarrow> ml_bout m = ml_bout mid \<and> ml_grace m = ml_grace mid \<and> \<not> both_connected m \<and> same_match mid m \<and>
     (past_deadline (tn_now t) mid \<longrightarrow> m = mid) \<and> v = (if past_deadline (tn_now t) mid then Break (present mid) else Continue)"

definition played_turn :: "turn \<Rightarrow> match_loop \<Rightarrow> match_loop \<Rightarrow> verdict \<Rightarrow> bout \<Rightarrow> bool" where
  "played_turn t mid m v b \<longleftrightarrow>
     bout_tick TICK_MS (apply_inputs (tn_msgs t) (ml_bout mid)) = Some b \<and> same_play b (ml_bout m) \<and> hosted TICK_MS (ml_bout m) \<and>
     bo_tick b = bo_tick (ml_bout mid) + 1 \<and> bo_seed_a b = bo_seed_a (ml_bout mid) \<and> bo_seed_b b = bo_seed_b (ml_bout mid) \<and>
     same_match mid m \<and>
     (if bout_over b then v = Break (Some (v_result (bo_versus b) = 1))
      else v = Continue \<and> loop_ok m \<and> (\<forall>d. ml_grace m = Some d \<longrightarrow> d = tn_now t + REJOIN_GRACE) \<and>
          (ml_frame mid mod 2 = 0 \<longrightarrow> (\<forall>s. ml_connected m s = tn_alive t (ml_id mid s))) \<or>
        v = Break (Some (tn_alive t (ml_id mid Side_A))) \<and> bots_only_lost (tn_alive t) mid)"

lemma play_turn:
  assumes "loop_ok ml" "both_connected ml" "unat (bo_tick (ml_bout ml)) + 1 < 2 ^ 32"
  shows "\<exists>m out' v b. play_tick (tn_now t) (tn_alive t) (tn_msgs t) (ml, out) = Some (m, out', v) \<and> played_turn t ml m v b"
  by (rule play_step [OF assms, of "tn_now t" "tn_alive t" "tn_msgs t" out], unfold played_turn_def, intro exI conjI)
    (assumption+, simp_all)

lemma turn_cases:
  assumes ok: "loop_ok ml" and t: "unat (bo_tick (ml_bout ml)) + 1 < 2 ^ 32"
  obtains mid where "loop_ok mid" "same_match ml mid" "onward (ml_bout ml) (ml_bout mid)"
    "\<forall>d. ml_grace mid = Some d \<longrightarrow> ml_grace ml = Some d" "tn_controls t = [] \<longrightarrow> mid = ml"
    "(\<exists>s out. newest_forfeit (tn_controls t) = Some s \<and> turn t ml = Some (mid, out, Break (Some (s = Side_B)), False)) \<or>
     (\<exists>m out v. \<not> both_connected mid \<and> turn t ml = Some (m, out, v, False) \<and> frozen_turn t mid m v) \<or>
     (\<exists>m out v b. both_connected mid \<and> turn t ml = Some (m, out, v, True) \<and> played_turn t mid m v b)"
proof -
  obtain mid o1 fb where c: "fold (control_step (tn_now t) (tn_alive t)) (tn_controls t) (ml, [], None) = (mid, o1, fb)"
    by (metis prod_cases3)
  note C = control_steps [OF ok c]
  have fb: "fb = newest_forfeit (tn_controls t)"
    using control_forfeit [of "tn_now t" "tn_alive t" "tn_controls t" ml "[]" None] by (simp add: c newest_forfeit_def)
  show thesis
  proof (rule that [of mid])
    show "\<forall>d. ml_grace mid = Some d \<longrightarrow> ml_grace ml = Some d" using control_grace [OF c] by blast
    show "tn_controls t = [] \<longrightarrow> mid = ml" using c by auto
    show "(\<exists>s out. newest_forfeit (tn_controls t) = Some s \<and> turn t ml = Some (mid, out, Break (Some (s = Side_B)), False)) \<or>
     (\<exists>m out v. \<not> both_connected mid \<and> turn t ml = Some (m, out, v, False) \<and> frozen_turn t mid m v) \<or>
     (\<exists>m out v b. both_connected mid \<and> turn t ml = Some (m, out, v, True) \<and> played_turn t mid m v b)"
    proof (cases fb)
      case (Some s)
      then show ?thesis using fb by (simp add: turn_def loop_tick_def c)
    next
      case None
      show ?thesis
      proof (cases "both_connected mid")
        case False
        obtain m o2 v where f: "frozen_tick (tn_now t) (tn_alive t) (mid, o1) = (m, o2, v)" by (metis prod_cases3)
        then show ?thesis using frozen_step [OF False f] None False by (simp add: turn_def loop_tick_def c frozen_turn_def)
      next
        case True
        have "unat (bo_tick (ml_bout mid)) + 1 < 2 ^ 32" using t C by (simp add: onward_def)
        then obtain m o2 v b where
          "play_tick (tn_now t) (tn_alive t) (tn_msgs t) (mid, o1) = Some (m, o2, v)" "played_turn t mid m v b"
          using play_turn [OF _ True] C by blast
        then show ?thesis using None True by (auto simp: turn_def loop_tick_def c)
      qed
    qed
  qed (use C in auto)
qed

text \<open>
  The control messages that end a wait, and what the others do to the position: the administrator's grants.
\<close>

definition calls_back :: "bout_control \<Rightarrow> bool" where
  "calls_back c \<longleftrightarrow> (case c of Reattach _ _ \<Rightarrow> True | Forfeit _ \<Rightarrow> True | _ \<Rightarrow> False)"

definition granted_all :: "bout_control list \<Rightarrow> bout \<Rightarrow> bout" where
  "granted_all cs b = fold (\<lambda>c b. case c of Debug_grant s w n \<Rightarrow> snd (debug_grant s w n b) | _ \<Rightarrow> b) cs b"

lemma granted_all_append [simp]: "granted_all (xs @ ys) b = granted_all ys (granted_all xs b)"
  by (simp add: granted_all_def)

lemma idle_controls:
  assumes "\<forall>c \<in> set cs. \<not> calls_back c" "fold (control_step now alive) cs (ml, out, fb) = (ml', out', fb')"
  shows "ml_bout ml' = granted_all cs (ml_bout ml) \<and> ml_connected ml' = ml_connected ml \<and> ml_grace ml' = ml_grace ml \<and> fb' = fb"
  using assms
proof (induction cs arbitrary: ml out fb)
  case (Cons c cs)
  obtain m o1 f1 where c: "control_step now alive c (ml, out, fb) = (m, o1, f1)" by (metis prod_cases3)
  moreover have "ml_bout m = granted_all [c] (ml_bout ml) \<and> ml_connected m = ml_connected ml \<and> ml_grace m = ml_grace ml \<and> f1 = fb"
    using c Cons.prems(1) by (cases c) (auto simp: granted_all_def calls_back_def Let_def split: prod.splits if_splits)
  ultimately show ?case using Cons by (simp add: granted_all_def)
qed (simp add: granted_all_def)

lemma idle_frozen:
  assumes "loop_ok ml" "\<not> both_connected ml" "\<forall>c \<in> set (tn_controls t). \<not> calls_back c"
  obtains mid m out v where "turn t ml = Some (m, out, v, False)" "frozen_turn t mid m v" "loop_ok mid" "ml_grace mid = ml_grace ml"
    "ml_bout mid = granted_all (tn_controls t) (ml_bout ml)"
proof -
  obtain mid o1 fb where c: "fold (control_step (tn_now t) (tn_alive t)) (tn_controls t) (ml, [], None) = (mid, o1, fb)"
    by (metis prod_cases3)
  note I = idle_controls [OF assms(3) c]
  have away: "\<not> both_connected mid" using I assms(2) by (simp add: both_connected_def)
  obtain m o2 v where f: "frozen_tick (tn_now t) (tn_alive t) (mid, o1) = (m, o2, v)" by (metis prod_cases3)
  show thesis
  proof (rule that)
    show "turn t ml = Some (m, o2, v, False)" using I away by (simp add: turn_def loop_tick_def c f)
    show "frozen_turn t mid m v" using frozen_step [OF away f] by (simp add: frozen_turn_def)
  qed (use I control_steps [OF assms(1) c] in auto)
qed

lemma frozen_run:
  assumes "loop_ok m" "\<not> both_connected m" "ml_grace m = Some d" "\<forall>t \<in> set us. \<forall>c \<in> set (tn_controls t). \<not> calls_back c"
  shows "\<exists>m' v n. play_turns us m = Some (m', v) \<and> ml_bout m' = granted_all (concat (map tn_controls (take n us))) (ml_bout m) \<and>
      v = (if \<exists>t \<in> set us. d \<le> tn_now t then Break (present m') else Continue)"
  using assms
proof (induction us arbitrary: m)
  case (Cons t us)
  obtain mid m1 out v where t: "turn t m = Some (m1, out, v, False)" "frozen_turn t mid m1 v" "loop_ok mid" "ml_grace mid = ml_grace m"
    "ml_bout mid = granted_all (tn_controls t) (ml_bout m)"
    by (rule idle_frozen [OF Cons.prems(1,2), of t]) (use Cons.prems(4) in simp)
  have late: "past_deadline (tn_now t) mid \<longleftrightarrow> d \<le> tn_now t" using t(4) Cons.prems(3) by (simp add: past_deadline_def)
  show ?case
  proof (cases "d \<le> tn_now t")
    case True
    then show ?thesis using t late by (intro exI [of _ m1] exI [of _ v] exI [of _ 1]) (auto simp: frozen_turn_def)
  next
    case False
    have l: "loop_ok m1" "\<not> both_connected m1" "ml_grace m1 = Some d" "ml_bout m1 = ml_bout mid" "v = Continue"
      using t(2-4) False Cons.prems(3) late by (simp_all add: frozen_turn_def loop_ok_def)
    then obtain m' w n where "play_turns us m1 = Some (m', w)"
      "ml_bout m' = granted_all (concat (map tn_controls (take n us))) (ml_bout m1)"
      "w = (if \<exists>t \<in> set us. d \<le> tn_now t then Break (present m') else Continue)"
      using Cons.IH [OF l(1-3)] Cons.prems(4) by auto
    then show ?thesis using t(1,5) l(4,5) False by (intro exI [of _ m'] exI [of _ w] exI [of _ "Suc n"]) simp
  qed
qed (simp add: granted_all_def)

subsection \<open>Runs keep the match\<close>

definition kept :: "turn list \<Rightarrow> match_loop \<Rightarrow> match_loop \<Rightarrow> verdict \<Rightarrow> bool" where
  "kept ts ml m v \<longleftrightarrow> same_match ml m \<and> hosted TICK_MS (ml_bout m) \<and> bo_seed_a (ml_bout m) = bo_seed_a (ml_bout ml) \<and>
     bo_seed_b (ml_bout m) = bo_seed_b (ml_bout ml) \<and> unat (bo_tick (ml_bout m)) \<le> unat (bo_tick (ml_bout ml)) + length ts \<and>
     (v = Continue \<longrightarrow> loop_ok m \<and>
       (\<forall>d. ml_grace m = Some d \<longrightarrow> ml_grace ml = Some d \<or> (\<exists>t \<in> set ts. d = tn_now t + REJOIN_GRACE))) \<and>
     (bout_over (ml_bout m) \<longrightarrow> v = Break (Some (v_result (bo_versus (ml_bout m)) = 1)))"

lemma same_play_over: "same_play b c \<Longrightarrow> bout_over c = bout_over b \<and> v_result (bo_versus c) = v_result (bo_versus b)"
  by (simp add: same_play_def bout_over_def is_over_def)

lemma turn_kept:
  assumes ok: "loop_ok ml" and t: "unat (bo_tick (ml_bout ml)) + 1 < 2 ^ 32"
  obtains m out v taken where "turn t ml = Some (m, out, v, taken)" "kept [t] ml m v"
proof -
  obtain mid where mid: "loop_ok mid" "same_match ml mid" "onward (ml_bout ml) (ml_bout mid)"
    "\<forall>d. ml_grace mid = Some d \<longrightarrow> ml_grace ml = Some d" "tn_controls t = [] \<longrightarrow> mid = ml"
    and alt: "(\<exists>s out. newest_forfeit (tn_controls t) = Some s \<and> turn t ml = Some (mid, out, Break (Some (s = Side_B)), False)) \<or>
     (\<exists>m out v. \<not> both_connected mid \<and> turn t ml = Some (m, out, v, False) \<and> frozen_turn t mid m v) \<or>
     (\<exists>m out v b. both_connected mid \<and> turn t ml = Some (m, out, v, True) \<and> played_turn t mid m v b)"
    by (rule turn_cases [OF ok t, of t])
  have M: "bo_tick (ml_bout mid) = bo_tick (ml_bout ml)" "bo_seed_a (ml_bout mid) = bo_seed_a (ml_bout ml)"
    "bo_seed_b (ml_bout mid) = bo_seed_b (ml_bout ml)" "hosted TICK_MS (ml_bout mid)" "\<not> bout_over (ml_bout mid)"
    using mid(1,3) by (simp_all add: onward_def loop_ok_def)
  from alt consider (forfeit) s out where "turn t ml = Some (mid, out, Break (Some (s = Side_B)), False)"
    | (frozen) m out v where "\<not> both_connected mid" "turn t ml = Some (m, out, v, False)" "frozen_turn t mid m v"
    | (play) m out v b where "turn t ml = Some (m, out, v, True)" "played_turn t mid m v b"
    by blast
  then show thesis
  proof cases
    case forfeit
    show thesis by (rule that [OF forfeit]) (use mid M in \<open>simp add: kept_def\<close>)
  next
    case frozen
    have "same_match ml m" using mid(2) frozen(3) same_match_trans by (auto simp: frozen_turn_def)
    moreover have "loop_ok m" using mid(1) frozen(1,3) by (simp add: frozen_turn_def loop_ok_def)
    ultimately show thesis
      using that [OF frozen(2)] mid(4) M frozen(3) by (simp add: kept_def frozen_turn_def)
  next
    case play
    have "same_match ml m" using mid(2) play(2) same_match_trans by (auto simp: played_turn_def)
    moreover have sp: "same_play b (ml_bout m)" using play(2) by (simp add: played_turn_def)
    moreover have "unat (bo_tick (ml_bout m)) = unat (bo_tick (ml_bout ml)) + 1"
      using play(2) M(1) sp t by (simp add: played_turn_def same_play_def unat_word_ariths)
    ultimately have "kept [t] ml m v"
      using play(2) M same_play_over [OF sp] by (auto simp: kept_def played_turn_def same_play_def split: if_splits)
    then show thesis by (rule that [OF play(1)])
  qed
qed

lemma kept_trans:
  assumes "kept ts ml mid Continue" "kept us mid m v" shows "kept (ts @ us) ml m v"
  using assms same_match_trans [of ml mid m] unfolding kept_def by (auto 0 3)

lemma run_kept:
  assumes "loop_ok ml" "unat (bo_tick (ml_bout ml)) + length ts < 2 ^ 32"
  shows "\<exists>m v. play_turns ts ml = Some (m, v) \<and> kept ts ml m v"
  using assms
proof (induction ts arbitrary: ml)
  case Nil
  then show ?case by (auto simp: kept_def loop_ok_def)
next
  case (Cons t ts)
  have "unat (bo_tick (ml_bout ml)) + 1 < 2 ^ 32" using Cons.prems(2) by simp
  then obtain m out v taken where m: "turn t ml = Some (m, out, v, taken)" "kept [t] ml m v"
    by (rule turn_kept [OF Cons.prems(1)])
  show ?case
  proof (cases "v = Continue")
    case True
    then have "loop_ok m" "unat (bo_tick (ml_bout m)) + length ts < 2 ^ 32" using m(2) Cons.prems(2) by (auto simp: kept_def)
    then obtain m' v' where "play_turns ts m = Some (m', v')" "kept ts m m' v'" using Cons.IH by blast
    then show ?thesis using m True kept_trans [of "[t]" ml m ts m' v'] by simp
  next
    case False
    have "kept (t # ts) ml m v" using m(2) False by (simp add: kept_def)
    then show ?thesis using m(1) False by simp
  qed
qed

lemma loop_start:
  obtains ml where "loop_new pb = Some ml" "loop_ok ml" "bo_tick (ml_bout ml) = 0" "ml_grace ml = None"
    "bo_seed_a (ml_bout ml) = pb_seed pb Side_A" "bo_seed_b (ml_bout ml) = pb_seed pb Side_B"
    "ml_match_id ml = pb_match_id pb" "ml_name ml = pb_name pb" "ml_id ml = pb_id pb" "ml_state ml = pb_state pb" "ml_human ml = pb_human pb"
proof -
  obtain v where v: "versus_new (pb_seed pb Side_A) (pb_seed pb Side_B) = Some v" "v_result v = 0" by (rule played_new)
  then obtain b where b: "bout_new (pb_seed pb Side_A) (pb_seed pb Side_B) = Some b" "bo_versus b = v" "bo_tick b = 0"
    "bo_seed_a b = pb_seed pb Side_A" "bo_seed_b b = pb_seed pb Side_B" by (simp add: bout_new_def)
  have "hosted TICK_MS b" using h_new [OF b(1)] .
  then show thesis
    using b v(2) by (intro that) (auto simp: loop_new_def loop_ok_def both_connected_def bout_over_def is_over_def)
qed

subsection \<open>The first turn of a match\<close>

lemma empty_board_fits:
  "fst (move_to (construct k 5 0 d) (board_standard False) (5 - int (p_rot (construct k 5 0 d)) div 2) 0)"
  by (cases k) (hypsubst, code_simp)+

lemma new_game_falls:
  assumes "game_new seed = Some g"
  shows "g_phase g = Falling" "g_drop_accum g = 0" "g_drop_time g = 512" "g_weapons g = flags_new" "\<not> g_paused g" "\<not> g_in_bazaar g"
proof -
  obtain i m0 r0 m r kind die where c: "kind_from_id i = Some kind"
    "create pm_new (rng_new seed) 5 0 = Some (construct kind 5 0 die, m, r)"
    using assms
    by (auto simp: game_new_def start_game_def spawn_def game_fresh_def create_def Let_def bt_const split_beta elim!: bind_eq_SomeE)
  let ?p = "construct kind 5 0 die"
  obtain q where mv: "move_to ?p (board_standard False) (5 - int (p_rot ?p) div 2) 0 = (True, q)"
    using empty_board_fits [of kind die] by (metis (full_types) prod.collapse)
  show "g_phase g = Falling" "g_drop_accum g = 0" "g_drop_time g = 512" "g_weapons g = flags_new" "\<not> g_paused g" "\<not> g_in_bazaar g"
    using assms by (auto simp: game_new_def start_game_def spawn_def game_fresh_def bt_const Let_def c(2) mv)
qed

lemma new_game_waits: "game_new seed = Some g \<Longrightarrow> tick 16 g = Some (g\<lparr>g_drop_accum := 16\<rparr>)"
  using new_game_falls [of seed g]
  by (simp add: tick_def tick_weapons_def weapon_active_def Let_def drop_loop.simps)

lemma first_tick:
  assumes "versus_new x y = Some v" obtains v' where "versus_tick 16 v = Some v'" "v_result v' = 0"
proof -
  have g: "game_new x = Some (v_a v)" "game_new y = Some (v_b v)" "v_result v = 0"
    using assms by (auto simp: versus_new_def elim!: bind_eq_SomeE)
  have m: "match_inv v" using match_inv_new [OF assms] .
  obtain a b where t: "tick 16 (v_a v) = Some a" "tick 16 (v_b v) = Some b"
    "versus_tick 16 v = Some (relay (v\<lparr>v_a := a, v_b := b\<rparr>))" "safe (v\<lparr>v_a := a, v_b := b\<rparr>)"
    "\<And>s. informs (op_lines (v_game (other_side s) (v\<lparr>v_a := a, v_b := b\<rparr>)), False) (v_game s (v\<lparr>v_a := a, v_b := b\<rparr>))"
    by (rule versus_tick_law [OF m g(3) versus_new_fields(1,2) [OF assms], of 16]) blast
  have "g_phase a = Falling" "g_phase b = Falling"
    using t(1,2) new_game_waits [OF g(1)] new_game_waits [OF g(2)] new_game_falls(1) [OF g(1)] new_game_falls(1) [OF g(2)] by auto
  then have "v_result (relay (v\<lparr>v_a := a, v_b := b\<rparr>)) = 0" using relay_law(4) [OF t(4,5)] g(3) by simp
  then show thesis using that t(3) by blast
qed

subsection \<open>The promises\<close>

text \<open>
  C9. A match never stops its task: from its pairing on, whatever arrives in the two channels and whichever sockets fail,
  and for fewer than \<open>2 ^ 32\<close> turns, every turn returns. While the match goes on neither board has topped out and a deadline
  runs exactly while a side is away; when a board has topped out, the match has ended in that turn, with the engine's
  result.
\<close>

theorem host_never_stops:
  assumes "length ts < 2 ^ 32"
  shows "\<exists>ml m v. loop_new pb = Some ml \<and> play_turns ts ml = Some (m, v) \<and>
    (v = Continue \<longrightarrow> \<not> bout_over (ml_bout m) \<and> (both_connected m \<longleftrightarrow> ml_grace m = None)) \<and>
    (bout_over (ml_bout m) \<longrightarrow> v = Break (Some (v_result (bo_versus (ml_bout m)) = 1)))"
proof -
  obtain ml where ml: "loop_new pb = Some ml" "loop_ok ml" "bo_tick (ml_bout ml) = 0" by (rule loop_start)
  obtain m v where m: "play_turns ts ml = Some (m, v)" "kept ts ml m v" using run_kept [OF ml(2), of ts] ml(3) assms by auto
  then have "v = Continue \<longrightarrow> loop_ok m" "bout_over (ml_bout m) \<longrightarrow> v = Break (Some (v_result (bo_versus (ml_bout m)) = 1))"
    unfolding kept_def by blast+
  then show ?thesis using ml(1) m(1) by (intro exI [of _ ml] exI [of _ m] exI [of _ v]) (simp add: loop_ok_def)
qed

text \<open>A match of two named players.\<close>

definition small_pairing :: pending_bout where
  "small_pairing = \<lparr>pb_match_id = ''m1'', pb_id = by_side ''c1'' ''c2'', pb_seed = by_side 7 8, pb_name = by_side ''Ann'' ''Bob'',
     pb_state = (\<lambda>_. player_state_new (new_rating ts_params_default)), pb_human = (\<lambda>_. True)\<rparr>"

definition quiet_turn :: "nat \<Rightarrow> turn" where
  "quiet_turn now = \<lparr>tn_now = now, tn_alive = (\<lambda>_. True), tn_controls = [], tn_msgs = []\<rparr>"

text \<open>Bob's socket has gone, which the first turn with snapshots notices.\<close>

definition lost_turn :: "nat \<Rightarrow> turn" where
  "lost_turn now = (quiet_turn now)\<lparr>tn_alive := (\<lambda>k. k \<noteq> ''c2'')\<rparr>"

theorem host_never_stops_witness:
  "\<exists>ml m v. loop_new small_pairing = Some ml \<and> play_turns [quiet_turn 16, lost_turn 32, quiet_turn 48] ml = Some (m, v) \<and>
    (v = Continue \<longrightarrow> \<not> bout_over (ml_bout m))"
  using host_never_stops [of "[quiet_turn 16, lost_turn 32, quiet_turn 48]" small_pairing] by auto

text \<open>
  C8. A match waits for a lost player, but not for ever. While a side is away there is a deadline, twelve seconds
  after a turn that has been played. Until a player reattaches or resigns, the position stands still, whatever inputs arrive,
  except for what the administrator grants in the meantime; and the first turn at or after the deadline ends the
  match: for the side that is there, for nobody if neither is. (The match has run for less than 2 to the 32 turns.)
\<close>

theorem grace_ends:
  assumes "loop_new pb = Some ml" "play_turns ts ml = Some (m, Continue)" "\<not> both_connected m" "length ts < 2 ^ 32"
    and "\<forall>t \<in> set us. \<forall>c \<in> set (tn_controls t). \<not> calls_back c"
  shows "\<exists>d m' v n. ml_grace m = Some d \<and> (\<exists>t \<in> set ts. d = tn_now t + REJOIN_GRACE) \<and>
    play_turns us m = Some (m', v) \<and> ml_bout m' = granted_all (concat (map tn_controls (take n us))) (ml_bout m) \<and>
    v = (if \<exists>t \<in> set us. d \<le> tn_now t then Break (present m') else Continue)"
proof -
  obtain ml' where "loop_new pb = Some ml'" "loop_ok ml'" "bo_tick (ml_bout ml') = 0" "ml_grace ml' = None" by (rule loop_start)
  then have ml: "loop_ok ml" "bo_tick (ml_bout ml) = 0" "ml_grace ml = None" using assms(1) by simp_all
  have "kept ts ml m Continue" using run_kept [OF ml(1), of ts] assms(2,4) ml(2) by auto
  then have m: "loop_ok m" "\<forall>d. ml_grace m = Some d \<longrightarrow> (\<exists>t \<in> set ts. d = tn_now t + REJOIN_GRACE)"
    using ml(3) unfolding kept_def by simp_all
  obtain d where d: "ml_grace m = Some d" using m(1) assms(3) by (auto simp: loop_ok_def)
  show ?thesis using frozen_run [OF m(1) assms(3) d assms(5)] d m(2) by blast
qed

lemma by_side_seeds [simp]: "pb_seed small_pairing Side_A = 7" "pb_seed small_pairing Side_B = 8" "pb_human small_pairing s = True"
  "pb_id small_pairing = by_side ''c1'' ''c2''"
  by (simp_all add: small_pairing_def)

text \<open>After the first turn in which a socket fails, the match of two humans is frozen.\<close>

lemma first_loss:
  obtains ml m where "loop_new small_pairing = Some ml" "play_turns [lost_turn 32] ml = Some (m, Continue)" "\<not> both_connected m"
proof -
  obtain v where v: "versus_new 7 8 = Some v" by (rule played_new)
  then obtain b where b: "bout_new 7 8 = Some b" "bo_versus b = v" by (simp add: bout_new_def)
  obtain v' where v': "versus_tick 16 v = Some v'" "v_result v' = 0" using first_tick [OF v] .
  obtain ml where ml: "loop_new small_pairing = Some ml" "ml_bout ml = b" "ml_frame ml = 0" "both_connected ml" "ml_grace ml = None"
    "ml_id ml = by_side ''c1'' ''c2''" "ml_human ml = (\<lambda>_. True)" "loop_ok ml" "bo_tick (ml_bout ml) = 0"
  proof -
    obtain ml where l: "loop_new small_pairing = Some ml" "loop_ok ml" "bo_tick (ml_bout ml) = 0" by (rule loop_start)
    have "ml_bout ml = b" "ml_frame ml = 0" "both_connected ml" "ml_grace ml = None" "ml_id ml = by_side ''c1'' ''c2''" "ml_human ml = (\<lambda>_. True)"
      using l(1) b(1) by (auto simp: loop_new_def both_connected_def)
    then show thesis using that l by blast
  qed
  have "\<exists>m out' w c. play_tick 32 (\<lambda>k. k \<noteq> ''c2'') [] (ml, []) = Some (m, out', w) \<and> played_turn (lost_turn 32) ml m w c"
    using play_turn [OF ml(8,4), of "lost_turn 32" "[]"] ml(9) by (simp add: lost_turn_def quiet_turn_def)
  then obtain m out w c where p: "play_tick 32 (\<lambda>k. k \<noteq> ''c2'') [] (ml, []) = Some (m, out, w)" "played_turn (lost_turn 32) ml m w c"
    by blast
  have "bout_tick TICK_MS (ml_bout ml) = Some c"
    using p(2) by (simp add: played_turn_def lost_turn_def quiet_turn_def apply_inputs_def)
  then have "v_result (bo_versus c) = 0"
    using v'(2) by (auto simp: bout_tick_def ml(2) b(2) v'(1) TICK_MS_def)
  then have "\<not> bout_over c" by (simp add: bout_over_def is_over_def)
  moreover have "\<not> bots_only_lost k ml" for k using ml(7) by (auto simp: bots_only_lost_def)
  ultimately have w: "w = Continue" "\<forall>s. ml_connected m s = tn_alive (lost_turn 32) (ml_id ml s)"
    using p(2) ml(3) by (auto simp: played_turn_def)
  have t: "turn (lost_turn 32) ml = Some (m, out, w, True)"
    using p(1) ml(4) by (simp add: turn_def loop_tick_def lost_turn_def quiet_turn_def)
  have "\<not> both_connected m"
    using w(2) ml(6) by (auto simp: both_connected_def lost_turn_def quiet_turn_def)
  then show thesis using that [OF ml(1)] t w(1) by simp
qed

theorem grace_ends_witness:
  "\<exists>ml m d m' v. loop_new small_pairing = Some ml \<and> play_turns [lost_turn 32] ml = Some (m, Continue) \<and> ml_grace m = Some d \<and>
     play_turns [lost_turn 48, lost_turn 13000] m = Some (m', v) \<and> ml_bout m' = ml_bout m \<and> v = Break (present m')"
proof -
  obtain ml m where m: "loop_new small_pairing = Some ml" "play_turns [lost_turn 32] ml = Some (m, Continue)" "\<not> both_connected m"
    by (rule first_loss)
  have c: "\<forall>t \<in> set [lost_turn 48, lost_turn 13000]. \<forall>c \<in> set (tn_controls t). \<not> calls_back c" by (simp add: lost_turn_def quiet_turn_def)
  obtain d m' v n where d: "ml_grace m = Some d" "\<exists>t \<in> set [lost_turn 32]. d = tn_now t + REJOIN_GRACE"
    "play_turns [lost_turn 48, lost_turn 13000] m = Some (m', v)"
    "ml_bout m' = granted_all (concat (map tn_controls (take n [lost_turn 48, lost_turn 13000]))) (ml_bout m)"
    "v = (if \<exists>t \<in> set [lost_turn 48, lost_turn 13000]. d \<le> tn_now t then Break (present m') else Continue)"
    using grace_ends [OF m _ c] by (auto simp del: play_turns.simps)
  have none: "concat (map tn_controls (take n [lost_turn 48, lost_turn 13000])) = []"
    by (auto simp: lost_turn_def quiet_turn_def dest!: in_set_takeD)
  then have same: "ml_bout m' = ml_bout m" using d(4) unfolding none by (simp add: granted_all_def)
  have "d = 12032" using d(2) by (simp add: lost_turn_def quiet_turn_def REJOIN_GRACE_def)
  then have "v = Break (present m')" using d(5) by (simp add: lost_turn_def quiet_turn_def)
  then show ?thesis using m(1,2) d(1,3) same by blast
qed

subsection \<open>From the pairing to the recording\<close>

lemma derive_seed_bound: "unat (derive_seed w k) < 2 ^ 32"
proof -
  have "derive_seed w k = take_bit 32 (wd_hash w k)" by (simp add: derive_seed_def take_bit_eq_mask mask_eq_exp_minus_1)
  then show ?thesis using take_bit_nat_less_exp [of 32 "unat (wd_hash w k)"] by (simp add: unsigned_take_bit_eq)
qed

definition seeded :: "world \<Rightarrow> pending_bout option \<Rightarrow> bool" where
  "seeded w pbo \<longleftrightarrow> (\<forall>pb s. pbo = Some pb \<longrightarrow> pb_seed pb s = derive_seed w (pb_id pb s))"

lemma seeded_None [simp]: "seeded w None"
  by (simp add: seeded_def)

lemma start_bout_seeded: "seeded w (snd (start_bout w x y q a))"
  by (auto simp: start_bout_def Let_def seeded_def by_side_def split: option.split side.split)

lemma try_match_seeded: "seeded w (snd (try_match w k a))"
  using start_bout_seeded by (auto simp: try_match_def split: option.split)

lemma on_queue_seeded: "seeded w (snd (on_queue w k f a))"
  using try_match_seeded by (simp add: on_queue_def Let_def split_beta)

lemma on_available_seeded: "seeded w (snd (on_available w k f a))"
  using try_match_seeded by (simp add: on_available_def Let_def split_beta)

lemma on_challenge_accept_seeded: "seeded w (snd (on_challenge_accept w k f a))"
  using start_bout_seeded by (simp add: on_challenge_accept_def split: option.split)

lemma handle_message_seeded: "seeded w (snd (handle_message w k f a))"
  using on_queue_seeded on_available_seeded on_challenge_accept_seeded
  by (simp add: handle_message_def split_beta split: bool.split)

lemma lobby_step_seeded: "seeded w (snd (lobby_step w e a))"
  using on_queue_seeded on_available_seeded handle_message_seeded by (cases e) simp_all

lemma replay_same:
  "same_play b c \<Longrightarrow> bout_to_replay dt sha c = bout_to_replay dt sha b"
  by (simp add: bout_to_replay_def same_play_def)

text \<open>
  C1. Every match on the server can be watched again. For any match that the lobby opens, and after any turn in which it is
  played - whatever the two clients sent, whoever dropped out and came back, whatever the administrator granted - the
  recording that is archived for it is playable and plays back to the very position of the match: the same tick, the
  same result and, on both sides, the same game in every field but the event queue and the displayed figures of the opponent. If
  a board has topped out, the match has ended in that turn and the replay ends with the winner that is rated. (The match has
  run for less than 2 to the 32 turns.)
\<close>

theorem server_match_replays:
  assumes "lobby_step w e a = (a', Some pb)" "loop_new pb = Some ml" "play_turns ts ml = Some (m, Continue)"
    and "turn t m = Some (m', out, v, True)" "length ts + 1 < 2 ^ 32"
  shows "\<exists>p q. vp_new (bout_to_replay TICK_MS sha (ml_bout m')) = Some p \<and> vp_run_to_end p = Some q \<and>
    unat (vp_executed q) = unat (bo_tick (ml_bout m')) \<and> v_result (vp_versus q) = v_result (bo_versus (ml_bout m')) \<and>
    (\<forall>s. undressed (v_game s (vp_versus q)) = undressed (v_game s (bo_versus (ml_bout m')))) \<and>
    (bout_over (ml_bout m') \<longrightarrow> v = Break (Some (v_result (vp_versus q) = 1)))"
proof -
  have "seeded w (Some pb)" using lobby_step_seeded [of w e a] by (simp add: assms(1))
  then have seeds: "unat (pb_seed pb s) < 2 ^ 32" for s using derive_seed_bound by (simp add: seeded_def)
  obtain ml' where "loop_new pb = Some ml'" "loop_ok ml'" "bo_tick (ml_bout ml') = 0" "ml_grace ml' = None"
    "bo_seed_a (ml_bout ml') = pb_seed pb Side_A" "bo_seed_b (ml_bout ml') = pb_seed pb Side_B" by (rule loop_start)
  then have ml: "loop_ok ml" "bo_tick (ml_bout ml) = 0"
    "bo_seed_a (ml_bout ml) = pb_seed pb Side_A" "bo_seed_b (ml_bout ml) = pb_seed pb Side_B" using assms(2) by simp_all
  have "kept ts ml m Continue" using run_kept [OF ml(1), of ts] assms(3,5) ml(2) by auto
  then have m: "loop_ok m" "unat (bo_tick (ml_bout m)) + 1 < 2 ^ 32"
    "bo_seed_a (ml_bout m) = pb_seed pb Side_A" "bo_seed_b (ml_bout m) = pb_seed pb Side_B"
    using ml(2-4) assms(5) unfolding kept_def by simp_all
  obtain mid where mid: "loop_ok mid" "same_match m mid" "onward (ml_bout m) (ml_bout mid)"
    "\<forall>d. ml_grace mid = Some d \<longrightarrow> ml_grace m = Some d" "tn_controls t = [] \<longrightarrow> mid = m"
    and alt: "(\<exists>s out. newest_forfeit (tn_controls t) = Some s \<and> turn t m = Some (mid, out, Break (Some (s = Side_B)), False)) \<or>
     (\<exists>m1 out v. \<not> both_connected mid \<and> turn t m = Some (m1, out, v, False) \<and> frozen_turn t mid m1 v) \<or>
     (\<exists>m1 out v b. both_connected mid \<and> turn t m = Some (m1, out, v, True) \<and> played_turn t mid m1 v b)"
    by (rule turn_cases [OF m(1,2), of t])
  then obtain b where b: "played_turn t mid m' v b" using assms(4) by auto
  let ?i = "apply_inputs (tn_msgs t) (ml_bout mid)"
  have i: "onward (ml_bout mid) ?i" by (rule apply_inputs_onward)
  then have hosted: "hosted TICK_MS ?i" using mid(1) by (simp add: loop_ok_def onward_def)
  have rest: "unat (bo_tick ?i) + 1 < 2 ^ 32" "unat (bo_seed_a ?i) < 2 ^ 32" "unat (bo_seed_b ?i) < 2 ^ 32"
    using i mid(3) m(2-4) seeds by (simp_all add: onward_def)
  have t: "bout_tick TICK_MS ?i = Some b" and same: "same_play b (ml_bout m')" using b by (simp_all add: played_turn_def)
  note sp = same [unfolded same_play_def]
  obtain p q where pq: "vp_new (bout_to_replay TICK_MS sha b) = Some p" "vp_run_to_end p = Some q"
    "unat (vp_executed q) = unat (bo_tick b)" "v_result (vp_versus q) = v_result (bo_versus b)"
    "\<forall>s. undressed (v_game s (vp_versus q)) = undressed (v_game s (bo_versus b))"
    using bout_replays [OF hosted t rest, of sha] by blast
  have "bout_over (ml_bout m') \<longrightarrow> v = Break (Some (v_result (vp_versus q) = 1))"
    using b pq(4) same_play_over [OF same] by (auto simp: played_turn_def)
  then show ?thesis using pq sp replay_same [OF same, of TICK_MS sha] by auto
qed

theorem server_match_replays_witness:
  "\<exists>a' pb ml m out v p q. lobby_step small_world (Frame ''c1'' accept_frame) small_lobby = (a', Some pb) \<and> loop_new pb = Some ml \<and>
     turn (quiet_turn 16) ml = Some (m, out, v, True) \<and> vp_new (bout_to_replay TICK_MS ''dev'' (ml_bout m)) = Some p \<and>
     vp_run_to_end p = Some q \<and> v_result (vp_versus q) = v_result (bo_versus (ml_bout m))"
proof -
  obtain a' pb where s: "lobby_step small_world (Frame ''c1'' accept_frame) small_lobby = (a', Some pb)" using accept_opens by blast
  obtain ml where ml: "loop_new pb = Some ml" "loop_ok ml" "bo_tick (ml_bout ml) = 0" "ml_grace ml = None" by (rule loop_start)
  then have both: "both_connected ml" by (simp add: loop_ok_def)
  have "unat (bo_tick (ml_bout ml)) + 1 < 2 ^ 32" by (simp add: ml(3))
  from play_turn [OF ml(2) both this, of "quiet_turn 16" "[]"] obtain m out v
    where "play_tick 16 (\<lambda>_. True) [] (ml, []) = Some (m, out, v)" by (auto simp: quiet_turn_def)
  then have t: "turn (quiet_turn 16) ml = Some (m, out, v, True)" using both by (simp add: turn_def loop_tick_def quiet_turn_def)
  have "play_turns [] ml = Some (ml, Continue)" "length [] + 1 < (2 ^ 32 :: nat)" by simp_all
  from server_match_replays [OF s ml(1) this(1) t this(2), of "''dev''"] show ?thesis using s ml(1) t by blast
qed

end
