(* ===== verification/Server.thy ===== *)
theory Server
  imports LoopProps
begin

section \<open>The server as a whole\<close>

text \<open>
  The end of a match, under the lock, and the server as a transition system: an event of the lobby, a turn of one of
  the matches that run, and the end of a match that has its verdict, in any order. In every state that can be reached the
  lobby's books are sound, and each match is rated once.
\<close>

subsection \<open>The end of a match\<close>

lemma push_both_same [simp]:
  "ap_clients (push_both alive ml msg a) = ap_clients a" "ap_waiting (push_both alive ml msg a) = ap_waiting a"
  "ap_challenges (push_both alive ml msg a) = ap_challenges a" "ap_bouts (push_both alive ml msg a) = ap_bouts a"
  "ap_open (push_both alive ml msg a) = ap_open a" "ap_settled (push_both alive ml msg a) = ap_settled a"
  "ap_ratings (push_both alive ml msg a) = ap_ratings a" "ap_params (push_both alive ml msg a) = ap_params a"
  "ap_db (push_both alive ml msg a) = ap_db a" "ap_store (push_both alive ml msg a) = ap_store a"
  "ap_draining (push_both alive ml msg a) = ap_draining a" "client_of (push_both alive ml msg a) k = client_of a k"
  by (simp_all add: push_both_def log_out_def)

lemma store_rating_same [simp]:
  "ap_clients (store_rating n s a) = ap_clients a" "ap_waiting (store_rating n s a) = ap_waiting a"
  "ap_challenges (store_rating n s a) = ap_challenges a" "ap_bouts (store_rating n s a) = ap_bouts a"
  "ap_open (store_rating n s a) = ap_open a" "ap_settled (store_rating n s a) = ap_settled a"
  "ap_params (store_rating n s a) = ap_params a" "ap_db (store_rating n s a) = ap_db a"
  "ap_draining (store_rating n s a) = ap_draining a" "client_of (store_rating n s a) k = client_of a k"
  "ap_ratings (store_rating n s a) = AList.update n (rt_mu (ps_rating s), rt_sigma (ps_rating s), ps_experience s) (ap_ratings a)"
  by (simp_all add: store_rating_def client_of_def)

text \<open>What two players' states become, and the rows of the table.\<close>

definition rerated :: "world \<Rightarrow> ts2_params \<Rightarrow> match_loop \<Rightarrow> bool \<Rightarrow> player_state \<times> player_state" where
  "rerated w p ml a_won =
     rate_match (wd_libm w) (ml_state ml Side_A) (ml_state ml Side_B)
       \<lparr>mo_winner = (if a_won then Won_A else Won_B), mo_a_lines = bout_lines Side_A (ml_bout ml),
        mo_b_lines = bout_lines Side_B (ml_bout ml), mo_a_quit = False, mo_b_quit = False\<rparr> p"

definition row_of :: "player_state \<Rightarrow> rating_row" where
  "row_of s = (rt_mu (ps_rating s), rt_sigma (ps_rating s), ps_experience s)"

text \<open>The part of the lobby that a settlement and the books of a match leave alone.\<close>

definition station :: "client \<Rightarrow> _" where
  "station c = (cl_name c, cl_peer c, cl_bout c, cl_match_id c, cl_status c, cl_prev_status c, cl_is_bot c)"

definition books_only :: "app \<Rightarrow> app \<Rightarrow> bool" where
  "books_only a a' \<longleftrightarrow> ap_waiting a' = ap_waiting a \<and> ap_challenges a' = ap_challenges a \<and> ap_bouts a' = ap_bouts a \<and>
     ap_open a' = ap_open a \<and> ap_params a' = ap_params a \<and> ap_draining a' = ap_draining a \<and>
     map fst (ap_clients a') = map fst (ap_clients a) \<and>
     (\<forall>k. map_option station (client_of a' k) = map_option station (client_of a k))"

lemma books_only_refl [simp]: "books_only a a"
  by (simp add: books_only_def)

lemma books_only_trans [trans]: "books_only a b \<Longrightarrow> books_only b c \<Longrightarrow> books_only a c"
  by (simp add: books_only_def)

lemma books_only_same [simp]:
  "books_only a (send k msg b) = books_only a b" "books_only a (push_both alive ml msg b) = books_only a b"
  "books_only a (store_rating n s b) = books_only a b" "books_only a (b\<lparr>ap_settled := x\<rparr>) = books_only a b"
  "books_only a (b\<lparr>ap_db := d\<rparr>) = books_only a b" "books_only a (b\<lparr>ap_store := y\<rparr>) = books_only a b"
  "books_only a (maybe_broadcast_players b) = books_only a b"
  by (simp_all add: books_only_def)

lemma books_only_state: "books_only a (upd_client k (\<lambda>c. c\<lparr>cl_state := st\<rparr>) a)"
  by (simp add: books_only_def station_def [abs_def] option.map_comp comp_def)

lemma settle_effect:
  "books_only a (settle_bout w ml a_won a) \<and> ap_db (settle_bout w ml a_won a) = ap_db a \<and>
   (if ml_match_id ml \<in> set (ap_settled a) then settle_bout w ml a_won a = a
    else ap_settled (settle_bout w ml a_won a) = ml_match_id ml # ap_settled a \<and>
      ap_ratings (settle_bout w ml a_won a) =
        AList.update (ml_name ml Side_B) (row_of (snd (rerated w (ap_params a) ml a_won)))
          (AList.update (ml_name ml Side_A) (row_of (fst (rerated w (ap_params a) ml a_won))) (ap_ratings a)))"
proof (cases "ml_match_id ml \<in> set (ap_settled a)")
  case False
  obtain na nb where r: "rerated w (ap_params a) ml a_won = (na, nb)" by fastforce
  define b where "b = store_rating (ml_name ml Side_B) nb (store_rating (ml_name ml Side_A) na (a\<lparr>ap_settled := ml_match_id ml # ap_settled a\<rparr>))"
  define c where "c = upd_client (ml_id ml Side_B) (\<lambda>c. c\<lparr>cl_state := nb\<rparr>) (upd_client (ml_id ml Side_A) (\<lambda>c. c\<lparr>cl_state := na\<rparr>) b)"
  have s: "settle_bout w ml a_won a = send (ml_id ml Side_B) (rating_msg nb (\<not> a_won)) (send (ml_id ml Side_A) (rating_msg na a_won) c)"
    using False r by (simp add: settle_bout_def Let_def c_def b_def rerated_def)
  have "books_only b c" unfolding c_def by (rule books_only_trans [OF books_only_state books_only_state])
  moreover have "books_only a b" by (simp add: b_def)
  ultimately have "books_only a c" by (rule books_only_trans [rotated])
  then show ?thesis using False by (simp add: s c_def b_def r row_of_def)
qed (simp add: settle_bout_def)

lemma station_ok: "station c' = station c \<Longrightarrow> client_ok c' = client_ok c"
  by (simp add: station_def client_ok_def)

lemma books_only_some: assumes "books_only a a'" shows "(client_of a' k = None) = (client_of a k = None)"
proof -
  have "map_option station (client_of a' k) = map_option station (client_of a k)" using assms unfolding books_only_def by blast
  then show ?thesis by (cases "client_of a' k"; cases "client_of a k") simp_all
qed

lemma books_only_client:
  assumes "books_only a a'" "client_of a' k = Some c'" obtains c where "client_of a k = Some c" "station c = station c'"
proof (cases "client_of a k")
  case None
  then show ?thesis using assms books_only_some [OF assms(1), of k] by simp
next
  case (Some c)
  have "map_option station (client_of a' k) = map_option station (client_of a k)" using assms(1) unfolding books_only_def by blast
  then show ?thesis using that [OF Some] assms(2) Some by simp
qed

lemma books_only_ok:
  assumes "books_only a a'" "lobby_ok a" shows "lobby_ok a'"
proof (rule lobby_okI)
  have F: "map fst (ap_clients a') = map fst (ap_clients a)" "ap_waiting a' = ap_waiting a" "ap_challenges a' = ap_challenges a"
    using assms(1) by (simp_all add: books_only_def)
  show "distinct (map fst (ap_clients a'))" "distinct (ap_waiting a')" "distinct (map fst (ap_challenges a'))"
    using lobby_okD(1,3,5) [OF assms(2)] by (simp_all add: F)
  show "client_ok c" if "client_of a' k = Some c" for k c
    using books_only_client [OF assms(1) that] lobby_okD(2) [OF assms(2)] station_ok by metis
  show "client_of a' k \<noteq> None" if "k \<in> set (ap_waiting a')" for k
    using that lobby_okD(4) [OF assms(2)] books_only_some [OF assms(1)] by (simp add: F)
  show "client_of a' cid \<noteq> None \<and> client_of a' tid \<noteq> None \<and> cid \<noteq> tid" if "(cid, tid, t) \<in> set (ap_challenges a')" for cid tid t
    using lobby_okD(6) [OF assms(2), of cid tid t] that books_only_some [OF assms(1)] by (simp add: F)
qed

lemma record_books: "books_only a (record_bout_player_stats ml a_won b) = books_only a b"
  "ap_settled (record_bout_player_stats ml a_won b) = ap_settled b" "ap_ratings (record_bout_player_stats ml a_won b) = ap_ratings b"
  by (simp_all add: record_bout_player_stats_def record_side_def Let_def split: prod.split)

lemma store_write_books: "books_only a (store_write env alive ml rw b) = books_only a b"
  "ap_settled (store_write env alive ml rw b) = ap_settled b" "ap_ratings (store_write env alive ml rw b) = ap_ratings b"
  by (auto simp: store_write_def split: option.split replay_write.split)

lemma write_of_books:
  assumes "write_of w env ml outcome a = (rw, b)"
  shows "books_only a b \<and> ap_settled b = ap_settled a \<and> ap_ratings b = ap_ratings a \<and> ap_clients b = ap_clients a"
  using assms by (auto simp: write_of_def Let_def split: if_splits prod.splits)

text \<open>The state in which the two players are free again and the match is off the registry.\<close>

definition unbound :: "match_loop \<Rightarrow> app \<Rightarrow> app" where
  "unbound ml a = upd_client (ml_id ml Side_B) leave_bout (upd_client (ml_id ml Side_A) leave_bout
     (a\<lparr>ap_bouts := AList.delete (ml_match_id ml) (ap_bouts a)\<rparr>))"

lemma end_bout_effect:
  "\<exists>b. books_only (unbound ml a) b \<and> end_bout w env alive ml outcome a = b\<lparr>ap_open := removeAll (ml_match_id ml) (ap_open b)\<rparr> \<and>
     (case outcome of
        None \<Rightarrow> ap_settled b = ap_settled a \<and> ap_ratings b = ap_ratings a
      | Some a_won \<Rightarrow>
          if ml_match_id ml \<in> set (ap_settled a) then ap_settled b = ap_settled a \<and> ap_ratings b = ap_ratings a
          else ap_settled b = ml_match_id ml # ap_settled a \<and>
            ap_ratings b = AList.update (ml_name ml Side_B) (row_of (snd (rerated w (ap_params a) ml a_won)))
              (AList.update (ml_name ml Side_A) (row_of (fst (rerated w (ap_params a) ml a_won))) (ap_ratings a)))"
proof -
  obtain rw c where wr: "write_of w env ml outcome a = (rw, c)" by fastforce
  note W = write_of_books [OF wr]
  have u: "books_only (unbound ml a) (unbound ml c)" "ap_settled (unbound ml c) = ap_settled a" "ap_ratings (unbound ml c) = ap_ratings a"
    "ap_params (unbound ml c) = ap_params a"
    using W by (simp_all add: unbound_def books_only_def client_of_def)
  show ?thesis
  proof (cases outcome)
    case None
    then have "end_bout w env alive ml outcome a = (maybe_broadcast_players (unbound ml c))\<lparr>ap_open := removeAll (ml_match_id ml)
        (ap_open (maybe_broadcast_players (unbound ml c)))\<rparr>"
      by (simp add: end_bout_def wr [unfolded None] Let_def unbound_def)
    then show ?thesis using u None by (intro exI [of _ "maybe_broadcast_players (unbound ml c)"]) simp
  next
    case (Some a_won)
    define d where "d = (if bout_over (ml_bout ml) then unbound ml c else push_both alive ml Opponent_left (unbound ml c))"
    define e where "e = settle_bout w ml a_won d"
    define f where "f = maybe_broadcast_players (store_write env alive ml rw (record_bout_player_stats ml a_won e))"
    have run: "end_bout w env alive ml outcome a = f\<lparr>ap_open := removeAll (ml_match_id ml) (ap_open f)\<rparr>"
      by (simp add: end_bout_def wr [unfolded Some] Let_def unbound_def d_def e_def f_def Some)
    have d: "books_only (unbound ml a) d" "ap_settled d = ap_settled a" "ap_ratings d = ap_ratings a" "ap_params d = ap_params a"
      using u by (simp_all add: d_def books_only_def)
    note E = settle_effect [of d w ml a_won, folded e_def]
    have "books_only (unbound ml a) f" using d(1) E books_only_trans by (simp add: f_def store_write_books record_books)
    then show ?thesis
      using E d run by (intro exI [of _ f]) (simp add: Some f_def store_write_books record_books split: if_splits)
  qed
qed

lemma unbound_client:
  "client_of (unbound ml a) k = map_option
     (\<lambda>c. (if k = ml_id ml Side_B then leave_bout else id) ((if k = ml_id ml Side_A then leave_bout else id) c)) (client_of a k)"
  by (simp add: unbound_def option.map_comp comp_def option.map_ident)

lemma leave_ok: "client_ok (leave_bout c)" "cl_bout (leave_bout c) = None" "cl_peer (leave_bout c) = None"
  by (simp_all add: leave_bout_def client_ok_def)

lemma unbound_ok:
  assumes "lobby_ok a" shows "lobby_ok (unbound ml a)"
  unfolding unbound_def
  by (intro upd_client_ok leave_ok) (simp add: assms)

lemma end_bout_ok: "lobby_ok a \<Longrightarrow> lobby_ok (end_bout w env alive ml outcome a)"
  using end_bout_effect [of ml a w env alive outcome] books_only_ok unbound_ok by fastforce

lemma end_bout_registry:
  "ap_bouts (end_bout w env alive ml outcome a) = AList.delete (ml_match_id ml) (ap_bouts a)"
  "ap_open (end_bout w env alive ml outcome a) = removeAll (ml_match_id ml) (ap_open a)"
  "ml_match_id ml \<notin> set (ap_settled a) \<Longrightarrow>
     ap_settled (end_bout w env alive ml outcome a) = (if outcome = None then ap_settled a else ml_match_id ml # ap_settled a)"
proof -
  obtain b where b: "books_only (unbound ml a) b" "end_bout w env alive ml outcome a = b\<lparr>ap_open := removeAll (ml_match_id ml) (ap_open b)\<rparr>"
    and s: "case outcome of None \<Rightarrow> ap_settled b = ap_settled a \<and> ap_ratings b = ap_ratings a
      | Some a_won \<Rightarrow> if ml_match_id ml \<in> set (ap_settled a) then ap_settled b = ap_settled a \<and> ap_ratings b = ap_ratings a
          else ap_settled b = ml_match_id ml # ap_settled a \<and>
            ap_ratings b = AList.update (ml_name ml Side_B) (row_of (snd (rerated w (ap_params a) ml a_won)))
              (AList.update (ml_name ml Side_A) (row_of (fst (rerated w (ap_params a) ml a_won))) (ap_ratings a))"
    using end_bout_effect [of ml a w env alive outcome] by blast
  have u: "ap_bouts b = AList.delete (ml_match_id ml) (ap_bouts a)" "ap_open b = ap_open a"
    using b(1) by (simp_all add: books_only_def unbound_def)
  show "ap_bouts (end_bout w env alive ml outcome a) = AList.delete (ml_match_id ml) (ap_bouts a)"
    "ap_open (end_bout w env alive ml outcome a) = removeAll (ml_match_id ml) (ap_open a)" by (simp_all add: b(2) u)
  show "ap_settled (end_bout w env alive ml outcome a) = (if outcome = None then ap_settled a else ml_match_id ml # ap_settled a)"
    if "ml_match_id ml \<notin> set (ap_settled a)" using b(2) s that by (cases outcome) simp_all
qed

subsection \<open>Transitions\<close>

record server =
  sv_app :: app
  sv_loops :: "match_loop list"
  sv_ended :: "(match_loop \<times> bool option) list"
  sv_used :: "string list"

definition server_new :: "db \<Rightarrow> replay_store \<Rightarrow> (string \<times> rating_row) list \<Rightarrow> server" where
  "server_new d store ratings = \<lparr>sv_app = app_new d store ratings, sv_loops = [], sv_ended = [], sv_used = []\<rparr>"

text \<open>A turn takes what is in the match's channels, the inputs only while it plays.\<close>

definition meets :: "nat \<Rightarrow> (conn \<Rightarrow> bool) \<Rightarrow> app \<Rightarrow> match_loop \<Rightarrow> turn" where
  "meets now alive a ml =
     \<lparr>tn_now = now, tn_alive = alive, tn_controls = ap_controls a (ml_match_id ml), tn_msgs = ap_inputs a (ml_match_id ml)\<rparr>"

definition taken :: "string \<Rightarrow> bool \<Rightarrow> outbox \<Rightarrow> app \<Rightarrow> app" where
  "taken m inputs out a = log_out out
     (a\<lparr>ap_controls := (ap_controls a)(m := []), ap_inputs := (if inputs then (ap_inputs a)(m := []) else ap_inputs a)\<rparr>)"

inductive server_step :: "server \<Rightarrow> server \<Rightarrow> bool" where
  sv_event: "enabled e (sv_app S) \<Longrightarrow> lobby_step w e (sv_app S) = (a, None) \<Longrightarrow> server_step S (S\<lparr>sv_app := a\<rparr>)"
| sv_open: "enabled e (sv_app S) \<Longrightarrow> lobby_step w e (sv_app S) = (a, Some pb) \<Longrightarrow> wd_match_id w \<notin> set (sv_used S) \<Longrightarrow>
    loop_new pb = Some ml \<Longrightarrow>
    server_step S (S\<lparr>sv_app := a, sv_loops := ml # sv_loops S, sv_used := wd_match_id w # sv_used S\<rparr>)"
| sv_turn: "sv_loops S = xs @ ml # ys \<Longrightarrow> unat (bo_tick (ml_bout ml)) + 1 < 2 ^ 32 \<Longrightarrow>
    turn (meets now alive (sv_app S) ml) ml = Some (ml', out, Continue, inputs) \<Longrightarrow>
    server_step S (S\<lparr>sv_app := taken (ml_match_id ml) inputs out (sv_app S), sv_loops := xs @ ml' # ys\<rparr>)"
| sv_verdict: "sv_loops S = xs @ ml # ys \<Longrightarrow> unat (bo_tick (ml_bout ml)) + 1 < 2 ^ 32 \<Longrightarrow>
    turn (meets now alive (sv_app S) ml) ml = Some (ml', out, Break outcome, inputs) \<Longrightarrow>
    server_step S (S\<lparr>sv_app := taken (ml_match_id ml) inputs out (sv_app S), sv_loops := xs @ ys,
      sv_ended := (ml', outcome) # sv_ended S\<rparr>)"
| sv_end: "sv_ended S = xs @ (ml, outcome) # ys \<Longrightarrow>
    server_step S (S\<lparr>sv_app := end_bout w env alive ml outcome (sv_app S), sv_ended := xs @ ys\<rparr>)"

inductive serves :: "server \<Rightarrow> bool" where
  sv_start: "serves (server_new d store ratings)"
| sv_step: "serves S \<Longrightarrow> server_step S S' \<Longrightarrow> serves S'"

subsection \<open>What holds in every state\<close>

definition live_ids :: "server \<Rightarrow> string list" where
  "live_ids S = map ml_match_id (sv_loops S) @ map (\<lambda>(ml, _). ml_match_id ml) (sv_ended S)"

definition server_ok :: "server \<Rightarrow> bool" where
  "server_ok S \<longleftrightarrow> lobby_ok (sv_app S) \<and> distinct (live_ids S) \<and> set (live_ids S) \<subseteq> set (sv_used S) \<and>
     distinct (map fst (ap_bouts (sv_app S))) \<and> set (map fst (ap_bouts (sv_app S))) = set (live_ids S) \<and>
     set (ap_open (sv_app S)) = set (live_ids S) \<and>
     distinct (ap_settled (sv_app S)) \<and> set (ap_settled (sv_app S)) \<subseteq> set (sv_used S) \<and>
     set (ap_settled (sv_app S)) \<inter> set (live_ids S) = {} \<and>
     (\<forall>ml \<in> set (sv_loops S). loop_ok ml) \<and>
     (\<forall>(ml, outcome) \<in> set (sv_ended S). bout_over (ml_bout ml) \<longrightarrow> outcome = Some (v_result (bo_versus (ml_bout ml)) = 1))"

lemma taken_same [simp]:
  "ap_clients (taken m i out a) = ap_clients a" "ap_waiting (taken m i out a) = ap_waiting a"
  "ap_challenges (taken m i out a) = ap_challenges a" "ap_bouts (taken m i out a) = ap_bouts a"
  "ap_open (taken m i out a) = ap_open a" "ap_settled (taken m i out a) = ap_settled a" "ap_ratings (taken m i out a) = ap_ratings a"
  by (simp_all add: taken_def log_out_def)

lemma taken_ok: "lobby_ok (taken m i out a) = lobby_ok a"
  by (rule lobby_ok_cong) simp_all

lemma server_new_ok: "server_ok (server_new d store ratings)"
  by (simp add: server_ok_def server_new_def app_new_def live_ids_def lobby_ok_def client_of_def)

lemma loop_new_id: "loop_new pb = Some ml \<Longrightarrow> ml_match_id ml = pb_match_id pb \<and> loop_ok ml"
  by (rule loop_start [of pb]) simp

lemma turn_keeps:
  assumes "loop_ok ml" "unat (bo_tick (ml_bout ml)) + 1 < 2 ^ 32" "turn t ml = Some (m, out, v, inputs)"
  shows "kept [t] ml m v"
proof -
  obtain m' out' v' i' where "turn t ml = Some (m', out', v', i')" "kept [t] ml m' v'" using turn_kept [OF assms(1,2)] .
  then show ?thesis using assms(3) by simp
qed

lemma server_step_ok:
  assumes "server_step S S'" "server_ok S" shows "server_ok S'"
  using assms
proof (induction rule: server_step.induct)
  case (sv_event e S w a)
  have "lobby_ok a \<and> same_registry (sv_app S) a"
    using lobby_step_effect [OF _ sv_event(1,2)] sv_event(3) by (simp add: server_ok_def)
  then show ?case using sv_event(3) by (simp add: server_ok_def live_ids_def same_registry_def)
next
  case (sv_open e S w a pb ml)
  have o1: "lobby_ok a" "opens w (sv_app S) a pb"
    using lobby_step_effect [OF _ sv_open(1,2)] sv_open(5) by (simp_all add: server_ok_def)
  have ml: "ml_match_id ml = wd_match_id w" "loop_ok ml" using loop_new_id [OF sv_open(4)] o1(2) by (simp_all add: opens_def)
  let ?S = "S\<lparr>sv_app := a, sv_loops := ml # sv_loops S, sv_used := wd_match_id w # sv_used S\<rparr>"
  have live: "live_ids ?S = wd_match_id w # live_ids S" by (simp add: live_ids_def ml(1))
  have new: "wd_match_id w \<notin> set (live_ids S)" "wd_match_id w \<notin> set (ap_settled (sv_app S))"
    using sv_open(3,5) unfolding server_ok_def by blast+
  have A: "\<exists>h. ap_bouts a = AList.update (wd_match_id w) h (ap_bouts (sv_app S))" "ap_open a = wd_match_id w # ap_open (sv_app S)"
    "ap_settled a = ap_settled (sv_app S)" using o1(2) by (auto simp: opens_def)
  obtain h where h: "ap_bouts a = AList.update (wd_match_id w) h (ap_bouts (sv_app S))" using A(1) by blast
  have keys: "distinct (map fst (ap_bouts a)) \<and> set (map fst (ap_bouts a)) = insert (wd_match_id w) (set (live_ids S))"
    using sv_open(5) unfolding server_ok_def h by (auto simp: AList.distinct_update update_keys)
  note ok = sv_open(5) [unfolded server_ok_def]
  have used: "set (live_ids S) \<subseteq> set (sv_used S)" "set (ap_settled (sv_app S)) \<subseteq> set (sv_used S)"
    "distinct (live_ids S)" "set (ap_open (sv_app S)) = set (live_ids S)" "distinct (ap_settled (sv_app S))"
    "set (ap_settled (sv_app S)) \<inter> set (live_ids S) = {}" "\<forall>ml \<in> set (sv_loops S). loop_ok ml"
    and ended: "\<forall>(ml, outcome) \<in> set (sv_ended S). bout_over (ml_bout ml) \<longrightarrow> outcome = Some (v_result (bo_versus (ml_bout ml)) = 1)"
    using ok by simp_all
  show ?case unfolding server_ok_def live
  proof (intro conjI)
    show "set (wd_match_id w # live_ids S) \<subseteq> set (sv_used ?S)" using used(1) by auto
    show "set (ap_settled (sv_app ?S)) \<subseteq> set (sv_used ?S)" using used(2) by (auto simp: A(3))
    show "\<forall>(ml, outcome) \<in> set (sv_ended ?S). bout_over (ml_bout ml) \<longrightarrow> outcome = Some (v_result (bo_versus (ml_bout ml)) = 1)"
      using ended by simp
  qed (use used(3-) new ml(2) o1(1) keys in \<open>simp_all add: A(2,3)\<close>)
next
  case (sv_turn S xs ml ys now alive ml' out inputs)
  have "loop_ok ml" using sv_turn(1,4) by (simp add: server_ok_def)
  then have "kept [meets now alive (sv_app S) ml] ml ml' Continue"
    by (rule turn_keeps [OF _ sv_turn(2,3)])
  then have "ml_match_id ml' = ml_match_id ml" "loop_ok ml'" by (simp_all add: kept_def same_match_def)
  then show ?case using sv_turn(1,4) by (auto simp: server_ok_def live_ids_def taken_ok)
next
  case (sv_verdict S xs ml ys now alive ml' out outcome inputs)
  have "loop_ok ml" using sv_verdict(1,4) by (simp add: server_ok_def)
  then have "kept [meets now alive (sv_app S) ml] ml ml' (Break outcome)"
    by (rule turn_keeps [OF _ sv_verdict(2,3)])
  then have "ml_match_id ml' = ml_match_id ml"
    "bout_over (ml_bout ml') \<longrightarrow> outcome = Some (v_result (bo_versus (ml_bout ml')) = 1)" by (simp_all add: kept_def same_match_def)
  then show ?case using sv_verdict(1,4) by (auto simp: server_ok_def live_ids_def taken_ok)
next
  case (sv_end S xs ml outcome ys w env alive)
  have "ml_match_id ml \<in> set (live_ids S)" using sv_end(1) by (simp add: live_ids_def)
  then have n: "ml_match_id ml \<notin> set (ap_settled (sv_app S))" "ml_match_id ml \<in> set (sv_used S)"
    using sv_end(2) by (auto simp: server_ok_def)
  show ?case
    using sv_end n by (auto simp: server_ok_def live_ids_def end_bout_registry end_bout_ok delete_keys distinct_removeAll)
qed

lemma serves_ok: "serves S \<Longrightarrow> server_ok S"
  by (induction rule: serves.induct) (use server_new_ok server_step_ok in blast)+

subsection \<open>Ratings change at the end of a match only\<close>

lemma on_rejoin_ratings [simp]: "ap_ratings (on_rejoin w k f a) = ap_ratings a"
  by (simp add: on_rejoin_def Let_def split_beta split: option.split)

lemma admin_grant_ratings [simp]: "ap_ratings (snd (admin_grant authed body a)) = ap_ratings a"
proof -
  have "ap_ratings b = ap_ratings a" if "try_control m ctrl a = (sent, b)" for m ctrl sent b
    using control_same(4) [of m ctrl a] by (simp add: that)
  then show ?thesis by (auto simp: admin_grant_def Let_def split: option.split prod.split bool.split)
qed

lemma drop_client_ratings [simp]: "ap_ratings (drop_client k now a) = ap_ratings a"
  by (simp add: drop_client_def Let_def)

lemma fold_decline_ratings [simp]: "ap_ratings (fold (decline_for by_name) cids a) = ap_ratings a"
  by (induction cids arbitrary: a) (simp_all add: decline_for_def)

lemma disconnect_ratings: "ap_ratings (disconnect k now a) = ap_ratings a"
proof -
  have peer: "ap_ratings (case p of Some j \<Rightarrow> if c then b else upd_client j f (send j msg b) | None \<Rightarrow> b) = ap_ratings b" for p c b f msg
    by (simp split: option.split)
  show ?thesis unfolding disconnect_def Let_def drop_client_ratings peer by simp
qed

lemma effect_ratings: "effect w a (b, pbo) \<Longrightarrow> ap_ratings b = ap_ratings a"
  by (auto simp: effect_def calm_def opens_def split: option.splits)

lemma lobby_step_ratings:
  assumes ok: "lobby_ok a" and en: "enabled e a" and s: "lobby_step w e a = (b, pbo)"
  shows "ap_ratings b = ap_ratings a"
proof (cases e)
  case (Frame k f)
  show ?thesis
  proof (cases "cf_type f = Some ''rejoin''")
    case True
    then show ?thesis using s by (auto simp: Frame handle_message_def on_rejoin_ratings)
  next
    case False
    then show ?thesis using handle_message_effect [OF ok _ False, of k w] en s effect_ratings by (auto simp: Frame)
  qed
next
  case (Timer t)
  then show ?thesis using s by (cases t) (auto simp: challenge_timeout_def Let_def split: if_splits)
next
  case (Grant authed body)
  then show ?thesis using s by auto
next
  case (Late_queue k f)
  then show ?thesis using on_queue_effect [OF ok, of k w f] en s effect_ratings [of w a b pbo] by simp
next
  case (Late_available k f)
  then show ?thesis using on_available_effect [OF ok, of k w f] en s effect_ratings [of w a b pbo] by simp
next
  case (Late_challenge k f)
  then show ?thesis using on_challenge_effect [OF ok, of k w f] en s effect_ratings [of w a b pbo] by simp
qed (use s ok in \<open>auto simp: connect_def ping_sent_def on_pong_def disconnect_ratings admin_drain_def admin_resume_def split: if_splits\<close>)

lemma end_bout_ratings:
  assumes "ml_match_id ml \<notin> set (ap_settled a)"
  shows "ap_ratings (end_bout w env alive ml outcome a) =
    (case outcome of None \<Rightarrow> ap_ratings a
     | Some a_won \<Rightarrow> AList.update (ml_name ml Side_B) (row_of (snd (rerated w (ap_params a) ml a_won)))
         (AList.update (ml_name ml Side_A) (row_of (fst (rerated w (ap_params a) ml a_won))) (ap_ratings a)))"
proof -
  obtain b where b: "end_bout w env alive ml outcome a = b\<lparr>ap_open := removeAll (ml_match_id ml) (ap_open b)\<rparr>"
    and s: "case outcome of None \<Rightarrow> ap_settled b = ap_settled a \<and> ap_ratings b = ap_ratings a
      | Some a_won \<Rightarrow> if ml_match_id ml \<in> set (ap_settled a) then ap_settled b = ap_settled a \<and> ap_ratings b = ap_ratings a
          else ap_settled b = ml_match_id ml # ap_settled a \<and>
            ap_ratings b = AList.update (ml_name ml Side_B) (row_of (snd (rerated w (ap_params a) ml a_won)))
              (AList.update (ml_name ml Side_A) (row_of (fst (rerated w (ap_params a) ml a_won))) (ap_ratings a))"
    using end_bout_effect [of ml a w env alive outcome] by blast
  then show ?thesis using assms by (cases outcome) simp_all
qed

text \<open>
  C7. In every state that the server can reach the lobby's books are sound: client ids, queue and challenges are without
  duplicates and refer to connected clients, a client in a match is shown as in a game and only such a client has a peer; the
  registry names exactly the matches that run or wait to be ended, each once, with an open control channel; no match that is
  still alive has been rated; every match that runs is undecided, with a deadline iff a side is away.
\<close>

theorem server_books_sound:
  assumes "serves S"
  shows "lobby_ok (sv_app S) \<and> distinct (live_ids S) \<and> distinct (map fst (ap_bouts (sv_app S))) \<and>
    set (map fst (ap_bouts (sv_app S))) = set (live_ids S) \<and> set (ap_open (sv_app S)) = set (live_ids S) \<and>
    distinct (ap_settled (sv_app S)) \<and> set (ap_settled (sv_app S)) \<inter> set (live_ids S) = {} \<and>
    (\<forall>ml \<in> set (sv_loops S). \<not> bout_over (ml_bout ml) \<and> (both_connected ml \<longleftrightarrow> ml_grace ml = None))"
  using serves_ok [OF assms] by (simp add: server_ok_def loop_ok_def)

text \<open>
  C2. A match is rated once, and nothing else changes a rating. A step of the server either leaves every rating and the
  list of rated matches as they are, or it ends a match with a verdict that has not been rated before: then it is listed as
  rated and gone for good, the two names have the ratings that the rating system gives them for this winner and these
  lines, computed from their ratings at the pairing, nobody else's rating changes, and the verdict of a match that
  was played out is the engine's result.
\<close>

theorem match_rated_once:
  assumes "serves S" "server_step S S'"
  shows "(ap_settled (sv_app S') = ap_settled (sv_app S) \<and> ap_ratings (sv_app S') = ap_ratings (sv_app S)) \<or>
    (\<exists>ml a_won w. (ml, Some a_won) \<in> set (sv_ended S) \<and> ml_match_id ml \<notin> set (ap_settled (sv_app S)) \<and>
       ap_settled (sv_app S') = ml_match_id ml # ap_settled (sv_app S) \<and> ml_match_id ml \<notin> set (live_ids S') \<and>
       ap_ratings (sv_app S') =
         AList.update (ml_name ml Side_B) (row_of (snd (rerated w (ap_params (sv_app S)) ml a_won)))
           (AList.update (ml_name ml Side_A) (row_of (fst (rerated w (ap_params (sv_app S)) ml a_won))) (ap_ratings (sv_app S))) \<and>
       (bout_over (ml_bout ml) \<longrightarrow> a_won = (v_result (bo_versus (ml_bout ml)) = 1)))"
proof -
  have ok: "server_ok S" and ok': "server_ok S'" using serves_ok assms sv_step by blast+
  then have l: "lobby_ok (sv_app S)" by (simp add: server_ok_def)
  show ?thesis using assms(2)
  proof cases
    case (sv_event e w a)
    have "ap_settled a = ap_settled (sv_app S)" using lobby_step_effect [OF l sv_event(2,3)] by (simp add: same_registry_def)
    then show ?thesis using lobby_step_ratings [OF l sv_event(2,3)] sv_event(1) by simp
  next
    case (sv_open e w a pb ml)
    have "ap_settled a = ap_settled (sv_app S)" using lobby_step_effect [OF l sv_open(2,3)] by (simp add: opens_def)
    then show ?thesis using lobby_step_ratings [OF l sv_open(2,3)] sv_open(1) by simp
  next
    case (sv_end xs ml outcome ys w env alive)
    have live: "ml_match_id ml \<in> set (live_ids S)" using sv_end(2) by (simp add: live_ids_def)
    have new: "ml_match_id ml \<notin> set (ap_settled (sv_app S))" using ok live by (auto simp: server_ok_def)
    have app: "sv_app S' = end_bout w env alive ml outcome (sv_app S)" using sv_end(1) by simp
    note R = end_bout_registry(3) [OF new, of w env alive outcome] end_bout_ratings [OF new, of w env alive outcome]
    show ?thesis
    proof (cases outcome)
      case None
      then show ?thesis using R by (simp add: app)
    next
      case (Some a_won)
      have "ml_match_id ml \<notin> set (live_ids S')" using ok' R(1) Some by (auto simp: server_ok_def app)
      moreover have "(ml, Some a_won) \<in> set (sv_ended S)" using sv_end(2) Some by simp
      moreover from this have "bout_over (ml_bout ml) \<longrightarrow> a_won = (v_result (bo_versus (ml_bout ml)) = 1)"
        using ok unfolding server_ok_def by fastforce
      ultimately show ?thesis using R new unfolding app Some by (intro disjI2) auto
    qed
  qed simp_all
qed

text \<open>
  C12. The end of a match frees its players and nobody else: whoever is connected on either side then is in no match and
  has no peer, and a named one is listed as available or not at all; every other client keeps its match, peer, name and
  status; and the match is off the registry.
\<close>

theorem match_end_frees:
  "(\<forall>s c. client_of (end_bout w env alive ml outcome a) (ml_id ml s) = Some c \<longrightarrow>
      cl_bout c = None \<and> cl_match_id c = None \<and> cl_peer c = None \<and> (cl_name c \<noteq> [] \<longrightarrow> cl_status c \<in> {None, Some Available})) \<and>
   (\<forall>k. (\<forall>s. k \<noteq> ml_id ml s) \<longrightarrow>
      map_option station (client_of (end_bout w env alive ml outcome a) k) = map_option station (client_of a k)) \<and>
   map_of (ap_bouts (end_bout w env alive ml outcome a)) (ml_match_id ml) = None"
proof -
  obtain b where b: "books_only (unbound ml a) b" "end_bout w env alive ml outcome a = b\<lparr>ap_open := removeAll (ml_match_id ml) (ap_open b)\<rparr>"
    using end_bout_effect [of ml a w env alive outcome] by blast
  have same: "map_option station (client_of b k) = map_option station (client_of (unbound ml a) k)" for k
    using b(1) unfolding books_only_def by blast
  have "cl_bout c = None \<and> cl_match_id c = None \<and> cl_peer c = None \<and> (cl_name c \<noteq> [] \<longrightarrow> cl_status c \<in> {None, Some Available})"
    if prem: "client_of b (ml_id ml s) = Some c" for s c
  proof -
    obtain d where "client_of (unbound ml a) (ml_id ml s) = Some d" "station d = station c"
      using books_only_client [OF b(1) prem] by blast
    moreover from this(1) obtain x where "d = leave_bout x"
      by (cases s) (auto simp: unbound_client split: if_splits)
    ultimately show ?thesis
      by (cases "cl_prev_status x") (auto simp: station_def leave_bout_def post_bout_status_def)
  qed
  moreover have "map_option station (client_of b k) = map_option station (client_of a k)" if "\<forall>s. k \<noteq> ml_id ml s" for k
    using same that by (simp add: unbound_client option.map_ident)
  moreover have "ap_bouts b = AList.delete (ml_match_id ml) (ap_bouts a)"
    using end_bout_registry(1) [of w env alive ml outcome a] by (simp add: b(2))
  then have "map_of (ap_bouts b) (ml_match_id ml) = None" by (simp add: AList.delete_conv')
  ultimately show ?thesis by (simp add: b(2))
qed

subsection \<open>A run of the server\<close>

text \<open>Two visitors connect and press the button; they are paired, the first one leaves the match, and it is settled.\<close>

definition queue_frame :: "string \<Rightarrow> client_frame" where
  "queue_frame name = blank_frame\<lparr>cf_type := Some ''queue'', cf_name := Some name\<rparr>"

definition leave_frame :: client_frame where
  "leave_frame = blank_frame\<lparr>cf_type := Some ''leaveMatch''\<rparr>"

lemma join_queue:
  assumes "client_of a k = Some c" "cl_bout c = None" "\<not> ap_draining a" "ap_ratings a = []" "sanitize_name n = Some n" "n \<noteq> []"
    and b: "b = upd_client k (\<lambda>c. c\<lparr>cl_name := n, cl_state := rating_for a n, cl_status := Some Searching\<rparr>) a"
  shows "lobby_step w (Frame k (queue_frame n)) a = (maybe_broadcast_players (fst (try_match w k b)), snd (try_match w k b))"
proof -
  have "resolve_name w a (queue_frame n) (name_of a k) = n"
    using assms(4,5) by (simp add: resolve_name_def bare_name_def queue_frame_def blank_frame_def)
  then have "on_queue w k (queue_frame n) a = (maybe_broadcast_players (fst (try_match w k b)), snd (try_match w k b))"
    using assms by (simp add: on_queue_def client_is_def Let_def split_beta)
  then show ?thesis using assms(3)
    by (simp add: handle_message_def queue_frame_def blank_frame_def reject_if_draining_def)
qed

lemma start_bout_controls:
  "start_bout w x y q a = (a', Some pb) \<Longrightarrow> ap_controls a' (wd_match_id w) = []"
  by (auto simp: start_bout_def Let_def split: if_splits option.splits)

lemma players_controls [simp]: "ap_controls (maybe_broadcast_players a) m = ap_controls a m"
  by simp

lemma two_visitors:
  obtains a st where "serves \<lparr>sv_app = a, sv_loops = [], sv_ended = [], sv_used = []\<rparr>"
    "client_of a = (\<lambda>k. if k = ''c2'' \<or> k = ''c1'' then Some (client_new st) else None)"
    "ap_waiting a = []" "\<not> ap_draining a" "ap_ratings a = []" "ap_settled a = []"
proof -
  let ?a0 = "app_new empty_db Sqlite []"
  let ?a1 = "connect ''c1'' ?a0" and ?a2 = "connect ''c2'' (connect ''c1'' ?a0)"
  let ?st = "rating_for ?a0 []"
  have a0: "client_of ?a0 k = None" for k by (simp add: app_new_def client_of_def)
  have st: "rating_for (connect k a) [] = rating_for a []" for k a by (rule rating_for_cong) (simp_all add: connect_def)
  have c: "client_of (connect k a) = (\<lambda>j. if j = k then Some (client_new (rating_for a [])) else client_of a j)" for k a
    by (rule ext) (simp add: connect_def client_of_def update_conv')
  have "serves \<lparr>sv_app = ?a0, sv_loops = [], sv_ended = [], sv_used = []\<rparr>"
    using sv_start [of empty_db Sqlite "[]"] by (simp add: server_new_def)
  from sv_step [OF this sv_event [of "Connect ''c1''" _ small_world]]
  have "serves \<lparr>sv_app = ?a1, sv_loops = [], sv_ended = [], sv_used = []\<rparr>" by (simp add: a0)
  from sv_step [OF this sv_event [of "Connect ''c2''" _ small_world]]
  have "serves \<lparr>sv_app = ?a2, sv_loops = [], sv_ended = [], sv_used = []\<rparr>" by (simp add: a0 c)
  moreover have "client_of ?a2 = (\<lambda>k. if k = ''c2'' \<or> k = ''c1'' then Some (client_new ?st) else None)"
    by (rule ext) (simp add: c st a0)
  moreover have "ap_waiting ?a2 = []" "\<not> ap_draining ?a2" "ap_ratings ?a2 = []" "ap_settled ?a2 = []" by (simp_all add: connect_def app_new_def)
  ultimately show thesis by (rule that)
qed

lemma sanitized_names: "sanitize_name ''Ann'' = Some ''Ann''" "sanitize_name ''Bob'' = Some ''Bob''"
  by code_simp+

text \<open>The first visitor finds nobody and waits; the second finds the first.\<close>

lemma first_waits:
  obtains a st where "serves \<lparr>sv_app = a, sv_loops = [], sv_ended = [], sv_used = []\<rparr>" "ap_waiting a = [''c1'']"
    "\<exists>c. client_of a ''c1'' = Some c \<and> cl_bout c = None \<and> \<not> cl_is_bot c" "client_of a ''c2'' = Some (client_new st)"
    "\<forall>k. k \<noteq> ''c1'' \<and> k \<noteq> ''c2'' \<longrightarrow> client_of a k = None" "\<not> ap_draining a" "ap_ratings a = []" "ap_settled a = []"
proof -
  obtain a st where a: "serves \<lparr>sv_app = a, sv_loops = [], sv_ended = [], sv_used = []\<rparr>"
    "client_of a = (\<lambda>k. if k = ''c2'' \<or> k = ''c1'' then Some (client_new st) else None)"
    "ap_waiting a = []" "\<not> ap_draining a" "ap_ratings a = []" "ap_settled a = []" by (rule two_visitors)
  define b where "b = upd_client ''c1'' (\<lambda>c. c\<lparr>cl_name := ''Ann'', cl_state := rating_for a ''Ann'', cl_status := Some Searching\<rparr>) a"
  have k: "client_of a ''c1'' = Some (client_new st)" "cl_bout (client_new st) = None" by (simp_all add: a(2) client_new_def)
  let ?c = "maybe_broadcast_players (b\<lparr>ap_waiting := [''c1'']\<rparr>)"
  have "\<not> is_match_candidate b ''c1'' cid" for cid
    by (auto simp: is_match_candidate_def client_is_def b_def a(2,3) client_new_def)
  then have "best_opponent small_world ''c1'' mine b = None" for mine
    using best_opponent_cases [where w = small_world and k = "''c1''" and mine = mine and a = b] by (auto split: option.splits)
  then have t: "try_match small_world ''c1'' b = (b\<lparr>ap_waiting := [''c1'']\<rparr>, None)"
    by (simp add: try_match_def b_def a(2,3) client_new_def)
  have "lobby_step small_world (Frame ''c1'' (queue_frame ''Ann'')) a = (?c, None)"
    using join_queue [OF k(1,2) a(4,5) sanitized_names(1) _ b_def] by (simp add: t)
  from sv_step [OF a(1) sv_event [of "Frame ''c1'' (queue_frame ''Ann'')" _ small_world]] this
  have "serves \<lparr>sv_app = ?c, sv_loops = [], sv_ended = [], sv_used = []\<rparr>" by (simp add: a(2))
  then show thesis
    by (rule that [where st = st]) (simp_all add: b_def a client_new_def)
qed

lemma visitors_paired:
  obtains a ml where "serves \<lparr>sv_app = a, sv_loops = [ml], sv_ended = [], sv_used = [''m1'']\<rparr>" "ml_match_id ml = ''m1''"
    "own_bout a ''c1'' = Some (''m1'', Side_A)" "ap_controls a ''m1'' = []" "client_of a ''c1'' \<noteq> None" "ap_ratings a = []"
    "bo_tick (ml_bout ml) = 0" "loop_ok ml" "ap_settled a = []"
proof -
  obtain a st where a: "serves \<lparr>sv_app = a, sv_loops = [], sv_ended = [], sv_used = []\<rparr>" "ap_waiting a = [''c1'']"
    "\<exists>c. client_of a ''c1'' = Some c \<and> cl_bout c = None \<and> \<not> cl_is_bot c" "client_of a ''c2'' = Some (client_new st)"
    "\<forall>k. k \<noteq> ''c1'' \<and> k \<noteq> ''c2'' \<longrightarrow> client_of a k = None" "\<not> ap_draining a" "ap_ratings a = []" "ap_settled a = []" by (rule first_waits)
  define b where "b = upd_client ''c2'' (\<lambda>c. c\<lparr>cl_name := ''Bob'', cl_state := rating_for a ''Bob'', cl_status := Some Searching\<rparr>) a"
  obtain c1 where c1: "client_of b ''c1'' = Some c1" "cl_bout c1 = None" "\<not> cl_is_bot c1" using a(3) by (auto simp: b_def)
  obtain c2 where c2: "client_of b ''c2'' = Some c2" "cl_bout c2 = None" "\<not> cl_is_bot c2"
    using a(4) by (auto simp: b_def client_new_def)
  have none: "client_of b k = None" if "k \<noteq> ''c1''" "k \<noteq> ''c2''" for k using a(5) that by (simp add: b_def)
  have cand: "is_match_candidate b ''c2'' cid \<longleftrightarrow> cid = ''c1''" for cid
  proof -
    have w: "ap_waiting b = [''c1'']" using a(2) by (simp add: b_def)
    consider "cid = ''c1''" | "cid = ''c2''" | "cid \<noteq> ''c1''" "cid \<noteq> ''c2''" by blast
    then show ?thesis
      by cases (simp_all add: is_match_candidate_def client_is_def c1 c2 none w)
  qed
  obtain q where q: "best_opponent small_world ''c2'' (ps_rating (cl_state c2)) b = Some (''c1'', q)"
    using best_opponent_cases [where w = small_world and k = "''c2''" and mine = "ps_rating (cl_state c2)" and a = b] cand
    by (auto split: option.splits)
  have d: "\<not> ap_draining b" using a(6) by (simp add: b_def)
  have ne: "''c1'' \<noteq> ''c2''" by simp
  obtain e pb where s: "start_bout small_world ''c1'' ''c2'' (Some q) b = (e, Some pb)"
    "paired (wd_match_id small_world) ''c1'' ''c2'' c1 c2 b e" "pb_match_id pb = wd_match_id small_world"
    using start_bout_pairs [OF d c1(1) c2(1) ne] by metis
  have m1: "wd_match_id small_world = ''m1''" by (simp add: small_world_def)
  have t: "try_match small_world ''c2'' b = (e, Some pb)" using q s(1) c2 by (simp add: try_match_def)
  have step: "lobby_step small_world (Frame ''c2'' (queue_frame ''Bob'')) a = (maybe_broadcast_players e, Some pb)"
    using join_queue [OF a(4) _ a(6,7) sanitized_names(2) _ b_def] by (simp add: client_new_def t)
  obtain ml where ml: "loop_new pb = Some ml" "loop_ok ml" "bo_tick (ml_bout ml) = 0" "ml_match_id ml = pb_match_id pb" by (rule loop_start)
  have "serves \<lparr>sv_app = maybe_broadcast_players e, sv_loops = [ml], sv_ended = [], sv_used = [''m1'']\<rparr>"
    using sv_step [OF a(1) sv_open [of "Frame ''c2'' (queue_frame ''Bob'')" _ small_world _ pb ml]] step ml(1) a(4) by (simp add: m1)
  moreover have "client_of e ''c1'' = Some (enter_bout ''m1'' Side_A (c1\<lparr>cl_peer := Some ''c2''\<rparr>))" using s(2) by (simp add: paired_def m1)
  moreover have "ap_controls e ''m1'' = []" using start_bout_controls [OF s(1)] by (simp add: m1)
  moreover have "ap_ratings e = []" using s(2) a(7) by (simp add: paired_def b_def)
  moreover have "ap_settled e = []" using s(2) a(8) by (simp add: paired_def b_def)
  ultimately show thesis using that ml s(3) by (simp add: own_bout_def m1)
qed

lemma forfeit_sent:
  assumes "own_bout a ''c1'' = Some (''m1'', Side_A)" "ap_controls a ''m1'' = []" "map_of (ap_bouts a) ''m1'' \<noteq> None" "''m1'' \<in> set (ap_open a)"
  shows "lobby_step w (Frame ''c1'' leave_frame) a = (a\<lparr>ap_controls := (ap_controls a)(''m1'' := [Forfeit Side_A])\<rparr>, None)"
  using assms
  by (auto simp: handle_message_def leave_frame_def blank_frame_def on_leave_match_def tell_own_bout_def try_control_def BOUT_CONTROL_CAP_def)

lemma forfeited_run:
  obtains S ml where "serves S" "sv_ended S = [(ml, Some False)]" "ml_match_id ml = ''m1''" "ap_settled (sv_app S) = []"
proof -
  obtain a ml where a: "serves \<lparr>sv_app = a, sv_loops = [ml], sv_ended = [], sv_used = [''m1'']\<rparr>" "ml_match_id ml = ''m1''"
    "own_bout a ''c1'' = Some (''m1'', Side_A)" "ap_controls a ''m1'' = []" "client_of a ''c1'' \<noteq> None" "ap_ratings a = []"
    "bo_tick (ml_bout ml) = 0" "loop_ok ml" "ap_settled a = []" by (rule visitors_paired)
  let ?b = "a\<lparr>ap_controls := (ap_controls a)(''m1'' := [Forfeit Side_A])\<rparr>"
  let ?S = "\<lparr>sv_app = ?b, sv_loops = [ml], sv_ended = [], sv_used = [''m1'']\<rparr>"
  have "set (map fst (ap_bouts a)) = {''m1''}" "set (ap_open a) = {''m1''}"
    using serves_ok [OF a(1)] a(2) by (simp_all add: server_ok_def live_ids_def)
  then have "map_of (ap_bouts a) ''m1'' \<noteq> None" "''m1'' \<in> set (ap_open a)" by (auto simp: map_of_eq_None_iff)
  from sv_step [OF a(1) sv_event [of "Frame ''c1'' leave_frame" _ small_world]] forfeit_sent [OF a(3,4) this, of small_world]
  have S: "serves ?S" using a(5) by simp
  let ?t = "meets 32 (\<lambda>_. True) ?b ml"
  have c: "newest_forfeit (tn_controls ?t) = Some Side_A" by (simp add: meets_def a(2) newest_forfeit_def)
  have tick: "unat (bo_tick (ml_bout ml)) + 1 < 2 ^ 32" by (simp add: a(7))
  have "tn_controls ?t = [Forfeit Side_A]" by (simp add: meets_def a(2))
  then have t: "turn ?t ml = Some (ml, [], Break (Some False), False)" by (simp add: turn_def loop_tick_def a(2))
  from sv_step [OF S sv_verdict [of _ "[]" ml "[]"]] t tick
  have "serves (?S\<lparr>sv_app := taken (ml_match_id ml) False [] ?b, sv_loops := [], sv_ended := [(ml, Some False)]\<rparr>)" by simp
  then show thesis by (rule that [of _ ml]) (simp_all add: a(2,9))
qed

theorem match_rated_once_witness:
  "\<exists>S S' ml w. serves S \<and> server_step S S' \<and> ap_settled (sv_app S) = [] \<and> ap_settled (sv_app S') = [''m1''] \<and>
     (ml, Some False) \<in> set (sv_ended S) \<and>
     ap_ratings (sv_app S') =
         AList.update (ml_name ml Side_B) (row_of (snd (rerated w (ap_params (sv_app S)) ml False)))
           (AList.update (ml_name ml Side_A) (row_of (fst (rerated w (ap_params (sv_app S)) ml False))) (ap_ratings (sv_app S)))"
proof -
  obtain S ml where S: "serves S" "sv_ended S = [(ml, Some False)]" "ml_match_id ml = ''m1''" "ap_settled (sv_app S) = []" by (rule forfeited_run)
  define env where "env = \<lparr>ae_json = (\<lambda>_. []), ae_sha = ''dev'', ae_put_ok = True, ae_now_secs = 0\<rparr>"
  let ?S = "S\<lparr>sv_app := end_bout small_world env (\<lambda>_. True) ml (Some False) (sv_app S), sv_ended := []\<rparr>"
  have step: "server_step S ?S" using sv_end [of S "[]" ml "Some False" "[]"] S(2) by simp
  have "ap_settled (sv_app ?S) = [''m1'']" using end_bout_registry(3) [of ml "sv_app S" small_world env "\<lambda>_. True" "Some False"] S(3,4) by simp
  moreover from match_rated_once [OF S(1) step] this S(4) obtain ml' a_won w where
    m: "(ml', Some a_won) \<in> set (sv_ended S)" and r: "ap_ratings (sv_app ?S) =
         AList.update (ml_name ml' Side_B) (row_of (snd (rerated w (ap_params (sv_app S)) ml' a_won)))
           (AList.update (ml_name ml' Side_A) (row_of (fst (rerated w (ap_params (sv_app S)) ml' a_won))) (ap_ratings (sv_app S)))"
    by fastforce
  have "ml' = ml" "a_won = False" using m S(2) by simp_all
  then have "(ml, Some False) \<in> set (sv_ended S) \<and> ap_ratings (sv_app ?S) =
         AList.update (ml_name ml Side_B) (row_of (snd (rerated w (ap_params (sv_app S)) ml False)))
           (AList.update (ml_name ml Side_A) (row_of (fst (rerated w (ap_params (sv_app S)) ml False))) (ap_ratings (sv_app S)))"
    using m r by simp
  ultimately show ?thesis using S(1,4) step
    by (intro exI [of _ S] exI [of _ ?S] exI [of _ ml] exI [of _ w]) simp
qed

theorem server_books_sound_witness:
  "\<exists>S. serves S \<and> ''m1'' \<in> set (live_ids S) \<and> ''m1'' \<in> set (map fst (ap_bouts (sv_app S))) \<and> lobby_ok (sv_app S)"
proof -
  obtain S ml where S: "serves S" "sv_ended S = [(ml, Some False)]" "ml_match_id ml = ''m1''" by (rule forfeited_run)
  have "''m1'' \<in> set (live_ids S)" using S(2,3) by (simp add: live_ids_def)
  moreover have "set (map fst (ap_bouts (sv_app S))) = set (live_ids S)" "lobby_ok (sv_app S)"
    using server_books_sound [OF S(1)] by blast+
  ultimately show ?thesis using S(1) by blast
qed

theorem match_end_frees_witness:
  "\<exists>S ml. serves S \<and> ml_match_id ml = ''m1'' \<and> (\<forall>env c. client_of (end_bout small_world env (\<lambda>_. True) ml (Some False) (sv_app S)) (ml_id ml Side_A) = Some c \<longrightarrow>
     cl_bout c = None \<and> cl_peer c = None)"
proof -
  obtain S ml where S: "serves S" "sv_ended S = [(ml, Some False)]" "ml_match_id ml = ''m1''" by (rule forfeited_run)
  then show ?thesis using match_end_frees [of small_world _ "\<lambda>_. True" ml "Some False" "sv_app S"] by blast
qed

end
