(* ===== verification/Spec2Isabelle.thy ===== *)
theory Spec2Isabelle
  imports EngineProps GameProps Keyframe Display Channel Playback Host Netcode Reconcile Browser BotProps Server
begin

text \<open>
  \<^bold>\<open>BattleTris: the game, the match, the network and the computer opponents\<close>

  A verification library for the Rust workspace under \<open>src/rust\<close>. The game is a two-player falling-piece
  game with weapons: each side has a board, a stream of pieces, an arsenal and funds, and both shop in a
  bazaar every twenty combined lines. The rules are one deterministic engine (\<open>bt-core\<close>), which the
  server (\<open>bt-server\<close>), the browser (\<open>bt-wasm\<close>), the bots (\<open>bt-bot\<close>) and the playback of recordings
  (\<open>bt-replay\<close>) all run; the online client predicts its own side and reconciles (\<open>bt-netcode\<close>), and
  \<open>bt-ai\<close> plays the computer's side.

  \<^bold>\<open>The theories and the code\<close>

  \<^item> \<open>Prelude\<close>: machine integers and casts, ranges, loops that may fail (\<open>fold_opt\<close>, \<open>returns\<close>).
  \<^item> \<open>Constants\<close>, \<open>Weapons\<close>, \<open>Cells\<close>, \<open>Arsenals\<close>, \<open>Rng\<close>, \<open>Spy\<close>: the files of \<open>bt-core/src\<close> of these names.
  \<^item> \<open>Grids\<close>: the locale \<open>grid\<close> of a rectangular store with read and write, and its loops. \<open>Board\<close> (\<open>board.rs\<close>)
    interprets it; \<open>Lines\<close> proves what the row loops do; \<open>BoardWeapons\<close> is the part of \<open>board.rs\<close> that
    weapons call, with the locale \<open>rejection\<close> for the loops that draw until a square fits.
  \<^item> \<open>Piece\<close> (\<open>piece.rs\<close>), \<open>PieceManager\<close> (\<open>piece_manager.rs\<close>): the shapes, their rotation tables, landing, and
    the stream with its weights. \<open>EngineProps\<close> holds the properties of all of these.
  \<^item> \<open>Game\<close> (\<open>game.rs\<close>): the record \<open>game\<close> has the fields of the struct \<open>Game\<close>, one definition per method. \<open>GameInv\<close>
    is its invariant, \<open>GameSteps\<close> the proof that every step returns and keeps it, with \<open>reachable\<close>, the
    games that the operations can produce, keyframes of reachable games included; \<open>GameProps\<close> holds the properties.
    Outside it are a keyframe from elsewhere, whose \<open>old_piece\<close> \<open>restore\<close> does not check, and a board changed by hand
    through \<open>board_mut\<close>.
  \<^item> \<open>Keyframe\<close>: \<open>Game::snapshot\<close> and \<open>restore\<close>, over the locale \<open>codec\<close> of a value and its reader.
  \<^item> \<open>Display\<close>: the opponent's score and funds and the event queue never influence a game. \<open>Reports\<close>: what
    the events tell about it.
  \<^item> \<open>Inputs\<close> and \<open>Replay\<close> (\<open>bt-replay/src/lib.rs\<close>): the inputs, the recorder and both players. \<open>Playback\<close> proves
    them, over the locales \<open>playback\<close> (a player steps and seeks) and \<open>tracking\<close> (a live run and the timeline of
    its recording); both are interpreted on the single game, on the hosted match and on the match
    against the computer.
  \<^item> \<open>Versus\<close> (\<open>versus.rs\<close>): the match relay. \<open>Channel\<close>: its promises, and the channel of effects to a client.
  \<^item> \<open>Bout\<close> (\<open>bt-server/src/bout.rs\<close>): the server's match. \<open>MatchReplay\<close>: its recording. \<open>Host\<close>: what a client can
    do to it and see of it.
  \<^item> \<open>Netcode\<close> (\<open>bt-netcode/src/lib.rs\<close>): the predictor. \<open>Reconcile\<close>: its promises against the host.
  \<^item> \<open>Doubles\<close>: double-precision arithmetic as rationals rounded after each operation. \<open>Placement\<close>
    (\<open>bt-ai/src/lib.rs\<close>): the heuristics and the placement search. \<open>Commando\<close> (\<open>ernie.rs\<close>): the computer's weapon
    orders. \<open>Computer\<close>: its turn. \<open>VsComputer\<close> (\<open>vs.rs\<close>): the match against it. \<open>BotWeapons\<close> (\<open>weapons.rs\<close>): the
    bots' weapon policy.
  \<^item> \<open>Browser\<close> (\<open>bt-wasm/src/lib.rs\<close>): the classes the page calls.
  \<^item> \<open>Bot\<close> (\<open>bt-bot/src/sync.rs\<close>, \<open>bt-bot/src/main.rs\<close>): the networked bot and the roaming challenger. \<open>BotProps\<close>:
    their promises.
  \<^item> \<open>Ratings\<close> (\<open>bt-trueskill/src\<close>): TrueSkill and its second version. \<open>Identity\<close> (\<open>bt-identity/src/lib.rs\<close>): names and
    tokens. The rest of the server is \<open>bt-server/src/main.rs\<close>: \<open>Standings\<close> (the players' table, the ladder), \<open>Archive\<close>
    (the recordings, with its properties in \<open>ArchiveProps\<close>), \<open>Lobby\<close> (the application state \<open>app\<close>, one definition per
    arm of \<open>handle_message\<close>, connections, administration) and \<open>MatchLoop\<close> (\<open>run_bout\<close>: one turn of its loop, and
    what it does at the end). \<open>LobbyInv\<close> is the invariant of the lobby, \<open>LobbySteps\<close> the proof that every event keeps
    it, \<open>LobbyProps\<close> and \<open>LoopProps\<close> hold the properties of the two, and \<open>Server\<close> composes them: the reachable
    states of the lobby with all its running matches, by rule induction.

  \<^bold>\<open>How state and errors are modelled\<close>

  A struct is a record and a method a function from the old state to the new one, returned with the
  method's result where it has one. A step that can panic or loop is an option (\<open>tick\<close>, \<open>create\<close>,
  \<open>throw_box\<close>, the ticks of every match and of the bot), and that it returns on every state the program
  reaches is a theorem of its own (termination). Words have the widths of the source where it wraps,
  shifts or hashes (the generator, the lock hash, quantities, sequence numbers, tick counters); \<open>i32\<close> and
  \<open>i64\<close> are integers with the casts written out, since no operation on a reachable state comes near
  their ends, and the keyframe theorems state the ranges they need. Rust's release build wraps, which
  is what the words do. A double is a rational rounded to 53 bits after every operation (\<open>r64\<close>), without infinities, NaN or
  subnormal numbers. The sums of the placement search cannot leave its range, which the size lemmas of \<open>Placement\<close> show. An
  update of a rating can, if the rating is large enough (the square of an uncertainty above 1.3e154), so the property
  of the ratings is stated for the range \<open>sane\<close>.
  Arrays indexed by a side are functions of the side. The clock, the environment and the iteration
  order of a hash map are arguments; in the lobby a hash map is an association list, in the order in which
  it is iterated.

  A step of the server is a critical section of the lobby's lock, a turn of a match's loop, or the end of a
  match; they interleave freely. A turn drains its two channels at its start, and the frames that reach them
  while it runs belong to the next one. What the code takes from elsewhere is an argument, with what it
  relies on as hypotheses where a property needs them: a new match id is fresh (a random UUID), the hash of
  a string, \<open>exp\<close> and \<open>ln\<close>, HMAC with base64 and JSON, the parsers of a recording, whether a put into the bucket and the insertion of an upload into the database succeed (other
  calls of the database, whose failure the code logs or skips, are taken to succeed), and
  whether the receiver of a connection still lives.

  Loops are recursive functions with a measure, or partial functions where the code may not end: the
  rejection loops end on every generator state because the generator has full period, and the drop of
  the search because a piece has a cell. The counted loops of the source (256 passes of the shopping,
  256 draws, the rotation and slide caps) keep their counts, so no fuel is added anywhere.

  \<^bold>\<open>What is proved\<close>

  \<^item> The engine: clearing drops exactly the full rows and leaves none; raising, flipping and walls; rotation is
    undone by the opposite turn and never overlaps; piece creation ends; the generator's period.
  \<^item> The game: every tick returns; the redundant state agrees; the falling piece stays clear; a lock refines
    the abstract board step; the bazaar opens at the twentieth line and trades at its price; taxes.
  \<^item> Keyframes: a round trip on every game that keeps the invariant, has its integers in the ranges of their types, at most
    1024 weapons waiting (\<open>restore\<close> refuses more) and no wrapped count in its arsenal; and rejection that leaves the
    game unchanged.
  \<^item> The match: ticks return, the result, the swap, and the channel: a client that applies the relayed effects
    sees the host's game.
  \<^item> Recordings of one game, of a hosted match and of a match against the computer replay exactly; seeking
    lands where stepping does.
  \<^item> The network: a client can only play, a snapshot hides what no spy shows, a keyframe puts a client
    back on its host, and a request for one needs two disagreeing locks.
  \<^item> The opponents: the search finds the first best legal landing; the computer pays for what it buys and launches
    what it may; the bot plans within its means, keeps to the server's pace, leaves the bazaar, and
    leaves alone who declined.
  \<^item> The server: who is paired with whom; a match keeps its players until it ends, ends, waits for a lost player
    but not for ever, is rated exactly once by the engine's result, is archived so that it replays, and
    frees its players; the roster; the books agree in every reachable state; a rated name other than \<open>anon\<close> needs its token.
  \<^item> Ratings stay valid and ignore the seats; a player's record tells its history; an upload is served back, and
    the migration of the archive loses nothing.

  \<^bold>\<open>Not modelled\<close>

  The sockets, tasks and locks of the server, the HTTP routing and the static files, its metrics
  (\<open>metrics.rs\<close>), the database schema, \<open>VACUUM\<close> and the file of ratings, and the reading of secrets and of the
  environment: they hold no rule of the program, or are calls of libraries. The one rule in them, which paths
  are static, is \<open>is_static_path\<close>. JSON is left to serde and wasm-bindgen's conversions to it: a
  message is the record of its fields. Methods that only read a field for the display, display strings,
  colors and log lines are left out, as are the tests.
\<close>

end
